(* ===== verification/Prelude.thy ===== *)
theory Prelude
  imports Complex_Main "HOL-Library.Word" "HOL-Library.AList"
begin

text \<open>
  Shared vocabulary of the development.

  \<^item> Bytes and register words are words of their width, so that masking, shifting and the
    wrap-around of the source's bit arithmetic are the library's.
  \<^item> Times, addresses and counts that the source keeps as integral \<open>number\<close>s are \<open>int\<close> or
    \<open>nat\<close>; quantities (watts, volts, prices) are exact rationals, type \<open>number\<close>. Rounding of
    IEEE doubles is not modelled; overflow to infinity is, by \<open>is_finite\<close> below, where the
    source tests for it.
  \<^item> A JavaScript \<open>Map\<close> is an association list in insertion order: setting a present key
    keeps its place, setting a new one appends it, exactly as \<open>AList.update\<close> does. An object
    used as a dictionary is one too.
\<close>

type_synonym byte = "8 word"
type_synonym number = rat
type_synonym millis = int
type_synonym ('k, 'v) js_map = "('k \<times> 'v) list"

named_theorems wire_simps \<open>unfolding rules for byte-level codecs\<close>
named_theorems step_defs \<open>unfolding rules for the handlers of a state machine\<close>

subsection \<open>Finite doubles\<close>

text \<open>\<open>Number.isFinite\<close> on an exact value: a magnitude that a double can carry.\<close>

definition max_double :: number where
  "max_double = 2 ^ 1024 - 2 ^ 970"

definition is_finite :: "number \<Rightarrow> bool" where
  "is_finite x \<longleftrightarrow> \<bar>x\<bar> < max_double"

text \<open>\<open>Math.round\<close> rounds a half up.\<close>

definition math_round :: "number \<Rightarrow> int" where
  "math_round x = \<lfloor>x + 1 / 2\<rfloor>"

lemma math_round_of_int [simp]: "math_round (of_int i) = i"
  unfolding math_round_def by (rule floor_unique) auto

lemma math_round_error: "\<bar>of_int (math_round x) - x\<bar> \<le> 1 / 2"
proof -
  have "of_int \<lfloor>x + 1 / 2\<rfloor> \<le> x + 1 / 2" and "x + 1 / 2 < of_int \<lfloor>x + 1 / 2\<rfloor> + 1"
    by linarith+
  then show ?thesis unfolding math_round_def by linarith
qed

subsection \<open>Insertion-ordered maps\<close>

abbreviation js_get :: "('k, 'v) js_map \<Rightarrow> 'k \<Rightarrow> 'v option" where
  "js_get m k \<equiv> map_of m k"

abbreviation js_set :: "'k \<Rightarrow> 'v \<Rightarrow> ('k, 'v) js_map \<Rightarrow> ('k, 'v) js_map" where
  "js_set k v m \<equiv> AList.update k v m"

abbreviation js_delete :: "'k \<Rightarrow> ('k, 'v) js_map \<Rightarrow> ('k, 'v) js_map" where
  "js_delete k m \<equiv> AList.delete k m"

lemma js_get_set [simp]: "js_get (js_set k v m) k' = (if k = k' then Some v else js_get m k')"
  by (simp add: update_conv')

lemma js_get_delete [simp]: "js_get (js_delete k m) k' = (if k = k' then None else js_get m k')"
  by (simp add: delete_conv')

lemma js_set_distinct: "distinct (map fst m) \<Longrightarrow> distinct (map fst (js_set k v m))"
  by (rule distinct_update)

lemma js_delete_distinct: "distinct (map fst m) \<Longrightarrow> distinct (map fst (js_delete k m))"
  by (rule distinct_delete)

subsection \<open>Lists\<close>

lemma take_drop_split: "n \<le> length xs \<Longrightarrow> take n xs @ drop n xs = xs"
  by simp

lemma nth_append_left [simp]: "i < length xs \<Longrightarrow> (xs @ ys) ! i = xs ! i"
  by (simp add: nth_append)


text \<open>A JavaScript \<open>Set\<close> is a list without repetitions, in insertion order.\<close>

definition set_add :: "'a \<Rightarrow> 'a list \<Rightarrow> 'a list" where
  "set_add x s = (if x \<in> set s then s else s @ [x])"

definition set_adds :: "'a list \<Rightarrow> 'a list \<Rightarrow> 'a list" where
  "set_adds xs s = fold set_add xs s"

lemma set_set_add [simp]: "set (set_add x s) = insert x (set s)"
  by (auto simp: set_add_def)

lemma distinct_set_add [simp]: "distinct (set_add x s) \<longleftrightarrow> distinct s"
  by (simp add: set_add_def)

lemma set_set_adds [simp]: "set (set_adds xs s) = set xs \<union> set s"
  by (induction xs arbitrary: s) (auto simp: set_adds_def)

lemma distinct_set_adds [simp]: "distinct (set_adds xs s) \<longleftrightarrow> distinct s"
  by (induction xs arbitrary: s) (auto simp: set_adds_def)

text \<open>
  The loop \<open>for (x of xs) { last = out.at(-1); if (last && \<dots>) grow last; else out.push(\<dots>) }\<close>.
  The accumulator is kept with its last element first. \<open>grow last x\<close> is \<open>None\<close> when the
  condition fails.
\<close>

fun fold_last :: "('b \<Rightarrow> 'a \<Rightarrow> 'b option) \<Rightarrow> ('a \<Rightarrow> 'b) \<Rightarrow> 'b list \<Rightarrow> 'a list \<Rightarrow> 'b list" where
  "fold_last grow mk acc [] = rev acc"
| "fold_last grow mk [] (x # xs) = fold_last grow mk [mk x] xs"
| "fold_last grow mk (b # acc) (x # xs) =
     (case grow b x of
        Some b' \<Rightarrow> fold_last grow mk (b' # acc) xs
      | None \<Rightarrow> fold_last grow mk (mk x # b # acc) xs)"

lemma fold_last_induct:
  assumes "I acc xs"
    and "\<And>x xs. I [] (x # xs) \<Longrightarrow> I [mk x] xs"
    and "\<And>b acc x xs b'. I (b # acc) (x # xs) \<Longrightarrow> grow b x = Some b' \<Longrightarrow> I (b' # acc) xs"
    and "\<And>b acc x xs. I (b # acc) (x # xs) \<Longrightarrow> grow b x = None \<Longrightarrow> I (mk x # b # acc) xs"
  shows "I (rev (fold_last grow mk acc xs)) []"
  using assms(1)
proof (induction xs arbitrary: acc)
  case (Cons x xs)
  then show ?case using assms(2-4) by (cases acc) (auto split: option.split)
qed simp


lemma set_map_filter: "set (List.map_filter f xs) = {y. \<exists>x\<in>set xs. f x = Some y}"
  by (induction xs) (auto simp: map_filter_simps split: option.split)

subsection \<open>Handlers: a new state and the effects it causes, in order\<close>

definition andThen :: "'s \<times> 'e list \<Rightarrow> ('s \<Rightarrow> 's \<times> 'e list) \<Rightarrow> 's \<times> 'e list" where
  "andThen r f = (case r of (s, es) \<Rightarrow> case f s of (s', es') \<Rightarrow> (s', es @ es'))"

definition emit :: "'e list \<Rightarrow> 's \<Rightarrow> 's \<times> 'e list" where
  "emit es s = (s, es)"

fun run_steps :: "('s \<Rightarrow> 'x \<Rightarrow> 's \<times> 'e list) \<Rightarrow> 's \<Rightarrow> 'x list \<Rightarrow> 's \<times> 'e list" where
  "run_steps f s [] = (s, [])"
| "run_steps f s (x # xs) = andThen (f s x) (\<lambda>s'. run_steps f s' xs)"

lemma andThen_simps [simp]:
  "andThen (s, es) f = (fst (f s), es @ snd (f s))"
  by (simp add: andThen_def split: prod.split)

lemma fst_andThen: "fst (andThen r f) = fst (f (fst r))"
  and snd_andThen: "snd (andThen r f) = snd r @ snd (f (fst r))"
  by (cases r, simp)+

lemma run_steps_append:
  "run_steps f s (xs @ ys) = andThen (run_steps f s xs) (\<lambda>s'. run_steps f s' ys)"
  by (induction xs arbitrary: s) (auto simp: fst_andThen snd_andThen prod_eq_iff)

text \<open>An invariant of every step holds along a run.\<close>

lemma run_steps_invariant:
  assumes "\<And>s x. I s \<Longrightarrow> P x \<Longrightarrow> I (fst (f s x))" and "list_all P xs" and "I s"
  shows "I (fst (run_steps f s xs))"
  using assms(2,3)
proof (induction xs arbitrary: s)
  case (Cons x xs)
  then have "I (fst (f s x))" using assms(1) by simp
  with Cons show ?case by (simp add: fst_andThen)
qed simp

text \<open>
  A ledger: if each step's effects are paid for by its input and by what the state holds in
  reserve, so are the effects of a run. Used for "at most one answer per request".
\<close>

lemma run_steps_ledger:
  fixes cost :: "'e \<Rightarrow> nat" and income :: "'x \<Rightarrow> nat" and reserve :: "'s \<Rightarrow> nat"
  assumes "\<And>s x. sum_list (map cost (snd (f s x))) + reserve (fst (f s x)) \<le> income x + reserve s"
  shows "sum_list (map cost (snd (run_steps f s xs))) + reserve (fst (run_steps f s xs))
    \<le> sum_list (map income xs) + reserve s"
proof (induction xs arbitrary: s)
  case (Cons x xs)
  have "sum_list (map cost (snd (run_steps f (fst (f s x)) xs)))
      + reserve (fst (run_steps f (fst (f s x)) xs)) \<le> sum_list (map income xs) + reserve (fst (f s x))"
    by (rule Cons.IH)
  with assms [of s x] show ?case by (simp add: fst_andThen snd_andThen)
qed simp


subsection \<open>Interface: cutting a byte stream into messages\<close>

text \<open>
  What a consumer of a stream relies on: cutting a longer buffer is cutting its prefix, then
  cutting what was left over followed by the new bytes. \<open>split\<close> may refuse a buffer.
\<close>

locale framing =
  fixes split :: "'b list \<Rightarrow> 'err + 'f list \<times> 'b list"
  assumes split_chunk: "split (b @ c) = Inr (hs, r') \<Longrightarrow>
    \<exists>fs r gs. split b = Inr (fs, r) \<and> split (r @ c) = Inr (gs, r') \<and> hs = fs @ gs"
begin

lemma residual: "split b = Inr (fs, r) \<Longrightarrow> split r = Inr ([], r)"
  using split_chunk [of b "[]" fs r] by auto

text \<open>
  Delivery does not depend on how the network chunks the bytes. \<open>data\<close> is a handler that keeps
  the leftover in the state (\<open>put\<close>) and hands each message to \<open>h\<close>.
\<close>

lemma delivery_chunk_independent:
  fixes data :: "'s \<Rightarrow> 'b list \<Rightarrow> 's \<times> 'e list"
  assumes data: "\<And>s r c fs r'. split (r @ c) = Inr (fs, r') \<Longrightarrow>
      data (put r s) c = (put r' (fst (run_steps h s fs)), snd (run_steps h s fs))"
    and "split r = Inr ([], r)" and "split (r @ concat cs) = Inr (fs, r')"
  shows "run_steps data (put r s) cs
    = (put r' (fst (run_steps h s fs)), snd (run_steps h s fs))"
  using assms(2,3)
proof (induction cs arbitrary: r s fs)
  case Nil
  then show ?case by simp
next
  case (Cons c cs)
  then have "split ((r @ c) @ concat cs) = Inr (fs, r')" by simp
  then obtain hs q gs where 1: "split (r @ c) = Inr (hs, q)" "split (q @ concat cs) = Inr (gs, r')"
    and fs: "fs = hs @ gs" using split_chunk by blast
  from 1(1) have "split q = Inr ([], q)" by (rule residual)
  from Cons.IH [OF this 1(2)] data [OF 1(1), of s] show ?case
    by (simp add: fs run_steps_append fst_andThen snd_andThen)
qed

end

subsection \<open>Interface: a stage that turns inputs into rows\<close>

text \<open>
  What the storage path relies on from each of its stages: every row an input closes, and every
  row written when the stage is shut, satisfies the row contract \<open>ok\<close> of the table.
\<close>

locale row_stage =
  fixes feed :: "'s \<Rightarrow> 'x \<Rightarrow> 's \<times> 'r list" and shut :: "'s \<Rightarrow> 'r list" and ok :: "'r \<Rightarrow> bool"
  assumes feed_ok: "r \<in> set (snd (feed s x)) \<Longrightarrow> ok r"
    and shut_ok: "r \<in> set (shut s) \<Longrightarrow> ok r"
begin

lemma run_ok: "r \<in> set (snd (run_steps feed s xs)) \<Longrightarrow> ok r"
  by (induction xs arbitrary: s) (auto simp: snd_andThen intro: feed_ok)

lemma written_ok: "r \<in> set (snd (run_steps feed s xs) @ shut (fst (run_steps feed s xs))) \<Longrightarrow> ok r"
  by (auto intro: run_ok shut_ok)

end

end
