(* ===== verification/Solarman_Frame.thy ===== *)
theory Solarman_Frame
  imports Prelude
begin

unbundle bit_operations_syntax

text \<open>
  The Solarman V5 wire format and the two pieces of Modbus RTU the port makes for itself:
  \<^verbatim>\<open>packages/inverter-core/src/solarman/v5-frame.ts\<close> and \<^verbatim>\<open>rtu.ts\<close>. A frame is a length-prefixed
  envelope (start byte, little-endian length, control code, sequence, logger serial, payload,
  checksum, end byte) around one Modbus RTU frame.

  Byte arrays are lists of 8-bit words. Where the source throws a \<open>SolarmanFrameError\<close> the model
  returns \<open>Inl\<close> of its reason and of the frames that ride on it; the message text is dropped.
\<close>

subsection \<open>RTU: CRC16 and the synthesized exception reply\<close>

definition crc_bit :: "16 word \<Rightarrow> 16 word" where
  "crc_bit crc = (if crc AND 1 \<noteq> 0 then (drop_bit 1 crc) XOR 0xA001 else drop_bit 1 crc)"

definition crc_byte :: "16 word \<Rightarrow> byte \<Rightarrow> 16 word" where
  "crc_byte crc b = (crc_bit ^^ 8) (crc XOR ucast b)"

definition crc16 :: "byte list \<Rightarrow> 16 word" where
  "crc16 buf = foldl crc_byte 0xFFFF buf"

definition rtuException :: "byte \<Rightarrow> byte \<Rightarrow> byte \<Rightarrow> byte list" where
  "rtuException unitId fn code =
     (let body = [unitId, fn OR 0x80, code]; crc = crc16 body
      in body @ [ucast (crc AND 0xFF), ucast (drop_bit 8 crc AND 0xFF)])"

subsection \<open>The envelope\<close>

definition START :: byte where "START = 0xA5"
definition END_BYTE :: byte where "END_BYTE = 0x15"
definition HEADER :: nat where "HEADER = 11"
definition TRAILER :: nat where "TRAILER = 2"
definition CONTROL_REQUEST :: "16 word" where "CONTROL_REQUEST = 0x4510"
definition CONTROL_RESPONSE :: "16 word" where "CONTROL_RESPONSE = 0x1510"
definition REQUEST_BUSINESS :: nat where "REQUEST_BUSINESS = 15"
definition RESPONSE_BUSINESS :: nat where "RESPONSE_BUSINESS = 14"
definition MIN_RTU_FRAME :: nat where "MIN_RTU_FRAME = 5"

lemmas envelope_consts = START_def END_BYTE_def HEADER_def TRAILER_def CONTROL_REQUEST_def
  CONTROL_RESPONSE_def REQUEST_BUSINESS_def RESPONSE_BUSINESS_def MIN_RTU_FRAME_def

datatype SolarmanFrameReason = bad_start | bad_end | bad_checksum | short

text \<open>\<open>SolarmanFrameError\<close>: the reason and the complete frames already taken off the buffer.\<close>

record SolarmanFrameError =
  reason :: SolarmanFrameReason
  err_frames :: "byte list list"

definition frame_error :: "SolarmanFrameReason \<Rightarrow> SolarmanFrameError" where
  "frame_error r = \<lparr>reason = r, err_frames = []\<rparr>"

definition checksum :: "byte list \<Rightarrow> byte" where
  "checksum frame = sum_list (take (length frame - 3) (drop 1 frame))"

text \<open>Little-endian fields, as \<open>DataView\<close> writes and reads them.\<close>

definition le16 :: "16 word \<Rightarrow> byte list" where
  "le16 w = [ucast w, ucast (drop_bit 8 w)]"

definition le32 :: "32 word \<Rightarrow> byte list" where
  "le32 w = [ucast w, ucast (drop_bit 8 w), ucast (drop_bit 16 w), ucast (drop_bit 24 w)]"

definition get16 :: "byte list \<Rightarrow> nat \<Rightarrow> 16 word" where
  "get16 buf i = ucast (buf ! i) OR push_bit 8 (ucast (buf ! (i + 1)))"

definition get32 :: "byte list \<Rightarrow> nat \<Rightarrow> 32 word" where
  "get32 buf i = ucast (buf ! i) OR push_bit 8 (ucast (buf ! (i + 1)))
     OR push_bit 16 (ucast (buf ! (i + 2))) OR push_bit 24 (ucast (buf ! (i + 3)))"

record EncodeRequestInput =
  req_serial :: int
  req_seq :: int
  req_pdu :: "byte list"

definition encodeRequest :: "EncodeRequestInput \<Rightarrow> byte list" where
  "encodeRequest i =
     (let payloadLength = REQUEST_BUSINESS + length (req_pdu i);
          body = [START] @ le16 (of_nat payloadLength) @ le16 CONTROL_REQUEST
                 @ le16 (word_of_int (req_seq i)) @ le32 (word_of_int (req_serial i))
                 @ [0x02] @ replicate (REQUEST_BUSINESS - 1) 0 @ req_pdu i
      in body @ [checksum (body @ [0, END_BYTE]), END_BYTE])"

datatype SolarmanFrame =
    Response (f_serial: "32 word") (f_seq: "16 word") (f_status: byte) (f_pdu: "byte list")
  | Status (f_serial: "32 word") (f_seq: "16 word") (f_status: byte) (f_payload: "byte list")
  | Other (f_control: "16 word")

definition assertEnvelope :: "byte list \<Rightarrow> SolarmanFrameError + nat" where
  "assertEnvelope buf =
     (if length buf < HEADER + TRAILER then Inl (frame_error short)
      else if buf ! 0 \<noteq> START then Inl (frame_error bad_start)
      else let payloadLength = unat (get16 buf 1); total = HEADER + payloadLength + TRAILER
        in if length buf < total then Inl (frame_error short)
           else if buf ! (total - 1) \<noteq> END_BYTE then Inl (frame_error bad_end)
           else if buf ! (total - 2) \<noteq> checksum (take total buf) then Inl (frame_error bad_checksum)
           else Inr payloadLength)"

definition decodeFrame :: "byte list \<Rightarrow> SolarmanFrameError + SolarmanFrame" where
  "decodeFrame buf = (case assertEnvelope buf of Inl e \<Rightarrow> Inl e | Inr payloadLength \<Rightarrow>
     (let controlCode = get16 buf 3
      in if controlCode \<noteq> CONTROL_RESPONSE then Inr (Other controlCode)
         else if payloadLength < RESPONSE_BUSINESS then Inl (frame_error short)
         else let serial = get32 buf 7;
                  payload = take (payloadLength - RESPONSE_BUSINESS) (drop (HEADER + RESPONSE_BUSINESS) buf)
           in if length payload < MIN_RTU_FRAME
              then Inr (Status serial (get16 buf 5)
                     (case payload of [] \<Rightarrow> 0 | b # _ \<Rightarrow> b) payload)
              else Inr (Response serial (get16 buf 5) (buf ! (HEADER + 1)) payload)))"

text \<open>
  \<open>splitFrames\<close>: the loop over the buffer, as a recursion on what is left of it (the source's
  \<open>buf\<close> from \<open>at\<close> on). \<open>frame_total\<close> is the length the prefix promises.
\<close>

definition frame_total :: "byte list \<Rightarrow> nat" where
  "frame_total buf = HEADER + unat (get16 buf 1) + TRAILER"

function split_loop ::
  "byte list \<Rightarrow> byte list list \<Rightarrow> SolarmanFrameError + byte list list \<times> byte list" where
  "split_loop buf frames =
     (if 3 \<le> length buf then
        if buf ! 0 \<noteq> START then Inl \<lparr>reason = bad_start, err_frames = frames\<rparr>
        else let total = frame_total buf
          in if length buf < total then Inr (frames, buf)
             else split_loop (drop total buf) (frames @ [take total buf])
      else Inr (frames, buf))"
  by pat_completeness auto
termination
  by (relation "measure (\<lambda>(buf, _). length buf)") (auto simp: frame_total_def HEADER_def)

declare split_loop.simps [simp del]

definition splitFrames :: "byte list \<Rightarrow> SolarmanFrameError + byte list list \<times> byte list" where
  "splitFrames buf = split_loop buf []"

subsection \<open>Field and CRC lemmas\<close>

lemma get16_le16 [wire_simps]: "get16 (xs @ le16 w @ ys) (length xs) = w"
  by (rule bit_word_eqI) (auto simp: get16_def le16_def nth_append bit_simps)

lemma get32_le32 [wire_simps]: "get32 (xs @ le32 w @ ys) (length xs) = w"
proof (rule bit_word_eqI)
  fix n :: nat
  show "bit (get32 (xs @ le32 w @ ys) (length xs)) n = bit w n" if "n < LENGTH(32)"
    using that by (cases "n < 8"; cases "n < 16"; cases "n < 24") (auto simp: get32_def le32_def nth_append bit_simps not_less)
qed

lemma crc_bit_even: "crc AND 1 = 0 \<Longrightarrow> crc_bit crc = drop_bit 1 crc"
  by (simp add: crc_bit_def)

lemma crc_step_zero_low:
  fixes w :: "16 word"
  assumes "w AND 0xFF = 0"
  shows "(crc_bit ^^ 8) w = drop_bit 8 w"
proof -
  have low: "\<not> bit w i" if "i < 8" for i
  proof -
    have "bit (w AND 0xFF) i = False" using assms by simp
    moreover have "bit (0xFF :: 16 word) i" using that by (auto simp: bit_simps numeral_eq_Suc less_Suc_eq)
    ultimately show ?thesis by (simp add: bit_simps)
  qed
  have "(crc_bit ^^ n) w = drop_bit n w" if "n \<le> 8" for n
    using that
  proof (induction n)
    case 0
    then show ?case by simp
  next
    case (Suc n)
    have "\<not> bit (drop_bit n w) 0" using low [of n] Suc.prems by (simp add: bit_simps)
    then have "drop_bit n w AND 1 = 0" by (simp add: and_one_eq bit_0 mod_2_eq_odd)
    with Suc show ?case by (simp add: crc_bit_even)
  qed
  then show ?thesis by simp
qed

lemma crc_two_bytes:
  fixes c :: "16 word"
  shows "crc_byte (crc_byte c (ucast (c AND 0xFF))) (ucast (drop_bit 8 c AND 0xFF)) = 0"
proof -
  have m: "(0xFF :: 16 word) = mask 8" by (simp add: mask_eq_exp_minus_1)
  let ?hi = "c XOR ucast (ucast (c AND 0xFF) :: byte)"
  have "?hi AND 0xFF = 0" unfolding m by (rule bit_word_eqI) (auto simp: bit_simps)
  then have "crc_byte c (ucast (c AND 0xFF)) = drop_bit 8 ?hi"
    by (simp add: crc_byte_def crc_step_zero_low)
  also have "\<dots> = drop_bit 8 c"
    unfolding m by (rule bit_word_eqI) (auto simp: bit_simps)
  finally have 1: "crc_byte c (ucast (c AND 0xFF)) = drop_bit 8 c" .
  have "drop_bit 8 c XOR ucast (ucast (drop_bit 8 c AND 0xFF) :: byte) = 0"
    unfolding m by (rule bit_word_eqI) (auto simp: bit_simps dest: bit_imp_le_length)
  then have "crc_byte (drop_bit 8 c) (ucast (drop_bit 8 c AND 0xFF)) = (crc_bit ^^ 8) 0"
    by (simp only: crc_byte_def)
  then show ?thesis unfolding 1 using crc_step_zero_low [of 0] by simp
qed

lemma crc16_append: "crc16 (xs @ ys) = foldl crc_byte (crc16 xs) ys"
  by (simp add: crc16_def)

lemma crc16_residue: "crc16 (xs @ [ucast (crc16 xs AND 0xFF), ucast (drop_bit 8 (crc16 xs) AND 0xFF)]) = 0"
  by (simp add: crc16_append crc_two_bytes)

text \<open>The exception reply the port synthesizes is a legal RTU frame: five bytes, unit id, the
  request's function code with bit 7 set, the exception code, and a CRC under which the whole
  frame checks to zero.\<close>

theorem rtuException_wellformed:
  "length (rtuException u fn code) = MIN_RTU_FRAME \<and> crc16 (rtuException u fn code) = 0
   \<and> rtuException u fn code ! 0 = u \<and> rtuException u fn code ! 1 = fn OR 0x80
   \<and> rtuException u fn code ! 2 = code"
  using crc16_residue [of "[u, fn OR 0x80, code]"]
  by (simp add: rtuException_def Let_def MIN_RTU_FRAME_def)

subsection \<open>Splitting\<close>

lemma split_loop_short: "length buf < 3 \<Longrightarrow> split_loop buf fs = Inr (fs, buf)"
  by (simp add: split_loop.simps)

lemma split_loop_bad_start:
  "3 \<le> length buf \<Longrightarrow> buf ! 0 \<noteq> START \<Longrightarrow>
   split_loop buf fs = Inl \<lparr>reason = bad_start, err_frames = fs\<rparr>"
  by (simp add: split_loop.simps)

lemma split_loop_partial:
  "buf ! 0 = START \<Longrightarrow> length buf < frame_total buf \<Longrightarrow> split_loop buf fs = Inr (fs, buf)"
  by (simp add: split_loop.simps Let_def)

lemma frame_total_ge: "13 \<le> frame_total buf"
  by (simp add: frame_total_def HEADER_def TRAILER_def)

lemma split_loop_frame:
  assumes "buf ! 0 = START" and "frame_total buf \<le> length buf"
  shows "split_loop buf fs = split_loop (drop (frame_total buf) buf) (fs @ [take (frame_total buf) buf])"
proof -
  have "3 \<le> length buf" using assms(2) frame_total_ge [of buf] by linarith
  with assms show ?thesis by (subst split_loop.simps) (simp add: Let_def)
qed

lemmas split_loop_rules = split_loop_short split_loop_bad_start split_loop_partial split_loop_frame

text \<open>Case analysis on what the head of the buffer holds.\<close>

lemma split_cases [case_names short bad_start partial frame]:
  assumes "length buf < 3 \<Longrightarrow> P"
    and "3 \<le> length buf \<Longrightarrow> buf ! 0 \<noteq> START \<Longrightarrow> P"
    and "3 \<le> length buf \<Longrightarrow> buf ! 0 = START \<Longrightarrow> length buf < frame_total buf \<Longrightarrow> P"
    and "3 \<le> length buf \<Longrightarrow> buf ! 0 = START \<Longrightarrow> frame_total buf \<le> length buf \<Longrightarrow> P"
  shows P
  using assms by linarith

lemma frame_total_append [simp]: "3 \<le> length buf \<Longrightarrow> frame_total (buf @ c) = frame_total buf"
  by (simp add: frame_total_def get16_def nth_append)

lemma split_loop_acc:
  "split_loop buf fs = (case split_loop buf [] of
      Inl e \<Rightarrow> Inl (e\<lparr>err_frames := fs @ err_frames e\<rparr>) | Inr (gs, r) \<Rightarrow> Inr (fs @ gs, r))"
proof (induction "length buf" arbitrary: buf fs rule: less_induct)
  case less
  show ?case
  proof (cases buf rule: split_cases)
    case frame
    let ?n = "frame_total buf" and ?f = "take (frame_total buf) buf"
    have lt: "length (drop ?n buf) < length buf" using frame frame_total_ge [of buf] by simp
    show ?thesis
      using frame less [OF lt, of "fs @ [?f]"] less [OF lt, of "[?f]"]
      by (auto simp: split_loop_frame split: sum.splits)
  qed (simp_all add: split_loop_rules)
qed

lemma split_loop_append:
  "split_loop b fs = Inr (gs, r) \<Longrightarrow> split_loop (b @ c) fs = split_loop (r @ c) gs"
proof (induction "length b" arbitrary: b fs rule: less_induct)
  case less
  show ?case
  proof (cases b rule: split_cases)
    case frame
    have lt: "length (drop (frame_total b) b) < length b" using frame frame_total_ge [of b] by simp
    have "(b @ c) ! 0 = START" using frame by (cases b) auto
    moreover have "frame_total (b @ c) \<le> length (b @ c)" using frame by simp
    ultimately show ?thesis using frame less.hyps [OF lt] less.prems
      by (simp add: split_loop_frame)
  qed (use less.prems in \<open>simp_all add: split_loop_rules\<close>)
qed

lemma split_loop_append_error:
  "split_loop b fs = Inl e \<Longrightarrow> split_loop (b @ c) fs = Inl e"
proof (induction "length b" arbitrary: b fs rule: less_induct)
  case less
  show ?case
  proof (cases b rule: split_cases)
    case frame
    have lt: "length (drop (frame_total b) b) < length b" using frame frame_total_ge [of b] by simp
    have "(b @ c) ! 0 = START" using frame by (cases b) auto
    moreover have "frame_total (b @ c) \<le> length (b @ c)" using frame by simp
    ultimately show ?thesis using frame less.hyps [OF lt] less.prems
      by (simp add: split_loop_frame)
  next
    case bad_start
    then have "(b @ c) ! 0 \<noteq> START" by (cases b) auto
    with bad_start less.prems show ?thesis by (simp add: split_loop_bad_start)
  qed (use less.prems in \<open>simp_all add: split_loop_rules\<close>)
qed

lemma splitFrames_append:
  "splitFrames (b @ c) = (case splitFrames b of
      Inl e \<Rightarrow> Inl e
    | Inr (fs, r) \<Rightarrow> (case splitFrames (r @ c) of
        Inl e \<Rightarrow> Inl (e\<lparr>err_frames := fs @ err_frames e\<rparr>)
      | Inr (gs, r') \<Rightarrow> Inr (fs @ gs, r')))"
proof (cases "splitFrames b")
  case (Inl e)
  then show ?thesis by (simp add: splitFrames_def split_loop_append_error)
next
  case (Inr p)
  obtain fs r where p: "p = (fs, r)" by (cases p)
  with Inr have "splitFrames (b @ c) = split_loop (r @ c) fs"
    by (simp add: splitFrames_def split_loop_append)
  with Inr p show ?thesis
    using split_loop_acc [of "r @ c" fs] by (simp add: splitFrames_def)
qed


text \<open>The V5 splitter is a framing.\<close>

interpretation v5: framing splitFrames
proof
  fix b c hs r'
  assume a: "splitFrames (b @ c) = Inr (hs, r')"
  show "\<exists>fs r gs. splitFrames b = Inr (fs, r) \<and> splitFrames (r @ c) = Inr (gs, r') \<and> hs = fs @ gs"
  proof (cases "splitFrames b")
    case (Inl e)
    with a show ?thesis by (simp add: splitFrames_append [of b c])
  next
    case (Inr p)
    obtain fs r where p: "p = (fs, r)" by (cases p)
    with a Inr show ?thesis
      by (cases "splitFrames (r @ c)") (auto simp: splitFrames_append [of b c])
  qed
qed

subsection \<open>Building frames\<close>

text \<open>The frame layout, for any control code and payload: the reference the codec is checked
  against.\<close>

definition v5_body :: "16 word \<Rightarrow> 16 word \<Rightarrow> 32 word \<Rightarrow> byte list \<Rightarrow> byte list" where
  "v5_body control sq serial payload = [START] @ le16 (of_nat (length payload)) @ le16 control
     @ le16 sq @ le32 serial @ payload"

definition v5_frame :: "16 word \<Rightarrow> 16 word \<Rightarrow> 32 word \<Rightarrow> byte list \<Rightarrow> byte list" where
  "v5_frame control sq serial payload =
     (let body = v5_body control sq serial payload
      in body @ [sum_list (drop 1 body), END_BYTE])"

lemma length_le [simp]: "length (le16 w) = 2" "length (le32 v) = 4"
  by (simp_all add: le16_def le32_def)

lemma length_v5_body [simp]: "length (v5_body control sq serial payload) = HEADER + length payload"
  by (simp add: v5_body_def HEADER_def)

lemma length_v5_frame [simp]:
  "length (v5_frame control sq serial payload) = HEADER + length payload + TRAILER"
  by (simp add: v5_frame_def Let_def TRAILER_def)

lemma v5_body_not_Nil [simp]: "v5_body control sq serial payload \<noteq> []"
  by (simp add: v5_body_def)

lemma checksum_trailer: "body \<noteq> [] \<Longrightarrow> checksum (body @ [x, y]) = sum_list (drop 1 body)"
  by (cases body) (simp_all add: checksum_def)

lemma encodeRequest_v5_frame:
  "encodeRequest i = v5_frame CONTROL_REQUEST (word_of_int (req_seq i)) (word_of_int (req_serial i))
     (0x02 # replicate (REQUEST_BUSINESS - 1) 0 @ req_pdu i)"
proof -
  let ?b = "v5_body CONTROL_REQUEST (word_of_int (req_seq i)) (word_of_int (req_serial i))
     (0x02 # replicate (REQUEST_BUSINESS - 1) 0 @ req_pdu i)"
  have "encodeRequest i = ?b @ [checksum (?b @ [0, END_BYTE]), END_BYTE]"
    by (simp add: encodeRequest_def v5_body_def Let_def REQUEST_BUSINESS_def)
  then show ?thesis by (simp add: checksum_trailer v5_frame_def Let_def)
qed

text \<open>The header fields of a frame, whatever follows it.\<close>

lemma v5_fields:
  "v5_frame control sq serial payload ! 0 = START"
  "get16 (v5_frame control sq serial payload @ rest) 1 = of_nat (length payload)"
  "get16 (v5_frame control sq serial payload @ rest) 3 = control"
  "get16 (v5_frame control sq serial payload @ rest) 5 = sq"
  "get32 (v5_frame control sq serial payload @ rest) 7 = serial"
proof -
  let ?f = "v5_frame control sq serial payload @ rest"
  let ?t = "payload @ [sum_list (drop 1 (v5_body control sq serial payload)), END_BYTE] @ rest"
  let ?l = "le16 (of_nat (length payload))"
  have f: "?f = [START] @ ?l @ (le16 control @ le16 sq @ le32 serial @ ?t)"
    by (simp add: v5_frame_def v5_body_def Let_def)
  show "v5_frame control sq serial payload ! 0 = START"
    by (simp add: v5_frame_def v5_body_def Let_def)
  show "get16 ?f 1 = of_nat (length payload)"
    unfolding f using get16_le16 [of "[START]" "of_nat (length payload)"] by simp
  show "get16 ?f 3 = control"
    unfolding f using get16_le16 [of "[START] @ ?l" control "le16 sq @ le32 serial @ ?t"] by simp
  show "get16 ?f 5 = sq"
    unfolding f using get16_le16 [of "[START] @ ?l @ le16 control" sq "le32 serial @ ?t"] by simp
  show "get32 ?f 7 = serial"
    unfolding f using get32_le32 [of "[START] @ ?l @ le16 control @ le16 sq" serial ?t] by simp
qed

lemma unat_of_nat_length: "n \<le> 65535 \<Longrightarrow> unat (of_nat n :: 16 word) = n"
  by (simp add: unat_of_nat)

lemma frame_total_v5_frame:
  assumes "length payload \<le> 65535"
  shows "frame_total (v5_frame control sq serial payload @ rest) = HEADER + length payload + TRAILER"
  using assms unfolding frame_total_def v5_fields by (simp add: unat_of_nat_length)

lemma assertEnvelope_v5_frame:
  assumes "length payload \<le> 65535"
  shows "assertEnvelope (v5_frame control sq serial payload @ rest) = Inr (length payload)"
proof -
  let ?f = "v5_frame control sq serial payload" and ?b = "v5_body control sq serial payload"
  have len: "length ?b = HEADER + length payload" by simp
  have e: "(?f @ rest) ! (HEADER + length payload + TRAILER - 1) = END_BYTE"
    by (simp add: v5_frame_def Let_def nth_append TRAILER_def)
  have c: "(?f @ rest) ! (HEADER + length payload + TRAILER - 2) = sum_list (drop 1 ?b)"
    by (simp add: v5_frame_def Let_def nth_append TRAILER_def)
  have t: "take (HEADER + length payload + TRAILER) (?f @ rest) = ?f" by simp
  have ck: "checksum ?f = sum_list (drop 1 ?b)"
    unfolding v5_frame_def Let_def by (rule checksum_trailer) simp
  have s: "(?f @ rest) ! 0 = START"
    by (simp add: v5_frame_def v5_body_def Let_def)
  show ?thesis
    using assms unfolding assertEnvelope_def Let_def v5_fields
    by (simp add: unat_of_nat_length s e c t ck del: append_assoc One_nat_def)
qed

text \<open>The decoder reads back every field of a reply laid out this way.\<close>

lemma decode_reply:
  assumes "length biz = RESPONSE_BUSINESS" and "RESPONSE_BUSINESS + length pdu \<le> 65535"
  shows "decodeFrame (v5_frame CONTROL_RESPONSE sq serial (biz @ pdu) @ rest) =
    Inr (if length pdu < MIN_RTU_FRAME
         then Status serial sq (case pdu of [] \<Rightarrow> 0 | b # _ \<Rightarrow> b) pdu
         else Response serial sq (biz ! 1) pdu)"
proof -
  let ?f = "v5_frame CONTROL_RESPONSE sq serial (biz @ pdu) @ rest"
  have env: "assertEnvelope ?f = Inr (RESPONSE_BUSINESS + length pdu)"
    using assms assertEnvelope_v5_frame [of "biz @ pdu"] by simp
  let ?pre = "[START] @ le16 (of_nat (length (biz @ pdu))) @ le16 CONTROL_RESPONSE @ le16 sq
     @ le32 serial @ biz"
  have "?f = ?pre @ pdu @ [sum_list (drop 1 (v5_body CONTROL_RESPONSE sq serial (biz @ pdu))),
     END_BYTE] @ rest"
    by (simp add: v5_frame_def v5_body_def Let_def)
  moreover have "length ?pre = HEADER + RESPONSE_BUSINESS"
    using assms(1) by (simp add: HEADER_def)
  ultimately have p: "take (length pdu) (drop (HEADER + RESPONSE_BUSINESS) ?f) = pdu"
    by (metis append_eq_conv_conj)
  have st: "?f ! (HEADER + 1) = biz ! 1"
    using assms(1)
    by (simp add: v5_frame_def v5_body_def Let_def HEADER_def le16_def le32_def nth_append
        RESPONSE_BUSINESS_def)
  define f where "f = ?f"
  note fs = v5_fields(3-5) [of CONTROL_RESPONSE sq serial "biz @ pdu" rest, folded f_def]
  show ?thesis
    using env p st fs unfolding f_def [symmetric]
    by (simp add: decodeFrame_def Let_def)
qed

text \<open>Round trip: a reply envelope with any business field, sequence, serial and PDU decodes to
  exactly those fields; a PDU too short to be an RTU frame makes it a status frame.\<close>

theorem decodeFrame_reply:
  assumes "length biz = RESPONSE_BUSINESS" and "RESPONSE_BUSINESS + length pdu \<le> 65535"
  shows "decodeFrame (v5_frame CONTROL_RESPONSE sq serial (biz @ pdu) @ rest) =
    Inr (if length pdu < MIN_RTU_FRAME
         then Status serial sq (case pdu of [] \<Rightarrow> 0 | b # _ \<Rightarrow> b) pdu
         else Response serial sq (biz ! 1) pdu)"
  using assms by (rule decode_reply)

theorem decodeFrame_reply_witness:
  "decodeFrame (v5_frame CONTROL_RESPONSE 0x0102 7 (replicate 14 0 @ [6, 0]) @ [1])
     = Inr (Status 7 0x0102 6 [6, 0])"
  using decodeFrame_reply [of "replicate 14 0" "[6, 0]" "0x0102" 7 "[1]"]
  by (simp add: RESPONSE_BUSINESS_def MIN_RTU_FRAME_def)

lemma decodeFrame_request:
  assumes "REQUEST_BUSINESS + length (req_pdu i) \<le> 65535"
  shows "decodeFrame (encodeRequest i) = Inr (Other CONTROL_REQUEST)"
proof -
  have "assertEnvelope (encodeRequest i) = Inr (REQUEST_BUSINESS + length (req_pdu i))"
    using assms assertEnvelope_v5_frame [where rest = "[]"]
    by (simp add: encodeRequest_v5_frame REQUEST_BUSINESS_def)
  moreover have "get16 (encodeRequest i) 3 = CONTROL_REQUEST"
    using v5_fields(3) [where rest = "[]"] by (simp add: encodeRequest_v5_frame)
  ultimately show ?thesis
    by (simp add: decodeFrame_def CONTROL_REQUEST_def CONTROL_RESPONSE_def)
qed


subsection \<open>Streams of frames, corruption\<close>

definition whole_frame :: "byte list \<Rightarrow> bool" where
  "whole_frame f \<longleftrightarrow> 3 \<le> length f \<and> f ! 0 = START \<and> frame_total f = length f"

lemma whole_v5_frame: "length payload \<le> 65535 \<Longrightarrow> whole_frame (v5_frame control sq serial payload)"
  using frame_total_v5_frame [of payload control sq serial "[]"]
  by (simp add: whole_frame_def v5_fields TRAILER_def HEADER_def)

lemma splitFrames_whole:
  assumes "whole_frame f"
  shows "splitFrames (f @ c) = (case splitFrames c of
     Inl e \<Rightarrow> Inl (e\<lparr>err_frames := f # err_frames e\<rparr>) | Inr (gs, r) \<Rightarrow> Inr (f # gs, r))"
proof -
  have "(f @ c) ! 0 = START" using assms by (cases f) (auto simp: whole_frame_def)
  moreover have "frame_total (f @ c) = length f" using assms by (simp add: whole_frame_def)
  ultimately have "splitFrames (f @ c) = split_loop c [f]"
    by (simp add: splitFrames_def split_loop_frame)
  then show ?thesis
    using split_loop_acc [of c "[f]"] by (auto simp: splitFrames_def split: sum.splits)
qed

lemma splitFrames_stream:
  assumes "list_all whole_frame fs" and "splitFrames tail = Inr ([], tail)"
  shows "splitFrames (concat fs @ tail) = Inr (fs, tail)"
  using assms by (induction fs) (simp_all add: splitFrames_whole)

text \<open>Every frame the splitter takes off a buffer is whole, the frames and the leftover are the
  buffer, and the leftover is too short to state a length or to hold the frame it starts.\<close>

theorem splitFrames_sound:
  "splitFrames buf = Inr (fs, rest) \<Longrightarrow>
   concat fs @ rest = buf \<and> (\<forall>f\<in>set fs. whole_frame f)
   \<and> (length rest < 3 \<or> rest ! 0 = START \<and> length rest < frame_total rest)"
proof (induction "length buf" arbitrary: buf fs rule: less_induct)
  case less
  show ?case
  proof (cases buf rule: split_cases)
    case frame
    let ?f = "take (frame_total buf) buf" and ?b = "drop (frame_total buf) buf"
    have w: "whole_frame ?f"
    proof -
      have "frame_total ?f = frame_total buf"
        using frame frame_total_append [of ?f ?b] frame_total_ge [of buf] by simp
      with frame frame_total_ge [of buf] show ?thesis by (simp add: whole_frame_def)
    qed
    have "splitFrames (?f @ ?b) = Inr (fs, rest)" using less.prems by simp
    then obtain gs where gs: "splitFrames ?b = Inr (gs, rest)" "fs = ?f # gs"
      unfolding splitFrames_whole [OF w] by (auto split: sum.splits prod.splits)
    have "length ?b < length buf" using frame frame_total_ge [of buf] by simp
    from less.hyps [OF this gs(1)] gs(2) w show ?thesis by simp
  qed (use less.prems in \<open>simp_all add: splitFrames_def split_loop_rules\<close>)
qed

theorem splitFrames_sound_witness:
  "splitFrames (v5_frame 0x4710 1 7 [9] @ [0xA5, 0]) = Inr ([v5_frame 0x4710 1 7 [9]], [0xA5, 0])
   \<and> whole_frame (v5_frame 0x4710 1 7 [9])"
proof -
  have s: "splitFrames (v5_frame 0x4710 1 7 [9] @ [0xA5, 0])
      = Inr ([v5_frame 0x4710 1 7 [9]], [0xA5, 0])"
    by code_simp
  from splitFrames_sound [OF s] s show ?thesis by simp
qed

lemma sum_list_upd:
  fixes xs :: "'a :: ab_group_add list"
  shows "i < length xs \<Longrightarrow> sum_list (xs[i := x]) = sum_list xs - xs ! i + x"
proof (induction xs arbitrary: i)
  case (Cons a xs)
  then show ?case by (cases i) (simp_all add: algebra_simps)
qed simp

lemma checksum_upd:
  assumes "1 \<le> k" "k < length f - 2" and "x \<noteq> f ! k"
  shows "checksum (f[k := x]) \<noteq> checksum f"
proof -
  let ?c = "take (length f - 3) (drop 1 f)"
  have "take (length f - 3) (drop 1 (f[k := x])) = ?c[k - 1 := x]"
    using assms by (simp add: drop_update_swap take_update_swap)
  moreover have "k - 1 < length ?c" "?c ! (k - 1) = f ! k" using assms by simp_all
  ultimately have "checksum (f[k := x]) = checksum f - f ! k + x"
    unfolding checksum_def by (simp add: sum_list_upd del: length_take)
  then have "checksum (f[k := x]) - checksum f = x - f ! k" by simp
  moreover have "x - f ! k \<noteq> 0" using assms(3) by simp
  ultimately show ?thesis by auto
qed

text \<open>C4. A frame of which one byte between the length prefix and the checksum is altered is refused
  with \<open>bad_checksum\<close>, whichever byte and value.\<close>

theorem corruption_detected:
  assumes "assertEnvelope f = Inr n" and "length f = HEADER + n + TRAILER"
    and "3 \<le> k" "k < length f - 2" and "x \<noteq> f ! k"
  shows "decodeFrame (f[k := x]) = Inl (frame_error bad_checksum)"
proof -
  have n: "unat (get16 f 1) = n" and env: "f ! 0 = START" "f ! (length f - 1) = END_BYTE"
    "f ! (length f - 2) = checksum f"
    using assms(1,2) unfolding assertEnvelope_def Let_def
    by (auto split: if_splits simp: TRAILER_def)
  have g: "get16 (f[k := x]) 1 = get16 f 1" using assms(3) by (simp add: get16_def)
  have "checksum (f[k := x]) \<noteq> f ! (length f - 2)"
    using checksum_upd [of k f x] assms env by simp
  then have "assertEnvelope (f[k := x]) = Inl (frame_error bad_checksum)"
    using assms(2-4) env n unfolding assertEnvelope_def Let_def g
    by (auto simp: HEADER_def TRAILER_def nth_list_update)
  then show ?thesis by (simp add: decodeFrame_def)
qed

theorem corruption_detected_witness:
  "decodeFrame ((v5_frame CONTROL_RESPONSE 1 7 (replicate 14 0 @ [6, 0]))[25 := 5])
     = Inl (frame_error bad_checksum)"
proof (rule corruption_detected [where n = 16])
  show "assertEnvelope (v5_frame CONTROL_RESPONSE 1 7 (replicate 14 0 @ [6, 0])) = Inr 16"
    by code_simp
  show "(5::byte) \<noteq> v5_frame CONTROL_RESPONSE 1 7 (replicate 14 0 @ [6, 0]) ! 25"
    by code_simp
qed (simp_all add: HEADER_def TRAILER_def)

end
