(* ===== verification/Solarman_Port.thy ===== *)
theory Solarman_Port
  imports Solarman_Frame
begin

unbundle bit_operations_syntax

text \<open>
  \<^verbatim>\<open>packages/inverter-core/src/solarman/v5-port.ts\<close>: the modbus-serial port that speaks Solarman
  V5. The private fields of \<open>SolarmanV5Port\<close> are the record \<open>port\<close>; every method is a function
  from the port to the port and the effects it has, in order: what it does to its socket, which
  callbacks it runs and which events it emits. The socket and the callbacks are the
  environment: \<open>socket\<close>, \<open>open_cb\<close>, \<open>close_cb\<close> say whether there is one. Listeners
  and callbacks do not call back into the port while they run. Logging is left out.
\<close>

subsection \<open>State\<close>

definition exception_for_status :: "byte \<Rightarrow> byte" where
  "exception_for_status st = (if st = 0x05 then 0x02 else if st = 0x06 then 0x0A else 0x0B)"

record Outstanding =
  o_seq :: byte
  o_unitId :: byte
  o_fn :: byte
  o_rtu :: "byte list"
  o_retried :: bool

datatype timer = ConnectTimer | ProbeTimer

datatype port_error = ConnectTimedOut | ProbeUnanswered | ClosedBeforeOpen | SocketError string

record port =
  timer :: "timer option"
  configured_serial :: "int option"
  socket :: bool
  open_flag :: bool
  buffer :: "byte list"
  seq :: byte
  outstanding :: "Outstanding option"
  serial :: "int option"
  probe :: bool
  open_cb :: bool
  close_cb :: bool

datatype effect =
    CreateSocket
  | SocketConnect
  | SocketWrite "byte list"
  | SocketEnd
  | SocketDestroy
  | OpenCallback "port_error option"
  | CloseCallback
  | EmitReject byte
  | EmitData "byte list"
  | EmitPortError string
  | EmitClose

definition PROBE_PDU :: "byte list" where
  "PROBE_PDU = [0x01, 0x03, 0x00, 0x03, 0x00, 0x06, 0x35, 0xC8]"

definition PROBE_SERIAL :: int where
  "PROBE_SERIAL = 0"

definition new_port :: "int option \<Rightarrow> port" where
  "new_port loggerSerial = \<lparr>timer = None, configured_serial = loggerSerial, socket = False,
     open_flag = False, buffer = [], seq = 0, outstanding = None, serial = None, probe = False,
     open_cb = False, close_cb = False\<rparr>"

subsection \<open>Methods\<close>

definition arm :: "timer \<Rightarrow> port \<Rightarrow> port" where
  "arm t s = s\<lparr>timer := Some t\<rparr>"

definition disarm :: "port \<Rightarrow> port" where
  "disarm s = s\<lparr>timer := None\<rparr>"

definition nextSeq :: "port \<Rightarrow> byte \<times> port" where
  "nextSeq s = (seq s, s\<lparr>seq := seq s + 1\<rparr>)"

definition settleOpen :: "port_error option \<Rightarrow> port \<Rightarrow> port \<times> effect list" where
  "settleOpen err s = (s\<lparr>open_cb := False\<rparr>, if open_cb s then [OpenCallback err] else [])"

definition failOpen :: "port_error \<Rightarrow> port \<Rightarrow> port \<times> effect list" where
  "failOpen err s =
     (let s = disarm s\<lparr>probe := False, open_flag := False\<rparr>
      in andThen (s, if socket s then [SocketDestroy] else []) (settleOpen (Some err)))"

definition finishProbe :: "int option \<Rightarrow> port \<Rightarrow> port \<times> effect list" where
  "finishProbe ser s =
     (let s = disarm s\<lparr>probe := False\<rparr>;
          resolved = (case ser of Some x \<Rightarrow> Some x | None \<Rightarrow> configured_serial s)
      in case resolved of
           None \<Rightarrow> failOpen ProbeUnanswered s
         | Some r \<Rightarrow> settleOpen None (s\<lparr>serial := Some r, open_flag := True\<rparr>))"

definition open_port :: "bool \<Rightarrow> port \<Rightarrow> port \<times> effect list" where
  "open_port callback s =
     (let s = s\<lparr>open_cb := callback, buffer := [], outstanding := None, socket := True\<rparr>
      in (arm ConnectTimer s, [CreateSocket, SocketConnect]))"

definition send :: "byte list \<Rightarrow> bool \<Rightarrow> port \<Rightarrow> port \<times> effect list" where
  "send rtu retried s =
     (let (sq, s) = nextSeq s;
          s = s\<lparr>outstanding := Some \<lparr>o_seq = sq,
                  o_unitId = (case rtu of [] \<Rightarrow> 0 | b # _ \<Rightarrow> b),
                  o_fn = (case rtu of _ # b # _ \<Rightarrow> b | _ \<Rightarrow> 0),
                  o_rtu = rtu, o_retried = retried\<rparr>\<rparr>;
          ser = (case serial s of Some r \<Rightarrow> r | None \<Rightarrow> PROBE_SERIAL)
      in (s, if socket s
             then [SocketWrite (encodeRequest \<lparr>req_serial = ser, req_seq = uint sq, req_pdu = rtu\<rparr>)]
             else []))"

definition port_write :: "byte list \<Rightarrow> port \<Rightarrow> port \<times> effect list" where
  "port_write rtu s = (if \<not> open_flag s \<or> \<not> socket s then (s, []) else send rtu False s)"

definition port_close :: "bool \<Rightarrow> port \<Rightarrow> port \<times> effect list" where
  "port_close callback s =
     (let s = disarm s\<lparr>probe := False\<rparr>
      in if \<not> socket s
         then (s\<lparr>open_flag := False\<rparr>, if callback then [CloseCallback] else [])
         else (s\<lparr>close_cb := callback\<rparr>, [SocketEnd]))"

definition port_destroy :: "bool \<Rightarrow> port \<Rightarrow> port \<times> effect list" where
  "port_destroy callback s =
     (let s = disarm s\<lparr>open_flag := False\<rparr>
      in (s, (if socket s then [SocketDestroy] else []) @ (if callback then [CloseCallback] else [])))"

definition handleConnect :: "port \<Rightarrow> port \<times> effect list" where
  "handleConnect s =
     (let s = arm ProbeTimer (s\<lparr>probe := True\<rparr>)
      in if socket s
         then (let (sq, s) = nextSeq s
               in (s, [SocketWrite (encodeRequest
                     \<lparr>req_serial = PROBE_SERIAL, req_seq = uint sq, req_pdu = PROBE_PDU\<rparr>)]))
         else (s, []))"

definition handleResponse :: "32 word \<Rightarrow> 16 word \<Rightarrow> byte list \<Rightarrow> port \<Rightarrow> port \<times> effect list" where
  "handleResponse fserial fseq pdu s =
     (if Some (uint fserial) \<noteq> serial s then (s, [])
      else if Some (ucast fseq) \<noteq> map_option o_seq (outstanding s) then (s, [])
      else (s\<lparr>outstanding := None\<rparr>, [EmitData pdu]))"

definition retryTransient :: "byte \<Rightarrow> Outstanding \<Rightarrow> port \<Rightarrow> bool \<times> port \<times> effect list" where
  "retryTransient st pending s =
     (if st \<noteq> 0x05 \<or> o_retried pending then (False, s, [])
      else if \<not> open_flag s \<or> \<not> socket s then (False, s, [])
      else (True, send (o_rtu pending) True s))"

definition handleReject :: "16 word \<Rightarrow> byte \<Rightarrow> port \<Rightarrow> port \<times> effect list" where
  "handleReject fseq st s =
     (case outstanding s of
        None \<Rightarrow> (s, [])
      | Some pending \<Rightarrow>
          if ucast fseq \<noteq> o_seq pending then (s, [])
          else (case retryTransient st pending s of
              (True, r) \<Rightarrow> r
            | (False, _) \<Rightarrow>
                (s\<lparr>outstanding := None\<rparr>,
                 [EmitReject st,
                  EmitData (rtuException (o_unitId pending) (o_fn pending) (exception_for_status st))])))"

definition handleFrame :: "port \<Rightarrow> byte list \<Rightarrow> port \<times> effect list" where
  "handleFrame s raw =
     (case decodeFrame raw of
        Inl _ \<Rightarrow> (s, [])
      | Inr frame \<Rightarrow>
          if probe s
          then (case frame of Other _ \<Rightarrow> (s, [])
                | _ \<Rightarrow> finishProbe (Some (uint (f_serial frame))) s)
          else (case frame of
              Status _ sq st _ \<Rightarrow> handleReject sq st s
            | Other _ \<Rightarrow> (s, [])
            | Response ser sq _ pdu \<Rightarrow> handleResponse ser sq pdu s))"

definition handleData :: "byte list \<Rightarrow> port \<Rightarrow> port \<times> effect list" where
  "handleData chunk s =
     (let buf = buffer s @ chunk
      in case splitFrames buf of
           Inr (frames, rest) \<Rightarrow> run_steps handleFrame (s\<lparr>buffer := rest\<rparr>) frames
         | Inl e \<Rightarrow> run_steps handleFrame (s\<lparr>buffer := []\<rparr>) (err_frames e))"

definition handleClose :: "port \<Rightarrow> port \<times> effect list" where
  "handleClose s =
     (let wasOpen = open_flag s;
          s = disarm s\<lparr>open_flag := False, probe := False\<rparr>
      in andThen (if open_cb s then settleOpen (Some ClosedBeforeOpen) s else (s, []))
         (\<lambda>s. (s\<lparr>close_cb := False\<rparr>, (if close_cb s then [CloseCallback] else [])
               @ (if wasOpen then [EmitClose] else []))))"

definition handleError :: "string \<Rightarrow> port \<Rightarrow> port \<times> effect list" where
  "handleError err s =
     (if open_cb s then failOpen (SocketError err) s
      else andThen (s, [EmitPortError err])
        (\<lambda>s. andThen (handleClose s) (\<lambda>s. (s, if socket s then [SocketDestroy] else []))))"

text \<open>The armed callback: a connect deadline fails the open, a probe deadline falls back.\<close>

definition timerFired :: "port \<Rightarrow> port \<times> effect list" where
  "timerFired s = (case timer s of
     None \<Rightarrow> (s, [])
   | Some ConnectTimer \<Rightarrow> failOpen ConnectTimedOut s
   | Some ProbeTimer \<Rightarrow> finishProbe None s)"

datatype event =
    Open bool | Write "byte list" | Close bool | Destroy bool
  | SockConnect | SockData "byte list" | SockClose | SockError string | TimerFired

fun step :: "port \<Rightarrow> event \<Rightarrow> port \<times> effect list" where
  "step s (Open cb) = open_port cb s"
| "step s (Write rtu) = port_write rtu s"
| "step s (Close cb) = port_close cb s"
| "step s (Destroy cb) = port_destroy cb s"
| "step s SockConnect = handleConnect s"
| "step s (SockData chunk) = handleData chunk s"
| "step s SockClose = handleClose s"
| "step s (SockError err) = handleError err s"
| "step s TimerFired = timerFired s"

subsection \<open>What one frame does\<close>

lemmas port_defs [step_defs] = arm_def disarm_def nextSeq_def settleOpen_def failOpen_def
  finishProbe_def open_port_def send_def port_write_def port_close_def port_destroy_def
  handleConnect_def handleResponse_def retryTransient_def handleReject_def handleClose_def
  handleError_def timerFired_def Let_def

lemma handleFrame_cases [case_names malformed probing other response reject]:
  assumes "\<And>e. decodeFrame raw = Inl e \<Longrightarrow> handleFrame s raw = (s, []) \<Longrightarrow> P"
    and "\<And>fr. decodeFrame raw = Inr fr \<Longrightarrow> probe s \<Longrightarrow> \<not> is_Other fr \<Longrightarrow>
      handleFrame s raw = finishProbe (Some (uint (f_serial fr))) s \<Longrightarrow> P"
    and "\<And>c. decodeFrame raw = Inr (Other c) \<Longrightarrow> handleFrame s raw = (s, []) \<Longrightarrow> P"
    and "\<And>ser sq st pdu. decodeFrame raw = Inr (Response ser sq st pdu) \<Longrightarrow> \<not> probe s \<Longrightarrow>
      handleFrame s raw = handleResponse ser sq pdu s \<Longrightarrow> P"
    and "\<And>ser sq st pl. decodeFrame raw = Inr (Status ser sq st pl) \<Longrightarrow> \<not> probe s \<Longrightarrow>
      handleFrame s raw = handleReject sq st s \<Longrightarrow> P"
  shows P
proof (cases "decodeFrame raw")
  case (Inl e)
  then show ?thesis using assms(1) by (simp add: handleFrame_def)
next
  case (Inr fr)
  then show ?thesis
    using assms(2-5) by (cases fr; cases "probe s") (simp_all add: handleFrame_def)
qed

text \<open>Counting what a run does.\<close>

fun data_cost :: "effect \<Rightarrow> nat" where
  "data_cost (EmitData _) = 1" | "data_cost _ = 0"

fun write_cost :: "effect \<Rightarrow> nat" where
  "write_cost (SocketWrite _) = 1" | "write_cost _ = 0"

fun opened_cost :: "effect \<Rightarrow> nat" where
  "opened_cost (OpenCallback _) = 1" | "opened_cost _ = 0"

fun requests :: "event \<Rightarrow> nat" where
  "requests (Write _) = 1" | "requests _ = 0"

fun opens :: "event \<Rightarrow> nat" where
  "opens (Open cb) = of_bool cb" | "opens _ = 0"

fun wire_budget :: "event \<Rightarrow> nat" where
  "wire_budget (Write _) = 2" | "wire_budget SockConnect = 1" | "wire_budget _ = 0"

definition retry_left :: "port \<Rightarrow> nat" where
  "retry_left s = (case outstanding s of None \<Rightarrow> 0 | Some p \<Rightarrow> of_bool (\<not> o_retried p))"

definition owed :: "port \<Rightarrow> nat" where
  "owed s = (case outstanding s of None \<Rightarrow> 0 | Some _ \<Rightarrow> 1)"

definition open_owed :: "port \<Rightarrow> nat" where
  "open_owed s = of_bool (open_cb s)"

lemma frame_ledgers:
  "sum_list (map data_cost (snd (handleFrame s raw))) + owed (fst (handleFrame s raw))
     \<le> owed s"
  "sum_list (map write_cost (snd (handleFrame s raw))) + retry_left (fst (handleFrame s raw)) \<le> retry_left s"
  "sum_list (map opened_cost (snd (handleFrame s raw))) + open_owed (fst (handleFrame s raw))
     \<le> open_owed s"
  by (cases raw s rule: handleFrame_cases; auto simp: step_defs retry_left_def owed_def open_owed_def split: option.splits)+

lemma frame_probe_timer:
  "probe s \<longrightarrow> timer s = Some ProbeTimer \<Longrightarrow>
   probe (fst (handleFrame s raw)) \<longrightarrow> timer (fst (handleFrame s raw)) = Some ProbeTimer"
  by (cases raw s rule: handleFrame_cases; auto simp: step_defs split: option.splits)

lemma data_ledgers:
  "sum_list (map data_cost (snd (handleData c s))) + owed (fst (handleData c s))
     \<le> owed s"
  "sum_list (map write_cost (snd (handleData c s))) + retry_left (fst (handleData c s)) \<le> retry_left s"
  "sum_list (map opened_cost (snd (handleData c s))) + open_owed (fst (handleData c s))
     \<le> open_owed s"
proof -
  have r: "retry_left (s\<lparr>buffer := b\<rparr>) = retry_left s" "owed (s\<lparr>buffer := b\<rparr>) = owed s"
    "open_owed (s\<lparr>buffer := b\<rparr>) = open_owed s" for b
    by (simp_all add: retry_left_def owed_def open_owed_def)
  note l1 = run_steps_ledger [where f = handleFrame and income = "\<lambda>_. 0" and cost = data_cost
      and reserve = owed, simplified, OF frame_ledgers(1)]
  note l2 = run_steps_ledger [where f = handleFrame and income = "\<lambda>_. 0" and cost = write_cost
      and reserve = retry_left, simplified, OF frame_ledgers(2)]
  note l3 = run_steps_ledger [where f = handleFrame and income = "\<lambda>_. 0" and cost = opened_cost
      and reserve = open_owed, simplified, OF frame_ledgers(3)]
  show "sum_list (map data_cost (snd (handleData c s))) + owed (fst (handleData c s))
     \<le> owed s"
    using l1 [of "s\<lparr>buffer := _\<rparr>", unfolded r] unfolding handleData_def Let_def
    by (auto split: sum.split prod.split)
  show "sum_list (map write_cost (snd (handleData c s))) + retry_left (fst (handleData c s)) \<le> retry_left s"
    using l2 [of "s\<lparr>buffer := _\<rparr>", unfolded r] unfolding handleData_def Let_def
    by (auto split: sum.split prod.split)
  show "sum_list (map opened_cost (snd (handleData c s))) + open_owed (fst (handleData c s))
     \<le> open_owed s"
    using l3 [of "s\<lparr>buffer := _\<rparr>", unfolded r] unfolding handleData_def Let_def
    by (auto split: sum.split prod.split)
qed

lemma step_data_ledger:
  "sum_list (map data_cost (snd (step s e))) + owed (fst (step s e))
     \<le> requests e + owed s"
  using data_ledgers(1) by (cases e) (auto simp: step_defs owed_def open_owed_def split: option.splits timer.splits)

lemma step_write_ledger:
  "sum_list (map write_cost (snd (step s e))) + retry_left (fst (step s e))
     \<le> wire_budget e + retry_left s"
  using data_ledgers(2) by (cases e) (auto simp: step_defs retry_left_def owed_def open_owed_def split: option.splits timer.splits)

lemma step_open_ledger:
  "sum_list (map opened_cost (snd (step s e))) + open_owed (fst (step s e))
     \<le> opens e + open_owed s"
  using data_ledgers(3) by (cases e) (auto simp: step_defs owed_def open_owed_def split: option.splits timer.splits)

text \<open>C1. Whatever the socket, the caller and the timers do, a port hands modbus-serial at most one
  frame per request written to it: a duplicate reply, a late one or a reject after a reply emits
  nothing.\<close>

theorem port_answers_bounded:
  "sum_list (map data_cost (snd (run_steps step (new_port c) es))) \<le> sum_list (map requests es)"
  using run_steps_ledger [where f = step and cost = data_cost and income = requests
      and reserve = owed, OF step_data_ledger, of "new_port c" es]
  by (simp add: new_port_def owed_def open_owed_def)

text \<open>A request costs at most two frames on the wire (itself and one retry), a connect one.\<close>

lemma port_wire_bounded:
  "sum_list (map write_cost (snd (run_steps step (new_port c) es))) \<le> sum_list (map wire_budget es)"
  using run_steps_ledger [where f = step and cost = write_cost and income = wire_budget
      and reserve = retry_left, OF step_write_ledger, of "new_port c" es]
  by (simp add: new_port_def retry_left_def)

lemma port_opens_once:
  "sum_list (map opened_cost (snd (run_steps step (new_port c) es))) \<le> sum_list (map opens es)"
  using run_steps_ledger [where f = step and cost = opened_cost and income = opens
      and reserve = open_owed, OF step_open_ledger, of "new_port c" es]
  by (simp add: new_port_def owed_def open_owed_def)


subsection \<open>Reassembly\<close>

lemma handleFrame_buffer:
  "handleFrame (s\<lparr>buffer := b\<rparr>) raw
    = ((fst (handleFrame s raw))\<lparr>buffer := b\<rparr>, snd (handleFrame s raw))"
  by (cases raw s rule: handleFrame_cases; cases raw "s\<lparr>buffer := b\<rparr>" rule: handleFrame_cases)
    (auto simp: step_defs split: option.splits)

lemma run_handleFrame_buffer:
  "run_steps handleFrame (s\<lparr>buffer := b\<rparr>) fs
    = ((fst (run_steps handleFrame s fs))\<lparr>buffer := b\<rparr>, snd (run_steps handleFrame s fs))"
  by (induction fs arbitrary: s) (simp_all add: handleFrame_buffer fst_andThen snd_andThen)

lemma handleData_split:
  "splitFrames (r @ c) = Inr (fs, r') \<Longrightarrow> handleData c (s\<lparr>buffer := r\<rparr>)
    = ((fst (run_steps handleFrame s fs))\<lparr>buffer := r'\<rparr>, snd (run_steps handleFrame s fs))"
  by (simp add: handleData_def run_handleFrame_buffer)

lemma run_steps_map: "run_steps f s (map g xs) = run_steps (\<lambda>s x. f s (g x)) s xs"
  by (induction xs arbitrary: s) simp_all

text \<open>C2. How TCP cuts the stream does not matter: as long as the stream stays in sync, any chunking
  leaves the port in the same state, with the same effects in the same order, as one read of all
  the bytes.\<close>

theorem port_chunk_independent:
  assumes "splitFrames (buffer s) = Inr ([], buffer s)"
    and "splitFrames (buffer s @ concat chunks) = Inr (frames, rest)"
  shows "run_steps step s (map SockData chunks) = step s (SockData (concat chunks))"
proof -
  have "run_steps (\<lambda>s c. handleData c s) (s\<lparr>buffer := buffer s\<rparr>) chunks
    = ((fst (run_steps handleFrame s frames))\<lparr>buffer := rest\<rparr>, snd (run_steps handleFrame s frames))"
    using handleData_split assms
    by (rule v5.delivery_chunk_independent [where put = "\<lambda>r s. s\<lparr>buffer := r\<rparr>"])
  moreover have "handleData (concat chunks) (s\<lparr>buffer := buffer s\<rparr>)
    = ((fst (run_steps handleFrame s frames))\<lparr>buffer := rest\<rparr>, snd (run_steps handleFrame s frames))"
    using assms(2) by (rule handleData_split)
  ultimately show ?thesis by (simp add: run_steps_map)
qed

theorem port_chunk_independent_witness:
  "run_steps step (new_port None) (map SockData [[0xA5], [1, 0, 0x10]])
    = step (new_port None) (SockData [0xA5, 1, 0, 0x10])"
proof -
  have "splitFrames (buffer (new_port None)) = Inr ([], buffer (new_port None))"
    and "splitFrames (buffer (new_port None) @ concat [[0xA5], [1, 0, 0x10]]) = Inr ([], [0xA5, 1, 0, 0x10])"
    by code_simp+
  from port_chunk_independent [OF this] show ?thesis by simp
qed

subsection \<open>Rejects and the one retry\<close>

lemma send_effects:
  assumes "socket s"
  shows "send rtu r s = (s\<lparr>seq := seq s + 1, outstanding := Some \<lparr>o_seq = seq s,
      o_unitId = (case rtu of [] \<Rightarrow> 0 | b # _ \<Rightarrow> b),
      o_fn = (case rtu of _ # b # _ \<Rightarrow> b | _ \<Rightarrow> 0), o_rtu = rtu, o_retried = r\<rparr>\<rparr>,
    [SocketWrite (encodeRequest \<lparr>req_serial = (case serial s of Some x \<Rightarrow> x | None \<Rightarrow> PROBE_SERIAL),
       req_seq = uint (seq s), req_pdu = rtu\<rparr>)])"
  using assms by (simp add: send_def nextSeq_def Let_def)

text \<open>A request refused with V5 status 5 is asked exactly once more, unchanged and under a fresh
  sequence, with no answer to the caller; a second refusal, whatever its status, is reported as the
  Modbus exception of that status, addressed to the request's unit and function.\<close>

theorem retry_then_exception:
  assumes "open_flag s" "socket s" "\<not> probe s" and "outstanding s = Some p" "\<not> o_retried p"
    and "o_rtu p = u # fn # rest"
    and "decodeFrame raw1 = Inr (Status ser1 sq1 0x05 pl1)" "ucast sq1 = o_seq p"
    and "decodeFrame raw2 = Inr (Status ser2 sq2 st pl2)" "ucast sq2 = seq s"
  shows "snd (run_steps handleFrame s [raw1, raw2]) =
      [SocketWrite (encodeRequest \<lparr>req_serial = (case serial s of Some x \<Rightarrow> x | None \<Rightarrow> PROBE_SERIAL),
         req_seq = uint (seq s), req_pdu = o_rtu p\<rparr>),
       EmitReject st, EmitData (rtuException u fn (exception_for_status st))]
    \<and> outstanding (fst (run_steps handleFrame s [raw1, raw2])) = None"
  using assms
  by (simp add: handleFrame_def handleReject_def retryTransient_def send_effects)

theorem retry_then_exception_witness:
  "snd (run_steps handleFrame
      ((new_port None)\<lparr>open_flag := True, socket := True, serial := Some 7, seq := 3,
         outstanding := Some \<lparr>o_seq = 2, o_unitId = 1, o_fn = 3, o_rtu = [1, 3, 9], o_retried = False\<rparr>\<rparr>)
      [v5_frame CONTROL_RESPONSE 2 7 (replicate 14 0 @ [5, 0]),
       v5_frame CONTROL_RESPONSE 3 7 (replicate 14 0 @ [5, 0])])
    = [SocketWrite (encodeRequest \<lparr>req_serial = 7, req_seq = 3, req_pdu = [1, 3, 9]\<rparr>),
       EmitReject 5, EmitData (rtuException 1 3 2)]"
proof -
  have d: "decodeFrame (v5_frame CONTROL_RESPONSE sq 7 (replicate 14 0 @ [5, 0])) = Inr (Status 7 sq 5 [5, 0])"
    for sq :: "16 word"
    using decode_reply [of "replicate 14 0" "[5, 0]" sq 7 "[]"]
    by (simp add: RESPONSE_BUSINESS_def MIN_RTU_FRAME_def)
  show ?thesis
    using retry_then_exception
      [where s = "(new_port None)\<lparr>open_flag := True, socket := True, serial := Some 7, seq := 3,
         outstanding := Some \<lparr>o_seq = 2, o_unitId = 1, o_fn = 3, o_rtu = [1, 3, 9], o_retried = False\<rparr>\<rparr>",
       OF _ _ _ _ _ _ d _ d, of _ 1 3 "[9]"]
    by (simp add: new_port_def exception_for_status_def)
qed

text \<open>A late answer to the attempt that was refused stays recognisable as stale.\<close>

lemma stale_answer_dropped:
  assumes "\<not> probe s" and "outstanding s = Some p" "ucast sq \<noteq> o_seq p"
    and "decodeFrame raw = Inr (Response ser sq st pdu) \<or> decodeFrame raw = Inr (Status ser sq st pdu)"
  shows "handleFrame s raw = (s, [])"
  using assms by (auto simp: handleFrame_def handleReject_def handleResponse_def)

subsection \<open>Opening and closing\<close>

definition shut :: "port \<Rightarrow> bool" where
  "shut s \<longleftrightarrow> \<not> probe s \<and> timer s = None"

fun quiet :: "event \<Rightarrow> bool" where
  "quiet (Open _) = False" | "quiet SockConnect = False" | "quiet _ = True"

lemma shut_frame:
  "shut s \<Longrightarrow> shut (fst (handleFrame s raw)) \<and> open_flag (fst (handleFrame s raw)) = open_flag s"
  by (cases raw s rule: handleFrame_cases) (auto simp: step_defs shut_def split: option.splits)

lemma shut_frames:
  "shut s \<Longrightarrow> shut (fst (run_steps handleFrame s fs))
    \<and> open_flag (fst (run_steps handleFrame s fs)) = open_flag s"
proof (induction fs arbitrary: s)
  case (Cons f fs)
  from Cons.IH [of "fst (handleFrame s f)"] shut_frame [OF Cons.prems, of f]
  show ?case by (simp add: fst_andThen)
qed simp

lemma shut_step:
  "shut s \<Longrightarrow> quiet e \<Longrightarrow> shut (fst (step s e)) \<and> (open_flag (fst (step s e)) \<longrightarrow> open_flag s)"
proof (cases e)
  case (SockData c)
  assume "shut s"
  then have "shut (s\<lparr>buffer := b\<rparr>)" for b by (simp add: shut_def)
  from shut_frames [OF this] SockData show ?thesis
    by (auto simp: handleData_def Let_def split: sum.split prod.split)
qed (auto simp: step_defs shut_def split: option.splits)

lemma shut_run:
  "shut s \<Longrightarrow> list_all quiet es \<Longrightarrow> shut (fst (run_steps step s es))
    \<and> (open_flag (fst (run_steps step s es)) \<longrightarrow> open_flag s)"
proof (induction es arbitrary: s)
  case (Cons e es)
  from Cons.prems have q: "quiet e" "list_all quiet es" by simp_all
  have 1: "shut (fst (step s e)) \<and> (open_flag (fst (step s e)) \<longrightarrow> open_flag s)"
    using Cons.prems(1) q(1) by (rule shut_step)
  have "shut (fst (run_steps step (fst (step s e)) es))
    \<and> (open_flag (fst (run_steps step (fst (step s e)) es)) \<longrightarrow> open_flag (fst (step s e)))"
    by (rule Cons.IH) (use 1 q in simp_all)
  with 1 show ?case unfolding run_steps.simps fst_andThen by blast
qed simp

text \<open>Once \<open>close\<close> has been called on a port that is not open (a discovery probe may be in
  flight), no timer, late frame, write, error or close of the socket makes it open; only a new
  \<open>open\<close> or a connect event of the socket can.\<close>

theorem closed_stays_closed:
  assumes "list_all quiet es" and "\<not> open_flag s"
  shows "\<not> open_flag (fst (run_steps step s (Close cb # es)))"
proof -
  have "shut (fst (step s (Close cb)))" and "\<not> open_flag (fst (step s (Close cb)))"
    using assms(2) by (auto simp: shut_def step_defs)
  with shut_run [OF this(1) assms(1)] show ?thesis by (simp add: fst_andThen)
qed

theorem closed_stays_closed_witness:
  "\<not> open_flag (fst (run_steps step (fst (run_steps step (new_port (Some 7)) [Open True, SockConnect]))
      [Close True, TimerFired, SockClose]))"
  by (rule closed_stays_closed) (simp_all add: new_port_def step_defs)

text \<open>A connect event that arrives after \<open>close\<close> re-arms the probe, and its deadline opens
  the port that was closed.\<close>

lemma late_connect_reopens:
  "open_flag (fst (run_steps step (new_port (Some 7)) [Open True, Close False, SockConnect, TimerFired]))"
  by (simp add: new_port_def step_defs)

definition guarded :: "port \<Rightarrow> bool" where
  "guarded s \<longleftrightarrow> (open_cb s \<longrightarrow> timer s \<noteq> None) \<and> (open_flag s \<longrightarrow> serial s \<noteq> None)"

fun keeps_deadline :: "event \<Rightarrow> bool" where
  "keeps_deadline (Close _) = False" | "keeps_deadline (Destroy _) = False" | "keeps_deadline _ = True"

lemma guarded_frame: "guarded s \<Longrightarrow> guarded (fst (handleFrame s raw))"
  by (cases raw s rule: handleFrame_cases) (auto simp: step_defs guarded_def split: option.splits)

lemma guarded_frames: "guarded s \<Longrightarrow> guarded (fst (run_steps handleFrame s fs))"
  by (induction fs arbitrary: s) (auto simp: fst_andThen dest: guarded_frame)

lemma guarded_step: "guarded s \<Longrightarrow> keeps_deadline e \<Longrightarrow> guarded (fst (step s e))"
proof (cases e)
  case (SockData c)
  assume "guarded s"
  then have "guarded (s\<lparr>buffer := b\<rparr>)" for b by (simp add: guarded_def)
  from guarded_frames [OF this] SockData show ?thesis
    by (auto simp: handleData_def Let_def split: sum.split prod.split)
qed (auto simp: step_defs guarded_def split: option.splits timer.splits)

lemma guarded_run:
  "list_all keeps_deadline es \<Longrightarrow> guarded (fst (run_steps step (new_port c) es))"
  by (rule run_steps_invariant [where P = keeps_deadline])
    (auto simp: guarded_step, simp add: guarded_def new_port_def)

text \<open>C3. An open never hangs: in every state reached without \<open>close\<close> or \<open>destroy\<close>, an open that is
  still waiting has a deadline armed, and when it fires the caller is answered.\<close>

theorem open_always_settles:
  assumes "list_all keeps_deadline es" and "s = fst (run_steps step (new_port c) es)" and "open_cb s"
  shows "\<exists>err. OpenCallback err \<in> set (snd (step s TimerFired)) \<and> \<not> open_cb (fst (step s TimerFired))"
proof -
  have "guarded s" using assms(1,2) guarded_run by simp
  with assms(3) show ?thesis
    by (auto simp: guarded_def step_defs split: option.splits timer.splits)
qed

theorem open_always_settles_witness:
  "\<exists>err. OpenCallback err \<in> set (snd (step (fst (run_steps step (new_port None) [Open True, SockConnect])) TimerFired))"
  using open_always_settles [of "[Open True, SockConnect]"
      "fst (run_steps step (new_port None) [Open True, SockConnect])" None]
  by (simp add: new_port_def step_defs)

end
