(* ===== verification/Profile_Types.thy ===== *)
theory Profile_Types
  imports Prelude
begin

text \<open>
  The profile vocabulary: \<^verbatim>\<open>packages/inverter-core/src/types.ts\<close> and the serializable mirror in
  \<^verbatim>\<open>profile-data.ts\<close>. A profile is a list of metrics, each with a binding that says where its value
  comes from. The compute closures of the source are the functions \<open>compileComputeExpr\<close> returns.

  Keys, topics, labels, units, groups and roles are strings. A \<open>MetricValues\<close> object is an
  association list, read with \<open>v[k] ?? 0\<close> as \<open>value_or_0\<close>.
\<close>

datatype RegisterType = U_WORD | S_WORD | U_DWORD | RAW
datatype MetricAccess = ReadOnly | ReadWrite
datatype MetricKind = Measurement | Cumulative | StatusKind | Setting
datatype MetricStorage = Series | ConfigLog | NotStored

type_synonym MetricValues = "(string, number) js_map"
type_synonym role = string

datatype ComputeExpr =
    ESum "string list"
  | EDiff string string
  | EScale string number
  | ECombine "string list" "string list option"
  | ERatio "string list" "string list" "number option"
  | EClamp string "number option" "number option"

datatype AggregateMatch = MatchRole role | MatchPrefix string

datatype ControlExpr =
    SnapshotToggle string number
  | Preset "(string \<times> number) list"

datatype Binding =
    Modbus "int list" RegisterType
  | Http string
  | Compute ComputeExpr
  | Control ControlExpr

record MetricRange =
  rmin :: number
  rmax :: number

record MetricFlow =
  positive :: string
  negative :: string

text \<open>\<open>MetricBase\<close> without its binding, which the two metric shapes carry differently.\<close>

record MetricBase =
  mkey :: string
  mtopic :: string
  mlabel :: string
  munit :: "string option"
  mgroup :: string
  mtype :: RegisterType
  maddresses :: "int list"
  mscale :: number
  mdeadband :: "number option"
  moffset :: "number option"
  maccess :: MetricAccess
  mcontrol :: "ControlExpr option"
  mrole :: "role option"
  mindex :: "nat option"
  mkind :: "MetricKind option"
  mstorage :: "MetricStorage option"
  mrange :: "MetricRange option"
  menum :: "(int \<times> string) list option"
  mflow :: "MetricFlow option"

record MetricDef = MetricBase +
  mbinding :: Binding
  mcompute :: "(MetricValues \<Rightarrow> number) option"
  mcomputeInputs :: "string list option"

record MetricDataDef = MetricBase +
  dbinding :: "Binding option"
  dcomputeExpr :: "ComputeExpr option"
  dcomputeAggregate :: "AggregateMatch option"

record ProfileDeclarations =
  backupOutput :: "bool option"

record InverterProfile =
  pid :: string
  pname :: string
  pmanufacturer :: string
  pmetrics :: "MetricDef list"
  pdeclares :: "ProfileDeclarations option"

record ProfileData =
  schemaVersion :: nat
  did :: string
  dname :: string
  dmanufacturer :: string
  dversion :: string
  dmetrics :: "MetricDataDef list"
  ddeclares :: "ProfileDeclarations option"

record InverterSample =
  iv_time :: millis
  iv_inverterId :: string
  iv_metrics :: MetricValues

definition starts_with :: "string \<Rightarrow> string \<Rightarrow> bool" where
  "starts_with s p \<longleftrightarrow> take (length p) s = p"

subsection \<open>Compute expressions\<close>

definition computeExprInputs :: "ComputeExpr \<Rightarrow> string list" where
  "computeExprInputs e = (case e of
     ESum ks \<Rightarrow> ks
   | EDiff a b \<Rightarrow> [a, b]
   | EScale k _ \<Rightarrow> [k]
   | ECombine add sub \<Rightarrow> add @ (case sub of Some ks \<Rightarrow> ks | None \<Rightarrow> [])
   | EClamp k _ _ \<Rightarrow> [k]
   | ERatio num den _ \<Rightarrow> num @ den)"

definition value_or_0 :: "MetricValues \<Rightarrow> string \<Rightarrow> number" where
  "value_or_0 v k = (case js_get v k of Some x \<Rightarrow> x | None \<Rightarrow> 0)"

definition sum_of :: "string list \<Rightarrow> MetricValues \<Rightarrow> number" where
  "sum_of ks v = foldl (\<lambda>acc k. acc + value_or_0 v k) 0 ks"

definition compileComputeExpr :: "ComputeExpr \<Rightarrow> MetricValues \<Rightarrow> number" where
  "compileComputeExpr e v = (case e of
     ESum ks \<Rightarrow> sum_of ks v
   | EDiff a b \<Rightarrow> value_or_0 v a - value_or_0 v b
   | EScale k factor \<Rightarrow> value_or_0 v k * factor
   | ECombine add sub \<Rightarrow> sum_of add v - sum_of (case sub of Some ks \<Rightarrow> ks | None \<Rightarrow> []) v
   | EClamp k lo hi \<Rightarrow>
       (let x = value_or_0 v k;
            x = (case lo of Some l \<Rightarrow> max l x | None \<Rightarrow> x)
        in case hi of Some h \<Rightarrow> min h x | None \<Rightarrow> x)
   | ERatio num den scl \<Rightarrow>
       (let d = sum_of den v
        in if d = 0 then 0 else (sum_of num v / d) * (case scl of Some s \<Rightarrow> s | None \<Rightarrow> 1)))"

definition bindingFor :: "MetricDataDef \<Rightarrow> Binding" where
  "bindingFor m = (case dbinding m of
     Some b \<Rightarrow> b
   | None \<Rightarrow> (case mcontrol m of
       Some e \<Rightarrow> Control e
     | None \<Rightarrow> (case dcomputeExpr m of
         Some e \<Rightarrow> Compute e
       | None \<Rightarrow> Modbus (maddresses m) (mtype m))))"

definition toMetricDef :: "MetricDataDef \<Rightarrow> MetricDef" where
  "toMetricDef m = MetricBase.extend (MetricBase.truncate m)
     (case dcomputeExpr m of
        Some e \<Rightarrow> \<lparr>mbinding = bindingFor m, mcompute = Some (compileComputeExpr e),
                   mcomputeInputs = Some (computeExprInputs e)\<rparr>
      | None \<Rightarrow> \<lparr>mbinding = bindingFor m, mcompute = None, mcomputeInputs = None\<rparr>)"

definition declarationsOf :: "ProfileData \<Rightarrow> ProfileDeclarations option" where
  "declarationsOf d =
     (if 3 \<le> schemaVersion d then ddeclares d
      else if \<exists>m\<in>set (dmetrics d). (case mrole m of None \<Rightarrow> False | Some r \<Rightarrow> starts_with r ''load.'')
      then Some \<lparr>backupOutput = Some True\<rparr> else None)"

definition hydrateProfile :: "ProfileData \<Rightarrow> InverterProfile" where
  "hydrateProfile d = \<lparr>pid = did d, pname = dname d, pmanufacturer = dmanufacturer d,
     pmetrics = map toMetricDef (dmetrics d), pdeclares = declarationsOf d\<rparr>"

lemma sum_of_sum_list: "sum_of ks v = sum_list (map (value_or_0 v) ks)"
proof -
  have "foldl (\<lambda>acc k. acc + value_or_0 v k) a ks = a + sum_list (map (value_or_0 v) ks)" for a
    by (induction ks arbitrary: a) (simp_all add: add.assoc)
  then show ?thesis by (simp add: sum_of_def)
qed

lemma toMetricDef_simps [simp]:
  "mkey (toMetricDef m) = mkey m" "mbinding (toMetricDef m) = bindingFor m"
  "mrole (toMetricDef m) = mrole m" "maccess (toMetricDef m) = maccess m"
  "mcomputeInputs (toMetricDef m) = map_option computeExprInputs (dcomputeExpr m)"
  "mcompute (toMetricDef m) = map_option compileComputeExpr (dcomputeExpr m)"
  by (simp_all add: toMetricDef_def MetricBase.defs split: option.split)

text \<open>A compiled expression reads no metric outside its declared inputs.\<close>

lemma compute_cong:
  assumes "\<And>k. k \<in> set (computeExprInputs e) \<Longrightarrow> js_get v k = js_get w k"
  shows "compileComputeExpr e v = compileComputeExpr e w"
proof -
  have eq: "value_or_0 v k = value_or_0 w k" if "k \<in> set (computeExprInputs e)" for k
    using assms [OF that] by (simp add: value_or_0_def)
  have sums: "sum_of ks v = sum_of ks w" if "set ks \<subseteq> set (computeExprInputs e)" for ks
  proof -
    have "map (value_or_0 v) ks = map (value_or_0 w) ks" using eq that by auto
    then show ?thesis by (simp only: sum_of_sum_list)
  qed
  show ?thesis
  proof (cases e)
    case (ECombine add sub)
    with sums [of add] sums [of "case sub of Some ks \<Rightarrow> ks | None \<Rightarrow> []"] show ?thesis
      by (auto simp: compileComputeExpr_def computeExprInputs_def split: option.splits)
  next
    case (ERatio num den scl)
    with sums [of num] sums [of den] show ?thesis
      by (simp add: compileComputeExpr_def computeExprInputs_def Let_def)
  next
    case (ESum ks)
    with sums [of ks] show ?thesis by (simp add: compileComputeExpr_def computeExprInputs_def)
  qed (use eq in \<open>simp_all add: compileComputeExpr_def computeExprInputs_def\<close>)
qed

text \<open>The inputs the read planner groups a derived metric by are all it depends on: two samples
  that agree on \<open>computeInputs\<close> give the hydrated metric the same value.\<close>

theorem compute_inputs_complete:
  assumes "mcomputeInputs (toMetricDef m) = Some ks" and "mcompute (toMetricDef m) = Some f"
    and "\<forall>k\<in>set ks. js_get v k = js_get w k"
  shows "f v = f w"
  using assms by (auto intro: compute_cong)

definition sample_data_metric :: "string \<Rightarrow> int list \<Rightarrow> ComputeExpr option \<Rightarrow> MetricDataDef" where
  "sample_data_metric k addrs e = \<lparr>mkey = k, mtopic = k, mlabel = k, munit = None, mgroup = ''g'',
     mtype = U_WORD, maddresses = addrs, mscale = 1, mdeadband = None, moffset = None,
     maccess = ReadOnly, mcontrol = None, mrole = None, mindex = None, mkind = None, mstorage = None,
     mrange = None, menum = None, mflow = None, dbinding = None, dcomputeExpr = e,
     dcomputeAggregate = None\<rparr>"

theorem compute_inputs_complete_witness:
  "compileComputeExpr (EDiff ''a'' ''b'') [(''a'', 5), (''b'', 2), (''c'', 1)]
     = compileComputeExpr (EDiff ''a'' ''b'') [(''b'', 2), (''a'', 5)]"
  by (rule compute_inputs_complete [of "sample_data_metric ''d'' [] (Some (EDiff ''a'' ''b''))" "[''a'', ''b'']"])
    (simp_all add: sample_data_metric_def computeExprInputs_def)

end
