(* ===== verification/Modbus_Codec.thy ===== *)
theory Modbus_Codec
  imports Profile_Types
begin

text \<open>
  \<^verbatim>\<open>packages/inverter-core/src/codec.ts\<close>: register words to engineering values and back. The
  register map of a poll is a partial map from address to a 16-bit word. The module-level clamp
  ledger is passed and returned. \<open>undefined\<close> is \<open>None\<close>; the \<open>RangeError\<close> of the encoder is
  \<open>Inl\<close>.
\<close>

definition registerWidth :: "RegisterType \<Rightarrow> int list \<Rightarrow> nat" where
  "registerWidth t addresses = (case t of U_DWORD \<Rightarrow> 2 | RAW \<Rightarrow> length addresses | _ \<Rightarrow> 1)"

definition toSigned16 :: "int \<Rightarrow> int" where
  "toSigned16 v = (if v > 0x7FFF then v - 0x10000 else v)"

definition fromWords :: "RegisterType \<Rightarrow> 16 word \<Rightarrow> 16 word option \<Rightarrow> int option" where
  "fromWords t w0 w1 = (case t of
     U_WORD \<Rightarrow> Some (uint w0)
   | S_WORD \<Rightarrow> Some (toSigned16 (uint w0))
   | U_DWORD \<Rightarrow> (case w1 of None \<Rightarrow> None | Some w \<Rightarrow> Some (uint w0 + uint w * 0x10000))
   | RAW \<Rightarrow> None)"

type_synonym registers = "int \<rightharpoonup> 16 word"

definition rawValue :: "'a MetricDef_scheme \<Rightarrow> registers \<Rightarrow> int option" where
  "rawValue def regs = (case mbinding def of
     Modbus (a0 # rest) t \<Rightarrow>
       (case regs a0 of
          None \<Rightarrow> None
        | Some w0 \<Rightarrow> fromWords t w0 (case rest of [] \<Rightarrow> None | a1 # _ \<Rightarrow> regs a1))
   | _ \<Rightarrow> None)"

record ClampReport =
  cr_count :: nat
  cr_last :: number

type_synonym clamps = "(string, ClampReport) js_map"

definition clampReports :: "clamps \<Rightarrow> (string \<times> ClampReport) list" where
  "clampReports cs = cs"

definition resetClampReports :: "clamps \<Rightarrow> clamps" where
  "resetClampReports cs = []"

definition reportClamp :: "string \<Rightarrow> number \<Rightarrow> clamps \<Rightarrow> clamps" where
  "reportClamp k v cs = (case js_get cs k of
     Some seen \<Rightarrow> js_set k \<lparr>cr_count = cr_count seen + 1, cr_last = v\<rparr> cs
   | None \<Rightarrow> js_set k \<lparr>cr_count = 1, cr_last = v\<rparr> cs)"

definition scaled :: "'a MetricBase_scheme \<Rightarrow> number \<Rightarrow> number" where
  "scaled def raw = raw * mscale def + (case moffset def of Some x \<Rightarrow> x | None \<Rightarrow> 0)"

definition clamp_range :: "MetricRange \<Rightarrow> number \<Rightarrow> number" where
  "clamp_range r v = min (rmax r) (max (rmin r) v)"

definition applyScaling :: "'a MetricBase_scheme \<Rightarrow> number \<Rightarrow> clamps \<Rightarrow> number option \<times> clamps" where
  "applyScaling def raw cs =
     (let v = scaled def raw
      in if \<not> (is_finite (raw * mscale def) \<and> is_finite v) then (None, cs)
         else case mrange def of
           None \<Rightarrow> (Some v, cs)
         | Some r \<Rightarrow> (let c = clamp_range r v
                     in (Some c, if c \<noteq> v then reportClamp (mkey def) v cs else cs)))"

definition decode :: "'a MetricDef_scheme \<Rightarrow> registers \<Rightarrow> clamps \<Rightarrow> number option \<times> clamps" where
  "decode def regs cs = (case rawValue def regs of
     None \<Rightarrow> (None, cs)
   | Some raw \<Rightarrow> applyScaling def (of_int raw) cs)"

definition word_limits :: "bool \<Rightarrow> int \<times> int" where
  "word_limits is_signed = (if is_signed then (- 0x8000, 0x7FFF) else (0, 0xFFFF))"

datatype range_error = RangeError string

definition encodeWord :: "'a MetricDef_scheme \<Rightarrow> number \<Rightarrow> range_error + int" where
  "encodeWord def v =
     (let is_signed = (case mbinding def of Modbus _ t \<Rightarrow> t = S_WORD | _ \<Rightarrow> False);
          q = (v - (case moffset def of Some x \<Rightarrow> x | None \<Rightarrow> 0)) / mscale def;
          raw = math_round q;
          (lo, hi) = word_limits is_signed
      in if mscale def = 0 \<or> raw < lo \<or> raw > hi then Inl (RangeError (mkey def))
         else Inr (if raw < 0 then raw + 0x10000 else raw))"

subsection \<open>Words\<close>

lemma toSigned16_sint: "toSigned16 (uint w) = sint (w :: 16 word)"
proof -
  have u: "0 \<le> uint w" "uint w < 65536" using uint_lt2p [of w] by simp_all
  have "x div 32768 = (if x < 32768 then 0 else 1)" if "0 \<le> x" "x < 65536" for x :: int
    using that int_div_pos_eq [of x 32768 1 "x - 32768"] by (simp add: div_pos_pos_trivial)
  from this [OF u] have "bit (uint w) 15 \<longleftrightarrow> 32768 \<le> uint w"
    by (simp add: bit_iff_odd)
  then show ?thesis
    using u by (simp add: toSigned16_def sint_uint signed_take_bit_eq_take_bit_minus take_bit_int_eq_self)
qed

lemma fromWords_total: "t \<noteq> RAW \<Longrightarrow> (t = U_DWORD \<longrightarrow> w1 \<noteq> None) \<Longrightarrow> \<exists>r. fromWords t w0 w1 = Some r"
  by (cases t) (auto simp: fromWords_def)

lemma encodeWord_Inr:
  assumes "encodeWord def v = Inr w"
  defines "q \<equiv> (v - (case moffset def of Some x \<Rightarrow> x | None \<Rightarrow> 0)) / mscale def"
  shows "mscale def \<noteq> 0" and "0 \<le> w" "w < 65536"
    and "(case mbinding def of Modbus _ t \<Rightarrow> t = S_WORD | _ \<Rightarrow> False) \<Longrightarrow> toSigned16 w = math_round q"
    and "\<not> (case mbinding def of Modbus _ t \<Rightarrow> t = S_WORD | _ \<Rightarrow> False) \<Longrightarrow> w = math_round q"
  using assms
  by (auto simp: encodeWord_def word_limits_def Let_def toSigned16_def q_def split: if_splits prod.splits)

subsection \<open>The encoder never wraps\<close>

definition signed_binding :: "'a MetricDef_scheme \<Rightarrow> bool" where
  "signed_binding def = (case mbinding def of Modbus _ t \<Rightarrow> t = S_WORD | _ \<Rightarrow> False)"

definition quotient :: "'a MetricDef_scheme \<Rightarrow> number \<Rightarrow> number" where
  "quotient def v = (v - (case moffset def of Some x \<Rightarrow> x | None \<Rightarrow> 0)) / mscale def"

lemma encodeWord_Inr_iff:
  "encodeWord def v = Inr w \<longleftrightarrow> mscale def \<noteq> 0
     \<and> fst (word_limits (signed_binding def)) \<le> math_round (quotient def v)
     \<and> math_round (quotient def v) \<le> snd (word_limits (signed_binding def))
     \<and> w = math_round (quotient def v) mod 65536"
proof -
  let ?r = "math_round (quotient def v)" and ?l = "word_limits (signed_binding def)"
  have m: "(if ?r < 0 then ?r + 65536 else ?r) = ?r mod 65536" if "fst ?l \<le> ?r" "?r \<le> snd ?l"
  proof (cases "?r < 0")
    case True
    have "(?r + 65536) mod 65536 = ?r + 65536"
      using that True by (intro mod_pos_pos_trivial) (auto simp: word_limits_def split: if_splits)
    with True show ?thesis by simp
  next
    case False
    with that show ?thesis by (auto simp: word_limits_def mod_pos_pos_trivial split: if_splits)
  qed
  show ?thesis
    using m by (auto simp: encodeWord_def Let_def quotient_def [symmetric] signed_binding_def [symmetric]
        split: prod.splits if_splits)
qed

text \<open>A value is encoded only when its rounded raw value fits the register type, and then the
  word the register holds, read back with the register's signedness, is that raw value: a write
  never wraps to another plausible one.\<close>

theorem encodeWord_no_wrap:
  assumes "encodeWord def v = Inr w"
  shows "0 \<le> w \<and> w < 65536
    \<and> (if signed_binding def then toSigned16 w else w) = math_round (quotient def v)"
  using encodeWord_Inr [OF assms, folded signed_binding_def quotient_def] by auto

definition word_metric :: "RegisterType \<Rightarrow> number \<Rightarrow> number option \<Rightarrow> MetricRange option \<Rightarrow> MetricDef" where
  "word_metric t s off r = \<lparr>mkey = ''m'', mtopic = ''m'', mlabel = ''m'', munit = None, mgroup = ''g'',
     mtype = t, maddresses = [100], mscale = s, mdeadband = None, moffset = off,
     maccess = ReadWrite, mcontrol = None, mrole = None, mindex = None, mkind = None, mstorage = None,
     mrange = r, menum = None, mflow = None, mbinding = Modbus [100] t, mcompute = None,
     mcomputeInputs = None\<rparr>"

lemma round_m50: "math_round (- 50) = - 50"
  using math_round_of_int [of "- 50"] by simp

theorem encodeWord_no_wrap_witness:
  "encodeWord (word_metric S_WORD (1/10) None None) (- 5) = Inr 65486
    \<and> toSigned16 65486 = math_round (quotient (word_metric S_WORD (1/10) None None) (- 5))"
proof -
  have e: "encodeWord (word_metric S_WORD (1/10) None None) (- 5) = Inr 65486"
    by (simp add: encodeWord_Inr_iff word_metric_def signed_binding_def quotient_def word_limits_def
        round_m50)
  with encodeWord_no_wrap [OF e] show ?thesis by (simp add: signed_binding_def word_metric_def)
qed

subsection \<open>Round trip\<close>

lemma is_finite_small: "\<bar>x\<bar> \<le> 2 ^ 100 \<Longrightarrow> is_finite x"
  by (simp add: is_finite_def max_double_def)

lemma clamp_nonexpansive:
  "rmin r \<le> v \<Longrightarrow> v \<le> rmax r \<Longrightarrow> \<bar>clamp_range r x - v\<bar> \<le> \<bar>x - v\<bar>"
  by (auto simp: clamp_range_def min_def max_def)

lemma rawValue_encoded:
  assumes "mbinding def = Modbus [a] t" "t = U_WORD \<or> t = S_WORD"
    and "encodeWord def v = Inr w" and "regs a = Some (word_of_int w)"
  shows "rawValue def regs = Some (math_round (quotient def v))"
proof -
  have w: "0 \<le> w" "w < 65536" using encodeWord_Inr(2,3) [OF assms(3)] by simp_all
  then have u: "uint (word_of_int w :: 16 word) = w"
    by (simp add: uint_word_of_int mod_pos_pos_trivial)
  show ?thesis
    using assms(1,2,4) encodeWord_Inr(4,5) [OF assms(3)] u
    by (auto simp: rawValue_def fromWords_def quotient_def)
qed

text \<open>C8. Round trip through a register: what is read back after a successful write differs from the
  value written by at most half the register's step, whatever the offset, and the declared range
  does not move a value that lies inside it.\<close>

theorem write_read_roundtrip:
  assumes "mbinding def = Modbus [a] t" and "t = U_WORD \<or> t = S_WORD"
    and "encodeWord def v = Inr w" and "regs a = Some (word_of_int w)"
    and "\<bar>mscale def\<bar> \<le> 2 ^ 64" and "\<bar>case moffset def of Some x \<Rightarrow> x | None \<Rightarrow> 0\<bar> \<le> 2 ^ 64"
    and "case mrange def of None \<Rightarrow> True | Some r \<Rightarrow> rmin r \<le> v \<and> v \<le> rmax r"
  shows "\<exists>v'. fst (decode def regs cs) = Some v' \<and> \<bar>v' - v\<bar> \<le> \<bar>mscale def\<bar> / 2"
proof -
  let ?q = "quotient def v" and ?o = "case moffset def of Some x \<Rightarrow> x | None \<Rightarrow> 0"
  let ?r = "of_int (math_round ?q) :: number"
  have s0: "mscale def \<noteq> 0" using encodeWord_Inr(1) [OF assms(3)] .
  have "\<bar>math_round ?q\<bar> \<le> 65536"
    using assms(3) by (auto simp: encodeWord_Inr_iff word_limits_def split: if_splits)
  then have r: "\<bar>?r\<bar> \<le> 65536" by linarith
  have p: "\<bar>?r * mscale def\<bar> \<le> 65536 * 2 ^ 64"
    unfolding abs_mult using r assms(5) by (intro mult_mono) auto
  then have fin: "is_finite (?r * mscale def)" "is_finite (scaled def ?r)"
    unfolding scaled_def using assms(6) by (auto intro!: is_finite_small)
  have "scaled def ?r - v = (?r - q) * mscale def" if "v = q * mscale def + ?o" for q
    unfolding scaled_def that by (simp add: algebra_simps)
  moreover have "v = ?q * mscale def + ?o" using s0 by (simp add: quotient_def)
  ultimately have "scaled def ?r - v = (?r - ?q) * mscale def" by blast
  then have "\<bar>scaled def ?r - v\<bar> = \<bar>?r - ?q\<bar> * \<bar>mscale def\<bar>" by (simp add: abs_mult)
  also have "\<dots> \<le> 1 / 2 * \<bar>mscale def\<bar>"
    by (rule mult_right_mono) (use math_round_error [of ?q] in auto)
  finally have d: "\<bar>scaled def ?r - v\<bar> \<le> \<bar>mscale def\<bar> / 2" by simp
  have dec: "fst (decode def regs cs) = Some (case mrange def of None \<Rightarrow> scaled def ?r
      | Some r \<Rightarrow> clamp_range r (scaled def ?r))"
    using rawValue_encoded [OF assms(1-3), of regs, OF assms(4)] fin
    by (simp add: decode_def applyScaling_def Let_def split: option.split)
  show ?thesis
  proof (cases "mrange def")
    case None
    with d dec show ?thesis by simp
  next
    case (Some r)
    with assms(7) have "\<bar>clamp_range r (scaled def ?r) - v\<bar> \<le> \<bar>scaled def ?r - v\<bar>"
      by (auto intro: clamp_nonexpansive)
    with d dec Some show ?thesis by auto
  qed
qed

theorem write_read_roundtrip_witness:
  "\<exists>v'. fst (decode (word_metric S_WORD (1/10) (Some 20) None) [100 \<mapsto> word_of_int 65486] [])
     = Some v' \<and> \<bar>v' - 15\<bar> \<le> 1 / 20"
proof -
  have e: "encodeWord (word_metric S_WORD (1/10) (Some 20) None) 15 = Inr 65486"
    by (simp add: encodeWord_Inr_iff word_metric_def signed_binding_def quotient_def word_limits_def
        round_m50)
  show ?thesis
    using write_read_roundtrip [OF _ _ e, of 100 S_WORD "[100 \<mapsto> word_of_int 65486]" "[]"]
    by (simp add: word_metric_def)
qed

subsection \<open>The decoder\<close>

lemma decode_Some_in_range:
  assumes "fst (decode def regs cs) = Some v" and "mrange def = Some r" "rmin r \<le> rmax r"
  shows "rmin r \<le> v \<and> v \<le> rmax r"
  using assms
  by (auto simp: decode_def applyScaling_def Let_def clamp_range_def split: option.splits if_splits)

text \<open>A missing word never decodes: zero is not made up for a register that did not answer.\<close>

lemma decode_absent:
  "mbinding def = Modbus (a # as) t \<Longrightarrow> regs a = None \<Longrightarrow> decode def regs cs = (None, cs)"
  by (simp add: decode_def rawValue_def)

lemma decode_half_dword:
  "mbinding def = Modbus [a, b] U_DWORD \<Longrightarrow> regs b = None \<Longrightarrow> decode def regs cs = (None, cs)"
  by (simp add: decode_def rawValue_def fromWords_def split: option.split)

lemma decode_word:
  assumes "mbinding def = Modbus [a] U_WORD" "regs a = Some w" and "mrange def = None"
    and "\<bar>mscale def\<bar> \<le> 2 ^ 64" "moffset def = None"
  shows "decode def regs cs = (Some (of_int (uint w) * mscale def), cs)"
proof -
  have "0 \<le> uint w" "uint w < 65536" using uint_lt2p [of w] by simp_all
  then have "\<bar>of_int (uint w) :: number\<bar> \<le> 65536" by linarith
  then have "\<bar>of_int (uint w) * mscale def\<bar> \<le> 65536 * 2 ^ 64"
    unfolding abs_mult using assms(4) by (intro mult_mono) auto
  then have "is_finite (of_int (uint w) * mscale def)" by (intro is_finite_small) simp
  with assms show ?thesis
    by (simp add: decode_def rawValue_def fromWords_def applyScaling_def scaled_def Let_def)
qed

text \<open>A declared range is enforced at the decode boundary and every enforcement is on the
  ledger: a decoded value lies in its range, and the ledger's count for the key goes up by one,
  with the unclamped value, exactly when clamping changed it.\<close>

theorem decode_clamps:
  assumes "fst (decode def regs cs) = Some v" and "mrange def = Some r" and "rmin r \<le> rmax r"
    and "rawValue def regs = Some raw"
  shows "rmin r \<le> v \<and> v \<le> rmax r
    \<and> snd (decode def regs cs) =
       (if v = scaled def (of_int raw) then cs
        else js_set (mkey def)
          \<lparr>cr_count = (case js_get cs (mkey def) of Some c \<Rightarrow> cr_count c + 1 | None \<Rightarrow> 1),
           cr_last = scaled def (of_int raw)\<rparr> cs)"
proof -
  have "rmin r \<le> v \<and> v \<le> rmax r" using assms(1-3) by (rule decode_Some_in_range)
  moreover have "v = clamp_range r (scaled def (of_int raw))"
    using assms by (auto simp: decode_def applyScaling_def Let_def split: if_splits)
  ultimately show ?thesis
    using assms
    by (auto simp: decode_def applyScaling_def Let_def reportClamp_def split: if_splits option.splits)
qed

theorem decode_clamps_witness:
  "snd (decode (word_metric U_WORD (1/10) None (Some \<lparr>rmin = 0, rmax = 100\<rparr>)) [100 \<mapsto> 0xFFFF] [])
     = [(''m'', \<lparr>cr_count = 1, cr_last = 13107/2\<rparr>)]"
proof -
  let ?d = "word_metric U_WORD (1/10) None (Some \<lparr>rmin = 0, rmax = 100\<rparr>)"
  have "is_finite (13107 / 2)" by (rule is_finite_small) simp
  then have "fst (decode ?d [100 \<mapsto> 0xFFFF] []) = Some 100" "rawValue ?d [100 \<mapsto> 0xFFFF] = Some 65535"
    by (simp_all add: decode_def rawValue_def fromWords_def applyScaling_def scaled_def word_metric_def
        clamp_range_def)
  from decode_clamps [OF this(1) _ _ this(2), of "\<lparr>rmin = 0, rmax = 100\<rparr>"] show ?thesis
    by (simp add: word_metric_def scaled_def)
qed

end
