(* ===== verification/Read_Plan.thy ===== *)
theory Read_Plan
  imports Modbus_Codec
begin

text \<open>
  The read planner of \<^verbatim>\<open>packages/inverter-core/src/modbus-transport.ts\<close>: contiguous blocks under
  the per-request cap, one spanning block per atomic compute group, merging across gaps, and the
  split a refused span falls back to.

  The depth-first walk over computed inputs is written with the explicit stack that the source's
  recursion keeps; the order of visits is the same. Log lines are dropped.
\<close>

definition MAX_BLOCK :: int where "MAX_BLOCK = 120"

record ReadBlock =
  rb_start :: int
  rb_count :: int
  rb_grouped :: bool
  rb_merged :: bool

abbreviation plain_block :: "int \<Rightarrow> int \<Rightarrow> ReadBlock" where
  "plain_block a n \<equiv> \<lparr>rb_start = a, rb_count = n, rb_grouped = False, rb_merged = False\<rparr>"

definition rb_end :: "ReadBlock \<Rightarrow> int" where
  "rb_end b = rb_start b + rb_count b"

definition addressesOf :: "'a MetricDef_scheme \<Rightarrow> int list" where
  "addressesOf m = (case mbinding m of
     Modbus (a # as) t \<Rightarrow> (if t = RAW then [] else if t = U_DWORD then a # as else [a])
   | _ \<Rightarrow> [])"

definition readableAddresses :: "MetricDef list \<Rightarrow> int list" where
  "readableAddresses metrics = fold (\<lambda>m s. set_adds (addressesOf m) s) metrics []"

definition extend_block :: "ReadBlock \<Rightarrow> int \<Rightarrow> ReadBlock option" where
  "extend_block b addr =
     (if addr \<le> rb_end b \<and> addr - rb_start b < MAX_BLOCK
      then Some (b\<lparr>rb_count := max (rb_count b) (addr - rb_start b + 1)\<rparr>) else None)"

definition splitIntoBlocks :: "int list \<Rightarrow> ReadBlock list" where
  "splitIntoBlocks addrs = fold_last extend_block (\<lambda>a. plain_block a 1) [] addrs"

datatype InverterTransport = Tcp | RtuOverTcp | SolarmanV5

definition gapToleranceFor :: "InverterTransport \<Rightarrow> int" where
  "gapToleranceFor t = (case t of Tcp \<Rightarrow> 0 | RtuOverTcp \<Rightarrow> 0 | SolarmanV5 \<Rightarrow> 32)"

definition mergeable :: "ReadBlock \<Rightarrow> ReadBlock \<Rightarrow> int \<Rightarrow> bool" where
  "mergeable lst nxt tolerance \<longleftrightarrow>
     tolerance \<noteq> 0
     \<and> rb_start nxt - (rb_start lst + rb_count lst) \<le> tolerance
     \<and> rb_start nxt + rb_count nxt - rb_start lst \<le> MAX_BLOCK"

definition merge_block :: "int \<Rightarrow> ReadBlock \<Rightarrow> ReadBlock \<Rightarrow> ReadBlock option" where
  "merge_block tolerance lst block =
     (if mergeable lst block tolerance
      then Some (lst\<lparr>rb_count := rb_start block + rb_count block - rb_start lst,
                      rb_merged := True,
                      rb_grouped := rb_grouped block \<or> rb_grouped lst\<rparr>)
      else None)"

definition mergeAcrossGaps :: "ReadBlock list \<Rightarrow> int \<Rightarrow> ReadBlock list" where
  "mergeAcrossGaps blocks tolerance = fold_last (merge_block tolerance) (\<lambda>b. b) [] blocks"

definition byKey_of :: "MetricDef list \<Rightarrow> (string, MetricDef) js_map" where
  "byKey_of metrics = fold (\<lambda>m. js_set (mkey m) m) metrics []"

definition deps_of :: "(string, MetricDef) js_map \<Rightarrow> string list \<Rightarrow> MetricDef list" where
  "deps_of byKey ks = List.map_filter (js_get byKey) ks"

definition walk_keys :: "(string, MetricDef) js_map \<Rightarrow> MetricDef list \<Rightarrow> string set" where
  "walk_keys byKey stack = mkey ` (snd ` set byKey \<union> set stack)"

lemma deps_of_subset: "set (deps_of byKey ks) \<subseteq> snd ` set byKey"
  by (force simp: deps_of_def map_filter_def dest: map_of_SomeD)

lemma walk_decreases:
  assumes "mkey def \<notin> set seen" and "set deps \<subseteq> snd ` set byKey"
  shows "card (walk_keys byKey (deps @ stack) - set (set_add (mkey def) seen))
    < card (walk_keys byKey (def # stack) - set seen)"
proof (rule psubset_card_mono)
  show "finite (walk_keys byKey (def # stack) - set seen)" by (simp add: walk_keys_def)
  show "walk_keys byKey (deps @ stack) - set (set_add (mkey def) seen)
      \<subset> walk_keys byKey (def # stack) - set seen"
    using assms by (auto simp: walk_keys_def)
qed

lemma walk_skips: "card (walk_keys byKey stack - set seen) \<le> card (walk_keys byKey (def # stack) - set seen)"
  by (rule card_mono) (auto simp: walk_keys_def)

function collectRawAddresses ::
  "(string, MetricDef) js_map \<Rightarrow> MetricDef list \<Rightarrow> int list \<Rightarrow> string list \<Rightarrow> int list \<times> string list"
where
  "collectRawAddresses byKey [] out seen = (out, seen)"
| "collectRawAddresses byKey (def # stack) out seen =
     (if mkey def \<in> set seen then collectRawAddresses byKey stack out seen
      else (case mcomputeInputs def of
        Some ks \<Rightarrow> collectRawAddresses byKey (deps_of byKey ks @ stack) out (set_add (mkey def) seen)
      | None \<Rightarrow> collectRawAddresses byKey stack (set_adds (addressesOf def) out)
          (set_add (mkey def) seen)))"
  by pat_completeness auto
termination
proof (relation "(\<lambda>(byKey, stack, out, seen). card (walk_keys byKey stack - set seen))
    <*mlex*> measure (\<lambda>(byKey, stack, out, seen). length stack)", goal_cases)
  case 1
  show ?case by (simp add: wf_mlex)
next
  case (2 byKey def stack out seen)
  have "card (walk_keys byKey stack - set seen) \<le> card (walk_keys byKey (def # stack) - set seen)"
    by (rule walk_skips)
  then show ?case by (auto intro: mlex_leq)
next
  case (3 byKey def stack out seen)
  then show ?case using walk_decreases [of "def" seen "[]" byKey stack]
    by (auto intro!: mlex_less simp del: set_set_add)
next
  case (4 byKey def stack out seen ks)
  then show ?case by (auto intro!: mlex_less walk_decreases deps_of_subset simp del: set_set_add)
qed

record AtomicRange =
  ar_min :: int
  ar_max :: int
  ar_keys :: "string list"

definition atomicRange :: "(string, MetricDef) js_map \<Rightarrow> MetricDef \<Rightarrow> AtomicRange option" where
  "atomicRange byKey def = (case mcomputeInputs def of
     None \<Rightarrow> None
   | Some _ \<Rightarrow> (let addrs = fst (collectRawAddresses byKey [def] [] [])
       in if length addrs < 2 then None
          else Some \<lparr>ar_min = Min (set addrs), ar_max = Max (set addrs), ar_keys = [mkey def]\<rparr>))"

definition atomicRanges :: "MetricDef list \<Rightarrow> AtomicRange list" where
  "atomicRanges metrics = sort_key ar_min (List.map_filter (atomicRange (byKey_of metrics)) metrics)"

definition join_range :: "AtomicRange \<Rightarrow> AtomicRange \<Rightarrow> AtomicRange option" where
  "join_range lst r =
     (if ar_min r \<le> ar_max lst
      then Some (lst\<lparr>ar_max := max (ar_max lst) (ar_max r), ar_keys := ar_keys lst @ ar_keys r\<rparr>)
      else None)"

definition mergeRanges :: "AtomicRange list \<Rightarrow> AtomicRange list" where
  "mergeRanges ranges = fold_last join_range (\<lambda>r. r) [] ranges"

definition groupedBlock :: "AtomicRange \<Rightarrow> ReadBlock option" where
  "groupedBlock r =
     (let span = ar_max r - ar_min r + 1
      in if span > MAX_BLOCK then None
         else Some \<lparr>rb_start = ar_min r, rb_count = span, rb_grouped = True, rb_merged = False\<rparr>)"

definition hasUnplannableGroup :: "MetricDef list \<Rightarrow> bool" where
  "hasUnplannableGroup metrics \<longleftrightarrow>
     (\<exists>r\<in>set (mergeRanges (atomicRanges metrics)). ar_max r - ar_min r + 1 > MAX_BLOCK)"

definition resolveAtomicGroups :: "MetricDef list \<Rightarrow> ReadBlock list" where
  "resolveAtomicGroups metrics = List.map_filter groupedBlock (mergeRanges (atomicRanges metrics))"

definition in_block :: "int \<Rightarrow> ReadBlock \<Rightarrow> bool" where
  "in_block a b \<longleftrightarrow> a \<ge> rb_start b \<and> a < rb_start b + rb_count b"

definition planReads :: "MetricDef list \<Rightarrow> int \<Rightarrow> ReadBlock list" where
  "planReads metrics gapTolerance =
     (let groups = resolveAtomicGroups metrics;
          rest = sort (filter (\<lambda>a. \<not> (\<exists>g\<in>set groups. in_block a g)) (readableAddresses metrics));
          plan = sort_key rb_start (groups @ splitIntoBlocks rest)
      in mergeAcrossGaps plan gapTolerance)"

definition splitBlock :: "ReadBlock \<Rightarrow> MetricDef list \<Rightarrow> ReadBlock list" where
  "splitBlock block metrics =
     splitIntoBlocks (sort (filter (\<lambda>a. in_block a block) (readableAddresses metrics)))"

definition probeAddressOf :: "InverterProfile \<Rightarrow> int option" where
  "probeAddressOf profile = (case planReads (pmetrics profile) 0 of [] \<Rightarrow> None | b # _ \<Rightarrow> Some (rb_start b))"

subsection \<open>Blocks in ascending order\<close>

definition ascending :: "ReadBlock list \<Rightarrow> bool" where
  "ascending bs \<longleftrightarrow> sorted_wrt (\<lambda>b c. rb_end b \<le> rb_start c) bs"

definition sized :: "ReadBlock \<Rightarrow> bool" where
  "sized b \<longleftrightarrow> 1 \<le> rb_count b \<and> rb_count b \<le> MAX_BLOCK"

definition inside :: "ReadBlock \<Rightarrow> ReadBlock \<Rightarrow> bool" where
  "inside b c \<longleftrightarrow> rb_start c \<le> rb_start b \<and> rb_end b \<le> rb_end c \<and> (rb_grouped b \<longrightarrow> rb_grouped c)"

lemma inside_refl [simp]: "inside b b"
  by (simp add: inside_def)

lemma inside_trans: "inside a b \<Longrightarrow> inside b c \<Longrightarrow> inside a c"
  by (auto simp: inside_def)

lemma inside_in_block: "inside b c \<Longrightarrow> in_block a b \<Longrightarrow> in_block a c"
  by (auto simp: inside_def in_block_def rb_end_def)

lemma ascending_disjoint:
  "ascending bs \<Longrightarrow> i < j \<Longrightarrow> j < length bs \<Longrightarrow> in_block a (bs ! i) \<Longrightarrow> \<not> in_block a (bs ! j)"
  by (fastforce simp: ascending_def in_block_def rb_end_def sorted_wrt_iff_nth_less)

lemma sort_key_ascending:
  assumes "distinct bs" and "\<forall>b\<in>set bs. sized b"
    and apart: "\<And>b c. b \<in> set bs \<Longrightarrow> c \<in> set bs \<Longrightarrow> b \<noteq> c \<Longrightarrow> rb_end b \<le> rb_start c \<or> rb_end c \<le> rb_start b"
  shows "ascending (sort_key rb_start bs)"
proof -
  let ?s = "sort_key rb_start bs"
  have d: "distinct ?s" and s: "sorted_wrt (\<lambda>b c. rb_start b \<le> rb_start c) ?s"
    using assms(1) sorted_sort_key [of rb_start bs] by (simp_all add: sorted_map)
  have "sorted_wrt (\<lambda>b c. b \<noteq> c) ?s"
    using d by (simp add: sorted_wrt_iff_nth_less distinct_conv_nth)
  with s have "sorted_wrt (\<lambda>b c. rb_start b \<le> rb_start c \<and> b \<noteq> c) ?s"
    by (simp add: sorted_wrt_iff_nth_less)
  then show ?thesis
    unfolding ascending_def
  proof (rule sorted_wrt_mono_rel [rotated])
    fix b c assume bc: "b \<in> set ?s" "c \<in> set ?s" and r: "rb_start b \<le> rb_start c \<and> b \<noteq> c"
    then have "rb_end b \<le> rb_start c \<or> rb_end c \<le> rb_start b" using apart by auto
    moreover have "1 \<le> rb_count c" using bc assms(2) by (simp add: sized_def)
    ultimately show "rb_end b \<le> rb_start c" using r by (auto simp: rb_end_def)
  qed
qed

lemma sorted_wrt_snoc: "sorted_wrt R (xs @ [x]) \<longleftrightarrow> sorted_wrt R xs \<and> (\<forall>y\<in>set xs. R y x)"
  by (auto simp: sorted_wrt_append)

subsection \<open>Contiguous blocks\<close>

lemma set_readableAddresses:
  "set (readableAddresses ms) = (\<Union>m\<in>set ms. set (addressesOf m))"
  and distinct_readableAddresses: "distinct (readableAddresses ms)"
proof -
  have "set (fold (\<lambda>m s. set_adds (addressesOf m) s) ms s0) = (\<Union>m\<in>set ms. set (addressesOf m)) \<union> set s0
    \<and> (distinct s0 \<longrightarrow> distinct (fold (\<lambda>m s. set_adds (addressesOf m) s) ms s0))" for s0
    by (induction ms arbitrary: s0) auto
  then show "set (readableAddresses ms) = (\<Union>m\<in>set ms. set (addressesOf m))" "distinct (readableAddresses ms)"
    by (simp_all add: readableAddresses_def)
qed

definition blocks_exact :: "ReadBlock list \<Rightarrow> int set \<Rightarrow> bool" where
  "blocks_exact bs A \<longleftrightarrow> ascending bs \<and> (\<forall>b\<in>set bs. sized b \<and> \<not> rb_grouped b \<and> \<not> rb_merged b)
     \<and> (\<forall>a. (\<exists>b\<in>set bs. in_block a b) \<longleftrightarrow> a \<in> A)"

lemma blocks_exact_extend:
  assumes "blocks_exact (bs @ [b]) A" and "rb_end b = a" and "a - rb_start b < MAX_BLOCK"
  shows "blocks_exact (bs @ [b\<lparr>rb_count := rb_count b + 1\<rparr>]) (insert a A)"
proof -
  have "in_block x (b\<lparr>rb_count := rb_count b + 1\<rparr>) \<longleftrightarrow> in_block x b \<or> x = a" for x
    using assms unfolding blocks_exact_def in_block_def rb_end_def sized_def by auto
  with assms show ?thesis
    by (auto simp: blocks_exact_def ascending_def sorted_wrt_snoc sized_def rb_end_def)
qed

lemma blocks_exact_push:
  assumes "blocks_exact bs A" and "\<forall>b\<in>set bs. rb_end b \<le> a"
  shows "blocks_exact (bs @ [plain_block a 1]) (insert a A)"
proof -
  have "in_block x (plain_block a 1) \<longleftrightarrow> x = a" for x by (auto simp: in_block_def)
  with assms show ?thesis
    by (auto simp: blocks_exact_def ascending_def sorted_wrt_snoc sized_def rb_end_def MAX_BLOCK_def)
qed

lemma blocks_exact_ends:
  assumes "blocks_exact (bs @ [b]) A" and "rb_end b \<le> a"
  shows "\<forall>c\<in>set (bs @ [b]). rb_end c \<le> a"
  using assms by (fastforce simp: blocks_exact_def ascending_def sorted_wrt_snoc rb_end_def sized_def)

lemma splitIntoBlocks_exact:
  assumes "sorted_wrt (<) xs"
  shows "blocks_exact (splitIntoBlocks xs) (set xs)"
proof -
  define I where "I acc ys \<longleftrightarrow> (\<exists>A. blocks_exact (rev acc) A \<and> A \<union> set ys = set xs)
      \<and> sorted_wrt (<) ys \<and> (\<forall>b\<in>set acc. \<forall>y\<in>set ys. rb_end b \<le> y)" for acc ys
  have "I (rev (fold_last extend_block (\<lambda>a. plain_block a 1) [] xs)) []"
  proof (rule fold_last_induct)
    show "I [] xs"
      unfolding I_def using assms
      by (auto intro!: exI [of _ "{}"] simp: blocks_exact_def ascending_def)
  next
    fix x ys assume "I [] (x # ys)"
    then obtain A where "blocks_exact [] A" "insert x A \<union> set ys = set xs" "sorted_wrt (<) (x # ys)"
      unfolding I_def by auto
    then show "I [plain_block x 1] ys"
      using blocks_exact_push [of "[]" A x]
      by (fastforce simp: I_def rb_end_def)
  next
    fix b acc x ys b'
    assume i: "I (b # acc) (x # ys)" and g: "extend_block b x = Some b'"
    then obtain A where A: "blocks_exact (rev acc @ [b]) A" "insert x A \<union> set ys = set xs"
        and s: "sorted_wrt (<) (x # ys)" and e: "\<forall>b\<in>set (b # acc). \<forall>y\<in>set (x # ys). rb_end b \<le> y"
      unfolding I_def by auto
    from g e have x: "rb_end b = x" "x - rb_start b < MAX_BLOCK"
      and b': "b' = b\<lparr>rb_count := rb_count b + 1\<rparr>"
      by (auto simp: extend_block_def rb_end_def split: if_splits)
    show "I (b' # acc) ys"
      using blocks_exact_extend [OF A(1) x] A(2) s e x
      by (fastforce simp: I_def b' rb_end_def)
  next
    fix b acc x ys
    assume i: "I (b # acc) (x # ys)" and g: "extend_block b x = None"
    then obtain A where A: "blocks_exact (rev acc @ [b]) A" "insert x A \<union> set ys = set xs"
        and s: "sorted_wrt (<) (x # ys)" and e: "\<forall>b\<in>set (b # acc). \<forall>y\<in>set (x # ys). rb_end b \<le> y"
      unfolding I_def by auto
    show "I (plain_block x 1 # b # acc) ys"
      using blocks_exact_push [OF A(1), of x] A(2) s e
      by (fastforce simp: I_def rb_end_def)
  qed
  then show ?thesis by (auto simp: I_def splitIntoBlocks_def)
qed

lemma split_sorted_exact:
  "distinct xs \<Longrightarrow> blocks_exact (splitIntoBlocks (sort xs)) (set xs)"
  using splitIntoBlocks_exact [of "sort xs"] by (simp add: strict_sorted_iff)


subsection \<open>Merging across gaps\<close>

definition merged_from :: "ReadBlock list \<Rightarrow> ReadBlock list \<Rightarrow> bool" where
  "merged_from bs cs \<longleftrightarrow> ascending cs \<and> (\<forall>c\<in>set cs. sized c \<and> (\<not> rb_merged c \<longrightarrow> c \<in> set bs))
     \<and> (\<forall>b\<in>set bs. \<exists>c\<in>set cs. inside b c)"

lemma merge_block_Some:
  assumes "merge_block t b x = Some b'" and "sized b" "sized x" "rb_end b \<le> rb_start x"
  shows "inside b b'" "inside x b'" "sized b'" "rb_merged b'" "rb_end b' = rb_end x" "rb_start b' = rb_start b"
  using assms
  by (auto simp: merge_block_def mergeable_def inside_def sized_def rb_end_def split: if_splits)

lemma mergeAcrossGaps_merged:
  assumes "ascending bs" and "\<forall>b\<in>set bs. sized b"
  shows "merged_from bs (mergeAcrossGaps bs t)"
proof -
  define I where "I acc ys \<longleftrightarrow> ascending (rev acc @ ys) \<and> (\<forall>c\<in>set acc \<union> set ys. sized c)
      \<and> (\<forall>c\<in>set acc. \<not> rb_merged c \<longrightarrow> c \<in> set bs) \<and> set ys \<subseteq> set bs
      \<and> (\<forall>b\<in>set bs. \<exists>c\<in>set acc \<union> set ys. inside b c)" for acc ys
  have "I (rev (fold_last (merge_block t) (\<lambda>b. b) [] bs)) []"
  proof (rule fold_last_induct)
    show "I [] bs" using assms by (auto simp: I_def intro: inside_refl)
  next
    fix b acc x ys b'
    assume i: "I (b # acc) (x # ys)" and g: "merge_block t b x = Some b'"
    from i have asc: "ascending (rev acc @ b # x # ys)" and sz: "sized b" "sized x" by (auto simp: I_def)
    then have be: "rb_end b \<le> rb_start x" by (auto simp: ascending_def sorted_wrt_append)
    note m = merge_block_Some [OF g sz be]
    have "ascending (rev acc @ b' # ys)"
      using asc m(5,6) by (auto simp: ascending_def sorted_wrt_append)
    moreover have "\<exists>c\<in>set (b' # acc) \<union> set ys. inside d c" if d: "d \<in> set bs" for d
    proof -
      from i d have "\<exists>c\<in>set (b # acc) \<union> set (x # ys). inside d c" unfolding I_def by blast
      then obtain c where "c \<in> set (b # acc) \<union> set (x # ys)" "inside d c" by blast
      then show ?thesis using m(1,2) inside_trans by (cases "c = b \<or> c = x") auto
    qed
    ultimately show "I (b' # acc) ys" using i m(3,4) by (auto simp: I_def)
  qed (auto simp: I_def)
  then show ?thesis by (auto simp: I_def merged_from_def mergeAcrossGaps_def)
qed

lemma mergeAcrossGaps_zero: "mergeAcrossGaps bs 0 = bs"
proof -
  have "fold_last (merge_block 0) (\<lambda>b. b) acc bs = rev acc @ bs" for acc
  proof (induction bs arbitrary: acc)
    case (Cons b bs)
    then show ?case by (cases acc) (simp_all add: merge_block_def mergeable_def)
  qed simp
  then show ?thesis by (simp add: mergeAcrossGaps_def)
qed

subsection \<open>What a computed metric depends on\<close>

inductive feeds :: "(string, MetricDef) js_map \<Rightarrow> MetricDef \<Rightarrow> int \<Rightarrow> bool" for byKey where
  raw: "mcomputeInputs m = None \<Longrightarrow> a \<in> set (addressesOf m) \<Longrightarrow> feeds byKey m a"
| dep: "mcomputeInputs m = Some ks \<Longrightarrow> d \<in> set (deps_of byKey ks) \<Longrightarrow> feeds byKey d a \<Longrightarrow> feeds byKey m a"

lemma collect_distinct:
  "distinct out \<Longrightarrow> distinct (fst (collectRawAddresses byKey stack out seen))"
  by (induction byKey stack out seen rule: collectRawAddresses.induct) (auto split: option.split)

lemma collect_sound:
  "a \<in> set (fst (collectRawAddresses byKey stack out seen)) \<Longrightarrow>
     a \<in> set out \<or> (\<exists>d\<in>set stack. feeds byKey d a)"
proof (induction byKey stack out seen rule: collectRawAddresses.induct)
  case (2 byKey m stack out seen)
  show ?case
  proof (cases "mkey m \<in> set seen")
    case True
    with 2 show ?thesis by auto
  next
    case False
    with 2 show ?thesis by (cases "mcomputeInputs m") (fastforce intro: feeds.intros)+
  qed
qed simp

definition closed_under :: "(string, MetricDef) js_map \<Rightarrow> MetricDef set \<Rightarrow> MetricDef set \<Rightarrow> int list \<Rightarrow> bool" where
  "closed_under byKey V W out \<longleftrightarrow> (\<forall>m\<in>V. case mcomputeInputs m of
     None \<Rightarrow> set (addressesOf m) \<subseteq> set out
   | Some ks \<Rightarrow> set (deps_of byKey ks) \<subseteq> W)"

lemma closed_under_mono:
  "closed_under byKey V W out \<Longrightarrow> W \<subseteq> W' \<Longrightarrow> set out \<subseteq> set out' \<Longrightarrow> closed_under byKey V W' out'"
  unfolding closed_under_def by (fastforce split: option.splits)

lemma feeds_closed: "feeds byKey m a \<Longrightarrow> m \<in> V \<Longrightarrow> closed_under byKey V V out \<Longrightarrow> a \<in> set out"
  by (induction rule: feeds.induct) (fastforce simp: closed_under_def)+

lemma collect_closed:
  assumes "inj_on mkey D" and "snd ` set byKey \<subseteq> D" and "set stack \<subseteq> D" and "V \<subseteq> D"
    and "set seen = mkey ` V" and "closed_under byKey V (V \<union> set stack) out"
  shows "\<exists>V'. V \<union> set stack \<subseteq> V'
    \<and> closed_under byKey V' V' (fst (collectRawAddresses byKey stack out seen))"
  using assms(2-)
proof (induction byKey stack out seen arbitrary: V rule: collectRawAddresses.induct)
  case (1 byKey out seen)
  then show ?case by auto
next
  case (2 byKey m stack out seen)
  show ?case
  proof (cases "mkey m \<in> set seen")
    case True
    then have "m \<in> V" using 2 assms(1) by (auto dest: inj_onD)
    then have "V \<union> set (m # stack) = V \<union> set stack" by auto
    with True 2 show ?thesis by simp
  next
    case new: False
    let ?V = "insert m V"
    have sub: "?V \<subseteq> D" and seen: "set (set_add (mkey m) seen) = mkey ` ?V" using 2 by auto
    show ?thesis
    proof (cases "mcomputeInputs m")
      case None
      have "closed_under byKey V (?V \<union> set stack) (set_adds (addressesOf m) out)"
        using 2 by (auto intro: closed_under_mono)
      then have "closed_under byKey ?V (?V \<union> set stack) (set_adds (addressesOf m) out)"
        by (simp add: closed_under_def None)
      from "2.IH"(2) [OF new None "2.prems"(1) _ sub seen this] "2.prems"(2)
      obtain V' where "?V \<union> set stack \<subseteq> V'" "closed_under byKey V' V'
          (fst (collectRawAddresses byKey stack (set_adds (addressesOf m) out) (set_add (mkey m) seen)))"
        by auto
      moreover have "collectRawAddresses byKey (m # stack) out seen =
          collectRawAddresses byKey stack (set_adds (addressesOf m) out) (set_add (mkey m) seen)"
        using new None by simp
      ultimately show ?thesis by auto
    next
      case (Some ks)
      let ?st = "deps_of byKey ks @ stack"
      have "closed_under byKey V (?V \<union> set ?st) out"
        using 2 by (auto intro: closed_under_mono)
      then have "closed_under byKey ?V (?V \<union> set ?st) out"
        by (auto simp: closed_under_def Some)
      moreover have "set ?st \<subseteq> D" using "2.prems"(1,2) deps_of_subset [of byKey ks] by auto
      ultimately obtain V' where "?V \<union> set ?st \<subseteq> V'" "closed_under byKey V' V'
          (fst (collectRawAddresses byKey ?st out (set_add (mkey m) seen)))"
        using "2.IH"(3) [OF new Some "2.prems"(1) _ sub seen] by auto
      moreover have "collectRawAddresses byKey (m # stack) out seen =
          collectRawAddresses byKey ?st out (set_add (mkey m) seen)"
        using new Some by simp
      ultimately show ?thesis by auto
    qed
  qed
qed

lemma set_byKey_of: "snd ` set (byKey_of ms) \<subseteq> set ms"
proof -
  have "snd ` set (fold (\<lambda>m. js_set (mkey m) m) ms s0) \<subseteq> set ms \<union> snd ` set s0" for s0
  proof (induction ms arbitrary: s0)
    case (Cons m ms)
    have "snd ` set (js_set (mkey m) m s0) \<subseteq> insert m (snd ` set s0)"
      by (induction s0) auto
    with Cons [of "js_set (mkey m) m s0"] show ?case by auto
  qed simp
  from this [of "[]"] show ?thesis by (simp add: byKey_of_def)
qed

lemma collect_feeds:
  assumes "distinct (map mkey ms)" and "m \<in> set ms"
  shows "set (fst (collectRawAddresses (byKey_of ms) [m] [] [])) = {a. feeds (byKey_of ms) m a}"
proof -
  have "inj_on mkey (set ms)" using assms(1) by (simp add: distinct_map)
  from collect_closed [OF this set_byKey_of, of "[m]" "{}" "[]" "[]"] assms(2)
  obtain V where "m \<in> V" "closed_under (byKey_of ms) V V (fst (collectRawAddresses (byKey_of ms) [m] [] []))"
    by (auto simp: closed_under_def)
  then show ?thesis
    using collect_sound [of _ "byKey_of ms" "[m]" "[]" "[]"] feeds_closed by fastforce
qed

lemma feeds_readable: "feeds byKey m a \<Longrightarrow> m \<in> D \<Longrightarrow> snd ` set byKey \<subseteq> D \<Longrightarrow> a \<in> (\<Union>m\<in>D. set (addressesOf m))"
  by (induction rule: feeds.induct) (use deps_of_subset in fastforce)+

subsection \<open>Atomic ranges\<close>

definition range_of :: "AtomicRange \<Rightarrow> int set" where
  "range_of r = {ar_min r .. ar_max r}"

lemma atomicRange_Some:
  assumes "atomicRange byKey m = Some r"
  shows "ar_min r \<le> ar_max r" and "set (fst (collectRawAddresses byKey [m] [] [])) \<subseteq> range_of r"
    and "mcomputeInputs m \<noteq> None"
proof -
  let ?A = "set (fst (collectRawAddresses byKey [m] [] []))"
  from assms have r: "ar_min r = Min ?A" "ar_max r = Max ?A" and "2 \<le> length (fst (collectRawAddresses byKey [m] [] []))"
    by (auto simp: atomicRange_def Let_def split: option.splits if_splits)
  then have "?A \<noteq> {}" by auto
  with r show "ar_min r \<le> ar_max r" "?A \<subseteq> range_of r" by (auto simp: range_of_def)
  show "mcomputeInputs m \<noteq> None" using assms by (auto simp: atomicRange_def split: option.splits)
qed

definition ranges_apart :: "AtomicRange list \<Rightarrow> bool" where
  "ranges_apart rs \<longleftrightarrow> sorted_wrt (\<lambda>r s. ar_max r < ar_min s) rs \<and> (\<forall>r\<in>set rs. ar_min r \<le> ar_max r)"

lemma mergeRanges_apart:
  assumes "sorted_wrt (\<lambda>r s. ar_min r \<le> ar_min s) rs" and "\<forall>r\<in>set rs. ar_min r \<le> ar_max r"
  shows "ranges_apart (mergeRanges rs)"
    and "\<forall>r\<in>set rs. \<exists>s\<in>set (mergeRanges rs). range_of r \<subseteq> range_of s"
proof -
  define I where "I acc ys \<longleftrightarrow> ranges_apart (rev acc)
      \<and> sorted_wrt (\<lambda>r s. ar_min r \<le> ar_min s) ys \<and> (\<forall>r\<in>set ys. ar_min r \<le> ar_max r)
      \<and> (\<forall>a\<in>set acc. \<forall>y\<in>set ys. ar_min a \<le> ar_min y)
      \<and> (\<forall>r\<in>set rs. \<exists>s\<in>set acc \<union> set ys. range_of r \<subseteq> range_of s)" for acc ys
  have "I (rev (fold_last join_range (\<lambda>r. r) [] rs)) []"
  proof (rule fold_last_induct)
    show "I [] rs" using assms by (auto simp: I_def ranges_apart_def)
  next
    fix x ys assume "I [] (x # ys)"
    then show "I [x] ys" by (auto simp: I_def ranges_apart_def)
  next
    fix b acc x ys b'
    assume i: "I (b # acc) (x # ys)" and g: "join_range b x = Some b'"
    from g have b': "ar_min b' = ar_min b" "ar_max b' = max (ar_max b) (ar_max x)"
      by (auto simp: join_range_def split: if_splits)
    have xb: "ar_min b \<le> ar_min x" "ar_min b \<le> ar_max b" using i by (auto simp: I_def ranges_apart_def)
    then have sub: "range_of b \<subseteq> range_of b'" "range_of x \<subseteq> range_of b'"
      by (auto simp: range_of_def b')
    have "\<exists>s\<in>set (b' # acc) \<union> set ys. range_of r \<subseteq> range_of s" if "r \<in> set rs" for r
    proof -
      from i that have "\<exists>s\<in>set (b # acc) \<union> set (x # ys). range_of r \<subseteq> range_of s"
        unfolding I_def by blast
      then obtain s where "s \<in> set (b # acc) \<union> set (x # ys)" "range_of r \<subseteq> range_of s" by blast
      then show ?thesis using sub by (cases "s = b \<or> s = x") auto
    qed
    then show "I (b' # acc) ys"
      using i xb by (auto simp: I_def ranges_apart_def b' sorted_wrt_snoc)
  next
    fix b acc x ys
    assume i: "I (b # acc) (x # ys)" and g: "join_range b x = None"
    then have gx: "ar_max b < ar_min x" by (auto simp: join_range_def split: if_splits)
    have "ranges_apart (rev acc @ [b])" "ar_min x \<le> ar_max x" using i by (auto simp: I_def)
    then have "ranges_apart (rev (x # b # acc))"
      using gx by (auto simp: ranges_apart_def sorted_wrt_append)
    then show "I (x # b # acc) ys" using i by (auto simp: I_def)
  qed
  then show "ranges_apart (mergeRanges rs)"
    and "\<forall>r\<in>set rs. \<exists>s\<in>set (mergeRanges rs). range_of r \<subseteq> range_of s"
    by (simp_all add: I_def mergeRanges_def)
qed

lemma atomicRanges_ok:
  "sorted_wrt (\<lambda>r s. ar_min r \<le> ar_min s) (atomicRanges ms)"
  "\<forall>r\<in>set (atomicRanges ms). ar_min r \<le> ar_max r"
proof -
  show "sorted_wrt (\<lambda>r s. ar_min r \<le> ar_min s) (atomicRanges ms)"
    unfolding atomicRanges_def using sorted_sort_key by (metis sorted_map)
  show "\<forall>r\<in>set (atomicRanges ms). ar_min r \<le> ar_max r"
    by (auto simp: atomicRanges_def set_map_filter dest!: atomicRange_Some(1))
qed

lemmas merged_ranges_ok = mergeRanges_apart [OF atomicRanges_ok]

lemma groupedBlock_Some:
  assumes "groupedBlock r = Some g" "ar_min r \<le> ar_max r"
  shows "sized g" "rb_grouped g" "\<not> rb_merged g" "rb_start g = ar_min r" "rb_end g = ar_max r + 1"
  using assms by (auto simp: groupedBlock_def Let_def sized_def rb_end_def split: if_splits)

lemma ranges_apart_Cons:
  "ranges_apart (r # rs) \<longleftrightarrow> ar_min r \<le> ar_max r \<and> (\<forall>s\<in>set rs. ar_max r < ar_min s) \<and> ranges_apart rs"
  by (auto simp: ranges_apart_def)

lemma groups_ascending:
  "ranges_apart rs \<Longrightarrow> ascending (List.map_filter groupedBlock rs)
     \<and> (\<forall>g\<in>set (List.map_filter groupedBlock rs). sized g \<and> rb_grouped g
         \<and> (\<exists>r\<in>set rs. rb_start g = ar_min r \<and> rb_end g = ar_max r + 1))"
proof (induction rs)
  case (Cons r rs)
  then have IH: "ascending (List.map_filter groupedBlock rs)"
      "\<forall>g\<in>set (List.map_filter groupedBlock rs). sized g \<and> rb_grouped g
         \<and> (\<exists>r\<in>set rs. rb_start g = ar_min r \<and> rb_end g = ar_max r + 1)"
    and r: "ar_min r \<le> ar_max r" "\<forall>s\<in>set rs. ar_max r < ar_min s"
    by (auto simp: ranges_apart_Cons)
  show ?case
  proof (cases "groupedBlock r")
    case (Some g)
    note g = groupedBlock_Some [OF Some r(1)]
    have "\<forall>h\<in>set (List.map_filter groupedBlock rs). rb_end g \<le> rb_start h"
      using IH(2) r(2) g(5) by fastforce
    then show ?thesis
      using IH g Some by (auto simp: map_filter_simps ascending_def)
  qed (use IH in \<open>auto simp: map_filter_simps\<close>)
qed (simp add: map_filter_simps ascending_def)

subsection \<open>The plan\<close>

definition base_plan :: "MetricDef list \<Rightarrow> ReadBlock list" where
  "base_plan ms = (let groups = resolveAtomicGroups ms in
     sort_key rb_start (groups @ splitIntoBlocks (sort
       (filter (\<lambda>a. \<not> (\<exists>g\<in>set groups. in_block a g)) (readableAddresses ms)))))"

lemma planReads_base: "planReads ms t = mergeAcrossGaps (base_plan ms) t"
  by (simp add: planReads_def base_plan_def Let_def)

lemma ascending_distinct: "ascending bs \<Longrightarrow> \<forall>b\<in>set bs. sized b \<Longrightarrow> distinct bs"
  by (induction bs) (fastforce simp: ascending_def rb_end_def sized_def)+

lemma ascending_apart:
  "ascending bs \<Longrightarrow> b \<in> set bs \<Longrightarrow> c \<in> set bs \<Longrightarrow> b \<noteq> c \<Longrightarrow> rb_end b \<le> rb_start c \<or> rb_end c \<le> rb_start b"
  by (induction bs) (auto simp: ascending_def)

lemma exact_boundary:
  assumes "blocks_exact bs A" "b \<in> set bs"
  shows "rb_start b \<le> a \<Longrightarrow> a < rb_end b \<Longrightarrow> a \<in> A"
  using assms by (auto simp: blocks_exact_def in_block_def rb_end_def)

lemma base_plan_ok:
  shows "ascending (base_plan ms)" "\<forall>b\<in>set (base_plan ms). sized b \<and> \<not> rb_merged b"
    and "set (resolveAtomicGroups ms) \<subseteq> set (base_plan ms)"
    and "a \<in> set (readableAddresses ms) \<Longrightarrow> \<exists>b\<in>set (base_plan ms). in_block a b"
    and "b \<in> set (base_plan ms) \<Longrightarrow> \<not> rb_grouped b \<Longrightarrow> in_block a b \<Longrightarrow> a \<in> set (readableAddresses ms)"
proof -
  let ?G = "resolveAtomicGroups ms"
  let ?R = "filter (\<lambda>a. \<not> (\<exists>g\<in>set ?G. in_block a g)) (readableAddresses ms)"
  let ?S = "splitIntoBlocks (sort ?R)"
  have S: "blocks_exact ?S (set ?R)"
    by (rule split_sorted_exact) (simp add: distinct_readableAddresses)
  have G: "ascending ?G" "\<forall>g\<in>set ?G. sized g \<and> rb_grouped g"
    using groups_ascending [OF merged_ranges_ok(1)] by (auto simp: resolveAtomicGroups_def)
  have Gm: "\<forall>g\<in>set ?G. \<not> rb_merged g"
    by (auto simp: resolveAtomicGroups_def map_filter_def groupedBlock_def Let_def split: if_splits)
  have Sz: "\<forall>b\<in>set ?S. sized b \<and> \<not> rb_grouped b \<and> \<not> rb_merged b" and Sa: "ascending ?S"
    using S by (auto simp: blocks_exact_def)
  have cross: "rb_end g \<le> rb_start b \<or> rb_end b \<le> rb_start g" if "g \<in> set ?G" "b \<in> set ?S" for g b
  proof (rule ccontr)
    assume "\<not> ?thesis"
    moreover have "rb_start g < rb_end g" "rb_start b < rb_end b"
      using G(2) Sz that by (fastforce simp: sized_def rb_end_def)+
    ultimately have "in_block (max (rb_start g) (rb_start b)) g" "in_block (max (rb_start g) (rb_start b)) b"
      by (auto simp: in_block_def rb_end_def)
    with S that show False by (fastforce simp: blocks_exact_def)
  qed
  have sz: "\<forall>b\<in>set (?G @ ?S). sized b" using G(2) Sz by auto
  have d: "distinct (?G @ ?S)"
    using ascending_distinct [OF G(1)] ascending_distinct [OF Sa] G(2) Sz by auto
  have bp: "base_plan ms = sort_key rb_start (?G @ ?S)" by (simp add: base_plan_def Let_def)
  have ap: "rb_end b \<le> rb_start c \<or> rb_end c \<le> rb_start b"
    if "b \<in> set (?G @ ?S)" "c \<in> set (?G @ ?S)" "b \<noteq> c" for b c
  proof -
    from that consider "b \<in> set ?G" "c \<in> set ?G" | "b \<in> set ?G" "c \<in> set ?S"
      | "b \<in> set ?S" "c \<in> set ?G" | "b \<in> set ?S" "c \<in> set ?S" by auto
    then show ?thesis
      using cross [of b c] cross [of c b] ascending_apart [OF G(1)] ascending_apart [OF Sa] that(3)
      by cases blast+
  qed
  show "ascending (base_plan ms)"
    unfolding bp by (rule sort_key_ascending [OF d sz ap])
  show "\<forall>b\<in>set (base_plan ms). sized b \<and> \<not> rb_merged b" using G(2) Gm Sz by (auto simp: bp)
  show "set ?G \<subseteq> set (base_plan ms)" by (auto simp: bp)
  show "\<exists>b\<in>set (base_plan ms). in_block a b" if "a \<in> set (readableAddresses ms)"
    using that S by (cases "\<exists>g\<in>set ?G. in_block a g") (auto simp: bp blocks_exact_def)
  show "a \<in> set (readableAddresses ms)"
    if "b \<in> set (base_plan ms)" "\<not> rb_grouped b" "in_block a b"
    using that G(2) S by (auto simp: bp blocks_exact_def)
qed

lemma plan_merged: "merged_from (base_plan ms) (planReads ms t)"
  unfolding planReads_base by (rule mergeAcrossGaps_merged) (use base_plan_ok(1,2) in auto)

definition plan_valid :: "MetricDef list \<Rightarrow> ReadBlock list \<Rightarrow> bool" where
  "plan_valid ms bs \<longleftrightarrow> ascending bs \<and> (\<forall>b\<in>set bs. sized b)
     \<and> (\<forall>a\<in>set (readableAddresses ms). \<exists>b\<in>set bs. in_block a b)
     \<and> (\<forall>b\<in>set bs. \<not> rb_grouped b \<and> \<not> rb_merged b \<longrightarrow>
          (\<forall>a. in_block a b \<longrightarrow> a \<in> set (readableAddresses ms)))"

lemma planReads_valid: "plan_valid ms (planReads ms t)"
proof -
  note m = plan_merged [of ms t, unfolded merged_from_def]
  have "\<exists>c\<in>set (planReads ms t). in_block a c" if "a \<in> set (readableAddresses ms)" for a
    using base_plan_ok(4) [OF that] m inside_in_block by blast
  with m base_plan_ok(5) show ?thesis unfolding plan_valid_def by blast
qed

lemma plan_group_whole:
  assumes "distinct (map mkey ms)" and "m \<in> set ms" and "mcomputeInputs m \<noteq> None"
    and "\<not> hasUnplannableGroup ms" and "feeds (byKey_of ms) m a0"
  shows "\<exists>b\<in>set (planReads ms t). (\<forall>a. feeds (byKey_of ms) m a \<longrightarrow> in_block a b)
     \<and> ((\<exists>a. feeds (byKey_of ms) m a \<and> a \<noteq> a0) \<longrightarrow> rb_grouped b)"
proof -
  let ?k = "byKey_of ms"
  let ?A = "fst (collectRawAddresses ?k [m] [] [])"
  have A: "set ?A = {a. feeds ?k m a}" by (rule collect_feeds [OF assms(1,2)])
  have inplan: "\<exists>c\<in>set (planReads ms t). inside b c" if "b \<in> set (base_plan ms)" for b
    using plan_merged [of ms t] that by (auto simp: merged_from_def)
  show ?thesis
  proof (cases "length ?A < 2")
    case True
    have "a0 \<in> set ?A" using A assms(5) by simp
    with True have "?A = [a0]" by (cases ?A) (auto simp: less_Suc_eq numeral_2_eq_2)
    with A have one: "\<And>a. feeds ?k m a \<longleftrightarrow> a = a0" by auto
    have "a0 \<in> (\<Union>m\<in>set ms. set (addressesOf m))"
      by (rule feeds_readable [OF assms(5,2) set_byKey_of])
    then obtain b where "b \<in> set (planReads ms t)" "in_block a0 b"
      using planReads_valid [of ms t] unfolding plan_valid_def set_readableAddresses by blast
    then show ?thesis by (auto simp: one)
  next
    case False
    then obtain r where r: "atomicRange ?k m = Some r"
      using assms(3) by (auto simp: atomicRange_def Let_def)
    then have "r \<in> set (atomicRanges ms)"
      using assms(2) by (auto simp: atomicRanges_def set_map_filter)
    then obtain s where s: "s \<in> set (mergeRanges (atomicRanges ms))" "range_of r \<subseteq> range_of s"
      using merged_ranges_ok(2) by blast
    with assms(4) have "ar_max s - ar_min s + 1 \<le> MAX_BLOCK" by (auto simp: hasUnplannableGroup_def not_less)
    then obtain g where g: "groupedBlock s = Some g" by (simp add: groupedBlock_def Let_def)
    then have "g \<in> set (resolveAtomicGroups ms)"
      using s(1) by (auto simp: resolveAtomicGroups_def set_map_filter)
    with inplan base_plan_ok(3) obtain c where c: "c \<in> set (planReads ms t)" "inside g c" by blast
    have "ar_min s \<le> ar_max s" using merged_ranges_ok(1) s(1) by (auto simp: ranges_apart_def)
    note gs = groupedBlock_Some [OF g this]
    have "in_block a g" if "feeds ?k m a" for a
      using that A atomicRange_Some(2) [OF r] s(2) gs(4,5)
      by (auto simp: in_block_def rb_end_def range_of_def)
    then have "\<forall>a. feeds ?k m a \<longrightarrow> in_block a c" using inside_in_block [OF c(2)] by blast
    moreover have "rb_grouped c" using c(2) gs(2) by (simp add: inside_def)
    ultimately show ?thesis using c(1) by blast
  qed
qed

lemma splitBlock_exact:
  "blocks_exact (splitBlock b ms) {a \<in> set (readableAddresses ms). in_block a b}"
  using split_sorted_exact [of "filter (\<lambda>a. in_block a b) (readableAddresses ms)"]
  by (simp add: splitBlock_def distinct_readableAddresses)

text \<open>The plan is a valid poll at every gap tolerance: its blocks are in ascending order and
  disjoint, each holds 1 to 120 registers, every readable register of the profile is in one, and a
  block that is neither an atomic group nor a merge reads no register the profile does not map.\<close>

theorem planReads_complete:
  "sorted_wrt (\<lambda>b c. rb_start b + rb_count b \<le> rb_start c) (planReads ms t)
   \<and> (\<forall>b\<in>set (planReads ms t). 1 \<le> rb_count b \<and> rb_count b \<le> 120
       \<and> (rb_grouped b \<or> rb_merged b \<or> (\<forall>a. in_block a b \<longrightarrow> a \<in> set (readableAddresses ms))))
   \<and> (\<forall>m\<in>set ms. \<forall>a\<in>set (addressesOf m). \<exists>b\<in>set (planReads ms t). in_block a b)"
proof -
  note v = planReads_valid [of ms t, unfolded plan_valid_def]
  then have "\<forall>b\<in>set (planReads ms t). 1 \<le> rb_count b \<and> rb_count b \<le> 120"
    by (auto simp: sized_def MAX_BLOCK_def)
  moreover have "sorted_wrt (\<lambda>b c. rb_start b + rb_count b \<le> rb_start c) (planReads ms t)"
    using v by (simp add: ascending_def rb_end_def)
  moreover have "\<forall>m\<in>set ms. \<forall>a\<in>set (addressesOf m). \<exists>b\<in>set (planReads ms t). in_block a b"
    using v by (auto simp: set_readableAddresses)
  ultimately show ?thesis using v by blast
qed

definition reg_metric :: "string \<Rightarrow> int list \<Rightarrow> MetricDef" where
  "reg_metric k as = (word_metric U_WORD 1 None None)\<lparr>mkey := k, maddresses := as, mbinding := Modbus as U_WORD\<rparr>"

definition sum_metric :: "string \<Rightarrow> string list \<Rightarrow> MetricDef" where
  "sum_metric k ks = (word_metric RAW 1 None None)\<lparr>mkey := k, mbinding := Compute (ESum ks),
     mcompute := Some (compileComputeExpr (ESum ks)), mcomputeInputs := Some ks\<rparr>"

definition plan_profile :: "MetricDef list" where
  "plan_profile = [reg_metric ''a'' [100], reg_metric ''b'' [103], reg_metric ''c'' [200],
     sum_metric ''s'' [''a'', ''b''], sum_metric ''t'' [''s'', ''a'']]"

lemma plan_profile_plan:
  "planReads plan_profile 0 = [\<lparr>rb_start = 100, rb_count = 4, rb_grouped = True, rb_merged = False\<rparr>,
     plain_block 200 1]" "\<not> hasUnplannableGroup plan_profile"
  by code_simp+

theorem planReads_complete_witness:
  "\<exists>b\<in>set (planReads plan_profile 0). in_block 103 b"
  using planReads_complete [of plan_profile 0]
  by (auto simp: plan_profile_def addressesOf_def reg_metric_def sum_metric_def word_metric_def)

text \<open>A derived metric is sampled at one instant: unless the plan was reported as having a group
  too wide for a transaction, all the registers a computed metric depends on, through any chain of
  computed inputs, lie in one block of the plan, whatever the gap tolerance; and when there are two
  or more, that block is marked atomic.\<close>

theorem planReads_atomic:
  assumes "distinct (map mkey ms)" and "m \<in> set ms" and "mcomputeInputs m \<noteq> None"
    and "\<not> hasUnplannableGroup ms" and "feeds (byKey_of ms) m a0"
  shows "\<exists>b\<in>set (planReads ms t). (\<forall>a. feeds (byKey_of ms) m a \<longrightarrow> in_block a b)
     \<and> ((\<exists>a. feeds (byKey_of ms) m a \<and> a \<noteq> a0) \<longrightarrow> rb_grouped b)"
  using assms by (rule plan_group_whole)

lemma plan_profile_feeds: "feeds (byKey_of plan_profile) (sum_metric ''t'' [''s'', ''a'']) 103"
proof -
  have "distinct (map mkey plan_profile)" "sum_metric ''t'' [''s'', ''a''] \<in> set plan_profile"
    by (simp_all add: plan_profile_def reg_metric_def sum_metric_def word_metric_def)
  moreover have "103 \<in> set (fst (collectRawAddresses (byKey_of plan_profile) [sum_metric ''t'' [''s'', ''a'']] [] []))"
    by code_simp
  ultimately show ?thesis using collect_feeds by blast
qed

theorem planReads_atomic_witness:
  "\<exists>b\<in>set (planReads plan_profile 32). in_block 103 b"
proof -
  have "distinct (map mkey plan_profile)" "sum_metric ''t'' [''s'', ''a''] \<in> set plan_profile"
    "mcomputeInputs (sum_metric ''t'' [''s'', ''a'']) \<noteq> None"
    by (simp_all add: plan_profile_def reg_metric_def sum_metric_def word_metric_def)
  from planReads_atomic [OF this plan_profile_plan(2) plan_profile_feeds, of 32] plan_profile_feeds
  show ?thesis by blast
qed

end
