(* ===== verification/Modbus_Transport.thy ===== *)
theory Modbus_Transport
  imports Read_Plan
begin

text \<open>
  \<open>ModbusTransport\<close> of \<^verbatim>\<open>packages/inverter-core/src/modbus-transport.ts\<close>: reading the plan, the
  split-and-remember fallback, writing a register, probing a unit id, the client's connect and the
  lock that keeps transactions apart.

  The Modbus client library and the device behind it are the parameter \<open>rd\<close>: a holding-register
  read takes the device's state and yields words or an error, and a new state, so two reads of one
  block may answer differently. An awaited connect is the event of its outcome. Log lines and the
  elapsed-time measurement are dropped.
\<close>

datatype read_error = ReadError "int option" string

type_synonym 'd reader = "'d \<Rightarrow> int \<Rightarrow> int \<Rightarrow> (read_error + 16 word list) \<times> 'd"

record connection =
  c_host :: string
  c_port :: nat
  c_unitId :: int
  c_timeoutMs :: "millis option"
  c_framing :: "InverterTransport option"

record transport =
  t_profile :: InverterProfile
  t_conn :: connection
  t_blocks :: "ReadBlock list"
  t_open :: bool
  t_connecting :: bool
  t_degraded :: bool
  t_serial :: "int option"

definition framing_of :: "connection \<Rightarrow> InverterTransport" where
  "framing_of c = (case c_framing c of Some f \<Rightarrow> f | None \<Rightarrow> Tcp)"

definition timeout_of :: "connection \<Rightarrow> millis" where
  "timeout_of c = (case c_timeoutMs c of Some t \<Rightarrow> t | None \<Rightarrow> 2000)"

definition new_transport :: "InverterProfile \<Rightarrow> connection \<Rightarrow> transport" where
  "new_transport profile conn =
     \<lparr>t_profile = profile, t_conn = conn,
      t_blocks = planReads (pmetrics profile) (gapToleranceFor (framing_of conn)),
      t_open = False, t_connecting = False,
      t_degraded = hasUnplannableGroup (pmetrics profile), t_serial = None\<rparr>"

subsection \<open>Reading\<close>

definition store :: "registers \<Rightarrow> ReadBlock \<Rightarrow> 16 word list \<Rightarrow> registers" where
  "store acc block ws = (\<lambda>a. if rb_start block \<le> a \<and> a < rb_start block + int (length ws)
     then Some (ws ! nat (a - rb_start block)) else acc a)"

definition isIllegalDataAddress :: "read_error \<Rightarrow> bool" where
  "isIllegalDataAddress e = (case e of ReadError code _ \<Rightarrow> code = Some 2)"

fun replace_first :: "'a \<Rightarrow> 'a list \<Rightarrow> 'a list \<Rightarrow> 'a list" where
  "replace_first x ys [] = []"
| "replace_first x ys (z # zs) = (if z = x then ys @ zs else z # replace_first x ys zs)"

definition narrow :: "transport \<Rightarrow> ReadBlock \<Rightarrow> read_error \<Rightarrow> read_error + ReadBlock list \<times> transport" where
  "narrow t block err =
     (if \<not> (rb_grouped block \<or> rb_merged block) \<or> \<not> isIllegalDataAddress err then Inl err
      else let subs = splitBlock block (pmetrics (t_profile t))
           in Inr (subs, t\<lparr>t_degraded := t_degraded t \<or> rb_grouped block,
                          t_blocks := replace_first block subs (t_blocks t)\<rparr>))"

fun read_subs :: "'d reader \<Rightarrow> ReadBlock list \<Rightarrow> registers \<Rightarrow> 'd \<Rightarrow> (read_error + registers) \<times> 'd" where
  "read_subs rd [] acc d = (Inr acc, d)"
| "read_subs rd (b # bs) acc d = (case rd d (rb_start b) (rb_count b) of
     (Inl e, d') \<Rightarrow> (Inl e, d')
   | (Inr ws, d') \<Rightarrow> read_subs rd bs (store acc b ws) d')"

fun read_each :: "'d reader \<Rightarrow> ReadBlock list \<Rightarrow> registers \<Rightarrow> transport \<Rightarrow> 'd
    \<Rightarrow> (read_error + registers) \<times> transport \<times> 'd" where
  "read_each rd [] acc t d = (Inr acc, t, d)"
| "read_each rd (b # bs) acc t d = (case rd d (rb_start b) (rb_count b) of
     (Inr ws, d') \<Rightarrow> read_each rd bs (store acc b ws) t d'
   | (Inl e, d') \<Rightarrow> (case narrow t b e of
       Inl e' \<Rightarrow> (Inl e', t, d')
     | Inr (subs, t') \<Rightarrow> (case read_subs rd subs acc d' of
         (Inl e', d'') \<Rightarrow> (Inl e', t', d'')
       | (Inr acc', d'') \<Rightarrow> read_each rd bs acc' t' d'')))"

definition readBlocks :: "'d reader \<Rightarrow> transport \<Rightarrow> 'd \<Rightarrow> (read_error + registers) \<times> transport \<times> 'd" where
  "readBlocks rd t d = read_each rd (t_blocks t) Map.empty t d"

definition is_modbus :: "MetricDef \<Rightarrow> bool" where
  "is_modbus m = (case mbinding m of Modbus _ _ \<Rightarrow> True | _ \<Rightarrow> False)"

fun decode_all :: "MetricDef list \<Rightarrow> registers \<Rightarrow> MetricValues \<Rightarrow> clamps \<Rightarrow> MetricValues \<times> clamps" where
  "decode_all [] regs values cs = (values, cs)"
| "decode_all (m # ms) regs values cs =
     (if \<not> is_modbus m then decode_all ms regs values cs
      else (case decode m regs cs of
        (None, cs') \<Rightarrow> decode_all ms regs values cs'
      | (Some v, cs') \<Rightarrow> decode_all ms regs (js_set (mkey m) v values) cs'))"

record read_result =
  rr_values :: MetricValues
  rr_degraded :: "bool option"

definition transport_read :: "'d reader \<Rightarrow> transport \<Rightarrow> clamps \<Rightarrow> 'd
    \<Rightarrow> (read_error + read_result) \<times> transport \<times> clamps \<times> 'd" where
  "transport_read rd t cs d = (case readBlocks rd t d of
     (Inl e, t', d') \<Rightarrow> (Inl e, t', cs, d')
   | (Inr regs, t', d') \<Rightarrow>
       (case decode_all (pmetrics (t_profile t')) regs [] cs of
          (values, cs') \<Rightarrow>
            (Inr \<lparr>rr_values = values, rr_degraded = (if t_degraded t' then Some True else None)\<rparr>,
             t', cs', d')))"

subsection \<open>Writing and probing\<close>

datatype write_error =
    UnknownMetric string
  | MetricReadOnly string
  | NotWritable string
  | ConnectFailed
  | BadRange range_error
  | WriteFailed read_error

definition writableRegister :: "'a MetricDef_scheme \<Rightarrow> int option" where
  "writableRegister def = (case mbinding def of
     Modbus [a] t \<Rightarrow> (if t = U_WORD \<or> t = S_WORD then Some a else None)
   | _ \<Rightarrow> None)"

text \<open>The connect outcome and the device's answer to the write come from outside; the third component
  is what was put on the wire.\<close>

definition transport_write :: "(bool \<Rightarrow> bool) \<Rightarrow> (int \<Rightarrow> int list \<Rightarrow> read_error option) \<Rightarrow> transport
    \<Rightarrow> string \<Rightarrow> number \<Rightarrow> (write_error + unit) \<times> (int \<times> int list) list" where
  "transport_write connects answers t key v =
     (case find (\<lambda>m. mkey m = key) (pmetrics (t_profile t)) of
        None \<Rightarrow> (Inl (UnknownMetric key), [])
      | Some def \<Rightarrow>
          if maccess def \<noteq> ReadWrite then (Inl (MetricReadOnly key), [])
          else (case writableRegister def of
            None \<Rightarrow> (Inl (NotWritable key), [])
          | Some register \<Rightarrow>
              if \<not> connects (t_open t) then (Inl ConnectFailed, [])
              else (case encodeWord def v of
                Inl e \<Rightarrow> (Inl (BadRange e), [])
              | Inr word \<Rightarrow>
                  ((case answers register [word] of None \<Rightarrow> Inr () | Some e \<Rightarrow> Inl (WriteFailed e)),
                   [(register, [word])]))))"

datatype client_call = SetID int | SetTimeout millis | ReadOne int

definition probeUnit :: "(int \<Rightarrow> int \<Rightarrow> bool) \<Rightarrow> transport \<Rightarrow> int \<Rightarrow> millis \<Rightarrow> bool option \<times> client_call list" where
  "probeUnit answers t unitId timeoutMs = (case probeAddressOf (t_profile t) of
     None \<Rightarrow> (None, [])
   | Some address \<Rightarrow>
       (Some (answers unitId address),
        [SetID unitId, SetTimeout timeoutMs, ReadOne address,
         SetID (c_unitId (t_conn t)), SetTimeout (timeout_of (t_conn t))]))"

subsection \<open>Connecting\<close>

datatype client_use = Ready | Joined | Dialing

definition getClient :: "transport \<Rightarrow> client_use \<times> transport" where
  "getClient t =
     (if t_open t then (Ready, t)
      else if t_connecting t then (Joined, t)
      else (Dialing, t\<lparr>t_connecting := True\<rparr>))"

text \<open>How the race between the connect and its deadline ends; a Solarman port brings a serial.\<close>

datatype dial_outcome = DialFailed | DialTimedOut | Dialled "int option"

datatype link_call = CloseNext | SetClientID int | SetClientTimeout millis

definition dial_settled :: "transport \<Rightarrow> dial_outcome \<Rightarrow> transport \<times> link_call list" where
  "dial_settled t outcome = (case outcome of
     Dialled serial \<Rightarrow>
       (t\<lparr>t_open := True, t_connecting := False,
          t_serial := (if framing_of (t_conn t) = SolarmanV5 then serial else t_serial t)\<rparr>,
        [SetClientID (c_unitId (t_conn t)), SetClientTimeout (timeout_of (t_conn t))])
   | _ \<Rightarrow> (t\<lparr>t_connecting := False\<rparr>, [CloseNext]))"

definition transport_close :: "transport \<Rightarrow> transport" where
  "transport_close t = t\<lparr>t_open := False\<rparr>"

datatype link_event = WantClient | DialSettles dial_outcome | LinkLost | CloseTransport

definition dials :: "transport \<Rightarrow> nat" where
  "dials t = (if t_connecting t then 1 else 0)"

fun link_step :: "transport \<Rightarrow> link_event \<Rightarrow> transport \<times> client_use list" where
  "link_step t WantClient = (case getClient t of (u, t') \<Rightarrow> (t', [u]))"
| "link_step t (DialSettles r) = (if t_connecting t then fst (dial_settled t r) else t, [])"
| "link_step t LinkLost = (t\<lparr>t_open := False\<rparr>, [])"
| "link_step t CloseTransport = (transport_close t, [])"

text \<open>At most one dial is under way: every dial but the last was settled.\<close>

definition settles :: "link_event \<Rightarrow> nat" where
  "settles e = (case e of DialSettles _ \<Rightarrow> 1 | _ \<Rightarrow> 0)"

lemma single_dial:
  "length (filter ((=) Dialing) (snd (run_steps link_step t es)))
     \<le> sum_list (map settles es) + (1 - dials t)"
proof -
  define cost where "cost u = (if u = Dialing then 1 else 0 :: nat)" for u
  have "sum_list (map cost (snd (run_steps link_step t es))) + (1 - dials (fst (run_steps link_step t es)))
    \<le> sum_list (map settles es) + (1 - dials t)"
  proof (rule run_steps_ledger)
    fix s x
    show "sum_list (map cost (snd (link_step s x))) + (1 - dials (fst (link_step s x))) \<le> settles x + (1 - dials s)"
      by (cases x) (auto simp: getClient_def dial_settled_def transport_close_def cost_def dials_def settles_def
          split: dial_outcome.splits)
  qed
  moreover have "length (filter ((=) Dialing) us) = sum_list (map cost us)" for us
    by (induction us) (auto simp: cost_def)
  ultimately show ?thesis by simp
qed

subsection \<open>The lock\<close>

text \<open>
  The promise chain: an operation starts when the one before it has settled, either way. The
  state is the queue with the running operation first.
\<close>

datatype lock_event = Locked nat | Settled nat bool
datatype lock_effect = StartOp nat | Returned nat bool

fun lock_step :: "nat list \<Rightarrow> lock_event \<Rightarrow> nat list \<times> lock_effect list" where
  "lock_step q (Locked i) = (q @ [i], if q = [] then [StartOp i] else [])"
| "lock_step q (Settled i ok) = (case q of
     j # rest \<Rightarrow> (if i = j then (rest, Returned i ok # (case rest of [] \<Rightarrow> [] | k # _ \<Rightarrow> [StartOp k]))
                  else (q, []))
   | [] \<Rightarrow> (q, []))"

fun started :: "lock_effect list \<Rightarrow> nat list" where
  "started [] = []" | "started (StartOp i # es) = i # started es" | "started (Returned _ _ # es) = started es"

fun returned :: "lock_effect list \<Rightarrow> nat list" where
  "returned [] = []" | "returned (StartOp i # es) = returned es" | "returned (Returned i _ # es) = i # returned es"

fun requested :: "lock_event list \<Rightarrow> nat list" where
  "requested [] = []" | "requested (Locked i # es) = i # requested es" | "requested (Settled _ _ # es) = requested es"

lemma started_append [simp]: "started (xs @ ys) = started xs @ started ys"
  by (induction xs rule: started.induct) auto

lemma returned_append [simp]: "returned (xs @ ys) = returned xs @ returned ys"
  by (induction xs rule: returned.induct) auto

text \<open>Every prefix of the trace: the started operations are the returned ones and the head of the queue.\<close>

lemma lock_trace:
  fixes q es
  defines "q' \<equiv> fst (run_steps lock_step q es)" and "tr \<equiv> snd (run_steps lock_step q es)"
  shows "returned tr @ q' = q @ requested es \<and> take 1 q @ started tr = returned tr @ take 1 q'"
  unfolding q'_def tr_def
proof (induction es arbitrary: q)
  case (Cons e es)
  obtain q1 out where s: "lock_step q e = (q1, out)" by force
  have 1: "returned out @ q1 = q @ requested [e] \<and> take 1 q @ started out = returned out @ take 1 q1"
    using s by (cases e; cases q) (auto split: list.splits if_splits)
  have r: "requested (e # es) = requested [e] @ requested es" by (cases e) auto
  from Cons.IH [of q1] 1 show ?case
    by (auto simp: s r) (metis append.assoc)+
qed simp

subsection \<open>Narrowing keeps a plan valid\<close>

lemma replace_first_mid: "x \<notin> set xs \<Longrightarrow> replace_first x ys (xs @ x # zs) = xs @ ys @ zs"
  by (induction xs) auto

lemma replace_first_id: "x \<notin> set xs \<Longrightarrow> replace_first x ys xs = xs"
  by (induction xs) auto

lemma exact_inside:
  assumes "blocks_exact bs A" and "\<forall>a\<in>A. in_block a b" and "c \<in> set bs"
  shows "rb_start b \<le> rb_start c" "rb_end c \<le> rb_end b"
proof -
  have "1 \<le> rb_count c" using assms by (auto simp: blocks_exact_def sized_def)
  then have "in_block (rb_start c) c" "in_block (rb_end c - 1) c" by (auto simp: in_block_def rb_end_def)
  then have "in_block (rb_start c) b" "in_block (rb_end c - 1) b"
    using assms by (auto simp: blocks_exact_def)
  then show "rb_start b \<le> rb_start c" "rb_end c \<le> rb_end b" by (auto simp: in_block_def rb_end_def)
qed

lemma split_valid:
  assumes "plan_valid ms (xs @ b # ys)"
  shows "plan_valid ms (xs @ splitBlock b ms @ ys)"
proof -
  let ?S = "splitBlock b ms"
  note S = splitBlock_exact [of b ms]
  have ins: "rb_start b \<le> rb_start c" "rb_end c \<le> rb_end b" if "c \<in> set ?S" for c
    using exact_inside [OF S _ that, of b] by auto
  have "ascending (xs @ ?S @ ys)"
    using assms S ins
    by (fastforce simp: plan_valid_def blocks_exact_def ascending_def sorted_wrt_append)
  moreover have "\<forall>c\<in>set (xs @ ?S @ ys). sized c"
    using assms S by (auto simp: plan_valid_def blocks_exact_def)
  moreover have "\<exists>c\<in>set (xs @ ?S @ ys). in_block a c" if "a \<in> set (readableAddresses ms)" for a
  proof -
    have "\<exists>c\<in>set (xs @ b # ys). in_block a c" using assms that unfolding plan_valid_def by blast
    then show ?thesis using S that by (auto simp: blocks_exact_def)
  qed
  moreover have "\<forall>c\<in>set (xs @ ?S @ ys). \<not> rb_grouped c \<and> \<not> rb_merged c \<longrightarrow>
      (\<forall>a. in_block a c \<longrightarrow> a \<in> set (readableAddresses ms))"
    using assms S by (auto simp: plan_valid_def blocks_exact_def)
  ultimately show ?thesis by (simp add: plan_valid_def)
qed


text \<open>The plans one poll after another can leave behind.\<close>

inductive narrowing :: "transport \<Rightarrow> transport \<Rightarrow> bool" for t where
  unchanged: "narrowing t t"
| narrowed: "narrowing t u \<Longrightarrow> t_blocks u = xs @ b # ys \<Longrightarrow> rb_grouped b \<or> rb_merged b \<Longrightarrow>
    narrowing t (u\<lparr>t_degraded := t_degraded u \<or> rb_grouped b,
                   t_blocks := xs @ splitBlock b (pmetrics (t_profile u)) @ ys\<rparr>)"

lemma narrowing_profile: "narrowing t t' \<Longrightarrow> t_profile t' = t_profile t"
  by (induction rule: narrowing.induct) auto

lemma narrowing_trans: "narrowing u v \<Longrightarrow> narrowing t u \<Longrightarrow> narrowing t v"
  by (induction rule: narrowing.induct) (auto intro: narrowing.narrowed)

abbreviation metrics_of :: "transport \<Rightarrow> MetricDef list" where
  "metrics_of t \<equiv> pmetrics (t_profile t)"

lemma narrowing_valid:
  "narrowing t t' \<Longrightarrow> plan_valid (metrics_of t) (t_blocks t) \<Longrightarrow> plan_valid (metrics_of t') (t_blocks t')"
  by (induction rule: narrowing.induct) (auto intro: split_valid)

definition atomic_ok :: "MetricDef list \<Rightarrow> ReadBlock list \<Rightarrow> bool" where
  "atomic_ok ms bs \<longleftrightarrow> (\<forall>m\<in>set ms. \<forall>a0. mcomputeInputs m \<noteq> None \<longrightarrow> feeds (byKey_of ms) m a0 \<longrightarrow>
     (\<exists>b\<in>set bs. (\<forall>a. feeds (byKey_of ms) m a \<longrightarrow> in_block a b)
        \<and> ((\<exists>a. feeds (byKey_of ms) m a \<and> a \<noteq> a0) \<longrightarrow> rb_grouped b)))"

definition transport_ok :: "transport \<Rightarrow> bool" where
  "transport_ok t \<longleftrightarrow> plan_valid (metrics_of t) (t_blocks t)
     \<and> (\<not> t_degraded t \<longrightarrow> atomic_ok (metrics_of t) (t_blocks t))"

lemma new_transport_ok:
  "distinct (map mkey (pmetrics p)) \<Longrightarrow> transport_ok (new_transport p c)"
  using plan_group_whole [of "pmetrics p"] planReads_valid
  by (auto simp: transport_ok_def new_transport_def atomic_ok_def)

lemma atomic_ok_split:
  assumes "atomic_ok ms (xs @ b # ys)" and "\<not> rb_grouped b" and "plan_valid ms (xs @ b # ys)"
  shows "atomic_ok ms (xs @ splitBlock b ms @ ys)"
  unfolding atomic_ok_def
proof (intro ballI allI impI)
  fix m a0 assume m: "m \<in> set ms" "mcomputeInputs m \<noteq> None" "feeds (byKey_of ms) m a0"
  let ?F = "feeds (byKey_of ms) m"
  from assms(1) m obtain c where c: "c \<in> set (xs @ b # ys)" "\<forall>a. ?F a \<longrightarrow> in_block a c"
      "(\<exists>a. ?F a \<and> a \<noteq> a0) \<longrightarrow> rb_grouped c"
    unfolding atomic_ok_def by blast
  show "\<exists>b\<in>set (xs @ splitBlock b ms @ ys). (\<forall>a. ?F a \<longrightarrow> in_block a b) \<and> ((\<exists>a. ?F a \<and> a \<noteq> a0) \<longrightarrow> rb_grouped b)"
  proof (cases "c = b")
    case True
    with c assms(2) have one: "\<And>a. ?F a \<longleftrightarrow> a = a0" using m(3) by blast
    have "a0 \<in> set (readableAddresses ms)"
      using feeds_readable [OF m(3,1) set_byKey_of] by (simp add: set_readableAddresses)
    then obtain c where "c \<in> set (xs @ splitBlock b ms @ ys)" "in_block a0 c"
      using split_valid [OF assms(3)] unfolding plan_valid_def by blast
    then show ?thesis by (intro bexI [of _ c]) (simp_all add: one)
  next
    case False
    with c show ?thesis by (intro bexI [of _ c]) auto
  qed
qed

lemma narrowing_ok: "narrowing t t' \<Longrightarrow> transport_ok t \<Longrightarrow> transport_ok t'"
proof (induction rule: narrowing.induct)
  case (narrowed u xs b ys)
  then show ?case by (auto simp: transport_ok_def intro: split_valid atomic_ok_split)
qed

definition narrowable :: "ReadBlock list \<Rightarrow> nat" where
  "narrowable bs = length (filter (\<lambda>b. rb_grouped b \<or> rb_merged b) bs)"

lemma split_narrowable: "narrowable (splitBlock b ms) = 0"
  using splitBlock_exact [of b ms] by (auto simp: narrowable_def blocks_exact_def filter_empty_conv)

lemma narrowing_decreases:
  "narrowing t t' \<Longrightarrow> t_blocks t' = t_blocks t \<and> t_degraded t' = t_degraded t
     \<or> narrowable (t_blocks t') < narrowable (t_blocks t)"
proof (induction rule: narrowing.induct)
  case (narrowed u xs b ys)
  have "narrowable (xs @ splitBlock b (metrics_of u) @ ys) < narrowable (t_blocks u)"
    using narrowed(2,3) split_narrowable [of b "metrics_of u"] by (simp add: narrowable_def)
  with narrowed.IH show ?case by auto
qed simp

subsection \<open>Reading the plan\<close>

definition reply_sized :: "'d reader \<Rightarrow> bool" where
  "reply_sized rd \<longleftrightarrow> (\<forall>d s n ws d'. rd d s n = (Inr ws, d') \<longrightarrow> int (length ws) = n)"

definition from_one :: "'d reader \<Rightarrow> ReadBlock \<Rightarrow> registers \<Rightarrow> bool" where
  "from_one rd b regs \<longleftrightarrow> (\<exists>d0 ws d1. rd d0 (rb_start b) (rb_count b) = (Inr ws, d1)
     \<and> (\<forall>a. in_block a b \<longrightarrow> regs a = Some (ws ! nat (a - rb_start b))))"

lemma store_from_one:
  assumes "reply_sized rd" "rd d (rb_start b) (rb_count b) = (Inr ws, d')"
  shows "from_one rd b (store acc b ws)"
proof -
  have "int (length ws) = rb_count b" using assms unfolding reply_sized_def by blast
  then show ?thesis
    unfolding from_one_def using assms(2)
    by (intro exI [of _ d] exI [of _ ws] exI [of _ d']) (auto simp: store_def in_block_def)
qed

lemma store_keeps:
  assumes "reply_sized rd" "rd d (rb_start b) (rb_count b) = (Inr ws, d')"
    and "rb_end c \<le> rb_start b" "from_one rd c acc"
  shows "from_one rd c (store acc b ws)"
proof -
  from assms(4) obtain d0 us d1 where "rd d0 (rb_start c) (rb_count c) = (Inr us, d1)"
      "\<forall>a. in_block a c \<longrightarrow> acc a = Some (us ! nat (a - rb_start c))"
    by (auto simp: from_one_def)
  moreover have "store acc b ws a = acc a" if "in_block a c" for a
    using that assms(3) by (auto simp: store_def in_block_def rb_end_def)
  ultimately show ?thesis unfolding from_one_def by metis
qed

lemma read_subs_from_one:
  assumes "reply_sized rd"
  shows "read_subs rd bs acc d = (Inr acc', d') \<Longrightarrow> ascending (pre @ bs) \<Longrightarrow>
    \<forall>c\<in>set pre. from_one rd c acc \<Longrightarrow> \<forall>c\<in>set (pre @ bs). from_one rd c acc'"
proof (induction bs arbitrary: pre acc d)
  case (Cons b bs)
  from Cons.prems(1) obtain ws d1 where r: "rd d (rb_start b) (rb_count b) = (Inr ws, d1)"
      "read_subs rd bs (store acc b ws) d1 = (Inr acc', d')"
    by (auto split: prod.splits sum.splits)
  have "\<forall>c\<in>set pre. rb_end c \<le> rb_start b" using Cons.prems(2) by (auto simp: ascending_def sorted_wrt_append)
  then have "\<forall>c\<in>set (pre @ [b]). from_one rd c (store acc b ws)"
    using store_keeps [OF assms r(1)] store_from_one [OF assms r(1)] Cons.prems(3) by auto
  from Cons.IH [OF r(2) _ this] Cons.prems(2) show ?case by simp
qed simp

lemma narrow_cases:
  assumes "narrow t b e = Inr (subs, t')" and "t_blocks t = xs @ b # ys" and "ascending (t_blocks t)"
    and "\<forall>c\<in>set (t_blocks t). sized c"
  shows "rb_grouped b \<or> rb_merged b" "isIllegalDataAddress e" "subs = splitBlock b (metrics_of t)"
    "t' = t\<lparr>t_degraded := t_degraded t \<or> rb_grouped b,
            t_blocks := xs @ splitBlock b (metrics_of t) @ ys\<rparr>"
proof -
  have "distinct (xs @ b # ys)" using ascending_distinct [OF assms(3,4)] assms(2) by simp
  then have "replace_first b zs (t_blocks t) = xs @ zs @ ys" for zs
    by (simp add: assms(2) replace_first_mid)
  then show "rb_grouped b \<or> rb_merged b" "isIllegalDataAddress e" "subs = splitBlock b (metrics_of t)"
    "t' = t\<lparr>t_degraded := t_degraded t \<or> rb_grouped b,
            t_blocks := xs @ splitBlock b (metrics_of t) @ ys\<rparr>"
    using assms(1) by (auto simp: narrow_def Let_def split: if_splits)
qed

lemma narrow_narrowing:
  assumes "narrow t b e = Inr (subs, t')" and "t_blocks t = xs @ b # ys" and "ascending (t_blocks t)"
    and "\<forall>c\<in>set (t_blocks t). sized c"
  shows "narrowing t t'"
  unfolding narrow_cases(4) [OF assms]
  by (rule narrowing.narrowed [OF narrowing.unchanged assms(2) narrow_cases(1) [OF assms]])

lemma read_each_spec:
  assumes "reply_sized rd"
  shows "read_each rd bs acc t d = (r, t', d') \<Longrightarrow> t_blocks t = pre @ bs \<Longrightarrow>
    plan_valid (metrics_of t) (t_blocks t) \<Longrightarrow> \<forall>c\<in>set pre. from_one rd c acc \<Longrightarrow>
    narrowing t t' \<and> (\<forall>regs. r = Inr regs \<longrightarrow> (\<forall>c\<in>set (t_blocks t'). from_one rd c regs))"
proof (induction bs arbitrary: pre acc t d)
  case Nil
  then show ?case by (auto intro: narrowing.unchanged)
next
  case (Cons b bs)
  have asc: "ascending (t_blocks t)" "\<forall>c\<in>set (t_blocks t). sized c"
    using Cons.prems(3) by (auto simp: plan_valid_def)
  have "\<forall>c\<in>set pre. rb_end c \<le> rb_start b"
    using asc(1) Cons.prems(2) by (auto simp: ascending_def sorted_wrt_append)
  note before = this
  obtain q d1 where q: "rd d (rb_start b) (rb_count b) = (q, d1)" by force
  show ?case
  proof (cases q)
    case (Inr ws)
    with q have r: "rd d (rb_start b) (rb_count b) = (Inr ws, d1)" by simp
    have "\<forall>c\<in>set (pre @ [b]). from_one rd c (store acc b ws)"
      using store_keeps [OF assms r] store_from_one [OF assms r] Cons.prems(4) before by auto
    with Cons.IH [of "store acc b ws" t d1 "pre @ [b]"] Cons.prems(1-3) r show ?thesis by simp
  next
    case (Inl e)
    show ?thesis
    proof (cases "narrow t b e")
      case (Inl e')
      with Cons.prems(1) q \<open>q = Inl e\<close> show ?thesis by (auto intro: narrowing.unchanged)
    next
      case (Inr st)
      then obtain subs u where n: "narrow t b e = Inr (subs, u)" by (cases st) auto
      note nc = narrow_cases [OF n Cons.prems(2) asc] and nn = narrow_narrowing [OF n Cons.prems(2) asc]
      have ub: "t_blocks u = (pre @ subs) @ bs" by (simp add: nc(3,4))
      have uv: "plan_valid (metrics_of u) (t_blocks u)" using narrowing_valid [OF nn Cons.prems(3)] .
      obtain p d2 where p: "read_subs rd subs acc d1 = (p, d2)" by force
      show ?thesis
      proof (cases p)
        case (Inl e')
        with Cons.prems(1) q \<open>q = Inl e\<close> n p nn show ?thesis by auto
      next
        case (Inr acc')
        have "ascending (pre @ subs)" using uv ub by (auto simp: plan_valid_def ascending_def sorted_wrt_append)
        from read_subs_from_one [OF assms _ this Cons.prems(4)] p Inr
        have "\<forall>c\<in>set (pre @ subs). from_one rd c acc'" by blast
        with Cons.IH [of acc' u d2 "pre @ subs"] Cons.prems(1) q \<open>q = Inl e\<close> n p Inr ub uv nn
        show ?thesis by (auto intro: narrowing_trans)
      qed
    qed
  qed
qed


lemma readBlocks_spec:
  assumes "reply_sized rd" "readBlocks rd t d = (r, t', d')" "plan_valid (metrics_of t) (t_blocks t)"
  shows "narrowing t t'" and "r = Inr regs \<Longrightarrow> \<forall>c\<in>set (t_blocks t'). from_one rd c regs"
  using read_each_spec [OF assms(1), of "t_blocks t" Map.empty t d r t' d' "[]"] assms(2,3)
  by (auto simp: readBlocks_def)

text \<open>The transport after a series of polls, each starting from whatever state the device is in.\<close>

definition after_polls :: "'d reader \<Rightarrow> transport \<Rightarrow> 'd list \<Rightarrow> transport" where
  "after_polls rd t ds = fold (\<lambda>d t. fst (snd (readBlocks rd t d))) ds t"

lemma after_polls_narrowing:
  assumes "reply_sized rd" and "plan_valid (metrics_of t) (t_blocks t)"
  shows "narrowing t (after_polls rd t ds)"
  unfolding after_polls_def using assms(2)
proof (induction ds arbitrary: t)
  case (Cons d ds)
  obtain r t' d' where r: "readBlocks rd t d = (r, t', d')" by (metis prod_cases3)
  have n: "narrowing t t'" using readBlocks_spec(1) [OF assms(1) r Cons.prems] .
  show ?case
    using narrowing_trans [OF Cons.IH n] narrowing_valid [OF n Cons.prems] by (simp add: r)
qed (simp add: narrowing.unchanged)

lemma polls_ok:
  fixes rd :: "'d reader" and p :: InverterProfile and c :: connection and ds :: "'d list"
  assumes "reply_sized rd"
  defines "t \<equiv> after_polls rd (new_transport p c) ds"
  shows "narrowing (new_transport p c) t" "t_profile t = p" "plan_valid (pmetrics p) (t_blocks t)"
    and "distinct (map mkey (pmetrics p)) \<Longrightarrow> transport_ok t"
proof -
  have v: "plan_valid (metrics_of (new_transport p c)) (t_blocks (new_transport p c))"
    by (simp add: new_transport_def planReads_valid)
  show n: "narrowing (new_transport p c) t"
    unfolding t_def by (rule after_polls_narrowing [OF assms(1) v])
  show p: "t_profile t = p" using narrowing_profile [OF n] by (simp add: new_transport_def)
  show "plan_valid (pmetrics p) (t_blocks t)" using narrowing_valid [OF n v] by (simp add: p)
  show "distinct (map mkey (pmetrics p)) \<Longrightarrow> transport_ok t"
    using narrowing_ok [OF n new_transport_ok] .
qed

lemma from_one_covers:
  "from_one rd b regs \<Longrightarrow> in_block a b \<Longrightarrow> regs a \<noteq> None"
  by (auto simp: from_one_def)

definition echo :: "16 word reader" where
  "echo d s n = (if n < 0 then (Inl (ReadError None ''bad count''), d)
     else (Inr (map (\<lambda>i. word_of_int (s + int i)) [0..<nat n]), d))"

definition refusing :: "int list \<Rightarrow> 16 word reader" where
  "refusing mapped d s n = (if n < 0 \<or> (\<exists>i\<in>set [0..<nat n]. s + int i \<notin> set mapped)
     then (Inl (ReadError (Some 2) ''illegal data address''), d)
     else (Inr (map (\<lambda>i. word_of_int (s + int i)) [0..<nat n]), d))"

lemma echo_sized: "reply_sized echo" and refusing_sized: "reply_sized (refusing mapped)"
  by (auto simp: reply_sized_def echo_def refusing_def split: if_splits)

definition plan_inverter :: InverterProfile where
  "plan_inverter = \<lparr>pid = ''p'', pname = ''p'', pmanufacturer = ''m'', pmetrics = plan_profile,
     pdeclares = None\<rparr>"

definition plain_conn :: connection where
  "plain_conn = \<lparr>c_host = ''h'', c_port = 502, c_unitId = 1, c_timeoutMs = None, c_framing = None\<rparr>"

text \<open>A poll that succeeds has a word for every readable register of the profile, whatever the
  device refused in this poll and the ones before it.\<close>

theorem poll_covers_profile:
  assumes "reply_sized rd"
    and "readBlocks rd (after_polls rd (new_transport p c) ds) d = (Inr regs, t', d')"
    and "m \<in> set (pmetrics p)" and "a \<in> set (addressesOf m)"
  shows "regs a \<noteq> None"
proof -
  let ?t = "after_polls rd (new_transport p c) ds"
  note ok = polls_ok [OF assms(1), of p c ds]
  have v: "plan_valid (metrics_of ?t) (t_blocks ?t)" using ok by simp
  have n: "narrowing ?t t'" using readBlocks_spec(1) [OF assms(1,2) v] .
  then have "plan_valid (pmetrics p) (t_blocks t')" using narrowing_valid [OF n v] ok narrowing_profile [OF n] by simp
  then obtain b where "b \<in> set (t_blocks t')" "in_block a b"
    using assms(3,4) unfolding plan_valid_def set_readableAddresses by blast
  then show ?thesis using readBlocks_spec(2) [OF assms(1,2) v] from_one_covers by blast
qed

theorem poll_covers_profile_witness:
  "\<exists>regs t' d'. readBlocks (refusing [100, 103, 200]) (new_transport plan_inverter plain_conn) 0
      = (Inr regs, t', d') \<and> regs 103 \<noteq> None"
proof -
  let ?rd = "refusing [100, 103, 200]"
  have "isl (fst (readBlocks ?rd (new_transport plan_inverter plain_conn) 0)) = False"
    by code_simp
  then obtain regs t' d' where
    r: "readBlocks ?rd (new_transport plan_inverter plain_conn) 0 = (Inr regs, t', d')"
    by (cases "readBlocks ?rd (new_transport plan_inverter plain_conn) 0"; cases "fst (readBlocks ?rd (new_transport plan_inverter plain_conn) 0)") auto
  have "reg_metric ''b'' [103] \<in> set (pmetrics plan_inverter)" "103 \<in> set (addressesOf (reg_metric ''b'' [103]))"
    by (simp_all add: plan_inverter_def plan_profile_def addressesOf_def reg_metric_def word_metric_def)
  from poll_covers_profile [OF refusing_sized, of "[100, 103, 200]" plan_inverter plain_conn "[]" 0 regs t' d', OF _ this]
  have "regs 103 \<noteq> None" by (simp add: r after_polls_def)
  with r show ?thesis by blast
qed

text \<open>C5. A sample that is not reported degraded is coherent: for every computed metric, all the
  registers it depends on come from one transaction, whatever the device refused in the polls
  before.\<close>

theorem poll_coherent:
  assumes "reply_sized rd" and "distinct (map mkey (pmetrics p))"
    and "readBlocks rd (after_polls rd (new_transport p c) ds) d = (Inr regs, t', d')"
    and "\<not> t_degraded t'" and "m \<in> set (pmetrics p)" and "mcomputeInputs m \<noteq> None"
    and "feeds (byKey_of (pmetrics p)) m a0"
  shows "\<exists>d0 s n ws d1. rd d0 s n = (Inr ws, d1)
    \<and> (\<forall>a. feeds (byKey_of (pmetrics p)) m a \<longrightarrow> s \<le> a \<and> a < s + n \<and> regs a = Some (ws ! nat (a - s)))"
proof -
  let ?t = "after_polls rd (new_transport p c) ds"
  note ok = polls_ok [OF assms(1), of p c ds]
  have v: "plan_valid (metrics_of ?t) (t_blocks ?t)" using ok by simp
  have n: "narrowing ?t t'" using readBlocks_spec(1) [OF assms(1,3) v] .
  have p: "t_profile t' = p" using narrowing_profile [OF n] ok(2) by simp
  have "transport_ok t'" using narrowing_ok [OF n ok(4) [OF assms(2)]] .
  then have "atomic_ok (pmetrics p) (t_blocks t')" using assms(4) p by (simp add: transport_ok_def)
  then obtain b where b: "b \<in> set (t_blocks t')" "\<forall>a. feeds (byKey_of (pmetrics p)) m a \<longrightarrow> in_block a b"
    using assms(5-7) unfolding atomic_ok_def by blast
  have "from_one rd b regs" using readBlocks_spec(2) [OF assms(1,3) v] b(1) by blast
  with b(2) show ?thesis unfolding from_one_def in_block_def by blast
qed

theorem poll_coherent_witness:
  "\<exists>regs t' d'. readBlocks echo (new_transport plan_inverter plain_conn) 0 = (Inr regs, t', d')
     \<and> \<not> t_degraded t' \<and> (\<exists>d0 s n ws d1. echo d0 s n = (Inr ws, d1) \<and> regs 103 = Some (ws ! nat (103 - s)))"
proof -
  have "isl (fst (readBlocks echo (new_transport plan_inverter plain_conn) 0)) = False"
    and "t_degraded (fst (snd (readBlocks echo (new_transport plan_inverter plain_conn) 0))) = False"
    by code_simp+
  then obtain regs t' d' where
    r: "readBlocks echo (new_transport plan_inverter plain_conn) 0 = (Inr regs, t', d')" "\<not> t_degraded t'"
    by (cases "readBlocks echo (new_transport plan_inverter plain_conn) 0"; cases "fst (readBlocks echo (new_transport plan_inverter plain_conn) 0)") auto
  have p: "pmetrics plan_inverter = plan_profile" by (simp add: plan_inverter_def)
  have m: "distinct (map mkey plan_profile)" "sum_metric ''t'' [''s'', ''a''] \<in> set plan_profile"
    "mcomputeInputs (sum_metric ''t'' [''s'', ''a'']) \<noteq> None"
    by (simp_all add: plan_profile_def reg_metric_def sum_metric_def word_metric_def)
  from poll_coherent [OF echo_sized, of plan_inverter plain_conn "[]" 0 regs t' d', unfolded p, OF m(1) _ r(2) m(2,3) plan_profile_feeds]
  have "\<exists>d0 s n ws d1. echo d0 s n = (Inr ws, d1) \<and> regs 103 = Some (ws ! nat (103 - s))"
    using r(1) plan_profile_feeds by (fastforce simp: after_polls_def)
  with r show ?thesis by blast
qed


subsection \<open>The fallback recovers\<close>

definition honest :: "int set \<Rightarrow> 'd reader \<Rightarrow> bool" where
  "honest mapped rd \<longleftrightarrow> (\<forall>d s n. case fst (rd d s n) of
     Inr ws \<Rightarrow> int (length ws) = n
   | Inl e \<Rightarrow> isIllegalDataAddress e \<and> (n < 1 \<or> (\<exists>a. s \<le> a \<and> a < s + n \<and> a \<notin> mapped)))"

lemma honest_sized: "honest mapped rd \<Longrightarrow> reply_sized rd"
  unfolding honest_def reply_sized_def
proof (intro allI impI)
  fix d s n ws d'
  assume h: "\<forall>d s n. case fst (rd d s n) of Inl e \<Rightarrow> isIllegalDataAddress e
      \<and> (n < 1 \<or> (\<exists>a. s \<le> a \<and> a < s + n \<and> a \<notin> mapped)) | Inr ws \<Rightarrow> int (length ws) = n"
    and r: "rd d s n = (Inr ws, d')"
  from h [rule_format, where d = d and s = s and n = n] r show "int (length ws) = n" by simp
qed

lemma honest_refuses:
  assumes "honest mapped rd" "rd d (rb_start b) (rb_count b) = (Inl e, d')" "sized b"
  shows "isIllegalDataAddress e" "\<exists>a. in_block a b \<and> a \<notin> mapped"
proof -
  from assms(1) [unfolded honest_def, rule_format, where d = d and s = "rb_start b" and n = "rb_count b"] assms(2)
  have "isIllegalDataAddress e \<and> (rb_count b < 1
      \<or> (\<exists>a. rb_start b \<le> a \<and> a < rb_start b + rb_count b \<and> a \<notin> mapped))" by simp
  with assms(3) show "isIllegalDataAddress e" "\<exists>a. in_block a b \<and> a \<notin> mapped"
    by (auto simp: sized_def in_block_def)
qed

lemma honest_subs:
  assumes "honest mapped rd"
  shows "\<forall>b\<in>set bs. sized b \<and> (\<forall>a. in_block a b \<longrightarrow> a \<in> mapped) \<Longrightarrow> \<exists>acc' d'. read_subs rd bs acc d = (Inr acc', d')"
proof (induction bs arbitrary: acc d)
  case (Cons b bs)
  obtain q d1 where q: "rd d (rb_start b) (rb_count b) = (q, d1)" by force
  show ?case
  proof (cases q)
    case (Inl e)
    with honest_refuses(2) [OF assms, of d b e d1] q Cons.prems show ?thesis by auto
  next
    case (Inr ws)
    then show ?thesis using Cons q by auto
  qed
qed simp

lemma honest_each:
  assumes "honest (set (readableAddresses (metrics_of t))) rd"
  shows "t_blocks t = pre @ bs \<Longrightarrow> plan_valid (metrics_of t) (t_blocks t) \<Longrightarrow>
    \<exists>regs t' d'. read_each rd bs acc t d = (Inr regs, t', d')"
  using assms
proof (induction bs arbitrary: pre acc t d)
  case (Cons b bs)
  have asc: "ascending (t_blocks t)" "\<forall>c\<in>set (t_blocks t). sized c"
    and b: "\<not> rb_grouped b \<and> \<not> rb_merged b \<longrightarrow> (\<forall>a. in_block a b \<longrightarrow> a \<in> set (readableAddresses (metrics_of t)))"
    using Cons.prems(1,2) unfolding plan_valid_def by auto
  obtain q d1 where q: "rd d (rb_start b) (rb_count b) = (q, d1)" by force
  show ?case
  proof (cases q)
    case (Inr ws)
    with q Cons.IH [of t "pre @ [b]"] Cons.prems show ?thesis by simp
  next
    case (Inl e)
    with q have q': "rd d (rb_start b) (rb_count b) = (Inl e, d1)" by simp
    have "sized b" using asc(2) Cons.prems(1) by simp
    note h = honest_refuses [OF Cons.prems(3) q' this]
    then obtain subs u where n: "narrow t b e = Inr (subs, u)"
      using b by (auto simp: narrow_def Let_def)
    note nc = narrow_cases [OF n Cons.prems(1) asc] and nn = narrow_narrowing [OF n Cons.prems(1) asc]
    have subs: "\<forall>c\<in>set subs. sized c \<and> (\<forall>a. in_block a c \<longrightarrow> a \<in> set (readableAddresses (metrics_of t)))"
      using splitBlock_exact [of b "metrics_of t"] unfolding nc(3) blocks_exact_def by blast
    from honest_subs [OF Cons.prems(3) this] obtain acc' d2 where "read_subs rd subs acc d1 = (Inr acc', d2)" by blast
    moreover have "t_blocks u = (pre @ subs) @ bs" "metrics_of u = metrics_of t" by (simp_all add: nc(3,4))
    moreover have "plan_valid (metrics_of u) (t_blocks u)" using narrowing_valid [OF nn Cons.prems(2)] .
    ultimately show ?thesis using Cons.IH [of u "pre @ subs"] Cons.prems(3) q' n by simp
  qed
qed simp

text \<open>C6. The exception-2 fallback recovers in the poll that meets it: against a device that refuses,
  with that exception, only reads touching a register the profile does not map, every poll of
  every transport succeeds.\<close>

theorem poll_recovers:
  assumes "honest (set (readableAddresses (pmetrics p))) rd"
  shows "\<exists>regs t' d'. readBlocks rd (after_polls rd (new_transport p c) ds) d = (Inr regs, t', d')"
proof -
  note ok = polls_ok [OF honest_sized [OF assms], of p c ds]
  show ?thesis
    unfolding readBlocks_def by (rule honest_each [where pre = "[]"]) (use ok assms in auto)
qed

lemma refusing_honest: "honest (set mapped) (refusing mapped)"
proof -
  have "\<exists>a. s \<le> a \<and> a < s + n \<and> a \<notin> set mapped" if "i < nat n" "s + int i \<notin> set mapped" for s n i
    using that by (intro exI [of _ "s + int i"]) auto
  then show ?thesis
    unfolding honest_def refusing_def isIllegalDataAddress_def by (auto split: if_splits)
qed

theorem poll_recovers_witness:
  "\<exists>regs t' d'. readBlocks (refusing (readableAddresses plan_profile))
     (after_polls (refusing (readableAddresses plan_profile)) (new_transport plan_inverter plain_conn) [0, 1]) 2
     = (Inr regs, t', d')"
  using poll_recovers [OF refusing_honest, of plan_inverter plain_conn "[0, 1]" 2]
  by (simp add: plan_inverter_def)

text \<open>The fallback is remembered: over any series of polls either nothing was narrowed, or fewer
  spanning blocks are left to narrow than the plan began with; so no plan narrows more often than
  it has spanning blocks, and a block the device refused is never asked for again.\<close>

theorem narrowing_is_permanent:
  assumes "reply_sized rd"
  shows "let t = after_polls rd (new_transport p c) ds; t' = after_polls rd t ds' in
     (t_blocks t' = t_blocks t \<and> t_degraded t' = t_degraded t)
     \<or> narrowable (t_blocks t') < narrowable (t_blocks t)"
proof -
  note ok = polls_ok [OF assms, of p c ds]
  show ?thesis
    unfolding Let_def by (rule narrowing_decreases, rule after_polls_narrowing [OF assms]) (use ok in simp)
qed

theorem narrowing_is_permanent_witness:
  "narrowable (t_blocks (after_polls (refusing [100, 103, 200]) (new_transport plan_inverter plain_conn) [0])) = 0
   \<and> (let t = after_polls (refusing [100, 103, 200]) (new_transport plan_inverter plain_conn) [0];
          t' = after_polls (refusing [100, 103, 200]) t [1] in t_blocks t' = t_blocks t)"
proof -
  have z: "narrowable (t_blocks (after_polls (refusing [100, 103, 200]) (new_transport plan_inverter plain_conn) [0])) = 0"
    by code_simp
  with narrowing_is_permanent [OF refusing_sized, of "[100, 103, 200]" plan_inverter plain_conn "[0]" "[1]"]
  show ?thesis by (simp add: Let_def)
qed

subsection \<open>Writing\<close>

text \<open>C7. Nothing reaches the wire but one word to the one register of a read-write word metric of the
  profile, the word is the encoded value without wrap, and every refusal leaves the wire silent.\<close>

theorem write_safe:
  assumes "transport_write connects answers t key v = (r, wire)"
  shows "(wire = [] \<and> r \<noteq> Inr ()) \<or>
    (\<exists>def a ty w. def \<in> set (metrics_of t) \<and> mkey def = key \<and> maccess def = ReadWrite
       \<and> mbinding def = Modbus [a] ty \<and> (ty = U_WORD \<or> ty = S_WORD)
       \<and> encodeWord def v = Inr w \<and> 0 \<le> w \<and> w < 65536 \<and> wire = [(a, [w])]
       \<and> (r = Inr () \<longleftrightarrow> answers a [w] = None))"
proof (cases "find (\<lambda>m. mkey m = key) (metrics_of t)")
  case None
  with assms show ?thesis by (auto simp: transport_write_def)
next
  case (Some m)
  then have m: "m \<in> set (metrics_of t)" "mkey m = key" by (auto simp: find_Some_iff)
  show ?thesis
  proof (cases "\<exists>a w. maccess m = ReadWrite \<and> writableRegister m = Some a \<and> connects (t_open t) \<and> encodeWord m v = Inr w")
    case False
    with Some assms show ?thesis
      by (auto simp: transport_write_def split: if_splits option.splits sum.splits)
  next
    case True
    then obtain a w where c: "maccess m = ReadWrite" "writableRegister m = Some a" "connects (t_open t)" "encodeWord m v = Inr w"
      by blast
    then obtain ty where b: "mbinding m = Modbus [a] ty" "ty = U_WORD \<or> ty = S_WORD"
      by (auto simp: writableRegister_def split: Binding.splits list.splits if_splits)
    have "0 \<le> w" "w < 65536" using encodeWord_Inr(2,3) [OF c(4)] by simp_all
    moreover have "wire = [(a, [w])]" "r = Inr () \<longleftrightarrow> answers a [w] = None"
      using Some assms c by (auto simp: transport_write_def split: option.splits)
    ultimately show ?thesis
      using m b c by (intro disjI2 exI [of _ m] exI [of _ a] exI [of _ ty] exI [of _ w]) blast
  qed
qed

lemma round_7: "math_round 7 = 7"
  using math_round_of_int [of 7] by simp

theorem write_safe_witness:
  "snd (transport_write (\<lambda>_. True) (\<lambda>_ _. None) (new_transport plan_inverter plain_conn) ''b'' 7) = [(103, [7])]"
proof -
  have f: "find (\<lambda>m. mkey m = ''b'') (metrics_of (new_transport plan_inverter plain_conn)) = Some (reg_metric ''b'' [103])"
    by (simp add: new_transport_def plan_inverter_def plan_profile_def reg_metric_def word_metric_def)
  have e: "encodeWord (reg_metric ''b'' [103]) 7 = Inr 7"
    by (simp add: encodeWord_Inr_iff reg_metric_def word_metric_def signed_binding_def quotient_def word_limits_def round_7)
  have "transport_write (\<lambda>_. True) (\<lambda>_ _. None) (new_transport plan_inverter plain_conn) ''b'' 7 = (Inr (), [(103, [7])])"
    using f e by (simp add: transport_write_def writableRegister_def reg_metric_def word_metric_def)
  with write_safe [OF this] show ?thesis by simp
qed

text \<open>The lock keeps transactions apart: at every moment the operations started are exactly the
  ones that have returned, in the order they were asked for, and at most one more; a rejection
  frees the lock as a success does.\<close>

theorem lock_serializes:
  "let (q', tr) = run_steps lock_step [] es in
     started tr = returned tr @ take 1 q' \<and> requested es = returned tr @ q'"
  using lock_trace [of "[]" es] by (auto split: prod.splits)

end
