(* ===== verification/Change_Encoder.thy ===== *)
theory Change_Encoder
  imports Prelude
begin

text \<open>
  \<^verbatim>\<open>apps/server/src/inverter/change-encoder.ts\<close>. A series is stored as intervals: the encoder keeps
  the open interval of each metric and emits the row an interval becomes when it closes. Times are
  epoch milliseconds. The in-place update of an open interval's start is a map update, the map being
  the only holder of the interval.
\<close>

record EncodedRow =
  er_time :: millis
  er_value :: number
  er_dur :: millis

record OpenInterval =
  o_start :: millis
  o_value :: number

type_synonym encoder = "(string, OpenInterval) js_map"

record encoder_deps =
  deadbandFor :: "string \<Rightarrow> number option"
  bucketMs :: millis
  gapMs :: millis

definition default_deps :: "(string \<Rightarrow> number option) \<Rightarrow> encoder_deps" where
  "default_deps f = \<lparr>deadbandFor = f, bucketMs = 60000, gapMs = 15000\<rparr>"

definition exceeds :: "number \<Rightarrow> number \<Rightarrow> number option \<Rightarrow> bool" where
  "exceeds v reference deadband =
     (if v = reference then False
      else (case deadband of None \<Rightarrow> True | Some d \<Rightarrow> \<bar>v - reference\<bar> \<ge> d))"

definition bucketEnd :: "encoder_deps \<Rightarrow> millis \<Rightarrow> millis" where
  "bucketEnd deps ms = (ms div bucketMs deps) * bucketMs deps + bucketMs deps"

definition closeAt :: "OpenInterval \<Rightarrow> millis \<Rightarrow> EncodedRow option" where
  "closeAt s endMs =
     (let dur = endMs - o_start s
      in if dur \<le> 0 then None else Some \<lparr>er_time = o_start s, er_value = o_value s, er_dur = dur\<rparr>)"

definition rows_of :: "EncodedRow option \<Rightarrow> EncodedRow list" where
  "rows_of r = (case r of None \<Rightarrow> [] | Some x \<Rightarrow> [x])"

definition crossBucket :: "encoder_deps \<Rightarrow> string \<Rightarrow> OpenInterval \<Rightarrow> millis \<Rightarrow> number \<Rightarrow> encoder
    \<Rightarrow> EncodedRow list \<times> bool \<times> OpenInterval \<times> encoder" where
  "crossBucket deps metric s nowMs v enc =
     (let boundary = bucketEnd deps (o_start s)
      in if nowMs < boundary then ([], False, s, enc)
         else let rows = rows_of (closeAt s boundary)
              in if nowMs - boundary \<le> gapMs deps
                 then (rows, False, s\<lparr>o_start := boundary\<rparr>, js_set metric (s\<lparr>o_start := boundary\<rparr>) enc)
                 else (rows, True, s, js_set metric \<lparr>o_start = nowMs, o_value = v\<rparr> enc))"

definition observe :: "encoder_deps \<Rightarrow> string \<Rightarrow> millis \<Rightarrow> number \<Rightarrow> encoder \<Rightarrow> EncodedRow list \<times> encoder" where
  "observe deps metric nowMs v enc =
     (case js_get enc metric of
        None \<Rightarrow> ([], js_set metric \<lparr>o_start = nowMs, o_value = v\<rparr> enc)
      | Some s \<Rightarrow>
          if nowMs < o_start s then ([], js_set metric \<lparr>o_start = nowMs, o_value = v\<rparr> enc)
          else (case crossBucket deps metric s nowMs v enc of (rows, restarted, s', enc') \<Rightarrow>
            if restarted then (rows, enc')
            else if exceeds v (o_value s') (deadbandFor deps metric)
            then (rows @ rows_of (closeAt s' nowMs), js_set metric \<lparr>o_start = nowMs, o_value = v\<rparr> enc')
            else (rows, enc')))"

definition close_encoder :: "encoder_deps \<Rightarrow> millis \<Rightarrow> encoder \<Rightarrow> (string \<times> EncodedRow) list \<times> encoder" where
  "close_encoder deps endMs enc =
     (concat (map (\<lambda>(metric, s).
        map (Pair metric) (rows_of (closeAt s (min endMs (bucketEnd deps (o_start s)))))) enc), [])"

definition openCount :: "encoder \<Rightarrow> nat" where
  "openCount enc = length enc"

subsection \<open>One metric at a time\<close>

text \<open>What \<open>observe\<close> does to the interval of the metric it is fed.\<close>

definition observe1 :: "encoder_deps \<Rightarrow> string \<Rightarrow> millis \<Rightarrow> number \<Rightarrow> OpenInterval option
    \<Rightarrow> EncodedRow list \<times> OpenInterval" where
  "observe1 deps metric now v st = (case st of
     None \<Rightarrow> ([], \<lparr>o_start = now, o_value = v\<rparr>)
   | Some s \<Rightarrow>
       if now < o_start s then ([], \<lparr>o_start = now, o_value = v\<rparr>)
       else let e = bucketEnd deps (o_start s);
                rows = (if now < e then [] else rows_of (closeAt s e));
                s' = (if now < e then s else s\<lparr>o_start := e\<rparr>)
            in if e \<le> now \<and> now - e > gapMs deps then (rows, \<lparr>o_start = now, o_value = v\<rparr>)
               else if exceeds v (o_value s) (deadbandFor deps metric)
               then (rows @ rows_of (closeAt s' now), \<lparr>o_start = now, o_value = v\<rparr>)
               else (rows, s'))"

lemma observe_observe1:
  "fst (observe deps m now v enc) = fst (observe1 deps m now v (js_get enc m))"
  "js_get (snd (observe deps m now v enc)) k =
     (if k = m then Some (snd (observe1 deps m now v (js_get enc m))) else js_get enc k)"
  by (auto simp: observe_def observe1_def crossBucket_def Let_def split: option.split prod.split)

lemma bucketEnd_gt: "0 < bucketMs deps \<Longrightarrow> t < bucketEnd deps t"
  and bucketEnd_le: "0 < bucketMs deps \<Longrightarrow> bucketEnd deps t \<le> t + bucketMs deps"
proof -
  assume "0 < bucketMs deps"
  then have "0 \<le> t mod bucketMs deps" "t mod bucketMs deps < bucketMs deps" by simp_all
  then show "t < bucketEnd deps t" "bucketEnd deps t \<le> t + bucketMs deps"
    unfolding bucketEnd_def using div_mult_mod_eq [of t "bucketMs deps"] by linarith+
qed

lemma bucketEnd_boundary:
  assumes "0 < bucketMs deps"
  shows "bucketEnd deps (bucketEnd deps t) = bucketEnd deps t + bucketMs deps"
proof -
  have "bucketEnd deps t = (t div bucketMs deps + 1) * bucketMs deps" by (simp add: bucketEnd_def algebra_simps)
  then show ?thesis using assms by (simp add: bucketEnd_def)
qed

text \<open>A row lies inside one bucket.\<close>

definition row_ok :: "encoder_deps \<Rightarrow> EncodedRow \<Rightarrow> bool" where
  "row_ok deps r \<longleftrightarrow> 0 < er_dur r \<and> er_time r + er_dur r \<le> bucketEnd deps (er_time r)"

lemma closeAt_ok:
  "closeAt s e = Some r \<Longrightarrow> e \<le> bucketEnd deps (o_start s) \<Longrightarrow> row_ok deps r"
  by (auto simp: closeAt_def row_ok_def Let_def split: if_splits)

lemma set_rows_of [simp]: "r \<in> set (rows_of x) \<longleftrightarrow> x = Some r"
  by (auto simp: rows_of_def split: option.split)

lemma observe1_rows_ok:
  assumes "0 < bucketMs deps" and "gapMs deps < bucketMs deps" and "r \<in> set (fst (observe1 deps m now v st))"
  shows "row_ok deps r"
proof -
  obtain s where s: "st = Some s" using assms(3) by (auto simp: observe1_def split: option.splits)
  let ?e = "bucketEnd deps (o_start s)"
  have "closeAt s ?e = Some r \<or> (now < ?e \<and> closeAt s now = Some r)
      \<or> (now - ?e \<le> gapMs deps \<and> closeAt (s\<lparr>o_start := ?e\<rparr>) now = Some r)"
    using assms(3) by (auto simp: s observe1_def Let_def not_less split: if_splits)
  then show ?thesis
    using closeAt_ok [of s ?e r deps] closeAt_ok [of s now r deps]
      closeAt_ok [of "s\<lparr>o_start := ?e\<rparr>" now r deps] bucketEnd_boundary [OF assms(1), of "o_start s"] assms(2)
    by (elim disjE) auto
qed

subsection \<open>The stored series against the readings\<close>

definition covers :: "EncodedRow \<Rightarrow> millis \<Rightarrow> bool" where
  "covers r t \<longleftrightarrow> er_time r \<le> t \<and> t < er_time r + er_dur r"

text \<open>What holds of the rows emitted for a metric and its open interval after the readings \<open>R\<close>.\<close>

definition faithful :: "encoder_deps \<Rightarrow> string \<Rightarrow> (millis \<times> number) list \<Rightarrow> EncodedRow list \<Rightarrow> OpenInterval \<Rightarrow> bool" where
  "faithful deps k R rows s \<longleftrightarrow>
     (\<forall>t v. (t, v) \<in> set R \<longrightarrow> t < bucketEnd deps (o_start s))
   \<and> (\<forall>t v. (t, v) \<in> set R \<longrightarrow> o_start s \<le> t \<longrightarrow> \<not> exceeds v (o_value s) (deadbandFor deps k))
   \<and> (\<forall>t v. (t, v) \<in> set R \<longrightarrow> (\<forall>r\<in>set rows. covers r t \<longrightarrow> \<not> exceeds v (er_value r) (deadbandFor deps k)))
   \<and> (\<forall>t v. (t, v) \<in> set R \<longrightarrow> o_start s \<le> t \<or> (\<exists>r\<in>set rows. covers r t))
   \<and> (\<forall>r\<in>set rows. er_time r + er_dur r \<le> o_start s)
   \<and> sorted_wrt (\<lambda>r q. er_time r + er_dur r \<le> er_time q) rows"

lemma faithfulI:
  assumes "\<And>t v. (t, v) \<in> set R \<Longrightarrow> t < bucketEnd deps (o_start s)"
    and "\<And>t v. (t, v) \<in> set R \<Longrightarrow> o_start s \<le> t \<Longrightarrow> \<not> exceeds v (o_value s) (deadbandFor deps k)"
    and "\<And>t v r. (t, v) \<in> set R \<Longrightarrow> r \<in> set rows \<Longrightarrow> covers r t \<Longrightarrow> \<not> exceeds v (er_value r) (deadbandFor deps k)"
    and "\<And>t v. (t, v) \<in> set R \<Longrightarrow> o_start s \<le> t \<or> (\<exists>r\<in>set rows. covers r t)"
    and "\<And>r. r \<in> set rows \<Longrightarrow> er_time r + er_dur r \<le> o_start s"
    and "sorted_wrt (\<lambda>r q. er_time r + er_dur r \<le> er_time q) rows"
  shows "faithful deps k R rows s"
  using assms by (simp add: faithful_def)

lemma covers_closed:
  "closeAt s e = Some r \<Longrightarrow> covers r t \<longleftrightarrow> o_start s \<le> t \<and> t < e"
  "closeAt s e = Some r \<Longrightarrow> er_value r = o_value s"
  "closeAt s e = Some r \<Longrightarrow> er_time r = o_start s"
  "closeAt s e = Some r \<Longrightarrow> er_time r + er_dur r = e"
  by (auto simp: closeAt_def covers_def Let_def split: if_splits)

lemma closeAt_Some: "o_start s < e \<Longrightarrow> \<exists>r. closeAt s e = Some r"
  by (simp add: closeAt_def Let_def)

text \<open>Closing the open interval at \<open>e\<close>, a time past every reading, and starting another at or after it.\<close>

lemma faithful_close:
  assumes f: "faithful deps k R rows s" and e: "\<forall>t v. (t, v) \<in> set R \<longrightarrow> t < e" and e': "e \<le> o_start s'"
    and lt: "o_start s \<le> e" and b: "\<forall>t v. (t, v) \<in> set R \<longrightarrow> t < bucketEnd deps (o_start s')"
  shows "faithful deps k R (rows @ rows_of (closeAt s e)) s'"
proof (cases "o_start s < e")
  case False
  with lt have c: "closeAt s e = None" "o_start s = e" by (auto simp: closeAt_def Let_def)
  have "\<not> o_start s \<le> t \<and> \<not> o_start s' \<le> t" if "(t, v) \<in> set R" for t v
    using that e e' c(2) by fastforce
  moreover have "\<forall>r\<in>set rows. er_time r + er_dur r \<le> o_start s'"
    using f c(2) e' by (auto simp: faithful_def)
  ultimately show ?thesis
    using f b unfolding faithful_def c(1) rows_of_def option.case(1) append_Nil2 by blast
next
  case True
  then obtain q where q: "closeAt s e = Some q" using closeAt_Some by blast
  note cq = covers_closed [OF q]
  have 1: "\<not> exceeds v (er_value r) (deadbandFor deps k)"
    if "(t, v) \<in> set R" "r \<in> set (rows @ rows_of (closeAt s e))" "covers r t" for t v r
    using that f cq by (auto simp: faithful_def q)
  have 2: "\<exists>r\<in>set (rows @ rows_of (closeAt s e)). covers r t" if "(t, v) \<in> set R" for t v
  proof (cases "o_start s \<le> t")
    case True
    have "t < e" using e that by blast
    with True cq(1) [of t] show ?thesis by (simp add: q rows_of_def)
  next
    case False
    then have "\<exists>r\<in>set rows. covers r t" using f that unfolding faithful_def by blast
    then show ?thesis by auto
  qed
  have 3: "sorted_wrt (\<lambda>r q. er_time r + er_dur r \<le> er_time q) (rows @ rows_of (closeAt s e))"
    using f cq by (auto simp: faithful_def q rows_of_def sorted_wrt_append)
  have 4: "\<forall>r\<in>set (rows @ rows_of (closeAt s e)). er_time r + er_dur r \<le> o_start s'"
    using f cq lt e' by (auto simp: faithful_def q)
  have 5: "\<not> o_start s' \<le> t" if "(t, v) \<in> set R" for t v using that e e' by fastforce
  show ?thesis
  proof (rule faithfulI)
    show "t < bucketEnd deps (o_start s')" if "(t, v) \<in> set R" for t v using b that by blast
    show "\<not> exceeds v (o_value s') (deadbandFor deps k)" if "(t, v) \<in> set R" "o_start s' \<le> t" for t v
      using 5 that by blast
    show "o_start s' \<le> t \<or> (\<exists>r\<in>set (rows @ rows_of (closeAt s e)). covers r t)" if "(t, v) \<in> set R" for t v
      using 2 [OF that] by blast
  qed (use 1 3 4 in blast)+
qed

lemma faithful_add:
  assumes "faithful deps k R rows s" and "o_start s \<le> now" "now < bucketEnd deps (o_start s)"
    and "\<not> exceeds v (o_value s) (deadbandFor deps k)"
  shows "faithful deps k (R @ [(now, v)]) rows s"
proof -
  have "\<not> covers r now" if "r \<in> set rows" for r
    using that assms(1,2) by (auto simp: faithful_def covers_def)
  with assms show ?thesis unfolding faithful_def by auto
qed

lemma faithful_start:
  assumes "faithful deps k R rows \<lparr>o_start = now, o_value = v\<rparr>" "0 < bucketMs deps"
  shows "faithful deps k (R @ [(now, v)]) rows \<lparr>o_start = now, o_value = v\<rparr>"
  by (rule faithful_add [OF assms(1)]) (use bucketEnd_gt [OF assms(2), of now] in \<open>simp_all add: exceeds_def\<close>)

lemma observe1_faithful:
  assumes d: "0 < bucketMs deps" "0 \<le> gapMs deps" "gapMs deps < bucketMs deps"
    and f: "faithful deps k R rows s" and now: "\<forall>t u. (t, u) \<in> set R \<longrightarrow> t < now" and start: "o_start s \<le> now"
    and o: "observe1 deps k now v (Some s) = (rows', s')"
  shows "faithful deps k (R @ [(now, v)]) (rows @ rows') s' \<and> o_start s' \<le> now"
proof -
  let ?e = "bucketEnd deps (o_start s)" and ?n = "\<lparr>o_start = now, o_value = v\<rparr>"
  have se: "o_start s < ?e" by (rule bucketEnd_gt [OF d(1)])
  have Re: "\<forall>t u. (t, u) \<in> set R \<longrightarrow> t < ?e" using f by (simp add: faithful_def)
  have Rn: "\<forall>t u. (t, u) \<in> set R \<longrightarrow> t < bucketEnd deps now" using now bucketEnd_gt [OF d(1), of now] by fastforce
  show ?thesis
  proof (cases "now < ?e")
    case early: True
    show ?thesis
    proof (cases "exceeds v (o_value s) (deadbandFor deps k)")
      case True
      with early start o have r: "rows' = rows_of (closeAt s now)" "s' = ?n" by (auto simp: observe1_def Let_def)
      have "faithful deps k R (rows @ rows') ?n"
        unfolding r(1) by (rule faithful_close [OF f now]) (use start Rn in auto)
      then show ?thesis unfolding r(2) using faithful_start d(1) by simp
    next
      case False
      with early start o have "rows' = []" "s' = s" by (auto simp: observe1_def Let_def)
      then show ?thesis using faithful_add [OF f start early False] start by simp
    qed
  next
    case False
    then have late: "?e \<le> now" by simp
    show ?thesis
    proof (cases "now - ?e > gapMs deps")
      case True
      with late start o have r: "rows' = rows_of (closeAt s ?e)" "s' = ?n" by (auto simp: observe1_def Let_def)
      have "faithful deps k R (rows @ rows') ?n"
        unfolding r(1) by (rule faithful_close [OF f Re]) (use late se Rn in auto)
      then show ?thesis unfolding r(2) using faithful_start d(1) by simp
    next
      case held: False
      let ?c = "s\<lparr>o_start := ?e\<rparr>"
      have ee: "bucketEnd deps ?e = ?e + bucketMs deps" by (rule bucketEnd_boundary [OF d(1)])
      have c: "faithful deps k R (rows @ rows_of (closeAt s ?e)) ?c"
        by (rule faithful_close [OF f Re]) (use se Re ee d(1) in fastforce)+
      show ?thesis
      proof (cases "exceeds v (o_value s) (deadbandFor deps k)")
        case True
        with late held start o have r: "rows' = rows_of (closeAt s ?e) @ rows_of (closeAt ?c now)" "s' = ?n"
          by (auto simp: observe1_def Let_def)
        have "faithful deps k R ((rows @ rows_of (closeAt s ?e)) @ rows_of (closeAt ?c now)) ?n"
          by (rule faithful_close [OF c now]) (use late Rn in auto)
        then show ?thesis unfolding r using faithful_start [OF _ d(1)] by simp
      next
        case False
        with late held start o have r: "rows' = rows_of (closeAt s ?e)" "s' = ?c"
          by (auto simp: observe1_def Let_def)
        have "now < bucketEnd deps (o_start ?c)" using held ee d(3) by simp
        with faithful_add [OF c _ this] False late show ?thesis unfolding r by simp
      qed
    qed
  qed
qed

subsection \<open>A feed of readings\<close>

type_synonym reading = "string \<times> millis \<times> number"

definition encode_step :: "encoder_deps \<Rightarrow> encoder \<Rightarrow> reading \<Rightarrow> encoder \<times> (string \<times> EncodedRow) list" where
  "encode_step deps enc x = (case x of (m, t, v) \<Rightarrow>
     (case observe deps m t v enc of (rows, enc') \<Rightarrow> (enc', map (Pair m) rows)))"

definition readings_of :: "string \<Rightarrow> reading list \<Rightarrow> (millis \<times> number) list" where
  "readings_of k xs = map snd (filter (\<lambda>x. fst x = k) xs)"

definition rows_for :: "string \<Rightarrow> (string \<times> EncodedRow) list \<Rightarrow> EncodedRow list" where
  "rows_for k out = map snd (filter (\<lambda>x. fst x = k) out)"

lemma rows_for_simps [simp]:
  "rows_for k (xs @ ys) = rows_for k xs @ rows_for k ys"
  "rows_for k (map (Pair m) rs) = (if m = k then rs else [])"
  by (simp_all add: rows_for_def filter_map comp_def)

lemma encode_step_simps:
  "fst (encode_step deps enc (m, t, v)) = snd (observe deps m t v enc)"
  "snd (encode_step deps enc (m, t, v)) = map (Pair m) (fst (observe deps m t v enc))"
  by (simp_all add: encode_step_def split: prod.split)

lemma observe_distinct: "distinct (map fst enc) \<Longrightarrow> distinct (map fst (snd (observe deps m t v enc)))"
  by (auto simp: observe_def crossBucket_def Let_def distinct_update split: option.split)

definition deps_ok :: "encoder_deps \<Rightarrow> bool" where
  "deps_ok deps \<longleftrightarrow> 0 < bucketMs deps \<and> 0 \<le> gapMs deps \<and> gapMs deps < bucketMs deps"

lemma feed_faithful:
  assumes "deps_ok deps"
  shows "sorted_wrt (\<lambda>x y. fst x < fst y) (readings_of k xs) \<Longrightarrow>
    (case js_get (fst (run_steps (encode_step deps) [] xs)) k of
       None \<Rightarrow> readings_of k xs = [] \<and> rows_for k (snd (run_steps (encode_step deps) [] xs)) = []
     | Some s \<Rightarrow> readings_of k xs \<noteq> [] \<and> (o_start s \<le> fst (last (readings_of k xs)))
         \<and> faithful deps k (readings_of k xs) (rows_for k (snd (run_steps (encode_step deps) [] xs))) s)"
proof (induction xs rule: rev_induct)
  case Nil
  then show ?case by (simp add: readings_of_def rows_for_def)
next
  case (snoc x xs)
  note d = assms [unfolded deps_ok_def]
  obtain m t v where x: "x = (m, t, v)" by (metis prod_cases3)
  let ?run = "run_steps (encode_step deps) [] xs"
  obtain enc out where run: "?run = (enc, out)" by force
  have next_run: "run_steps (encode_step deps) [] (xs @ [x])
      = (snd (observe deps m t v enc), out @ map (Pair m) (fst (observe deps m t v enc)))"
    by (simp add: run_steps_append run x prod_eq_iff fst_andThen snd_andThen encode_step_simps)
  show ?case
  proof (cases "m = k")
    case False
    then have "readings_of k (xs @ [x]) = readings_of k xs" by (simp add: readings_of_def x)
    with snoc False show ?thesis
      by (cases "js_get enc k") (simp_all add: next_run run observe_observe1)
  next
    case True
    then have R: "readings_of k (xs @ [x]) = readings_of k xs @ [(t, v)]" by (simp add: readings_of_def x)
    have now: "\<forall>u w. (u, w) \<in> set (readings_of k xs) \<longrightarrow> u < t" and srt: "sorted_wrt (\<lambda>x y. fst x < fst y) (readings_of k xs)"
      using snoc.prems by (auto simp: R sorted_wrt_append)
    note IH = snoc.IH [OF srt]
    obtain rows' s' where o: "observe1 deps k t v (js_get enc k) = (rows', s')" by force
    have step: "fst (observe deps m t v enc) = rows'" "js_get (snd (observe deps m t v enc)) k = Some s'"
      using True o by (simp_all add: observe_observe1)
    have "faithful deps k (readings_of k xs @ [(t, v)]) (rows_for k out @ rows') s' \<and> o_start s' \<le> t"
    proof (cases "js_get enc k")
      case None
      with IH have "readings_of k xs = []" "rows_for k out = []" by (simp_all add: run)
      moreover have "faithful deps k [] [] \<lparr>o_start = t, o_value = v\<rparr>" by (simp add: faithful_def)
      ultimately show ?thesis using faithful_start [of deps k "[]" "[]" t v] d o None
        by (auto simp: observe1_def)
    next
      case (Some s)
      with IH have f: "faithful deps k (readings_of k xs) (rows_for k out) s"
        and ne: "readings_of k xs \<noteq> []" "o_start s \<le> fst (last (readings_of k xs))" by (simp_all add: run)
      have "fst (last (readings_of k xs)) < t" using now last_in_set [OF ne(1)] by (metis prod.collapse)
      with ne(2) have "o_start s \<le> t" by simp
      with observe1_faithful [OF _ _ _ f now this] d o Some show ?thesis by simp
    qed
    then show ?thesis using step unfolding True by (simp add: next_run R True)
  qed
qed

lemma feed_distinct: "distinct (map fst enc) \<Longrightarrow> distinct (map fst (fst (run_steps (encode_step deps) enc xs)))"
proof (induction xs arbitrary: enc)
  case (Cons x xs)
  obtain m t v where "x = (m, t, v)" by (metis prod_cases3)
  with Cons observe_distinct show ?case by (simp add: fst_andThen encode_step_simps)
qed simp


text \<open>Everything stored for a feed that ends with a close at \<open>till\<close>.\<close>

definition stored :: "encoder_deps \<Rightarrow> reading list \<Rightarrow> millis \<Rightarrow> (string \<times> EncodedRow) list" where
  "stored deps xs till =
     (case run_steps (encode_step deps) [] xs of (enc, out) \<Rightarrow> out @ fst (close_encoder deps till enc))"

lemma rows_for_close:
  assumes "distinct (map fst enc)"
  shows "rows_for k (fst (close_encoder deps till enc)) = (case js_get enc k of None \<Rightarrow> []
    | Some s \<Rightarrow> rows_of (closeAt s (min till (bucketEnd deps (o_start s)))))"
  using assms
proof (induction enc)
  case (Cons e enc)
  obtain m s where e: "e = (m, s)" by force
  have "js_get enc m = None" using Cons.prems by (simp add: e map_of_eq_None_iff)
  moreover have "fst (close_encoder deps till (e # enc)) =
      map (Pair m) (rows_of (closeAt s (min till (bucketEnd deps (o_start s))))) @ fst (close_encoder deps till enc)"
    by (simp add: close_encoder_def e)
  ultimately show ?case using Cons by (simp add: e)
qed (simp add: close_encoder_def rows_for_def)

lemma encode_step_ok:
  "deps_ok deps \<Longrightarrow> x \<in> set (snd (encode_step deps enc y)) \<Longrightarrow> row_ok deps (snd x)"
  by (cases y) (auto simp: encode_step_simps observe_observe1 deps_ok_def intro: observe1_rows_ok)

lemma close_rows_ok: "x \<in> set (fst (close_encoder deps till enc)) \<Longrightarrow> row_ok deps (snd x)"
  by (auto simp: close_encoder_def intro: closeAt_ok)

lemma default_deps_ok: "deps_ok (default_deps f)"
  by (simp add: deps_ok_def default_deps_def)

text \<open>The encoder at the widths every caller uses is a stage of the storage path.\<close>

interpretation enc: row_stage "encode_step (default_deps f)" "\<lambda>e. fst (close_encoder (default_deps f) till e)"
    "\<lambda>x. row_ok (default_deps f) (snd x)" for f till
  by unfold_locales (auto intro: encode_step_ok [OF default_deps_ok] close_rows_ok)

lemma in_rows_for [simp]: "r \<in> set (rows_for k out) \<longleftrightarrow> (k, r) \<in> set out"
  by (force simp: rows_for_def)

lemma stored_faithful:
  assumes "deps_ok deps" and "sorted_wrt (\<lambda>x y. fst x < fst y) (readings_of k xs)"
    and "\<forall>(t, v)\<in>set (readings_of k xs). t < till"
  shows "sorted_wrt (\<lambda>r q. er_time r + er_dur r \<le> er_time q) (rows_for k (stored deps xs till))"
    and "(t, v) \<in> set (readings_of k xs) \<Longrightarrow> \<exists>r. (k, r) \<in> set (stored deps xs till) \<and> covers r t"
    and "(t, v) \<in> set (readings_of k xs) \<Longrightarrow> (k, r) \<in> set (stored deps xs till) \<Longrightarrow> covers r t \<Longrightarrow>
      \<not> exceeds v (er_value r) (deadbandFor deps k)"
proof -
  obtain enc out where run: "run_steps (encode_step deps) [] xs = (enc, out)" by force
  have dist: "distinct (map fst enc)" using feed_distinct [of "[]" deps xs] by (simp add: run)
  note F = feed_faithful [OF assms(1,2)]
  have st: "rows_for k (stored deps xs till) = rows_for k out @ (case js_get enc k of None \<Rightarrow> []
    | Some s \<Rightarrow> rows_of (closeAt s (min till (bucketEnd deps (o_start s)))))"
    using rows_for_close [OF dist, of k deps till] by (simp add: stored_def run)
  have all: "sorted_wrt (\<lambda>r q. er_time r + er_dur r \<le> er_time q) (rows_for k (stored deps xs till))
    \<and> (\<forall>t v. (t, v) \<in> set (readings_of k xs) \<longrightarrow>
        (\<exists>r\<in>set (rows_for k (stored deps xs till)). covers r t)
      \<and> (\<forall>r\<in>set (rows_for k (stored deps xs till)). covers r t \<longrightarrow> \<not> exceeds v (er_value r) (deadbandFor deps k)))"
  proof (cases "js_get enc k")
    case None
    with F st show ?thesis by (simp add: run)
  next
    case (Some s)
    let ?e = "min till (bucketEnd deps (o_start s))"
    let ?s' = "\<lparr>o_start = ?e, o_value = o_value s\<rparr>"
    from F Some have f: "faithful deps k (readings_of k xs) (rows_for k out) s"
      and ne: "readings_of k xs \<noteq> []" "o_start s \<le> fst (last (readings_of k xs))" by (simp_all add: run)
    have e: "\<forall>t v. (t, v) \<in> set (readings_of k xs) \<longrightarrow> t < ?e"
      using f assms(3) by (fastforce simp: faithful_def)
    moreover have "fst (last (readings_of k xs)) < ?e"
      using e last_in_set [OF ne(1)] by (metis prod.collapse)
    moreover have "\<forall>t v. (t, v) \<in> set (readings_of k xs) \<longrightarrow> t < bucketEnd deps ?e"
      using e bucketEnd_gt [of deps ?e] assms(1) by (fastforce simp: deps_ok_def)
    ultimately have "faithful deps k (readings_of k xs) (rows_for k out @ rows_of (closeAt s ?e)) ?s'"
      using ne(2) by (intro faithful_close [OF f]) auto
    then have g: "faithful deps k (readings_of k xs) (rows_for k (stored deps xs till)) ?s'"
      by (simp add: st Some)
    have "\<not> ?e \<le> t" if "(t, v) \<in> set (readings_of k xs)" for t v using e that by fastforce
    with g show ?thesis unfolding faithful_def OpenInterval.simps by blast
  qed
  show "sorted_wrt (\<lambda>r q. er_time r + er_dur r \<le> er_time q) (rows_for k (stored deps xs till))"
    and "(t, v) \<in> set (readings_of k xs) \<Longrightarrow> \<exists>r. (k, r) \<in> set (stored deps xs till) \<and> covers r t"
    and "(t, v) \<in> set (readings_of k xs) \<Longrightarrow> (k, r) \<in> set (stored deps xs till) \<Longrightarrow> covers r t \<Longrightarrow>
      \<not> exceeds v (er_value r) (deadbandFor deps k)"
    using all in_rows_for by (blast, metis, metis)
qed

text \<open>The error of the stored series is bounded by the deadband and nothing observed is lost: when
  the readings of a metric come in strictly increasing time, other metrics interleaved at will, and
  the encoder is closed after the last, every reading lies in a stored interval of its metric, and
  the value of any interval over it equals the reading or differs from it by less than the
  metric's threshold; the intervals of a metric are in order and disjoint.\<close>

theorem stored_within_deadband:
  assumes "deps_ok deps" and "sorted_wrt (\<lambda>x y. fst x < fst y) (readings_of k xs)"
    and "\<forall>(t, v)\<in>set (readings_of k xs). t < till" and "(t, v) \<in> set (readings_of k xs)"
  shows "(\<exists>r. (k, r) \<in> set (stored deps xs till) \<and> er_time r \<le> t \<and> t < er_time r + er_dur r)
    \<and> (\<forall>r. (k, r) \<in> set (stored deps xs till) \<and> er_time r \<le> t \<and> t < er_time r + er_dur r \<longrightarrow>
         v = er_value r \<or> (\<exists>d. deadbandFor deps k = Some d \<and> \<bar>v - er_value r\<bar> < d))
    \<and> sorted_wrt (\<lambda>r q. er_time r + er_dur r \<le> er_time q) (rows_for k (stored deps xs till))"
proof (intro conjI allI impI)
  show "\<exists>r. (k, r) \<in> set (stored deps xs till) \<and> er_time r \<le> t \<and> t < er_time r + er_dur r"
    using stored_faithful(2) [OF assms] by (simp add: covers_def)
  show "sorted_wrt (\<lambda>r q. er_time r + er_dur r \<le> er_time q) (rows_for k (stored deps xs till))"
    by (rule stored_faithful(1) [OF assms(1-3)])
  fix r assume "(k, r) \<in> set (stored deps xs till) \<and> er_time r \<le> t \<and> t < er_time r + er_dur r"
  then have "\<not> exceeds v (er_value r) (deadbandFor deps k)"
    using stored_faithful(3) [OF assms] by (simp add: covers_def)
  then show "v = er_value r \<or> (\<exists>d. deadbandFor deps k = Some d \<and> \<bar>v - er_value r\<bar> < d)"
    by (auto simp: exceeds_def split: if_splits option.splits)
qed

definition volt_deps :: encoder_deps where
  "volt_deps = default_deps (\<lambda>m. if m = ''u'' then Some 1 else None)"

definition volt_feed :: "reading list" where
  "volt_feed = [(''u'', 1000, 230), (''n'', 1500, 1), (''u'', 30000, 2306/10), (''u'', 62000, 2315/10), (''n'', 70000, 2)]"

theorem stored_within_deadband_witness:
  "\<exists>r. (''u'', r) \<in> set (stored volt_deps volt_feed 80000) \<and> er_time r \<le> 30000
     \<and> \<bar>2306/10 - er_value r\<bar> < 1"
proof -
  have R: "readings_of ''u'' volt_feed = [(1000, 230), (30000, 2306/10), (62000, 2315/10)]"
    by (simp add: readings_of_def volt_feed_def)
  have "deps_ok volt_deps" by (simp add: deps_ok_def volt_deps_def default_deps_def)
  from stored_within_deadband [OF this, of "''u''" volt_feed 80000 30000 "2306/10"]
  obtain r where "(''u'', r) \<in> set (stored volt_deps volt_feed 80000)" "er_time r \<le> 30000"
      "2306/10 = er_value r \<or> (\<exists>d. deadbandFor volt_deps ''u'' = Some d \<and> \<bar>2306/10 - er_value r\<bar> < d)"
    by (auto simp: R)
  then show ?thesis by (auto simp: volt_deps_def default_deps_def)
qed

text \<open>No stored interval is empty or crosses a bucket boundary, for any feed whatever: clock steps
  back, repeated times and outages included.\<close>

theorem stored_in_bucket:
  assumes "(k, r) \<in> set (stored (default_deps f) xs till)"
  shows "0 < er_dur r \<and> er_time r + er_dur r \<le> bucketEnd (default_deps f) (er_time r)"
proof -
  have "(k, r) \<in> set (snd (run_steps (encode_step (default_deps f)) [] xs)
      @ fst (close_encoder (default_deps f) till (fst (run_steps (encode_step (default_deps f)) [] xs))))"
    using assms by (cases "run_steps (encode_step (default_deps f)) [] xs") (auto simp: stored_def)
  from enc.written_ok [OF this] show ?thesis by (simp add: row_ok_def)
qed

theorem stored_in_bucket_witness:
  "\<exists>r. (''u'', r) \<in> set (stored volt_deps [(''u'', 1000, 230), (''u'', 500, 231), (''u'', 200000, 230)] 300000)
     \<and> er_time r + er_dur r \<le> bucketEnd volt_deps (er_time r)"
proof -
  let ?r = "\<lparr>er_time = 500, er_value = 231, er_dur = 59500\<rparr>"
  have m: "(''u'', ?r) \<in> set (stored volt_deps [(''u'', 1000, 230), (''u'', 500, 231), (''u'', 200000, 230)] 300000)"
    by (simp add: stored_def encode_step_def observe_def crossBucket_def bucketEnd_def closeAt_def
        volt_deps_def default_deps_def exceeds_def rows_of_def Let_def)
  from stored_in_bucket [OF m [unfolded volt_deps_def]] m show ?thesis unfolding volt_deps_def by blast
qed

text \<open>A silence is judged from the bucket boundary only: one of 73 seconds, past the 15 second limit, is
  stored as a held value with no gap.\<close>

lemma long_silence_is_held:
  "rows_for ''n'' (stored volt_deps [(''n'', 1000, 5), (''n'', 74000, 6)] 80000)
     = [\<lparr>er_time = 1000, er_value = 5, er_dur = 59000\<rparr>, \<lparr>er_time = 60000, er_value = 5, er_dur = 14000\<rparr>,
        \<lparr>er_time = 74000, er_value = 6, er_dur = 6000\<rparr>]"
  by (simp add: stored_def encode_step_def observe_def crossBucket_def bucketEnd_def closeAt_def close_encoder_def
      volt_deps_def default_deps_def exceeds_def rows_of_def rows_for_def Let_def)

end
