(* ===== verification/Roles.thy ===== *)
theory Roles
  imports Profile_Types
begin

text \<open>
  The role vocabulary: \<^verbatim>\<open>packages/inverter-core/src/roles.ts\<close> (the catalog, entry by entry and in
  its order), \<^verbatim>\<open>device-class.ts\<close> and \<^verbatim>\<open>plant-aggregate.ts\<close>. An absent optional flag is \<open>False\<close>,
  an absent hint or class is \<open>None\<close>. The degree sign is the character with code 176.
\<close>

datatype DeviceClass = InverterClass | Controller | Meter | Charger | Optimizer

definition DEVICE_CLASSES :: "(string \<times> DeviceClass) list" where
  "DEVICE_CLASSES = [(''inverter'', InverterClass), (''controller'', Controller), (''meter'', Meter),
     (''charger'', Charger), (''optimizer'', Optimizer)]"

definition isDeviceClass :: "string \<Rightarrow> bool" where
  "isDeviceClass s \<longleftrightarrow> s \<in> set (map fst DEVICE_CLASSES)"

datatype PlantAggregate = SumOf | WeightedMean | PerDevice

record RoleSpec =
  rs_kind :: MetricKind
  rs_indexed :: bool
  rs_writable :: bool
  rs_needsEnumLabels :: bool
  rs_signed :: bool
  rs_unitHint :: "string option"
  rs_deviceClass :: "DeviceClass option"
  rs_aggregate :: "PlantAggregate option"

definition spec :: "MetricKind \<Rightarrow> RoleSpec" where
  "spec k = \<lparr>rs_kind = k, rs_indexed = False, rs_writable = False, rs_needsEnumLabels = False,
     rs_signed = False, rs_unitHint = None, rs_deviceClass = None, rs_aggregate = None\<rparr>"

definition degC :: string where
  "degC = [CHR 0xB0, CHR ''C'']"

definition ROLE_CATALOG :: "(string, RoleSpec) js_map" where
  "ROLE_CATALOG = [
     (''pv.string.power'', (spec Measurement)\<lparr>rs_indexed := True, rs_unitHint := Some ''W''\<rparr>),
     (''pv.string.voltage'', (spec Measurement)\<lparr>rs_indexed := True, rs_unitHint := Some ''V''\<rparr>),
     (''pv.string.current'', (spec Measurement)\<lparr>rs_indexed := True, rs_unitHint := Some ''A''\<rparr>),
     (''pv.total.power'', (spec Measurement)\<lparr>rs_unitHint := Some ''W''\<rparr>),
     (''pv.string.energy.today'', (spec Cumulative)\<lparr>rs_indexed := True, rs_unitHint := Some ''kWh''\<rparr>),
     (''pv.string.energy.total'', (spec Cumulative)\<lparr>rs_indexed := True, rs_unitHint := Some ''kWh''\<rparr>),
     (''production.today'', (spec Cumulative)\<lparr>rs_unitHint := Some ''kWh''\<rparr>),
     (''production.total'', (spec Cumulative)\<lparr>rs_unitHint := Some ''kWh''\<rparr>),
     (''battery.soc'', (spec Measurement)\<lparr>rs_unitHint := Some ''%''\<rparr>),
     (''battery.power'', (spec Measurement)\<lparr>rs_signed := True, rs_unitHint := Some ''W''\<rparr>),
     (''battery.voltage'', (spec Measurement)\<lparr>rs_unitHint := Some ''V''\<rparr>),
     (''battery.current'', (spec Measurement)\<lparr>rs_signed := True, rs_unitHint := Some ''A''\<rparr>),
     (''battery.temperature'', (spec Measurement)\<lparr>rs_unitHint := Some degC\<rparr>),
     (''battery.mode'', (spec StatusKind)\<lparr>rs_needsEnumLabels := True\<rparr>),
     (''battery.energy.charged.today'', (spec Cumulative)\<lparr>rs_unitHint := Some ''kWh''\<rparr>),
     (''battery.energy.charged.total'', (spec Cumulative)\<lparr>rs_unitHint := Some ''kWh''\<rparr>),
     (''battery.energy.discharged.today'', (spec Cumulative)\<lparr>rs_unitHint := Some ''kWh''\<rparr>),
     (''battery.energy.discharged.total'', (spec Cumulative)\<lparr>rs_unitHint := Some ''kWh''\<rparr>),
     (''grid.power'', (spec Measurement)\<lparr>rs_signed := True, rs_unitHint := Some ''W''\<rparr>),
     (''grid.frequency'', (spec Measurement)\<lparr>rs_unitHint := Some ''Hz''\<rparr>),
     (''grid.phase.voltage'', (spec Measurement)\<lparr>rs_indexed := True, rs_unitHint := Some ''V''\<rparr>),
     (''grid.phase.current'', (spec Measurement)\<lparr>rs_indexed := True, rs_signed := True, rs_unitHint := Some ''A''\<rparr>),
     (''grid.phase.power'', (spec Measurement)\<lparr>rs_indexed := True, rs_signed := True, rs_unitHint := Some ''W''\<rparr>),
     (''grid.energy.imported.today'', (spec Cumulative)\<lparr>rs_unitHint := Some ''kWh''\<rparr>),
     (''grid.energy.imported.total'', (spec Cumulative)\<lparr>rs_unitHint := Some ''kWh''\<rparr>),
     (''grid.energy.exported.today'', (spec Cumulative)\<lparr>rs_unitHint := Some ''kWh''\<rparr>),
     (''grid.energy.exported.total'', (spec Cumulative)\<lparr>rs_unitHint := Some ''kWh''\<rparr>),
     (''load.power'', (spec Measurement)\<lparr>rs_unitHint := Some ''W''\<rparr>),
     (''load.phase.power'', (spec Measurement)\<lparr>rs_indexed := True, rs_unitHint := Some ''W''\<rparr>),
     (''load.phase.voltage'', (spec Measurement)\<lparr>rs_indexed := True, rs_unitHint := Some ''V''\<rparr>),
     (''load.phase.current'', (spec Measurement)\<lparr>rs_indexed := True, rs_unitHint := Some ''A''\<rparr>),
     (''load.energy.today'', (spec Cumulative)\<lparr>rs_unitHint := Some ''kWh''\<rparr>),
     (''load.energy.total'', (spec Cumulative)\<lparr>rs_unitHint := Some ''kWh''\<rparr>),
     (''backup.power'', (spec Measurement)\<lparr>rs_unitHint := Some ''W''\<rparr>),
     (''backup.phase.power'', (spec Measurement)\<lparr>rs_indexed := True, rs_unitHint := Some ''W''\<rparr>),
     (''backup.phase.voltage'', (spec Measurement)\<lparr>rs_indexed := True, rs_unitHint := Some ''V''\<rparr>),
     (''backup.phase.current'', (spec Measurement)\<lparr>rs_indexed := True, rs_unitHint := Some ''A''\<rparr>),
     (''backup.frequency'', (spec Measurement)\<lparr>rs_unitHint := Some ''Hz''\<rparr>),
     (''backup.energy.today'', (spec Cumulative)\<lparr>rs_unitHint := Some ''kWh''\<rparr>),
     (''backup.energy.total'', (spec Cumulative)\<lparr>rs_unitHint := Some ''kWh''\<rparr>),
     (''generator.power'', (spec Measurement)\<lparr>rs_unitHint := Some ''W''\<rparr>),
     (''generator.phase.power'', (spec Measurement)\<lparr>rs_indexed := True, rs_unitHint := Some ''W''\<rparr>),
     (''generator.phase.voltage'', (spec Measurement)\<lparr>rs_indexed := True, rs_unitHint := Some ''V''\<rparr>),
     (''generator.phase.current'', (spec Measurement)\<lparr>rs_indexed := True, rs_unitHint := Some ''A''\<rparr>),
     (''generator.energy.today'', (spec Cumulative)\<lparr>rs_unitHint := Some ''kWh''\<rparr>),
     (''generator.energy.total'', (spec Cumulative)\<lparr>rs_unitHint := Some ''kWh''\<rparr>),
     (''ev.charge.power'', (spec Measurement)\<lparr>rs_unitHint := Some ''W'', rs_deviceClass := Some Charger\<rparr>),
     (''ev.vehicle.soc'', (spec Measurement)\<lparr>rs_unitHint := Some ''%'', rs_deviceClass := Some Charger\<rparr>),
     (''ev.session.energy'', (spec Cumulative)\<lparr>rs_unitHint := Some ''kWh'', rs_deviceClass := Some Charger\<rparr>),
     (''ev.connected'', (spec StatusKind)\<lparr>rs_deviceClass := Some Charger\<rparr>),
     (''ev.charging'', (spec StatusKind)\<lparr>rs_deviceClass := Some Charger\<rparr>),
     (''optimizer.target.current'', (spec Measurement)\<lparr>rs_unitHint := Some ''A'', rs_deviceClass := Some Optimizer\<rparr>),
     (''optimizer.applied.current'', (spec Measurement)\<lparr>rs_unitHint := Some ''A'', rs_deviceClass := Some Optimizer\<rparr>),
     (''optimizer.threshold.power'', (spec Measurement)\<lparr>rs_unitHint := Some ''W'', rs_deviceClass := Some Optimizer\<rparr>),
     (''optimizer.excess.power'', (spec Measurement)\<lparr>rs_unitHint := Some ''W'', rs_deviceClass := Some Optimizer\<rparr>),
     (''optimizer.local.sink.power'', (spec Measurement)\<lparr>rs_unitHint := Some ''W'', rs_deviceClass := Some Optimizer\<rparr>),
     (''optimizer.headroom.energy'', (spec Measurement)\<lparr>rs_unitHint := Some ''kWh'', rs_deviceClass := Some Optimizer\<rparr>),
     (''optimizer.surplus.energy'', (spec Measurement)\<lparr>rs_unitHint := Some ''kWh'', rs_deviceClass := Some Optimizer\<rparr>),
     (''optimizer.soc.envelope'', (spec Measurement)\<lparr>rs_unitHint := Some ''%'', rs_deviceClass := Some Optimizer\<rparr>),
     (''optimizer.soakable.energy'', (spec Measurement)\<lparr>rs_unitHint := Some ''kWh'', rs_deviceClass := Some Optimizer\<rparr>),
     (''optimizer.unavoidable.energy'', (spec Measurement)\<lparr>rs_unitHint := Some ''kWh'', rs_deviceClass := Some Optimizer\<rparr>),
     (''optimizer.ev.demand.energy'', (spec Measurement)\<lparr>rs_unitHint := Some ''kWh'', rs_deviceClass := Some Optimizer\<rparr>),
     (''optimizer.sell.limit.power'', (spec Measurement)\<lparr>rs_unitHint := Some ''W'', rs_deviceClass := Some Optimizer\<rparr>),
     (''optimizer.grid.charge.current'', (spec Measurement)\<lparr>rs_unitHint := Some ''A'', rs_deviceClass := Some Optimizer\<rparr>),
     (''optimizer.state'', (spec StatusKind)\<lparr>rs_needsEnumLabels := True, rs_deviceClass := Some Optimizer\<rparr>),
     (''optimizer.price.regime'', (spec StatusKind)\<lparr>rs_needsEnumLabels := True, rs_deviceClass := Some Optimizer\<rparr>),
     (''optimizer.override'', (spec StatusKind)\<lparr>rs_deviceClass := Some Optimizer\<rparr>),
     (''optimizer.ineffective'', (spec StatusKind)\<lparr>rs_deviceClass := Some Optimizer\<rparr>),
     (''optimizer.enabled'', (spec Setting)\<lparr>rs_deviceClass := Some Optimizer\<rparr>),
     (''optimizer.mode'', (spec Setting)\<lparr>rs_needsEnumLabels := True, rs_deviceClass := Some Optimizer\<rparr>),
     (''optimizer.restore.pending'', (spec StatusKind)\<lparr>rs_deviceClass := Some Optimizer\<rparr>),
     (''inverter.status'', (spec StatusKind)\<lparr>rs_needsEnumLabels := True\<rparr>),
     (''inverter.relay_status'', (spec StatusKind)\<lparr>rs_needsEnumLabels := True\<rparr>),
     (''inverter.temperature.dc'', (spec Measurement)\<lparr>rs_unitHint := Some degC\<rparr>),
     (''inverter.temperature.ac'', (spec Measurement)\<lparr>rs_unitHint := Some degC\<rparr>),
     (''inverter.power'', (spec Measurement)\<lparr>rs_unitHint := Some ''W''\<rparr>),
     (''inverter.efficiency'', (spec Measurement)\<lparr>rs_unitHint := Some ''%''\<rparr>),
     (''setting.battery.max_charge_current'', (spec Setting)\<lparr>rs_writable := True, rs_unitHint := Some ''A''\<rparr>),
     (''setting.battery.max_discharge_current'', (spec Setting)\<lparr>rs_writable := True, rs_unitHint := Some ''A''\<rparr>),
     (''setting.battery.max_grid_charge_current'', (spec Setting)\<lparr>rs_writable := True, rs_unitHint := Some ''A''\<rparr>),
     (''setting.battery.max_charge_power'', (spec Setting)\<lparr>rs_writable := True, rs_unitHint := Some ''W''\<rparr>),
     (''setting.battery.max_discharge_power'', (spec Setting)\<lparr>rs_writable := True, rs_unitHint := Some ''W''\<rparr>),
     (''setting.battery.max_grid_charge_power'', (spec Setting)\<lparr>rs_writable := True, rs_unitHint := Some ''W''\<rparr>),
     (''setting.battery.grid_charge'', (spec Setting)\<lparr>rs_writable := True, rs_needsEnumLabels := True\<rparr>),
     (''setting.work_mode'', (spec Setting)\<lparr>rs_writable := True, rs_needsEnumLabels := True\<rparr>),
     (''setting.solar_sell.max_power'', (spec Setting)\<lparr>rs_writable := True, rs_unitHint := Some ''W''\<rparr>),
     (''setting.solar_sell.enabled'', (spec Setting)\<lparr>rs_writable := True, rs_needsEnumLabels := True\<rparr>)]"

definition ROLE_NAMES :: "string list" where
  "ROLE_NAMES = map fst ROLE_CATALOG"

subsection \<open>How a role folds over a plant\<close>

definition BY_UNIT :: "(string, PlantAggregate) js_map" where
  "BY_UNIT = [(''W'', SumOf), (''kW'', SumOf), (''Wh'', SumOf), (''kWh'', SumOf),
     (''%'', WeightedMean), (degC, WeightedMean)]"

definition isDeviceLocal :: "RoleSpec \<Rightarrow> bool" where
  "isDeviceLocal s \<longleftrightarrow>
     (rs_deviceClass s \<noteq> None \<and> rs_deviceClass s \<noteq> Some InverterClass)
     \<or> (rs_kind s = StatusKind \<or> rs_kind s = Setting)
     \<or> rs_indexed s"

definition derive :: "RoleSpec \<Rightarrow> PlantAggregate" where
  "derive s =
     (if isDeviceLocal s then PerDevice
      else (case rs_unitHint s of
        None \<Rightarrow> PerDevice
      | Some u \<Rightarrow> (case js_get BY_UNIT u of None \<Rightarrow> PerDevice | Some a \<Rightarrow> a)))"

definition plantAggregateOf :: "string option \<Rightarrow> PlantAggregate" where
  "plantAggregateOf r =
     (case (case r of None \<Rightarrow> None | Some k \<Rightarrow> js_get ROLE_CATALOG k) of
        None \<Rightarrow> PerDevice
      | Some s \<Rightarrow> (case rs_aggregate s of Some a \<Rightarrow> a | None \<Rightarrow> derive s))"

lemma catalog_no_override: "list_all (\<lambda>(k, s). rs_aggregate s = None) ROLE_CATALOG"
  by code_simp

lemma catalog_settings:
  "list_all (\<lambda>(k, s). rs_writable s \<longrightarrow> rs_kind s = Setting) ROLE_CATALOG"
  by code_simp

lemma catalog_enums_local:
  "list_all (\<lambda>(k, s). rs_needsEnumLabels s \<longrightarrow> isDeviceLocal s) ROLE_CATALOG"
  by code_simp

end
