(* ===== verification/Capabilities.thy ===== *)
theory Capabilities
  imports Roles
begin

text \<open>
  \<^verbatim>\<open>packages/inverter-core/src/capabilities.ts\<close> and \<^verbatim>\<open>device-instance.ts\<close>: the kind, storage class
  and change threshold of a metric, the capability set of a device, the manifest, and the role view
  of a device instance. The narrowed parameter types of the source are all read off the metric base
  record. The module's ledger of guessed kinds is passed and returned. A role is a key of the
  catalog by its type, so the lookup of a role that is not there does not arise; it reads as no kind.
\<close>

definition roleKind :: "'a MetricBase_scheme \<Rightarrow> MetricKind option" where
  "roleKind def = (case mrole def of
     None \<Rightarrow> None
   | Some r \<Rightarrow> map_option rs_kind (js_get ROLE_CATALOG r))"

definition statedKind :: "'a MetricBase_scheme \<Rightarrow> MetricKind option" where
  "statedKind def =
     (case mkind def of
        Some k \<Rightarrow> Some k
      | None \<Rightarrow> (case roleKind def of
          Some k \<Rightarrow> Some k
        | None \<Rightarrow>
            if maccess def = ReadWrite then Some Setting
            else if munit def = Some ''kWh'' then Some Cumulative
            else None))"

definition hasResolvableKind :: "'a MetricBase_scheme \<Rightarrow> bool" where
  "hasResolvableKind def \<longleftrightarrow> statedKind def \<noteq> None"

type_synonym kind_fallbacks = "(string, nat) js_map"

definition kindFallbackKeys :: "kind_fallbacks \<Rightarrow> string list" where
  "kindFallbackKeys fs = map fst fs"

definition reportKindFallback :: "string \<Rightarrow> kind_fallbacks \<Rightarrow> kind_fallbacks" where
  "reportKindFallback k fs = (case js_get fs k of
     Some n \<Rightarrow> js_set k (n + 1) fs
   | None \<Rightarrow> js_set k 1 fs)"

definition resolveKind :: "'a MetricBase_scheme \<Rightarrow> kind_fallbacks \<Rightarrow> MetricKind \<times> kind_fallbacks" where
  "resolveKind def fs = (case statedKind def of
     Some k \<Rightarrow> (k, fs)
   | None \<Rightarrow> (Measurement, reportKindFallback (mkey def) fs))"

record MetricKeyFacts =
  mf_key :: string
  mf_isCounter :: bool
  mf_unit :: "string option"

definition metricKeySpecs :: "'a MetricBase_scheme list \<Rightarrow> MetricKeyFacts list" where
  "metricKeySpecs metrics = map (\<lambda>m. \<lparr>mf_key = mkey m,
     mf_isCounter = (statedKind m = Some Cumulative), mf_unit = munit m\<rparr>) metrics"

definition resolveStorage :: "'a MetricBase_scheme \<Rightarrow> MetricStorage" where
  "resolveStorage def = (case mstorage def of
     Some s \<Rightarrow> s
   | None \<Rightarrow> if statedKind def = Some Setting then ConfigLog else Series)"

definition resolveDeadband :: "'a MetricBase_scheme \<Rightarrow> number option" where
  "resolveDeadband def =
     (case mdeadband def of
        None \<Rightarrow> None
      | Some d \<Rightarrow>
          if resolveStorage def \<noteq> Series then None
          else if statedKind def = Some Cumulative \<or> statedKind def = Some StatusKind then None
          else Some d)"

subsection \<open>Capabilities\<close>

datatype InverterFeature = SolarSell | TimeOfUse | GridCharge

record InverterCapabilities =
  cap_battery :: bool
  cap_pvStrings :: nat
  cap_phases :: nat
  cap_grid :: bool
  cap_generator :: bool
  cap_backupLoad :: bool
  cap_features :: "InverterFeature list"
  cap_controls :: "string list"

definition countIndices :: "'a MetricBase_scheme list \<Rightarrow> string \<Rightarrow> nat" where
  "countIndices metrics r =
     length (fold (\<lambda>m seen. if mrole m = Some r
        then (case mindex m of Some i \<Rightarrow> set_add i seen | None \<Rightarrow> seen) else seen) metrics [])"

definition hasRole :: "'a MetricBase_scheme list \<Rightarrow> string \<Rightarrow> bool" where
  "hasRole metrics prefix \<longleftrightarrow>
     (\<exists>m\<in>set metrics. case mrole m of None \<Rightarrow> False | Some r \<Rightarrow> starts_with r prefix)"

definition FEATURE_RULES :: "(InverterFeature \<times> ('a MetricBase_scheme \<Rightarrow> bool)) list" where
  "FEATURE_RULES =
     [(SolarSell, \<lambda>m. mrole m = Some ''setting.solar_sell.enabled''),
      (GridCharge, \<lambda>m. mrole m = Some ''setting.battery.grid_charge''),
      (TimeOfUse, \<lambda>m. mgroup m = ''timeofuse'')]"

datatype Subsystem = SubBattery | SubGrid | SubGenerator | SubBackup

definition SUBSYSTEMS :: "Subsystem \<Rightarrow> string" where
  "SUBSYSTEMS s = (case s of SubBattery \<Rightarrow> ''battery.'' | SubGrid \<Rightarrow> ''grid.''
     | SubGenerator \<Rightarrow> ''generator.'' | SubBackup \<Rightarrow> ''backup.'')"

definition deriveCapabilities ::
  "'a MetricBase_scheme list \<Rightarrow> ProfileDeclarations option \<Rightarrow> InverterCapabilities" where
  "deriveCapabilities metrics declares =
     \<lparr>cap_battery = hasRole metrics (SUBSYSTEMS SubBattery),
      cap_pvStrings = countIndices metrics ''pv.string.power'',
      cap_phases = max 1 (countIndices metrics ''grid.phase.voltage''),
      cap_grid = hasRole metrics (SUBSYSTEMS SubGrid),
      cap_generator = hasRole metrics (SUBSYSTEMS SubGenerator),
      cap_backupLoad = (case (case declares of None \<Rightarrow> None | Some d \<Rightarrow> backupOutput d) of
          Some b \<Rightarrow> b | None \<Rightarrow> hasRole metrics (SUBSYSTEMS SubBackup)),
      cap_features = map fst (filter (\<lambda>(f, match). \<exists>m\<in>set metrics. match m) FEATURE_RULES),
      cap_controls = map mkey (filter (\<lambda>m. maccess m = ReadWrite) metrics)\<rparr>"

record ManifestMetric =
  mm_key :: string
  mm_topic :: string
  mm_label :: string
  mm_unit :: "string option"
  mm_group :: string
  mm_kind :: MetricKind
  mm_storage :: MetricStorage
  mm_writable :: bool
  mm_role :: "role option"
  mm_index :: "nat option"
  mm_range :: "MetricRange option"
  mm_enumLabels :: "(int \<times> string) list option"
  mm_flow :: "MetricFlow option"

record InverterManifest =
  im_id :: string
  im_name :: string
  im_manufacturer :: string
  im_capabilities :: InverterCapabilities
  im_metrics :: "ManifestMetric list"

definition toManifestMetric :: "MetricDef \<Rightarrow> kind_fallbacks \<Rightarrow> ManifestMetric \<times> kind_fallbacks" where
  "toManifestMetric def fs = (case resolveKind def fs of (k, fs') \<Rightarrow>
     (\<lparr>mm_key = mkey def, mm_topic = mtopic def, mm_label = mlabel def, mm_unit = munit def,
       mm_group = mgroup def, mm_kind = k, mm_storage = resolveStorage def,
       mm_writable = (maccess def = ReadWrite), mm_role = mrole def, mm_index = mindex def,
       mm_range = mrange def, mm_enumLabels = menum def, mm_flow = mflow def\<rparr>, fs'))"

fun manifest_metrics :: "MetricDef list \<Rightarrow> kind_fallbacks \<Rightarrow> ManifestMetric list \<times> kind_fallbacks" where
  "manifest_metrics [] fs = ([], fs)"
| "manifest_metrics (m # ms) fs =
     (case toManifestMetric m fs of (mm, fs') \<Rightarrow>
      (case manifest_metrics ms fs' of (mms, fs'') \<Rightarrow> (mm # mms, fs'')))"

definition buildManifest :: "InverterProfile \<Rightarrow> 'a MetricBase_scheme list \<Rightarrow> ProfileDeclarations option
    \<Rightarrow> kind_fallbacks \<Rightarrow> InverterManifest \<times> kind_fallbacks" where
  "buildManifest profile metrics declares fs =
     (case manifest_metrics (pmetrics profile) fs of (mms, fs') \<Rightarrow>
       (\<lparr>im_id = pid profile, im_name = pname profile, im_manufacturer = pmanufacturer profile,
         im_capabilities = deriveCapabilities metrics declares, im_metrics = mms\<rparr>, fs'))"

subsection \<open>Device instances\<close>

record RoleBinding =
  rb_role :: role
  rb_metrics :: "MetricBase list"

record DeviceInstance =
  di_id :: string
  di_class :: DeviceClass
  di_integration :: string
  di_roles :: "(role, RoleBinding) js_map"
  di_metrics :: "MetricBase list"
  di_declares :: "ProfileDeclarations option"

definition bind_role :: "MetricBase \<Rightarrow> (role, RoleBinding) js_map \<Rightarrow> (role, RoleBinding) js_map" where
  "bind_role m roles = (case mrole m of
     None \<Rightarrow> roles
   | Some r \<Rightarrow>
       if r = [] then roles
       else (case js_get roles r of
         Some existing \<Rightarrow> js_set r \<lparr>rb_role = r, rb_metrics = rb_metrics existing @ [m]\<rparr> roles
       | None \<Rightarrow> js_set r \<lparr>rb_role = r, rb_metrics = [m]\<rparr> roles))"

definition roleBindings :: "MetricBase list \<Rightarrow> (role, RoleBinding) js_map" where
  "roleBindings metrics = fold bind_role metrics []"

definition deviceInstance ::
  "string \<Rightarrow> DeviceClass \<Rightarrow> string \<Rightarrow> MetricBase list \<Rightarrow> ProfileDeclarations option \<Rightarrow> DeviceInstance" where
  "deviceInstance i c integration metrics declares =
     \<lparr>di_id = i, di_class = c, di_integration = integration, di_roles = roleBindings metrics,
      di_metrics = metrics, di_declares = declares\<rparr>"

definition instanceFromProfile :: "string \<Rightarrow> DeviceClass \<Rightarrow> string \<Rightarrow> InverterProfile \<Rightarrow> DeviceInstance" where
  "instanceFromProfile i c integration profile =
     deviceInstance i c integration (map MetricBase.truncate (pmetrics profile)) (pdeclares profile)"

subsection \<open>The role view\<close>

definition mapping_role :: "role \<Rightarrow> MetricBase list \<Rightarrow> MetricBase list" where
  "mapping_role r ms = filter (\<lambda>m. mrole m = Some r) ms"

lemma roleBindings_get:
  assumes "r \<noteq> []"
  shows "js_get (roleBindings ms) r =
    (if mapping_role r ms = [] then None else Some \<lparr>rb_role = r, rb_metrics = mapping_role r ms\<rparr>)"
proof -
  define view where "view xs = (if xs = [] then None else Some \<lparr>rb_role = r, rb_metrics = xs\<rparr>)" for xs :: "MetricBase list"
  have "js_get roles r = view xs \<Longrightarrow> js_get (fold bind_role ms roles) r = view (xs @ mapping_role r ms)"
    for roles xs
  proof (induction ms arbitrary: roles xs)
    case (Cons m ms)
    have "js_get (bind_role m roles) r = view (xs @ mapping_role r [m])"
      using Cons.prems assms
      by (auto simp: bind_role_def view_def mapping_role_def split: option.splits if_splits)
    from Cons.IH [OF this] show ?case by (simp add: mapping_role_def)
  qed (simp add: mapping_role_def)
  from this [of "[]" "[]"] show ?thesis by (simp add: roleBindings_def view_def)
qed

lemma roleBindings_dom: "r \<in> fst ` set (roleBindings ms) \<longleftrightarrow> r \<noteq> [] \<and> (\<exists>m\<in>set ms. mrole m = Some r)"
proof -
  have "fst ` set (fold bind_role ms roles) = fst ` set roles \<union> {r. r \<noteq> [] \<and> (\<exists>m\<in>set ms. mrole m = Some r)}" for roles
  proof (induction ms arbitrary: roles)
    case (Cons m ms)
    have "fst ` set (bind_role m roles) = fst ` set roles \<union> {r. r \<noteq> [] \<and> mrole m = Some r}"
      by (auto simp: bind_role_def dom_update split: option.splits)
    with Cons.IH [of "bind_role m roles"] show ?case by auto
  qed simp
  from this [of "[]"] show ?thesis by (auto simp: roleBindings_def)
qed

lemma fold_indices:
  "set (fold (\<lambda>m seen. if mrole m = Some r then (case mindex m of Some i \<Rightarrow> set_add i seen | None \<Rightarrow> seen) else seen) ms s0)
     = {i. \<exists>m\<in>set ms. mrole m = Some r \<and> mindex m = Some i} \<union> set s0
   \<and> (distinct s0 \<longrightarrow> distinct (fold (\<lambda>m seen. if mrole m = Some r then (case mindex m of Some i \<Rightarrow> set_add i seen | None \<Rightarrow> seen) else seen) ms s0))"
  by (induction ms arbitrary: s0) (auto split: option.splits)

lemma countIndices_card:
  "countIndices ms r = card {i. \<exists>m\<in>set ms. mrole m = Some r \<and> mindex m = Some i}"
  using fold_indices [of r ms "[]"] by (simp add: countIndices_def distinct_card [symmetric])

text \<open>Capabilities are the device's own statement whichever view is read: over any metric list, the
  subsystem flags and the string and phase counts that the capability derivation computes from the
  list are the ones the resolved role map of the device shows, and the map binds to each role
  exactly the metrics that declare it, in order.\<close>

theorem capabilities_from_roles:
  fixes ms :: "MetricBase list" and i integ :: string and c :: DeviceClass and decl :: "ProfileDeclarations option"
  assumes "\<forall>m\<in>set ms. mrole m \<noteq> Some []"
  defines "roles \<equiv> di_roles (deviceInstance i c integ ms decl)" and "cap \<equiv> deriveCapabilities ms decl"
  shows "(\<forall>r. js_get roles r = (if filter (\<lambda>m. mrole m = Some r) ms = [] then None
            else Some \<lparr>rb_role = r, rb_metrics = filter (\<lambda>m. mrole m = Some r) ms\<rparr>))
    \<and> (cap_battery cap \<longleftrightarrow> (\<exists>r\<in>set (map fst roles). starts_with r ''battery.''))
    \<and> (cap_grid cap \<longleftrightarrow> (\<exists>r\<in>set (map fst roles). starts_with r ''grid.''))
    \<and> (cap_generator cap \<longleftrightarrow> (\<exists>r\<in>set (map fst roles). starts_with r ''generator.''))
    \<and> cap_pvStrings cap = card {k. \<exists>b m. js_get roles ''pv.string.power'' = Some b \<and> m \<in> set (rb_metrics b) \<and> mindex m = Some k}
    \<and> cap_phases cap = max 1 (card {k. \<exists>b m. js_get roles ''grid.phase.voltage'' = Some b \<and> m \<in> set (rb_metrics b) \<and> mindex m = Some k})"
proof -
  have r: "roles = roleBindings ms" by (simp add: roles_def deviceInstance_def)
  have get: "js_get roles k = (if mapping_role k ms = [] then None else Some \<lparr>rb_role = k, rb_metrics = mapping_role k ms\<rparr>)" for k
  proof (cases "k = []")
    case True
    have "[] \<notin> fst ` set roles" by (simp add: r roleBindings_dom)
    then have "js_get roles [] = None" by (simp add: map_of_eq_None_iff)
    moreover have "mapping_role [] ms = []" using assms(1) by (auto simp: mapping_role_def filter_empty_conv)
    ultimately show ?thesis using True by simp
  qed (simp add: r roleBindings_get)
  have dom: "set (map fst roles) = {k. k \<noteq> [] \<and> (\<exists>m\<in>set ms. mrole m = Some k)}"
    unfolding r set_map using roleBindings_dom by blast
  have sub: "hasRole ms p \<longleftrightarrow> (\<exists>k\<in>set (map fst roles). starts_with k p)" for p
    unfolding hasRole_def dom using assms(1) by (fastforce split: option.splits)
  have cnt: "countIndices ms k = card {n. \<exists>b m. js_get roles k = Some b \<and> m \<in> set (rb_metrics b) \<and> mindex m = Some n}" for k
    unfolding countIndices_card
    by (rule arg_cong [where f = card]) (auto simp: get mapping_role_def filter_empty_conv)
  show ?thesis
    using get sub cnt by (simp add: cap_def deriveCapabilities_def SUBSYSTEMS_def mapping_role_def)
qed

definition base_metric :: "string \<Rightarrow> role option \<Rightarrow> nat option \<Rightarrow> MetricBase" where
  "base_metric k r i = \<lparr>mkey = k, mtopic = k, mlabel = k, munit = None, mgroup = ''g'', mtype = U_WORD,
     maddresses = [], mscale = 1, mdeadband = None, moffset = None, maccess = ReadOnly, mcontrol = None,
     mrole = r, mindex = i, mkind = None, mstorage = None, mrange = None, menum = None, mflow = None\<rparr>"

theorem capabilities_from_roles_witness:
  "cap_battery (deriveCapabilities [base_metric ''a'' (Some ''battery.soc'') None, base_metric ''b'' None None] None)"
proof -
  let ?ms = "[base_metric ''a'' (Some ''battery.soc'') None, base_metric ''b'' None None]"
  have h: "\<forall>m\<in>set ?ms. mrole m \<noteq> Some []" by (simp add: base_metric_def)
  have "set (map fst (di_roles (deviceInstance ''i'' InverterClass ''p'' ?ms None))) = {''battery.soc''}"
    by (simp add: deviceInstance_def roleBindings_def bind_role_def base_metric_def)
  moreover have "starts_with ''battery.soc'' ''battery.''" by code_simp
  ultimately show ?thesis
    using capabilities_from_roles [OF h, of "''i''" InverterClass "''p''" None] by auto
qed

subsection \<open>Storage and thresholds\<close>

lemma deadband_only_series:
  "resolveDeadband m = Some d \<Longrightarrow> resolveStorage m = Series
     \<and> statedKind m \<noteq> Some Cumulative \<and> statedKind m \<noteq> Some StatusKind \<and> mdeadband m = Some d"
  by (auto simp: resolveDeadband_def split: option.splits if_splits)

lemma counter_no_deadband: "statedKind m = Some Cumulative \<Longrightarrow> resolveDeadband m = None"
  by (simp add: resolveDeadband_def split: option.split)

lemma stated_not_reported: "statedKind m \<noteq> None \<Longrightarrow> snd (resolveKind m fs) = fs"
  by (auto simp: resolveKind_def)

end
