(* ===== verification/Storage_Policy.thy ===== *)
theory Storage_Policy
  imports Change_Encoder Capabilities
begin

text \<open>
  \<^verbatim>\<open>apps/server/src/inverter/storage-policy.ts\<close>: where each reading of a poll is persisted. What the
  source resolves once per profile is the record \<open>policy\<close>; its closure-local memories are the record
  \<open>policy_state\<close>, passed and returned. Rows carry the tag of the list they are pushed to.
\<close>

record StorageRow =
  sr_time :: millis
  sr_inverter :: string
  sr_metric :: string
  sr_value :: number
  sr_dur :: "millis option"

record RoutableSample =
  sa_time :: millis
  sa_inverter :: string
  sa_metrics :: MetricValues

definition DEFAULT_OPTIONAL_ROLES :: "string list" where
  "DEFAULT_OPTIONAL_ROLES = [''generator.'']"

datatype Destination = DestSeries | DestConfig | DestDrop

definition idOf :: "string \<Rightarrow> string \<Rightarrow> string" where
  "idOf inverterId metric = inverterId @ '' '' @ metric"

record policy =
  po_storage :: "(string, MetricStorage) js_map"
  po_group :: "(string, string) js_map"
  po_deadbands :: "(string, number option) js_map"

record policy_state =
  ps_present :: "string list"
  ps_lastLogged :: "(string, number) js_map"
  ps_encoders :: "(string, encoder) js_map"

definition optional_group :: "string list \<Rightarrow> 'a MetricBase_scheme \<Rightarrow> string option" where
  "optional_group optionalRoles def = (case mrole def of
     None \<Rightarrow> None
   | Some r \<Rightarrow> if r = [] then None else find (\<lambda>prefix. starts_with r prefix) optionalRoles)"

definition createStoragePolicy :: "'a MetricBase_scheme list \<Rightarrow> string list option \<Rightarrow> policy" where
  "createStoragePolicy metrics optionalRoles =
     (let roles = (case optionalRoles of Some r \<Rightarrow> r | None \<Rightarrow> DEFAULT_OPTIONAL_ROLES)
      in \<lparr>po_storage = fold (\<lambda>def. js_set (mkey def) (resolveStorage def)) metrics [],
          po_group = fold (\<lambda>def g. case optional_group roles def of
             Some p \<Rightarrow> (if p = [] then g else js_set (mkey def) p g) | None \<Rightarrow> g) metrics [],
          po_deadbands = fold (\<lambda>def. js_set (mkey def) (resolveDeadband def)) metrics []\<rparr>)"

definition new_policy_state :: policy_state where
  "new_policy_state = \<lparr>ps_present = [], ps_lastLogged = [], ps_encoders = []\<rparr>"

definition policy_deps :: "policy \<Rightarrow> encoder_deps" where
  "policy_deps pol = default_deps (\<lambda>m. case js_get (po_deadbands pol) m of Some d \<Rightarrow> d | None \<Rightarrow> None)"

definition noteEvidence :: "policy \<Rightarrow> (string \<times> number) list \<Rightarrow> policy_state \<Rightarrow> policy_state" where
  "noteEvidence pol readings st =
     st\<lparr>ps_present := fold (\<lambda>(k, v) present. case js_get (po_group pol) k of
          Some g \<Rightarrow> (if v \<noteq> 0 then set_add g present else present)
        | None \<Rightarrow> present) readings (ps_present st)\<rparr>"

definition hardwarePresent :: "policy \<Rightarrow> policy_state \<Rightarrow> string \<Rightarrow> bool" where
  "hardwarePresent pol st metric = (case js_get (po_group pol) metric of
     None \<Rightarrow> True | Some g \<Rightarrow> g \<in> set (ps_present st))"

definition admitConfigChange :: "string \<Rightarrow> string \<Rightarrow> number \<Rightarrow> policy_state \<Rightarrow> bool \<times> policy_state" where
  "admitConfigChange inverterId metric v st =
     (let i = idOf inverterId metric
      in if js_get (ps_lastLogged st) i = Some v then (False, st)
         else (True, st\<lparr>ps_lastLogged := js_set i v (ps_lastLogged st)\<rparr>))"

definition storage_class :: "policy \<Rightarrow> string \<Rightarrow> MetricStorage" where
  "storage_class pol metric = (case js_get (po_storage pol) metric of Some s \<Rightarrow> s | None \<Rightarrow> Series)"

definition destinationOf :: "policy \<Rightarrow> string \<Rightarrow> string \<Rightarrow> number \<Rightarrow> policy_state \<Rightarrow> Destination \<times> policy_state" where
  "destinationOf pol inverterId metric v st = (case storage_class pol metric of
     NotStored \<Rightarrow> (DestDrop, st)
   | ConfigLog \<Rightarrow> (case admitConfigChange inverterId metric v st of (changed, st') \<Rightarrow>
       (if changed then DestConfig else DestDrop, st'))
   | Series \<Rightarrow> (if hardwarePresent pol st metric then DestSeries else DestDrop, st))"

datatype routed = ToSeries StorageRow | ToConfig StorageRow

definition series_row :: "string \<Rightarrow> string \<Rightarrow> EncodedRow \<Rightarrow> StorageRow" where
  "series_row dev metric e = \<lparr>sr_time = er_time e, sr_inverter = dev, sr_metric = metric,
     sr_value = er_value e, sr_dur = Some (er_dur e)\<rparr>"

definition encoder_of :: "policy_state \<Rightarrow> string \<Rightarrow> encoder" where
  "encoder_of st dev = (case js_get (ps_encoders st) dev of Some e \<Rightarrow> e | None \<Rightarrow> [])"

definition route_reading :: "policy \<Rightarrow> millis \<Rightarrow> string \<Rightarrow> policy_state \<Rightarrow> string \<times> number \<Rightarrow> policy_state \<times> routed list" where
  "route_reading pol time dev st x = (case x of (metric, v) \<Rightarrow>
     (case destinationOf pol dev metric v st of
        (DestDrop, st') \<Rightarrow> (st', [])
      | (DestConfig, st') \<Rightarrow> (st', [ToConfig \<lparr>sr_time = time, sr_inverter = dev, sr_metric = metric,
            sr_value = v, sr_dur = None\<rparr>])
      | (DestSeries, st') \<Rightarrow>
          (case observe (policy_deps pol) metric time v (encoder_of st' dev) of (rows, enc) \<Rightarrow>
            (st'\<lparr>ps_encoders := js_set dev enc (ps_encoders st')\<rparr>,
             map (\<lambda>e. ToSeries (series_row dev metric e)) rows))))"

definition finite_readings :: "RoutableSample \<Rightarrow> (string \<times> number) list" where
  "finite_readings s = filter (\<lambda>x. is_finite (snd x)) (sa_metrics s)"

definition route :: "policy \<Rightarrow> policy_state \<Rightarrow> RoutableSample \<Rightarrow> policy_state \<times> routed list" where
  "route pol st s = (let readings = finite_readings s in
     run_steps (route_reading pol (sa_time s) (sa_inverter s)) (noteEvidence pol readings st) readings)"

definition close_policy :: "policy \<Rightarrow> millis \<Rightarrow> policy_state \<Rightarrow> policy_state \<times> StorageRow list" where
  "close_policy pol till st =
     (st\<lparr>ps_encoders := []\<rparr>,
      concat (map (\<lambda>(dev, enc). map (\<lambda>(metric, e). series_row dev metric e)
        (fst (close_encoder (policy_deps pol) till enc))) (ps_encoders st)))"

definition series_of :: "routed list \<Rightarrow> StorageRow list" where
  "series_of out = List.map_filter (\<lambda>r. case r of ToSeries x \<Rightarrow> Some x | ToConfig _ \<Rightarrow> None) out"

definition config_of :: "routed list \<Rightarrow> StorageRow list" where
  "config_of out = List.map_filter (\<lambda>r. case r of ToConfig x \<Rightarrow> Some x | ToSeries _ \<Rightarrow> None) out"

lemma series_of_simps [simp]:
  "series_of [] = []" "series_of (xs @ ys) = series_of xs @ series_of ys"
  "series_of (ToSeries r # xs) = r # series_of xs" "series_of (ToConfig r # xs) = series_of xs"
  "series_of (map (\<lambda>e. ToSeries (f e)) rows) = map f rows"
  by (simp_all add: series_of_def map_filter_def comp_def)

lemma config_of_simps [simp]:
  "config_of [] = []" "config_of (xs @ ys) = config_of xs @ config_of ys"
  "config_of (ToConfig r # xs) = r # config_of xs" "config_of (ToSeries r # xs) = config_of xs"
  "config_of (map (\<lambda>e. ToSeries (f e)) rows) = []"
  by (simp_all add: config_of_def map_filter_def comp_def)

subsection \<open>The change log\<close>

lemma idOf_inject:
  assumes "CHR '' '' \<notin> set i" "CHR '' '' \<notin> set j" "idOf i m = idOf j n"
  shows "i = j \<and> m = n"
proof -
  have "takeWhile (\<lambda>c. c \<noteq> CHR '' '') (idOf k x) = k" if "CHR '' '' \<notin> set k" for k x
    using that by (induction k) (auto simp: idOf_def)
  from this [OF assms(1), of m] this [OF assms(2), of n] assms(3) have "i = j" by simp
  with assms(3) show ?thesis by (simp add: idOf_def)
qed

definition values_of :: "string \<Rightarrow> string \<Rightarrow> StorageRow list \<Rightarrow> number list" where
  "values_of dev m rows = map sr_value (filter (\<lambda>r. sr_inverter r = dev \<and> sr_metric r = m) rows)"

definition observed :: "string \<Rightarrow> string \<Rightarrow> RoutableSample list \<Rightarrow> (millis \<times> number) list" where
  "observed dev m ss = concat (map (\<lambda>s. if sa_inverter s = dev
     then map (\<lambda>x. (sa_time s, snd x)) (filter (\<lambda>x. fst x = m) (finite_readings s)) else []) ss)"

lemma values_of_simps [simp]:
  "values_of dev m [] = []" "values_of dev m (xs @ ys) = values_of dev m xs @ values_of dev m ys"
  "values_of dev m (r # rs) = (if sr_inverter r = dev \<and> sr_metric r = m then [sr_value r] else []) @ values_of dev m rs"
  by (simp_all add: values_of_def)

lemma remdups_adj_snoc:
  "remdups_adj (xs @ [x]) = (if xs \<noteq> [] \<and> last xs = x then remdups_adj xs else remdups_adj xs @ [x])"
  by (induction xs rule: remdups_adj.induct) auto

text \<open>The log so far is the observed values without repetitions, and the memory holds the last of them.\<close>

definition log_ok :: "string \<Rightarrow> string \<Rightarrow> number list \<Rightarrow> policy_state \<Rightarrow> number list \<Rightarrow> bool" where
  "log_ok dev m vs st out \<longleftrightarrow> out = remdups_adj vs
     \<and> js_get (ps_lastLogged st) (idOf dev m) = (if vs = [] then None else Some (last vs))"

lemma log_ok_reading:
  assumes "storage_class pol m = ConfigLog" and "CHR '' '' \<notin> set dev" "CHR '' '' \<notin> set j"
    and "log_ok dev m vs st out"
  shows "log_ok dev m (vs @ (if j = dev \<and> fst x = m then [snd x] else []))
    (fst (route_reading pol t j st x)) (out @ values_of dev m (config_of (snd (route_reading pol t j st x))))"
proof (cases "j = dev \<and> fst x = m")
  case True
  with assms(1,4) show ?thesis
    by (cases x) (auto simp: route_reading_def destinationOf_def admitConfigChange_def Let_def log_ok_def remdups_adj_snoc)
next
  case False
  then have "idOf j (fst x) \<noteq> idOf dev m" using idOf_inject [OF assms(3,2)] by auto
  then have "js_get (ps_lastLogged (fst (route_reading pol t j st x))) (idOf dev m)
      = js_get (ps_lastLogged st) (idOf dev m)"
    by (cases x) (auto simp: route_reading_def destinationOf_def admitConfigChange_def Let_def
        split: MetricStorage.split prod.split)
  moreover have "values_of dev m (config_of (snd (route_reading pol t j st x))) = []"
    using False by (cases x) (auto simp: route_reading_def destinationOf_def split: MetricStorage.split prod.split Destination.split)
  ultimately show ?thesis using assms(4) False by (auto simp: log_ok_def)
qed

lemma log_ok_readings:
  assumes "storage_class pol m = ConfigLog" and "CHR '' '' \<notin> set dev" "CHR '' '' \<notin> set j"
  shows "log_ok dev m vs st out \<Longrightarrow>
    log_ok dev m (vs @ (if j = dev then map snd (filter (\<lambda>x. fst x = m) rs) else []))
      (fst (run_steps (route_reading pol t j) st rs))
      (out @ values_of dev m (config_of (snd (run_steps (route_reading pol t j) st rs))))"
proof (induction rs arbitrary: vs st out)
  case (Cons x rs)
  from Cons.IH [OF log_ok_reading [OF assms Cons.prems, of x t]] show ?case
    by (auto simp: fst_andThen snd_andThen split: if_splits)
qed simp

lemma log_ok_evidence [simp]: "log_ok dev m vs (noteEvidence pol rs st) out = log_ok dev m vs st out"
  by (simp add: log_ok_def noteEvidence_def)

lemma observed_simps [simp]:
  "observed dev m [] = []"
  "observed dev m (s # ss) = (if sa_inverter s = dev
     then map (\<lambda>x. (sa_time s, snd x)) (filter (\<lambda>x. fst x = m) (finite_readings s)) else []) @ observed dev m ss"
  by (simp_all add: observed_def)

lemma log_ok_run:
  assumes "storage_class pol m = ConfigLog" and "CHR '' '' \<notin> set dev" "\<forall>s\<in>set ss. CHR '' '' \<notin> set (sa_inverter s)"
  shows "log_ok dev m vs st out \<Longrightarrow>
    log_ok dev m (vs @ map snd (observed dev m ss)) (fst (run_steps (route pol) st ss))
      (out @ values_of dev m (config_of (snd (run_steps (route pol) st ss))))"
  using assms(3)
proof (induction ss arbitrary: vs st out)
  case (Cons s ss)
  have "log_ok dev m (vs @ (if sa_inverter s = dev then map snd (filter (\<lambda>x. fst x = m) (finite_readings s)) else []))
      (fst (route pol st s)) (out @ values_of dev m (config_of (snd (route pol st s))))"
    unfolding route_def Let_def using Cons.prems
    by (intro log_ok_readings [OF assms(1,2)]) simp_all
  from Cons.IH [OF this] Cons.prems show ?case
    by (auto simp: fst_andThen snd_andThen comp_def)
qed simp

subsection \<open>The series\<close>

definition plain :: "policy \<Rightarrow> string \<Rightarrow> bool" where
  "plain pol m \<longleftrightarrow> storage_class pol m = Series \<and> js_get (po_group pol) m = None"

definition device_rows :: "string \<Rightarrow> StorageRow list \<Rightarrow> StorageRow list" where
  "device_rows dev rows = filter (\<lambda>r. sr_inverter r = dev) rows"

lemma device_rows_simps [simp]:
  "device_rows dev [] = []"
  "device_rows dev (xs @ ys) = device_rows dev xs @ device_rows dev ys"
  "device_rows dev (map (series_row j m) rs) = (if j = dev then map (series_row j m) rs else [])"
  by (simp_all add: device_rows_def series_row_def filter_map comp_def)

abbreviation tagged_row :: "string \<Rightarrow> string \<times> EncodedRow \<Rightarrow> StorageRow" where
  "tagged_row dev x \<equiv> series_row dev (fst x) (snd x)"

text \<open>The encoder of a device is where the readings \<open>xs\<close> routed to it have led, and its rows are theirs.\<close>

definition fed :: "policy \<Rightarrow> string \<Rightarrow> policy_state \<Rightarrow> StorageRow list \<Rightarrow> reading list \<Rightarrow> bool" where
  "fed pol dev st rows xs \<longleftrightarrow>
     encoder_of st dev = fst (run_steps (encode_step (policy_deps pol)) [] xs)
   \<and> device_rows dev rows = map (tagged_row dev) (snd (run_steps (encode_step (policy_deps pol)) [] xs))"

lemma readings_of_append [simp]: "readings_of m (xs @ ys) = readings_of m xs @ readings_of m ys"
  by (simp add: readings_of_def)

lemma fed_reading:
  assumes "fed pol dev st rows xs"
  shows "\<exists>ys. fed pol dev (fst (route_reading pol t j st x)) (rows @ series_of (snd (route_reading pol t j st x))) (xs @ ys)
    \<and> (\<forall>m. plain pol m \<longrightarrow> readings_of m ys = (if j = dev \<and> fst x = m then [(t, snd x)] else []))"
proof -
  obtain k v where x: "x = (k, v)" by force
  obtain dst st' where d: "destinationOf pol j k v st = (dst, st')" by force
  then have e: "ps_encoders st' = ps_encoders st"
    by (auto simp: destinationOf_def admitConfigChange_def Let_def split: MetricStorage.splits prod.splits if_splits)
  then have eo: "encoder_of st' i = encoder_of st i" for i by (simp add: encoder_of_def)
  show ?thesis
  proof (cases "dst = DestSeries")
    case False
    then have "\<not> plain pol k"
      using d by (auto simp: destinationOf_def plain_def hardwarePresent_def split: MetricStorage.splits if_splits option.splits)
    then show ?thesis
      using assms d False
      by (intro exI [of _ "[]"]) (cases dst; auto simp: x route_reading_def fed_def eo readings_of_def)
  next
    case True
    obtain r enc where o: "observe (policy_deps pol) k t v (encoder_of st j) = (r, enc)" by force
    have rr: "route_reading pol t j st x = (st'\<lparr>ps_encoders := js_set j enc (ps_encoders st')\<rparr>, map (\<lambda>e. ToSeries (series_row j k e)) r)"
      using d True o by (simp add: x route_reading_def eo)
    show ?thesis
    proof (cases "j = dev")
      case True
      from assms True have "fed pol j st rows xs" by simp
      then have "fed pol j (fst (route_reading pol t j st x)) (rows @ series_of (snd (route_reading pol t j st x))) (xs @ [(k, t, v)])"
        unfolding rr using o
        by (auto simp: fed_def encoder_of_def run_steps_append fst_andThen snd_andThen encode_step_simps)
      then show ?thesis
        using True by (intro exI [of _ "[(k, t, v)]"]) (auto simp: readings_of_def x)
    next
      case False
      then have "fed pol dev (fst (route_reading pol t j st x)) (rows @ series_of (snd (route_reading pol t j st x))) xs"
        using assms e by (auto simp: fed_def rr encoder_of_def)
      then show ?thesis using False by (intro exI [of _ "[]"]) (auto simp: readings_of_def)
    qed
  qed
qed

lemma fed_readings:
  "fed pol dev st rows xs \<Longrightarrow> \<exists>ys. fed pol dev (fst (run_steps (route_reading pol t j) st rs))
      (rows @ series_of (snd (run_steps (route_reading pol t j) st rs))) (xs @ ys)
    \<and> (\<forall>m. plain pol m \<longrightarrow> readings_of m ys
         = (if j = dev then map (\<lambda>x. (t, snd x)) (filter (\<lambda>x. fst x = m) rs) else []))"
proof (induction rs arbitrary: st rows xs)
  case Nil
  then show ?case by (intro exI [of _ "[]"]) (simp add: readings_of_def)
next
  case (Cons x rs)
  from fed_reading [OF Cons.prems, of t j x] obtain ys where
    y: "fed pol dev (fst (route_reading pol t j st x)) (rows @ series_of (snd (route_reading pol t j st x))) (xs @ ys)"
      "\<forall>m. plain pol m \<longrightarrow> readings_of m ys = (if j = dev \<and> fst x = m then [(t, snd x)] else [])" by blast
  from Cons.IH [OF y(1)] obtain zs where
    z: "fed pol dev (fst (run_steps (route_reading pol t j) st (x # rs)))
      (rows @ series_of (snd (run_steps (route_reading pol t j) st (x # rs)))) (xs @ ys @ zs)"
      "\<forall>m. plain pol m \<longrightarrow> readings_of m zs = (if j = dev then map (\<lambda>x. (t, snd x)) (filter (\<lambda>x. fst x = m) rs) else [])"
    by (auto simp: fst_andThen snd_andThen)
  from y(2) z show ?case by (intro exI [of _ "ys @ zs"]) auto
qed

lemma fed_evidence: "fed pol dev st rows xs \<Longrightarrow> fed pol dev (noteEvidence pol rs st) rows xs"
  by (simp add: fed_def noteEvidence_def encoder_of_def)

lemma fed_run:
  "fed pol dev st rows xs \<Longrightarrow> \<exists>ys. fed pol dev (fst (run_steps (route pol) st ss))
      (rows @ series_of (snd (run_steps (route pol) st ss))) (xs @ ys)
    \<and> (\<forall>m. plain pol m \<longrightarrow> readings_of m ys = observed dev m ss)"
proof (induction ss arbitrary: st rows xs)
  case Nil
  then show ?case by (intro exI [of _ "[]"]) (simp add: readings_of_def)
next
  case (Cons s ss)
  let ?rs = "finite_readings s"
  from fed_readings [OF fed_evidence [OF Cons.prems, of ?rs], of "sa_time s" "sa_inverter s" ?rs] obtain ys where
    y: "fed pol dev (fst (route pol st s)) (rows @ series_of (snd (route pol st s))) (xs @ ys)"
      "\<forall>m. plain pol m \<longrightarrow> readings_of m ys
         = (if sa_inverter s = dev then map (\<lambda>x. (sa_time s, snd x)) (filter (\<lambda>x. fst x = m) ?rs) else [])"
    by (auto simp: route_def Let_def)
  from Cons.IH [OF y(1)] obtain zs where
    z: "fed pol dev (fst (run_steps (route pol) st (s # ss)))
      (rows @ series_of (snd (run_steps (route pol) st (s # ss)))) (xs @ ys @ zs)"
      "\<forall>m. plain pol m \<longrightarrow> readings_of m zs = observed dev m ss"
    by (auto simp: fst_andThen snd_andThen)
  from y(2) z show ?case by (intro exI [of _ "ys @ zs"]) auto
qed

lemma encoders_distinct:
  "distinct (map fst (ps_encoders st)) \<Longrightarrow> distinct (map fst (ps_encoders (fst (run_steps (route pol) st ss))))"
proof -
  have reading: "distinct (map fst (ps_encoders (fst (route_reading pol t j st x))))"
    if "distinct (map fst (ps_encoders st))" for t j st x
    using that by (cases x) (auto simp: route_reading_def destinationOf_def admitConfigChange_def Let_def distinct_update
        split: Destination.split prod.split MetricStorage.split)
  have readings: "distinct (map fst (ps_encoders (fst (run_steps (route_reading pol t j) st rs))))"
    if "distinct (map fst (ps_encoders st))" for t j st rs
    using that reading by (induction rs arbitrary: st) (simp_all add: fst_andThen)
  show "distinct (map fst (ps_encoders st)) \<Longrightarrow> distinct (map fst (ps_encoders (fst (run_steps (route pol) st ss))))"
  proof (induction ss arbitrary: st)
    case (Cons s ss)
    have "distinct (map fst (ps_encoders (fst (route pol st s))))"
      unfolding route_def Let_def by (rule readings) (use Cons.prems in \<open>simp add: noteEvidence_def\<close>)
    from Cons.IH [OF this] show ?case by (simp add: fst_andThen)
  qed simp
qed

lemma close_device_rows:
  assumes "distinct (map fst (ps_encoders st))"
  shows "device_rows dev (snd (close_policy pol till st))
    = map (tagged_row dev) (fst (close_encoder (policy_deps pol) till (encoder_of st dev)))"
proof -
  let ?f = "\<lambda>i enc. map (tagged_row i) (fst (close_encoder (policy_deps pol) till enc))"
  have one: "device_rows dev (?f i enc) = (if i = dev then ?f i enc else [])" for i enc
    by (auto simp: device_rows_def series_row_def filter_map comp_def)
  have "device_rows dev (concat (map (\<lambda>(i, enc). ?f i enc) es)) = (case js_get es dev of None \<Rightarrow> [] | Some e \<Rightarrow> ?f dev e)"
    if "distinct (map fst es)" for es
    using that
  proof (induction es)
    case (Cons e es)
    obtain i enc where e: "e = (i, enc)" by force
    have "js_get es i = None" using Cons.prems by (simp add: e map_of_eq_None_iff)
    with Cons one show ?case by (auto simp: e)
  qed simp
  from this [OF assms] show ?thesis
    by (auto simp: close_policy_def encoder_of_def case_prod_unfold close_encoder_def split: option.split)
qed

text \<open>What is persisted of the series when the samples \<open>ss\<close> are routed and the policy is closed.\<close>

definition persisted :: "policy \<Rightarrow> RoutableSample list \<Rightarrow> millis \<Rightarrow> StorageRow list" where
  "persisted pol ss till = (case run_steps (route pol) new_policy_state ss of (st, out) \<Rightarrow>
     series_of out @ snd (close_policy pol till st))"

lemma persisted_stored:
  "\<exists>xs. device_rows dev (persisted pol ss till) = map (tagged_row dev) (stored (policy_deps pol) xs till)
    \<and> (\<forall>m. plain pol m \<longrightarrow> readings_of m xs = observed dev m ss)"
proof -
  obtain st out where run: "run_steps (route pol) new_policy_state ss = (st, out)" by force
  have "fed pol dev new_policy_state [] []" by (simp add: fed_def new_policy_state_def encoder_of_def)
  from fed_run [OF this, of ss] obtain xs where
    x: "fed pol dev st (series_of out) xs" "\<forall>m. plain pol m \<longrightarrow> readings_of m xs = observed dev m ss"
    by (auto simp: run)
  have "distinct (map fst (ps_encoders (fst (run_steps (route pol) new_policy_state ss))))"
    by (rule encoders_distinct) (simp add: new_policy_state_def)
  then have "distinct (map fst (ps_encoders st))" by (simp add: run)
  note c = close_device_rows [OF this, of dev pol till]
  obtain enc rows where "run_steps (encode_step (policy_deps pol)) [] xs = (enc, rows)" by force
  with x c show ?thesis by (intro exI [of _ xs]) (auto simp: persisted_def run fed_def stored_def)
qed


subsection \<open>What the policy promises\<close>

lemma fold_js_set_get:
  assumes "distinct (map mkey ms)" "m \<in> set ms"
  shows "js_get (fold (\<lambda>d. js_set (mkey d) (f d)) ms s0) (mkey m) = Some (f m)"
  using assms
proof (induction ms arbitrary: s0)
  case (Cons d ms)
  have other: "k \<notin> mkey ` set ms \<Longrightarrow> js_get (fold (\<lambda>d. js_set (mkey d) (f d)) ms s0) k = js_get s0 k" for s0 k
    by (induction ms arbitrary: s0) auto
  show ?case using Cons other by (cases "m = d") auto
qed simp

lemma fold_group_none:
  assumes "\<forall>d\<in>set ms. mkey d = k \<longrightarrow> optional_group roles d = None"
  shows "js_get (fold (\<lambda>def g. case optional_group roles def of
     Some p \<Rightarrow> (if p = [] then g else js_set (mkey def) p g) | None \<Rightarrow> g) ms s0) k = js_get s0 k"
  using assms
proof (induction ms arbitrary: s0)
  case (Cons d ms)
  then show ?case by (cases "optional_group roles d") auto
qed simp

lemma policy_of_metric:
  assumes "distinct (map mkey ms)" "m \<in> set ms"
  shows "storage_class (createStoragePolicy ms roles) (mkey m) = resolveStorage m"
    and "deadbandFor (policy_deps (createStoragePolicy ms roles)) (mkey m) = resolveDeadband m"
  using fold_js_set_get [OF assms, of resolveStorage "[]"] fold_js_set_get [OF assms, of resolveDeadband "[]"]
  by (simp_all add: storage_class_def createStoragePolicy_def policy_deps_def default_deps_def Let_def)

lemma plain_metric:
  assumes "distinct (map mkey ms)" "m \<in> set ms" "resolveStorage m = Series"
    and "optional_group DEFAULT_OPTIONAL_ROLES m = None"
  shows "plain (createStoragePolicy ms None) (mkey m)"
proof -
  have "\<forall>d\<in>set ms. mkey d = mkey m \<longrightarrow> optional_group DEFAULT_OPTIONAL_ROLES d = None"
    using assms by (auto simp: distinct_map dest: inj_onD)
  from fold_group_none [OF this, of "[]"] show ?thesis
    using policy_of_metric(1) [OF assms(1,2), of None] assms(3)
    by (simp add: plain_def createStoragePolicy_def Let_def)
qed

lemma policy_deps_ok: "deps_ok (policy_deps pol)"
  by (simp add: deps_ok_def policy_deps_def default_deps_def)

text \<open>The policy is a stage too: a series row is a held interval inside one bucket, a change-log row has
  no duration.\<close>

definition storage_row_ok :: "routed \<Rightarrow> bool" where
  "storage_row_ok r = (case r of
     ToSeries x \<Rightarrow> (\<exists>d. sr_dur x = Some d \<and> 0 < d \<and> sr_time x div 60000 = (sr_time x + d - 1) div 60000)
   | ToConfig x \<Rightarrow> sr_dur x = None)"

lemma one_bucket: "row_ok (default_deps f) e \<Longrightarrow> er_time e div 60000 = (er_time e + er_dur e - 1) div 60000"
proof -
  assume "row_ok (default_deps f) e"
  then have d: "0 < er_dur e" "er_time e + er_dur e \<le> er_time e div 60000 * 60000 + 60000"
    by (simp_all add: row_ok_def bucketEnd_def default_deps_def)
  let ?q = "er_time e div 60000"
  have "?q * 60000 \<le> er_time e" using div_mult_mod_eq [of "er_time e" 60000] pos_mod_sign [of 60000 "er_time e"] by linarith
  with d show ?thesis
    by (intro int_div_pos_eq [symmetric, where r = "er_time e + er_dur e - 1 - ?q * 60000"]) auto
qed

lemma series_row_ok: "row_ok (default_deps f) e \<Longrightarrow> storage_row_ok (ToSeries (series_row dev m e))"
  using one_bucket by (auto simp: storage_row_ok_def series_row_def row_ok_def)

lemma route_reading_ok: "r \<in> set (snd (route_reading pol t dev st x)) \<Longrightarrow> storage_row_ok r"
proof -
  assume r: "r \<in> set (snd (route_reading pol t dev st x))"
  obtain k v where x: "x = (k, v)" by force
  have obs: "row_ok (policy_deps pol) e" if "e \<in> set (fst (observe (policy_deps pol) k t v enc))" for e enc
    using enc.feed_ok [of "(k, e)" _ enc "(k, t, v)"] that
    by (simp add: encode_step_simps policy_deps_def)
  obtain dst st' where d: "destinationOf pol dev k v st = (dst, st')" by force
  show ?thesis
  proof (cases dst)
    case DestSeries
    with r d obtain e where e: "r = ToSeries (series_row dev k e)"
        "e \<in> set (fst (observe (policy_deps pol) k t v (encoder_of st' dev)))"
      by (auto simp: x route_reading_def split: prod.splits)
    have "row_ok (policy_deps pol) e" by (rule obs [OF e(2)])
    then show ?thesis unfolding e(1) policy_deps_def by (rule series_row_ok)
  qed (use r d in \<open>auto simp: x route_reading_def storage_row_ok_def\<close>)
qed

lemma route_ok: "r \<in> set (snd (route pol st s)) \<Longrightarrow> storage_row_ok r"
proof -
  have "r \<in> set (snd (run_steps (route_reading pol t dev) st rs)) \<Longrightarrow> storage_row_ok r" for t dev st rs
    by (induction rs arbitrary: st) (auto simp: snd_andThen intro: route_reading_ok)
  then show "r \<in> set (snd (route pol st s)) \<Longrightarrow> storage_row_ok r" by (simp add: route_def Let_def)
qed

lemma close_policy_ok: "r \<in> set (snd (close_policy pol till st)) \<Longrightarrow> storage_row_ok (ToSeries r)"
  using close_rows_ok series_row_ok by (fastforce simp: close_policy_def policy_deps_def)

interpretation pol: row_stage "route pol" "\<lambda>st. map ToSeries (snd (close_policy pol till st))" storage_row_ok
  for pol till
  by unfold_locales (auto intro: route_ok close_policy_ok)

text \<open>C9. End to end, from poll to table: for a metric stored as a series that is not optional
  hardware, when the readings of it of a device come in strictly increasing time, all before the
  shutdown, every finite one of them is covered by a persisted interval of that device and metric;
  the interval's value is the reading, or differs from it by less than the metric's declared
  deadband, and the latter only for a metric that is neither a counter nor a status. (Readings of
  optional hardware that has never been seen are dropped on purpose.)\<close>

theorem history_within_deadband:
  assumes "distinct (map mkey ms)" and "m \<in> set ms" and "resolveStorage m = Series"
    and "optional_group DEFAULT_OPTIONAL_ROLES m = None"
    and "sorted_wrt (\<lambda>x y. fst x < fst y) (observed dev (mkey m) ss)"
    and "\<forall>(t, v)\<in>set (observed dev (mkey m) ss). t < till"
    and "(t, v) \<in> set (observed dev (mkey m) ss)"
  shows "\<exists>r d. r \<in> set (persisted (createStoragePolicy ms None) ss till)
    \<and> sr_inverter r = dev \<and> sr_metric r = mkey m \<and> sr_dur r = Some d
    \<and> sr_time r \<le> t \<and> t < sr_time r + d
    \<and> (v = sr_value r \<or> (\<exists>b. mdeadband m = Some b \<and> \<bar>v - sr_value r\<bar> < b
         \<and> statedKind m \<noteq> Some Cumulative \<and> statedKind m \<noteq> Some StatusKind))"
proof -
  let ?pol = "createStoragePolicy ms None"
  obtain xs where x: "device_rows dev (persisted ?pol ss till) = map (tagged_row dev) (stored (policy_deps ?pol) xs till)"
    and R: "readings_of (mkey m) xs = observed dev (mkey m) ss"
    using persisted_stored plain_metric [OF assms(1-4)] by blast
  note st = stored_faithful [OF policy_deps_ok, of "mkey m" xs till, unfolded R, OF assms(5,6)]
  obtain e where e: "(mkey m, e) \<in> set (stored (policy_deps ?pol) xs till)" "covers e t"
    using st(2) assms(7) by blast
  have "\<not> exceeds v (er_value e) (resolveDeadband m)"
    using st(3) [OF assms(7) e] by (simp add: policy_of_metric(2) [OF assms(1,2)])
  then have near: "v = er_value e \<or> (\<exists>b. resolveDeadband m = Some b \<and> \<bar>v - er_value e\<bar> < b)"
    by (auto simp: exceeds_def split: if_splits option.splits)
  have "series_row dev (mkey m) e \<in> set (device_rows dev (persisted ?pol ss till))"
    unfolding x using e(1) by force
  then have "series_row dev (mkey m) e \<in> set (persisted ?pol ss till)" by (simp add: device_rows_def)
  then show ?thesis
    using near e(2) deadband_only_series
    by (intro exI [of _ "series_row dev (mkey m) e"] exI [of _ "er_dur e"])
      (auto simp: series_row_def covers_def)
qed

definition volt_metric :: MetricBase where
  "volt_metric = (base_metric ''u'' None None)\<lparr>mdeadband := Some 1\<rparr>"

definition two_samples :: "RoutableSample list" where
  "two_samples = [\<lparr>sa_time = 1000, sa_inverter = ''a'', sa_metrics = [(''u'', 230)]\<rparr>,
     \<lparr>sa_time = 2000, sa_inverter = ''a'', sa_metrics = [(''u'', 2304/10)]\<rparr>]"

lemma small_finite: "is_finite 230" "is_finite (2304/10)" "is_finite 0" "is_finite 1" "is_finite 2"
  by (simp_all add: is_finite_def max_double_def)

theorem history_within_deadband_witness:
  "\<exists>r. r \<in> set (persisted (createStoragePolicy [volt_metric] None) two_samples 5000)
     \<and> sr_time r \<le> 2000 \<and> \<bar>2304/10 - sr_value r\<bar> < 1"
proof -
  have o: "observed ''a'' ''u'' two_samples = [(1000, 230), (2000, 2304/10)]"
    using small_finite(1,2) by (simp add: two_samples_def finite_readings_def)
  have m: "mkey volt_metric = ''u''" "mdeadband volt_metric = Some 1" "resolveStorage volt_metric = Series"
    "optional_group DEFAULT_OPTIONAL_ROLES volt_metric = None"
    by (simp_all add: volt_metric_def base_metric_def resolveStorage_def statedKind_def roleKind_def optional_group_def)
  from history_within_deadband [of "[volt_metric]" volt_metric "''a''" two_samples 5000 2000 "2304/10", unfolded m o]
  obtain r where "r \<in> set (persisted (createStoragePolicy [volt_metric] None) two_samples 5000)" "sr_time r \<le> 2000"
    "2304/10 = sr_value r \<or> (\<exists>b. Some 1 = Some b \<and> \<bar>2304/10 - sr_value r\<bar> < b)"
    by auto
  then show ?thesis by auto
qed

text \<open>The configuration log is a history of changes: over any run of samples, the rows logged for a
  setting of a device are exactly its finite readings with consecutive repetitions removed, so a
  first value and a return to an earlier one are both rows and an unchanged one never is.\<close>

theorem config_log_is_change_log:
  assumes "distinct (map mkey ms)" and "m \<in> set ms" and "resolveStorage m = ConfigLog"
    and "CHR '' '' \<notin> set dev" and "\<forall>s\<in>set ss. CHR '' '' \<notin> set (sa_inverter s)"
  shows "values_of dev (mkey m) (config_of (snd (run_steps (route (createStoragePolicy ms roles)) new_policy_state ss)))
    = remdups_adj (map snd (observed dev (mkey m) ss))"
proof -
  let ?pol = "createStoragePolicy ms roles"
  have "storage_class ?pol (mkey m) = ConfigLog" using policy_of_metric(1) [OF assms(1,2)] assms(3) by simp
  moreover have "log_ok dev (mkey m) [] new_policy_state []" by (simp add: log_ok_def new_policy_state_def)
  ultimately show ?thesis
    using log_ok_run [where pol = ?pol and m = "mkey m" and dev = dev and ss = ss and st = new_policy_state and vs = "[]" and out = "[]"] assms(4,5) by (simp add: log_ok_def)
qed

definition slot_metric :: MetricBase where
  "slot_metric = (base_metric ''s'' None None)\<lparr>maccess := ReadWrite\<rparr>"

definition slot_samples :: "RoutableSample list" where
  "slot_samples = map (\<lambda>(t, v). \<lparr>sa_time = t, sa_inverter = ''a'', sa_metrics = [(''s'', v)]\<rparr>)
     [(1, 1), (2, 1), (3, 2), (4, 2), (5, 1)]"

theorem config_log_is_change_log_witness:
  "values_of ''a'' ''s'' (config_of (snd (run_steps (route (createStoragePolicy [slot_metric] None)) new_policy_state slot_samples)))
     = [1, 2, 1]"
proof -
  have m: "mkey slot_metric = ''s''" "resolveStorage slot_metric = ConfigLog"
    by (simp_all add: slot_metric_def base_metric_def resolveStorage_def statedKind_def roleKind_def)
  have o: "observed ''a'' ''s'' slot_samples = [(1, 1), (2, 1), (3, 2), (4, 2), (5, 1)]"
    using small_finite(4,5) by (simp add: slot_samples_def finite_readings_def)
  have "\<forall>s\<in>set slot_samples. CHR '' '' \<notin> set (sa_inverter s)" by (simp add: slot_samples_def)
  from config_log_is_change_log [of "[slot_metric]" slot_metric "''a''" slot_samples None, unfolded m o, OF _ _ _ _ this]
  show ?thesis by simp
qed

end
