(* ===== verification/Control_Writer.thy ===== *)
theory Control_Writer
  imports Capabilities
begin

text \<open>
  The write funnel: \<^verbatim>\<open>packages/inverter-core/src/entities.ts\<close>, \<open>validateWrite\<close> of
  \<^verbatim>\<open>apps/server/src/inverter/inverter.ts\<close>, the composite-control interpreter \<^verbatim>\<open>control-expr.ts\<close>, its
  store \<^verbatim>\<open>control-store.ts\<close> and \<^verbatim>\<open>control-writer.ts\<close>.

  The injected collaborators are the fields of \<open>control_io\<close>: a store over a state \<open>'c\<close> whose write
  may be refused, and a device over a state \<open>'d\<close> whose write may fail with a message. An awaited
  rejection is \<open>Inl\<close>. Messages carry the data they name, not their wording.
\<close>

subsection \<open>Entities and validation\<close>

datatype EntityValueType = NumberValue | EnumValue

record EntityConstraint =
  ec_writable :: bool
  ec_valueType :: EntityValueType
  ec_min :: "number option"
  ec_max :: "number option"
  ec_enumValues :: "int list option"

definition entityConstraint :: "'a MetricBase_scheme \<Rightarrow> EntityConstraint" where
  "entityConstraint def =
     (let writable = (maccess def = ReadWrite \<and> mtype def \<noteq> RAW)
      in case menum def of
           Some labels \<Rightarrow> \<lparr>ec_writable = writable, ec_valueType = EnumValue, ec_min = None, ec_max = None,
             ec_enumValues = Some (map fst labels)\<rparr>
         | None \<Rightarrow> \<lparr>ec_writable = writable, ec_valueType = NumberValue,
             ec_min = map_option rmin (mrange def), ec_max = map_option rmax (mrange def),
             ec_enumValues = None\<rparr>)"

definition writableMetrics :: "InverterProfile \<Rightarrow> MetricDef list" where
  "writableMetrics profile = filter (\<lambda>m. ec_writable (entityConstraint m)) (pmetrics profile)"

definition metricByKey :: "InverterProfile \<Rightarrow> (string, MetricDef) js_map" where
  "metricByKey profile = fold (\<lambda>m. js_set (mkey m) m) (pmetrics profile) []"

datatype refusal =
    UnknownEntity string
  | EntityNotWritable string
  | NotInEnum "int list"
  | BelowMinimum number
  | AboveMaximum number

definition validateWrite :: "InverterProfile \<Rightarrow> string \<Rightarrow> number \<Rightarrow> refusal option" where
  "validateWrite profile key v =
     (case js_get (metricByKey profile) key of
        None \<Rightarrow> Some (UnknownEntity key)
      | Some def \<Rightarrow>
          (let c = entityConstraint def
           in if \<not> ec_writable c then Some (EntityNotWritable key)
              else if ec_valueType c = EnumValue
              then (case ec_enumValues c of
                  Some vs \<Rightarrow> (if v \<in> of_int ` set vs then None else Some (NotInEnum vs))
                | None \<Rightarrow> Some (NotInEnum []))
              else (case ec_min c of
                  Some lo \<Rightarrow> (if v < lo then Some (BelowMinimum lo)
                    else (case ec_max c of Some hi \<Rightarrow> (if v > hi then Some (AboveMaximum hi) else None) | None \<Rightarrow> None))
                | None \<Rightarrow> (case ec_max c of Some hi \<Rightarrow> (if v > hi then Some (AboveMaximum hi) else None) | None \<Rightarrow> None))))"

subsection \<open>The store of engaged locks\<close>

record ControlLock =
  previousValue :: number
  lockedAt :: string

type_synonym ControlState = "(string, ControlLock) js_map"

definition controlStateKey :: "string \<Rightarrow> string \<Rightarrow> string" where
  "controlStateKey profileId metricKey = profileId @ '':'' @ metricKey"

text \<open>What the interpreter relies on: a read shows the stored state, a successful write replaces it, a
  refused one leaves it.\<close>

locale control_store =
  fixes get :: "'c \<Rightarrow> ControlState \<times> 'c" and put :: "ControlState \<Rightarrow> 'c \<Rightarrow> bool \<times> 'c"
    and view :: "'c \<Rightarrow> ControlState"
  assumes get_value: "fst (get c) = view c" and get_view: "view (snd (get c)) = view c"
    and put_ok: "put s c = (True, c') \<Longrightarrow> view c' = s"
    and put_refused: "put s c = (False, c') \<Longrightarrow> view c' = view c"

text \<open>\<open>createControlStore\<close>: the settings row, a cache in front of it, and whether each coming write of
  the row succeeds.\<close>

record control_cache =
  cc_cache :: "ControlState option"
  cc_row :: "ControlState option"
  cc_writes :: "bool list"

definition store_get :: "control_cache \<Rightarrow> ControlState \<times> control_cache" where
  "store_get c = (case cc_cache c of
     Some s \<Rightarrow> (s, c)
   | None \<Rightarrow> (let s = (case cc_row c of Some r \<Rightarrow> r | None \<Rightarrow> []) in (s, c\<lparr>cc_cache := Some s\<rparr>)))"

definition store_set :: "ControlState \<Rightarrow> control_cache \<Rightarrow> bool \<times> control_cache" where
  "store_set s c = (case cc_writes c of
     False # rest \<Rightarrow> (False, c\<lparr>cc_writes := rest\<rparr>)
   | ws \<Rightarrow> (True, c\<lparr>cc_writes := tl ws, cc_row := Some s, cc_cache := Some s\<rparr>))"

definition store_view :: "control_cache \<Rightarrow> ControlState" where
  "store_view c = (case cc_cache c of Some s \<Rightarrow> s | None \<Rightarrow> (case cc_row c of Some r \<Rightarrow> r | None \<Rightarrow> []))"

interpretation db_store: control_store store_get store_set store_view
  by unfold_locales
    (auto simp: store_get_def store_set_def store_view_def Let_def split: option.splits list.splits bool.splits)

subsection \<open>The interpreter\<close>

datatype control_error =
    NotAControl string
  | LiveUnknown string
  | ControlRejected refusal
  | ToggleValue number
  | StoreFailed
  | DeviceFailed string
  | PresetStopped string string "(string \<times> number) list"
  | NotStarted

record ('c, 'd) control_io =
  io_get :: "'c \<Rightarrow> ControlState \<times> 'c"
  io_put :: "ControlState \<Rightarrow> 'c \<Rightarrow> bool \<times> 'c"
  io_write :: "string \<Rightarrow> number \<Rightarrow> 'd \<Rightarrow> string option \<times> 'd"
  io_readLive :: "string \<Rightarrow> number option"
  io_profile :: InverterProfile
  io_now :: string

type_synonym ('c, 'd) outcome = "(control_error + unit) \<times> 'c \<times> 'd"

definition engageSnapshot :: "('c, 'd) control_io \<Rightarrow> string \<Rightarrow> string \<Rightarrow> ControlState \<Rightarrow> number \<Rightarrow> 'c \<Rightarrow> 'd \<Rightarrow> ('c, 'd) outcome" where
  "engageSnapshot io target stateKey state lockedValue c d =
     (case io_readLive io target of
        None \<Rightarrow> (Inl (LiveUnknown target), c, d)
      | Some current \<Rightarrow>
          (case io_put io (js_set stateKey \<lparr>previousValue = current, lockedAt = io_now io\<rparr> state) c of
             (False, c') \<Rightarrow> (Inl StoreFailed, c', d)
           | (True, c') \<Rightarrow>
               (case io_write io target lockedValue d of
                  (None, d') \<Rightarrow> (Inr (), c', d')
                | (Some err, d') \<Rightarrow>
                    (case io_put io state c' of
                       (False, c'') \<Rightarrow> (Inl StoreFailed, c'', d')
                     | (True, c'') \<Rightarrow> (Inl (DeviceFailed err), c'', d')))))"

definition releaseSnapshot :: "('c, 'd) control_io \<Rightarrow> string \<Rightarrow> string \<Rightarrow> ControlState \<Rightarrow> ControlLock \<Rightarrow> 'c \<Rightarrow> 'd \<Rightarrow> ('c, 'd) outcome" where
  "releaseSnapshot io target stateKey state engaged c d =
     (case validateWrite (io_profile io) target (previousValue engaged) of
        Some r \<Rightarrow> (Inl (ControlRejected r), c, d)
      | None \<Rightarrow>
          (case io_write io target (previousValue engaged) d of
             (Some err, d') \<Rightarrow> (Inl (DeviceFailed err), c, d')
           | (None, d') \<Rightarrow>
               (case io_put io (js_delete stateKey state) c of
                  (False, c') \<Rightarrow> (Inl StoreFailed, c', d')
                | (True, c') \<Rightarrow> (Inr (), c', d'))))"

definition snapshotToggle :: "('c, 'd) control_io \<Rightarrow> string \<Rightarrow> string \<Rightarrow> number \<Rightarrow> number \<Rightarrow> 'c \<Rightarrow> 'd \<Rightarrow> ('c, 'd) outcome" where
  "snapshotToggle io key target lockedValue v c d =
     (let stateKey = controlStateKey (pid (io_profile io)) key
      in case io_get io c of (state, c') \<Rightarrow>
           (if v = 1 then
              (case js_get state stateKey of
                 None \<Rightarrow> engageSnapshot io target stateKey state lockedValue c' d
               | Some _ \<Rightarrow> (Inr (), c', d))
            else if v = 0 then
              (case js_get state stateKey of
                 Some engaged \<Rightarrow> releaseSnapshot io target stateKey state engaged c' d
               | None \<Rightarrow> (Inr (), c', d))
            else (Inl (ToggleValue v), c', d)))"

fun preflightPreset :: "InverterProfile \<Rightarrow> (string \<times> number) list \<Rightarrow> refusal option" where
  "preflightPreset profile [] = None"
| "preflightPreset profile ((target, v) # ws) =
     (case validateWrite profile target v of Some r \<Rightarrow> Some r | None \<Rightarrow> preflightPreset profile ws)"

fun applyPreset :: "('c, 'd) control_io \<Rightarrow> (string \<times> number) list \<Rightarrow> (string \<times> number) list \<Rightarrow> 'd
    \<Rightarrow> (control_error + unit) \<times> 'd" where
  "applyPreset io [] applied d = (Inr (), d)"
| "applyPreset io ((target, v) # ws) applied d =
     (case io_write io target v d of
        (Some err, d') \<Rightarrow> (Inl (PresetStopped target err applied), d')
      | (None, d') \<Rightarrow> applyPreset io ws (applied @ [(target, v)]) d')"

definition preset :: "('c, 'd) control_io \<Rightarrow> (string \<times> number) list \<Rightarrow> number \<Rightarrow> 'c \<Rightarrow> 'd \<Rightarrow> ('c, 'd) outcome" where
  "preset io writes v c d =
     (if v = 0 then (Inr (), c, d)
      else (case preflightPreset (io_profile io) writes of
        Some r \<Rightarrow> (Inl (ControlRejected r), c, d)
      | None \<Rightarrow> (case applyPreset io writes [] d of (r, d') \<Rightarrow> (r, c, d'))))"

definition executeControl :: "('c, 'd) control_io \<Rightarrow> 'a MetricBase_scheme \<Rightarrow> number \<Rightarrow> 'c \<Rightarrow> 'd \<Rightarrow> ('c, 'd) outcome" where
  "executeControl io def v c d = (case mcontrol def of
     None \<Rightarrow> (Inl (NotAControl (mkey def)), c, d)
   | Some (SnapshotToggle target lockedValue) \<Rightarrow> snapshotToggle io (mkey def) target lockedValue v c d
   | Some (Preset writes) \<Rightarrow> preset io writes v c d)"

definition controlValueFrom :: "string \<Rightarrow> ControlState \<Rightarrow> 'a MetricBase_scheme \<Rightarrow> number" where
  "controlValueFrom profileId state def = (case mcontrol def of
     Some (SnapshotToggle _ _) \<Rightarrow>
       (if js_get state (controlStateKey profileId (mkey def)) \<noteq> None then 1 else 0)
   | _ \<Rightarrow> 0)"

definition injectControlValues :: "('c, 'd) control_io \<Rightarrow> MetricValues \<Rightarrow> 'c \<Rightarrow> MetricValues \<times> 'c" where
  "injectControlValues io sample c =
     (let controls = filter (\<lambda>m. mcontrol m \<noteq> None) (pmetrics (io_profile io))
      in if controls = [] then (sample, c)
         else (case io_get io c of (state, c') \<Rightarrow>
           (fold (\<lambda>def. js_set (mkey def) (controlValueFrom (pid (io_profile io)) state def)) controls sample, c')))"

text \<open>The funnel; \<open>started\<close> is whether the runtime has built a source.\<close>

definition control_write :: "('c, 'd) control_io \<Rightarrow> bool \<Rightarrow> string \<Rightarrow> number \<Rightarrow> 'c \<Rightarrow> 'd \<Rightarrow> ('c, 'd) outcome" where
  "control_write io started key v c d =
     (if \<not> started then (Inl NotStarted, c, d)
      else (case validateWrite (io_profile io) key v of
        Some r \<Rightarrow> (Inl (ControlRejected r), c, d)
      | None \<Rightarrow>
          (case js_get (metricByKey (io_profile io)) key of
             Some def \<Rightarrow>
               (if mcontrol def \<noteq> None then executeControl io def v c d
                else (case io_write io key v d of
                  (None, d') \<Rightarrow> (Inr (), c, d') | (Some e, d') \<Rightarrow> (Inl (DeviceFailed e), c, d')))
           | None \<Rightarrow>
               (case io_write io key v d of
                  (None, d') \<Rightarrow> (Inr (), c, d') | (Some e, d') \<Rightarrow> (Inl (DeviceFailed e), c, d')))))"

subsection \<open>Validation\<close>

lemma metricByKey_get: "js_get (metricByKey p) k = Some m \<Longrightarrow> m \<in> set (pmetrics p) \<and> mkey m = k"
proof -
  have "js_get (fold (\<lambda>m. js_set (mkey m) m) ms s0) k = Some m \<Longrightarrow>
    (m \<in> set ms \<and> mkey m = k) \<or> js_get s0 k = Some m" for ms s0
  proof (induction ms arbitrary: s0)
    case (Cons x ms)
    from Cons.IH [of "js_set (mkey x) x s0"] Cons.prems show ?case by (auto split: if_splits)
  qed simp
  from this [of "pmetrics p" "[]"] show "js_get (metricByKey p) k = Some m \<Longrightarrow> m \<in> set (pmetrics p) \<and> mkey m = k"
    by (simp add: metricByKey_def)
qed

lemma validateWrite_None:
  assumes "validateWrite p key v = None"
  shows "\<exists>m\<in>set (pmetrics p). mkey m = key \<and> maccess m = ReadWrite \<and> mtype m \<noteq> RAW
    \<and> (case menum m of Some labels \<Rightarrow> v \<in> of_int ` fst ` set labels
       | None \<Rightarrow> (case mrange m of Some r \<Rightarrow> rmin r \<le> v \<and> v \<le> rmax r | None \<Rightarrow> True))"
proof -
  from assms obtain m where m: "js_get (metricByKey p) key = Some m"
    unfolding validateWrite_def by (cases "js_get (metricByKey p) key") simp_all
  have "maccess m = ReadWrite \<and> mtype m \<noteq> RAW \<and> (case menum m of Some labels \<Rightarrow> v \<in> of_int ` fst ` set labels
       | None \<Rightarrow> (case mrange m of Some r \<Rightarrow> rmin r \<le> v \<and> v \<le> rmax r | None \<Rightarrow> True))"
    using assms m
    by (cases "menum m"; cases "mrange m") (auto simp: validateWrite_def entityConstraint_def Let_def split: if_splits)
  with metricByKey_get [OF m] show ?thesis by blast
qed

subsection \<open>Toggles over any store that keeps the contract\<close>

definition on_store :: "('c \<Rightarrow> ControlState \<times> 'c) \<Rightarrow> (ControlState \<Rightarrow> 'c \<Rightarrow> bool \<times> 'c) \<Rightarrow> ('c, 'd) control_io \<Rightarrow> bool" where
  "on_store get put io \<longleftrightarrow> io_get io = get \<and> io_put io = put"

context control_store
begin

lemma toggle_read:
  assumes "on_store get put io"
  obtains c1 where "io_get io c = (view c, c1)" "view c1 = view c"
  using assms get_value [of c] get_view [of c] by (cases "get c") (auto simp: on_store_def)

lemma put_cases:
  assumes "on_store get put io"
  obtains (stored) c' where "io_put io s c = (True, c')" "view c' = s"
    | (refused) c' where "io_put io s c = (False, c')" "view c' = view c"
  using assms put_ok [of s c] put_refused [of s c]
  by (cases "put s c"; cases "fst (put s c)") (auto simp: on_store_def)

lemma lock_success:
  assumes "on_store get put io" and "js_get (view c) (controlStateKey (pid (io_profile io)) k) = None"
    and "snapshotToggle io k target locked 1 c d = (Inr (), c', d')"
  shows "\<exists>current. io_readLive io target = Some current \<and> io_write io target locked d = (None, d')
    \<and> view c' = js_set (controlStateKey (pid (io_profile io)) k) \<lparr>previousValue = current, lockedAt = io_now io\<rparr> (view c)"
proof -
  obtain c1 where c1: "io_get io c = (view c, c1)" by (rule toggle_read [OF assms(1)])
  with assms(2,3) obtain current where cur: "io_readLive io target = Some current"
    by (auto simp: snapshotToggle_def Let_def engageSnapshot_def split: option.splits)
  let ?s = "js_set (controlStateKey (pid (io_profile io)) k) \<lparr>previousValue = current, lockedAt = io_now io\<rparr> (view c)"
  show ?thesis
  proof (rule put_cases [OF assms(1), of ?s c1])
    fix c2 assume p: "io_put io ?s c1 = (True, c2)" "view c2 = ?s"
    with assms(2,3) c1 cur show ?thesis
      by (auto simp: snapshotToggle_def Let_def engageSnapshot_def split: prod.splits option.splits bool.splits)
  next
    fix c2 assume "io_put io ?s c1 = (False, c2)"
    with assms(2,3) c1 cur show ?thesis
      by (auto simp: snapshotToggle_def Let_def engageSnapshot_def)
  qed
qed

lemma unlock_success:
  assumes "on_store get put io" and "js_get (view c) (controlStateKey (pid (io_profile io)) k) = Some l"
    and "snapshotToggle io k target locked 0 c d = (Inr (), c', d')"
  shows "io_write io target (previousValue l) d = (None, d')
    \<and> view c' = js_delete (controlStateKey (pid (io_profile io)) k) (view c)
    \<and> validateWrite (io_profile io) target (previousValue l) = None"
proof -
  obtain c1 where c1: "io_get io c = (view c, c1)" by (rule toggle_read [OF assms(1)])
  let ?s = "js_delete (controlStateKey (pid (io_profile io)) k) (view c)"
  show ?thesis
  proof (rule put_cases [OF assms(1), of ?s c1])
    fix c2 assume p: "io_put io ?s c1 = (True, c2)" "view c2 = ?s"
    with assms(2,3) c1 show ?thesis
      by (auto simp: snapshotToggle_def Let_def releaseSnapshot_def split: prod.splits option.splits)
  next
    fix c2 assume "io_put io ?s c1 = (False, c2)"
    with assms(2,3) c1 show ?thesis
      by (auto simp: snapshotToggle_def Let_def releaseSnapshot_def split: prod.splits option.splits)
  qed
qed

lemma toggle_idempotent:
  assumes "on_store get put io"
    and "(v = 1 \<and> js_get (view c) (controlStateKey (pid (io_profile io)) k) \<noteq> None)
      \<or> (v = 0 \<and> js_get (view c) (controlStateKey (pid (io_profile io)) k) = None)"
  shows "\<exists>c'. snapshotToggle io k target locked v c d = (Inr (), c', d) \<and> view c' = view c"
proof -
  obtain c1 where "io_get io c = (view c, c1)" "view c1 = view c" by (rule toggle_read [OF assms(1)])
  with assms(2) show ?thesis by (auto simp: snapshotToggle_def Let_def)
qed

lemma engage_failure:
  assumes "on_store get put io" and "engageSnapshot io target key (view c) locked c d = (Inl e, c', d')" and "e \<noteq> StoreFailed"
  shows "view c' = view c"
proof (cases "io_readLive io target")
  case None
  with assms(2) show ?thesis by (simp add: engageSnapshot_def)
next
  case (Some current)
  let ?s = "js_set key \<lparr>previousValue = current, lockedAt = io_now io\<rparr> (view c)"
  show ?thesis
  proof (rule put_cases [OF assms(1), of ?s c])
    fix c2 assume "io_put io ?s c = (False, c2)"
    with assms(2,3) Some show ?thesis by (auto simp: engageSnapshot_def)
  next
    fix c2 assume p: "io_put io ?s c = (True, c2)"
    show ?thesis
    proof (rule put_cases [OF assms(1), of "view c" c2])
      fix c3 assume "io_put io (view c) c2 = (True, c3)" "view c3 = view c"
      with assms(2) Some p show ?thesis by (auto simp: engageSnapshot_def split: prod.splits option.splits)
    next
      fix c3 assume "io_put io (view c) c2 = (False, c3)"
      with assms(2,3) Some p show ?thesis by (auto simp: engageSnapshot_def split: prod.splits option.splits)
    qed
  qed
qed

lemma release_failure:
  assumes "on_store get put io" and "releaseSnapshot io target key (view c) l c d = (Inl e, c', d')"
  shows "view c' = view c"
proof (rule put_cases [OF assms(1), of "js_delete key (view c)" c])
  fix c2 assume "io_put io (js_delete key (view c)) c = (True, c2)"
  with assms(2) show ?thesis by (auto simp: releaseSnapshot_def split: prod.splits option.splits)
next
  fix c2 assume "io_put io (js_delete key (view c)) c = (False, c2)" "view c2 = view c"
  with assms(2) show ?thesis by (auto simp: releaseSnapshot_def split: prod.splits option.splits)
qed

lemma toggle_failure:
  assumes "on_store get put io" and "snapshotToggle io k target locked v c d = (Inl e, c', d')" and "e \<noteq> StoreFailed"
  shows "view c' = view c"
proof -
  obtain c1 where c1: "io_get io c = (view c, c1)" "view c1 = view c" by (rule toggle_read [OF assms(1)])
  let ?k = "controlStateKey (pid (io_profile io)) k"
  have "c' = c1 \<or> engageSnapshot io target ?k (view c1) locked c1 d = (Inl e, c', d')
      \<or> (\<exists>l. releaseSnapshot io target ?k (view c1) l c1 d = (Inl e, c', d'))"
    using assms(2) c1(1) unfolding c1(2) [symmetric]
    by (auto simp: snapshotToggle_def Let_def split: option.splits if_splits)
  then have "view c' = view c1"
    using engage_failure [OF assms(1) _ assms(3)] release_failure [OF assms(1)] by blast
  then show ?thesis using c1(2) by simp
qed

lemma toggle_roundtrip:
  assumes "on_store get put io" "on_store get put io2" "io_profile io2 = io_profile io"
    and "js_get (view c) (controlStateKey (pid (io_profile io)) k) = None"
    and "snapshotToggle io k target locked 1 c d = (Inr (), c1, d1)"
    and "snapshotToggle io2 k target locked 0 c1 d2 = (Inr (), c2, d3)"
  shows "\<exists>current. io_readLive io target = Some current \<and> io_write io target locked d = (None, d1)
    \<and> io_write io2 target current d2 = (None, d3) \<and> view c2 = view c"
proof -
  let ?k = "controlStateKey (pid (io_profile io)) k"
  from lock_success [OF assms(1,4,5)] obtain current where
    l: "io_readLive io target = Some current" "io_write io target locked d = (None, d1)"
      "view c1 = js_set ?k \<lparr>previousValue = current, lockedAt = io_now io\<rparr> (view c)" by blast
  then have "js_get (view c1) (controlStateKey (pid (io_profile io2)) k) = Some \<lparr>previousValue = current, lockedAt = io_now io\<rparr>"
    by (simp add: assms(3))
  from unlock_success [OF assms(2) this assms(6)] l(3) assms(3)
  have u: "io_write io2 target current d2 = (None, d3)" "view c2 = js_delete ?k (view c1)" by simp_all
  have "js_delete ?k (view c1) = view c"
    using assms(4) by (simp add: l(3) delete_update_same map_of_eq_None_iff delete_notin_dom)
  with l u show ?thesis by simp
qed

end


subsection \<open>Presets\<close>

text \<open>The device after a list of accepted writes, \<open>None\<close> when one of them is refused.\<close>

fun written :: "('c, 'd) control_io \<Rightarrow> (string \<times> number) list \<Rightarrow> 'd \<Rightarrow> 'd option" where
  "written io [] d = Some d"
| "written io ((target, v) # ws) d = (case io_write io target v d of
     (None, d') \<Rightarrow> written io ws d' | (Some _, _) \<Rightarrow> None)"

lemma applyPreset_outcome:
  "applyPreset io ws applied d = (r, d') \<Longrightarrow>
     (r = Inr () \<and> written io ws d = Some d')
   \<or> (\<exists>n err d1. n < length ws \<and> written io (take n ws) d = Some d1
        \<and> io_write io (fst (ws ! n)) (snd (ws ! n)) d1 = (Some err, d')
        \<and> r = Inl (PresetStopped (fst (ws ! n)) err (applied @ take n ws)))"
proof (induction io ws applied d rule: applyPreset.induct)
  case (2 io target v ws applied d)
  obtain q d1 where q: "io_write io target v d = (q, d1)" by force
  show ?case
  proof (cases q)
    case (Some err)
    with 2 q show ?thesis by (intro disjI2 exI [of _ 0]) simp
  next
    case None
    with 2 q consider "r = Inr ()" "written io ws d1 = Some d'"
      | n err d2 where "n < length ws" "written io (take n ws) d1 = Some d2"
          "io_write io (fst (ws ! n)) (snd (ws ! n)) d2 = (Some err, d')"
          "r = Inl (PresetStopped (fst (ws ! n)) err ((applied @ [(target, v)]) @ take n ws))"
      by auto
    then show ?thesis
    proof cases
      case (2 n err d2)
      with q None show ?thesis by (intro disjI2 exI [of _ "Suc n"]) simp
    qed (use q None in simp)
  qed
qed simp

lemma preflight_None: "preflightPreset p ws = None \<longleftrightarrow> (\<forall>w\<in>set ws. validateWrite p (fst w) (snd w) = None)"
  by (induction p ws rule: preflightPreset.induct) (auto split: option.splits)

text \<open>C12. A preset is validated whole before anything is written, and what lands is what is reported:
  when any target is refused by the profile the device is untouched; otherwise either every write
  is accepted in order, or the device stopped at one of them and the error names it, the device's
  message, and exactly the writes accepted before.\<close>

theorem preset_atomic:
  assumes "preset io ws v c d = (r, c', d')" and "v \<noteq> 0"
  shows "c' = c \<and>
    (if \<forall>w\<in>set ws. validateWrite (io_profile io) (fst w) (snd w) = None
     then (r = Inr () \<and> written io ws d = Some d')
       \<or> (\<exists>n err d1. n < length ws \<and> written io (take n ws) d = Some d1
            \<and> io_write io (fst (ws ! n)) (snd (ws ! n)) d1 = (Some err, d')
            \<and> r = Inl (PresetStopped (fst (ws ! n)) err (take n ws)))
     else d' = d \<and> (\<exists>why. r = Inl (ControlRejected why)))"
proof (cases "preflightPreset (io_profile io) ws")
  case None
  obtain q d1 where q: "applyPreset io ws [] d = (q, d1)" by force
  with assms None have "r = q" "c' = c" "d' = d1" by (simp_all add: preset_def)
  with applyPreset_outcome [OF q] None show ?thesis unfolding preflight_None by simp
next
  case (Some why)
  then have "\<not> (\<forall>w\<in>set ws. validateWrite (io_profile io) (fst w) (snd w) = None)"
    using preflight_None [of "io_profile io" ws] by simp
  note bad = this
  show ?thesis unfolding if_not_P [OF bad] using Some assms by (auto simp: preset_def)
qed

definition demo_metric :: "string \<Rightarrow> ControlExpr option \<Rightarrow> MetricDef" where
  "demo_metric k e = MetricBase.extend ((base_metric k None None)\<lparr>maccess := ReadWrite, mcontrol := e,
     mrange := Some \<lparr>rmin = 0, rmax = 100\<rparr>\<rparr>) \<lparr>mbinding = Modbus [7] U_WORD, mcompute = None, mcomputeInputs = None\<rparr>"

definition demo_profile :: InverterProfile where
  "demo_profile = \<lparr>pid = ''p'', pname = ''p'', pmanufacturer = ''m'',
     pmetrics = [demo_metric ''a'' None, demo_metric ''b'' None, demo_metric ''lock'' (Some (SnapshotToggle ''a'' 0))],
     pdeclares = None\<rparr>"

text \<open>A device that accepts every write but those of \<open>b\<close>, and keeps the accepted ones.\<close>

definition demo_io :: "(control_cache, (string \<times> number) list) control_io" where
  "demo_io = \<lparr>io_get = store_get, io_put = store_set,
     io_write = (\<lambda>k v d. if k = ''b'' then (Some ''timeout'', d) else (None, d @ [(k, v)])),
     io_readLive = (\<lambda>k. Some 55), io_profile = demo_profile, io_now = ''t''\<rparr>"

definition empty_cache :: control_cache where
  "empty_cache = \<lparr>cc_cache = None, cc_row = None, cc_writes = []\<rparr>"

lemma demo_byKey:
  "metricByKey demo_profile = [(''a'', demo_metric ''a'' None), (''b'', demo_metric ''b'' None),
     (''lock'', demo_metric ''lock'' (Some (SnapshotToggle ''a'' 0)))]"
  by (simp add: metricByKey_def demo_profile_def demo_metric_def MetricBase.defs base_metric_def)

lemma demo_valid: "k = ''a'' \<or> k = ''b'' \<or> k = ''lock'' \<Longrightarrow> 0 \<le> v \<Longrightarrow> v \<le> 100 \<Longrightarrow> validateWrite demo_profile k v = None"
  by (auto simp: validateWrite_def demo_byKey entityConstraint_def demo_metric_def MetricBase.defs base_metric_def Let_def)

definition demo_writes :: "(string \<times> number) list" where
  "demo_writes = [(''a'', 1), (''b'', 2)]"

theorem preset_atomic_witness:
  "preset demo_io demo_writes 1 empty_cache [] = (Inl (PresetStopped ''b'' ''timeout'' [(''a'', 1)]), empty_cache, [(''a'', 1)])
   \<and> (\<exists>n d1. n < length demo_writes \<and> written demo_io (take n demo_writes) [] = Some d1)"
proof -
  have valid: "\<forall>w\<in>set demo_writes. validateWrite (io_profile demo_io) (fst w) (snd w) = None"
    using demo_valid by (simp add: demo_io_def demo_writes_def)
  then have "preflightPreset (io_profile demo_io) demo_writes = None" by (simp add: preflight_None)
  then have p: "preset demo_io demo_writes 1 empty_cache [] = (Inl (PresetStopped ''b'' ''timeout'' [(''a'', 1)]), empty_cache, [(''a'', 1)])"
    by (simp add: preset_def) (simp add: demo_writes_def demo_io_def)
  from preset_atomic [OF p] valid have "\<exists>n d1. n < length demo_writes \<and> written demo_io (take n demo_writes) [] = Some d1"
    by auto
  with p show ?thesis by blast
qed

subsection \<open>The production store\<close>

text \<open>C11. A lock can always be undone: on the store the server runs with, a snapshot toggle switched on
  and later off, whatever the device did in between, writes the locked value and then the very
  value that was live when it was switched on, and leaves the stored lock state as it was before.\<close>

theorem lock_then_unlock_restores:
  assumes "on_store store_get store_set io" and "on_store store_get store_set io2" and "io_profile io2 = io_profile io"
    and "js_get (store_view c) (controlStateKey (pid (io_profile io)) k) = None"
    and "snapshotToggle io k target locked 1 c d = (Inr (), c1, d1)"
    and "snapshotToggle io2 k target locked 0 c1 d2 = (Inr (), c2, d3)"
  shows "\<exists>current. io_readLive io target = Some current \<and> io_write io target locked d = (None, d1)
    \<and> io_write io2 target current d2 = (None, d3) \<and> store_view c2 = store_view c"
  using assms by (rule db_store.toggle_roundtrip)

theorem lock_then_unlock_restores_witness:
  "\<exists>c1 c2. snapshotToggle demo_io ''lock'' ''a'' 0 1 empty_cache [] = (Inr (), c1, [(''a'', 0)])
    \<and> snapshotToggle demo_io ''lock'' ''a'' 0 0 c1 [(''a'', 0)] = (Inr (), c2, [(''a'', 0), (''a'', 55)])
    \<and> store_view c2 = []"
proof -
  have o: "on_store store_get store_set demo_io" by (simp add: on_store_def demo_io_def)
  define c1 where "c1 = snd (store_set [(''p:lock'', \<lparr>previousValue = 55, lockedAt = ''t''\<rparr>)] (snd (store_get empty_cache)))"
  have 1: "snapshotToggle demo_io ''lock'' ''a'' 0 1 empty_cache [] = (Inr (), c1, [(''a'', 0)])"
    by (simp add: c1_def snapshotToggle_def demo_io_def empty_cache_def store_get_def store_set_def engageSnapshot_def
        controlStateKey_def demo_profile_def Let_def)
  have v: "validateWrite demo_profile ''a'' 55 = None" using demo_valid by simp
  have "pid demo_profile = ''p''" by (simp add: demo_profile_def)
  with v obtain c2 where 2: "snapshotToggle demo_io ''lock'' ''a'' 0 0 c1 [(''a'', 0)] = (Inr (), c2, [(''a'', 0), (''a'', 55)])"
    by (auto simp: c1_def snapshotToggle_def demo_io_def empty_cache_def store_get_def store_set_def releaseSnapshot_def
        controlStateKey_def Let_def)
  have e: "store_view empty_cache = []" by (simp add: store_view_def empty_cache_def)
  then have "js_get (store_view empty_cache) (controlStateKey (pid (io_profile demo_io)) ''lock'') = None" by simp
  from lock_then_unlock_restores [OF o o refl this 1 2] have "store_view c2 = store_view empty_cache" by blast
  with 1 2 e show ?thesis by auto
qed

text \<open>A toggle that fails leaves the lock state as it was: whatever the value and whatever the device
  answered, an error other than the store's own means no lock was recorded or forgotten, so a
  failed lock leaves nothing engaged and a failed unlock can be retried.\<close>

theorem failed_toggle_keeps_state:
  assumes "on_store store_get store_set io"
    and "snapshotToggle io k target locked v c d = (Inl e, c', d')" and "e \<noteq> StoreFailed"
  shows "store_view c' = store_view c"
  using assms by (rule db_store.toggle_failure)

theorem failed_toggle_keeps_state_witness:
  "\<exists>c'. snapshotToggle demo_io ''lock'' ''b'' 0 1 empty_cache [] = (Inl (DeviceFailed ''timeout''), c', []) \<and> store_view c' = []"
proof -
  have o: "on_store store_get store_set demo_io" by (simp add: on_store_def demo_io_def)
  obtain c' where 1: "snapshotToggle demo_io ''lock'' ''b'' 0 1 empty_cache [] = (Inl (DeviceFailed ''timeout''), c', [])"
    by (simp add: snapshotToggle_def demo_io_def empty_cache_def store_get_def store_set_def engageSnapshot_def Let_def)
  from failed_toggle_keeps_state [OF o this] have "store_view c' = store_view empty_cache" by simp
  with 1 show ?thesis by (auto simp: store_view_def empty_cache_def)
qed

subsection \<open>The funnel\<close>

text \<open>C10. Every entry point is covered by the profile's own bounds: a command through the funnel that
  changes anything, on the device or in the store, names an entity of the profile that is read-write
  and not raw, with a value on its enumeration or within its declared range.\<close>

theorem funnel_validates:
  assumes "control_write io started key v c d = (r, c', d')" and "c' \<noteq> c \<or> d' \<noteq> d \<or> r = Inr ()"
  shows "started \<and> (\<exists>m\<in>set (pmetrics (io_profile io)). mkey m = key \<and> maccess m = ReadWrite \<and> mtype m \<noteq> RAW
    \<and> (case menum m of Some labels \<Rightarrow> v \<in> of_int ` fst ` set labels
       | None \<Rightarrow> (case mrange m of Some r \<Rightarrow> rmin r \<le> v \<and> v \<le> rmax r | None \<Rightarrow> True)))"
proof -
  have "started \<and> validateWrite (io_profile io) key v = None"
    using assms by (auto simp: control_write_def split: if_splits option.splits)
  then show ?thesis using validateWrite_None by blast
qed

theorem funnel_validates_witness:
  "control_write demo_io True ''a'' 42 empty_cache [] = (Inr (), empty_cache, [(''a'', 42)])
   \<and> (\<exists>m\<in>set (pmetrics demo_profile). mkey m = ''a'' \<and> maccess m = ReadWrite)"
proof -
  have "validateWrite demo_profile ''a'' 42 = None" using demo_valid by simp
  then have 1: "control_write demo_io True ''a'' 42 empty_cache [] = (Inr (), empty_cache, [(''a'', 42)])"
    by (simp add: control_write_def demo_io_def demo_byKey demo_metric_def MetricBase.defs base_metric_def)
  moreover have "io_profile demo_io = demo_profile" by (simp add: demo_io_def)
  ultimately show ?thesis using funnel_validates [OF 1] by auto
qed

end
