(* ===== verification/Zoned_Calendar.thy ===== *)
theory Zoned_Calendar
  imports Prelude
begin

text \<open>
  \<^verbatim>\<open>packages/inverter-core/src/zone-parts.ts\<close> and \<^verbatim>\<open>zoned-calendar.ts\<close>: the wall clock of a zone
  and the instants its civil days start at.

  What the ICU data behind \<open>Intl.DateTimeFormat\<close> says is the parameter \<open>zone\<close>: for a zone name and an
  instant, the six fields of the formatted date. \<open>Date.UTC\<close> is the standard's day arithmetic on
  integral arguments. The bisection of \<open>transitionBetween\<close> may run for ever, so it is a partial
  function: \<open>None\<close> is a call that never returns.
\<close>

record ZoneParts =
  zp_year :: int
  zp_month :: int
  zp_day :: int
  zp_hour :: int
  zp_minute :: int
  zp_second :: int

type_synonym zone_data = "string \<Rightarrow> millis \<Rightarrow> ZoneParts"

record CalendarDate =
  cd_year :: int
  cd_month :: int
  cd_day :: int

definition MINUTE :: millis where "MINUTE = 60000"
definition HOUR :: millis where "HOUR = 3600000"
definition DAY :: millis where "DAY = 86400000"

lemmas calendar_units = MINUTE_def HOUR_def DAY_def

subsection \<open>\<open>Date.UTC\<close>\<close>

text \<open>Days from 1970-01-01 to the first of a month; the month is 0-based and may overflow the year.\<close>

definition month_start_day :: "int \<Rightarrow> int \<Rightarrow> int" where
  "month_start_day y m =
     (let y' = y + m div 12; m' = m mod 12; yy = (if m' < 2 then y' - 1 else y');
          mp = (m' + 10) mod 12
      in 365 * yy + yy div 4 - yy div 100 + yy div 400 + (153 * mp + 2) div 5 - 719468)"

definition date_utc :: "int \<Rightarrow> int \<Rightarrow> int \<Rightarrow> int \<Rightarrow> int \<Rightarrow> int \<Rightarrow> millis" where
  "date_utc y m d h mi s =
     (let y' = (if 0 \<le> y \<and> y \<le> 99 then 1900 + y else y)
      in (month_start_day y' m + (d - 1)) * DAY + h * HOUR + mi * MINUTE + s * 1000)"

subsection \<open>The zone's wall clock\<close>

text \<open>Some engines format midnight as 24; the hour is taken modulo 24.\<close>

definition zoneParts :: "zone_data \<Rightarrow> string \<Rightarrow> millis \<Rightarrow> ZoneParts" where
  "zoneParts zone tz atMs = (let p = zone tz atMs in p\<lparr>zp_hour := zp_hour p mod 24\<rparr>)"

definition wallClockAsUtc :: "zone_data \<Rightarrow> string \<Rightarrow> millis \<Rightarrow> millis" where
  "wallClockAsUtc zone tz atMs =
     (let p = zoneParts zone tz atMs
      in date_utc (zp_year p) (zp_month p - 1) (zp_day p) (zp_hour p) (zp_minute p) (zp_second p))"

definition offsetAt :: "zone_data \<Rightarrow> string \<Rightarrow> millis \<Rightarrow> millis" where
  "offsetAt zone tz ms = wallClockAsUtc zone tz ms - ms"

partial_function (option) bisect_offset ::
  "(millis \<Rightarrow> millis) \<Rightarrow> millis \<Rightarrow> millis \<Rightarrow> millis \<Rightarrow> millis option" where
  "bisect_offset offs target lo hi =
     (if hi - lo > MINUTE
      then (let mid = lo + (hi - lo) div (2 * MINUTE) * MINUTE
            in if offs mid = target then bisect_offset offs target lo mid
               else bisect_offset offs target mid hi)
      else Some hi)"

declare bisect_offset.simps [code]

definition transitionBetween :: "zone_data \<Rightarrow> string \<Rightarrow> millis \<Rightarrow> millis \<Rightarrow> millis option" where
  "transitionBetween zone tz before after =
     bisect_offset (offsetAt zone tz) (offsetAt zone tz after) before after"

definition wall_candidates :: "zone_data \<Rightarrow> string \<Rightarrow> millis \<Rightarrow> millis list" where
  "wall_candidates zone tz wallMs =
     set_adds (map (\<lambda>off. wallMs - off)
       [offsetAt zone tz (wallMs - DAY), offsetAt zone tz (wallMs + DAY)]) []"

definition wallInstant :: "zone_data \<Rightarrow> string \<Rightarrow> millis \<Rightarrow> millis option" where
  "wallInstant zone tz wallMs =
     (let candidates = wall_candidates zone tz wallMs;
          resolves = filter (\<lambda>c. wallClockAsUtc zone tz c = wallMs) candidates
      in if resolves \<noteq> [] then Some (Min (set resolves))
         else transitionBetween zone tz (Min (set candidates)) (Max (set candidates)))"

definition calendarDate :: "zone_data \<Rightarrow> string \<Rightarrow> millis \<Rightarrow> CalendarDate" where
  "calendarDate zone tz t = (let p = zoneParts zone tz t
     in \<lparr>cd_year = zp_year p, cd_month = zp_month p, cd_day = zp_day p\<rparr>)"

definition startOfDate :: "zone_data \<Rightarrow> string \<Rightarrow> CalendarDate \<Rightarrow> millis option" where
  "startOfDate zone tz d = wallInstant zone tz (date_utc (cd_year d) (cd_month d - 1) (cd_day d) 0 0 0)"

definition dayStart :: "zone_data \<Rightarrow> string \<Rightarrow> millis \<Rightarrow> millis option" where
  "dayStart zone tz t = startOfDate zone tz (calendarDate zone tz t)"

definition nextDayStart :: "zone_data \<Rightarrow> string \<Rightarrow> millis \<Rightarrow> millis option" where
  "nextDayStart zone tz t = (let d = calendarDate zone tz t
     in wallInstant zone tz (date_utc (cd_year d) (cd_month d - 1) (cd_day d + 1) 0 0 0))"

subsection \<open>Around one transition\<close>

text \<open>
  Between two instants the zone has offset \<open>a\<close> before \<open>T\<close> and \<open>b\<close> from \<open>T\<close> on, both under a day and,
  like \<open>T\<close>, on whole minutes: what the zone database says of every zone in force today over any
  few days. The formatted fields stop at the second, so the wall clock drops the milliseconds.
\<close>

definition one_transition :: "zone_data \<Rightarrow> string \<Rightarrow> millis \<Rightarrow> millis \<Rightarrow> millis \<Rightarrow> millis \<Rightarrow> millis \<Rightarrow> bool" where
  "one_transition zone tz lo hi T a b \<longleftrightarrow>
     (\<forall>c. lo \<le> c \<and> c \<le> hi \<longrightarrow>
        wallClockAsUtc zone tz c = c - c mod 1000 + (if c < T then a else b))
     \<and> \<bar>a\<bar> < DAY \<and> \<bar>b\<bar> < DAY \<and> MINUTE dvd a \<and> MINUTE dvd b \<and> MINUTE dvd T"

lemma one_transition_wall:
  "one_transition zone tz lo hi T a b \<Longrightarrow> lo \<le> c \<Longrightarrow> c \<le> hi
    \<Longrightarrow> wallClockAsUtc zone tz c = c - c mod 1000 + (if c < T then a else b)"
  unfolding one_transition_def by blast

lemma one_transition_offset:
  "one_transition zone tz lo hi T a b \<Longrightarrow> lo \<le> c \<Longrightarrow> c \<le> hi \<Longrightarrow> MINUTE dvd c
    \<Longrightarrow> offsetAt zone tz c = (if c < T then a else b)"
  using one_transition_wall [of zone tz lo hi T a b c] dvd_trans [of 1000 MINUTE c]
  by (simp add: offsetAt_def MINUTE_def)

lemma one_transition_bounds:
  "one_transition zone tz lo hi T a b \<Longrightarrow> -DAY < a \<and> a < DAY \<and> -DAY < b \<and> b < DAY"
  unfolding one_transition_def by linarith

lemma one_transition_minutes:
  "one_transition zone tz lo hi T a b \<Longrightarrow> MINUTE dvd a \<and> MINUTE dvd b \<and> MINUTE dvd T"
  unfolding one_transition_def by blast

lemma one_transition_mono:
  "one_transition zone tz lo hi T a b \<Longrightarrow> lo \<le> lo' \<Longrightarrow> hi' \<le> hi \<Longrightarrow> one_transition zone tz lo' hi' T a b"
  unfolding one_transition_def by force

text \<open>On whole minutes the bisection halves its span and ends on the transition itself.\<close>

lemma bisect_offset_transition:
  assumes "\<And>c. lo \<le> c \<Longrightarrow> c \<le> hi \<Longrightarrow> MINUTE dvd c \<Longrightarrow> offs c = (if c < T then a else b)"
    and "a \<noteq> b" and "lo < T" and "T \<le> hi" and "MINUTE dvd T" and "MINUTE dvd lo" and "MINUTE dvd hi"
  shows "bisect_offset offs b lo hi = Some T"
  using assms
proof (induction "nat (hi - lo)" arbitrary: lo hi rule: less_induct)
  case less
  obtain k where k: "hi - lo = MINUTE * k" 
    using dvd_diff [OF less.prems(7,6)] by (elim dvdE)
  obtain j where j: "T - lo = MINUTE * j" 
    using dvd_diff [OF less.prems(5,6)] by (elim dvdE)
  have jk: "0 < j" "j \<le> k" using j k less.prems(3,4) by (auto simp: MINUTE_def)
  show ?case
  proof (cases "hi - lo > MINUTE")
    case False
    then have "k = 1" "j = 1" using k jk by (auto simp: MINUTE_def)
    then have "hi = T" using j k by simp
    with False show ?thesis by (subst bisect_offset.simps) simp
  next
    case True
    define mid where "mid = lo + (hi - lo) div (2 * MINUTE) * MINUTE"
    have mid: "mid = lo + MINUTE * (k div 2)"
      unfolding mid_def k by (simp add: MINUTE_def)
    have k2: "2 \<le> k" using True k by (auto simp: MINUTE_def)
    then have half: "0 < k div 2" "k div 2 < k" by auto
    have range: "lo < mid" "mid < hi" using half mid k by (auto simp: MINUTE_def)
    have mid_minute: "MINUTE dvd mid" unfolding mid using less.prems(6) by simp
    have offs: "offs mid = (if mid < T then a else b)" using less.prems(1) range mid_minute by simp
    have IH1: "bisect_offset offs b lo mid = Some T" if "T \<le> mid"
    proof (rule less.hyps)
      show "nat (mid - lo) < nat (hi - lo)" using range by simp
      show "offs c = (if c < T then a else b)" if "lo \<le> c" "c \<le> mid" "MINUTE dvd c" for c
        using less.prems(1) that range by simp
    qed (use less.prems that mid_minute in auto)
    have IH2: "bisect_offset offs b mid hi = Some T" if "mid < T"
    proof (rule less.hyps)
      show "nat (hi - mid) < nat (hi - lo)" using range by simp
      show "offs c = (if c < T then a else b)" if "mid \<le> c" "c \<le> hi" "MINUTE dvd c" for c
        using less.prems(1) that range by simp
    qed (use less.prems that mid_minute in auto)
    show ?thesis
    proof (cases "mid < T")
      case True
      then have "offs mid \<noteq> b" using offs less.prems(2) by simp
      with \<open>hi - lo > MINUTE\<close> IH2 [OF True] show ?thesis
        by (subst bisect_offset.simps) (simp add: Let_def flip: mid_def)
    next
      case False
      then have "offs mid = b" using offs by simp
      with \<open>hi - lo > MINUTE\<close> IH1 False show ?thesis
        by (subst bisect_offset.simps) (simp add: Let_def flip: mid_def)
    qed
  qed
qed

text \<open>
  Where a wall clock lands: its only reading, the first of two, or the transition when it was
  skipped.
\<close>

definition lands :: "millis \<Rightarrow> millis \<Rightarrow> millis \<Rightarrow> millis \<Rightarrow> millis" where
  "lands T a b w = (if w - a < T then w - a else if T \<le> w - b then w - b else T)"

lemma set_wall_candidates:
  "set (wall_candidates zone tz w) = {w - offsetAt zone tz (w - DAY), w - offsetAt zone tz (w + DAY)}"
  unfolding wall_candidates_def by auto

lemma wallInstant_lands:
  assumes ot: "one_transition zone tz (w - DAY) (w + DAY) T a b" and "MINUTE dvd w"
  shows "wallInstant zone tz w = Some (lands T a b w)"
proof -
  note off = one_transition_offset [OF ot]
  note mins = one_transition_minutes [OF ot] assms(2)
  have mday: "MINUTE dvd DAY" by (simp add: DAY_def MINUTE_def)
  have bd: "- DAY < a" "a < DAY" "- DAY < b" "b < DAY" using one_transition_bounds [OF ot] by auto
  have day: "0 < DAY" by (simp add: DAY_def)
  define o1 where "o1 = (if w - DAY < T then a else b)"
  define o2 where "o2 = (if w + DAY < T then a else b)"
  have cand: "set (wall_candidates zone tz w) = {w - o1, w - o2}"
    unfolding set_wall_candidates o1_def o2_def using off [of "w - DAY"] off [of "w + DAY"] day mins mday by simp
  have shows_w: "wallClockAsUtc zone tz c = w \<longleftrightarrow> (if c < T then c + a else c + b) = w"
    if "c \<in> {w - o1, w - o2}" for c
  proof -
    have "w - DAY \<le> c" "c \<le> w + DAY" using that bd unfolding o1_def o2_def by (auto split: if_splits)
    moreover have "MINUTE dvd c" using that mins unfolding o1_def o2_def by auto
    ultimately show ?thesis using off [of c] by (auto simp: offsetAt_def)
  qed
  define res where "res = {c \<in> {w - o1, w - o2}. (if c < T then c + a else c + b) = w}"
  have res: "set (filter (\<lambda>c. wallClockAsUtc zone tz c = w) (wall_candidates zone tz w)) = res"
    unfolding res_def set_filter cand using shows_w by blast
  have ne: "filter (\<lambda>c. wallClockAsUtc zone tz c = w) (wall_candidates zone tz w) \<noteq> [] \<longleftrightarrow> res \<noteq> {}"
    using res by (metis empty_set set_empty)
  have unfold: "wallInstant zone tz w = (if res \<noteq> {} then Some (Min res)
      else transitionBetween zone tz (Min {w - o1, w - o2}) (Max {w - o1, w - o2}))"
    unfolding wallInstant_def Let_def res ne cand by simp
  consider (first) "w - a < T" | (second) "T \<le> w - a" "T \<le> w - b" | (gap) "T \<le> w - a" "w - b < T"
    by linarith
  then show ?thesis
  proof cases
    case first
    have o1: "o1 = a" using first bd unfolding o1_def by auto
    have "res = {w - a} \<or> res = {w - a, w - o2} \<and> w - a \<le> w - o2"
      unfolding res_def o1 using first by (auto simp: o2_def split: if_splits)
    then have "Min res = w - a" "res \<noteq> {}" by auto
    with first show ?thesis unfolding unfold lands_def by simp
  next
    case second
    have o2: "o2 = b" using second bd unfolding o2_def by auto
    have "res = {w - b}"
      unfolding res_def o2 using second by (auto simp: o1_def split: if_splits)
    with second show ?thesis unfolding unfold lands_def by simp
  next
    case gap
    have o: "o1 = a" "o2 = b" using gap bd unfolding o1_def o2_def by auto
    have "a \<noteq> b" using gap by auto
    have "res = {}" unfolding res_def o using gap \<open>a \<noteq> b\<close> by auto
    moreover have "Min {w - a, w - b} = w - b" "Max {w - a, w - b} = w - a" using gap by auto
    moreover have "transitionBetween zone tz (w - b) (w - a) = Some T"
    proof -
      have "offsetAt zone tz (w - a) = b" using off [of "w - a"] gap bd mins by auto
      moreover have "bisect_offset (offsetAt zone tz) b (w - b) (w - a) = Some T"
      proof (rule bisect_offset_transition [where a = a])
        show "offsetAt zone tz c = (if c < T then a else b)" if "w - b \<le> c" "c \<le> w - a" "MINUTE dvd c" for c
          using off [of c] that bd by auto
      qed (use gap \<open>a \<noteq> b\<close> mins in auto)
      ultimately show ?thesis unfolding transitionBetween_def by simp
    qed
    ultimately show ?thesis using gap unfolding unfold o lands_def by simp
  qed
qed

subsection \<open>Civil days\<close>

definition midnight_wall :: "zone_data \<Rightarrow> string \<Rightarrow> millis \<Rightarrow> millis" where
  "midnight_wall zone tz t = (let d = calendarDate zone tz t
     in date_utc (cd_year d) (cd_month d - 1) (cd_day d) 0 0 0)"

definition proper_digits :: "ZoneParts \<Rightarrow> bool" where
  "proper_digits p \<longleftrightarrow> 0 \<le> zp_minute p \<and> zp_minute p < 60 \<and> 0 \<le> zp_second p \<and> zp_second p < 60"

lemma dayStart_midnight: "dayStart zone tz t = wallInstant zone tz (midnight_wall zone tz t)"
  unfolding dayStart_def startOfDate_def midnight_wall_def Let_def by simp

lemma nextDayStart_midnight:
  "nextDayStart zone tz t = wallInstant zone tz (midnight_wall zone tz t + DAY)"
  unfolding nextDayStart_def midnight_wall_def Let_def date_utc_def by (simp add: DAY_def)

lemma minute_dvd_midnight: "MINUTE dvd midnight_wall zone tz t"
  unfolding midnight_wall_def Let_def date_utc_def
  by (simp add: calendar_units)

lemma wall_in_day:
  assumes "proper_digits (zone tz t)"
  shows "midnight_wall zone tz t \<le> wallClockAsUtc zone tz t"
    and "wallClockAsUtc zone tz t < midnight_wall zone tz t + DAY"
proof -
  define p where "p = zone tz t"
  define h where "h = zp_hour p mod 24"
  have digits: "0 \<le> h" "h \<le> 23" "0 \<le> zp_minute p" "zp_minute p \<le> 59" "0 \<le> zp_second p" "zp_second p \<le> 59"
    using assms unfolding h_def p_def proper_digits_def by auto
  have "wallClockAsUtc zone tz t =
      midnight_wall zone tz t + (h * HOUR + zp_minute p * MINUTE + zp_second p * 1000)"
    unfolding wallClockAsUtc_def midnight_wall_def calendarDate_def zoneParts_def Let_def date_utc_def
      h_def p_def by simp
  with digits show "midnight_wall zone tz t \<le> wallClockAsUtc zone tz t"
    and "wallClockAsUtc zone tz t < midnight_wall zone tz t + DAY"
    by (simp_all add: calendar_units)
qed

text \<open>A fall-back repeats the wall clocks strictly between \<open>T + b\<close> and \<open>T + a\<close>.\<close>

text \<open>The plant-local day of an instant contains it: on a zone with at most one whole-minute
  transition within four days, both ends of the day are found, the day starts at or before the
  instant and the next one starts after it, unless the transition shows the coming midnight
  twice with the instant behind the first.\<close>

theorem day_contains_instant:
  assumes ot: "one_transition zone tz (t - 4 * DAY) (t + 4 * DAY) T a b"
    and "proper_digits (zone tz t)"
    and midnight: "\<not> (T + b < midnight_wall zone tz t + DAY \<and> midnight_wall zone tz t + DAY < T + a)"
  shows "\<exists>s e. dayStart zone tz t = Some s \<and> nextDayStart zone tz t = Some e \<and> s \<le> t \<and> t < e"
proof -
  define w where "w = midnight_wall zone tz t"
  note bd = one_transition_bounds [OF ot]
  have day: "0 < DAY" by (simp add: DAY_def)
  define s where "s = t - t mod 1000"
  have sec_lt: "t < x" if lt: "s < x" and dv: "1000 dvd x" for x
  proof -
    obtain k where k: "x = 1000 * k" using dv by (elim dvdE)
    have q: "s = 1000 * (t div 1000)" unfolding s_def by (simp add: minus_mod_eq_mult_div)
    then have "t div 1000 < k" using lt k by simp
    moreover have "t < s + 1000" unfolding s_def by simp
    ultimately show ?thesis using q k by linarith
  qed
  have sec: "s \<le> t" "t < s + 1000" "s < T \<longleftrightarrow> t < T"
  proof -
    show le: "s \<le> t" "t < s + 1000" unfolding s_def by auto
    have "1000 dvd T" using one_transition_minutes [OF ot] dvd_trans [of 1000 MINUTE T] by (simp add: MINUTE_def)
    show "s < T \<longleftrightarrow> t < T" using le sec_lt [OF _ \<open>1000 dvd T\<close>] by linarith
  qed
  have wall: "wallClockAsUtc zone tz t = (if t < T then s + a else s + b)"
    using one_transition_wall [OF ot, of t] day unfolding s_def by auto
  have w: "w \<le> (if t < T then s + a else s + b)" "(if t < T then s + a else s + b) < w + DAY"
    using wall_in_day [of zone tz t] assms(2) wall unfolding w_def by auto
  have near: "t - 3 * DAY \<le> w" "w \<le> t + DAY" using w bd sec day by (auto split: if_splits simp: DAY_def)
  have start: "dayStart zone tz t = Some (lands T a b w)"
    unfolding dayStart_midnight w_def [symmetric]
    by (rule wallInstant_lands [OF one_transition_mono [OF ot]])
      (use near in \<open>auto simp: w_def minute_dvd_midnight\<close>)
  have e: "nextDayStart zone tz t = Some (lands T a b (w + DAY))"
    unfolding nextDayStart_midnight w_def [symmetric]
    by (rule wallInstant_lands [OF one_transition_mono [OF ot]])
      (use near in \<open>auto simp: w_def minute_dvd_midnight DAY_def MINUTE_def intro: dvd_add [OF minute_dvd_midnight [unfolded MINUTE_def]]\<close>)
  have "lands T a b w \<le> t" using w sec unfolding lands_def by (auto split: if_splits)
  moreover have whole: "1000 dvd w + DAY - a" "1000 dvd w + DAY - b"
  proof -
    have "MINUTE dvd w + DAY" unfolding w_def using minute_dvd_midnight [of zone tz t]
      by (simp add: DAY_def MINUTE_def)
    then have "MINUTE dvd w + DAY - a" "MINUTE dvd w + DAY - b" using one_transition_minutes [OF ot] by auto
    then show "1000 dvd w + DAY - a" "1000 dvd w + DAY - b"
      using dvd_trans [of 1000 MINUTE] by (simp_all add: MINUTE_def)
  qed
  moreover have "t < lands T a b (w + DAY)"
    using w sec midnight sec_lt [of "w + DAY - a"] sec_lt [of "w + DAY - b"] whole
    unfolding lands_def w_def [symmetric] by (auto split: if_splits)
  ultimately show ?thesis using start e by blast
qed

subsection \<open>Reading a civil date back\<close>

text \<open>
  \<open>getUTCFullYear\<close>, \<open>getUTCMonth\<close> (0-based) and \<open>getUTCDate\<close> of an instant: the Gregorian cycle of
  400 years from 0000-03-01, its centuries, the centuries' quadrennia and their years.
\<close>

definition utc_in_year :: "int \<Rightarrow> int \<Rightarrow> int \<Rightarrow> int \<times> int \<times> int" where
  "utc_in_year yy doy mp = (if mp < 10 then yy else yy + 1, if mp < 10 then mp + 2 else mp - 10,
     doy - (153 * mp + 2) div 5 + 1)"

definition utc_of_year :: "int \<Rightarrow> int \<Rightarrow> int \<times> int \<times> int" where
  "utc_of_year yy doy = utc_in_year yy doy ((5 * doy + 2) div 153)"

definition utc_of_quad :: "int \<Rightarrow> int \<Rightarrow> int \<times> int \<times> int" where
  "utc_of_quad y rq = utc_of_year (y + min (rq div 365) 3) (rq - min (rq div 365) 3 * 365)"

definition utc_of_century :: "int \<Rightarrow> int \<Rightarrow> int \<times> int \<times> int" where
  "utc_of_century y rc = utc_of_quad (y + rc div 1461 * 4) (rc mod 1461)"

definition utc_of_cycle :: "int \<Rightarrow> int \<Rightarrow> int \<times> int \<times> int" where
  "utc_of_cycle y doe = utc_of_century (y + min (doe div 36524) 3 * 100) (doe - min (doe div 36524) 3 * 36524)"

definition utc_of_day :: "int \<Rightarrow> int \<times> int \<times> int" where
  "utc_of_day z = utc_of_cycle (z div 146097 * 400) (z mod 146097)"

definition utc_date :: "millis \<Rightarrow> int \<times> int \<times> int" where
  "utc_date ms = utc_of_day (ms div DAY + 719468)"

lemmas utc_date_defs = utc_date_def utc_of_day_def utc_of_cycle_def utc_of_century_def utc_of_quad_def
  utc_of_year_def utc_in_year_def

definition utc_year :: "millis \<Rightarrow> int" where "utc_year ms = fst (utc_date ms)"
definition utc_month :: "millis \<Rightarrow> int" where "utc_month ms = fst (snd (utc_date ms))"
definition utc_day :: "millis \<Rightarrow> int" where "utc_day ms = snd (snd (utc_date ms))"

definition utc_weekday :: "millis \<Rightarrow> int" where "utc_weekday ms = (ms div DAY + 4) mod 7"

datatype CalendarGrain = GHour | GDay | GWeek | GMonth | GYear

definition isoWeekday :: "zone_data \<Rightarrow> string \<Rightarrow> millis \<Rightarrow> int" where
  "isoWeekday zone tz t = (let d = calendarDate zone tz t;
     dow = utc_weekday (date_utc (cd_year d) (cd_month d - 1) (cd_day d) 0 0 0)
   in (dow + 6) mod 7 + 1)"

definition wallPeriodStart :: "millis \<Rightarrow> CalendarGrain \<Rightarrow> int \<Rightarrow> millis" where
  "wallPeriodStart w grain weekStartsOn =
     (let y = utc_year w; mo = utc_month w; day = date_utc y mo (utc_day w) 0 0 0
      in case grain of
           GHour \<Rightarrow> w div HOUR * HOUR
         | GMonth \<Rightarrow> date_utc y mo 1 0 0 0
         | GYear \<Rightarrow> date_utc y 0 1 0 0 0
         | GDay \<Rightarrow> day
         | GWeek \<Rightarrow> let iso = (utc_weekday w + 6) mod 7 + 1 in day - (iso - weekStartsOn + 7) mod 7 * DAY)"

definition wallNextStart :: "millis \<Rightarrow> CalendarGrain \<Rightarrow> millis" where
  "wallNextStart start grain = (case grain of
       GMonth \<Rightarrow> date_utc (utc_year start) (utc_month start + 1) 1 0 0 0
     | GYear \<Rightarrow> date_utc (utc_year start + 1) 0 1 0 0 0
     | GHour \<Rightarrow> start + HOUR | GDay \<Rightarrow> start + DAY | GWeek \<Rightarrow> start + 7 * DAY)"

definition periodStart :: "zone_data \<Rightarrow> string \<Rightarrow> millis \<Rightarrow> CalendarGrain \<Rightarrow> int \<Rightarrow> millis option" where
  "periodStart zone tz t grain weekStartsOn =
     wallInstant zone tz (wallPeriodStart (wallClockAsUtc zone tz t) grain weekStartsOn)"

definition periodWindow ::
  "zone_data \<Rightarrow> string \<Rightarrow> millis \<Rightarrow> CalendarGrain \<Rightarrow> int \<Rightarrow> (millis \<times> millis) option" where
  "periodWindow zone tz t grain weekStartsOn =
     (let start = wallPeriodStart (wallClockAsUtc zone tz t) grain weekStartsOn
      in case wallInstant zone tz start of None \<Rightarrow> None
         | Some s \<Rightarrow> map_option (Pair s) (wallInstant zone tz (wallNextStart start grain)))"

datatype WindowEdge = EdgeFrom | EdgeTo

definition shift_from :: "millis \<Rightarrow> int \<Rightarrow> millis" where
  "shift_from w years =
     (let tod = w - date_utc (utc_year w) (utc_month w) (utc_day w) 0 0 0;
          year = utc_year w + years;
          lastDay = utc_day (date_utc year (utc_month w + 1) 0 0 0 0)
      in date_utc year (utc_month w) (min (utc_day w) lastDay) 0 0 0 + tod)"

definition shiftWallYears :: "millis \<Rightarrow> int \<Rightarrow> WindowEdge \<Rightarrow> millis" where
  "shiftWallYears w years edge =
     (let tod = w - date_utc (utc_year w) (utc_month w) (utc_day w) 0 0 0
      in if edge = EdgeTo \<and> tod = 0 then shift_from (w - DAY) years + DAY else shift_from w years)"

definition shiftWindowYears ::
  "zone_data \<Rightarrow> string \<Rightarrow> millis \<times> millis \<Rightarrow> int \<Rightarrow> (millis \<times> millis) option" where
  "shiftWindowYears zone tz win years =
     (let edge = (\<lambda>t which. wallInstant zone tz (shiftWallYears (wallClockAsUtc zone tz t) years which))
      in case edge (fst win) EdgeFrom of None \<Rightarrow> None
         | Some s \<Rightarrow> map_option (Pair s) (edge (snd win) EdgeTo))"

text \<open>The first day of the \<open>n\<close>-th month, counting from March of the year 0.\<close>

definition march_day :: "int \<Rightarrow> int" where
  "march_day yy = 365 * yy + yy div 4 - yy div 100 + yy div 400 - 719468"

definition month_day :: "int \<Rightarrow> int" where
  "month_day k = march_day (k div 12) + (153 * (k mod 12) + 2) div 5"

lemma month_start_day_month_day: "month_start_day y m = month_day (12 * y + m - 2)"
proof -
  define q r where "q = m div 12" and "r = m mod 12"
  have m: "m = 12 * q + r" "0 \<le> r" "r < 12" unfolding q_def r_def by simp_all
  show ?thesis
  proof (cases "r < 2")
    case True
    have e: "12 * y + m - 2 = 12 * (y + q - 1) + (r + 10)" using m by simp
    have "(12 * y + m - 2) div 12 = y + q - 1" "(12 * y + m - 2) mod 12 = r + 10" "(r + 10) mod 12 = r + 10"
      using True m int_div_pos_eq [OF e] int_mod_pos_eq [OF e] by simp_all
    with True show ?thesis
      unfolding month_start_day_def month_day_def march_day_def Let_def q_def [symmetric] r_def [symmetric]
      by simp
  next
    case False
    have e: "12 * y + m - 2 = 12 * (y + q) + (r - 2)" "r + 10 = 12 * 1 + (r - 2)" using m by simp_all
    have "(12 * y + m - 2) div 12 = y + q" "(12 * y + m - 2) mod 12 = r - 2" "(r + 10) mod 12 = r - 2"
      using False m int_div_pos_eq [OF e(1)] int_mod_pos_eq [OF e(1)] int_mod_pos_eq [OF e(2)] by simp_all
    with False show ?thesis
      unfolding month_start_day_def month_day_def march_day_def Let_def q_def [symmetric] r_def [symmetric]
      by simp
  qed
qed

lemma march_day_step: "march_day yy + 365 \<le> march_day (yy + 1)"
proof -
  define c r where "c = yy div 100" and "r = yy mod 100"
  have yy: "yy = 100 * c + r" "0 \<le> r" "r < 100" unfolding c_def r_def by simp_all
  have mono: "yy div 4 \<le> (yy + 1) div 4" "yy div 400 \<le> (yy + 1) div 400" by (simp_all add: zdiv_mono1)
  show ?thesis
  proof (cases "r = 99")
    case True
    have e: "yy + 1 = 100 * (c + 1) + 0" "yy + 1 = 4 * (25 * c + 25) + 0" "yy = 4 * (25 * c + 24) + 3"
      using yy True by simp_all
    have "(yy + 1) div 100 = c + 1" "(yy + 1) div 4 = yy div 4 + 1"
      using int_div_pos_eq [OF e(1)] int_div_pos_eq [OF e(2)] int_div_pos_eq [OF e(3)] by simp_all
    then show ?thesis using mono unfolding march_day_def c_def by simp
  next
    case False
    have e: "yy + 1 = 100 * c + (r + 1)" using yy by simp
    have "(yy + 1) div 100 = yy div 100" using int_div_pos_eq [OF e] yy False unfolding c_def by simp
    then show ?thesis using mono unfolding march_day_def by simp
  qed
qed

lemma month_day_step: "month_day k < month_day (k + 1)"
proof (cases "k mod 12 = 11")
  case True
  have e: "k + 1 = 12 * (k div 12 + 1) + 0" using True mult_div_mod_eq [of 12 k] by (simp only: algebra_simps)
  have "(k + 1) div 12 = k div 12 + 1" "(k + 1) mod 12 = 0"
    using int_div_pos_eq [OF e] int_mod_pos_eq [OF e] by simp_all
  then show ?thesis unfolding month_day_def using True march_day_step [of "k div 12"] by simp
next
  case False
  have e: "k + 1 = 12 * (k div 12) + (k mod 12 + 1)" by simp
  have "k mod 12 + 1 < 12" using False pos_mod_bound [of 12 k] by linarith
  then have d: "(k + 1) div 12 = k div 12" "(k + 1) mod 12 = k mod 12 + 1"
    using int_div_pos_eq [OF e] int_mod_pos_eq [OF e] by simp_all
  have "(153 * (k mod 12) + 2 + 5) div 5 \<le> (153 * (k mod 12 + 1) + 2) div 5" by (rule zdiv_mono1) simp_all
  then have "(153 * (k mod 12) + 2) div 5 < (153 * (k mod 12 + 1) + 2) div 5" by simp
  then show ?thesis unfolding month_day_def d by simp
qed

lemma month_day_mono: "j \<le> k \<Longrightarrow> month_day j \<le> month_day k"
proof (induction k rule: int_ge_induct)
  case (step i)
  then show ?case using month_day_step [of i] by simp
qed simp

text \<open>The pieces of a date, with their ranges.\<close>

lemma utc_date_pieces:
  obtains yy mp doy where
    "utc_date ms = (if mp < 10 then yy else yy + 1, if mp < 10 then mp + 2 else mp - 10, doy - (153 * mp + 2) div 5 + 1)"
    and "365 * yy + yy div 4 - yy div 100 + yy div 400 + doy - 719468 = ms div DAY"
    and "0 \<le> mp" "mp < 12" "(153 * mp + 2) div 5 \<le> doy" "doy < (153 * (mp + 1) + 2) div 5"
    and "0 \<le> doy" "365 * yy + yy div 4 - yy div 100 + yy div 400 + doy
       < 365 * (yy + 1) + (yy + 1) div 4 - (yy + 1) div 100 + (yy + 1) div 400"
proof -
  define z where "z = ms div DAY + 719468"
  define era where "era = z div 146097"
  define doe where "doe = z mod 146097"
  define c where "c = min (doe div 36524) 3"
  define rc where "rc = doe - c * 36524"
  define q where "q = rc div 1461"
  define rq where "rq = rc mod 1461"
  define yr where "yr = min (rq div 365) 3"
  define doy where "doy = rq - yr * 365"
  define mp where "mp = (5 * doy + 2) div 153"
  define yoe where "yoe = c * 100 + q * 4 + yr"
  define yy where "yy = era * 400 + yoe"
  have z: "z = era * 146097 + doe" unfolding era_def doe_def by simp
  have doe: "0 \<le> doe" "doe < 146097" unfolding doe_def by auto
  have c: "0 \<le> c" "c \<le> 3" "0 \<le> rc" "rc \<le> 36524" "c < 3 \<Longrightarrow> rc < 36524"
    using doe unfolding c_def rc_def by (auto simp: min_def)
  have q: "0 \<le> q" "q \<le> 24" "rc = 1461 * q + rq" "0 \<le> rq" "rq < 1461"
    using c unfolding q_def rq_def by auto
  have yr: "0 \<le> yr" "yr \<le> 3" "0 \<le> doy" "doy \<le> 365" "yr < 3 \<Longrightarrow> doy < 365"
    using q unfolding yr_def doy_def by (auto simp: min_def)
  have leap: "doy < 365" if "yr = 3" "q = 24" "c < 3"
    using that c q unfolding doy_def by simp
  have yyq: "yy = 4 * (100 * era + 25 * c + q) + yr" "yy = 100 * (4 * era + c) + (4 * q + yr)"
    "yy = 400 * era + (100 * c + 4 * q + yr)"
    unfolding yy_def yoe_def by simp_all
  have divs: "yy div 4 = 100 * era + 25 * c + q" "yy div 100 = 4 * era + c" "yy div 400 = era"
    using c q yr int_div_pos_eq [OF yyq(1)] int_div_pos_eq [OF yyq(2)] int_div_pos_eq [OF yyq(3)] by simp_all
  have total: "365 * yy + yy div 4 - yy div 100 + yy div 400 + doy = z"
    unfolding divs using z q(3) unfolding yy_def yoe_def doy_def rc_def by simp
  have mp: "0 \<le> mp" "mp < 12" "(153 * mp + 2) div 5 \<le> doy" "doy < (153 * (mp + 1) + 2) div 5"
  proof -
    have b: "153 * mp \<le> 5 * doy + 2" "5 * doy + 2 < 153 * mp + 153" unfolding mp_def by simp_all
    then show "0 \<le> mp" "mp < 12" using yr by simp_all
    have "(153 * mp + 2) div 5 \<le> (5 * doy + 4) div 5" by (rule zdiv_mono1) (use b in simp_all)
    then show "(153 * mp + 2) div 5 \<le> doy" by simp
    have "(5 * doy + 5) div 5 \<le> (153 * (mp + 1) + 2) div 5" by (rule zdiv_mono1) (use b in simp_all)
    then show "doy < (153 * (mp + 1) + 2) div 5" by simp
  qed
  have next_year: "doy < 365 + ((yy + 1) div 4 - yy div 4) - ((yy + 1) div 100 - yy div 100)
      + ((yy + 1) div 400 - yy div 400)"
  proof (cases "yr < 3")
    case True
    have y1: "yy + 1 = 4 * (100 * era + 25 * c + q) + (yr + 1)" "yy + 1 = 100 * (4 * era + c) + (4 * q + yr + 1)"
      "yy + 1 = 400 * era + (100 * c + 4 * q + yr + 1)"
      using yyq by simp_all
    have "(yy + 1) div 4 = yy div 4" "(yy + 1) div 100 = yy div 100" "(yy + 1) div 400 = yy div 400"
      unfolding divs using True c q yr int_div_pos_eq [OF y1(1)] int_div_pos_eq [OF y1(2)]
        int_div_pos_eq [OF y1(3)] by simp_all
    then show ?thesis using yr(5) True by simp
  next
    case False
    then have y3: "yr = 3" using yr by simp
    have y1: "yy + 1 = 4 * (100 * era + 25 * c + q + 1) + 0" using yyq y3 by simp
    have d4: "(yy + 1) div 4 = yy div 4 + 1" unfolding divs using int_div_pos_eq [OF y1] by simp
    show ?thesis
    proof (cases "q < 24")
      case True
      have y1: "yy + 1 = 100 * (4 * era + c) + (4 * q + 4)" "yy + 1 = 400 * era + (100 * c + 4 * q + 4)"
        using yyq y3 by simp_all
      have "(yy + 1) div 100 = yy div 100" "(yy + 1) div 400 = yy div 400"
        unfolding divs using True c q int_div_pos_eq [OF y1(1)] int_div_pos_eq [OF y1(2)] by simp_all
      then show ?thesis using d4 yr by simp
    next
      case False
      then have q24: "q = 24" using q by simp
      have y1: "yy + 1 = 100 * (4 * era + c + 1) + 0" using yyq y3 q24 by simp
      have d100: "(yy + 1) div 100 = yy div 100 + 1" unfolding divs using int_div_pos_eq [OF y1] by simp
      show ?thesis
      proof (cases "c < 3")
        case True
        have y1: "yy + 1 = 400 * era + (100 * c + 100)" using yyq y3 q24 by simp
        have "(yy + 1) div 400 = yy div 400" unfolding divs using c True int_div_pos_eq [OF y1] by simp
        then show ?thesis using d4 d100 leap [OF y3 q24 True] by simp
      next
        case False
        then have y1: "yy + 1 = 400 * (era + 1) + 0" using yyq y3 q24 c by simp
        have "(yy + 1) div 400 = yy div 400 + 1" unfolding divs using int_div_pos_eq [OF y1] by simp
        then show ?thesis using d4 d100 yr by simp
      qed
    qed
  qed
  show ?thesis
  proof (rule that [of mp yy doy])
    show "utc_date ms = (if mp < 10 then yy else yy + 1, if mp < 10 then mp + 2 else mp - 10,
        doy - (153 * mp + 2) div 5 + 1)"
      unfolding utc_date_defs z_def [symmetric] era_def [symmetric] doe_def [symmetric]
        c_def [symmetric] rc_def [symmetric] q_def [symmetric] rq_def [symmetric] yr_def [symmetric]
        doy_def [symmetric] mp_def [symmetric]
      by (auto simp: yy_def yoe_def)
    show "365 * yy + yy div 4 - yy div 100 + yy div 400 + doy - 719468 = ms div DAY"
      using total unfolding z_def by simp
    show "365 * yy + yy div 4 - yy div 100 + yy div 400 + doy
        < 365 * (yy + 1) + (yy + 1) div 4 - (yy + 1) div 100 + (yy + 1) div 400"
      using next_year by (simp add: algebra_simps)
  qed (fact mp yr(3))+
qed


text \<open>The month of an instant, as the interval of days it covers.\<close>

definition month_index :: "millis \<Rightarrow> int" where
  "month_index ms = 12 * utc_year ms + utc_month ms"

lemma month_index:
  shows "month_day (month_index ms - 2) \<le> ms div DAY" and "ms div DAY < month_day (month_index ms - 1)"
    and "utc_day ms = ms div DAY - month_day (month_index ms - 2) + 1"
    and "0 \<le> utc_month ms" and "utc_month ms < 12"
proof -
  obtain yy mp doy where u: "utc_date ms = (if mp < 10 then yy else yy + 1,
      if mp < 10 then mp + 2 else mp - 10, doy - (153 * mp + 2) div 5 + 1)"
    and z: "365 * yy + yy div 4 - yy div 100 + yy div 400 + doy - 719468 = ms div DAY"
    and mp: "0 \<le> mp" "mp < 12" "(153 * mp + 2) div 5 \<le> doy" "doy < (153 * (mp + 1) + 2) div 5"
    and y: "365 * yy + yy div 4 - yy div 100 + yy div 400 + doy
       < 365 * (yy + 1) + (yy + 1) div 4 - (yy + 1) div 100 + (yy + 1) div 400"
    by (rule utc_date_pieces)
  have k: "month_index ms - 2 = 12 * yy + mp"
    unfolding month_index_def utc_year_def utc_month_def u by simp
  have start: "month_day (month_index ms - 2) = march_day yy + (153 * mp + 2) div 5"
    unfolding k month_day_def using mp by simp
  have z': "ms div DAY = march_day yy + doy" using z unfolding march_day_def by simp
  show "month_day (month_index ms - 2) \<le> ms div DAY" unfolding start z' using mp by simp
  show "utc_day ms = ms div DAY - month_day (month_index ms - 2) + 1"
    unfolding start z' utc_day_def u by simp
  show "0 \<le> utc_month ms" "utc_month ms < 12" unfolding utc_month_def u using mp by auto
  have k1: "month_index ms - 1 = 12 * yy + mp + 1" using k by simp
  show "ms div DAY < month_day (month_index ms - 1)"
  proof (cases "mp = 11")
    case True
    then have k2: "month_index ms - 1 = 12 * (yy + 1)" using k1 by simp
    have "month_day (12 * (yy + 1)) = march_day (yy + 1)" unfolding month_day_def by simp
    then have "month_day (month_index ms - 1) = march_day (yy + 1)" unfolding k2 .
    then show ?thesis unfolding z' using y unfolding march_day_def by simp
  next
    case False
    then have "mp + 1 < 12" using mp by simp
    moreover have e: "12 * yy + mp + 1 = 12 * yy + (mp + 1)" by simp
    ultimately have "(12 * yy + mp + 1) div 12 = yy" "(12 * yy + mp + 1) mod 12 = mp + 1"
      using mp(1) int_div_pos_eq [OF e] int_mod_pos_eq [OF e] by simp_all
    then show ?thesis unfolding k1 month_day_def z' using mp by simp
  qed
qed

lemma month_index_unique:
  assumes "month_day k \<le> ms div DAY" and "ms div DAY < month_day (k + 1)"
  shows "month_index ms = k + 2"
proof -
  note m = month_index(1,2) [of ms]
  have "\<not> k + 1 \<le> month_index ms - 2" using month_day_mono [of "k + 1" "month_index ms - 2"] m assms by linarith
  moreover have "\<not> month_index ms - 1 \<le> k" using month_day_mono [of "month_index ms - 1" k] m assms by linarith
  ultimately show ?thesis by simp
qed


definition ce_year :: "int \<Rightarrow> bool" where
  "ce_year y \<longleftrightarrow> \<not> (0 \<le> y \<and> y \<le> 99)"

lemma date_utc_day:
  "ce_year y \<Longrightarrow> date_utc y m d 0 0 0 = (month_day (12 * y + m - 2) + d - 1) * DAY"
  unfolding date_utc_def month_start_day_month_day ce_year_def by (auto simp: Let_def algebra_simps)

lemma date_utc_utc_date:
  "ce_year (utc_year w) \<Longrightarrow> date_utc (utc_year w) (utc_month w) (utc_day w) 0 0 0 = w div DAY * DAY"
  using month_index(3) [of w] by (simp add: date_utc_day month_index_def)

lemma day_div [simp]: "(k * DAY) div DAY = k" "(k * DAY) mod DAY = 0" "DAY \<noteq> 0"
  by (simp_all add: DAY_def)

text \<open>The first instant of a month reads back as that month's first day.\<close>

lemma utc_date_month_start:
  assumes "0 \<le> m" "m < 12"
  shows "utc_year (month_day (12 * y + m - 2) * DAY) = y" (is "utc_year ?w = y")
    and "utc_month (month_day (12 * y + m - 2) * DAY) = m"
    and "utc_day (month_day (12 * y + m - 2) * DAY) = 1"
proof -
  have i: "month_index ?w = 12 * y + m"
    using month_index_unique [of "12 * y + m - 2" ?w] month_day_step [of "12 * y + m - 2"] by simp
  note b = month_index(4,5) [of ?w]
  have e: "12 * utc_year ?w + utc_month ?w = 12 * y + m" using i unfolding month_index_def .
  then show "utc_year ?w = y" using b assms by presburger
  with e show "utc_month ?w = m" by simp
  show "utc_day ?w = 1" using month_index(3) [of ?w] i by simp
qed

lemma wall_day_bounds: "w div DAY * DAY \<le> w" "w < w div DAY * DAY + DAY"
  by (simp_all add: DAY_def)

lemma utc_year_mono: "w \<le> w' \<Longrightarrow> utc_year w \<le> utc_year w'"
proof -
  assume "w \<le> w'"
  then have "w div DAY \<le> w' div DAY" by (simp add: zdiv_mono1 DAY_def)
  then have "month_index w \<le> month_index w'"
    using month_index(1,2) [of w] month_index(1,2) [of w']
      month_day_mono [of "month_index w' - 1" "month_index w - 2"] by linarith
  then show ?thesis using month_index(4,5) [of w] month_index(4,5) [of w'] unfolding month_index_def
    by linarith
qed

lemma less_day: "w div DAY < k \<Longrightarrow> w < k * DAY"
  using wall_day_bounds(2) [of w] by (simp add: DAY_def)

lemma day_le: "k \<le> w div DAY \<Longrightarrow> k * DAY \<le> w"
  using wall_day_bounds(1) [of w] by (simp add: DAY_def)

definition week_lag :: "int \<Rightarrow> int \<Rightarrow> int" where
  "week_lag d weekStartsOn = ((d + 4) mod 7 + 6) mod 7 + 1 - weekStartsOn + 7"

lemma week_lag_mod: "week_lag d k mod 7 = (d + 11 - k) mod 7"
proof -
  have "week_lag d k mod 7 = (((d + 4) mod 7 + 6) mod 7 + (8 - k)) mod 7" unfolding week_lag_def
    by (rule arg_cong [where f = "\<lambda>x. x mod 7"]) simp
  also have "\<dots> = (d + 4 + 6 + (8 - k)) mod 7" by (simp only: mod_simps)
  also have "\<dots> = (d + 11 - k + 7) mod 7" by (rule arg_cong [where f = "\<lambda>x. x mod 7"]) simp
  finally show ?thesis unfolding mod_add_self2 .
qed

lemma week_lag: "week_lag (d - week_lag d k mod 7 + 7) k mod 7 = 0"
proof -
  have "d - (d + 11 - k) mod 7 + 7 + 11 - k = (d + 11 - k) - (d + 11 - k) mod 7 + 7" by simp
  also have "\<dots> mod 7 = 0" unfolding mod_add_self2 by (simp add: mod_simps)
  finally show ?thesis unfolding week_lag_mod .
qed

lemma wallPeriodStart_days:
  assumes "99 < utc_year w"
  shows "wallPeriodStart w GDay k = w div DAY * DAY"
    and "wallPeriodStart w GWeek k = (w div DAY - week_lag (w div DAY) k mod 7) * DAY"
    and "wallPeriodStart w GMonth k = month_day (month_index w - 2) * DAY"
    and "wallPeriodStart w GYear k = month_day (12 * utc_year w - 2) * DAY"
proof -
  have ce: "ce_year (utc_year w)" using assms unfolding ce_year_def by simp
  note d = date_utc_utc_date [OF ce]
  show "wallPeriodStart w GDay k = w div DAY * DAY" unfolding wallPeriodStart_def Let_def using d by simp
  show "wallPeriodStart w GWeek k = (w div DAY - week_lag (w div DAY) k mod 7) * DAY"
    unfolding wallPeriodStart_def Let_def week_lag_def utc_weekday_def using d by (simp add: left_diff_distrib)
  show "wallPeriodStart w GMonth k = month_day (month_index w - 2) * DAY"
    unfolding wallPeriodStart_def Let_def by (simp add: date_utc_day [OF ce] month_index_def)
  show "wallPeriodStart w GYear k = month_day (12 * utc_year w - 2) * DAY"
    unfolding wallPeriodStart_def Let_def by (simp add: date_utc_day [OF ce])
qed

lemma period_days:
  assumes "wallPeriodStart w g k = s * DAY" and "wallNextStart (s * DAY) g = e * DAY"
    and "s \<le> w div DAY" and "w div DAY < e" and "wallPeriodStart (e * DAY) g k = e * DAY"
  shows "wallPeriodStart w g k \<le> w \<and> w < wallNextStart (wallPeriodStart w g k) g
    \<and> wallPeriodStart (wallNextStart (wallPeriodStart w g k) g) g k = wallNextStart (wallPeriodStart w g k) g"
  using assms less_day [of w e] day_le [of s w] by simp

text \<open>Calendar periods tile the wall clock: every grain's period starts at or before the
  wall clock it contains, ends after it, and where it ends the next period starts.\<close>

theorem periods_tile:
  assumes "99 < utc_year w"
  shows "wallPeriodStart w grain weekStartsOn \<le> w
    \<and> w < wallNextStart (wallPeriodStart w grain weekStartsOn) grain
    \<and> wallPeriodStart (wallNextStart (wallPeriodStart w grain weekStartsOn) grain) grain weekStartsOn
        = wallNextStart (wallPeriodStart w grain weekStartsOn) grain"
proof -
  have later: "99 < utc_year (e * DAY)" if "w div DAY < e" for e
    using assms utc_year_mono [of w "e * DAY"] less_day [OF that] by simp
  note start = wallPeriodStart_days [OF assms]
  show ?thesis
  proof (cases grain)
    case GHour
    have "w div HOUR * HOUR \<le> w" "w < w div HOUR * HOUR + HOUR"
      and "(w div HOUR * HOUR + HOUR) div HOUR * HOUR = w div HOUR * HOUR + HOUR"
      by (simp_all add: HOUR_def)
    then show ?thesis unfolding GHour wallPeriodStart_def wallNextStart_def Let_def by simp
  next
    case GDay
    show ?thesis unfolding GDay
    proof (rule period_days [of _ _ _ "w div DAY" "w div DAY + 1"])
      show "wallPeriodStart w GDay weekStartsOn = w div DAY * DAY" by (rule start(1))
      show "wallPeriodStart ((w div DAY + 1) * DAY) GDay weekStartsOn = (w div DAY + 1) * DAY"
        using wallPeriodStart_days(1) [OF later, of "w div DAY + 1"] by simp
    qed (simp_all add: wallNextStart_def distrib_right)
  next
    case GWeek
    define s where "s = w div DAY - week_lag (w div DAY) weekStartsOn mod 7"
    have s: "s \<le> w div DAY" "w div DAY < s + 7" unfolding s_def by simp_all
    show ?thesis unfolding GWeek
    proof (rule period_days [of _ _ _ s "s + 7"])
      show "wallPeriodStart w GWeek weekStartsOn = s * DAY" using start(2) unfolding s_def .
      show "wallPeriodStart ((s + 7) * DAY) GWeek weekStartsOn = (s + 7) * DAY"
        using wallPeriodStart_days(2) [OF later [OF s(2)]] week_lag [of "w div DAY" weekStartsOn]
        unfolding s_def by simp
    qed (use s in \<open>simp_all add: wallNextStart_def distrib_right\<close>)
  next
    case GMonth
    note m = month_index(4,5) [of w]
    have next_month: "w div DAY < month_day (month_index w - 1)" by (rule month_index(2))
    have ym: "utc_year (month_day (month_index w - 2) * DAY) = utc_year w"
      "utc_month (month_day (month_index w - 2) * DAY) = utc_month w"
      unfolding month_index_def using utc_date_month_start(1,2) [OF m] by simp_all
    show ?thesis unfolding GMonth
    proof (rule period_days [of _ _ _ "month_day (month_index w - 2)" "month_day (month_index w - 1)"])
      show "wallPeriodStart w GMonth weekStartsOn = month_day (month_index w - 2) * DAY" by (rule start(3))
      have ce: "ce_year (utc_year w)" using assms unfolding ce_year_def by simp
      show "wallNextStart (month_day (month_index w - 2) * DAY) GMonth = month_day (month_index w - 1) * DAY"
        unfolding wallNextStart_def ym by (simp add: date_utc_day [OF ce] month_index_def algebra_simps)
      have "month_index (month_day (month_index w - 1) * DAY) = month_index w + 1"
        using month_index_unique [of "month_index w - 1"] month_day_step [of "month_index w - 1"] by simp
      then show "wallPeriodStart (month_day (month_index w - 1) * DAY) GMonth weekStartsOn =
          month_day (month_index w - 1) * DAY"
        using wallPeriodStart_days(3) [OF later [OF next_month]] by simp
    qed (use next_month month_index(1) in simp_all)
  next
    case GYear
    note m = month_index(4,5) [of w]
    define s e where "s = month_day (12 * utc_year w - 2)" and "e = month_day (12 * (utc_year w + 1) - 2)"
    have "s \<le> month_day (month_index w - 2)" "month_day (month_index w - 1) \<le> e"
      unfolding s_def e_def by (rule month_day_mono, use m in \<open>simp add: month_index_def\<close>)+
    then have se: "s \<le> w div DAY" "w div DAY < e" using month_index(1,2) [of w] by simp_all
    have ys: "utc_year (s * DAY) = utc_year w" "utc_year (e * DAY) = utc_year w + 1"
      using utc_date_month_start(1) [of 0 "utc_year w"] utc_date_month_start(1) [of 0 "utc_year w + 1"]
      unfolding s_def e_def by simp_all
    show ?thesis unfolding GYear
    proof (rule period_days [of _ _ _ s e])
      show "wallPeriodStart w GYear weekStartsOn = s * DAY" using start(4) unfolding s_def .
      have ce: "ce_year (utc_year w + 1)" using assms unfolding ce_year_def by simp
      show "wallNextStart (s * DAY) GYear = e * DAY"
        unfolding wallNextStart_def ys by (simp add: date_utc_day [OF ce] e_def)
      show "wallPeriodStart (e * DAY) GYear weekStartsOn = e * DAY"
        using wallPeriodStart_days(4) [OF later [OF se(2)]] unfolding ys by (simp add: e_def)
    qed (use se in simp_all)
  qed
qed


lemma periods_tile_witness:
  "wallPeriodStart 1774750000000 GMonth 1 \<le> (1774750000000 :: millis)
    \<and> (1774750000000 :: millis) < wallNextStart (wallPeriodStart 1774750000000 GMonth 1) GMonth"
  using periods_tile [of 1774750000000 GMonth 1]
  by (simp add: utc_year_def utc_date_defs DAY_def)

subsection \<open>Zones given by their offsets\<close>

text \<open>The fields a zone shows whose offset at each instant is \<open>offs\<close>.\<close>

definition zone_of :: "(millis \<Rightarrow> millis) \<Rightarrow> zone_data" where
  "zone_of offs tz c = (let w = c + offs c
     in \<lparr>zp_year = utc_year w, zp_month = utc_month w + 1, zp_day = utc_day w,
       zp_hour = w mod DAY div HOUR, zp_minute = w mod HOUR div MINUTE,
       zp_second = w mod MINUTE div 1000\<rparr>)"

lemma div_less_of_less_mult: "0 < q \<Longrightarrow> a < n * q \<Longrightarrow> a div q < n" for a n q :: int
proof -
  assume q: "0 < q" and a: "a < n * q"
  have "a div q * q \<le> a" using pos_mod_sign [OF q, of a] div_mult_mod_eq [of a q] by linarith
  with a have "a div q * q < n * q" by linarith
  then show "a div q < n" using q by (simp add: mult_less_cancel_right)
qed

lemma zone_of_digits: "proper_digits (zone_of offs tz c)"
proof -
  have "x mod HOUR div MINUTE < 60" "x mod MINUTE div 1000 < 60" for x
    by (rule div_less_of_less_mult; simp add: calendar_units)+
  moreover have "0 \<le> x mod HOUR div MINUTE" "0 \<le> x mod MINUTE div 1000" for x
    by (simp_all add: calendar_units pos_imp_zdiv_nonneg_iff)
  ultimately show ?thesis unfolding proper_digits_def zone_of_def Let_def by simp
qed

lemma zone_of_wall:
  assumes "99 < utc_year (c + offs c)"
  shows "wallClockAsUtc (zone_of offs) tz c = (c + offs c) - (c + offs c) mod 1000"
proof -
  define w where "w = c + offs c"
  have ce: "ce_year (utc_year w)" using assms unfolding ce_year_def w_def by simp
  define h where "h = w mod DAY div HOUR"
  have h: "0 \<le> h" "h < 24"
    unfolding h_def by (simp add: calendar_units pos_imp_zdiv_nonneg_iff)
      (rule div_less_of_less_mult; simp add: calendar_units)
  have mid: "month_start_day (utc_year w) (utc_month w) + (utc_day w - 1) = w div DAY"
    unfolding month_start_day_month_day using month_index(3) [of w] by (simp add: month_index_def)
  have "wallClockAsUtc (zone_of offs) tz c = w div DAY * DAY + h * HOUR
      + w mod HOUR div MINUTE * MINUTE + w mod MINUTE div 1000 * 1000"
    unfolding wallClockAsUtc_def zoneParts_def zone_of_def Let_def w_def [symmetric] h_def [symmetric]
    using ce mid h unfolding date_utc_def ce_year_def by (auto simp: Let_def)
  moreover have "w mod HOUR = w mod DAY mod HOUR" "w mod MINUTE = w mod HOUR mod MINUTE"
    "w mod 1000 = w mod MINUTE mod 1000"
    by (simp_all add: calendar_units mod_mod_cancel)
  then have "w mod DAY = h * HOUR + w mod HOUR" "w mod HOUR = w mod HOUR div MINUTE * MINUTE + w mod MINUTE"
    "w mod MINUTE = w mod MINUTE div 1000 * 1000 + w mod 1000"
    unfolding h_def by (simp_all only: div_mult_mod_eq)
  moreover have "w = w div DAY * DAY + w mod DAY" by simp
  ultimately have "wallClockAsUtc (zone_of offs) tz c = w - w mod 1000" by linarith
  then show ?thesis unfolding w_def .
qed

lemma zone_of_transition:
  assumes "99 < utc_year (lo - DAY)" and "\<bar>a\<bar> < DAY" "\<bar>b\<bar> < DAY" and "MINUTE dvd a" "MINUTE dvd b" "MINUTE dvd T"
  shows "one_transition (zone_of (\<lambda>c. if c < T then a else b)) tz lo hi T a b"
  unfolding one_transition_def
proof (intro conjI allI impI)
  fix c assume "lo \<le> c \<and> c \<le> hi"
  define off where "off = (if c < T then a else b)"
  have "1000 dvd off" using assms(4,5) dvd_trans [of 1000 MINUTE off] unfolding off_def by (simp add: MINUTE_def)
  then obtain k where k: "off = 1000 * k" by (elim dvdE)
  have "lo - DAY \<le> c + off" using \<open>lo \<le> c \<and> c \<le> hi\<close> assms(2,3) unfolding off_def by (auto split: if_splits)
  then have "99 < utc_year (c + off)" using utc_year_mono [of "lo - DAY" "c + off"] assms(1) by simp
  then have "wallClockAsUtc (zone_of (\<lambda>c. if c < T then a else b)) tz c = (c + off) - (c + off) mod 1000"
    using zone_of_wall [of c "\<lambda>c. if c < T then a else b"] unfolding off_def by simp
  also have "\<dots> = c - c mod 1000 + off" unfolding k by simp
  finally show "wallClockAsUtc (zone_of (\<lambda>c. if c < T then a else b)) tz c =
      c - c mod 1000 + (if c < T then a else b)" unfolding off_def .
qed (use assms in auto)

text \<open>Berlin on the last Sunday of March 2026, an hour after its clocks went forward.\<close>

lemma day_contains_instant_witness:
  "\<exists>s e. dayStart (zone_of (\<lambda>c. if c < 1774746000000 then 3600000 else 7200000)) ''Europe/Berlin'' 1774750000123 = Some s
    \<and> nextDayStart (zone_of (\<lambda>c. if c < 1774746000000 then 3600000 else 7200000)) ''Europe/Berlin'' 1774750000123 = Some e
    \<and> s \<le> 1774750000123 \<and> 1774750000123 < e"
proof (rule day_contains_instant [OF zone_of_transition])
  show "99 < utc_year (1774750000123 - 4 * DAY - DAY)"
    by (simp add: utc_year_def utc_date_defs DAY_def)
qed (simp_all add: zone_of_digits calendar_units)

text \<open>
  Where the hypothesis on the repeated midnight fails the day does not contain its instant:
  St. John's put its clocks back from 00:01 to 23:01 on 2 November 2008, and at the second
  23:31 of 1 November the next day has "started" 31 minutes before.
\<close>

lemma repeated_midnight_before_now:
  "nextDayStart (zone_of (\<lambda>c. if c < 1225593060000 then -9000000 else -12600000)) ''America/St_Johns'' 1225594860000
    = Some 1225593000000"
  by code_simp


text \<open>
  Off whole minutes the bisection can stall: a span between one and two minutes whose start is
  before the transition is halved to itself for ever.
\<close>

lemma bisect_offset_stalls:
  assumes "MINUTE < hi - lo" and "hi - lo < 2 * MINUTE" and "offs lo \<noteq> target"
  shows "bisect_offset offs target lo hi = None"
proof (rule ccontr)
  assume "bisect_offset offs target lo hi \<noteq> None"
  then obtain r where r: "bisect_offset offs target lo hi = Some r" by auto
  have "\<not> (MINUTE < hi - lo \<and> hi - lo < 2 * MINUTE \<and> offs lo \<noteq> target)"
  proof (rule bisect_offset.raw_induct [OF _ r,
      where P = "\<lambda>offs target lo hi r. \<not> (MINUTE < hi - lo \<and> hi - lo < 2 * MINUTE \<and> offs lo \<noteq> target)"])
    fix rec :: "(millis \<Rightarrow> millis) \<Rightarrow> millis \<Rightarrow> millis \<Rightarrow> millis \<Rightarrow> millis option"
      and offs target lo hi y
    assume IH: "\<And>offs target lo hi y. rec offs target lo hi = Some y \<Longrightarrow>
        \<not> (MINUTE < hi - lo \<and> hi - lo < 2 * MINUTE \<and> offs lo \<noteq> target)"
      and eq: "(if MINUTE < hi - lo
          then let mid = lo + (hi - lo) div (2 * MINUTE) * MINUTE
               in if offs mid = target then rec offs target lo mid else rec offs target mid hi
          else Some hi) = Some y"
    have "(hi - lo) div (2 * MINUTE) = 0" if "MINUTE < hi - lo" "hi - lo < 2 * MINUTE"
      by (rule div_pos_pos_trivial) (use that in \<open>auto simp: MINUTE_def\<close>)
    with IH [of offs target lo hi y] eq
    show "\<not> (MINUTE < hi - lo \<and> hi - lo < 2 * MINUTE \<and> offs lo \<noteq> target)"
      by (cases "offs lo = target") (auto simp: Let_def)
  qed
  with assms show False by blast
qed

text \<open>
  Berlin left local mean time (53 min 28 s) for +1:00 at its midnight of 1 April 1893, so that
  day's start is looked for in the last second of a span of 392 s: the call never returns.
\<close>

lemma berlin_1893_never_returns:
  "bisect_offset (\<lambda>c. if c < T then 3208000 else 3600000) 3600000 (T - 392000) T = None"
proof -
  let ?offs = "\<lambda>c. if c < T then 3208000 else (3600000::int)"
  have "bisect_offset ?offs 3600000 (T - 92000) T = None"
    by (rule bisect_offset_stalls) (simp_all add: MINUTE_def)
  then have "bisect_offset ?offs 3600000 (T - 152000) T = None"
    by (subst bisect_offset.simps) (simp add: MINUTE_def Let_def)
  then have "bisect_offset ?offs 3600000 (T - 212000) T = None"
    by (subst bisect_offset.simps) (simp add: MINUTE_def Let_def)
  then show ?thesis by (subst bisect_offset.simps) (simp add: MINUTE_def Let_def)
qed

end
