(* ===== verification/Slot_Window.thy ===== *)
theory Slot_Window
  imports Zoned_Calendar
begin

text \<open>
  \<^verbatim>\<open>apps/server/src/automation/slot-window.ts\<close>, the geometry of forecast slots, and
  \<^verbatim>\<open>apps/server/src/energy/energy-flow.ts\<close>, the physics of one slot.

  A point's label \<open>YYYY-MM-DDTHH:MM\<close> is carried as its five numbers, and \<open>Date.parse\<close> of the label
  with \<open>:00Z\<close> appended is the instant they name. \<open>remainingSlotsToday\<close> reads the calendar of the
  slice's zone; its day is the value the calendar returns, which \<open>day_contains_instant\<close> shows to
  exist. A bound the source may give as \<open>Infinity\<close> is an option, \<open>None\<close> for no bound.
\<close>

definition HOUR_MS :: number where "HOUR_MS = 3600000"

record LocalMinute =
  lm_year :: int
  lm_month :: int
  lm_day :: int
  lm_hour :: int
  lm_minute :: int

record SolarForecastPoint =
  fp_time :: LocalMinute
  fp_watts :: number
  fp_peakWatts :: number

record ForecastSlice =
  fs_series :: "SolarForecastPoint list"
  fs_stepMinutes :: int
  fs_utcOffsetSeconds :: int
  fs_timeZone :: string

record ForecastSlot =
  sl_startMs :: millis
  sl_remainingMs :: millis
  sl_watts :: number

record slot_span =
  sp_startMs :: millis
  sp_widthMs :: millis
  sp_watts :: number

definition date_parse :: "LocalMinute \<Rightarrow> millis" where
  "date_parse l = (month_start_day (lm_year l) (lm_month l - 1) + (lm_day l - 1)) * DAY
     + lm_hour l * HOUR + lm_minute l * MINUTE"

definition slotWidthMs :: "millis \<Rightarrow> LocalMinute option \<Rightarrow> millis \<Rightarrow> millis \<Rightarrow> millis" where
  "slotWidthMs startMs nextTime offsetMs fallbackWidthMs =
     (case nextTime of
        None \<Rightarrow> fallbackWidthMs
      | Some nt \<Rightarrow> let gap = date_parse nt - offsetMs - startMs
          in if 0 < gap \<and> gap \<le> HOUR then gap else fallbackWidthMs)"

definition startOf :: "LocalMinute \<Rightarrow> millis \<Rightarrow> millis" where
  "startOf t offsetMs = date_parse t - offsetMs"

fun spans_from :: "millis \<Rightarrow> millis \<Rightarrow> SolarForecastPoint list \<Rightarrow> slot_span list" where
  "spans_from offsetMs fallbackWidth [] = []"
| "spans_from offsetMs fallbackWidth (p # ps) =
     (let startMs = startOf (fp_time p) offsetMs;
          nextTime = (case ps of [] \<Rightarrow> None | q # _ \<Rightarrow> Some (fp_time q))
      in \<lparr>sp_startMs = startMs, sp_widthMs = slotWidthMs startMs nextTime offsetMs fallbackWidth,
          sp_watts = fp_watts p\<rparr>) # spans_from offsetMs fallbackWidth ps"

definition spansOf :: "ForecastSlice \<Rightarrow> slot_span list" where
  "spansOf view = spans_from (fs_utcOffsetSeconds view * 1000) (fs_stepMinutes view * 60000) (fs_series view)"

definition slot_between :: "millis \<Rightarrow> millis \<Rightarrow> slot_span \<Rightarrow> ForecastSlot option" where
  "slot_between fromMs toMs s =
     (let overlapMs = min (sp_startMs s + sp_widthMs s) toMs - max (sp_startMs s) fromMs
      in if overlapMs \<le> 0 then None
         else Some \<lparr>sl_startMs = sp_startMs s, sl_remainingMs = overlapMs, sl_watts = sp_watts s\<rparr>)"

definition slotsBetween :: "ForecastSlice \<Rightarrow> millis \<Rightarrow> millis \<Rightarrow> ForecastSlot list" where
  "slotsBetween view fromMs toMs = List.map_filter (slot_between fromMs toMs) (spansOf view)"

definition slot_today :: "millis \<Rightarrow> millis \<Rightarrow> millis \<Rightarrow> slot_span \<Rightarrow> ForecastSlot option" where
  "slot_today todayStartMs tomorrowStartMs fromMs s =
     (if sp_startMs s < todayStartMs \<or> sp_startMs s \<ge> tomorrowStartMs then None
      else let remainingMs = min (sp_startMs s + sp_widthMs s - fromMs) (sp_widthMs s)
        in if remainingMs \<le> 0 then None
           else Some \<lparr>sl_startMs = sp_startMs s, sl_remainingMs = remainingMs, sl_watts = sp_watts s\<rparr>)"

definition remainingSlotsToday :: "zone_data \<Rightarrow> ForecastSlice \<Rightarrow> millis \<Rightarrow> ForecastSlot list" where
  "remainingSlotsToday zone view fromMs =
     (let todayStartMs = the (dayStart zone (fs_timeZone view) fromMs);
          tomorrowStartMs = the (nextDayStart zone (fs_timeZone view) fromMs)
      in List.map_filter (slot_today todayStartMs tomorrowStartMs fromMs) (spansOf view))"

definition slot_hours :: "ForecastSlot \<Rightarrow> number" where
  "slot_hours s = of_int (sl_remainingMs s) / HOUR_MS"

subsection \<open>The flow of one slice\<close>

record FlowLimits =
  fl_chargeCeilingW :: "number option"
  fl_headroomKwh :: number
  fl_aboveFloorKwh :: number
  fl_exportCeilingW :: "number option"

record SlotFlows =
  sf_chargeW :: number
  sf_dischargeW :: number
  sf_exportW :: number
  sf_curtailedW :: number

definition cap_at :: "number option \<Rightarrow> number \<Rightarrow> number" where
  "cap_at c x = (case c of None \<Rightarrow> x | Some m \<Rightarrow> min m x)"

definition flowStep :: "number \<Rightarrow> number \<Rightarrow> number \<Rightarrow> FlowLimits \<Rightarrow> SlotFlows" where
  "flowStep pvW loadW hours l =
     (let pv = max 0 pvW; load = max 0 loadW; surplusW = max 0 (pv - load);
          fitsW = (if hours > 0 then max 0 (fl_headroomKwh l) * 1000 / hours else 0);
          chargeW = max 0 (cap_at (fl_chargeCeilingW l) (min surplusW fitsW));
          sellableW = surplusW - chargeW;
          exportW = max 0 (cap_at (fl_exportCeilingW l) sellableW);
          deficitW = max 0 (load - pv);
          drainableW = (if hours > 0 then max 0 (fl_aboveFloorKwh l) * 1000 / hours else 0)
      in \<lparr>sf_chargeW = chargeW, sf_dischargeW = min deficitW drainableW, sf_exportW = exportW,
          sf_curtailedW = sellableW - exportW\<rparr>)"

subsection \<open>Slots\<close>

lemma slot_between_pos: "slot_between a b s = Some t \<Longrightarrow> 0 < sl_remainingMs t"
  unfolding slot_between_def by (auto simp: Let_def split: if_splits)

lemma slotsBetween_pos: "t \<in> set (slotsBetween view a b) \<Longrightarrow> 0 < sl_remainingMs t"
  unfolding slotsBetween_def by (auto simp: set_map_filter dest: slot_between_pos)

lemma slotsBetween_within: "t \<in> set (slotsBetween view a b) \<Longrightarrow> sl_remainingMs t \<le> b - a"
  unfolding slotsBetween_def slot_between_def by (auto simp: set_map_filter Let_def split: if_splits)

lemma remainingSlotsToday_pos: "t \<in> set (remainingSlotsToday zone view a) \<Longrightarrow> 0 < sl_remainingMs t"
  unfolding remainingSlotsToday_def slot_today_def
  by (auto simp: set_map_filter Let_def split: if_splits)

lemma slot_hours_pos: "0 < sl_remainingMs t \<Longrightarrow> 0 < slot_hours t"
  unfolding slot_hours_def HOUR_MS_def by simp

lemma sum_map_filter:
  fixes g :: "'b \<Rightarrow> 'c :: comm_monoid_add"
  shows "sum_list (map g (List.map_filter f xs)) =
    sum_list (map (\<lambda>x. case f x of None \<Rightarrow> 0 | Some y \<Rightarrow> g y) xs)"
  by (induction xs) (auto simp: map_filter_simps split: option.split)

text \<open>
  What the planners do with slots: integrate a function of the power over them, in kWh.
\<close>

definition slots_kwh :: "(number \<Rightarrow> number) \<Rightarrow> ForecastSlot list \<Rightarrow> number" where
  "slots_kwh f slots = (\<Sum>s\<leftarrow>slots. f (sl_watts s) * slot_hours s / 1000)"

lemma slots_kwh_nonneg:
  assumes "\<And>w. 0 \<le> f w" and "\<And>s. s \<in> set slots \<Longrightarrow> 0 < sl_remainingMs s"
  shows "0 \<le> slots_kwh f slots"
  unfolding slots_kwh_def
  by (rule sum_list_nonneg) (use assms slot_hours_pos in \<open>auto simp: less_imp_le\<close>)

lemma slots_kwh_mono:
  assumes "\<And>w. f w \<le> g w" and "\<And>s. s \<in> set slots \<Longrightarrow> 0 < sl_remainingMs s"
  shows "slots_kwh f slots \<le> slots_kwh g slots"
  unfolding slots_kwh_def
  by (rule sum_list_mono) (use assms slot_hours_pos in \<open>auto intro!: mult_right_mono divide_right_mono simp: less_imp_le\<close>)

definition overlap :: "millis \<Rightarrow> millis \<Rightarrow> slot_span \<Rightarrow> millis" where
  "overlap a b s = max 0 (min (sp_startMs s + sp_widthMs s) b - max (sp_startMs s) a)"

lemma overlap_split: "a \<le> m \<Longrightarrow> m \<le> b \<Longrightarrow> overlap a b s = overlap a m s + overlap m b s"
  unfolding overlap_def by (simp add: min_def max_def)

lemma slot_between_energy:
  "(case slot_between a b s of None \<Rightarrow> 0 | Some t \<Rightarrow> f (sl_watts t) * slot_hours t / 1000)
    = f (sp_watts s) * of_int (overlap a b s) / HOUR_MS / 1000"
proof -
  define d where "d = min (sp_startMs s + sp_widthMs s) b - max (sp_startMs s) a"
  have "slot_between a b s = (if d \<le> 0 then None
      else Some \<lparr>sl_startMs = sp_startMs s, sl_remainingMs = d, sl_watts = sp_watts s\<rparr>)"
    and "overlap a b s = max 0 d"
    unfolding slot_between_def overlap_def d_def Let_def by simp_all
  then show ?thesis by (simp add: slot_hours_def)
qed

lemma slotsBetween_energy:
  "slots_kwh f (slotsBetween view a b) =
    (\<Sum>s\<leftarrow>spansOf view. f (sp_watts s) * of_int (overlap a b s) / HOUR_MS / 1000)"
  unfolding slots_kwh_def slotsBetween_def sum_map_filter slot_between_energy ..

text \<open>Energy over a window is the energy over its two halves: cutting the window at any instant
  in between neither loses nor counts twice any part of any slot, the cut one included.\<close>

theorem window_energy_additive:
  assumes "a \<le> m" and "m \<le> b"
  shows "slots_kwh f (slotsBetween view a b) =
    slots_kwh f (slotsBetween view a m) + slots_kwh f (slotsBetween view m b)"
  unfolding slotsBetween_energy
  by (simp add: overlap_split [OF assms] sum_list_addf [symmetric] distrib_left add_divide_distrib)

lemma window_energy_additive_witness:
  "slots_kwh id (slotsBetween \<lparr>fs_series = [\<lparr>fp_time = \<lparr>lm_year = 2026, lm_month = 7, lm_day = 10, lm_hour = 12, lm_minute = 0\<rparr>,
      fp_watts = 4000, fp_peakWatts = 5000\<rparr>], fs_stepMinutes = 15, fs_utcOffsetSeconds = 7200, fs_timeZone = ''Europe/Berlin''\<rparr> 0 1783677600000)
   = slots_kwh id (slotsBetween \<lparr>fs_series = [\<lparr>fp_time = \<lparr>lm_year = 2026, lm_month = 7, lm_day = 10, lm_hour = 12, lm_minute = 0\<rparr>,
      fp_watts = 4000, fp_peakWatts = 5000\<rparr>], fs_stepMinutes = 15, fs_utcOffsetSeconds = 7200, fs_timeZone = ''Europe/Berlin''\<rparr> 0 600000)
   + slots_kwh id (slotsBetween \<lparr>fs_series = [\<lparr>fp_time = \<lparr>lm_year = 2026, lm_month = 7, lm_day = 10, lm_hour = 12, lm_minute = 0\<rparr>,
      fp_watts = 4000, fp_peakWatts = 5000\<rparr>], fs_stepMinutes = 15, fs_utcOffsetSeconds = 7200, fs_timeZone = ''Europe/Berlin''\<rparr> 600000 1783677600000)"
  by (rule window_energy_additive) simp_all

text \<open>
  Today's remaining slots are the slots of the window from now to the plant's next midnight, as
  long as no slot straddles a midnight of the plant's zone.
\<close>

definition no_straddle :: "millis \<Rightarrow> slot_span list \<Rightarrow> bool" where
  "no_straddle t spans \<longleftrightarrow> (\<forall>s\<in>set spans. sp_startMs s < t \<longrightarrow> sp_startMs s + sp_widthMs s \<le> t)"

lemma map_filter_cong_on: "(\<And>x. x \<in> set xs \<Longrightarrow> f x = g x) \<Longrightarrow> List.map_filter f xs = List.map_filter g xs"
  by (induction xs) (auto simp: map_filter_simps split: option.split)

lemma remaining_today_is_window:
  assumes "dayStart zone (fs_timeZone view) t = Some s" and "nextDayStart zone (fs_timeZone view) t = Some e"
    and "s \<le> t" and "no_straddle s (spansOf view)" and "no_straddle e (spansOf view)"
  shows "remainingSlotsToday zone view t = slotsBetween view t e"
proof -
  have "slot_today s e t x = slot_between t e x" if x: "x \<in> set (spansOf view)" for x
  proof -
    have a: "sp_startMs x < s \<Longrightarrow> sp_startMs x + sp_widthMs x \<le> s"
      and b: "sp_startMs x < e \<Longrightarrow> sp_startMs x + sp_widthMs x \<le> e"
      using assms(4,5) x unfolding no_straddle_def by auto
    consider "sp_startMs x < s" | "e \<le> sp_startMs x" | "s \<le> sp_startMs x" "sp_startMs x < e" by linarith
    then show ?thesis
    proof cases
      case 1
      with a assms(3) show ?thesis unfolding slot_today_def slot_between_def Let_def by (simp add: min_def max_def)
    next
      case 2
      then show ?thesis unfolding slot_today_def slot_between_def Let_def by (simp add: min_def max_def)
    next
      case 3
      then have "min (sp_startMs x + sp_widthMs x) e - max (sp_startMs x) t =
          min (sp_startMs x + sp_widthMs x - t) (sp_widthMs x)"
        using b by (simp add: min_def max_def)
      with 3 show ?thesis unfolding slot_today_def slot_between_def Let_def by (simp only: not_less if_False de_Morgan_disj linorder_not_le) simp
    qed
  qed
  then have "List.map_filter (slot_today s e t) (spansOf view) = List.map_filter (slot_between t e) (spansOf view)"
    by (rule map_filter_cong_on)
  then show ?thesis unfolding remainingSlotsToday_def slotsBetween_def assms(1,2) Let_def by simp
qed

subsection \<open>Flows\<close>

lemma cap_at_le: "max 0 (cap_at c x) \<le> x" if "0 \<le> x"
  using that unfolding cap_at_def by (cases c) simp_all

lemma flow_facts:
  assumes "0 < hours" and flows: "flows = flowStep pvW loadW hours l"
  shows "0 \<le> sf_chargeW flows \<and> 0 \<le> sf_dischargeW flows \<and> 0 \<le> sf_exportW flows \<and> 0 \<le> sf_curtailedW flows
    \<and> min (max 0 pvW) (max 0 loadW) + sf_chargeW flows + sf_exportW flows + sf_curtailedW flows = max 0 pvW
    \<and> (sf_chargeW flows = 0 \<or> sf_dischargeW flows = 0)
    \<and> sf_chargeW flows * hours / 1000 \<le> max 0 (fl_headroomKwh l)
    \<and> sf_dischargeW flows * hours / 1000 \<le> max 0 (fl_aboveFloorKwh l)
    \<and> sf_dischargeW flows \<le> max 0 (max 0 loadW - max 0 pvW)"
proof -
  define pv load fits drain where "pv = max 0 pvW" and "load = max 0 loadW"
    and "fits = max 0 (fl_headroomKwh l) * 1000 / hours" and "drain = max 0 (fl_aboveFloorKwh l) * 1000 / hours"
  define c where "c = max 0 (cap_at (fl_chargeCeilingW l) (min (max 0 (pv - load)) fits))"
  define x where "x = max 0 (cap_at (fl_exportCeilingW l) (max 0 (pv - load) - c))"
  have fd: "0 \<le> fits" "0 \<le> drain" using assms(1) unfolding fits_def drain_def by simp_all
  have c: "0 \<le> c" "c \<le> max 0 (pv - load)" "c \<le> fits"
    using cap_at_le [of "min (max 0 (pv - load)) fits" "fl_chargeCeilingW l"] fd unfolding c_def by simp_all
  have x: "0 \<le> x" "x \<le> max 0 (pv - load) - c"
    using cap_at_le [of "max 0 (pv - load) - c" "fl_exportCeilingW l"] c unfolding x_def by simp_all
  have f: "sf_chargeW flows = c" "sf_dischargeW flows = min (max 0 (load - pv)) drain" "sf_exportW flows = x"
    "sf_curtailedW flows = max 0 (pv - load) - c - x"
    unfolding flows flowStep_def Let_def x_def c_def pv_def load_def fits_def drain_def if_P [OF assms(1)]
    by (simp_all only: SlotFlows.select_convs)
  have "c * hours \<le> fits * hours" using c(3) assms(1) by simp
  then have energy: "c * hours / 1000 \<le> max 0 (fl_headroomKwh l)" using assms(1) unfolding fits_def by simp
  have "min (max 0 (load - pv)) drain * hours \<le> drain * hours" using assms(1) by simp
  then have drained: "min (max 0 (load - pv)) drain * hours / 1000 \<le> max 0 (fl_aboveFloorKwh l)"
    using assms(1) unfolding drain_def by simp
  have "0 \<le> pv" "0 \<le> load" unfolding pv_def load_def by simp_all
  then have split: "min pv load + max 0 (pv - load) = pv" by (simp add: min_def max_def)
  have deficit: "0 \<le> min (max 0 (load - pv)) drain" "min (max 0 (load - pv)) drain \<le> max 0 (load - pv)"
    using fd by simp_all
  have one_way: "c = 0 \<or> min (max 0 (load - pv)) drain = 0"
  proof (cases "pv \<le> load")
    case True
    then have "max 0 (pv - load) = 0" by simp
    then show ?thesis using c by linarith
  next
    case False
    then have "max 0 (load - pv) = 0" by simp
    then show ?thesis using deficit by linarith
  qed
  have curtailed: "0 \<le> max 0 (pv - load) - c - x" using x(2) by (simp only: le_diff_eq)
  have "min pv load + c + x + (max 0 (pv - load) - c - x) = pv" using split by (simp only: algebra_simps)
  with c(1) x(1) energy drained deficit one_way curtailed show ?thesis
    unfolding f pv_def [symmetric] load_def [symmetric] by (intro conjI)
qed

lemma cap_at_cap: "max 0 (cap_at (Some m) x) \<le> max 0 m"
  unfolding cap_at_def by simp

lemma flow_export_cap: "fl_exportCeilingW l = Some m \<Longrightarrow> sf_exportW (flowStep pvW loadW hours l) \<le> max 0 m"
  unfolding flowStep_def Let_def SlotFlows.select_convs by (simp only: cap_at_cap)

lemma flow_charge_cap: "fl_chargeCeilingW l = Some m \<Longrightarrow> sf_chargeW (flowStep pvW loadW hours l) \<le> max 0 m"
  unfolding flowStep_def Let_def SlotFlows.select_convs by (simp only: cap_at_cap)

text \<open>Nothing is lost in a slice: every flow is non-negative, what PV gives is the load it
  serves, the charge, the export and the curtailment, the pack never charges and discharges
  together, and neither direction moves more energy than the room or the reserve there is.\<close>

theorem flow_conserves:
  assumes "0 < hours" and flows: "flows = flowStep pvW loadW hours l"
  shows "0 \<le> sf_chargeW flows \<and> 0 \<le> sf_dischargeW flows \<and> 0 \<le> sf_exportW flows \<and> 0 \<le> sf_curtailedW flows
    \<and> min (max 0 pvW) (max 0 loadW) + sf_chargeW flows + sf_exportW flows + sf_curtailedW flows = max 0 pvW
    \<and> (sf_chargeW flows = 0 \<or> sf_dischargeW flows = 0)
    \<and> sf_chargeW flows * hours / 1000 \<le> max 0 (fl_headroomKwh l)
    \<and> sf_dischargeW flows * hours / 1000 \<le> max 0 (fl_aboveFloorKwh l)
    \<and> sf_dischargeW flows \<le> max 0 (max 0 loadW - max 0 pvW)"
  by (rule flow_facts [OF assms])

text \<open>A sunny quarter of an hour with 600 W of load, 3 kWh of room and a 1.5 kW feed-in limit.\<close>

lemma flow_conserves_witness:
  "sf_chargeW (flowStep 5000 600 (1/4) \<lparr>fl_chargeCeilingW = Some 2560, fl_headroomKwh = 3,
      fl_aboveFloorKwh = 6, fl_exportCeilingW = Some 1500\<rparr>) * (1/4) / 1000 \<le> max 0 3"
proof -
  have "0 < (1/4 :: number)" by simp
  from flow_conserves [OF this refl, of 5000 600 "\<lparr>fl_chargeCeilingW = Some 2560, fl_headroomKwh = 3,
      fl_aboveFloorKwh = 6, fl_exportCeilingW = Some 1500\<rparr>"]
  show ?thesis unfolding FlowLimits.select_convs by (elim conjE)
qed

end
