(* ===== verification/Price_Plan.thy ===== *)
theory Price_Plan
  imports Slot_Window
begin

text \<open>
  \<^verbatim>\<open>apps/server/src/automation/price-plan.ts\<close> with its configuration record of
  \<^verbatim>\<open>packages/db/src/automation-config.ts\<close> and the price slice of
  \<^verbatim>\<open>packages/contracts/src/prices/types.ts\<close>: the runs of sub-threshold price slots, and the
  constraint they put on the battery this tick. Prices, powers and energies are exact rationals;
  instants and slot widths are integers.
\<close>

datatype PriceRegime = RNone | RWaiting | RPreShape | RSpendDown | RAbsorb

record PriceAwareConfig =
  pc_enabled :: bool
  pc_negativeThresholdEurPerMwh :: number
  pc_minWindowMinutes :: int
  pc_bridgeGapSlots :: int
  pc_lookaheadHours :: number
  pc_soakFloorW :: number
  pc_shapeSoc :: bool
  pc_reserveMarginPct :: number
  pc_pullInEv :: bool
  pc_evBoostLimitPct :: number
  pc_gridChargeInWindow :: bool
  pc_gridChargeMaxA :: number

record SpotPricePoint =
  pp_time :: string
  pp_startMs :: millis
  pp_minutes :: int
  pp_eurPerMwh :: number
  pp_negative :: bool

datatype SlotCoverage = Complete | Partial | Missing
datatype SpotAvailability = AvOk | AvTodayOnly | AvNone

record SpotSlice =
  ss_zone :: string
  ss_series :: "SpotPricePoint list"
  ss_stepMinutes :: int
  ss_utcOffsetSeconds :: int
  ss_coverage_today :: SlotCoverage
  ss_coverage_tomorrow :: SlotCoverage
  ss_availability :: SpotAvailability

record PriceWindow =
  pw_startMs :: millis
  pw_endMs :: millis
  pw_minEurPerMwh :: number
  pw_slots :: nat

record PriceInputs =
  pi_price :: PriceAwareConfig
  pi_prices :: "SpotSlice option"
  pi_forecast :: "ForecastSlice option"
  pi_nowMs :: millis
  pi_socPct :: number
  pi_minSocPct :: number
  pi_usableKwh :: number
  pi_baselineLoadW :: number
  pi_maxChargeW :: number
  pi_importFollowsMarket :: bool

record PriceAction =
  pa_regime :: PriceRegime
  pa_window :: "PriceWindow option"
  pa_exportLimitW :: "number option"
  pa_chargeCeilingW :: "number option"
  pa_gridChargeA :: "number option"
  pa_socEnvelopePct :: "number option"
  pa_soakableKwh :: "number option"
  pa_unavoidableZeroValueKwh :: "number option"

definition IDLE :: PriceAction where
  "IDLE = \<lparr>pa_regime = RNone, pa_window = None, pa_exportLimitW = None, pa_chargeCeilingW = None,
     pa_gridChargeA = None, pa_socEnvelopePct = None, pa_soakableKwh = None,
     pa_unavoidableZeroValueKwh = None\<rparr>"

definition clampSoc :: "number \<Rightarrow> number" where
  "clampSoc pct = min 100 (max 0 pct)"

definition slotMs :: "SpotSlice \<Rightarrow> millis" where
  "slotMs prices = ss_stepMinutes prices * MINUTE"

definition grow_window :: "millis \<Rightarrow> millis \<Rightarrow> PriceWindow \<Rightarrow> SpotPricePoint \<Rightarrow> PriceWindow option" where
  "grow_window step bridgeMs w p =
     (if pp_startMs p - pw_endMs w \<le> bridgeMs
      then Some (w\<lparr>pw_endMs := pp_startMs p + step, pw_minEurPerMwh := min (pw_minEurPerMwh w) (pp_eurPerMwh p),
        pw_slots := pw_slots w + 1\<rparr>)
      else None)"

definition new_window :: "millis \<Rightarrow> SpotPricePoint \<Rightarrow> PriceWindow" where
  "new_window step p = \<lparr>pw_startMs = pp_startMs p, pw_endMs = pp_startMs p + step,
     pw_minEurPerMwh = pp_eurPerMwh p, pw_slots = 1\<rparr>"

definition price_runs :: "SpotSlice \<Rightarrow> PriceAwareConfig \<Rightarrow> PriceWindow list" where
  "price_runs prices cfg =
     fold_last (grow_window (slotMs prices) (pc_bridgeGapSlots cfg * slotMs prices))
       (new_window (slotMs prices)) []
       (filter (\<lambda>p. \<not> pp_eurPerMwh p > pc_negativeThresholdEurPerMwh cfg) (ss_series prices))"

definition negativeWindows :: "SpotSlice \<Rightarrow> PriceAwareConfig \<Rightarrow> PriceWindow list" where
  "negativeWindows prices cfg =
     filter (\<lambda>w. pw_endMs w - pw_startMs w \<ge> pc_minWindowMinutes cfg * MINUTE) (price_runs prices cfg)"

definition windowAt :: "PriceWindow list \<Rightarrow> millis \<Rightarrow> PriceWindow option" where
  "windowAt ws atMs = List.find (\<lambda>w. atMs \<ge> pw_startMs w \<and> atMs < pw_endMs w) ws"

definition nextWindow :: "PriceWindow list \<Rightarrow> millis \<Rightarrow> number \<Rightarrow> PriceWindow option" where
  "nextWindow ws fromMs horizonMs =
     List.find (\<lambda>w. pw_startMs w > fromMs \<and> of_int (pw_startMs w) \<le> of_int fromMs + horizonMs) ws"

definition soakOf :: "ForecastSlice \<Rightarrow> PriceWindow \<Rightarrow> number \<Rightarrow> number \<Rightarrow> number \<times> number" where
  "soakOf forecast window loadW maxChargeW =
     (let slots = slotsBetween forecast (pw_startMs window) (pw_endMs window)
      in (slots_kwh (\<lambda>w. min (max 0 (w - loadW)) maxChargeW) slots,
          slots_kwh (\<lambda>w. max 0 (max 0 (w - loadW) - maxChargeW)) slots))"

definition drainKwhBetween :: "ForecastSlice \<Rightarrow> millis \<Rightarrow> millis \<Rightarrow> number \<Rightarrow> number" where
  "drainKwhBetween forecast fromMs toMs loadW =
     slots_kwh (\<lambda>w. max 0 (loadW - w)) (slotsBetween forecast fromMs toMs)"

definition envelopePct ::
  "ForecastSlice \<Rightarrow> millis \<Rightarrow> millis \<Rightarrow> number \<Rightarrow> number \<Rightarrow> number \<Rightarrow> number \<times> number" where
  "envelopePct forecast nowMs windowStartMs socTarget usableKwh loadW =
     (case slotsBetween forecast nowMs windowStartMs of
        [] \<Rightarrow> (socTarget, 0)
      | first # _ \<Rightarrow>
          let laterDrainKwh = drainKwhBetween forecast (sl_startMs first + sl_remainingMs first) windowStartMs loadW
          in (min 100 (socTarget + 100 * laterDrainKwh / usableKwh), slot_hours first))"

definition unshapedSocPct :: "ForecastSlice \<Rightarrow> PriceInputs \<Rightarrow> millis \<Rightarrow> number" where
  "unshapedSocPct forecast i windowStartMs =
     (let gainKwh = slots_kwh (\<lambda>w. min (max 0 (w - pi_baselineLoadW i)) (pi_maxChargeW i))
            (slotsBetween forecast (pi_nowMs i) windowStartMs);
          drainKwh = drainKwhBetween forecast (pi_nowMs i) windowStartMs (pi_baselineLoadW i)
      in clampSoc (pi_socPct i + 100 * (gainKwh - drainKwh) / pi_usableKwh i))"

definition absorbAction :: "PriceInputs \<Rightarrow> ForecastSlice option \<Rightarrow> PriceWindow \<Rightarrow> PriceAction" where
  "absorbAction i forecast window =
     (let soak = map_option (\<lambda>f. soakOf f window (pi_baselineLoadW i) (pi_maxChargeW i)) forecast;
          headroomKwh = pi_usableKwh i * (100 - clampSoc (pi_socPct i)) / 100;
          overflowKwh = (case soak of Some (soakable, _) \<Rightarrow> max 0 (soakable - headroomKwh) | None \<Rightarrow> 0);
          gridCharge = (if pc_gridChargeInWindow (pi_price i) \<and> pi_importFollowsMarket i \<and> headroomKwh > 0
                        then Some (pc_gridChargeMaxA (pi_price i)) else None)
      in IDLE\<lparr>pa_regime := RAbsorb, pa_window := Some window,
           pa_exportLimitW := Some (pc_soakFloorW (pi_price i)), pa_gridChargeA := gridCharge,
           pa_soakableKwh := map_option fst soak,
           pa_unavoidableZeroValueKwh := map_option (\<lambda>(_, spill). spill + overflowKwh) soak\<rparr>)"

definition socTargetPct :: "PriceInputs \<Rightarrow> number \<Rightarrow> number" where
  "socTargetPct i soakableKwh =
     (let neededKwh = min soakableKwh (pi_usableKwh i)
      in min 100 (max (pi_minSocPct i)
           (100 - 100 * neededKwh / pi_usableKwh i - pc_reserveMarginPct (pi_price i))))"

definition shapeAction :: "PriceInputs \<Rightarrow> ForecastSlice \<Rightarrow> PriceWindow \<Rightarrow> PriceAction" where
  "shapeAction i forecast window =
     (case soakOf forecast window (pi_baselineLoadW i) (pi_maxChargeW i) of (soakableKwh, spillKwh) \<Rightarrow>
      let socTarget = socTargetPct i soakableKwh;
          capacityKwh = pi_usableKwh i * (100 - socTarget) / 100;
          unavoidable = spillKwh + max 0 (soakableKwh - capacityKwh);
          unshaped = unshapedSocPct forecast i (pw_startMs window);
          base = IDLE\<lparr>pa_window := Some window, pa_soakableKwh := Some soakableKwh,
            pa_unavoidableZeroValueKwh := Some unavoidable\<rparr>
      in if unshaped \<le> socTarget then base\<lparr>pa_regime := RWaiting\<rparr>
         else (case envelopePct forecast (pi_nowMs i) (pw_startMs window) socTarget (pi_usableKwh i)
                 (pi_baselineLoadW i) of (boundPct, currentSlotHours) \<Rightarrow>
           let risePct = boundPct - clampSoc (pi_socPct i)
           in if risePct \<le> 0
              then base\<lparr>pa_regime := RSpendDown, pa_chargeCeilingW := Some 0, pa_socEnvelopePct := Some boundPct\<rparr>
              else let chargeCeilingW = (if currentSlotHours > 0
                     then risePct / 100 * pi_usableKwh i * 1000 / currentSlotHours else 0)
                in base\<lparr>pa_regime := RPreShape, pa_chargeCeilingW := Some (max 0 chargeCeilingW),
                     pa_socEnvelopePct := Some boundPct\<rparr>))"

definition insideNegativeWindow :: "SpotSlice option \<Rightarrow> PriceAwareConfig \<Rightarrow> millis \<Rightarrow> bool" where
  "insideNegativeWindow prices cfg nowMs =
     (case prices of
        None \<Rightarrow> False
      | Some ps \<Rightarrow> if \<not> pc_enabled cfg then False
          else windowAt (negativeWindows ps cfg) nowMs \<noteq> None)"

definition planPriceAction :: "PriceInputs \<Rightarrow> PriceAction" where
  "planPriceAction i =
     (case pi_prices i of
        None \<Rightarrow> IDLE
      | Some prices \<Rightarrow>
          if \<not> pc_enabled (pi_price i) \<or> pi_usableKwh i \<le> 0 then IDLE
          else let ws = negativeWindows prices (pi_price i)
            in (case windowAt ws (pi_nowMs i) of
                  Some current \<Rightarrow> absorbAction i (pi_forecast i) current
                | None \<Rightarrow>
                    (case nextWindow ws (pi_nowMs i) (pc_lookaheadHours (pi_price i) * HOUR_MS) of
                       None \<Rightarrow> IDLE
                     | Some upcoming \<Rightarrow>
                         (case pi_forecast i of
                            Some forecast \<Rightarrow> if pc_shapeSoc (pi_price i) then shapeAction i forecast upcoming
                              else IDLE\<lparr>pa_regime := RWaiting, pa_window := Some upcoming\<rparr>
                          | None \<Rightarrow> IDLE\<lparr>pa_regime := RWaiting, pa_window := Some upcoming\<rparr>))))"

subsection \<open>Windows are the maximal runs of sub-threshold slots\<close>

text \<open>What a run of slots amounts to, and when the next slot still belongs to it.\<close>

definition window_of :: "millis \<Rightarrow> SpotPricePoint list \<Rightarrow> PriceWindow" where
  "window_of step g = \<lparr>pw_startMs = pp_startMs (hd g), pw_endMs = pp_startMs (List.last g) + step,
     pw_minEurPerMwh = Min (set (map pp_eurPerMwh g)), pw_slots = length g\<rparr>"

definition linked :: "millis \<Rightarrow> millis \<Rightarrow> SpotPricePoint \<Rightarrow> SpotPricePoint \<Rightarrow> bool" where
  "linked step bridgeMs p q \<longleftrightarrow> pp_startMs q - (pp_startMs p + step) \<le> bridgeMs"

text \<open>A partition of the slots into runs: bridged inside, a wider gap between any two.\<close>

definition maximal_runs ::
  "millis \<Rightarrow> millis \<Rightarrow> SpotPricePoint list \<Rightarrow> SpotPricePoint list list \<Rightarrow> bool" where
  "maximal_runs step bridgeMs ps gs \<longleftrightarrow> concat gs = ps \<and> [] \<notin> set gs
     \<and> (\<forall>g\<in>set gs. successively (linked step bridgeMs) g)
     \<and> successively (\<lambda>g h. \<not> linked step bridgeMs (List.last g) (hd h)) gs"

lemma window_of_single: "window_of step [p] = new_window step p"
  by (simp add: window_of_def new_window_def)

lemma grow_window_of:
  assumes "g \<noteq> []"
  shows "grow_window step bridgeMs (window_of step g) p =
    (if linked step bridgeMs (List.last g) p then Some (window_of step (g @ [p])) else None)"
  using assms unfolding grow_window_def linked_def window_of_def
  by (simp add: Min_insert min.commute)

lemma maximal_runs_snoc_grow:
  assumes "maximal_runs step br ps (gs @ [g])" and "linked step br (List.last g) p"
  shows "maximal_runs step br (ps @ [p]) (gs @ [g @ [p]])"
proof -
  have "g \<noteq> []" using assms(1) unfolding maximal_runs_def by auto
  then show ?thesis using assms unfolding maximal_runs_def
    by (auto simp: successively_append_iff)
qed

lemma maximal_runs_snoc_new:
  assumes "maximal_runs step br ps (gs @ [g])" and "\<not> linked step br (List.last g) p"
  shows "maximal_runs step br (ps @ [p]) (gs @ [g, [p]])"
  using assms unfolding maximal_runs_def by (auto simp: successively_append_iff)

lemma fold_last_runs:
  assumes "maximal_runs step br ps (rev gs)" and "acc = map (window_of step) gs" and "gs = [] \<longrightarrow> ps = []"
  shows "\<exists>hs. maximal_runs step br (ps @ xs) hs
    \<and> fold_last (grow_window step br) (new_window step) acc xs = map (window_of step) hs"
  using assms
proof (induction xs arbitrary: ps gs acc)
  case Nil
  then show ?case by (intro exI [of _ "rev gs"]) (simp add: rev_map)
next
  case (Cons p xs)
  show ?case
  proof (cases gs)
    case Nil
    have "maximal_runs step br [p] (rev [[p]])" unfolding maximal_runs_def by simp
    from Cons.IH [OF this] Nil Cons.prems show ?thesis by (simp add: window_of_single)
  next
    case (Cons g gs')
    have runs: "maximal_runs step br ps (rev gs' @ [g])" using Cons.prems(1) Cons by simp
    then have ne: "g \<noteq> []" unfolding maximal_runs_def by auto
    show ?thesis
    proof (cases "linked step br (List.last g) p")
      case True
      have "maximal_runs step br (ps @ [p]) (rev ((g @ [p]) # gs'))"
        using maximal_runs_snoc_grow [OF runs True] by simp
      from Cons.IH [OF this refl] show ?thesis
        using \<open>acc = _\<close> Cons True ne by (simp add: grow_window_of)
    next
      case False
      have "maximal_runs step br (ps @ [p]) (rev ([p] # g # gs'))"
        using maximal_runs_snoc_new [OF runs False] by simp
      from Cons.IH [OF this refl] show ?thesis
        using \<open>acc = _\<close> Cons False ne by (simp add: grow_window_of window_of_single)
    qed
  qed
qed

text \<open>C13. The negative-price windows are exactly the maximal runs of sub-threshold slots, bridged
  across gaps of at most the configured width, that last the configured minimum: every
  sub-threshold slot is in one run, no slot above the threshold is in any, each window spans
  from its first slot to the end of its last and carries the deepest price and the count of its
  slots.\<close>

theorem windows_are_maximal_runs:
  "\<exists>gs. maximal_runs (slotMs prices) (pc_bridgeGapSlots cfg * slotMs prices)
      (filter (\<lambda>p. pp_eurPerMwh p \<le> pc_negativeThresholdEurPerMwh cfg) (ss_series prices)) gs
    \<and> negativeWindows prices cfg =
        filter (\<lambda>w. pc_minWindowMinutes cfg * MINUTE \<le> pw_endMs w - pw_startMs w)
          (map (window_of (slotMs prices)) gs)"
proof -
  have "maximal_runs (slotMs prices) (pc_bridgeGapSlots cfg * slotMs prices) [] (rev [])"
    unfolding maximal_runs_def by simp
  from fold_last_runs [OF this, of "[]" "filter (\<lambda>p. pp_eurPerMwh p \<le> pc_negativeThresholdEurPerMwh cfg) (ss_series prices)"]
  obtain gs where gs: "maximal_runs (slotMs prices) (pc_bridgeGapSlots cfg * slotMs prices)
      (filter (\<lambda>p. pp_eurPerMwh p \<le> pc_negativeThresholdEurPerMwh cfg) (ss_series prices)) gs"
    and "price_runs prices cfg = map (window_of (slotMs prices)) gs"
    unfolding price_runs_def not_less by auto
  then show ?thesis unfolding negativeWindows_def by (intro exI [of _ gs] conjI) simp_all
qed

subsection \<open>What a window asks for\<close>

lemma find_in: "List.find P xs = Some x \<Longrightarrow> x \<in> set xs \<and> P x"
  by (auto simp: find_Some_iff)

lemmas action_defs = IDLE_def absorbAction_def shapeAction_def Let_def

lemma absorb_regime: "pa_regime (absorbAction i f w) = RAbsorb"
  unfolding action_defs by simp

lemma shape_regime: "pa_regime (shapeAction i f w) \<in> {RWaiting, RPreShape, RSpendDown}"
  unfolding action_defs by (auto split: prod.split)

lemma shape_frame:
  "pa_exportLimitW (shapeAction i f w) = None" "pa_gridChargeA (shapeAction i f w) = None"
  unfolding action_defs by (auto split: prod.split)

text \<open>The plan, one equation per branch.\<close>

lemma plan_cases:
  obtains (idle) "planPriceAction i = IDLE" "\<not> (0 < pi_usableKwh i \<and> insideNegativeWindow (pi_prices i) (pi_price i) (pi_nowMs i))"
  | (absorb) w where "planPriceAction i = absorbAction i (pi_forecast i) w" "0 < pi_usableKwh i"
      "insideNegativeWindow (pi_prices i) (pi_price i) (pi_nowMs i)" "pw_startMs w \<le> pi_nowMs i" "pi_nowMs i < pw_endMs w"
  | (waiting) w where "planPriceAction i = IDLE\<lparr>pa_regime := RWaiting, pa_window := Some w\<rparr>"
      "\<not> insideNegativeWindow (pi_prices i) (pi_price i) (pi_nowMs i)" "pi_nowMs i < pw_startMs w"
  | (shape) f w where "planPriceAction i = shapeAction i f w" "pi_forecast i = Some f" "0 < pi_usableKwh i"
      "\<not> insideNegativeWindow (pi_prices i) (pi_price i) (pi_nowMs i)" "pi_nowMs i < pw_startMs w"
proof -
  note defs = planPriceAction_def insideNegativeWindow_def Let_def
  show ?thesis
  proof (cases "pi_prices i")
    case None
    then show ?thesis by (intro idle) (simp_all add: defs)
  next
    case (Some prices)
    show ?thesis
    proof (cases "\<not> pc_enabled (pi_price i) \<or> pi_usableKwh i \<le> 0")
      case True
      then show ?thesis using Some by (intro idle) (auto simp: defs)
    next
      case False
      define ws where "ws = negativeWindows prices (pi_price i)"
      show ?thesis
      proof (cases "windowAt ws (pi_nowMs i)")
        case (Some w)
        then show ?thesis using \<open>pi_prices i = Some prices\<close> False find_in [of _ ws w]
          by (intro absorb [of w]) (auto simp: defs ws_def windowAt_def)
      next
        case None
        show ?thesis
        proof (cases "nextWindow ws (pi_nowMs i) (pc_lookaheadHours (pi_price i) * HOUR_MS)")
          case None
          then show ?thesis using \<open>windowAt ws _ = None\<close> Some False by (intro idle) (auto simp: defs ws_def)
        next
          case (Some w)
          then have later: "pi_nowMs i < pw_startMs w" unfolding nextWindow_def by (auto dest: find_in)
          note w = Some \<open>windowAt ws _ = None\<close> \<open>pi_prices i = Some prices\<close> False
          show ?thesis
          proof (cases "pc_shapeSoc (pi_price i) \<and> pi_forecast i \<noteq> None")
            case True
            then show ?thesis using w later by (intro shape [of "the (pi_forecast i)" w]) (auto simp: defs ws_def)
          next
            case False
            then show ?thesis using w later
              by (intro waiting [of w]) (auto simp: defs ws_def split: option.split)
          qed
        qed
      qed
    qed
  qed
qed

text \<open>Price awareness touches the plant only where it says it does: the feed-in ceiling and the
  grid-charge current are set inside a negative window and nowhere else, agreeing with the night
  gate; grid charging needs a market tariff, the configured consent and room in the pack; a
  charge ceiling is set only ahead of a window, never negative.\<close>

theorem price_action_scope:
  "(pa_regime (planPriceAction i) = RAbsorb
      \<longleftrightarrow> 0 < pi_usableKwh i \<and> insideNegativeWindow (pi_prices i) (pi_price i) (pi_nowMs i))
   \<and> pa_exportLimitW (planPriceAction i) =
       (if pa_regime (planPriceAction i) = RAbsorb then Some (pc_soakFloorW (pi_price i)) else None)
   \<and> pa_gridChargeA (planPriceAction i) =
       (if pa_regime (planPriceAction i) = RAbsorb \<and> pc_gridChargeInWindow (pi_price i)
          \<and> pi_importFollowsMarket i \<and> pi_socPct i < 100
        then Some (pc_gridChargeMaxA (pi_price i)) else None)
   \<and> (pa_chargeCeilingW (planPriceAction i) \<noteq> None
      \<longleftrightarrow> pa_regime (planPriceAction i) \<in> {RPreShape, RSpendDown})
   \<and> (case pa_chargeCeilingW (planPriceAction i) of None \<Rightarrow> True | Some c \<Rightarrow> 0 \<le> c)"
proof (cases rule: plan_cases [of i])
  case idle
  then show ?thesis by (simp add: IDLE_def)
next
  case (absorb w)
  have room: "pi_usableKwh i * (100 - clampSoc (pi_socPct i)) / 100 > 0 \<longleftrightarrow> pi_socPct i < 100"
    using absorb(2) unfolding clampSoc_def by (auto simp: zero_less_mult_iff min_def max_def)
  show ?thesis unfolding absorb(1) using absorb(2,3) room by (simp add: action_defs)
next
  case (waiting w)
  then show ?thesis by (simp add: IDLE_def)
next
  case (shape f w)
  have "pa_regime (shapeAction i f w) \<noteq> RAbsorb" using shape_regime [of i f w] by auto
  moreover have "(pa_chargeCeilingW (shapeAction i f w) \<noteq> None
      \<longleftrightarrow> pa_regime (shapeAction i f w) \<in> {RPreShape, RSpendDown})
    \<and> (case pa_chargeCeilingW (shapeAction i f w) of None \<Rightarrow> True | Some c \<Rightarrow> 0 \<le> c)"
    unfolding action_defs by (auto split: prod.split)
  ultimately show ?thesis unfolding shape(1) using shape(4) shape_frame by simp
qed


lemma socTarget_room:
  assumes "0 < pi_usableKwh i" and "0 \<le> pi_minSocPct i" and "0 \<le> pc_reserveMarginPct (pi_price i)"
    and "arrival \<le> socTargetPct i soakable"
  shows "min soakable (pi_usableKwh i * (100 - pi_minSocPct i) / 100) \<le> pi_usableKwh i * (100 - arrival) / 100"
proof -
  define u m where "u = pi_usableKwh i" and "m = pi_minSocPct i"
  define t where "t = 100 - 100 * min soakable u / u - pc_reserveMarginPct (pi_price i)"
  have u: "0 < u" using assms(1) unfolding u_def .
  have "arrival \<le> max m t" using assms(4) unfolding socTargetPct_def Let_def u_def m_def t_def by simp
  then consider "arrival \<le> m" | "arrival \<le> t" by linarith
  then have "min soakable (u * (100 - m) / 100) \<le> u * (100 - arrival) / 100"
  proof cases
    case 1
    then have "u * (100 - m) / 100 \<le> u * (100 - arrival) / 100" using u by simp
    then show ?thesis by (rule min.coboundedI2)
  next
    case 2
    then have "100 * min soakable u / u \<le> 100 - arrival" using assms(3) unfolding t_def by linarith
    then have "100 * min soakable u \<le> (100 - arrival) * u" using u by (simp only: pos_divide_le_eq)
    then have "min soakable u \<le> u * (100 - arrival) / 100" by (simp add: mult.commute)
    moreover have "min soakable (u * (100 - m) / 100) \<le> min soakable u"
      using u assms(2) unfolding m_def [symmetric] by (intro min.mono) (simp_all add: field_simps)
    ultimately show ?thesis by (rule order_trans [rotated])
  qed
  then show ?thesis unfolding u_def m_def .
qed

text \<open>The charge ceiling ahead of a window makes the room it promises: charging at exactly the
  ceiling for the current slot and only draining afterwards, the pack reaches the window with
  room for all the energy the window can push into it, or for all it can hold above its reserve
  floor if that is less.\<close>

theorem pre_shape_makes_room:
  assumes "0 < pi_usableKwh i" and "0 \<le> pi_minSocPct i" and "0 \<le> pc_reserveMarginPct (pi_price i)"
    and slots: "slotsBetween f (pi_nowMs i) (pw_startMs w) = slot # later" and "pi_nowMs i \<le> sl_startMs slot"
    and "pa_regime (shapeAction i f w) = RPreShape" and "pa_chargeCeilingW (shapeAction i f w) = Some ceilingW"
    and charged: "chargedKwh = ceilingW * slot_hours slot / 1000"
    and drained: "drainedKwh = drainKwhBetween f (max (pi_nowMs i) (sl_startMs slot) + sl_remainingMs slot)
      (pw_startMs w) (pi_baselineLoadW i)"
  shows "min (fst (soakOf f w (pi_baselineLoadW i) (pi_maxChargeW i)))
      (pi_usableKwh i * (100 - pi_minSocPct i) / 100)
    \<le> pi_usableKwh i * (100 - (clampSoc (pi_socPct i) + 100 * (chargedKwh - drainedKwh) / pi_usableKwh i)) / 100"
proof -
  obtain soakable spill where soak: "soakOf f w (pi_baselineLoadW i) (pi_maxChargeW i) = (soakable, spill)"
    by (cases "soakOf f w (pi_baselineLoadW i) (pi_maxChargeW i)")
  define u where "u = pi_usableKwh i"
  define h where "h = slot_hours slot"
  have "slot \<in> set (slotsBetween f (pi_nowMs i) (pw_startMs w))" unfolding slots by simp
  then have h: "0 < h" unfolding h_def by (intro slot_hours_pos slotsBetween_pos)
  define bound where "bound = min 100 (socTargetPct i soakable + 100 * drainedKwh / u)"
  have env: "envelopePct f (pi_nowMs i) (pw_startMs w) (socTargetPct i soakable) u (pi_baselineLoadW i) = (bound, h)"
    using assms(5) unfolding envelopePct_def slots Let_def bound_def h_def u_def drained by (simp add: max_def)
  have rise: "0 < bound - clampSoc (pi_socPct i)"
    and c: "ceilingW = max 0 ((bound - clampSoc (pi_socPct i)) / 100 * u * 1000 / h)"
    using assms(6,7) h env unfolding shapeAction_def soak Let_def u_def
    by (auto simp: IDLE_def split: if_splits)
  have "ceilingW = (bound - clampSoc (pi_socPct i)) / 100 * u * 1000 / h"
    unfolding c using rise h assms(1) by (intro max_absorb2) (simp add: u_def)
  then have "100 * chargedKwh / u = bound - clampSoc (pi_socPct i)"
    unfolding charged h_def [symmetric] using h assms(1) by (simp add: u_def)
  then have "clampSoc (pi_socPct i) + 100 * (chargedKwh - drainedKwh) / u = bound - 100 * drainedKwh / u"
    by (simp add: right_diff_distrib diff_divide_distrib)
  also have "\<dots> \<le> socTargetPct i soakable" unfolding bound_def by simp
  finally show ?thesis using socTarget_room [OF assms(1-3)] unfolding soak u_def by simp
qed

text \<open>
  The hypothesis that the tick falls on a slot boundary is needed. Inside a slot the source takes
  the slot's raw start plus its \<open>remaining\<close> width for its end, so energy the house drains before
  and during the current slot loosens the bound: at 12:45 in an hourly slot with a window at
  14:00 it counts 1.75 kWh of drain where 1 kWh is still to come.
\<close>

definition dark_noon :: ForecastSlice where
  "dark_noon = \<lparr>fs_series =
     [\<lparr>fp_time = \<lparr>lm_year = 2026, lm_month = 7, lm_day = 10, lm_hour = 12, lm_minute = 0\<rparr>, fp_watts = 0, fp_peakWatts = 0\<rparr>,
      \<lparr>fp_time = \<lparr>lm_year = 2026, lm_month = 7, lm_day = 10, lm_hour = 13, lm_minute = 0\<rparr>, fp_watts = 0, fp_peakWatts = 0\<rparr>],
     fs_stepMinutes = 60, fs_utcOffsetSeconds = 0, fs_timeZone = ''UTC''\<rparr>"

lemma envelope_loose_inside_slot:
  "envelopePct dark_noon (12 * HOUR + 45 * MINUTE + 20644 * DAY) (14 * HOUR + 20644 * DAY) 10 10 1000 = (10 + 35 / 2, 1 / 4)
   \<and> 100 * drainKwhBetween dark_noon (13 * HOUR + 20644 * DAY) (14 * HOUR + 20644 * DAY) 1000 / 10 = 10"
  by code_simp


text \<open>Ten kWh at 50 %, three sunny hours, and a window over the last two of them.\<close>

definition sunny_noon :: ForecastSlice where
  "sunny_noon = \<lparr>fs_series =
     [\<lparr>fp_time = \<lparr>lm_year = 2026, lm_month = 7, lm_day = 10, lm_hour = 12, lm_minute = 0\<rparr>, fp_watts = 3000, fp_peakWatts = 3000\<rparr>,
      \<lparr>fp_time = \<lparr>lm_year = 2026, lm_month = 7, lm_day = 10, lm_hour = 13, lm_minute = 0\<rparr>, fp_watts = 3000, fp_peakWatts = 3000\<rparr>],
     fs_stepMinutes = 60, fs_utcOffsetSeconds = 0, fs_timeZone = ''UTC''\<rparr>"

definition sample_price :: PriceAwareConfig where
  "sample_price = \<lparr>pc_enabled = True, pc_negativeThresholdEurPerMwh = 0, pc_minWindowMinutes = 15,
     pc_bridgeGapSlots = 1, pc_lookaheadHours = 8, pc_soakFloorW = 0, pc_shapeSoc = True,
     pc_reserveMarginPct = 5, pc_pullInEv = False, pc_evBoostLimitPct = 10,
     pc_gridChargeInWindow = False, pc_gridChargeMaxA = 20\<rparr>"

definition sample_inputs :: PriceInputs where
  "sample_inputs = \<lparr>pi_price = sample_price, pi_prices = None, pi_forecast = Some sunny_noon,
     pi_nowMs = 12 * HOUR + 20644 * DAY, pi_socPct = 50, pi_minSocPct = 10, pi_usableKwh = 10,
     pi_baselineLoadW = 0, pi_maxChargeW = 5000, pi_importFollowsMarket = False\<rparr>"

definition sample_window :: PriceWindow where
  "sample_window = \<lparr>pw_startMs = 13 * HOUR + 20644 * DAY, pw_endMs = 14 * HOUR + 20644 * DAY,
     pw_minEurPerMwh = -5, pw_slots = 1\<rparr>"

lemma pre_shape_makes_room_witness:
  "min (fst (soakOf sunny_noon sample_window 0 5000)) (10 * (100 - 10) / 100)
    \<le> 10 * (100 - (clampSoc 50 + 100 * (1500 * slot_hours \<lparr>sl_startMs = 12 * HOUR + 20644 * DAY,
        sl_remainingMs = HOUR, sl_watts = 3000\<rparr> / 1000
      - drainKwhBetween sunny_noon (max (12 * HOUR + 20644 * DAY) (12 * HOUR + 20644 * DAY) + HOUR)
          (13 * HOUR + 20644 * DAY) 0) / 10)) / 100"
proof -
  have 1: "0 < pi_usableKwh sample_inputs" "0 \<le> pi_minSocPct sample_inputs"
    "0 \<le> pc_reserveMarginPct (pi_price sample_inputs)"
    by (simp_all add: sample_inputs_def sample_price_def)
  have 2: "slotsBetween sunny_noon (pi_nowMs sample_inputs) (pw_startMs sample_window)
      = \<lparr>sl_startMs = 12 * HOUR + 20644 * DAY, sl_remainingMs = HOUR, sl_watts = 3000\<rparr> # []"
    by code_simp
  have 3: "pi_nowMs sample_inputs \<le> sl_startMs \<lparr>sl_startMs = 12 * HOUR + 20644 * DAY, sl_remainingMs = HOUR, sl_watts = 3000\<rparr>"
    by (simp add: sample_inputs_def)
  have 4: "pa_regime (shapeAction sample_inputs sunny_noon sample_window) = RPreShape"
    "pa_chargeCeilingW (shapeAction sample_inputs sunny_noon sample_window) = Some 1500"
    by code_simp+
  show ?thesis
    using pre_shape_makes_room [OF 1 2 3 4 refl refl]
    by (simp add: sample_inputs_def sample_window_def)
qed

end
