(* ===== verification/Peak_Shaving.thy ===== *)
theory Peak_Shaving
  imports Price_Plan Capabilities
begin

text \<open>
  \<^verbatim>\<open>apps/server/src/automation/peak-shaving.ts\<close>: what may run, and the charge-current target of one
  tick. With it the records it reads: the automation configuration
  (\<^verbatim>\<open>packages/db/src/automation-config.ts\<close>), the part of the plant configuration
  (\<^verbatim>\<open>packages/db/src/weather.ts\<close>) and the EVCC snapshot (\<^verbatim>\<open>packages/contracts/src/evcc/types.ts\<close>).

  Currents, powers and energies are exact rationals, so a division by a pack voltage of zero,
  which gives an infinity in the source, is excluded by hypothesis where it matters. A string
  that is null or empty counts as absent where the source tests it for truth.
\<close>

definition NEAR_FULL_KWH :: number where "NEAR_FULL_KWH = 2 / 10"
definition RESERVE_MARGIN_KWH :: number where "RESERVE_MARGIN_KWH = 2 / 10"
definition CHARGE_QUANT_A :: number where "CHARGE_QUANT_A = 5"
definition THRESHOLD_SEARCH_STEPS :: nat where "THRESHOLD_SEARCH_STEPS = 32"

subsection \<open>Configuration\<close>

datatype PeakShavingMode = MaximizeExports | GridFriendly

record GridFriendlyConfig =
  gf_minThresholdW :: number
  gf_forecastTrustPct :: number
  gf_slewWPerMin :: number
  gf_chargeSlewAPerMin :: number
  gf_reserveForEvDemand :: bool

record PeakShavingConfig =
  ps_enabled :: bool
  ps_shadowMode :: bool
  ps_mode :: PeakShavingMode
  ps_safetyBufferW :: number
  ps_maxChargeA :: number
  ps_fallbackChargeA :: number
  ps_topBalanceFloorA :: number
  ps_nominalBatteryV :: number
  ps_controlIntervalS :: number
  ps_gridFriendly :: GridFriendlyConfig
  ps_priceAware :: PriceAwareConfig

record AutomationConfig =
  ac_enabled :: bool
  ac_disclaimerAcceptedAt :: "string option"
  ac_peakShaving :: PeakShavingConfig

record ForecastBattery =
  fb_usableKwh :: number
  fb_maxChargeW :: "number option"
  fb_minSoc :: number
  fb_nominalV :: "number option"

text \<open>The forecast section's provider, arrays, cell and loss coefficients are not read here.\<close>

record SolarForecastConfig =
  sc_enabled :: bool
  sc_maxOutputW :: "number option"
  sc_battery :: "ForecastBattery option"
  sc_houseLoadW :: "number option"
  sc_smartMeterSince :: "string option"

record WeatherConfig =
  wc_enabled :: bool
  wc_latitude :: "number option"
  wc_longitude :: "number option"
  wc_label :: string
  wc_forecast :: SolarForecastConfig

definition present :: "string option \<Rightarrow> bool" where
  "present s = (case s of None \<Rightarrow> False | Some x \<Rightarrow> x \<noteq> [])"

subsection \<open>Blockers\<close>

datatype BlockedConfig = ExportLimit | Battery | SmartMeter
datatype Blocker = BlockRole role | BlockConfig BlockedConfig

datatype LimitUnit = Amps | Watts

record SteeredLimit =
  sl_key :: string
  sl_unit :: LimitUnit

definition REQUIRED_ROLES :: "role list" where
  "REQUIRED_ROLES = [''pv.total.power'', ''battery.soc'']"

definition CHARGE_LIMIT_ROLES :: "role \<times> role" where
  "CHARGE_LIMIT_ROLES = (''setting.battery.max_charge_current'', ''setting.battery.max_charge_power'')"

definition GRID_CHARGE_LIMIT_ROLES :: "role \<times> role" where
  "GRID_CHARGE_LIMIT_ROLES =
     (''setting.battery.max_grid_charge_current'', ''setting.battery.max_grid_charge_power'')"

definition CHARGE_LIMIT_ROLE :: role where "CHARGE_LIMIT_ROLE = fst CHARGE_LIMIT_ROLES"
definition SELL_LIMIT_ROLE :: role where "SELL_LIMIT_ROLE = ''setting.solar_sell.max_power''"

definition roleKey :: "DeviceInstance \<Rightarrow> role \<Rightarrow> string option" where
  "roleKey device r = (case js_get (di_roles device) r of
     None \<Rightarrow> None
   | Some b \<Rightarrow> (case rb_metrics b of [] \<Rightarrow> None | m # _ \<Rightarrow> Some (mkey m)))"

definition resolveLimit :: "DeviceInstance \<Rightarrow> role \<times> role \<Rightarrow> SteeredLimit option" where
  "resolveLimit device rs =
     (let currentKey = roleKey device (fst rs); powerKey = roleKey device (snd rs)
      in if present currentKey then Some \<lparr>sl_key = the currentKey, sl_unit = Amps\<rparr>
         else if present powerKey then Some \<lparr>sl_key = the powerKey, sl_unit = Watts\<rparr> else None)"

definition resolveChargeLimit :: "DeviceInstance \<Rightarrow> SteeredLimit option" where
  "resolveChargeLimit device = resolveLimit device CHARGE_LIMIT_ROLES"

definition resolveGridChargeLimit :: "DeviceInstance \<Rightarrow> SteeredLimit option" where
  "resolveGridChargeLimit device = resolveLimit device GRID_CHARGE_LIMIT_ROLES"

definition limitValue :: "SteeredLimit \<Rightarrow> number \<Rightarrow> number \<Rightarrow> number" where
  "limitValue limit amps batteryV = (if sl_unit limit = Amps then amps else amps * batteryV)"

definition limitAmps :: "SteeredLimit \<Rightarrow> number \<Rightarrow> number \<Rightarrow> number" where
  "limitAmps limit v batteryV =
     (if sl_unit limit = Amps then v else if batteryV > 0 then v / batteryV else 0)"

definition resolvePeakShavingBlockers ::
  "DeviceInstance \<Rightarrow> WeatherConfig \<Rightarrow> PeakShavingMode \<Rightarrow> Blocker list" where
  "resolvePeakShavingBlockers device weather mode =
     map BlockRole (filter (\<lambda>r. \<not> present (roleKey device r)) REQUIRED_ROLES)
     @ (if resolveChargeLimit device = None then [BlockRole CHARGE_LIMIT_ROLE] else [])
     @ (if mode = GridFriendly \<and> \<not> present (roleKey device SELL_LIMIT_ROLE)
        then [BlockRole SELL_LIMIT_ROLE] else [])
     @ (if sc_maxOutputW (wc_forecast weather) = None then [BlockConfig ExportLimit] else [])
     @ (if sc_battery (wc_forecast weather) = None then [BlockConfig Battery] else [])"

definition resolvePriceAwareBlockers :: "WeatherConfig \<Rightarrow> Blocker list" where
  "resolvePriceAwareBlockers weather =
     (if \<not> present (sc_smartMeterSince (wc_forecast weather)) then [BlockConfig SmartMeter] else [])"

definition effectivePriceConfig :: "PriceAwareConfig \<Rightarrow> WeatherConfig \<Rightarrow> PriceAwareConfig" where
  "effectivePriceConfig price weather =
     (if length (resolvePriceAwareBlockers weather) > 0 then price\<lparr>pc_enabled := False\<rparr> else price)"

record EnableError =
  ee_error :: string
  ee_blockers :: "Blocker list option"

definition validatePeakShavingEnable ::
  "AutomationConfig \<Rightarrow> DeviceInstance option \<Rightarrow> WeatherConfig \<Rightarrow> EnableError option" where
  "validatePeakShavingEnable cfg device weather =
     (if \<not> ac_enabled cfg
      then Some \<lparr>ee_error = ''Enable the automations master switch first'', ee_blockers = None\<rparr>
      else (case device of
          None \<Rightarrow> Some \<lparr>ee_error = ''No registered inverter'', ee_blockers = None\<rparr>
        | Some d \<Rightarrow>
            let blockers = resolvePeakShavingBlockers d weather (ps_mode (ac_peakShaving cfg))
            in if length blockers > 0
               then Some \<lparr>ee_error = ''Peak shaving cannot run with this setup'', ee_blockers = Some blockers\<rparr>
               else None))"

definition price_enable_error :: "AutomationConfig \<Rightarrow> WeatherConfig \<Rightarrow> EnableError option" where
  "price_enable_error cfg weather =
     (if pc_enabled (ps_priceAware (ac_peakShaving cfg))
      then let blockers = resolvePriceAwareBlockers weather
        in if length blockers > 0
           then Some \<lparr>ee_error = ''Price-aware charging needs a smart meter gateway install date'',
             ee_blockers = Some blockers\<rparr>
           else None
      else None)"

definition validateAutomationEnable ::
  "AutomationConfig \<Rightarrow> DeviceInstance option \<Rightarrow> WeatherConfig \<Rightarrow> EnableError option" where
  "validateAutomationEnable cfg device weather =
     (if ac_enabled cfg \<and> \<not> present (ac_disclaimerAcceptedAt cfg)
      then Some \<lparr>ee_error = ''Enabling automations requires accepting the disclaimer'', ee_blockers = None\<rparr>
      else (case (if ps_enabled (ac_peakShaving cfg) then validatePeakShavingEnable cfg device weather else None) of
          Some failed \<Rightarrow> Some failed
        | None \<Rightarrow> price_enable_error cfg weather))"

subsection \<open>The cars\<close>

record EvccLoadpoint =
  lp_index :: nat
  lp_title :: "string option"
  lp_mode :: "string option"
  lp_chargePower :: number
  lp_chargePowerLive :: number
  lp_chargePowerSource :: string
  lp_charging :: bool
  lp_connected :: bool
  lp_vehicleSoc :: "number option"
  lp_vehicleRange :: "number option"
  lp_vehicleTitle :: "string option"
  lp_vehicleName :: "string option"
  lp_sessionEnergy :: "number option"
  lp_chargeRemainingEnergy :: "number option"
  lp_limitSoc :: "number option"
  lp_effectiveLimitSoc :: "number option"
  lp_vehicleLimitSoc :: "number option"
  lp_batteryBoost :: bool
  lp_batteryBoostLimit :: "number option"
  lp_vehicleCapacityKwh :: "number option"
  lp_phasesActive :: "nat option"

record EvccState =
  ev_reachable :: bool
  ev_loadpoints :: "EvccLoadpoint list"
  ev_subtractFromHome :: bool

definition EV_CHARGE_EFFICIENCY :: number where "EV_CHARGE_EFFICIENCY = 9 / 10"

definition positive_limits :: "EvccLoadpoint \<Rightarrow> number list" where
  "positive_limits lp =
     List.map_filter (\<lambda>v. case v of None \<Rightarrow> None | Some x \<Rightarrow> if x > 0 then Some x else None)
       [lp_effectiveLimitSoc lp, lp_vehicleLimitSoc lp]"

definition chargeStopSoc :: "EvccLoadpoint \<Rightarrow> number option" where
  "chargeStopSoc lp = (case positive_limits lp of [] \<Rightarrow> None | v # vs \<Rightarrow> Some (fold min vs v))"

definition loadpointDemandKwh :: "EvccLoadpoint \<Rightarrow> number" where
  "loadpointDemandKwh lp =
     (let reported = max 0 (case lp_chargeRemainingEnergy lp of Some e \<Rightarrow> e | None \<Rightarrow> 0) / 1000
      in if reported > 0 then reported
         else (case (lp_vehicleSoc lp, chargeStopSoc lp, lp_vehicleCapacityKwh lp) of
             (Some soc, Some limit, Some capacityKwh) \<Rightarrow>
               let gapPct = limit - soc
               in if gapPct \<le> 0 then 0 else gapPct / 100 * capacityKwh / EV_CHARGE_EFFICIENCY
           | _ \<Rightarrow> 0))"

definition may_charge :: "EvccLoadpoint \<Rightarrow> bool" where
  "may_charge lp \<longleftrightarrow> lp_connected lp \<and> lp_mode lp \<noteq> None \<and> lp_mode lp \<noteq> Some ''off''"

definition evccAutomationInputs :: "EvccState option \<Rightarrow> number \<times> number" where
  "evccAutomationInputs state =
     (case state of
        None \<Rightarrow> (0, 0)
      | Some s \<Rightarrow>
          if \<not> ev_reachable s then (0, 0)
          else fold (\<lambda>lp (evChargeW, evRemainingKwh).
              (evChargeW + max 0 (lp_chargePowerLive lp),
               if may_charge lp then evRemainingKwh + loadpointDemandKwh lp else evRemainingKwh))
            (ev_loadpoints s) (0, 0))"

subsection \<open>One decision\<close>

record DecisionInputs =
  in_mode :: PeakShavingMode
  in_pvW :: number
  in_socPct :: number
  in_batteryV :: number
  in_exportLimitW :: number
  in_exportCapW :: "number option"
  in_liveLoadW :: number
  in_baselineLoadW :: number
  in_evIncludedInLoad :: bool
  in_evChargeW :: number
  in_evRemainingKwh :: number
  in_usableKwh :: number
  in_maxChargeA :: number
  in_fallbackChargeA :: number
  in_topBalanceFloorA :: number
  in_gridFriendly :: GridFriendlyConfig
  in_previousThresholdW :: "number option"
  in_previousTargetA :: "number option"
  in_sinceLastDecisionMs :: number
  in_forecast :: "ForecastSlice option"
  in_price :: PriceAwareConfig
  in_priceView :: "SpotSlice option"
  in_minSocPct :: number
  in_importFollowsMarket :: bool
  in_nowMs :: millis

record Decision =
  de_targetA :: number
  de_thresholdW :: number
  de_headroomKwh :: number
  de_surplusAboveLimitKwh :: "number option"
  de_localSinkW :: number
  de_liveExcessW :: number
  de_absorbCeilingW :: "number option"
  de_degraded :: bool
  de_priceRegime :: PriceRegime
  de_socEnvelopePct :: "number option"
  de_windowStartsAt :: "millis option"
  de_windowEndsAt :: "millis option"
  de_soakableKwh :: "number option"
  de_unavoidableZeroValueKwh :: "number option"
  de_gridChargeA :: "number option"

definition surplusAboveKwh :: "zone_data \<Rightarrow> ForecastSlice \<Rightarrow> number \<Rightarrow> millis \<Rightarrow> number" where
  "surplusAboveKwh zone view thresholdW nowMs =
     slots_kwh (\<lambda>w. max 0 (w - thresholdW)) (remainingSlotsToday zone view nowMs)"

definition maximizeExportsA ::
  "DecisionInputs \<Rightarrow> number \<Rightarrow> number \<Rightarrow> number \<Rightarrow> number \<Rightarrow> (number \<Rightarrow> number) \<Rightarrow> number \<times> number option" where
  "maximizeExportsA i hardExcessW bufferExcessW headroomKwh peakKwh toA =
     (let roomToSpare = (headroomKwh - peakKwh > RESERVE_MARGIN_KWH)
      in if hardExcessW + bufferExcessW > 0
         then let excessW = (if roomToSpare then hardExcessW + bufferExcessW else hardExcessW)
           in (toA excessW, Some excessW)
         else (if roomToSpare then min (in_fallbackChargeA i) (in_maxChargeA i) else 0, None))"

definition exportSurplusAboveKwh ::
  "zone_data \<Rightarrow> ForecastSlice \<Rightarrow> number \<Rightarrow> number \<Rightarrow> number \<Rightarrow> millis \<Rightarrow> number" where
  "exportSurplusAboveKwh zone view levelW budgetW loadW nowMs =
     slots_kwh (\<lambda>w. max 0 (min (max 0 (w - loadW)) budgetW - levelW)) (remainingSlotsToday zone view nowMs)"

fun bisect_level :: "(number \<Rightarrow> bool) \<Rightarrow> nat \<Rightarrow> number \<Rightarrow> number \<Rightarrow> number" where
  "bisect_level fills 0 lo hi = hi"
| "bisect_level fills (Suc n) lo hi =
     (let mid = (lo + hi) / 2
      in if fills mid then bisect_level fills n mid hi else bisect_level fills n lo mid)"

definition level_fills :: "zone_data \<Rightarrow> DecisionInputs \<Rightarrow> ForecastSlice \<Rightarrow> number \<Rightarrow> number \<Rightarrow> number \<Rightarrow> bool" where
  "level_fills zone i forecast headroomKwh exportLimitW levelW \<longleftrightarrow>
     (let trust = gf_forecastTrustPct (in_gridFriendly i) / 100;
          evKwh = (if gf_reserveForEvDemand (in_gridFriendly i) then in_evRemainingKwh i else 0)
      in exportSurplusAboveKwh zone forecast levelW exportLimitW (in_baselineLoadW i) (in_nowMs i) * trust - evKwh
           > headroomKwh)"

definition gridFriendlyThresholdW ::
  "zone_data \<Rightarrow> DecisionInputs \<Rightarrow> ForecastSlice \<Rightarrow> number \<Rightarrow> number \<Rightarrow> number" where
  "gridFriendlyThresholdW zone i forecast headroomKwh exportLimitW =
     (let floorW = min (gf_minThresholdW (in_gridFriendly i)) exportLimitW;
          fills = level_fills zone i forecast headroomKwh exportLimitW
      in if \<not> fills floorW then floorW
         else bisect_level fills THRESHOLD_SEARCH_STEPS floorW exportLimitW)"

definition slewLimited :: "number \<Rightarrow> number option \<Rightarrow> number \<Rightarrow> number \<Rightarrow> number" where
  "slewLimited targetW previousW wPerMin elapsedMs =
     (case previousW of
        None \<Rightarrow> targetW
      | Some p \<Rightarrow>
          if wPerMin \<le> 0 then targetW
          else let budget = wPerMin * (max 0 elapsedMs / 60000)
            in min (p + budget) (max (p - budget) targetW))"

definition slewLimitedA :: "number \<Rightarrow> number option \<Rightarrow> number \<Rightarrow> number \<Rightarrow> number" where
  "slewLimitedA targetA previousA aPerMin elapsedMs =
     (case previousA of
        None \<Rightarrow> targetA
      | Some p \<Rightarrow>
          if aPerMin \<le> 0 then targetA
          else let allowance = max CHARGE_QUANT_A (aPerMin * (max 0 elapsedMs / 60000));
                   clamped = min (p + allowance) (max (p - allowance) targetA)
            in of_int (math_round (clamped / CHARGE_QUANT_A)) * CHARGE_QUANT_A)"

definition toA :: "DecisionInputs \<Rightarrow> number \<Rightarrow> number" where
  "toA i watts =
     (let steps = watts / in_batteryV i / CHARGE_QUANT_A;
          rounded = (if in_mode i = GridFriendly then math_round steps else \<lceil>steps\<rceil>)
      in min (in_maxChargeA i) (of_int (max 0 rounded) * CHARGE_QUANT_A))"

definition capWOf :: "DecisionInputs \<Rightarrow> number \<Rightarrow> number" where
  "capWOf i exportLimitW =
     (if exportLimitW < in_exportLimitW i then exportLimitW
      else max exportLimitW (case in_exportCapW i of Some c \<Rightarrow> c | None \<Rightarrow> 0))"

definition localSinkWOf :: "DecisionInputs \<Rightarrow> number" where
  "localSinkWOf i = max 0 (in_liveLoadW i) + (if in_evIncludedInLoad i then 0 else max 0 (in_evChargeW i))"

definition headroomKwhOf :: "DecisionInputs \<Rightarrow> number" where
  "headroomKwhOf i = (let socPct = min 100 (max 0 (in_socPct i)) in in_usableKwh i * (100 - socPct) / 100)"

definition base_decision :: "DecisionInputs \<Rightarrow> number \<Rightarrow> Decision" where
  "base_decision i exportLimitW =
     \<lparr>de_targetA = 0, de_thresholdW = exportLimitW, de_headroomKwh = headroomKwhOf i,
      de_surplusAboveLimitKwh = None, de_localSinkW = localSinkWOf i,
      de_liveExcessW = max 0 (in_pvW i - localSinkWOf i - exportLimitW), de_absorbCeilingW = None,
      de_degraded = (in_forecast i = None), de_priceRegime = RNone, de_socEnvelopePct = None,
      de_windowStartsAt = None, de_windowEndsAt = None, de_soakableKwh = None,
      de_unavoidableZeroValueKwh = None, de_gridChargeA = None\<rparr>"

definition decideModeTargetA :: "zone_data \<Rightarrow> DecisionInputs \<Rightarrow> number \<Rightarrow> Decision" where
  "decideModeTargetA zone i exportLimitW =
     (let headroomKwh = headroomKwhOf i;
          localSinkW = localSinkWOf i;
          liveExcessW = max 0 (in_pvW i - localSinkW - exportLimitW);
          hardExcessW = max 0 (in_pvW i - localSinkW - capWOf i exportLimitW);
          bufferExcessW = liveExcessW - hardExcessW;
          base = base_decision i exportLimitW
      in if headroomKwh \<le> NEAR_FULL_KWH
         then base\<lparr>de_targetA := min (in_topBalanceFloorA i) (in_maxChargeA i), de_thresholdW := exportLimitW\<rparr>
         else (case in_forecast i of
             None \<Rightarrow> base\<lparr>de_targetA := toA i liveExcessW, de_absorbCeilingW := Some liveExcessW,
               de_thresholdW := exportLimitW\<rparr>
           | Some forecast \<Rightarrow>
               let surplusAtLimit = surplusAboveKwh zone forecast (exportLimitW + in_baselineLoadW i) (in_nowMs i);
                   base' = base\<lparr>de_surplusAboveLimitKwh := Some surplusAtLimit\<rparr>;
                   peakKwh = surplusAtLimit - min (in_evRemainingKwh i) surplusAtLimit
               in (case in_mode i of
                   MaximizeExports \<Rightarrow>
                     (case maximizeExportsA i hardExcessW bufferExcessW headroomKwh peakKwh (toA i) of
                        (t, absorbW) \<Rightarrow> base'\<lparr>de_targetA := t, de_absorbCeilingW := absorbW, de_thresholdW := exportLimitW\<rparr>)
                 | GridFriendly \<Rightarrow>
                     let solvedW = gridFriendlyThresholdW zone i forecast headroomKwh exportLimitW;
                         thresholdW = slewLimited solvedW (in_previousThresholdW i)
                           (gf_slewWPerMin (in_gridFriendly i)) (in_sinceLastDecisionMs i);
                         exportableNowW = min (max 0 (in_pvW i - localSinkW)) exportLimitW;
                         targetA = slewLimitedA (toA i (max 0 (exportableNowW - thresholdW)))
                           (in_previousTargetA i) (gf_chargeSlewAPerMin (in_gridFriendly i)) (in_sinceLastDecisionMs i)
                     in base'\<lparr>de_targetA := targetA, de_thresholdW := thresholdW\<rparr>)))"

definition floorToA :: "number \<Rightarrow> number \<Rightarrow> number \<Rightarrow> number" where
  "floorToA watts volts maxA =
     min maxA (max 0 (of_int \<lfloor>watts / volts / CHARGE_QUANT_A\<rfloor> * CHARGE_QUANT_A))"

definition priceAdjust :: "DecisionInputs \<Rightarrow> Decision \<Rightarrow> PriceAction \<Rightarrow> Decision" where
  "priceAdjust i decision action =
     (let capped = (case pa_chargeCeilingW action of
          None \<Rightarrow> de_targetA decision
        | Some c \<Rightarrow> if de_headroomKwh decision \<le> NEAR_FULL_KWH then de_targetA decision
            else min (de_targetA decision) (floorToA c (in_batteryV i) (in_maxChargeA i)))
      in decision\<lparr>de_targetA := capped, de_priceRegime := pa_regime action,
           de_socEnvelopePct := pa_socEnvelopePct action,
           de_windowStartsAt := map_option pw_startMs (pa_window action),
           de_windowEndsAt := map_option pw_endMs (pa_window action),
           de_soakableKwh := pa_soakableKwh action,
           de_unavoidableZeroValueKwh := pa_unavoidableZeroValueKwh action,
           de_gridChargeA := pa_gridChargeA action\<rparr>)"

definition price_inputs :: "DecisionInputs \<Rightarrow> PriceInputs" where
  "price_inputs i =
     \<lparr>pi_price = in_price i, pi_prices = in_priceView i, pi_forecast = in_forecast i,
      pi_nowMs = in_nowMs i, pi_socPct = in_socPct i, pi_minSocPct = in_minSocPct i,
      pi_usableKwh = in_usableKwh i, pi_baselineLoadW = in_baselineLoadW i,
      pi_maxChargeW = in_maxChargeA i * in_batteryV i,
      pi_importFollowsMarket = in_importFollowsMarket i\<rparr>"

definition decideTargetA :: "zone_data \<Rightarrow> DecisionInputs \<Rightarrow> Decision" where
  "decideTargetA zone i =
     (let action = planPriceAction (price_inputs i)
      in priceAdjust i (decideModeTargetA zone i
           (case pa_exportLimitW action of Some l \<Rightarrow> l | None \<Rightarrow> in_exportLimitW i)) action)"

subsection \<open>The enable guard\<close>

lemma no_blockers:
  "resolvePeakShavingBlockers d weather mode = [] \<longleftrightarrow>
     (\<forall>r\<in>set REQUIRED_ROLES. present (roleKey d r)) \<and> resolveChargeLimit d \<noteq> None
     \<and> (mode = GridFriendly \<longrightarrow> present (roleKey d SELL_LIMIT_ROLE))
     \<and> sc_maxOutputW (wc_forecast weather) \<noteq> None \<and> sc_battery (wc_forecast weather) \<noteq> None"
  unfolding resolvePeakShavingBlockers_def by (auto simp: filter_empty_conv)

lemma no_price_blockers:
  "resolvePriceAwareBlockers weather = [] \<longleftrightarrow> present (sc_smartMeterSince (wc_forecast weather))"
  unfolding resolvePriceAwareBlockers_def by simp

text \<open>What may be switched on keeps running: an accepted configuration with peak shaving
  enabled has its master gate on, the disclaimer accepted, a device that binds every role the
  tick reads or steers, the plant's export limit and battery stated, and its price awareness,
  if on, not forced off by the runtime gate.\<close>

theorem enabled_setup_can_run:
  assumes "validateAutomationEnable cfg device weather = None" and "ps_enabled (ac_peakShaving cfg)"
  shows "ac_enabled cfg \<and> present (ac_disclaimerAcceptedAt cfg)
    \<and> (\<exists>d. device = Some d \<and> resolvePeakShavingBlockers d weather (ps_mode (ac_peakShaving cfg)) = []
        \<and> (\<forall>r\<in>set REQUIRED_ROLES. present (roleKey d r)) \<and> resolveChargeLimit d \<noteq> None
        \<and> (ps_mode (ac_peakShaving cfg) = GridFriendly \<longrightarrow> present (roleKey d SELL_LIMIT_ROLE)))
    \<and> sc_maxOutputW (wc_forecast weather) \<noteq> None \<and> sc_battery (wc_forecast weather) \<noteq> None
    \<and> effectivePriceConfig (ps_priceAware (ac_peakShaving cfg)) weather = ps_priceAware (ac_peakShaving cfg)"
proof -
  have gate: "present (ac_disclaimerAcceptedAt cfg) \<or> \<not> ac_enabled cfg"
    and shave: "validatePeakShavingEnable cfg device weather = None"
    and price: "price_enable_error cfg weather = None"
    using assms unfolding validateAutomationEnable_def by (auto split: if_splits option.splits)
  obtain d where d: "ac_enabled cfg" "device = Some d"
      "resolvePeakShavingBlockers d weather (ps_mode (ac_peakShaving cfg)) = []"
    using shave unfolding validatePeakShavingEnable_def by (auto simp: Let_def split: if_splits option.splits)
  have "effectivePriceConfig (ps_priceAware (ac_peakShaving cfg)) weather = ps_priceAware (ac_peakShaving cfg)"
    using price unfolding price_enable_error_def effectivePriceConfig_def
    by (auto simp: Let_def split: if_splits)
  with d gate no_blockers [of d weather] show ?thesis by simp
qed

subsection \<open>The currents\<close>

lemma toA_range:
  assumes "0 \<le> in_maxChargeA i"
  shows "0 \<le> toA i w" and "toA i w \<le> in_maxChargeA i"
  using assms unfolding toA_def CHARGE_QUANT_A_def by (simp_all add: Let_def)

text \<open>Rounding up, the current carries at least the watts it was sized for.\<close>

lemma toA_covers:
  assumes "in_mode i = MaximizeExports" and "0 < in_batteryV i"
  shows "min w (in_maxChargeA i * in_batteryV i) \<le> toA i w * in_batteryV i"
proof -
  define steps where "steps = w / in_batteryV i / CHARGE_QUANT_A"
  have "steps \<le> of_int (max 0 \<lceil>steps\<rceil>)" by linarith
  then have "steps * CHARGE_QUANT_A * in_batteryV i \<le> of_int (max 0 \<lceil>steps\<rceil>) * CHARGE_QUANT_A * in_batteryV i"
    using assms(2) by (simp add: CHARGE_QUANT_A_def)
  moreover have "steps * CHARGE_QUANT_A * in_batteryV i = w"
    unfolding steps_def using assms(2) by (simp add: CHARGE_QUANT_A_def)
  ultimately have "w \<le> of_int (max 0 \<lceil>steps\<rceil>) * CHARGE_QUANT_A * in_batteryV i" by simp
  moreover have "toA i w * in_batteryV i =
      min (in_maxChargeA i * in_batteryV i) (of_int (max 0 \<lceil>steps\<rceil>) * CHARGE_QUANT_A * in_batteryV i)"
    using assms unfolding toA_def steps_def Let_def by (simp add: min_mult_distrib_right)
  ultimately show ?thesis by (simp add: min.coboundedI1 min.coboundedI2)
qed

lemma capWOf_ge: "exportLimitW \<le> capWOf i exportLimitW"
  unfolding capWOf_def by simp

text \<open>The fields the mode leaves to the price layer.\<close>

definition price_blank :: "Decision \<Rightarrow> bool" where
  "price_blank d \<longleftrightarrow> de_priceRegime d = RNone \<and> de_socEnvelopePct d = None \<and> de_windowStartsAt d = None
     \<and> de_windowEndsAt d = None \<and> de_soakableKwh d = None \<and> de_unavoidableZeroValueKwh d = None
     \<and> de_gridChargeA d = None"

lemma mode_price_blank: "price_blank (decideModeTargetA zone i l)"
  and mode_headroom: "de_headroomKwh (decideModeTargetA zone i l) = headroomKwhOf i"
  unfolding price_blank_def decideModeTargetA_def Let_def base_decision_def
  by (simp_all split: option.split PeakShavingMode.split prod.split)

lemma mode_near_full:
  "headroomKwhOf i \<le> NEAR_FULL_KWH \<Longrightarrow>
    de_targetA (decideModeTargetA zone i l) = min (in_topBalanceFloorA i) (in_maxChargeA i)"
  unfolding decideModeTargetA_def Let_def by simp

lemma priceAdjust_idle: "price_blank d \<Longrightarrow> priceAdjust i d IDLE = d"
  unfolding price_blank_def priceAdjust_def IDLE_def by (cases d) simp

lemma plan_inert:
  "\<not> pc_enabled (in_price i) \<or> in_priceView i = None \<Longrightarrow> planPriceAction (price_inputs i) = IDLE"
  unfolding planPriceAction_def price_inputs_def by (auto split: option.split)

lemma price_off_decision:
  "\<not> pc_enabled (in_price i) \<or> in_priceView i = None \<Longrightarrow>
    decideTargetA zone i = decideModeTargetA zone i (in_exportLimitW i)"
  unfolding decideTargetA_def Let_def by (simp add: plan_inert priceAdjust_idle mode_price_blank) (simp add: IDLE_def)

text \<open>Rounding up overshoots by less than one step.\<close>

lemma toA_tight:
  assumes "in_mode i = MaximizeExports" and "0 < in_batteryV i" and "0 \<le> w"
  shows "toA i w * in_batteryV i < w + CHARGE_QUANT_A * in_batteryV i"
proof -
  define steps where "steps = w / in_batteryV i / CHARGE_QUANT_A"
  have "0 \<le> steps" unfolding steps_def using assms(2,3) by (simp add: CHARGE_QUANT_A_def)
  then have "of_int (max 0 \<lceil>steps\<rceil>) < steps + 1" by linarith
  then have "of_int (max 0 \<lceil>steps\<rceil>) * (CHARGE_QUANT_A * in_batteryV i) < (steps + 1) * (CHARGE_QUANT_A * in_batteryV i)"
    using assms(2) by (simp add: CHARGE_QUANT_A_def)
  moreover have "(steps + 1) * (CHARGE_QUANT_A * in_batteryV i) = w + CHARGE_QUANT_A * in_batteryV i"
    unfolding steps_def using assms(2) by (simp add: CHARGE_QUANT_A_def distrib_right)
  moreover have "toA i w \<le> of_int (max 0 \<lceil>steps\<rceil>) * CHARGE_QUANT_A"
    using assms(1) unfolding toA_def steps_def Let_def by simp
  then have "toA i w * in_batteryV i \<le> of_int (max 0 \<lceil>steps\<rceil>) * CHARGE_QUANT_A * in_batteryV i"
    using assms(2) by (simp add: mult_right_mono)
  ultimately show ?thesis by (simp add: mult.assoc)
qed

text \<open>
  A current carries \<open>w\<close> watts when it is within the ceiling, delivers all of \<open>w\<close> the ceiling allows
  and no full 5 A step more.
\<close>

definition carries :: "DecisionInputs \<Rightarrow> number \<Rightarrow> number \<Rightarrow> bool" where
  "carries i a w \<longleftrightarrow> a \<le> in_maxChargeA i \<and> min w (in_maxChargeA i * in_batteryV i) \<le> a * in_batteryV i
     \<and> a * in_batteryV i < w + CHARGE_QUANT_A * in_batteryV i"

lemma toA_carries:
  "in_mode i = MaximizeExports \<Longrightarrow> 0 < in_batteryV i \<Longrightarrow> 0 \<le> in_maxChargeA i \<Longrightarrow> 0 \<le> w \<Longrightarrow> carries i (toA i w) w"
  unfolding carries_def using toA_range(2) toA_covers toA_tight by blast

lemma carries_more:
  "carries i a w \<Longrightarrow> v \<le> w \<Longrightarrow> min v (in_maxChargeA i * in_batteryV i) \<le> a * in_batteryV i"
  unfolding carries_def by (meson min.mono order_refl order_trans)

text \<open>The decision of \<open>maximize-exports\<close>, its two excesses named.\<close>

lemma maximize_exports_decision:
  assumes "in_mode i = MaximizeExports" and "\<not> headroomKwhOf i \<le> NEAR_FULL_KWH"
    and lost: "lostW = max 0 (in_pvW i - localSinkWOf i - capWOf i L)"
    and live: "liveW = max 0 (in_pvW i - localSinkWOf i - L)"
  shows "in_forecast i = None \<Longrightarrow> de_targetA (decideModeTargetA zone i L) = toA i liveW
      \<and> de_absorbCeilingW (decideModeTargetA zone i L) = Some liveW"
    and "in_forecast i = Some f \<Longrightarrow>
      s = surplusAboveKwh zone f (L + in_baselineLoadW i) (in_nowMs i) \<Longrightarrow>
      room = (headroomKwhOf i - (s - min (in_evRemainingKwh i) s) > RESERVE_MARGIN_KWH) \<Longrightarrow>
      de_targetA (decideModeTargetA zone i L) =
        (if 0 < liveW then toA i (if room then liveW else lostW)
         else if room then min (in_fallbackChargeA i) (in_maxChargeA i) else 0)
      \<and> de_absorbCeilingW (decideModeTargetA zone i L) =
        (if 0 < liveW then Some (if room then liveW else lostW) else None)"
  using assms(1,2) unfolding decideModeTargetA_def maximizeExportsA_def Let_def
  by (simp_all add: lost [symmetric] live [symmetric] case_prod_beta)

text \<open>C14. A real peak is never missed. In \<open>maximize-exports\<close>, before the price layer (which is the whole
  decision while price awareness is off or has no prices), let the lost power be what the plant can
  neither use nor export right now and the excess what is above the export limit. A pack near full
  gets exactly the top-balance floor, within the ceiling. Any other pack is commanded at least the
  lost power, up to the configured current, whatever the forecast says or fails to say. Without a
  forecast it is commanded the excess. With one, the excess if the coming peak leaves more than the
  reserve margin of room, and otherwise the lost power and nothing the grid would still take: the
  power commanded is less than one 5 A step above it. Without excess the pack gets the fallback
  current if there is room and nothing otherwise.\<close>

theorem peak_never_missed:
  assumes "in_mode i = MaximizeExports" and "0 < in_batteryV i" and "0 \<le> in_maxChargeA i" and "0 \<le> in_fallbackChargeA i"
    and lost: "lostW = max 0 (in_pvW i - localSinkWOf i - capWOf i exportLimitW)"
    and live: "liveW = max 0 (in_pvW i - localSinkWOf i - exportLimitW)"
    and d: "d = decideModeTargetA zone i exportLimitW"
  shows "(if headroomKwhOf i \<le> NEAR_FULL_KWH then de_targetA d = min (in_topBalanceFloorA i) (in_maxChargeA i)
      else min lostW (in_maxChargeA i * in_batteryV i) \<le> de_targetA d * in_batteryV i
        \<and> (case in_forecast i of
             None \<Rightarrow> carries i (de_targetA d) liveW \<and> de_absorbCeilingW d = Some liveW
           | Some f \<Rightarrow>
               let s = surplusAboveKwh zone f (exportLimitW + in_baselineLoadW i) (in_nowMs i);
                   room = (headroomKwhOf i - (s - min (in_evRemainingKwh i) s) > RESERVE_MARGIN_KWH);
                   w = (if room then liveW else lostW)
               in if 0 < liveW then carries i (de_targetA d) w \<and> de_absorbCeilingW d = Some w
                  else de_targetA d = (if room then min (in_fallbackChargeA i) (in_maxChargeA i) else 0)
                    \<and> de_absorbCeilingW d = None))
    \<and> (\<not> pc_enabled (in_price i) \<or> in_priceView i = None \<longrightarrow>
        decideTargetA zone i = decideModeTargetA zone i (in_exportLimitW i))" (is "(if ?full then ?floor else ?rest) \<and> ?price")
proof (rule conjI)
  show "\<not> pc_enabled (in_price i) \<or> in_priceView i = None \<longrightarrow>
      decideTargetA zone i = decideModeTargetA zone i (in_exportLimitW i)"
    by (rule impI) (rule price_off_decision)
  have lw: "0 \<le> lostW" "lostW \<le> liveW" "0 \<le> liveW" unfolding lost live using capWOf_ge [of exportLimitW i] by auto
  note carry = toA_carries [OF assms(1-3)]
  have zero: "min lostW (in_maxChargeA i * in_batteryV i) \<le> a * in_batteryV i" if "liveW = 0" "0 \<le> a" for a
    using that lw assms(2,3) by (simp add: min.coboundedI1)
  show "if ?full then ?floor else ?rest"
  proof (cases "headroomKwhOf i \<le> NEAR_FULL_KWH")
    case True
    then show ?thesis unfolding d by (simp add: mode_near_full)
  next
    case False
    note dec = maximize_exports_decision [where zone = zone, OF assms(1) False lost live, folded d]
    have ?rest
    proof (cases "in_forecast i")
      case None
      with dec(1) [OF None] carry [OF lw(3)] carries_more [OF carry [OF lw(3)] lw(2)] show ?thesis by simp
    next
      case (Some f)
      define s where "s = surplusAboveKwh zone f (exportLimitW + in_baselineLoadW i) (in_nowMs i)"
      define room where "room = (headroomKwhOf i - (s - min (in_evRemainingKwh i) s) > RESERVE_MARGIN_KWH)"
      note chosen = dec(2) [OF Some s_def room_def]
      have w: "0 \<le> (if room then liveW else lostW)" "lostW \<le> (if room then liveW else lostW)" using lw by auto
      show ?thesis
        using chosen carry [OF w(1)] carries_more [OF carry [OF w(1)] w(2)] zero [of "de_targetA d"] lw(3) assms(3,4)
        unfolding Some by (auto simp: s_def room_def Let_def)
    qed
    with False show ?thesis by simp
  qed
qed

lemma math_round_mono: "x \<le> y \<Longrightarrow> math_round x \<le> math_round y"
  unfolding math_round_def by (intro floor_mono) simp

text \<open>
  What the ramp may reach: the ceiling and, coming from a previous target, the larger of the two
  rounded to the nearest 5 A step.
\<close>

definition ramp_bound :: "number \<Rightarrow> number option \<Rightarrow> number" where
  "ramp_bound maxA previousA = (case previousA of
     None \<Rightarrow> maxA
   | Some p \<Rightarrow> max maxA (of_int (math_round (max maxA p / CHARGE_QUANT_A)) * CHARGE_QUANT_A))"

lemma ramp_bound_ceiling: "maxA \<le> ramp_bound maxA previousA"
  unfolding ramp_bound_def by (simp split: option.split)

lemma ramp_bound_near: "ramp_bound maxA previousA \<le> max maxA (case previousA of None \<Rightarrow> maxA | Some p \<Rightarrow> p) + CHARGE_QUANT_A / 2"
proof (cases previousA)
  case None
  then show ?thesis unfolding ramp_bound_def CHARGE_QUANT_A_def by simp
next
  case (Some p)
  have "of_int (math_round (max maxA p / CHARGE_QUANT_A)) \<le> max maxA p / CHARGE_QUANT_A + 1 / 2"
    unfolding math_round_def by linarith
  then have "of_int (math_round (max maxA p / CHARGE_QUANT_A)) * CHARGE_QUANT_A \<le> max maxA p + CHARGE_QUANT_A / 2"
    by (simp add: CHARGE_QUANT_A_def)
  then show ?thesis unfolding ramp_bound_def Some by (simp add: CHARGE_QUANT_A_def)
qed

lemma ramp_bound_on_grid:
  "maxA = of_int k * CHARGE_QUANT_A \<Longrightarrow> \<forall>p. previousA = Some p \<longrightarrow> p \<le> maxA \<Longrightarrow> ramp_bound maxA previousA = maxA"
  unfolding ramp_bound_def by (auto split: option.split simp: max_absorb1 CHARGE_QUANT_A_def math_round_of_int)

lemma slewLimitedA_range:
  assumes "0 \<le> targetA" and "targetA \<le> M" and "\<forall>p. previousA = Some p \<longrightarrow> 0 \<le> p"
  shows "0 \<le> slewLimitedA targetA previousA aPerMin elapsedMs \<and> slewLimitedA targetA previousA aPerMin elapsedMs \<le> ramp_bound M previousA"
proof (cases "previousA = None \<or> aPerMin \<le> 0")
  case True
  then show ?thesis using assms(1,2) order_trans [OF assms(2) ramp_bound_ceiling]
    unfolding slewLimitedA_def by (auto split: option.split)
next
  case False
  then obtain p where p: "previousA = Some p" "0 \<le> p" using assms(3) by auto
  define a where "a = max CHARGE_QUANT_A (aPerMin * (max 0 elapsedMs / 60000))"
  have a: "0 \<le> a" unfolding a_def by (simp add: CHARGE_QUANT_A_def max.coboundedI1)
  define c where "c = min (p + a) (max (p - a) targetA)"
  have "0 \<le> c" unfolding c_def using p a assms(1) by simp
  then have lo: "0 \<le> c / CHARGE_QUANT_A" by (simp add: CHARGE_QUANT_A_def)
  have "c \<le> max M p" unfolding c_def using a assms(2) by linarith
  then have hi: "c / CHARGE_QUANT_A \<le> max M p / CHARGE_QUANT_A" by (simp add: CHARGE_QUANT_A_def)
  have "0 \<le> math_round (c / CHARGE_QUANT_A)" using math_round_mono [OF lo] math_round_of_int [of 0] by simp
  moreover have "math_round (c / CHARGE_QUANT_A) \<le> math_round (max M p / CHARGE_QUANT_A)" by (rule math_round_mono [OF hi])
  moreover have "slewLimitedA targetA previousA aPerMin elapsedMs = of_int (math_round (c / CHARGE_QUANT_A)) * CHARGE_QUANT_A"
    using False unfolding slewLimitedA_def p Let_def c_def a_def by simp
  ultimately show ?thesis unfolding ramp_bound_def p by (simp add: CHARGE_QUANT_A_def max.coboundedI2)
qed

lemma maximizeExportsA_range:
  assumes "0 \<le> in_maxChargeA i" and "0 \<le> in_fallbackChargeA i"
  shows "0 \<le> fst (maximizeExportsA i h b k p (toA i)) \<and> fst (maximizeExportsA i h b k p (toA i)) \<le> in_maxChargeA i"
  using assms toA_range [OF assms(1)] unfolding maximizeExportsA_def Let_def by simp

text \<open>What the mode may command: the ramp's bound in \<open>grid-friendly\<close>, the ceiling otherwise.\<close>

definition mode_bound :: "DecisionInputs \<Rightarrow> number" where
  "mode_bound i =
     (if in_mode i = GridFriendly then ramp_bound (in_maxChargeA i) (in_previousTargetA i) else in_maxChargeA i)"

lemma mode_bound_ceiling: "in_maxChargeA i \<le> mode_bound i"
  unfolding mode_bound_def by (simp add: ramp_bound_ceiling)

lemma mode_target_range:
  assumes "0 \<le> in_maxChargeA i" and "0 \<le> in_fallbackChargeA i" and "0 \<le> in_topBalanceFloorA i"
    and "\<forall>p. in_previousTargetA i = Some p \<longrightarrow> 0 \<le> p"
  shows "0 \<le> de_targetA (decideModeTargetA zone i l) \<and> de_targetA (decideModeTargetA zone i l) \<le> mode_bound i"
proof (cases "headroomKwhOf i \<le> NEAR_FULL_KWH")
  case True
  then show ?thesis using assms(1,3) mode_bound_ceiling [of i]
    unfolding decideModeTargetA_def Let_def by (simp add: min.coboundedI2)
next
  case False
  show ?thesis
  proof (cases "in_forecast i")
    case None
    with False show ?thesis using toA_range [OF assms(1)] order_trans [OF toA_range(2) [OF assms(1)] mode_bound_ceiling]
      unfolding decideModeTargetA_def Let_def by simp
  next
    case (Some f)
    show ?thesis
    proof (cases "in_mode i")
      case MaximizeExports
      with False Some show ?thesis using maximizeExportsA_range [OF assms(1,2)]
        unfolding decideModeTargetA_def Let_def mode_bound_def by (simp add: case_prod_beta)
    next
      case GridFriendly
      from slewLimitedA_range [OF toA_range [OF assms(1)] assms(4)] False Some GridFriendly
      show ?thesis unfolding decideModeTargetA_def Let_def mode_bound_def by simp
    qed
  qed
qed

lemma priceAdjust_lowers: "de_targetA (priceAdjust i d a) \<le> de_targetA d"
  unfolding priceAdjust_def Let_def by (simp split: option.split)

lemma priceAdjust_nonneg:
  "0 \<le> in_maxChargeA i \<Longrightarrow> 0 \<le> de_targetA d \<Longrightarrow> 0 \<le> de_targetA (priceAdjust i d a)"
  unfolding priceAdjust_def Let_def floorToA_def by (simp split: option.split)

text \<open>C15. The commanded current is never negative, and how far it can go: in \<open>maximize-exports\<close> never above
  \<open>maxChargeA\<close>, for every forecast and price action. In \<open>grid-friendly\<close> the ramp rounds to the 5 A
  grid after the ceiling was applied and starts from the previous target, so there the bound is the
  larger of the ceiling and the previous target, rounded to the nearest step: at most half a step
  above the larger of the two, and the ceiling itself once it is a multiple of 5 A and the previous
  target is not above it. The three configured currents and the previous target are assumed not to
  be negative.\<close>

theorem target_within_ceiling:
  assumes "0 \<le> in_maxChargeA i" and "0 \<le> in_fallbackChargeA i" and "0 \<le> in_topBalanceFloorA i"
    and prev: "\<forall>p. in_previousTargetA i = Some p \<longrightarrow> 0 \<le> p"
  shows "0 \<le> de_targetA (decideTargetA zone i)
    \<and> (in_mode i = MaximizeExports \<longrightarrow> de_targetA (decideTargetA zone i) \<le> in_maxChargeA i)
    \<and> de_targetA (decideTargetA zone i) \<le> ramp_bound (in_maxChargeA i) (in_previousTargetA i)
    \<and> de_targetA (decideTargetA zone i)
        \<le> max (in_maxChargeA i) (case in_previousTargetA i of None \<Rightarrow> in_maxChargeA i | Some p \<Rightarrow> p) + CHARGE_QUANT_A / 2
    \<and> ((\<exists>k :: int. in_maxChargeA i = of_int k * CHARGE_QUANT_A)
        \<and> (\<forall>p. in_previousTargetA i = Some p \<longrightarrow> p \<le> in_maxChargeA i)
        \<longrightarrow> de_targetA (decideTargetA zone i) \<le> in_maxChargeA i)"
proof -
  let ?t = "de_targetA (decideTargetA zone i)"
  have range: "0 \<le> ?t" "?t \<le> mode_bound i"
    using mode_target_range [OF assms] priceAdjust_lowers priceAdjust_nonneg [OF assms(1)]
    unfolding decideTargetA_def Let_def by (meson order_trans)+
  have ramp: "?t \<le> ramp_bound (in_maxChargeA i) (in_previousTargetA i)"
    using range(2) ramp_bound_ceiling [of "in_maxChargeA i" "in_previousTargetA i"]
    unfolding mode_bound_def by (simp split: if_splits)
  moreover have "in_mode i = MaximizeExports \<longrightarrow> ?t \<le> in_maxChargeA i"
    using range(2) unfolding mode_bound_def by (simp split: if_splits)
  moreover have "?t \<le> in_maxChargeA i" if "\<exists>k :: int. in_maxChargeA i = of_int k * CHARGE_QUANT_A"
      "\<forall>p. in_previousTargetA i = Some p \<longrightarrow> p \<le> in_maxChargeA i"
    using that(1) ramp ramp_bound_on_grid [OF _ that(2)] by auto
  ultimately show ?thesis using range(1) order_trans [OF ramp ramp_bound_near] by blast
qed

text \<open>
  Off the 5 A grid \<open>grid-friendly\<close> does exceed the ceiling: with a ceiling of 23 A, a previous
  target of 20 A and a solved target at the ceiling, the ramp rounds up to 25 A. And a ceiling
  lowered below the previous target is not applied at once: from 100 A to a ceiling of 20 A, the
  next tick still commands 95 A.
\<close>

lemma ramp_exceeds_ceiling: "slewLimitedA 23 (Some 20) 10 30000 = 25"
  and ramp_above_lowered_ceiling: "slewLimitedA 20 (Some 100) 10 30000 = 95"
  unfolding slewLimitedA_def math_round_def CHARGE_QUANT_A_def by (simp_all add: floor_unique)

lemma plan_export_limit:
  "pa_regime (planPriceAction (price_inputs i)) \<noteq> RAbsorb \<Longrightarrow>
    pa_exportLimitW (planPriceAction (price_inputs i)) = None"
  by (cases rule: plan_cases [of "price_inputs i"]) (simp_all add: IDLE_def absorb_regime shape_frame)

text \<open>Price awareness can only hold the pack back, outside a window: the target it leaves is at most
  the mode's own against the plant's own export limit, the threshold is untouched, a near-full
  pack keeps its top-balance floor, and switched off or without prices it changes nothing at
  all.\<close>

theorem price_only_holds_back:
  "(pa_regime (planPriceAction (price_inputs i)) \<noteq> RAbsorb \<longrightarrow>
      de_targetA (decideTargetA zone i) \<le> de_targetA (decideModeTargetA zone i (in_exportLimitW i))
      \<and> de_thresholdW (decideTargetA zone i) = de_thresholdW (decideModeTargetA zone i (in_exportLimitW i)))
   \<and> (headroomKwhOf i \<le> NEAR_FULL_KWH \<longrightarrow>
      de_targetA (decideTargetA zone i) = min (in_topBalanceFloorA i) (in_maxChargeA i))
   \<and> (\<not> pc_enabled (in_price i) \<or> in_priceView i = None \<longrightarrow>
      decideTargetA zone i = decideModeTargetA zone i (in_exportLimitW i))"
proof (intro conjI impI)
  assume "pa_regime (planPriceAction (price_inputs i)) \<noteq> RAbsorb"
  then have limit: "pa_exportLimitW (planPriceAction (price_inputs i)) = None" by (rule plan_export_limit)
  show "de_targetA (decideTargetA zone i) \<le> de_targetA (decideModeTargetA zone i (in_exportLimitW i))"
    unfolding decideTargetA_def Let_def limit by (simp add: priceAdjust_lowers)
  show "de_thresholdW (decideTargetA zone i) = de_thresholdW (decideModeTargetA zone i (in_exportLimitW i))"
    unfolding decideTargetA_def Let_def limit by (simp add: priceAdjust_def)
next
  assume "headroomKwhOf i \<le> NEAR_FULL_KWH"
  then show "de_targetA (decideTargetA zone i) = min (in_topBalanceFloorA i) (in_maxChargeA i)"
    unfolding decideTargetA_def priceAdjust_def Let_def
    by (simp add: mode_near_full mode_headroom split: option.split)
next
  assume "\<not> pc_enabled (in_price i) \<or> in_priceView i = None"
  then show "decideTargetA zone i = decideModeTargetA zone i (in_exportLimitW i)" by (rule price_off_decision)
qed

subsection \<open>The plateau\<close>

lemma exportSurplus_antimono:
  "a \<le> b \<Longrightarrow> exportSurplusAboveKwh zone v b c l n \<le> exportSurplusAboveKwh zone v a c l n"
  unfolding exportSurplusAboveKwh_def
  by (rule slots_kwh_mono) (auto dest: remainingSlotsToday_pos)

lemma level_fills_antimono:
  assumes "0 \<le> gf_forecastTrustPct (in_gridFriendly i)" and "a \<le> b" and "level_fills zone i f h l b"
  shows "level_fills zone i f h l a"
proof -
  define r where "r = gf_forecastTrustPct (in_gridFriendly i) / 100"
  have "0 \<le> r" unfolding r_def using assms(1) by simp
  then have "exportSurplusAboveKwh zone f b l (in_baselineLoadW i) (in_nowMs i) * r
      \<le> exportSurplusAboveKwh zone f a l (in_baselineLoadW i) (in_nowMs i) * r"
    by (rule mult_right_mono [OF exportSurplus_antimono [OF assms(2)]])
  with assms(3) show ?thesis unfolding level_fills_def Let_def r_def [symmetric] by (elim less_le_trans) simp
qed

text \<open>
  The search keeps a filling level below and, unless it never moved, a level that does not fill
  above, and halves the distance.
\<close>

lemma bisect_level:
  assumes "fills lo" and "lo \<le> hi"
  shows "lo \<le> bisect_level fills n lo hi \<and> bisect_level fills n lo hi \<le> hi
    \<and> (bisect_level fills n lo hi = hi \<or> \<not> fills (bisect_level fills n lo hi))
    \<and> fills (bisect_level fills n lo hi - (hi - lo) / 2 ^ n)"
  using assms
proof (induction n arbitrary: lo hi)
  case (Suc n)
  define mid where "mid = (lo + hi) / 2"
  have mid: "lo \<le> mid" "mid \<le> hi" "mid - lo = (hi - lo) / 2" "hi - mid = (hi - lo) / 2"
    using Suc.prems(2) unfolding mid_def by (simp_all add: field_simps)
  show ?case
  proof (cases "fills mid")
    case True
    then have "bisect_level fills (Suc n) lo hi = bisect_level fills n mid hi" unfolding mid_def by simp
    with Suc.IH [OF True mid(2)] mid show ?thesis by simp
  next
    case False
    then have eq: "bisect_level fills (Suc n) lo hi = bisect_level fills n lo mid" unfolding mid_def by simp
    show ?thesis
    proof (cases "bisect_level fills n lo mid = mid")
      case True
      with Suc.IH [OF Suc.prems(1) mid(1)] mid False eq show ?thesis by simp
    next
      case ne: False
      with Suc.IH [OF Suc.prems(1) mid(1)] mid eq show ?thesis by simp
    qed
  qed
qed simp

text \<open>The grid-friendly level is where the day's export surplus just fills the battery: it lies
  between the configured floor and the feed-in limit; at the floor not even everything above it
  fills the pack; otherwise every level below it by the search's resolution or more overfills
  and, unless it is the limit itself, no level from it upwards fills.\<close>

theorem plateau_solves_budget:
  assumes "0 \<le> gf_forecastTrustPct (in_gridFriendly i)"
    and level: "levelW = gridFriendlyThresholdW zone i f headroomKwh limitW"
    and floor_level: "floorW = min (gf_minThresholdW (in_gridFriendly i)) limitW"
  shows "floorW \<le> levelW \<and> levelW \<le> limitW
    \<and> (\<not> level_fills zone i f headroomKwh limitW floorW \<longrightarrow> levelW = floorW)
    \<and> (level_fills zone i f headroomKwh limitW floorW \<longrightarrow>
         (\<forall>m. m \<le> levelW - (limitW - floorW) / 2 ^ 32 \<longrightarrow> level_fills zone i f headroomKwh limitW m)
         \<and> (levelW < limitW \<longrightarrow> (\<forall>m. levelW \<le> m \<longrightarrow> \<not> level_fills zone i f headroomKwh limitW m)))"
proof (cases "level_fills zone i f headroomKwh limitW floorW")
  case False
  then show ?thesis unfolding level gridFriendlyThresholdW_def Let_def floor_level by simp
next
  case True
  have "levelW = bisect_level (level_fills zone i f headroomKwh limitW) 32 floorW limitW"
    using True unfolding level gridFriendlyThresholdW_def Let_def floor_level THRESHOLD_SEARCH_STEPS_def by simp
  with bisect_level [where fills = "level_fills zone i f headroomKwh limitW", OF True, of limitW 32]
  have b: "floorW \<le> levelW" "levelW \<le> limitW"
    "levelW = limitW \<or> \<not> level_fills zone i f headroomKwh limitW levelW"
    "level_fills zone i f headroomKwh limitW (levelW - (limitW - floorW) / 2 ^ 32)"
    unfolding floor_level by auto
  then show ?thesis using True level_fills_antimono [OF assms(1)] by (meson less_irrefl)
qed

subsection \<open>Smaller laws\<close>

text \<open>An amps plan written to a register of either unit reads back as the same amps.\<close>

lemma limit_roundtrip: "0 < batteryV \<Longrightarrow> limitAmps l (limitValue l a batteryV) batteryV = a"
  unfolding limitAmps_def limitValue_def by simp

text \<open>The threshold travels at most its budget, towards the solved level.\<close>

lemma slewLimited_budget:
  assumes "0 < wPerMin"
  shows "\<bar>slewLimited t (Some p) wPerMin ms - p\<bar> \<le> wPerMin * (max 0 ms / 60000)"
    and "min p t \<le> slewLimited t (Some p) wPerMin ms" and "slewLimited t (Some p) wPerMin ms \<le> max p t"
proof -
  define b where "b = wPerMin * (max 0 ms / 60000)"
  have b: "0 \<le> b" unfolding b_def using assms by simp
  have s: "slewLimited t (Some p) wPerMin ms = min (p + b) (max (p - b) t)"
    unfolding slewLimited_def b_def Let_def using assms by simp
  show "\<bar>slewLimited t (Some p) wPerMin ms - p\<bar> \<le> wPerMin * (max 0 ms / 60000)"
    unfolding s b_def [symmetric] using b by (simp add: min_def max_def abs_if)
  show "min p t \<le> slewLimited t (Some p) wPerMin ms" "slewLimited t (Some p) wPerMin ms \<le> max p t"
    unfolding s using b by (simp_all add: min_def max_def)
qed

text \<open>A car's charge stops at the lower of the positive limits.\<close>

lemma chargeStopSoc_lower:
  assumes "chargeStopSoc lp = Some s"
  shows "0 < s" and "lp_effectiveLimitSoc lp = Some v \<Longrightarrow> 0 < v \<Longrightarrow> s \<le> v"
    and "lp_vehicleLimitSoc lp = Some v \<Longrightarrow> 0 < v \<Longrightarrow> s \<le> v"
  using assms unfolding chargeStopSoc_def positive_limits_def
  by (auto simp: map_filter_simps split: option.splits if_splits)

lemma loadpointDemand_nonneg:
  "(\<forall>c. lp_vehicleCapacityKwh lp = Some c \<longrightarrow> 0 \<le> c) \<Longrightarrow> 0 \<le> loadpointDemandKwh lp"
  unfolding loadpointDemandKwh_def EV_CHARGE_EFFICIENCY_def Let_def
  by (auto split: option.split simp: max_def)

subsection \<open>Concrete plants\<close>

definition sample_gf :: GridFriendlyConfig where
  "sample_gf = \<lparr>gf_minThresholdW = 0, gf_forecastTrustPct = 100, gf_slewWPerMin = 600,
     gf_chargeSlewAPerMin = 10, gf_reserveForEvDemand = True\<rparr>"

definition sample_tick :: DecisionInputs where
  "sample_tick = \<lparr>in_mode = MaximizeExports, in_pvW = 9000, in_socPct = 50, in_batteryV = 50,
     in_exportLimitW = 5500, in_exportCapW = Some 6000, in_liveLoadW = 500, in_baselineLoadW = 500,
     in_evIncludedInLoad = False, in_evChargeW = 0, in_evRemainingKwh = 0, in_usableKwh = 10,
     in_maxChargeA = 100, in_fallbackChargeA = 50, in_topBalanceFloorA = 5, in_gridFriendly = sample_gf,
     in_previousThresholdW = None, in_previousTargetA = Some 20, in_sinceLastDecisionMs = 30000,
     in_forecast = None, in_price = sample_price\<lparr>pc_enabled := False\<rparr>, in_priceView = None, in_minSocPct = 10,
     in_importFollowsMarket = False, in_nowMs = 12 * HOUR + 20644 * DAY\<rparr>"

abbreviation utc :: zone_data where "utc \<equiv> zone_of (\<lambda>_. 0)"

lemma peak_never_missed_witness:
  "min 2500 (100 * 50) \<le> de_targetA (decideModeTargetA utc sample_tick 5500) * 50
    \<and> de_absorbCeilingW (decideModeTargetA utc sample_tick 5500) = Some 3000
    \<and> decideTargetA utc sample_tick = decideModeTargetA utc sample_tick 5500"
proof -
  have "in_mode sample_tick = MaximizeExports" "0 < in_batteryV sample_tick" "0 \<le> in_maxChargeA sample_tick"
    "0 \<le> in_fallbackChargeA sample_tick"
    "2500 = max 0 (in_pvW sample_tick - localSinkWOf sample_tick - capWOf sample_tick 5500)"
    "3000 = max 0 (in_pvW sample_tick - localSinkWOf sample_tick - 5500)"
    by (simp_all add: sample_tick_def localSinkWOf_def capWOf_def)
  note now = peak_never_missed [OF this refl, of utc]
  have "\<not> headroomKwhOf sample_tick \<le> NEAR_FULL_KWH" "in_forecast sample_tick = None"
    "\<not> pc_enabled (in_price sample_tick)"
    by (simp_all add: sample_tick_def headroomKwhOf_def NEAR_FULL_KWH_def)
  with now show ?thesis by (simp add: sample_tick_def)
qed

lemma target_within_ceiling_witness:
  "0 \<le> de_targetA (decideTargetA utc (sample_tick\<lparr>in_mode := GridFriendly\<rparr>))
    \<and> de_targetA (decideTargetA utc (sample_tick\<lparr>in_mode := GridFriendly\<rparr>)) \<le> 100"
proof -
  let ?i = "sample_tick\<lparr>in_mode := GridFriendly\<rparr>"
  have "0 \<le> in_maxChargeA ?i" "0 \<le> in_fallbackChargeA ?i" "0 \<le> in_topBalanceFloorA ?i"
    "\<forall>p. in_previousTargetA ?i = Some p \<longrightarrow> 0 \<le> p" by (simp_all add: sample_tick_def)
  note now = target_within_ceiling [OF this, of utc]
  have "in_maxChargeA ?i = of_int 20 * CHARGE_QUANT_A" by (simp add: sample_tick_def CHARGE_QUANT_A_def)
  then have "\<exists>k :: int. in_maxChargeA ?i = of_int k * CHARGE_QUANT_A" by blast
  moreover have "\<forall>p. in_previousTargetA ?i = Some p \<longrightarrow> p \<le> in_maxChargeA ?i" by (simp add: sample_tick_def)
  ultimately have "de_targetA (decideTargetA utc ?i) \<le> in_maxChargeA ?i" using now by blast
  with now show ?thesis by (simp add: sample_tick_def)
qed

lemma price_only_holds_back_witness:
  "decideTargetA utc sample_tick = decideModeTargetA utc sample_tick 5500
    \<and> de_targetA (decideTargetA utc (sample_tick\<lparr>in_socPct := 99\<rparr>)) = 5"
proof
  have "\<not> pc_enabled (in_price sample_tick) \<or> in_priceView sample_tick = None" by (simp add: sample_tick_def)
  then have "decideTargetA utc sample_tick = decideModeTargetA utc sample_tick (in_exportLimitW sample_tick)"
    by (rule price_only_holds_back [THEN conjunct2, THEN conjunct2, THEN mp])
  then show "decideTargetA utc sample_tick = decideModeTargetA utc sample_tick 5500" by (simp add: sample_tick_def)
  have "headroomKwhOf (sample_tick\<lparr>in_socPct := 99\<rparr>) \<le> NEAR_FULL_KWH"
    by (simp add: sample_tick_def headroomKwhOf_def NEAR_FULL_KWH_def)
  then have "de_targetA (decideTargetA utc (sample_tick\<lparr>in_socPct := 99\<rparr>)) =
      min (in_topBalanceFloorA (sample_tick\<lparr>in_socPct := 99\<rparr>)) (in_maxChargeA (sample_tick\<lparr>in_socPct := 99\<rparr>))"
    by (rule price_only_holds_back [THEN conjunct2, THEN conjunct1, THEN mp])
  then show "de_targetA (decideTargetA utc (sample_tick\<lparr>in_socPct := 99\<rparr>)) = 5" by (simp add: sample_tick_def)
qed

lemma plateau_solves_budget_witness:
  "gridFriendlyThresholdW utc sample_tick sunny_noon 1 5500 \<le> 5500"
proof -
  have "0 \<le> gf_forecastTrustPct (in_gridFriendly sample_tick)" by (simp add: sample_tick_def sample_gf_def)
  from plateau_solves_budget [OF this refl refl, where zone = utc and f = sunny_noon
      and headroomKwh = 1 and limitW = 5500] show ?thesis by (elim conjE)
qed

definition sample_device :: DeviceInstance where
  "sample_device = deviceInstance ''inv'' InverterClass ''modbus''
     [base_metric ''pv_power'' (Some ''pv.total.power'') None, base_metric ''soc'' (Some ''battery.soc'') None,
      base_metric ''charge_a'' (Some ''setting.battery.max_charge_current'') None,
      base_metric ''sell_w'' (Some ''setting.solar_sell.max_power'') None] None"

definition sample_weather :: WeatherConfig where
  "sample_weather = \<lparr>wc_enabled = True, wc_latitude = Some 50, wc_longitude = Some 8, wc_label = [],
     wc_forecast = \<lparr>sc_enabled = True, sc_maxOutputW = Some 6000,
       sc_battery = Some \<lparr>fb_usableKwh = 10, fb_maxChargeW = None, fb_minSoc = 10, fb_nominalV = Some 50\<rparr>,
       sc_houseLoadW = None, sc_smartMeterSince = Some ''2025-03-01''\<rparr>\<rparr>"

definition sample_automation :: AutomationConfig where
  "sample_automation = \<lparr>ac_enabled = True, ac_disclaimerAcceptedAt = Some ''2026-01-01'',
     ac_peakShaving = \<lparr>ps_enabled = True, ps_shadowMode = False, ps_mode = GridFriendly, ps_safetyBufferW = 500,
       ps_maxChargeA = 100, ps_fallbackChargeA = 50, ps_topBalanceFloorA = 5, ps_nominalBatteryV = 256 / 5,
       ps_controlIntervalS = 30, ps_gridFriendly = sample_gf, ps_priceAware = sample_price\<rparr>\<rparr>"

lemma sample_device_roles:
  "roleKey sample_device ''pv.total.power'' = Some ''pv_power''" "roleKey sample_device ''battery.soc'' = Some ''soc''"
  "roleKey sample_device ''setting.battery.max_charge_current'' = Some ''charge_a''"
  "roleKey sample_device ''setting.solar_sell.max_power'' = Some ''sell_w''"
  unfolding sample_device_def deviceInstance_def roleBindings_def roleKey_def bind_role_def base_metric_def
  by simp_all

lemma enabled_setup_can_run_witness:
  "ac_enabled sample_automation \<and> present (ac_disclaimerAcceptedAt sample_automation)
    \<and> effectivePriceConfig (ps_priceAware (ac_peakShaving sample_automation)) sample_weather
        = ps_priceAware (ac_peakShaving sample_automation)"
proof -
  have "resolvePeakShavingBlockers sample_device sample_weather GridFriendly = []"
    unfolding no_blockers
    by (simp add: REQUIRED_ROLES_def sample_device_roles present_def resolveChargeLimit_def resolveLimit_def
      CHARGE_LIMIT_ROLES_def SELL_LIMIT_ROLE_def sample_weather_def)
  then have "validateAutomationEnable sample_automation (Some sample_device) sample_weather = None"
    unfolding validateAutomationEnable_def validatePeakShavingEnable_def price_enable_error_def Let_def
    by (simp add: sample_automation_def resolvePriceAwareBlockers_def present_def sample_weather_def)
  from enabled_setup_can_run [OF this] show ?thesis by (simp add: sample_automation_def)
qed

end
