(* ===== verification/Peak_Shaving_Plan.thy ===== *)
theory Peak_Shaving_Plan
  imports Peak_Shaving
begin

text \<open>
  \<^verbatim>\<open>apps/server/src/automation/peak-shaving-plan.ts\<close>: the forward projection. Every remaining slot
  of the day replays the live decision and runs the physics of \<open>flowStep\<close> under the ceilings it
  decides, carrying the state of charge forward. The loop is a fold whose accumulator keeps the
  slots newest first.
\<close>

definition CHARGING_FLOOR_W :: number where "CHARGING_FLOOR_W = 50"

record PlanLimits =
  lim_exportCapW :: number
  lim_reserveSocPct :: "number option"

record PlanSlot =
  sl_t :: millis
  sl_pvW :: number
  sl_loadW :: number
  sl_thresholdW :: number
  sl_targetA :: number
  sl_flows :: SlotFlows
  sl_socPct :: number

record PeakShavingPlan =
  pl_slots :: "PlanSlot list"
  pl_chargeStartsAt :: "millis option"
  pl_fullAt :: "millis option"
  pl_endSocPct :: number
  pl_storedKwh :: number
  pl_exportedKwh :: number
  pl_curtailedKwh :: number

definition slot_inputs :: "DecisionInputs \<Rightarrow> ForecastSlot \<Rightarrow> number \<Rightarrow> DecisionInputs" where
  "slot_inputs base slot socPct =
     base\<lparr>in_pvW := sl_watts slot, in_socPct := socPct, in_liveLoadW := in_baselineLoadW base,
       in_evChargeW := 0, in_evIncludedInLoad := False, in_previousThresholdW := None,
       in_previousTargetA := None, in_sinceLastDecisionMs := 0, in_nowMs := sl_startMs slot\<rparr>"

definition min_opt :: "number \<Rightarrow> number option \<Rightarrow> number" where
  "min_opt x c = (case c of None \<Rightarrow> x | Some m \<Rightarrow> min x m)"

definition projectSlot ::
  "zone_data \<Rightarrow> DecisionInputs \<Rightarrow> PlanLimits \<Rightarrow> ForecastSlot \<Rightarrow> number \<Rightarrow> number \<Rightarrow> SlotFlows \<times> number \<times> number" where
  "projectSlot zone base limits slot socPct reservePct =
     (let decision = decideTargetA zone (slot_inputs base slot socPct);
          sellCeilingW = (if in_mode base = GridFriendly then Some (de_thresholdW decision) else None);
          flows = flowStep (sl_watts slot) (in_baselineLoadW base) (slot_hours slot)
            \<lparr>fl_chargeCeilingW = Some (min_opt (de_targetA decision * in_batteryV base) (de_absorbCeilingW decision)),
             fl_headroomKwh = in_usableKwh base * (100 - socPct) / 100,
             fl_aboveFloorKwh = in_usableKwh base * (socPct - reservePct) / 100,
             fl_exportCeilingW = Some (min_opt (lim_exportCapW limits) sellCeilingW)\<rparr>
      in (flows, de_thresholdW decision, de_targetA decision))"

definition advanceSoc :: "number \<Rightarrow> SlotFlows \<Rightarrow> number \<Rightarrow> number \<Rightarrow> number" where
  "advanceSoc socPct flows hours usableKwh =
     (if usableKwh \<le> 0 then socPct
      else clampSoc (socPct + (sf_chargeW flows - sf_dischargeW flows) * hours / 1000 / usableKwh * 100))"

definition project_step ::
  "zone_data \<Rightarrow> DecisionInputs \<Rightarrow> PlanLimits \<Rightarrow> number \<Rightarrow> ForecastSlot \<Rightarrow> PeakShavingPlan \<Rightarrow> PeakShavingPlan" where
  "project_step zone base limits reservePct slot plan =
     (let hours = slot_hours slot in
      case projectSlot zone base limits slot (pl_endSocPct plan) reservePct of (flows, thresholdW, targetA) \<Rightarrow>
      let socPct = advanceSoc (pl_endSocPct plan) flows hours (in_usableKwh base)
      in \<lparr>pl_slots = \<lparr>sl_t = sl_startMs slot, sl_pvW = sl_watts slot, sl_loadW = in_baselineLoadW base,
            sl_thresholdW = thresholdW, sl_targetA = targetA, sl_flows = flows, sl_socPct = socPct\<rparr> # pl_slots plan,
          pl_chargeStartsAt = (if pl_chargeStartsAt plan = None \<and> sf_chargeW flows \<ge> CHARGING_FLOOR_W
             then Some (max (sl_startMs slot) (in_nowMs base)) else pl_chargeStartsAt plan),
          pl_fullAt = (if pl_fullAt plan = None \<and> in_usableKwh base * (100 - socPct) / 100 \<le> NEAR_FULL_KWH
             then Some (sl_startMs slot + sl_remainingMs slot) else pl_fullAt plan),
          pl_endSocPct = socPct,
          pl_storedKwh = pl_storedKwh plan + sf_chargeW flows * hours / 1000,
          pl_exportedKwh = pl_exportedKwh plan + sf_exportW flows * hours / 1000,
          pl_curtailedKwh = pl_curtailedKwh plan + sf_curtailedW flows * hours / 1000\<rparr>)"

definition plan_start :: "DecisionInputs \<Rightarrow> PeakShavingPlan" where
  "plan_start base = \<lparr>pl_slots = [], pl_chargeStartsAt = None, pl_fullAt = None,
     pl_endSocPct = clampSoc (in_socPct base), pl_storedKwh = 0, pl_exportedKwh = 0, pl_curtailedKwh = 0\<rparr>"

definition reservePctOf :: "PlanLimits \<Rightarrow> number" where
  "reservePctOf limits = min 100 (max 0 (case lim_reserveSocPct limits of Some r \<Rightarrow> r | None \<Rightarrow> 0))"

definition projectPeakShaving ::
  "zone_data \<Rightarrow> DecisionInputs \<Rightarrow> ForecastSlice \<Rightarrow> PlanLimits \<Rightarrow> PeakShavingPlan" where
  "projectPeakShaving zone base forecast limits =
     (let plan = fold (project_step zone (base\<lparr>in_forecast := Some forecast\<rparr>) limits (reservePctOf limits))
            (remainingSlotsToday zone forecast (in_nowMs base)) (plan_start base)
      in plan\<lparr>pl_slots := rev (pl_slots plan)\<rparr>)"

definition projectPeakShavingDays ::
  "zone_data \<Rightarrow> DecisionInputs \<Rightarrow> ForecastSlice \<Rightarrow> PlanLimits \<Rightarrow> PeakShavingPlan \<times> PeakShavingPlan" where
  "projectPeakShavingDays zone base forecast limits =
     (let today = projectPeakShaving zone base forecast limits;
          tomorrow = projectPeakShaving zone
            (base\<lparr>in_socPct := pl_endSocPct today, in_evChargeW := 0, in_evRemainingKwh := 0,
              in_nowMs := the (nextDayStart zone (fs_timeZone forecast) (in_nowMs base))\<rparr>) forecast limits
      in (today, tomorrow))"

subsection \<open>The pack's energy balance\<close>

text \<open>What a slot moved, in kWh, and its share of the PV.\<close>

definition slot_kwh :: "(SlotFlows \<Rightarrow> number) \<Rightarrow> (ForecastSlot \<times> PlanSlot) list \<Rightarrow> number" where
  "slot_kwh flow steps = (\<Sum>(s, p)\<leftarrow>steps. flow (sl_flows p) * slot_hours s / 1000)"

text \<open>
  The invariant of the loop, after the slots \<open>ss\<close> from the state of charge \<open>start\<close>: the recorded
  slots match the forecast's, the totals are their sums, the charge is within bounds, and its
  change is the energy moved.
\<close>

definition plan_ok :: "DecisionInputs \<Rightarrow> PlanLimits \<Rightarrow> number \<Rightarrow> ForecastSlot list \<Rightarrow> PeakShavingPlan \<Rightarrow> bool" where
  "plan_ok base limits start ss plan \<longleftrightarrow>
     (let steps = zip ss (rev (pl_slots plan)) in
      length (pl_slots plan) = length ss
      \<and> pl_storedKwh plan = slot_kwh sf_chargeW steps
      \<and> pl_exportedKwh plan = slot_kwh sf_exportW steps
      \<and> pl_curtailedKwh plan = slot_kwh sf_curtailedW steps
      \<and> pl_endSocPct plan = start + 100 * (slot_kwh sf_chargeW steps - slot_kwh sf_dischargeW steps) / in_usableKwh base
      \<and> min start (reservePctOf limits) \<le> pl_endSocPct plan \<and> pl_endSocPct plan \<le> 100
      \<and> (\<forall>(s, p)\<in>set steps. sl_t p = sl_startMs s \<and> sf_exportW (sl_flows p) \<le> max 0 (lim_exportCapW limits)
          \<and> min (max 0 (sl_watts s)) (max 0 (in_baselineLoadW base)) + sf_chargeW (sl_flows p)
              + sf_exportW (sl_flows p) + sf_curtailedW (sl_flows p) = max 0 (sl_watts s)))"


lemma slot_kwh_snoc: "slot_kwh f (xs @ [(s, p)]) = slot_kwh f xs + f (sl_flows p) * slot_hours s / 1000"
  unfolding slot_kwh_def by simp

lemma projectSlot_flows:
  "\<exists>charge export. fst (projectSlot zone base limits slot socPct reservePct) =
     flowStep (sl_watts slot) (in_baselineLoadW base) (slot_hours slot)
       \<lparr>fl_chargeCeilingW = charge, fl_headroomKwh = in_usableKwh base * (100 - socPct) / 100,
        fl_aboveFloorKwh = in_usableKwh base * (socPct - reservePct) / 100, fl_exportCeilingW = Some export\<rparr>
   \<and> export \<le> lim_exportCapW limits"
  unfolding projectSlot_def Let_def by (intro exI conjI) (auto simp: min_opt_def split: option.split)

text \<open>Within the room above and the reserve below, advancing never meets the clamp.\<close>

lemma advanceSoc_exact:
  assumes "0 < u" and "0 < h" and "soc \<le> 100" and "min start reserve \<le> soc" and "0 \<le> reserve" and "0 \<le> start"
    and "0 \<le> sf_chargeW flows" and "0 \<le> sf_dischargeW flows"
    and "sf_chargeW flows * h / 1000 \<le> max 0 (u * (100 - soc) / 100)"
    and "sf_dischargeW flows * h / 1000 \<le> max 0 (u * (soc - reserve) / 100)"
    and "sf_chargeW flows = 0 \<or> sf_dischargeW flows = 0"
  shows "advanceSoc soc flows h u = soc + 100 * (sf_chargeW flows * h / 1000 - sf_dischargeW flows * h / 1000) / u"
    and "min start reserve \<le> advanceSoc soc flows h u" and "advanceSoc soc flows h u \<le> 100"
proof -
  define c d where "c = 100 * (sf_chargeW flows * h / 1000) / u" and "d = 100 * (sf_dischargeW flows * h / 1000) / u"
  have scale: "100 * x / u \<le> max 0 y" if "x \<le> max 0 (u * y / 100)" for x y
  proof -
    have "max 0 (u * y / 100) = u * max 0 y / 100" using assms(1) by (simp add: max_mult_distrib_left max_def zero_le_mult_iff)
    with that have "100 * x \<le> max 0 y * u" by (simp add: mult.commute)
    then show ?thesis using assms(1) by (simp only: pos_divide_le_eq)
  qed
  have c: "0 \<le> c" "c \<le> max 0 (100 - soc)" unfolding c_def using assms(1,2,7) scale [OF assms(9)] by simp_all
  have d: "0 \<le> d" "d \<le> max 0 (soc - reserve)" unfolding d_def using assms(1,2,8) scale [OF assms(10)] by simp_all
  have one: "c = 0 \<or> d = 0" unfolding c_def d_def using assms(11) by auto
  have raw: "soc + (sf_chargeW flows - sf_dischargeW flows) * h / 1000 / u * 100 = soc + c - d"
    unfolding c_def d_def by (simp add: left_diff_distrib diff_divide_distrib right_diff_distrib)
  have "0 \<le> min start reserve" using assms(5,6) by simp
  then have bounds: "min start reserve \<le> soc + c - d" "soc + c - d \<le> 100" "0 \<le> soc + c - d"
    using c d one assms(3,4) by (auto simp: max_def split: if_splits)
  then have eq: "advanceSoc soc flows h u = soc + c - d"
    unfolding advanceSoc_def clampSoc_def raw using assms(1) by simp
  show "advanceSoc soc flows h u = soc + 100 * (sf_chargeW flows * h / 1000 - sf_dischargeW flows * h / 1000) / u"
    unfolding eq c_def d_def by (simp add: right_diff_distrib diff_divide_distrib)
  show "min start reserve \<le> advanceSoc soc flows h u" "advanceSoc soc flows h u \<le> 100" unfolding eq using bounds by auto
qed

lemma plan_ok_step:
  assumes ok: "plan_ok base limits start ss plan" and "0 < in_usableKwh base" and "0 \<le> start" and "0 < sl_remainingMs s"
  shows "plan_ok base limits start (ss @ [s]) (project_step zone base limits (reservePctOf limits) s plan)"
proof -
  define soc r u h where "soc = pl_endSocPct plan" and "r = reservePctOf limits" and "u = in_usableKwh base"
    and "h = slot_hours s"
  have h: "0 < h" unfolding h_def using assms(4) by (rule slot_hours_pos)
  obtain flows thr tgt where proj: "projectSlot zone base limits s soc r = (flows, thr, tgt)"
    by (cases "projectSlot zone base limits s soc r")
  obtain charge export where flows: "flows = flowStep (sl_watts s) (in_baselineLoadW base) h
       \<lparr>fl_chargeCeilingW = charge, fl_headroomKwh = u * (100 - soc) / 100,
        fl_aboveFloorKwh = u * (soc - r) / 100, fl_exportCeilingW = Some export\<rparr>"
    and export: "export \<le> lim_exportCapW limits"
    using projectSlot_flows [of zone base limits s soc r] proj unfolding u_def h_def by auto
  note facts = flow_facts [OF h flows, unfolded FlowLimits.select_convs]
  have cap: "sf_exportW flows \<le> max 0 (lim_exportCapW limits)"
    using flow_export_cap [of "\<lparr>fl_chargeCeilingW = charge, fl_headroomKwh = u * (100 - soc) / 100,
        fl_aboveFloorKwh = u * (soc - r) / 100, fl_exportCeilingW = Some export\<rparr>" export] export
    unfolding flows by (simp add: order_trans [OF _ max.mono [OF order_refl export]])
  define steps where "steps = zip ss (rev (pl_slots plan))"
  have inv: "length (pl_slots plan) = length ss" "pl_storedKwh plan = slot_kwh sf_chargeW steps"
      "pl_exportedKwh plan = slot_kwh sf_exportW steps" "pl_curtailedKwh plan = slot_kwh sf_curtailedW steps"
      "soc = start + 100 * (slot_kwh sf_chargeW steps - slot_kwh sf_dischargeW steps) / u"
      "min start r \<le> soc" "soc \<le> 100"
      "\<forall>(s, p)\<in>set steps. sl_t p = sl_startMs s \<and> sf_exportW (sl_flows p) \<le> max 0 (lim_exportCapW limits)
          \<and> min (max 0 (sl_watts s)) (max 0 (in_baselineLoadW base)) + sf_chargeW (sl_flows p)
              + sf_exportW (sl_flows p) + sf_curtailedW (sl_flows p) = max 0 (sl_watts s)"
    using ok unfolding plan_ok_def Let_def steps_def soc_def r_def u_def by simp_all
  have r0: "0 \<le> r" unfolding r_def reservePctOf_def by simp
  have adv: "advanceSoc soc flows h u = soc + 100 * (sf_chargeW flows * h / 1000 - sf_dischargeW flows * h / 1000) / u"
    "min start r \<le> advanceSoc soc flows h u" "advanceSoc soc flows h u \<le> 100"
    using facts advanceSoc_exact [of u h soc start r flows, OF assms(2) [folded u_def] h inv(7,6) r0 assms(3)]
    by blast+
  define p where "p = \<lparr>sl_t = sl_startMs s, sl_pvW = sl_watts s, sl_loadW = in_baselineLoadW base,
      sl_thresholdW = thr, sl_targetA = tgt, sl_flows = flows, sl_socPct = advanceSoc soc flows h u\<rparr>"
  define plan' where "plan' = project_step zone base limits r s plan"
  have step: "pl_slots plan' = p # pl_slots plan" "pl_endSocPct plan' = advanceSoc soc flows h u"
    "pl_storedKwh plan' = pl_storedKwh plan + sf_chargeW flows * h / 1000"
    "pl_exportedKwh plan' = pl_exportedKwh plan + sf_exportW flows * h / 1000"
    "pl_curtailedKwh plan' = pl_curtailedKwh plan + sf_curtailedW flows * h / 1000"
    unfolding plan'_def project_step_def Let_def soc_def [symmetric] proj p_def h_def [symmetric] u_def [symmetric]
    by simp_all
  have zip: "zip (ss @ [s]) (rev (pl_slots plan')) = steps @ [(s, p)]"
    unfolding step steps_def using inv(1) by simp
  have pf: "sl_flows p = flows" "sl_t p = sl_startMs s" unfolding p_def by simp_all
  have new: "pl_endSocPct plan' = start + 100 * (slot_kwh sf_chargeW (steps @ [(s, p)])
      - slot_kwh sf_dischargeW (steps @ [(s, p)])) / u"
    unfolding step adv(1) slot_kwh_snoc pf h_def [symmetric] unfolding inv(5)
    by (simp add: right_diff_distrib diff_divide_distrib add_divide_distrib distrib_left)
  have split: "min (max 0 (sl_watts s)) (max 0 (in_baselineLoadW base)) + sf_chargeW flows
      + sf_exportW flows + sf_curtailedW flows = max 0 (sl_watts s)"
    using facts by (elim conjE)
  have len: "length (pl_slots plan') = length (ss @ [s])" unfolding step using inv(1) by simp
  have totals: "pl_storedKwh plan' = slot_kwh sf_chargeW (steps @ [(s, p)])"
    "pl_exportedKwh plan' = slot_kwh sf_exportW (steps @ [(s, p)])"
    "pl_curtailedKwh plan' = slot_kwh sf_curtailedW (steps @ [(s, p)])"
    unfolding step slot_kwh_snoc pf h_def [symmetric] inv(2-4) by (rule refl)+
  have bounds: "min start r \<le> pl_endSocPct plan'" "pl_endSocPct plan' \<le> 100" unfolding step using adv by simp_all
  have all: "\<forall>(s, p)\<in>set (steps @ [(s, p)]). sl_t p = sl_startMs s \<and> sf_exportW (sl_flows p) \<le> max 0 (lim_exportCapW limits)
      \<and> min (max 0 (sl_watts s)) (max 0 (in_baselineLoadW base)) + sf_chargeW (sl_flows p)
          + sf_exportW (sl_flows p) + sf_curtailedW (sl_flows p) = max 0 (sl_watts s)"
    using inv(8) cap split pf unfolding set_append by simp
  show ?thesis
    unfolding plan_ok_def r_def [symmetric] plan'_def [symmetric] zip Let_def u_def [symmetric]
    using len totals new bounds all by (intro conjI)
qed

lemma plan_ok_fold:
  assumes "0 < in_usableKwh base" and "0 \<le> start" and "plan_ok base limits start [] plan"
    and "\<forall>s\<in>set ss. 0 < sl_remainingMs s"
  shows "plan_ok base limits start ss (fold (project_step zone base limits (reservePctOf limits)) ss plan)"
  using assms(4)
proof (induction ss rule: rev_induct)
  case (snoc s ss)
  then show ?case using plan_ok_step [OF _ assms(1,2)] by simp
qed (use assms(3) in simp)

text \<open>C16. The projection invents no energy and loses none: over the remaining slots of the day, the
  planned state of charge moves by exactly the energy charged less the energy discharged, never
  through the clamp; it stays between the reserve floor (or the starting charge, if lower) and
  100 %; the reported totals are the sums of the slots' flows; and in every slot the PV is what
  the load takes, the pack stores, the grid gets (within the plant's cap) and what is lost.\<close>

theorem projection_conserves_energy:
  assumes "0 < in_usableKwh base"
    and plan: "plan = projectPeakShaving zone base forecast limits"
    and steps: "steps = zip (remainingSlotsToday zone forecast (in_nowMs base)) (pl_slots plan)"
  shows "length (pl_slots plan) = length (remainingSlotsToday zone forecast (in_nowMs base))
    \<and> pl_endSocPct plan = clampSoc (in_socPct base)
        + 100 * (slot_kwh sf_chargeW steps - slot_kwh sf_dischargeW steps) / in_usableKwh base
    \<and> min (clampSoc (in_socPct base)) (reservePctOf limits) \<le> pl_endSocPct plan \<and> pl_endSocPct plan \<le> 100
    \<and> pl_storedKwh plan = slot_kwh sf_chargeW steps \<and> pl_exportedKwh plan = slot_kwh sf_exportW steps
    \<and> pl_curtailedKwh plan = slot_kwh sf_curtailedW steps
    \<and> (\<forall>(s, p)\<in>set steps. sl_t p = sl_startMs s \<and> sf_exportW (sl_flows p) \<le> max 0 (lim_exportCapW limits)
          \<and> min (max 0 (sl_watts s)) (max 0 (in_baselineLoadW base)) + sf_chargeW (sl_flows p)
              + sf_exportW (sl_flows p) + sf_curtailedW (sl_flows p) = max 0 (sl_watts s))"
proof -
  define base' where "base' = base\<lparr>in_forecast := Some forecast\<rparr>"
  define ss where "ss = remainingSlotsToday zone forecast (in_nowMs base)"
  define raw where "raw = fold (project_step zone base' limits (reservePctOf limits)) ss (plan_start base)"
  have start: "0 \<le> clampSoc (in_socPct base)" "clampSoc (in_socPct base) \<le> 100" unfolding clampSoc_def by simp_all
  have "plan_ok base' limits (clampSoc (in_socPct base)) [] (plan_start base)"
    unfolding plan_ok_def plan_start_def slot_kwh_def Let_def using start by simp
  then have ok: "plan_ok base' limits (clampSoc (in_socPct base)) ss raw"
    unfolding raw_def using assms(1) start(1) remainingSlotsToday_pos
    by (intro plan_ok_fold) (auto simp: base'_def ss_def)
  have p: "plan = raw\<lparr>pl_slots := rev (pl_slots raw)\<rparr>"
    unfolding plan projectPeakShaving_def Let_def raw_def ss_def base'_def ..
  have st: "steps = zip ss (rev (pl_slots raw))" unfolding steps p ss_def by simp
  show ?thesis using ok unfolding plan_ok_def Let_def st [symmetric] ss_def [symmetric]
    by (simp add: p base'_def)
qed


definition sample_limits :: PlanLimits where
  "sample_limits = \<lparr>lim_exportCapW = 6000, lim_reserveSocPct = Some 10\<rparr>"

lemma projection_conserves_energy_witness:
  "min (clampSoc 50) (reservePctOf sample_limits) \<le> pl_endSocPct (projectPeakShaving utc sample_tick sunny_noon sample_limits)
    \<and> pl_endSocPct (projectPeakShaving utc sample_tick sunny_noon sample_limits) \<le> 100"
proof -
  have "0 < in_usableKwh sample_tick" "in_socPct sample_tick = 50" by (simp_all add: sample_tick_def)
  with projection_conserves_energy [OF this(1) refl refl, where zone = utc and forecast = sunny_noon and limits = sample_limits]
  show ?thesis by simp
qed

text \<open>
  The running slot's end is taken as its raw start plus what remains of it: a pack that is full
  at 12:45, in the hourly slot of 12:00, is reported full at 12:15.
\<close>

lemma full_reported_in_the_past:
  "pl_fullAt (projectPeakShaving utc (sample_tick\<lparr>in_socPct := 100, in_nowMs := 12 * HOUR + 45 * MINUTE + 20644 * DAY\<rparr>)
     dark_noon sample_limits) = Some (12 * HOUR + 15 * MINUTE + 20644 * DAY)"
  by code_simp

end
