(* ===== verification/Broker_Pool.thy ===== *)
theory Broker_Pool
  imports Prelude
begin

text \<open>
  \<^verbatim>\<open>apps/server/src/devices/broker-pool.ts\<close>: the MQTT client a connection row owns.

  Entries, holders and links are objects the source shares by reference, so the pool's state is a
  store: an entry has an address, the map of connections holds addresses, and every closure (a
  client's handlers, a timer, a suspended \<open>async\<close> function) is recorded with the address it
  closed over. Sockets, timers and promises are events and effects: \<open>dial\<close> and \<open>schedule\<close> return
  fresh numbers, a suspended \<open>redial\<close> or \<open>close\<close> is a pending continuation that a later event
  resumes, also where the awaited promise is already settled. A consumer's callback is an effect;
  what it calls back is an event of its own. A subscription says which callbacks it has. Log lines
  are dropped; \<open>now()\<close> is the time the event carries.
\<close>

record BrokerWill =
  bw_topic :: string
  bw_payload :: string
  bw_qos :: nat
  bw_retain :: bool

record MqttParams =
  mq_brokerUrl :: string
  mq_username :: "string option"
  mq_password :: "string option"
  mq_clientId :: "string option"

record BrokerConnectOptions =
  bo_username :: "string option"
  bo_password :: "string option"
  bo_clientId :: "string option"
  bo_will :: "BrokerWill option"
  bo_reconnectPeriod :: nat

record BrokerSubscription =
  bs_topics :: "string list option"
  bs_hasOnConnect :: bool
  bs_hasOnClose :: bool
  bs_hasOnMessage :: bool
  bs_hasOnSubscribeError :: bool

record ConnectionStatus =
  cs_connected :: bool
  cs_lastError :: "string option"
  cs_lastErrorAt :: "millis option"
  cs_lastConnectedAt :: "millis option"

definition RETRY_BASE_MS :: nat where "RETRY_BASE_MS = 1000"
definition RETRY_MAX_MS :: nat where "RETRY_MAX_MS = 60000"

definition sameParams :: "MqttParams \<Rightarrow> MqttParams \<Rightarrow> bool" where
  "sameParams a b \<longleftrightarrow> mq_brokerUrl a = mq_brokerUrl b \<and> mq_username a = mq_username b
     \<and> mq_password a = mq_password b \<and> mq_clientId a = mq_clientId b"

definition sameWill :: "BrokerWill option \<Rightarrow> BrokerWill option \<Rightarrow> bool" where
  "sameWill a b = (case (a, b) of
     (Some x, Some y) \<Rightarrow> bw_topic x = bw_topic y \<and> bw_payload x = bw_payload y
        \<and> bw_qos x = bw_qos y \<and> bw_retain x = bw_retain y
   | _ \<Rightarrow> a = b)"

type_synonym client = nat
type_synonym holder = nat
type_synonym timer = nat
type_synonym entry_ref = nat

record Entry =
  en_params :: MqttParams
  en_will :: "BrokerWill option"
  en_client :: "client option"
  en_holders :: "holder list"
  en_connected :: bool
  en_lastError :: "string option"
  en_lastErrorAt :: "millis option"
  en_lastConnectedAt :: "millis option"
  en_attempts :: nat
  en_cancelRetry :: "timer option"
  en_closing :: bool

record Link =
  li_connectionId :: int
  li_held :: entry_ref
  li_subscription :: "BrokerSubscription option"
  li_released :: bool

datatype cont = RedialCont int entry_ref | CloseCont "(int \<times> entry_ref) list"

record pool =
  po_heap :: "entry_ref \<Rightarrow> Entry option"
  po_entries :: "(int, entry_ref) js_map"
  po_clients :: "client \<Rightarrow> (int \<times> entry_ref) option"
  po_timers :: "timer \<Rightarrow> (int \<times> entry_ref) option"
  po_links :: "holder \<Rightarrow> Link option"
  po_waits :: "nat \<Rightarrow> cont option"
  po_fresh :: nat

datatype effect =
    Dial client string BrokerConnectOptions
  | SubscribeTopics client "string list" holder
  | PublishMsg client string string
  | EndClient client
  | ScheduleTimer timer nat
  | CancelTimer timer
  | OnConnect holder
  | OnClose holder
  | OnMessage holder string string
  | OnSubscribeError holder string

datatype event =
    Acquire int MqttParams "BrokerWill option"
  | Update holder MqttParams "BrokerWill option"
  | Subscribe holder BrokerSubscription
  | Publish holder string string
  | Release holder
  | ClosePool
  | ClientConnect client millis
  | ClientClose client
  | ClientError client string millis
  | ClientMessage client string string
  | SubscribeRefused holder BrokerSubscription string
  | TimerFired timer
  | Resumed nat bool

definition empty_pool :: pool where
  "empty_pool = \<lparr>po_heap = (\<lambda>_. None), po_entries = [], po_clients = (\<lambda>_. None), po_timers = (\<lambda>_. None),
     po_links = (\<lambda>_. None), po_waits = (\<lambda>_. None), po_fresh = 0\<rparr>"

subsection \<open>Reading and writing the store\<close>

definition entry_at :: "pool \<Rightarrow> entry_ref \<Rightarrow> Entry" where
  "entry_at s r = the (po_heap s r)"

definition put_entry :: "entry_ref \<Rightarrow> Entry \<Rightarrow> pool \<Rightarrow> pool" where
  "put_entry r e s = s\<lparr>po_heap := (po_heap s)(r := Some e)\<rparr>"

definition statusOf :: "Entry \<Rightarrow> ConnectionStatus" where
  "statusOf e = \<lparr>cs_connected = en_connected e, cs_lastError = en_lastError e,
     cs_lastErrorAt = en_lastErrorAt e, cs_lastConnectedAt = en_lastConnectedAt e\<rparr>"

definition pool_status :: "pool \<Rightarrow> int \<Rightarrow> ConnectionStatus option" where
  "pool_status s connId = map_option (\<lambda>r. statusOf (entry_at s r)) (js_get (po_entries s) connId)"

definition subscription_of :: "pool \<Rightarrow> holder \<Rightarrow> BrokerSubscription option" where
  "subscription_of s h = (case po_links s h of None \<Rightarrow> None | Some l \<Rightarrow> li_subscription l)"

definition subscribeHolder :: "pool \<Rightarrow> Entry \<Rightarrow> holder \<Rightarrow> effect list" where
  "subscribeHolder s e h =
     (case (en_client e, subscription_of s h) of
        (Some c, Some sub) \<Rightarrow> (case bs_topics sub of
            None \<Rightarrow> [] | Some [] \<Rightarrow> [] | Some ts \<Rightarrow> [SubscribeTopics c ts h])
      | _ \<Rightarrow> [])"

definition notify :: "(BrokerSubscription \<Rightarrow> bool) \<Rightarrow> effect \<Rightarrow> pool \<Rightarrow> holder \<Rightarrow> effect list" where
  "notify has eff s h = (case subscription_of s h of None \<Rightarrow> [] | Some sub \<Rightarrow> if has sub then [eff] else [])"

subsection \<open>The connection\<close>

definition dial :: "int \<Rightarrow> entry_ref \<Rightarrow> pool \<Rightarrow> pool \<times> effect list" where
  "dial connId r s =
     (let e = entry_at s r; c = po_fresh s
      in (put_entry r (e\<lparr>en_client := Some c\<rparr>)
            (s\<lparr>po_fresh := c + 1, po_clients := (po_clients s)(c := Some (connId, r))\<rparr>),
          [Dial c (mq_brokerUrl (en_params e))
             \<lparr>bo_username = mq_username (en_params e), bo_password = mq_password (en_params e),
              bo_clientId = mq_clientId (en_params e), bo_will = en_will e, bo_reconnectPeriod = 0\<rparr>]))"

definition scheduleRetry :: "int \<Rightarrow> entry_ref \<Rightarrow> pool \<Rightarrow> pool \<times> effect list" where
  "scheduleRetry connId r s =
     (let e = entry_at s r in
      if en_cancelRetry e \<noteq> None then (s, [])
      else let delay = min (RETRY_BASE_MS * 2 ^ en_attempts e) RETRY_MAX_MS; t = po_fresh s
        in (put_entry r (e\<lparr>en_attempts := en_attempts e + 1, en_cancelRetry := Some t\<rparr>)
              (s\<lparr>po_fresh := t + 1, po_timers := (po_timers s)(t := Some (connId, r))\<rparr>),
            [ScheduleTimer t delay]))"

definition timer_fired :: "timer \<Rightarrow> pool \<Rightarrow> pool \<times> effect list" where
  "timer_fired t s = (case po_timers s t of
     None \<Rightarrow> (s, [])
   | Some (connId, r) \<Rightarrow>
       let s' = put_entry r ((entry_at s r)\<lparr>en_cancelRetry := None\<rparr>) (s\<lparr>po_timers := (po_timers s)(t := None)\<rparr>)
       in if js_get (po_entries s') connId \<noteq> Some r then (s', []) else dial connId r s')"

text \<open>\<open>discard\<close> up to its \<open>await\<close>; what follows it in the caller is \<open>k\<close>, resumed by an event.\<close>

definition discard :: "entry_ref \<Rightarrow> cont \<Rightarrow> pool \<Rightarrow> pool \<times> effect list" where
  "discard r k s =
     (let e = entry_at s r; w = po_fresh s
      in (put_entry r (e\<lparr>en_client := None, en_connected := False\<rparr>)
            (s\<lparr>po_fresh := w + 1, po_waits := (po_waits s)(w := Some k)\<rparr>),
          case en_client e of None \<Rightarrow> [] | Some c \<Rightarrow> [EndClient c]))"

definition redial :: "int \<Rightarrow> entry_ref \<Rightarrow> pool \<Rightarrow> pool \<times> effect list" where
  "redial connId r s =
     discard r (RedialCont connId r) (put_entry r ((entry_at s r)\<lparr>en_closing := True\<rparr>) s)"

definition redial_resumed :: "int \<Rightarrow> entry_ref \<Rightarrow> pool \<Rightarrow> pool \<times> effect list" where
  "redial_resumed connId r s =
     (let s' = put_entry r ((entry_at s r)\<lparr>en_closing := False\<rparr>) s
      in if js_get (po_entries s') connId \<noteq> Some r then (s', [])
         else dial connId r (put_entry r ((entry_at s' r)\<lparr>en_attempts := 0\<rparr>) s'))"

definition closeEntry :: "int \<Rightarrow> entry_ref \<Rightarrow> cont \<Rightarrow> pool \<Rightarrow> pool \<times> effect list" where
  "closeEntry connId r k s =
     (let e = entry_at s r;
          s' = put_entry r (e\<lparr>en_closing := True, en_cancelRetry := None\<rparr>)
            (s\<lparr>po_timers := (case en_cancelRetry e of None \<Rightarrow> po_timers s | Some t \<Rightarrow> (po_timers s)(t := None)),
               po_entries := js_delete connId (po_entries s)\<rparr>)
      in case discard r k s' of (s'', es) \<Rightarrow>
           (s'', (case en_cancelRetry e of None \<Rightarrow> [] | Some t \<Rightarrow> [CancelTimer t]) @ es))"

definition close_all :: "(int \<times> entry_ref) list \<Rightarrow> pool \<Rightarrow> pool \<times> effect list" where
  "close_all es s = (case es of [] \<Rightarrow> (s, []) | (connId, r) # rest \<Rightarrow> closeEntry connId r (CloseCont rest) s)"

definition resumed :: "nat \<Rightarrow> bool \<Rightarrow> pool \<Rightarrow> pool \<times> effect list" where
  "resumed w ok s = (case po_waits s w of
     None \<Rightarrow> (s, [])
   | Some k \<Rightarrow>
       let s' = s\<lparr>po_waits := (po_waits s)(w := None)\<rparr>
       in if \<not> ok then (s', [])
          else (case k of RedialCont connId r \<Rightarrow> redial_resumed connId r s' | CloseCont es \<Rightarrow> close_all es s'))"

definition reopen :: "int \<Rightarrow> entry_ref \<Rightarrow> MqttParams \<Rightarrow> BrokerWill option \<Rightarrow> pool \<Rightarrow> pool \<times> effect list" where
  "reopen connId r params will s =
     (let e = entry_at s r;
          nextWill = (case will of Some w \<Rightarrow> Some w | None \<Rightarrow> en_will e);
          changed = (\<not> sameParams (en_params e) params \<or> \<not> sameWill (en_will e) nextWill);
          s' = put_entry r (e\<lparr>en_params := params, en_will := nextWill\<rparr>) s
      in if changed then redial connId r s' else (s', []))"

subsection \<open>What a client's events do\<close>

definition client_connect :: "client \<Rightarrow> millis \<Rightarrow> pool \<Rightarrow> pool \<times> effect list" where
  "client_connect c nowMs s = (case po_clients s c of
     None \<Rightarrow> (s, [])
   | Some (connId, r) \<Rightarrow>
       let e = entry_at s r in
       if en_client e \<noteq> Some c then (s, [])
       else let e' = e\<lparr>en_connected := True, en_attempts := 0, en_lastError := None, en_lastErrorAt := None,
                  en_lastConnectedAt := Some nowMs\<rparr>
         in (put_entry r e' s,
             concat (map (\<lambda>h. subscribeHolder s e' h @ notify bs_hasOnConnect (OnConnect h) s h) (en_holders e'))))"

definition client_close :: "client \<Rightarrow> pool \<Rightarrow> pool \<times> effect list" where
  "client_close c s = (case po_clients s c of
     None \<Rightarrow> (s, [])
   | Some (connId, r) \<Rightarrow>
       let e = entry_at s r in
       if en_client e \<noteq> Some c \<or> en_closing e then (s, [])
       else andThen (put_entry r (e\<lparr>en_connected := False\<rparr>) s,
              concat (map (\<lambda>h. notify bs_hasOnClose (OnClose h) s h) (en_holders e)))
            (scheduleRetry connId r))"

definition client_error :: "client \<Rightarrow> string \<Rightarrow> millis \<Rightarrow> pool \<Rightarrow> pool \<times> effect list" where
  "client_error c msg nowMs s = (case po_clients s c of
     None \<Rightarrow> (s, [])
   | Some (connId, r) \<Rightarrow>
       let e = entry_at s r in
       if en_client e \<noteq> Some c then (s, [])
       else (put_entry r (e\<lparr>en_lastError := Some msg, en_lastErrorAt := Some nowMs\<rparr>) s, []))"

definition client_message :: "client \<Rightarrow> string \<Rightarrow> string \<Rightarrow> pool \<Rightarrow> pool \<times> effect list" where
  "client_message c topic payload s = (case po_clients s c of
     None \<Rightarrow> (s, [])
   | Some (connId, r) \<Rightarrow>
       let e = entry_at s r in
       if en_client e \<noteq> Some c then (s, [])
       else (s, concat (map (\<lambda>h. notify bs_hasOnMessage (OnMessage h topic payload) s h) (en_holders e))))"

subsection \<open>What a holder calls\<close>

definition new_entry :: "MqttParams \<Rightarrow> BrokerWill option \<Rightarrow> Entry" where
  "new_entry params will = \<lparr>en_params = params, en_will = will, en_client = None, en_holders = [],
     en_connected = False, en_lastError = None, en_lastErrorAt = None, en_lastConnectedAt = None,
     en_attempts = 0, en_cancelRetry = None, en_closing = False\<rparr>"

definition open_entry :: "int \<Rightarrow> MqttParams \<Rightarrow> BrokerWill option \<Rightarrow> pool \<Rightarrow> pool \<times> effect list" where
  "open_entry connId params will s =
     (let r = po_fresh s
      in dial connId r (put_entry r (new_entry params will)
           (s\<lparr>po_fresh := r + 1, po_entries := js_set connId r (po_entries s)\<rparr>)))"

definition add_holder :: "int \<Rightarrow> pool \<Rightarrow> pool \<times> effect list" where
  "add_holder connId s = (case js_get (po_entries s) connId of
     None \<Rightarrow> (s, [])
   | Some r \<Rightarrow>
       let e = entry_at s r; h = po_fresh s
       in (put_entry r (e\<lparr>en_holders := set_add h (en_holders e)\<rparr>)
             (s\<lparr>po_fresh := h + 1, po_links := (po_links s)(h := Some \<lparr>li_connectionId = connId, li_held = r,
                li_subscription = None, li_released = False\<rparr>)\<rparr>), []))"

definition acquire :: "int \<Rightarrow> MqttParams \<Rightarrow> BrokerWill option \<Rightarrow> pool \<Rightarrow> pool \<times> effect list" where
  "acquire connId params will s =
     andThen (case js_get (po_entries s) connId of
         None \<Rightarrow> open_entry connId params will s
       | Some r \<Rightarrow> reopen connId r params will s)
     (add_holder connId)"

definition link_update :: "holder \<Rightarrow> MqttParams \<Rightarrow> BrokerWill option \<Rightarrow> pool \<Rightarrow> pool \<times> effect list" where
  "link_update h params will s = (case po_links s h of
     None \<Rightarrow> (s, [])
   | Some l \<Rightarrow>
       if js_get (po_entries s) (li_connectionId l) \<noteq> Some (li_held l) then (s, [])
       else reopen (li_connectionId l) (li_held l) params will s)"

definition link_subscribe :: "holder \<Rightarrow> BrokerSubscription \<Rightarrow> pool \<Rightarrow> pool \<times> effect list" where
  "link_subscribe h sub s = (case po_links s h of
     None \<Rightarrow> (s, [])
   | Some l \<Rightarrow>
       let s' = s\<lparr>po_links := (po_links s)(h := Some (l\<lparr>li_subscription := Some sub\<rparr>))\<rparr>;
           e = entry_at s (li_held l)
       in if \<not> en_connected e then (s', [])
          else (s', subscribeHolder s' e h @ notify bs_hasOnConnect (OnConnect h) s' h))"

definition link_publish :: "holder \<Rightarrow> string \<Rightarrow> string \<Rightarrow> pool \<Rightarrow> pool \<times> effect list" where
  "link_publish h topic payload s = (case po_links s h of
     None \<Rightarrow> (s, [])
   | Some l \<Rightarrow> (s, case en_client (entry_at s (li_held l)) of None \<Rightarrow> [] | Some c \<Rightarrow> [PublishMsg c topic payload]))"

definition link_release :: "holder \<Rightarrow> pool \<Rightarrow> pool \<times> effect list" where
  "link_release h s = (case po_links s h of
     None \<Rightarrow> (s, [])
   | Some l \<Rightarrow>
       if li_released l then (s, [])
       else let r = li_held l; e = entry_at s r; hs = removeAll h (en_holders e);
                s' = put_entry r (e\<lparr>en_holders := hs\<rparr>)
                  (s\<lparr>po_links := (po_links s)(h := Some (l\<lparr>li_released := True\<rparr>))\<rparr>)
         in if hs = [] \<and> js_get (po_entries s') (li_connectionId l) = Some r
            then closeEntry (li_connectionId l) r (CloseCont []) s'
            else (s', []))"

fun step :: "pool \<Rightarrow> event \<Rightarrow> pool \<times> effect list" where
  "step s (Acquire connId params will) = acquire connId params will s"
| "step s (Update h params will) = link_update h params will s"
| "step s (Subscribe h sub) = link_subscribe h sub s"
| "step s (Publish h topic payload) = link_publish h topic payload s"
| "step s (Release h) = link_release h s"
| "step s ClosePool = close_all (po_entries s) s"
| "step s (ClientConnect c nowMs) = client_connect c nowMs s"
| "step s (ClientClose c) = client_close c s"
| "step s (ClientError c msg nowMs) = client_error c msg nowMs s"
| "step s (ClientMessage c topic payload) = client_message c topic payload s"
| "step s (SubscribeRefused h sub msg) = (s, if bs_hasOnSubscribeError sub then [OnSubscribeError h msg] else [])"
| "step s (TimerFired t) = timer_fired t s"
| "step s (Resumed w ok) = resumed w ok s"

subsection \<open>Only held rows are dialled\<close>

lemmas handler_defs = acquire_def link_update_def link_subscribe_def link_publish_def link_release_def
  close_all_def client_connect_def client_close_def client_error_def client_message_def timer_fired_def
  resumed_def
lemmas action_defs = dial_def scheduleRetry_def discard_def redial_def redial_resumed_def closeEntry_def
  reopen_def open_entry_def add_holder_def

lemma entry_at_put [simp]: "entry_at (put_entry r e s) r' = (if r' = r then e else entry_at s r')"
  unfolding entry_at_def put_entry_def by simp

lemma put_entry_frame [simp]:
  "po_entries (put_entry r e s) = po_entries s" "po_clients (put_entry r e s) = po_clients s"
  "po_timers (put_entry r e s) = po_timers s" "po_links (put_entry r e s) = po_links s"
  "po_waits (put_entry r e s) = po_waits s" "po_fresh (put_entry r e s) = po_fresh s"
  "po_heap (put_entry r e s) r' = (if r' = r then Some e else po_heap s r')"
  unfolding put_entry_def by simp_all

lemma entry_at_frame [simp]:
  "entry_at (s\<lparr>po_entries := a\<rparr>) = entry_at s" "entry_at (s\<lparr>po_clients := b\<rparr>) = entry_at s"
  "entry_at (s\<lparr>po_timers := c\<rparr>) = entry_at s" "entry_at (s\<lparr>po_links := d\<rparr>) = entry_at s"
  "entry_at (s\<lparr>po_waits := k\<rparr>) = entry_at s" "entry_at (s\<lparr>po_fresh := n\<rparr>) = entry_at s"
  unfolding entry_at_def by (simp_all add: fun_eq_iff)

lemma holders_frame:
  "en_holders (entry_at (fst (dial connId r s)) r') = en_holders (entry_at s r')"
  "en_holders (entry_at (fst (scheduleRetry connId r s)) r') = en_holders (entry_at s r')"
  "en_holders (entry_at (fst (discard r k s)) r') = en_holders (entry_at s r')"
  "en_holders (entry_at (fst (redial connId r s)) r') = en_holders (entry_at s r')"
  "en_holders (entry_at (fst (redial_resumed connId r s)) r') = en_holders (entry_at s r')"
  "en_holders (entry_at (fst (closeEntry connId r k s)) r') = en_holders (entry_at s r')"
  "en_holders (entry_at (fst (reopen connId r params will s)) r') = en_holders (entry_at s r')"
  unfolding action_defs Let_def by (auto split: prod.split)

lemma entries_frame:
  "po_entries (fst (dial connId r s)) = po_entries s"
  "po_entries (fst (scheduleRetry connId r s)) = po_entries s"
  "po_entries (fst (discard r k s)) = po_entries s"
  "po_entries (fst (redial connId r s)) = po_entries s"
  "po_entries (fst (redial_resumed connId r s)) = po_entries s"
  "po_entries (fst (closeEntry connId r k s)) = js_delete connId (po_entries s)"
  "po_entries (fst (reopen connId r params will s)) = po_entries s"
  unfolding action_defs Let_def by (auto split: prod.split)


lemma links_frame:
  "po_links (fst (dial connId r s)) = po_links s"
  "po_links (fst (scheduleRetry connId r s)) = po_links s"
  "po_links (fst (discard r k s)) = po_links s"
  "po_links (fst (redial connId r s)) = po_links s"
  "po_links (fst (redial_resumed connId r s)) = po_links s"
  "po_links (fst (closeEntry connId r k s)) = po_links s"
  "po_links (fst (reopen connId r params will s)) = po_links s"
  unfolding action_defs Let_def by (auto split: prod.split)

lemma fresh_frame:
  "po_fresh s \<le> po_fresh (fst (dial connId r s))"
  "po_fresh s \<le> po_fresh (fst (scheduleRetry connId r s))"
  "po_fresh s \<le> po_fresh (fst (discard r k s))"
  "po_fresh s \<le> po_fresh (fst (redial connId r s))"
  "po_fresh s \<le> po_fresh (fst (redial_resumed connId r s))"
  "po_fresh s \<le> po_fresh (fst (closeEntry connId r k s))"
  "po_fresh s \<le> po_fresh (fst (reopen connId r params will s))"
  unfolding action_defs Let_def by (auto split: prod.split)

text \<open>
  The registry: addresses are allocated, a row has one entry and an entry one row, a link knows
  the row of its entry, every registered row has a holder, and its holders are links on it that
  have not been released.
\<close>

definition live_holder :: "pool \<Rightarrow> entry_ref \<Rightarrow> holder \<Rightarrow> bool" where
  "live_holder s r h \<longleftrightarrow> (case po_links s h of None \<Rightarrow> False | Some l \<Rightarrow> li_held l = r \<and> \<not> li_released l)"

definition registry_ok :: "pool \<Rightarrow> bool" where
  "registry_ok s \<longleftrightarrow>
     (\<forall>a r. js_get (po_entries s) a = Some r \<longrightarrow> r < po_fresh s \<and> en_holders (entry_at s r) \<noteq> []
        \<and> (\<forall>h\<in>set (en_holders (entry_at s r)). live_holder s r h))
     \<and> (\<forall>a b r. js_get (po_entries s) a = Some r \<and> js_get (po_entries s) b = Some r \<longrightarrow> a = b)
     \<and> (\<forall>h l. po_links s h = Some l \<longrightarrow> h < po_fresh s \<and> li_held l < po_fresh s
          \<and> (\<forall>a. js_get (po_entries s) a = Some (li_held l) \<longrightarrow> a = li_connectionId l))"

lemma live_holder_frame:
  "po_links s' = po_links s \<Longrightarrow> live_holder s' r h = live_holder s r h"
  unfolding live_holder_def by simp

text \<open>Steps that at most drop registrations and leave holders and links alone keep it.\<close>

lemma registry_ok_frame:
  assumes "registry_ok s" and "\<And>a r. js_get (po_entries s') a = Some r \<Longrightarrow> js_get (po_entries s) a = Some r"
    and "\<And>r. en_holders (entry_at s' r) = en_holders (entry_at s r)" and "po_links s' = po_links s"
    and "po_fresh s \<le> po_fresh s'"
  shows "registry_ok s'"
proof -
  have live: "live_holder s' r h = live_holder s r h" for r h by (rule live_holder_frame [OF assms(4)])
  show ?thesis unfolding registry_ok_def assms(3) assms(4) live
    using assms(1) assms(2) assms(5) unfolding registry_ok_def by (blast intro: less_le_trans)
qed

lemma registry_actions:
  assumes "registry_ok s"
  shows "registry_ok (fst (dial connId r s))" "registry_ok (fst (scheduleRetry connId r s))"
    "registry_ok (fst (discard r k s))" "registry_ok (fst (redial connId r s))"
    "registry_ok (fst (redial_resumed connId r s))" "registry_ok (fst (closeEntry connId r k s))"
    "registry_ok (fst (reopen connId r params will s))"
  by (rule registry_ok_frame [OF assms];
      simp add: holders_frame entries_frame links_frame fresh_frame split: if_splits)+

lemma registry_put:
  assumes "registry_ok s" and "en_holders e = en_holders (entry_at s r)"
  shows "registry_ok (put_entry r e s)"
  by (rule registry_ok_frame [OF assms(1)]) (auto simp: assms(2))

lemma registry_update [simp]:
  "registry_ok (s\<lparr>po_timers := c\<rparr>) \<longleftrightarrow> registry_ok s" "registry_ok (s\<lparr>po_waits := k\<rparr>) \<longleftrightarrow> registry_ok s"
  "registry_ok (s\<lparr>po_clients := k'\<rparr>) \<longleftrightarrow> registry_ok s"
  unfolding registry_ok_def live_holder_def by simp_all

lemma add_holder_keeps:
  assumes reg: "js_get (po_entries s) connId = Some r" and fresh: "r < po_fresh s"
    and holders: "\<forall>h\<in>set (en_holders (entry_at s r)). live_holder s r h"
    and others: "\<forall>a q. js_get (po_entries s) a = Some q \<and> q \<noteq> r \<longrightarrow> q < po_fresh s
      \<and> en_holders (entry_at s q) \<noteq> [] \<and> (\<forall>h\<in>set (en_holders (entry_at s q)). live_holder s q h)"
    and one: "\<forall>a b q. js_get (po_entries s) a = Some q \<and> js_get (po_entries s) b = Some q \<longrightarrow> a = b"
    and links: "\<forall>h l. po_links s h = Some l \<longrightarrow> h < po_fresh s \<and> li_held l < po_fresh s
      \<and> (\<forall>a. js_get (po_entries s) a = Some (li_held l) \<longrightarrow> a = li_connectionId l)"
  shows "registry_ok (fst (add_holder connId s))"
proof -
  define n where "n = po_fresh s"
  define l where "l = \<lparr>li_connectionId = connId, li_held = r, li_subscription = None, li_released = False\<rparr>"
  define s' where "s' = fst (add_holder connId s)"
  have f: "po_entries s' = po_entries s" "po_fresh s' = n + 1" "po_links s' = (po_links s)(n := Some l)"
    "en_holders (entry_at s' q) = (if q = r then set_add n (en_holders (entry_at s r)) else en_holders (entry_at s q))" for q
    unfolding s'_def add_holder_def reg l_def n_def by (simp_all add: Let_def)
  have keep: "live_holder s q h \<Longrightarrow> live_holder s' q h" for q h
    using links unfolding live_holder_def f n_def by (auto split: option.splits)
  have new: "live_holder s' r n" unfolding live_holder_def f l_def by simp
  have "registry_ok s'" unfolding registry_ok_def f
  proof (intro conjI allI impI; (elim conjE)?)
    fix a q assume g: "js_get (po_entries s) a = Some q"
    show "q < n + 1" using others g fresh unfolding n_def by (cases "q = r") (auto intro: less_SucI)
    show "(if q = r then set_add n (en_holders (entry_at s r)) else en_holders (entry_at s q)) \<noteq> []"
      using others g by (auto simp: set_add_def)
    show "\<forall>h\<in>set (if q = r then set_add n (en_holders (entry_at s r)) else en_holders (entry_at s q)). live_holder s' q h"
      using others g holders keep new by auto
  next
    fix a b q assume "js_get (po_entries s) a = Some q" "js_get (po_entries s) b = Some q"
    then show "a = b" using one by blast
  next
    fix h m assume m: "((po_links s)(n := Some l)) h = Some m"
    show "h < n + 1" using m links unfolding n_def by (fastforce split: if_splits)
    show "li_held m < n + 1" using m links fresh unfolding n_def l_def by (fastforce split: if_splits)
    fix a assume "js_get (po_entries s) a = Some (li_held m)"
    then show "a = li_connectionId m" using m links one reg unfolding l_def by (auto split: if_splits)
  qed
  then show ?thesis unfolding s'_def .
qed

lemma registry_acquire:
  assumes ok: "registry_ok s"
  shows "registry_ok (fst (acquire connId params will s))"
proof (cases "js_get (po_entries s) connId")
  case None
  define r where "r = po_fresh s"
  define s1 where "s1 = fst (open_entry connId params will s)"
  have f: "po_entries s1 = js_set connId r (po_entries s)" "po_fresh s1 = r + 2" "po_links s1 = po_links s"
    "en_holders (entry_at s1 q) = (if q = r then [] else en_holders (entry_at s q))" for q
    unfolding s1_def open_entry_def dial_def r_def by (simp_all add: Let_def new_entry_def)
  have new: "js_get (po_entries s) a \<noteq> Some r" "po_links s h = Some l \<Longrightarrow> li_held l \<noteq> r" for a h l
    using ok unfolding registry_ok_def r_def by fastforce+
  have live: "live_holder s1 q h = live_holder s q h" for q h by (rule live_holder_frame [OF f(3)])
  have "registry_ok (fst (add_holder connId s1))"
  proof (rule add_holder_keeps)
    show "js_get (po_entries s1) connId = Some r" unfolding f by simp
    show "r < po_fresh s1" unfolding f by simp
    show "\<forall>h\<in>set (en_holders (entry_at s1 r)). live_holder s1 r h" unfolding f by simp
    show "\<forall>a q. js_get (po_entries s1) a = Some q \<and> q \<noteq> r \<longrightarrow> q < po_fresh s1
      \<and> en_holders (entry_at s1 q) \<noteq> [] \<and> (\<forall>h\<in>set (en_holders (entry_at s1 q)). live_holder s1 q h)"
      using ok unfolding f live registry_ok_def r_def by (fastforce split: if_splits)
    show "\<forall>a b q. js_get (po_entries s1) a = Some q \<and> js_get (po_entries s1) b = Some q \<longrightarrow> a = b"
      using ok new(1) unfolding f registry_ok_def by (auto split: if_splits)
    show "\<forall>h l. po_links s1 h = Some l \<longrightarrow> h < po_fresh s1 \<and> li_held l < po_fresh s1
      \<and> (\<forall>a. js_get (po_entries s1) a = Some (li_held l) \<longrightarrow> a = li_connectionId l)"
      using ok new(2) unfolding f registry_ok_def r_def by (fastforce split: if_splits)
  qed
  then show ?thesis unfolding acquire_def None s1_def by (simp add: fst_andThen)
next
  case (Some r)
  define s1 where "s1 = fst (reopen connId r params will s)"
  have ok1: "registry_ok s1" unfolding s1_def by (rule registry_actions(7) [OF ok])
  have reg: "js_get (po_entries s1) connId = Some r" unfolding s1_def entries_frame by (rule Some)
  have "registry_ok (fst (add_holder connId s1))"
    by (rule add_holder_keeps [OF reg]; use ok1 [unfolded registry_ok_def] reg in blast)
  then show ?thesis unfolding acquire_def Some s1_def by (simp add: fst_andThen)
qed

lemma registry_release:
  assumes ok: "registry_ok s"
  shows "registry_ok (fst (link_release h s))"
proof (cases "po_links s h")
  case None
  then show ?thesis using ok unfolding link_release_def by simp
next
  case (Some l)
  show ?thesis
  proof (cases "li_released l")
    case True
    then show ?thesis using ok Some unfolding link_release_def by simp
  next
    case False
    define r where "r = li_held l"
    define hs where "hs = removeAll h (en_holders (entry_at s r))"
    define s1 where "s1 = put_entry r ((entry_at s r)\<lparr>en_holders := hs\<rparr>)
      (s\<lparr>po_links := (po_links s)(h := Some (l\<lparr>li_released := True\<rparr>))\<rparr>)"
    define close where "close \<longleftrightarrow> hs = [] \<and> js_get (po_entries s) (li_connectionId l) = Some r"
    define s2 where "s2 = (if close then fst (closeEntry (li_connectionId l) r (CloseCont []) s1) else s1)"
    have s2: "fst (link_release h s) = s2"
      unfolding link_release_def Some s2_def close_def s1_def hs_def r_def using False by (simp add: Let_def)
    have ents: "po_entries s2 = (if close then js_delete (li_connectionId l) (po_entries s) else po_entries s)"
      unfolding s2_def s1_def by (simp add: entries_frame)
    have lks: "po_links s2 = (po_links s)(h := Some (l\<lparr>li_released := True\<rparr>))"
      unfolding s2_def s1_def by (simp add: links_frame)
    have hds: "en_holders (entry_at s2 q) = (if q = r then hs else en_holders (entry_at s q))" for q
      unfolding s2_def s1_def by (simp add: holders_frame)
    have fr: "po_fresh s \<le> po_fresh s2"
      unfolding s2_def s1_def by (auto intro: order_trans [OF _ fresh_frame(6)])
    have row: "js_get (po_entries s) a = Some r \<Longrightarrow> a = li_connectionId l" for a
      using ok Some unfolding registry_ok_def r_def by blast
    have sub: "js_get (po_entries s2) a = Some q \<Longrightarrow> js_get (po_entries s) a = Some q \<and> (q = r \<longrightarrow> hs \<noteq> [])" for a q
      using row [of a] unfolding ents close_def by (cases "q = r") (auto split: if_splits)
    have live: "live_holder s q g \<Longrightarrow> q \<noteq> r \<or> g \<noteq> h \<Longrightarrow> live_holder s2 q g" for q g
      using Some unfolding live_holder_def lks r_def by (auto split: option.splits)
    have "registry_ok s2" unfolding registry_ok_def
    proof (intro conjI allI impI; (elim conjE)?)
      fix a q assume g: "js_get (po_entries s2) a = Some q"
      note old = ok [unfolded registry_ok_def, THEN conjunct1, rule_format, OF sub [OF g, THEN conjunct1]]
      show "q < po_fresh s2" using old fr by simp
      show "en_holders (entry_at s2 q) \<noteq> []" using old sub [OF g] unfolding hds by simp
      show "\<forall>g\<in>set (en_holders (entry_at s2 q)). live_holder s2 q g"
        using old live unfolding hds hs_def by auto
    next
      fix a b q assume "js_get (po_entries s2) a = Some q" "js_get (po_entries s2) b = Some q"
      then show "a = b" using ok sub unfolding registry_ok_def by blast
    next
      fix g m assume m: "po_links s2 g = Some m"
      obtain m' where m': "po_links s g = Some m'" "li_held m = li_held m'" "li_connectionId m = li_connectionId m'"
        using m Some unfolding lks by (auto split: if_splits)
      note old = ok [unfolded registry_ok_def, THEN conjunct2, THEN conjunct2, rule_format, OF m'(1)]
      show "g < po_fresh s2" "li_held m < po_fresh s2" using old fr m' by simp_all
      fix a assume "js_get (po_entries s2) a = Some (li_held m)"
      then show "a = li_connectionId m" using old sub m' by auto
    qed
    then show ?thesis unfolding s2 .
  qed
qed

lemma registry_subscribe:
  assumes ok: "registry_ok s"
  shows "registry_ok (fst (link_subscribe h sub s))"
proof (cases "po_links s h")
  case None
  then show ?thesis using ok unfolding link_subscribe_def by simp
next
  case (Some l)
  define s' where "s' = s\<lparr>po_links := (po_links s)(h := Some (l\<lparr>li_subscription := Some sub\<rparr>))\<rparr>"
  have eq: "fst (link_subscribe h sub s) = s'" unfolding link_subscribe_def Some s'_def by (simp add: Let_def)
  have live: "live_holder s' q g = live_holder s q g" for q g
    using Some unfolding live_holder_def s'_def by (auto split: option.splits)
  have f: "po_entries s' = po_entries s" "entry_at s' = entry_at s" "po_fresh s' = po_fresh s"
    "po_links s' = (po_links s)(h := Some (l\<lparr>li_subscription := Some sub\<rparr>))" unfolding s'_def by simp_all
  have "registry_ok s'" using ok Some unfolding registry_ok_def live f by auto
  then show ?thesis unfolding eq .
qed

lemma registry_close_all:
  "registry_ok s \<Longrightarrow> registry_ok (fst (close_all es s))"
  unfolding close_all_def by (auto split: list.splits intro: registry_actions)

lemma registry_step: "registry_ok s \<Longrightarrow> registry_ok (fst (step s ev))"
proof (induction s ev rule: step.induct)
  case (1 s connId params will)
  then show ?case by (simp add: registry_acquire)
next
  case (2 s h params will)
  then show ?case unfolding step.simps link_update_def by (auto split: option.split intro: registry_actions)
next
  case (3 s h sub)
  then show ?case by (simp add: registry_subscribe)
next
  case (4 s h topic payload)
  then show ?case unfolding step.simps link_publish_def by (simp split: option.split)
next
  case (5 s h)
  then show ?case by (simp add: registry_release)
next
  case (6 s)
  then show ?case by (simp add: registry_close_all)
next
  case (7 s c nowMs)
  then show ?case unfolding step.simps client_connect_def Let_def
    by (auto split: option.split intro: registry_put)
next
  case (8 s c)
  then show ?case unfolding step.simps client_close_def Let_def
    by (auto split: option.split intro!: registry_actions registry_put)
next
  case (9 s c msg nowMs)
  then show ?case unfolding step.simps client_error_def Let_def
    by (auto split: option.split intro: registry_put)
next
  case (10 s c topic payload)
  then show ?case unfolding step.simps client_message_def Let_def by (simp split: option.split)
next
  case (11 s h sub msg)
  then show ?case by simp
next
  case (12 s t)
  then show ?case unfolding step.simps timer_fired_def Let_def
    by (auto split: option.split intro!: registry_actions registry_put)
next
  case (13 s w ok)
  then show ?case unfolding step.simps resumed_def Let_def
    by (auto split: option.split cont.split intro!: registry_actions registry_close_all)
qed

lemma registry_empty: "registry_ok empty_pool"
  unfolding registry_ok_def empty_pool_def by simp

lemma registry_run: "registry_ok s \<Longrightarrow> registry_ok (fst (run_steps step s evs))"
  by (induction evs arbitrary: s) (simp_all add: fst_andThen registry_step)


definition dialled_row :: "pool \<Rightarrow> effect \<Rightarrow> bool" where
  "dialled_row s eff \<longleftrightarrow> (case eff of
     Dial c url opts \<Rightarrow> (\<exists>connId r. js_get (po_entries s) connId = Some r
        \<and> en_client (entry_at s r) = Some c \<and> url = mq_brokerUrl (en_params (entry_at s r))
        \<and> opts = \<lparr>bo_username = mq_username (en_params (entry_at s r)),
             bo_password = mq_password (en_params (entry_at s r)),
             bo_clientId = mq_clientId (en_params (entry_at s r)),
             bo_will = en_will (entry_at s r), bo_reconnectPeriod = 0\<rparr>)
   | _ \<Rightarrow> True)"

lemma dialled_row_simps [simp]:
  "dialled_row s (SubscribeTopics c ts h)" "dialled_row s (PublishMsg c topic payload)"
  "dialled_row s (EndClient c)" "dialled_row s (ScheduleTimer t n)" "dialled_row s (CancelTimer t)"
  "dialled_row s (OnConnect h)" "dialled_row s (OnClose h)" "dialled_row s (OnMessage h topic payload)"
  "dialled_row s (OnSubscribeError h msg)"
  unfolding dialled_row_def by simp_all

lemma dial_dials:
  "js_get (po_entries s) connId = Some r \<Longrightarrow> eff \<in> set (snd (dial connId r s)) \<Longrightarrow>
     dialled_row (fst (dial connId r s)) eff"
  unfolding dial_def Let_def dialled_row_def by auto

lemma quiet_effects:
  "eff \<in> set (subscribeHolder s e h) \<Longrightarrow> dialled_row s' eff"
  "eff \<in> set (snd (scheduleRetry connId r s)) \<Longrightarrow> dialled_row s' eff"
  "eff \<in> set (snd (discard r k s)) \<Longrightarrow> dialled_row s' eff"
  "eff \<in> set (snd (redial connId r s)) \<Longrightarrow> dialled_row s' eff"
  "eff \<in> set (snd (closeEntry connId r k s)) \<Longrightarrow> dialled_row s' eff"
  "eff \<in> set (snd (reopen connId r params will s)) \<Longrightarrow> dialled_row s' eff"
  unfolding subscribeHolder_def action_defs Let_def
  by (auto split: option.splits list.splits prod.splits if_splits)

lemma quiet_notify:
  "eff \<in> set (notify has (OnConnect h) s h) \<Longrightarrow> dialled_row s' eff"
  "eff \<in> set (notify has (OnClose h) s h) \<Longrightarrow> dialled_row s' eff"
  "eff \<in> set (notify has (OnMessage h topic payload) s h) \<Longrightarrow> dialled_row s' eff"
  unfolding notify_def by (auto split: option.splits if_splits)

lemma quiet_close_all: "eff \<in> set (snd (close_all es s)) \<Longrightarrow> dialled_row s' eff"
  unfolding close_all_def by (auto split: list.splits dest: quiet_effects)

lemma acquire_dials:
  assumes "eff \<in> set (snd (acquire connId params will s))"
  shows "dialled_row (fst (acquire connId params will s)) eff"
proof (cases "js_get (po_entries s) connId")
  case None
  then show ?thesis using assms
    unfolding acquire_def open_entry_def dial_def add_holder_def Let_def dialled_row_def
    by (auto simp: fst_andThen snd_andThen)
next
  case (Some r)
  have "snd (add_holder connId s') = []" for s'
    unfolding add_holder_def Let_def by (simp split: option.split)
  then have "eff \<in> set (snd (reopen connId r params will s))"
    using assms unfolding acquire_def Some by (simp add: snd_andThen)
  then show ?thesis by (rule quiet_effects(6))
qed

lemma step_dials: "eff \<in> set (snd (step s ev)) \<Longrightarrow> dialled_row (fst (step s ev)) eff"
proof (induction s ev rule: step.induct)
  case (1 s connId params will)
  then show ?case by (simp add: acquire_dials)
next
  case (2 s h params will)
  then show ?case unfolding step.simps link_update_def by (auto split: option.splits if_splits dest: quiet_effects)
next
  case (3 s h sub)
  then show ?case unfolding step.simps link_subscribe_def Let_def
    by (auto split: option.splits if_splits dest: quiet_effects quiet_notify)
next
  case (4 s h topic payload)
  then show ?case unfolding step.simps link_publish_def by (auto split: option.splits)
next
  case (5 s h)
  then show ?case unfolding step.simps link_release_def Let_def
    by (auto split: option.splits if_splits dest: quiet_effects)
next
  case (6 s)
  then show ?case by (simp add: quiet_close_all)
next
  case (7 s c nowMs)
  then show ?case unfolding step.simps client_connect_def Let_def
    by (auto split: option.splits if_splits dest: quiet_effects quiet_notify)
next
  case (8 s c)
  then show ?case unfolding step.simps client_close_def Let_def
    by (auto simp: snd_andThen split: option.splits if_splits dest: quiet_effects quiet_notify)
next
  case (9 s c msg nowMs)
  then show ?case unfolding step.simps client_error_def Let_def by (auto split: option.splits if_splits)
next
  case (10 s c topic payload)
  then show ?case unfolding step.simps client_message_def Let_def
    by (auto split: option.splits if_splits dest: quiet_notify)
next
  case (11 s h sub msg)
  then show ?case by (auto split: if_splits)
next
  case (12 s t)
  then show ?case unfolding step.simps timer_fired_def Let_def
    by (auto split: option.splits if_splits intro!: dial_dials)
next
  case (13 s w ok)
  then show ?case unfolding step.simps resumed_def redial_resumed_def Let_def
    by (auto split: option.splits if_splits cont.splits intro: dial_dials dest: quiet_close_all)
qed

text \<open>C17. In every run from an empty pool, a client is dialled only for a connection row that some
  consumer holds at that moment: the row is registered, the new client is its entry's client, the
  dial goes out with that row's current parameters and last will and with the library's own
  reconnect switched off, and one of its holders is a link on this entry that has not been
  released.\<close>

theorem dial_only_for_held_rows:
  assumes "s' = fst (step (fst (run_steps step empty_pool evs)) ev)"
    and "Dial c url opts \<in> set (snd (step (fst (run_steps step empty_pool evs)) ev))"
  shows "\<exists>connId r h. js_get (po_entries s') connId = Some r
     \<and> en_client (entry_at s' r) = Some c \<and> url = mq_brokerUrl (en_params (entry_at s' r))
     \<and> opts = \<lparr>bo_username = mq_username (en_params (entry_at s' r)),
          bo_password = mq_password (en_params (entry_at s' r)),
          bo_clientId = mq_clientId (en_params (entry_at s' r)),
          bo_will = en_will (entry_at s' r), bo_reconnectPeriod = 0\<rparr>
     \<and> h \<in> set (en_holders (entry_at s' r)) \<and> live_holder s' r h"
proof -
  have "dialled_row s' (Dial c url opts)" using step_dials [OF assms(2)] unfolding assms(1) .
  then obtain connId r where d: "js_get (po_entries s') connId = Some r"
    "en_client (entry_at s' r) = Some c" "url = mq_brokerUrl (en_params (entry_at s' r))"
    "opts = \<lparr>bo_username = mq_username (en_params (entry_at s' r)),
          bo_password = mq_password (en_params (entry_at s' r)),
          bo_clientId = mq_clientId (en_params (entry_at s' r)),
          bo_will = en_will (entry_at s' r), bo_reconnectPeriod = 0\<rparr>"
    unfolding dialled_row_def by auto
  have "registry_ok s'" unfolding assms(1) by (intro registry_step registry_run registry_empty)
  then obtain h where "h \<in> set (en_holders (entry_at s' r))" "live_holder s' r h"
    using d(1) unfolding registry_ok_def by (metis list.set_intros(1) neq_Nil_conv)
  then show ?thesis using d by blast
qed

subsection \<open>The backoff\<close>

text \<open>One failed dial: the row's client closes, then the retry timer this armed fires.\<close>

definition failing_round :: "entry_ref \<Rightarrow> pool \<Rightarrow> pool \<times> effect list" where
  "failing_round r s = andThen (step s (ClientClose (the (en_client (entry_at s r)))))
     (\<lambda>s1. step s1 (TimerFired (the (en_cancelRetry (entry_at s1 r)))))"

fun failing_rounds :: "nat \<Rightarrow> entry_ref \<Rightarrow> pool \<Rightarrow> pool \<times> effect list" where
  "failing_rounds 0 r s = (s, [])"
| "failing_rounds (Suc n) r s = andThen (failing_round r s) (failing_rounds n r)"

definition retry_delays :: "effect list \<Rightarrow> nat list" where
  "retry_delays es = concat (map (\<lambda>eff. case eff of ScheduleTimer t d \<Rightarrow> [d] | _ \<Rightarrow> []) es)"

definition dials :: "effect list \<Rightarrow> string list" where
  "dials es = concat (map (\<lambda>eff. case eff of Dial c url opts \<Rightarrow> [url] | _ \<Rightarrow> []) es)"

definition dialling :: "int \<Rightarrow> entry_ref \<Rightarrow> pool \<Rightarrow> bool" where
  "dialling connId r s \<longleftrightarrow> js_get (po_entries s) connId = Some r \<and> \<not> en_closing (entry_at s r)
     \<and> en_cancelRetry (entry_at s r) = None
     \<and> (case en_client (entry_at s r) of None \<Rightarrow> False | Some c \<Rightarrow> po_clients s c = Some (connId, r))"

lemma notify_silent:
  "retry_delays (concat (map (\<lambda>h. notify has (OnClose h) s h) hs)) = []"
  "dials (concat (map (\<lambda>h. notify has (OnClose h) s h) hs)) = []"
  unfolding retry_delays_def dials_def notify_def by (induction hs) (auto split: option.split)

lemma failing_round_eq:
  assumes "dialling connId r s"
  obtains c s1 where "en_client (entry_at s r) = Some c"
    and "failing_round r s = (fst (dial connId r s1),
           concat (map (\<lambda>h. notify bs_hasOnClose (OnClose h) s h) (en_holders (entry_at s r)))
           @ [ScheduleTimer (po_fresh s) (min (1000 * 2 ^ en_attempts (entry_at s r)) 60000)] @ snd (dial connId r s1))"
    and "po_entries s1 = po_entries s"
    and "entry_at s1 r = (entry_at s r)\<lparr>en_connected := False, en_attempts := en_attempts (entry_at s r) + 1,
           en_cancelRetry := None\<rparr>"
proof -
  define e where "e = entry_at s r"
  obtain c where c: "en_client e = Some c" "po_clients s c = Some (connId, r)" "\<not> en_closing e"
    "en_cancelRetry e = None" "js_get (po_entries s) connId = Some r"
    using assms unfolding dialling_def e_def by (auto split: option.splits)
  define t where "t = po_fresh s"
  define s0 where "s0 = put_entry r (e\<lparr>en_connected := False\<rparr>) s"
  define sm where "sm = put_entry r (e\<lparr>en_connected := False, en_attempts := en_attempts e + 1, en_cancelRetry := Some t\<rparr>)
     (s0\<lparr>po_fresh := t + 1, po_timers := (po_timers s)(t := Some (connId, r))\<rparr>)"
  define s1 where "s1 = put_entry r ((entry_at sm r)\<lparr>en_cancelRetry := None\<rparr>) (sm\<lparr>po_timers := (po_timers sm)(t := None)\<rparr>)"
  have s0: "entry_at s0 r = e\<lparr>en_connected := False\<rparr>" "po_fresh s0 = t" "po_timers s0 = po_timers s"
    "po_entries s0 = po_entries s" unfolding s0_def t_def by simp_all
  have retry: "scheduleRetry connId r s0 = (sm, [ScheduleTimer t (min (1000 * 2 ^ en_attempts e) 60000)])"
    unfolding scheduleRetry_def Let_def s0 sm_def RETRY_BASE_MS_def RETRY_MAX_MS_def using c by simp
  have close: "step s (ClientClose c) = (sm, concat (map (\<lambda>h. notify bs_hasOnClose (OnClose h) s h) (en_holders e))
     @ [ScheduleTimer t (min (1000 * 2 ^ en_attempts e) 60000)])"
    unfolding step.simps client_close_def c(2) Let_def option.case prod.case e_def [symmetric] s0_def [symmetric]
    using c retry by simp
  have sm: "po_timers sm t = Some (connId, r)" "js_get (po_entries sm) connId = Some r"
    "en_cancelRetry (entry_at sm r) = Some t" "po_entries sm = po_entries s"
    unfolding sm_def using c s0 by simp_all
  have fired: "step sm (TimerFired t) = dial connId r s1"
    unfolding step.simps timer_fired_def sm Let_def option.case prod.case s1_def [symmetric]
    by (simp add: s1_def sm c(5))
  have round: "failing_round r s = andThen (step s (ClientClose c)) (\<lambda>s'. step s' (TimerFired t))"
    unfolding failing_round_def c(1) [unfolded e_def] option.sel close andThen_simps sm(3) by (rule refl)
  show thesis
  proof (rule that [of c s1])
    show "en_client (entry_at s r) = Some c" using c unfolding e_def by simp
    show "failing_round r s = (fst (dial connId r s1),
           concat (map (\<lambda>h. notify bs_hasOnClose (OnClose h) s h) (en_holders (entry_at s r)))
           @ [ScheduleTimer (po_fresh s) (min (1000 * 2 ^ en_attempts (entry_at s r)) 60000)] @ snd (dial connId r s1))"
      unfolding round close andThen_simps fired by (simp add: t_def e_def)
    show "po_entries s1 = po_entries s" unfolding s1_def by (simp add: sm)
    show "entry_at s1 r = (entry_at s r)\<lparr>en_connected := False, en_attempts := en_attempts (entry_at s r) + 1,
           en_cancelRetry := None\<rparr>"
      unfolding s1_def sm_def e_def by simp
  qed
qed

lemma failing_round_facts:
  assumes "dialling connId r s"
  shows "dialling connId r (fst (failing_round r s))"
    and "en_attempts (entry_at (fst (failing_round r s)) r) = en_attempts (entry_at s r) + 1"
    and "en_params (entry_at (fst (failing_round r s)) r) = en_params (entry_at s r)"
    and "retry_delays (snd (failing_round r s)) = [min (1000 * 2 ^ en_attempts (entry_at s r)) 60000]"
    and "dials (snd (failing_round r s)) = [mq_brokerUrl (en_params (entry_at s r))]"
proof -
  from assms obtain c s1 where f: "en_client (entry_at s r) = Some c"
    "failing_round r s = (fst (dial connId r s1),
           concat (map (\<lambda>h. notify bs_hasOnClose (OnClose h) s h) (en_holders (entry_at s r)))
           @ [ScheduleTimer (po_fresh s) (min (1000 * 2 ^ en_attempts (entry_at s r)) 60000)] @ snd (dial connId r s1))"
    "po_entries s1 = po_entries s"
    "entry_at s1 r = (entry_at s r)\<lparr>en_connected := False, en_attempts := en_attempts (entry_at s r) + 1,
           en_cancelRetry := None\<rparr>"
    by (rule failing_round_eq)
  have reg: "js_get (po_entries s) connId = Some r" "\<not> en_closing (entry_at s r)"
    using assms unfolding dialling_def by auto
  show "dialling connId r (fst (failing_round r s))"
    and "en_attempts (entry_at (fst (failing_round r s)) r) = en_attempts (entry_at s r) + 1"
    and "en_params (entry_at (fst (failing_round r s)) r) = en_params (entry_at s r)"
    unfolding f(2) fst_conv dial_def Let_def dialling_def by (simp_all add: f(3) f(4) reg)
  have silent: "retry_delays (concat (map (\<lambda>h. notify bs_hasOnClose (OnClose h) s h) hs) @ es) = retry_delays es"
    "dials (concat (map (\<lambda>h. notify bs_hasOnClose (OnClose h) s h) hs) @ es) = dials es" for hs es
    using notify_silent [of bs_hasOnClose s hs] unfolding retry_delays_def dials_def by simp_all
  show "retry_delays (snd (failing_round r s)) = [min (1000 * 2 ^ en_attempts (entry_at s r)) 60000]"
    unfolding f(2) snd_conv silent dial_def Let_def by (simp add: retry_delays_def)
  show "dials (snd (failing_round r s)) = [mq_brokerUrl (en_params (entry_at s r))]"
    unfolding f(2) snd_conv silent dial_def Let_def by (simp add: dials_def f(4))
qed

lemma retry_delays_append: "retry_delays (xs @ ys) = retry_delays xs @ retry_delays ys"
  and dials_append: "dials (xs @ ys) = dials xs @ dials ys"
  unfolding retry_delays_def dials_def by simp_all

text \<open>C18. A registered row whose dials keep failing is dialled again for ever: as often as its client
  closes and the timer this armed fires, however often, the row is dialled once more with its
  broker URL, and the waits are one second doubled with every consecutive failure and never more
  than a minute.\<close>

theorem retries_never_stop:
  assumes "dialling connId r s"
  shows "dialling connId r (fst (failing_rounds n r s))
    \<and> retry_delays (snd (failing_rounds n r s))
      = map (\<lambda>i. min (1000 * 2 ^ (en_attempts (entry_at s r) + i)) 60000) [0..<n]
    \<and> dials (snd (failing_rounds n r s)) = replicate n (mq_brokerUrl (en_params (entry_at s r)))"
  using assms
proof (induction n arbitrary: s)
  case 0
  then show ?case by (simp add: retry_delays_def dials_def)
next
  case (Suc n)
  note one = failing_round_facts [OF Suc.prems]
  note rest = Suc.IH [OF one(1)]
  have up: "[0..<Suc n] = 0 # map Suc [0..<n]"
    by (simp only: upt_conv_Cons [OF zero_less_Suc] map_Suc_upt)
  have "map (\<lambda>i. min (1000 * 2 ^ (a + i)) 60000) [0..<Suc n]
      = min (1000 * 2 ^ a) 60000 # map (\<lambda>i. min (1000 * 2 ^ (a + 1 + i)) (60000 :: nat)) [0..<n]" for a :: nat
    unfolding up by simp
  then show ?case using one rest
    by (simp add: fst_andThen snd_andThen retry_delays_append dials_append del: upt_Suc)
qed

definition broker_a :: MqttParams where
  "broker_a = \<lparr>mq_brokerUrl = ''mqtt://a'', mq_username = None, mq_password = None, mq_clientId = None\<rparr>"

definition broker_b :: MqttParams where
  "broker_b = \<lparr>mq_brokerUrl = ''mqtt://b'', mq_username = None, mq_password = None, mq_clientId = None\<rparr>"

lemmas pool_eval = empty_pool_def acquire_def open_entry_def reopen_def dial_def add_holder_def
  link_update_def link_release_def client_close_def client_connect_def scheduleRetry_def timer_fired_def
  redial_def discard_def redial_resumed_def resumed_def closeEntry_def new_entry_def set_add_def
  sameParams_def sameWill_def notify_def subscribeHolder_def subscription_of_def RETRY_BASE_MS_def RETRY_MAX_MS_def
  fst_andThen snd_andThen entry_at_def put_entry_def

theorem retries_never_stop_witness:
  "dials (snd (failing_rounds 8 0 (fst (step empty_pool (Acquire 7 broker_a None))))) = replicate 8 ''mqtt://a''"
proof -
  have "dialling 7 0 (fst (step empty_pool (Acquire 7 broker_a None)))"
    unfolding dialling_def by (simp add: pool_eval)
  from retries_never_stop [OF this, of 8, THEN conjunct2, THEN conjunct2]
  show ?thesis by (simp add: pool_eval broker_a_def)
qed

theorem dial_only_for_held_rows_witness:
  "\<exists>s' c url opts. Dial c url opts \<in> set (snd (step empty_pool (Acquire 7 broker_a None)))
     \<and> (\<exists>r h. h \<in> set (en_holders (entry_at s' r)) \<and> live_holder s' r h)"
proof -
  define s' where "s' = fst (step (fst (run_steps step empty_pool [])) (Acquire 7 broker_a None))"
  obtain c url opts where d: "Dial c url opts \<in> set (snd (step empty_pool (Acquire 7 broker_a None)))"
    by (simp add: pool_eval)
  then have "Dial c url opts \<in> set (snd (step (fst (run_steps step empty_pool [])) (Acquire 7 broker_a None)))" by simp
  from dial_only_for_held_rows [OF s'_def this] d show ?thesis by blast
qed

text \<open>
  What \<open>redial\<close> leaves behind: a retry timer that was pending when the row was edited still fires,
  dials a second client beside the one the edit opened, and nothing ever ends the first of the two,
  not even the release of the last holder.
\<close>

definition edit_while_retrying :: "event list" where
  "edit_while_retrying = [Acquire 7 broker_a None, ClientClose 1, Update 2 broker_b None, Resumed 4 True,
     ClientConnect 5 0, TimerFired 3, Release 2]"

lemma pending_retry_leaks_a_client:
  "dials (snd (run_steps step empty_pool edit_while_retrying)) = [''mqtt://a'', ''mqtt://b'', ''mqtt://b'']"
  "EndClient 1 \<in> set (snd (run_steps step empty_pool edit_while_retrying))"
  "EndClient 5 \<notin> set (snd (run_steps step empty_pool edit_while_retrying))"
  "EndClient 6 \<in> set (snd (run_steps step empty_pool edit_while_retrying))"
  unfolding edit_while_retrying_def
  by (simp_all add: pool_eval dials_def broker_a_def broker_b_def)

end
