(* ===== verification/Ev_Pull_In.thy ===== *)
theory Ev_Pull_In
  imports Peak_Shaving
begin

text \<open>
  \<^verbatim>\<open>apps/server/src/automation/ev-pull-in.ts\<close>: which EVCC loadpoints to borrow for a negative-price
  window, with the commands each still needs, and which to hand back.
\<close>

definition SINK_MODE :: string where "SINK_MODE = ''pv''"
definition BOOST_LIMIT_DISABLED :: number where "BOOST_LIMIT_DISABLED = 100"

record EvPullInInputs =
  ei_enabled :: bool
  ei_regime :: PriceRegime
  ei_evcc :: "EvccState option"
  ei_boostLimitPct :: number
  ei_heldLoadpoints :: "nat list"

record EvPullInClaim =
  ec_loadpoint :: nat
  ec_mode :: "string option"
  ec_boostLimitPct :: "number option"
  ec_boost :: "bool option"
  ec_remember :: "(string \<times> number) option"

record EvPullInRelease =
  er_loadpoint :: nat
  er_restoreMode :: bool

record EvPullInPlan =
  ep_claim :: "EvPullInClaim list"
  ep_release :: "EvPullInRelease list"

definition wantsSink :: "PriceRegime \<Rightarrow> bool" where
  "wantsSink regime \<longleftrightarrow> regime = RAbsorb \<or> regime = RSpendDown"

definition usable :: "EvccLoadpoint \<Rightarrow> bool" where
  "usable lp \<longleftrightarrow>
     (if \<not> lp_connected lp \<or> lp_mode lp = Some ''now'' then False
      else (case (lp_vehicleSoc lp, chargeStopSoc lp) of
          (Some soc, Some limit) \<Rightarrow> soc < limit
        | _ \<Rightarrow> True))"

definition wakeMode :: "EvccLoadpoint \<Rightarrow> string option" where
  "wakeMode lp = (if lp_mode lp = Some SINK_MODE \<or> lp_mode lp = Some ''minpv'' then None else Some SINK_MODE)"

definition originals :: "EvccLoadpoint \<Rightarrow> string \<times> number" where
  "originals lp = (case lp_mode lp of Some m \<Rightarrow> m | None \<Rightarrow> ''off'',
     case lp_batteryBoostLimit lp of Some l \<Rightarrow> l | None \<Rightarrow> BOOST_LIMIT_DISABLED)"

definition desired :: "EvccLoadpoint \<Rightarrow> EvPullInInputs \<Rightarrow> string option \<times> bool \<times> number option" where
  "desired lp i =
     (let boost = (ei_regime i = RSpendDown)
      in (wakeMode lp, boost, if boost then Some (ei_boostLimitPct i) else None))"

definition differing :: "'a option \<Rightarrow> 'a option \<Rightarrow> 'a option" where
  "differing want have = (if want = have then None else want)"

definition claimFor :: "EvccLoadpoint \<Rightarrow> EvPullInInputs \<Rightarrow> bool \<Rightarrow> EvPullInClaim option" where
  "claimFor lp i held =
     (case desired lp i of (mode, boost, limit) \<Rightarrow>
       let claim = \<lparr>ec_loadpoint = lp_index lp,
             ec_mode = differing mode (lp_mode lp),
             ec_boostLimitPct = differing limit (lp_batteryBoostLimit lp),
             ec_boost = differing (Some boost) (Some (lp_batteryBoost lp)),
             ec_remember = (if held then None else Some (originals lp))\<rparr>
       in if ec_mode claim = None \<and> ec_boostLimitPct claim = None \<and> ec_boost claim = None
          then None else Some claim)"

definition handBack :: "EvccLoadpoint list \<Rightarrow> nat list \<Rightarrow> nat list \<Rightarrow> EvPullInRelease list" where
  "handBack loadpoints held keep =
     map (\<lambda>n. \<lparr>er_loadpoint = n, er_restoreMode =
         (case find (\<lambda>l. lp_index l = n) loadpoints of None \<Rightarrow> True | Some lp \<Rightarrow> lp_mode lp = Some SINK_MODE)\<rparr>)
       (filter (\<lambda>n. n \<notin> set keep) held)"

definition visible_loadpoints :: "EvPullInInputs \<Rightarrow> EvccLoadpoint list" where
  "visible_loadpoints i = (case ei_evcc i of None \<Rightarrow> [] | Some s \<Rightarrow> if ev_reachable s then ev_loadpoints s else [])"

definition planEvPullIn :: "EvPullInInputs \<Rightarrow> EvPullInPlan" where
  "planEvPullIn i =
     (let loadpoints = visible_loadpoints i; held = set_adds (ei_heldLoadpoints i) []
      in if \<not> ei_enabled i \<or> \<not> wantsSink (ei_regime i)
         then \<lparr>ep_claim = [], ep_release = handBack loadpoints held []\<rparr>
         else let wanted = filter usable loadpoints
           in \<lparr>ep_claim = List.map_filter (\<lambda>lp. claimFor lp i (lp_index lp \<in> set held)) wanted,
               ep_release = handBack loadpoints held (map lp_index wanted)\<rparr>)"

subsection \<open>Convergence\<close>

text \<open>
  What the source documents of EVCC: a change of mode clears the boost, a boost is accepted in the
  PV modes only, and commands take effect in the order they are published.
\<close>

definition evcc_set_mode :: "string \<Rightarrow> EvccLoadpoint \<Rightarrow> EvccLoadpoint" where
  "evcc_set_mode m lp = (if lp_mode lp = Some m then lp else lp\<lparr>lp_mode := Some m, lp_batteryBoost := False\<rparr>)"

definition evcc_set_boost :: "bool \<Rightarrow> EvccLoadpoint \<Rightarrow> EvccLoadpoint" where
  "evcc_set_boost b lp = (if b \<and> lp_mode lp \<noteq> Some ''pv'' \<and> lp_mode lp \<noteq> Some ''minpv'' then lp
     else lp\<lparr>lp_batteryBoost := b\<rparr>)"

text \<open>The commands the engine publishes to borrow a loadpoint and to hand it back, in their order.\<close>

datatype EvccValue = EvText string | EvNumber number | EvFlag bool

definition claim_commands :: "EvPullInClaim \<Rightarrow> (string \<times> EvccValue) list" where
  "claim_commands c =
     (case ec_mode c of None \<Rightarrow> [] | Some m \<Rightarrow> [(''mode'', EvText m)])
     @ (case ec_boostLimitPct c of None \<Rightarrow> [] | Some l \<Rightarrow> [(''batteryBoostLimit'', EvNumber l)])
     @ (case ec_boost c of None \<Rightarrow> [] | Some b \<Rightarrow> [(''batteryBoost'', EvFlag b)])"

definition hand_back_commands :: "EvPullInRelease \<Rightarrow> string \<times> number \<Rightarrow> (string \<times> EvccValue) list" where
  "hand_back_commands r snap =
     [(''batteryBoost'', EvFlag False), (''batteryBoostLimit'', EvNumber (snd snap))]
     @ (if er_restoreMode r then [(''mode'', EvText (fst snap))] else [])"

definition evcc_obeys :: "string \<times> EvccValue \<Rightarrow> EvccLoadpoint \<Rightarrow> EvccLoadpoint" where
  "evcc_obeys cmd lp = (case cmd of
     (action, EvText m) \<Rightarrow> if action = ''mode'' then evcc_set_mode m lp else lp
   | (action, EvNumber l) \<Rightarrow> if action = ''batteryBoostLimit'' then lp\<lparr>lp_batteryBoostLimit := Some l\<rparr> else lp
   | (action, EvFlag b) \<Rightarrow> if action = ''batteryBoost'' then evcc_set_boost b lp else lp)"

definition claimed :: "EvPullInClaim \<Rightarrow> EvccLoadpoint \<Rightarrow> EvccLoadpoint" where
  "claimed c = fold evcc_obeys (claim_commands c)"

definition handed_back :: "EvPullInRelease \<Rightarrow> string \<times> number \<Rightarrow> EvccLoadpoint \<Rightarrow> EvccLoadpoint" where
  "handed_back r snap = fold evcc_obeys (hand_back_commands r snap)"

definition with_some :: "('a \<Rightarrow> 'b \<Rightarrow> 'b) \<Rightarrow> 'a option \<Rightarrow> 'b \<Rightarrow> 'b" where
  "with_some f v x = (case v of None \<Rightarrow> x | Some a \<Rightarrow> f a x)"

lemma claimed_steps: "claimed c lp = with_some evcc_set_boost (ec_boost c)
     (with_some (\<lambda>l x. x\<lparr>lp_batteryBoostLimit := Some l\<rparr>) (ec_boostLimitPct c)
       (with_some evcc_set_mode (ec_mode c) lp))"
  unfolding claimed_def claim_commands_def with_some_def evcc_obeys_def by (simp split: option.split)

lemma handed_back_steps: "handed_back r snap lp =
     (let off = (evcc_set_boost False lp)\<lparr>lp_batteryBoostLimit := Some (snd snap)\<rparr>
      in if er_restoreMode r then evcc_set_mode (fst snap) off else off)"
  unfolding handed_back_def hand_back_commands_def evcc_obeys_def Let_def by simp

definition ev_commanded :: "EvPullInPlan \<Rightarrow> (nat \<Rightarrow> string \<times> number) \<Rightarrow> EvccLoadpoint \<Rightarrow> EvccLoadpoint" where
  "ev_commanded p snaps lp =
     (case find (\<lambda>c. ec_loadpoint c = lp_index lp) (ep_claim p) of
        Some c \<Rightarrow> claimed c lp
      | None \<Rightarrow> (case find (\<lambda>r. er_loadpoint r = lp_index lp) (ep_release p) of
            Some r \<Rightarrow> handed_back r (snaps (lp_index lp)) lp
          | None \<Rightarrow> lp))"

text \<open>The next tick's inputs once every command of a plan has taken effect.\<close>

definition after_plan :: "EvPullInInputs \<Rightarrow> (nat \<Rightarrow> string \<times> number) \<Rightarrow> EvPullInInputs" where
  "after_plan i snaps =
     (let p = planEvPullIn i
      in i\<lparr>ei_evcc := map_option (\<lambda>s. s\<lparr>ev_loadpoints := map (ev_commanded p snaps) (ev_loadpoints s)\<rparr>) (ei_evcc i),
           ei_heldLoadpoints := filter (\<lambda>n. n \<notin> er_loadpoint ` set (ep_release p)) (ei_heldLoadpoints i)
             @ map ec_loadpoint (filter (\<lambda>c. ec_remember c \<noteq> None) (ep_claim p))\<rparr>)"

lemma commands_keep_index:
  "lp_index (claimed c lp) = lp_index lp" "lp_index (handed_back r s lp) = lp_index lp"
  "lp_index (ev_commanded p snaps lp) = lp_index lp"
  unfolding claimed_steps handed_back_steps ev_commanded_def with_some_def evcc_set_mode_def evcc_set_boost_def Let_def
  by (auto split: option.split)

lemma commands_keep_car:
  "lp_connected (claimed c lp) = lp_connected lp" "lp_vehicleSoc (claimed c lp) = lp_vehicleSoc lp"
  "chargeStopSoc (claimed c lp) = chargeStopSoc lp"
  "lp_connected (handed_back r s lp) = lp_connected lp" "lp_vehicleSoc (handed_back r s lp) = lp_vehicleSoc lp"
  "chargeStopSoc (handed_back r s lp) = chargeStopSoc lp"
  unfolding claimed_steps handed_back_steps with_some_def evcc_set_mode_def evcc_set_boost_def Let_def
    chargeStopSoc_def positive_limits_def
  by (simp_all split: option.split)

definition settled :: "EvccLoadpoint \<Rightarrow> EvPullInInputs \<Rightarrow> bool" where
  "settled lp i \<longleftrightarrow> (lp_mode lp = Some ''pv'' \<or> lp_mode lp = Some ''minpv'')
     \<and> (lp_batteryBoost lp \<longleftrightarrow> ei_regime i = RSpendDown)
     \<and> (ei_regime i = RSpendDown \<longrightarrow> lp_batteryBoostLimit lp = Some (ei_boostLimitPct i))"

lemma claimFor_None: "claimFor lp i held = None \<longleftrightarrow> settled lp i"
  unfolding claimFor_def desired_def differing_def wakeMode_def SINK_MODE_def Let_def settled_def
  by (cases "ei_regime i = RSpendDown") auto

text \<open>EVCC reports a boost in the PV modes only.\<close>

definition consistent :: "EvccLoadpoint \<Rightarrow> bool" where
  "consistent lp \<longleftrightarrow> lp_batteryBoost lp \<longrightarrow> lp_mode lp = Some ''pv'' \<or> lp_mode lp = Some ''minpv''"

lemma claimed_settled:
  assumes "claimFor lp i held = Some c" and con: "consistent lp"
  shows "settled (claimed c lp) i"
proof -
  have c: "c = \<lparr>ec_loadpoint = lp_index lp, ec_mode = differing (wakeMode lp) (lp_mode lp),
      ec_boostLimitPct = differing (if ei_regime i = RSpendDown then Some (ei_boostLimitPct i) else None) (lp_batteryBoostLimit lp),
      ec_boost = differing (Some (ei_regime i = RSpendDown)) (Some (lp_batteryBoost lp)),
      ec_remember = (if held then None else Some (originals lp))\<rparr>"
    using assms unfolding claimFor_def desired_def Let_def by (auto split: if_splits)
  define lp1 where "lp1 = with_some evcc_set_mode (ec_mode c) lp"
  define lp2 where "lp2 = with_some (\<lambda>l x. x\<lparr>lp_batteryBoostLimit := Some l\<rparr>) (ec_boostLimitPct c) lp1"
  have m1: "lp_mode lp1 = Some ''pv'' \<or> lp_mode lp1 = Some ''minpv''"
    unfolding lp1_def c by (auto simp: differing_def wakeMode_def SINK_MODE_def with_some_def evcc_set_mode_def)
  have l1: "lp_batteryBoostLimit lp1 = lp_batteryBoostLimit lp"
    unfolding lp1_def with_some_def evcc_set_mode_def by (simp split: option.split)
  have b1: "lp_batteryBoost lp1 = lp_batteryBoost lp"
    using con unfolding lp1_def c consistent_def
    by (auto simp: differing_def wakeMode_def SINK_MODE_def with_some_def evcc_set_mode_def)
  have m2: "lp_mode lp2 = lp_mode lp1" and b2: "lp_batteryBoost lp2 = lp_batteryBoost lp1"
    unfolding lp2_def with_some_def by (simp_all split: option.split)
  have l2: "ei_regime i = RSpendDown \<longrightarrow> lp_batteryBoostLimit lp2 = Some (ei_boostLimitPct i)"
    unfolding lp2_def c with_some_def differing_def using l1 by (simp split: option.split)
  show ?thesis
    unfolding claimed_steps lp1_def [symmetric] lp2_def [symmetric] settled_def
    using m1 m2 b2 b1 l2 unfolding c
    by (auto simp: with_some_def evcc_set_boost_def differing_def)
qed

lemma claimFor_loadpoint: "claimFor lp i held = Some c \<Longrightarrow> ec_loadpoint c = lp_index lp"
  unfolding claimFor_def desired_def Let_def by (auto split: if_splits)

definition wants_energy :: "number option \<Rightarrow> number option \<Rightarrow> bool" where
  "wants_energy soc limit = (case (soc, limit) of (Some s, Some l) \<Rightarrow> s < l | _ \<Rightarrow> True)"

lemma usable_alt: "usable lp \<longleftrightarrow> lp_connected lp \<and> lp_mode lp \<noteq> Some ''now''
    \<and> wants_energy (lp_vehicleSoc lp) (chargeStopSoc lp)"
  unfolding usable_def wants_energy_def by auto

lemma claimed_usable:
  assumes "usable lp" and "claimFor lp i held = Some c" and "consistent lp"
  shows "usable (claimed c lp)"
proof -
  have "lp_mode (claimed c lp) \<noteq> Some ''now''"
    using claimed_settled [OF assms(2) assms(3)] unfolding settled_def by auto
  then show ?thesis using assms(1) unfolding usable_alt commands_keep_car by blast
qed

lemma find_index:
  assumes "distinct (map lp_index lps)" and "lp \<in> set lps"
  shows "find (\<lambda>l. lp_index l = lp_index lp) lps = Some lp"
  using assms by (induction lps) auto

lemma map_filter_index:
  assumes "\<And>l c. f l = Some c \<Longrightarrow> ec_loadpoint c = lp_index l" and "n \<notin> lp_index ` set lps"
  shows "find (\<lambda>c. ec_loadpoint c = n) (List.map_filter f lps) = None"
proof -
  have "ec_loadpoint c \<noteq> n" if "c \<in> set (List.map_filter f lps)" for c
  proof -
    from that obtain l where "l \<in> set lps" "f l = Some c" by (auto simp: List.map_filter_def)
    then show ?thesis using assms by (metis image_eqI)
  qed
  then show ?thesis unfolding find_None_iff by blast
qed

lemma find_claim:
  assumes dis: "distinct (map lp_index lps)" and lp: "lp \<in> set lps"
    and loc: "\<And>l c. f l = Some c \<Longrightarrow> ec_loadpoint c = lp_index l"
  shows "find (\<lambda>c. ec_loadpoint c = lp_index lp) (List.map_filter f lps) = f lp"
  using dis lp
proof (induction lps)
  case Nil
  then show ?case by simp
next
  case (Cons l lps)
  have other: "find (\<lambda>c. ec_loadpoint c = lp_index lp) (List.map_filter f lps) = None"
    if "lp_index lp \<notin> set (map lp_index lps)"
    using map_filter_index [of f "lp_index lp" lps] that loc by simp
  show ?case
  proof (cases "l = lp")
    case True
    then show ?thesis using Cons.prems(1) other loc [of lp]
      by (cases "f lp") (auto simp: map_filter_simps)
  next
    case False
    then have lp: "lp \<in> set lps" using Cons.prems(2) by simp
    then have "lp_index l \<noteq> lp_index lp" using Cons.prems(1) by auto
    then show ?thesis using Cons.IH lp Cons.prems(1) loc [of l]
      by (cases "f l") (auto simp: map_filter_simps)
  qed
qed

lemma handBack_held: "er_loadpoint ` set (handBack lps held keep) = set held - set keep"
  unfolding handBack_def by force

lemma handBack_nil: "set held \<subseteq> set keep \<Longrightarrow> handBack lps held keep = []"
  unfolding handBack_def by (auto simp: filter_empty_conv)

lemma handed_back_unusable:
  assumes "\<not> usable lp" and "er_restoreMode r \<longrightarrow> lp_mode lp = Some SINK_MODE"
  shows "\<not> usable (handed_back r snap lp)"
proof -
  have "\<not> er_restoreMode r \<Longrightarrow> lp_mode (handed_back r snap lp) = lp_mode lp"
    unfolding handed_back_steps evcc_set_boost_def Let_def by simp
  then show ?thesis using assms unfolding usable_alt commands_keep_car SINK_MODE_def by auto
qed

lemma plan_carried_out:
  assumes ids: "distinct (map lp_index (visible_loadpoints i))"
    and con: "\<forall>lp\<in>set (visible_loadpoints i). consistent lp"
  shows "planEvPullIn (after_plan i snaps) = \<lparr>ep_claim = [], ep_release = []\<rparr>"
proof -
  define p where "p = planEvPullIn i"
  define lps where "lps = visible_loadpoints i"
  define held where "held = set_adds (ei_heldLoadpoints i) []"
  define j where "j = after_plan i snaps"
  have j: "ei_enabled j = ei_enabled i" "ei_regime j = ei_regime i" "ei_boostLimitPct j = ei_boostLimitPct i"
    "visible_loadpoints j = map (ev_commanded p snaps) lps"
    "set (ei_heldLoadpoints j) = (set held - er_loadpoint ` set (ep_release p))
       \<union> ec_loadpoint ` {c \<in> set (ep_claim p). ec_remember c \<noteq> None}"
    unfolding j_def after_plan_def p_def Let_def lps_def visible_loadpoints_def held_def
    by (auto split: option.split)
  show ?thesis
  proof (cases "ei_enabled i \<and> wantsSink (ei_regime i)")
    case False
    then have p: "ep_claim p = []" "ep_release p = handBack lps held []"
      unfolding p_def planEvPullIn_def held_def lps_def by (auto simp: Let_def)
    have "set (ei_heldLoadpoints j) = {}" unfolding j(5) p handBack_held by simp
    then show ?thesis using False unfolding j_def [symmetric] planEvPullIn_def Let_def j(1) j(2)
      by (simp add: set_adds_def handBack_def)
  next
    case True
    define claim where "claim lp = claimFor lp i (lp_index lp \<in> set held)" for lp
    define wanted where "wanted = filter usable lps"
    have p: "ep_claim p = List.map_filter claim wanted" "ep_release p = handBack lps held (map lp_index wanted)"
      using True unfolding p_def planEvPullIn_def held_def lps_def wanted_def claim_def by (auto simp: Let_def)
    have dis: "distinct (map lp_index lps)" "distinct (map lp_index wanted)"
      using ids unfolding lps_def wanted_def by (auto intro: distinct_map_filter)
    have now: "ev_commanded p snaps lp = (case claim lp of Some c \<Rightarrow> claimed c lp | None \<Rightarrow> lp)"
      if w: "lp \<in> set wanted" for lp
    proof -
      have "find (\<lambda>c. ec_loadpoint c = lp_index lp) (ep_claim p) = claim lp"
        unfolding p by (rule find_claim [OF dis(2) w]) (auto simp: claim_def intro: claimFor_loadpoint)
      moreover have "find (\<lambda>r. er_loadpoint r = lp_index lp) (ep_release p) = None"
        unfolding p find_None_iff using w by (auto simp: handBack_def)
      ultimately show ?thesis unfolding ev_commanded_def by (simp split: option.split)
    qed
    have good: "usable (ev_commanded p snaps lp) \<and> settled (ev_commanded p snaps lp) i" if w: "lp \<in> set wanted" for lp
    proof -
      have lp: "usable lp" "consistent lp" using w con unfolding wanted_def lps_def by auto
      show ?thesis
      proof (cases "claim lp")
        case None
        then have "settled lp i" unfolding claim_def claimFor_None .
        then show ?thesis using lp(1) unfolding now [OF w] None by simp
      next
        case (Some c)
        note c = this [unfolded claim_def]
        show ?thesis using claimed_usable [OF lp(1) c lp(2)] claimed_settled [OF c lp(2)]
          unfolding now [OF w] Some by simp
      qed
    qed
    have bad: "\<not> usable (ev_commanded p snaps lp)" if lp: "lp \<in> set lps" "\<not> usable lp" for lp
    proof -
      have "lp_index lp \<notin> lp_index ` set wanted"
        using lp dis(1) unfolding wanted_def by (auto simp: distinct_map inj_on_def)
      then have none: "find (\<lambda>c. ec_loadpoint c = lp_index lp) (ep_claim p) = None"
        unfolding p claim_def by (intro map_filter_index) (rule claimFor_loadpoint)
      show ?thesis
      proof (cases "find (\<lambda>r. er_loadpoint r = lp_index lp) (ep_release p)")
        case None
        then show ?thesis using none lp(2) unfolding ev_commanded_def by simp
      next
        case (Some r)
        then have "r \<in> set (ep_release p)" "er_loadpoint r = lp_index lp" by (auto simp: find_Some_iff)
        then have "er_restoreMode r \<longrightarrow> lp_mode lp = Some SINK_MODE"
          using find_index [OF dis(1) lp(1)] unfolding p handBack_def by auto
        then show ?thesis using handed_back_unusable [OF lp(2)] none Some unfolding ev_commanded_def by simp
      qed
    qed
    have keep: "filter usable (map (ev_commanded p snaps) lps) = map (ev_commanded p snaps) wanted"
      unfolding wanted_def filter_map comp_def using good bad
      by (intro arg_cong [where f = "map (ev_commanded p snaps)"] filter_cong) (auto simp: wanted_def)
    have quiet: "List.map_filter (\<lambda>lp. claimFor lp j (lp_index lp \<in> h)) (map (ev_commanded p snaps) wanted) = []" for h
    proof -
      have "claimFor (ev_commanded p snaps lp) j b = None" if "lp \<in> set wanted" for lp b
        unfolding claimFor_None using good [OF that] unfolding settled_def j by blast
      then show ?thesis unfolding List.map_filter_def by (auto simp: filter_empty_conv)
    qed
    have "set (ei_heldLoadpoints j) \<subseteq> lp_index ` set wanted"
      unfolding j(5) p handBack_held claim_def by (auto simp: List.map_filter_def claimFor_loadpoint)
    then have none_back: "handBack (map (ev_commanded p snaps) lps) (set_adds (ei_heldLoadpoints j) [])
        (map lp_index (map (ev_commanded p snaps) wanted)) = []"
      by (intro handBack_nil) (auto simp: commands_keep_index)
    show ?thesis unfolding j_def [symmetric] planEvPullIn_def Let_def j(1) j(2) j(4) keep quiet
      using True none_back by (simp add: comp_def)
  qed
qed

lemma claimed_mode: "ec_mode c = differing (wakeMode lp) (lp_mode lp) \<Longrightarrow>
    lp_mode (claimed c lp) = (if wakeMode lp = None then lp_mode lp else Some SINK_MODE)"
  unfolding claimed_steps with_some_def evcc_set_boost_def evcc_set_mode_def differing_def wakeMode_def
  by (auto split: option.split)

lemma claimed_touches: "claimed c lp = lp\<lparr>lp_mode := lp_mode (claimed c lp), lp_batteryBoost := lp_batteryBoost (claimed c lp),
    lp_batteryBoostLimit := lp_batteryBoostLimit (claimed c lp)\<rparr>"
  unfolding claimed_steps with_some_def evcc_set_boost_def evcc_set_mode_def by (simp split: option.split)

text \<open>What the user had: the mode (\<open>off\<close> when EVCC reports none), the boost limit, and no boost.\<close>

definition as_found :: "EvccLoadpoint \<Rightarrow> EvccLoadpoint" where
  "as_found lp = lp\<lparr>lp_mode := Some (case lp_mode lp of Some m \<Rightarrow> m | None \<Rightarrow> ''off''), lp_batteryBoost := False,
     lp_batteryBoostLimit := Some (case lp_batteryBoostLimit lp of Some l \<Rightarrow> l | None \<Rightarrow> 100)\<rparr>"

lemma borrowed_handed_back:
  assumes "claimFor lp i held = Some c" and "er_restoreMode r \<longleftrightarrow> lp_mode (claimed c lp) = Some ''pv''"
  shows "handed_back r (originals lp) (claimed c lp) = as_found lp"
proof -
  have "ec_mode c = differing (wakeMode lp) (lp_mode lp)"
    using assms(1) unfolding claimFor_def desired_def Let_def by (auto split: if_splits)
  then have m: "lp_mode (claimed c lp) = (if wakeMode lp = None then lp_mode lp else Some ''pv'')"
    using claimed_mode unfolding SINK_MODE_def by blast
  have snap: "originals lp = (case lp_mode lp of Some m \<Rightarrow> m | None \<Rightarrow> ''off'',
      case lp_batteryBoostLimit lp of Some l \<Rightarrow> l | None \<Rightarrow> 100)"
    unfolding originals_def BOOST_LIMIT_DISABLED_def by simp
  obtain b l where cl: "claimed c lp = lp\<lparr>lp_mode := lp_mode (claimed c lp), lp_batteryBoost := b, lp_batteryBoostLimit := l\<rparr>"
    using claimed_touches by blast
  show ?thesis unfolding handed_back_steps Let_def assms(2) m
    by (subst (1 2) cl, unfold m)
      (auto simp: snap as_found_def evcc_set_boost_def evcc_set_mode_def wakeMode_def SINK_MODE_def split: if_splits)
qed

text \<open>The snapshots once a plan's claims have been remembered, as the engine stores them.\<close>

definition remembered :: "EvPullInPlan \<Rightarrow> (nat \<Rightarrow> string \<times> number) \<Rightarrow> nat \<Rightarrow> string \<times> number" where
  "remembered p snaps n = (case find (\<lambda>c. ec_loadpoint c = n) (ep_claim p) of
     None \<Rightarrow> snaps n
   | Some c \<Rightarrow> (case ec_remember c of None \<Rightarrow> snaps n | Some snap \<Rightarrow> snap))"

text \<open>The next tick with the pull-in switched off: what the cars of a plan become.\<close>

lemma hand_back_restores:
  assumes ids: "distinct (map lp_index (visible_loadpoints i))" and lp: "lp \<in> set (visible_loadpoints i)"
    and new: "lp_index lp \<notin> set (ei_heldLoadpoints i)"
  shows "ev_commanded (planEvPullIn ((after_plan i snaps)\<lparr>ei_enabled := False\<rparr>)) (remembered (planEvPullIn i) snaps)
      (ev_commanded (planEvPullIn i) snaps lp)
    = (if find (\<lambda>c. ec_loadpoint c = lp_index lp) (ep_claim (planEvPullIn i)) = None then lp else as_found lp)"
proof -
  define p where "p = planEvPullIn i"
  define lps where "lps = visible_loadpoints i"
  define held where "held = set_adds (ei_heldLoadpoints i) []"
  define j where "j = (after_plan i snaps)\<lparr>ei_enabled := False\<rparr>"
  have vis: "visible_loadpoints j = map (ev_commanded p snaps) lps"
    and held_j: "set (ei_heldLoadpoints j) = (set held - er_loadpoint ` set (ep_release p))
       \<union> ec_loadpoint ` {c \<in> set (ep_claim p). ec_remember c \<noteq> None}"
    unfolding j_def after_plan_def p_def Let_def lps_def visible_loadpoints_def held_def
    by (auto split: option.split)
  have pj: "ep_claim (planEvPullIn j) = []"
    "ep_release (planEvPullIn j) = handBack (map (ev_commanded p snaps) lps) (set_adds (ei_heldLoadpoints j) []) []"
    unfolding planEvPullIn_def Let_def vis by (simp_all add: j_def)
  have new': "lp_index lp \<notin> set held" using new unfolding held_def by simp
  have rel_none: "find (\<lambda>r. er_loadpoint r = lp_index lp) (ep_release p) = None"
    using new' unfolding p_def planEvPullIn_def find_None_iff held_def handBack_def Let_def by auto
  have at_i: "ev_commanded p snaps lp = (case find (\<lambda>c. ec_loadpoint c = lp_index lp) (ep_claim p) of
      Some c \<Rightarrow> claimed c lp | None \<Rightarrow> lp)"
    unfolding ev_commanded_def rel_none by (simp split: option.split)
  show ?thesis unfolding p_def [symmetric] j_def [symmetric]
  proof (cases "find (\<lambda>c. ec_loadpoint c = lp_index lp) (ep_claim p)")
    case None
    then have "lp_index lp \<notin> set (ei_heldLoadpoints j)" using new' unfolding held_j find_None_iff by auto
    then have "find (\<lambda>r. er_loadpoint r = lp_index lp) (ep_release (planEvPullIn j)) = None"
      unfolding pj find_None_iff handBack_def by auto
    then show "ev_commanded (planEvPullIn j) (remembered p snaps) (ev_commanded p snaps lp)
      = (if find (\<lambda>c. ec_loadpoint c = lp_index lp) (ep_claim p) = None then lp else as_found lp)"
      unfolding at_i None by (simp add: ev_commanded_def pj)
  next
    case (Some c)
    then have inp: "c \<in> set (ep_claim p)" and idx: "ec_loadpoint c = lp_index lp" by (auto simp: find_Some_iff)
    then obtain lp' where lp': "lp' \<in> set lps" "claimFor lp' i (lp_index lp' \<in> set held) = Some c"
      unfolding p_def planEvPullIn_def lps_def held_def Let_def by (auto simp: List.map_filter_def split: if_splits)
    have "lp' = lp"
    proof -
      have "lp_index lp' = lp_index lp" using claimFor_loadpoint [OF lp'(2)] idx by simp
      then show ?thesis using ids lp lp'(1) unfolding lps_def distinct_map inj_on_def by blast
    qed
    note c = lp'(2) [unfolded this]
    have rem: "ec_remember c = Some (originals lp)"
      using c new' unfolding claimFor_def desired_def Let_def by (auto split: if_splits)
    have at: "ev_commanded p snaps lp = claimed c lp" unfolding at_i Some by simp
    have "lp_index lp \<in> set (ei_heldLoadpoints j)" unfolding held_j using inp idx rem by force
    then have held_now: "lp_index lp \<in> set (set_adds (ei_heldLoadpoints j) [])" by simp
    have dis: "distinct (map lp_index (map (ev_commanded p snaps) lps))"
      using ids unfolding lps_def by (simp add: commands_keep_index comp_def)
    have mem: "claimed c lp \<in> set (map (ev_commanded p snaps) lps)" using lp at unfolding lps_def by force
    have seen: "find (\<lambda>l. lp_index l = lp_index lp) (map (ev_commanded p snaps) lps) = Some (claimed c lp)"
      using find_index [OF dis mem] by (simp add: commands_keep_index)
    obtain r where r: "find (\<lambda>r. er_loadpoint r = lp_index lp) (ep_release (planEvPullIn j)) = Some r"
      using held_now unfolding pj handBack_def
      by (cases "find (\<lambda>r. er_loadpoint r = lp_index lp) (ep_release (planEvPullIn j))")
        (auto simp: pj handBack_def find_None_iff)
    then have "r \<in> set (ep_release (planEvPullIn j))" "er_loadpoint r = lp_index lp" by (auto simp: find_Some_iff)
    then have "er_restoreMode r \<longleftrightarrow> lp_mode (claimed c lp) = Some ''pv''"
      using seen unfolding pj handBack_def SINK_MODE_def by auto
    from borrowed_handed_back [OF c this]
    show "ev_commanded (planEvPullIn j) (remembered p snaps) (ev_commanded p snaps lp)
      = (if find (\<lambda>c. ec_loadpoint c = lp_index lp) (ep_claim p) = None then lp else as_found lp)"
      using r Some unfolding at
      by (simp add: ev_commanded_def pj(1) commands_keep_index remembered_def rem)
  qed
qed

text \<open>C21. Commanding the chargers converges and is undone. Once EVCC has carried out a plan's commands,
  with the rules the source documents of it, the same plant under the same regime gets no further
  command, neither to claim nor to hand back, whatever values were handed back. And if the pull-in
  is then switched off, the commands of that tick's plan leave every car claimed by the plan that
  was not held before with the mode and boost limit it was found with and no boost, and every car
  neither claimed nor held as it was. Two loadpoints are assumed not to share an index, and EVCC to
  report a boost in the PV modes only.\<close>

theorem ev_plan_converges:
  assumes ids: "distinct (map lp_index (visible_loadpoints i))"
    and con: "\<forall>lp\<in>set (visible_loadpoints i). consistent lp"
  shows "planEvPullIn (after_plan i snaps) = \<lparr>ep_claim = [], ep_release = []\<rparr>
    \<and> (\<forall>lp\<in>set (visible_loadpoints i). lp_index lp \<notin> set (ei_heldLoadpoints i) \<longrightarrow>
        ev_commanded (planEvPullIn ((after_plan i snaps)\<lparr>ei_enabled := False\<rparr>)) (remembered (planEvPullIn i) snaps)
          (ev_commanded (planEvPullIn i) snaps lp)
        = (if find (\<lambda>c. ec_loadpoint c = lp_index lp) (ep_claim (planEvPullIn i)) = None then lp else as_found lp))"
  using plan_carried_out [OF assms] hand_back_restores [OF ids] by blast

definition idle_car :: EvccLoadpoint where
  "idle_car = \<lparr>lp_index = 1, lp_title = None, lp_mode = Some ''off'', lp_chargePower = 0, lp_chargePowerLive = 0,
     lp_chargePowerSource = ''reported'', lp_charging = False, lp_connected = True, lp_vehicleSoc = Some 40,
     lp_vehicleRange = None, lp_vehicleTitle = None, lp_vehicleName = None, lp_sessionEnergy = None,
     lp_chargeRemainingEnergy = None, lp_limitSoc = None, lp_effectiveLimitSoc = Some 80, lp_vehicleLimitSoc = None,
     lp_batteryBoost = False, lp_batteryBoostLimit = Some 100, lp_vehicleCapacityKwh = None, lp_phasesActive = None\<rparr>"

definition spend_down :: EvPullInInputs where
  "spend_down = \<lparr>ei_enabled = True, ei_regime = RSpendDown,
     ei_evcc = Some \<lparr>ev_reachable = True, ev_loadpoints = [idle_car], ev_subtractFromHome = False\<rparr>,
     ei_boostLimitPct = 10, ei_heldLoadpoints = []\<rparr>"

theorem ev_plan_converges_witness:
  "ep_claim (planEvPullIn spend_down) = [\<lparr>ec_loadpoint = 1, ec_mode = Some ''pv'', ec_boostLimitPct = Some 10,
       ec_boost = Some True, ec_remember = Some (''off'', 100)\<rparr>]
   \<and> planEvPullIn (after_plan spend_down (\<lambda>_. (''off'', 100))) = \<lparr>ep_claim = [], ep_release = []\<rparr>
   \<and> ev_commanded (planEvPullIn ((after_plan spend_down (\<lambda>_. (''now'', 7)))\<lparr>ei_enabled := False\<rparr>))
       (remembered (planEvPullIn spend_down) (\<lambda>_. (''now'', 7)))
       (ev_commanded (planEvPullIn spend_down) (\<lambda>_. (''now'', 7)) idle_car) = idle_car"
proof (intro conjI)
  show "ep_claim (planEvPullIn spend_down) = [\<lparr>ec_loadpoint = 1, ec_mode = Some ''pv'', ec_boostLimitPct = Some 10,
       ec_boost = Some True, ec_remember = Some (''off'', 100)\<rparr>]"
    by code_simp
  have "distinct (map lp_index (visible_loadpoints spend_down))"
    "\<forall>lp\<in>set (visible_loadpoints spend_down). consistent lp"
    by (simp_all add: visible_loadpoints_def spend_down_def consistent_def idle_car_def)
  note now = ev_plan_converges [OF this]
  then show "planEvPullIn (after_plan spend_down (\<lambda>_. (''off'', 100))) = \<lparr>ep_claim = [], ep_release = []\<rparr>" by blast
  have car: "idle_car \<in> set (visible_loadpoints spend_down)" "lp_index idle_car \<notin> set (ei_heldLoadpoints spend_down)"
    by (simp_all add: visible_loadpoints_def spend_down_def)
  have "find (\<lambda>c. ec_loadpoint c = lp_index idle_car) (ep_claim (planEvPullIn spend_down)) \<noteq> None" by code_simp
  moreover have "as_found idle_car = idle_car" by (simp add: as_found_def idle_car_def)
  ultimately show "ev_commanded (planEvPullIn ((after_plan spend_down (\<lambda>_. (''now'', 7)))\<lparr>ei_enabled := False\<rparr>))
       (remembered (planEvPullIn spend_down) (\<lambda>_. (''now'', 7)))
       (ev_commanded (planEvPullIn spend_down) (\<lambda>_. (''now'', 7)) idle_car) = idle_car"
    using now [THEN conjunct2, rule_format, OF car, of "\<lambda>_. (''now'', 7)"] by simp
qed

end
