(* ===== verification/Automation_State.thy ===== *)
theory Automation_State
  imports Prelude
begin

text \<open>
  \<^verbatim>\<open>packages/db/src/automation-state.ts\<close>: what an automation holds, a map from slots to the value
  to hand back, with the one-time re-key of a stored map from profiles to devices. \<open>capturedAt\<close> is
  the instant its text denotes.
\<close>

datatype SnapshotValue = RegisterValue number | TextValue string

record AutomationSnapshot =
  as_previousValue :: SnapshotValue
  as_capturedAt :: millis

type_synonym AutomationState = "(string, AutomationSnapshot) js_map"

definition defaultAutomationState :: AutomationState where "defaultAutomationState = []"

definition numericSnapshot :: "SnapshotValue option \<Rightarrow> number option" where
  "numericSnapshot v = (case v of Some (RegisterValue x) \<Rightarrow> Some x | _ \<Rightarrow> None)"

subsection \<open>Slots\<close>

text \<open>A loadpoint index as JavaScript prints it, and \<open>Number\<close> of such a text (\<open>0\<close> for the empty one).\<close>

definition digit_char :: "nat \<Rightarrow> char" where "digit_char d = char_of (48 + d)"

definition char_digit :: "char \<Rightarrow> nat option" where
  "char_digit c = (let n = of_char c :: nat in if 48 \<le> n \<and> n \<le> 57 then Some (n - 48) else None)"

fun nat_text :: "nat \<Rightarrow> string" where
  "nat_text n = (if n < 10 then [digit_char n] else nat_text (n div 10) @ [digit_char (n mod 10)])"

declare nat_text.simps [simp del]

definition text_nat :: "string \<Rightarrow> nat option" where
  "text_nat s = fold (\<lambda>c acc. case (acc, char_digit c) of
     (Some n, Some d) \<Rightarrow> Some (n * 10 + d) | _ \<Rightarrow> None) s (Some 0)"

lemma char_digit_char [simp]: "d < 10 \<Longrightarrow> char_digit (digit_char d) = Some d"
  unfolding char_digit_def digit_char_def Let_def by (simp add: of_char_of take_bit_eq_mod)

lemma text_nat_text [simp]: "text_nat (nat_text n) = Some n"
proof (induction n rule: nat_text.induct)
  case (1 n)
  then show ?case by (subst nat_text.simps) (auto simp: text_nat_def)
qed

lemma nat_text_inject [simp]: "nat_text m = nat_text n \<longleftrightarrow> m = n"
  by (metis option.inject text_nat_text)

definition automationStateKey :: "string \<Rightarrow> string \<Rightarrow> string" where
  "automationStateKey deviceId automationId = deviceId @ '':'' @ automationId"

definition evcc_mode_prefix :: "string \<Rightarrow> string" where "evcc_mode_prefix deviceId = deviceId @ '':evccMode:''"

definition evccModeStateKey :: "string \<Rightarrow> nat \<Rightarrow> string" where
  "evccModeStateKey deviceId loadpoint = evcc_mode_prefix deviceId @ nat_text loadpoint"

definition evccBoostLimitStateKey :: "string \<Rightarrow> nat \<Rightarrow> string" where
  "evccBoostLimitStateKey deviceId loadpoint = deviceId @ '':evccBoostLimit:'' @ nat_text loadpoint"

lemma slot_keys_distinct:
  "evccModeStateKey d n = evccModeStateKey d m \<longleftrightarrow> n = m"
  "evccBoostLimitStateKey d n = evccBoostLimitStateKey d m \<longleftrightarrow> n = m"
  "evccModeStateKey d n \<noteq> evccBoostLimitStateKey d m"
  unfolding evccModeStateKey_def evccBoostLimitStateKey_def evcc_mode_prefix_def by simp_all

subsection \<open>The re-key\<close>

record DeviceProfileBinding =
  pb_deviceId :: string
  pb_profileId :: string

record AutomationStateMigration =
  sm_state :: AutomationState
  sm_changed :: bool
  sm_orphans :: "string list"

definition namespace_of :: "string \<Rightarrow> string" where "namespace_of key = takeWhile (\<lambda>c. c \<noteq> CHR '':'') key"
definition rest_of :: "string \<Rightarrow> string" where "rest_of key = dropWhile (\<lambda>c. c \<noteq> CHR '':'') key"

definition owners_of :: "DeviceProfileBinding list \<Rightarrow> string \<Rightarrow> string list" where
  "owners_of bindings profile = map pb_deviceId (filter (\<lambda>b. pb_profileId b = profile) bindings)"

definition adoptedKey :: "string \<Rightarrow> DeviceProfileBinding list \<Rightarrow> string option" where
  "adoptedKey key bindings =
     (if rest_of key = [] then None
      else if namespace_of key \<in> set (map pb_deviceId bindings) then Some key
      else (case owners_of bindings (namespace_of key) of
          [d] \<Rightarrow> Some (d @ rest_of key)
        | _ \<Rightarrow> None))"

definition rekey_entry ::
  "AutomationState \<Rightarrow> DeviceProfileBinding list \<Rightarrow> string \<times> AutomationSnapshot
     \<Rightarrow> AutomationState \<times> string list \<times> bool \<Rightarrow> AutomationState \<times> string list \<times> bool" where
  "rekey_entry state bindings entry acc = (case (entry, acc) of ((key, snapshot), (nxt, orphans, changed)) \<Rightarrow>
     (case adoptedKey key bindings of
        None \<Rightarrow> (js_set key snapshot nxt, orphans @ [key], changed)
      | Some adopted \<Rightarrow>
          if adopted \<noteq> key \<and> js_get state adopted \<noteq> None
          then (js_set key snapshot nxt, orphans @ [key], changed)
          else (js_set adopted snapshot nxt, orphans, changed \<or> adopted \<noteq> key)))"

definition migrateAutomationState ::
  "AutomationState \<Rightarrow> DeviceProfileBinding list \<Rightarrow> AutomationStateMigration" where
  "migrateAutomationState state bindings =
     (case fold (rekey_entry state bindings) state ([], [], False) of (nxt, orphans, changed) \<Rightarrow>
        \<lparr>sm_state = (if changed then nxt else state), sm_changed = changed, sm_orphans = orphans\<rparr>)"


subsection \<open>What the re-key does to an entry\<close>

definition target_key :: "AutomationState \<Rightarrow> DeviceProfileBinding list \<Rightarrow> string \<Rightarrow> string" where
  "target_key state bindings key = (case adoptedKey key bindings of
     None \<Rightarrow> key
   | Some a \<Rightarrow> if a \<noteq> key \<and> js_get state a \<noteq> None then key else a)"

definition orphaned :: "AutomationState \<Rightarrow> DeviceProfileBinding list \<Rightarrow> string \<Rightarrow> bool" where
  "orphaned state bindings key \<longleftrightarrow> (case adoptedKey key bindings of
     None \<Rightarrow> True
   | Some a \<Rightarrow> a \<noteq> key \<and> js_get state a \<noteq> None)"

definition device_slugs :: "DeviceProfileBinding list \<Rightarrow> bool" where
  "device_slugs bindings \<longleftrightarrow> distinct (map pb_deviceId bindings) \<and> (\<forall>b\<in>set bindings. CHR '':'' \<notin> set (pb_deviceId b))"

lemma namespace_rest: "namespace_of key @ rest_of key = key"
  unfolding namespace_of_def rest_of_def by simp

lemma namespace_of_slug: "CHR '':'' \<notin> set d \<Longrightarrow> namespace_of (d @ rest_of key) = d"
proof -
  assume d: "CHR '':'' \<notin> set d"
  then have "\<forall>c\<in>set d. c \<noteq> CHR '':''" by auto
  then have "namespace_of (d @ rest_of key) = d @ takeWhile (\<lambda>c. c \<noteq> CHR '':'') (rest_of key)"
    unfolding namespace_of_def by (simp add: takeWhile_append2)
  also have "takeWhile (\<lambda>c. c \<noteq> CHR '':'') (rest_of key) = []"
    unfolding rest_of_def by (induction key) auto
  finally show ?thesis by simp
qed

lemma rest_of_slug: "CHR '':'' \<notin> set d \<Longrightarrow> rest_of (d @ rest_of key) = rest_of key"
  by (metis namespace_of_slug namespace_rest same_append_eq)

lemma adoptedKey_cases:
  assumes "adoptedKey key bindings = Some a"
  obtains (own) "a = key" "namespace_of key \<in> set (map pb_deviceId bindings)" "rest_of key \<noteq> []"
  | (moved) d where "owners_of bindings (namespace_of key) = [d]" "a = d @ rest_of key" "rest_of key \<noteq> []"
      "namespace_of key \<notin> set (map pb_deviceId bindings)"
  using assms unfolding adoptedKey_def by (auto split: if_splits list.splits)

lemma owner_binds:
  assumes "owners_of bindings p = [d]"
  obtains b where "b \<in> set bindings" "pb_deviceId b = d" "pb_profileId b = p"
proof -
  have "d \<in> set (owners_of bindings p)" using assms by simp
  then show thesis using that unfolding owners_of_def by auto
qed

lemma adopted_is_own:
  assumes ids: "device_slugs bindings" and a: "adoptedKey key bindings = Some a"
  shows "adoptedKey a bindings = Some a"
  using a
proof (cases rule: adoptedKey_cases)
  case own
  then show ?thesis using a by simp
next
  case (moved d)
  obtain b where b: "b \<in> set bindings" "pb_deviceId b = d" using moved(1) by (rule owner_binds)
  then have "CHR '':'' \<notin> set d" using ids unfolding device_slugs_def by blast
  then have "namespace_of a = d" "rest_of a = rest_of key"
    unfolding moved(2) by (rule namespace_of_slug, rule rest_of_slug)
  moreover have "namespace_of a \<in> set (map pb_deviceId bindings)"
    using b unfolding \<open>namespace_of a = d\<close> by (metis image_eqI list.set_map)
  ultimately show ?thesis using moved(3) unfolding adoptedKey_def by simp
qed

lemma target_key_inj:
  assumes ids: "device_slugs bindings" and "k1 \<in> dom (js_get state)" and "k2 \<in> dom (js_get state)"
    and eq: "target_key state bindings k1 = target_key state bindings k2"
  shows "k1 = k2"
proof -
  consider (stay) "target_key state bindings k1 = k1" "target_key state bindings k2 = k2"
    | (one) "target_key state bindings k1 \<noteq> k1 \<and> target_key state bindings k2 = k2
             \<or> target_key state bindings k1 = k1 \<and> target_key state bindings k2 \<noteq> k2"
    | (both) "target_key state bindings k1 \<noteq> k1" "target_key state bindings k2 \<noteq> k2" by blast
  then show ?thesis
  proof cases
    case stay
    then show ?thesis using eq by metis
  next
    case one
    have "target_key state bindings k \<noteq> k \<Longrightarrow> js_get state (target_key state bindings k) = None" for k
      unfolding target_key_def by (auto split: option.splits if_splits)
    then show ?thesis using one eq assms(2) assms(3) by (metis domIff)
  next
    case both
    have moved: "\<exists>d. owners_of bindings (namespace_of k) = [d] \<and> target_key state bindings k = d @ rest_of k"
      if "target_key state bindings k \<noteq> k" for k
    proof -
      from that obtain a where a: "adoptedKey k bindings = Some a" "a \<noteq> k" "target_key state bindings k = a"
        unfolding target_key_def by (auto split: option.splits if_splits)
      from a(1) show ?thesis
      proof (cases rule: adoptedKey_cases)
        case own
        then show ?thesis using a(2) by simp
      next
        case (moved d)
        then show ?thesis using a(3) by blast
      qed
    qed
    obtain d1 where 1: "owners_of bindings (namespace_of k1) = [d1]" "target_key state bindings k1 = d1 @ rest_of k1"
      using moved [OF both(1)] by blast
    obtain d2 where 2: "owners_of bindings (namespace_of k2) = [d2]" "target_key state bindings k2 = d2 @ rest_of k2"
      using moved [OF both(2)] by blast
    obtain b1 where b1: "b1 \<in> set bindings" "pb_deviceId b1 = d1" "pb_profileId b1 = namespace_of k1"
      using 1(1) by (rule owner_binds)
    obtain b2 where b2: "b2 \<in> set bindings" "pb_deviceId b2 = d2" "pb_profileId b2 = namespace_of k2"
      using 2(1) by (rule owner_binds)
    have slugs: "CHR '':'' \<notin> set d1" "CHR '':'' \<notin> set d2"
      using ids b1 b2 unfolding device_slugs_def by blast+
    have same: "d1 @ rest_of k1 = d2 @ rest_of k2" using eq 1 2 by simp
    have d: "d1 = d2" using namespace_of_slug [OF slugs(1), of k1] namespace_of_slug [OF slugs(2), of k2] same by simp
    have "b1 = b2" using ids b1 b2 d unfolding device_slugs_def by (auto simp: distinct_map inj_on_def)
    then show ?thesis using b1(3) b2(3) same d by (metis namespace_rest same_append_eq)
  qed
qed

lemma rekey_fold:
  assumes "inj_on (target_key state bindings) (fst ` set done \<union> fst ` set es)" and "distinct (map fst (done @ es))"
  shows "fold (rekey_entry state bindings) es
      (map (\<lambda>(k, s). (target_key state bindings k, s)) done, os, ch)
    = (map (\<lambda>(k, s). (target_key state bindings k, s)) (done @ es),
       os @ filter (orphaned state bindings) (map fst es),
       ch \<or> (\<exists>k\<in>fst ` set es. target_key state bindings k \<noteq> k))"
  using assms
proof (induction es arbitrary: "done" os ch)
  case Nil
  then show ?case by simp
next
  case (Cons e es)
  obtain k s where e: "e = (k, s)" by (cases e)
  have fresh: "target_key state bindings k \<notin> fst ` set (map (\<lambda>(k, s). (target_key state bindings k, s)) done)"
  proof
    assume "target_key state bindings k \<in> fst ` set (map (\<lambda>(k, s). (target_key state bindings k, s)) done)"
    then obtain k' s' where "(k', s') \<in> set done" and same: "target_key state bindings k' = target_key state bindings k" by auto
    then have k': "(k', s') \<in> set done" by blast
    have "k' = k" by (rule inj_onD [OF Cons.prems(1)]) (use same k' e in \<open>force+\<close>)
    then show False using Cons.prems(2) k' e by force
  qed
  have put: "js_set (target_key state bindings k) s (map (\<lambda>(k, s). (target_key state bindings k, s)) done)
      = map (\<lambda>(k, s). (target_key state bindings k, s)) (done @ [e])"
    using fresh by (induction "done") (auto simp: e)
  have step: "rekey_entry state bindings e (map (\<lambda>(k, s). (target_key state bindings k, s)) done, os, ch)
      = (map (\<lambda>(k, s). (target_key state bindings k, s)) (done @ [e]),
         os @ (if orphaned state bindings k then [k] else []), ch \<or> target_key state bindings k \<noteq> k)"
    using put unfolding rekey_entry_def e prod.case target_key_def orphaned_def
    by (auto split: option.splits)
  have "inj_on (target_key state bindings) (fst ` set (done @ [e]) \<union> fst ` set es)"
    using Cons.prems(1) by (simp add: Un_ac)
  then show ?case using Cons.IH [of "done @ [e]"] Cons.prems(2) unfolding fold_Cons comp_def step
    by (simp add: e)
qed

lemma target_inj_on:
  assumes "device_slugs bindings"
  shows "inj_on (target_key state bindings) (fst ` set state)"
proof (rule inj_onI)
  fix k1 k2 assume "k1 \<in> fst ` set state" "k2 \<in> fst ` set state"
    and eq: "target_key state bindings k1 = target_key state bindings k2"
  then have "k1 \<in> dom (js_get state)" "k2 \<in> dom (js_get state)" unfolding dom_map_of_conv_image_fst by simp_all
  then show "k1 = k2" using eq by (rule target_key_inj [OF assms])
qed

lemma distinct_targets:
  assumes "device_slugs bindings" and "distinct (map fst state)"
  shows "distinct (map (target_key state bindings) (map fst state))"
  using assms(2) target_inj_on [OF assms(1)] unfolding distinct_map [of "target_key state bindings"]
  by (metis list.set_map)

lemma migrate_eq:
  assumes ids: "device_slugs bindings" and "distinct (map fst state)"
  shows "sm_state (migrateAutomationState state bindings)
      = map (\<lambda>(k, s). (target_key state bindings k, s)) state"
    and "sm_changed (migrateAutomationState state bindings)
      \<longleftrightarrow> (\<exists>k\<in>fst ` set state. target_key state bindings k \<noteq> k)"
    and "sm_orphans (migrateAutomationState state bindings) = filter (orphaned state bindings) (map fst state)"
proof -
  have "inj_on (target_key state bindings) (fst ` set ([] :: AutomationState) \<union> fst ` set state)"
    using target_inj_on [OF ids] by simp
  note f = rekey_fold [OF this, of "[]" False, simplified, OF assms(2)]
  have keep: "\<forall>k\<in>fst ` set state. target_key state bindings k = k \<Longrightarrow>
      map (\<lambda>(k, s). (target_key state bindings k, s)) state = state"
    by (rule map_idI) auto
  show "sm_state (migrateAutomationState state bindings)
      = map (\<lambda>(k, s). (target_key state bindings k, s)) state"
    unfolding migrateAutomationState_def f using keep by auto
  show "sm_changed (migrateAutomationState state bindings)
      \<longleftrightarrow> (\<exists>k\<in>fst ` set state. target_key state bindings k \<noteq> k)"
    and "sm_orphans (migrateAutomationState state bindings) = filter (orphaned state bindings) (map fst state)"
    unfolding migrateAutomationState_def f by simp_all
qed

lemma target_key_dom:
  assumes "device_slugs bindings" and "distinct (map fst state)"
  shows "js_get (sm_state (migrateAutomationState state bindings)) k'
      \<noteq> None \<longleftrightarrow> (\<exists>k\<in>fst ` set state. target_key state bindings k = k')"
  unfolding migrate_eq(1) [OF assms] map_of_eq_None_iff by force

lemma migrate_lookup:
  assumes ids: "device_slugs bindings" and "distinct (map fst state)" and k: "js_get state k = Some s"
  shows "js_get (sm_state (migrateAutomationState state bindings)) (target_key state bindings k) = Some s"
proof -
  have "distinct (map fst (map (\<lambda>(k, s). (target_key state bindings k, s)) state))"
  proof -
    have "map fst (map (\<lambda>(k, s). (target_key state bindings k, s)) state) = map (target_key state bindings) (map fst state)"
      by (simp add: case_prod_beta)
    then show ?thesis using distinct_targets [OF assms(1) assms(2)] by metis
  qed
  then show ?thesis unfolding migrate_eq(1) [OF assms(1) assms(2)]
    using map_of_SomeD [OF k] by (intro map_of_is_SomeI) force+
qed

lemma target_key_stable:
  assumes ids: "device_slugs bindings" and dis: "distinct (map fst state)" and k: "k \<in> fst ` set state"
    and new: "new = sm_state (migrateAutomationState state bindings)"
  shows "target_key new bindings (target_key state bindings k) = target_key state bindings k"
    and "orphaned new bindings (target_key state bindings k) \<longleftrightarrow> orphaned state bindings k"
proof -
  have in_new: "js_get new (target_key state bindings q) \<noteq> None" if "q \<in> fst ` set state" for q
    unfolding new target_key_dom [OF ids dis] using that by blast
  have "target_key new bindings (target_key state bindings k) = target_key state bindings k
    \<and> (orphaned new bindings (target_key state bindings k) \<longleftrightarrow> orphaned state bindings k)"
  proof (cases "adoptedKey k bindings")
    case None
    then show ?thesis unfolding target_key_def orphaned_def by simp
  next
    case (Some a)
    note own = adopted_is_own [OF ids Some]
    show ?thesis
    proof (cases "a \<noteq> k \<and> js_get state a \<noteq> None")
      case True
      then have tk: "target_key state bindings k = k" unfolding target_key_def Some by simp
      have "a \<in> fst ` set state" using True by (simp add: map_of_eq_None_iff)
      then have "js_get new (target_key state bindings a) \<noteq> None" by (rule in_new)
      moreover have "target_key state bindings a = a" unfolding target_key_def own by simp
      ultimately have "js_get new a \<noteq> None" by simp
      then show ?thesis using True unfolding tk unfolding target_key_def orphaned_def Some by simp
    next
      case False
      then have tk: "target_key state bindings k = a" unfolding target_key_def Some by auto
      then show ?thesis using False own unfolding tk unfolding target_key_def orphaned_def Some by auto
    qed
  qed
  then show "target_key new bindings (target_key state bindings k) = target_key state bindings k"
    and "orphaned new bindings (target_key state bindings k) \<longleftrightarrow> orphaned state bindings k" by blast+
qed

text \<open>The one-time re-key of the stored state loses no borrowed value: every entry is still
  there with its value, under its own key or, when exactly one registered device names the profile
  it was written under, under that device's; and a second pass moves nothing and names the same
  orphans.\<close>

theorem rekey_loses_nothing:
  assumes "device_slugs bindings" and "distinct (map fst state)"
  shows "(\<forall>k s. js_get state k = Some s \<longrightarrow>
       (\<exists>k'. js_get (sm_state (migrateAutomationState state bindings)) k' = Some s
          \<and> (k' = k \<or> (\<exists>d. owners_of bindings (namespace_of k) = [d] \<and> k' = d @ rest_of k))))
    \<and> migrateAutomationState (sm_state (migrateAutomationState state bindings)) bindings
      = (migrateAutomationState state bindings)\<lparr>sm_changed := False\<rparr>"
proof (intro conjI allI impI)
  fix k s assume "js_get state k = Some s"
  from migrate_lookup [OF assms this]
  have "js_get (sm_state (migrateAutomationState state bindings)) (target_key state bindings k) = Some s" .
  moreover have "target_key state bindings k = k
      \<or> (\<exists>d. owners_of bindings (namespace_of k) = [d] \<and> target_key state bindings k = d @ rest_of k)"
    unfolding target_key_def by (auto split: option.split elim: adoptedKey_cases)
  ultimately show "\<exists>k'. js_get (sm_state (migrateAutomationState state bindings)) k' = Some s
      \<and> (k' = k \<or> (\<exists>d. owners_of bindings (namespace_of k) = [d] \<and> k' = d @ rest_of k))" by blast
next
  define new where "new = sm_state (migrateAutomationState state bindings)"
  have keys: "map fst new = map (target_key state bindings) (map fst state)"
    unfolding new_def migrate_eq(1) [OF assms] by (simp add: case_prod_beta comp_def)
  have dis: "distinct (map fst new)" unfolding keys by (rule distinct_targets [OF assms])
  have stable: "target_key new bindings k' = k'" if "k' \<in> fst ` set new" for k'
  proof -
    from that have "k' \<in> target_key state bindings ` fst ` set state" by (metis keys list.set_map)
    then show ?thesis using target_key_stable(1) [OF assms _ new_def] by blast
  qed
  have st: "sm_state (migrateAutomationState new bindings) = new"
    unfolding migrate_eq(1) [OF assms(1) dis] by (rule map_idI) (use stable in force)
  have ch: "\<not> sm_changed (migrateAutomationState new bindings)"
    unfolding migrate_eq(2) [OF assms(1) dis] using stable by blast
  have "filter (orphaned new bindings) (map (target_key state bindings) (map fst state))
      = map (target_key state bindings) (filter (orphaned state bindings) (map fst state))"
  proof -
    have "filter (orphaned new bindings \<circ> target_key state bindings) (map fst state)
        = filter (orphaned state bindings) (map fst state)"
    proof (rule filter_cong [OF refl])
      fix k assume "k \<in> set (map fst state)"
      then have "k \<in> fst ` set state" by (metis list.set_map)
      then show "(orphaned new bindings \<circ> target_key state bindings) k \<longleftrightarrow> orphaned state bindings k"
        unfolding comp_def by (rule target_key_stable(2) [OF assms _ new_def])
    qed
    then show ?thesis unfolding filter_map by simp
  qed
  also have "\<dots> = filter (orphaned state bindings) (map fst state)"
    by (rule map_idI) (auto simp: orphaned_def target_key_def split: option.splits)
  finally have orph: "sm_orphans (migrateAutomationState new bindings)
      = sm_orphans (migrateAutomationState state bindings)"
    unfolding migrate_eq(3) [OF assms(1) dis] migrate_eq(3) [OF assms] keys .
  show "migrateAutomationState (sm_state (migrateAutomationState state bindings)) bindings
      = (migrateAutomationState state bindings)\<lparr>sm_changed := False\<rparr>"
    unfolding new_def [symmetric] using st ch orph new_def
    by (intro AutomationStateMigration.equality) simp_all
qed

definition two_twins :: "DeviceProfileBinding list" where
  "two_twins = [\<lparr>pb_deviceId = ''a'', pb_profileId = ''deye''\<rparr>, \<lparr>pb_deviceId = ''b'', pb_profileId = ''deye''\<rparr>,
     \<lparr>pb_deviceId = ''c'', pb_profileId = ''sma''\<rparr>]"

definition held_12A :: AutomationSnapshot where
  "held_12A = \<lparr>as_previousValue = RegisterValue 12, as_capturedAt = 0\<rparr>"

theorem rekey_loses_nothing_witness:
  "\<exists>k'. js_get (sm_state (migrateAutomationState
       [(''sma:peakShaving'', held_12A), (''deye:peakShaving'', held_12A)] two_twins)) k' = Some held_12A
     \<and> (k' = ''sma:peakShaving'' \<or> (\<exists>d. owners_of two_twins (namespace_of ''sma:peakShaving'') = [d]
          \<and> k' = d @ rest_of ''sma:peakShaving''))"
proof -
  define state where "state = [(''sma:peakShaving'', held_12A), (''deye:peakShaving'', held_12A)]"
  have "device_slugs two_twins" "distinct (map fst state)"
    unfolding device_slugs_def two_twins_def state_def by simp_all
  note here = rekey_loses_nothing [OF this, THEN conjunct1]
  have "js_get state ''sma:peakShaving'' = Some held_12A" unfolding state_def by simp
  with here show ?thesis unfolding state_def by blast
qed

lemma rekey_example:
  "migrateAutomationState [(''sma:peakShaving'', held_12A), (''deye:peakShaving'', held_12A)] two_twins
     = \<lparr>sm_state = [(''c:peakShaving'', held_12A), (''deye:peakShaving'', held_12A)], sm_changed = True,
        sm_orphans = [''deye:peakShaving'']\<rparr>"
  by code_simp

end
