(* ===== verification/Async.thy ===== *)
theory Async
  imports Prelude
begin

text \<open>
  Asynchronous code that awaits one call after the other, as a function from a state to a result or
  an exception and the next state. \<open>await\<close> is both \<open>await\<close> and the sequence of two statements,
  \<open>attempt\<close> the body of a \<open>try\<close>. A triple \<open>valid P m Q E\<close> says that from a state with \<open>P\<close> a result
  \<open>x\<close> leaves one with \<open>Q x\<close> and an exception one with \<open>E\<close>; the rules follow the constructs.
\<close>

datatype exn = WriteRejected string | Thrown string

primrec exn_message :: "exn \<Rightarrow> string" where
  "exn_message (WriteRejected m) = m"
| "exn_message (Thrown m) = m"

type_synonym ('s, 'a) act = "'s \<Rightarrow> (exn + 'a) \<times> 's"

definition ret :: "'a \<Rightarrow> ('s, 'a) act" where "ret x s = (Inr x, s)"
definition throw :: "exn \<Rightarrow> ('s, 'a) act" where "throw e s = (Inl e, s)"
definition modify :: "('s \<Rightarrow> 's) \<Rightarrow> ('s, unit) act" where "modify f s = (Inr (), f s)"
definition gets :: "('s \<Rightarrow> 'a) \<Rightarrow> ('s, 'a) act" where "gets f s = (Inr (f s), s)"

definition await :: "('s, 'a) act \<Rightarrow> ('a \<Rightarrow> ('s, 'b) act) \<Rightarrow> ('s, 'b) act" where
  "await m f s = (case m s of (Inl e, s') \<Rightarrow> (Inl e, s') | (Inr x, s') \<Rightarrow> f x s')"

definition attempt :: "('s, 'a) act \<Rightarrow> ('s, exn + 'a) act" where
  "attempt m s = (case m s of (r, s') \<Rightarrow> (Inr r, s'))"

definition run_if :: "bool \<Rightarrow> ('s, unit) act \<Rightarrow> ('s, unit) act" where
  "run_if b m = (if b then m else ret ())"

primrec for_each :: "'x list \<Rightarrow> ('x \<Rightarrow> ('s, unit) act) \<Rightarrow> ('s, unit) act" where
  "for_each [] f = ret ()"
| "for_each (x # xs) f = await (f x) (\<lambda>_. for_each xs f)"

text \<open>A loop that carries a value, as a \<open>for\<close> over an accumulator does.\<close>

primrec for_fold :: "'x list \<Rightarrow> ('x \<Rightarrow> 'a \<Rightarrow> ('s, 'a) act) \<Rightarrow> 'a \<Rightarrow> ('s, 'a) act" where
  "for_fold [] f a = ret a"
| "for_fold (x # xs) f a = await (f x a) (for_fold xs f)"

primrec ends :: "('a \<Rightarrow> 's \<Rightarrow> bool) \<Rightarrow> ('s \<Rightarrow> bool) \<Rightarrow> exn + 'a \<Rightarrow> 's \<Rightarrow> bool" where
  "ends Q E (Inl e) s = E s"
| "ends Q E (Inr x) s = Q x s"

definition valid ::
  "('s \<Rightarrow> bool) \<Rightarrow> ('s, 'a) act \<Rightarrow> ('a \<Rightarrow> 's \<Rightarrow> bool) \<Rightarrow> ('s \<Rightarrow> bool) \<Rightarrow> bool" where
  "valid P m Q E \<longleftrightarrow> (\<forall>s. P s \<longrightarrow> ends Q E (fst (m s)) (snd (m s)))"

text \<open>The triple with one condition kept throughout.\<close>

abbreviation keeps :: "('s \<Rightarrow> bool) \<Rightarrow> ('s, 'a) act \<Rightarrow> bool" where
  "keeps P m \<equiv> valid P m (\<lambda>_. P) P"

named_theorems triples \<open>triples of actions\<close>

lemma ends_mono:
  assumes "ends Q E r s" and "\<And>x. Q x s \<Longrightarrow> Q' x s" and "E s \<Longrightarrow> E' s"
  shows "ends Q' E' r s"
  using assms by (cases r) simp_all

lemma valid_weaken:
  assumes "valid P m Q E" and "\<And>s. P' s \<Longrightarrow> P s" and "\<And>x s. Q x s \<Longrightarrow> Q' x s" and "\<And>s. E s \<Longrightarrow> E' s"
  shows "valid P' m Q' E'"
  unfolding valid_def
proof (intro allI impI)
  fix s assume "P' s"
  then have "ends Q E (fst (m s)) (snd (m s))" using assms(1) assms(2) unfolding valid_def by blast
  then show "ends Q' E' (fst (m s)) (snd (m s))" using assms(3) assms(4) by (rule ends_mono)
qed

lemma valid_pre: "valid P m Q E \<Longrightarrow> (\<And>s. P' s \<Longrightarrow> P s) \<Longrightarrow> valid P' m Q E"
  by (rule valid_weaken)

lemma valid_await:
  assumes "valid P m R E" and "\<And>x. valid (R x) (f x) Q E"
  shows "valid P (await m f) Q E"
  unfolding valid_def
proof (intro allI impI)
  fix s assume "P s"
  obtain r s' where m: "m s = (r, s')" by fastforce
  have e: "ends R E r s'" using assms(1) \<open>P s\<close> m unfolding valid_def by (metis fst_conv snd_conv)
  show "ends Q E (fst (await m f s)) (snd (await m f s))"
  proof (cases r)
    case (Inl x)
    then show ?thesis using e m unfolding await_def by simp
  next
    case (Inr x)
    then show ?thesis using e m assms(2) [of x] unfolding await_def valid_def by simp
  qed
qed

lemma valid_ret: "(\<And>s. P s \<Longrightarrow> Q x s) \<Longrightarrow> valid P (ret x) Q E"
  unfolding valid_def ret_def by simp

lemma valid_throw: "(\<And>s. P s \<Longrightarrow> E s) \<Longrightarrow> valid P (throw e) Q E"
  unfolding valid_def throw_def by simp

lemma valid_modify: "(\<And>s. P s \<Longrightarrow> Q () (f s)) \<Longrightarrow> valid P (modify f) Q E"
  unfolding valid_def modify_def by simp

lemma valid_gets: "(\<And>s. P s \<Longrightarrow> Q (f s) s) \<Longrightarrow> valid P (gets f) Q E"
  unfolding valid_def gets_def by simp

lemma valid_attempt:
  assumes "valid P m (\<lambda>x. Q (Inr x)) F" and "\<And>e s. F s \<Longrightarrow> Q (Inl e) s"
  shows "valid P (attempt m) Q E"
  unfolding valid_def
proof (intro allI impI)
  fix s assume "P s"
  obtain r s' where m: "m s = (r, s')" by fastforce
  have "ends (\<lambda>x. Q (Inr x)) F r s'" using assms(1) \<open>P s\<close> m unfolding valid_def by (metis fst_conv snd_conv)
  then show "ends Q E (fst (attempt m s)) (snd (attempt m s))"
    using m assms(2) unfolding attempt_def by (cases r) simp_all
qed

lemma valid_if:
  assumes "b \<Longrightarrow> valid P m Q E" and "\<not> b \<Longrightarrow> valid P n Q E"
  shows "valid P (if b then m else n) Q E"
  using assms by simp

lemma valid_option:
  assumes "v = None \<Longrightarrow> valid P m Q E" and "\<And>x. v = Some x \<Longrightarrow> valid P (f x) Q E"
  shows "valid P (case v of None \<Rightarrow> m | Some x \<Rightarrow> f x) Q E"
  using assms by (cases v) auto

lemma valid_sum:
  assumes "\<And>e. v = Inl e \<Longrightarrow> valid P (f e) Q E" and "\<And>x. v = Inr x \<Longrightarrow> valid P (g x) Q E"
  shows "valid P (case v of Inl e \<Rightarrow> f e | Inr x \<Rightarrow> g x) Q E"
  using assms by (cases v) auto

lemma valid_case_exn:
  assumes "\<And>x. e = WriteRejected x \<Longrightarrow> valid P (f x) Q E" and "\<And>x. e = Thrown x \<Longrightarrow> valid P (g x) Q E"
  shows "valid P (case e of WriteRejected x \<Rightarrow> f x | Thrown x \<Rightarrow> g x) Q E"
  using assms by (cases e) auto

lemma keeps_run_if: "(b \<Longrightarrow> keeps P m) \<Longrightarrow> keeps P (run_if b m)"
  unfolding run_if_def by (cases b) (auto intro: valid_ret)

lemma keeps_for_each: "(\<And>x. x \<in> set xs \<Longrightarrow> keeps P (f x)) \<Longrightarrow> keeps P (for_each xs f)"
proof (induction xs)
  case Nil
  then show ?case by (simp add: valid_ret)
next
  case (Cons x xs)
  then show ?case by (auto intro!: valid_await [where R = "\<lambda>_. P"])
qed

lemma valid_for_fold:
  assumes "\<And>x a. x \<in> set xs \<Longrightarrow> valid (I a) (f x a) I E"
  shows "valid (I a) (for_fold xs f a) I E"
  using assms
proof (induction xs arbitrary: a)
  case Nil
  then show ?case by (simp add: valid_ret)
next
  case (Cons x xs)
  have "valid (I b) (for_fold xs f b) I E" for b by (rule Cons.IH) (rule Cons.prems, simp)
  then show ?case using Cons.prems by (auto intro!: valid_await)
qed

lemma valid_conj:
  assumes "valid P m Q E" and "valid P' m Q' E'"
  shows "valid (\<lambda>s. P s \<and> P' s) m (\<lambda>x s. Q x s \<and> Q' x s) (\<lambda>s. E s \<and> E' s)"
  unfolding valid_def
proof (intro allI impI)
  fix s assume "P s \<and> P' s"
  then have "ends Q E (fst (m s)) (snd (m s))" "ends Q' E' (fst (m s)) (snd (m s))"
    using assms unfolding valid_def by blast+
  then show "ends (\<lambda>x s. Q x s \<and> Q' x s) (\<lambda>s. E s \<and> E' s) (fst (m s)) (snd (m s))"
    by (cases "fst (m s)") simp_all
qed

lemma keeps_apply: "keeps P m \<Longrightarrow> P s \<Longrightarrow> P (snd (m s))"
  unfolding valid_def by (cases "fst (m s)") (metis ends.simps)+

lemma validD:
  "valid P m Q E \<Longrightarrow> P s \<Longrightarrow> m s = (Inr x, s') \<Longrightarrow> Q x s'"
  "valid P m Q E \<Longrightarrow> P s \<Longrightarrow> m s = (Inl e, s') \<Longrightarrow> E s'"
  unfolding valid_def by (metis ends.simps fst_conv snd_conv)+

lemmas keeps_rules = valid_await [where R = "\<lambda>_. P" and P = P for P] valid_ret valid_throw valid_if
  valid_option valid_sum valid_case_exn keeps_run_if keeps_for_each

end
