(* ===== verification/Tariff.thy ===== *)
theory Tariff
  imports Prelude
begin

text \<open>
  \<^verbatim>\<open>packages/db/src/tariff.ts\<close>: the tariff of a plant and the price of an hour or of a market slot under it.
  Validation is zod's and not modelled; a tariff is what its schema lets through.
\<close>

record TariffBand =
  tb_name :: string
  tb_pricePerKwh :: number
  tb_startHour :: int
  tb_endHour :: int
  tb_days :: "int list option"

record SpotImportPricing =
  si_supplierMarkupPerKwh :: number
  si_gridFeesPerKwh :: number
  si_leviesPerKwh :: number
  si_vatPercent :: number
  si_clampToZero :: bool

datatype TariffMode = StaticTariff | SpotTariff
datatype MarketingModel = NoMarketing | EegFeedIn | Direktvermarktung

record SpotExport =
  sx_marketingModel :: MarketingModel
  sx_managementFeePerKwh :: number

record ImportTariff =
  it_mode :: TariffMode
  it_defaultPricePerKwh :: number
  it_bands :: "TariffBand list"
  it_spot :: SpotImportPricing

record ExportTariff =
  xt_mode :: TariffMode
  xt_feedInPerKwh :: number
  xt_spot :: SpotExport

record TariffConfig =
  tc_currency :: string
  tc_standingChargeMonthly :: number
  tc_import :: ImportTariff
  tc_export :: ExportTariff

definition in_band :: "int \<Rightarrow> int \<Rightarrow> TariffBand \<Rightarrow> bool" where
  "in_band hour weekday band \<longleftrightarrow>
     (if (case tb_days band of Some days \<Rightarrow> weekday \<notin> set days | None \<Rightarrow> False) then False
      else if tb_startHour band < tb_endHour band then hour \<ge> tb_startHour band \<and> hour < tb_endHour band
      else hour \<ge> tb_startHour band \<or> hour < tb_endHour band)"

definition importBandForHour :: "TariffConfig \<Rightarrow> int \<Rightarrow> int \<Rightarrow> TariffBand option" where
  "importBandForHour tariff hour weekday = find (in_band hour weekday) (it_bands (tc_import tariff))"

definition importPriceForHour :: "TariffConfig \<Rightarrow> int \<Rightarrow> int \<Rightarrow> number" where
  "importPriceForHour tariff hour weekday = (case importBandForHour tariff hour weekday of
     Some band \<Rightarrow> tb_pricePerKwh band | None \<Rightarrow> it_defaultPricePerKwh (tc_import tariff))"

definition landedImportPrice :: "number \<Rightarrow> SpotImportPricing \<Rightarrow> number" where
  "landedImportPrice eurPerMwh s =
     (let net = eurPerMwh / 1000 + si_supplierMarkupPerKwh s + si_gridFeesPerKwh s + si_leviesPerKwh s;
          gross = net * (1 + si_vatPercent s / 100)
      in if si_clampToZero s then max 0 gross else gross)"

definition exportPriceForSlot :: "TariffConfig \<Rightarrow> number \<Rightarrow> number" where
  "exportPriceForSlot tariff eurPerMwh =
     (let x = tc_export tariff; model = sx_marketingModel (xt_spot x) in
      if xt_mode x \<noteq> SpotTariff \<or> model = NoMarketing then xt_feedInPerKwh x
      else if model = EegFeedIn then (if eurPerMwh < 0 then 0 else xt_feedInPerKwh x)
      else eurPerMwh / 1000 - sx_managementFeePerKwh (xt_spot x))"

definition importPriceAt :: "TariffConfig \<Rightarrow> number option \<Rightarrow> int \<Rightarrow> int \<Rightarrow> number" where
  "importPriceAt tariff eurPerMwh hour weekday = (case (it_mode (tc_import tariff), eurPerMwh) of
     (SpotTariff, Some p) \<Rightarrow> landedImportPrice p (it_spot (tc_import tariff))
   | _ \<Rightarrow> importPriceForHour tariff hour weekday)"

text \<open>A band covers the hours from its start to its end around the clock, a day of them when both are
  equal.\<close>

lemma in_band_wraps:
  assumes "0 \<le> hour" "hour < 24" "0 \<le> tb_startHour band" "tb_startHour band < 24" "1 \<le> tb_endHour band" "tb_endHour band \<le> 24"
    and "tb_days band = None"
  shows "in_band hour wd band \<longleftrightarrow>
     (hour - tb_startHour band) mod 24 < (tb_endHour band - tb_startHour band - 1) mod 24 + 1"
proof -
  have wrap: "x mod 24 = (if 0 \<le> x then x else x + 24)" if "-24 \<le> x" "x < 24" for x :: int
    using that mod_pos_pos_trivial [of x 24] mod_pos_pos_trivial [of "x + 24" 24] by (cases "0 \<le> x") auto
  show ?thesis using assms wrap [of "hour - tb_startHour band"] wrap [of "tb_endHour band - tb_startHour band - 1"]
    by (simp add: in_band_def) linarith
qed

text \<open>Before a tariff is configured nothing costs anything.\<close>

definition defaultTariff :: TariffConfig where
  "defaultTariff = \<lparr>tc_currency = ''EUR'', tc_standingChargeMonthly = 0,
     tc_import = \<lparr>it_mode = StaticTariff, it_defaultPricePerKwh = 0, it_bands = [],
       it_spot = \<lparr>si_supplierMarkupPerKwh = 0, si_gridFeesPerKwh = 0, si_leviesPerKwh = 0, si_vatPercent = 0, si_clampToZero = False\<rparr>\<rparr>,
     tc_export = \<lparr>xt_mode = StaticTariff, xt_feedInPerKwh = 0,
       xt_spot = \<lparr>sx_marketingModel = NoMarketing, sx_managementFeePerKwh = 0\<rparr>\<rparr>\<rparr>"

end
