(* ===== verification/Peak_Shaving_Engine.thy ===== *)
theory Peak_Shaving_Engine
  imports Ev_Pull_In Automation_State Async Peak_Shaving_Plan Control_Writer Tariff
begin

text \<open>
  \<^verbatim>\<open>apps/server/src/automation/peak-shaving-engine.ts\<close>: the loop that owns the steered registers
  while it is active. A tick is one action over the plant: the engine's working set, the device's
  registers, the stored automation state, a count of the calls made so far and the log of what was
  written, saved and commanded, each with the registers and the stored state it found.

  \<open>AutomationIO\<close> answers by the number of the call, so no two calls need agree and any of them may
  throw; a write or a save that throws may have landed or not. Reads of the sample's text time are
  the instant it denotes. Values given to EVCC keep their kind instead of their text.
\<close>

definition STALE_SAMPLE_MS :: millis where "STALE_SAMPLE_MS = 30000"
definition INEFFECTIVE_MIN_W :: number where "INEFFECTIVE_MIN_W = 300"
definition INEFFECTIVE_RATIO :: number where "INEFFECTIVE_RATIO = 1 / 4"
definition INEFFECTIVE_TICKS :: nat where "INEFFECTIVE_TICKS = 3"
definition GRID_CHARGE_ROLE :: role where "GRID_CHARGE_ROLE = ''setting.battery.grid_charge''"
definition PEAK_SHAVING_ID :: string where "PEAK_SHAVING_ID = ''peakShaving''"

subsection \<open>Status and working set\<close>

datatype PeakShavingRunState = Disabled | Blocked | Idle | Active | Shadow | Simulating | Stale

record PeakShavingStatus =
  st_enabled :: bool
  st_mode :: PeakShavingMode
  st_state :: PeakShavingRunState
  st_blockers :: "Blocker list"
  st_priceBlockers :: "Blocker list"
  st_lastTickAt :: "millis option"
  st_lastWriteAt :: "millis option"
  st_lastError :: "string option"
  st_targetA :: "number option"
  st_lastWrittenA :: "number option"
  st_liveA :: "number option"
  st_thresholdW :: "number option"
  st_sellLimitW :: "number option"
  st_liveSellLimitW :: "number option"
  st_gridChargeA :: "number option"
  st_liveExcessW :: "number option"
  st_loadW :: "number option"
  st_headroomKwh :: "number option"
  st_usableKwh :: "number option"
  st_remainingAboveLimitKwh :: "number option"
  st_evChargeW :: "number option"
  st_evDemandKwh :: "number option"
  st_forecastAvailable :: bool
  st_externalOverride :: bool
  st_ineffective :: bool
  st_restorePending :: bool
  st_priceRegime :: PriceRegime
  st_socEnvelopePct :: "number option"
  st_windowStartsAt :: "millis option"
  st_windowEndsAt :: "millis option"
  st_soakableKwh :: "number option"
  st_unavoidableZeroValueKwh :: "number option"

definition initialStatus :: PeakShavingStatus where
  "initialStatus = \<lparr>st_enabled = False, st_mode = MaximizeExports, st_state = Disabled, st_blockers = [],
     st_priceBlockers = [], st_lastTickAt = None, st_lastWriteAt = None, st_lastError = None,
     st_targetA = None, st_lastWrittenA = None, st_liveA = None, st_thresholdW = None, st_sellLimitW = None,
     st_liveSellLimitW = None, st_gridChargeA = None, st_liveExcessW = None, st_loadW = None,
     st_headroomKwh = None, st_usableKwh = None, st_remainingAboveLimitKwh = None, st_evChargeW = None,
     st_evDemandKwh = None, st_forecastAvailable = False, st_externalOverride = False,
     st_ineffective = False, st_restorePending = False, st_priceRegime = RNone, st_socEnvelopePct = None,
     st_windowStartsAt = None, st_windowEndsAt = None, st_soakableKwh = None,
     st_unavoidableZeroValueKwh = None\<rparr>"

record Eng =
  eg_status :: PeakShavingStatus
  eg_pending :: "(number \<times> millis) option"
  eg_prevThresholdW :: "number option"
  eg_prevTargetA :: "number option"
  eg_prevDecisionAtMs :: "millis option"
  eg_ineffectiveTicks :: nat
  eg_lastWrittenRegister :: "number option"

definition new_engine :: Eng where
  "new_engine = \<lparr>eg_status = initialStatus, eg_pending = None, eg_prevThresholdW = None, eg_prevTargetA = None,
     eg_prevDecisionAtMs = None, eg_ineffectiveTicks = 0, eg_lastWrittenRegister = None\<rparr>"

subsection \<open>The plant and the calls\<close>

datatype io_effect =
    WriteReg string number
  | SaveState AutomationState
  | EvccCommand nat string EvccValue
  | RecordDecision number millis

type_synonym registers = "string \<Rightarrow> number option"

record plant =
  pt_eng :: Eng
  pt_regs :: registers
  pt_store :: AutomationState
  pt_calls :: nat
  pt_log :: "(io_effect \<times> registers \<times> AutomationState) list"

type_synonym 'a plant_act = "(plant, 'a) act"

datatype WriteOutcome = Written | Refused string | WriteFailed string bool
datatype SaveOutcome = Saved | SaveFailed string bool

record SolarForecast =
  so_raw_series :: "SolarForecastPoint list"
  so_raw_maxPowerW :: number
  so_stepMinutes :: int
  so_utcOffsetSeconds :: int
  so_timeZone :: string

record AutomationIO =
  io_device :: DeviceInstance
  io_zone :: zone_data
  io_constraint :: "string \<Rightarrow> EntityConstraint option"
  io_write :: "nat \<Rightarrow> WriteOutcome"
  io_getConfig :: "nat \<Rightarrow> string + AutomationConfig"
  io_getWeather :: "nat \<Rightarrow> string + WeatherConfig"
  io_getPackNominalV :: "nat \<Rightarrow> string + number option"
  io_getForecast :: "nat \<Rightarrow> WeatherConfig \<Rightarrow> string + SolarForecast option"
  io_getBaselineLoadW :: "nat \<Rightarrow> WeatherConfig \<Rightarrow> string + number option"
  io_getEvcc :: "nat \<Rightarrow> EvccState option"
  io_getPrices :: "nat \<Rightarrow> string + SpotSlice option"
  io_getTariff :: "nat \<Rightarrow> string + TariffConfig"
  io_evccCommand :: "nat \<Rightarrow> string option"
  io_latestSample :: "nat \<Rightarrow> InverterSample option"
  io_loadState :: "nat \<Rightarrow> string option"
  io_saveState :: "nat \<Rightarrow> SaveOutcome"
  io_now :: "nat \<Rightarrow> millis"
  io_recordDecision :: "(nat \<Rightarrow> string option) option"

definition call :: "(nat \<Rightarrow> 'a) \<Rightarrow> 'a plant_act" where
  "call f w = (Inr (f (pt_calls w)), w\<lparr>pt_calls := pt_calls w + 1\<rparr>)"

definition call_or_throw :: "(nat \<Rightarrow> string + 'a) \<Rightarrow> 'a plant_act" where
  "call_or_throw f = await (call f) (\<lambda>r. case r of Inl msg \<Rightarrow> throw (Thrown msg) | Inr x \<Rightarrow> ret x)"

definition note_effect :: "io_effect \<Rightarrow> unit plant_act" where
  "note_effect eff = modify (\<lambda>w. w\<lparr>pt_log := pt_log w @ [(eff, pt_regs w, pt_store w)]\<rparr>)"

definition set_register :: "string \<Rightarrow> number \<Rightarrow> unit plant_act" where
  "set_register key v = modify (\<lambda>w. w\<lparr>pt_regs := (pt_regs w)(key \<mapsto> v)\<rparr>)"

definition set_store :: "AutomationState \<Rightarrow> unit plant_act" where
  "set_store nxt = modify (\<lambda>w. w\<lparr>pt_store := nxt\<rparr>)"

definition write_key :: "AutomationIO \<Rightarrow> string \<Rightarrow> number \<Rightarrow> unit plant_act" where
  "write_key io key v = await (note_effect (WriteReg key v)) (\<lambda>_. await (call (io_write io)) (\<lambda>out. case out of
     Written \<Rightarrow> set_register key v
   | Refused msg \<Rightarrow> throw (WriteRejected msg)
   | WriteFailed msg landed \<Rightarrow> await (run_if landed (set_register key v)) (\<lambda>_. throw (Thrown msg))))"

definition loadState :: "AutomationIO \<Rightarrow> AutomationState plant_act" where
  "loadState io = await (call (io_loadState io)) (\<lambda>err. case err of
     Some msg \<Rightarrow> throw (Thrown msg) | None \<Rightarrow> gets pt_store)"

definition saveState :: "AutomationIO \<Rightarrow> AutomationState \<Rightarrow> unit plant_act" where
  "saveState io nxt = await (note_effect (SaveState nxt)) (\<lambda>_. await (call (io_saveState io)) (\<lambda>out. case out of
     Saved \<Rightarrow> set_store nxt
   | SaveFailed msg landed \<Rightarrow> await (run_if landed (set_store nxt)) (\<lambda>_. throw (Thrown msg))))"

definition evccCommand :: "AutomationIO \<Rightarrow> nat \<Rightarrow> string \<Rightarrow> EvccValue \<Rightarrow> unit plant_act" where
  "evccCommand io loadpoint action v = await (call (io_evccCommand io)) (\<lambda>err. case err of
     Some msg \<Rightarrow> throw (Thrown msg) | None \<Rightarrow> note_effect (EvccCommand loadpoint action v))"

definition upd_eng :: "(Eng \<Rightarrow> Eng) \<Rightarrow> unit plant_act" where
  "upd_eng f = modify (\<lambda>w. w\<lparr>pt_eng := f (pt_eng w)\<rparr>)"

definition upd_status :: "(PeakShavingStatus \<Rightarrow> PeakShavingStatus) \<Rightarrow> unit plant_act" where
  "upd_status f = upd_eng (\<lambda>e. e\<lparr>eg_status := f (eg_status e)\<rparr>)"

definition eng :: "Eng plant_act" where "eng = gets pt_eng"
definition status :: "PeakShavingStatus plant_act" where "status = gets (\<lambda>w. eg_status (pt_eng w))"

subsection \<open>Slots\<close>

definition stateKeyOf :: "AutomationIO \<Rightarrow> string" where
  "stateKeyOf io = automationStateKey (di_id (io_device io)) PEAK_SHAVING_ID"
definition chargeLimitOf :: "AutomationIO \<Rightarrow> SteeredLimit option" where
  "chargeLimitOf io = resolveChargeLimit (io_device io)"
definition sellKeyOf :: "AutomationIO \<Rightarrow> string option" where "sellKeyOf io = roleKey (io_device io) SELL_LIMIT_ROLE"
definition sellSlotOf :: "AutomationIO \<Rightarrow> string" where "sellSlotOf io = stateKeyOf io @ '':sell''"
definition gridChargeKeyOf :: "AutomationIO \<Rightarrow> string option" where
  "gridChargeKeyOf io = roleKey (io_device io) GRID_CHARGE_ROLE"
definition gridChargeLimitOf :: "AutomationIO \<Rightarrow> SteeredLimit option" where
  "gridChargeLimitOf io = resolveGridChargeLimit (io_device io)"
definition gridChargeSlotOf :: "AutomationIO \<Rightarrow> string" where "gridChargeSlotOf io = stateKeyOf io @ '':gridcharge''"
definition gridChargeASlotOf :: "AutomationIO \<Rightarrow> string" where "gridChargeASlotOf io = stateKeyOf io @ '':gridchargeA''"

definition steeredRegisters :: "AutomationIO \<Rightarrow> (string \<times> string option) list" where
  "steeredRegisters io = [(stateKeyOf io, map_option sl_key (chargeLimitOf io)), (sellSlotOf io, sellKeyOf io)]"

definition gridChargeRegisters :: "AutomationIO \<Rightarrow> (string \<times> string option) list" where
  "gridChargeRegisters io = [(gridChargeSlotOf io, gridChargeKeyOf io),
     (gridChargeASlotOf io, map_option sl_key (gridChargeLimitOf io))]"

definition resetSteering :: "unit plant_act" where
  "resetSteering = upd_eng (\<lambda>e. e\<lparr>eg_lastWrittenRegister := None, eg_prevThresholdW := None, eg_prevTargetA := None,
     eg_prevDecisionAtMs := None, eg_ineffectiveTicks := 0,
     eg_status := (eg_status e)\<lparr>st_ineffective := False\<rparr>\<rparr>)"

subsection \<open>Giving registers back\<close>

definition replaySnapshot :: "AutomationIO \<Rightarrow> string option \<Rightarrow> SnapshotValue \<Rightarrow> bool plant_act" where
  "replaySnapshot io key snapshot =
     (if \<not> present key then ret False
      else (case numericSnapshot (Some snapshot) of
          None \<Rightarrow> await (upd_status (\<lambda>s. s\<lparr>st_lastError := Some ''restore failed: snapshot is not a register value''\<rparr>))
            (\<lambda>_. ret False)
        | Some v \<Rightarrow> await (attempt (write_key io (the key) v)) (\<lambda>r. case r of
            Inl err \<Rightarrow> await (upd_status (\<lambda>s. s\<lparr>st_lastError := Some (case err of
                WriteRejected msg \<Rightarrow> ''restore failed: '' @ msg | Thrown msg \<Rightarrow> msg)\<rparr>)) (\<lambda>_. ret False)
          | Inr _ \<Rightarrow> ret True)))"

definition restore_slots :: "AutomationIO \<Rightarrow> AutomationState \<Rightarrow> (string \<times> string option) list
    \<Rightarrow> (AutomationState \<times> bool) plant_act" where
  "restore_slots io state slots = for_fold slots (\<lambda>(slot, key) (nxt, stillHeld).
     case js_get state slot of
       None \<Rightarrow> ret (nxt, stillHeld)
     | Some snap \<Rightarrow> await (replaySnapshot io key (as_previousValue snap)) (\<lambda>restored.
         ret (if restored then (js_delete slot nxt, stillHeld) else (nxt, True)))) (state, False)"

definition restoreSnapshot :: "AutomationIO \<Rightarrow> unit plant_act" where
  "restoreSnapshot io = await (loadState io) (\<lambda>state.
     await (restore_slots io state (steeredRegisters io)) (\<lambda>(nxt, stillHeld).
     await (run_if (length nxt \<noteq> length state) (saveState io nxt)) (\<lambda>_.
     await (upd_status (\<lambda>s. s\<lparr>st_restorePending := stillHeld\<rparr>)) (\<lambda>_.
     run_if (\<not> stillHeld) (upd_status (\<lambda>s. s\<lparr>st_lastWrittenA := None, st_sellLimitW := None,
       st_externalOverride := False\<rparr>))))))"

text \<open>The source's flag \<open>changed\<close> is that the state got shorter.\<close>

definition releaseGridCharge :: "AutomationIO \<Rightarrow> unit plant_act" where
  "releaseGridCharge io = await (loadState io) (\<lambda>state.
     await (restore_slots io state (gridChargeRegisters io)) (\<lambda>(nxt, _).
     await (run_if (length nxt \<noteq> length state) (saveState io nxt)) (\<lambda>_.
     upd_status (\<lambda>s. s\<lparr>st_gridChargeA := None\<rparr>))))"

definition releaseSellLimit :: "AutomationIO \<Rightarrow> unit plant_act" where
  "releaseSellLimit io = await (loadState io) (\<lambda>state. case js_get state (sellSlotOf io) of
     None \<Rightarrow> ret ()
   | Some snap \<Rightarrow> await (replaySnapshot io (sellKeyOf io) (as_previousValue snap)) (\<lambda>restored.
       if \<not> restored then ret ()
       else await (saveState io (js_delete (sellSlotOf io) state)) (\<lambda>_.
         upd_status (\<lambda>s. s\<lparr>st_sellLimitW := None\<rparr>))))"

definition ensureSnapshot :: "AutomationIO \<Rightarrow> string \<Rightarrow> number option \<Rightarrow> bool plant_act" where
  "ensureSnapshot io slot liveValue = await (loadState io) (\<lambda>current.
     if js_get current slot \<noteq> None
     then await (upd_status (\<lambda>s. s\<lparr>st_restorePending := True\<rparr>)) (\<lambda>_. ret True)
     else (case liveValue of
         None \<Rightarrow> ret False
       | Some v \<Rightarrow> await (call (io_now io)) (\<lambda>nowMs.
           await (saveState io (js_set slot \<lparr>as_previousValue = RegisterValue v, as_capturedAt = nowMs\<rparr> current)) (\<lambda>_.
           await (upd_status (\<lambda>s. s\<lparr>st_restorePending := True\<rparr>)) (\<lambda>_. ret True)))))"

subsection \<open>Live readings\<close>

record LiveInputs =
  li_pvW :: number
  li_socPct :: number
  li_liveLimit :: "number option"
  li_liveVolt :: "number option"
  li_loadW :: "number option"
  li_chargeW :: "number option"
  li_exportW :: "number option"
  li_sellLimitW :: "number option"
  li_gridChargeOn :: "number option"
  li_gridChargeLimit :: "number option"
  li_nowMs :: millis

definition finite_reading :: "InverterSample \<Rightarrow> string \<Rightarrow> number option" where
  "finite_reading sample key = (case js_get (iv_metrics sample) key of
     None \<Rightarrow> None | Some v \<Rightarrow> if is_finite v then Some v else None)"

definition by_role :: "AutomationIO \<Rightarrow> InverterSample \<Rightarrow> role \<Rightarrow> number option" where
  "by_role io sample r = (case roleKey (io_device io) r of
     None \<Rightarrow> None | Some k \<Rightarrow> if k = [] then None else finite_reading sample k)"

definition live_inputs :: "AutomationIO \<Rightarrow> string \<Rightarrow> InverterSample \<Rightarrow> millis \<Rightarrow> LiveInputs option" where
  "live_inputs io key sample nowMs =
     (if nowMs - iv_time sample > STALE_SAMPLE_MS then None
      else (case (by_role io sample ''pv.total.power'', by_role io sample ''battery.soc'') of
          (Some pvW, Some socPct) \<Rightarrow> Some
            \<lparr>li_pvW = pvW, li_socPct = socPct, li_liveLimit = finite_reading sample key,
             li_liveVolt = by_role io sample ''battery.voltage'', li_loadW = by_role io sample ''load.power'',
             li_chargeW = map_option (\<lambda>b. max 0 (- b)) (by_role io sample ''battery.power''),
             li_exportW = map_option (\<lambda>g. max 0 (- g)) (by_role io sample ''grid.power''),
             li_sellLimitW = by_role io sample SELL_LIMIT_ROLE,
             li_gridChargeOn = by_role io sample GRID_CHARGE_ROLE,
             li_gridChargeLimit = (case resolveGridChargeLimit (io_device io) of
                None \<Rightarrow> None | Some limit \<Rightarrow> finite_reading sample (sl_key limit)),
             li_nowMs = nowMs\<rparr>
        | _ \<Rightarrow> None))"

definition readLive :: "AutomationIO \<Rightarrow> string \<Rightarrow> LiveInputs option plant_act" where
  "readLive io key = await (call (io_latestSample io)) (\<lambda>sample. await (call (io_now io)) (\<lambda>nowMs.
     ret (case sample of None \<Rightarrow> None | Some s \<Rightarrow> live_inputs io key s nowMs)))"

definition liveOrHold :: "AutomationIO \<Rightarrow> (SteeredLimit \<times> LiveInputs) option plant_act" where
  "liveOrHold io = (case chargeLimitOf io of
     None \<Rightarrow> ret None
   | Some limit \<Rightarrow> await (readLive io (sl_key limit)) (\<lambda>live. ret (map_option (\<lambda>l. (limit, l)) live)))"

subsection \<open>Writing\<close>

definition clampToRegister :: "AutomationIO \<Rightarrow> string \<Rightarrow> number \<Rightarrow> number" where
  "clampToRegister io key targetA = (case io_constraint io key of
     None \<Rightarrow> targetA
   | Some c \<Rightarrow>
       let lo = (case ec_min c of None \<Rightarrow> targetA | Some m \<Rightarrow> max targetA m)
       in case ec_max c of None \<Rightarrow> lo | Some m \<Rightarrow> min lo m)"

definition writeRegister :: "AutomationIO \<Rightarrow> string \<Rightarrow> number \<Rightarrow> number option \<Rightarrow> millis \<Rightarrow> bool plant_act" where
  "writeRegister io key v liveValue nowMs =
     (if liveValue = Some v then ret False
      else await (attempt (write_key io key v)) (\<lambda>r. case r of
          Inl err \<Rightarrow> (case err of
              WriteRejected msg \<Rightarrow> await (upd_status (\<lambda>s. s\<lparr>st_lastError := Some msg\<rparr>)) (\<lambda>_. ret False)
            | Thrown msg \<Rightarrow> throw (Thrown msg))
        | Inr _ \<Rightarrow> await (upd_status (\<lambda>s. s\<lparr>st_lastWriteAt := Some nowMs\<rparr>)) (\<lambda>_. ret True)))"

definition writeTarget ::
  "AutomationIO \<Rightarrow> SteeredLimit \<Rightarrow> number \<Rightarrow> number \<Rightarrow> LiveInputs \<Rightarrow> unit plant_act" where
  "writeTarget io limit commanded targetA live =
     await (writeRegister io (sl_key limit) commanded (li_liveLimit live) (li_nowMs live)) (\<lambda>written.
       run_if written (upd_eng (\<lambda>e. e\<lparr>eg_lastWrittenRegister := Some commanded,
         eg_status := (eg_status e)\<lparr>st_lastWrittenA := Some targetA\<rparr>\<rparr>)))"

definition steerSellLimit :: "AutomationIO \<Rightarrow> number \<Rightarrow> LiveInputs \<Rightarrow> unit plant_act" where
  "steerSellLimit io thresholdW live = (case sellKeyOf io of
     None \<Rightarrow> ret ()
   | Some key \<Rightarrow>
       if key = [] then ret ()
       else await (ensureSnapshot io (sellSlotOf io) (li_sellLimitW live)) (\<lambda>ok.
         if \<not> ok then ret ()
         else let v = clampToRegister io key (of_int (math_round thresholdW))
           in await (writeRegister io key v (li_sellLimitW live) (li_nowMs live)) (\<lambda>_.
             upd_status (\<lambda>s. s\<lparr>st_sellLimitW := Some v\<rparr>))))"

definition steerGridCharge :: "AutomationIO \<Rightarrow> number \<Rightarrow> number \<Rightarrow> LiveInputs \<Rightarrow> unit plant_act" where
  "steerGridCharge io currentA batteryV live = (case (gridChargeKeyOf io, gridChargeLimitOf io) of
     (Some enableKey, Some limit) \<Rightarrow>
       if enableKey = [] then ret ()
       else await (ensureSnapshot io (gridChargeSlotOf io) (li_gridChargeOn live)) (\<lambda>ok.
         if \<not> ok then ret ()
         else await (ensureSnapshot io (gridChargeASlotOf io) (li_gridChargeLimit live)) (\<lambda>okA.
           if \<not> okA then ret ()
           else let v = clampToRegister io (sl_key limit) (of_int (math_round (limitValue limit currentA batteryV)))
             in await (writeRegister io (sl_key limit) v (li_gridChargeLimit live) (li_nowMs live)) (\<lambda>_.
                await (writeRegister io enableKey 1 (li_gridChargeOn live) (li_nowMs live)) (\<lambda>_.
                upd_status (\<lambda>s. s\<lparr>st_gridChargeA := Some (of_int (math_round (limitAmps limit v batteryV)))\<rparr>)))))
   | _ \<Rightarrow> ret ())"

subsection \<open>Reporting\<close>

definition recordDecision ::
  "Decision \<Rightarrow> LiveInputs \<Rightarrow> number \<times> number \<Rightarrow> bool \<Rightarrow> number option \<Rightarrow> number option
     \<Rightarrow> PeakShavingStatus \<Rightarrow> PeakShavingStatus" where
  "recordDecision decision live ev evccReachable loadW lastWrittenRegister s =
     s\<lparr>st_thresholdW := Some (of_int (math_round (de_thresholdW decision))),
       st_headroomKwh := Some (de_headroomKwh decision),
       st_remainingAboveLimitKwh := de_surplusAboveLimitKwh decision,
       st_liveExcessW := Some (of_int (math_round (de_liveExcessW decision))),
       st_loadW := loadW,
       st_evChargeW := (if evccReachable then Some (fst ev) else None),
       st_evDemandKwh := (if evccReachable then Some (snd ev) else None),
       st_externalOverride := (lastWrittenRegister \<noteq> None \<and> li_liveLimit live \<noteq> None
          \<and> li_liveLimit live \<noteq> lastWrittenRegister),
       st_priceRegime := de_priceRegime decision,
       st_socEnvelopePct := de_socEnvelopePct decision,
       st_windowStartsAt := de_windowStartsAt decision,
       st_windowEndsAt := de_windowEndsAt decision,
       st_soakableKwh := de_soakableKwh decision,
       st_unavoidableZeroValueKwh := de_unavoidableZeroValueKwh decision\<rparr>"

definition updateWatchdog :: "LiveInputs \<Rightarrow> number \<Rightarrow> number \<Rightarrow> number \<Rightarrow> number \<Rightarrow> Eng \<Rightarrow> Eng" where
  "updateWatchdog live targetA commanded batteryV headroomKwh e =
     (let commandedW = targetA * batteryV;
          settled = (li_liveLimit live = Some commanded);
          nearFull = (headroomKwh \<le> NEAR_FULL_KWH);
          ticks = (case li_chargeW live of
             None \<Rightarrow> 0
           | Some chargeW \<Rightarrow>
               if \<not> settled \<or> nearFull \<or> commandedW < INEFFECTIVE_MIN_W then 0
               else if chargeW < commandedW * INEFFECTIVE_RATIO then eg_ineffectiveTicks e + 1 else 0)
      in e\<lparr>eg_ineffectiveTicks := ticks,
           eg_status := (eg_status e)\<lparr>st_ineffective := (ticks \<ge> INEFFECTIVE_TICKS)\<rparr>\<rparr>)"

definition loadFrame :: "LiveInputs \<Rightarrow> number option \<Rightarrow> number option \<times> number" where
  "loadFrame live baselineLoadW =
     (let baselineW = max 0 (case baselineLoadW of Some b \<Rightarrow> b | None \<Rightarrow> 0)
      in (case li_loadW live of Some l \<Rightarrow> Some l | None \<Rightarrow> (if baselineLoadW = None then None else Some baselineW),
          baselineW))"

definition boostFloorPct :: "WeatherConfig \<Rightarrow> PeakShavingConfig \<Rightarrow> number" where
  "boostFloorPct weather ps = max (pc_evBoostLimitPct (ps_priceAware ps))
     (case sc_battery (wc_forecast weather) of Some b \<Rightarrow> fb_minSoc b | None \<Rightarrow> 0)"

definition forecast_slice :: "SolarForecast \<Rightarrow> ForecastSlice" where
  "forecast_slice f = \<lparr>fs_series = so_raw_series f, fs_stepMinutes = so_stepMinutes f,
     fs_utcOffsetSeconds = so_utcOffsetSeconds f, fs_timeZone = so_timeZone f\<rparr>"

definition decisionInputs ::
  "Eng \<Rightarrow> PeakShavingConfig \<Rightarrow> WeatherConfig \<Rightarrow> LiveInputs \<Rightarrow> SolarForecast option \<Rightarrow> number \<times> number
     \<Rightarrow> EvccState option \<Rightarrow> number option \<times> number \<Rightarrow> number \<Rightarrow> SpotSlice option \<Rightarrow> TariffConfig
     \<Rightarrow> DecisionInputs" where
  "decisionInputs e ps weather live forecast ev evcc load batteryV prices tariff =
     (let maxOutputW = (case sc_maxOutputW (wc_forecast weather) of Some m \<Rightarrow> m | None \<Rightarrow> 0)
      in \<lparr>in_mode = ps_mode ps, in_pvW = li_pvW live, in_socPct = li_socPct live, in_batteryV = batteryV,
          in_exportLimitW = max 0 (maxOutputW - ps_safetyBufferW ps),
          in_exportCapW = Some (max 0 maxOutputW),
          in_liveLoadW = (case fst load of Some l \<Rightarrow> l | None \<Rightarrow> 0), in_baselineLoadW = snd load,
          in_evIncludedInLoad = ((case evcc of Some s \<Rightarrow> ev_subtractFromHome s | None \<Rightarrow> False)
             \<and> li_loadW live \<noteq> None),
          in_evChargeW = fst ev, in_evRemainingKwh = snd ev,
          in_usableKwh = (case sc_battery (wc_forecast weather) of Some b \<Rightarrow> fb_usableKwh b | None \<Rightarrow> 0),
          in_maxChargeA = ps_maxChargeA ps, in_fallbackChargeA = ps_fallbackChargeA ps,
          in_topBalanceFloorA = ps_topBalanceFloorA ps, in_gridFriendly = ps_gridFriendly ps,
          in_previousThresholdW = eg_prevThresholdW e, in_previousTargetA = eg_prevTargetA e,
          in_sinceLastDecisionMs = (case eg_prevDecisionAtMs e of
             None \<Rightarrow> 0 | Some t \<Rightarrow> of_int (li_nowMs live - t)),
          in_forecast = map_option forecast_slice forecast,
          in_price = effectivePriceConfig (ps_priceAware ps) weather,
          in_priceView = prices,
          in_minSocPct = (case sc_battery (wc_forecast weather) of Some b \<Rightarrow> fb_minSoc b | None \<Rightarrow> 0),
          in_importFollowsMarket = (it_mode (tc_import tariff) = SpotTariff),
          in_nowMs = li_nowMs live\<rparr>)"

subsection \<open>The pack voltage\<close>

definition FALLBACK_NOMINAL_V :: number where "FALLBACK_NOMINAL_V = 512 / 10"

definition usableVolts :: "number option \<Rightarrow> number option" where
  "usableVolts v = (case v of Some x \<Rightarrow> if is_finite x \<and> x > 0 then Some x else None | None \<Rightarrow> None)"

definition resolveNominalV :: "number option \<Rightarrow> number option \<Rightarrow> number option \<Rightarrow> number option" where
  "resolveNominalV deviceValue legacyPlantValue legacyAutomationValue =
     (case deviceValue of Some v \<Rightarrow> Some v | None \<Rightarrow>
       (case legacyPlantValue of Some v \<Rightarrow> Some v | None \<Rightarrow> legacyAutomationValue))"

definition statedBatteryV :: "number option \<Rightarrow> PeakShavingConfig \<Rightarrow> WeatherConfig \<Rightarrow> number" where
  "statedBatteryV packNominalV ps weather =
     (case resolveNominalV (usableVolts packNominalV)
         (usableVolts (case sc_battery (wc_forecast weather) of Some b \<Rightarrow> fb_nominalV b | None \<Rightarrow> None))
         (usableVolts (Some (ps_nominalBatteryV ps))) of
        Some v \<Rightarrow> v | None \<Rightarrow> FALLBACK_NOMINAL_V)"

definition liveBatteryV :: "LiveInputs \<Rightarrow> PeakShavingConfig \<Rightarrow> WeatherConfig \<Rightarrow> number option \<Rightarrow> number" where
  "liveBatteryV live ps weather packNominalV = (case li_liveVolt live of
     Some v \<Rightarrow> if v > 0 then v else statedBatteryV packNominalV ps weather
   | None \<Rightarrow> statedBatteryV packNominalV ps weather)"

definition planLimits :: "number \<Rightarrow> WeatherConfig \<Rightarrow> PlanLimits" where
  "planLimits exportCapW weather = \<lparr>lim_exportCapW = exportCapW,
     lim_reserveSocPct = Some (case sc_battery (wc_forecast weather) of Some b \<Rightarrow> fb_minSoc b | None \<Rightarrow> 0)\<rparr>"

subsection \<open>The cars\<close>

definition heldLoadpoints :: "AutomationIO \<Rightarrow> AutomationState \<Rightarrow> nat list" where
  "heldLoadpoints io state =
     (let prefix = evcc_mode_prefix (di_id (io_device io))
      in List.map_filter (\<lambda>k. text_nat (drop (length prefix) k))
           (filter (\<lambda>k. starts_with k prefix) (map fst state)))"

definition noteEvError :: "exn \<Rightarrow> unit plant_act" where
  "noteEvError err = upd_status (\<lambda>s. s\<lparr>st_lastError := Some (exn_message err)\<rparr>)"

definition publishClaim :: "AutomationIO \<Rightarrow> EvPullInClaim \<Rightarrow> unit plant_act" where
  "publishClaim io claim =
     await (case ec_mode claim of None \<Rightarrow> ret ()
            | Some m \<Rightarrow> evccCommand io (ec_loadpoint claim) ''mode'' (EvText m)) (\<lambda>_.
     await (case ec_boostLimitPct claim of None \<Rightarrow> ret ()
            | Some l \<Rightarrow> evccCommand io (ec_loadpoint claim) ''batteryBoostLimit'' (EvNumber l)) (\<lambda>_.
     (case ec_boost claim of None \<Rightarrow> ret ()
      | Some b \<Rightarrow> evccCommand io (ec_loadpoint claim) ''batteryBoost'' (EvFlag b))))"

definition claimLoadpoint :: "AutomationIO \<Rightarrow> millis \<Rightarrow> EvPullInClaim \<Rightarrow> AutomationState \<Rightarrow> AutomationState plant_act" where
  "claimLoadpoint io capturedAt claim nxt =
     await (attempt (publishClaim io claim)) (\<lambda>r. case r of
       Inl err \<Rightarrow> await (noteEvError err) (\<lambda>_. ret nxt)
     | Inr _ \<Rightarrow> ret (case ec_remember claim of
         None \<Rightarrow> nxt
       | Some (mode, limit) \<Rightarrow>
           js_set (evccBoostLimitStateKey (di_id (io_device io)) (ec_loadpoint claim))
               \<lparr>as_previousValue = RegisterValue limit, as_capturedAt = capturedAt\<rparr>
             (js_set (evccModeStateKey (di_id (io_device io)) (ec_loadpoint claim))
               \<lparr>as_previousValue = TextValue mode, as_capturedAt = capturedAt\<rparr> nxt)))"

definition claimLoadpoints :: "AutomationIO \<Rightarrow> EvPullInPlan \<Rightarrow> millis \<Rightarrow> AutomationState \<Rightarrow> AutomationState plant_act" where
  "claimLoadpoints io plan capturedAt nxt = for_fold (ep_claim plan) (claimLoadpoint io capturedAt) nxt"

definition releaseLoadpoint :: "AutomationIO \<Rightarrow> EvPullInRelease \<Rightarrow> AutomationState \<Rightarrow> AutomationState plant_act" where
  "releaseLoadpoint io rel nxt =
     (let n = er_loadpoint rel;
          modeSlot = evccModeStateKey (di_id (io_device io)) n;
          limitSlot = evccBoostLimitStateKey (di_id (io_device io)) n
      in case js_get nxt modeSlot of
           None \<Rightarrow> ret nxt
         | Some snap \<Rightarrow>
             let limit = (case numericSnapshot (map_option as_previousValue (js_get nxt limitSlot)) of
                   Some l \<Rightarrow> l | None \<Rightarrow> BOOST_LIMIT_DISABLED)
             in await (attempt (await (evccCommand io n ''batteryBoost'' (EvFlag False)) (\<lambda>_.
                    await (evccCommand io n ''batteryBoostLimit'' (EvNumber limit)) (\<lambda>_.
                    run_if (er_restoreMode rel) (evccCommand io n ''mode'' (case as_previousValue snap of
                      TextValue m \<Rightarrow> EvText m | RegisterValue v \<Rightarrow> EvNumber v)))))) (\<lambda>r. case r of
                  Inl err \<Rightarrow> await (noteEvError err) (\<lambda>_. ret nxt)
                | Inr _ \<Rightarrow> ret (js_delete limitSlot (js_delete modeSlot nxt))))"

definition releaseLoadpoints :: "AutomationIO \<Rightarrow> EvPullInPlan \<Rightarrow> AutomationState \<Rightarrow> AutomationState plant_act" where
  "releaseLoadpoints io plan nxt = for_fold (ep_release plan) (releaseLoadpoint io) nxt"

definition applyEvPullIn :: "AutomationIO \<Rightarrow> PriceRegime \<Rightarrow> bool \<Rightarrow> number \<Rightarrow> unit plant_act" where
  "applyEvPullIn io regime enabled boostLimitPct = await (loadState io) (\<lambda>state.
     await (call (io_getEvcc io)) (\<lambda>evcc.
       let plan = planEvPullIn \<lparr>ei_enabled = enabled, ei_regime = regime, ei_evcc = evcc,
             ei_boostLimitPct = boostLimitPct, ei_heldLoadpoints = heldLoadpoints io state\<rparr>
       in if ep_claim plan = [] \<and> ep_release plan = [] then ret ()
          else await (call (io_now io)) (\<lambda>nowMs.
            await (claimLoadpoints io plan nowMs state) (\<lambda>nxt.
            await (releaseLoadpoints io plan nxt) (\<lambda>nxt'. saveState io nxt')))))"

definition releaseEvPullIn :: "AutomationIO \<Rightarrow> unit plant_act" where
  "releaseEvPullIn io = applyEvPullIn io RNone False BOOST_LIMIT_DISABLED"


subsection \<open>The tick\<close>

definition release :: "AutomationIO \<Rightarrow> PeakShavingRunState \<Rightarrow> unit plant_act" where
  "release io state =
     await (upd_status (\<lambda>s. s\<lparr>st_state := state, st_targetA := None, st_priceRegime := RNone\<rparr>)) (\<lambda>_.
     await resetSteering (\<lambda>_.
     await (restoreSnapshot io) (\<lambda>_.
     await (releaseEvPullIn io) (\<lambda>_.
     releaseGridCharge io))))"

definition claimRegister :: "AutomationIO \<Rightarrow> bool \<Rightarrow> number option \<Rightarrow> bool plant_act" where
  "claimRegister io shadow liveA =
     (if \<not> shadow then ensureSnapshot io (stateKeyOf io) liveA
      else await (restoreSnapshot io) (\<lambda>_. ret True))"

definition settle_decision :: "PeakShavingConfig \<Rightarrow> Decision \<Rightarrow> number \<Rightarrow> millis \<Rightarrow> Eng \<Rightarrow> Eng" where
  "settle_decision ps decision targetA nowMs e =
     e\<lparr>eg_status := (eg_status e)\<lparr>st_targetA := Some targetA,
         st_state := (if ps_shadowMode ps then Shadow else Active)\<rparr>,
       eg_prevThresholdW := Some (de_thresholdW decision), eg_prevTargetA := Some targetA,
       eg_prevDecisionAtMs := Some nowMs\<rparr>"

definition steer_live ::
  "AutomationIO \<Rightarrow> PeakShavingConfig \<Rightarrow> WeatherConfig \<Rightarrow> LiveInputs \<Rightarrow> SteeredLimit \<Rightarrow> Decision
     \<Rightarrow> number \<Rightarrow> number \<Rightarrow> number \<Rightarrow> unit plant_act" where
  "steer_live io ps weather live limit decision batteryV commanded targetA =
     await (writeTarget io limit commanded targetA live) (\<lambda>_.
     await (if ps_mode ps = GridFriendly then steerSellLimit io (de_thresholdW decision) live
            else releaseSellLimit io) (\<lambda>_.
     await (case de_gridChargeA decision of
              Some a \<Rightarrow> steerGridCharge io a batteryV live
            | None \<Rightarrow> releaseGridCharge io) (\<lambda>_.
     await (upd_eng (updateWatchdog live targetA commanded batteryV (de_headroomKwh decision))) (\<lambda>_.
     applyEvPullIn io (de_priceRegime decision) (pc_pullInEv (ps_priceAware ps)) (boostFloorPct weather ps)))))"

definition steer ::
  "AutomationIO \<Rightarrow> PeakShavingConfig \<Rightarrow> WeatherConfig \<Rightarrow> LiveInputs \<Rightarrow> SolarForecast option
     \<Rightarrow> SteeredLimit \<Rightarrow> number option \<Rightarrow> SpotSlice option \<Rightarrow> unit plant_act" where
  "steer io ps weather live forecast limit baselineLoadW prices =
     await (call (io_getEvcc io)) (\<lambda>evcc.
     await (call_or_throw (io_getPackNominalV io)) (\<lambda>packV.
     await (call_or_throw (io_getTariff io)) (\<lambda>tariff.
     await eng (\<lambda>e.
     let ev = evccAutomationInputs evcc;
         load = loadFrame live baselineLoadW;
         batteryV = liveBatteryV live ps weather packV;
         decision = decideTargetA (io_zone io)
           (decisionInputs e ps weather live forecast ev evcc load batteryV prices tariff);
         reachable = (case evcc of Some s \<Rightarrow> ev_reachable s | None \<Rightarrow> False);
         commanded = clampToRegister io (sl_key limit)
           (of_int (math_round (limitValue limit (de_targetA decision) batteryV)));
         targetA = of_int (math_round (limitAmps limit commanded batteryV))
     in await (upd_status (recordDecision decision live ev reachable (fst load) (eg_lastWrittenRegister e))) (\<lambda>_.
        await (upd_eng (settle_decision ps decision targetA (li_nowMs live))) (\<lambda>_.
        await (if ps_shadowMode ps
               then await (upd_eng (\<lambda>e. e\<lparr>eg_ineffectiveTicks := 0,
                        eg_status := (eg_status e)\<lparr>st_ineffective := False\<rparr>\<rparr>)) (\<lambda>_.
                    await (releaseEvPullIn io) (\<lambda>_. releaseGridCharge io))
               else steer_live io ps weather live limit decision batteryV commanded targetA) (\<lambda>_.
        upd_eng (\<lambda>e. e\<lparr>eg_pending := Some (de_localSinkW decision, li_nowMs live)\<rparr>))))))))"

definition isNight :: "LiveInputs \<Rightarrow> SolarForecast option \<Rightarrow> bool \<Rightarrow> bool" where
  "isNight live forecast priceActive \<longleftrightarrow> \<not> priceActive \<and> li_pvW live \<le> 0
     \<and> (case forecast of Some f \<Rightarrow> so_raw_maxPowerW f | None \<Rightarrow> 0) \<le> 0"

definition decideTick :: "AutomationIO \<Rightarrow> PeakShavingConfig \<Rightarrow> WeatherConfig \<Rightarrow> unit plant_act" where
  "decideTick io ps weather = await (liveOrHold io) (\<lambda>ready. case ready of
     None \<Rightarrow> upd_status (\<lambda>s. s\<lparr>st_state := Stale\<rparr>)
   | Some (limit, live) \<Rightarrow>
       await (call_or_throw (io_getPackNominalV io)) (\<lambda>packNominalV.
       await (upd_status (\<lambda>s. s\<lparr>st_liveA := map_option (\<lambda>l. of_int (math_round (limitAmps limit l
                (liveBatteryV live ps weather packNominalV)))) (li_liveLimit live),
              st_liveSellLimitW := li_sellLimitW live\<rparr>)) (\<lambda>_.
       await (call_or_throw (\<lambda>n. io_getForecast io n weather)) (\<lambda>forecast.
       await (upd_status (\<lambda>s. s\<lparr>st_forecastAvailable := (forecast \<noteq> None)\<rparr>)) (\<lambda>_.
       await (call_or_throw (io_getPrices io)) (\<lambda>prices.
       if isNight live forecast (insideNegativeWindow prices
            (effectivePriceConfig (ps_priceAware ps) weather) (li_nowMs live))
       then release io Idle
       else await (claimRegister io (ps_shadowMode ps) (li_liveLimit live)) (\<lambda>ok.
         if \<not> ok then upd_status (\<lambda>s. s\<lparr>st_state := Stale\<rparr>)
         else await (call_or_throw (\<lambda>n. io_getBaselineLoadW io n weather)) (\<lambda>baselineLoadW.
           steer io ps weather live forecast limit baselineLoadW prices))))))))"

definition simulateTick :: "AutomationIO \<Rightarrow> PeakShavingConfig \<Rightarrow> WeatherConfig \<Rightarrow> unit plant_act" where
  "simulateTick io ps weather = await status (\<lambda>s0.
     if st_blockers s0 \<noteq> [] then release io Disabled
     else await (decideTick io (ps\<lparr>ps_shadowMode := True\<rparr>) weather) (\<lambda>_.
       await status (\<lambda>s. if st_state s \<noteq> Shadow then release io Disabled
         else upd_status (\<lambda>s. s\<lparr>st_state := Simulating\<rparr>))))"

definition tick_body :: "AutomationIO \<Rightarrow> unit plant_act" where
  "tick_body io =
     await (upd_eng (\<lambda>e. e\<lparr>eg_status := (eg_status e)\<lparr>st_lastError := None\<rparr>, eg_pending := None\<rparr>)) (\<lambda>_.
     await (call_or_throw (io_getConfig io)) (\<lambda>cfg.
     let ps = ac_peakShaving cfg in
     await (upd_status (\<lambda>s. s\<lparr>st_mode := ps_mode ps, st_enabled := (ac_enabled cfg \<and> ps_enabled ps)\<rparr>)) (\<lambda>_.
     await (call_or_throw (io_getWeather io)) (\<lambda>weather.
     let blockers = resolvePeakShavingBlockers (io_device io) weather (ps_mode ps) in
     await (upd_status (\<lambda>s. s\<lparr>st_blockers := blockers,
              st_priceBlockers := resolvePriceAwareBlockers weather,
              st_usableKwh := map_option fb_usableKwh (sc_battery (wc_forecast weather))\<rparr>)) (\<lambda>_.
     if \<not> (ac_enabled cfg \<and> ps_enabled ps) then simulateTick io ps weather
     else if blockers \<noteq> [] then release io Blocked
     else decideTick io ps weather)))))"

definition flushDecision :: "AutomationIO \<Rightarrow> unit plant_act" where
  "flushDecision io = await eng (\<lambda>e. await (upd_eng (\<lambda>e. e\<lparr>eg_pending := None\<rparr>)) (\<lambda>_.
     case (eg_pending e, io_recordDecision io) of
       (Some (localSinkW, at_ms), Some record_it) \<Rightarrow>
         await (note_effect (RecordDecision localSinkW at_ms)) (\<lambda>_. await (call record_it) (\<lambda>_. ret ()))
     | _ \<Rightarrow> ret ()))"

definition runTick :: "AutomationIO \<Rightarrow> unit plant_act" where
  "runTick io = await (attempt (tick_body io)) (\<lambda>r.
     await (case r of
         Inl err \<Rightarrow> upd_status (\<lambda>s. s\<lparr>st_lastError := Some (exn_message err)\<rparr>)
       | Inr _ \<Rightarrow> ret ()) (\<lambda>_.
     await (call (io_now io)) (\<lambda>nowMs.
     await (upd_status (\<lambda>s. s\<lparr>st_lastTickAt := Some nowMs\<rparr>)) (\<lambda>_. flushDecision io))))"

definition planInputs :: "AutomationIO \<Rightarrow> (DecisionInputs \<times> ForecastSlice \<times> PlanLimits) option plant_act" where
  "planInputs io =
     await (call_or_throw (io_getConfig io)) (\<lambda>cfg.
     await (call_or_throw (io_getWeather io)) (\<lambda>weather.
     if resolvePeakShavingBlockers (io_device io) weather (ps_mode (ac_peakShaving cfg)) \<noteq> [] then ret None
     else await (liveOrHold io) (\<lambda>ready. case ready of
         None \<Rightarrow> ret None
       | Some (limit, live) \<Rightarrow>
           await (call_or_throw (\<lambda>n. io_getForecast io n weather)) (\<lambda>forecast. case forecast of
             None \<Rightarrow> ret None
           | Some f \<Rightarrow>
               await (call (io_getEvcc io)) (\<lambda>evcc.
               await (call_or_throw (\<lambda>n. io_getBaselineLoadW io n weather)) (\<lambda>baselineLoadW.
               await (call_or_throw (io_getPackNominalV io)) (\<lambda>packV.
               await (call_or_throw (io_getPrices io)) (\<lambda>prices.
               await (call_or_throw (io_getTariff io)) (\<lambda>tariff.
               await eng (\<lambda>e.
               let ps = ac_peakShaving cfg;
                   inputs = decisionInputs e ps weather live (Some f) (evccAutomationInputs evcc) evcc
                     (loadFrame live baselineLoadW) (liveBatteryV live ps weather packV) prices tariff
               in ret (Some (inputs, forecast_slice f, planLimits (the (in_exportCapW inputs)) weather))))))))))))"

definition plan :: "AutomationIO \<Rightarrow> (PeakShavingPlan \<times> PeakShavingPlan) option plant_act" where
  "plan io = await (planInputs io) (\<lambda>ready. ret (map_option (\<lambda>(inputs, forecast, limits).
     projectPeakShavingDays (io_zone io) inputs forecast limits) ready))"

subsection \<open>The queue of ticks\<close>

text \<open>
  \<open>tick\<close> chains a run behind the one before it and joins the last one when two are on their way;
  a run starts when the one before it has ended.
\<close>

record tick_queue =
  tq_depth :: nat
  tq_running :: bool

definition tick_request :: "tick_queue \<Rightarrow> tick_queue" where
  "tick_request q = (if tq_depth q \<ge> 2 then q else q\<lparr>tq_depth := tq_depth q + 1\<rparr>)"

definition run_start :: "tick_queue \<Rightarrow> tick_queue" where
  "run_start q = (if tq_depth q > 0 \<and> \<not> tq_running q then q\<lparr>tq_running := True\<rparr> else q)"

definition run_end :: "tick_queue \<Rightarrow> tick_queue" where
  "run_end q = (if tq_running q then q\<lparr>tq_running := False, tq_depth := tq_depth q - 1\<rparr> else q)"

end
