(* ===== verification/Register_Custody.thy ===== *)
theory Register_Custody
  imports Peak_Shaving_Engine
begin

text \<open>
  What the engine of \<^verbatim>\<open>peak-shaving-engine.ts\<close> does with the registers it borrows: their values are
  recorded before they are steered and given back whole, whatever fails in between.
\<close>

subsection \<open>Conditions on registers, stored state and log\<close>

definition plain :: "(plant \<Rightarrow> bool) \<Rightarrow> bool" where
  "plain P \<longleftrightarrow> (\<forall>w e n. P (w\<lparr>pt_eng := e, pt_calls := n\<rparr>) \<longleftrightarrow> P w)"

lemma plain_eng: "plain P \<Longrightarrow> P (w\<lparr>pt_eng := e\<rparr>) \<longleftrightarrow> P w"
  unfolding plain_def by (metis plant.surjective plant.update_convs(1) plant.update_convs(4))

lemma plain_calls: "plain P \<Longrightarrow> P (w\<lparr>pt_calls := n\<rparr>) \<longleftrightarrow> P w"
  unfolding plain_def by (metis plant.surjective plant.update_convs(1) plant.update_convs(4))

lemma keeps_await: "keeps P m \<Longrightarrow> (\<And>x. keeps P (f x)) \<Longrightarrow> keeps P (await m f)"
  by (rule valid_await)

lemma keeps_ret: "keeps P (ret x)" and keeps_throw: "keeps P (throw e)" and keeps_gets: "keeps P (gets f)"
  by (simp_all add: valid_ret valid_throw valid_gets)

lemma keeps_attempt: "keeps P m \<Longrightarrow> keeps P (attempt m)"
  by (rule valid_attempt)

lemma keeps_call: "plain P \<Longrightarrow> keeps P (call f)"
  unfolding valid_def call_def by (simp add: plain_calls)

lemma keeps_call_or_throw: "plain P \<Longrightarrow> keeps P (call_or_throw f)"
  unfolding call_or_throw_def by (intro keeps_await keeps_call valid_sum keeps_ret keeps_throw)

lemma keeps_upd_eng: "plain P \<Longrightarrow> keeps P (upd_eng f)"
  unfolding upd_eng_def by (rule valid_modify) (simp add: plain_eng)

lemma keeps_upd_status: "plain P \<Longrightarrow> keeps P (upd_status f)"
  unfolding upd_status_def by (rule keeps_upd_eng)

lemma keeps_reads: "keeps P eng" "keeps P status"
  unfolding eng_def status_def by (rule keeps_gets)+

lemma keeps_run_if': "keeps P m \<Longrightarrow> keeps P (run_if b m)"
  by (rule keeps_run_if)

lemmas keeps_intros = keeps_await keeps_ret keeps_throw keeps_attempt keeps_call keeps_call_or_throw
  keeps_upd_eng keeps_upd_status keeps_reads keeps_run_if' valid_if valid_option valid_sum valid_case_exn

lemma valid_loadState:
  assumes "plain P"
  shows "valid P (loadState io) (\<lambda>st w. P w \<and> pt_store w = st) P"
  unfolding loadState_def
  by (intro valid_await [OF keeps_call [OF assms]] valid_option valid_throw valid_gets) simp_all

lemma valid_note: "(\<And>w. P w \<Longrightarrow> Q () (w\<lparr>pt_log := pt_log w @ [(eff, pt_regs w, pt_store w)]\<rparr>)) \<Longrightarrow> valid P (note_effect eff) Q E"
  unfolding note_effect_def by (rule valid_modify)

lemma plant_swap: "w\<lparr>pt_calls := n, pt_regs := r\<rparr> = w\<lparr>pt_regs := r, pt_calls := n\<rparr>"
  "w\<lparr>pt_calls := n, pt_store := st\<rparr> = w\<lparr>pt_store := st, pt_calls := n\<rparr>"
  by simp_all

lemma valid_write:
  assumes "plain E" and "plain (Q ())"
    and "\<And>w. P w \<Longrightarrow> E (w\<lparr>pt_log := pt_log w @ [(WriteReg k v, pt_regs w, pt_store w)]\<rparr>)"
    and "\<And>w. P w \<Longrightarrow> E (w\<lparr>pt_log := pt_log w @ [(WriteReg k v, pt_regs w, pt_store w)], pt_regs := (pt_regs w)(k \<mapsto> v)\<rparr>)"
    and "\<And>w. P w \<Longrightarrow> Q () (w\<lparr>pt_log := pt_log w @ [(WriteReg k v, pt_regs w, pt_store w)], pt_regs := (pt_regs w)(k \<mapsto> v)\<rparr>)"
  shows "valid P (write_key io k v) Q E"
proof -
  define R where "R w \<longleftrightarrow> E w \<and> E (w\<lparr>pt_regs := (pt_regs w)(k \<mapsto> v)\<rparr>) \<and> Q () (w\<lparr>pt_regs := (pt_regs w)(k \<mapsto> v)\<rparr>)" for w
  have pe: "E (w\<lparr>pt_calls := n\<rparr>) \<longleftrightarrow> E w" "Q () (w\<lparr>pt_calls := n\<rparr>) \<longleftrightarrow> Q () w" for w n
    by (simp_all add: plain_calls [OF assms(1)] plain_calls [OF assms(2)])
  have callR: "keeps R (call f)" for f :: "nat \<Rightarrow> WriteOutcome"
  proof -
    have "R (w\<lparr>pt_calls := n\<rparr>) \<longleftrightarrow> R w" for w n
      using pe [where w = w and n = n] pe [where w = "w\<lparr>pt_regs := (pt_regs w)(k \<mapsto> v)\<rparr>" and n = n] unfolding R_def by (simp add: plant_swap)
    then show ?thesis unfolding valid_def call_def by simp
  qed
  show ?thesis unfolding write_key_def
  proof (rule valid_await [where R = "\<lambda>_. R"])
    show "valid P (note_effect (WriteReg k v)) (\<lambda>_. R) E"
      by (rule valid_note) (use assms(3-5) in \<open>simp add: R_def\<close>)
    fix u :: unit
    show "valid R (await (call (io_write io)) (\<lambda>out. case out of Written \<Rightarrow> set_register k v
       | Refused msg \<Rightarrow> throw (WriteRejected msg)
       | WriteFailed msg landed \<Rightarrow> await (run_if landed (set_register k v)) (\<lambda>_. throw (Thrown msg)))) Q E"
    proof (rule valid_await [where R = "\<lambda>_. R"])
      show "valid R (call (io_write io)) (\<lambda>_. R) E"
        by (rule valid_weaken [OF callR]) (auto simp: R_def)
      fix out
      show "valid R (case out of Written \<Rightarrow> set_register k v | Refused msg \<Rightarrow> throw (WriteRejected msg)
         | WriteFailed msg landed \<Rightarrow> await (run_if landed (set_register k v)) (\<lambda>_. throw (Thrown msg))) Q E"
        by (cases out) (auto simp: R_def valid_def set_register_def modify_def throw_def await_def run_if_def ret_def)
    qed
  qed
qed

lemma valid_save:
  assumes "plain E" and "plain (Q ())"
    and "\<And>w. P w \<Longrightarrow> E (w\<lparr>pt_log := pt_log w @ [(SaveState nxt, pt_regs w, pt_store w)]\<rparr>)"
    and "\<And>w. P w \<Longrightarrow> E (w\<lparr>pt_log := pt_log w @ [(SaveState nxt, pt_regs w, pt_store w)], pt_store := nxt\<rparr>)"
    and "\<And>w. P w \<Longrightarrow> Q () (w\<lparr>pt_log := pt_log w @ [(SaveState nxt, pt_regs w, pt_store w)], pt_store := nxt\<rparr>)"
  shows "valid P (saveState io nxt) Q E"
proof -
  define R where "R w \<longleftrightarrow> E w \<and> E (w\<lparr>pt_store := nxt\<rparr>) \<and> Q () (w\<lparr>pt_store := nxt\<rparr>)" for w
  have pe: "E (w\<lparr>pt_calls := n\<rparr>) \<longleftrightarrow> E w" "Q () (w\<lparr>pt_calls := n\<rparr>) \<longleftrightarrow> Q () w" for w n
    by (simp_all add: plain_calls [OF assms(1)] plain_calls [OF assms(2)])
  have callR: "keeps R (call f)" for f :: "nat \<Rightarrow> SaveOutcome"
  proof -
    have "R (w\<lparr>pt_calls := n\<rparr>) \<longleftrightarrow> R w" for w n
      using pe [where w = w and n = n] pe [where w = "w\<lparr>pt_store := nxt\<rparr>" and n = n] unfolding R_def by (simp add: plant_swap)
    then show ?thesis unfolding valid_def call_def by simp
  qed
  show ?thesis unfolding saveState_def
  proof (rule valid_await [where R = "\<lambda>_. R"])
    show "valid P (note_effect (SaveState nxt)) (\<lambda>_. R) E"
      by (rule valid_note) (use assms(3-5) in \<open>simp add: R_def\<close>)
    fix u :: unit
    show "valid R (await (call (io_saveState io)) (\<lambda>out. case out of Saved \<Rightarrow> set_store nxt
       | SaveFailed msg landed \<Rightarrow> await (run_if landed (set_store nxt)) (\<lambda>_. throw (Thrown msg)))) Q E"
    proof (rule valid_await [where R = "\<lambda>_. R"])
      show "valid R (call (io_saveState io)) (\<lambda>_. R) E"
        by (rule valid_weaken [OF callR]) (auto simp: R_def)
      fix out
      show "valid R (case out of Saved \<Rightarrow> set_store nxt
         | SaveFailed msg landed \<Rightarrow> await (run_if landed (set_store nxt)) (\<lambda>_. throw (Thrown msg))) Q E"
        by (cases out) (auto simp: R_def valid_def set_store_def modify_def throw_def await_def run_if_def ret_def)
    qed
  qed
qed


subsection \<open>Custody\<close>

text \<open>
  A borrowed register is one whose slot is held. \<open>user\<close> gives the value the user set each register
  to: an unheld slot's register has it, and a held slot's snapshot is it.
\<close>

type_synonym custody = "(string \<times> string option) list"

definition slots_distinct :: "custody \<Rightarrow> bool" where
  "slots_distinct c \<longleftrightarrow> (\<forall>s1 s2 k1 k2. (s1, Some k1) \<in> set c \<longrightarrow> (s2, Some k2) \<in> set c \<longrightarrow> (s1 = s2 \<longleftrightarrow> k1 = k2))"

definition in_custody :: "custody \<Rightarrow> (string \<Rightarrow> number) \<Rightarrow> registers \<Rightarrow> AutomationState \<Rightarrow> bool" where
  "in_custody c user regs store \<longleftrightarrow> (\<forall>slot k. (slot, Some k) \<in> set c \<longrightarrow>
     (case js_get store slot of None \<Rightarrow> regs k = Some (user k)
      | Some snap \<Rightarrow> as_previousValue snap = RegisterValue (user k)))"

definition all_in_custody :: "custody \<Rightarrow> (string \<Rightarrow> number) \<Rightarrow> plant \<Rightarrow> bool" where
  "all_in_custody c user w \<longleftrightarrow> in_custody c user (pt_regs w) (pt_store w)
     \<and> (\<forall>(eff, regs, store)\<in>set (pt_log w). in_custody c user regs store)"

text \<open>
  What a tick knows beside it: for the slots in \<open>D\<close>, that the reading it would record is the user's
  value or missing as long as nothing is recorded; the slots in \<open>H\<close> are held.
\<close>

definition tick_inv ::
  "custody \<Rightarrow> (string \<Rightarrow> number) \<Rightarrow> (string \<Rightarrow> number option) \<Rightarrow> string set \<Rightarrow> string set \<Rightarrow> plant \<Rightarrow> bool" where
  "tick_inv c user lives D H w \<longleftrightarrow> all_in_custody c user w
     \<and> (\<forall>slot k. (slot, Some k) \<in> set c \<longrightarrow> slot \<in> D \<longrightarrow> js_get (pt_store w) slot = None \<longrightarrow>
          lives slot = None \<or> lives slot = Some (user k))
     \<and> (\<forall>slot\<in>H. js_get (pt_store w) slot \<noteq> None)"

lemma plain_tick_inv [simp]: "plain (tick_inv c user lives D H)"
  unfolding plain_def tick_inv_def all_in_custody_def by simp

lemma plain_conj: "plain P \<Longrightarrow> plain Q \<Longrightarrow> plain (\<lambda>w. P w \<and> Q w)"
  unfolding plain_def by simp

lemma plain_store [simp]: "plain (\<lambda>w. p (pt_regs w) (pt_store w))"
  unfolding plain_def by simp

lemma plain_imp: "plain P \<Longrightarrow> plain (\<lambda>w. b \<longrightarrow> P w)"
  unfolding plain_def by simp

lemma tick_inv_mono: "tick_inv c user lives D H w \<Longrightarrow> D' \<subseteq> D \<Longrightarrow> H' \<subseteq> H \<Longrightarrow> tick_inv c user lives D' H' w"
  unfolding tick_inv_def by blast

lemma keeps_note: "keeps (tick_inv c user lives D H) (note_effect eff)"
  by (rule valid_note) (auto simp: tick_inv_def all_in_custody_def)

lemma keeps_evcc: "keeps (tick_inv c user lives D H) (evccCommand io lp action v)"
  unfolding evccCommand_def by (intro keeps_await keeps_call valid_option keeps_throw keeps_note plain_tick_inv)

text \<open>A write to a held register.\<close>

lemma custody_write:
  assumes "slots_distinct c" and "(slot, Some k) \<in> set c" and "js_get store slot \<noteq> None"
    and "in_custody c user regs store"
  shows "in_custody c user (regs(k \<mapsto> v)) store"
  unfolding in_custody_def
proof (intro allI impI)
  fix slot' k' assume c': "(slot', Some k') \<in> set c"
  have "k = k' \<longrightarrow> slot = slot'" using assms(1) assms(2) c' unfolding slots_distinct_def by blast
  then show "case js_get store slot' of None \<Rightarrow> (regs(k \<mapsto> v)) k' = Some (user k')
      | Some snap \<Rightarrow> as_previousValue snap = RegisterValue (user k')"
    using assms(3) assms(4) [unfolded in_custody_def, rule_format, OF c'] by (auto split: option.splits)
qed

lemma tick_inv_write:
  assumes "slots_distinct c" and "(slot, Some k) \<in> set c" and "js_get (pt_store w) slot \<noteq> None"
    and "tick_inv c user lives D H w"
  shows "tick_inv c user lives D H (w\<lparr>pt_log := pt_log w @ [(eff, pt_regs w, pt_store w)], pt_regs := (pt_regs w)(k \<mapsto> v)\<rparr>)"
  using assms custody_write [OF assms(1-3)] unfolding tick_inv_def all_in_custody_def by auto

lemma tick_inv_note: "tick_inv c user lives D H w \<Longrightarrow>
    tick_inv c user lives D H (w\<lparr>pt_log := pt_log w @ [(eff, pt_regs w, pt_store w)]\<rparr>)"
  unfolding tick_inv_def all_in_custody_def by auto

lemma keeps_write:
  assumes "slots_distinct c" and "(slot, Some k) \<in> set c" and "slot \<in> H"
  shows "keeps (tick_inv c user lives D H) (write_key io k v)"
proof -
  have held: "js_get (pt_store w) slot \<noteq> None" if "tick_inv c user lives D H w" for w
    using that assms(3) unfolding tick_inv_def by blast
  show ?thesis
    by (rule valid_write) (simp_all add: tick_inv_note tick_inv_write [OF assms(1) assms(2) held])
qed

lemma keeps_writeRegister:
  assumes "slots_distinct c" and "(slot, Some k) \<in> set c" and "slot \<in> H"
  shows "keeps (tick_inv c user lives D H) (writeRegister io k v live nowMs)"
  unfolding writeRegister_def by (intro keeps_intros keeps_write [OF assms] plain_tick_inv)

subsection \<open>Handing back\<close>

text \<open>
  The state of a hand-back: \<open>state\<close> is what was loaded and is still stored, \<open>nxt\<close> the copy whose
  restored slots have been dropped.
\<close>

definition handing :: "custody \<Rightarrow> (string \<Rightarrow> number) \<Rightarrow> (string \<Rightarrow> number option) \<Rightarrow> string set \<Rightarrow> string set
    \<Rightarrow> AutomationState \<Rightarrow> string set \<Rightarrow> AutomationState \<Rightarrow> plant \<Rightarrow> bool" where
  "handing c user lives D H state R nxt w \<longleftrightarrow> tick_inv c user lives D H w \<and> pt_store w = state
     \<and> in_custody c user (pt_regs w) nxt \<and> (\<forall>slot. slot \<notin> R \<longrightarrow> js_get nxt slot = js_get state slot)
     \<and> (\<forall>slot. js_get nxt slot = js_get state slot \<or> js_get nxt slot = None)"

lemma plain_handing [simp]: "plain (handing c user lives D H state R nxt)"
  using plain_tick_inv unfolding plain_def handing_def by simp

lemma handing_start: "tick_inv c user lives D H w \<Longrightarrow> handing c user lives D H (pt_store w) {} (pt_store w) w"
  unfolding handing_def tick_inv_def all_in_custody_def by simp

lemma valid_replay:
  assumes dis: "slots_distinct c" and slot: "(slot, key) \<in> set c" and snap: "js_get state slot = Some snap"
    and nxt: "js_get nxt slot = Some snap"
  shows "valid (handing c user lives D H state R nxt) (replaySnapshot io key (as_previousValue snap))
     (\<lambda>restored w. handing c user lives D H state R nxt w
        \<and> (restored \<longrightarrow> handing c user lives D H state (insert slot R) (js_delete slot nxt) w))
     (handing c user lives D H state R nxt)"
proof (cases "present key")
  case False
  then show ?thesis unfolding replaySnapshot_def by (simp add: valid_ret)
next
  case True
  then obtain k where k: "key = Some k" unfolding present_def by (cases key) auto
  have v: "as_previousValue snap = RegisterValue (user k)" if "handing c user lives D H state R nxt w" for w
    using that slot snap k unfolding handing_def in_custody_def tick_inv_def all_in_custody_def
    by (auto split: option.splits)
  define I where "I = handing c user lives D H state R nxt"
  define J where "J w \<longleftrightarrow> I w \<and> handing c user lives D H state (insert slot R) (js_delete slot nxt) w" for w
  have pI: "plain I" unfolding I_def by simp
  have pJ: "plain J" unfolding J_def I_def by (intro plain_conj plain_handing)
  have wr: "valid I (write_key io k (user k)) (\<lambda>_. J) I"
  proof (rule valid_write [OF pI pJ])
    fix w assume w: "I w"
    show noted: "I (w\<lparr>pt_log := pt_log w @ [(WriteReg k (user k), pt_regs w, pt_store w)]\<rparr>)"
      using w tick_inv_note unfolding I_def handing_def by auto
    have st: "js_get (pt_store w) slot \<noteq> None" using w snap unfolding I_def handing_def by auto
    have slotk: "(slot, Some k) \<in> set c" using slot k by simp
    have tick: "tick_inv c user lives D H (w\<lparr>pt_log := pt_log w @ [(WriteReg k (user k), pt_regs w, pt_store w)],
        pt_regs := (pt_regs w)(k \<mapsto> user k)\<rparr>)"
      by (rule tick_inv_write [OF dis slotk st]) (use w in \<open>simp add: I_def handing_def\<close>)
    have nx: "in_custody c user ((pt_regs w)(k \<mapsto> user k)) nxt"
      by (rule custody_write [OF dis slotk]) (use w nxt in \<open>simp_all add: I_def handing_def\<close>)
    show wrote: "I (w\<lparr>pt_log := pt_log w @ [(WriteReg k (user k), pt_regs w, pt_store w)],
        pt_regs := (pt_regs w)(k \<mapsto> user k)\<rparr>)"
      using w tick nx unfolding I_def handing_def by simp
    have del: "in_custody c user ((pt_regs w)(k \<mapsto> user k)) (js_delete slot nxt)"
      unfolding in_custody_def
    proof (intro allI impI)
      fix slot' k' assume c': "(slot', Some k') \<in> set c"
      have "slot = slot' \<longleftrightarrow> k = k'" using dis slotk c' unfolding slots_distinct_def by blast
      then show "case js_get (js_delete slot nxt) slot' of None \<Rightarrow> ((pt_regs w)(k \<mapsto> user k)) k' = Some (user k')
          | Some snap \<Rightarrow> as_previousValue snap = RegisterValue (user k')"
        using nx [unfolded in_custody_def, rule_format, OF c'] by (auto split: option.splits)
    qed
    show "J (w\<lparr>pt_log := pt_log w @ [(WriteReg k (user k), pt_regs w, pt_store w)],
        pt_regs := (pt_regs w)(k \<mapsto> user k)\<rparr>)"
      unfolding J_def using wrote tick del w unfolding I_def handing_def by auto
  qed
  show ?thesis
  proof (cases "\<exists>w. I w")
    case False
    then show ?thesis unfolding valid_def I_def by blast
  next
    case True
    then have num: "numericSnapshot (Some (as_previousValue snap)) = Some (user k)"
      using v unfolding I_def numericSnapshot_def by auto
    have "valid I (await (attempt (write_key io k (user k))) (\<lambda>r. case r of
            Inl err \<Rightarrow> await (upd_status (\<lambda>s. s\<lparr>st_lastError := Some (case err of
                WriteRejected msg \<Rightarrow> ''restore failed: '' @ msg | Thrown msg \<Rightarrow> msg)\<rparr>)) (\<lambda>_. ret False)
          | Inr _ \<Rightarrow> ret True)) (\<lambda>restored w. I w \<and> (restored \<longrightarrow> J w)) I"
    proof (rule valid_await [where R = "\<lambda>r w. case r of Inl _ \<Rightarrow> I w | Inr _ \<Rightarrow> J w"])
      show "valid I (attempt (write_key io k (user k))) (\<lambda>r w. case r of Inl _ \<Rightarrow> I w | Inr _ \<Rightarrow> J w) I"
        by (rule valid_attempt [where F = I]) (use wr in simp_all)
      fix r :: "exn + unit"
      show "valid (\<lambda>w. case r of Inl _ \<Rightarrow> I w | Inr _ \<Rightarrow> J w) (case r of
            Inl err \<Rightarrow> await (upd_status (\<lambda>s. s\<lparr>st_lastError := Some (case err of
                WriteRejected msg \<Rightarrow> ''restore failed: '' @ msg | Thrown msg \<Rightarrow> msg)\<rparr>)) (\<lambda>_. ret False)
          | Inr _ \<Rightarrow> ret True) (\<lambda>restored w. I w \<and> (restored \<longrightarrow> J w)) I"
      proof (cases r)
        case (Inl err)
        then show ?thesis
          by (auto intro!: valid_await [where R = "\<lambda>_. I"] keeps_upd_status [OF pI] valid_ret)
      next
        case (Inr u)
        then show ?thesis by (auto intro!: valid_ret simp: J_def)
      qed
    qed
    then show ?thesis
      unfolding replaySnapshot_def num using \<open>present key\<close> k unfolding I_def J_def
      by (auto elim: valid_weaken)
  qed
qed

lemma handing_weaken:
  assumes "handing c user lives D H state R nxt w" and "R \<subseteq> R'"
  shows "handing c user lives D H state R' nxt w"
  using assms unfolding handing_def by (auto dest!: subsetD)

lemma handing_tick: "handing c user lives D H state R nxt w \<Longrightarrow> tick_inv c user lives D H w"
  unfolding handing_def by simp

definition restore_one :: "AutomationIO \<Rightarrow> AutomationState \<Rightarrow> string \<times> string option \<Rightarrow> AutomationState \<times> bool
    \<Rightarrow> (AutomationState \<times> bool) plant_act" where
  "restore_one io state x a = (case js_get state (fst x) of
     None \<Rightarrow> ret a
   | Some snap \<Rightarrow> await (replaySnapshot io (snd x) (as_previousValue snap)) (\<lambda>restored.
       ret (if restored then (js_delete (fst x) (fst a), snd a) else (fst a, True))))"

lemma restore_slots_alt: "restore_slots io state slots = for_fold slots (restore_one io state) (state, False)"
proof -
  have "(\<lambda>(slot, key) (nxt, stillHeld). case js_get state slot of
       None \<Rightarrow> ret (nxt, stillHeld)
     | Some snap \<Rightarrow> await (replaySnapshot io key (as_previousValue snap)) (\<lambda>restored.
         ret (if restored then (js_delete slot nxt, stillHeld) else (nxt, True)))) = restore_one io state"
  proof (intro ext)
    fix x :: "string \<times> string option" and a :: "AutomationState \<times> bool" and w
    obtain slot key nxt held where eq: "x = (slot, key)" "a = (nxt, held)" by (cases x; cases a)
    show "(case x of (slot, key) \<Rightarrow> \<lambda>(nxt, stillHeld). case js_get state slot of
       None \<Rightarrow> ret (nxt, stillHeld)
     | Some snap \<Rightarrow> await (replaySnapshot io key (as_previousValue snap)) (\<lambda>restored.
         ret (if restored then (js_delete slot nxt, stillHeld) else (nxt, True)))) a w = restore_one io state x a w"
      unfolding eq restore_one_def prod.case fst_conv snd_conv by (rule refl)
  qed
  then show ?thesis unfolding restore_slots_def by metis
qed

lemma valid_restore_loop:
  assumes dis: "slots_distinct c" and "set slots \<subseteq> set c" and "distinct (map fst slots)"
    and "fst ` set slots \<inter> R = {}"
  shows "valid (handing c user lives D H state R nxt) (for_fold slots (restore_one io state) (nxt, held))
     (\<lambda>a. handing c user lives D H state (R \<union> fst ` set slots) (fst a)) (tick_inv c user lives D H)"
  using assms(2-4)
proof (induction slots arbitrary: R nxt held)
  case Nil
  then show ?case by (simp add: valid_ret)
next
  case (Cons x slots)
  obtain slot key where x: "x = (slot, key)" by (cases x)
  have slot: "(slot, key) \<in> set c" "slot \<notin> R" using Cons.prems x by auto
  define G where "G a = handing c user lives D H state (insert slot R) (fst a)" for a :: "AutomationState \<times> bool"
  have one: "valid (handing c user lives D H state R nxt) (restore_one io state x (nxt, held)) G (tick_inv c user lives D H)"
    unfolding restore_one_def x fst_conv snd_conv
  proof (rule valid_option)
    show "valid (handing c user lives D H state R nxt) (ret (nxt, held)) G (tick_inv c user lives D H)"
      unfolding G_def by (rule valid_ret) (auto intro: handing_weaken)
    fix snap assume snap: "js_get state slot = Some snap"
    show "valid (handing c user lives D H state R nxt)
        (await (replaySnapshot io key (as_previousValue snap)) (\<lambda>restored.
           ret (if restored then (js_delete slot nxt, held) else (nxt, True)))) G (tick_inv c user lives D H)"
    proof (cases "js_get nxt slot = Some snap")
      case False
      then have "\<not> handing c user lives D H state R nxt w" for w
        using slot(2) snap unfolding handing_def by auto
      then show ?thesis unfolding valid_def by blast
    next
      case True
      show ?thesis
      proof (rule valid_await)
        show "valid (handing c user lives D H state R nxt) (replaySnapshot io key (as_previousValue snap))
           (\<lambda>restored w. handing c user lives D H state R nxt w
              \<and> (restored \<longrightarrow> handing c user lives D H state (insert slot R) (js_delete slot nxt) w))
           (tick_inv c user lives D H)"
          by (rule valid_weaken [OF valid_replay [OF dis slot(1) snap True]]) (auto dest: handing_tick)
        fix restored
        show "valid (\<lambda>w. handing c user lives D H state R nxt w
            \<and> (restored \<longrightarrow> handing c user lives D H state (insert slot R) (js_delete slot nxt) w))
          (ret (if restored then (js_delete slot nxt, held) else (nxt, True))) G (tick_inv c user lives D H)"
          unfolding G_def by (rule valid_ret) (auto intro: handing_weaken)
      qed
    qed
  qed
  show ?case unfolding for_fold.simps
  proof (rule valid_await [OF one])
    fix a :: "AutomationState \<times> bool"
    have "valid (handing c user lives D H state (insert slot R) (fst a))
        (for_fold slots (restore_one io state) (fst a, snd a))
        (\<lambda>b. handing c user lives D H state (insert slot R \<union> fst ` set slots) (fst b)) (tick_inv c user lives D H)"
      by (rule Cons.IH) (use Cons.prems x in auto)
    then show "valid (G a) (for_fold slots (restore_one io state) a)
        (\<lambda>b. handing c user lives D H state (R \<union> fst ` set (x # slots)) (fst b)) (tick_inv c user lives D H)"
      unfolding G_def by (simp add: x)
  qed
qed

lemma valid_restore_slots:
  assumes "slots_distinct c" and "set slots \<subseteq> set c" and "distinct (map fst slots)"
  shows "valid (\<lambda>w. tick_inv c user lives D H w \<and> pt_store w = state) (restore_slots io state slots)
     (\<lambda>a. handing c user lives D H state (fst ` set slots) (fst a)) (tick_inv c user lives D H)"
  unfolding restore_slots_alt
  by (rule valid_weaken [OF valid_restore_loop [OF assms, where R = "{}"]]) (auto intro: handing_start)

lemma tick_inv_store:
  assumes "tick_inv c user lives D H w" and "in_custody c user (pt_regs w) nxt"
    and same: "\<And>slot. slot \<in> D \<union> H \<Longrightarrow> js_get nxt slot = js_get (pt_store w) slot"
  shows "tick_inv c user lives D H (w\<lparr>pt_log := pt_log w @ [(eff, pt_regs w, pt_store w)], pt_store := nxt\<rparr>)"
  unfolding tick_inv_def
proof (intro conjI allI impI ballI)
  show "all_in_custody c user (w\<lparr>pt_log := pt_log w @ [(eff, pt_regs w, pt_store w)], pt_store := nxt\<rparr>)"
    using assms(1) assms(2) unfolding tick_inv_def all_in_custody_def by auto
  fix slot k
  assume "(slot, Some k) \<in> set c" and D: "slot \<in> D"
    and "js_get (pt_store (w\<lparr>pt_log := pt_log w @ [(eff, pt_regs w, pt_store w)], pt_store := nxt\<rparr>)) slot = None"
  then show "lives slot = None \<or> lives slot = Some (user k)"
    using assms(1) same [of slot] unfolding tick_inv_def by auto
next
  fix slot assume "slot \<in> H"
  then show "js_get (pt_store (w\<lparr>pt_log := pt_log w @ [(eff, pt_regs w, pt_store w)], pt_store := nxt\<rparr>)) slot \<noteq> None"
    using assms(1) same [of slot] unfolding tick_inv_def by auto
qed

text \<open>Storing what is left of the state after a hand-back that touched none of \<open>D\<close> and \<open>H\<close>.\<close>

lemma valid_save_left:
  assumes "R \<inter> (D \<union> H) = {}"
  shows "valid (handing c user lives D H state R nxt) (saveState io nxt) (\<lambda>_. tick_inv c user lives D H) (tick_inv c user lives D H)"
proof (rule valid_save)
  fix w assume w: "handing c user lives D H state R nxt w"
  show "tick_inv c user lives D H (w\<lparr>pt_log := pt_log w @ [(SaveState nxt, pt_regs w, pt_store w)]\<rparr>)"
    using handing_tick [OF w] by (rule tick_inv_note)
  show "tick_inv c user lives D H (w\<lparr>pt_log := pt_log w @ [(SaveState nxt, pt_regs w, pt_store w)], pt_store := nxt\<rparr>)"
    using w assms unfolding handing_def by (intro tick_inv_store) auto
  then show "tick_inv c user lives D H (w\<lparr>pt_log := pt_log w @ [(SaveState nxt, pt_regs w, pt_store w)], pt_store := nxt\<rparr>)" .
qed simp_all

lemma keeps_hand_back:
  assumes "slots_distinct c" and "set slots \<subseteq> set c" and "distinct (map fst slots)"
    and "fst ` set slots \<inter> (D \<union> H) = {}"
    and "\<And>a. keeps (tick_inv c user lives D H) (after a)"
  shows "keeps (tick_inv c user lives D H) (await (loadState io) (\<lambda>state.
     await (restore_slots io state slots) (\<lambda>a.
     await (run_if (length (fst a) \<noteq> length state) (saveState io (fst a))) (\<lambda>_. after a))))"
proof (rule valid_await [OF valid_loadState [OF plain_tick_inv]])
  fix state
  show "valid (\<lambda>w. tick_inv c user lives D H w \<and> pt_store w = state)
     (await (restore_slots io state slots) (\<lambda>a.
      await (run_if (length (fst a) \<noteq> length state) (saveState io (fst a))) (\<lambda>_. after a)))
     (\<lambda>_. tick_inv c user lives D H) (tick_inv c user lives D H)"
  proof (rule valid_await [OF valid_restore_slots [OF assms(1-3)]])
    fix a :: "AutomationState \<times> bool"
    have "valid (handing c user lives D H state (fst ` set slots) (fst a))
        (run_if (length (fst a) \<noteq> length state) (saveState io (fst a)))
        (\<lambda>_. tick_inv c user lives D H) (tick_inv c user lives D H)"
      unfolding run_if_def
      by (intro valid_if valid_save_left [OF assms(4)] valid_ret) (auto dest: handing_tick)
    then show "valid (handing c user lives D H state (fst ` set slots) (fst a))
        (await (run_if (length (fst a) \<noteq> length state) (saveState io (fst a))) (\<lambda>_. after a))
        (\<lambda>_. tick_inv c user lives D H) (tick_inv c user lives D H)"
      by (rule valid_await) (rule assms(5))
  qed
qed


subsection \<open>The engine's own registers\<close>

definition custody_of :: "AutomationIO \<Rightarrow> custody" where
  "custody_of io = steeredRegisters io @ gridChargeRegisters io"

definition keys_distinct :: "AutomationIO \<Rightarrow> bool" where
  "keys_distinct io \<longleftrightarrow> distinct (List.map_filter snd (custody_of io))"

lemma custody_slots:
  "distinct (map fst (custody_of io))"
  "map fst (custody_of io) = [stateKeyOf io, sellSlotOf io, gridChargeSlotOf io, gridChargeASlotOf io]"
  unfolding custody_of_def steeredRegisters_def gridChargeRegisters_def sellSlotOf_def gridChargeSlotOf_def
    gridChargeASlotOf_def
  by simp_all

lemma map_filter_snd_distinct:
  assumes "distinct (List.map_filter snd c)" and "distinct (map fst c)"
  shows "slots_distinct c"
  using assms
proof (induction c)
  case Nil
  then show ?case by (simp add: slots_distinct_def)
next
  case (Cons x c)
  obtain s v where x: "x = (s, v)" by (cases x)
  have tail: "slots_distinct c"
    using Cons by (cases v) (auto simp: x map_filter_simps)
  have s: "(s, k) \<notin> set c" for k using Cons.prems(2) x by force
  have v: "v = Some k \<Longrightarrow> (s', Some k) \<notin> set c" for k s'
  proof
    assume v: "v = Some k" and "(s', Some k) \<in> set c"
    then have "k \<in> set (List.map_filter snd c)" by (force simp: List.map_filter_def)
    then show False using Cons.prems(1) x v by (simp add: map_filter_simps)
  qed
  show ?case using tail s v unfolding slots_distinct_def x by auto
qed

lemma custody_distinct: "keys_distinct io \<Longrightarrow> slots_distinct (custody_of io)"
  unfolding keys_distinct_def using custody_slots(1) by (rule map_filter_snd_distinct [rotated])

lemma ev_slots_apart:
  "slot \<in> fst ` set (custody_of io) \<Longrightarrow> slot \<noteq> evccModeStateKey (di_id (io_device io)) n"
  "slot \<in> fst ` set (custody_of io) \<Longrightarrow> slot \<noteq> evccBoostLimitStateKey (di_id (io_device io)) n"
  unfolding custody_of_def steeredRegisters_def gridChargeRegisters_def sellSlotOf_def gridChargeSlotOf_def
    gridChargeASlotOf_def stateKeyOf_def automationStateKey_def PEAK_SHAVING_ID_def evccModeStateKey_def
    evccBoostLimitStateKey_def evcc_mode_prefix_def
  by auto

abbreviation inv_of :: "AutomationIO \<Rightarrow> (string \<Rightarrow> number) \<Rightarrow> (string \<Rightarrow> number option) \<Rightarrow> string set \<Rightarrow> string set
    \<Rightarrow> plant \<Rightarrow> bool" where
  "inv_of io user lives D H \<equiv> tick_inv (custody_of io) user lives D H"

lemma keeps_restoreSnapshot:
  assumes "keys_distinct io" and "{stateKeyOf io, sellSlotOf io} \<inter> (D \<union> H) = {}"
  shows "keeps (inv_of io user lives D H) (restoreSnapshot io)"
proof -
  define after where "after a = await (upd_status (\<lambda>s. s\<lparr>st_restorePending := snd a\<rparr>)) (\<lambda>_.
     run_if (\<not> snd a) (upd_status (\<lambda>s. s\<lparr>st_lastWrittenA := None, st_sellLimitW := None,
       st_externalOverride := False\<rparr>)))" for a :: "AutomationState \<times> bool"
  have "keeps (inv_of io user lives D H) (await (loadState io) (\<lambda>state.
     await (restore_slots io state (steeredRegisters io)) (\<lambda>a.
     await (run_if (length (fst a) \<noteq> length state) (saveState io (fst a))) (\<lambda>_. after a))))"
  proof (rule keeps_hand_back)
    show "slots_distinct (custody_of io)" using assms(1) by (rule custody_distinct)
    show "distinct (map fst (steeredRegisters io))" unfolding steeredRegisters_def sellSlotOf_def by simp
    show "fst ` set (steeredRegisters io) \<inter> (D \<union> H) = {}" using assms(2) unfolding steeredRegisters_def by simp
    show "keeps (inv_of io user lives D H) (after a)" for a
      unfolding after_def by (intro keeps_intros plain_tick_inv)
  qed (simp add: custody_of_def)
  then show ?thesis unfolding restoreSnapshot_def after_def split_beta' .
qed

lemma keeps_releaseGridCharge:
  assumes "keys_distinct io" and "{gridChargeSlotOf io, gridChargeASlotOf io} \<inter> (D \<union> H) = {}"
  shows "keeps (inv_of io user lives D H) (releaseGridCharge io)"
proof -
  have "keeps (inv_of io user lives D H) (await (loadState io) (\<lambda>state.
     await (restore_slots io state (gridChargeRegisters io)) (\<lambda>a.
     await (run_if (length (fst a) \<noteq> length state) (saveState io (fst a)))
       (\<lambda>_. upd_status (\<lambda>s. s\<lparr>st_gridChargeA := None\<rparr>)))))"
  proof (rule keeps_hand_back)
    show "slots_distinct (custody_of io)" using assms(1) by (rule custody_distinct)
    show "distinct (map fst (gridChargeRegisters io))"
      unfolding gridChargeRegisters_def gridChargeSlotOf_def gridChargeASlotOf_def by simp
    show "fst ` set (gridChargeRegisters io) \<inter> (D \<union> H) = {}" using assms(2) unfolding gridChargeRegisters_def by simp
    show "keeps (inv_of io user lives D H) (upd_status (\<lambda>s. s\<lparr>st_gridChargeA := None\<rparr>))"
      by (intro keeps_intros plain_tick_inv)
  qed (simp add: custody_of_def)
  then show ?thesis unfolding releaseGridCharge_def split_beta' .
qed

lemma keeps_releaseSellLimit:
  assumes "keys_distinct io" and apart: "sellSlotOf io \<notin> D \<union> H"
  shows "keeps (inv_of io user lives D H) (releaseSellLimit io)"
  unfolding releaseSellLimit_def
proof (rule valid_await [OF valid_loadState [OF plain_tick_inv]], rule valid_option)
  fix state
  show "valid (\<lambda>w. inv_of io user lives D H w \<and> pt_store w = state) (ret ()) (\<lambda>_. inv_of io user lives D H)
      (inv_of io user lives D H)"
    by (rule valid_ret) simp
  fix snap assume snap: "js_get state (sellSlotOf io) = Some snap"
  have slot: "(sellSlotOf io, sellKeyOf io) \<in> set (custody_of io)"
    unfolding custody_of_def steeredRegisters_def by simp
  show "valid (\<lambda>w. inv_of io user lives D H w \<and> pt_store w = state)
     (await (replaySnapshot io (sellKeyOf io) (as_previousValue snap)) (\<lambda>restored.
        if \<not> restored then ret ()
        else await (saveState io (js_delete (sellSlotOf io) state)) (\<lambda>_.
          upd_status (\<lambda>s. s\<lparr>st_sellLimitW := None\<rparr>)))) (\<lambda>_. inv_of io user lives D H) (inv_of io user lives D H)"
  proof (rule valid_await)
    show "valid (\<lambda>w. inv_of io user lives D H w \<and> pt_store w = state)
       (replaySnapshot io (sellKeyOf io) (as_previousValue snap))
       (\<lambda>restored w. handing (custody_of io) user lives D H state {} state w
          \<and> (restored \<longrightarrow> handing (custody_of io) user lives D H state {sellSlotOf io} (js_delete (sellSlotOf io) state) w))
       (inv_of io user lives D H)"
      by (rule valid_weaken [OF valid_replay [OF custody_distinct [OF assms(1)] slot snap snap, where R = "{}"]])
        (auto intro: handing_start dest: handing_tick)
    fix restored
    show "valid (\<lambda>w. handing (custody_of io) user lives D H state {} state w
          \<and> (restored \<longrightarrow> handing (custody_of io) user lives D H state {sellSlotOf io} (js_delete (sellSlotOf io) state) w))
       (if \<not> restored then ret ()
        else await (saveState io (js_delete (sellSlotOf io) state)) (\<lambda>_.
          upd_status (\<lambda>s. s\<lparr>st_sellLimitW := None\<rparr>))) (\<lambda>_. inv_of io user lives D H) (inv_of io user lives D H)"
    proof (rule valid_if)
      assume "\<not> \<not> restored"
      then show "valid (\<lambda>w. handing (custody_of io) user lives D H state {} state w
          \<and> (restored \<longrightarrow> handing (custody_of io) user lives D H state {sellSlotOf io} (js_delete (sellSlotOf io) state) w))
         (await (saveState io (js_delete (sellSlotOf io) state)) (\<lambda>_. upd_status (\<lambda>s. s\<lparr>st_sellLimitW := None\<rparr>)))
         (\<lambda>_. inv_of io user lives D H) (inv_of io user lives D H)"
        by (intro valid_await [OF valid_pre [OF valid_save_left [where R = "{sellSlotOf io}"]]]
              keeps_upd_status plain_tick_inv) (use apart in auto)
    qed (rule valid_ret, auto dest: handing_tick)
  qed
qed

subsection \<open>Taking\<close>

lemma valid_ensure:
  assumes "keys_distinct io" and slot: "(slot, Some k) \<in> set (custody_of io)" and "slot \<in> D"
  shows "valid (inv_of io user lives D H) (ensureSnapshot io slot (lives slot))
     (\<lambda>ok w. inv_of io user lives D (if ok then insert slot H else H) w) (inv_of io user lives D H)"
  unfolding ensureSnapshot_def
proof (rule valid_await [OF valid_loadState [OF plain_tick_inv]], rule valid_if)
  fix current
  let ?L = "\<lambda>w. inv_of io user lives D H w \<and> pt_store w = current"
  let ?Q = "\<lambda>ok w. inv_of io user lives D (if ok then insert slot H else H) w"
  let ?E = "inv_of io user lives D H"
  { assume "js_get current slot \<noteq> None"
    then have held: "?L w \<Longrightarrow> inv_of io user lives D (insert slot H) w" for w unfolding tick_inv_def by auto
    have "valid ?L (upd_status (\<lambda>s. s\<lparr>st_restorePending := True\<rparr>)) (\<lambda>_. inv_of io user lives D (insert slot H)) ?E"
      by (rule valid_weaken [OF keeps_upd_status [OF plain_tick_inv [where H = "insert slot H"]]])
        (erule held, assumption, erule tick_inv_mono, auto)
    then show "valid ?L (await (upd_status (\<lambda>s. s\<lparr>st_restorePending := True\<rparr>)) (\<lambda>_. ret True)) ?Q ?E"
      by (rule valid_await) (rule valid_ret, simp) }
  assume free: "\<not> js_get current slot \<noteq> None"
  show "valid ?L (case lives slot of None \<Rightarrow> ret False
       | Some v \<Rightarrow> await (call (io_now io)) (\<lambda>nowMs.
           await (saveState io (js_set slot \<lparr>as_previousValue = RegisterValue v, as_capturedAt = nowMs\<rparr> current)) (\<lambda>_.
           await (upd_status (\<lambda>s. s\<lparr>st_restorePending := True\<rparr>)) (\<lambda>_. ret True)))) ?Q ?E"
  proof (rule valid_option)
    show "valid ?L (ret False) ?Q ?E" by (rule valid_ret) simp
    fix v assume v: "lives slot = Some v"
    have pL: "plain ?L" by (rule plain_conj) (simp_all add: plain_store [where p = "\<lambda>r s. s = current"])
    have save: "valid ?L (saveState io (js_set slot \<lparr>as_previousValue = RegisterValue v, as_capturedAt = nowMs\<rparr> current))
        (\<lambda>_. inv_of io user lives D (insert slot H)) ?E" for nowMs
    proof (rule valid_save)
      define nxt where "nxt = js_set slot \<lparr>as_previousValue = RegisterValue v, as_capturedAt = nowMs\<rparr> current"
      fix w assume w: "?L w"
      show "?E (w\<lparr>pt_log := pt_log w @ [(SaveState nxt, pt_regs w, pt_store w)]\<rparr>)" using w tick_inv_note by blast
      have user: "v = user k" using w v slot assms(3) free unfolding tick_inv_def by fastforce
      have cust: "in_custody (custody_of io) user (pt_regs w) nxt"
        unfolding in_custody_def
      proof (intro allI impI)
        fix slot' k' assume c': "(slot', Some k') \<in> set (custody_of io)"
        have "slot = slot' \<longleftrightarrow> k = k'" using custody_distinct [OF assms(1)] slot c' unfolding slots_distinct_def by blast
        moreover have "in_custody (custody_of io) user (pt_regs w) current"
          using w unfolding tick_inv_def all_in_custody_def by auto
        ultimately show "case js_get nxt slot' of None \<Rightarrow> pt_regs w k' = Some (user k')
            | Some snap \<Rightarrow> as_previousValue snap = RegisterValue (user k')"
          using user unfolding in_custody_def nxt_def by (auto simp: c' split: option.split)
      qed
      have all: "inv_of io user lives D (insert slot H) (w\<lparr>pt_log := pt_log w @ [(SaveState nxt, pt_regs w, pt_store w)], pt_store := nxt\<rparr>)"
        using w cust unfolding tick_inv_def all_in_custody_def nxt_def by auto
      then show "inv_of io user lives D (insert slot H) (w\<lparr>pt_log := pt_log w @ [(SaveState nxt, pt_regs w, pt_store w)], pt_store := nxt\<rparr>)" .
      show "?E (w\<lparr>pt_log := pt_log w @ [(SaveState nxt, pt_regs w, pt_store w)], pt_store := nxt\<rparr>)"
        using all by (rule tick_inv_mono) auto
    qed simp_all
    have up: "valid (inv_of io user lives D (insert slot H)) (upd_status (\<lambda>s. s\<lparr>st_restorePending := True\<rparr>))
        (\<lambda>_. inv_of io user lives D (insert slot H)) ?E"
      by (rule valid_weaken [OF keeps_upd_status [OF plain_tick_inv [where H = "insert slot H"]]]) (auto elim: tick_inv_mono)
    show "valid ?L (await (call (io_now io)) (\<lambda>nowMs.
           await (saveState io (js_set slot \<lparr>as_previousValue = RegisterValue v, as_capturedAt = nowMs\<rparr> current)) (\<lambda>_.
           await (upd_status (\<lambda>s. s\<lparr>st_restorePending := True\<rparr>)) (\<lambda>_. ret True)))) ?Q ?E"
    proof (rule valid_await [where R = "\<lambda>_. ?L"])
      show "valid ?L (call (io_now io)) (\<lambda>_. ?L) ?E"
        by (rule valid_weaken [OF keeps_call [OF pL]]) simp_all
      show "valid ?L (await (saveState io (js_set slot \<lparr>as_previousValue = RegisterValue v, as_capturedAt = nowMs\<rparr> current)) (\<lambda>_.
           await (upd_status (\<lambda>s. s\<lparr>st_restorePending := True\<rparr>)) (\<lambda>_. ret True))) ?Q ?E" for nowMs
        by (rule valid_await [OF save], rule valid_await [OF up], rule valid_ret) simp
    qed
  qed
qed


lemma valid_steerSellLimit:
  assumes "keys_distinct io" and "sellSlotOf io \<in> D" and lives: "lives (sellSlotOf io) = li_sellLimitW live"
  shows "keeps (inv_of io user lives D H) (steerSellLimit io thresholdW live)"
  unfolding steerSellLimit_def
proof (intro valid_option valid_if keeps_ret)
  fix key assume key: "sellKeyOf io = Some key" and "key \<noteq> []"
  have slot: "(sellSlotOf io, Some key) \<in> set (custody_of io)"
    unfolding custody_of_def steeredRegisters_def using key by simp
  let ?I = "inv_of io user lives D H"
  show "valid ?I (await (ensureSnapshot io (sellSlotOf io) (li_sellLimitW live)) (\<lambda>ok.
         if \<not> ok then ret ()
         else let v = clampToRegister io key (of_int (math_round thresholdW))
           in await (writeRegister io key v (li_sellLimitW live) (li_nowMs live)) (\<lambda>_.
             upd_status (\<lambda>s. s\<lparr>st_sellLimitW := Some v\<rparr>)))) (\<lambda>_. ?I) ?I"
    unfolding Let_def
  proof (rule valid_await [OF valid_ensure [where lives = lives, OF assms(1) slot assms(2), unfolded lives]], rule valid_if)
    fix ok assume ok: "\<not> \<not> ok"
    let ?J = "inv_of io user lives D (insert (sellSlotOf io) H)"
    define v where "v = clampToRegister io key (of_int (math_round thresholdW))"
    have "keeps ?J (await (writeRegister io key v (li_sellLimitW live) (li_nowMs live)) (\<lambda>_.
             upd_status (\<lambda>s. s\<lparr>st_sellLimitW := Some v\<rparr>)))"
      by (intro keeps_await keeps_writeRegister [OF custody_distinct [OF assms(1)] slot] keeps_upd_status plain_tick_inv) simp
    then show "valid (\<lambda>w. inv_of io user lives D (if ok then insert (sellSlotOf io) H else H) w)
       (await (writeRegister io key v (li_sellLimitW live) (li_nowMs live)) (\<lambda>_.
             upd_status (\<lambda>s. s\<lparr>st_sellLimitW := Some v\<rparr>))) (\<lambda>_. ?I) ?I"
      using ok by (elim valid_weaken) (auto elim: tick_inv_mono)
  qed (auto intro: valid_ret)
qed

lemma valid_steerGridCharge:
  assumes "keys_distinct io" and D: "gridChargeSlotOf io \<in> D" "gridChargeASlotOf io \<in> D"
    and lives: "lives (gridChargeSlotOf io) = li_gridChargeOn live" "lives (gridChargeASlotOf io) = li_gridChargeLimit live"
  shows "keeps (inv_of io user lives D H) (steerGridCharge io currentA batteryV live)"
proof (cases "gridChargeKeyOf io")
  case None
  then show ?thesis unfolding steerGridCharge_def by (simp add: keeps_ret)
next
  case (Some enableKey)
  note en = this
  show ?thesis
  proof (cases "gridChargeLimitOf io")
    case None
    then show ?thesis unfolding steerGridCharge_def en by (simp add: keeps_ret)
  next
    case (Some limit)
    have slot: "(gridChargeSlotOf io, Some enableKey) \<in> set (custody_of io)"
      "(gridChargeASlotOf io, Some (sl_key limit)) \<in> set (custody_of io)"
      unfolding custody_of_def gridChargeRegisters_def using en Some by simp_all
    let ?I = "inv_of io user lives D H"
    let ?J = "inv_of io user lives D (insert (gridChargeASlotOf io) (insert (gridChargeSlotOf io) H))"
    define v where "v = clampToRegister io (sl_key limit) (of_int (math_round (limitValue limit currentA batteryV)))"
    define writes where "writes = await (writeRegister io (sl_key limit) v (li_gridChargeLimit live) (li_nowMs live)) (\<lambda>_.
        await (writeRegister io enableKey 1 (li_gridChargeOn live) (li_nowMs live)) (\<lambda>_.
        upd_status (\<lambda>s. s\<lparr>st_gridChargeA := Some (of_int (math_round (limitAmps limit v batteryV)))\<rparr>)))"
    have wr: "keeps ?J writes"
      unfolding writes_def
      by (intro keeps_await keeps_writeRegister [OF custody_distinct [OF assms(1)] slot(1)]
          keeps_writeRegister [OF custody_distinct [OF assms(1)] slot(2)] keeps_upd_status plain_tick_inv) simp_all
    have "valid ?I (await (ensureSnapshot io (gridChargeSlotOf io) (li_gridChargeOn live)) (\<lambda>ok.
         if \<not> ok then ret ()
         else await (ensureSnapshot io (gridChargeASlotOf io) (li_gridChargeLimit live)) (\<lambda>okA.
           if \<not> okA then ret () else writes))) (\<lambda>_. ?I) ?I"
    proof (rule valid_await [OF valid_ensure [where lives = lives, OF assms(1) slot(1) D(1), unfolded lives(1)]], rule valid_if)
      fix ok assume ok: "\<not> \<not> ok"
      let ?K = "inv_of io user lives D (insert (gridChargeSlotOf io) H)"
      have "valid ?K (await (ensureSnapshot io (gridChargeASlotOf io) (li_gridChargeLimit live)) (\<lambda>okA.
           if \<not> okA then ret () else writes)) (\<lambda>_. ?K) ?K"
      proof (rule valid_await [OF valid_ensure [where lives = lives, OF assms(1) slot(2) D(2), unfolded lives(2)]], rule valid_if)
        fix okA assume "\<not> \<not> okA"
        then show "valid (\<lambda>w. inv_of io user lives D (if okA then insert (gridChargeASlotOf io) (insert (gridChargeSlotOf io) H)
            else insert (gridChargeSlotOf io) H) w) writes (\<lambda>_. ?K) ?K"
          using wr by (elim valid_weaken) (auto elim: tick_inv_mono)
      qed (auto intro: valid_ret)
      then show "valid (\<lambda>w. inv_of io user lives D (if ok then insert (gridChargeSlotOf io) H else H) w)
         (await (ensureSnapshot io (gridChargeASlotOf io) (li_gridChargeLimit live)) (\<lambda>okA.
           if \<not> okA then ret () else writes)) (\<lambda>_. ?I) ?I"
        using ok by (elim valid_weaken) (auto elim: tick_inv_mono)
    qed (auto intro: valid_ret)
    then show ?thesis unfolding steerGridCharge_def en Some writes_def v_def Let_def
      by (cases "enableKey = []") (simp_all add: keeps_ret)
  qed
qed

subsection \<open>The cars leave the registers' slots alone\<close>

definition ev_only :: "AutomationIO \<Rightarrow> (plant \<Rightarrow> bool) \<Rightarrow> AutomationState \<Rightarrow> AutomationState \<Rightarrow> plant \<Rightarrow> bool" where
  "ev_only io P state nxt w \<longleftrightarrow> P w \<and> pt_store w = state
     \<and> (\<forall>slot\<in>fst ` set (custody_of io). js_get nxt slot = js_get state slot)"

lemma plain_ev_only: "plain P \<Longrightarrow> plain (ev_only io P state nxt)"
  unfolding plain_def ev_only_def by simp

lemma ev_frame:
  assumes "slot \<in> fst ` set (custody_of io)"
  shows "js_get (js_set (evccModeStateKey (di_id (io_device io)) n) x m) slot = js_get m slot"
    and "js_get (js_set (evccBoostLimitStateKey (di_id (io_device io)) n) x m) slot = js_get m slot"
    and "js_get (js_delete (evccModeStateKey (di_id (io_device io)) n) m) slot = js_get m slot"
    and "js_get (js_delete (evccBoostLimitStateKey (di_id (io_device io)) n) m) slot = js_get m slot"
  using ev_slots_apart [OF assms] by (metis js_get_set js_get_delete)+

lemma ev_only_update:
  assumes "ev_only io P state nxt w"
    and "\<And>slot. slot \<in> fst ` set (custody_of io) \<Longrightarrow> js_get nxt' slot = js_get nxt slot"
  shows "ev_only io P state nxt' w"
  using assms unfolding ev_only_def by (metis (no_types, lifting))

lemma keeps_ev_command:
  "keeps (ev_only io (tick_inv c user lives D H) state nxt) (evccCommand io' lp action v)"
  unfolding evccCommand_def
  by (intro keeps_await keeps_call plain_ev_only plain_tick_inv valid_option keeps_throw valid_note)
    (auto simp: ev_only_def intro: tick_inv_note)

lemma valid_claimLoadpoint:
  "valid (ev_only io (tick_inv c user lives D H) state nxt) (claimLoadpoint io capturedAt claim nxt)
     (ev_only io (tick_inv c user lives D H) state) E"
proof -
  let ?I = "ev_only io (tick_inv c user lives D H) state nxt"
  have pI: "plain ?I" by (intro plain_ev_only plain_tick_inv)
  have pub: "keeps ?I (publishClaim io claim)"
    unfolding publishClaim_def by (intro keeps_await valid_option keeps_ret keeps_ev_command)
  show ?thesis unfolding claimLoadpoint_def
  proof (rule valid_await [where R = "\<lambda>_. ?I"])
    show "valid ?I (attempt (publishClaim io claim)) (\<lambda>_. ?I) E"
      by (rule valid_attempt [where F = ?I]) (use pub in simp_all)
    fix r :: "exn + unit"
    have "keeps ?I (noteEvError err)" for err unfolding noteEvError_def by (rule keeps_upd_status [OF pI])
    then have err: "valid ?I (await (noteEvError err) (\<lambda>_. ret nxt)) (ev_only io (tick_inv c user lives D H) state) E" for err
      unfolding noteEvError_def valid_def await_def upd_status_def upd_eng_def modify_def ret_def by simp
    show "valid ?I (case r of Inl err \<Rightarrow> await (noteEvError err) (\<lambda>_. ret nxt)
     | Inr _ \<Rightarrow> ret (case ec_remember claim of
         None \<Rightarrow> nxt
       | Some (mode, limit) \<Rightarrow>
           js_set (evccBoostLimitStateKey (di_id (io_device io)) (ec_loadpoint claim))
               \<lparr>as_previousValue = RegisterValue limit, as_capturedAt = capturedAt\<rparr>
             (js_set (evccModeStateKey (di_id (io_device io)) (ec_loadpoint claim))
               \<lparr>as_previousValue = TextValue mode, as_capturedAt = capturedAt\<rparr> nxt)))
       (ev_only io (tick_inv c user lives D H) state) E"
    proof (rule valid_sum [OF err], rule valid_ret)
      fix s assume "?I s"
      then show "ev_only io (tick_inv c user lives D H) state (case ec_remember claim of
         None \<Rightarrow> nxt
       | Some (mode, limit) \<Rightarrow>
           js_set (evccBoostLimitStateKey (di_id (io_device io)) (ec_loadpoint claim))
               \<lparr>as_previousValue = RegisterValue limit, as_capturedAt = capturedAt\<rparr>
             (js_set (evccModeStateKey (di_id (io_device io)) (ec_loadpoint claim))
               \<lparr>as_previousValue = TextValue mode, as_capturedAt = capturedAt\<rparr> nxt)) s"
        by (elim ev_only_update) (simp only: ev_frame case_prod_beta split: option.split; simp)
    qed
  qed
qed

lemma valid_releaseLoadpoint:
  "valid (ev_only io (tick_inv c user lives D H) state nxt) (releaseLoadpoint io rel nxt)
     (ev_only io (tick_inv c user lives D H) state) E"
proof -
  let ?I = "ev_only io (tick_inv c user lives D H) state nxt"
  have pI: "plain ?I" by (intro plain_ev_only plain_tick_inv)
  have same: "valid ?I (ret nxt) (ev_only io (tick_inv c user lives D H) state) E" by (rule valid_ret)
  have err: "valid ?I (await (noteEvError err) (\<lambda>_. ret nxt)) (ev_only io (tick_inv c user lives D H) state) E" for err
    using plain_eng [OF pI] unfolding noteEvError_def valid_def await_def upd_status_def upd_eng_def modify_def ret_def by simp
  have gone: "valid ?I (ret (js_delete (evccBoostLimitStateKey (di_id (io_device io)) n)
       (js_delete (evccModeStateKey (di_id (io_device io)) n) nxt))) (ev_only io (tick_inv c user lives D H) state) E" for n
    by (rule valid_ret) (erule ev_only_update; simp only: ev_frame)
  show ?thesis unfolding releaseLoadpoint_def Let_def
    by (rule valid_option [OF same], rule valid_await [where R = "\<lambda>_. ?I"],
        rule valid_attempt [where F = ?I], intro keeps_await keeps_run_if' keeps_ev_command, assumption,
        rule valid_sum [OF err gone])
qed

lemma keeps_applyEvPullIn:
  assumes "D \<union> H \<subseteq> fst ` set (custody_of io)"
  shows "keeps (inv_of io user lives D H) (applyEvPullIn io regime enabled boostLimitPct)"
  unfolding applyEvPullIn_def
proof (rule valid_await [OF valid_loadState [OF plain_tick_inv]])
  fix state
  let ?I = "inv_of io user lives D H"
  let ?L = "\<lambda>w. ?I w \<and> pt_store w = state"
  have pL: "plain ?L" by (rule plain_conj) (simp_all add: plain_store [where p = "\<lambda>r s. s = state"])
  have start: "?L w \<Longrightarrow> ev_only io ?I state state w" for w unfolding ev_only_def by simp
  have save: "valid (ev_only io ?I state nxt) (saveState io nxt) (\<lambda>_. ?I) ?I" for nxt
  proof (rule valid_save)
    fix w assume w: "ev_only io ?I state nxt w"
    show "?I (w\<lparr>pt_log := pt_log w @ [(SaveState nxt, pt_regs w, pt_store w)]\<rparr>)"
      using w unfolding ev_only_def by (auto intro: tick_inv_note)
    have "in_custody (custody_of io) user (pt_regs w) nxt"
      using w unfolding ev_only_def tick_inv_def all_in_custody_def in_custody_def by force
    then show all: "?I (w\<lparr>pt_log := pt_log w @ [(SaveState nxt, pt_regs w, pt_store w)], pt_store := nxt\<rparr>)"
      using w assms unfolding ev_only_def by (intro tick_inv_store) auto
    then show "?I (w\<lparr>pt_log := pt_log w @ [(SaveState nxt, pt_regs w, pt_store w)], pt_store := nxt\<rparr>)" .
  qed simp_all
  have loops: "valid ?L (await (call (io_now io)) (\<lambda>nowMs.
            await (claimLoadpoints io plan nowMs state) (\<lambda>nxt.
            await (releaseLoadpoints io plan nxt) (\<lambda>nxt'. saveState io nxt')))) (\<lambda>_. ?I) ?I" for plan
  proof (rule valid_await [where R = "\<lambda>_. ?L"])
    show "valid ?L (call (io_now io)) (\<lambda>_. ?L) ?I" by (rule valid_weaken [OF keeps_call [OF pL]]) simp_all
    fix nowMs
    show "valid ?L (await (claimLoadpoints io plan nowMs state) (\<lambda>nxt.
            await (releaseLoadpoints io plan nxt) (\<lambda>nxt'. saveState io nxt'))) (\<lambda>_. ?I) ?I"
    proof (rule valid_await)
      show "valid ?L (claimLoadpoints io plan nowMs state) (ev_only io ?I state) ?I"
        unfolding claimLoadpoints_def by (rule valid_pre [OF valid_for_fold [OF valid_claimLoadpoint]]) (rule start)
      fix nxt
      show "valid (ev_only io ?I state nxt) (await (releaseLoadpoints io plan nxt) (\<lambda>nxt'. saveState io nxt')) (\<lambda>_. ?I) ?I"
        unfolding releaseLoadpoints_def
        by (rule valid_await [OF valid_for_fold [OF valid_releaseLoadpoint]]) (rule save)
    qed
  qed
  show "valid ?L (await (call (io_getEvcc io)) (\<lambda>evcc.
       let plan = planEvPullIn \<lparr>ei_enabled = enabled, ei_regime = regime, ei_evcc = evcc,
             ei_boostLimitPct = boostLimitPct, ei_heldLoadpoints = heldLoadpoints io state\<rparr>
       in if ep_claim plan = [] \<and> ep_release plan = [] then ret ()
          else await (call (io_now io)) (\<lambda>nowMs.
            await (claimLoadpoints io plan nowMs state) (\<lambda>nxt.
            await (releaseLoadpoints io plan nxt) (\<lambda>nxt'. saveState io nxt'))))) (\<lambda>_. ?I) ?I"
    unfolding Let_def
  proof (rule valid_await [where R = "\<lambda>_. ?L"])
    show "valid ?L (call (io_getEvcc io)) (\<lambda>_. ?L) ?I" by (rule valid_weaken [OF keeps_call [OF pL]]) simp_all
  qed (intro valid_if valid_ret loops, simp)
qed


subsection \<open>One tick\<close>

lemma tick_inv_base: "tick_inv c user lives {} {} = all_in_custody c user"
  unfolding tick_inv_def by auto

abbreviation base_of :: "AutomationIO \<Rightarrow> (string \<Rightarrow> number) \<Rightarrow> plant \<Rightarrow> bool" where
  "base_of io user \<equiv> all_in_custody (custody_of io) user"

lemma plain_base [simp]: "plain (base_of io user)"
  using plain_tick_inv [of "custody_of io" user undefined "{}" "{}"] unfolding tick_inv_base .

lemmas at_base = keeps_restoreSnapshot [where D = "{}" and H = "{}", unfolded tick_inv_base, simplified]
  keeps_releaseGridCharge [where D = "{}" and H = "{}", unfolded tick_inv_base, simplified]
  keeps_releaseSellLimit [where D = "{}" and H = "{}", unfolded tick_inv_base, simplified]
  keeps_applyEvPullIn [where D = "{}" and H = "{}", unfolded tick_inv_base, simplified]

lemma to_base: "tick_inv c user lives D H w \<Longrightarrow> all_in_custody c user w"
  unfolding tick_inv_def by simp

lemma keeps_releaseEvPullIn: "keeps (base_of io user) (releaseEvPullIn io)"
  unfolding releaseEvPullIn_def by (rule at_base(4))

lemma keeps_release:
  assumes "keys_distinct io"
  shows "keeps (base_of io user) (release io state)"
  unfolding release_def resetSteering_def
  by (intro keeps_await keeps_upd_status keeps_upd_eng keeps_releaseEvPullIn at_base assms plain_base)

definition lives_of :: "AutomationIO \<Rightarrow> LiveInputs \<Rightarrow> string \<Rightarrow> number option" where
  "lives_of io live slot = (if slot = stateKeyOf io then li_liveLimit live
     else if slot = sellSlotOf io then li_sellLimitW live
     else if slot = gridChargeSlotOf io then li_gridChargeOn live else li_gridChargeLimit live)"

lemma lives_of_slots:
  "lives_of io live (stateKeyOf io) = li_liveLimit live"
  "lives_of io live (sellSlotOf io) = li_sellLimitW live"
  "lives_of io live (gridChargeSlotOf io) = li_gridChargeOn live"
  "lives_of io live (gridChargeASlotOf io) = li_gridChargeLimit live"
  unfolding lives_of_def sellSlotOf_def gridChargeSlotOf_def gridChargeASlotOf_def by simp_all

lemma slots_apart:
  "stateKeyOf io \<noteq> sellSlotOf io" "stateKeyOf io \<noteq> gridChargeSlotOf io" "stateKeyOf io \<noteq> gridChargeASlotOf io"
  "sellSlotOf io \<noteq> gridChargeSlotOf io" "sellSlotOf io \<noteq> gridChargeASlotOf io"
  "gridChargeSlotOf io \<noteq> gridChargeASlotOf io"
  using custody_slots(1) [of io] unfolding custody_slots(2) by auto

definition taking :: "AutomationIO \<Rightarrow> (string \<Rightarrow> number) \<Rightarrow> LiveInputs \<Rightarrow> string set \<Rightarrow> plant \<Rightarrow> bool" where
  "taking io user live H = tick_inv (custody_of io) user (lives_of io live)
     {stateKeyOf io, sellSlotOf io, gridChargeSlotOf io, gridChargeASlotOf io} H"

lemma plain_taking [simp]: "plain (taking io user live H)" unfolding taking_def by (rule plain_tick_inv)

lemma taking_base: "taking io user live H w \<Longrightarrow> base_of io user w"
  unfolding taking_def by (rule to_base)

lemma valid_claimRegister:
  assumes keys: "keys_distinct io" and limit: "chargeLimitOf io = Some limit"
  shows "valid (taking io user live {}) (claimRegister io shadow (li_liveLimit live))
     (\<lambda>ok w. base_of io user w \<and> (\<not> shadow \<longrightarrow> ok \<longrightarrow> taking io user live {stateKeyOf io} w)) (base_of io user)"
proof (cases shadow)
  case True
  have "keeps (base_of io user) (await (restoreSnapshot io) (\<lambda>_. ret True))"
    by (intro keeps_await at_base(1) keeps_ret keys)
  then show ?thesis using True unfolding claimRegister_def by (auto elim!: valid_weaken dest: taking_base)
next
  case False
  have slot: "(stateKeyOf io, Some (sl_key limit)) \<in> set (custody_of io)"
    unfolding custody_of_def steeredRegisters_def limit by simp
  show ?thesis using False unfolding claimRegister_def taking_def
    by (auto intro!: valid_weaken [OF valid_ensure [where lives = "lives_of io live" and H = "{}"
          and D = "{stateKeyOf io, sellSlotOf io, gridChargeSlotOf io, gridChargeASlotOf io}", OF keys slot,
          unfolded lives_of_slots]] dest: to_base)
qed

lemma keeps_writeTarget:
  assumes keys: "keys_distinct io" and limit: "chargeLimitOf io = Some limit" and "stateKeyOf io \<in> H"
  shows "keeps (inv_of io user lives D H) (writeTarget io limit commanded targetA live)"
proof -
  have slot: "(stateKeyOf io, Some (sl_key limit)) \<in> set (custody_of io)"
    unfolding custody_of_def steeredRegisters_def limit by simp
  show ?thesis unfolding writeTarget_def
    by (intro keeps_await keeps_writeRegister [OF custody_distinct [OF keys] slot assms(3)] keeps_run_if'
        keeps_upd_eng plain_tick_inv)
qed

lemma valid_steer_live:
  assumes keys: "keys_distinct io" and limit: "chargeLimitOf io = Some limit"
  shows "valid (taking io user live {stateKeyOf io})
     (steer_live io ps weather live limit decision batteryV commanded targetA) (\<lambda>_. base_of io user) (base_of io user)"
proof -
  let ?D = "{sellSlotOf io, gridChargeSlotOf io, gridChargeASlotOf io}"
  let ?G = "{gridChargeSlotOf io, gridChargeASlotOf io}"
  let ?I = "\<lambda>D. inv_of io user (lives_of io live) D {stateKeyOf io}"
  let ?B = "base_of io user"
  have target: "valid (taking io user live {stateKeyOf io}) (writeTarget io limit commanded targetA live) (\<lambda>_. ?I ?D) ?B"
    by (rule valid_weaken [OF keeps_writeTarget [OF keys limit, where H = "{stateKeyOf io}" and D = ?D]])
      (auto simp: taking_def elim: tick_inv_mono to_base)
  have sell: "valid (?I ?D) (if ps_mode ps = GridFriendly then steerSellLimit io (de_thresholdW decision) live
            else releaseSellLimit io) (\<lambda>_. ?I ?G) ?B"
  proof (rule valid_if)
    show "valid (?I ?D) (steerSellLimit io (de_thresholdW decision) live) (\<lambda>_. ?I ?G) ?B"
      by (rule valid_weaken [OF valid_steerSellLimit [OF keys, where D = ?D and H = "{stateKeyOf io}" and lives = "lives_of io live"]])
        (auto simp: lives_of_slots elim: tick_inv_mono to_base)
    show "valid (?I ?D) (releaseSellLimit io) (\<lambda>_. ?I ?G) ?B"
      by (rule valid_weaken [OF keeps_releaseSellLimit [OF keys, where D = ?G and H = "{stateKeyOf io}" and lives = "lives_of io live"]])
        (use slots_apart [of io] slots_apart [of io, symmetric] in \<open>auto elim: tick_inv_mono to_base\<close>)
  qed
  have grid: "valid (?I ?G) (case de_gridChargeA decision of
              Some a \<Rightarrow> steerGridCharge io a batteryV live
            | None \<Rightarrow> releaseGridCharge io) (\<lambda>_. ?B) ?B"
  proof (rule valid_option)
    show "valid (?I ?G) (releaseGridCharge io) (\<lambda>_. ?B) ?B"
      by (rule valid_weaken [OF at_base(2) [OF keys]]) (auto elim: to_base)
    show "valid (?I ?G) (steerGridCharge io a batteryV live) (\<lambda>_. ?B) ?B" for a
      by (rule valid_weaken [OF valid_steerGridCharge [OF keys, where D = ?G and H = "{stateKeyOf io}" and lives = "lives_of io live"]])
        (auto simp: lives_of_slots elim: to_base)
  qed
  show ?thesis unfolding steer_live_def
    by (rule valid_await [OF target], rule valid_await [OF sell], rule valid_await [OF grid])
      (intro keeps_await keeps_upd_eng at_base(4) plain_base)
qed

lemma valid_steer:
  assumes keys: "keys_distinct io" and limit: "chargeLimitOf io = Some limit"
  shows "valid (\<lambda>w. base_of io user w \<and> (\<not> ps_shadowMode ps \<longrightarrow> taking io user live {stateKeyOf io} w))
     (steer io ps weather live forecast limit baselineLoadW prices) (\<lambda>_. base_of io user) (base_of io user)"
proof -
  let ?P = "\<lambda>w. base_of io user w \<and> (\<not> ps_shadowMode ps \<longrightarrow> taking io user live {stateKeyOf io} w)"
  let ?B = "base_of io user"
  have pP: "plain ?P" by (intro plain_conj plain_imp plain_base plain_taking)
  have quiet: "keeps ?P m \<Longrightarrow> valid ?P m (\<lambda>_. ?P) ?B" for m :: "'b plant_act"
    by (erule valid_weaken) simp_all
  have dry: "keeps ?B (await (upd_eng (\<lambda>e. e\<lparr>eg_ineffectiveTicks := 0,
                        eg_status := (eg_status e)\<lparr>st_ineffective := False\<rparr>\<rparr>)) (\<lambda>_.
                    await (releaseEvPullIn io) (\<lambda>_. releaseGridCharge io)))"
    by (intro keeps_await keeps_upd_eng keeps_releaseEvPullIn at_base(2) keys plain_base)
  have act: "valid ?P (if ps_shadowMode ps
               then await (upd_eng (\<lambda>e. e\<lparr>eg_ineffectiveTicks := 0,
                        eg_status := (eg_status e)\<lparr>st_ineffective := False\<rparr>\<rparr>)) (\<lambda>_.
                    await (releaseEvPullIn io) (\<lambda>_. releaseGridCharge io))
               else steer_live io ps weather live limit decision batteryV commanded targetA) (\<lambda>_. ?B) ?B"
    for decision batteryV commanded targetA
    by (rule valid_if, rule valid_pre [OF dry], simp, rule valid_pre [OF valid_steer_live [OF keys limit]], simp)
  show ?thesis unfolding steer_def Let_def
    by (rule valid_await [where R = "\<lambda>_. ?P"], rule quiet [OF keeps_call [OF pP]],
        rule valid_await [where R = "\<lambda>_. ?P"], rule quiet [OF keeps_call_or_throw [OF pP]],
        rule valid_await [where R = "\<lambda>_. ?P"], rule quiet [OF keeps_call_or_throw [OF pP]],
        rule valid_await [where R = "\<lambda>_. ?P"], rule quiet [OF keeps_reads(1)],
        rule valid_await [where R = "\<lambda>_. ?P"], rule quiet [OF keeps_upd_status [OF pP]],
        rule valid_await [where R = "\<lambda>_. ?P"], rule quiet [OF keeps_upd_eng [OF pP]],
        rule valid_await [OF act]) (rule keeps_upd_eng, simp)
qed

text \<open>
  A sample that shows what the registers not borrowed now hold, wherever it has a finite reading of
  them. Of a borrowed register it may show anything.
\<close>

definition shows_registers :: "AutomationIO \<Rightarrow> registers \<Rightarrow> AutomationState \<Rightarrow> bool" where
  "shows_registers io regs store \<longleftrightarrow> (\<forall>n s slot k. io_latestSample io n = Some s \<longrightarrow> (slot, Some k) \<in> set (custody_of io)
     \<longrightarrow> js_get store slot = None \<longrightarrow> finite_reading s k = None \<or> finite_reading s k = regs k)"

lemma live_reads:
  assumes "live_inputs io key sample nowMs = Some live" and "chargeLimitOf io = Some limit" and "key = sl_key limit"
    and slot: "(slot, Some k) \<in> set (custody_of io)"
  shows "lives_of io live slot = None \<or> lives_of io live slot = finite_reading sample k"
proof -
  have live: "li_liveLimit live = finite_reading sample key"
    "li_sellLimitW live = by_role io sample SELL_LIMIT_ROLE"
    "li_gridChargeOn live = by_role io sample GRID_CHARGE_ROLE"
    "li_gridChargeLimit live = (case gridChargeLimitOf io of None \<Rightarrow> None | Some limit \<Rightarrow> finite_reading sample (sl_key limit))"
    using assms(1) unfolding live_inputs_def gridChargeLimitOf_def by (auto split: if_splits option.splits)
  from slot consider
      (charge) "slot = stateKeyOf io" "k = sl_key limit"
    | (sell) "slot = sellSlotOf io" "sellKeyOf io = Some k"
    | (grid) "slot = gridChargeSlotOf io" "gridChargeKeyOf io = Some k"
    | (gridA) l where "slot = gridChargeASlotOf io" "gridChargeLimitOf io = Some l" "k = sl_key l"
    unfolding custody_of_def steeredRegisters_def gridChargeRegisters_def using assms(2)
    by (auto simp: eq_commute [of "Some k"])
  then show ?thesis
    by cases (simp_all add: lives_of_slots live assms(3) by_role_def sellKeyOf_def gridChargeKeyOf_def)
qed

lemma live_taking:
  assumes base: "base_of io user w" and shown: "shows_registers io (pt_regs w) (pt_store w)"
    and sample: "io_latestSample io n = Some sample" and limit: "chargeLimitOf io = Some limit"
    and live: "live_inputs io (sl_key limit) sample nowMs = Some live"
  shows "taking io user live {} w"
  unfolding taking_def tick_inv_def
proof (intro conjI allI impI ballI)
  show "base_of io user w" by (rule base)
  fix slot k assume slot: "(slot, Some k) \<in> set (custody_of io)" and free: "js_get (pt_store w) slot = None"
  have "pt_regs w k = Some (user k)" using base slot free unfolding all_in_custody_def in_custody_def by fastforce
  moreover have "finite_reading sample k = None \<or> finite_reading sample k = pt_regs w k"
    using shown sample slot free unfolding shows_registers_def by blast
  ultimately show "lives_of io live slot = None \<or> lives_of io live slot = Some (user k)"
    using live_reads [OF live limit refl slot] by auto
qed simp

lemma valid_liveOrHold:
  "valid (\<lambda>w. base_of io user w \<and> shows_registers io (pt_regs w) (pt_store w)) (liveOrHold io)
     (\<lambda>r w. base_of io user w \<and> (\<forall>limit live. r = Some (limit, live) \<longrightarrow>
        chargeLimitOf io = Some limit \<and> taking io user live {} w)) (base_of io user)"
proof (cases "chargeLimitOf io")
  case None
  then show ?thesis unfolding liveOrHold_def by (auto intro: valid_ret)
next
  case (Some limit)
  let ?P = "\<lambda>w. base_of io user w \<and> shows_registers io (pt_regs w) (pt_store w)"
  have pP: "plain ?P" by (intro plain_conj plain_base) (rule plain_store [where p = "\<lambda>r s. shows_registers io r s"])
  have read: "valid ?P (readLive io (sl_key limit))
     (\<lambda>r w. base_of io user w \<and> (\<forall>live. r = Some live \<longrightarrow> taking io user live {} w)) (base_of io user)"
  proof -
    have got: "valid ?P (call (io_latestSample io))
        (\<lambda>sample w. ?P w \<and> (sample = None \<or> (\<exists>n. io_latestSample io n = sample))) (base_of io user)"
      using plain_calls [OF pP] unfolding valid_def call_def by auto
    show ?thesis unfolding readLive_def
    proof (rule valid_await [OF got])
      fix sample
      let ?R = "\<lambda>w. ?P w \<and> (sample = None \<or> (\<exists>n. io_latestSample io n = sample))"
      have pR: "plain ?R" by (rule plain_conj [OF pP]) (simp add: plain_def)
      show "valid ?R (await (call (io_now io)) (\<lambda>nowMs.
          ret (case sample of None \<Rightarrow> None | Some s \<Rightarrow> live_inputs io (sl_key limit) s nowMs)))
        (\<lambda>r w. base_of io user w \<and> (\<forall>live. r = Some live \<longrightarrow> taking io user live {} w)) (base_of io user)"
        by (rule valid_await [where R = "\<lambda>_. ?R"], rule valid_weaken [OF keeps_call [OF pR]], simp_all)
          (rule valid_ret, auto split: option.splits intro: live_taking [OF _ _ _ Some])
    qed
  qed
  show ?thesis unfolding liveOrHold_def Some
    by (simp, rule valid_await [OF read], rule valid_ret) (auto simp: Some)
qed

lemma valid_decideTick:
  assumes keys: "keys_distinct io"
  shows "valid (\<lambda>w. base_of io user w \<and> shows_registers io (pt_regs w) (pt_store w)) (decideTick io ps weather)
     (\<lambda>_. base_of io user) (base_of io user)"
  unfolding decideTick_def
proof (rule valid_await [OF valid_liveOrHold])
  fix ready
  let ?B = "base_of io user"
  show "valid (\<lambda>w. ?B w \<and> (\<forall>limit live. ready = Some (limit, live) \<longrightarrow>
        chargeLimitOf io = Some limit \<and> taking io user live {} w))
     (case ready of
       None \<Rightarrow> upd_status (\<lambda>s. s\<lparr>st_state := Stale\<rparr>)
     | Some (limit, live) \<Rightarrow>
       await (call_or_throw (io_getPackNominalV io)) (\<lambda>packNominalV.
       await (upd_status (\<lambda>s. s\<lparr>st_liveA := map_option (\<lambda>l. of_int (math_round (limitAmps limit l
                (liveBatteryV live ps weather packNominalV)))) (li_liveLimit live),
              st_liveSellLimitW := li_sellLimitW live\<rparr>)) (\<lambda>_.
       await (call_or_throw (\<lambda>n. io_getForecast io n weather)) (\<lambda>forecast.
       await (upd_status (\<lambda>s. s\<lparr>st_forecastAvailable := (forecast \<noteq> None)\<rparr>)) (\<lambda>_.
       await (call_or_throw (io_getPrices io)) (\<lambda>prices.
       if isNight live forecast (insideNegativeWindow prices
            (effectivePriceConfig (ps_priceAware ps) weather) (li_nowMs live))
       then release io Idle
       else await (claimRegister io (ps_shadowMode ps) (li_liveLimit live)) (\<lambda>ok.
         if \<not> ok then upd_status (\<lambda>s. s\<lparr>st_state := Stale\<rparr>)
         else await (call_or_throw (\<lambda>n. io_getBaselineLoadW io n weather)) (\<lambda>baselineLoadW.
           steer io ps weather live forecast limit baselineLoadW prices)))))))) (\<lambda>_. ?B) ?B"
  proof (cases ready)
    case None
    then show ?thesis by (auto intro!: valid_pre [OF keeps_upd_status])
  next
    case (Some r)
    obtain limit live where r: "r = (limit, live)" by (cases r)
    show ?thesis
    proof (cases "chargeLimitOf io = Some limit")
      case False
      then show ?thesis unfolding valid_def Some r by auto
    next
      case limit: True
      let ?T = "taking io user live {}"
      have quiet: "keeps ?T m \<Longrightarrow> valid ?T m (\<lambda>_. ?T) ?B" for m :: "'b plant_act"
        by (erule valid_weaken) (auto dest: taking_base)
      have quiet_unit: "keeps ?T m \<Longrightarrow> valid ?T m (\<lambda>_. ?T) ?B" for m :: "unit plant_act"
        by (erule valid_weaken) (auto dest: taking_base)
      define ok_inv where "ok_inv ok w \<longleftrightarrow> ?B w \<and> (\<not> ps_shadowMode ps \<longrightarrow> ok \<longrightarrow> taking io user live {stateKeyOf io} w)" for ok w
      have p_ok: "plain (ok_inv ok)" for ok
        unfolding ok_inv_def by (intro plain_conj plain_imp plain_base plain_taking)
      have go: "valid (ok_inv ok) (if \<not> ok then upd_status (\<lambda>s. s\<lparr>st_state := Stale\<rparr>)
         else await (call_or_throw (\<lambda>n. io_getBaselineLoadW io n weather)) (\<lambda>baselineLoadW.
           steer io ps weather live forecast limit baselineLoadW prices)) (\<lambda>_. ?B) ?B" for ok forecast prices
      proof (rule valid_if)
        show "valid (ok_inv ok) (upd_status (\<lambda>s. s\<lparr>st_state := Stale\<rparr>)) (\<lambda>_. ?B) ?B"
          by (rule valid_weaken [OF keeps_upd_status [OF p_ok]]) (auto simp: ok_inv_def)
        assume ok: "\<not> \<not> ok"
        show "valid (ok_inv ok) (await (call_or_throw (\<lambda>n. io_getBaselineLoadW io n weather)) (\<lambda>baselineLoadW.
           steer io ps weather live forecast limit baselineLoadW prices)) (\<lambda>_. ?B) ?B"
          by (rule valid_await [where R = "\<lambda>_. ok_inv ok"], rule valid_weaken [OF keeps_call_or_throw [OF p_ok]])
            (use ok in \<open>auto simp: ok_inv_def intro!: valid_pre [OF valid_steer [OF keys limit]]\<close>)
      qed
      have claim: "valid ?T (claimRegister io (ps_shadowMode ps) (li_liveLimit live)) ok_inv ?B"
        unfolding ok_inv_def by (rule valid_claimRegister [OF keys limit])
      show ?thesis unfolding Some r option.case prod.case
        by (rule valid_pre [where P = ?T],
            rule valid_await [where R = "\<lambda>_. ?T"], rule valid_weaken [OF keeps_call_or_throw [OF plain_taking]], assumption, assumption, erule taking_base,
            rule valid_await [where R = "\<lambda>_. ?T"], rule quiet_unit [OF keeps_upd_status [OF plain_taking]],
            rule valid_await [where R = "\<lambda>_. ?T"], rule valid_weaken [OF keeps_call_or_throw [OF plain_taking]], assumption, assumption, erule taking_base,
            rule valid_await [where R = "\<lambda>_. ?T"], rule quiet_unit [OF keeps_upd_status [OF plain_taking]],
            rule valid_await [where R = "\<lambda>_. ?T"], rule valid_weaken [OF keeps_call_or_throw [OF plain_taking]], assumption, assumption, erule taking_base,
            rule valid_if, rule valid_pre [OF keeps_release [OF keys]], erule taking_base,
            rule valid_await [OF claim], rule go, simp)
    qed
  qed
qed

lemma valid_simulateTick:
  assumes keys: "keys_distinct io"
  shows "valid (\<lambda>w. base_of io user w \<and> shows_registers io (pt_regs w) (pt_store w)) (simulateTick io ps weather)
     (\<lambda>_. base_of io user) (base_of io user)"
  unfolding simulateTick_def
proof (rule valid_await [where R = "\<lambda>_ w. base_of io user w \<and> shows_registers io (pt_regs w) (pt_store w)"])
  show "valid (\<lambda>w. base_of io user w \<and> shows_registers io (pt_regs w) (pt_store w)) status
     (\<lambda>_ w. base_of io user w \<and> shows_registers io (pt_regs w) (pt_store w)) (base_of io user)"
    unfolding status_def by (rule valid_gets)
  show "valid (\<lambda>w. base_of io user w \<and> shows_registers io (pt_regs w) (pt_store w))
     (if st_blockers s0 \<noteq> [] then release io Disabled
      else await (decideTick io (ps\<lparr>ps_shadowMode := True\<rparr>) weather) (\<lambda>_.
       await status (\<lambda>s. if st_state s \<noteq> Shadow then release io Disabled
         else upd_status (\<lambda>s. s\<lparr>st_state := Simulating\<rparr>)))) (\<lambda>_. base_of io user) (base_of io user)" for s0
    by (rule valid_if, rule valid_pre [OF keeps_release [OF keys]], simp, rule valid_await [OF valid_decideTick [OF keys]])
      (intro keeps_await keeps_reads valid_if keeps_release [OF keys] keeps_upd_status plain_base)
qed

lemma valid_tick_body:
  assumes keys: "keys_distinct io"
  shows "valid (\<lambda>w. base_of io user w \<and> shows_registers io (pt_regs w) (pt_store w)) (tick_body io)
     (\<lambda>_. base_of io user) (base_of io user)"
proof -
  let ?P = "\<lambda>w. base_of io user w \<and> shows_registers io (pt_regs w) (pt_store w)"
  let ?B = "base_of io user"
  have pP: "plain ?P" by (intro plain_conj plain_base) (rule plain_store [where p = "\<lambda>r s. shows_registers io r s"])
  have eng: "valid ?P (upd_eng f) (\<lambda>_. ?P) ?B" for f by (rule valid_weaken [OF keeps_upd_eng [OF pP]]) auto
  have st: "valid ?P (upd_status f) (\<lambda>_. ?P) ?B" for f by (rule valid_weaken [OF keeps_upd_status [OF pP]]) auto
  have cfg: "valid ?P (call_or_throw (io_getConfig io)) (\<lambda>_. ?P) ?B"
    by (rule valid_weaken [OF keeps_call_or_throw [OF pP]]) auto
  have weather: "valid ?P (call_or_throw (io_getWeather io)) (\<lambda>_. ?P) ?B"
    by (rule valid_weaken [OF keeps_call_or_throw [OF pP]]) auto
  have rel: "valid ?P (release io state) (\<lambda>_. ?B) ?B" for state
    by (rule valid_pre [OF keeps_release [OF keys]]) simp
  show ?thesis unfolding tick_body_def Let_def
    by (rule valid_await [OF eng], rule valid_await [OF cfg], rule valid_await [OF st], rule valid_await [OF weather],
        rule valid_await [OF st], intro valid_if valid_simulateTick valid_decideTick keys rel)
qed

lemma keeps_flush: "keeps (base_of io user) (flushDecision io)"
proof -
  have n: "keeps (base_of io user) (note_effect eff)" for eff
    using keeps_note [of "custody_of io" user undefined "{}" "{}"] unfolding tick_inv_base .
  have "keeps (base_of io user) (case (eg_pending e, io_recordDecision io) of
       (Some (localSinkW, at_ms), Some record_it) \<Rightarrow>
         await (note_effect (RecordDecision localSinkW at_ms)) (\<lambda>_. await (call record_it) (\<lambda>_. ret ()))
     | _ \<Rightarrow> ret ())" for e
    by (auto split: option.split intro!: keeps_await n keeps_call keeps_ret)
  then show ?thesis unfolding flushDecision_def by (intro keeps_await keeps_reads keeps_upd_eng plain_base)
qed

lemma valid_runTick:
  assumes keys: "keys_distinct io"
  shows "valid (\<lambda>w. base_of io user w \<and> shows_registers io (pt_regs w) (pt_store w)) (runTick io)
     (\<lambda>_. base_of io user) (base_of io user)"
  unfolding runTick_def
proof (rule valid_await [where R = "\<lambda>_. base_of io user"])
  show "valid (\<lambda>w. base_of io user w \<and> shows_registers io (pt_regs w) (pt_store w)) (attempt (tick_body io))
     (\<lambda>_. base_of io user) (base_of io user)"
    by (rule valid_attempt [OF valid_tick_body [OF keys]])
qed (intro keeps_await valid_sum keeps_upd_status keeps_ret keeps_call keeps_flush plain_base)

subsection \<open>Histories\<close>

text \<open>
  What happens to a plant over time: a tick, the engine's own release, a restart of the server, and
  the user (or another client) setting a register to a value. While a register is borrowed such an
  edit is overruled by the next tick, and what the user gets back is the value before. The log starts
  anew with every happening.
\<close>

datatype happening = Tick AutomationIO | Release AutomationIO | Restart | UserSets string number

definition happen :: "happening \<Rightarrow> plant \<Rightarrow> plant" where
  "happen ev w0 = (let w = w0\<lparr>pt_log := []\<rparr> in case ev of
     Tick io \<Rightarrow> snd (runTick io w)
   | Release io \<Rightarrow> snd (release io Disabled w)
   | Restart \<Rightarrow> w\<lparr>pt_eng := new_engine\<rparr>
   | UserSets k v \<Rightarrow> w\<lparr>pt_regs := (pt_regs w)(k \<mapsto> v)\<rparr>)"

definition borrowed :: "custody \<Rightarrow> string \<Rightarrow> plant \<Rightarrow> bool" where
  "borrowed c k w \<longleftrightarrow> (\<exists>slot. (slot, Some k) \<in> set c \<and> js_get (pt_store w) slot \<noteq> None)"

definition user_after :: "custody \<Rightarrow> happening \<Rightarrow> plant \<Rightarrow> (string \<Rightarrow> number) \<Rightarrow> string \<Rightarrow> number" where
  "user_after c ev w user = (case ev of
     UserSets k v \<Rightarrow> if borrowed c k w then user else user(k := v)
   | _ \<Rightarrow> user)"

text \<open>
  Every tick reads samples that show, of the registers not borrowed when it starts, what they hold
  then. The code cannot check this: it accepts a sample up to 30 seconds old.
\<close>

definition true_readings :: "custody \<Rightarrow> happening \<Rightarrow> plant \<Rightarrow> bool" where
  "true_readings c ev w \<longleftrightarrow> (case ev of
     Tick io \<Rightarrow> custody_of io = c \<and> shows_registers io (pt_regs w) (pt_store w)
   | Release io \<Rightarrow> custody_of io = c
   | _ \<Rightarrow> True)"

fun history :: "custody \<Rightarrow> plant \<Rightarrow> (string \<Rightarrow> number) \<Rightarrow> happening list \<Rightarrow> (plant \<times> (string \<Rightarrow> number)) option" where
  "history c w user [] = Some (w, user)"
| "history c w user (ev # evs) = (if true_readings c ev w
     then history c (happen ev w) (user_after c ev w user) evs else None)"

lemma happen_custody:
  assumes keys: "distinct (List.map_filter snd c)" and slots: "distinct (map fst c)"
    and base: "all_in_custody c user w0" and true: "true_readings c ev w0"
  shows "all_in_custody c (user_after c ev w0 user) (happen ev w0)"
proof -
  define w where "w = w0\<lparr>pt_log := []\<rparr>"
  have w: "all_in_custody c user w" "pt_regs w = pt_regs w0" "pt_store w = pt_store w0"
    using base unfolding w_def all_in_custody_def by simp_all
  show ?thesis
  proof (cases ev)
    case (Tick io)
    then have io: "custody_of io = c" "shows_registers io (pt_regs w) (pt_store w)" using true w unfolding true_readings_def by simp_all
    have k: "keys_distinct io" unfolding keys_distinct_def io by (rule keys)
    have "ends (\<lambda>_. all_in_custody c user) (all_in_custody c user) (fst (runTick io w)) (snd (runTick io w))"
      using valid_runTick [OF k, of user] w io unfolding valid_def by blast
    then have "all_in_custody c user (snd (runTick io w))" by (cases "fst (runTick io w)") simp_all
    then show ?thesis unfolding Tick happen_def user_after_def w_def by simp
  next
    case (Release io)
    then have io: "custody_of io = c" using true unfolding true_readings_def by simp
    have k: "keys_distinct io" unfolding keys_distinct_def io by (rule keys)
    have "all_in_custody c user (snd (release io Disabled w))"
      using keeps_apply [OF keeps_release [OF k]] w unfolding io by blast
    then show ?thesis unfolding Release happen_def user_after_def w_def by simp
  next
    case Restart
    then show ?thesis using base unfolding happen_def user_after_def all_in_custody_def by simp
  next
    case (UserSets k v)
    have dis: "slots_distinct c" using keys slots by (rule map_filter_snd_distinct)
    have old: "in_custody c user (pt_regs w0) (pt_store w0)" using base unfolding all_in_custody_def by simp
    define user' where "user' = (if borrowed c k w0 then user else user(k := v))"
    have "in_custody c user' ((pt_regs w0)(k \<mapsto> v)) (pt_store w0)"
      unfolding in_custody_def
    proof (intro allI impI)
      fix slot k' assume c': "(slot, Some k') \<in> set c"
      have "borrowed c k w0 \<longleftrightarrow> js_get (pt_store w0) slot \<noteq> None" if "k' = k"
        using that dis c' unfolding borrowed_def slots_distinct_def by blast
      then show "case js_get (pt_store w0) slot of
          None \<Rightarrow> ((pt_regs w0)(k \<mapsto> v)) k' = Some (user' k')
        | Some snap \<Rightarrow> as_previousValue snap = RegisterValue (user' k')"
        using old [unfolded in_custody_def, rule_format, OF c'] unfolding user'_def
        by (cases "k' = k") (auto split: option.splits)
    qed
    then show ?thesis unfolding UserSets happen_def user_after_def all_in_custody_def user'_def by simp
  qed
qed

lemma history_custody:
  assumes "distinct (List.map_filter snd c)" and "distinct (map fst c)" and "all_in_custody c user w"
    and "history c w user evs = Some (w', user')"
  shows "all_in_custody c user' w'"
  using assms(3-4)
proof (induction evs arbitrary: w user)
  case Nil
  then show ?case by simp
next
  case (Cons ev evs)
  then have true: "true_readings c ev w" "history c (happen ev w) (user_after c ev w user) evs = Some (w', user')"
    by (auto split: if_splits)
  show ?case by (rule Cons.IH [OF happen_custody [OF assms(1-2) Cons.prems(1) true(1)] true(2)])
qed

text \<open>C19. The value the user gave a register the automation borrows is never lost: over any history of
  ticks, releases, server restarts and edits of the registers, whatever calls, writes and saves
  fail, with or without having landed, at every instant, also between two calls of a tick, either
  nothing is stored for the register and it holds the user's value, or the stored snapshot is
  the user's value. It is assumed that nothing is borrowed at the start, that no register is in
  two custodies, and that the samples a tick reads show, of every register not borrowed when it
  starts, what the register holds: the code accepts a sample up to 30 seconds old, and one from
  before the user's last edit is recorded as the user's value (\<open>stale_sample_is_recorded\<close> of
  \<open>Register_Return\<close>). An edit of a register while it is borrowed is not the user's value: the next
  tick overrules it.\<close>

theorem user_setting_survives:
  assumes "custody_of io = c" and "keys_distinct io"
    and "\<And>slot k. (slot, Some k) \<in> set c \<Longrightarrow> js_get (pt_store w) slot = None \<and> pt_regs w k = Some (user k)"
    and "history c (w\<lparr>pt_log := []\<rparr>) user evs = Some (w', user')"
  shows "\<forall>slot k regs store. (slot, Some k) \<in> set c
     \<longrightarrow> (regs, store) \<in> insert (pt_regs w', pt_store w') (snd ` set (pt_log w'))
     \<longrightarrow> (case js_get store slot of
           None \<Rightarrow> regs k = Some (user' k)
         | Some snap \<Rightarrow> as_previousValue snap = RegisterValue (user' k))"
proof -
  have "all_in_custody c user (w\<lparr>pt_log := []\<rparr>)" using assms(3) unfolding all_in_custody_def in_custody_def by simp
  then have "all_in_custody c user' w'"
    using assms(1) assms(2) assms(4) custody_slots(1) [of io] unfolding keys_distinct_def
    by (intro history_custody [OF _ _ _ assms(4)]) simp_all
  then show ?thesis unfolding all_in_custody_def in_custody_def by fastforce
qed


definition shaky_io :: AutomationIO where
  "shaky_io = \<lparr>io_device = sample_device, io_zone = utc, io_constraint = (\<lambda>_. None),
     io_write = (\<lambda>n. if even n then WriteFailed ''timeout'' True else Written),
     io_getConfig = (\<lambda>_. Inr sample_automation), io_getWeather = (\<lambda>_. Inr sample_weather),
     io_getPackNominalV = (\<lambda>_. Inr None), io_getForecast = (\<lambda>_ _. Inr None),
     io_getBaselineLoadW = (\<lambda>_ _. Inr (Some 500)), io_getEvcc = (\<lambda>_. None), io_getPrices = (\<lambda>_. Inr None),
     io_getTariff = (\<lambda>_. Inr defaultTariff), io_evccCommand = (\<lambda>_. None),
     io_latestSample = (\<lambda>_. Some \<lparr>iv_time = 0, iv_inverterId = ''inv'',
        iv_metrics = [(''pv_power'', 9000), (''soc'', 50), (''charge_a'', 60), (''sell_w'', 5000)]\<rparr>),
     io_loadState = (\<lambda>_. None), io_saveState = (\<lambda>n. if n mod 3 = 0 then SaveFailed ''disk full'' False else Saved),
     io_now = (\<lambda>_. 1000), io_recordDecision = None\<rparr>"

definition idle_plant :: plant where
  "idle_plant = \<lparr>pt_eng = new_engine, pt_regs = [''charge_a'' \<mapsto> 60, ''sell_w'' \<mapsto> 6000], pt_store = [],
     pt_calls = 0, pt_log = []\<rparr>"

lemma shaky_custody:
  "custody_of shaky_io = [(''inv:peakShaving'', Some ''charge_a''), (''inv:peakShaving:sell'', Some ''sell_w''),
     (''inv:peakShaving:gridcharge'', None), (''inv:peakShaving:gridchargeA'', None)]"
  unfolding custody_of_def steeredRegisters_def gridChargeRegisters_def chargeLimitOf_def sellKeyOf_def gridChargeKeyOf_def
    gridChargeLimitOf_def sellSlotOf_def gridChargeSlotOf_def gridChargeASlotOf_def stateKeyOf_def shaky_io_def
  apply (simp add: sample_device_roles resolveChargeLimit_def resolveLimit_def CHARGE_LIMIT_ROLES_def present_def
      SELL_LIMIT_ROLE_def)
  apply (simp add: resolveGridChargeLimit_def resolveLimit_def GRID_CHARGE_LIMIT_ROLES_def GRID_CHARGE_ROLE_def
      roleKey_def sample_device_def deviceInstance_def roleBindings_def bind_role_def base_metric_def)
  apply (simp add: automationStateKey_def PEAK_SHAVING_ID_def present_def)
  done

theorem user_setting_survives_witness:
  "\<exists>w user. history (custody_of shaky_io) idle_plant (\<lambda>k. if k = ''charge_a'' then 60 else 6000)
        [UserSets ''sell_w'' 5000, Tick shaky_io, Restart] = Some (w, user)
     \<and> user ''sell_w'' = 5000
     \<and> (case js_get (pt_store w) ''inv:peakShaving:sell'' of
          None \<Rightarrow> pt_regs w ''sell_w'' = Some 5000
        | Some snap \<Rightarrow> as_previousValue snap = RegisterValue 5000)"
proof -
  define c where "c = custody_of shaky_io"
  define user where "user k = (if k = ''charge_a'' then 60 else 6000 :: number)" for k
  define w1 where "w1 = happen (UserSets ''sell_w'' 5000) idle_plant"
  define w where "w = happen Restart (happen (Tick shaky_io) w1)"
  have w1: "pt_regs w1 = [''charge_a'' \<mapsto> 60, ''sell_w'' \<mapsto> 5000]" unfolding w1_def happen_def idle_plant_def by simp
  have shown: "shows_registers shaky_io (pt_regs w1) (pt_store w1)"
    unfolding shows_registers_def w1 shaky_custody by (auto simp: shaky_io_def finite_reading_def)
  have free: "\<not> borrowed c ''sell_w'' idle_plant" unfolding borrowed_def idle_plant_def by simp
  have h: "history c (idle_plant\<lparr>pt_log := []\<rparr>) user [UserSets ''sell_w'' 5000, Tick shaky_io, Restart]
     = Some (w, user(''sell_w'' := 5000))"
  proof -
    have true: "true_readings c (UserSets ''sell_w'' 5000) idle_plant" "true_readings c (Tick shaky_io) w1"
      "true_readings c Restart (happen (Tick shaky_io) w1)"
      using shown unfolding true_readings_def c_def by simp_all
    have after: "user_after c (UserSets ''sell_w'' 5000) idle_plant user = user(''sell_w'' := 5000)"
      "user_after c (Tick shaky_io) w1 (user(''sell_w'' := 5000)) = user(''sell_w'' := 5000)"
      "user_after c Restart (happen (Tick shaky_io) w1) (user(''sell_w'' := 5000)) = user(''sell_w'' := 5000)"
      using free unfolding user_after_def by simp_all
    have idle: "idle_plant\<lparr>pt_log := []\<rparr> = idle_plant" unfolding idle_plant_def by simp
    show ?thesis unfolding idle w_def using true after by (simp add: w1_def [symmetric])
  qed
  have "\<And>slot k. (slot, Some k) \<in> set c \<Longrightarrow> js_get (pt_store idle_plant) slot = None \<and> pt_regs idle_plant k = Some (user k)"
    unfolding c_def shaky_custody idle_plant_def user_def by auto
  moreover have "keys_distinct shaky_io" unfolding keys_distinct_def shaky_custody by (simp add: map_filter_simps)
  ultimately have "\<forall>slot k regs store. (slot, Some k) \<in> set c
     \<longrightarrow> (regs, store) \<in> insert (pt_regs w, pt_store w) (snd ` set (pt_log w))
     \<longrightarrow> (case js_get store slot of None \<Rightarrow> regs k = Some ((user(''sell_w'' := 5000)) k)
         | Some snap \<Rightarrow> as_previousValue snap = RegisterValue ((user(''sell_w'' := 5000)) k))"
    by (intro user_setting_survives [OF c_def [symmetric] _ _ h])
  then have "case js_get (pt_store w) ''inv:peakShaving:sell'' of
        None \<Rightarrow> pt_regs w ''sell_w'' = Some ((user(''sell_w'' := 5000)) ''sell_w'')
      | Some snap \<Rightarrow> as_previousValue snap = RegisterValue ((user(''sell_w'' := 5000)) ''sell_w'')"
    by (rule allE) (erule_tac x = "''sell_w''" in allE, auto simp: c_def shaky_custody)
  then have reg: "case js_get (pt_store w) ''inv:peakShaving:sell'' of
        None \<Rightarrow> pt_regs w ''sell_w'' = Some 5000
      | Some snap \<Rightarrow> as_previousValue snap = RegisterValue 5000" unfolding fun_upd_same .
  have idle: "idle_plant\<lparr>pt_log := []\<rparr> = idle_plant" unfolding idle_plant_def by simp
  have u: "user = (\<lambda>k. if k = ''charge_a'' then 60 else 6000)" unfolding user_def by (rule refl)
  show ?thesis
    by (rule exI [where x = w], rule exI [where x = "user(''sell_w'' := 5000)"])
      (intro conjI; use h reg in \<open>simp add: idle c_def u\<close>)
qed

end
