(* ===== verification/Register_Return.thy ===== *)
theory Register_Return
  imports Register_Custody
begin

text \<open>
  What a disabled tick of \<^verbatim>\<open>peak-shaving-engine.ts\<close> gives back: on a plant that answers every call, one
  tick with the automation off leaves no snapshot behind and every borrowed register at the user's value.
\<close>

text \<open>A plant where nothing fails.\<close>

definition is_answer :: "string + 'a \<Rightarrow> bool" where
  "is_answer r \<longleftrightarrow> (\<exists>x. r = Inr x)"

definition answers :: "AutomationIO \<Rightarrow> bool" where
  "answers io \<longleftrightarrow> (\<forall>n. io_write io n = Written \<and> io_saveState io n = Saved \<and> io_loadState io n = None
     \<and> io_evccCommand io n = None \<and> is_answer (io_getWeather io n) \<and> is_answer (io_getPackNominalV io n)
     \<and> is_answer (io_getPrices io n) \<and> is_answer (io_getTariff io n)
     \<and> (\<forall>weather. is_answer (io_getForecast io n weather) \<and> is_answer (io_getBaselineLoadW io n weather)))"

abbreviation surely :: "(plant \<Rightarrow> bool) \<Rightarrow> 'a plant_act \<Rightarrow> ('a \<Rightarrow> plant \<Rightarrow> bool) \<Rightarrow> bool" where
  "surely P m Q \<equiv> valid P m Q (\<lambda>_. False)"

lemma surely_call: "plain P \<Longrightarrow> surely P (call f) (\<lambda>_. P)"
  unfolding valid_def call_def by (simp add: plain_calls)

lemma surely_call_or_throw:
  assumes "plain P" and "\<And>n. is_answer (f n)"
  shows "surely P (call_or_throw f) (\<lambda>_. P)"
  unfolding valid_def call_or_throw_def await_def call_def
proof (intro allI impI)
  fix s assume P: "P s"
  obtain x where "f (pt_calls s) = Inr x" using assms(2) [of "pt_calls s"] unfolding is_answer_def by blast
  then show "ends (\<lambda>_. P) (\<lambda>_. False)
     (fst (case (Inr (f (pt_calls s)), s\<lparr>pt_calls := pt_calls s + 1\<rparr>) of (Inl e, s') \<Rightarrow> (Inl e, s')
        | (Inr x, s') \<Rightarrow> (case x of Inl msg \<Rightarrow> throw (Thrown msg) | Inr x \<Rightarrow> ret x) s'))
     (snd (case (Inr (f (pt_calls s)), s\<lparr>pt_calls := pt_calls s + 1\<rparr>) of (Inl e, s') \<Rightarrow> (Inl e, s')
        | (Inr x, s') \<Rightarrow> (case x of Inl msg \<Rightarrow> throw (Thrown msg) | Inr x \<Rightarrow> ret x) s'))"
    using P by (simp add: ret_def plain_calls [OF assms(1)])
qed

lemma surely_upd: "plain P \<Longrightarrow> surely P (upd_eng f) (\<lambda>_. P)" "plain P \<Longrightarrow> surely P (upd_status g) (\<lambda>_. P)"
  unfolding upd_status_def upd_eng_def by (rule valid_modify, simp add: plain_eng)+

lemma surely_reads: "surely P eng (\<lambda>_. P)" "surely P status (\<lambda>_. P)"
  unfolding eng_def status_def by (rule valid_gets, assumption)+

lemma surely_load:
  assumes "answers io" and "plain P"
  shows "surely P (loadState io) (\<lambda>st w. P w \<and> pt_store w = st)"
  unfolding loadState_def using assms(1)
  by (auto simp: valid_def await_def call_def gets_def answers_def plain_calls [OF assms(2)])

lemma surely_write:
  assumes "answers io"
  shows "surely (\<lambda>w. p (pt_store w)) (write_key io k v) (\<lambda>_ w. p (pt_store w))"
  using assms unfolding valid_def write_key_def await_def note_effect_def modify_def call_def set_register_def answers_def
  by simp

lemma surely_save:
  assumes "answers io" and "\<And>w. P w \<Longrightarrow> p nxt"
  shows "surely P (saveState io nxt) (\<lambda>_ w. p (pt_store w))"
  using assms unfolding valid_def saveState_def await_def note_effect_def modify_def call_def set_store_def answers_def
  by simp

lemma surely_evcc:
  assumes "answers io"
  shows "surely (\<lambda>w. p (pt_store w)) (evccCommand io lp action v) (\<lambda>_ w. p (pt_store w))"
  using assms unfolding valid_def evccCommand_def await_def note_effect_def modify_def call_def answers_def
  by simp

definition numeric :: "custody \<Rightarrow> AutomationState \<Rightarrow> bool" where
  "numeric c store \<longleftrightarrow> (\<forall>slot k snap. (slot, Some k) \<in> set c \<longrightarrow> js_get store slot = Some snap
     \<longrightarrow> (\<exists>v. as_previousValue snap = RegisterValue v))"

lemma custody_numeric: "all_in_custody c user w \<Longrightarrow> numeric c (pt_store w)"
  unfolding all_in_custody_def in_custody_def numeric_def by (auto split: option.splits)

definition bound_slots :: "custody \<Rightarrow> string set" where
  "bound_slots c = {slot. \<exists>k. (slot, Some k) \<in> set c \<and> k \<noteq> []}"

definition freed :: "string set \<Rightarrow> AutomationState \<Rightarrow> bool" where
  "freed F store \<longleftrightarrow> (\<forall>slot\<in>F. js_get store slot = None)"

lemma surely_replay:
  assumes "answers io" and "present key" and "as_previousValue snap = RegisterValue v"
  shows "surely (\<lambda>w. p (pt_store w)) (replaySnapshot io key (as_previousValue snap)) (\<lambda>ok w. ok \<and> p (pt_store w))"
proof -
  have "surely (\<lambda>w. p (pt_store w)) (attempt (write_key io (the key) v))
      (\<lambda>r w. (\<exists>u. r = Inr u) \<and> p (pt_store w))"
    by (rule valid_attempt [where F = "\<lambda>_. False"]) (rule valid_weaken [OF surely_write [OF assms(1)]], simp_all)
  then have "surely (\<lambda>w. p (pt_store w)) (await (attempt (write_key io (the key) v)) (\<lambda>r. case r of
            Inl err \<Rightarrow> await (upd_status (\<lambda>s. s\<lparr>st_lastError := Some (case err of
                WriteRejected msg \<Rightarrow> ''restore failed: '' @ msg | Thrown msg \<Rightarrow> msg)\<rparr>)) (\<lambda>_. ret False)
          | Inr _ \<Rightarrow> ret True)) (\<lambda>ok w. ok \<and> p (pt_store w))"
  proof (rule valid_await)
    fix r :: "exn + unit"
    show "surely (\<lambda>w. (\<exists>u. r = Inr u) \<and> p (pt_store w)) (case r of
            Inl err \<Rightarrow> await (upd_status (\<lambda>s. s\<lparr>st_lastError := Some (case err of
                WriteRejected msg \<Rightarrow> ''restore failed: '' @ msg | Thrown msg \<Rightarrow> msg)\<rparr>)) (\<lambda>_. ret False)
          | Inr _ \<Rightarrow> ret True) (\<lambda>ok w. ok \<and> p (pt_store w))"
      by (cases r) (auto simp: valid_def ret_def)
  qed
  then show ?thesis unfolding replaySnapshot_def using assms(2) assms(3) by (simp add: numericSnapshot_def)
qed

definition left_of :: "AutomationState \<Rightarrow> AutomationState \<Rightarrow> bool" where
  "left_of state nxt \<longleftrightarrow> (\<forall>slot. js_get nxt slot = None \<or> js_get nxt slot = js_get state slot)
     \<and> length nxt \<le> length state \<and> (length nxt = length state \<longrightarrow> nxt = state)"

lemma left_of_refl: "left_of state state"
  unfolding left_of_def by simp

lemma left_of_delete:
  assumes "left_of state nxt"
  shows "left_of state (js_delete slot nxt)"
proof -
  have "length (js_delete slot nxt) \<le> length nxt" unfolding AList.delete_eq by (rule length_filter_le)
  moreover have "js_delete slot nxt = nxt" if "length (js_delete slot nxt) = length nxt"
    using that unfolding AList.delete_eq by (metis (no_types, lifting) filter_True length_filter_less less_irrefl)
  ultimately show ?thesis using assms unfolding left_of_def by (auto simp: le_antisym)
qed

definition ready :: "custody \<Rightarrow> string set \<Rightarrow> plant \<Rightarrow> bool" where
  "ready c F w \<longleftrightarrow> numeric c (pt_store w) \<and> freed F (pt_store w)"

lemma plain_ready [simp]: "plain (ready c F)"
  unfolding plain_def ready_def by simp

lemma left_of_numeric: "numeric c state \<Longrightarrow> left_of state nxt \<Longrightarrow> numeric c nxt"
  unfolding numeric_def left_of_def by (metis option.distinct(1))

lemma left_of_freed: "freed F state \<Longrightarrow> left_of state nxt \<Longrightarrow> freed F nxt"
  unfolding freed_def left_of_def by (metis (no_types))

definition handed :: "AutomationState \<Rightarrow> string set \<Rightarrow> AutomationState \<times> bool \<Rightarrow> plant \<Rightarrow> bool" where
  "handed state F a w \<longleftrightarrow> pt_store w = state \<and> freed F (fst a) \<and> left_of state (fst a)"

lemma handed_delete: "handed state F (nxt, held) w \<Longrightarrow> handed state (insert slot F) (js_delete slot nxt, held) w"
  unfolding handed_def freed_def by (auto intro: left_of_delete)

lemma handed_again: "handed state F (nxt, held) w \<Longrightarrow> handed state F (nxt, held') w"
  unfolding handed_def by simp

lemma surely_restore_one:
  assumes ans: "answers io" and num: "numeric slots state" and x: "(slot, key) \<in> set slots"
  shows "surely (handed state F a) (restore_one io state (slot, key) a)
     (handed state (F \<union> bound_slots [(slot, key)]))"
proof -
  obtain nxt held where a: "a = (nxt, held)" by (cases a)
  have bound: "bound_slots [(slot, key)] = (if present key then {slot} else {})"
    unfolding bound_slots_def present_def by (auto split: option.split)
  have pl: "plain (handed state F b)" for b unfolding plain_def handed_def by simp
  show ?thesis unfolding restore_one_def fst_conv snd_conv
  proof (rule valid_option)
    assume "js_get state slot = None"
    then show "surely (handed state F a) (ret a) (handed state (F \<union> bound_slots [(slot, key)]))"
      by (intro valid_ret) (auto simp: handed_def freed_def bound left_of_def split: if_splits)
  next
    fix snap assume snap: "js_get state slot = Some snap"
    show "surely (handed state F a) (await (replaySnapshot io key (as_previousValue snap)) (\<lambda>restored.
       ret (if restored then (js_delete slot (fst a), snd a) else (fst a, True))))
       (handed state (F \<union> bound_slots [(slot, key)]))"
    proof (cases "present key")
      case False
      then have "replaySnapshot io key (as_previousValue snap) = ret False" unfolding replaySnapshot_def by simp
      then show ?thesis using False unfolding a bound
        by (auto simp: valid_def await_def ret_def intro: handed_again)
    next
      case True
      then obtain k where "key = Some k" unfolding present_def by (cases key) auto
      then obtain v where v: "as_previousValue snap = RegisterValue v"
        using num snap x unfolding numeric_def by fastforce
      have "surely (\<lambda>w. handed state F a w) (replaySnapshot io key (as_previousValue snap))
          (\<lambda>ok w. ok \<and> handed state F a w)"
        unfolding handed_def
        using surely_replay [OF ans True v, where p = "\<lambda>s. s = state \<and> freed F (fst a) \<and> left_of state (fst a)"] by simp
      then show ?thesis
        by (rule valid_await)
          (rule valid_ret, use True in \<open>auto simp: a bound dest: handed_delete\<close>)
    qed
  qed
qed

lemma surely_restore_loop:
  assumes "answers io" and "numeric c state" and "set slots \<subseteq> set c"
  shows "surely (handed state F a) (for_fold slots (restore_one io state) a)
     (handed state (F \<union> bound_slots slots))"
  using assms(3)
proof (induction slots arbitrary: F a)
  case Nil
  then show ?case by (auto simp: bound_slots_def intro!: valid_ret)
next
  case (Cons x slots)
  obtain slot key where x: "x = (slot, key)" by (cases x)
  have num: "numeric (x # slots) state" using assms(2) Cons.prems unfolding numeric_def by blast
  have b: "F \<union> bound_slots [(slot, key)] \<union> bound_slots slots = F \<union> bound_slots (x # slots)"
    unfolding bound_slots_def x by auto
  have one: "surely (handed state F a) (restore_one io state x a) (handed state (F \<union> bound_slots [(slot, key)]))"
    unfolding x by (rule surely_restore_one [OF assms(1) num]) (simp add: x)
  show ?case unfolding for_fold.simps
    by (rule valid_await [OF one]) (use Cons.IH Cons.prems b in \<open>metis set_subset_Cons subset_trans\<close>)
qed

lemma surely_hand_back:
  assumes "answers io" and "set slots \<subseteq> set c" and "\<And>a F. surely (ready c F) (after a) (\<lambda>_. ready c F)"
  shows "surely (ready c F) (await (loadState io) (\<lambda>state.
     await (restore_slots io state slots) (\<lambda>a.
     await (run_if (length (fst a) \<noteq> length state) (saveState io (fst a))) (\<lambda>_. after a))))
     (\<lambda>_. ready c (F \<union> bound_slots slots))"
proof (rule valid_await [OF surely_load [OF assms(1) plain_ready]])
  fix state
  show "surely (\<lambda>w. ready c F w \<and> pt_store w = state) (await (restore_slots io state slots) (\<lambda>a.
     await (run_if (length (fst a) \<noteq> length state) (saveState io (fst a))) (\<lambda>_. after a)))
     (\<lambda>_. ready c (F \<union> bound_slots slots))"
  proof (cases "numeric c state \<and> freed F state")
    case False
    then show ?thesis unfolding valid_def ready_def by blast
  next
    case True
    then have num: "numeric c state" by simp
    have loop: "surely (\<lambda>w. ready c F w \<and> pt_store w = state) (restore_slots io state slots)
       (handed state (F \<union> bound_slots slots))"
      unfolding restore_slots_alt
      by (rule valid_pre [OF surely_restore_loop [OF assms(1) num assms(2)]])
        (use True in \<open>simp add: handed_def left_of_refl\<close>)
    have save: "surely (handed state (F \<union> bound_slots slots) a)
       (run_if (length (fst a) \<noteq> length state) (saveState io (fst a))) (\<lambda>_. ready c (F \<union> bound_slots slots))" for a
    proof (cases "freed (F \<union> bound_slots slots) (fst a) \<and> left_of state (fst a)")
      case False
      then show ?thesis unfolding valid_def handed_def by blast
    next
      case left: True
      then have nxt: "numeric c (fst a)" "freed (F \<union> bound_slots slots) (fst a)"
        using num by (auto intro: left_of_numeric)
      show ?thesis unfolding run_if_def ready_def
      proof (rule valid_if)
        assume "\<not> length (fst a) \<noteq> length state"
        then have "fst a = state" using left unfolding left_of_def by simp
        then show "surely (handed state (F \<union> bound_slots slots) a) (ret ())
            (\<lambda>_ w. numeric c (pt_store w) \<and> freed (F \<union> bound_slots slots) (pt_store w))"
          using nxt by (intro valid_ret) (simp add: handed_def)
      qed (rule surely_save [OF assms(1)], use nxt in simp)
    qed
    show ?thesis by (rule valid_await [OF loop], rule valid_await [OF save], rule assms(3))
  qed
qed


subsection \<open>The engine's hand-backs\<close>

abbreviation set_down :: "AutomationIO \<Rightarrow> string set \<Rightarrow> plant \<Rightarrow> bool" where
  "set_down io \<equiv> ready (custody_of io)"

lemma surely_restoreSnapshot:
  assumes "answers io"
  shows "surely (set_down io F) (restoreSnapshot io) (\<lambda>_. set_down io (F \<union> bound_slots (steeredRegisters io)))"
proof -
  define after where "after a = await (upd_status (\<lambda>s. s\<lparr>st_restorePending := snd a\<rparr>)) (\<lambda>_.
     run_if (\<not> snd a) (upd_status (\<lambda>s. s\<lparr>st_lastWrittenA := None, st_sellLimitW := None,
       st_externalOverride := False\<rparr>)))" for a :: "AutomationState \<times> bool"
  have "surely (set_down io F) (after a) (\<lambda>_. set_down io F)" for a F
    unfolding after_def run_if_def
    by (rule valid_await [OF surely_upd(2)], simp, intro valid_if valid_ret surely_upd(2)) simp_all
  then show ?thesis unfolding restoreSnapshot_def split_beta' after_def [symmetric]
    by (intro surely_hand_back assms) (simp_all add: custody_of_def)
qed

lemma surely_releaseGridCharge:
  assumes "answers io"
  shows "surely (set_down io F) (releaseGridCharge io) (\<lambda>_. set_down io (F \<union> bound_slots (gridChargeRegisters io)))"
  unfolding releaseGridCharge_def split_beta'
  by (intro surely_hand_back assms surely_upd(2) plain_ready) (simp add: custody_of_def)

lemma surely_applyEvPullIn:
  assumes ans: "answers io" and F: "F \<subseteq> fst ` set (custody_of io)"
  shows "surely (set_down io F) (applyEvPullIn io regime enabled boostLimitPct) (\<lambda>_. set_down io F)"
  unfolding applyEvPullIn_def
proof (rule valid_await [OF surely_load [OF ans plain_ready]])
  fix state
  let ?L = "\<lambda>w. set_down io F w \<and> pt_store w = state"
  define I where "I nxt w \<longleftrightarrow> numeric (custody_of io) state \<and> freed F state
     \<and> ev_only io (tick_inv [] (\<lambda>_. 0) (\<lambda>_. None) {} {}) state nxt w" for nxt w
  have top: "tick_inv [] (\<lambda>_. 0) (\<lambda>_. None) {} {} w" for w
    unfolding tick_inv_base all_in_custody_def in_custody_def by simp
  have start: "?L w \<Longrightarrow> I state w" for w using top unfolding I_def ev_only_def ready_def by auto
  have pL: "plain ?L" by (rule plain_conj) (simp_all add: plain_store [where p = "\<lambda>r s. s = state"])
  have always: "surely (I nxt) m I" if
    "surely (ev_only io (tick_inv [] (\<lambda>_. 0) (\<lambda>_. None) {} {}) state nxt) m
       (ev_only io (tick_inv [] (\<lambda>_. 0) (\<lambda>_. None) {} {}) state)" for nxt m
  proof (cases "numeric (custody_of io) state \<and> freed F state")
    case True
    then show ?thesis by (intro valid_weaken [OF that]) (simp_all add: I_def)
  next
    case False
    then show ?thesis unfolding valid_def I_def by blast
  qed
  have save: "surely (I nxt) (saveState io nxt) (\<lambda>_. set_down io F)" for nxt
    unfolding ready_def
  proof (rule surely_save [OF ans])
    fix w assume "I nxt w"
    then have old: "numeric (custody_of io) state" "freed F state"
      and same: "\<And>slot. slot \<in> fst ` set (custody_of io) \<Longrightarrow> js_get nxt slot = js_get state slot"
      unfolding I_def ev_only_def by blast+
    have "numeric (custody_of io) nxt" using old(1) same unfolding numeric_def by force
    moreover have "freed F nxt" using old(2) same F unfolding freed_def by (metis subset_iff)
    ultimately show "numeric (custody_of io) nxt \<and> freed F nxt" by blast
  qed
  have one_claim: "surely (I nxt) (claimLoadpoint io nowMs claim nxt) I" for nxt nowMs claim
    by (rule always, rule valid_claimLoadpoint)
  have one_release: "surely (I nxt) (releaseLoadpoint io rel nxt) I" for nxt rel
    by (rule always, rule valid_releaseLoadpoint)
  have loops: "surely ?L (await (call (io_now io)) (\<lambda>nowMs.
            await (claimLoadpoints io plan nowMs state) (\<lambda>nxt.
            await (releaseLoadpoints io plan nxt) (\<lambda>nxt'. saveState io nxt')))) (\<lambda>_. set_down io F)" for plan
    unfolding claimLoadpoints_def releaseLoadpoints_def
    by (rule valid_await [OF surely_call [OF pL]], rule valid_await, rule valid_pre [OF valid_for_fold [OF one_claim]],
        rule start, assumption, rule valid_await [OF valid_for_fold [OF one_release]], rule save)
  show "surely ?L (await (call (io_getEvcc io)) (\<lambda>evcc.
       let plan = planEvPullIn \<lparr>ei_enabled = enabled, ei_regime = regime, ei_evcc = evcc,
             ei_boostLimitPct = boostLimitPct, ei_heldLoadpoints = heldLoadpoints io state\<rparr>
       in if ep_claim plan = [] \<and> ep_release plan = [] then ret ()
          else await (call (io_now io)) (\<lambda>nowMs.
            await (claimLoadpoints io plan nowMs state) (\<lambda>nxt.
            await (releaseLoadpoints io plan nxt) (\<lambda>nxt'. saveState io nxt'))))) (\<lambda>_. set_down io F)"
    unfolding Let_def
    by (rule valid_await [OF surely_call [OF pL]]) (intro valid_if valid_ret loops, simp)
qed

definition all_slots :: "AutomationIO \<Rightarrow> string set" where
  "all_slots io = bound_slots (custody_of io)"

lemma all_slots_split: "all_slots io = bound_slots (steeredRegisters io) \<union> bound_slots (gridChargeRegisters io)"
  unfolding all_slots_def bound_slots_def custody_of_def by auto

lemma bound_slots_fst: "set c \<subseteq> set c' \<Longrightarrow> bound_slots c \<subseteq> fst ` set c'"
  unfolding bound_slots_def by force

lemma surely_free:
  assumes ans: "answers io"
  shows "surely (set_down io {}) (await (restoreSnapshot io) (\<lambda>_. await (releaseEvPullIn io) (\<lambda>_. releaseGridCharge io)))
     (\<lambda>_. set_down io (all_slots io))"
proof (rule valid_await [OF surely_restoreSnapshot [OF ans]], rule valid_await)
  show "surely (set_down io ({} \<union> bound_slots (steeredRegisters io))) (releaseEvPullIn io)
      (\<lambda>_. set_down io ({} \<union> bound_slots (steeredRegisters io)))"
    unfolding releaseEvPullIn_def using bound_slots_fst [of "steeredRegisters io" "custody_of io"]
    by (intro surely_applyEvPullIn ans) (auto simp: custody_of_def)
  show "surely (set_down io ({} \<union> bound_slots (steeredRegisters io))) (releaseGridCharge io) (\<lambda>_. set_down io (all_slots io))"
    unfolding all_slots_split using surely_releaseGridCharge [OF ans] by simp
qed


subsection \<open>A disabled tick\<close>

lemma surely_release:
  assumes "answers io"
  shows "surely (set_down io {}) (release io state) (\<lambda>_. set_down io (all_slots io))"
  unfolding release_def resetSteering_def
  by (rule valid_await [OF surely_upd(2)], simp, rule valid_await [OF surely_upd(1)], simp, rule surely_free [OF assms])

lemma surely_steer:
  assumes ans: "answers io" and shadow: "ps_shadowMode ps"
  shows "surely (set_down io (bound_slots (steeredRegisters io))) (steer io ps weather live forecast limit baselineLoadW prices)
     (\<lambda>_. set_down io (all_slots io))"
proof -
  let ?P = "set_down io (bound_slots (steeredRegisters io))"
  have ev: "surely ?P (releaseEvPullIn io) (\<lambda>_. ?P)"
    unfolding releaseEvPullIn_def using bound_slots_fst [of "steeredRegisters io" "custody_of io"]
    by (intro surely_applyEvPullIn ans) (auto simp: custody_of_def)
  have grid: "surely ?P (releaseGridCharge io) (\<lambda>_. set_down io (all_slots io))"
    unfolding all_slots_split by (rule surely_releaseGridCharge [OF ans])
  have packV: "surely ?P (call_or_throw (io_getPackNominalV io)) (\<lambda>_. ?P)"
    by (rule surely_call_or_throw) (use ans in \<open>auto simp: answers_def\<close>)
  have tariff: "surely ?P (call_or_throw (io_getTariff io)) (\<lambda>_. ?P)"
    by (rule surely_call_or_throw) (use ans in \<open>auto simp: answers_def\<close>)
  show ?thesis unfolding steer_def Let_def using shadow
    by (simp only: if_True)
      (rule valid_await [OF surely_call], simp, rule valid_await [OF packV], rule valid_await [OF tariff],
        rule valid_await [OF surely_reads(1)], rule valid_await [OF surely_upd(2)], simp,
        rule valid_await [OF surely_upd(1)], simp, rule valid_await, rule valid_await [OF surely_upd(1)], simp,
        rule valid_await [OF ev], rule grid, rule surely_upd(1), simp)
qed

definition disabled_end :: "AutomationIO \<Rightarrow> plant \<Rightarrow> bool" where
  "disabled_end io w \<longleftrightarrow> set_down io (all_slots io) w
     \<or> set_down io {} w \<and> st_state (eg_status (pt_eng w)) = Stale"

lemma surely_stale: "surely (set_down io {}) (upd_status (\<lambda>s. s\<lparr>st_state := Stale\<rparr>)) (\<lambda>_. disabled_end io)"
  unfolding upd_status_def upd_eng_def
  by (rule valid_modify) (simp add: disabled_end_def plain_eng)

lemma surely_liveOrHold: "surely (set_down io {}) (liveOrHold io) (\<lambda>_. set_down io {})"
  unfolding liveOrHold_def readLive_def
  by (intro valid_option valid_ret) (assumption, rule valid_await, rule valid_await [OF surely_call], simp,
      rule valid_await [OF surely_call], simp, rule valid_ret, assumption, rule valid_ret, assumption)

lemma surely_decideTick:
  assumes ans: "answers io" and shadow: "ps_shadowMode ps"
  shows "surely (set_down io {}) (decideTick io ps weather) (\<lambda>_. disabled_end io)"
proof -
  let ?P = "set_down io {}"
  have all_end: "surely P m (\<lambda>_. set_down io (all_slots io)) \<Longrightarrow> surely P m (\<lambda>_. disabled_end io)" for P and m :: "unit plant_act"
    by (erule valid_weaken) (simp_all add: disabled_end_def)
  have throws: "surely Q (call_or_throw (io_getPackNominalV io)) (\<lambda>_. Q)" "surely Q (call_or_throw (io_getPrices io)) (\<lambda>_. Q)"
    "surely Q (call_or_throw (\<lambda>n. io_getForecast io n weather)) (\<lambda>_. Q)"
    "surely Q (call_or_throw (\<lambda>n. io_getBaselineLoadW io n weather)) (\<lambda>_. Q)" if "plain Q" for Q
    using ans that by (auto simp: answers_def intro!: surely_call_or_throw)
  let ?S = "bound_slots (steeredRegisters io)"
  have claim: "surely ?P (claimRegister io (ps_shadowMode ps) liveA) (\<lambda>ok w. ok \<and> set_down io ?S w)" for liveA
    unfolding claimRegister_def using shadow surely_restoreSnapshot [OF ans, of "{}"]
    by (simp, elim valid_await) (rule valid_ret, simp)
  have steer: "surely (\<lambda>w. ok \<and> set_down io ?S w) (if \<not> ok then upd_status (\<lambda>s. s\<lparr>st_state := Stale\<rparr>)
         else await (call_or_throw (\<lambda>n. io_getBaselineLoadW io n weather)) (\<lambda>baselineLoadW.
           steer io ps weather live forecast limit baselineLoadW prices)) (\<lambda>_. disabled_end io)" for ok live forecast limit prices
  proof (cases ok)
    case True
    have "surely (set_down io ?S) (await (call_or_throw (\<lambda>n. io_getBaselineLoadW io n weather)) (\<lambda>baselineLoadW.
           steer io ps weather live forecast limit baselineLoadW prices)) (\<lambda>_. set_down io (all_slots io))"
      by (rule valid_await [OF throws(4)], simp, rule surely_steer [OF ans shadow])
    with True show ?thesis by (simp add: all_end)
  qed (simp add: valid_def)
  show ?thesis unfolding decideTick_def
  proof (rule valid_await [OF surely_liveOrHold], rule valid_option [OF surely_stale])
    fix ready :: "SteeredLimit \<times> LiveInputs"
    obtain limit live where r: "ready = (limit, live)" by (cases ready)
    show "surely ?P (case ready of (limit, live) \<Rightarrow>
       await (call_or_throw (io_getPackNominalV io)) (\<lambda>packNominalV.
       await (upd_status (\<lambda>s. s\<lparr>st_liveA := map_option (\<lambda>l. of_int (math_round (limitAmps limit l
                (liveBatteryV live ps weather packNominalV)))) (li_liveLimit live),
              st_liveSellLimitW := li_sellLimitW live\<rparr>)) (\<lambda>_.
       await (call_or_throw (\<lambda>n. io_getForecast io n weather)) (\<lambda>forecast.
       await (upd_status (\<lambda>s. s\<lparr>st_forecastAvailable := (forecast \<noteq> None)\<rparr>)) (\<lambda>_.
       await (call_or_throw (io_getPrices io)) (\<lambda>prices.
       if isNight live forecast (insideNegativeWindow prices
            (effectivePriceConfig (ps_priceAware ps) weather) (li_nowMs live))
       then release io Idle
       else await (claimRegister io (ps_shadowMode ps) (li_liveLimit live)) (\<lambda>ok.
         if \<not> ok then upd_status (\<lambda>s. s\<lparr>st_state := Stale\<rparr>)
         else await (call_or_throw (\<lambda>n. io_getBaselineLoadW io n weather)) (\<lambda>baselineLoadW.
           steer io ps weather live forecast limit baselineLoadW prices)))))))) (\<lambda>_. disabled_end io)"
      unfolding r prod.case
      by (rule valid_await [OF throws(1)], simp, rule valid_await [OF surely_upd(2)], simp, rule valid_await [OF throws(3)],
          simp, rule valid_await [OF surely_upd(2)], simp, rule valid_await [OF throws(2)], simp, rule valid_if,
          rule all_end [OF surely_release [OF ans]], rule valid_await [OF claim], rule steer)
  qed
qed

lemma surely_simulateTick:
  assumes ans: "answers io"
  shows "surely (set_down io {}) (simulateTick io ps weather) (\<lambda>_. set_down io (all_slots io))"
  unfolding simulateTick_def
proof (rule valid_await [OF surely_reads(2)], rule valid_if [OF surely_release [OF ans]],
    rule valid_await [OF surely_decideTick [OF ans]])
  have less: "set_down io (all_slots io) w \<Longrightarrow> set_down io {} w" for w unfolding ready_def freed_def by simp
  define R where "R s w \<longleftrightarrow> disabled_end io w \<and> s = eg_status (pt_eng w)" for s w
  show "surely (disabled_end io) (await status (\<lambda>s. if st_state s \<noteq> Shadow then release io Disabled
         else upd_status (\<lambda>s. s\<lparr>st_state := Simulating\<rparr>))) (\<lambda>_. set_down io (all_slots io))"
  proof (rule valid_await [where R = R])
    show "surely (disabled_end io) status R" unfolding status_def R_def by (rule valid_gets) simp
    fix s
    show "surely (R s) (if st_state s \<noteq> Shadow then release io Disabled
         else upd_status (\<lambda>s. s\<lparr>st_state := Simulating\<rparr>)) (\<lambda>_. set_down io (all_slots io))"
    proof (rule valid_if)
      show "surely (R s) (release io Disabled) (\<lambda>_. set_down io (all_slots io))"
        by (rule valid_pre [OF surely_release [OF ans]]) (auto simp: R_def disabled_end_def dest: less)
      assume "\<not> st_state s \<noteq> Shadow"
      then show "surely (R s) (upd_status (\<lambda>s. s\<lparr>st_state := Simulating\<rparr>)) (\<lambda>_. set_down io (all_slots io))"
        by (intro valid_pre [OF surely_upd(2)]) (auto simp: R_def disabled_end_def)
    qed
  qed
qed simp


definition switched_off :: "AutomationIO \<Rightarrow> bool" where
  "switched_off io \<longleftrightarrow> (\<forall>n. \<exists>cfg. io_getConfig io n = Inr cfg \<and> \<not> (ac_enabled cfg \<and> ps_enabled (ac_peakShaving cfg)))"

lemma surely_config:
  assumes "switched_off io"
  shows "surely (set_down io F) (call_or_throw (io_getConfig io))
     (\<lambda>cfg w. \<not> (ac_enabled cfg \<and> ps_enabled (ac_peakShaving cfg)) \<and> set_down io F w)"
  unfolding valid_def call_or_throw_def await_def call_def
proof (intro allI impI)
  fix w assume w: "set_down io F w"
  obtain cfg where "io_getConfig io (pt_calls w) = Inr cfg" "\<not> (ac_enabled cfg \<and> ps_enabled (ac_peakShaving cfg))"
    using assms unfolding switched_off_def by blast
  with w show "ends (\<lambda>cfg w. \<not> (ac_enabled cfg \<and> ps_enabled (ac_peakShaving cfg)) \<and> set_down io F w) (\<lambda>_. False)
     (fst (case (Inr (io_getConfig io (pt_calls w)), w\<lparr>pt_calls := pt_calls w + 1\<rparr>) of (Inl e, s') \<Rightarrow> (Inl e, s')
        | (Inr x, s') \<Rightarrow> (case x of Inl msg \<Rightarrow> throw (Thrown msg) | Inr x \<Rightarrow> ret x) s'))
     (snd (case (Inr (io_getConfig io (pt_calls w)), w\<lparr>pt_calls := pt_calls w + 1\<rparr>) of (Inl e, s') \<Rightarrow> (Inl e, s')
        | (Inr x, s') \<Rightarrow> (case x of Inl msg \<Rightarrow> throw (Thrown msg) | Inr x \<Rightarrow> ret x) s'))"
    by (simp add: ret_def plain_calls [OF plain_ready])
qed

lemma surely_tick_body:
  assumes ans: "answers io" and off: "switched_off io"
  shows "surely (set_down io {}) (tick_body io) (\<lambda>_. set_down io (all_slots io))"
proof -
  have w: "surely (set_down io {}) (call_or_throw (io_getWeather io)) (\<lambda>_. set_down io {})"
    by (rule surely_call_or_throw) (use ans in \<open>auto simp: answers_def\<close>)
  have rest: "surely (set_down io {})
      (await (upd_status (\<lambda>s. s\<lparr>st_mode := ps_mode ps, st_enabled := en\<rparr>)) (\<lambda>_.
       await (call_or_throw (io_getWeather io)) (\<lambda>weather.
       await (upd_status (g weather)) (\<lambda>_.
       if \<not> False then simulateTick io ps weather
       else if bl weather then release io Blocked
       else decideTick io ps weather)))) (\<lambda>_. set_down io (all_slots io))" for ps en g bl
    unfolding not_False_eq_True if_True
    by (rule valid_await [OF surely_upd(2)], simp, rule valid_await [OF w], rule valid_await [OF surely_upd(2)], simp,
        rule surely_simulateTick [OF ans])
  show ?thesis unfolding tick_body_def Let_def
  proof (rule valid_await [OF surely_upd(1)], simp, rule valid_await [OF surely_config [OF off]])
    fix cfg
    show "surely (\<lambda>w. \<not> (ac_enabled cfg \<and> ps_enabled (ac_peakShaving cfg)) \<and> set_down io {} w)
      (await (upd_status (\<lambda>s. s\<lparr>st_mode := ps_mode (ac_peakShaving cfg),
             st_enabled := ac_enabled cfg \<and> ps_enabled (ac_peakShaving cfg)\<rparr>)) (\<lambda>_.
       await (call_or_throw (io_getWeather io)) (\<lambda>weather.
       await (upd_status (\<lambda>s. s\<lparr>st_blockers := resolvePeakShavingBlockers (io_device io) weather (ps_mode (ac_peakShaving cfg)),
              st_priceBlockers := resolvePriceAwareBlockers weather,
              st_usableKwh := map_option fb_usableKwh (sc_battery (wc_forecast weather))\<rparr>)) (\<lambda>_.
       if \<not> (ac_enabled cfg \<and> ps_enabled (ac_peakShaving cfg)) then simulateTick io (ac_peakShaving cfg) weather
       else if resolvePeakShavingBlockers (io_device io) weather (ps_mode (ac_peakShaving cfg)) \<noteq> []
            then release io Blocked
       else decideTick io (ac_peakShaving cfg) weather)))) (\<lambda>_. set_down io (all_slots io))"
    proof (cases "ac_enabled cfg \<and> ps_enabled (ac_peakShaving cfg)")
      case True
      then show ?thesis by (simp add: valid_def)
    next
      case False
      then have off: "(ac_enabled cfg \<and> ps_enabled (ac_peakShaving cfg)) = False" by blast
      show ?thesis unfolding off using rest [where ps = "ac_peakShaving cfg"] by (rule valid_pre) simp
    qed
  qed
qed

lemma surely_runTick:
  assumes ans: "answers io" and off: "switched_off io"
  shows "surely (set_down io {}) (runTick io) (\<lambda>_. set_down io (all_slots io))"
proof -
  let ?Q = "set_down io (all_slots io)"
  have body: "surely (set_down io {}) (attempt (tick_body io)) (\<lambda>_. ?Q)"
    by (rule valid_attempt [where F = "\<lambda>_. False"]) (simp_all add: surely_tick_body [OF ans off])
  have n: "surely ?Q (note_effect eff) (\<lambda>_. ?Q)" for eff
    unfolding note_effect_def by (rule valid_modify) (simp add: ready_def)
  have flush: "surely ?Q (flushDecision io) (\<lambda>_. ?Q)"
  proof -
    have rec: "surely ?Q (case (eg_pending e, io_recordDecision io) of
       (Some (localSinkW, at_ms), Some record_it) \<Rightarrow>
         await (note_effect (RecordDecision localSinkW at_ms)) (\<lambda>_. await (call record_it) (\<lambda>_. ret ()))
     | _ \<Rightarrow> ret ()) (\<lambda>_. ?Q)" for e
      by (auto split: option.split intro!: valid_await [OF n] valid_await [OF surely_call] valid_ret)
    show ?thesis unfolding flushDecision_def
      by (rule valid_await [OF surely_reads(1)], rule valid_await [OF surely_upd(1)], simp, rule rec)
  qed
  show ?thesis unfolding runTick_def
    by (rule valid_await [OF body], rule valid_await [where R = "\<lambda>_. ?Q"],
        intro valid_sum surely_upd(2) valid_ret plain_ready, assumption, rule valid_await [OF surely_call], simp,
        rule valid_await [OF surely_upd(2)], simp, rule flush)
qed

lemma history_append:
  "history c w user (evs @ evs') = Some r \<longleftrightarrow>
     (\<exists>w1 user1. history c w user evs = Some (w1, user1) \<and> history c w1 user1 evs' = Some r)"
  by (induction evs arbitrary: w user) auto

text \<open>C20. A disable gives everything back: whatever failed before, one tick with the automation switched
  off on a plant that answers every call ends with no snapshot left for any register the device has,
  and every one of them holding the value the user last gave it. It is assumed, as in C19, that
  nothing is borrowed at the start and that the samples of every tick, this one included, show of
  each register not borrowed when it starts what the register holds.\<close>

theorem disabled_tick_gives_back:
  assumes "custody_of io0 = c" and "keys_distinct io0"
    and "\<And>slot k. (slot, Some k) \<in> set c \<Longrightarrow> js_get (pt_store w) slot = None \<and> pt_regs w k = Some (user k)"
    and "history c (w\<lparr>pt_log := []\<rparr>) user (evs @ [Tick io]) = Some (w', user')"
    and "answers io" and "switched_off io"
  shows "\<forall>slot k. (slot, Some k) \<in> set c \<longrightarrow> k \<noteq> [] \<longrightarrow>
     js_get (pt_store w') slot = None \<and> pt_regs w' k = Some (user' k)"
proof -
  have c: "distinct (List.map_filter snd c)" "distinct (map fst c)"
    using assms(1-2) custody_slots(1) [of io0] unfolding keys_distinct_def by simp_all
  have base: "all_in_custody c user (w\<lparr>pt_log := []\<rparr>)" using assms(3) unfolding all_in_custody_def in_custody_def by simp
  then have all: "all_in_custody c user' w'" using assms(4) by (rule history_custody [OF c])
  obtain w1 user1 where h: "history c (w\<lparr>pt_log := []\<rparr>) user evs = Some (w1, user1)"
    and last: "history c w1 user1 [Tick io] = Some (w', user')"
    using assms(4) unfolding history_append by blast
  from last have io: "custody_of io = c" and w': "w' = happen (Tick io) w1"
    by (auto simp: true_readings_def split: if_splits)
  have "numeric c (pt_store w1)" using history_custody [OF c base h] by (rule custody_numeric)
  then have "set_down io {} (w1\<lparr>pt_log := []\<rparr>)" unfolding ready_def freed_def io by simp
  then have "ends (\<lambda>_. set_down io (all_slots io)) (\<lambda>_. False) (fst (runTick io (w1\<lparr>pt_log := []\<rparr>)))
      (snd (runTick io (w1\<lparr>pt_log := []\<rparr>)))"
    using surely_runTick [OF assms(5-6)] unfolding valid_def by blast
  then have "set_down io (all_slots io) w'"
    unfolding w' happen_def Let_def by (cases "fst (runTick io (w1\<lparr>pt_log := []\<rparr>))") simp_all
  then have free: "(slot, Some k) \<in> set c \<Longrightarrow> k \<noteq> [] \<Longrightarrow> js_get (pt_store w') slot = None" for slot k
    unfolding ready_def freed_def all_slots_def bound_slots_def io by blast
  show ?thesis
  proof (intro allI impI conjI)
    fix slot k assume k: "(slot, Some k) \<in> set c" "k \<noteq> []"
    then show none: "js_get (pt_store w') slot = None" by (rule free)
    show "pt_regs w' k = Some (user' k)"
      using all k(1) none unfolding all_in_custody_def in_custody_def by fastforce
  qed
qed

definition sound_io :: AutomationIO where
  "sound_io = shaky_io\<lparr>io_write := (\<lambda>_. Written), io_saveState := (\<lambda>_. Saved), io_latestSample := (\<lambda>_. None),
     io_getConfig := (\<lambda>_. Inr (sample_automation\<lparr>ac_enabled := False\<rparr>))\<rparr>"

theorem disabled_tick_gives_back_witness:
  "\<exists>w user. history (custody_of shaky_io) (idle_plant\<lparr>pt_regs := [''charge_a'' \<mapsto> 60, ''sell_w'' \<mapsto> 5000]\<rparr>)
        (\<lambda>k. if k = ''charge_a'' then 60 else 5000) [Tick shaky_io, Tick sound_io] = Some (w, user)
     \<and> js_get (pt_store w) ''inv:peakShaving'' = None \<and> pt_regs w ''charge_a'' = Some (user ''charge_a'')"
proof -
  let ?c = "custody_of shaky_io"
  let ?w = "idle_plant\<lparr>pt_regs := [''charge_a'' \<mapsto> 60, ''sell_w'' \<mapsto> 5000]\<rparr>"
  let ?user = "\<lambda>k. if k = ''charge_a'' then 60 else 5000 :: number"
  have c: "custody_of sound_io = ?c"
    unfolding custody_of_def steeredRegisters_def gridChargeRegisters_def chargeLimitOf_def sellKeyOf_def gridChargeKeyOf_def
      gridChargeLimitOf_def sellSlotOf_def gridChargeSlotOf_def gridChargeASlotOf_def stateKeyOf_def sound_io_def by simp
  have start: "?w\<lparr>pt_log := []\<rparr> = ?w" unfolding idle_plant_def by simp
  define w where "w = happen (Tick sound_io) (happen (Tick shaky_io) ?w)"
  have "shows_registers shaky_io (pt_regs ?w) (pt_store ?w)"
    unfolding shows_registers_def shaky_custody by (auto simp: shaky_io_def finite_reading_def)
  moreover have "shows_registers sound_io regs store" for regs store unfolding shows_registers_def sound_io_def by simp
  ultimately have true: "true_readings ?c (Tick shaky_io) ?w" "true_readings ?c (Tick sound_io) w1" for w1
    unfolding true_readings_def by (simp_all add: c)
  have h: "history ?c (?w\<lparr>pt_log := []\<rparr>) ?user ([Tick shaky_io] @ [Tick sound_io]) = Some (w, ?user)"
    unfolding start w_def append.simps history.simps if_P [OF true(1)] if_P [OF true(2)]
    by (simp add: user_after_def)
  have free: "\<And>slot k. (slot, Some k) \<in> set ?c \<Longrightarrow> js_get (pt_store ?w) slot = None \<and> pt_regs ?w k = Some (?user k)"
    unfolding shaky_custody idle_plant_def by auto
  have keys: "keys_distinct shaky_io" unfolding keys_distinct_def shaky_custody by (simp add: map_filter_simps)
  have ans: "answers sound_io" unfolding answers_def is_answer_def sound_io_def shaky_io_def by simp
  have off: "switched_off sound_io" unfolding switched_off_def sound_io_def by simp
  have "(''inv:peakShaving'', Some ''charge_a'') \<in> set ?c" unfolding shaky_custody by simp
  with disabled_tick_gives_back [OF refl keys free h ans off]
  have "js_get (pt_store w) ''inv:peakShaving'' = None \<and> pt_regs w ''charge_a'' = Some (?user ''charge_a'')" by blast
  with h show ?thesis unfolding start by (intro exI [of _ w] exI [of _ ?user]) simp
qed


text \<open>What is recorded as the user's value is what the sample says, whatever the register holds.\<close>

lemma stale_sample_is_recorded:
  assumes "js_get (pt_store w) slot = None" and "io_loadState io (pt_calls w) = None"
    and "io_saveState io (pt_calls w + 2) = Saved"
  shows "\<exists>snap. js_get (pt_store (snd (ensureSnapshot io slot (Some v) w))) slot = Some snap
     \<and> as_previousValue snap = RegisterValue v"
  using assms unfolding ensureSnapshot_def loadState_def saveState_def
  by (simp add: await_def call_def gets_def note_effect_def modify_def set_store_def upd_status_def upd_eng_def ret_def)

end
