(* ===== verification/Battery_Capacity.thy ===== *)
theory Battery_Capacity
  imports Capabilities "HOL-Library.Multiset"
begin

text \<open>
  \<^verbatim>\<open>apps/server/src/battery/capacity-estimate.ts\<close>: the usable capacity of a pack from the stretches
  over which it only discharged. The index of the power series answers as a scan of the whole
  series would, and the segments are the maximal unbroken runs of the trusted readings.
\<close>

subsection \<open>Readings\<close>

record SocSample =
  ss_t :: millis
  ss_soc :: number

record PowerInterval =
  pv_t :: millis
  pv_durMs :: int
  pv_w :: number

record DischargeSegment =
  ds_startMs :: millis
  ds_endMs :: millis
  ds_socStart :: number
  ds_socEnd :: number
  ds_deltaSoc :: number
  ds_energyKwh :: number
  ds_meanTempC :: "number option"

definition MIN_DELTA_SOC :: number where "MIN_DELTA_SOC = 20"
definition TRUSTED_MIN :: number where "TRUSTED_MIN = 10"
definition TRUSTED_MAX :: number where "TRUSTED_MAX = 95"
definition MAX_GAP_MS :: int where "MAX_GAP_MS = 15 * 60000"
definition SIGN_MAX_GAP_MS :: int where "SIGN_MAX_GAP_MS = 6 * 3600000"
definition IDLE_W :: number where "IDLE_W = 5"
definition MIN_SEGMENTS :: nat where "MIN_SEGMENTS = 5"

definition intervalKwh :: "PowerInterval \<Rightarrow> number" where
  "intervalKwh i = pv_w i * of_int (pv_durMs i) / 3600000000"

subsection \<open>The index of the power series\<close>

record PowerIndex =
  px_sorted :: "PowerInterval list"
  px_maxDurMs :: int

definition power_index :: "PowerInterval list \<Rightarrow> PowerIndex" where
  "power_index intervals = (let ordered = sort_key pv_t intervals
     in \<lparr>px_sorted = ordered, px_maxDurMs = fold (\<lambda>i m. max m (pv_durMs i)) ordered 0\<rparr>)"

function lower_bound :: "PowerInterval list \<Rightarrow> millis \<Rightarrow> nat \<Rightarrow> nat \<Rightarrow> nat" where
  "lower_bound xs t lo hi = (if lo < hi
     then (let mid = (lo + hi) div 2
           in if pv_t (xs ! mid) < t then lower_bound xs t (mid + 1) hi else lower_bound xs t lo mid)
     else lo)"
  by pat_completeness auto
termination by (relation "measure (\<lambda>(_, _, lo, hi). hi - lo)") auto

declare lower_bound.simps [simp del]

definition lowerBound :: "PowerIndex \<Rightarrow> millis \<Rightarrow> nat" where
  "lowerBound px t = lower_bound (px_sorted px) t 0 (length (px_sorted px))"

definition overlap_ms :: "millis \<Rightarrow> millis \<Rightarrow> PowerInterval \<Rightarrow> int" where
  "overlap_ms t0 t1 i = min (pv_t i + pv_durMs i) t1 - max (pv_t i) t0"

fun overlap_walk :: "millis \<Rightarrow> millis \<Rightarrow> PowerInterval list \<Rightarrow> (PowerInterval \<times> int) list" where
  "overlap_walk t0 t1 [] = []"
| "overlap_walk t0 t1 (i # is) = (if pv_t i \<ge> t1 then []
     else if overlap_ms t0 t1 i > 0 then (i, overlap_ms t0 t1 i) # overlap_walk t0 t1 is
     else overlap_walk t0 t1 is)"

definition overlapping :: "PowerIndex \<Rightarrow> millis \<Rightarrow> millis \<Rightarrow> (PowerInterval \<times> int) list" where
  "overlapping px t0 t1 = overlap_walk t0 t1 (drop (lowerBound px (t0 - px_maxDurMs px)) (px_sorted px))"

definition weightedMean :: "PowerIndex \<Rightarrow> millis \<Rightarrow> millis \<Rightarrow> number option" where
  "weightedMean px t0 t1 =
     (let os = overlapping px t0 t1; weight = sum_list (map snd os)
      in if weight > 0 then Some (sum_list (map (\<lambda>(i, ov). pv_w i * of_int ov) os) / of_int weight) else None)"

definition energyBetween :: "PowerIndex \<Rightarrow> millis \<Rightarrow> millis \<Rightarrow> number" where
  "energyBetween px t0 t1 =
     sum_list (map (\<lambda>(i, ov). intervalKwh \<lparr>pv_t = pv_t i, pv_durMs = ov, pv_w = pv_w i\<rparr>) (overlapping px t0 t1))"

definition charged :: "PowerIndex \<Rightarrow> millis \<Rightarrow> millis \<Rightarrow> bool" where
  "charged px t0 t1 \<longleftrightarrow> list_ex (\<lambda>(i, _). pv_w i < - IDLE_W) (overlapping px t0 t1)"

definition continues :: "SocSample \<Rightarrow> SocSample \<Rightarrow> PowerIndex \<Rightarrow> bool" where
  "continues prev nxt px \<longleftrightarrow>
     (if ss_t nxt - ss_t prev > MAX_GAP_MS then False
      else if ss_soc nxt > ss_soc prev then False
      else \<not> charged px (ss_t prev) (ss_t nxt))"

subsection \<open>Segments\<close>

definition usable_soc :: "SocSample list \<Rightarrow> SocSample list" where
  "usable_soc soc = filter (\<lambda>s. ss_soc s \<ge> TRUSTED_MIN \<and> ss_soc s \<le> TRUSTED_MAX) (sort_key ss_t soc)"

definition flush_run :: "PowerIndex \<Rightarrow> PowerIndex option \<Rightarrow> SocSample list \<Rightarrow> DischargeSegment list" where
  "flush_run px temp run = (if run = [] then []
     else let f = hd run; l = last run in
       if ss_soc f - ss_soc l \<ge> MIN_DELTA_SOC
       then [\<lparr>ds_startMs = ss_t f, ds_endMs = ss_t l, ds_socStart = ss_soc f, ds_socEnd = ss_soc l,
              ds_deltaSoc = ss_soc f - ss_soc l, ds_energyKwh = energyBetween px (ss_t f) (ss_t l),
              ds_meanTempC = (case temp of None \<Rightarrow> None | Some tx \<Rightarrow> weightedMean tx (ss_t f) (ss_t l))\<rparr>]
       else [])"

text \<open>The loop over the samples: the open run grows, or is flushed before the sample starts the next.\<close>

fun segment_loop :: "PowerIndex \<Rightarrow> PowerIndex option \<Rightarrow> SocSample list \<Rightarrow> DischargeSegment list \<Rightarrow> SocSample list
    \<Rightarrow> DischargeSegment list" where
  "segment_loop px temp run segments [] = segments @ flush_run px temp run"
| "segment_loop px temp run segments (s # ss) =
     (if run \<noteq> [] \<and> \<not> continues (last run) s px
      then segment_loop px temp [s] (segments @ flush_run px temp run) ss
      else segment_loop px temp (run @ [s]) segments ss)"

definition dischargeSegments :: "SocSample list \<Rightarrow> PowerInterval list \<Rightarrow> PowerInterval list option \<Rightarrow> DischargeSegment list" where
  "dischargeSegments soc pows temperature =
     segment_loop (power_index pows) (map_option power_index temperature) [] [] (usable_soc soc)"

subsection \<open>The sign of the power\<close>

definition signVote :: "SocSample \<Rightarrow> SocSample \<Rightarrow> PowerIndex \<Rightarrow> int" where
  "signVote prev nxt px =
     (if ss_soc nxt = ss_soc prev \<or> ss_t nxt - ss_t prev > SIGN_MAX_GAP_MS then 0
      else (case weightedMean px (ss_t prev) (ss_t nxt) of
          None \<Rightarrow> 0
        | Some mean \<Rightarrow>
            if \<bar>mean\<bar> \<le> IDLE_W then 0
            else let positive = (if mean > 0 then 1 else -1)
                 in if ss_soc nxt < ss_soc prev then positive else - positive))"

fun votes :: "PowerIndex \<Rightarrow> SocSample list \<Rightarrow> int" where
  "votes px (a # b # ss) = signVote a b px + votes px (b # ss)"
| "votes px _ = 0"

definition dischargeSign :: "SocSample list \<Rightarrow> PowerInterval list \<Rightarrow> int option" where
  "dischargeSign soc pows =
     (let vote = votes (power_index pows) (sort_key ss_t soc)
      in if vote = 0 then None else if vote > 0 then Some 1 else Some (-1))"

subsection \<open>The estimate\<close>

record CapacityEstimate =
  ce_kwh :: number
  ce_low :: number
  ce_high :: number
  ce_segments :: nat

definition percentile :: "number list \<Rightarrow> number \<Rightarrow> number" where
  "percentile ordered p = ordered ! nat (min (int (length ordered) - 1)
     (max 0 (math_round (p * of_int (int (length ordered) - 1)))))"

definition per_segment :: "DischargeSegment list \<Rightarrow> number list" where
  "per_segment segments = sort (map (\<lambda>s. ds_energyKwh s / (ds_deltaSoc s / 100))
     (filter (\<lambda>s. ds_deltaSoc s > 0 \<and> ds_energyKwh s > 0) segments))"

definition estimateCapacity :: "DischargeSegment list \<Rightarrow> CapacityEstimate option" where
  "estimateCapacity segments = (let ps = per_segment segments
     in if length ps < MIN_SEGMENTS then None
        else Some \<lparr>ce_kwh = percentile ps (1 / 2), ce_low = percentile ps (1 / 10), ce_high = percentile ps (9 / 10),
               ce_segments = length ps\<rparr>)"

datatype HealthReference = Nameplate | Baseline

record StateOfHealth =
  sh_ratio :: number
  sh_reference :: HealthReference
  sh_referenceKwh :: number

fun health_against :: "number \<Rightarrow> (HealthReference \<times> number option) list \<Rightarrow> StateOfHealth option" where
  "health_against kwh [] = None"
| "health_against kwh ((ref, v) # rest) = (case v of
     Some x \<Rightarrow> if x > 0 then Some \<lparr>sh_ratio = kwh / x, sh_reference = ref, sh_referenceKwh = x\<rparr>
               else health_against kwh rest
   | None \<Rightarrow> health_against kwh rest)"

definition stateOfHealth :: "number \<Rightarrow> number option \<Rightarrow> number option \<Rightarrow> StateOfHealth option" where
  "stateOfHealth capacityKwh nameplateKwh baselineKwh =
     health_against capacityKwh [(Nameplate, nameplateKwh), (Baseline, baselineKwh)]"

record StoredEstimate =
  se_measuredAtMs :: millis
  se_segment :: DischargeSegment

record HealthSummary =
  hs_capacity :: "CapacityEstimate option"
  hs_baseline :: "CapacityEstimate option"
  hs_health :: "StateOfHealth option"

definition summariseEstimates :: "StoredEstimate list \<Rightarrow> number option \<Rightarrow> millis \<Rightarrow> int \<Rightarrow> HealthSummary" where
  "summariseEstimates stored nameplateKwh nowMs recentWindowMs =
     (let ordered = sort_key se_measuredAtMs stored;
          since = nowMs - recentWindowMs;
          capacity = estimateCapacity (map se_segment (filter (\<lambda>e. se_measuredAtMs e \<ge> since) ordered));
          baseline = estimateCapacity (map se_segment (take MIN_SEGMENTS ordered))
      in \<lparr>hs_capacity = capacity, hs_baseline = baseline,
          hs_health = (case capacity of
             None \<Rightarrow> None
           | Some c \<Rightarrow> stateOfHealth (ce_kwh c) nameplateKwh (map_option ce_kwh baseline))\<rparr>)"

subsection \<open>The index answers as a scan of the whole series\<close>

lemma fold_max_bound: "i \<in> set xs \<Longrightarrow> pv_durMs i \<le> fold (\<lambda>i m. max m (pv_durMs i)) xs m"
proof (induction xs arbitrary: m)
  case (Cons x xs)
  have grow: "m \<le> fold (\<lambda>i m. max m (pv_durMs i)) xs m" for m
    by (induction xs arbitrary: m) (auto intro: order_trans [OF max.cobounded1])
  show ?case using Cons grow [of "max m (pv_durMs x)"] by auto
qed simp

lemma lower_bound_below:
  "sorted (map pv_t xs) \<Longrightarrow> lo \<le> hi \<Longrightarrow> hi \<le> length xs \<Longrightarrow> (\<And>j. j < lo \<Longrightarrow> pv_t (xs ! j) < t)
    \<Longrightarrow> lower_bound xs t lo hi \<le> length xs \<and> (\<forall>j<lower_bound xs t lo hi. pv_t (xs ! j) < t)"
proof (induction xs t lo hi rule: lower_bound.induct)
  case (1 xs t lo hi)
  define mid where "mid = (lo + hi) div 2"
  have eq: "lower_bound xs t lo hi = (if lo < hi
     then if pv_t (xs ! mid) < t then lower_bound xs t (mid + 1) hi else lower_bound xs t lo mid else lo)"
    by (subst lower_bound.simps) (simp add: mid_def Let_def)
  show ?case
  proof (cases "lo < hi")
    case False
    then have "lower_bound xs t lo hi = lo" unfolding eq by simp
    then show ?thesis using 1(4-6) by auto
  next
    case lt: True
    then have mid: "lo \<le> mid" "mid < hi" unfolding mid_def by auto
    show ?thesis
    proof (cases "pv_t (xs ! mid) < t")
      case True
      have below: "pv_t (xs ! j) < t" if "j < mid + 1" for j
      proof -
        have "pv_t (xs ! j) \<le> pv_t (xs ! mid)"
          using sorted_nth_mono [OF 1(3), of j mid] that mid 1(5) by simp
        with True show ?thesis by simp
      qed
      have "lower_bound xs t (mid + 1) hi \<le> length xs \<and> (\<forall>j<lower_bound xs t (mid + 1) hi. pv_t (xs ! j) < t)"
        by (rule 1(1) [OF lt mid_def True]) (use 1(3-6) mid below in simp_all)
      then show ?thesis unfolding eq using lt True by simp
    next
      case False
      have "lower_bound xs t lo mid \<le> length xs \<and> (\<forall>j<lower_bound xs t lo mid. pv_t (xs ! j) < t)"
        by (rule 1(2) [OF lt mid_def False]) (use 1(3-6) mid in simp_all)
      then show ?thesis unfolding eq using lt False by simp
    qed
  qed
qed

definition scan :: "PowerInterval list \<Rightarrow> millis \<Rightarrow> millis \<Rightarrow> (PowerInterval \<times> int) list" where
  "scan is t0 t1 = map (\<lambda>i. (i, overlap_ms t0 t1 i)) (filter (\<lambda>i. overlap_ms t0 t1 i > 0) is)"

lemma scan_none: "(\<And>i. i \<in> set is \<Longrightarrow> overlap_ms t0 t1 i \<le> 0) \<Longrightarrow> scan is t0 t1 = []"
  unfolding scan_def by (induction "is") force+

lemma overlap_walk_scan: "sorted (map pv_t is) \<Longrightarrow> overlap_walk t0 t1 is = scan is t0 t1"
proof (induction "is")
  case (Cons i "is")
  show ?case
  proof (cases "t1 \<le> pv_t i")
    case True
    then have "overlap_ms t0 t1 j \<le> 0" if "j \<in> set (i # is)" for j
      using Cons.prems that unfolding overlap_ms_def by auto
    then show ?thesis using True by (simp only: scan_none overlap_walk.simps if_True)
  next
    case False
    then show ?thesis using Cons unfolding scan_def by simp
  qed
qed (simp add: scan_def)

lemma index_is_scan: "overlapping (power_index is) t0 t1 = scan (sort_key pv_t is) t0 t1"
proof -
  define xs where "xs = sort_key pv_t is"
  define d where "d = fold (\<lambda>i m. max m (pv_durMs i)) xs 0"
  define n where "n = lower_bound xs (t0 - d) 0 (length xs)"
  have sorted: "sorted (map pv_t xs)" unfolding xs_def by simp
  have n: "n \<le> length xs" "\<And>j. j < n \<Longrightarrow> pv_t (xs ! j) < t0 - d"
    using lower_bound_below [OF sorted, of 0 "length xs" "t0 - d"] unfolding n_def by auto
  have "overlap_ms t0 t1 i \<le> 0" if "i \<in> set (take n xs)" for i
  proof -
    obtain j where "j < n" "i = xs ! j" using \<open>i \<in> _\<close> n(1) by (auto simp: in_set_conv_nth)
    then have "pv_t i < t0 - d" "pv_durMs i \<le> d"
      using n fold_max_bound [of i xs 0] unfolding d_def by auto
    then show ?thesis unfolding overlap_ms_def by auto
  qed
  then have "scan (take n xs) t0 t1 = []" by (rule scan_none)
  moreover have "scan (take n xs @ drop n xs) t0 t1 = scan (take n xs) t0 t1 @ scan (drop n xs) t0 t1"
    unfolding scan_def filter_append map_append ..
  ultimately have "scan (drop n xs) t0 t1 = scan xs t0 t1" unfolding append_take_drop_id by simp
  moreover have "sorted (map pv_t (drop n xs))" using sorted by (metis drop_map sorted_wrt_drop)
  ultimately show ?thesis
    unfolding overlapping_def lowerBound_def power_index_def Let_def
    by (simp add: overlap_walk_scan xs_def [symmetric] d_def [symmetric] n_def [symmetric])
qed

text \<open>A sum over an index is a sum over the series, whatever its order.\<close>

lemma sum_sort_key: "sum_list (map f (sort_key k xs)) = (sum_list (map f xs) :: 'b :: comm_monoid_add)"
  by (metis mset_map mset_sort sum_mset_sum_list)

lemma sum_scan:
  fixes f :: "PowerInterval \<Rightarrow> int \<Rightarrow> 'b :: comm_monoid_add"
  assumes "\<And>i. f i 0 = 0"
  shows "sum_list (map (\<lambda>(i, ov). f i ov) (overlapping (power_index is) t0 t1))
    = sum_list (map (\<lambda>i. f i (max 0 (overlap_ms t0 t1 i))) is)"
proof -
  have "sum_list (map (\<lambda>(i, ov). f i ov) (scan xs t0 t1)) = sum_list (map (\<lambda>i. f i (max 0 (overlap_ms t0 t1 i))) xs)" for xs
    unfolding scan_def by (induction xs) (auto simp: assms max_def)
  then show ?thesis unfolding index_is_scan by (simp add: sum_sort_key)
qed

lemma energyBetween_sum:
  "energyBetween (power_index is) t0 t1
    = sum_list (map (\<lambda>i. pv_w i * of_int (max 0 (overlap_ms t0 t1 i)) / 3600000000) is)"
  unfolding energyBetween_def intervalKwh_def
  using sum_scan [where f = "\<lambda>i ov. pv_w i * of_int ov / 3600000000"] by simp

lemma interval_overlap_split:
  assumes "t0 \<le> m" and "m \<le> t1"
  shows "max 0 (overlap_ms t0 t1 i) = max 0 (overlap_ms t0 m i) + max 0 (overlap_ms m t1 i)"
  using assms unfolding overlap_ms_def by (auto simp: max_def min_def)

lemma energy_additive:
  assumes "t0 \<le> m" and "m \<le> t1"
  shows "energyBetween (power_index is) t0 t1 = energyBetween (power_index is) t0 m + energyBetween (power_index is) m t1"
  unfolding energyBetween_sum sum_list_addf [symmetric]
  by (intro arg_cong [where f = sum_list] map_cong refl) (simp add: interval_overlap_split [OF assms] field_simps)

lemma charged_scan: "charged (power_index is) t0 t1 \<longleftrightarrow> (\<exists>i\<in>set is. pv_w i < - IDLE_W \<and> overlap_ms t0 t1 i > 0)"
  unfolding charged_def index_is_scan scan_def list_ex_iff by auto


subsection \<open>Segments are the maximal runs\<close>

fun runs :: "('a \<Rightarrow> 'a \<Rightarrow> bool) \<Rightarrow> 'a list \<Rightarrow> 'a list list" where
  "runs R [] = []"
| "runs R [x] = [[x]]"
| "runs R (x # y # zs) = (if R x y then (case runs R (y # zs) of r # rs \<Rightarrow> (x # r) # rs | [] \<Rightarrow> []) else [x] # runs R (y # zs))"

definition breaks :: "('a \<Rightarrow> 'a \<Rightarrow> bool) \<Rightarrow> 'a list \<Rightarrow> 'a list \<Rightarrow> bool" where
  "breaks R xs ys \<longleftrightarrow> xs = [] \<or> ys = [] \<or> \<not> R (last xs) (hd ys)"

lemma runs_ne: "xs \<noteq> [] \<Longrightarrow> runs R xs \<noteq> []"
  by (induction R xs rule: runs.induct) (auto split: list.split)

lemma runs_cons: "R x y \<Longrightarrow> runs R (x # y # zs) = (x # hd (runs R (y # zs))) # tl (runs R (y # zs))"
  using runs_ne [of "y # zs" R] by (auto split: list.split)

lemma runs_one: "successively R r \<Longrightarrow> r \<noteq> [] \<Longrightarrow> runs R r = [r]"
  by (induction r rule: induct_list012) auto

lemma runs_append: "breaks R xs ys \<Longrightarrow> runs R (xs @ ys) = runs R xs @ runs R ys"
proof (induction R xs rule: runs.induct)
  case (2 R x)
  then show ?case by (cases ys) (auto simp: breaks_def)
next
  case (3 R x y zs)
  have "breaks R (y # zs) ys" using 3(3) unfolding breaks_def by simp
  then have "runs R ((y # zs) @ ys) = runs R (y # zs) @ runs R ys" using 3 by blast
  then show ?case using runs_ne [of "y # zs" R] by (cases "R x y") (auto simp: runs_cons simp del: runs.simps(3) split: list.split, simp_all)
qed simp

lemma concat_runs: "concat (runs R xs) = xs"
  by (induction R xs rule: runs.induct) (auto split: list.split simp: runs_ne)

definition is_run :: "('a \<Rightarrow> 'a \<Rightarrow> bool) \<Rightarrow> 'a list \<Rightarrow> 'a list \<Rightarrow> bool" where
  "is_run R xs r \<longleftrightarrow> r \<noteq> [] \<and> successively R r
     \<and> (\<exists>pre post. xs = pre @ r @ post \<and> breaks R pre r \<and> breaks R r post)"

lemma is_run_mem: "is_run R xs r \<Longrightarrow> r \<in> set (runs R xs)"
proof -
  assume "is_run R xs r"
  then obtain pre post where r: "r \<noteq> []" "successively R r" "xs = pre @ r @ post" "breaks R pre r" "breaks R r post"
    unfolding is_run_def by blast
  have "breaks R pre (r @ post)" using r(1) r(4) unfolding breaks_def by simp
  then have "runs R xs = runs R pre @ [r] @ runs R post"
    using runs_append [of R pre "r @ post"] runs_append [OF r(5)] runs_one [OF r(2) r(1)] r(3) by simp
  then show ?thesis by simp
qed

lemma runs_nonempty: "r \<in> set (runs R xs) \<Longrightarrow> r \<noteq> []"
proof (induction R xs arbitrary: r rule: runs.induct)
  case (3 R x y zs)
  then show ?case using runs_ne [of "y # zs" R]
    by (cases "R x y") (auto simp: runs_cons simp del: runs.simps(3) dest: list.set_sel(2), auto)
qed simp_all

lemma runs_split:
  assumes "runs R xs = as @ r # bs"
  shows "successively R r \<and> breaks R (concat as) r \<and> breaks R r (concat bs)"
  using assms
proof (induction R xs arbitrary: as r bs rule: runs.induct)
  case (1 R)
  then show ?case by simp
next
  case (2 R x)
  then show ?case by (cases as) (auto simp: breaks_def)
next
  case (3 R x y zs)
  obtain q qs where q: "runs R (y # zs) = q # qs" using runs_ne [of "y # zs" R] by (cases "runs R (y # zs)") auto
  have qne: "q \<noteq> []" using runs_nonempty [of q R "y # zs"] q by simp
  have "concat (q # qs) = y # zs" using concat_runs [of R "y # zs"] q by simp
  then have hq: "hd q = y" using qne by (cases q) auto
  show ?case
  proof (cases "R x y")
    case True
    then have all: "(x # q) # qs = as @ r # bs" using 3(3) q by simp
    show ?thesis
    proof (cases as)
      case Nil
      then have r: "r = x # q" "bs = qs" using all by simp_all
      have "successively R q \<and> breaks R q (concat qs)" using 3(1) [OF True, of "[]" q qs] q by simp
      then show ?thesis unfolding Nil r breaks_def using True hq qne by (cases q) auto
    next
      case (Cons a as')
      then have a: "a = x # q" "qs = as' @ r # bs" using all by simp_all
      have "successively R r \<and> breaks R (concat (q # as')) r \<and> breaks R r (concat bs)"
        using 3(1) [OF True, of "q # as'" r bs] q a by simp
      then show ?thesis unfolding Cons a(1) breaks_def using qne by auto
    qed
  next
    case False
    then have all: "[x] # q # qs = as @ r # bs" using 3(3) q by simp
    show ?thesis
    proof (cases as)
      case Nil
      then have "r = [x]" "bs = q # qs" using all by simp_all
      then show ?thesis unfolding Nil breaks_def using False hq qne by (cases q) auto
    next
      case (Cons a as')
      then have a: "a = [x]" "q # qs = as' @ r # bs" using all by simp_all
      have ih: "successively R r \<and> breaks R (concat as') r \<and> breaks R r (concat bs)"
        using 3(2) [OF False, of as' r bs] q a by simp
      show ?thesis
      proof (cases as')
        case Nil
        then have "r = q" using a by simp
        then show ?thesis unfolding Cons a(1) Nil breaks_def using ih False hq by (simp add: breaks_def)
      next
        case (Cons b as'')
        then have "concat as' \<noteq> []" using a qne by auto
        then show ?thesis unfolding \<open>as = a # as'\<close> a(1) breaks_def using ih by (auto simp: breaks_def)
      qed
    qed
  qed
qed

lemma mem_is_run:
  assumes "r \<in> set (runs R xs)"
  shows "is_run R xs r"
proof -
  obtain as bs where r: "runs R xs = as @ r # bs" using assms by (meson split_list)
  then have "xs = concat as @ r @ concat bs" using concat_runs [of R xs] by simp
  then show ?thesis unfolding is_run_def using runs_split [OF r] runs_nonempty [OF assms] by blast
qed

lemma runs_are_maximal: "r \<in> set (runs R xs) \<longleftrightarrow> is_run R xs r"
  using mem_is_run is_run_mem by metis

abbreviation soc_step :: "PowerInterval list \<Rightarrow> SocSample \<Rightarrow> SocSample \<Rightarrow> bool" where
  "soc_step pows \<equiv> \<lambda>a b. continues a b (power_index pows)"

lemma segment_loop_runs:
  assumes "run \<noteq> [] \<longrightarrow> successively (\<lambda>a b. continues a b px) run"
  shows "segment_loop px temp run segments ss
     = segments @ concat (map (flush_run px temp) (runs (\<lambda>a b. continues a b px) (run @ ss)))"
  using assms
proof (induction ss arbitrary: run segments)
  case Nil
  then show ?case by (cases "run = []") (simp_all add: flush_run_def runs_one)
next
  case (Cons s ss)
  show ?case
  proof (cases "run \<noteq> [] \<and> \<not> continues (last run) s px")
    case True
    then have "breaks (\<lambda>a b. continues a b px) run (s # ss)" unfolding breaks_def by simp
    then have "runs (\<lambda>a b. continues a b px) (run @ s # ss) = run # runs (\<lambda>a b. continues a b px) (s # ss)"
      using runs_append Cons.prems True by (metis append_Cons append_Nil runs_one)
    then show ?thesis using True Cons.IH [of "[s]"] by simp
  next
    case False
    have "successively (\<lambda>a b. continues a b px) (run @ [s])"
      using False Cons.prems by (auto simp: successively_append_iff)
    then show ?thesis using False Cons.IH [of "run @ [s]"] by auto
  qed
qed

lemma dischargeSegments_runs:
  "dischargeSegments soc pows temperature =
     concat (map (flush_run (power_index pows) (map_option power_index temperature)) (runs (soc_step pows) (usable_soc soc)))"
  unfolding dischargeSegments_def by (simp add: segment_loop_runs)


lemma usable_sorted: "sorted (map ss_t (usable_soc soc))"
  unfolding usable_soc_def by (simp add: sorted_filter)

lemma successively_inner:
  assumes "successively R xs" and "Suc j < length xs"
  shows "R (xs ! j) (xs ! Suc j)"
  using assms by (auto simp: successively_conv_nth)

text \<open>Over a run nothing charges the pack: the windows between its readings tile the run.\<close>

lemma run_not_charged:
  assumes run: "successively (soc_step pows) r" and sorted: "sorted (map ss_t r)" and "r \<noteq> []"
  shows "\<not> charged (power_index pows) (ss_t (hd r)) (ss_t (last r))"
  using assms
proof (induction r rule: induct_list012)
  case (2 x)
  then show ?case by (auto simp: charged_scan overlap_ms_def)
next
  case (3 x y zs)
  have rest: "\<not> charged (power_index pows) (ss_t y) (ss_t (last (y # zs)))" using 3 by simp
  have first: "\<not> charged (power_index pows) (ss_t x) (ss_t y)"
    using 3(3) unfolding continues_def by (auto split: if_splits)
  have "y = last (y # zs) \<or> last (y # zs) \<in> set zs" by (cases zs) auto
  then have order: "ss_t x \<le> ss_t y" "ss_t y \<le> ss_t (last (y # zs))" using 3(4) by auto
  show ?case
  proof
    assume "charged (power_index pows) (ss_t (hd (x # y # zs))) (ss_t (last (x # y # zs)))"
    then obtain i where i: "i \<in> set pows" "pv_w i < - IDLE_W" "overlap_ms (ss_t x) (ss_t (last (y # zs))) i > 0"
      unfolding charged_scan by auto
    then have "max 0 (overlap_ms (ss_t x) (ss_t y) i) + max 0 (overlap_ms (ss_t y) (ss_t (last (y # zs))) i) > 0"
      using interval_overlap_split [OF order, of i] by auto
    then show False using first rest i(1-2) unfolding charged_scan by (auto simp: max_def split: if_splits)
  qed
qed simp

lemma run_soc_falls:
  "successively (soc_step pows) r \<Longrightarrow> sorted_wrt (\<lambda>a b. ss_soc b \<le> ss_soc a) r"
proof (induction r rule: induct_list012)
  case (3 x y zs)
  then have "ss_soc y \<le> ss_soc x" unfolding continues_def by (auto split: if_splits)
  then show ?case using 3 by (auto intro: order_trans)
qed simp_all

text \<open>C24. Every measured stretch is a discharge: it is a maximal unbroken run of the trusted readings
  over which the state of charge never rises and falls by at least 20 points, no two readings are
  more than 15 minutes apart, no stored power charges the pack within it, and its energy is the
  integral of the whole power series over it.\<close>

theorem segments_are_discharges:
  assumes "seg \<in> set (dischargeSegments soc pows temperature)"
  shows "\<exists>r. is_run (soc_step pows) (usable_soc soc) r
     \<and> ds_startMs seg = ss_t (hd r) \<and> ds_endMs seg = ss_t (last r)
     \<and> ds_deltaSoc seg = ss_soc (hd r) - ss_soc (last r) \<and> MIN_DELTA_SOC \<le> ds_deltaSoc seg
     \<and> (\<forall>s\<in>set r. s \<in> set soc \<and> TRUSTED_MIN \<le> ss_soc s \<and> ss_soc s \<le> TRUSTED_MAX
          \<and> ss_soc (last r) \<le> ss_soc s \<and> ss_soc s \<le> ss_soc (hd r))
     \<and> (\<forall>j. Suc j < length r \<longrightarrow> ss_t (r ! Suc j) - ss_t (r ! j) \<le> MAX_GAP_MS)
     \<and> (\<forall>i\<in>set pows. overlap_ms (ds_startMs seg) (ds_endMs seg) i > 0 \<longrightarrow> - IDLE_W \<le> pv_w i)
     \<and> ds_energyKwh seg = (\<Sum>i\<leftarrow>pows. pv_w i * of_int (max 0 (overlap_ms (ds_startMs seg) (ds_endMs seg) i)) / 3600000000)"
proof -
  obtain r where r: "is_run (soc_step pows) (usable_soc soc) r"
    and seg: "seg \<in> set (flush_run (power_index pows) (map_option power_index temperature) r)"
    using assms unfolding dischargeSegments_runs by (auto simp: runs_are_maximal)
  have ne: "r \<noteq> []" and chain: "successively (soc_step pows) r" and sub: "set r \<subseteq> set (usable_soc soc)"
    using r unfolding is_run_def by auto
  have sorted: "sorted (map ss_t r)"
    using r usable_sorted [of soc] unfolding is_run_def by (auto simp: sorted_append)
  have falls: "sorted_wrt (\<lambda>a b. ss_soc b \<le> ss_soc a) r" by (rule run_soc_falls [OF chain])
  have ends: "ss_soc (last r) \<le> ss_soc s \<and> ss_soc s \<le> ss_soc (hd r)" if "s \<in> set r" for s
  proof -
    obtain j where j: "j < length r" "s = r ! j" using \<open>s \<in> set r\<close> by (auto simp: in_set_conv_nth)
    have "j = 0 \<or> ss_soc s \<le> ss_soc (hd r)"
      using falls j ne by (cases j) (auto simp: sorted_wrt_iff_nth_less hd_conv_nth)
    moreover have "j = length r - 1 \<or> ss_soc (last r) \<le> ss_soc s"
    proof (cases "j < length r - 1")
      case True
      then have "ss_soc (r ! (length r - 1)) \<le> ss_soc (r ! j)"
        using falls ne unfolding sorted_wrt_iff_nth_less by auto
      then show ?thesis using j ne by (simp add: last_conv_nth)
    qed (use j in auto)
    ultimately show ?thesis using j ne by (auto simp: hd_conv_nth last_conv_nth)
  qed
  have fields: "ds_startMs seg = ss_t (hd r)" "ds_endMs seg = ss_t (last r)" "ds_deltaSoc seg = ss_soc (hd r) - ss_soc (last r)"
    "MIN_DELTA_SOC \<le> ds_deltaSoc seg" "ds_energyKwh seg = energyBetween (power_index pows) (ss_t (hd r)) (ss_t (last r))"
    using seg ne unfolding flush_run_def by (auto simp: Let_def split: if_splits)
  have quiet: "- IDLE_W \<le> pv_w i" if "i \<in> set pows" "overlap_ms (ds_startMs seg) (ds_endMs seg) i > 0" for i
    using run_not_charged [OF chain sorted ne] that unfolding fields charged_scan by auto
  have gaps: "ss_t (r ! Suc j) - ss_t (r ! j) \<le> MAX_GAP_MS" if "Suc j < length r" for j
    using successively_inner [OF chain that] unfolding continues_def by (auto split: if_splits)
  have trusted: "s \<in> set soc \<and> TRUSTED_MIN \<le> ss_soc s \<and> ss_soc s \<le> TRUSTED_MAX" if "s \<in> set r" for s
    using sub that unfolding usable_soc_def by auto
  show ?thesis
    using r fields ends quiet gaps trusted unfolding energyBetween_sum by (intro exI [of _ r]) auto
qed


definition night :: "SocSample list" where
  "night = map (\<lambda>k. \<lparr>ss_t = 600000 * int k, ss_soc = 96 - 3 * of_nat k\<rparr>) [0..<12]"

definition night_power :: "PowerInterval list" where
  "night_power = [\<lparr>pv_t = 0, pv_durMs = 7200000, pv_w = 900\<rparr>]"

lemma night_segments:
  "dischargeSegments night night_power None = [\<lparr>ds_startMs = 600000, ds_endMs = 6600000, ds_socStart = 93, ds_socEnd = 63,
     ds_deltaSoc = 30, ds_energyKwh = 3 / 2, ds_meanTempC = None\<rparr>]"
proof -
  have sorted: "sort_key ss_t night = night"
    unfolding night_def by (rule sort_key_id_if_sorted) (simp add: upt_rec)
  have idx: "power_index night_power = \<lparr>px_sorted = night_power, px_maxDurMs = 7200000\<rparr>"
    unfolding power_index_def night_power_def by simp
  have usable: "usable_soc night = map (\<lambda>k. \<lparr>ss_t = 600000 * int k, ss_soc = 96 - 3 * of_nat k\<rparr>) [1..<12]"
    unfolding usable_soc_def sorted night_def by (simp add: upt_rec TRUSTED_MIN_def TRUSTED_MAX_def)
  have quiet: "\<not> charged (power_index night_power) a b" for a b
    unfolding charged_scan night_power_def IDLE_W_def by simp
  have "runs (soc_step night_power) (usable_soc night) = [usable_soc night]"
    by (rule runs_one) (simp_all add: usable quiet continues_def MAX_GAP_MS_def upt_rec)
  moreover have "energyBetween (power_index night_power) 600000 6600000 = 3 / 2"
    unfolding energyBetween_sum night_power_def overlap_ms_def by simp
  ultimately show ?thesis unfolding dischargeSegments_runs
    by (simp add: flush_run_def Let_def) (simp add: usable upt_rec MIN_DELTA_SOC_def)
qed

theorem segments_are_discharges_witness:
  "\<exists>seg\<in>set (dischargeSegments night night_power None). ds_deltaSoc seg = 30 \<and> ds_energyKwh seg = 3 / 2
     \<and> MIN_DELTA_SOC \<le> ds_deltaSoc seg"
  using segments_are_discharges [of _ night night_power None] night_segments by fastforce

subsection \<open>The sign\<close>

lemma weightedMean_sum:
  "weightedMean (power_index is) t0 t1 =
     (let weight = (\<Sum>i\<leftarrow>is. max 0 (overlap_ms t0 t1 i))
      in if weight > 0 then Some ((\<Sum>i\<leftarrow>is. pv_w i * of_int (max 0 (overlap_ms t0 t1 i))) / of_int weight) else None)"
proof -
  have "sum_list (map snd (overlapping (power_index is) t0 t1)) = (\<Sum>i\<leftarrow>is. max 0 (overlap_ms t0 t1 i))"
    using sum_scan [where f = "\<lambda>i ov. ov"] by (simp add: case_prod_beta')
  moreover have "sum_list (map (\<lambda>(i, ov). pv_w i * of_int ov) (overlapping (power_index is) t0 t1))
      = (\<Sum>i\<leftarrow>is. pv_w i * of_int (max 0 (overlap_ms t0 t1 i)))"
    using sum_scan [where f = "\<lambda>i ov. pv_w i * of_int ov :: number"] by simp
  ultimately show ?thesis unfolding weightedMean_def by (simp add: Let_def)
qed

definition flipped :: "PowerInterval list \<Rightarrow> PowerInterval list" where
  "flipped is = map (\<lambda>i. i\<lparr>pv_w := - pv_w i\<rparr>) is"

lemma overlap_flip [simp]: "overlap_ms t0 t1 (i\<lparr>pv_w := w\<rparr>) = overlap_ms t0 t1 i"
  unfolding overlap_ms_def by simp

lemma weightedMean_flip:
  "weightedMean (power_index (flipped is)) t0 t1 = map_option uminus (weightedMean (power_index is) t0 t1)"
proof -
  have "(\<Sum>i\<leftarrow>flipped is. pv_w i * of_int (max 0 (overlap_ms t0 t1 i)))
      = - (\<Sum>i\<leftarrow>is. pv_w i * of_int (max 0 (overlap_ms t0 t1 i)))"
    unfolding flipped_def by (induction "is") auto
  moreover have "(\<Sum>i\<leftarrow>flipped is. max 0 (overlap_ms t0 t1 i)) = (\<Sum>i\<leftarrow>is. max 0 (overlap_ms t0 t1 i))"
    unfolding flipped_def by (simp add: comp_def)
  ultimately show ?thesis unfolding weightedMean_sum by (simp add: Let_def)
qed

lemma signVote_flip: "signVote a b (power_index (flipped is)) = - signVote a b (power_index is)"
  unfolding signVote_def weightedMean_flip
  by (auto simp: IDLE_W_def Let_def split: option.split)

lemma votes_flip: "votes (power_index (flipped is)) ss = - votes (power_index is) ss"
  by (induction "power_index is" ss rule: votes.induct) (simp_all add: signVote_flip)

text \<open>The inferred sign follows the data: the same readings with the opposite convention give the opposite sign.\<close>

lemma sign_follows_data: "dischargeSign soc (flipped is) = map_option uminus (dischargeSign soc is)"
  unfolding dischargeSign_def votes_flip by (simp add: Let_def)

subsection \<open>The estimate lies among its segments\<close>

definition rank :: "nat \<Rightarrow> number \<Rightarrow> nat" where
  "rank n p = nat (min (int n - 1) (max 0 (math_round (p * of_int (int n - 1)))))"

lemma percentile_rank: "percentile ps p = ps ! rank (length ps) p"
  unfolding percentile_def rank_def ..

lemma rank_less: "0 < n \<Longrightarrow> rank n p < n"
  unfolding rank_def by auto

lemma rank_mono: "0 < n \<Longrightarrow> p \<le> q \<Longrightarrow> rank n p \<le> rank n q"
  unfolding rank_def math_round_def
  by (intro nat_mono min.mono max.mono order_refl floor_mono add_mono mult_right_mono) simp_all

lemma estimate_among_segments:
  assumes "estimateCapacity segments = Some e"
  shows "ce_low e \<le> ce_kwh e \<and> ce_kwh e \<le> ce_high e \<and> MIN_SEGMENTS \<le> ce_segments e
     \<and> {ce_low e, ce_kwh e, ce_high e} \<subseteq> set (per_segment segments) \<and> ce_segments e = length (per_segment segments)"
proof -
  define ps where "ps = per_segment segments"
  have e: "MIN_SEGMENTS \<le> length ps" "ce_low e = ps ! rank (length ps) (1 / 10)" "ce_kwh e = ps ! rank (length ps) (1 / 2)"
    "ce_high e = ps ! rank (length ps) (9 / 10)" "ce_segments e = length ps"
    using assms unfolding estimateCapacity_def percentile_rank Let_def ps_def by (auto split: if_splits)
  have n: "0 < length ps" using e(1) unfolding MIN_SEGMENTS_def by linarith
  have sorted: "sorted ps" unfolding ps_def per_segment_def by simp
  have "ps ! rank (length ps) (1 / 10) \<le> ps ! rank (length ps) (1 / 2)"
    "ps ! rank (length ps) (1 / 2) \<le> ps ! rank (length ps) (9 / 10)"
    by (intro sorted_nth_mono [OF sorted] rank_mono [OF n] rank_less [OF n]; simp)+
  then show ?thesis using e n rank_less [OF n] unfolding ps_def [symmetric] by (auto intro!: nth_mem)
qed

end
