(* ===== verification/Scoring_Walk.thy ===== *)
theory Scoring_Walk
  imports Battery_Capacity
begin

text \<open>
  The other half of \<^verbatim>\<open>apps/server/src/battery/\<close>: segments are measured in the stored rows
  (\<^verbatim>\<open>health.ts\<close>, \<^verbatim>\<open>keys.ts\<close>) and years of history are walked in overlapping chunks
  (\<^verbatim>\<open>scoring-plan.ts\<close>, \<^verbatim>\<open>scoring-walk.ts\<close>). The rows of a table are a list; reading and storing are
  the SQL's conditions on it.
\<close>

subsection \<open>Rows\<close>

record BatteryKeys =
  bk_soc :: string
  bk_power :: string
  bk_temperature :: "string option"

definition keyForRole :: "InverterProfile \<Rightarrow> role \<Rightarrow> string option" where
  "keyForRole profile r = map_option mkey (find (\<lambda>m. mrole m = Some r) (pmetrics profile))"

definition batteryKeys :: "InverterProfile \<Rightarrow> BatteryKeys option" where
  "batteryKeys profile =
     (case (keyForRole profile ''battery.soc'', keyForRole profile ''battery.power'') of
        (Some soc, Some pows) \<Rightarrow>
          if soc = [] \<or> pows = [] then None
          else Some \<lparr>bk_soc = soc, bk_power = pows, bk_temperature = keyForRole profile ''battery.temperature''\<rparr>
      | _ \<Rightarrow> None)"

record RawRow =
  rr_metric :: string
  rr_time :: millis
  rr_value :: number
  rr_durMs :: "int option"

definition wanted_keys :: "BatteryKeys \<Rightarrow> string list" where
  "wanted_keys keys = [bk_soc keys, bk_power keys]
     @ (case bk_temperature keys of None \<Rightarrow> [] | Some t \<Rightarrow> if t = [] then [] else [t])"

definition row_interval :: "RawRow \<Rightarrow> PowerInterval" where
  "row_interval row = \<lparr>pv_t = rr_time row, pv_durMs = (case rr_durMs row of Some d \<Rightarrow> d | None \<Rightarrow> 1000), pv_w = rr_value row\<rparr>"

definition readSeries ::
  "RawRow list \<Rightarrow> millis \<Rightarrow> millis \<Rightarrow> BatteryKeys \<Rightarrow> SocSample list \<times> PowerInterval list \<times> PowerInterval list" where
  "readSeries table t0 t1 keys =
     (let rows = sort_key rr_time (filter (\<lambda>row. rr_metric row \<in> set (wanted_keys keys) \<and> t0 \<le> rr_time row \<and> rr_time row < t1) table);
          soc = filter (\<lambda>row. rr_metric row = bk_soc keys) rows;
          rest = filter (\<lambda>row. rr_metric row \<noteq> bk_soc keys) rows
      in (map (\<lambda>row. \<lparr>ss_t = rr_time row, ss_soc = rr_value row\<rparr>) soc,
          map row_interval (filter (\<lambda>row. rr_metric row = bk_power keys) rest),
          map row_interval (filter (\<lambda>row. rr_metric row \<noteq> bk_power keys) rest)))"

definition measureSegments :: "RawRow list \<Rightarrow> millis \<Rightarrow> millis \<Rightarrow> BatteryKeys \<Rightarrow> DischargeSegment list" where
  "measureSegments table t0 t1 keys = (case readSeries table t0 t1 keys of (soc, pows, temperature) \<Rightarrow>
     (case dischargeSign soc pows of
        None \<Rightarrow> []
      | Some sign \<Rightarrow>
          let normalised = (if sign = 1 then pows else map (\<lambda>i. i\<lparr>pv_w := - pv_w i\<rparr>) pows)
          in dischargeSegments soc normalised (if temperature \<noteq> [] then Some temperature else None)))"

text \<open>
  The table of estimates holds the segments under their end instants; \<open>onConflictDoNothing\<close> keeps
  the row that is there. The number returned counts the rows inserted.
\<close>

type_synonym estimates = "(millis, DischargeSegment) js_map"

fun insert_estimates :: "estimates \<Rightarrow> DischargeSegment list \<Rightarrow> estimates \<times> nat" where
  "insert_estimates db [] = (db, 0)"
| "insert_estimates db (s # ss) = (if js_get db (ds_endMs s) \<noteq> None then insert_estimates db ss
     else case insert_estimates (db @ [(ds_endMs s, s)]) ss of (db', n) \<Rightarrow> (db', Suc n))"

definition recordSegments :: "estimates \<Rightarrow> DischargeSegment list \<Rightarrow> estimates \<times> nat" where
  "recordSegments db segments = (if segments = [] then (db, 0) else insert_estimates db segments)"

subsection \<open>The chunked walk\<close>

record Window =
  wi_from :: millis
  wi_to :: millis

text \<open>The loop of \<open>planWindows\<close> as it is written: it need not end on its own.\<close>

partial_function (option) plan_loop :: "millis \<Rightarrow> millis \<Rightarrow> int \<Rightarrow> int \<Rightarrow> Window list \<Rightarrow> Window list option" where
  "plan_loop start t1 chunkMs overlapMs windows =
     (if start < t1
      then (let e = min (start + chunkMs) t1; windows' = windows @ [\<lparr>wi_from = start, wi_to = e\<rparr>]
            in if e \<ge> t1 then Some windows' else plan_loop (e - overlapMs) t1 chunkMs overlapMs windows')
      else Some windows)"

definition planWindows :: "millis \<Rightarrow> millis \<Rightarrow> int \<Rightarrow> int \<Rightarrow> string + Window list option" where
  "planWindows t0 t1 chunkMs overlapMs =
     (if overlapMs \<ge> chunkMs then Inl ''chunk overlap must be shorter than the chunk''
      else Inr (plan_loop t0 t1 chunkMs overlapMs []))"

definition interiorSegments :: "DischargeSegment list \<Rightarrow> Window \<Rightarrow> Window \<Rightarrow> int \<Rightarrow> DischargeSegment list" where
  "interiorSegments segments window whole marginMs =
     (let cutBelow = wi_from window > wi_from whole; cutAbove = wi_to window < wi_to whole
      in filter (\<lambda>s. \<not> (cutBelow \<and> ds_startMs s < wi_from window + marginMs)
           \<and> \<not> (cutAbove \<and> ds_endMs s > wi_to window - marginMs)) segments)"

definition ROUTINE_WINDOW_MS :: int where "ROUTINE_WINDOW_MS = 3 * 86400000"
definition BACKFILL_WINDOW_MS :: int where "BACKFILL_WINDOW_MS = 1825 * 86400000"
definition CHUNK_MS :: int where "CHUNK_MS = 7 * 86400000"
definition OVERLAP_MS :: int where "OVERLAP_MS = 86400000"
definition EDGE_MARGIN_MS :: int where "EDGE_MARGIN_MS = 15 * 60000"

text \<open>A chunk's read or its write may fail; the walk logs that and goes on.\<close>

record walk =
  wk_measured :: nat
  wk_stored :: nat
  wk_db :: estimates
  wk_failed :: "Window list"

definition score_window ::
  "(Window \<Rightarrow> string + DischargeSegment list) \<Rightarrow> (Window \<Rightarrow> bool) \<Rightarrow> Window \<Rightarrow> int \<Rightarrow> Window \<Rightarrow> walk \<Rightarrow> walk" where
  "score_window measured record_fails whole marginMs window wk = (case measured window of
     Inl e \<Rightarrow> wk\<lparr>wk_failed := wk_failed wk @ [window]\<rparr>
   | Inr found \<Rightarrow>
       let keep = interiorSegments found window whole marginMs;
           wk1 = wk\<lparr>wk_measured := wk_measured wk + length keep\<rparr>
       in if keep = [] then wk1
          else if record_fails window then wk1\<lparr>wk_failed := wk_failed wk @ [window]\<rparr>
          else (case recordSegments (wk_db wk) keep of (db', n) \<Rightarrow>
            wk1\<lparr>wk_stored := wk_stored wk + n, wk_db := db'\<rparr>))"

definition scoreSpan ::
  "(Window \<Rightarrow> string + DischargeSegment list) \<Rightarrow> (Window \<Rightarrow> bool) \<Rightarrow> millis \<Rightarrow> millis \<Rightarrow> estimates
     \<Rightarrow> string + walk option" where
  "scoreSpan measured record_fails t0 t1 db = (case planWindows t0 t1 CHUNK_MS OVERLAP_MS of
     Inl e \<Rightarrow> Inl e
   | Inr windows \<Rightarrow> Inr (map_option (\<lambda>ws. fold (score_window measured record_fails \<lparr>wi_from = t0, wi_to = t1\<rparr> EDGE_MARGIN_MS) ws
       \<lparr>wk_measured = 0, wk_stored = 0, wk_db = db, wk_failed = []\<rparr>) windows))"

subsection \<open>The chunks\<close>

definition plan_ok :: "millis \<Rightarrow> millis \<Rightarrow> int \<Rightarrow> int \<Rightarrow> Window list \<Rightarrow> bool" where
  "plan_ok t0 t1 chunkMs overlapMs ws \<longleftrightarrow>
     (t0 < t1 \<longrightarrow> ws \<noteq> [] \<and> wi_from (hd ws) = t0 \<and> wi_to (last ws) = t1)
     \<and> (t1 \<le> t0 \<longrightarrow> ws = [])
     \<and> (\<forall>w\<in>set ws. t0 \<le> wi_from w \<and> wi_to w \<le> t1 \<and> wi_to w - wi_from w \<le> chunkMs)
     \<and> (\<forall>j. Suc j < length ws \<longrightarrow> wi_from (ws ! Suc j) = wi_to (ws ! j) - overlapMs)"

lemma plan_loop_last: "start < t1 \<Longrightarrow> t1 \<le> start + chunkMs \<Longrightarrow>
    plan_loop start t1 chunkMs overlapMs acc = Some (acc @ [\<lparr>wi_from = start, wi_to = t1\<rparr>])"
  by (subst plan_loop.simps) (simp add: Let_def min_def)

lemma plan_loop_next: "start < t1 \<Longrightarrow> start + chunkMs < t1 \<Longrightarrow>
    plan_loop start t1 chunkMs overlapMs acc
      = plan_loop (start + chunkMs - overlapMs) t1 chunkMs overlapMs (acc @ [\<lparr>wi_from = start, wi_to = start + chunkMs\<rparr>])"
  by (subst plan_loop.simps) (simp add: Let_def min_def)

lemma plan_loop_empty: "t1 \<le> start \<Longrightarrow> plan_loop start t1 chunkMs overlapMs acc = Some acc"
  by (subst plan_loop.simps) simp

lemma plan_loop_ok:
  assumes "overlapMs < chunkMs" and "0 \<le> overlapMs"
  shows "\<exists>ws. plan_loop start t1 chunkMs overlapMs acc = Some (acc @ ws) \<and> plan_ok start t1 chunkMs overlapMs ws"
proof (induction "nat (t1 - start)" arbitrary: start acc rule: less_induct)
  case less
  consider "t1 \<le> start" | "start < t1" "t1 \<le> start + chunkMs" | "start < t1" "start + chunkMs < t1" by linarith
  then show ?case
  proof cases
    case 1
    then show ?thesis by (simp add: plan_loop_empty plan_ok_def)
  next
    case 2
    then show ?thesis by (simp add: plan_loop_last plan_ok_def)
  next
    case 3
    define nxt where "nxt = start + chunkMs - overlapMs"
    have "nat (t1 - nxt) < nat (t1 - start)" using 3 assms unfolding nxt_def by simp
    from less [OF this] obtain ws where ws:
      "plan_loop nxt t1 chunkMs overlapMs (acc @ [\<lparr>wi_from = start, wi_to = start + chunkMs\<rparr>])
         = Some ((acc @ [\<lparr>wi_from = start, wi_to = start + chunkMs\<rparr>]) @ ws)"
      "plan_ok nxt t1 chunkMs overlapMs ws" by blast
    have lt: "nxt < t1" using 3 assms unfolding nxt_def by simp
    have "plan_ok start t1 chunkMs overlapMs (\<lparr>wi_from = start, wi_to = start + chunkMs\<rparr> # ws)"
      unfolding plan_ok_def
    proof (intro conjI impI allI ballI)
      fix j assume j: "Suc j < length (\<lparr>wi_from = start, wi_to = start + chunkMs\<rparr> # ws)"
      show "wi_from ((\<lparr>wi_from = start, wi_to = start + chunkMs\<rparr> # ws) ! Suc j)
          = wi_to ((\<lparr>wi_from = start, wi_to = start + chunkMs\<rparr> # ws) ! j) - overlapMs"
      proof (cases j)
        case 0
        then show ?thesis using ws(2) lt j unfolding plan_ok_def nxt_def by (cases ws) auto
      next
        case (Suc i)
        then show ?thesis using ws(2) j unfolding plan_ok_def by auto
      qed
    qed (use 3 ws(2) lt assms in \<open>auto simp: plan_ok_def nxt_def\<close>)
    then show ?thesis using ws(1) 3 unfolding nxt_def by (auto simp: plan_loop_next)
  qed
qed

text \<open>C23. The plan of a walk always returns: with an overlap shorter than the chunk the loop ends and its
  chunks cover the span, each at most a chunk long and starting one overlap before the one before
  it ended; any other overlap is refused before the loop.\<close>

theorem plan_returns:
  assumes "0 \<le> overlapMs"
  shows "case planWindows t0 t1 chunkMs overlapMs of
      Inl e \<Rightarrow> chunkMs \<le> overlapMs
    | Inr ws \<Rightarrow> \<exists>windows. ws = Some windows \<and> plan_ok t0 t1 chunkMs overlapMs windows"
proof (cases "chunkMs \<le> overlapMs")
  case False
  then show ?thesis using plan_loop_ok [of overlapMs chunkMs t0 t1 "[]"] assms unfolding planWindows_def by auto
qed (simp add: planWindows_def)

theorem plan_returns_witness:
  "planWindows 0 10 4 1 = Inr (Some [\<lparr>wi_from = 0, wi_to = 4\<rparr>, \<lparr>wi_from = 3, wi_to = 7\<rparr>, \<lparr>wi_from = 6, wi_to = 10\<rparr>])
    \<and> plan_ok 0 10 4 1 [\<lparr>wi_from = 0, wi_to = 4\<rparr>, \<lparr>wi_from = 3, wi_to = 7\<rparr>, \<lparr>wi_from = 6, wi_to = 10\<rparr>]"
proof -
  have "planWindows 0 10 4 1 = Inr (Some [\<lparr>wi_from = 0, wi_to = 4\<rparr>, \<lparr>wi_from = 3, wi_to = 7\<rparr>, \<lparr>wi_from = 6, wi_to = 10\<rparr>])"
    unfolding planWindows_def by (simp add: plan_loop_next plan_loop_last)
  with plan_returns [where overlapMs = 1 and chunkMs = 4 and ?t0.0 = 0 and ?t1.0 = 10] show ?thesis by simp
qed

text \<open>Without the guard the loop need not return: with an overlap as wide as the chunk it stays where it is.\<close>

lemma unguarded_plan_never_returns:
  assumes "start + chunkMs < t1" and "start < t1"
  shows "plan_loop start t1 chunkMs chunkMs acc = None"
proof (rule ccontr)
  assume "plan_loop start t1 chunkMs chunkMs acc \<noteq> None"
  then obtain ws where r: "plan_loop start t1 chunkMs chunkMs acc = Some ws" by blast
  have "\<not> (start + chunkMs < t1 \<and> start < t1 \<and> chunkMs = chunkMs)"
  proof (rule plan_loop.raw_induct [OF _ r,
      where P = "\<lambda>start t1 chunkMs overlapMs acc ws. \<not> (start + chunkMs < t1 \<and> start < t1 \<and> overlapMs = chunkMs)"])
    fix rec :: "millis \<Rightarrow> millis \<Rightarrow> int \<Rightarrow> int \<Rightarrow> Window list \<Rightarrow> Window list option"
      and start t1 chunkMs overlapMs acc ws
    assume IH: "\<And>start t1 chunkMs overlapMs acc ws. rec start t1 chunkMs overlapMs acc = Some ws \<Longrightarrow>
        \<not> (start + chunkMs < t1 \<and> start < t1 \<and> overlapMs = chunkMs)"
      and eq: "(if start < t1
        then let e = min (start + chunkMs) t1; windows' = acc @ [\<lparr>wi_from = start, wi_to = e\<rparr>]
             in if t1 \<le> e then Some windows' else rec (e - overlapMs) t1 chunkMs overlapMs windows'
        else Some acc) = Some ws"
    show "\<not> (start + chunkMs < t1 \<and> start < t1 \<and> overlapMs = chunkMs)"
    proof
      assume *: "start + chunkMs < t1 \<and> start < t1 \<and> overlapMs = chunkMs"
      then have "rec start t1 chunkMs chunkMs (acc @ [\<lparr>wi_from = start, wi_to = start + chunkMs\<rparr>]) = Some ws"
        using eq by (auto simp: Let_def min_def)
      from IH [OF this] * show False by simp
    qed
  qed
  with assms show False by simp
qed

text \<open>Every stretch short enough against the overlap lies inside a chunk, clear of its cut edges.\<close>

definition clear_of :: "Window \<Rightarrow> Window \<Rightarrow> int \<Rightarrow> int \<Rightarrow> millis \<Rightarrow> millis \<Rightarrow> bool" where
  "clear_of w whole blw abv s e \<longleftrightarrow> wi_from w \<le> s \<and> e \<le> wi_to w
     \<and> (wi_from w > wi_from whole \<longrightarrow> wi_from w + blw \<le> s)
     \<and> (wi_to w < wi_to whole \<longrightarrow> e \<le> wi_to w - abv)"

lemma plan_loop_clear:
  assumes "overlapMs < chunkMs" and "e - s \<le> overlapMs - blw - abv" and "0 \<le> abv" and "0 \<le> blw"
    and "s \<le> e" and "e \<le> t1" and "t0 \<le> start" and "start \<le> s"
    and "start > t0 \<longrightarrow> start + blw \<le> s" and "start < t1"
  shows "\<exists>ws. plan_loop start t1 chunkMs overlapMs acc = Some (acc @ ws)
     \<and> (\<exists>w\<in>set ws. clear_of w \<lparr>wi_from = t0, wi_to = t1\<rparr> blw abv s e)"
  using assms(7-10)
proof (induction "nat (t1 - start)" arbitrary: start acc rule: less_induct)
  case less
  have over: "0 \<le> overlapMs" using assms(2-5) by linarith
  show ?case
  proof (cases "t1 \<le> start + chunkMs")
    case True
    then show ?thesis using less(2-5) assms(3-6)
      by (intro exI [of _ "[\<lparr>wi_from = start, wi_to = t1\<rparr>]"]) (simp add: plan_loop_last clear_of_def)
  next
    case False
    define nxt where "nxt = start + chunkMs - overlapMs"
    let ?w = "\<lparr>wi_from = start, wi_to = start + chunkMs\<rparr>"
    have step: "plan_loop start t1 chunkMs overlapMs acc = plan_loop nxt t1 chunkMs overlapMs (acc @ [?w])"
      using False less(5) by (simp add: plan_loop_next nxt_def)
    show ?thesis
    proof (cases "e \<le> start + chunkMs - abv")
      case True
      obtain ws where "plan_loop nxt t1 chunkMs overlapMs (acc @ [?w]) = Some ((acc @ [?w]) @ ws)"
        using plan_loop_ok [OF assms(1) over] by blast
      moreover have "clear_of ?w \<lparr>wi_from = t0, wi_to = t1\<rparr> blw abv s e"
        unfolding clear_of_def using True less(2-5) assms(3) by auto
      ultimately show ?thesis unfolding step by (intro exI [of _ "?w # ws"]) simp
    next
      case late: False
      have "nxt + blw \<le> s" using late assms(2) unfolding nxt_def by linarith
      moreover have "nat (t1 - nxt) < nat (t1 - start)" "t0 \<le> nxt" "nxt < t1"
        using False less(2,5) assms(1) over unfolding nxt_def by linarith+
      moreover have "nxt \<le> s" using \<open>nxt + blw \<le> s\<close> assms(4) by linarith
      ultimately obtain ws where "plan_loop nxt t1 chunkMs overlapMs (acc @ [?w]) = Some ((acc @ [?w]) @ ws)"
        "\<exists>w\<in>set ws. clear_of w \<lparr>wi_from = t0, wi_to = t1\<rparr> blw abv s e"
        using less(1) [of nxt "acc @ [?w]"] by blast
      then show ?thesis unfolding step by (intro exI [of _ "?w # ws"]) auto
    qed
  qed
qed


subsection \<open>What a chunk sees of the span\<close>

definition inside :: "millis \<Rightarrow> millis \<Rightarrow> millis \<Rightarrow> bool" where
  "inside a b t \<longleftrightarrow> a \<le> t \<and> t < b"

definition powers_in :: "millis \<Rightarrow> millis \<Rightarrow> PowerInterval list \<Rightarrow> PowerInterval list" where
  "powers_in a b pw = filter (\<lambda>i. inside a b (pv_t i)) pw"

definition socs_in :: "millis \<Rightarrow> millis \<Rightarrow> SocSample list \<Rightarrow> SocSample list" where
  "socs_in a b u = filter (\<lambda>s. inside a b (ss_t s)) u"

text \<open>The frame of a chunk \<open>[a, b)\<close> in a span \<open>[t0, t1)\<close>: stored intervals are no longer than the margin.\<close>

definition frame :: "millis \<Rightarrow> millis \<Rightarrow> millis \<Rightarrow> millis \<Rightarrow> int \<Rightarrow> PowerInterval list \<Rightarrow> bool" where
  "frame t0 t1 a b m pw \<longleftrightarrow> t0 \<le> a \<and> a \<le> b \<and> b \<le> t1 \<and> 0 < m
     \<and> (\<forall>i\<in>set pw. t0 \<le> pv_t i \<and> pv_t i < t1 \<and> pv_durMs i \<le> m)"

lemma frame_sees:
  assumes "frame t0 t1 a b m pw" and "i \<in> set pw" and "overlap_ms t s i > 0" and "a = t0 \<or> a + m \<le> t" and "s \<le> b"
  shows "inside a b (pv_t i)"
  using assms unfolding frame_def overlap_ms_def inside_def by (auto simp: min_def max_def split: if_splits)

lemma charged_less: "charged (power_index (powers_in a b pw)) t s \<Longrightarrow> charged (power_index pw) t s"
  unfolding charged_scan powers_in_def by auto

lemma charged_same:
  assumes "frame t0 t1 a b m pw" and "a = t0 \<or> a + m \<le> t" and "s \<le> b"
  shows "charged (power_index (powers_in a b pw)) t s \<longleftrightarrow> charged (power_index pw) t s"
  using frame_sees [OF assms(1) _ _ assms(2-3)] unfolding charged_scan powers_in_def by auto

lemma sum_list_filter_zero:
  fixes f :: "'a \<Rightarrow> 'b :: comm_monoid_add"
  assumes "\<And>x. x \<in> set xs \<Longrightarrow> \<not> P x \<Longrightarrow> f x = 0"
  shows "sum_list (map f (filter P xs)) = sum_list (map f xs)"
  using assms by (induction xs) auto

lemma frame_zero:
  assumes "frame t0 t1 a b m pw" and "a = t0 \<or> a + m \<le> t" and "s \<le> b" and "i \<in> set pw" and "\<not> inside a b (pv_t i)"
  shows "max 0 (overlap_ms t s i) = 0"
  using frame_sees [OF assms(1) assms(4) _ assms(2-3)] assms(5) by (cases "overlap_ms t s i > 0") (auto simp: max_def)

lemma energy_same:
  assumes "frame t0 t1 a b m pw" and "a = t0 \<or> a + m \<le> t" and "s \<le> b"
  shows "energyBetween (power_index (powers_in a b pw)) t s = energyBetween (power_index pw) t s"
  unfolding energyBetween_sum powers_in_def
  by (rule sum_list_filter_zero) (simp add: frame_zero [OF assms])

lemma mean_same:
  assumes "frame t0 t1 a b m pw" and "a = t0 \<or> a + m \<le> t" and "s \<le> b"
  shows "weightedMean (power_index (powers_in a b pw)) t s = weightedMean (power_index pw) t s"
proof -
  have "(\<Sum>i\<leftarrow>powers_in a b pw. max 0 (overlap_ms t s i)) = (\<Sum>i\<leftarrow>pw. max 0 (overlap_ms t s i))"
    unfolding powers_in_def by (rule sum_list_filter_zero) (simp add: frame_zero [OF assms])
  moreover have "(\<Sum>i\<leftarrow>powers_in a b pw. pv_w i * of_int (max 0 (overlap_ms t s i)))
      = (\<Sum>i\<leftarrow>pw. pv_w i * of_int (max 0 (overlap_ms t s i)))"
    unfolding powers_in_def by (rule sum_list_filter_zero) (simp add: frame_zero [OF assms])
  ultimately show ?thesis unfolding weightedMean_sum Let_def by (simp only:)
qed

definition given :: "PowerInterval list \<Rightarrow> PowerInterval list option" where
  "given tp = (if tp \<noteq> [] then Some tp else None)"

definition temp_mean :: "PowerInterval list \<Rightarrow> millis \<Rightarrow> millis \<Rightarrow> number option" where
  "temp_mean tp t s = (case map_option power_index (given tp) of None \<Rightarrow> None | Some tx \<Rightarrow> weightedMean tx t s)"

lemma temp_mean_alt: "temp_mean tp t s = weightedMean (power_index tp) t s"
  unfolding temp_mean_def given_def by (simp add: weightedMean_sum)

lemma flush_same:
  assumes "frame t0 t1 a b m pw" and "frame t0 t1 a b m tp"
    and "a = t0 \<or> a + m \<le> ss_t (hd r)" and "ss_t (last r) \<le> b"
  shows "flush_run (power_index (powers_in a b pw)) (map_option power_index (given (powers_in a b tp))) r
    = flush_run (power_index pw) (map_option power_index (given tp)) r"
  unfolding flush_run_def Let_def temp_mean_def [symmetric] temp_mean_alt
  by (simp add: energy_same [OF assms(1,3,4)] mean_same [OF assms(2-4)])

lemma sorted_window:
  assumes "sorted (map f u)" and "a \<le> b"
  shows "\<exists>pre post. u = pre @ filter (\<lambda>x. inside a b (f x)) u @ post
     \<and> (\<forall>x\<in>set pre. f x < a) \<and> (\<forall>x\<in>set post. b \<le> f x)"
  using assms(1)
proof (induction u)
  case (Cons x u)
  then obtain pre post where p: "u = pre @ filter (\<lambda>x. inside a b (f x)) u @ post"
    "\<forall>x\<in>set pre. f x < a" "\<forall>x\<in>set post. b \<le> f x" by auto
  have up: "\<forall>y\<in>set u. f x \<le> f y" using Cons.prems by auto
  consider "f x < a" | "inside a b (f x)" | "b \<le> f x" unfolding inside_def by linarith
  then show ?case
  proof cases
    case 1
    then have "x # u = (x # pre) @ filter (\<lambda>x. inside a b (f x)) (x # u) @ post"
      using p(1) unfolding inside_def by simp
    then show ?thesis using p(2-3) 1 by (metis set_ConsD)
  next
    case 2
    have "pre = []"
    proof (rule ccontr)
      assume "pre \<noteq> []"
      then have "hd pre \<in> set u" "f (hd pre) < a" using p(1) p(2) by (metis Un_iff hd_in_set set_append)+
      then show False using up 2 unfolding inside_def by fastforce
    qed
    then have "x # u = [] @ filter (\<lambda>x. inside a b (f x)) (x # u) @ post" using p(1) 2 by simp
    then show ?thesis using p(3) by (metis empty_iff empty_set)
  next
    case 3
    then have "filter (\<lambda>x. inside a b (f x)) (x # u) = []"
      using up unfolding inside_def by (auto simp: filter_empty_conv)
    then show ?thesis using 3 up assms(2) by (intro exI [of _ "[]"] exI [of _ "x # u"]) auto
  qed
qed simp


definition samples_ok :: "millis \<Rightarrow> millis \<Rightarrow> SocSample list \<Rightarrow> bool" where
  "samples_ok t0 t1 u \<longleftrightarrow> sorted (map ss_t u) \<and> (\<forall>s\<in>set u. t0 \<le> ss_t s \<and> ss_t s < t1)"

lemma gap_breaks: "ss_t b - ss_t a > MAX_GAP_MS \<Longrightarrow> \<not> continues a b px"
  unfolding continues_def by simp

lemma continues_more: "continues a b (power_index pw) \<Longrightarrow> continues a b (power_index (powers_in c d pw))"
  unfolding continues_def using charged_less by (auto split: if_splits)

lemma continues_same:
  assumes "frame t0 t1 c d m pw" and "c = t0 \<or> c + m \<le> ss_t a" and "ss_t b \<le> d"
  shows "continues a b (power_index (powers_in c d pw)) \<longleftrightarrow> continues a b (power_index pw)"
  unfolding continues_def charged_same [OF assms] ..

lemma run_times:
  assumes "sorted (map ss_t r)" and "s \<in> set r"
  shows "ss_t (hd r) \<le> ss_t s" and "ss_t s \<le> ss_t (last r)"
proof -
  obtain j where j: "j < length r" "s = r ! j" using assms(2) by (auto simp: in_set_conv_nth)
  then have ne: "r \<noteq> []" by auto
  show "ss_t (hd r) \<le> ss_t s" using sorted_nth_mono [OF assms(1), of 0 j] j ne by (simp add: hd_conv_nth)
  show "ss_t s \<le> ss_t (last r)" using sorted_nth_mono [OF assms(1), of j "length r - 1"] j ne by (simp add: last_conv_nth)
qed

text \<open>A run the chunk sees clear of its cut edges is a run of the span.\<close>

lemma chunk_run_is_run:
  assumes fr: "frame t0 t1 a b m pw" and u: "samples_ok t0 t1 u" and gap: "MAX_GAP_MS \<le> m"
    and run: "is_run (soc_step (powers_in a b pw)) (socs_in a b u) r"
    and from_: "a = t0 \<or> a + m \<le> ss_t (hd r)" and until: "b = t1 \<or> ss_t (last r) \<le> b - m"
    and edge: "b = t1 \<or> (\<forall>s\<in>set u. ss_t s \<noteq> b)"
  shows "is_run (soc_step pw) u r"
proof -
  let ?R = "soc_step pw" and ?C = "soc_step (powers_in a b pw)"
  obtain pre post where mid: "socs_in a b u = pre @ r @ post" and cuts: "breaks ?C pre r" "breaks ?C r post"
    and r: "r \<noteq> []" "successively ?C r" using run unfolding is_run_def by blast
  obtain lo hi where lohi: "u = lo @ socs_in a b u @ hi" "\<forall>x\<in>set lo. ss_t x < a" "\<forall>x\<in>set hi. b \<le> ss_t x"
    using sorted_window [of ss_t u a b] u fr unfolding samples_ok_def frame_def socs_in_def by auto
  have times: "sorted (map ss_t r)"
    using u mid lohi(1) unfolding samples_ok_def by (auto simp: sorted_append)
  have in_r: "inside a b (ss_t s)" if "s \<in> set r" for s
  proof -
    have "s \<in> set (socs_in a b u)" using that mid by simp
    then show ?thesis unfolding socs_in_def by simp
  qed
  have chain: "successively ?R r"
  proof (rule successively_mono [OF r(2)])
    fix x y assume xy: "x \<in> set r" "y \<in> set r" "continues x y (power_index (powers_in a b pw))"
    have "a = t0 \<or> a + m \<le> ss_t x" using from_ run_times(1) [OF times xy(1)] by auto
    then show "continues x y (power_index pw)"
      using continues_same [OF fr, of x y] in_r [OF xy(2)] xy(3) unfolding inside_def by auto
  qed
  have left: "breaks ?R (lo @ pre) r"
  proof (cases "pre = []")
    case False
    then show ?thesis using cuts(1) r(1) continues_more unfolding breaks_def by auto
  next
    case True
    show ?thesis
    proof (cases "lo = []")
      case False
      then have "last lo \<in> set u" by (subst lohi(1)) simp
      then have "ss_t (last lo) < a" "t0 \<le> ss_t (last lo)" using False lohi(2) u unfolding samples_ok_def by auto
      then have "ss_t (hd r) - ss_t (last lo) > MAX_GAP_MS" using from_ gap by auto
      then show ?thesis using True False gap_breaks unfolding breaks_def by auto
    qed (simp add: True breaks_def)
  qed
  have right: "breaks ?R r (post @ hi)"
  proof (cases "post = []")
    case False
    then show ?thesis using cuts(2) r(1) continues_more unfolding breaks_def by auto
  next
    case True
    show ?thesis
    proof (cases "hi = []")
      case False
      then have hu: "hd hi \<in> set u" by (subst lohi(1)) simp
      then have "b \<le> ss_t (hd hi)" "ss_t (hd hi) < t1" using False lohi(3) u unfolding samples_ok_def by auto
      then have "ss_t (hd hi) - ss_t (last r) > MAX_GAP_MS" using hu until edge gap by force
      then show ?thesis using True False gap_breaks unfolding breaks_def by auto
    qed (simp add: True breaks_def)
  qed
  have "u = (lo @ pre) @ r @ (post @ hi)" using lohi(1) unfolding mid by simp
  with left right chain r(1) show ?thesis unfolding is_run_def by blast
qed

text \<open>A run of the span that lies far enough inside a chunk is a run the chunk sees.\<close>

lemma run_is_chunk_run:
  assumes fr: "frame t0 t1 a b m pw" and u: "samples_ok t0 t1 u" and gap: "MAX_GAP_MS \<le> m"
    and run: "is_run (soc_step pw) u r"
    and from_: "a = t0 \<or> a + 2 * m \<le> ss_t (hd r)" and until: "b = t1 \<or> ss_t (last r) \<le> b - m"
  shows "is_run (soc_step (powers_in a b pw)) (socs_in a b u) r"
proof -
  let ?R = "soc_step pw" and ?C = "soc_step (powers_in a b pw)"
  obtain pre post where mid: "u = pre @ r @ post" and cuts: "breaks ?R pre r" "breaks ?R r post"
    and r: "r \<noteq> []" "successively ?R r" using run unfolding is_run_def by blast
  have m: "0 < m" using fr unfolding frame_def by simp
  have sorted: "sorted (map ss_t pre)" "sorted (map ss_t r)" "sorted (map ss_t post)"
    "\<forall>x\<in>set pre. ss_t x \<le> ss_t (hd r)" "\<forall>x\<in>set post. ss_t (last r) \<le> ss_t x"
    using u r(1) unfolding samples_ok_def mid by (auto simp: sorted_append)
  have span: "t0 \<le> ss_t s \<and> ss_t s < t1" if "s \<in> set u" for s using u that unfolding samples_ok_def by blast
  have ends: "inside a b (ss_t (hd r))" "inside a b (ss_t (last r))"
  proof -
    have in_u: "hd r \<in> set u" "last r \<in> set u" using r(1) unfolding mid by auto
    have le: "ss_t (hd r) \<le> ss_t (last r)" using run_times(1) [OF sorted(2), of "last r"] r(1) by simp
    have "a \<le> ss_t (hd r)" using from_ m span [OF in_u(1)] by linarith
    moreover have "ss_t (last r) < b" using until m span [OF in_u(2)] by linarith
    ultimately show "inside a b (ss_t (hd r))" "inside a b (ss_t (last r))" using le unfolding inside_def by simp_all
  qed
  then have all_in: "inside a b (ss_t s)" if "s \<in> set r" for s
    using run_times [OF sorted(2) that] unfolding inside_def by auto
  have mid': "socs_in a b u = socs_in a b pre @ r @ socs_in a b post"
    using all_in unfolding mid socs_in_def by (simp add: filter_True)
  have chain: "successively ?C r"
    by (rule successively_mono [OF r(2)]) (rule continues_more)
  have left: "breaks ?C (socs_in a b pre) r"
  proof (cases "socs_in a b pre = []")
    case False
    then obtain x where x: "x \<in> set pre" "a \<le> ss_t x" unfolding socs_in_def inside_def by (auto simp: filter_empty_conv)
    then have p: "pre \<noteq> []" by auto
    then have "last pre \<in> set pre" by simp
    then have "a \<le> ss_t (last pre)" "ss_t (last pre) \<le> ss_t (hd r)"
      using x run_times(2) [OF sorted(1) x(1)] sorted(4) by auto
    then have "inside a b (ss_t (last pre))" using ends(1) unfolding inside_def by auto
    then have "last (socs_in a b pre) = last pre"
      using p unfolding socs_in_def by (metis append_butlast_last_id filter.simps filter_append last_snoc)
    moreover have "\<not> ?C (last pre) (hd r)"
    proof
      assume c: "?C (last pre) (hd r)"
      then have "ss_t (hd r) - ss_t (last pre) \<le> m" using gap unfolding continues_def by (auto split: if_splits)
      then have "a = t0 \<or> a + m \<le> ss_t (last pre)" using from_ by auto
      then have "?R (last pre) (hd r)"
        using continues_same [OF fr, of "last pre" "hd r"] c ends(1) unfolding inside_def by auto
      then show False using cuts(1) p r(1) unfolding breaks_def by simp
    qed
    ultimately show ?thesis unfolding breaks_def by simp
  qed (simp add: breaks_def)
  have right: "breaks ?C r (socs_in a b post)"
  proof (cases "socs_in a b post = []")
    case False
    then obtain x where x: "x \<in> set post" "ss_t x < b" unfolding socs_in_def inside_def by (auto simp: filter_empty_conv)
    then have p1: "post \<noteq> []" by auto
    then have "hd post \<in> set post" by simp
    then have p: "post \<noteq> []" "ss_t (hd post) < b" "ss_t (last r) \<le> ss_t (hd post)"
      using p1 x run_times(1) [OF sorted(3) x(1)] sorted(5) by auto
    then have "inside a b (ss_t (hd post))" using ends(2) unfolding inside_def by auto
    then have "hd (socs_in a b post) = hd post"
      using p(1) unfolding socs_in_def by (cases post) auto
    moreover have "\<not> ?C (last r) (hd post)"
    proof
      assume c: "?C (last r) (hd post)"
      have "a = t0 \<or> a + m \<le> ss_t (last r)"
        using from_ m run_times(1) [OF sorted(2), of "last r"] r(1) by auto
      then have "?R (last r) (hd post)" using continues_same [OF fr, of "last r" "hd post"] c p(2) by auto
      then show False using cuts(2) p(1) r(1) unfolding breaks_def by simp
    qed
    ultimately show ?thesis unfolding breaks_def by simp
  qed (simp add: breaks_def)
  show ?thesis unfolding is_run_def using mid' left right chain r(1) by blast
qed


subsection \<open>The walk records the segments of one whole pass\<close>

lemma readSeries_window:
  assumes "t0 \<le> a" and "b \<le> t1" and whole: "readSeries table t0 t1 keys = (soc, pw, tp)"
  shows "readSeries table a b keys = (socs_in a b soc, powers_in a b pw, powers_in a b tp)"
proof -
  define rows where "rows c d = sort_key rr_time (filter (\<lambda>row. rr_metric row \<in> set (wanted_keys keys) \<and> c \<le> rr_time row \<and> rr_time row < d) table)" for c d
  have cut: "rows a b = filter (\<lambda>row. inside a b (rr_time row)) (rows t0 t1)"
    unfolding rows_def filter_sort filter_filter
    by (intro arg_cong [where f = "sort_key rr_time"] filter_cong refl) (use assms(1-2) in \<open>auto simp: inside_def\<close>)
  have swap: "filter P (filter Q xs) = filter Q (filter P xs)" for P Q :: "RawRow \<Rightarrow> bool" and xs
    by (simp add: conj_commute)
  have eq: "readSeries table c d keys = (map (\<lambda>row. \<lparr>ss_t = rr_time row, ss_soc = rr_value row\<rparr>) (filter (\<lambda>row. rr_metric row = bk_soc keys) (rows c d)),
      map row_interval (filter (\<lambda>row. rr_metric row = bk_power keys) (filter (\<lambda>row. rr_metric row \<noteq> bk_soc keys) (rows c d))),
      map row_interval (filter (\<lambda>row. rr_metric row \<noteq> bk_power keys) (filter (\<lambda>row. rr_metric row \<noteq> bk_soc keys) (rows c d))))" for c d
    unfolding readSeries_def rows_def Let_def ..
  have mem: "filter (\<lambda>i. inside a b (pv_t i)) (map row_interval xs) = map row_interval (filter (\<lambda>row. inside a b (rr_time row)) xs)" for xs
    by (simp add: filter_map comp_def row_interval_def)
  have mem': "filter (\<lambda>s. inside a b (ss_t s)) (map (\<lambda>row. \<lparr>ss_t = rr_time row, ss_soc = rr_value row\<rparr>) xs)
      = map (\<lambda>row. \<lparr>ss_t = rr_time row, ss_soc = rr_value row\<rparr>) (filter (\<lambda>row. inside a b (rr_time row)) xs)" for xs
    by (simp add: filter_map comp_def)
  show ?thesis
    using whole unfolding eq cut powers_in_def socs_in_def
    by (auto simp only: prod.inject mem mem' swap [where Q = "\<lambda>row. inside a b (rr_time row)"])
qed

lemma readSeries_range:
  assumes "readSeries table t0 t1 keys = (soc, pw, tp)"
  shows "\<forall>s\<in>set soc. t0 \<le> ss_t s \<and> ss_t s < t1" and "\<forall>i\<in>set pw. t0 \<le> pv_t i \<and> pv_t i < t1"
    and "\<forall>i\<in>set tp. t0 \<le> pv_t i \<and> pv_t i < t1"
  using assms unfolding readSeries_def Let_def by (auto simp: row_interval_def)

lemma usable_window: "usable_soc (socs_in a b soc) = socs_in a b (usable_soc soc)"
  unfolding usable_soc_def socs_in_def filter_sort filter_filter by (simp add: conj_commute)

lemma usable_samples: "\<forall>s\<in>set soc. t0 \<le> ss_t s \<and> ss_t s < t1 \<Longrightarrow> samples_ok t0 t1 (usable_soc soc)"
  using usable_sorted [of soc] unfolding samples_ok_def by (simp add: usable_soc_def)

lemma segments_mem:
  "seg \<in> set (dischargeSegments soc pw temp) \<longleftrightarrow>
     (\<exists>r. is_run (soc_step pw) (usable_soc soc) r \<and> seg \<in> set (flush_run (power_index pw) (map_option power_index temp) r))"
  unfolding dischargeSegments_runs by (auto simp: runs_are_maximal)

lemma flush_times: "seg \<in> set (flush_run px temp r) \<Longrightarrow> ds_startMs seg = ss_t (hd r) \<and> ds_endMs seg = ss_t (last r)"
  unfolding flush_run_def by (auto simp: Let_def split: if_splits)

lemma chunk_segment_is_segment:
  assumes "frame t0 t1 a b m pw" and "frame t0 t1 a b m tp" and "MAX_GAP_MS \<le> m"
    and range: "\<forall>s\<in>set soc. t0 \<le> ss_t s \<and> ss_t s < t1" and edge: "b = t1 \<or> (\<forall>s\<in>set soc. ss_t s \<noteq> b)"
    and seg: "seg \<in> set (dischargeSegments (socs_in a b soc) (powers_in a b pw) (given (powers_in a b tp)))"
    and clear: "a = t0 \<or> a + m \<le> ds_startMs seg" "b = t1 \<or> ds_endMs seg \<le> b - m"
  shows "seg \<in> set (dischargeSegments soc pw (given tp))"
proof -
  obtain r where r: "is_run (soc_step (powers_in a b pw)) (socs_in a b (usable_soc soc)) r"
    and f: "seg \<in> set (flush_run (power_index (powers_in a b pw)) (map_option power_index (given (powers_in a b tp))) r)"
    using seg unfolding segments_mem usable_window by blast
  have ends: "a = t0 \<or> a + m \<le> ss_t (hd r)" "b = t1 \<or> ss_t (last r) \<le> b - m" using clear flush_times [OF f] by simp_all
  have run: "is_run (soc_step pw) (usable_soc soc) r"
    using edge by (intro chunk_run_is_run [OF assms(1) usable_samples [OF range] assms(3) r ends]) (auto simp: usable_soc_def)
  have "last r \<in> set (socs_in a b (usable_soc soc))" using r unfolding is_run_def by auto
  then have "ss_t (last r) \<le> b" unfolding socs_in_def inside_def by simp
  then show ?thesis using f flush_same [OF assms(1-2) ends(1)] run unfolding segments_mem by metis
qed

lemma segment_is_chunk_segment:
  assumes "frame t0 t1 a b m pw" and "frame t0 t1 a b m tp" and "MAX_GAP_MS \<le> m"
    and range: "\<forall>s\<in>set soc. t0 \<le> ss_t s \<and> ss_t s < t1"
    and seg: "seg \<in> set (dischargeSegments soc pw (given tp))"
    and clear: "a = t0 \<or> a + 2 * m \<le> ds_startMs seg" "b = t1 \<or> ds_endMs seg \<le> b - m"
  shows "seg \<in> set (dischargeSegments (socs_in a b soc) (powers_in a b pw) (given (powers_in a b tp)))"
proof -
  obtain r where r: "is_run (soc_step pw) (usable_soc soc) r"
    and f: "seg \<in> set (flush_run (power_index pw) (map_option power_index (given tp)) r)"
    using seg unfolding segments_mem by blast
  have ends: "a = t0 \<or> a + 2 * m \<le> ss_t (hd r)" "b = t1 \<or> ss_t (last r) \<le> b - m" using clear flush_times [OF f] by simp_all
  have run: "is_run (soc_step (powers_in a b pw)) (socs_in a b (usable_soc soc)) r"
    by (rule run_is_chunk_run [OF assms(1) usable_samples [OF range] assms(3) r ends])
  have "last r \<in> set (socs_in a b (usable_soc soc))" using run unfolding is_run_def by auto
  then have "ss_t (last r) \<le> b" unfolding socs_in_def inside_def by simp
  moreover have "a = t0 \<or> a + m \<le> ss_t (hd r)" using ends(1) assms(1) unfolding frame_def by auto
  ultimately show ?thesis using f flush_same [OF assms(1-2)] run unfolding segments_mem usable_window by metis
qed

lemma segment_ends_distinct:
  assumes "distinct (map ss_t soc)" and "s \<in> set (dischargeSegments soc pw temp)"
    and "s' \<in> set (dischargeSegments soc pw temp)" and "ds_endMs s = ds_endMs s'"
  shows "s = s'"
proof -
  obtain r r' where r: "r \<in> set (runs (soc_step pw) (usable_soc soc))" "s \<in> set (flush_run (power_index pw) (map_option power_index temp) r)"
    "r' \<in> set (runs (soc_step pw) (usable_soc soc))" "s' \<in> set (flush_run (power_index pw) (map_option power_index temp) r')"
    using assms(2-3) unfolding dischargeSegments_runs by auto
  have inj: "inj_on ss_t (set soc)" "distinct soc" using assms(1) by (simp_all add: distinct_map)
  have "distinct (concat (runs (soc_step pw) (usable_soc soc)))"
    unfolding concat_runs usable_soc_def using inj(2) by simp
  then have disjoint: "r \<noteq> r' \<Longrightarrow> set r \<inter> set r' = {}" using r(1,3) unfolding distinct_concat_iff by blast
  have ne: "r \<noteq> []" "r' \<noteq> []" using r(1,3) runs_nonempty by blast+
  have sub: "set r \<subseteq> set soc" "set r' \<subseteq> set soc"
    using r(1,3) unfolding runs_are_maximal is_run_def usable_soc_def
    by (metis (no_types, lifting) Un_iff filter_is_subset set_append set_sort subset_iff)+
  have "ss_t (last r) = ss_t (last r')" using assms(4) flush_times [OF r(2)] flush_times [OF r(4)] by simp
  then have "last r = last r'" using inj(1) sub ne by (meson inj_onD last_in_set subset_iff)
  then have "r = r'" using disjoint ne by (metis disjoint_iff last_in_set)
  then show ?thesis using r(2,4) unfolding flush_run_def by (auto simp: Let_def split: if_splits)
qed


lemma measureSegments_sign:
  assumes "readSeries table c d keys = (soc, pw, tp)" and "dischargeSign soc pw = Some sign"
  shows "measureSegments table c d keys
    = dischargeSegments soc (if sign = 1 then pw else flipped pw) (given tp)"
  using assms unfolding measureSegments_def flipped_def given_def by (simp add: Let_def)

lemma powers_in_flipped: "powers_in a b (flipped pw) = flipped (powers_in a b pw)"
  unfolding powers_in_def flipped_def by (induction pw) auto

lemma frame_flipped: "frame t0 t1 a b m (flipped pw) \<longleftrightarrow> frame t0 t1 a b m pw"
  unfolding frame_def flipped_def by auto

text \<open>The sign a chunk's own readings show; \<open>None\<close> when they show none, as in a week without data.\<close>

definition chunk_sign :: "RawRow list \<Rightarrow> BatteryKeys \<Rightarrow> Window \<Rightarrow> int option" where
  "chunk_sign table keys w =
     (case readSeries table (wi_from w) (wi_to w) keys of (soc, pw, tp) \<Rightarrow> dischargeSign soc pw)"

text \<open>
  What is asked of the table: stored intervals last at most the edge margin (the encoder closes
  them every minute), a device has one reading of a metric per instant, no chunk's data shows the
  opposite sign of the span's (it may show none), and no reading lies on a cut edge.
\<close>

definition scorable :: "RawRow list \<Rightarrow> millis \<Rightarrow> millis \<Rightarrow> BatteryKeys \<Rightarrow> Window list \<Rightarrow> bool" where
  "scorable table t0 t1 keys ws = (case readSeries table t0 t1 keys of (soc, pw, tp) \<Rightarrow>
     list_all (\<lambda>i. pv_durMs i \<le> EDGE_MARGIN_MS) (pw @ tp) \<and> distinct (map ss_t soc)
     \<and> list_all (\<lambda>w. (chunk_sign table keys w = None \<or> chunk_sign table keys w = dischargeSign soc pw)
          \<and> (wi_to w = t1 \<or> list_all (\<lambda>s. ss_t s \<noteq> wi_to w) soc)) ws)"

text \<open>Every chunk that holds all of a discharge shows a sign.\<close>

definition sign_seen :: "RawRow list \<Rightarrow> BatteryKeys \<Rightarrow> Window list \<Rightarrow> DischargeSegment \<Rightarrow> bool" where
  "sign_seen table keys ws s \<longleftrightarrow> list_all (\<lambda>w. wi_from w \<le> ds_startMs s \<and> ds_endMs s \<le> wi_to w
     \<longrightarrow> chunk_sign table keys w \<noteq> None) ws"

lemma measured_none:
  "chunk_sign table keys w = None \<Longrightarrow> measureSegments table (wi_from w) (wi_to w) keys = []"
  unfolding chunk_sign_def measureSegments_def
  by (cases "readSeries table (wi_from w) (wi_to w) keys") simp

abbreviation measured_at :: "RawRow list \<Rightarrow> BatteryKeys \<Rightarrow> Window \<Rightarrow> DischargeSegment list" where
  "measured_at table keys w \<equiv> measureSegments table (wi_from w) (wi_to w) keys"

lemma chunk_measure:
  assumes ok: "scorable table t0 t1 keys ws" and w: "w \<in> set ws" "t0 \<le> wi_from w" "wi_from w \<le> wi_to w" "wi_to w \<le> t1"
    and seen: "chunk_sign table keys w \<noteq> None"
  defines "whole \<equiv> \<lparr>wi_from = t0, wi_to = t1\<rparr>"
  shows "set (interiorSegments (measured_at table keys w) w whole EDGE_MARGIN_MS) \<subseteq> set (measureSegments table t0 t1 keys)"
    and "seg \<in> set (measureSegments table t0 t1 keys)
      \<Longrightarrow> clear_of w whole (2 * EDGE_MARGIN_MS) EDGE_MARGIN_MS (ds_startMs seg) (ds_endMs seg)
      \<Longrightarrow> seg \<in> set (interiorSegments (measured_at table keys w) w whole EDGE_MARGIN_MS)"
proof -
  define a b where "a = wi_from w" and "b = wi_to w"
  obtain soc pw tp where series: "readSeries table t0 t1 keys = (soc, pw, tp)" by (cases "readSeries table t0 t1 keys")
  have own: "chunk_sign table keys w = dischargeSign (socs_in a b soc) (powers_in a b pw)"
    unfolding chunk_sign_def a_def b_def readSeries_window [OF w(2) w(4) series] by simp
  have same: "chunk_sign table keys w = dischargeSign soc pw"
    and edge: "b = t1 \<or> (\<forall>s\<in>set soc. ss_t s \<noteq> b)" and durs: "\<forall>i\<in>set pw \<union> set tp. pv_durMs i \<le> EDGE_MARGIN_MS"
    using ok w(1) seen unfolding scorable_def series b_def by (auto simp: list_all_iff)
  obtain sign where sign: "dischargeSign soc pw = Some sign" "dischargeSign (socs_in a b soc) (powers_in a b pw) = Some sign"
    using seen same own by fastforce
  define p where "p = (if sign = 1 then pw else flipped pw)"
  note range = readSeries_range [OF series]
  have m: "MAX_GAP_MS \<le> EDGE_MARGIN_MS" "0 < EDGE_MARGIN_MS" unfolding MAX_GAP_MS_def EDGE_MARGIN_MS_def by simp_all
  have "frame t0 t1 a b EDGE_MARGIN_MS pw" "frame t0 t1 a b EDGE_MARGIN_MS tp"
    using range durs m w(2-4) unfolding frame_def a_def b_def by auto
  then have frames: "frame t0 t1 a b EDGE_MARGIN_MS p" "frame t0 t1 a b EDGE_MARGIN_MS tp"
    unfolding p_def by (simp_all add: frame_flipped)
  have whole: "measureSegments table t0 t1 keys = dischargeSegments soc p (given tp)"
    using measureSegments_sign [OF series sign(1)] unfolding p_def .
  have chunk: "measured_at table keys w = dischargeSegments (socs_in a b soc) (powers_in a b p) (given (powers_in a b tp))"
    using measureSegments_sign [OF readSeries_window [OF w(2) w(4) series] sign(2) [unfolded a_def b_def]]
    unfolding p_def a_def b_def by (simp add: powers_in_flipped)
  show "set (interiorSegments (measured_at table keys w) w whole EDGE_MARGIN_MS) \<subseteq> set (measureSegments table t0 t1 keys)"
  proof
    fix seg assume s: "seg \<in> set (interiorSegments (measured_at table keys w) w whole EDGE_MARGIN_MS)"
    then have "seg \<in> set (dischargeSegments (socs_in a b soc) (powers_in a b p) (given (powers_in a b tp)))"
      "a = t0 \<or> a + EDGE_MARGIN_MS \<le> ds_startMs seg" "b = t1 \<or> ds_endMs seg \<le> b - EDGE_MARGIN_MS"
      using w(2,4) unfolding interiorSegments_def whole_def chunk a_def b_def by (auto simp: Let_def)
    then show "seg \<in> set (measureSegments table t0 t1 keys)"
      unfolding whole by (rule chunk_segment_is_segment [OF frames m(1) range(1) edge])
  qed
  assume seg: "seg \<in> set (measureSegments table t0 t1 keys)"
    and clear: "clear_of w whole (2 * EDGE_MARGIN_MS) EDGE_MARGIN_MS (ds_startMs seg) (ds_endMs seg)"
  then have "a = t0 \<or> a + 2 * EDGE_MARGIN_MS \<le> ds_startMs seg" "b = t1 \<or> ds_endMs seg \<le> b - EDGE_MARGIN_MS"
    using w(2,4) unfolding clear_of_def whole_def a_def b_def by auto
  then have "seg \<in> set (measured_at table keys w)"
    using seg unfolding whole chunk by (intro segment_is_chunk_segment [OF frames m(1) range(1)])
  then show "seg \<in> set (interiorSegments (measured_at table keys w) w whole EDGE_MARGIN_MS)"
    using clear m(2) unfolding interiorSegments_def clear_of_def whole_def by (auto simp: Let_def)
qed

lemma insert_estimates_set:
  assumes "insert_estimates db ss = (db', n)"
  shows "set db \<subseteq> set db'" and "set db' \<subseteq> set db \<union> (\<lambda>s. (ds_endMs s, s)) ` set ss"
    and "s \<in> set ss \<Longrightarrow> js_get db' (ds_endMs s) \<noteq> None"
proof -
  have "set db \<subseteq> set db' \<and> set db' \<subseteq> set db \<union> (\<lambda>s. (ds_endMs s, s)) ` set ss
     \<and> (\<forall>s\<in>set ss. js_get db' (ds_endMs s) \<noteq> None)"
    using assms
  proof (induction db ss arbitrary: db' n rule: insert_estimates.induct)
    case (2 db s ss)
    have mono: "set d \<subseteq> set d' \<Longrightarrow> js_get d k \<noteq> None \<Longrightarrow> js_get d' k \<noteq> None" for d d' :: estimates and k
      by (auto simp: map_of_eq_None_iff)
    show ?case
    proof (cases "js_get db (ds_endMs s) = None")
      case True
      then obtain n' where r: "insert_estimates (db @ [(ds_endMs s, s)]) ss = (db', n')"
        using 2(3) by (auto split: prod.splits)
      have "js_get (db @ [(ds_endMs s, s)]) (ds_endMs s) \<noteq> None" by (simp add: map_of_eq_None_iff)
      then show ?thesis using 2(2) [OF _ r] True mono [of "db @ [(ds_endMs s, s)]" db'] by auto
    next
      case False
      then show ?thesis using 2(1) [of db' n] 2(3) mono [of db db'] by auto
    qed
  qed simp
  then show "set db \<subseteq> set db'" and "set db' \<subseteq> set db \<union> (\<lambda>s. (ds_endMs s, s)) ` set ss"
    and "s \<in> set ss \<Longrightarrow> js_get db' (ds_endMs s) \<noteq> None" by blast+
qed


definition good_db :: "DischargeSegment set \<Rightarrow> estimates \<Rightarrow> bool" where
  "good_db good db \<longleftrightarrow> (\<forall>e\<in>set db. snd e \<in> good \<and> fst e = ds_endMs (snd e))"

definition kept :: "(Window \<Rightarrow> string + DischargeSegment list) \<Rightarrow> Window \<Rightarrow> int \<Rightarrow> Window \<Rightarrow> estimates \<Rightarrow> bool" where
  "kept measured whole m w db \<longleftrightarrow> (\<exists>found. measured w = Inr found
     \<and> (\<forall>s\<in>set (interiorSegments found w whole m). js_get db (ds_endMs s) \<noteq> None))"

text \<open>What one chunk does to the table and to the list of failures.\<close>

lemma score_window_cases:
  obtains (failed) "wk_failed (score_window measured record_fails whole m w wk) = wk_failed wk @ [w]"
      "wk_db (score_window measured record_fails whole m w wk) = wk_db wk"
  | (stored) found n where "measured w = Inr found"
      "wk_failed (score_window measured record_fails whole m w wk) = wk_failed wk"
      "insert_estimates (wk_db wk) (interiorSegments found w whole m)
         = (wk_db (score_window measured record_fails whole m w wk), n)"
proof (cases "measured w")
  case (Inl e)
  show ?thesis by (rule failed) (simp_all add: score_window_def Inl)
next
  case (Inr found)
  define keep where "keep = interiorSegments found w whole m"
  obtain db' n where rec: "insert_estimates (wk_db wk) keep = (db', n)" by (cases "insert_estimates (wk_db wk) keep")
  consider "keep = []" | "keep \<noteq> []" "record_fails w" | "keep \<noteq> []" "\<not> record_fails w" by blast
  then show ?thesis
  proof cases
    case 1
    show ?thesis by (rule stored [OF Inr, of 0]) (use 1 in \<open>simp_all add: score_window_def Inr keep_def Let_def\<close>)
  next
    case 2
    show ?thesis by (rule failed) (use 2 in \<open>simp_all add: score_window_def Inr keep_def Let_def\<close>)
  next
    case 3
    have "score_window measured record_fails whole m w wk = wk\<lparr>wk_measured := wk_measured wk + length keep,
        wk_stored := wk_stored wk + n, wk_db := db'\<rparr>"
      unfolding score_window_def Inr sum.case Let_def keep_def [symmetric] using 3 by (simp add: recordSegments_def rec)
    then show ?thesis using rec by (intro stored [OF Inr, of n]) (simp_all add: keep_def)
  qed
qed

lemma score_window_db:
  assumes "\<And>found. measured w = Inr found \<Longrightarrow> set (interiorSegments found w whole m) \<subseteq> good"
    and "good_db good (wk_db wk)"
  shows "good_db good (wk_db (score_window measured record_fails whole m w wk))"
proof (cases rule: score_window_cases [of measured record_fails whole m w wk])
  case failed
  then show ?thesis using assms(2) by simp
next
  case (stored found n)
  then show ?thesis using assms(1) [OF stored(1)] assms(2) insert_estimates_set(2) [OF stored(3)]
    unfolding good_db_def by fastforce
qed

lemma score_window_mono: "set (wk_db wk) \<subseteq> set (wk_db (score_window measured record_fails whole m w wk))"
  by (cases rule: score_window_cases [of measured record_fails whole m w wk])
    (auto dest: insert_estimates_set(1))

lemma score_window_kept:
  assumes "wk_failed (score_window measured record_fails whole m w wk) = []"
  shows "wk_failed wk = [] \<and> kept measured whole m w (wk_db (score_window measured record_fails whole m w wk))"
  using assms
  by (cases rule: score_window_cases [of measured record_fails whole m w wk])
    (auto simp: kept_def dest: insert_estimates_set(3))

lemma score_walk_db:
  assumes "\<And>w found. w \<in> set ws \<Longrightarrow> measured w = Inr found \<Longrightarrow> set (interiorSegments found w whole m) \<subseteq> good"
    and "good_db good (wk_db wk)"
  shows "good_db good (wk_db (fold (score_window measured record_fails whole m) ws wk))"
  using assms
proof (induction ws arbitrary: wk)
  case (Cons w ws)
  have "good_db good (wk_db (score_window measured record_fails whole m w wk))"
    by (rule score_window_db [OF _ Cons.prems(2)]) (use Cons.prems(1) in auto)
  then show ?case using Cons.IH Cons.prems(1) by simp
qed simp

lemma score_walk_mono: "set (wk_db wk) \<subseteq> set (wk_db (fold (score_window measured record_fails whole m) ws wk))"
proof (induction ws arbitrary: wk)
  case (Cons w ws)
  then show ?case using score_window_mono [of wk measured record_fails whole m w] by (fastforce dest: subsetD)
qed simp

lemma kept_mono: "kept measured whole m w db \<Longrightarrow> set db \<subseteq> set db' \<Longrightarrow> kept measured whole m w db'"
  unfolding kept_def map_of_eq_None_iff by (metis image_mono subsetD)

lemma score_walk_kept:
  assumes "wk_failed (fold (score_window measured record_fails whole m) ws wk) = []"
  shows "wk_failed wk = [] \<and> (\<forall>w\<in>set ws. kept measured whole m w (wk_db (fold (score_window measured record_fails whole m) ws wk)))"
  using assms
proof (induction ws arbitrary: wk)
  case (Cons w ws)
  let ?wk = "score_window measured record_fails whole m w wk"
  have rest: "wk_failed ?wk = []" "\<forall>v\<in>set ws. kept measured whole m v (wk_db (fold (score_window measured record_fails whole m) ws ?wk))"
    using Cons.IH [of ?wk] Cons.prems by simp_all
  have "wk_failed wk = []" "kept measured whole m w (wk_db ?wk)" using score_window_kept [OF rest(1)] by simp_all
  then show ?case using rest(2) kept_mono score_walk_mono by (metis fold_simps(2) set_ConsD)
qed simp

lemma plan_loop_bounds:
  assumes "overlapMs < chunkMs" and "0 \<le> overlapMs" and "plan_loop t0 t1 chunkMs overlapMs [] = Some ws" and "w \<in> set ws"
  shows "t0 \<le> wi_from w \<and> wi_from w \<le> wi_to w \<and> wi_to w \<le> t1"
proof -
  have "\<exists>ws. plan_loop start t1 chunkMs overlapMs acc = Some (acc @ ws) \<and> (\<forall>w\<in>set ws. start \<le> wi_from w \<and> wi_from w \<le> wi_to w \<and> wi_to w \<le> t1)"
    for start acc
  proof (induction "nat (t1 - start)" arbitrary: start acc rule: less_induct)
    case less
    consider "t1 \<le> start" | "start < t1" "t1 \<le> start + chunkMs" | "start < t1" "start + chunkMs < t1" by linarith
    then show ?case
    proof cases
      case 3
      have "nat (t1 - (start + chunkMs - overlapMs)) < nat (t1 - start)" using 3 assms(1-2) by simp
      from less [OF this, of "acc @ [\<lparr>wi_from = start, wi_to = start + chunkMs\<rparr>]"] obtain ws where ws:
        "plan_loop (start + chunkMs - overlapMs) t1 chunkMs overlapMs (acc @ [\<lparr>wi_from = start, wi_to = start + chunkMs\<rparr>])
          = Some ((acc @ [\<lparr>wi_from = start, wi_to = start + chunkMs\<rparr>]) @ ws)"
        "\<forall>w\<in>set ws. start + chunkMs - overlapMs \<le> wi_from w \<and> wi_from w \<le> wi_to w \<and> wi_to w \<le> t1" by blast
      then show ?thesis using 3 assms(1-2)
        by (intro exI [of _ "\<lparr>wi_from = start, wi_to = start + chunkMs\<rparr> # ws"]) (auto simp: plan_loop_next)
    qed (simp_all add: plan_loop_empty plan_loop_last)
  qed
  from this [of t0 "[]"] assms(3-4) show ?thesis by auto
qed

lemma segment_in_span:
  assumes "seg \<in> set (measureSegments table t0 t1 keys)"
  shows "t0 \<le> ds_startMs seg \<and> ds_startMs seg \<le> ds_endMs seg \<and> ds_endMs seg < t1"
proof -
  obtain soc pw tp where series: "readSeries table t0 t1 keys = (soc, pw, tp)" by (cases "readSeries table t0 t1 keys")
  then obtain sign where "dischargeSign soc pw = Some sign"
    using assms unfolding measureSegments_def by (cases "dischargeSign soc pw") auto
  then have "seg \<in> set (dischargeSegments soc (if sign = 1 then pw else flipped pw) (given tp))"
    using assms measureSegments_sign [OF series] by simp
  then obtain r p where r: "is_run (soc_step p) (usable_soc soc) r" "ds_startMs seg = ss_t (hd r)" "ds_endMs seg = ss_t (last r)"
    using flush_times unfolding segments_mem by blast
  have "r \<noteq> []" "sorted (map ss_t r)"
    using r(1) usable_sorted [of soc] unfolding is_run_def by (auto simp: sorted_append)
  moreover have "set r \<subseteq> set (usable_soc soc)" using r(1) unfolding is_run_def by auto
  then have "set r \<subseteq> set soc" unfolding usable_soc_def by auto
  then have "hd r \<in> set soc" "last r \<in> set soc" using \<open>r \<noteq> []\<close> by auto
  ultimately show ?thesis using readSeries_range(1) [OF series] run_times(1) [of r "last r"] r(2-3) by auto
qed

lemma ends_distinct:
  assumes "scorable table t0 t1 keys ws" and "s \<in> set (measureSegments table t0 t1 keys)"
    and "s' \<in> set (measureSegments table t0 t1 keys)" and "ds_endMs s = ds_endMs s'"
  shows "s = s'"
proof -
  obtain soc pw tp where series: "readSeries table t0 t1 keys = (soc, pw, tp)" by (cases "readSeries table t0 t1 keys")
  have "distinct (map ss_t soc)" using assms(1) unfolding scorable_def series by auto
  moreover obtain sign where "dischargeSign soc pw = Some sign"
    using assms(2) series unfolding measureSegments_def by (cases "dischargeSign soc pw") auto
  ultimately show ?thesis
    using segment_ends_distinct [of soc s _ "given tp" s'] assms(2-4) measureSegments_sign [OF series] by metis
qed

text \<open>C22. Walking the history in chunks records what one pass over the whole span would: whichever chunks
  fail, every stored estimate is a whole discharge of the span under its own end, never one cut
  by a chunk; and when none fails every discharge of the span not longer than the overlap less
  three edge margins is stored, if each chunk that holds all of it shows a sign. Of the table it is
  assumed that no stored power or temperature interval is longer than the edge margin, that no two
  readings of the state of charge have one instant, that none lies exactly on the upper edge of an
  inner chunk, and that no chunk's data shows the opposite sign of the span's.\<close>

theorem chunked_walk_is_whole_pass:
  assumes plan: "planWindows t0 t1 CHUNK_MS OVERLAP_MS = Inr (Some ws)" and ok: "scorable table t0 t1 keys ws"
    and run: "scoreSpan (\<lambda>w. if lost w then Inl ''read failed'' else Inr (measureSegments table (wi_from w) (wi_to w) keys))
       record_fails t0 t1 [] = Inr (Some wk)"
  shows "(\<forall>(k, s)\<in>set (wk_db wk). s \<in> set (measureSegments table t0 t1 keys) \<and> k = ds_endMs s)
     \<and> (wk_failed wk = [] \<longrightarrow> (\<forall>s\<in>set (measureSegments table t0 t1 keys).
          ds_endMs s - ds_startMs s \<le> OVERLAP_MS - 3 * EDGE_MARGIN_MS \<longrightarrow> sign_seen table keys ws s
          \<longrightarrow> (ds_endMs s, s) \<in> set (wk_db wk)))"
proof -
  let ?read = "\<lambda>w. if lost w then Inl ''read failed'' else Inr (measureSegments table (wi_from w) (wi_to w) keys)"
  let ?whole = "\<lparr>wi_from = t0, wi_to = t1\<rparr>"
  let ?good = "set (measureSegments table t0 t1 keys)"
  have sizes: "OVERLAP_MS < CHUNK_MS" "0 \<le> OVERLAP_MS" "0 \<le> EDGE_MARGIN_MS"
    unfolding OVERLAP_MS_def CHUNK_MS_def EDGE_MARGIN_MS_def by simp_all
  have loop: "plan_loop t0 t1 CHUNK_MS OVERLAP_MS [] = Some ws" using plan sizes(1) unfolding planWindows_def by simp
  have wk: "wk = fold (score_window ?read record_fails ?whole EDGE_MARGIN_MS) ws
      \<lparr>wk_measured = 0, wk_stored = 0, wk_db = [], wk_failed = []\<rparr>"
    using run unfolding scoreSpan_def plan by simp
  have inside: "t0 \<le> wi_from w \<and> wi_from w \<le> wi_to w \<and> wi_to w \<le> t1" if "w \<in> set ws" for w
    using plan_loop_bounds [OF sizes(1-2) loop that] .
  have reads: "set (interiorSegments found w ?whole EDGE_MARGIN_MS) \<subseteq> ?good"
    if "w \<in> set ws" "?read w = Inr found" for w found
  proof (cases "chunk_sign table keys w = None")
    case True
    then have "found = []" using that(2) measured_none by (simp split: if_splits)
    then show ?thesis by (simp add: interiorSegments_def)
  next
    case False
    then show ?thesis using chunk_measure(1) [OF ok that(1)] inside [OF that(1)] that(2) by (auto split: if_splits)
  qed
  have "good_db ?good (wk_db wk)" unfolding wk by (rule score_walk_db [OF reads]) (simp_all add: good_db_def)
  then have db: "\<forall>(k, s)\<in>set (wk_db wk). s \<in> ?good \<and> k = ds_endMs s" unfolding good_db_def by auto
  have all: "js_get (wk_db wk) (ds_endMs s) \<noteq> None"
    if "wk_failed wk = []" "w \<in> set ws" "s \<in> set (interiorSegments (measured_at table keys w) w ?whole EDGE_MARGIN_MS)" for w s
  proof -
    have "kept ?read ?whole EDGE_MARGIN_MS w (wk_db wk)" using score_walk_kept that(1-2) unfolding wk by blast
    then show ?thesis using that(3) unfolding kept_def by (auto split: if_splits)
  qed
  have "(ds_endMs s, s) \<in> set (wk_db wk)" if none: "wk_failed wk = []" and s: "s \<in> ?good"
    and short: "ds_endMs s - ds_startMs s \<le> OVERLAP_MS - 3 * EDGE_MARGIN_MS" and seen: "sign_seen table keys ws s" for s
  proof -
    have in_span: "t0 \<le> ds_startMs s \<and> ds_startMs s \<le> ds_endMs s \<and> ds_endMs s < t1" using s by (rule segment_in_span)
    then obtain w where w: "w \<in> set ws" "clear_of w ?whole (2 * EDGE_MARGIN_MS) EDGE_MARGIN_MS (ds_startMs s) (ds_endMs s)"
      using plan_loop_clear [OF sizes(1), where e = "ds_endMs s" and s = "ds_startMs s" and blw = "2 * EDGE_MARGIN_MS"
          and abv = EDGE_MARGIN_MS and ?t0.0 = t0 and ?t1.0 = t1 and start = t0 and acc = "[]"] short sizes(3) loop by auto
    have "wi_from w \<le> ds_startMs s" "ds_endMs s \<le> wi_to w"
      using w(2) in_span sizes(3) inside [OF w(1)] unfolding clear_of_def by auto
    then have "chunk_sign table keys w \<noteq> None" using seen w(1) unfolding sign_seen_def list_all_iff by blast
    then have "js_get (wk_db wk) (ds_endMs s) \<noteq> None"
      using all [OF none w(1)] chunk_measure(2) [OF ok w(1) _ _ _ _ s w(2)] inside [OF w(1)] by blast
    then obtain s' where s': "(ds_endMs s, s') \<in> set (wk_db wk)" by (auto dest: map_of_SomeD)
    then have "s' \<in> ?good" "ds_endMs s' = ds_endMs s" using db by auto
    then show ?thesis using s' s ends_distinct [OF ok] by metis
  qed
  then show ?thesis using db by blast
qed


definition evening :: "RawRow list" where
  "evening = [\<lparr>rr_metric = ''soc'', rr_time = 561600000, rr_value = 80, rr_durMs = None\<rparr>,
     \<lparr>rr_metric = ''w'', rr_time = 561600000, rr_value = 900, rr_durMs = Some 600000\<rparr>,
     \<lparr>rr_metric = ''soc'', rr_time = 562200000, rr_value = 65, rr_durMs = None\<rparr>,
     \<lparr>rr_metric = ''w'', rr_time = 562200000, rr_value = 1200, rr_durMs = Some 600000\<rparr>,
     \<lparr>rr_metric = ''soc'', rr_time = 562800000, rr_value = 50, rr_durMs = None\<rparr>]"

definition evening_keys :: BatteryKeys where
  "evening_keys = \<lparr>bk_soc = ''soc'', bk_power = ''w'', bk_temperature = None\<rparr>"

definition evening_segment :: DischargeSegment where
  "evening_segment = \<lparr>ds_startMs = 561600000, ds_endMs = 562800000, ds_socStart = 80, ds_socEnd = 50,
     ds_deltaSoc = 30, ds_energyKwh = 7 / 20, ds_meanTempC = None\<rparr>"

text \<open>Eight days in two chunks: both see the evening in their overlap, and it is stored once.\<close>

lemma evening_segments:
  "measureSegments evening 0 691200000 evening_keys = [evening_segment]"
  "measureSegments evening 0 604800000 evening_keys = [evening_segment]"
  "measureSegments evening 518400000 691200000 evening_keys = [evening_segment]"
  by code_simp+

lemma evening_scorable:
  "scorable evening 0 691200000 evening_keys [\<lparr>wi_from = 0, wi_to = 604800000\<rparr>, \<lparr>wi_from = 518400000, wi_to = 691200000\<rparr>]"
  by code_simp

lemma evening_seen:
  "sign_seen evening evening_keys [\<lparr>wi_from = 0, wi_to = 604800000\<rparr>, \<lparr>wi_from = 518400000, wi_to = 691200000\<rparr>] evening_segment"
  by code_simp

lemma evening_plan:
  "planWindows 0 691200000 CHUNK_MS OVERLAP_MS
     = Inr (Some [\<lparr>wi_from = 0, wi_to = 604800000\<rparr>, \<lparr>wi_from = 518400000, wi_to = 691200000\<rparr>])"
  unfolding planWindows_def CHUNK_MS_def OVERLAP_MS_def by (simp add: plan_loop_next plan_loop_last)

lemma evening_walk:
  "scoreSpan (\<lambda>w. if False then Inl ''read failed'' else Inr (measureSegments evening (wi_from w) (wi_to w) evening_keys))
       (\<lambda>_. False) 0 691200000 []
     = Inr (Some \<lparr>wk_measured = 2, wk_stored = 1, wk_db = [(562800000, evening_segment)], wk_failed = []\<rparr>)"
proof -
  let ?w1 = "\<lparr>wi_from = 0, wi_to = 604800000\<rparr>" and ?w2 = "\<lparr>wi_from = 518400000, wi_to = 691200000\<rparr>"
  have keep: "interiorSegments [evening_segment] ?w1 \<lparr>wi_from = 0, wi_to = 691200000\<rparr> EDGE_MARGIN_MS = [evening_segment]"
    "interiorSegments [evening_segment] ?w2 \<lparr>wi_from = 0, wi_to = 691200000\<rparr> EDGE_MARGIN_MS = [evening_segment]"
    by code_simp+
  have "ds_endMs evening_segment = 562800000" unfolding evening_segment_def by simp
  then show ?thesis
    unfolding scoreSpan_def evening_plan by (simp add: score_window_def evening_segments keep recordSegments_def)
qed

theorem chunked_walk_is_whole_pass_witness:
  "\<exists>wk. scoreSpan (\<lambda>w. if False then Inl ''read failed'' else Inr (measureSegments evening (wi_from w) (wi_to w) evening_keys))
       (\<lambda>_. False) 0 691200000 [] = Inr (Some wk)
     \<and> (562800000, evening_segment) \<in> set (wk_db wk)
     \<and> (\<forall>(k, s)\<in>set (wk_db wk). s = evening_segment \<and> k = 562800000)"
proof -
  have times: "ds_startMs evening_segment = 561600000" "ds_endMs evening_segment = 562800000"
    unfolding evening_segment_def by simp_all
  show ?thesis
    using chunked_walk_is_whole_pass [OF evening_plan evening_scorable evening_walk]
    by - (rule exI, rule conjI, rule evening_walk, simp_all add: evening_segments evening_seen times OVERLAP_MS_def EDGE_MARGIN_MS_def)
qed

text \<open>
  A discharge still going on when a pass ends is kept, the span's own edge counting as a real one.
  It is stored under the instant of its last reading, so the whole of it, stored by a later pass
  under a later instant, stays beside it.
\<close>

lemma ongoing_discharge_stays:
  assumes "wi_to window = wi_to whole" and "\<not> wi_from whole < wi_from window" and "s \<in> set found"
  shows "s \<in> set (interiorSegments found window whole marginMs)"
  using assms unfolding interiorSegments_def by simp

lemma partial_stays_beside_whole:
  assumes "ds_endMs part \<noteq> ds_endMs whole_seg" and "js_get db (ds_endMs part) = None" and "js_get db (ds_endMs whole_seg) = None"
  shows "fst (recordSegments (fst (recordSegments db [part])) [whole_seg])
    = db @ [(ds_endMs part, part), (ds_endMs whole_seg, whole_seg)]"
  using assms unfolding recordSegments_def by (auto simp: map_add_def)

end
