(* ===== verification/Device_Writer.thy ===== *)
theory Device_Writer
  imports Storage_Policy
begin

text \<open>
  \<^verbatim>\<open>apps/server/src/inverter/device-writer.ts\<close>: the one way a reading of any device becomes a row. The
  map of policies is the state; the two sinks and the registration of metric keys are effects. What
  \<open>JSON.stringify\<close> says of the declarations is kept as the list it prints, which the text determines.
  \<open>new Date()\<close> is an argument of \<open>forget\<close>.
\<close>

datatype provenance = Measured | Feedforward | Estimated

record DeviceSample =
  sm_time :: millis
  sm_metrics :: MetricValues
  sm_provenance :: "(string, provenance) js_map option"

definition measuredMetrics :: "DeviceSample \<Rightarrow> MetricValues" where
  "measuredMetrics sample = (case sm_provenance sample of
     None \<Rightarrow> sm_metrics sample
   | Some provenance \<Rightarrow> filter (\<lambda>(k, v). case js_get provenance k of
        None \<Rightarrow> True | Some origin \<Rightarrow> origin = Measured) (sm_metrics sample))"

type_synonym declarations = "(string \<times> MetricKind option \<times> role option \<times> MetricAccess \<times> string option
  \<times> MetricStorage option \<times> number option) list"

definition declarationFingerprint :: "DeviceInstance \<Rightarrow> declarations" where
  "declarationFingerprint device = map (\<lambda>m. (mkey m, mkind m, mrole m, maccess m, munit m, mstorage m, mdeadband m))
     (di_metrics device)"

record held_policy =
  hp_declarations :: declarations
  hp_policy :: policy
  hp_state :: policy_state

type_synonym writer = "(string, held_policy) js_map"

datatype writer_effect =
    EnqueueSeries "StorageRow list"
  | EnqueueConfig "StorageRow list"
  | RegisterMetrics "MetricKeyFacts list"

definition closeOne :: "millis \<Rightarrow> held_policy \<Rightarrow> held_policy \<times> writer_effect list" where
  "closeOne till h = (case close_policy (hp_policy h) till (hp_state h) of (st, rows) \<Rightarrow>
     (h\<lparr>hp_state := st\<rparr>, [EnqueueSeries rows]))"

definition fresh_policy :: "DeviceInstance \<Rightarrow> held_policy" where
  "fresh_policy device = \<lparr>hp_declarations = declarationFingerprint device,
     hp_policy = createStoragePolicy (di_metrics device) None, hp_state = new_policy_state\<rparr>"

definition policyFor :: "DeviceInstance \<Rightarrow> millis \<Rightarrow> writer \<Rightarrow> held_policy \<times> writer \<times> writer_effect list" where
  "policyFor device till w = (case js_get w (di_id device) of
     Some held \<Rightarrow>
       if hp_declarations held = declarationFingerprint device then (held, w, [])
       else (fresh_policy device, js_set (di_id device) (fresh_policy device) w,
             snd (closeOne till held) @ [RegisterMetrics (metricKeySpecs (di_metrics device))])
   | None \<Rightarrow> (fresh_policy device, js_set (di_id device) (fresh_policy device) w,
             [RegisterMetrics (metricKeySpecs (di_metrics device))]))"

text \<open>The policy object is mutated in place: what \<open>route\<close> leaves behind is stored back under the id.\<close>

definition commit :: "DeviceInstance \<Rightarrow> DeviceSample \<Rightarrow> writer \<Rightarrow> writer \<times> writer_effect list" where
  "commit device sample w =
     (case policyFor device (sm_time sample) w of (held, w1, effects) \<Rightarrow>
      (case route (hp_policy held) (hp_state held) \<lparr>sa_time = sm_time sample, sa_inverter = di_id device,
              sa_metrics = measuredMetrics sample\<rparr> of (st, out) \<Rightarrow>
        (js_set (di_id device) (held\<lparr>hp_state := st\<rparr>) w1,
         effects @ [EnqueueSeries (series_of out), EnqueueConfig (config_of out)])))"

definition close_writer :: "millis \<Rightarrow> writer \<Rightarrow> writer \<times> writer_effect list" where
  "close_writer till w = (map (\<lambda>(i, h). (i, fst (closeOne till h))) w,
     concat (map (\<lambda>(i, h). snd (closeOne till h)) w))"

definition forget :: "string \<Rightarrow> millis \<Rightarrow> writer \<Rightarrow> writer \<times> writer_effect list" where
  "forget i now w = (case js_get w i of
     None \<Rightarrow> (w, [])
   | Some held \<Rightarrow> (js_delete i w, snd (closeOne now held)))"

datatype writer_call =
    Commit DeviceInstance DeviceSample
  | Close millis
  | Forget string millis

fun writer_step :: "writer \<Rightarrow> writer_call \<Rightarrow> writer \<times> writer_effect list" where
  "writer_step w (Commit device sample) = commit device sample w"
| "writer_step w (Close till) = close_writer till w"
| "writer_step w (Forget i now) = forget i now w"

definition series_rows :: "writer_effect list \<Rightarrow> StorageRow list" where
  "series_rows es = concat (map (\<lambda>e. case e of EnqueueSeries rows \<Rightarrow> rows | _ \<Rightarrow> []) es)"

definition config_rows :: "writer_effect list \<Rightarrow> StorageRow list" where
  "config_rows es = concat (map (\<lambda>e. case e of EnqueueConfig rows \<Rightarrow> rows | _ \<Rightarrow> []) es)"

lemma rows_simps [simp]:
  "series_rows [] = []" "series_rows (es @ fs) = series_rows es @ series_rows fs"
  "series_rows (EnqueueSeries rows # es) = rows @ series_rows es"
  "series_rows (EnqueueConfig rows # es) = series_rows es" "series_rows (RegisterMetrics ks # es) = series_rows es"
  "config_rows [] = []" "config_rows (es @ fs) = config_rows es @ config_rows fs"
  "config_rows (EnqueueConfig rows # es) = rows @ config_rows es"
  "config_rows (EnqueueSeries rows # es) = config_rows es" "config_rows (RegisterMetrics ks # es) = config_rows es"
  by (simp_all add: series_rows_def config_rows_def)

subsection \<open>The fingerprint covers what the policy reads\<close>

lemma policy_of_declarations:
  fixes ms ns :: "MetricBase list"
  assumes "map (\<lambda>m. (mkey m, mkind m, mrole m, maccess m, munit m, mstorage m, mdeadband m)) ms
    = map (\<lambda>m. (mkey m, mkind m, mrole m, maccess m, munit m, mstorage m, mdeadband m)) ns"
  shows "createStoragePolicy ms roles = createStoragePolicy ns roles" and "metricKeySpecs ms = metricKeySpecs ns"
proof -
  have read: "resolveStorage m = resolveStorage n \<and> resolveDeadband m = resolveDeadband n
      \<and> optional_group rs m = optional_group rs n \<and> statedKind m = statedKind n"
    if eq: "mkind m = mkind n" "mrole m = mrole n" "maccess m = maccess n" "munit m = munit n"
      "mstorage m = mstorage n" "mdeadband m = mdeadband n" for m n :: MetricBase and rs
  proof -
    have kind: "statedKind m = statedKind n" unfolding statedKind_def roleKind_def eq ..
    then have storage: "resolveStorage m = resolveStorage n" unfolding resolveStorage_def eq by simp
    have "resolveDeadband m = resolveDeadband n" unfolding resolveDeadband_def eq kind storage ..
    moreover have "optional_group rs m = optional_group rs n" unfolding optional_group_def eq ..
    ultimately show ?thesis using kind storage by simp
  qed
  have "list_all2 (\<lambda>m n. mkey m = mkey n \<and> mkind m = mkind n \<and> mrole m = mrole n \<and> maccess m = maccess n
      \<and> munit m = munit n \<and> mstorage m = mstorage n \<and> mdeadband m = mdeadband n) ms ns"
    using assms by (induction ms arbitrary: ns) (auto simp: list_all2_Cons1 map_eq_Cons_conv)
  then have same: "list_all2 (\<lambda>m n. mkey m = mkey n \<and> resolveStorage m = resolveStorage n \<and> resolveDeadband m = resolveDeadband n
      \<and> optional_group rs m = optional_group rs n \<and> statedKind m = statedKind n \<and> munit m = munit n) ms ns" for rs
    by (rule list_all2_mono) (use read in blast)
  have folds: "fold f ms = fold f ns" if "list_all2 (\<lambda>m n. f m = f n) ms ns" for f :: "MetricBase \<Rightarrow> 'c \<Rightarrow> 'c"
    using that by (induction rule: list_all2_induct) simp_all
  have "fold (\<lambda>def. js_set (mkey def) (resolveStorage def)) ms = fold (\<lambda>def. js_set (mkey def) (resolveStorage def)) ns"
    "fold (\<lambda>def. js_set (mkey def) (resolveDeadband def)) ms = fold (\<lambda>def. js_set (mkey def) (resolveDeadband def)) ns"
    by (rule folds, rule list_all2_mono [OF same [of "[]"]], simp)+
  moreover have "fold (\<lambda>def g. case optional_group rs def of Some p \<Rightarrow> (if p = [] then g else js_set (mkey def) p g) | None \<Rightarrow> g) ms
      = fold (\<lambda>def g. case optional_group rs def of Some p \<Rightarrow> (if p = [] then g else js_set (mkey def) p g) | None \<Rightarrow> g) ns" for rs
    by (rule folds, rule list_all2_mono [OF same [of rs]], rule ext) (simp split: option.split)
  ultimately show "createStoragePolicy ms roles = createStoragePolicy ns roles"
    unfolding createStoragePolicy_def Let_def by simp
  show "metricKeySpecs ms = metricKeySpecs ns"
    using same [of "[]"] unfolding metricKeySpecs_def by (induction rule: list_all2_induct) simp_all
qed


subsection \<open>One device at a time\<close>

text \<open>
  The specification: a device on its own, with at most one policy and no map. Registering its keys
  is not a row.
\<close>

definition begin_commit :: "DeviceInstance \<Rightarrow> millis \<Rightarrow> held_policy option \<Rightarrow> held_policy \<times> writer_effect list" where
  "begin_commit device till h = (case h of
     Some held \<Rightarrow> if hp_declarations held = declarationFingerprint device then (held, [])
                  else (fresh_policy device, snd (closeOne till held))
   | None \<Rightarrow> (fresh_policy device, []))"

definition commit_one :: "DeviceInstance \<Rightarrow> DeviceSample \<Rightarrow> held_policy option \<Rightarrow> held_policy option \<times> writer_effect list" where
  "commit_one device sample h = (case begin_commit device (sm_time sample) h of (held, effects) \<Rightarrow>
     (case route (hp_policy held) (hp_state held) \<lparr>sa_time = sm_time sample, sa_inverter = di_id device,
             sa_metrics = measuredMetrics sample\<rparr> of (st, out) \<Rightarrow>
       (Some (held\<lparr>hp_state := st\<rparr>), effects @ [EnqueueSeries (series_of out), EnqueueConfig (config_of out)])))"

fun device_step :: "string \<Rightarrow> held_policy option \<Rightarrow> writer_call \<Rightarrow> held_policy option \<times> writer_effect list" where
  "device_step d h (Commit device sample) = (if di_id device = d then commit_one device sample h else (h, []))"
| "device_step d h (Close till) = (case h of None \<Rightarrow> (None, [])
     | Some held \<Rightarrow> (Some (fst (closeOne till held)), snd (closeOne till held)))"
| "device_step d h (Forget i now) = (if i = d then (None, case h of None \<Rightarrow> [] | Some held \<Rightarrow> snd (closeOne now held))
     else (h, []))"

definition held_ok :: "string \<Rightarrow> held_policy \<Rightarrow> bool" where
  "held_ok i h \<longleftrightarrow> fst ` set (ps_encoders (hp_state h)) \<subseteq> {i}"

definition writer_ok :: "writer \<Rightarrow> bool" where
  "writer_ok w \<longleftrightarrow> distinct (map fst w) \<and> (\<forall>(i, h)\<in>set w. held_ok i h)"

definition rows_of :: "string \<Rightarrow> StorageRow list \<Rightarrow> bool" where
  "rows_of i rows \<longleftrightarrow> (\<forall>r\<in>set rows. sr_inverter r = i)"

lemma device_rows_own: "rows_of i rows \<Longrightarrow> device_rows d rows = (if i = d then rows else [])"
  unfolding rows_of_def device_rows_def by auto

lemma destinationOf_encoders: "ps_encoders (snd (destinationOf pol i k v st)) = ps_encoders st"
  unfolding destinationOf_def admitConfigChange_def Let_def by (cases "storage_class pol k") simp_all

lemma route_reading_keys:
  "fst ` set (ps_encoders (fst (route_reading pol t dev st x))) \<subseteq> insert dev (fst ` set (ps_encoders st))"
proof -
  obtain k v where x: "x = (k, v)" by force
  obtain dst st' where d: "destinationOf pol dev k v st = (dst, st')" by force
  then have "ps_encoders st' = ps_encoders st" using destinationOf_encoders [of pol dev k v st] by simp
  then show ?thesis unfolding x route_reading_def d prod.case
    by (cases dst) (auto simp: dom_update split: prod.split)
qed

lemma route_reading_rows: "r \<in> set (snd (route_reading pol t dev st x))
    \<Longrightarrow> (case r of ToSeries y \<Rightarrow> sr_inverter y = dev | ToConfig y \<Rightarrow> sr_inverter y = dev)"
  by (auto simp: route_reading_def series_row_def split: prod.splits Destination.splits)

lemma route_keys:
  assumes "fst ` set (ps_encoders st) \<subseteq> {sa_inverter s}"
  shows "fst ` set (ps_encoders (fst (route pol st s))) \<subseteq> {sa_inverter s}"
proof -
  have "fst ` set (ps_encoders (fst (run_steps (route_reading pol t dev) st rs))) \<subseteq> {dev}"
    if "fst ` set (ps_encoders st) \<subseteq> {dev}" for t dev rs st
    using that
  proof (induction rs arbitrary: st)
    case (Cons x rs)
    have "fst ` set (ps_encoders (fst (route_reading pol t dev st x))) \<subseteq> {dev}"
      using route_reading_keys [of pol t dev st x] Cons.prems by blast
    from Cons.IH [OF this] show ?case by (simp add: fst_andThen)
  qed simp
  from this [of "noteEvidence pol (finite_readings s) st"] show ?thesis
    using assms unfolding route_def Let_def noteEvidence_def by simp
qed

lemma routed_sets: "set (series_of out) = {y. ToSeries y \<in> set out}" "set (config_of out) = {y. ToConfig y \<in> set out}"
proof (induction out)
  case (Cons r out)
  { case 1 show ?case using Cons by (cases r) auto }
  { case 2 show ?case using Cons by (cases r) auto }
qed simp_all

lemma route_rows: "rows_of (sa_inverter s) (series_of (snd (route pol st s)))"
  "rows_of (sa_inverter s) (config_of (snd (route pol st s)))"
proof -
  have *: "case r of ToSeries y \<Rightarrow> sr_inverter y = dev | ToConfig y \<Rightarrow> sr_inverter y = dev"
    if "r \<in> set (snd (run_steps (route_reading pol t dev) st rs))" for r t dev st rs
    using that
  proof (induction rs arbitrary: st)
    case (Cons x rs)
    then consider "r \<in> set (snd (route_reading pol t dev st x))"
      | "r \<in> set (snd (run_steps (route_reading pol t dev) (fst (route_reading pol t dev st x)) rs))"
      by (auto simp: snd_andThen)
    then show ?case using route_reading_rows Cons.IH by cases blast+
  qed simp
  show "rows_of (sa_inverter s) (series_of (snd (route pol st s)))"
    unfolding rows_of_def routed_sets route_def Let_def using * [of "ToSeries _"] by simp
  show "rows_of (sa_inverter s) (config_of (snd (route pol st s)))"
    unfolding rows_of_def routed_sets route_def Let_def using * [of "ToConfig _"] by simp
qed

lemma closeOne_rows: "held_ok i h \<Longrightarrow> rows_of i (series_rows (snd (closeOne till h)))"
  "config_rows (snd (closeOne till h)) = []" "held_ok i (fst (closeOne till h))"
  by (auto simp: closeOne_def close_policy_def rows_of_def held_ok_def series_row_def)

lemma fresh_ok: "held_ok i (fresh_policy device)"
  by (simp add: held_ok_def fresh_policy_def new_policy_state_def)

lemma begin_commit_ok:
  assumes "\<And>h'. h = Some h' \<Longrightarrow> held_ok (di_id device) h'"
  shows "held_ok (di_id device) (fst (begin_commit device till h))"
    and "rows_of (di_id device) (series_rows (snd (begin_commit device till h)))"
    and "config_rows (snd (begin_commit device till h)) = []"
  using assms closeOne_rows fresh_ok by (auto simp: begin_commit_def rows_of_def split: option.split)

lemma commit_one_ok:
  assumes "\<And>h'. h = Some h' \<Longrightarrow> held_ok (di_id device) h'"
  shows "fst (commit_one device sample h) = Some h' \<Longrightarrow> held_ok (di_id device) h'"
    and "rows_of (di_id device) (series_rows (snd (commit_one device sample h)))"
    and "rows_of (di_id device) (config_rows (snd (commit_one device sample h)))"
proof -
  obtain held effects where b: "begin_commit device (sm_time sample) h = (held, effects)" by force
  define s where "s = \<lparr>sa_time = sm_time sample, sa_inverter = di_id device, sa_metrics = measuredMetrics sample\<rparr>"
  obtain st out where r: "route (hp_policy held) (hp_state held) s = (st, out)" by force
  have c: "commit_one device sample h
      = (Some (held\<lparr>hp_state := st\<rparr>), effects @ [EnqueueSeries (series_of out), EnqueueConfig (config_of out)])"
    using r unfolding commit_one_def b s_def by simp
  have ok: "held_ok (di_id device) held" "rows_of (di_id device) (series_rows effects)" "config_rows effects = []"
    using begin_commit_ok [of h device "sm_time sample"] assms unfolding b by auto
  have id: "sa_inverter s = di_id device" unfolding s_def by simp
  have keys: "fst ` set (ps_encoders st) \<subseteq> {di_id device}"
    using route_keys [of "hp_state held" s "hp_policy held"] ok(1) by (simp add: held_ok_def id r)
  { assume "fst (commit_one device sample h) = Some h'"
    then have "h' = held\<lparr>hp_state := st\<rparr>" unfolding c by simp
    then show "held_ok (di_id device) h'" unfolding held_ok_def using keys by simp }
  have rows: "rows_of (di_id device) (series_of out)" "rows_of (di_id device) (config_of out)"
    using route_rows [of s "hp_policy held" "hp_state held"] by (simp_all add: r id)
  show "rows_of (di_id device) (series_rows (snd (commit_one device sample h)))"
    using rows(1) ok(2) unfolding c rows_of_def by auto
  show "rows_of (di_id device) (config_rows (snd (commit_one device sample h)))"
    using rows(2) ok(3) unfolding c rows_of_def by simp
qed

text \<open>A commit through the map is the commit of its own device; no other device's policy or rows move.\<close>

lemma policyFor_begin:
  assumes "policyFor device till w = (held, w1, effects)" and "begin_commit device till (js_get w (di_id device)) = (held', es)"
  shows "held = held' \<and> series_rows effects = series_rows es \<and> config_rows effects = config_rows es
    \<and> (\<forall>i. i \<noteq> di_id device \<longrightarrow> js_get w1 i = js_get w i) \<and> (w1 = w \<or> w1 = js_set (di_id device) held w)"
proof (cases "js_get w (di_id device)")
  case None
  then show ?thesis using assms unfolding policyFor_def begin_commit_def by auto
next
  case (Some h)
  then show ?thesis using assms unfolding policyFor_def begin_commit_def by (cases "hp_declarations h = declarationFingerprint device") auto
qed

lemma commit_is_commit_one:
  assumes "commit_one device sample (js_get w (di_id device)) = (Some h, es)"
  obtains w1 effects where "commit device sample w = (js_set (di_id device) h w1, effects)"
    and "w1 = w \<or> (\<exists>h1. w1 = js_set (di_id device) h1 w)"
    and "series_rows effects = series_rows es" and "config_rows effects = config_rows es"
proof -
  obtain held es' where b: "begin_commit device (sm_time sample) (js_get w (di_id device)) = (held, es')" by force
  obtain w1 es'' where p: "policyFor device (sm_time sample) w = (held, w1, es'')"
    and same: "series_rows es'' = series_rows es'" "config_rows es'' = config_rows es'" "w1 = w \<or> w1 = js_set (di_id device) held w"
    using policyFor_begin [OF _ b] by (metis prod.exhaust)
  obtain st out where r: "route (hp_policy held) (hp_state held) \<lparr>sa_time = sm_time sample, sa_inverter = di_id device,
      sa_metrics = measuredMetrics sample\<rparr> = (st, out)" by force
  show thesis
  proof (rule that)
    show "commit device sample w = (js_set (di_id device) h w1, es'' @ [EnqueueSeries (series_of out), EnqueueConfig (config_of out)])"
      using assms unfolding commit_def commit_one_def p b by (simp add: r)
  qed (use assms same in \<open>auto simp: commit_one_def b r\<close>)
qed


lemma writer_ok_set:
  assumes "writer_ok w" and "held_ok i h"
  shows "writer_ok (js_set i h w)"
  unfolding writer_ok_def
proof (intro conjI ballI)
  show "distinct (map fst (js_set i h w))" using assms(1) unfolding writer_ok_def by (simp add: js_set_distinct)
  fix x assume "x \<in> set (js_set i h w)"
  then have "x = (i, h) \<or> x \<in> set w" by (induction w) (auto split: if_splits)
  then show "case x of (i, h) \<Rightarrow> held_ok i h" using assms unfolding writer_ok_def by auto
qed

lemma writer_ok_get: "writer_ok w \<Longrightarrow> js_get w i = Some h \<Longrightarrow> held_ok i h"
  unfolding writer_ok_def by (auto dest: map_of_SomeD)

text \<open>What one call does to a device is the specification's step, its rows are the rows of that step.\<close>

definition simulates :: "string \<Rightarrow> writer \<Rightarrow> held_policy option \<Rightarrow> bool" where
  "simulates d w h \<longleftrightarrow> writer_ok w \<and> js_get w d = h"

lemma commit_refines:
  assumes "simulates d w h"
  shows "simulates d (fst (commit device sample w)) (fst (device_step d h (Commit device sample)))
    \<and> device_rows d (series_rows (snd (commit device sample w))) = series_rows (snd (device_step d h (Commit device sample)))
    \<and> device_rows d (config_rows (snd (commit device sample w))) = config_rows (snd (device_step d h (Commit device sample)))"
proof -
  have ok: "writer_ok w" "js_get w d = h" using assms unfolding simulates_def by auto
  let ?g = "js_get w (di_id device)"
  obtain h' es where c: "commit_one device sample ?g = (Some h', es)"
    by (cases "commit_one device sample ?g") (auto simp: commit_one_def split: prod.splits)
  have owned: "held_ok (di_id device) h'" "rows_of (di_id device) (series_rows es)" "rows_of (di_id device) (config_rows es)"
    using commit_one_ok [of ?g device sample] writer_ok_get [OF ok(1)] c by auto
  obtain w1 effects where w1: "commit device sample w = (js_set (di_id device) h' w1, effects)"
    "w1 = w \<or> (\<exists>h1. w1 = js_set (di_id device) h1 w)" "series_rows effects = series_rows es" "config_rows effects = config_rows es"
    using commit_is_commit_one [OF c] .
  have fst: "fst (commit device sample w) = js_set (di_id device) h' w" using w1(1-2) by auto
  have "simulates d (fst (commit device sample w)) (fst (device_step d h (Commit device sample)))"
    using writer_ok_set [OF ok(1) owned(1)] ok(2) c unfolding simulates_def fst by auto
  moreover have "device_rows d (series_rows (snd (commit device sample w))) = series_rows (snd (device_step d h (Commit device sample)))"
    "device_rows d (config_rows (snd (commit device sample w))) = config_rows (snd (device_step d h (Commit device sample)))"
    using device_rows_own owned(2-3) w1(1,3-4) ok(2) c by auto
  ultimately show ?thesis by blast
qed

lemma close_refines:
  assumes "simulates d w h"
  shows "simulates d (fst (close_writer till w)) (fst (device_step d h (Close till)))
    \<and> device_rows d (series_rows (snd (close_writer till w))) = series_rows (snd (device_step d h (Close till)))
    \<and> device_rows d (config_rows (snd (close_writer till w))) = config_rows (snd (device_step d h (Close till)))"
proof -
  have ok: "writer_ok w" "js_get w d = h" using assms unfolding simulates_def by auto
  have keys: "map fst (map (\<lambda>(i, h). (i, fst (closeOne till h))) w) = map fst w" by (induction w) auto
  have w': "writer_ok (map (\<lambda>(i, h). (i, fst (closeOne till h))) w)"
    using ok(1) closeOne_rows(3) unfolding writer_ok_def keys by fastforce
  have get: "js_get (map (\<lambda>(i, h). (i, fst (closeOne till h))) w) d = map_option (\<lambda>h. fst (closeOne till h)) h"
    unfolding ok(2) [symmetric] by (simp add: map_of_map)
  have rows: "device_rows d (series_rows (concat (map (\<lambda>(i, h). snd (closeOne till h)) v)))
      = (case js_get v d of None \<Rightarrow> [] | Some h \<Rightarrow> series_rows (snd (closeOne till h)))
    \<and> device_rows d (config_rows (concat (map (\<lambda>(i, h). snd (closeOne till h)) v))) = []" if "writer_ok v" for v
    using that
  proof (induction v)
    case (Cons x v)
    obtain i held where x: "x = (i, held)" by force
    have v: "writer_ok v" "held_ok i held" "i \<notin> fst ` set v" using Cons.prems unfolding writer_ok_def x by auto
    then have "js_get v i = None" by (simp add: map_of_eq_None_iff)
    then show ?case using Cons.IH [OF v(1)] device_rows_own [OF closeOne_rows(1) [OF v(2)], of d till] closeOne_rows(2)
      unfolding x by auto
  qed simp
  show ?thesis using rows [OF ok(1)] w' get ok(2) closeOne_rows(2)
    unfolding simulates_def close_writer_def by (auto split: option.split)
qed

lemma forget_refines:
  assumes "simulates d w h"
  shows "simulates d (fst (forget i now w)) (fst (device_step d h (Forget i now)))
    \<and> device_rows d (series_rows (snd (forget i now w))) = series_rows (snd (device_step d h (Forget i now)))
    \<and> device_rows d (config_rows (snd (forget i now w))) = config_rows (snd (device_step d h (Forget i now)))"
proof -
  have ok: "writer_ok w" "js_get w d = h" using assms unfolding simulates_def by auto
  show ?thesis
  proof (cases "js_get w i")
    case None
    then show ?thesis using ok by (auto simp: forget_def simulates_def)
  next
    case (Some held)
    have "writer_ok (js_delete i w)"
      using ok(1) js_delete_distinct [of w i] unfolding writer_ok_def by (auto simp only: AList.delete_eq set_filter)
    moreover have "device_rows d (series_rows (snd (closeOne now held))) = (if i = d then series_rows (snd (closeOne now held)) else [])"
      by (rule device_rows_own [OF closeOne_rows(1) [OF writer_ok_get [OF ok(1) Some]]])
    ultimately show ?thesis using Some ok closeOne_rows(2) by (auto simp: forget_def simulates_def)
  qed
qed

lemma writer_refines:
  assumes "simulates d w h"
  shows "device_rows d (series_rows (snd (run_steps writer_step w calls))) = series_rows (snd (run_steps (device_step d) h calls))
     \<and> device_rows d (config_rows (snd (run_steps writer_step w calls))) = config_rows (snd (run_steps (device_step d) h calls))"
  using assms
proof (induction calls arbitrary: w h)
  case (Cons c calls)
  have step: "simulates d (fst (writer_step w c)) (fst (device_step d h c))
      \<and> device_rows d (series_rows (snd (writer_step w c))) = series_rows (snd (device_step d h c))
      \<and> device_rows d (config_rows (snd (writer_step w c))) = config_rows (snd (device_step d h c))"
    using commit_refines [OF Cons.prems] close_refines [OF Cons.prems] forget_refines [OF Cons.prems] by (cases c) auto
  show ?case using step Cons.IH [of "fst (writer_step w c)" "fst (device_step d h c)"] by (simp add: snd_andThen)
qed simp

lemma writer_refines_new:
  "device_rows d (series_rows (snd (run_steps writer_step [] calls))) = series_rows (snd (run_steps (device_step d) None calls))"
  "device_rows d (config_rows (snd (run_steps writer_step [] calls))) = config_rows (snd (run_steps (device_step d) None calls))"
  using writer_refines [of d "[]" None calls] by (simp_all add: simulates_def writer_ok_def)

text \<open>C25. Every device is served as if it were alone: whatever is committed for, closed with or retired
  among the others, the rows enqueued for a device, in both sinks and in order, are those of the
  calls that concern it run through one policy of its own.\<close>

theorem writer_serves_each_alone:
  "device_rows d (series_rows (snd (run_steps writer_step [] calls)))
     = series_rows (snd (run_steps (device_step d) None calls))
   \<and> device_rows d (config_rows (snd (run_steps writer_step [] calls)))
     = config_rows (snd (run_steps (device_step d) None calls))"
  using writer_refines_new by blast

subsection \<open>A device registered again\<close>

definition routable :: "DeviceInstance \<Rightarrow> DeviceSample \<Rightarrow> RoutableSample" where
  "routable device sample = \<lparr>sa_time = sm_time sample, sa_inverter = di_id device, sa_metrics = measuredMetrics sample\<rparr>"

definition samples_of :: "string \<Rightarrow> writer_call list \<Rightarrow> RoutableSample list" where
  "samples_of d calls = concat (map (\<lambda>c. case c of
     Commit device sample \<Rightarrow> if di_id device = d then [routable device sample] else [] | _ \<Rightarrow> []) calls)"

definition states_the_same :: "DeviceInstance \<Rightarrow> writer_call \<Rightarrow> bool" where
  "states_the_same device c = (case c of
     Commit dev sample \<Rightarrow> di_id dev = di_id device \<longrightarrow> declarationFingerprint dev = declarationFingerprint device
   | Close till \<Rightarrow> False
   | Forget i now \<Rightarrow> i \<noteq> di_id device)"

lemma same_fresh:
  assumes "declarationFingerprint dev = declarationFingerprint device"
  shows "fresh_policy dev = fresh_policy device"
  unfolding fresh_policy_def assms policy_of_declarations(1) [OF assms [unfolded declarationFingerprint_def]] ..

lemma commit_one_same:
  assumes "hp_declarations h = declarationFingerprint dev"
  shows "commit_one dev s (Some h) = (Some (h\<lparr>hp_state := fst (route (hp_policy h) (hp_state h) (routable dev s))\<rparr>),
      [EnqueueSeries (series_of (snd (route (hp_policy h) (hp_state h) (routable dev s)))),
       EnqueueConfig (config_of (snd (route (hp_policy h) (hp_state h) (routable dev s))))])"
  unfolding commit_one_def begin_commit_def routable_def option.case if_P [OF assms] prod.case
  by (simp split: prod.split)

lemma commit_one_new: "commit_one dev s None = commit_one dev s (Some (fresh_policy dev))"
  unfolding commit_one_def begin_commit_def by (simp add: fresh_policy_def)

lemma samples_of_Cons [simp]:
  "samples_of d [] = []"
  "samples_of d (Commit dev s # calls) = (if di_id dev = d then routable dev s # samples_of d calls else samples_of d calls)"
  "samples_of d (Close till # calls) = samples_of d calls" "samples_of d (Forget i now # calls) = samples_of d calls"
  by (simp_all add: samples_of_def)

lemma device_run:
  assumes "hp_declarations h = declarationFingerprint device" and "list_all (states_the_same device) calls"
  shows "\<exists>es. run_steps (device_step (di_id device)) (Some h) calls
        = (Some (h\<lparr>hp_state := fst (run_steps (route (hp_policy h)) (hp_state h) (samples_of (di_id device) calls))\<rparr>), es)
      \<and> series_rows es = series_of (snd (run_steps (route (hp_policy h)) (hp_state h) (samples_of (di_id device) calls)))
      \<and> config_rows es = config_of (snd (run_steps (route (hp_policy h)) (hp_state h) (samples_of (di_id device) calls)))"
  using assms
proof (induction calls arbitrary: h)
  case (Cons c calls)
  show ?case
  proof (cases "\<exists>dev s. c = Commit dev s \<and> di_id dev = di_id device")
    case True
    then obtain dev s where c: "c = Commit dev s" "di_id dev = di_id device" by blast
    have fp: "declarationFingerprint dev = declarationFingerprint device" using Cons.prems(2) c by (simp add: states_the_same_def)
    let ?h = "h\<lparr>hp_state := fst (route (hp_policy h) (hp_state h) (routable dev s))\<rparr>"
    have one: "hp_declarations h = declarationFingerprint dev" using Cons.prems(1) fp by simp
    have "\<exists>es. run_steps (device_step (di_id device)) (Some ?h) calls
        = (Some (?h\<lparr>hp_state := fst (run_steps (route (hp_policy h)) (hp_state ?h) (samples_of (di_id device) calls))\<rparr>), es)
      \<and> series_rows es = series_of (snd (run_steps (route (hp_policy h)) (hp_state ?h) (samples_of (di_id device) calls)))
      \<and> config_rows es = config_of (snd (run_steps (route (hp_policy h)) (hp_state ?h) (samples_of (di_id device) calls)))"
      using Cons.IH [of ?h] Cons.prems by simp
    then show ?thesis unfolding c(1) using commit_one_same [OF one, of s] c(2)
      by (auto simp: fst_andThen snd_andThen)
  next
    case False
    then have "samples_of (di_id device) (c # calls) = samples_of (di_id device) calls"
      by (cases c) auto
    moreover have "device_step (di_id device) (Some h) c = (Some h, [])"
      using False Cons.prems(2) by (cases c) (auto simp: states_the_same_def)
    ultimately show ?thesis using Cons.IH [OF Cons.prems(1)] Cons.prems(2) by (auto simp: fst_andThen snd_andThen)
  qed
qed simp

lemma device_run_new:
  assumes "list_all (states_the_same device) calls"
  shows "run_steps (device_step (di_id device)) None calls = (None, []) \<and> samples_of (di_id device) calls = []
    \<or> run_steps (device_step (di_id device)) None calls = run_steps (device_step (di_id device)) (Some (fresh_policy device)) calls"
  using assms
proof (induction calls)
  case (Cons c calls)
  show ?case
  proof (cases "\<exists>dev s. c = Commit dev s \<and> di_id dev = di_id device")
    case True
    then obtain dev s where c: "c = Commit dev s" "di_id dev = di_id device" by blast
    then have "declarationFingerprint dev = declarationFingerprint device" using Cons.prems by (simp add: states_the_same_def)
    from same_fresh [OF this] show ?thesis unfolding c(1) using c(2) by (simp add: commit_one_new [of dev s])
  next
    case False
    then have "samples_of (di_id device) (c # calls) = samples_of (di_id device) calls"
      "device_step (di_id device) None c = (None, [])"
      by (cases c; auto)+
    moreover have "device_step (di_id device) (Some (fresh_policy device)) c = (Some (fresh_policy device), [])"
      using False Cons.prems by (cases c) (auto simp: states_the_same_def)
    ultimately show ?thesis using Cons by simp
  qed
qed simp

text \<open>A settings save that registers a device again with the same declarations is not seen in its
  history: however often it happens and whatever the other devices do meanwhile, the rows written
  for the device up to the close are those of one policy fed all its samples, and the change log
  has no entry the samples do not have.\<close>

theorem reregistration_keeps_history:
  assumes "list_all (states_the_same device) calls"
  shows "device_rows (di_id device) (series_rows (snd (run_steps writer_step [] (calls @ [Close till]))))
      = persisted (createStoragePolicy (di_metrics device) None) (samples_of (di_id device) calls) till
    \<and> device_rows (di_id device) (config_rows (snd (run_steps writer_step [] (calls @ [Close till]))))
      = config_of (snd (run_steps (route (createStoragePolicy (di_metrics device) None)) new_policy_state
          (samples_of (di_id device) calls)))"
proof -
  let ?pol = "createStoragePolicy (di_metrics device) None" and ?ss = "samples_of (di_id device) calls"
  have fresh: "hp_declarations (fresh_policy device) = declarationFingerprint device" "hp_policy (fresh_policy device) = ?pol"
    "hp_state (fresh_policy device) = new_policy_state" unfolding fresh_policy_def by simp_all
  obtain es where es: "run_steps (device_step (di_id device)) (Some (fresh_policy device)) calls
      = (Some (fresh_policy device\<lparr>hp_state := fst (run_steps (route ?pol) new_policy_state ?ss)\<rparr>), es)"
    "series_rows es = series_of (snd (run_steps (route ?pol) new_policy_state ?ss))"
    "config_rows es = config_of (snd (run_steps (route ?pol) new_policy_state ?ss))"
    using device_run [OF fresh(1) assms] unfolding fresh(2-3) by blast
  from device_run_new [OF assms] show ?thesis
  proof
    assume "run_steps (device_step (di_id device)) None calls = (None, []) \<and> ?ss = []"
    then show ?thesis unfolding writer_refines_new
      by (simp add: run_steps_append persisted_def close_policy_def new_policy_state_def)
  next
    assume "run_steps (device_step (di_id device)) None calls = run_steps (device_step (di_id device)) (Some (fresh_policy device)) calls"
    then show ?thesis unfolding writer_refines_new using es fresh(2)
      by (simp add: run_steps_append persisted_def closeOne_def split: prod.split)
  qed
qed


definition slot_device :: "string \<Rightarrow> DeviceInstance" where
  "slot_device caption = deviceInstance ''a'' InverterClass ''profile'' [slot_metric\<lparr>mlabel := caption\<rparr>] None"

definition other_device :: DeviceInstance where
  "other_device = deviceInstance ''b'' InverterClass ''profile'' [slot_metric] None"

definition slot_commit :: "DeviceInstance \<Rightarrow> millis \<Rightarrow> number \<Rightarrow> writer_call" where
  "slot_commit device t v = Commit device \<lparr>sm_time = t, sm_metrics = [(''s'', v)], sm_provenance = None\<rparr>"

text \<open>The device is registered a second time under another label; its setting stays at 1 and is logged once.\<close>

theorem reregistration_keeps_history_witness:
  "device_rows ''a'' (config_rows (snd (run_steps writer_step []
       ([slot_commit (slot_device ''old'') 1 1, slot_commit other_device 2 7, slot_commit (slot_device ''new'') 3 1] @ [Close 9]))))
     = [\<lparr>sr_time = 1, sr_inverter = ''a'', sr_metric = ''s'', sr_value = 1, sr_dur = None\<rparr>]"
proof -
  let ?calls = "[slot_commit (slot_device ''old'') 1 1, slot_commit other_device 2 7, slot_commit (slot_device ''new'') 3 1]"
  have same: "list_all (states_the_same (slot_device ''old'')) ?calls" by code_simp
  define pol where "pol = createStoragePolicy (di_metrics (slot_device ''old'')) None"
  have pol: "storage_class pol ''s'' = ConfigLog" "js_get (po_group pol) ''s'' = None" unfolding pol_def by code_simp+
  have samples: "samples_of (di_id (slot_device ''old'')) ?calls
      = [\<lparr>sa_time = 1, sa_inverter = ''a'', sa_metrics = [(''s'', 1)]\<rparr>, \<lparr>sa_time = 3, sa_inverter = ''a'', sa_metrics = [(''s'', 1)]\<rparr>]"
    by code_simp
  have "config_of (snd (run_steps (route pol) new_policy_state (samples_of (di_id (slot_device ''old'')) ?calls)))
    = [\<lparr>sr_time = 1, sr_inverter = ''a'', sr_metric = ''s'', sr_value = 1, sr_dur = None\<rparr>]"
    unfolding samples
    by (simp add: route_def finite_readings_def small_finite noteEvidence_def route_reading_def destinationOf_def
        admitConfigChange_def Let_def pol new_policy_state_def fst_andThen snd_andThen)
  moreover have "di_id (slot_device ''old'') = ''a''" by (simp add: slot_device_def deviceInstance_def)
  ultimately show ?thesis using reregistration_keeps_history [OF same, of 9] by (simp add: pol_def)
qed

end
