(* ===== verification/History_Buffer.thy ===== *)
theory History_Buffer
  imports Prelude
begin

text \<open>
  \<^verbatim>\<open>apps/server/src/inverter/history-buffer.ts\<close>: rows wait here for the next transaction. \<open>flush\<close> is
  cut at its \<open>await\<close>: a step takes the batch and hands it to \<open>commit\<close> (an effect), and the answer of
  the database, a success or an error, is an event. The batch held by the running \<open>flush\<close> is the
  option \<open>hb_batch\<close>, present exactly while the flag \<open>flushing\<close> is set. The log lines are dropped.
\<close>

record 'r buffer =
  hb_pending :: "'r list"
  hb_batch :: "'r list option"
  hb_dropped :: nat

abbreviation hb_flushing :: "'r buffer \<Rightarrow> bool" where
  "hb_flushing b \<equiv> hb_batch b \<noteq> None"

definition createHistoryBuffer :: "'r buffer" where
  "createHistoryBuffer = \<lparr>hb_pending = [], hb_batch = None, hb_dropped = 0\<rparr>"

definition MAX_PENDING :: nat where "MAX_PENDING = 100000"

definition flush :: "'r buffer \<Rightarrow> 'r buffer \<times> 'r list list" where
  "flush b = (if hb_flushing b \<or> hb_pending b = [] then (b, [])
     else (b\<lparr>hb_pending := [], hb_batch := Some (hb_pending b)\<rparr>, [hb_pending b]))"

definition enqueue :: "nat \<Rightarrow> 'r list \<Rightarrow> 'r buffer \<Rightarrow> 'r buffer \<times> 'r list list" where
  "enqueue maxPending rows b = (let b1 = b\<lparr>hb_pending := hb_pending b @ rows\<rparr>
     in if \<not> hb_flushing b1 \<and> maxPending \<le> length (hb_pending b1) then flush b1 else (b1, []))"

definition flushed :: "'r buffer \<Rightarrow> 'r buffer" where
  "flushed b = b\<lparr>hb_batch := None\<rparr>"

text \<open>\<open>pending.slice(-maxPending)\<close> keeps everything when the cap is 0.\<close>

definition slice_last :: "nat \<Rightarrow> 'a list \<Rightarrow> 'a list" where
  "slice_last n xs = (if n = 0 then xs else drop (length xs - n) xs)"

definition flush_failed :: "nat \<Rightarrow> 'r buffer \<Rightarrow> 'r buffer" where
  "flush_failed maxPending b = (case hb_batch b of
     None \<Rightarrow> b
   | Some batch \<Rightarrow>
       let pending = batch @ hb_pending b
       in if length pending > maxPending
          then b\<lparr>hb_pending := slice_last maxPending pending, hb_batch := None,
                 hb_dropped := hb_dropped b + (length pending - maxPending)\<rparr>
          else b\<lparr>hb_pending := pending, hb_batch := None\<rparr>)"

datatype 'r buffer_event =
    Enqueue "'r list"
  | FlushTick
  | CommitOk
  | CommitFailed

fun buffer_step :: "nat \<Rightarrow> 'r buffer \<Rightarrow> 'r buffer_event \<Rightarrow> 'r buffer \<times> 'r list list" where
  "buffer_step cap b (Enqueue rows) = enqueue cap rows b"
| "buffer_step cap b FlushTick = flush b"
| "buffer_step cap b CommitOk = (flushed b, [])"
| "buffer_step cap b CommitFailed = (flush_failed cap b, [])"

subsection \<open>Where the rows are\<close>

text \<open>The rows the database took, and the rows handed to the buffer, along a run.\<close>

fun run_buffer :: "nat \<Rightarrow> 'r buffer \<Rightarrow> 'r buffer_event list \<Rightarrow> 'r buffer \<times> 'r list" where
  "run_buffer cap b [] = (b, [])"
| "run_buffer cap b (e # es) = (let b' = fst (buffer_step cap b e);
       taken = (case (e, hb_batch b) of (CommitOk, Some batch) \<Rightarrow> batch | _ \<Rightarrow> [])
     in case run_buffer cap b' es of (b'', rows) \<Rightarrow> (b'', taken @ rows))"

definition enqueued :: "'r buffer_event list \<Rightarrow> 'r list" where
  "enqueued es = concat (map (\<lambda>e. case e of Enqueue rows \<Rightarrow> rows | _ \<Rightarrow> []) es)"

definition held_rows :: "'r buffer \<Rightarrow> 'r list" where
  "held_rows b = (case hb_batch b of None \<Rightarrow> [] | Some batch \<Rightarrow> batch) @ hb_pending b"

text \<open>What became of the rows no longer held, in the order they came: taken, or dropped at the cap.\<close>

definition settled :: "nat \<Rightarrow> 'r list \<Rightarrow> 'r list \<Rightarrow> nat \<Rightarrow> ('r \<times> bool) list \<Rightarrow> bool" where
  "settled cap rows stored drops disp \<longleftrightarrow> rows = map fst disp
     \<and> stored = map fst (filter snd disp) \<and> drops = length (filter (\<lambda>x. \<not> snd x) disp)"

lemma enqueued_simps [simp]:
  "enqueued [] = []" "enqueued (Enqueue rows # es) = rows @ enqueued es" "enqueued (FlushTick # es) = enqueued es"
  "enqueued (CommitOk # es) = enqueued es" "enqueued (CommitFailed # es) = enqueued es"
  by (simp_all add: enqueued_def)

lemma flush_held [simp]: "held_rows (fst (flush b)) = held_rows b" "hb_dropped (fst (flush b)) = hb_dropped b"
  by (auto simp: flush_def held_rows_def split: option.split)

lemma enqueue_held [simp]: "held_rows (fst (enqueue cap rows b)) = held_rows b @ rows"
  "hb_dropped (fst (enqueue cap rows b)) = hb_dropped b"
  by (simp_all add: enqueue_def Let_def) (simp_all add: held_rows_def split: option.split)

text \<open>A step settles a prefix of what the buffer held with what it was given.\<close>

lemma step_settles:
  assumes "0 < cap"
  shows "\<exists>disp. held_rows b @ (case e of Enqueue rows \<Rightarrow> rows | _ \<Rightarrow> []) = map fst disp @ held_rows (fst (buffer_step cap b e))
    \<and> (case (e, hb_batch b) of (CommitOk, Some batch) \<Rightarrow> batch | _ \<Rightarrow> []) = map fst (filter snd disp)
    \<and> hb_dropped (fst (buffer_step cap b e)) = hb_dropped b + length (filter (\<lambda>x. \<not> snd x) disp)"
proof (cases e)
  case CommitOk
  show ?thesis
  proof (cases "hb_batch b")
    case None
    then show ?thesis using CommitOk by (intro exI [of _ "[]"]) (simp add: flushed_def held_rows_def)
  next
    case (Some batch)
    then show ?thesis using CommitOk
      by (intro exI [of _ "map (\<lambda>r. (r, True)) batch"]) (simp add: flushed_def held_rows_def comp_def)
  qed
next
  case CommitFailed
  show ?thesis
  proof (cases "hb_batch b")
    case None
    then show ?thesis using CommitFailed by (intro exI [of _ "[]"]) (simp add: flush_failed_def)
  next
    case (Some batch)
    let ?all = "batch @ hb_pending b"
    let ?over = "length ?all - cap"
    have "held_rows (flush_failed cap b) = drop ?over ?all"
      "hb_dropped (flush_failed cap b) = hb_dropped b + ?over"
      using Some assms by (auto simp: flush_failed_def held_rows_def slice_last_def Let_def)
    moreover have "held_rows b = ?all" using Some by (simp add: held_rows_def)
    ultimately show ?thesis using CommitFailed Some
      by (intro exI [of _ "map (\<lambda>r. (r, False)) (take ?over ?all)"])
        (auto simp: comp_def simp del: take_append drop_append)
  qed
qed (intro exI [of _ "[]"], simp)+

lemma run_settles:
  assumes "0 < cap" and "run_buffer cap b es = (b', stored)"
  shows "\<exists>disp. held_rows b @ enqueued es = map fst disp @ held_rows b' \<and> stored = map fst (filter snd disp)
    \<and> hb_dropped b' = hb_dropped b + length (filter (\<lambda>x. \<not> snd x) disp)"
  using assms(2)
proof (induction es arbitrary: b stored)
  case Nil
  then show ?case by (intro exI [of _ "[]"]) simp
next
  case (Cons e es)
  let ?b = "fst (buffer_step cap b e)"
  define taken where "taken = (case (e, hb_batch b) of (CommitOk, Some batch) \<Rightarrow> batch | _ \<Rightarrow> [])"
  obtain rows where rest: "run_buffer cap ?b es = (b', rows)" and stored: "stored = taken @ rows"
    using Cons.prems unfolding taken_def by (auto simp: Let_def split: prod.splits)
  from step_settles [OF assms(1), of b e, folded taken_def] obtain d1 where
    d1: "held_rows b @ (case e of Enqueue rows \<Rightarrow> rows | _ \<Rightarrow> []) = map fst d1 @ held_rows ?b"
      "taken = map fst (filter snd d1)" "hb_dropped ?b = hb_dropped b + length (filter (\<lambda>x. \<not> snd x) d1)" by blast
  from Cons.IH [OF rest] obtain d2 where
    d2: "held_rows ?b @ enqueued es = map fst d2 @ held_rows b'" "rows = map fst (filter snd d2)"
      "hb_dropped b' = hb_dropped ?b + length (filter (\<lambda>x. \<not> snd x) d2)" by blast
  have "enqueued (e # es) = (case e of Enqueue rows \<Rightarrow> rows | _ \<Rightarrow> []) @ enqueued es" by (cases e) simp_all
  then have "held_rows b @ enqueued (e # es) = map fst (d1 @ d2) @ held_rows b'"
    using d1(1) d2(1) by (metis append.assoc map_append)
  then show ?case using d1(2-3) d2(2-3) stored by (intro exI [of _ "d1 @ d2"]) simp
qed

text \<open>Rows are given up only at the cap: as many as there are, at most, above it.\<close>

lemma drops_bounded:
  assumes "0 < cap" and "run_buffer cap b es = (b', stored)" and "hb_dropped b + cap \<le> n" and "hb_dropped b + length (held_rows b @ enqueued es) \<le> n"
  shows "hb_dropped b' + cap \<le> n \<and> hb_dropped b' + length (held_rows b') \<le> n"
  using assms(2-4)
proof (induction es arbitrary: b stored)
  case (Cons e es)
  let ?b = "fst (buffer_step cap b e)"
  obtain rows where rest: "run_buffer cap ?b es = (b', rows)"
    using Cons.prems(1) by (auto simp: Let_def split: prod.splits)
  have "hb_dropped ?b + cap \<le> n \<and> hb_dropped ?b + length (held_rows ?b @ enqueued es) \<le> n"
  proof (cases e)
    case CommitOk
    then show ?thesis using Cons.prems(2-3) by (auto simp: flushed_def held_rows_def split: option.splits)
  next
    case CommitFailed
    then show ?thesis using Cons.prems(2-3) assms(1)
      by (cases "hb_batch b") (auto simp: flush_failed_def held_rows_def slice_last_def Let_def)
  qed (use Cons.prems(2-3) in simp_all)
  then show ?case using Cons.IH [OF rest] by blast
qed simp

text \<open>C26. No row is lost without being counted, stored twice or out of turn: whatever the order of enqueues,
  ticks and answers of the database, the rows handed to the buffer are, in their order, those the
  database took or the cap dropped, then those still held; the counter is the number dropped, and
  below the cap nothing is.\<close>

theorem history_rows_accounted:
  assumes "0 < cap" and "run_buffer cap createHistoryBuffer es = (b, stored)"
  shows "(\<exists>disp. enqueued es = map fst disp @ held_rows b \<and> stored = map fst (filter snd disp)
      \<and> hb_dropped b = length (filter (\<lambda>x. \<not> snd x) disp))
    \<and> (length (enqueued es) \<le> cap \<longrightarrow> hb_dropped b = 0)"
proof (intro conjI impI)
  have new: "held_rows createHistoryBuffer = []" "hb_dropped createHistoryBuffer = 0"
    by (simp_all add: createHistoryBuffer_def held_rows_def)
  show "\<exists>disp. enqueued es = map fst disp @ held_rows b \<and> stored = map fst (filter snd disp)
      \<and> hb_dropped b = length (filter (\<lambda>x. \<not> snd x) disp)"
    using run_settles [OF assms] unfolding new by simp
  assume "length (enqueued es) \<le> cap"
  then show "hb_dropped b = 0" using drops_bounded [OF assms, of cap] unfolding new by simp
qed

text \<open>A cap of two: the first commit fails while two more rows wait, and the two oldest rows are given up.\<close>

definition outage :: "nat buffer_event list" where
  "outage = [Enqueue [1, 2], Enqueue [3, 4], CommitFailed, FlushTick, CommitOk, Enqueue [5]]"

theorem history_rows_accounted_witness:
  "\<exists>b. run_buffer 2 createHistoryBuffer outage = (b, [3, 4]) \<and> hb_dropped b = 2 \<and> held_rows b = [5]
     \<and> (\<exists>disp. enqueued outage = map fst disp @ held_rows b \<and> [3, 4] = map fst (filter snd disp))"
proof -
  have run: "run_buffer 2 createHistoryBuffer outage = (\<lparr>hb_pending = [5], hb_batch = None, hb_dropped = 2\<rparr>, [3, 4])"
    by code_simp
  show ?thesis using history_rows_accounted [OF _ run] run by (auto simp: held_rows_def)
qed

text \<open>
  The cap holds only when a commit fails. While one is under way the buffer takes any number of rows,
  and keeps them when it succeeds.
\<close>

lemma hung_commit_uncapped:
  assumes "hb_batch b = Some batch"
  shows "buffer_step cap b (Enqueue rows) = (b\<lparr>hb_pending := hb_pending b @ rows\<rparr>, [])"
  using assms by (simp add: enqueue_def)

end
