(* ===== verification/Connection_Tier.thy ===== *)
theory Connection_Tier
  imports Broker_Pool
begin

text \<open>
  \<^verbatim>\<open>apps/server/src/devices/connection-tier.ts\<close> and \<^verbatim>\<open>mqtt-tier.ts\<close>: one pass opens every connection of
  a plant on the tier of its kind, attaches the devices and lets each tier settle.

  A tier is a record of operations on a world of its own, each of which may throw: the result is the
  error, if any, and the world after the \<open>await\<close>. The object identity of a tier is its place in the
  list. Of a device row only what the pass reads is kept. The MQTT tier is that record over the
  state of \<open>Broker_Pool\<close>.
\<close>

datatype ConnectionParams = MqttConnection MqttParams | OtherConnection string

record ConnectionRecord =
  cr_id :: int
  cr_params :: ConnectionParams

definition cr_kind :: "ConnectionRecord \<Rightarrow> string" where
  "cr_kind c = (case cr_params c of MqttConnection _ \<Rightarrow> ''mqtt'' | OtherConnection k \<Rightarrow> k)"

record DeviceRecord =
  dr_slug :: string
  dr_connectionId :: "int option"
  dr_retiredAt :: "millis option"

definition isRetired :: "'a DeviceRecord_scheme \<Rightarrow> bool" where
  "isRetired d \<longleftrightarrow> dr_retiredAt d \<noteq> None"

definition activeDevices :: "'a DeviceRecord_scheme list \<Rightarrow> 'a DeviceRecord_scheme list" where
  "activeDevices ds = filter (\<lambda>d. \<not> isRetired d) ds"

record 'w ConnectionTier =
  ct_kind :: string
  ct_open :: "ConnectionRecord \<Rightarrow> 'w \<Rightarrow> string option \<times> 'w"
  ct_attach :: "ConnectionRecord \<Rightarrow> DeviceRecord \<Rightarrow> 'w \<Rightarrow> string option \<times> 'w"
  ct_settle :: "(int list \<Rightarrow> 'w \<Rightarrow> string option \<times> 'w) option"
  ct_close :: "'w \<Rightarrow> string option \<times> 'w"

record TierFailure =
  tf_connectionId :: "int option"
  tf_deviceSlug :: "string option"
  tf_error :: string

record TierEvents =
  te_unsupported :: "(int \<times> string) list"
  te_dangling :: "string list"
  te_failures :: "TierFailure list"

definition tierFor :: "'w ConnectionTier list \<Rightarrow> string \<Rightarrow> nat option" where
  "tierFor tiers kind = find (\<lambda>i. ct_kind (tiers ! i) = kind) [0..<length tiers]"

text \<open>The local variables of a pass.\<close>

record 'w pass =
  pa_events :: TierEvents
  pa_openedOn :: "(int, nat) js_map"
  pa_opened :: "nat list"
  pa_world :: 'w

definition guarded :: "int option \<Rightarrow> string option \<Rightarrow> ('w \<Rightarrow> string option \<times> 'w) \<Rightarrow> 'w pass \<Rightarrow> 'w pass" where
  "guarded connectionId deviceSlug run p = (case run (pa_world p) of (thrown, w) \<Rightarrow>
     p\<lparr>pa_world := w, pa_events := (case thrown of
        None \<Rightarrow> pa_events p
      | Some e \<Rightarrow> (pa_events p)\<lparr>te_failures := te_failures (pa_events p)
          @ [\<lparr>tf_connectionId = connectionId, tf_deviceSlug = deviceSlug, tf_error = e\<rparr>]\<rparr>)\<rparr>)"

definition open_one :: "'w ConnectionTier list \<Rightarrow> ConnectionRecord \<Rightarrow> 'w pass \<Rightarrow> 'w pass" where
  "open_one tiers c p = (case tierFor tiers (cr_kind c) of
     None \<Rightarrow> p\<lparr>pa_events := (pa_events p)\<lparr>te_unsupported := te_unsupported (pa_events p) @ [(cr_id c, cr_kind c)]\<rparr>\<rparr>
   | Some i \<Rightarrow> guarded (Some (cr_id c)) None (ct_open (tiers ! i) c)
       (p\<lparr>pa_openedOn := js_set (cr_id c) i (pa_openedOn p), pa_opened := set_add i (pa_opened p)\<rparr>))"

definition attach_one :: "'w ConnectionTier list \<Rightarrow> (int, ConnectionRecord) js_map \<Rightarrow> DeviceRecord \<Rightarrow> 'w pass \<Rightarrow> 'w pass" where
  "attach_one tiers byId d p = (case dr_connectionId d of
     None \<Rightarrow> p
   | Some cid \<Rightarrow> (case js_get byId cid of
       None \<Rightarrow> p\<lparr>pa_events := (pa_events p)\<lparr>te_dangling := te_dangling (pa_events p) @ [dr_slug d]\<rparr>\<rparr>
     | Some c \<Rightarrow> (case js_get (pa_openedOn p) (cr_id c) of
         None \<Rightarrow> p
       | Some i \<Rightarrow> guarded (Some (cr_id c)) (Some (dr_slug d)) (ct_attach (tiers ! i) c d) p)))"

definition settle_one :: "'w ConnectionTier list \<Rightarrow> nat \<Rightarrow> 'w pass \<Rightarrow> 'w pass" where
  "settle_one tiers i p =
     (let ids = map fst (filter (\<lambda>(connectionId, on). on = i) (pa_openedOn p))
      in guarded None None (case ct_settle (tiers ! i) of None \<Rightarrow> Pair None | Some settle \<Rightarrow> settle ids) p)"

definition openConnections :: "'w ConnectionTier list \<Rightarrow> ConnectionRecord list \<Rightarrow> DeviceRecord list \<Rightarrow> 'w \<Rightarrow> 'w pass" where
  "openConnections tiers connections devices w =
     (let byId = fold (\<lambda>c. js_set (cr_id c) c) connections [];
          p0 = \<lparr>pa_events = \<lparr>te_unsupported = [], te_dangling = [], te_failures = []\<rparr>, pa_openedOn = [],
                pa_opened = [], pa_world = w\<rparr>;
          p1 = fold (open_one tiers) connections p0;
          p2 = fold (attach_one tiers byId) (activeDevices devices) p1
      in fold (settle_one tiers) [0..<length tiers] p2)"

text \<open>\<open>events.close\<close>: a tier that throws ends the loop.\<close>

fun close_tiers :: "'w ConnectionTier list \<Rightarrow> nat list \<Rightarrow> 'w \<Rightarrow> string option \<times> 'w" where
  "close_tiers tiers [] w = (None, w)"
| "close_tiers tiers (i # opened) w = (case ct_close (tiers ! i) w of
     (None, w') \<Rightarrow> close_tiers tiers opened w'
   | (Some e, w') \<Rightarrow> (Some e, w'))"

subsection \<open>The calls of a pass\<close>

datatype tier_call =
    CallOpen nat ConnectionRecord
  | CallAttach nat ConnectionRecord DeviceRecord
  | CallSettle nat "int list"

definition call :: "'w ConnectionTier list \<Rightarrow> tier_call \<Rightarrow> 'w pass \<Rightarrow> 'w pass" where
  "call tiers c = (case c of
     CallOpen i cr \<Rightarrow> guarded (Some (cr_id cr)) None (ct_open (tiers ! i) cr)
   | CallAttach i cr d \<Rightarrow> guarded (Some (cr_id cr)) (Some (dr_slug d)) (ct_attach (tiers ! i) cr d)
   | CallSettle i ids \<Rightarrow> guarded None None (case ct_settle (tiers ! i) of None \<Rightarrow> Pair None | Some settle \<Rightarrow> settle ids))"

definition open_calls :: "'w ConnectionTier list \<Rightarrow> ConnectionRecord list \<Rightarrow> tier_call list" where
  "open_calls tiers connections = List.map_filter (\<lambda>c. map_option (\<lambda>i. CallOpen i c) (tierFor tiers (cr_kind c))) connections"

definition connection_of :: "ConnectionRecord list \<Rightarrow> DeviceRecord \<Rightarrow> ConnectionRecord option" where
  "connection_of connections d = (case dr_connectionId d of
     None \<Rightarrow> None | Some cid \<Rightarrow> find (\<lambda>c. cr_id c = cid) connections)"

definition attach_calls :: "'w ConnectionTier list \<Rightarrow> ConnectionRecord list \<Rightarrow> DeviceRecord list \<Rightarrow> tier_call list" where
  "attach_calls tiers connections devices = List.map_filter (\<lambda>d. if isRetired d then None else
     case connection_of connections d of
       None \<Rightarrow> None
     | Some c \<Rightarrow> map_option (\<lambda>i. CallAttach i c d) (tierFor tiers (cr_kind c))) devices"

definition settle_calls :: "'w ConnectionTier list \<Rightarrow> ConnectionRecord list \<Rightarrow> tier_call list" where
  "settle_calls tiers connections = map (\<lambda>i. CallSettle i
     (map cr_id (filter (\<lambda>c. tierFor tiers (cr_kind c) = Some i) connections))) [0..<length tiers]"

definition start_pass :: "'w \<Rightarrow> 'w pass" where
  "start_pass w = \<lparr>pa_events = \<lparr>te_unsupported = [], te_dangling = [], te_failures = []\<rparr>, pa_openedOn = [],
     pa_opened = [], pa_world = w\<rparr>"

text \<open>What is left of a pass when the bookkeeping is dropped: the world and the failures.\<close>

definition outcome :: "'w pass \<Rightarrow> TierFailure list \<times> 'w" where
  "outcome p = (te_failures (pa_events p), pa_world p)"

definition run_calls :: "'w ConnectionTier list \<Rightarrow> tier_call list \<Rightarrow> 'w pass \<Rightarrow> 'w pass" where
  "run_calls tiers cs p = fold (call tiers) cs p"

lemma guarded_outcome:
  "outcome p = outcome q \<Longrightarrow> outcome (guarded a b run p) = outcome (guarded a b run q)"
  by (auto simp: outcome_def guarded_def split: prod.split option.split)

lemma guarded_call_frame [simp]:
  "pa_openedOn (guarded a b run p) = pa_openedOn p" "pa_opened (guarded a b run p) = pa_opened p"
  "te_unsupported (pa_events (guarded a b run p)) = te_unsupported (pa_events p)"
  "te_dangling (pa_events (guarded a b run p)) = te_dangling (pa_events p)"
  by (simp_all add: guarded_def split: prod.split option.split)

lemma run_calls_outcome: "outcome p = outcome q \<Longrightarrow> outcome (run_calls tiers cs p) = outcome (run_calls tiers cs q)"
proof (induction cs arbitrary: p q)
  case (Cons c cs)
  have "outcome (call tiers c p) = outcome (call tiers c q)"
    unfolding call_def using Cons.prems by (auto split: tier_call.split intro: guarded_outcome)
  from Cons.IH [OF this] show ?case by (simp add: run_calls_def)
qed (simp add: run_calls_def)


lemma run_calls_simps [simp]:
  "run_calls tiers [] p = p" "run_calls tiers (c # cs) p = run_calls tiers cs (call tiers c p)"
  "run_calls tiers (cs @ ds) p = run_calls tiers ds (run_calls tiers cs p)"
  by (simp_all add: run_calls_def)

lemma js_set_append: "k \<notin> fst ` set m \<Longrightarrow> js_set k v m = m @ [(k, v)]"
  by (induction m) auto

definition opened_on :: "'w ConnectionTier list \<Rightarrow> ConnectionRecord list \<Rightarrow> (int \<times> nat) list" where
  "opened_on tiers connections = List.map_filter (\<lambda>c. map_option (Pair (cr_id c)) (tierFor tiers (cr_kind c))) connections"

lemma open_loop:
  assumes "distinct (map cr_id connections)" and "\<forall>c\<in>set connections. cr_id c \<notin> fst ` set (pa_openedOn p)"
  shows "outcome (fold (open_one tiers) connections p) = outcome (run_calls tiers (open_calls tiers connections) p)
    \<and> pa_openedOn (fold (open_one tiers) connections p) = pa_openedOn p @ opened_on tiers connections
    \<and> te_dangling (pa_events (fold (open_one tiers) connections p)) = te_dangling (pa_events p)
    \<and> te_unsupported (pa_events (fold (open_one tiers) connections p)) = te_unsupported (pa_events p)
      @ map (\<lambda>c. (cr_id c, cr_kind c)) (filter (\<lambda>c. tierFor tiers (cr_kind c) = None) connections)"
  using assms
proof (induction connections arbitrary: p)
  case (Cons c cs)
  let ?p = "open_one tiers c p"
  have new: "cr_id c \<notin> fst ` set (pa_openedOn p)" using Cons.prems(2) by simp
  have one: "outcome ?p = outcome (run_calls tiers (open_calls tiers [c]) p)" "pa_openedOn ?p = pa_openedOn p @ opened_on tiers [c]"
    "te_dangling (pa_events ?p) = te_dangling (pa_events p)"
    "te_unsupported (pa_events ?p) = te_unsupported (pa_events p) @ (if tierFor tiers (cr_kind c) = None then [(cr_id c, cr_kind c)] else [])"
  proof (cases "tierFor tiers (cr_kind c)")
    case (Some i)
    let ?q = "p\<lparr>pa_openedOn := js_set (cr_id c) i (pa_openedOn p), pa_opened := set_add i (pa_opened p)\<rparr>"
    have "outcome ?q = outcome p" by (simp add: outcome_def)
    from guarded_outcome [OF this] show "outcome ?p = outcome (run_calls tiers (open_calls tiers [c]) p)"
      using Some by (simp add: open_one_def open_calls_def call_def map_filter_simps)
  qed (use new in \<open>auto simp: open_one_def open_calls_def opened_on_def outcome_def map_filter_simps js_set_append split: option.split\<close>)
  have other: "c' \<in> set cs \<Longrightarrow> cr_id c' \<noteq> cr_id c" for c' using Cons.prems(1) by (metis distinct.simps(2) image_eqI list.set_map list.simps(9))
  have rest: "distinct (map cr_id cs)" "\<forall>c'\<in>set cs. cr_id c' \<notin> fst ` set (pa_openedOn ?p)"
    using Cons.prems other unfolding one(2) by (auto simp: opened_on_def map_filter_simps split: option.splits)
  have split: "open_calls tiers (c # cs) = open_calls tiers [c] @ open_calls tiers cs" "opened_on tiers (c # cs) = opened_on tiers [c] @ opened_on tiers cs"
    by (simp_all add: open_calls_def opened_on_def map_filter_simps split: option.split)
  show ?case using Cons.IH [OF rest] run_calls_outcome [OF one(1)] one(2-4) unfolding split by simp
qed (simp add: open_calls_def opened_on_def map_filter_simps)

lemma opened_on_get:
  assumes "distinct (map cr_id connections)" and "c \<in> set connections"
  shows "js_get (opened_on tiers connections) (cr_id c) = tierFor tiers (cr_kind c)"
  using assms
proof (induction connections)
  case (Cons x cs)
  have absent: "js_get (opened_on tiers cs) k = None" if "k \<notin> cr_id ` set cs" for k
    using that by (auto simp: opened_on_def map_of_eq_None_iff set_map_filter)
  show ?case
  proof (cases "c = x")
    case True
    then show ?thesis using Cons.prems absent [of "cr_id x"]
      by (auto simp: opened_on_def map_filter_simps split: option.split)
  next
    case False
    then have "js_get (opened_on tiers cs) (cr_id c) = tierFor tiers (cr_kind c)" using Cons by auto
    moreover have "cr_id c \<noteq> cr_id x" using False Cons.prems by (metis distinct.simps(2) image_eqI list.set_map list.simps(9) set_ConsD)
    ultimately show ?thesis by (auto simp: opened_on_def map_filter_simps split: option.split)
  qed
qed simp

lemma by_id:
  assumes "distinct (map cr_id connections)"
  shows "js_get (fold (\<lambda>c. js_set (cr_id c) c) connections []) k = find (\<lambda>c. cr_id c = k) connections"
proof -
  have "js_get (fold (\<lambda>c. js_set (cr_id c) c) connections m) k
      = (case find (\<lambda>c. cr_id c = k) connections of Some c \<Rightarrow> Some c | None \<Rightarrow> js_get m k)" for m
    using assms
  proof (induction connections arbitrary: m)
    case (Cons c cs)
    have "cr_id c = k \<Longrightarrow> find (\<lambda>c. cr_id c = k) cs = None"
      using Cons.prems unfolding find_None_iff by (metis distinct.simps(2) image_eqI list.set_map list.simps(9))
    then show ?case using Cons by (auto split: option.split)
  qed simp
  from this [of "[]"] show ?thesis by (simp split: option.split)
qed

lemma attach_loop:
  assumes "distinct (map cr_id connections)" and "pa_openedOn p = opened_on tiers connections"
  shows "outcome (fold (attach_one tiers (fold (\<lambda>c. js_set (cr_id c) c) connections [])) (activeDevices devices) p)
      = outcome (run_calls tiers (attach_calls tiers connections devices) p)
    \<and> pa_openedOn (fold (attach_one tiers (fold (\<lambda>c. js_set (cr_id c) c) connections [])) (activeDevices devices) p) = opened_on tiers connections
    \<and> te_unsupported (pa_events (fold (attach_one tiers (fold (\<lambda>c. js_set (cr_id c) c) connections [])) (activeDevices devices) p))
      = te_unsupported (pa_events p)
    \<and> te_dangling (pa_events (fold (attach_one tiers (fold (\<lambda>c. js_set (cr_id c) c) connections [])) (activeDevices devices) p))
      = te_dangling (pa_events p) @ map dr_slug (filter (\<lambda>d. \<not> isRetired d \<and> dr_connectionId d \<noteq> None
          \<and> connection_of connections d = None) devices)"
  using assms(2)
proof (induction devices arbitrary: p)
  case (Cons d ds)
  show ?case
  proof (cases "isRetired d")
    case True
    then show ?thesis using Cons by (simp add: activeDevices_def attach_calls_def map_filter_simps)
  next
    case False
    let ?p = "attach_one tiers (fold (\<lambda>c. js_set (cr_id c) c) connections []) d p"
    have found: "js_get (opened_on tiers connections) (cr_id c) = tierFor tiers (cr_kind c)"
      if "find (\<lambda>c. cr_id c = k) connections = Some c" for k c
      using that opened_on_get [OF assms(1), of c tiers] nth_mem unfolding find_Some_iff by metis
    have one: "outcome ?p = outcome (run_calls tiers (attach_calls tiers connections [d]) p)" "pa_openedOn ?p = opened_on tiers connections"
      "te_unsupported (pa_events ?p) = te_unsupported (pa_events p)"
      "te_dangling (pa_events ?p) = te_dangling (pa_events p)
        @ (if dr_connectionId d \<noteq> None \<and> connection_of connections d = None then [dr_slug d] else [])"
      using False Cons.prems
      by (auto simp: attach_one_def attach_calls_def connection_of_def by_id [OF assms(1)] call_def map_filter_simps outcome_def found
          split: option.splits)
    have split: "attach_calls tiers connections (d # ds) = attach_calls tiers connections [d] @ attach_calls tiers connections ds"
      by (simp add: attach_calls_def map_filter_simps split: option.split)
    show ?thesis using Cons.IH [OF one(2)] one run_calls_outcome [OF one(1)] False unfolding split
      by (simp add: activeDevices_def)
  qed
qed (simp add: activeDevices_def attach_calls_def map_filter_simps)

lemma settle_loop:
  assumes "pa_openedOn p = opened_on tiers connections"
  shows "outcome (fold (settle_one tiers) is p) = outcome (run_calls tiers (map (\<lambda>i. CallSettle i
      (map cr_id (filter (\<lambda>c. tierFor tiers (cr_kind c) = Some i) connections))) is) p)
    \<and> te_unsupported (pa_events (fold (settle_one tiers) is p)) = te_unsupported (pa_events p)
    \<and> te_dangling (pa_events (fold (settle_one tiers) is p)) = te_dangling (pa_events p)"
  using assms
proof (induction "is" arbitrary: p)
  case (Cons i "is")
  have ids: "map fst (filter (\<lambda>(connectionId, on). on = i) (opened_on tiers cs))
      = map cr_id (filter (\<lambda>c. tierFor tiers (cr_kind c) = Some i) cs)" for cs
    by (induction cs) (auto simp: opened_on_def map_filter_simps split: option.split)
  have one: "settle_one tiers i p = call tiers (CallSettle i (map cr_id (filter (\<lambda>c. tierFor tiers (cr_kind c) = Some i) connections))) p"
    unfolding settle_one_def call_def Let_def Cons.prems ids by simp
  have "pa_openedOn (settle_one tiers i p) = opened_on tiers connections" using Cons.prems by (simp add: settle_one_def Let_def)
  from Cons.IH [OF this] show ?case by (simp add: one) (simp add: call_def)
qed simp

lemma pass_calls:
  assumes "distinct (map cr_id connections)"
  shows "outcome (openConnections tiers connections devices w)
      = outcome (run_calls tiers (open_calls tiers connections @ attach_calls tiers connections devices @ settle_calls tiers connections)
          (start_pass w))
    \<and> te_unsupported (pa_events (openConnections tiers connections devices w))
      = map (\<lambda>c. (cr_id c, cr_kind c)) (filter (\<lambda>c. tierFor tiers (cr_kind c) = None) connections)
    \<and> te_dangling (pa_events (openConnections tiers connections devices w))
      = map dr_slug (filter (\<lambda>d. \<not> isRetired d \<and> dr_connectionId d \<noteq> None \<and> connection_of connections d = None) devices)"
proof -
  let ?p0 = "start_pass w"
  let ?p1 = "fold (open_one tiers) connections ?p0"
  let ?p2 = "fold (attach_one tiers (fold (\<lambda>c. js_set (cr_id c) c) connections [])) (activeDevices devices) ?p1"
  have eq: "openConnections tiers connections devices w = fold (settle_one tiers) [0..<length tiers] ?p2"
    unfolding openConnections_def start_pass_def Let_def ..
  have "\<forall>c\<in>set connections. cr_id c \<notin> fst ` set (pa_openedOn ?p0)" by (simp add: start_pass_def)
  note o = open_loop [OF assms this]
  have on: "pa_openedOn ?p1 = opened_on tiers connections" using o by (simp add: start_pass_def)
  note a = attach_loop [OF assms on, of devices]
  note s = settle_loop [OF a [THEN conjunct2, THEN conjunct1], of "[0..<length tiers]"]
  have "outcome ?p2 = outcome (run_calls tiers (attach_calls tiers connections devices) (run_calls tiers (open_calls tiers connections) ?p0))"
    using a run_calls_outcome [OF o [THEN conjunct1]] by simp
  from run_calls_outcome [OF this] show ?thesis
    unfolding eq settle_calls_def using o a s by (simp add: start_pass_def)
qed

text \<open>
  The pass as it should be, written without its code: a list of calls to make, each made on what the
  ones before it left, whatever they answered, and the errors of those that threw in order.
\<close>

primrec answer :: "'w ConnectionTier list \<Rightarrow> tier_call \<Rightarrow> 'w \<Rightarrow> string option \<times> 'w" where
  "answer tiers (CallOpen i c) = ct_open (tiers ! i) c"
| "answer tiers (CallAttach i c d) = ct_attach (tiers ! i) c d"
| "answer tiers (CallSettle i ids) = (case ct_settle (tiers ! i) of None \<Rightarrow> Pair None | Some settle \<Rightarrow> settle ids)"

primrec failure_of :: "tier_call \<Rightarrow> string \<Rightarrow> TierFailure" where
  "failure_of (CallOpen i c) e = \<lparr>tf_connectionId = Some (cr_id c), tf_deviceSlug = None, tf_error = e\<rparr>"
| "failure_of (CallAttach i c d) e = \<lparr>tf_connectionId = Some (cr_id c), tf_deviceSlug = Some (dr_slug d), tf_error = e\<rparr>"
| "failure_of (CallSettle i ids) e = \<lparr>tf_connectionId = None, tf_deviceSlug = None, tf_error = e\<rparr>"

fun do_calls :: "'w ConnectionTier list \<Rightarrow> tier_call list \<Rightarrow> 'w \<Rightarrow> TierFailure list \<times> 'w" where
  "do_calls tiers [] w = ([], w)"
| "do_calls tiers (c # cs) w =
     (let (thrown, w1) = answer tiers c w; (failures, w2) = do_calls tiers cs w1
      in ((case thrown of None \<Rightarrow> [] | Some e \<Rightarrow> [failure_of c e]) @ failures, w2))"

primrec first_tier :: "'w ConnectionTier list \<Rightarrow> string \<Rightarrow> nat option" where
  "first_tier [] kind = None"
| "first_tier (t # ts) kind = (if ct_kind t = kind then Some 0 else map_option Suc (first_tier ts kind))"

definition pass_plan :: "'w ConnectionTier list \<Rightarrow> ConnectionRecord list \<Rightarrow> DeviceRecord list \<Rightarrow> tier_call list" where
  "pass_plan tiers connections devices =
     [CallOpen i c. c \<leftarrow> connections, Some i \<leftarrow> [first_tier tiers (cr_kind c)]]
     @ [CallAttach i c d. d \<leftarrow> devices, dr_retiredAt d = None, c \<leftarrow> connections, dr_connectionId d = Some (cr_id c),
          Some i \<leftarrow> [first_tier tiers (cr_kind c)]]
     @ [CallSettle i [cr_id c. c \<leftarrow> connections, first_tier tiers (cr_kind c) = Some i]. i \<leftarrow> [0..<length tiers]]"

lemma find_shift: "find P (map Suc xs) = map_option Suc (find (\<lambda>i. P (Suc i)) xs)"
  by (induction xs) auto

lemma first_tier_is_tierFor: "first_tier tiers kind = tierFor tiers kind"
proof (induction tiers)
  case (Cons t ts)
  have "[0..<length (t # ts)] = 0 # map Suc [0..<length ts]" by (simp add: map_Suc_upt upt_conv_Cons del: upt_Suc)
  then show ?case unfolding tierFor_def by (simp add: find_shift Cons tierFor_def del: upt_Suc)
qed (simp add: tierFor_def)

lemma plan_open: "[CallOpen i c. c \<leftarrow> connections, Some i \<leftarrow> [first_tier tiers (cr_kind c)]] = open_calls tiers connections"
  unfolding first_tier_is_tierFor open_calls_def
  by (induction connections) (auto simp: map_filter_simps split: option.split)

lemma concat_unique:
  assumes "distinct (map k xs)"
  shows "concat (map (\<lambda>c. if key = Some (k c) then g c else []) xs)
    = (case key of None \<Rightarrow> [] | Some x \<Rightarrow> (case find (\<lambda>c. k c = x) xs of None \<Rightarrow> [] | Some c \<Rightarrow> g c))"
proof (cases key)
  case (Some x)
  have none: "x \<notin> k ` set xs \<Longrightarrow> concat (map (\<lambda>c. if key = Some (k c) then g c else []) xs) = []" for xs
    unfolding Some by (induction xs) auto
  from assms have "concat (map (\<lambda>c. if key = Some (k c) then g c else []) xs) = (case find (\<lambda>c. k c = x) xs of None \<Rightarrow> [] | Some c \<Rightarrow> g c)"
  proof (induction xs)
    case (Cons c cs)
    show ?case
    proof (cases "k c = x")
      case True
      then have "x \<notin> k ` set cs" using Cons.prems by auto
      from none [OF this] show ?thesis using True by (simp add: Some)
    next
      case False
      then show ?thesis using Cons by (simp add: Some)
    qed
  qed simp
  then show ?thesis by (simp add: Some)
qed simp

lemma plan_attach_row:
  assumes "distinct (map cr_id connections)"
  shows "[CallAttach i c d. c \<leftarrow> connections, dr_connectionId d = Some (cr_id c), Some i \<leftarrow> [tierFor tiers (cr_kind c)]]
    = (case connection_of connections d of None \<Rightarrow> []
       | Some c \<Rightarrow> (case tierFor tiers (cr_kind c) of None \<Rightarrow> [] | Some i \<Rightarrow> [CallAttach i c d]))"
  unfolding connection_of_def
  by (subst concat_unique [OF assms]) (auto split: option.split)

lemma plan_attach:
  assumes "distinct (map cr_id connections)"
  shows "[CallAttach i c d. d \<leftarrow> devices, dr_retiredAt d = None, c \<leftarrow> connections, dr_connectionId d = Some (cr_id c),
      Some i \<leftarrow> [first_tier tiers (cr_kind c)]] = attach_calls tiers connections devices"
  unfolding first_tier_is_tierFor attach_calls_def plan_attach_row [OF assms] isRetired_def
proof (induction devices)
  case (Cons d ds)
  show ?case unfolding list.map concat.simps map_filter_simps Cons.IH by (simp split: option.split)
qed (simp add: map_filter_simps)

lemma plan_settle: "[CallSettle i [cr_id c. c \<leftarrow> connections, first_tier tiers (cr_kind c) = Some i]. i \<leftarrow> [0..<length tiers]]
    = settle_calls tiers connections"
proof -
  have "[cr_id c. c \<leftarrow> connections, first_tier tiers (cr_kind c) = Some i]
      = map cr_id (filter (\<lambda>c. tierFor tiers (cr_kind c) = Some i) connections)" for i
    unfolding first_tier_is_tierFor by (induction connections) auto
  then show ?thesis unfolding settle_calls_def by simp
qed

lemma call_outcome:
  "outcome (call tiers c p) = (case answer tiers c (pa_world p) of (thrown, w) \<Rightarrow>
     (te_failures (pa_events p) @ (case thrown of None \<Rightarrow> [] | Some e \<Rightarrow> [failure_of c e]), w))"
  by (cases c) (auto simp: call_def guarded_def outcome_def split: prod.split option.split)

lemma run_calls_do: "outcome (run_calls tiers cs p)
    = (te_failures (pa_events p) @ fst (do_calls tiers cs (pa_world p)), snd (do_calls tiers cs (pa_world p)))"
proof (induction cs arbitrary: p)
  case Nil
  then show ?case by (simp add: outcome_def)
next
  case (Cons c cs)
  obtain thrown w1 where c: "answer tiers c (pa_world p) = (thrown, w1)" by force
  then have "te_failures (pa_events (call tiers c p)) = te_failures (pa_events p) @ (case thrown of None \<Rightarrow> [] | Some e \<Rightarrow> [failure_of c e])"
    "pa_world (call tiers c p) = w1"
    using call_outcome [of tiers c p] by (simp_all add: outcome_def)
  then show ?case using Cons [of "call tiers c p"] c by (simp add: case_prod_beta)
qed

lemma pass_does:
  assumes "distinct (map cr_id connections)"
  shows "outcome (openConnections tiers connections devices w) = do_calls tiers (pass_plan tiers connections devices) w"
  using pass_calls [OF assms, of tiers devices w, THEN conjunct1]
  unfolding pass_plan_def plan_open plan_attach [OF assms] plan_settle run_calls_do by (simp add: start_pass_def)

text \<open>C27. One failure does not stop a pass, and the order is the contract: every connection some tier is for is
  opened on the first such tier, in order, before any device is attached; then every device in
  service whose connection exists and is supported is attached to the tier that opened it; then
  every tier settles with what was opened on it. Each call is made once, on what the ones before it
  left, whichever of them throw, and the failures reported are exactly the throws, in order, with
  the connection and device they were for. What no tier is for and the devices whose connection is
  missing are reported. The rows' ids are assumed to be distinct, as a primary key is.\<close>

theorem pass_makes_every_call:
  assumes "distinct (map cr_id connections)"
  shows "outcome (openConnections tiers connections devices w) = do_calls tiers (pass_plan tiers connections devices) w
    \<and> te_unsupported (pa_events (openConnections tiers connections devices w))
      = [(cr_id c, cr_kind c). c \<leftarrow> connections, first_tier tiers (cr_kind c) = None]
    \<and> te_dangling (pa_events (openConnections tiers connections devices w))
      = [dr_slug d. d \<leftarrow> devices, dr_retiredAt d = None, Some k \<leftarrow> [dr_connectionId d], k \<notin> cr_id ` set connections]"
proof (intro conjI)
  note p = pass_calls [OF assms, of tiers devices w]
  show "outcome (openConnections tiers connections devices w) = do_calls tiers (pass_plan tiers connections devices) w"
    by (rule pass_does [OF assms])
  have "map (\<lambda>c. (cr_id c, cr_kind c)) (filter (\<lambda>c. tierFor tiers (cr_kind c) = None) connections)
      = [(cr_id c, cr_kind c). c \<leftarrow> connections, first_tier tiers (cr_kind c) = None]"
    unfolding first_tier_is_tierFor by (induction connections) auto
  then show "te_unsupported (pa_events (openConnections tiers connections devices w))
      = [(cr_id c, cr_kind c). c \<leftarrow> connections, first_tier tiers (cr_kind c) = None]" using p by simp
  have "connection_of connections d = None \<longleftrightarrow> (case dr_connectionId d of None \<Rightarrow> True | Some k \<Rightarrow> k \<notin> cr_id ` set connections)" for d
    unfolding connection_of_def by (auto simp: find_None_iff split: option.split)
  then have "map dr_slug (filter (\<lambda>d. \<not> isRetired d \<and> dr_connectionId d \<noteq> None \<and> connection_of connections d = None) devices)
      = [dr_slug d. d \<leftarrow> devices, dr_retiredAt d = None, Some k \<leftarrow> [dr_connectionId d], k \<notin> cr_id ` set connections]"
    by (induction devices) (auto simp: isRetired_def split: option.split)
  then show "te_dangling (pa_events (openConnections tiers connections devices w))
      = [dr_slug d. d \<leftarrow> devices, dr_retiredAt d = None, Some k \<leftarrow> [dr_connectionId d], k \<notin> cr_id ` set connections]"
    using p by simp
qed


subsection \<open>The MQTT tier\<close>

text \<open>
  The world of the MQTT tier is its map of links and the pool. Wherever the pass awaits, the rest of
  the process may run: \<open>fate n\<close> is what happens to the pool during the \<open>n\<close>th await, and whether a
  released link's \<open>end\<close> rejects. A link is an object only the tier holds, so nobody else releases
  it, and nobody closes the pool while passes run.
\<close>

record mqtt_world =
  mw_links :: "(int, holder) js_map"
  mw_pool :: pool
  mw_effects :: "effect list"
  mw_awaits :: nat

type_synonym fate = "nat \<Rightarrow> event list \<times> string option"

definition foreign :: "(int, holder) js_map \<Rightarrow> event \<Rightarrow> bool" where
  "foreign links ev = (case ev of Release h \<Rightarrow> h \<notin> snd ` set links | ClosePool \<Rightarrow> False | _ \<Rightarrow> True)"

definition pool_call :: "event \<Rightarrow> mqtt_world \<Rightarrow> mqtt_world" where
  "pool_call ev w = (case step (mw_pool w) ev of (s, es) \<Rightarrow> w\<lparr>mw_pool := s, mw_effects := mw_effects w @ es\<rparr>)"

definition await :: "fate \<Rightarrow> mqtt_world \<Rightarrow> string option \<times> mqtt_world" where
  "await fate w = (case fate (mw_awaits w) of (evs, rejected) \<Rightarrow>
     (rejected, fold pool_call (filter (foreign (mw_links w)) evs) (w\<lparr>mw_awaits := mw_awaits w + 1\<rparr>)))"

definition acquire_link :: "int \<Rightarrow> MqttParams \<Rightarrow> mqtt_world \<Rightarrow> mqtt_world" where
  "acquire_link connectionId params w = (let w' = pool_call (Acquire connectionId params None) w
     in w'\<lparr>mw_links := js_set connectionId (po_fresh (mw_pool w') - 1) (mw_links w')\<rparr>)"

definition mqtt_open :: "fate \<Rightarrow> ConnectionRecord \<Rightarrow> mqtt_world \<Rightarrow> string option \<times> mqtt_world" where
  "mqtt_open fate c w = (case cr_params c of
     OtherConnection _ \<Rightarrow> (None, snd (await fate w))
   | MqttConnection params \<Rightarrow> (case js_get (mw_links w) (cr_id c) of
       Some h \<Rightarrow> (None, snd (await fate (pool_call (Update h params None) w)))
     | None \<Rightarrow> (None, snd (await fate (acquire_link (cr_id c) params w)))))"

definition mqtt_attach :: "fate \<Rightarrow> ConnectionRecord \<Rightarrow> DeviceRecord \<Rightarrow> mqtt_world \<Rightarrow> string option \<times> mqtt_world" where
  "mqtt_attach fate c d w = (None, snd (await fate w))"

definition releaseLink :: "fate \<Rightarrow> int \<Rightarrow> mqtt_world \<Rightarrow> string option \<times> mqtt_world" where
  "releaseLink fate connectionId w = (case js_get (mw_links w) connectionId of
     None \<Rightarrow> (None, w)
   | Some h \<Rightarrow> await fate (pool_call (Release h) (w\<lparr>mw_links := js_delete connectionId (mw_links w)\<rparr>)))"

fun release_links :: "fate \<Rightarrow> int list \<Rightarrow> mqtt_world \<Rightarrow> string option \<times> mqtt_world" where
  "release_links fate [] w = (None, w)"
| "release_links fate (i # is) w = (case releaseLink fate i w of
     (None, w') \<Rightarrow> release_links fate is w'
   | (Some e, w') \<Rightarrow> (Some e, w'))"

definition mqtt_settle :: "fate \<Rightarrow> int list \<Rightarrow> mqtt_world \<Rightarrow> string option \<times> mqtt_world" where
  "mqtt_settle fate openedConnectionIds w =
     release_links fate (filter (\<lambda>i. i \<notin> set openedConnectionIds) (map fst (mw_links w))) w"

definition mqtt_close :: "fate \<Rightarrow> mqtt_world \<Rightarrow> string option \<times> mqtt_world" where
  "mqtt_close fate w = release_links fate (map fst (mw_links w)) w"

definition createMqttTier :: "fate \<Rightarrow> mqtt_world ConnectionTier" where
  "createMqttTier fate = \<lparr>ct_kind = ''mqtt'', ct_open = mqtt_open fate, ct_attach = mqtt_attach fate,
     ct_settle = Some (mqtt_settle fate), ct_close = mqtt_close fate\<rparr>"

definition reloadConnections :: "fate \<Rightarrow> ConnectionRecord list \<Rightarrow> DeviceRecord list \<Rightarrow> mqtt_world \<Rightarrow> mqtt_world pass" where
  "reloadConnections fate connections devices w = openConnections [createMqttTier fate] connections devices w"

definition connectionStatus :: "mqtt_world \<Rightarrow> int option \<Rightarrow> ConnectionStatus option" where
  "connectionStatus w connectionId = (case connectionId of None \<Rightarrow> None | Some i \<Rightarrow> pool_status (mw_pool w) i)"

definition stopConnections :: "fate \<Rightarrow> mqtt_world \<Rightarrow> string option \<times> mqtt_world" where
  "stopConnections fate w = mqtt_close fate w"

subsection \<open>What the tier holds\<close>

definition held_by :: "pool \<Rightarrow> int \<Rightarrow> holder \<Rightarrow> bool" where
  "held_by s i h \<longleftrightarrow> (\<exists>r. js_get (po_entries s) i = Some r \<and> h \<in> set (en_holders (entry_at s r)) \<and> live_holder s r h)"

definition not_closing :: "pool \<Rightarrow> bool" where
  "not_closing s \<longleftrightarrow> (\<forall>k es. po_waits s k = Some (CloseCont es) \<longrightarrow> es = [])"

lemma waits_frame:
  "not_closing s \<Longrightarrow> not_closing (fst (dial connId r s))"
  "not_closing s \<Longrightarrow> not_closing (fst (scheduleRetry connId r s))"
  "not_closing s \<Longrightarrow> (\<And>es. k = CloseCont es \<Longrightarrow> es = []) \<Longrightarrow> not_closing (fst (discard r k s))"
  "not_closing s \<Longrightarrow> not_closing (fst (redial connId r s))"
  "not_closing s \<Longrightarrow> not_closing (fst (redial_resumed connId r s))"
  "not_closing s \<Longrightarrow> not_closing (fst (closeEntry connId r (CloseCont []) s))"
  "not_closing s \<Longrightarrow> not_closing (fst (reopen connId r params will s))"
  unfolding action_defs Let_def not_closing_def by (auto split: prod.split)

lemma held_by_frame:
  assumes "held_by s i h" and "\<And>r. js_get (po_entries s) i = Some r \<Longrightarrow> js_get (po_entries s') i = Some r"
    and "\<And>r. h \<in> set (en_holders (entry_at s r)) \<Longrightarrow> h \<in> set (en_holders (entry_at s' r))" and "po_links s' h = po_links s h"
  shows "held_by s' i h"
  using assms unfolding held_by_def live_holder_def by fastforce


lemma add_holder_frame:
  "po_entries (fst (add_holder a s)) = po_entries s" "po_waits (fst (add_holder a s)) = po_waits s"
  "h \<in> set (en_holders (entry_at s r)) \<Longrightarrow> h \<in> set (en_holders (entry_at (fst (add_holder a s)) r))"
  "h < po_fresh s \<Longrightarrow> po_links (fst (add_holder a s)) h = po_links s h"
  by (auto simp: add_holder_def Let_def split: option.split)

lemma held_by_bounds: "registry_ok s \<Longrightarrow> held_by s i h \<Longrightarrow> h < po_fresh s"
  unfolding registry_ok_def held_by_def live_holder_def by (auto split: option.splits)

lemma held_acquire:
  assumes ok: "registry_ok s" and held: "held_by s i h" and calm: "not_closing s"
  shows "held_by (fst (acquire a params will s)) i h" and "not_closing (fst (acquire a params will s))"
proof -
  define s1 where "s1 = fst (case js_get (po_entries s) a of None \<Rightarrow> open_entry a params will s | Some r \<Rightarrow> reopen a r params will s)"
  have eq: "fst (acquire a params will s) = fst (add_holder a s1)" unfolding acquire_def s1_def by (simp add: fst_andThen)
  have 1: "held_by s1 i h \<and> not_closing s1 \<and> po_fresh s \<le> po_fresh s1"
  proof (cases "js_get (po_entries s) a")
    case None
    obtain r where r: "js_get (po_entries s) i = Some r" using held unfolding held_by_def by blast
    then have ne: "i \<noteq> a" "r \<noteq> po_fresh s" using None ok unfolding registry_ok_def by auto
    have s1: "s1 = fst (open_entry a params will s)" unfolding s1_def None by simp
    have "po_entries s1 = js_set a (po_fresh s) (po_entries s)" "po_links s1 = po_links s" "po_waits s1 = po_waits s"
      "po_fresh s1 = po_fresh s + 2" "q \<noteq> po_fresh s \<Longrightarrow> entry_at s1 q = entry_at s q" for q
      unfolding s1 open_entry_def dial_def by (simp_all add: Let_def)
    then show ?thesis using held calm r ne unfolding held_by_def live_holder_def not_closing_def by auto
  next
    case (Some q)
    have s1: "s1 = fst (reopen a q params will s)" unfolding s1_def Some by simp
    show ?thesis unfolding s1 using held calm
      by (auto intro: held_by_frame waits_frame fresh_frame simp: entries_frame holders_frame links_frame)
  qed
  have bound: "h < po_fresh s1" using held_by_bounds [OF ok held] 1 by simp
  show "held_by (fst (acquire a params will s)) i h" unfolding eq
    by (rule held_by_frame [OF 1 [THEN conjunct1]]) (simp_all add: add_holder_frame bound)
  show "not_closing (fst (acquire a params will s))" using 1 unfolding eq not_closing_def add_holder_frame by simp
qed

lemma held_release:
  assumes ok: "registry_ok s" and held: "held_by s i h" and calm: "not_closing s" and other: "g \<noteq> h"
  shows "held_by (fst (link_release g s)) i h" and "not_closing (fst (link_release g s))"
proof -
  obtain r where r: "js_get (po_entries s) i = Some r" "h \<in> set (en_holders (entry_at s r))" "live_holder s r h"
    using held unfolding held_by_def by blast
  have "held_by (fst (link_release g s)) i h \<and> not_closing (fst (link_release g s))"
  proof (cases "\<exists>l. po_links s g = Some l \<and> \<not> li_released l")
    case False
    then show ?thesis using held calm unfolding link_release_def by (auto split: option.split)
  next
    case True
    then obtain l where l: "po_links s g = Some l" "\<not> li_released l" by blast
    define s1 where "s1 = put_entry (li_held l) ((entry_at s (li_held l))\<lparr>en_holders := removeAll g (en_holders (entry_at s (li_held l)))\<rparr>)
      (s\<lparr>po_links := (po_links s)(g := Some (l\<lparr>li_released := True\<rparr>))\<rparr>)"
    have s1: "held_by s1 i h" "not_closing s1"
      using r other calm unfolding s1_def held_by_def live_holder_def not_closing_def by auto
    have keep: "removeAll g (en_holders (entry_at s (li_held l))) \<noteq> []" if "li_held l = r"
      using r(2) other unfolding that by (auto simp: removeAll_filter_not_eq filter_empty_conv)
    have row: "li_connectionId l = i \<Longrightarrow> js_get (po_entries s) (li_connectionId l) = Some (li_held l) \<Longrightarrow> li_held l = r" using r(1) by simp
    have eq: "fst (link_release g s) = (if removeAll g (en_holders (entry_at s (li_held l))) = []
        \<and> js_get (po_entries s) (li_connectionId l) = Some (li_held l)
      then fst (closeEntry (li_connectionId l) (li_held l) (CloseCont []) s1) else s1)"
      unfolding link_release_def l(1) s1_def using l(2) by (simp add: Let_def)
    show ?thesis
    proof (cases "removeAll g (en_holders (entry_at s (li_held l))) = [] \<and> js_get (po_entries s) (li_connectionId l) = Some (li_held l)")
      case True
      then have "li_connectionId l \<noteq> i" using keep row by blast
      then have "held_by (fst (closeEntry (li_connectionId l) (li_held l) (CloseCont []) s1)) i h"
        by (intro held_by_frame [OF s1(1)]) (simp_all add: entries_frame holders_frame links_frame)
      then show ?thesis unfolding eq using True waits_frame(6) [OF s1(2)] by simp
    next
      case False
      then show ?thesis unfolding eq if_not_P [OF False] using s1 by simp
    qed
  qed
  then show "held_by (fst (link_release g s)) i h" "not_closing (fst (link_release g s))" by simp_all
qed

lemma held_by_put:
  assumes "held_by s i h" and "en_holders e = en_holders (entry_at s r)"
  shows "held_by (put_entry r e s) i h"
  using assms unfolding held_by_def live_holder_def by auto

lemma held_resumed:
  assumes "held_by s i h" and "not_closing s"
  shows "held_by (fst (resumed w ok s)) i h \<and> not_closing (fst (resumed w ok s))"
proof (cases "po_waits s w")
  case None
  then show ?thesis using assms by (simp add: resumed_def)
next
  case (Some k)
  define s' where "s' = s\<lparr>po_waits := (po_waits s)(w := None)\<rparr>"
  have s': "held_by s' i h" "not_closing s'" using assms unfolding s'_def held_by_def live_holder_def not_closing_def by auto
  have eq: "fst (resumed w ok s) = (if \<not> ok then s' else case k of RedialCont c r \<Rightarrow> fst (redial_resumed c r s') | CloseCont es \<Rightarrow> fst (close_all es s'))"
    unfolding resumed_def Some s'_def by (auto simp: Let_def split: cont.split)
  show ?thesis
  proof (cases k)
    case (RedialCont c r)
    have "held_by (fst (redial_resumed c r s')) i h"
      by (rule held_by_frame [OF s'(1)]) (simp_all add: entries_frame holders_frame links_frame)
    then show ?thesis unfolding eq RedialCont using s' waits_frame(5) [OF s'(2)] by simp
  next
    case (CloseCont es)
    then have "es = []" using assms(2) Some unfolding not_closing_def by simp
    then show ?thesis unfolding eq CloseCont using s' by (simp add: close_all_def)
  qed
qed

lemma put_calm [simp]:
  "not_closing (put_entry r e s) \<longleftrightarrow> not_closing s" "not_closing (s\<lparr>po_links := a\<rparr>) \<longleftrightarrow> not_closing s"
  "not_closing (s\<lparr>po_timers := b\<rparr>) \<longleftrightarrow> not_closing s" "not_closing (s\<lparr>po_entries := c\<rparr>) \<longleftrightarrow> not_closing s"
  "not_closing (s\<lparr>po_fresh := n\<rparr>) \<longleftrightarrow> not_closing s"
  by (simp_all add: not_closing_def)

lemma pool_call_simps [simp]:
  "mw_pool (pool_call ev w) = fst (step (mw_pool w) ev)" "mw_links (pool_call ev w) = mw_links w"
  by (simp_all add: pool_call_def split: prod.split)

lemma held_retry: "held_by s i h \<Longrightarrow> held_by (fst (scheduleRetry a r s)) i h"
  by (erule held_by_frame) (simp_all add: entries_frame holders_frame links_frame)

lemma held_step:
  assumes ok: "registry_ok s" and held: "held_by s i h" and calm: "not_closing s" and ev: "ev \<noteq> ClosePool" "ev \<noteq> Release h"
  shows "held_by (fst (step s ev)) i h"
proof (cases ev)
  case (Acquire a params will)
  then show ?thesis using held_acquire [OF ok held calm] by simp
next
  case (Update g params will)
  have "held_by (fst (reopen a r params will s)) i h" for a r
    by (rule held_by_frame [OF held]) (simp_all add: entries_frame holders_frame links_frame)
  then show ?thesis using held Update by (auto simp: link_update_def split: option.split)
next
  case (Subscribe g sub)
  have "held_by (s\<lparr>po_links := (po_links s)(g := Some (l\<lparr>li_subscription := Some sub\<rparr>))\<rparr>) i h" if "po_links s g = Some l" for l
    using held that unfolding held_by_def live_holder_def by (auto split: option.splits)
  then show ?thesis using held Subscribe by (auto simp: link_subscribe_def Let_def split: option.split)
next
  case (Publish g topic payload)
  then show ?thesis using held by (auto simp: link_publish_def split: option.split)
next
  case (Release g)
  then show ?thesis using held_release [OF ok held calm, of g] ev(2) by simp
next
  case (ClientConnect c t)
  then show ?thesis using held by (auto simp: client_connect_def Let_def split: option.split intro: held_by_put)
next
  case (ClientClose c)
  then show ?thesis using held
    by (auto simp: client_close_def Let_def fst_andThen split: option.split intro!: held_by_put held_retry)
next
  case (ClientError c m t)
  then show ?thesis using held by (auto simp: client_error_def Let_def split: option.split intro: held_by_put)
next
  case (ClientMessage c m t)
  then show ?thesis using held by (auto simp: client_message_def Let_def split: option.split)
next
  case (TimerFired k)
  show ?thesis
  proof (cases "po_timers s k")
    case (Some x)
    obtain a r where x: "x = (a, r)" by force
    define s' where "s' = put_entry r ((entry_at s r)\<lparr>en_cancelRetry := None\<rparr>) (s\<lparr>po_timers := (po_timers s)(k := None)\<rparr>)"
    have s': "held_by s' i h" using held unfolding s'_def held_by_def live_holder_def by auto
    have "held_by (fst (dial a r s')) i h"
      by (rule held_by_frame [OF s']) (simp_all add: entries_frame holders_frame links_frame)
    then show ?thesis using TimerFired s' Some x by (simp add: timer_fired_def Let_def flip: s'_def)
  qed (use held TimerFired in \<open>simp add: timer_fired_def\<close>)
next
  case (Resumed w ok')
  then show ?thesis using held_resumed [OF held calm] by simp
qed (use held ev in simp_all)

lemma calm_acquire: "not_closing s \<Longrightarrow> not_closing (fst (acquire a params will s))"
  unfolding acquire_def
  by (auto simp: fst_andThen add_holder_def open_entry_def Let_def split: option.split intro!: waits_frame)

lemma calm_resumed:
  assumes "not_closing s"
  shows "not_closing (fst (resumed w ok s))"
proof (cases "po_waits s w")
  case (Some k)
  have "not_closing (s\<lparr>po_waits := (po_waits s)(w := None)\<rparr>)" using assms unfolding not_closing_def by auto
  moreover have "k = CloseCont es \<Longrightarrow> es = []" for es using assms Some unfolding not_closing_def by simp
  ultimately show ?thesis using Some waits_frame(5)
    by (cases k) (auto simp: resumed_def Let_def close_all_def)
qed (use assms in \<open>simp add: resumed_def\<close>)

lemma calm_step: "not_closing s \<Longrightarrow> ev \<noteq> ClosePool \<Longrightarrow> not_closing (fst (step s ev))"
proof (cases ev)
  case (Release g)
  assume "not_closing s"
  then show ?thesis using Release by (auto simp: link_release_def Let_def split: option.split intro!: waits_frame)
next
  case (TimerFired k)
  assume "not_closing s"
  then show ?thesis using TimerFired by (auto simp: timer_fired_def Let_def split: option.split intro!: waits_frame)
next
  case (ClientClose c)
  assume "not_closing s"
  then show ?thesis using ClientClose by (auto simp: client_close_def Let_def fst_andThen split: option.split intro!: waits_frame)
qed (auto simp: calm_acquire calm_resumed link_update_def link_subscribe_def link_publish_def client_connect_def client_error_def
    client_message_def Let_def split: option.split intro!: waits_frame)

text \<open>
  The tier's invariant: one link per row, each a live holder of the row's client.
\<close>

definition tier_ok :: "mqtt_world \<Rightarrow> bool" where
  "tier_ok w \<longleftrightarrow> distinct (map fst (mw_links w)) \<and> registry_ok (mw_pool w) \<and> not_closing (mw_pool w)
     \<and> (\<forall>i h. js_get (mw_links w) i = Some h \<longrightarrow> held_by (mw_pool w) i h)"

lemma tier_ok_event:
  assumes "tier_ok w" and "foreign (mw_links w) ev"
  shows "tier_ok (pool_call ev w) \<and> mw_links (pool_call ev w) = mw_links w"
proof -
  have ev: "ev \<noteq> ClosePool" "js_get (mw_links w) i = Some h \<Longrightarrow> ev \<noteq> Release h" for i h
    using assms(2) unfolding foreign_def by (auto dest!: map_of_SomeD split: event.splits) force
  show ?thesis using assms(1) ev registry_step calm_step held_step unfolding tier_ok_def pool_call_simps by metis
qed

lemma tier_ok_await:
  assumes "tier_ok w"
  shows "tier_ok (snd (await fate w)) \<and> mw_links (snd (await fate w)) = mw_links w"
proof -
  have "tier_ok (fold pool_call evs v) \<and> mw_links (fold pool_call evs v) = mw_links v"
    if "tier_ok v" "list_all (foreign (mw_links v)) evs" for evs v
    using that
  proof (induction evs arbitrary: v)
    case (Cons ev evs)
    then show ?case using tier_ok_event [of v ev] by simp
  qed simp
  moreover have "tier_ok (w\<lparr>mw_awaits := mw_awaits w + 1\<rparr>)" using assms unfolding tier_ok_def by simp
  ultimately show ?thesis unfolding await_def by (auto simp: list_all_iff split: prod.split)
qed

lemma tier_ok_acquire:
  assumes "tier_ok w" and "js_get (mw_links w) i = None"
  shows "tier_ok (acquire_link i params w)"
    and "mw_links (acquire_link i params w) = mw_links w @ [(i, po_fresh (mw_pool (pool_call (Acquire i params None) w)) - 1)]"
proof -
  define s1 where "s1 = fst (case js_get (po_entries (mw_pool w)) i of
     None \<Rightarrow> open_entry i params None (mw_pool w) | Some r \<Rightarrow> reopen i r params None (mw_pool w))"
  define s2 where "s2 = mw_pool (pool_call (Acquire i params None) w)"
  have s2: "s2 = fst (add_holder i s1)"
    unfolding s2_def s1_def by (simp add: acquire_def fst_andThen)
  obtain r where r: "js_get (po_entries s1) i = Some r"
    unfolding s1_def open_entry_def by (cases "js_get (po_entries (mw_pool w)) i") (auto simp: entries_frame Let_def)
  have new: "held_by s2 i (po_fresh s2 - 1)"
    unfolding s2 add_holder_def r held_by_def live_holder_def by (simp add: Let_def r)
  have ok: "tier_ok (pool_call (Acquire i params None) w)" "mw_links (pool_call (Acquire i params None) w) = mw_links w"
    using tier_ok_event [OF assms(1), of "Acquire i params None"] by (simp_all add: foreign_def)
  have absent: "i \<notin> fst ` set (mw_links w)" using assms(2) by (simp add: map_of_eq_None_iff)
  show links: "mw_links (acquire_link i params w) = mw_links w @ [(i, po_fresh (mw_pool (pool_call (Acquire i params None) w)) - 1)]"
    unfolding acquire_link_def Let_def by (simp add: ok(2) js_set_append [OF absent])
  have "mw_pool (acquire_link i params w) = s2" unfolding acquire_link_def s2_def by (simp add: Let_def)
  then show "tier_ok (acquire_link i params w)"
    using ok new absent unfolding tier_ok_def links s2_def by (auto simp: map_add_def split: option.splits if_splits)
qed


abbreviation link_rows :: "mqtt_world \<Rightarrow> int set" where
  "link_rows w \<equiv> fst ` set (mw_links w)"

definition is_broker :: "ConnectionRecord \<Rightarrow> bool" where
  "is_broker c \<longleftrightarrow> (\<exists>params. cr_params c = MqttConnection params)"

lemma mqtt_open_ok:
  assumes "tier_ok w"
  shows "tier_ok (snd (mqtt_open fate c w))" and "fst (mqtt_open fate c w) = None"
    and "link_rows (snd (mqtt_open fate c w)) = link_rows w \<union> (if is_broker c then {cr_id c} else {})"
proof -
  have "tier_ok (snd (mqtt_open fate c w)) \<and> fst (mqtt_open fate c w) = None
      \<and> link_rows (snd (mqtt_open fate c w)) = link_rows w \<union> (if is_broker c then {cr_id c} else {})"
  proof (cases "cr_params c")
    case (OtherConnection k)
    then show ?thesis using tier_ok_await [OF assms] by (simp add: mqtt_open_def is_broker_def)
  next
    case (MqttConnection params)
    then have broker: "is_broker c" by (simp add: is_broker_def)
    show ?thesis
    proof (cases "js_get (mw_links w) (cr_id c)")
      case None
      have "tier_ok (acquire_link (cr_id c) params w)" "link_rows (acquire_link (cr_id c) params w) = link_rows w \<union> {cr_id c}"
        using tier_ok_acquire [OF assms None, of params] by simp_all
      then show ?thesis using tier_ok_await [of "acquire_link (cr_id c) params w"] None MqttConnection broker
        by (simp add: mqtt_open_def)
    next
      case (Some h)
      have "tier_ok (pool_call (Update h params None) w)" using tier_ok_event [OF assms, of "Update h params None"] by (simp add: foreign_def)
      moreover have "cr_id c \<in> link_rows w" using Some by (auto dest!: map_of_SomeD intro: rev_image_eqI)
      ultimately show ?thesis using tier_ok_await [of "pool_call (Update h params None) w"] Some MqttConnection broker
        by (auto simp: mqtt_open_def)
    qed
  qed
  then show "tier_ok (snd (mqtt_open fate c w))" "fst (mqtt_open fate c w) = None"
    "link_rows (snd (mqtt_open fate c w)) = link_rows w \<union> (if is_broker c then {cr_id c} else {})" by blast+
qed

lemma held_by_unique:
  assumes "registry_ok s" and "held_by s i h" and "held_by s j h"
  shows "i = j"
proof -
  obtain r q where r: "js_get (po_entries s) i = Some r" "live_holder s r h" "js_get (po_entries s) j = Some q" "live_holder s q h"
    using assms(2-3) unfolding held_by_def by blast
  then have "r = q" unfolding live_holder_def by (auto split: option.splits)
  then show ?thesis using assms(1) r(1,3) unfolding registry_ok_def by blast
qed

lemma released_ok:
  assumes "tier_ok w" and "js_get (mw_links w) i = Some h"
  shows "tier_ok (pool_call (Release h) (w\<lparr>mw_links := js_delete i (mw_links w)\<rparr>))"
proof -
  define w1 where "w1 = w\<lparr>mw_links := js_delete i (mw_links w)\<rparr>"
  have get: "js_get (mw_links w1) j = (if j = i then None else js_get (mw_links w) j)" for j unfolding w1_def by simp
  have distinct: "distinct (map fst (mw_links w1))" unfolding w1_def using assms(1) js_delete_distinct by (auto simp: tier_ok_def)
  have w1: "tier_ok w1" using assms(1) distinct get unfolding tier_ok_def by (auto simp: w1_def)
  have "h \<notin> snd ` set (mw_links w1)"
  proof
    assume "h \<in> snd ` set (mw_links w1)"
    then obtain j where j: "js_get (mw_links w1) j = Some h" using distinct by (force simp: map_of_eq_Some_iff)
    then have "j \<noteq> i" "held_by (mw_pool w) j h" "held_by (mw_pool w) i h" using assms get [of j] unfolding tier_ok_def by (auto split: if_splits)
    then show False using held_by_unique [of "mw_pool w" j h i] assms(1) unfolding tier_ok_def by simp
  qed
  then have "foreign (mw_links w1) (Release h)" by (simp add: foreign_def)
  from tier_ok_event [OF w1 this] show ?thesis unfolding w1_def by blast
qed

lemma releaseLink_ok:
  assumes "tier_ok w"
  shows "tier_ok (snd (releaseLink fate i w))" and "link_rows (snd (releaseLink fate i w)) = link_rows w - {i}"
proof -
  have "tier_ok (snd (releaseLink fate i w)) \<and> link_rows (snd (releaseLink fate i w)) = link_rows w - {i}"
  proof (cases "js_get (mw_links w) i")
    case None
    then have "releaseLink fate i w = (None, w)" by (simp add: releaseLink_def)
    moreover have "i \<notin> link_rows w" using None unfolding map_of_eq_None_iff .
    ultimately show ?thesis using assms by simp
  next
    case (Some h)
    define w1 where "w1 = w\<lparr>mw_links := js_delete i (mw_links w)\<rparr>"
    have rel: "tier_ok (pool_call (Release h) w1)" unfolding w1_def by (rule released_ok [OF assms Some])
    have "link_rows (pool_call (Release h) w1) = link_rows w - {i}"
      using delete_keys [of i "mw_links w"] unfolding w1_def by (metis (no_types, lifting) list.set_map mqtt_world.select_convs(1) mqtt_world.simps(9) pool_call_simps(2) set_removeAll mqtt_world.surjective mqtt_world.update_convs(1))
    then show ?thesis using tier_ok_await [OF rel] Some unfolding releaseLink_def w1_def by simp
  qed
  then show "tier_ok (snd (releaseLink fate i w))" "link_rows (snd (releaseLink fate i w)) = link_rows w - {i}" by blast+
qed

lemma release_links_ok:
  assumes "tier_ok w" and "release_links fate is w = (thrown, w')"
  shows "tier_ok w'" and "link_rows w - set is \<subseteq> link_rows w'" and "thrown = None \<Longrightarrow> link_rows w' = link_rows w - set is"
proof -
  have "tier_ok w' \<and> link_rows w - set is \<subseteq> link_rows w' \<and> (thrown = None \<longrightarrow> link_rows w' = link_rows w - set is)"
    using assms
  proof (induction "is" arbitrary: w)
    case (Cons i "is")
    obtain t v where v: "releaseLink fate i w = (t, v)" by force
    then have "tier_ok v" "link_rows v = link_rows w - {i}" using releaseLink_ok [OF Cons.prems(1), of fate i] by simp_all
    then show ?case using Cons.IH [of v] Cons.prems(2) v by (cases t) (auto split: prod.splits)
  qed simp
  then show "tier_ok w'" "link_rows w - set is \<subseteq> link_rows w'" "thrown = None \<Longrightarrow> link_rows w' = link_rows w - set is" by blast+
qed

lemma one_tier: "tierFor [createMqttTier fate] k = (if k = ''mqtt'' then Some 0 else None)"
  by (simp add: tierFor_def createMqttTier_def)

lemma broker_calls:
  assumes "tier_ok (pa_world p)"
  shows "tier_ok (pa_world (run_calls [createMqttTier fate] (open_calls [createMqttTier fate] connections) p))"
    and "link_rows (pa_world (run_calls [createMqttTier fate] (open_calls [createMqttTier fate] connections) p))
      = link_rows (pa_world p) \<union> cr_id ` {c \<in> set connections. is_broker c}"
    and "te_failures (pa_events (run_calls [createMqttTier fate] (open_calls [createMqttTier fate] connections) p)) = te_failures (pa_events p)"
proof -
  have "tier_ok (pa_world (run_calls [createMqttTier fate] (open_calls [createMqttTier fate] connections) p))
    \<and> link_rows (pa_world (run_calls [createMqttTier fate] (open_calls [createMqttTier fate] connections) p))
      = link_rows (pa_world p) \<union> cr_id ` {c \<in> set connections. is_broker c}
    \<and> te_failures (pa_events (run_calls [createMqttTier fate] (open_calls [createMqttTier fate] connections) p)) = te_failures (pa_events p)"
    using assms
  proof (induction connections arbitrary: p)
    case (Cons c cs)
    show ?case
    proof (cases "cr_kind c = ''mqtt''")
      case False
      then have "\<not> is_broker c" by (auto simp: is_broker_def cr_kind_def)
      then have "cr_id ` {x \<in> set (c # cs). is_broker x} = cr_id ` {x \<in> set cs. is_broker x}" by auto
      moreover have "open_calls [createMqttTier fate] (c # cs) = open_calls [createMqttTier fate] cs"
        using False by (simp add: open_calls_def map_filter_simps one_tier)
      ultimately show ?thesis using Cons by simp
    next
      case True
      let ?q = "call [createMqttTier fate] (CallOpen 0 c) p"
      have q: "pa_world ?q = snd (mqtt_open fate c (pa_world p))" "te_failures (pa_events ?q) = te_failures (pa_events p)"
        using mqtt_open_ok(2) [OF Cons.prems, of fate c]
        by (cases "mqtt_open fate c (pa_world p)"; simp add: call_def guarded_def createMqttTier_def)+
      have "cr_id ` {x \<in> set (c # cs). is_broker x} = (if is_broker c then {cr_id c} else {}) \<union> cr_id ` {x \<in> set cs. is_broker x}" by auto
      moreover have "open_calls [createMqttTier fate] (c # cs) = CallOpen 0 c # open_calls [createMqttTier fate] cs"
        using True by (simp add: open_calls_def map_filter_simps one_tier)
      ultimately show ?thesis using Cons.IH [of ?q] mqtt_open_ok [OF Cons.prems, of fate c] q by (simp add: Un_assoc)
    qed
  qed (simp add: open_calls_def map_filter_simps)
  then show "tier_ok (pa_world (run_calls [createMqttTier fate] (open_calls [createMqttTier fate] connections) p))"
    "link_rows (pa_world (run_calls [createMqttTier fate] (open_calls [createMqttTier fate] connections) p))
      = link_rows (pa_world p) \<union> cr_id ` {c \<in> set connections. is_broker c}"
    "te_failures (pa_events (run_calls [createMqttTier fate] (open_calls [createMqttTier fate] connections) p)) = te_failures (pa_events p)"
    by blast+
qed

lemma attach_calls_ok:
  assumes "tier_ok (pa_world p)" and "list_all (\<lambda>c. \<exists>cr d. c = CallAttach 0 cr d) cs"
  shows "tier_ok (pa_world (run_calls [createMqttTier fate] cs p))
    \<and> link_rows (pa_world (run_calls [createMqttTier fate] cs p)) = link_rows (pa_world p)
    \<and> te_failures (pa_events (run_calls [createMqttTier fate] cs p)) = te_failures (pa_events p)"
  using assms
proof (induction cs arbitrary: p)
  case (Cons c cs)
  then obtain cr d where c: "c = CallAttach 0 cr d" by auto
  have q: "pa_world (call [createMqttTier fate] c p) = snd (await fate (pa_world p))"
    "te_failures (pa_events (call [createMqttTier fate] c p)) = te_failures (pa_events p)"
    unfolding c by (simp_all add: call_def guarded_def createMqttTier_def mqtt_attach_def)
  then show ?case using Cons.IH [of "call [createMqttTier fate] c p"] Cons.prems tier_ok_await [OF Cons.prems(1), of fate] by simp
qed simp

lemma attach_only: "list_all (\<lambda>c. \<exists>cr d. c = CallAttach 0 cr d) (attach_calls [createMqttTier fate] connections devices)"
  unfolding attach_calls_def one_tier list_all_iff set_map_filter by (auto split: if_splits option.splits)

lemma pass_world:
  assumes "distinct (map cr_id connections)" and "tier_ok w" and p_def: "reloadConnections fate connections devices w = p"
  shows "tier_ok (pa_world p)" and "cr_id ` {c \<in> set connections. is_broker c} \<subseteq> link_rows (pa_world p)"
    and "te_failures (pa_events p) = [] \<Longrightarrow> link_rows (pa_world p) \<subseteq> cr_id ` {c \<in> set connections. cr_kind c = ''mqtt''}"
proof -
  let ?T = "[createMqttTier fate]"
  let ?ids = "map cr_id (filter (\<lambda>c. tierFor ?T (cr_kind c) = Some 0) connections)"
  define p1 where "p1 = run_calls ?T (open_calls ?T connections) (start_pass w)"
  define p2 where "p2 = run_calls ?T (attach_calls ?T connections devices) p1"
  have start: "tier_ok (pa_world (start_pass w))" "te_failures (pa_events (start_pass w)) = []" using assms(2) by (simp_all add: start_pass_def)
  note b = broker_calls [OF start(1), of fate connections, folded p1_def]
  note a = attach_calls_ok [OF b(1) attach_only [of fate connections devices], of fate, folded p2_def]
  have p2: "tier_ok (pa_world p2)" "cr_id ` {c \<in> set connections. is_broker c} \<subseteq> link_rows (pa_world p2)"
    "te_failures (pa_events p2) = []" using a b start(2) by auto
  have eq: "outcome p = outcome (call ?T (CallSettle 0 ?ids) p2)"
    using pass_calls [OF assms(1), of ?T devices w] unfolding p_def [symmetric] reloadConnections_def
    by (simp add: settle_calls_def flip: p1_def p2_def)
  define away where "away = filter (\<lambda>i. i \<notin> set ?ids) (map fst (mw_links (pa_world p2)))"
  obtain thrown w' where settle: "release_links fate away (pa_world p2) = (thrown, w')" by force
  have out: "outcome (call ?T (CallSettle 0 ?ids) p2)
      = (case thrown of None \<Rightarrow> [] | Some e \<Rightarrow> [\<lparr>tf_connectionId = None, tf_deviceSlug = None, tf_error = e\<rparr>], w')"
    using settle p2(3) unfolding away_def
    by (auto simp: outcome_def call_def guarded_def createMqttTier_def mqtt_settle_def split: option.split)
  have res: "pa_world p = w'" "te_failures (pa_events p) = [] \<Longrightarrow> thrown = None"
    using eq out by (auto simp: outcome_def split: option.splits)
  note rel = release_links_ok [OF p2(1) settle]
  have ids: "set ?ids = cr_id ` {c \<in> set connections. cr_kind c = ''mqtt''}" by (auto simp: one_tier)
  have away: "set away = link_rows (pa_world p2) - set ?ids" unfolding away_def by auto
  show "tier_ok (pa_world p)" using rel(1) res(1) by simp
  have "cr_id ` {c \<in> set connections. is_broker c} \<subseteq> set ?ids"
    unfolding ids by (auto simp: is_broker_def cr_kind_def)
  then show "cr_id ` {c \<in> set connections. is_broker c} \<subseteq> link_rows (pa_world p)"
    using rel(2) p2(2) away res(1) by blast
  show "link_rows (pa_world p) \<subseteq> cr_id ` {c \<in> set connections. cr_kind c = ''mqtt''}" if "te_failures (pa_events p) = []"
    using rel(3) [OF res(2) [OF that]] away ids res(1) by blast
qed

text \<open>
  The other way round: a live holder in the pool that no \<open>Acquire\<close> made was one before, and a released
  one is none any more.
\<close>

lemma held_by_put_iff: "en_holders e = en_holders (entry_at s r) \<Longrightarrow> held_by (put_entry r e s) i h \<longleftrightarrow> held_by s i h"
  unfolding held_by_def live_holder_def by (intro arg_cong [where f = Ex] ext) auto

lemma held_by_frames:
  "held_by (fst (dial a r s)) i h \<longleftrightarrow> held_by s i h" "held_by (fst (scheduleRetry a r s)) i h \<longleftrightarrow> held_by s i h"
  "held_by (fst (redial_resumed a r s)) i h \<longleftrightarrow> held_by s i h" "held_by (fst (reopen a r params will s)) i h \<longleftrightarrow> held_by s i h"
  "held_by (s\<lparr>po_waits := ws\<rparr>) i h \<longleftrightarrow> held_by s i h" "held_by (s\<lparr>po_timers := ts\<rparr>) i h \<longleftrightarrow> held_by s i h"
  unfolding held_by_def live_holder_def by (simp_all add: entries_frame holders_frame links_frame)

lemma released_gone: "held_by (fst (link_release g s)) i h \<Longrightarrow> held_by s i h \<and> h \<noteq> g"
proof (cases "\<exists>l. po_links s g = Some l \<and> \<not> li_released l")
  case False
  then show "held_by (fst (link_release g s)) i h \<Longrightarrow> held_by s i h \<and> h \<noteq> g"
    unfolding link_release_def by (auto simp: held_by_def live_holder_def split: option.splits if_splits)
next
  case True
  then obtain l where l: "po_links s g = Some l" "\<not> li_released l" by blast
  define s1 where "s1 = put_entry (li_held l) ((entry_at s (li_held l))\<lparr>en_holders := removeAll g (en_holders (entry_at s (li_held l)))\<rparr>)
    (s\<lparr>po_links := (po_links s)(g := Some (l\<lparr>li_released := True\<rparr>))\<rparr>)"
  have 1: "held_by s1 i h \<Longrightarrow> held_by s i h \<and> h \<noteq> g"
    unfolding s1_def held_by_def live_holder_def by (auto split: option.splits if_splits)
  have "held_by (fst (closeEntry c r k s1)) i h \<Longrightarrow> held_by s1 i h" for c r k
    unfolding held_by_def live_holder_def by (auto simp: entries_frame holders_frame links_frame split: if_splits)
  moreover have "fst (link_release g s) = s1 \<or> (\<exists>c r k. fst (link_release g s) = fst (closeEntry c r k s1))"
    unfolding link_release_def l(1) s1_def using l(2) by (auto simp: Let_def)
  ultimately show "held_by (fst (link_release g s)) i h \<Longrightarrow> held_by s i h \<and> h \<noteq> g" using 1 by metis
qed

definition acquires :: "event \<Rightarrow> bool" where
  "acquires ev \<longleftrightarrow> (\<exists>a params will. ev = Acquire a params will)"

lemma held_before:
  assumes calm: "not_closing s" and ev: "ev \<noteq> ClosePool" "\<not> acquires ev" and held: "held_by (fst (step s ev)) i h"
  shows "held_by s i h"
proof (cases ev)
  case (Acquire a params will)
  then show ?thesis using ev(2) unfolding acquires_def by blast
next
  case (Update g params will)
  then show ?thesis using held by (auto simp: link_update_def held_by_frames split: option.splits if_splits)
next
  case (Subscribe g sub)
  have "held_by (s\<lparr>po_links := (po_links s)(g := Some (l\<lparr>li_subscription := Some sub\<rparr>))\<rparr>) i h \<Longrightarrow> held_by s i h"
    if "po_links s g = Some l" for l
    using that unfolding held_by_def live_holder_def by (auto split: option.splits if_splits)
  then show ?thesis using held Subscribe by (auto simp: link_subscribe_def Let_def split: option.splits if_splits)
next
  case (Publish g topic payload)
  then show ?thesis using held by (auto simp: link_publish_def split: option.splits if_splits)
next
  case (Release g)
  then show ?thesis using released_gone [of g s i h] held by simp
next
  case (ClientConnect c t)
  then show ?thesis using held by (auto simp: client_connect_def Let_def held_by_put_iff split: option.splits if_splits)
next
  case (ClientClose c)
  then show ?thesis using held
    by (auto simp: client_close_def Let_def fst_andThen held_by_put_iff held_by_frames split: option.splits if_splits)
next
  case (ClientError c m t)
  then show ?thesis using held by (auto simp: client_error_def Let_def held_by_put_iff split: option.splits if_splits)
next
  case (ClientMessage c m t)
  then show ?thesis using held by (auto simp: client_message_def Let_def split: option.splits if_splits)
next
  case (TimerFired k)
  then show ?thesis using held
    by (auto simp: timer_fired_def Let_def held_by_put_iff held_by_frames entry_at_def split: option.splits if_splits)
next
  case (Resumed w ok)
  have "k = CloseCont es \<Longrightarrow> es = []" if "po_waits s w = Some k" for k es
    using calm that unfolding not_closing_def by simp
  then show ?thesis using held Resumed
    by (auto simp: resumed_def Let_def close_all_def held_by_frames split: option.splits if_splits cont.splits)
qed (use held ev in simp_all)

lemma held_after_acquire:
  assumes ok: "registry_ok s" and held: "held_by (fst (acquire a params will s)) i h"
  shows "held_by s i h \<or> (i = a \<and> h = po_fresh (fst (acquire a params will s)) - 1)"
proof -
  define s1 where "s1 = fst (case js_get (po_entries s) a of None \<Rightarrow> open_entry a params will s | Some r \<Rightarrow> reopen a r params will s)"
  have eq: "fst (acquire a params will s) = fst (add_holder a s1)" unfolding acquire_def s1_def by (simp add: fst_andThen)
  have older: "held_by s i h" if h1: "held_by s1 i h"
  proof (cases "js_get (po_entries s) a")
    case None
    have s1: "s1 = fst (open_entry a params will s)" unfolding s1_def None by simp
    have "po_entries s1 = js_set a (po_fresh s) (po_entries s)" "po_links s1 = po_links s"
      "en_holders (entry_at s1 q) = (if q = po_fresh s then [] else en_holders (entry_at s q))" for q
      unfolding s1 open_entry_def dial_def new_entry_def by (simp_all add: Let_def)
    then show ?thesis using h1 unfolding held_by_def live_holder_def by (auto split: if_splits)
  next
    case (Some q)
    then show ?thesis using h1 unfolding s1_def by (simp add: held_by_frames)
  qed
  obtain r where r: "js_get (po_entries s1) a = Some r"
    unfolding s1_def open_entry_def by (cases "js_get (po_entries s) a") (auto simp: entries_frame Let_def)
  have frames: "po_entries (fst (add_holder a s1)) = po_entries s1" "po_fresh (fst (add_holder a s1)) = po_fresh s1 + 1"
    "po_links (fst (add_holder a s1)) = (po_links s1)(po_fresh s1 := Some \<lparr>li_connectionId = a, li_held = r,
        li_subscription = None, li_released = False\<rparr>)"
    "set (en_holders (entry_at (fst (add_holder a s1)) q)) \<subseteq> insert (po_fresh s1) (set (en_holders (entry_at s1 q)))" for q
    unfolding add_holder_def r by (auto simp: Let_def)
  show ?thesis
  proof (cases "h = po_fresh s1")
    case True
    have "po_entries s1 = po_entries (fst (acquire a params will s))" unfolding eq frames ..
    moreover have "registry_ok (fst (acquire a params will s))" using registry_step [OF ok, of "Acquire a params will"] by simp
    moreover obtain q where "js_get (po_entries s1) i = Some q" "live_holder (fst (acquire a params will s)) q h"
      using held unfolding held_by_def eq frames by blast
    moreover have "q = r" using calculation(4) True unfolding live_holder_def eq frames by simp
    ultimately have "i = a" using r unfolding registry_ok_def by metis
    then show ?thesis using True unfolding eq frames by simp
  next
    case False
    then have "held_by s1 i h" using held frames(4) unfolding eq held_by_def live_holder_def frames(1,3) by fastforce
    then show ?thesis using older by blast
  qed
qed

text \<open>The live holders in the pool are the tier's own, or among the given ones of others.\<close>

definition accounted :: "(int \<times> holder) set \<Rightarrow> mqtt_world \<Rightarrow> bool" where
  "accounted others w \<longleftrightarrow> tier_ok w
     \<and> (\<forall>i h. held_by (mw_pool w) i h \<longrightarrow> js_get (mw_links w) i = Some h \<or> (i, h) \<in> others)"

definition no_acquire :: "fate \<Rightarrow> bool" where
  "no_acquire fate \<longleftrightarrow> (\<forall>n. list_all (\<lambda>ev. \<not> acquires ev) (fst (fate n)))"

lemma accounted_event:
  assumes "accounted others w" and "foreign (mw_links w) ev" and "\<not> acquires ev"
  shows "accounted others (pool_call ev w)"
proof -
  have "ev \<noteq> ClosePool" using assms(2) unfolding foreign_def by auto
  then show ?thesis using assms tier_ok_event [of w ev] held_before [of "mw_pool w" ev]
    unfolding accounted_def tier_ok_def by (metis pool_call_simps)
qed

lemma accounted_await:
  assumes "accounted others w" and "no_acquire fate"
  shows "accounted others (snd (await fate w))"
proof -
  have "accounted others (fold pool_call evs v)"
    if "accounted others v" "list_all (\<lambda>ev. foreign (mw_links v) ev \<and> \<not> acquires ev) evs" for evs v
    using that
  proof (induction evs arbitrary: v)
    case (Cons ev evs)
    then show ?case using accounted_event [of others v ev] by simp
  qed simp
  moreover have "accounted others (w\<lparr>mw_awaits := mw_awaits w + 1\<rparr>)" 
    using assms(1) by (simp add: accounted_def tier_ok_def del: map_of_eq_Some_iff)
  moreover obtain evs rejected where "fate (mw_awaits w) = (evs, rejected)" "list_all (\<lambda>ev. \<not> acquires ev) evs"
    using assms(2) unfolding no_acquire_def by (metis prod.collapse)
  ultimately show ?thesis unfolding await_def by (auto simp: list_all_iff)
qed

lemma accounted_acquire:
  assumes "accounted others w" and "js_get (mw_links w) i = None"
  shows "accounted others (acquire_link i params w)"
  unfolding accounted_def
proof (intro conjI allI impI)
  have ok: "tier_ok w" using assms(1) unfolding accounted_def by blast
  show "tier_ok (acquire_link i params w)" by (rule tier_ok_acquire(1) [OF ok assms(2)])
  have reg: "registry_ok (mw_pool w)" using ok unfolding tier_ok_def by blast
  have pool: "mw_pool (acquire_link i params w) = fst (acquire i params None (mw_pool w))"
    unfolding acquire_link_def Let_def by simp
  fix j h assume "held_by (mw_pool (acquire_link i params w)) j h"
  then have "held_by (mw_pool w) j h \<or> (j = i \<and> h = po_fresh (fst (acquire i params None (mw_pool w))) - 1)"
    unfolding pool by (rule held_after_acquire [OF reg])
  moreover have "js_get (mw_links w) j = Some h \<or> (j, h) \<in> others" if "held_by (mw_pool w) j h"
    using that assms(1) unfolding accounted_def by blast
  ultimately show "js_get (mw_links (acquire_link i params w)) j = Some h \<or> (j, h) \<in> others"
    using assms(2) unfolding tier_ok_acquire(2) [OF ok assms(2)]
    by (auto simp: map_add_def split: option.split)
qed

lemma accounted_open:
  assumes "accounted others w" and "no_acquire fate"
  shows "accounted others (snd (mqtt_open fate c w))"
proof (cases "cr_params c")
  case (OtherConnection k)
  then show ?thesis using accounted_await [OF assms] by (simp add: mqtt_open_def)
next
  case (MqttConnection params)
  have "accounted others (pool_call (Update h params None) w)" for h
    by (rule accounted_event [OF assms(1)]) (simp_all add: foreign_def acquires_def)
  then show ?thesis using MqttConnection accounted_await [OF _ assms(2)] accounted_acquire [OF assms(1)]
    by (auto simp: mqtt_open_def split: option.split)
qed

lemma accounted_release:
  assumes "accounted others w" and "no_acquire fate"
  shows "accounted others (snd (releaseLink fate i w))"
proof (cases "js_get (mw_links w) i")
  case None
  then show ?thesis using assms(1) by (simp add: releaseLink_def)
next
  case (Some h)
  let ?w = "pool_call (Release h) (w\<lparr>mw_links := js_delete i (mw_links w)\<rparr>)"
  have ok: "tier_ok w" using assms(1) unfolding accounted_def by blast
  have "accounted others ?w" unfolding accounted_def
  proof (intro conjI allI impI)
    show "tier_ok ?w" by (rule released_ok [OF ok Some])
    fix j g assume "held_by (mw_pool ?w) j g"
    then have g: "held_by (mw_pool w) j g" "g \<noteq> h" using released_gone [of h "mw_pool w" j g] by simp_all
    then have "js_get (mw_links w) j = Some g \<or> (j, g) \<in> others" using assms(1) unfolding accounted_def by blast
    then show "js_get (mw_links ?w) j = Some g \<or> (j, g) \<in> others" using g(2) Some by auto
  qed
  from accounted_await [OF this assms(2)] show ?thesis using Some by (simp add: releaseLink_def)
qed

lemma accounted_release_links:
  assumes "accounted others w" and "no_acquire fate"
  shows "accounted others (snd (release_links fate is w))"
  using assms(1)
proof (induction "is" arbitrary: w)
  case (Cons i "is")
  obtain t v where v: "releaseLink fate i w = (t, v)" by force
  then have "accounted others v" using accounted_release [OF Cons.prems assms(2), of i] by simp
  then show ?case using Cons.IH [of v] v by (cases t) simp_all
qed simp

lemma accounted_pass:
  assumes "distinct (map cr_id connections)" and "accounted others w" and "no_acquire fate"
  shows "accounted others (pa_world (reloadConnections fate connections devices w))"
proof -
  let ?T = "[createMqttTier fate]"
  have one: "accounted others (snd (answer ?T c v))" if "accounted others v" "c \<in> set (pass_plan ?T connections devices)" for c v
  proof -
    have "c \<in> set (open_calls ?T connections @ attach_calls ?T connections devices @ settle_calls ?T connections)"
      using that(2) unfolding pass_plan_def plan_open plan_attach [OF assms(1)] plan_settle .
    then have "(\<exists>cr. c = CallOpen 0 cr) \<or> (\<exists>cr d. c = CallAttach 0 cr d) \<or> (\<exists>ids. c = CallSettle 0 ids)"
      unfolding open_calls_def attach_calls_def settle_calls_def set_append set_map_filter one_tier
      by (auto split: if_splits option.splits)
    then show ?thesis
      using accounted_open [OF that(1) assms(3)] accounted_await [OF that(1) assms(3)] accounted_release_links [OF that(1) assms(3)]
      by (auto simp: createMqttTier_def mqtt_attach_def mqtt_settle_def)
  qed
  have "accounted others (snd (do_calls ?T cs v))" if "accounted others v" "set cs \<subseteq> set (pass_plan ?T connections devices)" for cs v
    using that
  proof (induction cs arbitrary: v)
    case (Cons c cs)
    then show ?case using one [of v c] by (simp add: case_prod_beta)
  qed simp
  from this [OF assms(2) subset_refl] show ?thesis
    using pass_does [OF assms(1), of ?T devices w] unfolding reloadConnections_def outcome_def by (metis snd_conv)
qed

text \<open>C28. After a pass the process holds the plant's brokers and nothing else. Whatever the brokers and the
  other consumers do while it runs, short of closing the pool, every broker row has a link that is
  a live holder of the row's client, so the pool keeps its client, and when no release failed no
  link is left of a row that is gone. And the tier leaks no holder: unless another consumer acquires
  one meanwhile, every live holder in the pool after the pass is the one link of its row, or was
  held before the pass by somebody else; so a broker row nobody else uses has exactly one holder,
  also after any number of passes. A pass starts from a state every pass and every start leaves:
  one link per row, each a live holder, in a sound pool that is not being closed (\<open>tier_ok\<close>).\<close>

theorem pass_holds_the_brokers:
  assumes "distinct (map cr_id connections)" and "tier_ok w"
    and "reloadConnections fate connections devices w = p" and "pa_world p = w'"
  shows "tier_ok w'
    \<and> (\<forall>c\<in>set connections. is_broker c \<longrightarrow> (\<exists>h. js_get (mw_links w') (cr_id c) = Some h \<and> held_by (mw_pool w') (cr_id c) h))
    \<and> (te_failures (pa_events p) = []
        \<longrightarrow> (\<forall>i\<in>link_rows w'. \<exists>c\<in>set connections. cr_id c = i \<and> cr_kind c = ''mqtt''))
    \<and> (no_acquire fate \<longrightarrow> (\<forall>i h. held_by (mw_pool w') i h \<longrightarrow>
        js_get (mw_links w') i = Some h \<or> held_by (mw_pool w) i h \<and> js_get (mw_links w) i \<noteq> Some h))"
proof -
  note p = pass_world [OF assms(1-3), unfolded assms(4)]
  have "\<exists>h. js_get (mw_links w') (cr_id c) = Some h \<and> held_by (mw_pool w') (cr_id c) h" if "c \<in> set connections" "is_broker c" for c
  proof -
    have "cr_id c \<in> link_rows w'" using p(2) that by auto
    then obtain h where "js_get (mw_links w') (cr_id c) = Some h" by (metis map_of_eq_None_iff not_Some_eq)
    then show ?thesis using p(1) unfolding tier_ok_def by auto
  qed
  moreover have "\<forall>i\<in>link_rows w'. \<exists>c\<in>set connections. cr_id c = i \<and> cr_kind c = ''mqtt''"
    if "te_failures (pa_events p) = []"
  proof
    fix i assume "i \<in> link_rows w'"
    then have "i \<in> cr_id ` {c \<in> set connections. cr_kind c = ''mqtt''}" using p(3) [OF that] by (rule subsetD [rotated])
    then show "\<exists>c\<in>set connections. cr_id c = i \<and> cr_kind c = ''mqtt''" by auto
  qed
  moreover have "js_get (mw_links w') i = Some h \<or> held_by (mw_pool w) i h \<and> js_get (mw_links w) i \<noteq> Some h"
    if "no_acquire fate" "held_by (mw_pool w') i h" for i h
  proof -
    have "accounted {(i, h). held_by (mw_pool w) i h \<and> js_get (mw_links w) i \<noteq> Some h} w"
      using assms(2) unfolding accounted_def by blast
    from accounted_pass [OF assms(1) this that(1), of devices] show ?thesis
      using that(2) unfolding assms(3,4) accounted_def by blast
  qed
  ultimately show ?thesis using p(1) by blast
qed


subsection \<open>Concrete passes\<close>

definition two_rows :: "ConnectionRecord list" where
  "two_rows = [\<lparr>cr_id = 7, cr_params = MqttConnection broker_a\<rparr>, \<lparr>cr_id = 8, cr_params = OtherConnection ''modbus''\<rparr>]"

definition three_devices :: "DeviceRecord list" where
  "three_devices = [\<lparr>dr_slug = ''wallbox'', dr_connectionId = Some 7, dr_retiredAt = None\<rparr>,
     \<lparr>dr_slug = ''old'', dr_connectionId = Some 7, dr_retiredAt = Some 1\<rparr>,
     \<lparr>dr_slug = ''lost'', dr_connectionId = Some 9, dr_retiredAt = None\<rparr>]"

text \<open>A tier that refuses every connection and writes down what it was asked.\<close>

definition refusing_tier :: "string list ConnectionTier" where
  "refusing_tier = \<lparr>ct_kind = ''mqtt'', ct_open = \<lambda>c w. (Some ''refused'', w @ [''open'']),
     ct_attach = \<lambda>c d w. (None, w @ [dr_slug d]), ct_settle = Some (\<lambda>ids w. (None, w @ [''settle''])),
     ct_close = \<lambda>w. (None, w)\<rparr>"

theorem pass_makes_every_call_witness:
  "outcome (openConnections [refusing_tier] two_rows three_devices [])
     = ([\<lparr>tf_connectionId = Some 7, tf_deviceSlug = None, tf_error = ''refused''\<rparr>], [''open'', ''wallbox'', ''settle''])
   \<and> te_unsupported (pa_events (openConnections [refusing_tier] two_rows three_devices [])) = [(8, ''modbus'')]
   \<and> te_dangling (pa_events (openConnections [refusing_tier] two_rows three_devices [])) = [''lost'']"
proof -
  have "distinct (map cr_id two_rows)" by (simp add: two_rows_def)
  note p = pass_makes_every_call [OF this, of "[refusing_tier]" three_devices "[]"]
  moreover have "do_calls [refusing_tier] (pass_plan [refusing_tier] two_rows three_devices) []
      = ([\<lparr>tf_connectionId = Some 7, tf_deviceSlug = None, tf_error = ''refused''\<rparr>], [''open'', ''wallbox'', ''settle''])" by code_simp
  moreover have "[(cr_id c, cr_kind c). c \<leftarrow> two_rows, first_tier [refusing_tier] (cr_kind c) = None] = [(8, ''modbus'')]"
    "[dr_slug d. d \<leftarrow> three_devices, dr_retiredAt d = None, Some k \<leftarrow> [dr_connectionId d], k \<notin> cr_id ` set two_rows] = [''lost'']"
    by code_simp+
  ultimately show ?thesis by simp
qed

definition first_pass :: "mqtt_world pass" where
  "first_pass = reloadConnections (\<lambda>n. ([ClientConnect 1 5], None)) two_rows three_devices
     \<lparr>mw_links = [], mw_pool = empty_pool, mw_effects = [], mw_awaits = 0\<rparr>"

text \<open>The first pass of a process leaves one holder of the broker row in the pool: the tier's link.\<close>

theorem pass_holds_the_brokers_witness:
  "\<exists>h. js_get (mw_links (pa_world first_pass)) 7 = Some h \<and> Collect (held_by (mw_pool (pa_world first_pass)) 7) = {h}"
proof -
  have start: "tier_ok \<lparr>mw_links = [], mw_pool = empty_pool, mw_effects = [], mw_awaits = 0\<rparr>"
    by (simp add: tier_ok_def registry_empty) (simp add: not_closing_def empty_pool_def)
  have "distinct (map cr_id two_rows)" by (simp add: two_rows_def)
  note now = pass_holds_the_brokers [OF this start first_pass_def [symmetric] refl]
  have "\<lparr>cr_id = 7, cr_params = MqttConnection broker_a\<rparr> \<in> set two_rows" by (simp add: two_rows_def)
  then obtain h where h: "js_get (mw_links (pa_world first_pass)) 7 = Some h" "held_by (mw_pool (pa_world first_pass)) 7 h"
    using now by (auto simp: is_broker_def)
  have "no_acquire (\<lambda>n. ([ClientConnect 1 5], None))" by (simp add: no_acquire_def acquires_def)
  moreover have "\<not> held_by empty_pool i g" for i g by (simp add: held_by_def empty_pool_def)
  ultimately have "g = h" if "held_by (mw_pool (pa_world first_pass)) 7 g" for g
    using now that h(1) by fastforce
  then show ?thesis using h by blast
qed

end
