(* ===== verification/Ev_Power_Estimator.thy ===== *)
theory Ev_Power_Estimator
  imports Prelude
begin

text \<open>
  \<^verbatim>\<open>apps/server/src/evcc/ev-power-estimator.ts\<close>: the live charge power of every loadpoint between two
  publishes of EVCC. The closure's variables are the record \<open>estimator\<close>; \<open>nowFn()\<close> is an argument of
  the handlers that read it. The loops over \<open>lps.values()\<close> update the map in place, so they run over its
  keys and read each loadpoint when they reach it. Handlers return whether the output changed.
\<close>

datatype ChargePowerSource = Measured | Estimated | Feedforward

record LiveChargePower =
  lv_watts :: int
  lv_source :: ChargePowerSource

record LoadpointParams =
  lq_charging :: bool
  lq_connected :: bool
  lq_mode :: "string option"
  lq_phasesActive :: "number option"
  lq_maxCurrentA :: "number option"

record prediction =
  pd_expectW :: number
  pd_deadline :: millis

record LoadpointState =
  lp_params :: LoadpointParams
  lp_estimate :: number
  lp_source :: ChargePowerSource
  lp_anchorPower :: number
  lp_lastStepAt :: millis
  lp_pending :: "prediction option"

definition VOLTS :: number where "VOLTS = 230"
definition NOISE_W :: number where "NOISE_W = 150"
definition SNAP_TOLERANCE :: number where "SNAP_TOLERANCE = 1 / 10"
definition SNAP_TOLERANCE_MAX_A :: number where "SNAP_TOLERANCE_MAX_A = 4 / 10"
definition MIN_STEP_GAP_MS :: int where "MIN_STEP_GAP_MS = 3000"
definition DEFAULT_MAX_CURRENT_A :: number where "DEFAULT_MAX_CURRENT_A = 16"
definition FEEDFORWARD_TIMEOUT_MS :: int where "FEEDFORWARD_TIMEOUT_MS = 75000"
definition CONFIRM_TOLERANCE_W :: number where "CONFIRM_TOLERANCE_W = 300"
definition CLAMP_HEADROOM :: number where "CLAMP_HEADROOM = 11 / 10"

definition defaultParams :: LoadpointParams where
  "defaultParams = \<lparr>lq_charging = False, lq_connected = False, lq_mode = None, lq_phasesActive = None, lq_maxCurrentA = None\<rparr>"

definition or_default :: "number option \<Rightarrow> number \<Rightarrow> number" where
  "or_default x d = (case x of Some v \<Rightarrow> v | None \<Rightarrow> d)"

definition snapsToChargerStep :: "number \<Rightarrow> number \<Rightarrow> number \<Rightarrow> bool" where
  "snapsToChargerStep deltaW phases maxA =
     (let amps = \<bar>deltaW\<bar> / (VOLTS * phases); nearest = of_int (math_round amps)
      in if nearest < 1 \<or> nearest > maxA then False
         else \<bar>amps - nearest\<bar> \<le> min (nearest * SNAP_TOLERANCE) SNAP_TOLERANCE_MAX_A)"

record estimator =
  es_lps :: "(int, LoadpointState) js_map"
  es_baseline :: "number option"
  es_lastLoadW :: "number option"

definition createEvPowerEstimator :: estimator where
  "createEvPowerEstimator = \<lparr>es_lps = [], es_baseline = None, es_lastLoadW = None\<rparr>"

definition new_loadpoint :: LoadpointState where
  "new_loadpoint = \<lparr>lp_params = defaultParams, lp_estimate = 0, lp_source = Measured, lp_anchorPower = 0,
     lp_lastStepAt = 0, lp_pending = None\<rparr>"

definition getOrCreate :: "int \<Rightarrow> estimator \<Rightarrow> LoadpointState" where
  "getOrCreate index e = (case js_get (es_lps e) index of Some lp \<Rightarrow> lp | None \<Rightarrow> new_loadpoint)"

definition put_lp :: "int \<Rightarrow> LoadpointState \<Rightarrow> estimator \<Rightarrow> estimator" where
  "put_lp index lp e = e\<lparr>es_lps := js_set index lp (es_lps e)\<rparr>"

definition total_estimate :: "estimator \<Rightarrow> number" where
  "total_estimate e = sum_list (map (\<lambda>(_, lp). lp_estimate lp) (es_lps e))"

definition maxWatts :: "LoadpointState \<Rightarrow> number" where
  "maxWatts lp = or_default (lq_phasesActive (lp_params lp)) 3 * VOLTS
     * or_default (lq_maxCurrentA (lp_params lp)) DEFAULT_MAX_CURRENT_A * CLAMP_HEADROOM"

definition anchorPower :: "int \<Rightarrow> number \<Rightarrow> estimator \<Rightarrow> bool \<times> estimator" where
  "anchorPower index watts e =
     (let lp = getOrCreate index e;
          changed = (lp_estimate lp \<noteq> watts \<or> lp_source lp \<noteq> Measured \<or> lp_pending lp \<noteq> None);
          e' = put_lp index (lp\<lparr>lp_anchorPower := watts, lp_estimate := watts, lp_source := Measured, lp_pending := None\<rparr>) e
      in (changed, e'\<lparr>es_baseline := (case es_lastLoadW e' of Some l \<Rightarrow> Some (l - total_estimate e') | None \<Rightarrow> None)\<rparr>))"

text \<open>\<open>Partial<LoadpointParams>\<close>: the keys that are there.\<close>

datatype param =
    Charging bool
  | Connected bool
  | Mode "string option"
  | PhasesActive "number option"
  | MaxCurrentA "number option"

fun assign_param :: "param \<Rightarrow> LoadpointParams \<Rightarrow> LoadpointParams" where
  "assign_param (Charging b) q = q\<lparr>lq_charging := b\<rparr>"
| "assign_param (Connected b) q = q\<lparr>lq_connected := b\<rparr>"
| "assign_param (Mode m) q = q\<lparr>lq_mode := m\<rparr>"
| "assign_param (PhasesActive n) q = q\<lparr>lq_phasesActive := n\<rparr>"
| "assign_param (MaxCurrentA n) q = q\<lparr>lq_maxCurrentA := n\<rparr>"

definition updateParams :: "int \<Rightarrow> param list \<Rightarrow> estimator \<Rightarrow> estimator" where
  "updateParams index params e =
     (let lp = getOrCreate index e in put_lp index (lp\<lparr>lp_params := fold assign_param params (lp_params lp)\<rparr>) e)"

definition expectedWattsForMode :: "LoadpointState \<Rightarrow> string \<Rightarrow> number option" where
  "expectedWattsForMode lp mode =
     (if mode = ''off'' then Some 0
      else if mode \<noteq> ''now'' then None
      else if \<not> lq_connected (lp_params lp) then None
      else (case lq_phasesActive (lp_params lp) of
          None \<Rightarrow> None
        | Some phases \<Rightarrow> Some (phases * VOLTS * or_default (lq_maxCurrentA (lp_params lp)) DEFAULT_MAX_CURRENT_A)))"

definition settledAt :: "LoadpointState \<Rightarrow> number \<Rightarrow> bool" where
  "settledAt lp expectW \<longleftrightarrow> lp_estimate lp = expectW \<and> lp_pending lp = None \<and> lp_source lp = Measured"

definition feedForward :: "int \<Rightarrow> string \<Rightarrow> string \<Rightarrow> millis \<Rightarrow> estimator \<Rightarrow> bool \<times> estimator" where
  "feedForward index key val now e =
     (if key \<noteq> ''mode'' then (False, e)
      else let lp = getOrCreate index e; e1 = put_lp index lp e in
        case expectedWattsForMode lp val of
          None \<Rightarrow> (False, e1)
        | Some expectW \<Rightarrow>
            if settledAt lp expectW then (False, e1)
            else (lp_estimate lp \<noteq> expectW \<or> lp_source lp \<noteq> Feedforward,
                  put_lp index (lp\<lparr>lp_pending := Some \<lparr>pd_expectW = expectW, pd_deadline = now + FEEDFORWARD_TIMEOUT_MS\<rparr>,
                    lp_estimate := expectW, lp_source := Feedforward\<rparr>) e1))"

definition attributable :: "LoadpointState \<Rightarrow> number \<Rightarrow> millis \<Rightarrow> bool" where
  "attributable lp deltaW now =
     (if now - lp_lastStepAt lp < MIN_STEP_GAP_MS then False
      else if lq_mode (lp_params lp) = Some ''now'' \<and> deltaW > 0 then False
      else let maxA = or_default (lq_maxCurrentA (lp_params lp)) DEFAULT_MAX_CURRENT_A;
               candidates = (case lq_phasesActive (lp_params lp) of Some p \<Rightarrow> [p] | None \<Rightarrow> [1, 3])
           in list_ex (\<lambda>phases. snapsToChargerStep deltaW phases maxA) candidates)"

definition confirmPending :: "LoadpointState \<Rightarrow> bool \<times> LoadpointState" where
  "confirmPending lp = (let source = (if lp_estimate lp = lp_anchorPower lp then Measured else Estimated)
     in (lp_source lp \<noteq> source, lp\<lparr>lp_pending := None, lp_source := source\<rparr>))"

definition revertPending :: "LoadpointState \<Rightarrow> bool \<times> LoadpointState" where
  "revertPending lp = (lp_estimate lp \<noteq> lp_anchorPower lp \<or> lp_source lp \<noteq> Measured,
     lp\<lparr>lp_pending := None, lp_estimate := lp_anchorPower lp, lp_source := Measured\<rparr>)"

definition resolve_one :: "number \<Rightarrow> millis \<Rightarrow> int \<Rightarrow> bool \<times> estimator \<Rightarrow> bool \<times> estimator" where
  "resolve_one loadW now index ce = (case ce of (changed, e) \<Rightarrow>
     let lp = getOrCreate index e in
     case lp_pending lp of
       None \<Rightarrow> (changed, e)
     | Some p \<Rightarrow>
         let confirmed = (case es_baseline e of None \<Rightarrow> False
               | Some b \<Rightarrow> \<bar>loadW - (b + total_estimate e)\<bar> \<le> CONFIRM_TOLERANCE_W)
         in if confirmed then (fst (confirmPending lp) \<or> changed, put_lp index (snd (confirmPending lp)) e)
            else if now \<ge> pd_deadline p then (fst (revertPending lp) \<or> changed, put_lp index (snd (revertPending lp)) e)
            else (changed, e))"

definition resolvePending :: "number \<Rightarrow> millis \<Rightarrow> estimator \<Rightarrow> bool \<times> estimator" where
  "resolvePending loadW now e = fold (resolve_one loadW now) (map fst (es_lps e)) (False, e)"

definition applyResidual :: "number \<Rightarrow> millis \<Rightarrow> estimator \<Rightarrow> bool \<times> estimator" where
  "applyResidual delta now e =
     (let absorbed = (False, e\<lparr>es_baseline := Some (or_default (es_baseline e) 0 + delta)\<rparr>)
      in case filter (\<lambda>(_, lp). lq_charging (lp_params lp)) (es_lps e) of
           [(index, lp)] \<Rightarrow>
             if attributable lp delta now
             then (True, put_lp index (lp\<lparr>lp_estimate := min (max (lp_estimate lp + delta) 0) (maxWatts lp),
                     lp_source := Estimated, lp_lastStepAt := now\<rparr>) e)
             else absorbed
         | _ \<Rightarrow> absorbed)"

definition onLoadSample :: "number option \<Rightarrow> millis \<Rightarrow> estimator \<Rightarrow> bool \<times> estimator" where
  "onLoadSample load now e = (case load of
     None \<Rightarrow> (False, e\<lparr>es_baseline := None, es_lastLoadW := None\<rparr>)
   | Some loadW \<Rightarrow>
       (case resolvePending loadW now (e\<lparr>es_lastLoadW := Some loadW\<rparr>) of (changed, e1) \<Rightarrow>
         (case es_baseline e1 of
            None \<Rightarrow> (changed, e1\<lparr>es_baseline := Some (loadW - total_estimate e1)\<rparr>)
          | Some b \<Rightarrow>
              if list_ex (\<lambda>(_, lp). lp_pending lp \<noteq> None) (es_lps e1) then (changed, e1)
              else let delta = loadW - (b + total_estimate e1) in
                if \<bar>delta\<bar> < NOISE_W then (changed, e1\<lparr>es_baseline := Some (b + delta)\<rparr>)
                else (case applyResidual delta now e1 of (c, e2) \<Rightarrow> (c \<or> changed, e2)))))"

definition live :: "estimator \<Rightarrow> int \<Rightarrow> LiveChargePower option" where
  "live e index = map_option (\<lambda>lp. \<lparr>lv_watts = math_round (lp_estimate lp), lv_source = lp_source lp\<rparr>) (js_get (es_lps e) index)"

definition reset :: "estimator \<Rightarrow> estimator" where
  "reset e = \<lparr>es_lps = [], es_baseline = None, es_lastLoadW = None\<rparr>"

datatype estimator_event =
    AnchorPower int number
  | UpdateParams int "param list"
  | FeedForward int string string
  | LoadSample "number option"
  | Reset

text \<open>An event happens at a time.\<close>

fun estimator_step :: "estimator \<Rightarrow> millis \<times> estimator_event \<Rightarrow> bool \<times> estimator" where
  "estimator_step e (now, AnchorPower index watts) = anchorPower index watts e"
| "estimator_step e (now, UpdateParams index params) = (False, updateParams index params e)"
| "estimator_step e (now, FeedForward index key val) = feedForward index key val now e"
| "estimator_step e (now, LoadSample load) = onLoadSample load now e"
| "estimator_step e (now, Reset) = (False, reset e)"

fun estimate_run :: "estimator \<Rightarrow> (millis \<times> estimator_event) list \<Rightarrow> estimator" where
  "estimate_run e [] = e"
| "estimate_run e (ev # evs) = estimate_run (snd (estimator_step e ev)) evs"

subsection \<open>A label says where the value is from\<close>

definition truthful :: "LoadpointState \<Rightarrow> bool" where
  "truthful lp \<longleftrightarrow> (case lp_source lp of
     Measured \<Rightarrow> lp_pending lp = None \<and> lp_estimate lp = lp_anchorPower lp
   | Estimated \<Rightarrow> lp_pending lp = None
   | Feedforward \<Rightarrow> (\<exists>p. lp_pending lp = Some p \<and> lp_estimate lp = pd_expectW p))"

text \<open>What is said of every loadpoint, and kept when one is replaced by another it holds of.\<close>

definition all_lps :: "(int \<Rightarrow> LoadpointState \<Rightarrow> bool) \<Rightarrow> estimator \<Rightarrow> bool" where
  "all_lps P e \<longleftrightarrow> distinct (map fst (es_lps e)) \<and> (\<forall>i lp. js_get (es_lps e) i = Some lp \<longrightarrow> P i lp)"

lemma all_lps_put [intro]: "all_lps P e \<Longrightarrow> P i lp \<Longrightarrow> all_lps P (put_lp i lp e)"
  by (simp add: all_lps_def put_lp_def js_set_distinct)

lemma all_lps_frame [simp]:
  "all_lps P (e\<lparr>es_baseline := b\<rparr>) \<longleftrightarrow> all_lps P e" "all_lps P (e\<lparr>es_lastLoadW := l\<rparr>) \<longleftrightarrow> all_lps P e"
  by (simp_all add: all_lps_def)

lemma all_lps_get: "all_lps P e \<Longrightarrow> P i new_loadpoint \<Longrightarrow> P i (getOrCreate i e)"
  by (simp add: all_lps_def getOrCreate_def split: option.split)

text \<open>What the handlers may do to a loadpoint.\<close>

definition kept_by_handlers :: "(int \<Rightarrow> LoadpointState \<Rightarrow> bool) \<Rightarrow> bool" where
  "kept_by_handlers P \<longleftrightarrow> (\<forall>i. P i new_loadpoint)
     \<and> (\<forall>i lp w. P i lp \<longrightarrow> P i (lp\<lparr>lp_anchorPower := w, lp_estimate := w, lp_source := Measured, lp_pending := None\<rparr>))
     \<and> (\<forall>i lp q. P i lp \<longrightarrow> P i (lp\<lparr>lp_params := q\<rparr>))
     \<and> (\<forall>i lp. P i lp \<and> lp_pending lp \<noteq> None \<longrightarrow> P i (snd (confirmPending lp)) \<and> P i (snd (revertPending lp)))
     \<and> (\<forall>i lp w t. P i lp \<and> lp_pending lp = None \<longrightarrow> P i (lp\<lparr>lp_estimate := w, lp_source := Estimated, lp_lastStepAt := t\<rparr>))"

definition predicted :: "number \<Rightarrow> millis \<Rightarrow> LoadpointState \<Rightarrow> LoadpointState" where
  "predicted w now lp = lp\<lparr>lp_pending := Some \<lparr>pd_expectW = w, pd_deadline = now + FEEDFORWARD_TIMEOUT_MS\<rparr>,
     lp_estimate := w, lp_source := Feedforward\<rparr>"

lemma kept_get: "kept_by_handlers P \<Longrightarrow> all_lps P e \<Longrightarrow> P i (getOrCreate i e)"
  by (rule all_lps_get) (simp_all add: kept_by_handlers_def)

lemma all_lps_anchor:
  assumes "kept_by_handlers P" and "all_lps P e"
  shows "all_lps P (snd (anchorPower i w e))"
proof -
  have "P i ((getOrCreate i e)\<lparr>lp_anchorPower := w, lp_estimate := w, lp_source := Measured, lp_pending := None\<rparr>)"
    using kept_get [OF assms, of i] assms(1) unfolding kept_by_handlers_def by blast
  from all_lps_put [OF assms(2) this] show ?thesis unfolding anchorPower_def Let_def by simp
qed

lemma all_lps_params:
  assumes "kept_by_handlers P" and "all_lps P e"
  shows "all_lps P (updateParams i ps e)"
proof -
  have "P i ((getOrCreate i e)\<lparr>lp_params := q\<rparr>)" for q
    using kept_get [OF assms, of i] assms(1) unfolding kept_by_handlers_def by blast
  from all_lps_put [OF assms(2) this] show ?thesis unfolding updateParams_def Let_def by simp
qed

lemma all_lps_feed:
  assumes "kept_by_handlers P" and "all_lps P e" and "\<And>lp w. P i lp \<Longrightarrow> P i (predicted w now lp)"
  shows "all_lps P (snd (feedForward i key val now e))"
proof -
  have lp: "P i (getOrCreate i e)" by (rule kept_get [OF assms(1-2)])
  then show ?thesis using assms(2) assms(3) [OF lp]
    unfolding feedForward_def Let_def predicted_def by (auto split: option.split)
qed

text \<open>
  The same for the loadpoints as the handlers see them, one not there being a new one. What a load
  sample does needs less of the property: it confirms or reverts a prediction, or attributes a step.
\<close>

definition all_get :: "(int \<Rightarrow> LoadpointState \<Rightarrow> bool) \<Rightarrow> estimator \<Rightarrow> bool" where
  "all_get P e \<longleftrightarrow> distinct (map fst (es_lps e)) \<and> (\<forall>i. P i (getOrCreate i e))"

definition kept_by_load :: "(int \<Rightarrow> LoadpointState \<Rightarrow> bool) \<Rightarrow> bool" where
  "kept_by_load P \<longleftrightarrow>
     (\<forall>i lp. P i lp \<and> lp_pending lp \<noteq> None \<longrightarrow> P i (snd (confirmPending lp)) \<and> P i (snd (revertPending lp)))
     \<and> (\<forall>i lp w t. P i lp \<and> lp_pending lp = None \<longrightarrow> P i (lp\<lparr>lp_estimate := w, lp_source := Estimated, lp_lastStepAt := t\<rparr>))"

lemma getOrCreate_put [simp]: "getOrCreate j (put_lp i lp e) = (if j = i then lp else getOrCreate j e)"
  by (simp add: getOrCreate_def put_lp_def)

lemma getOrCreate_frame [simp]:
  "getOrCreate i (e\<lparr>es_baseline := b\<rparr>) = getOrCreate i e" "getOrCreate i (e\<lparr>es_lastLoadW := l\<rparr>) = getOrCreate i e"
  by (simp_all add: getOrCreate_def)

lemma getOrCreate_there: "js_get (es_lps e) i = Some lp \<Longrightarrow> getOrCreate i e = lp"
  by (simp add: getOrCreate_def)

lemma all_get_put: "all_get P e \<Longrightarrow> P i lp \<Longrightarrow> all_get P (put_lp i lp e)"
  by (simp add: all_get_def) (simp add: put_lp_def js_set_distinct)

lemma all_get_frame [simp]:
  "all_get P (e\<lparr>es_baseline := b\<rparr>) \<longleftrightarrow> all_get P e" "all_get P (e\<lparr>es_lastLoadW := l\<rparr>) \<longleftrightarrow> all_get P e"
  by (simp_all add: all_get_def)

lemma all_lps_all_get: "(\<And>i. P i new_loadpoint) \<Longrightarrow> all_lps P e \<longleftrightarrow> all_get P e"
  unfolding all_lps_def all_get_def getOrCreate_def by (auto split: option.split)

lemma all_get_resolve_one:
  assumes "kept_by_load P" and "all_get P (snd ce)"
  shows "all_get P (snd (resolve_one loadW now i ce))"
proof -
  obtain c e where ce: "ce = (c, e)" by force
  have lp: "P i (getOrCreate i e)" using assms(2) unfolding ce all_get_def by simp
  show ?thesis
  proof (cases "lp_pending (getOrCreate i e)")
    case None
    then show ?thesis using assms(2) unfolding ce by (simp add: resolve_one_def Let_def)
  next
    case (Some p)
    then have "P i (snd (confirmPending (getOrCreate i e)))" "P i (snd (revertPending (getOrCreate i e)))"
      using assms(1) lp unfolding kept_by_load_def by auto
    then show ?thesis using assms(2) Some unfolding ce by (auto simp: resolve_one_def Let_def intro: all_get_put)
  qed
qed

lemma all_get_resolve:
  assumes "kept_by_load P" and "all_get P e"
  shows "all_get P (snd (resolvePending loadW now e))"
proof -
  have "all_get P (snd ce) \<Longrightarrow> all_get P (snd (fold (resolve_one loadW now) ks ce))" for ks ce
    by (induction ks arbitrary: ce) (simp_all add: all_get_resolve_one [OF assms(1)])
  then show ?thesis using assms(2) unfolding resolvePending_def by simp
qed

lemma applyResidual_cases:
  assumes "distinct (map fst (es_lps e))"
  obtains (absorbed) "applyResidual delta now e = (False, e\<lparr>es_baseline := Some (or_default (es_baseline e) 0 + delta)\<rparr>)"
  | (attributed) i lp where "js_get (es_lps e) i = Some lp" "attributable lp delta now"
      "applyResidual delta now e = (True, put_lp i (lp\<lparr>lp_estimate := min (max (lp_estimate lp + delta) 0) (maxWatts lp),
        lp_source := Estimated, lp_lastStepAt := now\<rparr>) e)"
proof (cases "\<exists>i lp. filter (\<lambda>(_, lp). lq_charging (lp_params lp)) (es_lps e) = [(i, lp)] \<and> attributable lp delta now")
  case True
  then obtain i lp where f: "filter (\<lambda>(_, lp). lq_charging (lp_params lp)) (es_lps e) = [(i, lp)]" "attributable lp delta now" by blast
  have "(i, lp) \<in> set (filter (\<lambda>(_, lp). lq_charging (lp_params lp)) (es_lps e))" unfolding f(1) by simp
  then have "(i, lp) \<in> set (es_lps e)" by simp
  then have "js_get (es_lps e) i = Some lp" using assms by simp
  then show thesis using f by (intro attributed [of i lp]) (simp_all add: applyResidual_def Let_def)
next
  case False
  then show thesis by (intro absorbed) (auto simp: applyResidual_def Let_def split: list.split)
qed

lemma all_get_load:
  assumes "kept_by_load P" and "all_get P e"
  shows "all_get P (snd (onLoadSample load now e))"
proof (cases load)
  case (Some loadW)
  obtain c e1 where r: "resolvePending loadW now (e\<lparr>es_lastLoadW := Some loadW\<rparr>) = (c, e1)" by force
  have e1: "all_get P e1" using all_get_resolve [OF assms(1), of "e\<lparr>es_lastLoadW := Some loadW\<rparr>" loadW now] assms(2) r by simp
  have "all_get P (snd (applyResidual delta now e1))" if none: "\<not> list_ex (\<lambda>(_, lp). lp_pending lp \<noteq> None) (es_lps e1)" for delta
  proof (rule applyResidual_cases [of e1 delta now])
    show "distinct (map fst (es_lps e1))" using e1 by (simp add: all_get_def)
  next
    fix i lp assume a: "js_get (es_lps e1) i = Some lp" "applyResidual delta now e1 = (True, put_lp i (lp\<lparr>lp_estimate := min (max (lp_estimate lp + delta) 0) (maxWatts lp),
        lp_source := Estimated, lp_lastStepAt := now\<rparr>) e1)"
    then have "lp_pending lp = None" using none by (auto simp: list_ex_iff dest!: map_of_SomeD)
    moreover have "P i lp" using e1 getOrCreate_there [OF a(1)] unfolding all_get_def by metis
    ultimately show ?thesis using a(2) e1 assms(1) unfolding kept_by_load_def by (auto intro!: all_get_put)
  qed (use e1 in simp)
  then show ?thesis using e1 Some r
    by (auto simp: onLoadSample_def Let_def split: option.split prod.split) (metis snd_conv)+
qed (use assms(2) in \<open>simp add: onLoadSample_def\<close>)

lemma kept_by_handlers_load: "kept_by_handlers P \<Longrightarrow> kept_by_load P" "kept_by_handlers P \<Longrightarrow> P i new_loadpoint"
  unfolding kept_by_handlers_def kept_by_load_def by simp_all

lemma all_lps_resolve:
  "kept_by_handlers P \<Longrightarrow> all_lps P e \<Longrightarrow> all_lps P (snd (resolvePending loadW now e))"
  using all_get_resolve [of P e] by (simp add: all_lps_all_get kept_by_handlers_load)

lemma all_lps_load:
  "kept_by_handlers P \<Longrightarrow> all_lps P e \<Longrightarrow> all_lps P (snd (onLoadSample load now e))"
  using all_get_load [of P e] by (simp add: all_lps_all_get kept_by_handlers_load)

text \<open>An indexed property the handlers keep holds along a run whose predictions keep it.\<close>

lemma all_lps_step:
  assumes "kept_by_handlers P" and "all_lps P e"
    and "\<And>now i val lp w. ev = (now, FeedForward i ''mode'' val) \<Longrightarrow> P i lp \<Longrightarrow> P i (predicted w now lp)"
  shows "all_lps P (snd (estimator_step e ev))"
proof -
  obtain now x where ev: "ev = (now, x)" by force
  show ?thesis
  proof (cases x)
    case (FeedForward i key val)
    then show ?thesis using all_lps_feed [OF assms(1-2), of i now key val] assms(3) assms(2)
      by (cases "key = ''mode''") (auto simp: ev feedForward_def)
  next
    case Reset
    then show ?thesis by (simp add: ev reset_def all_lps_def)
  qed (use assms(1-2) in \<open>simp_all add: ev all_lps_anchor all_lps_params all_lps_load\<close>)
qed


lemma estimate_run_append: "estimate_run e (xs @ ys) = estimate_run (estimate_run e xs) ys"
  by (induction xs arbitrary: e) simp_all

lemma all_lps_run:
  assumes "kept_by_handlers P" and "all_lps P e"
    and "\<And>now i val lp w. (now, FeedForward i ''mode'' val) \<in> set evs \<Longrightarrow> P i lp \<Longrightarrow> P i (predicted w now lp)"
  shows "all_lps P (estimate_run e evs)"
  using assms(2-3)
proof (induction evs arbitrary: e)
  case (Cons ev evs)
  have "all_lps P (snd (estimator_step e ev))"
  proof (rule all_lps_step [OF assms(1) Cons.prems(1)])
    fix now i val lp w
    assume "ev = (now, FeedForward i ''mode'' val)" and "P i lp"
    then show "P i (predicted w now lp)" using Cons.prems(2) [of now i val lp w] by simp
  qed
  then have "all_lps P (estimate_run (snd (estimator_step e ev)) evs)"
  proof (rule Cons.IH)
    fix now i val lp w
    assume "(now, FeedForward i ''mode'' val) \<in> set evs" and "P i lp"
    then show "P i (predicted w now lp)" using Cons.prems(2) [of now i val lp w] by simp
  qed
  then show ?case by simp
qed simp

lemma all_lps_new: "all_lps P createEvPowerEstimator"
  by (simp add: all_lps_def createEvPowerEstimator_def)

lemma truthful_kept: "kept_by_handlers (\<lambda>i. truthful)"
  unfolding kept_by_handlers_def truthful_def new_loadpoint_def confirmPending_def revertPending_def Let_def
  by (auto split: ChargePowerSource.splits)

text \<open>
  What EVCC and the commands said, read off the events since the last reset: the power last
  published, the facts mirrored from the state topics, and the level a mode command implies.
\<close>

definition published_by :: "millis \<times> estimator_event \<Rightarrow> (int \<Rightarrow> number) \<Rightarrow> int \<Rightarrow> number" where
  "published_by ev f = (case snd ev of AnchorPower i w \<Rightarrow> f(i := w) | Reset \<Rightarrow> (\<lambda>_. 0) | _ \<Rightarrow> f)"

definition last_published :: "(millis \<times> estimator_event) list \<Rightarrow> int \<Rightarrow> number" where
  "last_published evs = fold published_by evs (\<lambda>_. 0)"

definition told_by :: "millis \<times> estimator_event \<Rightarrow> (int \<Rightarrow> LoadpointParams) \<Rightarrow> int \<Rightarrow> LoadpointParams" where
  "told_by ev f = (case snd ev of
     UpdateParams i ps \<Rightarrow> f(i := fold assign_param ps (f i)) | Reset \<Rightarrow> (\<lambda>_. defaultParams) | _ \<Rightarrow> f)"

definition told :: "(millis \<times> estimator_event) list \<Rightarrow> int \<Rightarrow> LoadpointParams" where
  "told evs = fold told_by evs (\<lambda>_. defaultParams)"

definition implied_level :: "string \<Rightarrow> LoadpointParams \<Rightarrow> number option" where
  "implied_level mode q =
     (if mode = ''off'' then Some 0
      else if mode = ''now'' \<and> lq_connected q
      then map_option (\<lambda>n. n * 230 * (case lq_maxCurrentA q of Some a \<Rightarrow> a | None \<Rightarrow> 16)) (lq_phasesActive q)
      else None)"

text \<open>The last command that implied a level, with no publish of that loadpoint and no reset since.\<close>

definition in_flight :: "(millis \<times> estimator_event) list \<Rightarrow> int \<Rightarrow> number \<Rightarrow> millis \<Rightarrow> bool" where
  "in_flight evs i level deadline \<longleftrightarrow> (\<exists>before t mode after. evs = before @ (t, FeedForward i ''mode'' mode) # after
     \<and> implied_level mode (told before i) = Some level \<and> deadline = t + 75000
     \<and> Reset \<notin> snd ` set after \<and> (\<forall>w. AnchorPower i w \<notin> snd ` set after))"

lemma in_flight_new:
  "implied_level mode (told evs i) = Some level \<Longrightarrow> in_flight (evs @ [(t, FeedForward i ''mode'' mode)]) i level (t + 75000)"
  unfolding in_flight_def by (intro exI conjI) (rule refl, simp_all)

lemma in_flight_later:
  assumes "in_flight evs i level deadline" and "snd ev \<noteq> Reset" and "\<And>w. snd ev \<noteq> AnchorPower i w"
  shows "in_flight (evs @ [ev]) i level deadline"
proof -
  obtain before t mode after where "evs = before @ (t, FeedForward i ''mode'' mode) # after"
    "implied_level mode (told before i) = Some level" "deadline = t + 75000"
    "Reset \<notin> snd ` set after" "\<forall>w. AnchorPower i w \<notin> snd ` set after"
    using assms(1) unfolding in_flight_def by blast
  moreover have "\<forall>w. AnchorPower i w \<noteq> snd ev" using assms(3) by metis
  ultimately show ?thesis unfolding in_flight_def using assms(2)
    by - (rule exI [of _ before], rule exI [of _ t], rule exI [of _ mode], rule exI [of _ "after @ [ev]"], auto)
qed

definition backed :: "(millis \<times> estimator_event) list \<Rightarrow> int \<Rightarrow> LoadpointState \<Rightarrow> bool" where
  "backed evs i lp \<longleftrightarrow> lp_anchorPower lp = last_published evs i \<and> lp_params lp = told evs i
     \<and> (case lp_source lp of
          Measured \<Rightarrow> lp_pending lp = None \<and> lp_estimate lp = lp_anchorPower lp
        | Estimated \<Rightarrow> lp_pending lp = None
        | Feedforward \<Rightarrow> (\<exists>level deadline. lp_pending lp = Some \<lparr>pd_expectW = level, pd_deadline = deadline\<rparr>
            \<and> lp_estimate lp = level \<and> in_flight evs i level deadline))"

lemma events_snoc:
  "last_published (evs @ [ev]) = published_by ev (last_published evs)" "told (evs @ [ev]) = told_by ev (told evs)"
  unfolding last_published_def told_def by simp_all

lemma backed_load: "kept_by_load (backed evs)"
  unfolding kept_by_load_def backed_def confirmPending_def revertPending_def Let_def
  by (auto split: ChargePowerSource.splits)

lemma backed_later:
  assumes "backed evs i lp" and "last_published (evs @ [ev]) i = last_published evs i" and "told (evs @ [ev]) i = told evs i"
    and "snd ev \<noteq> Reset" and "\<And>w. snd ev \<noteq> AnchorPower i w"
  shows "backed (evs @ [ev]) i lp"
  using assms in_flight_later [of evs i _ _ ev] unfolding backed_def by (auto split: ChargePowerSource.splits)

lemma all_get_feed:
  assumes "all_get P e" and "\<And>w lp. lp = getOrCreate i e \<Longrightarrow> P i lp \<Longrightarrow> expectedWattsForMode lp val = Some w \<Longrightarrow> P' i (predicted w now lp)"
    and "\<And>j lp. P j lp \<Longrightarrow> P' j lp"
  shows "all_get P' (snd (feedForward i ''mode'' val now e))"
proof -
  have e: "all_get P' e" "P' i (getOrCreate i e)" "P i (getOrCreate i e)" using assms(1,3) unfolding all_get_def by auto
  show ?thesis using e(1-2) assms(2) [OF refl e(3)] unfolding feedForward_def Let_def predicted_def
    by (auto split: option.split intro!: all_get_put)
qed

lemma backed_step:
  assumes all: "all_get (backed evs) e"
  shows "all_get (backed (evs @ [ev])) (snd (estimator_step e ev))"
proof -
  obtain now x where ev: "ev = (now, x)" by force
  have own: "backed evs i (getOrCreate i e)" for i using all unfolding all_get_def by blast
  show ?thesis
  proof (cases x)
    case (AnchorPower i w)
    have "all_get (backed (evs @ [ev])) (put_lp i ((getOrCreate i e)\<lparr>lp_anchorPower := w, lp_estimate := w,
        lp_source := Measured, lp_pending := None\<rparr>) e)"
      unfolding all_get_def
    proof (intro conjI allI)
      fix j
      have "backed (evs @ [ev]) j (getOrCreate j e)" if "j \<noteq> i"
        by (rule backed_later [OF own]) (use that in \<open>auto simp: events_snoc published_by_def told_by_def ev AnchorPower\<close>)
      then show "backed (evs @ [ev]) j (getOrCreate j (put_lp i ((getOrCreate i e)\<lparr>lp_anchorPower := w, lp_estimate := w,
          lp_source := Measured, lp_pending := None\<rparr>) e))"
        using own [of i] by (auto simp: backed_def events_snoc published_by_def told_by_def ev AnchorPower)
    qed (use all in \<open>simp add: all_get_def put_lp_def js_set_distinct\<close>)
    then show ?thesis by (simp add: ev AnchorPower anchorPower_def Let_def)
  next
    case (UpdateParams i ps)
    have "all_get (backed (evs @ [ev])) (put_lp i ((getOrCreate i e)\<lparr>lp_params := fold assign_param ps (lp_params (getOrCreate i e))\<rparr>) e)"
      unfolding all_get_def
    proof (intro conjI allI)
      fix j
      have later: "backed (evs @ [ev]) j (getOrCreate j e)" if "j \<noteq> i"
        by (rule backed_later [OF own]) (use that in \<open>auto simp: events_snoc published_by_def told_by_def ev UpdateParams\<close>)
      have "in_flight evs i l d \<Longrightarrow> in_flight (evs @ [ev]) i l d" for l d
        by (rule in_flight_later) (simp_all add: ev UpdateParams)
      then show "backed (evs @ [ev]) j (getOrCreate j (put_lp i ((getOrCreate i e)\<lparr>lp_params :=
          fold assign_param ps (lp_params (getOrCreate i e))\<rparr>) e))"
        using own [of i] later
        by (auto simp: backed_def events_snoc published_by_def told_by_def ev UpdateParams split: ChargePowerSource.splits)
    qed (use all in \<open>simp add: all_get_def put_lp_def js_set_distinct\<close>)
    then show ?thesis by (simp add: ev UpdateParams updateParams_def Let_def)
  next
    case (FeedForward i key val)
    have later: "backed evs j lp \<Longrightarrow> backed (evs @ [ev]) j lp" for j lp
      by (rule backed_later) (auto simp: events_snoc published_by_def told_by_def ev FeedForward)
    show ?thesis
    proof (cases "key = ''mode''")
      case False
      then show ?thesis using all later by (simp add: ev FeedForward feedForward_def all_get_def)
    next
      case True
      have "backed (evs @ [ev]) i (predicted w now lp)"
        if lp: "backed evs i lp" and w: "expectedWattsForMode lp val = Some w" for w lp
      proof -
        have "lp_params lp = told evs i" using lp unfolding backed_def by blast
        then have "implied_level val (told evs i) = Some w"
          using w unfolding expectedWattsForMode_def implied_level_def
          by (auto simp: VOLTS_def or_default_def DEFAULT_MAX_CURRENT_A_def split: if_splits option.splits)
        from in_flight_new [OF this, of now] lp show ?thesis
          by (auto simp: backed_def predicted_def events_snoc published_by_def told_by_def ev FeedForward True FEEDFORWARD_TIMEOUT_MS_def)
      qed
      then show ?thesis using all_get_feed [OF all, where P' = "backed (evs @ [ev])" and i = i and val = val and now = now] later
        by (simp add: ev FeedForward True)
    qed
  next
    case (LoadSample load)
    have later: "backed evs j lp \<Longrightarrow> backed (evs @ [ev]) j lp" for j lp
      by (rule backed_later) (auto simp: events_snoc published_by_def told_by_def ev LoadSample)
    have "all_get (backed evs) (snd (onLoadSample load now e))" by (rule all_get_load [OF backed_load all])
    then show ?thesis using later by (simp add: ev LoadSample all_get_def)
  next
    case Reset
    then show ?thesis
      by (simp add: ev reset_def all_get_def getOrCreate_def new_loadpoint_def backed_def events_snoc published_by_def told_by_def)
  qed
qed

lemma backed_run: "all_get (backed evs) (estimate_run createEvPowerEstimator evs)"
proof (induction evs rule: rev_induct)
  case Nil
  then show ?case
    by (simp add: createEvPowerEstimator_def all_get_def getOrCreate_def new_loadpoint_def backed_def last_published_def told_def)
next
  case (snoc ev evs)
  from backed_step [OF this, of ev] show ?case by (simp add: estimate_run_append)
qed

text \<open>C29. The source shown with a charge power is true of the events that came. After any sequence of
  publishes, state topics, commands, load samples and resets, what is shown of a loadpoint is its
  estimate, rounded, with its label. A value called measured is the last power EVCC published for
  that loadpoint since the last reset, or 0 W when it has published none, and no prediction is in
  flight. One called feedforward is the level implied by a mode command of that loadpoint, by the
  facts EVCC had told until then, with no publish of that loadpoint since, and it is to be reverted
  75 seconds after the command. One called estimated hides no prediction.\<close>

theorem labels_are_truthful:
  "case js_get (es_lps (estimate_run createEvPowerEstimator evs)) i of
     None \<Rightarrow> live (estimate_run createEvPowerEstimator evs) i = None
   | Some lp \<Rightarrow>
       live (estimate_run createEvPowerEstimator evs) i
         = Some \<lparr>lv_watts = math_round (lp_estimate lp), lv_source = lp_source lp\<rparr>
       \<and> (case lp_source lp of
            Measured \<Rightarrow> lp_pending lp = None \<and> lp_estimate lp = last_published evs i
          | Estimated \<Rightarrow> lp_pending lp = None
          | Feedforward \<Rightarrow> (\<exists>level deadline. lp_pending lp = Some \<lparr>pd_expectW = level, pd_deadline = deadline\<rparr>
              \<and> lp_estimate lp = level \<and> in_flight evs i level deadline))"
proof (cases "js_get (es_lps (estimate_run createEvPowerEstimator evs)) i")
  case None
  then show ?thesis by (simp add: live_def)
next
  case (Some lp)
  have "backed evs i lp" using backed_run [of evs] getOrCreate_there [OF Some] unfolding all_get_def by metis
  then show ?thesis using Some by (auto simp: live_def backed_def split: ChargePowerSource.splits)
qed

subsection \<open>A prediction ends\<close>

definition due :: "(int \<Rightarrow> millis set) \<Rightarrow> int \<Rightarrow> LoadpointState \<Rightarrow> bool" where
  "due cmds i lp \<longleftrightarrow> (\<forall>p. lp_pending lp = Some p \<longrightarrow> (\<exists>t\<in>cmds i. pd_deadline p = t + FEEDFORWARD_TIMEOUT_MS))"

lemma due_kept: "kept_by_handlers (due cmds)"
  unfolding kept_by_handlers_def due_def new_loadpoint_def confirmPending_def revertPending_def Let_def by auto

text \<open>Resolving leaves no prediction whose deadline has passed.\<close>

lemma resolve_one_get:
  "js_get (es_lps (snd (resolve_one loadW now i ce))) j =
     (if j = i \<and> (\<exists>p. lp_pending (getOrCreate i (snd ce)) = Some p) then js_get (es_lps (snd (resolve_one loadW now i ce))) i
      else js_get (es_lps (snd ce)) j)"
  by (auto simp: resolve_one_def Let_def put_lp_def split: prod.splits option.splits)

lemma resolve_one_due:
  assumes "js_get (es_lps (snd (resolve_one loadW now i ce))) i = Some lp" and "lp_pending lp = Some p"
  shows "now < pd_deadline p"
  using assms
  by (auto simp: resolve_one_def Let_def put_lp_def confirmPending_def revertPending_def getOrCreate_def new_loadpoint_def
      split: prod.splits option.splits if_splits)

lemma resolve_keys: "map fst (es_lps (snd (resolve_one loadW now i ce))) = map fst (es_lps (snd ce)) \<or> i \<notin> fst ` set (es_lps (snd ce))"
  by (auto simp: resolve_one_def Let_def put_lp_def update_keys split: prod.splits option.splits)

lemma resolvePending_due:
  assumes "js_get (es_lps (snd (resolvePending loadW now e))) i = Some lp" and "lp_pending lp = Some p"
  shows "now < pd_deadline p"
proof -
  have "now < pd_deadline p"
    if "js_get (es_lps (snd (fold (resolve_one loadW now) ks ce))) i = Some lp" "lp_pending lp = Some p"
      "i \<in> set ks \<or> (\<forall>lp p. js_get (es_lps (snd ce)) i = Some lp \<and> lp_pending lp = Some p \<longrightarrow> now < pd_deadline p)" for ks ce lp p
    using that
  proof (induction ks arbitrary: ce)
    case (Cons k ks)
    have "i \<in> set ks \<or> (\<forall>lp p. js_get (es_lps (snd (resolve_one loadW now k ce))) i = Some lp \<and> lp_pending lp = Some p \<longrightarrow> now < pd_deadline p)"
    proof (cases "k = i")
      case True
      then show ?thesis using resolve_one_due by blast
    next
      case False
      then have "js_get (es_lps (snd (resolve_one loadW now k ce))) i = js_get (es_lps (snd ce)) i" using resolve_one_get [of loadW now k ce i] by auto
      then show ?thesis using Cons.prems(3) False by auto
    qed
    from Cons.IH [OF _ Cons.prems(2) this] Cons.prems(1) show ?case by simp
  qed auto
  moreover have "i \<in> set (map fst (es_lps e)) \<or> js_get (es_lps e) i = None" by (auto simp: map_of_eq_None_iff)
  ultimately show ?thesis using assms unfolding resolvePending_def by fastforce
qed

lemma load_due:
  assumes "distinct (map fst (es_lps (snd (resolvePending loadW now (e\<lparr>es_lastLoadW := Some loadW\<rparr>)))))"
    and "js_get (es_lps (snd (onLoadSample (Some loadW) now e))) i = Some lp" and "lp_pending lp = Some p"
  shows "now < pd_deadline p"
proof -
  obtain c e1 where r: "resolvePending loadW now (e\<lparr>es_lastLoadW := Some loadW\<rparr>) = (c, e1)" by force
  have "(\<exists>lp'. js_get (es_lps e1) i = Some lp' \<and> lp_pending lp' = Some p)"
  proof (cases "es_baseline e1")
    case None
    then show ?thesis using assms(2-3) r by (auto simp: onLoadSample_def)
  next
    case (Some b)
    define delta where "delta = loadW - (b + total_estimate e1)"
    have d: "distinct (map fst (es_lps e1))" using assms(1) r by simp
    have eq: "snd (onLoadSample (Some loadW) now e) = (if list_ex (\<lambda>(_, lp). lp_pending lp \<noteq> None) (es_lps e1) then e1
        else if \<bar>delta\<bar> < NOISE_W then e1\<lparr>es_baseline := Some (b + delta)\<rparr> else snd (applyResidual delta now e1))"
      using r Some by (simp add: onLoadSample_def Let_def delta_def split: prod.split)
    have "js_get (es_lps (snd (applyResidual delta now e1))) i = Some lp \<Longrightarrow> \<exists>lp'. js_get (es_lps e1) i = Some lp' \<and> lp_pending lp' = Some p"
      using assms(3) by (cases rule: applyResidual_cases [OF d, of delta now]) (auto simp: put_lp_def split: if_splits)
    then show ?thesis using assms(2-3) unfolding eq by (auto split: if_splits)
  qed
  then show ?thesis using resolvePending_due [of loadW now "e\<lparr>es_lastLoadW := Some loadW\<rparr>" i] r by auto
qed

text \<open>No prediction outlives its deadline while the meter reads: once the last mode command of a loadpoint
  is 75 seconds old, the next load sample leaves it with a measured or an estimated value, whatever
  commands, publishes and samples came before.\<close>

theorem predictions_end:
  assumes "\<forall>(t, ev)\<in>set evs. \<forall>val. ev = FeedForward i ''mode'' val \<longrightarrow> t + FEEDFORWARD_TIMEOUT_MS \<le> now"
    and "e = snd (onLoadSample (Some loadW) now (estimate_run createEvPowerEstimator evs))"
    and "js_get (es_lps e) i = Some lp"
  shows "lp_pending lp = None \<and> lp_source lp \<noteq> Feedforward"
proof -
  define e0 where "e0 = estimate_run createEvPowerEstimator evs"
  define cmds where "cmds j = {t. \<exists>val. (t, FeedForward j ''mode'' val) \<in> set evs}" for j
  have due: "all_lps (due cmds) e0" unfolding e0_def
    by (rule all_lps_run [OF due_kept all_lps_new]) (auto simp: predicted_def due_def cmds_def)
  have "all_lps (due cmds) (e0\<lparr>es_lastLoadW := Some loadW\<rparr>)" using due by simp
  from all_lps_resolve [OF due_kept this]
  have distinct: "distinct (map fst (es_lps (snd (resolvePending loadW now (e0\<lparr>es_lastLoadW := Some loadW\<rparr>)))))" by (simp add: all_lps_def)
  have "due cmds i lp" using all_lps_load [OF due_kept due, of "Some loadW" now] assms(2-3) unfolding e0_def all_lps_def by simp
  moreover have "pd_deadline p \<le> now" if "lp_pending lp = Some p" "due cmds i lp" for p
    using that assms(1) unfolding due_def cmds_def by fastforce
  ultimately have none: "lp_pending lp = None"
    using load_due [OF distinct] assms(2-3) unfolding e0_def by (metis not_None_eq leD)
  have "all_lps (\<lambda>i. truthful) e0" unfolding e0_def
    by (rule all_lps_run [OF truthful_kept all_lps_new]) (simp add: predicted_def truthful_def)
  from all_lps_load [OF truthful_kept this, of "Some loadW" now] have "truthful lp"
    using assms(2-3) unfolding e0_def all_lps_def by simp
  then show ?thesis using none unfolding truthful_def by (cases "lp_source lp") auto
qed

text \<open>A sample without a load leaves every prediction as it is, whatever the time: the deadline is only
  looked at when the meter reads.\<close>

lemma no_load_no_deadline:
  "es_lps (snd (onLoadSample None now e)) = es_lps e" "fst (onLoadSample None now e) = False"
  by (simp_all add: onLoadSample_def)

text \<open>A \<open>now\<close> command whose 11040 W never reach the meter: the sample 75 seconds later puts the
  value EVCC published back.\<close>

lemma predictions_end_witness:
  "\<exists>lp. js_get (es_lps (snd (onLoadSample (Some 500) 176000
     (estimate_run createEvPowerEstimator
       [(0, LoadSample (Some 500)), (1000, UpdateParams 0 [Connected True, PhasesActive (Some 3)]), (2000, AnchorPower 0 0),
        (101000, FeedForward 0 ''mode'' ''now''), (102000, LoadSample (Some 510))])))) 0 = Some lp
     \<and> lp_pending lp = None \<and> lp_source lp \<noteq> Feedforward"
  (is "\<exists>lp. ?get = Some lp \<and> _")
proof -
  have "?get \<noteq> None" by code_simp
  then obtain lp where lp: "?get = Some lp" by blast
  from predictions_end [OF _ refl this] show ?thesis using lp by (simp add: FEEDFORWARD_TIMEOUT_MS_def)
qed

end
