(* ===== verification/Keyed_Sums.thy ===== *)
theory Keyed_Sums
  imports Prelude
begin

text \<open>
  Accumulating into a \<open>Map\<close> by key, the loop
  \<open>for (x of xs) { v = m.get(key(x)) ?? init; \<dots> m.set(key(x), v) }\<close>: the entry of a key is the fold of the
  elements that have it. And the decimal texts that keys are made of.
\<close>

definition upsert :: "'k \<Rightarrow> 'v \<Rightarrow> ('v \<Rightarrow> 'v) \<Rightarrow> ('k, 'v) js_map \<Rightarrow> ('k, 'v) js_map" where
  "upsert k init f m = js_set k (f (case js_get m k of Some v \<Rightarrow> v | None \<Rightarrow> init)) m"

definition group_fold :: "('x \<Rightarrow> 'k) \<Rightarrow> ('k \<Rightarrow> 'v) \<Rightarrow> ('x \<Rightarrow> 'v \<Rightarrow> 'v) \<Rightarrow> 'x list \<Rightarrow> ('k, 'v) js_map \<Rightarrow> ('k, 'v) js_map" where
  "group_fold key init stp xs m = fold (\<lambda>x. upsert (key x) (init (key x)) (stp x)) xs m"

lemma group_fold_simps [simp]:
  "group_fold key init stp [] m = m"
  "group_fold key init stp (x # xs) m = group_fold key init stp xs (upsert (key x) (init (key x)) (stp x) m)"
  by (simp_all add: group_fold_def)

lemma js_get_upsert [simp]:
  "js_get (upsert k init f m) k' = (if k = k' then Some (f (case js_get m k of Some v \<Rightarrow> v | None \<Rightarrow> init)) else js_get m k')"
  by (simp add: upsert_def)

lemma keys_upsert [simp]: "fst ` set (upsert k init f m) = insert k (fst ` set m)"
proof -
  have "dom (js_get (js_set k v m)) = insert k (dom (js_get m))" for v by (auto simp: update_conv')
  then show ?thesis unfolding upsert_def by (simp only: dom_map_of_conv_image_fst)
qed

lemma distinct_upsert: "distinct (map fst m) \<Longrightarrow> distinct (map fst (upsert k init f m))"
  unfolding upsert_def by (rule js_set_distinct)

lemma js_get_group_fold:
  "js_get (group_fold key init stp xs m) k =
     (if k \<in> key ` set xs \<or> js_get m k \<noteq> None
      then Some (fold stp (filter (\<lambda>x. key x = k) xs) (case js_get m k of Some v \<Rightarrow> v | None \<Rightarrow> init k)) else None)"
proof (induction xs arbitrary: m)
  case (Cons x xs)
  show ?case by (auto simp: Cons.IH split: option.splits)
qed (simp split: option.split)

lemma keys_group_fold: "fst ` set (group_fold key init stp xs m) = key ` set xs \<union> fst ` set m"
  by (induction xs arbitrary: m) auto

lemma distinct_group_fold:
  "distinct (map fst m) \<Longrightarrow> distinct (map fst (group_fold key init stp xs m))"
  by (induction xs arbitrary: m) (simp_all add: distinct_upsert)

text \<open>So the entries of a map with distinct keys can be summed by key.\<close>

lemma sum_entries:
  assumes "distinct (map fst m)"
  shows "sum_list (map (\<lambda>(k, v). f k v) m) = (\<Sum>k\<in>fst ` set m. f k (the (js_get m k)))"
  using assms
proof (induction m)
  case (Cons kv m)
  obtain k v where kv: "kv = (k, v)" by force
  have new: "k \<notin> fst ` set m" using Cons.prems kv by simp
  have "(\<Sum>j\<in>fst ` set m. f j (the (js_get (kv # m) j))) = (\<Sum>j\<in>fst ` set m. f j (the (js_get m j)))"
    by (rule sum.cong [OF refl]) (use new kv in auto)
  then show ?case using Cons new kv by simp
qed simp

lemma sum_by_key:
  assumes "finite K" and "key ` set xs \<subseteq> K"
  shows "(\<Sum>k\<in>K. sum_list (map g (filter (\<lambda>x. key x = k) xs))) = sum_list (map g xs)"
  using assms(2)
proof (induction xs)
  case (Cons x xs)
  have "(\<Sum>k\<in>K. sum_list (map g (filter (\<lambda>x. key x = k) (x # xs))))
      = (\<Sum>k\<in>K. (if k = key x then g x else 0) + sum_list (map g (filter (\<lambda>x. key x = k) xs)))"
    by (rule sum.cong) auto
  also have "\<dots> = g x + sum_list (map g xs)"
    using Cons assms(1) by (simp add: sum.distrib sum.delta)
  finally show ?case by simp
qed simp

subsection \<open>Decimal texts\<close>

definition digit_char :: "nat \<Rightarrow> char" where
  "digit_char d = (if d < 10 then ''0123456789'' ! d else CHR ''?'')"

fun dec :: "nat \<Rightarrow> string" where
  "dec n = (if n < 10 then [digit_char n] else dec (n div 10) @ [digit_char (n mod 10)])"

declare dec.simps [simp del]

text \<open>\<open>String(n)\<close> of an integer, and \<open>padStart\<close> with zeros.\<close>

definition js_int_string :: "int \<Rightarrow> string" where
  "js_int_string n = (if n < 0 then CHR ''-'' # dec (nat (- n)) else dec (nat n))"

definition pad_start :: "nat \<Rightarrow> string \<Rightarrow> string" where
  "pad_start w s = replicate (w - length s) CHR ''0'' @ s"

definition pad2 :: "int \<Rightarrow> string" where
  "pad2 n = pad_start 2 (js_int_string n)"

text \<open>\<open>Number\<close> of a text of decimal digits.\<close>

definition char_digit :: "char \<Rightarrow> int" where
  "char_digit c = int (of_char c) - 48"

definition js_number_of_digits :: "string \<Rightarrow> int" where
  "js_number_of_digits s = foldl (\<lambda>acc c. 10 * acc + char_digit c) 0 s"

lemma char_digit_digit_char: "d < 10 \<Longrightarrow> char_digit (digit_char d) = int d"
proof -
  have "\<forall>d\<in>{..<10}. char_digit (digit_char d) = int d" by code_simp
  then show "d < 10 \<Longrightarrow> char_digit (digit_char d) = int d" by simp
qed

lemma js_number_of_digits_snoc: "js_number_of_digits (s @ [c]) = 10 * js_number_of_digits s + char_digit c"
  by (simp add: js_number_of_digits_def)

lemma number_of_dec: "js_number_of_digits (dec n) = int n"
proof (induction n rule: dec.induct)
  case (1 n)
  show ?case
  proof (cases "n < 10")
    case True
    then show ?thesis by (simp add: dec.simps [of n] js_number_of_digits_def char_digit_digit_char)
  next
    case False
    then show ?thesis using 1
      by (simp add: dec.simps [of n] js_number_of_digits_snoc char_digit_digit_char zdiv_int zmod_int)
  qed
qed

lemma number_of_padded: "js_number_of_digits (pad_start w s) = js_number_of_digits s"
proof -
  have "foldl (\<lambda>acc c. 10 * acc + char_digit c) 0 (replicate k CHR ''0'') = 0" for k
    by (induction k) (simp_all add: char_digit_def)
  then show ?thesis by (simp add: js_number_of_digits_def pad_start_def)
qed

lemma number_of_pad2: "0 \<le> n \<Longrightarrow> js_number_of_digits (pad2 n) = n"
  by (simp add: pad2_def number_of_padded js_int_string_def number_of_dec)

lemma dec_lengths: "n < 10 \<Longrightarrow> length (dec n) = 1" "10 \<le> n \<Longrightarrow> n < 100 \<Longrightarrow> length (dec n) = 2"
  "1000 \<le> n \<Longrightarrow> n < 10000 \<Longrightarrow> length (dec n) = 4"
proof -
  have one: "length (dec n) = 1" if "n < 10" for n using that by (simp add: dec.simps [of n])
  have succ: "length (dec n) = Suc (length (dec (n div 10)))" if "10 \<le> n" for n
    using that by (simp add: dec.simps [of n])
  show "n < 10 \<Longrightarrow> length (dec n) = 1" by (rule one)
  show "10 \<le> n \<Longrightarrow> n < 100 \<Longrightarrow> length (dec n) = 2" using succ [of n] one [of "n div 10"] by simp
  assume n: "1000 \<le> n" "n < 10000"
  have "10 \<le> n div 10" "10 \<le> n div 10 div 10" "10 \<le> n" "n div 10 div 10 div 10 < 10" using n by linarith+
  then show "length (dec n) = 4"
    using succ [of n] succ [of "n div 10"] succ [of "n div 10 div 10"] one [of "n div 10 div 10 div 10"]
      n by (simp add: div_mult2_eq)
qed

lemma length_pad2: "0 \<le> n \<Longrightarrow> n < 100 \<Longrightarrow> length (pad2 n) = 2"
  using dec_lengths(1,2) [of "nat n"] by (cases "n < 10") (auto simp: pad2_def pad_start_def js_int_string_def)

end
