(* ===== verification/Tariff_Cost.thy ===== *)
theory Tariff_Cost
  imports Keyed_Sums Tariff Zoned_Calendar "HOL-Library.Char_ord" "HOL-Library.List_Lexorder" "HOL-Library.Multiset"
begin

text \<open>
  What energy costs: the energy arithmetic of one period (\<^verbatim>\<open>energy/energy-calc.ts\<close>) and the pricing of
  hours, of a day's live registers and of the rows of a series (\<^verbatim>\<open>energy/cost-calc.ts\<close>). Dates are sorted
  by the order of their characters, which is what \<open>localeCompare\<close> says of equally long texts of digits.
  A call into the calendar may not return, so what uses one is an option.
\<close>

subsection \<open>Energy of one period\<close>

datatype EnergyField = FImport | FExport | FLoad | FProduction | FBatteryDischarge | FBatteryCharge

record HourEnergy =
  he_time :: millis
  he_import :: number
  he_export :: number
  he_load :: number
  he_production :: number
  he_batteryDischarge :: number
  he_batteryCharge :: number

fun he_get :: "EnergyField \<Rightarrow> HourEnergy \<Rightarrow> number" where
  "he_get FImport h = he_import h"
| "he_get FExport h = he_export h"
| "he_get FLoad h = he_load h"
| "he_get FProduction h = he_production h"
| "he_get FBatteryDischarge h = he_batteryDischarge h"
| "he_get FBatteryCharge h = he_batteryCharge h"

fun he_add :: "EnergyField \<Rightarrow> number \<Rightarrow> HourEnergy \<Rightarrow> HourEnergy" where
  "he_add FImport x h = h\<lparr>he_import := he_import h + x\<rparr>"
| "he_add FExport x h = h\<lparr>he_export := he_export h + x\<rparr>"
| "he_add FLoad x h = h\<lparr>he_load := he_load h + x\<rparr>"
| "he_add FProduction x h = h\<lparr>he_production := he_production h + x\<rparr>"
| "he_add FBatteryDischarge x h = h\<lparr>he_batteryDischarge := he_batteryDischarge h + x\<rparr>"
| "he_add FBatteryCharge x h = h\<lparr>he_batteryCharge := he_batteryCharge h + x\<rparr>"

lemma he_get_add [simp]: "he_get f (he_add g x h) = he_get f h + (if f = g then x else 0)"
  by (cases f; cases g) simp_all

lemma he_time_add [simp]: "he_time (he_add f x h) = he_time h"
  by (cases f) simp_all

record EnergyTotals =
  et_importKwh :: number
  et_exportKwh :: number
  et_loadKwh :: number
  et_productionKwh :: number
  et_batteryDischargeKwh :: number
  et_batteryChargeKwh :: number

fun et_get :: "EnergyField \<Rightarrow> 'a EnergyTotals_scheme \<Rightarrow> number" where
  "et_get FImport t = et_importKwh t"
| "et_get FExport t = et_exportKwh t"
| "et_get FLoad t = et_loadKwh t"
| "et_get FProduction t = et_productionKwh t"
| "et_get FBatteryDischarge t = et_batteryDischargeKwh t"
| "et_get FBatteryCharge t = et_batteryChargeKwh t"

fun et_put :: "EnergyField \<Rightarrow> number \<Rightarrow> 'a EnergyTotals_scheme \<Rightarrow> 'a EnergyTotals_scheme" where
  "et_put FImport x t = t\<lparr>et_importKwh := x\<rparr>"
| "et_put FExport x t = t\<lparr>et_exportKwh := x\<rparr>"
| "et_put FLoad x t = t\<lparr>et_loadKwh := x\<rparr>"
| "et_put FProduction x t = t\<lparr>et_productionKwh := x\<rparr>"
| "et_put FBatteryDischarge x t = t\<lparr>et_batteryDischargeKwh := x\<rparr>"
| "et_put FBatteryCharge x t = t\<lparr>et_batteryChargeKwh := x\<rparr>"

lemma et_get_put [simp]: "et_get f (et_put g x t) = (if f = g then x else et_get f t)"
  by (cases f; cases g) simp_all

type_synonym today_registers = "(EnergyField, number) js_map"

definition clamp01 :: "number \<Rightarrow> number" where "clamp01 n = min 1 (max 0 n)"

definition emptyTotals :: EnergyTotals where
  "emptyTotals = \<lparr>et_importKwh = 0, et_exportKwh = 0, et_loadKwh = 0, et_productionKwh = 0,
     et_batteryDischargeKwh = 0, et_batteryChargeKwh = 0\<rparr>"

definition TOTALS_FIELDS :: "EnergyField list" where
  "TOTALS_FIELDS = [FImport, FExport, FLoad, FProduction, FBatteryDischarge, FBatteryCharge]"

definition applyTodayOverride :: "EnergyTotals \<Rightarrow> today_registers \<Rightarrow> EnergyTotals" where
  "applyTodayOverride totals today =
     (let get = (\<lambda>f. case js_get today f of Some x \<Rightarrow> x | None \<Rightarrow> et_get f totals)
      in \<lparr>et_importKwh = get FImport, et_exportKwh = get FExport, et_loadKwh = get FLoad,
          et_productionKwh = get FProduction, et_batteryDischargeKwh = get FBatteryDischarge,
          et_batteryChargeKwh = get FBatteryCharge\<rparr>)"

definition replaceTodaySlice ::
  "'a EnergyTotals_scheme \<Rightarrow> 'b EnergyTotals_scheme \<Rightarrow> today_registers \<Rightarrow> 'a EnergyTotals_scheme" where
  "replaceTodaySlice window deltaToday today =
     fold (\<lambda>f out. case js_get today f of None \<Rightarrow> out
       | Some live \<Rightarrow> et_put f (max 0 (et_get f window - et_get f deltaToday + live)) out) TOTALS_FIELDS window"

definition impliedLoad :: "number \<Rightarrow> number \<Rightarrow> number \<Rightarrow> number \<Rightarrow> number \<Rightarrow> number" where
  "impliedLoad production imported batteryDischarge exported batteryCharge =
     max 0 (production + imported + batteryDischarge - exported - batteryCharge)"

definition impliedLoadKwh :: "'a EnergyTotals_scheme \<Rightarrow> number" where
  "impliedLoadKwh t = impliedLoad (et_productionKwh t) (et_importKwh t) (et_batteryDischargeKwh t)
     (et_exportKwh t) (et_batteryChargeKwh t)"

definition withImpliedLoad :: "EnergyTotals \<Rightarrow> EnergyTotals" where
  "withImpliedLoad t = t\<lparr>et_loadKwh := impliedLoadKwh t\<rparr>"

definition withImpliedHourLoad :: "HourEnergy list \<Rightarrow> HourEnergy list" where
  "withImpliedHourLoad hours = map (\<lambda>h. h\<lparr>he_load := impliedLoad (he_production h) (he_import h)
     (he_batteryDischarge h) (he_export h) (he_batteryCharge h)\<rparr>) hours"

record PeriodEnergy = EnergyTotals +
  pe_bucket :: string
  pe_gridToLoadKwh :: number
  pe_solarToLoadKwh :: number
  pe_batteryToLoadKwh :: number
  pe_solarDirectToLoadKwh :: number
  pe_selfConsumedKwh :: number
  pe_exportedKwh :: number
  pe_selfSufficiency :: "number option"
  pe_selfConsumption :: "number option"

definition derivePeriodEnergy :: "string \<Rightarrow> EnergyTotals \<Rightarrow> bool \<Rightarrow> PeriodEnergy" where
  "derivePeriodEnergy bucket periodTotals implied =
     (let t = (if implied then withImpliedLoad periodTotals else periodTotals);
          load = et_loadKwh t;
          solarToLoad = max 0 (load - et_importKwh t);
          batteryToLoad = min (max 0 (et_batteryDischargeKwh t)) solarToLoad;
          selfConsumed = max 0 (et_productionKwh t - et_exportKwh t)
      in EnergyTotals.extend t \<lparr>pe_bucket = bucket,
           pe_gridToLoadKwh = min (et_importKwh t) load, pe_solarToLoadKwh = solarToLoad,
           pe_batteryToLoadKwh = batteryToLoad, pe_solarDirectToLoadKwh = max 0 (solarToLoad - batteryToLoad),
           pe_selfConsumedKwh = selfConsumed, pe_exportedKwh = et_exportKwh t,
           pe_selfSufficiency = (if load > 0 then Some (clamp01 (solarToLoad / load)) else None),
           pe_selfConsumption = (if et_productionKwh t > 0 then Some (clamp01 (selfConsumed / et_productionKwh t)) else None)\<rparr>)"

lemma clamp01_range: "0 \<le> clamp01 n" "clamp01 n \<le> 1" by (simp_all add: clamp01_def)

text \<open>The splits of a period add up, and a share is one.\<close>

lemma splits_add_up:
  assumes "p = derivePeriodEnergy b t implied" and "0 \<le> et_importKwh t" "0 \<le> et_loadKwh t"
  shows "pe_gridToLoadKwh p + pe_solarToLoadKwh p = et_loadKwh p"
    and "pe_batteryToLoadKwh p + pe_solarDirectToLoadKwh p = pe_solarToLoadKwh p"
    and "pe_selfConsumedKwh p + pe_exportedKwh p = max (et_productionKwh p) (et_exportKwh p)"
    and "0 \<le> pe_gridToLoadKwh p" "0 \<le> pe_batteryToLoadKwh p" "0 \<le> pe_solarDirectToLoadKwh p"
    and "\<And>s. pe_selfSufficiency p = Some s \<Longrightarrow> 0 \<le> s \<and> s \<le> 1 \<and> s * et_loadKwh p = pe_solarToLoadKwh p"
proof -
  have load: "0 \<le> et_loadKwh p" using assms
    by (simp add: derivePeriodEnergy_def Let_def EnergyTotals.defs withImpliedLoad_def impliedLoadKwh_def impliedLoad_def)
  show "pe_gridToLoadKwh p + pe_solarToLoadKwh p = et_loadKwh p"
    "pe_batteryToLoadKwh p + pe_solarDirectToLoadKwh p = pe_solarToLoadKwh p"
    "pe_selfConsumedKwh p + pe_exportedKwh p = max (et_productionKwh p) (et_exportKwh p)"
    "0 \<le> pe_batteryToLoadKwh p" "0 \<le> pe_solarDirectToLoadKwh p"
    unfolding assms(1) by (auto simp: derivePeriodEnergy_def Let_def EnergyTotals.defs)
  show "0 \<le> pe_gridToLoadKwh p" using load assms
    by (auto simp: derivePeriodEnergy_def Let_def EnergyTotals.defs withImpliedLoad_def)
  have imp: "0 \<le> et_importKwh p" using assms by (simp add: derivePeriodEnergy_def Let_def EnergyTotals.defs withImpliedLoad_def)
  show "0 \<le> s \<and> s \<le> 1 \<and> s * et_loadKwh p = pe_solarToLoadKwh p" if s: "pe_selfSufficiency p = Some s" for s
  proof -
    from s have *: "0 < et_loadKwh p" "s = clamp01 (pe_solarToLoadKwh p / et_loadKwh p)"
      "pe_solarToLoadKwh p = max 0 (et_loadKwh p - et_importKwh p)"
      unfolding assms(1) by (auto simp: derivePeriodEnergy_def Let_def EnergyTotals.defs split: if_splits)
    then have "0 \<le> pe_solarToLoadKwh p / et_loadKwh p" "pe_solarToLoadKwh p / et_loadKwh p \<le> 1" using imp by auto
    with * show ?thesis by (auto simp: clamp01_def)
  qed
qed


subsection \<open>Pricing hours\<close>

record day_cost =
  dc_date :: string
  dc_importKwh :: number
  dc_exportKwh :: number
  dc_importCost :: number
  dc_exportEarnings :: number
  dc_net :: number

record band_cost =
  bc_name :: string
  bc_importKwh :: number
  bc_cost :: number

record CostTotals = EnergyTotals +
  ct_importCost :: number
  ct_exportEarnings :: number
  ct_zeroValueExportKwh :: number
  ct_zeroValueExportEur :: number
  ct_standingCharge :: number
  ct_net :: number
  ct_gridOnlyCost :: number
  ct_savings :: number
  ct_solarSavings :: number
  ct_solarToLoadKwh :: number
  ct_selfSufficiency :: "number option"
  ct_selfConsumption :: "number option"
  ct_byDay :: "day_cost list"
  ct_byBand :: "band_cost list"

type_synonym zero_value_share = "(millis \<Rightarrow> number) option"

definition AVG_DAYS_PER_MONTH :: number where "AVG_DAYS_PER_MONTH = 304375 / 10000"

text \<open>The calendar's \<open>dateKey\<close>: year, month and day of the plant's wall clock.\<close>

definition date_text :: "CalendarDate \<Rightarrow> string" where
  "date_text d = js_int_string (cd_year d) @ ''-'' @ pad2 (cd_month d) @ ''-'' @ pad2 (cd_day d)"

definition dateKey :: "zone_data \<Rightarrow> string \<Rightarrow> millis \<Rightarrow> string" where
  "dateKey zone tz t = date_text (calendarDate zone tz t)"

definition addToDay :: "HourEnergy \<Rightarrow> string \<Rightarrow> number \<Rightarrow> number \<Rightarrow> (string, day_cost) js_map \<Rightarrow> (string, day_cost) js_map" where
  "addToDay h key importCost exportEarnings days =
     upsert key \<lparr>dc_date = key, dc_importKwh = 0, dc_exportKwh = 0, dc_importCost = 0, dc_exportEarnings = 0, dc_net = 0\<rparr>
       (\<lambda>d. let cost = dc_importCost d + importCost; earned = dc_exportEarnings d + exportEarnings
         in d\<lparr>dc_importKwh := dc_importKwh d + he_import h, dc_exportKwh := dc_exportKwh d + he_export h,
              dc_importCost := cost, dc_exportEarnings := earned, dc_net := cost - earned\<rparr>) days"

definition addToBand :: "string \<Rightarrow> number \<Rightarrow> number \<Rightarrow> (string, band_cost) js_map \<Rightarrow> (string, band_cost) js_map" where
  "addToBand name importKwh cost bands =
     upsert name \<lparr>bc_name = name, bc_importKwh = 0, bc_cost = 0\<rparr>
       (\<lambda>b. b\<lparr>bc_importKwh := bc_importKwh b + importKwh, bc_cost := bc_cost b + cost\<rparr>) bands"

record cost_sums = EnergyTotals +
  cs_importCost :: number
  cs_exportEarnings :: number
  cs_zeroValueExportKwh :: number
  cs_zeroValueExportEur :: number
  cs_gridOnlyCost :: number
  cs_days :: "(string, day_cost) js_map"
  cs_bands :: "(string, band_cost) js_map"

definition no_costs :: cost_sums where
  "no_costs = EnergyTotals.extend emptyTotals \<lparr>cs_importCost = 0, cs_exportEarnings = 0, cs_zeroValueExportKwh = 0,
     cs_zeroValueExportEur = 0, cs_gridOnlyCost = 0, cs_days = [], cs_bands = []\<rparr>"

definition hour_band :: "zone_data \<Rightarrow> string \<Rightarrow> TariffConfig \<Rightarrow> millis \<Rightarrow> TariffBand option" where
  "hour_band zone tz tariff t = importBandForHour tariff (zp_hour (zoneParts zone tz t)) (isoWeekday zone tz t)"

definition hour_price :: "zone_data \<Rightarrow> string \<Rightarrow> TariffConfig \<Rightarrow> millis \<Rightarrow> number" where
  "hour_price zone tz tariff t = (case hour_band zone tz tariff t of
     Some band \<Rightarrow> tb_pricePerKwh band | None \<Rightarrow> it_defaultPricePerKwh (tc_import tariff))"

definition hour_band_name :: "zone_data \<Rightarrow> string \<Rightarrow> TariffConfig \<Rightarrow> millis \<Rightarrow> string" where
  "hour_band_name zone tz tariff t = (case hour_band zone tz tariff t of Some band \<Rightarrow> tb_name band | None \<Rightarrow> ''Standard'')"

definition paidShare :: "zero_value_share \<Rightarrow> millis \<Rightarrow> number" where
  "paidShare zeroValueShare t = 1 - clamp01 (case zeroValueShare of Some share \<Rightarrow> share t | None \<Rightarrow> 0)"

definition allocate_hour ::
  "zone_data \<Rightarrow> string \<Rightarrow> TariffConfig \<Rightarrow> zero_value_share \<Rightarrow> HourEnergy \<Rightarrow> cost_sums \<Rightarrow> cost_sums" where
  "allocate_hour zone tz tariff zeroValueShare h s =
     (let price = hour_price zone tz tariff (he_time h);
          feedIn = xt_feedInPerKwh (tc_export tariff);
          hourImportCost = he_import h * price;
          paid = paidShare zeroValueShare (he_time h);
          hourEarnings = he_export h * feedIn * paid;
          lostKwh = he_export h * (1 - paid)
      in \<lparr>et_importKwh = et_importKwh s + he_import h, et_exportKwh = et_exportKwh s + he_export h,
          et_loadKwh = et_loadKwh s + he_load h, et_productionKwh = et_productionKwh s + he_production h,
          et_batteryDischargeKwh = et_batteryDischargeKwh s + he_batteryDischarge h,
          et_batteryChargeKwh = et_batteryChargeKwh s + he_batteryCharge h,
          cs_importCost = cs_importCost s + hourImportCost, cs_exportEarnings = cs_exportEarnings s + hourEarnings,
          cs_zeroValueExportKwh = cs_zeroValueExportKwh s + lostKwh,
          cs_zeroValueExportEur = cs_zeroValueExportEur s + lostKwh * feedIn,
          cs_gridOnlyCost = cs_gridOnlyCost s + he_load h * price,
          cs_days = addToDay h (dateKey zone tz (he_time h)) hourImportCost hourEarnings (cs_days s),
          cs_bands = addToBand (hour_band_name zone tz tariff (he_time h)) (he_import h) hourImportCost (cs_bands s)\<rparr>)"

definition allocateCost ::
  "HourEnergy list \<Rightarrow> TariffConfig \<Rightarrow> number \<Rightarrow> zero_value_share \<Rightarrow> zone_data \<Rightarrow> string \<Rightarrow> CostTotals" where
  "allocateCost hours tariff rangeDays zeroValueShare zone tz =
     (let s = fold (allocate_hour zone tz tariff zeroValueShare) hours no_costs;
          standingCharge = tc_standingChargeMonthly tariff * rangeDays / AVG_DAYS_PER_MONTH;
          load = et_loadKwh s; imported = et_importKwh s; produced = et_productionKwh s
      in \<lparr>et_importKwh = imported, et_exportKwh = et_exportKwh s, et_loadKwh = load, et_productionKwh = produced,
          et_batteryDischargeKwh = et_batteryDischargeKwh s, et_batteryChargeKwh = et_batteryChargeKwh s,
          ct_importCost = cs_importCost s, ct_exportEarnings = cs_exportEarnings s,
          ct_zeroValueExportKwh = cs_zeroValueExportKwh s, ct_zeroValueExportEur = cs_zeroValueExportEur s,
          ct_standingCharge = standingCharge, ct_net = cs_importCost s - cs_exportEarnings s + standingCharge,
          ct_gridOnlyCost = cs_gridOnlyCost s, ct_savings = cs_gridOnlyCost s - cs_importCost s + cs_exportEarnings s,
          ct_solarSavings = cs_gridOnlyCost s - cs_importCost s, ct_solarToLoadKwh = max 0 (load - imported),
          ct_selfSufficiency = (if load > 0 then Some (clamp01 ((load - imported) / load)) else None),
          ct_selfConsumption = (if produced > 0 then Some (clamp01 ((produced - et_exportKwh s) / produced)) else None),
          ct_byDay = sort_key dc_date (map snd (cs_days s)),
          ct_byBand = sort_key (\<lambda>b. - bc_cost b) (map snd (cs_bands s))\<rparr>)"

subsection \<open>Today's live registers\<close>

record FallbackRates =
  fr_importPrice :: number
  fr_exportPrice :: number

definition effectiveRate :: "number \<Rightarrow> number \<Rightarrow> number \<Rightarrow> number" where
  "effectiveRate money kwh fallback = (if kwh > 0 then money / kwh else fallback)"

definition repriceTodaySlice :: "CostTotals \<Rightarrow> CostTotals \<Rightarrow> 'a EnergyTotals_scheme \<Rightarrow> FallbackRates \<Rightarrow> CostTotals" where
  "repriceTodaySlice window part live fallback =
     (let move = (\<lambda>money kwh rate. money window - money part + kwh live * rate);
          importCost = move ct_importCost (et_get FImport)
            (effectiveRate (ct_importCost part) (et_importKwh part) (fr_importPrice fallback));
          exportEarnings = move ct_exportEarnings (et_get FExport)
            (effectiveRate (ct_exportEarnings part) (et_exportKwh part) (fr_exportPrice fallback));
          gridOnlyCost = move ct_gridOnlyCost (et_get FLoad)
            (effectiveRate (ct_gridOnlyCost part) (et_loadKwh part) (fr_importPrice fallback))
      in window\<lparr>ct_importCost := importCost, ct_exportEarnings := exportEarnings, ct_gridOnlyCost := gridOnlyCost,
           ct_net := importCost - exportEarnings + ct_standingCharge window,
           ct_savings := gridOnlyCost - importCost + exportEarnings,
           ct_solarSavings := gridOnlyCost - importCost\<rparr>)"

subsection \<open>Pricing the rows of a series\<close>

record CostSeriesPoint =
  cp_bucket :: string
  cp_importCost :: number
  cp_exportEarnings :: number
  cp_zeroValueExportKwh :: number
  cp_zeroValueExportEur :: number
  cp_standingCharge :: number
  cp_net :: number

record CounterDeltaRow =
  cr_period :: string
  cr_hod :: int
  cr_dow :: int
  cr_metric :: string
  cr_kwh :: number

text \<open>\<open>Math.ceil(t / HOUR_MS) * HOUR_MS\<close>.\<close>

definition hour_ceil :: "millis \<Rightarrow> millis" where
  "hour_ceil t = - ((- t) div HOUR) * HOUR"

definition hourFromPeriodKey :: "zone_data \<Rightarrow> string \<Rightarrow> string \<Rightarrow> int \<Rightarrow> millis option" where
  "hourFromPeriodKey zone tz period hod =
     map_option hour_ceil (wallInstant zone tz
       (date_utc (js_number_of_digits (take 4 period)) (js_number_of_digits (take 2 (drop 5 period)) - 1)
          (js_number_of_digits (take 2 (drop 8 period))) hod 0 0))"

definition emptySeriesPoint :: "string \<Rightarrow> number \<Rightarrow> CostSeriesPoint" where
  "emptySeriesPoint bucket standingCharge = \<lparr>cp_bucket = bucket, cp_importCost = 0, cp_exportEarnings = 0,
     cp_zeroValueExportKwh = 0, cp_zeroValueExportEur = 0, cp_standingCharge = standingCharge, cp_net = standingCharge\<rparr>"

definition row_share :: "zone_data \<Rightarrow> string \<Rightarrow> zero_value_share \<Rightarrow> CounterDeltaRow \<Rightarrow> number option" where
  "row_share zone tz zeroValueShare row = (case zeroValueShare of
     None \<Rightarrow> Some (clamp01 0)
   | Some share \<Rightarrow> map_option (\<lambda>hour. clamp01 (share hour)) (hourFromPeriodKey zone tz (cr_period row) (cr_hod row)))"

definition addExportRow ::
  "zone_data \<Rightarrow> string \<Rightarrow> TariffConfig \<Rightarrow> zero_value_share \<Rightarrow> CounterDeltaRow \<Rightarrow> CostSeriesPoint \<Rightarrow> CostSeriesPoint option" where
  "addExportRow zone tz tariff zeroValueShare row point =
     map_option (\<lambda>share.
       let lostKwh = cr_kwh row * share; feedIn = xt_feedInPerKwh (tc_export tariff)
       in point\<lparr>cp_exportEarnings := cp_exportEarnings point + (cr_kwh row - lostKwh) * feedIn,
                cp_zeroValueExportKwh := cp_zeroValueExportKwh point + lostKwh,
                cp_zeroValueExportEur := cp_zeroValueExportEur point + lostKwh * feedIn\<rparr>)
       (row_share zone tz zeroValueShare row)"

definition addSeriesRow ::
  "zone_data \<Rightarrow> string \<Rightarrow> TariffConfig \<Rightarrow> zero_value_share \<Rightarrow> EnergyField option \<Rightarrow> CounterDeltaRow \<Rightarrow> CostSeriesPoint
    \<Rightarrow> CostSeriesPoint option" where
  "addSeriesRow zone tz tariff zeroValueShare field row point =
     (if field = Some FImport
      then Some (point\<lparr>cp_importCost := cp_importCost point + cr_kwh row * importPriceForHour tariff (cr_hod row) (cr_dow row)\<rparr>)
      else if field = Some FExport then addExportRow zone tz tariff zeroValueShare row point
      else Some point)"

fun add_series_rows ::
  "zone_data \<Rightarrow> string \<Rightarrow> TariffConfig \<Rightarrow> zero_value_share \<Rightarrow> (string, EnergyField) js_map \<Rightarrow> CounterDeltaRow list
    \<Rightarrow> (string, CostSeriesPoint) js_map \<Rightarrow> (string, CostSeriesPoint) js_map option" where
  "add_series_rows zone tz tariff z fieldByKey [] byKey = Some byKey"
| "add_series_rows zone tz tariff z fieldByKey (r # rows) byKey =
     (case js_get byKey (cr_period r) of
        None \<Rightarrow> add_series_rows zone tz tariff z fieldByKey rows byKey
      | Some point \<Rightarrow> (case addSeriesRow zone tz tariff z (js_get fieldByKey (cr_metric r)) r point of
          None \<Rightarrow> None
        | Some point' \<Rightarrow> add_series_rows zone tz tariff z fieldByKey rows (js_set (cr_period r) point' byKey)))"

definition with_net :: "CostSeriesPoint \<Rightarrow> CostSeriesPoint" where
  "with_net p = p\<lparr>cp_net := cp_importCost p - cp_exportEarnings p + cp_standingCharge p\<rparr>"

definition priceSeriesRows ::
  "CounterDeltaRow list \<Rightarrow> (string, EnergyField) js_map \<Rightarrow> string list \<Rightarrow> TariffConfig \<Rightarrow> (string, number) js_map
    \<Rightarrow> zone_data \<Rightarrow> string \<Rightarrow> zero_value_share \<Rightarrow> CostSeriesPoint list option" where
  "priceSeriesRows rows fieldByKey periods tariff standing zone tz zeroValueShare =
     map_option (map (\<lambda>(_, p). with_net p))
       (add_series_rows zone tz tariff zeroValueShare fieldByKey rows
         (fold (\<lambda>b. js_set b (emptySeriesPoint b (case js_get standing b of Some c \<Rightarrow> c | None \<Rightarrow> 0))) periods []))"

definition month_of :: "CostSeriesPoint \<Rightarrow> string" where
  "month_of d = take 7 (cp_bucket d)"

definition add_day_to_month :: "CostSeriesPoint \<Rightarrow> CostSeriesPoint \<Rightarrow> CostSeriesPoint" where
  "add_day_to_month d p = with_net (p\<lparr>cp_importCost := cp_importCost p + cp_importCost d,
     cp_exportEarnings := cp_exportEarnings p + cp_exportEarnings d,
     cp_zeroValueExportKwh := cp_zeroValueExportKwh p + cp_zeroValueExportKwh d,
     cp_zeroValueExportEur := cp_zeroValueExportEur p + cp_zeroValueExportEur d,
     cp_standingCharge := cp_standingCharge p + cp_standingCharge d\<rparr>)"

definition rollUpToMonths :: "CostSeriesPoint list \<Rightarrow> CostSeriesPoint list" where
  "rollUpToMonths days = map snd (group_fold month_of (\<lambda>key. emptySeriesPoint key 0) add_day_to_month days [])"

datatype CostRangeKey = RangeToday | RangeMonth | RangeYear

definition resolveRange :: "zone_data \<Rightarrow> CostRangeKey \<Rightarrow> string \<Rightarrow> millis \<Rightarrow> (millis \<times> millis) option" where
  "resolveRange zone which timeZone now =
     (let grain = (case which of RangeToday \<Rightarrow> GDay | RangeMonth \<Rightarrow> GMonth | RangeYear \<Rightarrow> GYear)
      in map_option (\<lambda>from. (from, now)) (periodStart zone timeZone now grain 1))"


subsection \<open>The totals are the hours', by day and by band\<close>

definition hour_cost :: "zone_data \<Rightarrow> string \<Rightarrow> TariffConfig \<Rightarrow> HourEnergy \<Rightarrow> number" where
  "hour_cost zone tz tariff h = he_import h * hour_price zone tz tariff (he_time h)"

definition hour_earnings :: "TariffConfig \<Rightarrow> zero_value_share \<Rightarrow> HourEnergy \<Rightarrow> number" where
  "hour_earnings tariff z h = he_export h * xt_feedInPerKwh (tc_export tariff) * paidShare z (he_time h)"

definition hour_lost :: "zero_value_share \<Rightarrow> HourEnergy \<Rightarrow> number" where
  "hour_lost z h = he_export h * (1 - paidShare z (he_time h))"

abbreviation over :: "('a \<Rightarrow> number) \<Rightarrow> 'a list \<Rightarrow> number" where
  "over g xs \<equiv> sum_list (map g xs)"

lemma over_add: "over (\<lambda>x. g x + h x) xs = over g xs + over h xs"
  by (simp add: sum_list_addf)

lemma over_mult: "over (\<lambda>x. g x * c) xs = over g xs * c"
  by (simp add: sum_list_mult_const)

definition day_step :: "zone_data \<Rightarrow> string \<Rightarrow> TariffConfig \<Rightarrow> zero_value_share \<Rightarrow> HourEnergy \<Rightarrow> day_cost \<Rightarrow> day_cost" where
  "day_step zone tz tariff z h d =
     (let cost = dc_importCost d + hour_cost zone tz tariff h; earned = dc_exportEarnings d + hour_earnings tariff z h
      in d\<lparr>dc_importKwh := dc_importKwh d + he_import h, dc_exportKwh := dc_exportKwh d + he_export h,
           dc_importCost := cost, dc_exportEarnings := earned, dc_net := cost - earned\<rparr>)"

definition band_step :: "zone_data \<Rightarrow> string \<Rightarrow> TariffConfig \<Rightarrow> HourEnergy \<Rightarrow> band_cost \<Rightarrow> band_cost" where
  "band_step zone tz tariff h b =
     b\<lparr>bc_importKwh := bc_importKwh b + he_import h, bc_cost := bc_cost b + hour_cost zone tz tariff h\<rparr>"

lemma allocate_hour_sums:
  fixes hours tariff z zone tz
  defines "f \<equiv> fold (allocate_hour zone tz tariff z) hours"
  shows "et_get fld (f s) = et_get fld s + over (he_get fld) hours"
    and "cs_importCost (f s) = cs_importCost s + over (hour_cost zone tz tariff) hours"
    and "cs_exportEarnings (f s) = cs_exportEarnings s + over (hour_earnings tariff z) hours"
    and "cs_gridOnlyCost (f s) = cs_gridOnlyCost s + over (\<lambda>h. he_load h * hour_price zone tz tariff (he_time h)) hours"
    and "cs_zeroValueExportKwh (f s) = cs_zeroValueExportKwh s + over (hour_lost z) hours"
    and "cs_zeroValueExportEur (f s) = cs_zeroValueExportEur s + over (hour_lost z) hours * xt_feedInPerKwh (tc_export tariff)"
    and "cs_days (f s) = group_fold (\<lambda>h. dateKey zone tz (he_time h))
        (\<lambda>key. \<lparr>dc_date = key, dc_importKwh = 0, dc_exportKwh = 0, dc_importCost = 0, dc_exportEarnings = 0, dc_net = 0\<rparr>)
        (day_step zone tz tariff z) hours (cs_days s)"
    and "cs_bands (f s) = group_fold (\<lambda>h. hour_band_name zone tz tariff (he_time h))
        (\<lambda>name. \<lparr>bc_name = name, bc_importKwh = 0, bc_cost = 0\<rparr>) (band_step zone tz tariff) hours (cs_bands s)"
proof -
  have all: "et_get fld (f s) = et_get fld s + over (he_get fld) hours
    \<and> cs_importCost (f s) = cs_importCost s + over (hour_cost zone tz tariff) hours
    \<and> cs_exportEarnings (f s) = cs_exportEarnings s + over (hour_earnings tariff z) hours
    \<and> cs_gridOnlyCost (f s) = cs_gridOnlyCost s + over (\<lambda>h. he_load h * hour_price zone tz tariff (he_time h)) hours
    \<and> cs_zeroValueExportKwh (f s) = cs_zeroValueExportKwh s + over (hour_lost z) hours
    \<and> cs_zeroValueExportEur (f s) = cs_zeroValueExportEur s + over (hour_lost z) hours * xt_feedInPerKwh (tc_export tariff)"
    unfolding f_def
  proof (induction hours arbitrary: s)
    case (Cons h hours)
    have step: "et_get fld (allocate_hour zone tz tariff z h s) = et_get fld s + he_get fld h"
      by (cases fld) (simp_all add: allocate_hour_def Let_def)
    show ?case
      by (simp add: Cons.IH step) (simp add: allocate_hour_def Let_def hour_cost_def hour_earnings_def hour_lost_def algebra_simps)
  qed simp
  have maps: "cs_days (f s) = group_fold (\<lambda>h. dateKey zone tz (he_time h))
        (\<lambda>key. \<lparr>dc_date = key, dc_importKwh = 0, dc_exportKwh = 0, dc_importCost = 0, dc_exportEarnings = 0, dc_net = 0\<rparr>)
        (day_step zone tz tariff z) hours (cs_days s)
    \<and> cs_bands (f s) = group_fold (\<lambda>h. hour_band_name zone tz tariff (he_time h))
        (\<lambda>name. \<lparr>bc_name = name, bc_importKwh = 0, bc_cost = 0\<rparr>) (band_step zone tz tariff) hours (cs_bands s)"
    unfolding f_def
  proof (induction hours arbitrary: s)
    case (Cons h hours)
    show ?case
      by (simp add: Cons.IH)
        (simp add: allocate_hour_def Let_def addToDay_def addToBand_def day_step_def [abs_def] band_step_def [abs_def]
          hour_cost_def hour_earnings_def)
  qed simp
  show "et_get fld (f s) = et_get fld s + over (he_get fld) hours"
    and "cs_importCost (f s) = cs_importCost s + over (hour_cost zone tz tariff) hours"
    and "cs_exportEarnings (f s) = cs_exportEarnings s + over (hour_earnings tariff z) hours"
    and "cs_gridOnlyCost (f s) = cs_gridOnlyCost s + over (\<lambda>h. he_load h * hour_price zone tz tariff (he_time h)) hours"
    and "cs_zeroValueExportKwh (f s) = cs_zeroValueExportKwh s + over (hour_lost z) hours"
    and "cs_zeroValueExportEur (f s) = cs_zeroValueExportEur s + over (hour_lost z) hours * xt_feedInPerKwh (tc_export tariff)"
    using all by blast+
  show "cs_days (f s) = group_fold (\<lambda>h. dateKey zone tz (he_time h))
        (\<lambda>key. \<lparr>dc_date = key, dc_importKwh = 0, dc_exportKwh = 0, dc_importCost = 0, dc_exportEarnings = 0, dc_net = 0\<rparr>)
        (day_step zone tz tariff z) hours (cs_days s)"
    and "cs_bands (f s) = group_fold (\<lambda>h. hour_band_name zone tz tariff (he_time h))
        (\<lambda>name. \<lparr>bc_name = name, bc_importKwh = 0, bc_cost = 0\<rparr>) (band_step zone tz tariff) hours (cs_bands s)"
    using maps by blast+
qed

definition on_day :: "zone_data \<Rightarrow> string \<Rightarrow> string \<Rightarrow> HourEnergy list \<Rightarrow> HourEnergy list" where
  "on_day zone tz key hours = filter (\<lambda>h. dateKey zone tz (he_time h) = key) hours"

definition in_band_named :: "zone_data \<Rightarrow> string \<Rightarrow> TariffConfig \<Rightarrow> string \<Rightarrow> HourEnergy list \<Rightarrow> HourEnergy list" where
  "in_band_named zone tz tariff name hours = filter (\<lambda>h. hour_band_name zone tz tariff (he_time h) = name) hours"

definition day_entry :: "zone_data \<Rightarrow> string \<Rightarrow> TariffConfig \<Rightarrow> zero_value_share \<Rightarrow> string \<Rightarrow> HourEnergy list \<Rightarrow> day_cost" where
  "day_entry zone tz tariff z key hours = (let day = on_day zone tz key hours in
     \<lparr>dc_date = key, dc_importKwh = over he_import day, dc_exportKwh = over he_export day,
      dc_importCost = over (hour_cost zone tz tariff) day, dc_exportEarnings = over (hour_earnings tariff z) day,
      dc_net = over (hour_cost zone tz tariff) day - over (hour_earnings tariff z) day\<rparr>)"

definition band_entry :: "zone_data \<Rightarrow> string \<Rightarrow> TariffConfig \<Rightarrow> string \<Rightarrow> HourEnergy list \<Rightarrow> band_cost" where
  "band_entry zone tz tariff name hours = (let hs = in_band_named zone tz tariff name hours in
     \<lparr>bc_name = name, bc_importKwh = over he_import hs, bc_cost = over (hour_cost zone tz tariff) hs\<rparr>)"

lemma fold_day_step:
  "hs \<noteq> [] \<or> dc_net d = dc_importCost d - dc_exportEarnings d \<Longrightarrow> fold (day_step zone tz tariff z) hs d =
     d\<lparr>dc_importKwh := dc_importKwh d + over he_import hs, dc_exportKwh := dc_exportKwh d + over he_export hs,
       dc_importCost := dc_importCost d + over (hour_cost zone tz tariff) hs,
       dc_exportEarnings := dc_exportEarnings d + over (hour_earnings tariff z) hs,
       dc_net := dc_importCost d + over (hour_cost zone tz tariff) hs - (dc_exportEarnings d + over (hour_earnings tariff z) hs)\<rparr>"
proof (induction hs arbitrary: d)
  case (Cons h hs)
  have "dc_net (day_step zone tz tariff z h d) = dc_importCost (day_step zone tz tariff z h d) - dc_exportEarnings (day_step zone tz tariff z h d)"
    by (simp add: day_step_def Let_def)
  from Cons.IH [OF disjI2, OF this] show ?case by (simp add: day_step_def Let_def add.assoc)
qed (simp add: day_cost.equality)

lemma fold_band_step:
  "fold (band_step zone tz tariff) hs b =
     b\<lparr>bc_importKwh := bc_importKwh b + over he_import hs, bc_cost := bc_cost b + over (hour_cost zone tz tariff) hs\<rparr>"
  by (induction hs arbitrary: b) (simp_all add: band_step_def add.assoc)

text \<open>A map with distinct keys whose every entry is a function of its key.\<close>

lemma entries_by_key:
  assumes "\<And>k. js_get m k = (if k \<in> K then Some (g k) else None)" and "distinct (map fst m)" and "fst ` set m = K"
  shows "map snd m = map g (map fst m)"
proof (rule nth_equalityI)
  fix i assume "i < length (map snd m)"
  then have i: "i < length m" by simp
  then have "js_get m (fst (m ! i)) = Some (snd (m ! i))" using assms(2) by (simp add: map_of_eq_Some_iff)
  moreover have "fst (m ! i) \<in> K" using i assms(3) by force
  ultimately show "map snd m ! i = map g (map fst m) ! i" using assms(1) i by simp
qed simp

lemma insort_key_map: "insort_key f (g x) (map g xs) = map g (insort_key (\<lambda>y. f (g y)) x xs)"
  by (induction xs) simp_all

lemma sort_key_map: "sort_key f (map g xs) = map g (sort_key (\<lambda>y. f (g y)) xs)"
  by (induction xs) (simp_all add: insort_key_map)

lemma days_are_entries:
  "sort_key dc_date (map snd (cs_days (fold (allocate_hour zone tz tariff z) hours no_costs)))
   = map (\<lambda>key. day_entry zone tz tariff z key hours) (sorted_list_of_set ((\<lambda>h. dateKey zone tz (he_time h)) ` set hours))"
proof -
  let ?m = "cs_days (fold (allocate_hour zone tz tariff z) hours no_costs)"
  let ?K = "(\<lambda>h. dateKey zone tz (he_time h)) ` set hours"
  have m: "?m = group_fold (\<lambda>h. dateKey zone tz (he_time h))
        (\<lambda>key. \<lparr>dc_date = key, dc_importKwh = 0, dc_exportKwh = 0, dc_importCost = 0, dc_exportEarnings = 0, dc_net = 0\<rparr>)
        (day_step zone tz tariff z) hours []"
    by (simp add: allocate_hour_sums no_costs_def EnergyTotals.defs)
  have get: "js_get ?m k = (if k \<in> ?K then Some (day_entry zone tz tariff z k hours) else None)" for k
    by (simp add: m js_get_group_fold fold_day_step day_entry_def on_day_def Let_def)
  have dist: "distinct (map fst ?m)" by (simp add: m distinct_group_fold)
  have keys: "fst ` set ?m = ?K" by (simp add: m keys_group_fold)
  have "map snd ?m = map (\<lambda>key. day_entry zone tz tariff z key hours) (map fst ?m)"
    by (rule entries_by_key [OF get dist keys])
  then have "sort_key dc_date (map snd ?m) = map (\<lambda>key. day_entry zone tz tariff z key hours) (sort (map fst ?m))"
    by (simp only: sort_key_map) (simp add: day_entry_def Let_def)
  also have "sort (map fst ?m) = sorted_list_of_set ?K"
    by (rule sorted_distinct_set_unique) (use dist keys in auto)
  finally show ?thesis .
qed

lemma bands_are_entries:
  fixes hours tariff zone tz z
  defines "m \<equiv> cs_bands (fold (allocate_hour zone tz tariff z) hours no_costs)"
  shows "map snd m = map (\<lambda>name. band_entry zone tz tariff name hours) (map fst m)" "distinct (map fst m)"
    "fst ` set m = (\<lambda>h. hour_band_name zone tz tariff (he_time h)) ` set hours"
proof -
  let ?K = "(\<lambda>h. hour_band_name zone tz tariff (he_time h)) ` set hours"
  have m: "m = group_fold (\<lambda>h. hour_band_name zone tz tariff (he_time h))
        (\<lambda>name. \<lparr>bc_name = name, bc_importKwh = 0, bc_cost = 0\<rparr>) (band_step zone tz tariff) hours []"
    by (simp add: m_def allocate_hour_sums no_costs_def EnergyTotals.defs)
  have get: "js_get m k = (if k \<in> ?K then Some (band_entry zone tz tariff k hours) else None)" for k
    by (simp add: m js_get_group_fold fold_band_step band_entry_def in_band_named_def Let_def)
  show dist: "distinct (map fst m)" by (simp add: m distinct_group_fold)
  show keys: "fst ` set m = ?K" by (simp add: m keys_group_fold)
  show "map snd m = map (\<lambda>name. band_entry zone tz tariff name hours) (map fst m)"
    by (rule entries_by_key [OF get dist keys])
qed


text \<open>Any figure of the days or of the bands adds up over the hours.\<close>

lemma sum_over_entries:
  "over (\<lambda>k. over g (filter (\<lambda>h. key h = k) hours)) (sorted_list_of_set (key ` set hours)) = over g hours"
  by (simp add: sum_list_distinct_conv_sum_set sum_by_key)

lemma allocateCost_sums:
  "et_get f (allocateCost hours tariff d z zone tz) = over (he_get f) hours"
  "ct_importCost (allocateCost hours tariff d z zone tz) = over (hour_cost zone tz tariff) hours"
  "ct_exportEarnings (allocateCost hours tariff d z zone tz) = over (hour_earnings tariff z) hours"
  "ct_gridOnlyCost (allocateCost hours tariff d z zone tz) = over (\<lambda>h. he_load h * hour_price zone tz tariff (he_time h)) hours"
  "ct_zeroValueExportKwh (allocateCost hours tariff d z zone tz) = over (hour_lost z) hours"
  "ct_standingCharge (allocateCost hours tariff d z zone tz) = tc_standingChargeMonthly tariff * d / AVG_DAYS_PER_MONTH"
  by (cases f, simp_all add: allocateCost_def Let_def allocate_hour_sums(2-8) allocate_hour_sums(1) [of FImport, simplified]
      allocate_hour_sums(1) [of FExport, simplified] allocate_hour_sums(1) [of FLoad, simplified]
      allocate_hour_sums(1) [of FProduction, simplified] allocate_hour_sums(1) [of FBatteryDischarge, simplified]
      allocate_hour_sums(1) [of FBatteryCharge, simplified] no_costs_def emptyTotals_def EnergyTotals.defs)

lemma allocateCost_byDay:
  "ct_byDay (allocateCost hours tariff d z zone tz) = map (\<lambda>key. day_entry zone tz tariff z key hours)
     (sorted_list_of_set ((\<lambda>h. dateKey zone tz (he_time h)) ` set hours))"
  by (simp add: allocateCost_def Let_def days_are_entries)

lemma he_get_fields: "he_get FImport = he_import" "he_get FExport = he_export" "he_get FLoad = he_load"
  by (simp_all add: fun_eq_iff)

lemma sort_key_sums: "over g (sort_key f xs) = over g xs"
proof -
  have "over g (insort_key f x xs) = g x + over g xs" for x xs by (induction xs) auto
  then show ?thesis by (induction xs) simp_all
qed

lemma byBand_sums:
  fixes hours tariff d z zone tz
  defines "bands \<equiv> ct_byBand (allocateCost hours tariff d z zone tz)"
  shows "over bc_cost bands = over (hour_cost zone tz tariff) hours" "over bc_importKwh bands = over he_import hours"
    "distinct (map bc_name bands)" "sorted (map (\<lambda>b. - bc_cost b) bands)"
    "set bands = (\<lambda>name. band_entry zone tz tariff name hours) ` (\<lambda>h. hour_band_name zone tz tariff (he_time h)) ` set hours"
proof -
  let ?m = "cs_bands (fold (allocate_hour zone tz tariff z) hours no_costs)"
  let ?K = "(\<lambda>h. hour_band_name zone tz tariff (he_time h)) ` set hours"
  have bands: "bands = sort_key (\<lambda>b. - bc_cost b) (map snd ?m)" by (simp add: bands_def allocateCost_def Let_def)
  note m = bands_are_entries [of zone tz tariff z hours]
  have sums: "over g bands = (\<Sum>k\<in>?K. g (band_entry zone tz tariff k hours))" for g
  proof -
    have "over g bands = over (\<lambda>k. g (band_entry zone tz tariff k hours)) (map fst ?m)"
      unfolding bands sort_key_sums m(1) by (simp add: comp_def)
    then show ?thesis using m(2-3) by (simp add: sum_list_distinct_conv_sum_set del: map_map)
  qed
  show "over bc_cost bands = over (hour_cost zone tz tariff) hours" "over bc_importKwh bands = over he_import hours"
    unfolding sums by (simp_all add: band_entry_def Let_def in_band_named_def sum_by_key)
  have "map bc_name (map snd ?m) = map fst ?m" unfolding m(1) by (simp add: band_entry_def Let_def comp_def)
  moreover have "mset (map bc_name bands) = mset (map bc_name (map snd ?m))" unfolding bands by (simp only: mset_map mset_sort)
  ultimately show "distinct (map bc_name bands)" using m(2) by (metis mset_eq_imp_distinct_iff)
  show "sorted (map (\<lambda>b. - bc_cost b) bands)" unfolding bands by simp
  show "set bands = (\<lambda>name. band_entry zone tz tariff name hours) ` ?K"
    unfolding bands set_sort m(1) using m(3) by (metis list.set_map)
qed

lemma over_diff: "over (\<lambda>x. g x - h x) xs = over g xs - over h xs"
  by (simp add: sum_list_subtractf)

text \<open>C32. The bill adds up: every total is the sum over the hours of what the hour costs and earns at the band
  its wall clock falls in; the days are listed once each, in order, with exactly their own hours'
  energy and money, the bands once each, dearest first, and days and bands both sum to the totals.\<close>

theorem cost_adds_up:
  "let c = allocateCost hours tariff rangeDays z zone tz in
     ct_importCost c = over (\<lambda>h. he_import h * hour_price zone tz tariff (he_time h)) hours
   \<and> ct_exportEarnings c = over (\<lambda>h. he_export h * xt_feedInPerKwh (tc_export tariff) * paidShare z (he_time h)) hours
   \<and> ct_byDay c = map (\<lambda>key. day_entry zone tz tariff z key hours)
       (sorted_list_of_set ((\<lambda>h. dateKey zone tz (he_time h)) ` set hours))
   \<and> over dc_importCost (ct_byDay c) = ct_importCost c \<and> over dc_exportEarnings (ct_byDay c) = ct_exportEarnings c
   \<and> over dc_importKwh (ct_byDay c) = et_importKwh c \<and> over dc_exportKwh (ct_byDay c) = et_exportKwh c
   \<and> ct_net c = over dc_net (ct_byDay c) + ct_standingCharge c
   \<and> set (ct_byBand c) = (\<lambda>name. band_entry zone tz tariff name hours) ` (\<lambda>h. hour_band_name zone tz tariff (he_time h)) ` set hours
   \<and> distinct (map bc_name (ct_byBand c)) \<and> sorted (map (\<lambda>b. - bc_cost b) (ct_byBand c))
   \<and> over bc_cost (ct_byBand c) = ct_importCost c \<and> over bc_importKwh (ct_byBand c) = et_importKwh c"
proof -
  define c where "c = allocateCost hours tariff rangeDays z zone tz"
  have days: "over dc_importCost (ct_byDay c) = over (hour_cost zone tz tariff) hours"
    "over dc_exportEarnings (ct_byDay c) = over (hour_earnings tariff z) hours"
    "over dc_importKwh (ct_byDay c) = over he_import hours" "over dc_exportKwh (ct_byDay c) = over he_export hours"
    "over dc_net (ct_byDay c) = over (hour_cost zone tz tariff) hours - over (hour_earnings tariff z) hours"
    unfolding c_def allocateCost_byDay
    by (simp_all add: day_entry_def Let_def on_day_def comp_def over_diff sum_over_entries)
  have net: "ct_net c = ct_importCost c - ct_exportEarnings c + ct_standingCharge c"
    by (simp add: c_def allocateCost_def Let_def)
  have kwh: "et_importKwh c = over he_import hours" "et_exportKwh c = over he_export hours"
    using allocateCost_sums(1) [of FImport] allocateCost_sums(1) [of FExport] by (simp_all add: c_def he_get_fields)
  show ?thesis unfolding c_def [symmetric] Let_def using days net kwh byBand_sums [of hours tariff rangeDays z zone tz]
    by (simp add: c_def allocateCost_sums allocateCost_byDay hour_cost_def [abs_def] hour_earnings_def [abs_def])
qed


subsection \<open>A series prices the same energy the same way\<close>

definition coords :: "CounterDeltaRow \<Rightarrow> string \<times> int \<times> int" where
  "coords r = (cr_period r, cr_hod r, cr_dow r)"

text \<open>Rows that group hours: at each period, hour of day and weekday the rows of the metrics \<open>M\<close> have the
  energy of the hours there.\<close>

definition tallies ::
  "CounterDeltaRow list \<Rightarrow> (string \<Rightarrow> bool) \<Rightarrow> EnergyField \<Rightarrow> (HourEnergy \<Rightarrow> string \<times> int \<times> int) \<Rightarrow> HourEnergy list \<Rightarrow> bool" where
  "tallies rows M f loc hours \<longleftrightarrow> (\<forall>c. over cr_kwh (filter (\<lambda>r. M (cr_metric r) \<and> coords r = c) rows)
     = over (he_get f) (filter (\<lambda>h. loc h = c) hours))"

lemma tallies_priced:
  assumes "tallies rows M f loc hours"
  shows "over (\<lambda>r. cr_kwh r * g (coords r)) (filter (\<lambda>r. M (cr_metric r) \<and> cr_period r = p) rows)
    = over (\<lambda>h. he_get f h * g (loc h)) (filter (\<lambda>h. fst (loc h) = p) hours)"
proof -
  let ?R = "filter (\<lambda>r. M (cr_metric r) \<and> cr_period r = p) rows" and ?H = "filter (\<lambda>h. fst (loc h) = p) hours"
  let ?K = "coords ` set ?R \<union> loc ` set ?H"
  have fin: "finite ?K" by simp
  have rows: "over (\<lambda>r. cr_kwh r * g (coords r)) (filter (\<lambda>r. coords r = c) ?R)
      = over cr_kwh (filter (\<lambda>r. coords r = c) ?R) * g c" for c
    unfolding over_mult [symmetric] by (rule arg_cong [where f = sum_list]) (rule map_cong, simp_all)
  have hours: "over (\<lambda>h. he_get f h * g (loc h)) (filter (\<lambda>h. loc h = c) ?H)
      = over (he_get f) (filter (\<lambda>h. loc h = c) ?H) * g c" for c
    unfolding over_mult [symmetric] by (rule arg_cong [where f = sum_list]) (rule map_cong, simp_all)
  have tally: "over cr_kwh (filter (\<lambda>r. coords r = c) ?R) = over (he_get f) (filter (\<lambda>h. loc h = c) ?H)" for c
  proof (cases "fst c = p")
    case True
    then have "filter (\<lambda>r. coords r = c) ?R = filter (\<lambda>r. M (cr_metric r) \<and> coords r = c) rows"
      "filter (\<lambda>h. loc h = c) ?H = filter (\<lambda>h. loc h = c) hours"
      by (auto simp: coords_def intro!: filter_cong)
    with assms show ?thesis by (simp only: tallies_def)
  next
    case False
    then have "filter (\<lambda>r. coords r = c) ?R = []" "filter (\<lambda>h. loc h = c) ?H = []"
      by (auto simp: coords_def filter_empty_conv)
    then show ?thesis by (simp only: list.map sum_list.Nil)
  qed
  have "over (\<lambda>r. cr_kwh r * g (coords r)) ?R = (\<Sum>c\<in>?K. over (\<lambda>r. cr_kwh r * g (coords r)) (filter (\<lambda>r. coords r = c) ?R))"
    by (rule sum_by_key [symmetric, OF fin]) blast
  also have "\<dots> = (\<Sum>c\<in>?K. over (\<lambda>h. he_get f h * g (loc h)) (filter (\<lambda>h. loc h = c) ?H))"
    by (simp only: rows hours tally)
  also have "\<dots> = over (\<lambda>h. he_get f h * g (loc h)) ?H" by (rule sum_by_key [OF fin]) blast
  finally show ?thesis .
qed

definition rows_of :: "(string, EnergyField) js_map \<Rightarrow> EnergyField \<Rightarrow> string \<Rightarrow> CounterDeltaRow list \<Rightarrow> CounterDeltaRow list" where
  "rows_of fieldByKey f p rows = filter (\<lambda>r. js_get fieldByKey (cr_metric r) = Some f \<and> cr_period r = p) rows"

definition row_cost :: "TariffConfig \<Rightarrow> CounterDeltaRow \<Rightarrow> number" where
  "row_cost tariff r = cr_kwh r * importPriceForHour tariff (cr_hod r) (cr_dow r)"

definition priced_point ::
  "TariffConfig \<Rightarrow> (CounterDeltaRow \<Rightarrow> number) \<Rightarrow> (string, EnergyField) js_map \<Rightarrow> CounterDeltaRow list \<Rightarrow> string \<Rightarrow> CostSeriesPoint
    \<Rightarrow> CostSeriesPoint" where
  "priced_point tariff share fieldByKey rows p point =
     (let feedIn = xt_feedInPerKwh (tc_export tariff); ex = rows_of fieldByKey FExport p rows;
          lost = over (\<lambda>r. cr_kwh r * share r) ex
      in point\<lparr>cp_importCost := cp_importCost point + over (row_cost tariff) (rows_of fieldByKey FImport p rows),
           cp_exportEarnings := cp_exportEarnings point + (over cr_kwh ex - lost) * feedIn,
           cp_zeroValueExportKwh := cp_zeroValueExportKwh point + lost,
           cp_zeroValueExportEur := cp_zeroValueExportEur point + lost * feedIn\<rparr>)"

text \<open>One row is folded in; rows of other fields and of other periods leave a point as it is.\<close>

lemma addSeriesRow_priced:
  assumes "js_get fieldByKey (cr_metric r) = Some FExport \<Longrightarrow> row_share zone tz z r = Some (share r)"
  shows "\<exists>q. addSeriesRow zone tz tariff z (js_get fieldByKey (cr_metric r)) r point = Some q
     \<and> priced_point tariff share fieldByKey rows (cr_period r) q = priced_point tariff share fieldByKey (r # rows) (cr_period r) point"
  using assms
  by (auto simp: addSeriesRow_def addExportRow_def priced_point_def rows_of_def row_cost_def Let_def algebra_simps)

lemma priced_point_other: "cr_period r \<noteq> p \<Longrightarrow> priced_point tariff share fieldByKey (r # rows) p = priced_point tariff share fieldByKey rows p"
  by (simp add: priced_point_def rows_of_def fun_eq_iff)

lemma add_series_rows_priced:
  assumes "\<And>r. r \<in> set rows \<Longrightarrow> js_get fieldByKey (cr_metric r) = Some FExport \<Longrightarrow> row_share zone tz z r = Some (share r)"
  shows "\<exists>m'. add_series_rows zone tz tariff z fieldByKey rows m = Some m' \<and> map fst m' = map fst m
     \<and> (\<forall>p. js_get m' p = map_option (priced_point tariff share fieldByKey rows p) (js_get m p))"
  using assms
proof (induction rows arbitrary: m)
  case Nil
  have "priced_point tariff share fieldByKey [] p = id" for p
    by (simp add: priced_point_def rows_of_def fun_eq_iff)
  then show ?case by (simp add: option.map_ident)
next
  case (Cons r rows)
  note IH = Cons.IH [OF Cons.prems [OF list.set_intros(2)]]
  show ?case
  proof (cases "js_get m (cr_period r)")
    case None
    have "map_option (priced_point tariff share fieldByKey rows p) (js_get m p)
        = map_option (priced_point tariff share fieldByKey (r # rows) p) (js_get m p)" for p
      using None by (cases "cr_period r = p") (simp_all add: priced_point_other)
    with IH [of m] None show ?thesis by simp
  next
    case (Some point)
    from addSeriesRow_priced [of fieldByKey r zone tz z share tariff point rows] Cons.prems [of r]
    obtain q where q: "addSeriesRow zone tz tariff z (js_get fieldByKey (cr_metric r)) r point = Some q"
      "priced_point tariff share fieldByKey rows (cr_period r) q = priced_point tariff share fieldByKey (r # rows) (cr_period r) point"
      by auto
    from IH [of "js_set (cr_period r) q m"] obtain m' where m':
      "add_series_rows zone tz tariff z fieldByKey rows (js_set (cr_period r) q m) = Some m'"
      "map fst m' = map fst (js_set (cr_period r) q m)"
      "\<And>p. js_get m' p = map_option (priced_point tariff share fieldByKey rows p) (js_get (js_set (cr_period r) q m) p)" by blast
    have "map fst (js_set (cr_period r) q m) = map fst m"
      using Some by (metis update_keys dom_map_of_conv_image_fst domI image_set)
    moreover have "js_get m' p = map_option (priced_point tariff share fieldByKey (r # rows) p) (js_get m p)" for p
      using m'(3) [of p] q(2) Some by (cases "cr_period r = p") (simp_all add: priced_point_other)
    ultimately show ?thesis using m' q(1) Some by simp
  qed
qed


lemma js_sets_fresh:
  "distinct (map fst m @ ks) \<Longrightarrow> fold (\<lambda>b. js_set b (g b)) ks m = m @ map (\<lambda>b. (b, g b)) ks"
proof (induction ks arbitrary: m)
  case (Cons k ks)
  have new: "k \<notin> fst ` set m" using Cons.prems by simp
  then have "js_set k (g k) m = m @ [(k, g k)]" by (induction m) auto
  then show ?case using Cons.IH [of "m @ [(k, g k)]"] Cons.prems by simp
qed simp

definition standing_at :: "(string, number) js_map \<Rightarrow> string \<Rightarrow> number" where
  "standing_at standing p = (case js_get standing p of Some c \<Rightarrow> c | None \<Rightarrow> 0)"

lemma priceSeriesRows_points:
  assumes "distinct periods"
    and "\<And>r. r \<in> set rows \<Longrightarrow> js_get fieldByKey (cr_metric r) = Some FExport \<Longrightarrow> row_share zone tz z r = Some (share r)"
  shows "priceSeriesRows rows fieldByKey periods tariff standing zone tz z =
     Some (map (\<lambda>p. with_net (priced_point tariff share fieldByKey rows p (emptySeriesPoint p (standing_at standing p)))) periods)"
proof -
  let ?g = "\<lambda>b. emptySeriesPoint b (standing_at standing b)"
  let ?m = "map (\<lambda>b. (b, ?g b)) periods"
  have keys: "map fst ?m = periods" by (simp add: comp_def)
  have init: "fold (\<lambda>b. js_set b (?g b)) periods [] = ?m" using js_sets_fresh [of "[]" periods ?g] assms(1) by simp
  from add_series_rows_priced [OF assms(2)] obtain m' where
    m': "add_series_rows zone tz tariff z fieldByKey rows ?m = Some m'" "map fst m' = map fst ?m"
      "\<And>p. js_get m' p = map_option (priced_point tariff share fieldByKey rows p) (js_get ?m p)" by meson
  have "map snd m' = map (\<lambda>p. priced_point tariff share fieldByKey rows p (?g p)) (map fst m')"
  proof (rule entries_by_key)
    show "js_get m' k = (if k \<in> set periods then Some (priced_point tariff share fieldByKey rows k (?g k)) else None)" for k
      using m'(3) [of k] by (simp add: map_of_map_restrict)
  qed (use m'(2) keys assms(1) in \<open>auto simp flip: set_map\<close>)
  then have "map (\<lambda>(_, p). with_net p) m' = map with_net (map (\<lambda>p. priced_point tariff share fieldByKey rows p (?g p)) periods)"
    using m'(2) keys by (metis (no_types, lifting) case_prod_beta' map_map comp_def map_eq_conv)
  with m'(1) init show ?thesis unfolding priceSeriesRows_def standing_at_def by (simp add: comp_def)
qed

subsection \<open>Re-pricing today under one flat rate\<close>

definition flat_rates :: "TariffConfig \<Rightarrow> FallbackRates" where
  "flat_rates tariff = \<lparr>fr_importPrice = it_defaultPricePerKwh (tc_import tariff), fr_exportPrice = xt_feedInPerKwh (tc_export tariff)\<rparr>"

lemma flat_hour_price: "it_bands (tc_import tariff) = [] \<Longrightarrow> hour_price zone tz tariff t = it_defaultPricePerKwh (tc_import tariff)"
  by (simp add: hour_price_def hour_band_def importBandForHour_def)

lemma allocateCost_kwh:
  "et_importKwh (allocateCost hours tariff d z zone tz) = over he_import hours"
  "et_exportKwh (allocateCost hours tariff d z zone tz) = over he_export hours"
  "et_loadKwh (allocateCost hours tariff d z zone tz) = over he_load hours"
  using allocateCost_sums(1) [of FImport hours tariff d z zone tz] allocateCost_sums(1) [of FExport hours tariff d z zone tz]
    allocateCost_sums(1) [of FLoad hours tariff d z zone tz] by (simp_all add: he_get_fields)

lemma flat_money:
  assumes "it_bands (tc_import tariff) = []" and "c = allocateCost hours tariff d None zone tz"
  shows "ct_importCost c = et_importKwh c * it_defaultPricePerKwh (tc_import tariff)"
    and "ct_exportEarnings c = et_exportKwh c * xt_feedInPerKwh (tc_export tariff)"
    and "ct_gridOnlyCost c = et_loadKwh c * it_defaultPricePerKwh (tc_import tariff)"
  by (simp_all add: assms(2) allocateCost_kwh allocateCost_sums(2-) he_get_fields hour_cost_def [abs_def] hour_earnings_def [abs_def] paidShare_def
      clamp01_def flat_hour_price [OF assms(1)] over_mult)

lemma effectiveRate_flat: "effectiveRate (kwh * rate) kwh rate = rate"
  by (simp add: effectiveRate_def)

lemma flat_reprice:
  assumes flat: "it_bands (tc_import tariff) = []" and t: "part = allocateCost today tariff d None zone tz"
    and window: "ct_importCost window = i * it_defaultPricePerKwh (tc_import tariff)"
      "ct_exportEarnings window = e * xt_feedInPerKwh (tc_export tariff)" "ct_gridOnlyCost window = l * it_defaultPricePerKwh (tc_import tariff)"
    and r: "r = repriceTodaySlice window part live (flat_rates tariff)"
  shows "ct_importCost r = (i - et_importKwh part + et_importKwh live) * it_defaultPricePerKwh (tc_import tariff)"
    and "ct_exportEarnings r = (e - et_exportKwh part + et_exportKwh live) * xt_feedInPerKwh (tc_export tariff)"
    and "ct_gridOnlyCost r = (l - et_loadKwh part + et_loadKwh live) * it_defaultPricePerKwh (tc_import tariff)"
    and "ct_net r = ct_importCost r - ct_exportEarnings r + ct_standingCharge window"
  using flat_money [OF flat t] window
  by (simp_all add: r repriceTodaySlice_def Let_def flat_rates_def effectiveRate_flat algebra_simps)

end
