(* ===== verification/Plant_Source.thy ===== *)
theory Plant_Source
  imports Roles Keyed_Sums
begin

text \<open>
  Where a series is read from and what the plant as a whole reads: \<^verbatim>\<open>shared/plant-source.ts\<close> (the members
  of a plant and the spellings of a source) and \<^verbatim>\<open>shared/plant-fold.ts\<close> (the folds of the members' raw
  series and of their live samples). The text of an instant is the instant, none when it does not parse.
  A folded value is an option: \<open>None\<close> is \<open>NaN\<close>, the weighted mean of members that weigh nothing.
\<close>

subsection \<open>The source of a series\<close>

record PlantMember =
  pm_id :: int
  pm_slug :: string
  pm_profileId :: "string option"
  pm_weight :: number

datatype SeriesSourceRequest = PlantRequest | DeviceRequest string
datatype SeriesTarget = DeviceTarget string | PlantTarget "PlantMember list"

fun isPlantTarget :: "SeriesTarget \<Rightarrow> bool" where
  "isPlantTarget (DeviceTarget _) = False"
| "isPlantTarget (PlantTarget _) = True"

fun comma_separated :: "string list \<Rightarrow> string" where
  "comma_separated [] = []"
| "comma_separated [s] = s"
| "comma_separated (s # ss) = s @ '','' @ comma_separated ss"

definition targetKey :: "SeriesTarget \<Rightarrow> string" where
  "targetKey t = (case t of DeviceTarget slug \<Rightarrow> slug
     | PlantTarget plant \<Rightarrow> ''plant:'' @ comma_separated (map (\<lambda>m. js_int_string (pm_id m)) plant))"

text \<open>\<open>q.source || q.inverterId\<close>: an empty text is no source.\<close>

definition parseSeriesSource :: "string option \<Rightarrow> string option \<Rightarrow> SeriesSourceRequest option" where
  "parseSeriesSource source inverterId =
     (let raw = (if source \<noteq> None \<and> source \<noteq> Some [] then source else inverterId)
      in case raw of
           None \<Rightarrow> None
         | Some s \<Rightarrow> if s = [] then None else if s = ''plant'' then Some PlantRequest else Some (DeviceRequest s))"

record MemberRow =
  mr_id :: int
  mr_slug :: string
  mr_name :: string
  mr_profileId :: string
  mr_role :: string
  mr_retiredAt :: "millis option"
  mr_batteryKwh :: "number option"

definition plantMembers :: "MemberRow list \<Rightarrow> bool \<Rightarrow> PlantMember list" where
  "plantMembers rows live =
     (let pool = (if live then filter (\<lambda>r. mr_retiredAt r = None) rows else rows);
          controllers = filter (\<lambda>r. mr_role r = ''controller'') pool;
          chosen = (if controllers \<noteq> [] then controllers else filter (\<lambda>r. mr_role r = ''inverter'') pool)
      in map (\<lambda>r. \<lparr>pm_id = mr_id r, pm_slug = mr_slug r, pm_profileId = Some (mr_profileId r),
           pm_weight = (case mr_batteryKwh r of Some kwh \<Rightarrow> kwh | None \<Rightarrow> 1)\<rparr>) chosen)"

subsection \<open>Folding members\<close>

record Contribution =
  co_value :: number
  co_weight :: number

definition fold_parts :: "PlantAggregate \<Rightarrow> Contribution list \<Rightarrow> number option" where
  "fold_parts kind parts =
     (if kind = SumOf then Some (sum_list (map co_value parts))
      else let weight = sum_list (map co_weight parts)
        in if weight = 0 then None else Some (sum_list (map (\<lambda>p. co_value p * co_weight p) parts) / weight))"

definition soleMember :: "nat \<Rightarrow> (string \<Rightarrow> PlantAggregate) \<Rightarrow> string \<Rightarrow> PlantAggregate" where
  "soleMember count aggregateOf m =
     (if count = 1 then (if aggregateOf m = PerDevice then SumOf else aggregateOf m) else aggregateOf m)"

subsection \<open>The live reading\<close>

record LiveSample =
  lv_time :: "millis option"
  lv_metrics :: "(string, number) js_map"

record LiveMember =
  lm_slug :: string
  lm_weight :: number
  lm_sample :: "LiveSample option"

record FreshMember =
  fm_slug :: string
  fm_weight :: number
  fm_metrics :: "(string, number) js_map"
  fm_atMs :: millis

record PlantSample =
  ps_time :: millis
  ps_metrics :: "(string, number option) js_map"
  ps_members :: "string list"
  ps_stale :: "string list"

definition fresh_of :: "millis \<Rightarrow> millis \<Rightarrow> LiveMember \<Rightarrow> FreshMember option" where
  "fresh_of nowMs staleAfterMs m = (case lm_sample m of
     None \<Rightarrow> None
   | Some s \<Rightarrow> (case lv_time s of
       None \<Rightarrow> None
     | Some atMs \<Rightarrow> if nowMs - atMs \<le> staleAfterMs
         then Some \<lparr>fm_slug = lm_slug m, fm_weight = lm_weight m, fm_metrics = lv_metrics s, fm_atMs = atMs\<rparr> else None))"

definition partitionFresh :: "LiveMember list \<Rightarrow> millis \<Rightarrow> millis \<Rightarrow> FreshMember list \<times> string list" where
  "partitionFresh members nowMs staleAfterMs =
     fold (\<lambda>m (fresh, stale). case fresh_of nowMs staleAfterMs m of
         Some f \<Rightarrow> (fresh @ [f], stale) | None \<Rightarrow> (fresh, stale @ [lm_slug m])) members ([], [])"

definition metric_parts :: "string \<Rightarrow> FreshMember list \<Rightarrow> Contribution list" where
  "metric_parts key fresh = List.map_filter (\<lambda>m. case js_get (fm_metrics m) key of
       None \<Rightarrow> None
     | Some v \<Rightarrow> if is_finite v then Some \<lparr>co_value = v, co_weight = fm_weight m\<rparr> else None) fresh"

definition foldMetric :: "PlantAggregate \<Rightarrow> string \<Rightarrow> FreshMember list \<Rightarrow> number option option" where
  "foldMetric kind key fresh =
     (let parts = metric_parts key fresh in if parts \<noteq> [] then Some (fold_parts kind parts) else None)"

definition foldLiveSamples :: "LiveMember list \<Rightarrow> millis \<Rightarrow> millis \<Rightarrow> (string \<Rightarrow> PlantAggregate) \<Rightarrow> PlantSample" where
  "foldLiveSamples members nowMs staleAfterMs aggregateOf =
     (case partitionFresh members nowMs staleAfterMs of (fresh, stale) \<Rightarrow>
        let keys = set_adds (concat (map (\<lambda>m. map fst (fm_metrics m)) fresh)) [];
            kindOf = soleMember (length members) aggregateOf;
            metrics = fold (\<lambda>key metrics. if kindOf key = PerDevice then metrics
              else case foldMetric (kindOf key) key fresh of None \<Rightarrow> metrics | Some v \<Rightarrow> js_set key v metrics) keys []
        in \<lparr>ps_time = (if fresh = [] then nowMs else Max (set (map fm_atMs fresh))), ps_metrics = metrics,
            ps_members = map lm_slug members, ps_stale = stale\<rparr>)"

subsection \<open>The raw series on one grid\<close>

record RecentSeries =
  rs_o :: "int list"
  rs_v :: "number option list"

record RecentBackfill =
  rb_t0 :: millis
  rb_step :: int
  rb_metrics :: "(string, RecentSeries) js_map"

record MemberBackfill =
  mb_weight :: number
  mb_backfill :: RecentBackfill

record MemberPoints =
  mp_weight :: number
  mp_points :: "(int, number) js_map"

text \<open>An offset without a finite value at its index is no point.\<close>

definition series_points :: "RecentSeries \<Rightarrow> int \<Rightarrow> (int, number) js_map" where
  "series_points s shift = fold (\<lambda>(o', v). case v of
       Some x \<Rightarrow> if is_finite x then js_set (o' + shift) x else id | None \<Rightarrow> id) (zip (rs_o s) (rs_v s)) []"

definition memberPoints :: "MemberBackfill \<Rightarrow> string \<Rightarrow> int \<Rightarrow> MemberPoints option" where
  "memberPoints m metric shift = map_option (\<lambda>s. \<lparr>mp_weight = mb_weight m, mp_points = series_points s shift\<rparr>)
     (js_get (rb_metrics (mb_backfill m)) metric)"

definition hold :: "int \<Rightarrow> MemberPoints \<Rightarrow> number option \<Rightarrow> number option" where
  "hold offset m held = (case js_get (mp_points m) offset of Some v \<Rightarrow> Some v | None \<Rightarrow> held)"

definition held_parts :: "MemberPoints list \<Rightarrow> number option list \<Rightarrow> Contribution list" where
  "held_parts members held = List.map_filter (\<lambda>(m, h). map_option (\<lambda>v. \<lparr>co_value = v, co_weight = mp_weight m\<rparr>) h) (zip members held)"

fun grid_loop :: "PlantAggregate \<Rightarrow> MemberPoints list \<Rightarrow> number option list \<Rightarrow> int list \<Rightarrow> RecentSeries \<Rightarrow> RecentSeries" where
  "grid_loop kind members held [] out = out"
| "grid_loop kind members held (offset # offsets) out =
     (let held' = map2 (hold offset) members held; parts = held_parts members held'
      in grid_loop kind members held' offsets
           (if parts = [] then out else \<lparr>rs_o = rs_o out @ [offset], rs_v = rs_v out @ [fold_parts kind parts]\<rparr>))"

definition grid_offsets :: "MemberPoints list \<Rightarrow> int list" where
  "grid_offsets members = sort (set_adds (concat (map (\<lambda>m. map fst (mp_points m)) members)) [])"

definition foldOnGrid :: "PlantAggregate \<Rightarrow> MemberPoints list \<Rightarrow> RecentSeries" where
  "foldOnGrid kind members =
     grid_loop kind members (map (\<lambda>_. None) members) (grid_offsets members) \<lparr>rs_o = [], rs_v = []\<rparr>"

text \<open>The shift of a member's grid: \<open>Math.round((t0 of the member - t0) / stepMs)\<close>.\<close>

definition grid_shift :: "millis \<Rightarrow> int \<Rightarrow> MemberBackfill \<Rightarrow> int" where
  "grid_shift t0 stp m = math_round (of_int (rb_t0 (mb_backfill m) - t0) / of_int (stp * 1000))"

definition foldRecentBackfills :: "MemberBackfill list \<Rightarrow> (string \<Rightarrow> PlantAggregate) \<Rightarrow> RecentBackfill" where
  "foldRecentBackfills members aggregate =
     (let stp = (case members of m # _ \<Rightarrow> rb_step (mb_backfill m) | [] \<Rightarrow> 1);
          withData = filter (\<lambda>m. rb_metrics (mb_backfill m) \<noteq> []) members
      in if withData = [] then \<lparr>rb_t0 = 0, rb_step = stp, rb_metrics = []\<rparr>
         else let kindOf = soleMember (length members) aggregate;
                  t0 = Min (set (map (\<lambda>m. rb_t0 (mb_backfill m)) withData));
                  names = set_adds (concat (map (\<lambda>m. map fst (rb_metrics (mb_backfill m))) withData)) [];
                  metrics = fold (\<lambda>metric metrics. if kindOf metric = PerDevice then metrics
                    else let series = foldOnGrid (kindOf metric)
                                (List.map_filter (\<lambda>m. memberPoints m metric (grid_shift t0 stp m)) withData)
                         in if rs_o series = [] then metrics else js_set metric series metrics) names []
              in \<lparr>rb_t0 = t0, rb_step = stp, rb_metrics = metrics\<rparr>)"

subsection \<open>The live reading is the fresh members'\<close>

lemma get_collected:
  "js_get (fold (\<lambda>k m. case f k of None \<Rightarrow> m | Some v \<Rightarrow> js_set k v m) ks m0) x =
     (case (if x \<in> set ks then f x else None) of Some v \<Rightarrow> Some v | None \<Rightarrow> js_get m0 x)"
  by (induction ks arbitrary: m0) (auto split: option.splits)

lemma partitionFresh_eq:
  "partitionFresh members now age = (List.map_filter (fresh_of now age) members,
     map lm_slug (filter (\<lambda>m. fresh_of now age m = None) members))"
proof -
  have "fold (\<lambda>m (fresh, stale). case fresh_of now age m of Some f \<Rightarrow> (fresh @ [f], stale) | None \<Rightarrow> (fresh, stale @ [lm_slug m]))
      members (xs, ys) = (xs @ List.map_filter (fresh_of now age) members,
        ys @ map lm_slug (filter (\<lambda>m. fresh_of now age m = None) members))" for xs ys
    by (induction members arbitrary: xs ys) (auto simp: map_filter_simps split: option.split)
  then show ?thesis by (simp add: partitionFresh_def)
qed

lemma no_parts: "key \<notin> set (concat (map (\<lambda>m. map fst (fm_metrics m)) fresh)) \<Longrightarrow> metric_parts key fresh = []"
proof (induction fresh)
  case (Cons m fresh)
  then have "js_get (fm_metrics m) key = None" by (simp add: map_of_eq_None_iff)
  with Cons show ?case by (simp add: metric_parts_def map_filter_simps)
qed (simp add: metric_parts_def map_filter_simps)

lemma live_metric:
  "js_get (ps_metrics (foldLiveSamples members now age agg)) key =
     (if soleMember (length members) agg key = PerDevice then None
      else foldMetric (soleMember (length members) agg key) key (List.map_filter (fresh_of now age) members))"
proof -
  let ?fresh = "List.map_filter (fresh_of now age) members" and ?kind = "soleMember (length members) agg"
  have "(\<lambda>key metrics. if ?kind key = PerDevice then metrics
        else case foldMetric (?kind key) key ?fresh of None \<Rightarrow> metrics | Some v \<Rightarrow> js_set key v metrics)
      = (\<lambda>key metrics. case (if ?kind key = PerDevice then None else foldMetric (?kind key) key ?fresh) of
          None \<Rightarrow> metrics | Some v \<Rightarrow> js_set key v metrics)"
    by (intro ext) simp
  moreover have "key \<notin> set (concat (map (\<lambda>m. map fst (fm_metrics m)) ?fresh)) \<Longrightarrow> foldMetric k key ?fresh = None" for k
    using no_parts by (simp add: foldMetric_def)
  ultimately show ?thesis
    by (simp add: foldLiveSamples_def partitionFresh_eq Let_def get_collected del: set_concat set_map split: option.split)
qed

lemma mean_within:
  assumes "parts \<noteq> []" and "\<forall>p\<in>set parts. 0 < co_weight p \<and> lo \<le> co_value p \<and> co_value p \<le> hi"
  shows "\<exists>x. fold_parts WeightedMean parts = Some x \<and> lo \<le> x \<and> x \<le> hi"
proof -
  let ?w = "sum_list (map co_weight parts)" and ?s = "sum_list (map (\<lambda>p. co_value p * co_weight p) parts)"
  have "lo * sum_list (map co_weight ps) \<le> sum_list (map (\<lambda>p. co_value p * co_weight p) ps)
      \<and> sum_list (map (\<lambda>p. co_value p * co_weight p) ps) \<le> hi * sum_list (map co_weight ps)
      \<and> (ps \<noteq> [] \<longrightarrow> 0 < sum_list (map co_weight ps)) \<and> 0 \<le> sum_list (map co_weight ps)"
    if "\<forall>p\<in>set ps. 0 < co_weight p \<and> lo \<le> co_value p \<and> co_value p \<le> hi" for ps
    using that
  proof (induction ps)
    case (Cons p ps)
    then have "lo * co_weight p \<le> co_value p * co_weight p" "co_value p * co_weight p \<le> hi * co_weight p" "0 < co_weight p"
      by (auto intro: mult_right_mono)
    then show ?case using Cons by (auto simp: distrib_left intro: add_mono add_pos_nonneg simp del: mult_le_cancel_right_pos)
  qed simp
  from this [OF assms(2)] assms(1) have "lo * ?w \<le> ?s" "?s \<le> hi * ?w" "0 < ?w" by auto
  then show ?thesis by (simp add: fold_parts_def Let_def pos_le_divide_eq pos_divide_le_eq)
qed

text \<open>Said of the members alone: which are fresh, and what one reports of a metric.\<close>

definition is_fresh :: "millis \<Rightarrow> millis \<Rightarrow> LiveMember \<Rightarrow> bool" where
  "is_fresh now age m \<longleftrightarrow> (\<exists>s t. lm_sample m = Some s \<and> lv_time s = Some t \<and> now - t \<le> age)"

definition sampled_at :: "LiveMember \<Rightarrow> millis" where
  "sampled_at m = the (lv_time (the (lm_sample m)))"

definition reports :: "string \<Rightarrow> LiveMember \<Rightarrow> bool" where
  "reports key m \<longleftrightarrow> (\<exists>v. js_get (lv_metrics (the (lm_sample m))) key = Some v \<and> is_finite v)"

definition reading :: "string \<Rightarrow> LiveMember \<Rightarrow> number" where
  "reading key m = the (js_get (lv_metrics (the (lm_sample m))) key)"

lemma fresh_of_is_fresh: "fresh_of now age m = (if is_fresh now age m
    then Some \<lparr>fm_slug = lm_slug m, fm_weight = lm_weight m, fm_metrics = lv_metrics (the (lm_sample m)), fm_atMs = sampled_at m\<rparr> else None)"
  by (auto simp: fresh_of_def is_fresh_def sampled_at_def split: option.split)

lemma fresh_times: "map fm_atMs (List.map_filter (fresh_of now age) ms) = map sampled_at (filter (is_fresh now age) ms)"
  by (induction ms) (simp_all add: map_filter_simps fresh_of_is_fresh)

lemma fresh_parts: "metric_parts key (List.map_filter (fresh_of now age) ms)
    = map (\<lambda>m. \<lparr>co_value = reading key m, co_weight = lm_weight m\<rparr>) (filter (\<lambda>m. is_fresh now age m \<and> reports key m) ms)"
  by (induction ms) (auto simp: metric_parts_def map_filter_simps fresh_of_is_fresh reports_def reading_def split: option.splits)

text \<open>C34. What the plant says live is what its fresh members say: a member without a sample, with an
  unreadable time or with one older than the staleness limit is named stale and adds nothing; a metric no fresh
  member reports as a finite number is absent, never zero; one with a plant value is the sum of the members' or
  their mean, each by its weight, which lies between the least and the greatest of them; and a plant of one
  member says what that member says. A member's weight, its usable battery capacity, is positive.\<close>

theorem live_reading_is_fresh_members:
  assumes "\<forall>m\<in>set members. 0 < lm_weight m" and r: "r = foldLiveSamples members now age agg"
    and fresh: "fresh = filter (is_fresh now age) members" and rep: "reporting = filter (reports key) fresh"
    and kind: "kind = (if length members = 1 \<and> agg key = PerDevice then SumOf else agg key)"
  shows "ps_members r = map lm_slug members \<and> ps_stale r = map lm_slug (filter (\<lambda>m. \<not> is_fresh now age m) members)
    \<and> ps_time r = (if fresh = [] then now else Max (sampled_at ` set fresh))
    \<and> (js_get (ps_metrics r) key = None \<longleftrightarrow> kind = PerDevice \<or> reporting = [])
    \<and> (kind = SumOf \<and> reporting \<noteq> [] \<longrightarrow> js_get (ps_metrics r) key = Some (Some (sum_list (map (reading key) reporting))))
    \<and> (kind = WeightedMean \<and> reporting \<noteq> [] \<longrightarrow> (\<exists>x. js_get (ps_metrics r) key = Some (Some x)
        \<and> x * sum_list (map lm_weight reporting) = sum_list (map (\<lambda>m. reading key m * lm_weight m) reporting)
        \<and> Min (reading key ` set reporting) \<le> x \<and> x \<le> Max (reading key ` set reporting)))
    \<and> (length members = 1 \<and> reporting = members \<longrightarrow> js_get (ps_metrics r) key = Some (Some (reading key (hd members))))"
proof (intro conjI impI)
  define parts where "parts = map (\<lambda>m. \<lparr>co_value = reading key m, co_weight = lm_weight m\<rparr>) reporting"
  have sole: "soleMember (length members) agg key = kind" by (simp add: kind soleMember_def)
  have parts: "metric_parts key (List.map_filter (fresh_of now age) members) = parts"
    by (simp add: fresh_parts parts_def rep fresh conj_commute)
  note metric = live_metric [of members now age agg key, folded r, unfolded sole foldMetric_def Let_def parts]
  have weights: "0 < co_weight p" if "p \<in> set parts" for p using that assms(1) by (auto simp: parts_def rep fresh)
  have vals: "co_value ` set parts = reading key ` set reporting" by (simp add: parts_def image_image)
  have none: "parts = [] \<longleftrightarrow> reporting = []" by (simp add: parts_def)
  have "fresh_of now age m = None \<longleftrightarrow> \<not> is_fresh now age m" for m by (simp add: fresh_of_is_fresh)
  then show "ps_members r = map lm_slug members" "ps_stale r = map lm_slug (filter (\<lambda>m. \<not> is_fresh now age m) members)"
    by (simp_all add: r foldLiveSamples_def partitionFresh_eq Let_def)
  have "List.map_filter (fresh_of now age) members = [] \<longleftrightarrow> fresh = []"
    using arg_cong [OF fresh_times [of now age members], of length] by (simp add: fresh flip: length_0_conv)
  moreover have "fm_atMs ` set (List.map_filter (fresh_of now age) members) = sampled_at ` set fresh"
    using arg_cong [OF fresh_times [of now age members], of set] by (simp add: fresh)
  ultimately show "ps_time r = (if fresh = [] then now else Max (sampled_at ` set fresh))"
    by (simp add: r foldLiveSamples_def partitionFresh_eq Let_def)
  show "js_get (ps_metrics r) key = None \<longleftrightarrow> kind = PerDevice \<or> reporting = []" by (simp add: metric none)
  show "js_get (ps_metrics r) key = Some (Some (sum_list (map (reading key) reporting)))" if "kind = SumOf \<and> reporting \<noteq> []"
    using that by (simp add: metric none fold_parts_def parts_def comp_def)
  have mean: "\<exists>x. js_get (ps_metrics r) key = Some (Some x) \<and> x * sum_list (map lm_weight reporting) = sum_list (map (\<lambda>m. reading key m * lm_weight m) reporting)
      \<and> Min (reading key ` set reporting) \<le> x \<and> x \<le> Max (reading key ` set reporting)"
    if "kind = WeightedMean" "reporting \<noteq> []"
  proof -
    have "parts \<noteq> []" using that(2) none by blast
    moreover have "\<forall>p\<in>set parts. 0 < co_weight p \<and> Min (co_value ` set parts) \<le> co_value p \<and> co_value p \<le> Max (co_value ` set parts)"
      using weights by simp
    ultimately obtain x where x: "fold_parts WeightedMean parts = Some x" "Min (reading key ` set reporting) \<le> x" "x \<le> Max (reading key ` set reporting)"
      using mean_within unfolding vals by blast
    then have "x * sum_list (map lm_weight reporting) = sum_list (map (\<lambda>m. reading key m * lm_weight m) reporting)"
      by (auto simp: fold_parts_def parts_def Let_def comp_def split: if_splits)
    with x that show ?thesis by (simp add: metric none)
  qed
  then show "\<exists>x. js_get (ps_metrics r) key = Some (Some x) \<and> x * sum_list (map lm_weight reporting) = sum_list (map (\<lambda>m. reading key m * lm_weight m) reporting)
      \<and> Min (reading key ` set reporting) \<le> x \<and> x \<le> Max (reading key ` set reporting)"
    if "kind = WeightedMean \<and> reporting \<noteq> []" using that by blast
  show "js_get (ps_metrics r) key = Some (Some (reading key (hd members)))" if one: "length members = 1 \<and> reporting = members"
  proof -
    obtain m where m: "members = [m]" using one by (cases members) auto
    have "kind \<noteq> PerDevice" using one by (simp add: kind)
    moreover have "parts = [\<lparr>co_value = reading key m, co_weight = lm_weight m\<rparr>]" using one by (simp add: parts_def m)
    moreover have "lm_weight m \<noteq> 0" using assms(1) by (simp add: m)
    ultimately show ?thesis by (simp add: metric fold_parts_def m)
  qed
qed

definition two_inverters :: "LiveMember list" where
  "two_inverters = [\<lparr>lm_slug = ''a'', lm_weight = 5, lm_sample = Some \<lparr>lv_time = Some 1000, lv_metrics = [(''soc'', 80)]\<rparr>\<rparr>,
     \<lparr>lm_slug = ''b'', lm_weight = 15, lm_sample = Some \<lparr>lv_time = Some 2000, lv_metrics = [(''soc'', 40)]\<rparr>\<rparr>,
     \<lparr>lm_slug = ''c'', lm_weight = 1, lm_sample = Some \<lparr>lv_time = None, lv_metrics = [(''soc'', 99)]\<rparr>\<rparr>,
     \<lparr>lm_slug = ''d'', lm_weight = 5, lm_sample = Some \<lparr>lv_time = Some (-4000), lv_metrics = [(''soc'', 10)]\<rparr>\<rparr>]"

lemma live_reading_is_fresh_members_witness:
  "js_get (ps_metrics (foldLiveSamples two_inverters 3000 5000 (\<lambda>_. WeightedMean))) ''soc'' = Some (Some 50)"
proof -
  let ?fresh = "filter (is_fresh 3000 5000) two_inverters"
  have fin: "is_finite 80" "is_finite 40" by (simp_all add: is_finite_def max_double_def)
  have fresh: "?fresh = take 2 two_inverters" by (simp add: two_inverters_def is_fresh_def)
  have rep: "filter (reports ''soc'') ?fresh = take 2 two_inverters" unfolding fresh by (simp add: two_inverters_def reports_def fin)
  have pos: "\<forall>m\<in>set two_inverters. 0 < lm_weight m" by (simp add: two_inverters_def)
  from live_reading_is_fresh_members [THEN conjunct2, THEN conjunct2, THEN conjunct2, THEN conjunct2, THEN conjunct2, THEN conjunct1,
      of two_inverters _ 3000 5000 "\<lambda>_. WeightedMean" _ _ "''soc''" _, OF pos refl refl refl refl, unfolded rep]
  show ?thesis by (auto simp: two_inverters_def reading_def)
qed

subsection \<open>A folded series carries every member's last value\<close>

text \<open>The value of a member at an offset: its latest at or before it.\<close>

definition last_value :: "(int, number) js_map \<Rightarrow> int \<Rightarrow> number option" where
  "last_value points offset = (let ks = filter (\<lambda>k. k \<le> offset) (map fst points)
     in if ks = [] then None else js_get points (Max (set ks)))"

definition carried_parts :: "MemberPoints list \<Rightarrow> int \<Rightarrow> Contribution list" where
  "carried_parts members offset = List.map_filter (\<lambda>m.
     map_option (\<lambda>v. \<lparr>co_value = v, co_weight = mp_weight m\<rparr>) (last_value (mp_points m) offset)) members"

lemma last_value_eq:
  "last_value points a = (let ks = {k \<in> fst ` set points. k \<le> a} in if ks = {} then None else js_get points (Max ks))"
proof -
  have "set (filter (\<lambda>k. k \<le> a) (map fst points)) = {k \<in> fst ` set points. k \<le> a}" by auto
  then show ?thesis unfolding last_value_def Let_def by (metis set_empty)
qed

lemma hold_last_value:
  assumes "b < a" and "\<forall>k\<in>fst ` set (mp_points m). k \<le> b \<or> a \<le> k"
  shows "hold a m (last_value (mp_points m) b) = last_value (mp_points m) a"
proof (cases "js_get (mp_points m) a")
  case None
  then have "a \<notin> fst ` set (mp_points m)" by (simp add: map_of_eq_None_iff)
  then have "{k \<in> fst ` set (mp_points m). k \<le> a} = {k \<in> fst ` set (mp_points m). k \<le> b}" using assms by force
  with None show ?thesis by (simp add: hold_def last_value_eq)
next
  case (Some v)
  then have a: "a \<in> fst ` set (mp_points m)" by (metis map_of_eq_None_iff option.distinct(1))
  have "Max {k \<in> fst ` set (mp_points m). k \<le> a} = a" by (rule Max_eqI) (use a in auto)
  moreover have "{k \<in> fst ` set (mp_points m). k \<le> a} \<noteq> {}" using a by auto
  ultimately show ?thesis using Some by (simp only: hold_def last_value_eq Let_def) simp
qed

lemma held_parts_map:
  "held_parts members (map h members) = List.map_filter (\<lambda>m. map_option (\<lambda>v. \<lparr>co_value = v, co_weight = mp_weight m\<rparr>) (h m)) members"
  by (induction members) (simp_all add: held_parts_def map_filter_simps split: option.split)

lemma grid_loop_carries:
  assumes "sorted_wrt (<) (b # os)" and "\<forall>m\<in>set members. \<forall>k\<in>fst ` set (mp_points m). k \<le> b \<or> k \<in> set os"
  shows "grid_loop kind members (map (\<lambda>m. last_value (mp_points m) b) members) os out =
    (let xs = filter (\<lambda>a. carried_parts members a \<noteq> []) os
     in \<lparr>rs_o = rs_o out @ xs, rs_v = rs_v out @ map (\<lambda>a. fold_parts kind (carried_parts members a)) xs\<rparr>)"
  using assms
proof (induction os arbitrary: b out)
  case (Cons a os)
  have "hold a m (last_value (mp_points m) b) = last_value (mp_points m) a" if "m \<in> set members" for m
    by (rule hold_last_value) (use Cons.prems that in force)+
  then have held: "map2 (hold a) members (map (\<lambda>m. last_value (mp_points m) b) members) = map (\<lambda>m. last_value (mp_points m) a) members"
    by (simp add: map2_map_map [where f = id, simplified])
  have parts: "held_parts members (map (\<lambda>m. last_value (mp_points m) a) members) = carried_parts members a"
    by (simp add: held_parts_map carried_parts_def)
  have "\<forall>m\<in>set members. \<forall>k\<in>fst ` set (mp_points m). k \<le> a \<or> k \<in> set os" using Cons.prems by force
  then have IH: "grid_loop kind members (map (\<lambda>m. last_value (mp_points m) a) members) os out' =
    (let xs = filter (\<lambda>a. carried_parts members a \<noteq> []) os
     in \<lparr>rs_o = rs_o out' @ xs, rs_v = rs_v out' @ map (\<lambda>a. fold_parts kind (carried_parts members a)) xs\<rparr>)" for out'
    using Cons.IH [of a out'] Cons.prems(1) by simp
  show ?case by (simp add: held parts IH Let_def del: map2_map_map)
qed (simp add: Let_def)

lemma set_grid_offsets [simp]: "set (grid_offsets members) = (\<Union>m\<in>set members. fst ` set (mp_points m))"
  by (auto simp: grid_offsets_def)

lemma sorted_grid_offsets: "sorted_wrt (<) (grid_offsets members)"
  by (simp add: grid_offsets_def strict_sorted_iff)

lemma carried_at_offset: "a \<in> set (grid_offsets members) \<Longrightarrow> carried_parts members a \<noteq> []"
proof -
  assume "a \<in> set (grid_offsets members)"
  then obtain m where m: "m \<in> set members" "a \<in> fst ` set (mp_points m)" by auto
  obtain v where "js_get (mp_points m) a = Some v" using m(2) by (metis map_of_eq_None_iff not_None_eq)
  moreover have "hold a m (last_value (mp_points m) (a - 1)) = last_value (mp_points m) a" by (rule hold_last_value) auto
  ultimately have "last_value (mp_points m) a = Some v" by (simp add: hold_def)
  then have "\<lparr>co_value = v, co_weight = mp_weight m\<rparr> \<in> set (carried_parts members a)"
    unfolding carried_parts_def set_map_filter using m(1) by auto
  then show ?thesis by auto
qed

lemma foldOnGrid_carries:
  "foldOnGrid kind members = \<lparr>rs_o = grid_offsets members,
     rs_v = map (\<lambda>a. fold_parts kind (carried_parts members a)) (grid_offsets members)\<rparr>"
proof -
  define b where "b = Min (insert 0 (set (grid_offsets members))) - 1"
  have b: "b < k" if "k \<in> set (grid_offsets members)" for k
  proof -
    have "Min (insert 0 (set (grid_offsets members))) \<le> k" by (rule Min_le) (use that in simp_all)
    then show ?thesis by (simp add: b_def)
  qed
  have "last_value (mp_points m) b = None" if "m \<in> set members" for m
    using b that by (force simp: last_value_def Let_def filter_empty_conv)
  then have start: "map (\<lambda>_. None) members = map (\<lambda>m. last_value (mp_points m) b) members" by simp
  have all: "filter (\<lambda>a. carried_parts members a \<noteq> []) (grid_offsets members) = grid_offsets members"
    using carried_at_offset by (simp add: filter_id_conv)
  have "sorted_wrt (<) (b # grid_offsets members)" using b sorted_grid_offsets by simp
  then show ?thesis unfolding foldOnGrid_def start
    by (subst grid_loop_carries) (auto simp: all Let_def)
qed

text \<open>C35. The plant's raw series is the fold of what every member last said: at each offset at which some
  member has a finite sample, and at no other, the plant's value is the sum or the weighted mean of
  every member's latest value at or before it, a member contributing nothing before its first.\<close>

theorem plant_series_carries_last_values:
  "let r = foldRecentBackfills members agg; withData = filter (\<lambda>m. rb_metrics (mb_backfill m) \<noteq> []) members;
       kind = soleMember (length members) agg metric;
       points = List.map_filter (\<lambda>m. memberPoints m metric (grid_shift (rb_t0 r) (rb_step r) m)) withData;
       offsets = sorted_list_of_set (\<Union>m\<in>set points. fst ` set (mp_points m))
   in js_get (rb_metrics r) metric = (if kind = PerDevice \<or> offsets = [] then None
        else Some \<lparr>rs_o = offsets, rs_v = map (\<lambda>a. fold_parts kind (carried_parts points a)) offsets\<rparr>)"
proof -
  define r where "r = foldRecentBackfills members agg"
  define ms where "ms = filter (\<lambda>m. rb_metrics (mb_backfill m) \<noteq> []) members"
  define kind where "kind = soleMember (length members) agg"
  define points where "points k = List.map_filter (\<lambda>m. memberPoints m k (grid_shift (rb_t0 r) (rb_step r) m)) ms" for k
  have offsets: "sorted_list_of_set (\<Union>m\<in>set (points metric). fst ` set (mp_points m)) = grid_offsets (points metric)"
    by (metis set_grid_offsets sorted_grid_offsets strict_sorted_equal sorted_list_of_set.strict_sorted_key_list_of_set
        sorted_list_of_set.set_sorted_key_list_of_set finite_set)
  define f where "f k = (if kind k = PerDevice \<or> grid_offsets (points k) = [] then None else Some (foldOnGrid (kind k) (points k)))" for k
  have "js_get (rb_metrics r) metric = f metric"
  proof (cases "ms = []")
    case True
    then show ?thesis by (simp add: r_def foldRecentBackfills_def ms_def [symmetric] f_def points_def map_filter_simps grid_offsets_def set_adds_def Let_def)
  next
    case False
    define names where "names = set_adds (concat (map (\<lambda>m. map fst (rb_metrics (mb_backfill m))) ms)) []"
    have at: "rb_t0 r = Min ((\<lambda>m. rb_t0 (mb_backfill m)) ` set ms)"
      and stp: "rb_step r = (case members of m # _ \<Rightarrow> rb_step (mb_backfill m) | [] \<Rightarrow> 1)"
      using False by (simp_all add: r_def foldRecentBackfills_def ms_def [symmetric] Let_def)
    have body: "(\<lambda>k m. case f k of None \<Rightarrow> m | Some v \<Rightarrow> js_set k v m) = (\<lambda>k m. if kind k = PerDevice then m
        else let series = foldOnGrid (kind k) (points k) in if rs_o series = [] then m else js_set k series m)"
      by (intro ext) (simp add: f_def foldOnGrid_carries Let_def)
    have "rb_metrics r = fold (\<lambda>k m. case f k of None \<Rightarrow> m | Some v \<Rightarrow> js_set k v m) names []"
      unfolding body points_def at stp
      using False by (simp add: r_def foldRecentBackfills_def ms_def [symmetric] kind_def [symmetric] names_def [symmetric] Let_def)
    moreover have "points metric = []" if "metric \<notin> set names"
    proof -
      have "js_get (rb_metrics (mb_backfill m)) metric = None" if "m \<in> set ms" for m
        using that \<open>metric \<notin> set names\<close> by (force simp: names_def map_of_eq_None_iff)
      then have "set (points metric) = {}" by (auto simp: points_def set_map_filter memberPoints_def)
      then show ?thesis by simp
    qed
    ultimately show ?thesis by (auto simp: get_collected f_def grid_offsets_def set_adds_def split: option.split)
  qed
  then show ?thesis unfolding Let_def r_def [symmetric] ms_def [symmetric] kind_def [symmetric] points_def [symmetric] offsets
    by (simp add: f_def foldOnGrid_carries)
qed

end
