(* ===== verification/Energy_Reader.thy ===== *)
theory Energy_Reader
  imports Tariff_Cost Plant_Source
begin

text \<open>
  \<^verbatim>\<open>apps/server/src/energy/rollup-reader.ts\<close>, \<^verbatim>\<open>period-keys.ts\<close>, \<^verbatim>\<open>energy.ts\<close>: which register a field's
  energy is differenced from, the two readers of the rollups and the keys of the periods they are cut
  into. One reader chains the buckets in TypeScript (\<open>fetchBucketEnergy\<close>), the other in the SQL text it
  sends (\<open>fetchCounterDeltaMatrix\<close>); both are modelled, the second as what PostgreSQL's window function,
  \<open>distinct on\<close> and \<open>group by\<close> mean on the rows of the view. The rows themselves, the device a slug
  names and the wall clock PostgreSQL computes for a zone are parameters.
\<close>

subsection \<open>Registers and fields\<close>

definition keyForRole :: "InverterProfile \<Rightarrow> role \<Rightarrow> string option" where
  "keyForRole p r = map_option mkey (find (\<lambda>m. mrole m = Some r) (pmetrics p))"

fun ENERGY_FIELDS :: "EnergyField \<Rightarrow> role" where
  "ENERGY_FIELDS FImport = ''grid.energy.imported.total''"
| "ENERGY_FIELDS FExport = ''grid.energy.exported.total''"
| "ENERGY_FIELDS FLoad = ''load.energy.total''"
| "ENERGY_FIELDS FProduction = ''production.total''"
| "ENERGY_FIELDS FBatteryDischarge = ''battery.energy.discharged.total''"
| "ENERGY_FIELDS FBatteryCharge = ''battery.energy.charged.total''"

fun ENERGY_TODAY_FIELDS :: "EnergyField \<Rightarrow> role" where
  "ENERGY_TODAY_FIELDS FImport = ''grid.energy.imported.today''"
| "ENERGY_TODAY_FIELDS FExport = ''grid.energy.exported.today''"
| "ENERGY_TODAY_FIELDS FLoad = ''load.energy.today''"
| "ENERGY_TODAY_FIELDS FProduction = ''production.today''"
| "ENERGY_TODAY_FIELDS FBatteryDischarge = ''battery.energy.discharged.today''"
| "ENERGY_TODAY_FIELDS FBatteryCharge = ''battery.energy.charged.today''"

datatype RollupView = HourlyRollups | DailyRollups

fun rollupGapMs :: "RollupView \<Rightarrow> int" where
  "rollupGapMs HourlyRollups = 3 * 3600000"
| "rollupGapMs DailyRollups = 2 * 86400000"

record energy_key =
  ek_key :: string
  ek_resetsDaily :: bool

definition energyKeyFor :: "InverterProfile \<Rightarrow> EnergyField \<Rightarrow> RollupView \<Rightarrow> energy_key option" where
  "energyKeyFor profile field view =
     (case (if view = HourlyRollups then keyForRole profile (ENERGY_TODAY_FIELDS field) else None) of
        Some dayKey \<Rightarrow> Some \<lparr>ek_key = dayKey, ek_resetsDaily = True\<rparr>
      | None \<Rightarrow> map_option (\<lambda>key. \<lparr>ek_key = key, ek_resetsDaily = False\<rparr>) (keyForRole profile (ENERGY_FIELDS field)))"

definition resolveEnergyKeys :: "InverterProfile \<Rightarrow> RollupView \<Rightarrow> (string, EnergyField) js_map \<times> string list" where
  "resolveEnergyKeys profile view =
     fold (\<lambda>field (fieldByKey, dailyKeys). case energyKeyFor profile field view of
         None \<Rightarrow> (fieldByKey, dailyKeys)
       | Some found \<Rightarrow> (js_set (ek_key found) field fieldByKey,
           if ek_resetsDaily found then set_add (ek_key found) dailyKeys else dailyKeys)) TOTALS_FIELDS ([], [])"

definition metersLoadEnergy :: "InverterProfile \<Rightarrow> bool" where
  "metersLoadEnergy profile \<longleftrightarrow> keyForRole profile (ENERGY_FIELDS FLoad) \<noteq> None
     \<or> keyForRole profile (ENERGY_TODAY_FIELDS FLoad) \<noteq> None"

definition speaksFor :: "InverterSample \<Rightarrow> SeriesTarget \<Rightarrow> bool" where
  "speaksFor sample target = (case target of
     DeviceTarget slug \<Rightarrow> iv_inverterId sample = slug
   | PlantTarget [m] \<Rightarrow> pm_slug m = iv_inverterId sample
   | PlantTarget _ \<Rightarrow> False)"

definition isSameLocalDay :: "zone_data \<Rightarrow> millis \<Rightarrow> millis \<Rightarrow> string \<Rightarrow> bool" where
  "isSameLocalDay zone a b tz \<longleftrightarrow> dateKey zone tz a = dateKey zone tz b"

definition live_field :: "InverterProfile \<Rightarrow> InverterSample \<Rightarrow> EnergyField \<Rightarrow> number option" where
  "live_field profile sample field = (case keyForRole profile (ENERGY_TODAY_FIELDS field) of
     None \<Rightarrow> None
   | Some key \<Rightarrow> (case js_get (iv_metrics sample) key of
       None \<Rightarrow> None
     | Some x \<Rightarrow> if is_finite x then Some x else None))"

definition liveTodayTotals ::
  "zone_data \<Rightarrow> InverterProfile \<Rightarrow> SeriesTarget \<Rightarrow> string \<Rightarrow> millis \<Rightarrow> InverterSample option \<Rightarrow> today_registers" where
  "liveTodayTotals zone profile target tz now sample = (case sample of
     None \<Rightarrow> []
   | Some s \<Rightarrow>
       if \<not> speaksFor s target \<or> \<not> isSameLocalDay zone (iv_time s) now tz then []
       else fold (\<lambda>field out. case live_field profile s field of None \<Rightarrow> out | Some x \<Rightarrow> js_set field x out) TOTALS_FIELDS [])"

fun counter_levels :: "InverterProfile \<Rightarrow> InverterSample \<Rightarrow> EnergyField list \<Rightarrow> EnergyTotals \<Rightarrow> EnergyTotals option" where
  "counter_levels profile s [] out = Some out"
| "counter_levels profile s (field # fs) out = (case keyForRole profile (ENERGY_FIELDS field) of
     None \<Rightarrow> counter_levels profile s fs out
   | Some key \<Rightarrow> (case js_get (iv_metrics s) key of
       None \<Rightarrow> None
     | Some x \<Rightarrow> if is_finite x then counter_levels profile s fs (et_put field x out) else None))"

definition liveCounterLevels :: "InverterProfile \<Rightarrow> SeriesTarget \<Rightarrow> InverterSample option \<Rightarrow> EnergyTotals option" where
  "liveCounterLevels profile target sample = (case sample of
     None \<Rightarrow> None
   | Some s \<Rightarrow> if speaksFor s target then counter_levels profile s TOTALS_FIELDS emptyTotals else None)"

subsection \<open>The rows of a view\<close>

record rollup_row =
  ru_bucket :: millis
  ru_metric :: string
  ru_max :: number
  ru_min :: number

record view_row = rollup_row +
  vr_device :: int

record database =
  db_view :: "RollupView \<Rightarrow> view_row list"
  db_deviceIdOf :: "string \<Rightarrow> int option"

definition deviceScope :: "database \<Rightarrow> SeriesTarget \<Rightarrow> int \<Rightarrow> bool" where
  "deviceScope d target device = (case target of
     DeviceTarget slug \<Rightarrow> db_deviceIdOf d slug = Some device
   | PlantTarget members \<Rightarrow> device \<in> pm_id ` set members)"

definition sum_group :: "view_row list \<Rightarrow> millis \<times> string \<Rightarrow> rollup_row" where
  "sum_group rows k = (let g = filter (\<lambda>r. (ru_bucket r, ru_metric r) = k) rows
     in \<lparr>ru_bucket = fst k, ru_metric = snd k, ru_max = sum_list (map ru_max g), ru_min = sum_list (map ru_min g)\<rparr>)"

definition rollup_src :: "database \<Rightarrow> string list \<Rightarrow> RollupView \<Rightarrow> SeriesTarget \<Rightarrow> rollup_row list" where
  "rollup_src d keys view target =
     (let rows = filter (\<lambda>r. deviceScope d target (vr_device r) \<and> ru_metric r \<in> set keys) (db_view d view)
      in case target of
           DeviceTarget _ \<Rightarrow> map rollup_row.truncate rows
         | PlantTarget _ \<Rightarrow> map (sum_group rows) (remdups (map (\<lambda>r. (ru_bucket r, ru_metric r)) rows)))"

text \<open>\<open>order by metric, bucket desc\<close> with \<open>distinct on (metric)\<close>: the newest row of each metric.\<close>

definition newest :: "rollup_row list \<Rightarrow> string \<Rightarrow> rollup_row option" where
  "newest rows m = (let ordered = sort_key ru_bucket (filter (\<lambda>r. ru_metric r = m) rows)
     in if ordered = [] then None else Some (last ordered))"

definition newest_rows :: "rollup_row list \<Rightarrow> rollup_row list" where
  "newest_rows rows = List.map_filter (newest rows) (remdups (map ru_metric rows))"

definition fetchLatestCounterLevels :: "database \<Rightarrow> InverterProfile \<Rightarrow> SeriesTarget \<Rightarrow> EnergyTotals option" where
  "fetchLatestCounterLevels d profile target =
     (let fieldByKey = fst (resolveEnergyKeys profile DailyRollups);
          rows = newest_rows (rollup_src d (map fst fieldByKey) DailyRollups target)
      in if fieldByKey = [] \<or> rows = [] then None
         else Some (fold (\<lambda>row out. case js_get fieldByKey (ru_metric row) of
             Some field \<Rightarrow> et_put field (ru_max row) out | None \<Rightarrow> out) rows emptyTotals))"

subsection \<open>Buckets chained in TypeScript\<close>

definition intraBucketBase :: "number \<Rightarrow> number \<Rightarrow> number option \<Rightarrow> number" where
  "intraBucketBase lo hi staleMax = (case staleMax of
     Some s \<Rightarrow> if s > lo \<and> s \<le> hi then s else lo
   | None \<Rightarrow> lo)"

record prior =
  pr_max :: number
  pr_at :: millis

definition chainsTo :: "zone_data \<Rightarrow> prior \<Rightarrow> millis \<Rightarrow> int \<Rightarrow> bool \<Rightarrow> string \<Rightarrow> bool" where
  "chainsTo zone before bucket maxGap resetsDaily tz \<longleftrightarrow>
     (if bucket - pr_at before > maxGap then False
      else \<not> resetsDaily \<or> isSameLocalDay zone (pr_at before) bucket tz)"

definition bucket_rise :: "zone_data \<Rightarrow> string \<Rightarrow> string list \<Rightarrow> int \<Rightarrow> prior option \<Rightarrow> rollup_row \<Rightarrow> number" where
  "bucket_rise zone tz dailyKeys maxGap before r =
     (let base = (case before of
          Some b \<Rightarrow> if chainsTo zone b (ru_bucket r) maxGap (ru_metric r \<in> set dailyKeys) tz then pr_max b
            else intraBucketBase (ru_min r) (ru_max r) (Some (pr_max b))
        | None \<Rightarrow> intraBucketBase (ru_min r) (ru_max r) None)
      in max 0 (ru_max r - base))"

definition no_energy :: "millis \<Rightarrow> HourEnergy" where
  "no_energy t = \<lparr>he_time = t, he_import = 0, he_export = 0, he_load = 0, he_production = 0,
     he_batteryDischarge = 0, he_batteryCharge = 0\<rparr>"

type_synonym bucket_state = "(string, prior) js_map \<times> (millis, HourEnergy) js_map"

definition prior_of :: "rollup_row \<Rightarrow> prior" where
  "prior_of r = \<lparr>pr_max = ru_max r, pr_at = ru_bucket r\<rparr>"

definition read_bucket ::
  "zone_data \<Rightarrow> string \<Rightarrow> (string, EnergyField) js_map \<Rightarrow> string list \<Rightarrow> int \<Rightarrow> rollup_row \<Rightarrow> bucket_state \<Rightarrow> bucket_state" where
  "read_bucket zone tz fieldByKey dailyKeys maxGap r st = (case st of (prev, byBucket) \<Rightarrow>
     (case js_get fieldByKey (ru_metric r) of
        None \<Rightarrow> (prev, byBucket)
      | Some field \<Rightarrow>
          (js_set (ru_metric r) (prior_of r) prev,
           upsert (ru_bucket r) (no_energy (ru_bucket r))
             (he_add field (bucket_rise zone tz dailyKeys maxGap (js_get prev (ru_metric r)) r)) byBucket)))"

definition in_window :: "millis \<Rightarrow> millis \<Rightarrow> rollup_row \<Rightarrow> bool" where
  "in_window from to r \<longleftrightarrow> from \<le> ru_bucket r \<and> ru_bucket r < to"

definition chained_hours ::
  "zone_data \<Rightarrow> string \<Rightarrow> (string, EnergyField) js_map \<Rightarrow> string list \<Rightarrow> int \<Rightarrow> rollup_row list \<Rightarrow> millis \<Rightarrow> millis \<Rightarrow> HourEnergy list" where
  "chained_hours zone tz fieldByKey dailyKeys maxGap src from to =
     (let prev = map (\<lambda>r. (ru_metric r, prior_of r)) (newest_rows (filter (\<lambda>r. ru_bucket r < from) src));
          rows = sort_key ru_bucket (filter (in_window from to) src)
      in map snd (snd (fold (read_bucket zone tz fieldByKey dailyKeys maxGap) rows (prev, []))))"

definition fetchBucketEnergy ::
  "database \<Rightarrow> zone_data \<Rightarrow> InverterProfile \<Rightarrow> SeriesTarget \<Rightarrow> millis \<Rightarrow> millis \<Rightarrow> RollupView \<Rightarrow> string \<Rightarrow> HourEnergy list" where
  "fetchBucketEnergy d zone profile target from to view tz =
     (case resolveEnergyKeys profile view of (fieldByKey, dailyKeys) \<Rightarrow>
        if fieldByKey = [] then []
        else let hours = chained_hours zone tz fieldByKey dailyKeys (rollupGapMs view)
                   (rollup_src d (map fst fieldByKey) view target) from to
             in if metersLoadEnergy profile then hours else withImpliedHourLoad hours)"


subsection \<open>The keys of periods\<close>

datatype CostBucket = BHour | BDay | BMonth

fun bucket_grain :: "CostBucket \<Rightarrow> CalendarGrain" where
  "bucket_grain BHour = GHour"
| "bucket_grain BDay = GDay"
| "bucket_grain BMonth = GMonth"

definition key_text :: "CostBucket \<Rightarrow> string \<Rightarrow> ZoneParts \<Rightarrow> string" where
  "key_text bucket year p =
     (let ymd = year @ ''-'' @ pad2 (zp_month p) @ ''-'' @ pad2 (zp_day p)
      in case bucket of BMonth \<Rightarrow> year @ ''-'' @ pad2 (zp_month p) | BDay \<Rightarrow> ymd | BHour \<Rightarrow> ymd @ ''T'' @ pad2 (zp_hour p))"

definition periodKey :: "zone_data \<Rightarrow> millis \<Rightarrow> CostBucket \<Rightarrow> string \<Rightarrow> string" where
  "periodKey zone d bucket tz = (let p = zoneParts zone tz d in key_text bucket (js_int_string (zp_year p)) p)"

definition currentPeriodKey :: "zone_data \<Rightarrow> CostBucket \<Rightarrow> millis \<Rightarrow> string \<Rightarrow> string" where
  "currentPeriodKey zone bucket now tz = periodKey zone now bucket tz"

record period =
  po_key :: string
  po_start :: millis
  po_end :: millis

text \<open>\<open>covered >= Math.min((next - cur) / 2, windowMs)\<close>, doubled.\<close>

definition mostly_covered :: "millis \<Rightarrow> millis \<Rightarrow> millis \<Rightarrow> millis \<Rightarrow> bool" where
  "mostly_covered from to cur nxt \<longleftrightarrow> 2 * (min nxt to - max cur from) \<ge> min (nxt - cur) (2 * (to - from))"

partial_function (option) each_period_from ::
  "zone_data \<Rightarrow> string \<Rightarrow> CostBucket \<Rightarrow> millis \<Rightarrow> millis \<Rightarrow> millis \<Rightarrow> period list option" where
  "each_period_from zone tz bucket from to cur =
     (if cur < to
      then Option.bind (periodWindow zone tz cur (bucket_grain bucket) 1) (\<lambda>w.
          Option.bind (each_period_from zone tz bucket from to (snd w)) (\<lambda>ps.
            Some (if mostly_covered from to cur (snd w)
              then \<lparr>po_key = periodKey zone cur bucket tz, po_start = cur, po_end = snd w\<rparr> # ps else ps)))
      else Some [])"

declare each_period_from.simps [code]

definition eachPeriod :: "zone_data \<Rightarrow> millis \<Rightarrow> millis \<Rightarrow> CostBucket \<Rightarrow> string \<Rightarrow> period list option" where
  "eachPeriod zone from to bucket tz = (case periodWindow zone tz from (bucket_grain bucket) 1 of
     None \<Rightarrow> None
   | Some w \<Rightarrow> each_period_from zone tz bucket from to (fst w))"

definition periodKeysInRange :: "zone_data \<Rightarrow> millis \<Rightarrow> millis \<Rightarrow> CostBucket \<Rightarrow> string \<Rightarrow> string list option" where
  "periodKeysInRange zone from to bucket tz = map_option (map po_key) (eachPeriod zone from to bucket tz)"

subsection \<open>Buckets chained in SQL\<close>

text \<open>\<open>pg tz t\<close> has the fields of \<open>t at time zone tz\<close>.\<close>

type_synonym pg_zone = "string \<Rightarrow> millis \<Rightarrow> ZoneParts"

definition to_char_period :: "CostBucket \<Rightarrow> ZoneParts \<Rightarrow> string" where
  "to_char_period bucket p = key_text bucket (pad_start 4 (js_int_string (zp_year p))) p"

definition isodow :: "ZoneParts \<Rightarrow> int" where
  "isodow p = (utc_weekday (date_utc (zp_year p) (zp_month p - 1) (zp_day p) 0 0 0) + 6) mod 7 + 1"

definition same_date :: "ZoneParts \<Rightarrow> ZoneParts \<Rightarrow> bool" where
  "same_date p q \<longleftrightarrow> (zp_year p, zp_month p, zp_day p) = (zp_year q, zp_month q, zp_day q)"

text \<open>\<open>lag(\<dots>) over (partition by metric order by bucket)\<close>; a metric has one row per bucket.\<close>

definition lag_row :: "rollup_row list \<Rightarrow> rollup_row \<Rightarrow> rollup_row option" where
  "lag_row src r = newest (filter (\<lambda>q. ru_bucket q < ru_bucket r) src) (ru_metric r)"

definition sql_kwh :: "pg_zone \<Rightarrow> string \<Rightarrow> string list \<Rightarrow> int \<Rightarrow> rollup_row option \<Rightarrow> rollup_row \<Rightarrow> number" where
  "sql_kwh pg tz dailyKeys maxGap prev r = max 0 (ru_max r - (case prev of
     Some q \<Rightarrow>
       if ru_bucket r - ru_bucket q \<le> maxGap
          \<and> \<not> (ru_metric r \<in> set dailyKeys \<and> \<not> same_date (pg tz (ru_bucket r)) (pg tz (ru_bucket q)))
       then ru_max q
       else if ru_max q > ru_min r \<and> ru_max q \<le> ru_max r then ru_max q
       else ru_min r
   | None \<Rightarrow> ru_min r))"

definition sql_coords :: "pg_zone \<Rightarrow> string \<Rightarrow> CostBucket \<Rightarrow> rollup_row \<Rightarrow> string \<times> int \<times> int" where
  "sql_coords pg tz bucket r = (let p = pg tz (ru_bucket r) in (to_char_period bucket p, zp_hour p, isodow p))"

definition sql_matrix ::
  "pg_zone \<Rightarrow> string \<Rightarrow> CostBucket \<Rightarrow> string list \<Rightarrow> int \<Rightarrow> rollup_row list \<Rightarrow> millis \<Rightarrow> millis \<Rightarrow> CounterDeltaRow list" where
  "sql_matrix pg tz bucket dailyKeys maxGap view from to =
     (let src = filter (in_window from to) view @ newest_rows (filter (\<lambda>r. ru_bucket r < from) view);
          deltas = filter (\<lambda>r. from \<le> ru_bucket r) src;
          group = (\<lambda>r. (sql_coords pg tz bucket r, ru_metric r))
      in map (\<lambda>g. \<lparr>cr_period = fst (fst g), cr_hod = fst (snd (fst g)), cr_dow = snd (snd (fst g)), cr_metric = snd g,
             cr_kwh = over (\<lambda>r. sql_kwh pg tz dailyKeys maxGap (lag_row src r) r) (filter (\<lambda>r. group r = g) deltas)\<rparr>)
           (remdups (map group deltas)))"

record CounterDeltaMatrix =
  cx_rows :: "CounterDeltaRow list"
  cx_fieldByKey :: "(string, EnergyField) js_map"
  cx_periods :: "string list"

definition fetchCounterDeltaMatrix ::
  "database \<Rightarrow> pg_zone \<Rightarrow> zone_data \<Rightarrow> InverterProfile \<Rightarrow> SeriesTarget \<Rightarrow> millis \<Rightarrow> millis \<Rightarrow> CostBucket \<Rightarrow> RollupView \<Rightarrow> string
    \<Rightarrow> CounterDeltaMatrix option" where
  "fetchCounterDeltaMatrix d pg zone profile target from to bucket view tz =
     (case resolveEnergyKeys profile view of (fieldByKey, dailyKeys) \<Rightarrow>
        map_option (\<lambda>periods. \<lparr>cx_rows = (if fieldByKey = [] then []
            else sql_matrix pg tz bucket dailyKeys (rollupGapMs view)
              (rollup_src d (map fst fieldByKey) view target) from to),
          cx_fieldByKey = fieldByKey, cx_periods = periods\<rparr>) (periodKeysInRange zone from to bucket tz))"

subsection \<open>The energy chart\<close>

definition add_row_total :: "(string, EnergyField) js_map \<Rightarrow> CounterDeltaRow \<Rightarrow> (string, EnergyTotals) js_map \<Rightarrow> (string, EnergyTotals) js_map" where
  "add_row_total fieldByKey r totals = (case js_get fieldByKey (cr_metric r) of
     None \<Rightarrow> totals
   | Some field \<Rightarrow> (case js_get totals (cr_period r) of
       None \<Rightarrow> totals
     | Some t \<Rightarrow> js_set (cr_period r) (et_put field (et_get field t + cr_kwh r) t) totals))"

definition accumulateTotals ::
  "CounterDeltaRow list \<Rightarrow> (string, EnergyField) js_map \<Rightarrow> string list \<Rightarrow> (string, EnergyTotals) js_map" where
  "accumulateTotals rows fieldByKey periods =
     fold (add_row_total fieldByKey) rows (fold (\<lambda>p. js_set p emptyTotals) periods [])"

definition overrideTodayPeriod ::
  "zone_data \<Rightarrow> InverterProfile \<Rightarrow> SeriesTarget \<Rightarrow> string \<Rightarrow> millis \<Rightarrow> InverterSample option
    \<Rightarrow> (string, EnergyTotals) js_map \<Rightarrow> (string, EnergyTotals) js_map" where
  "overrideTodayPeriod zone profile target tz now latest totals =
     (let liveToday = liveTodayTotals zone profile target tz now latest; key = currentPeriodKey zone BDay now tz
      in case js_get totals key of None \<Rightarrow> totals | Some base \<Rightarrow> js_set key (applyTodayOverride base liveToday) totals)"

definition derivePeriods :: "InverterProfile \<Rightarrow> string list \<Rightarrow> (string, EnergyTotals) js_map \<Rightarrow> PeriodEnergy list" where
  "derivePeriods profile periods totals =
     map (\<lambda>p. derivePeriodEnergy p (case js_get totals p of Some t \<Rightarrow> t | None \<Rightarrow> emptyTotals) (\<not> metersLoadEnergy profile)) periods"

definition energySeries ::
  "database \<Rightarrow> pg_zone \<Rightarrow> zone_data \<Rightarrow> string \<Rightarrow> millis \<Rightarrow> InverterSample option \<Rightarrow> InverterProfile \<Rightarrow> SeriesTarget
    \<Rightarrow> millis \<Rightarrow> millis \<Rightarrow> CostBucket \<Rightarrow> PeriodEnergy list option" where
  "energySeries d pg zone tz now latest profile target from to bucket =
     map_option (\<lambda>x.
       let totals = accumulateTotals (cx_rows x) (cx_fieldByKey x) (cx_periods x);
           totals = (if bucket = BDay then overrideTodayPeriod zone profile target tz now latest totals else totals)
       in derivePeriods profile (cx_periods x) totals)
     (fetchCounterDeltaMatrix d pg zone profile target from to bucket
       (if bucket = BHour then HourlyRollups else DailyRollups) tz)"


subsection \<open>The newest row of a metric\<close>

text \<open>A view has one row per bucket and metric.\<close>

definition one_per_bucket :: "rollup_row list \<Rightarrow> bool" where
  "one_per_bucket rows \<longleftrightarrow> distinct rows
     \<and> (\<forall>r\<in>set rows. \<forall>q\<in>set rows. ru_metric r = ru_metric q \<and> ru_bucket r = ru_bucket q \<longrightarrow> r = q)"

lemma one_per_bucket_subset: "one_per_bucket rows \<Longrightarrow> set rows' \<subseteq> set rows \<Longrightarrow> distinct rows' \<Longrightarrow> one_per_bucket rows'"
  unfolding one_per_bucket_def by blast

lemma one_per_bucket_filter: "one_per_bucket rows \<Longrightarrow> one_per_bucket (filter P rows)"
  by (rule one_per_bucket_subset) (auto simp: one_per_bucket_def)

lemma newest_None: "newest rows m = None \<longleftrightarrow> (\<forall>r\<in>set rows. ru_metric r \<noteq> m)"
proof -
  have "sort_key ru_bucket (filter (\<lambda>r. ru_metric r = m) rows) = [] \<longleftrightarrow> filter (\<lambda>r. ru_metric r = m) rows = []"
    by (metis set_empty set_sort)
  then show ?thesis by (simp add: newest_def Let_def filter_empty_conv)
qed

lemma newest_Some:
  assumes "newest rows m = Some q"
  shows "q \<in> set rows" "ru_metric q = m" "\<And>r. r \<in> set rows \<Longrightarrow> ru_metric r = m \<Longrightarrow> ru_bucket r \<le> ru_bucket q"
proof -
  let ?o = "sort_key ru_bucket (filter (\<lambda>r. ru_metric r = m) rows)"
  from assms have o: "?o \<noteq> []" "q = last ?o" by (auto simp: newest_def Let_def split: if_splits)
  then have "q \<in> set ?o" using last_in_set [OF o(1)] by (simp del: set_sort)
  then show "q \<in> set rows" "ru_metric q = m" by auto
  fix r assume "r \<in> set rows" "ru_metric r = m"
  then have "r \<in> set (butlast ?o @ [last ?o])" using o(1) by simp
  moreover have "sorted (map ru_bucket (butlast ?o @ [last ?o]))" using o(1) sorted_sort_key [of ru_bucket] by simp
  ultimately show "ru_bucket r \<le> ru_bucket q" unfolding o(2) by (auto simp: sorted_append)
qed

lemma newest_eqI:
  assumes "one_per_bucket rows" and "q \<in> set rows" "ru_metric q = m"
    and "\<And>r. r \<in> set rows \<Longrightarrow> ru_metric r = m \<Longrightarrow> ru_bucket r \<le> ru_bucket q"
  shows "newest rows m = Some q"
proof (cases "newest rows m")
  case (Some p)
  note p = newest_Some [OF this]
  have "ru_bucket p = ru_bucket q" using p(3) [OF assms(2,3)] assms(4) [OF p(1,2)] by simp
  then have "p = q" using assms(1-3) p(1-2) unfolding one_per_bucket_def by auto
  with Some show ?thesis by simp
qed (use assms(2,3) in \<open>auto simp: newest_None\<close>)

text \<open>It depends only on which rows there are of the metric.\<close>

lemma newest_cong:
  assumes "one_per_bucket rows'" and "\<And>r. ru_metric r = m \<Longrightarrow> r \<in> set rows \<longleftrightarrow> r \<in> set rows'"
  shows "newest rows m = newest rows' m"
proof (cases "newest rows m")
  case None
  then show ?thesis using assms(2) by (metis newest_None)
next
  case (Some q)
  note q = newest_Some [OF this]
  have "newest rows' m = Some q"
    by (rule newest_eqI [OF assms(1)]) (use q assms(2) in auto)
  with Some show ?thesis by simp
qed

lemma set_newest_rows: "set (newest_rows rows) = {q. \<exists>m. newest rows m = Some q}"
proof (intro set_eqI iffI)
  fix q assume "q \<in> {q. \<exists>m. newest rows m = Some q}"
  then obtain m where m: "newest rows m = Some q" by blast
  from newest_Some(1,2) [OF this] have "m \<in> ru_metric ` set rows" by blast
  with m show "q \<in> set (newest_rows rows)" unfolding newest_rows_def set_map_filter by auto
qed (auto simp: newest_rows_def set_map_filter)

lemma js_get_priors:
  "js_get (map (\<lambda>r. (ru_metric r, prior_of r)) (newest_rows rows)) m = map_option prior_of (newest rows m)"
proof -
  have "js_get (map (\<lambda>r. (ru_metric r, prior_of r)) (List.map_filter (newest rows) ms)) m
      = (if m \<in> set ms then map_option prior_of (newest rows m) else None)" for ms
    by (induction ms) (auto simp: map_filter_simps newest_Some(2) split: option.splits)
  then show ?thesis unfolding newest_rows_def using newest_None [of rows m] by auto
qed

subsection \<open>Both readers difference the same predecessor\<close>

text \<open>The predecessor of a row in the whole view, whatever the window.\<close>

abbreviation before_row :: "rollup_row list \<Rightarrow> rollup_row \<Rightarrow> rollup_row option" where
  "before_row view r \<equiv> newest (filter (\<lambda>q. ru_bucket q < ru_bucket r) view) (ru_metric r)"

definition same_zone :: "pg_zone \<Rightarrow> zone_data \<Rightarrow> string \<Rightarrow> bool" where
  "same_zone pg zone tz \<longleftrightarrow> (\<forall>t. pg tz t = zoneParts zone tz t)"

lemma pad2_inj: "0 \<le> a \<Longrightarrow> 0 \<le> b \<Longrightarrow> pad2 a = pad2 b \<Longrightarrow> a = b"
  by (metis number_of_pad2)

definition four_digit_date :: "zone_data \<Rightarrow> string \<Rightarrow> millis \<Rightarrow> bool" where
  "four_digit_date zone tz t \<longleftrightarrow> (let p = zoneParts zone tz t in 1000 \<le> zp_year p \<and> zp_year p < 10000
     \<and> 1 \<le> zp_month p \<and> zp_month p \<le> 12 \<and> 1 \<le> zp_day p \<and> zp_day p \<le> 31)"

lemma four_digit_date:
  assumes "four_digit_date zone tz t"
  defines "p \<equiv> zoneParts zone tz t"
  shows "1000 \<le> zp_year p" "zp_year p < 10000" "1 \<le> zp_month p" "zp_month p \<le> 12" "1 \<le> zp_day p" "zp_day p \<le> 31"
  using assms unfolding four_digit_date_def Let_def by auto

lemma length_year: "1000 \<le> y \<Longrightarrow> y < 10000 \<Longrightarrow> length (js_int_string y) = 4"
  using dec_lengths(3) [of "nat y"] by (simp add: js_int_string_def)

lemma js_int_string_inj: "0 \<le> a \<Longrightarrow> 0 \<le> b \<Longrightarrow> js_int_string a = js_int_string b \<Longrightarrow> a = b"
  by (metis js_int_string_def number_of_dec not_less nat_0_le)

lemma dateKey_same_date:
  assumes "four_digit_date zone tz a" and "four_digit_date zone tz b"
  shows "dateKey zone tz a = dateKey zone tz b \<longleftrightarrow> same_date (zoneParts zone tz a) (zoneParts zone tz b)"
proof -
  note a = four_digit_date [OF assms(1)] and b = four_digit_date [OF assms(2)]
  have lens: "length (js_int_string (zp_year (zoneParts zone tz a))) = 4" "length (pad2 (zp_month (zoneParts zone tz a))) = 2"
    "length (js_int_string (zp_year (zoneParts zone tz b))) = 4" "length (pad2 (zp_month (zoneParts zone tz b))) = 2"
    using a b length_year length_pad2 by (simp_all add: order.trans [OF zero_le_numeral])
  have "dateKey zone tz a = dateKey zone tz b \<longleftrightarrow>
      js_int_string (zp_year (zoneParts zone tz a)) = js_int_string (zp_year (zoneParts zone tz b))
      \<and> pad2 (zp_month (zoneParts zone tz a)) = pad2 (zp_month (zoneParts zone tz b))
      \<and> pad2 (zp_day (zoneParts zone tz a)) = pad2 (zp_day (zoneParts zone tz b))"
    by (simp add: dateKey_def date_text_def calendarDate_def Let_def lens)
  also have "\<dots> \<longleftrightarrow> same_date (zoneParts zone tz a) (zoneParts zone tz b)"
    using a b js_int_string_inj pad2_inj by (auto simp: same_date_def)
  finally show ?thesis .
qed

text \<open>The rule of \<open>chainsTo\<close> and \<open>intraBucketBase\<close> is the \<open>case\<close> of the query.\<close>

lemma sql_rule:
  assumes "same_zone pg zone tz" and "four_digit_date zone tz (ru_bucket r)"
    and "\<And>p. q = Some p \<Longrightarrow> four_digit_date zone tz (ru_bucket p)"
  shows "sql_kwh pg tz dailyKeys maxGap q r = bucket_rise zone tz dailyKeys maxGap (map_option prior_of q) r"
  using assms(1) dateKey_same_date [OF assms(2) assms(3)]
  by (auto simp: sql_kwh_def bucket_rise_def Let_def chainsTo_def intraBucketBase_def isSameLocalDay_def prior_of_def
      same_zone_def same_date_def split: option.splits)

lemma lag_is_before:
  assumes "one_per_bucket view" and "r \<in> set view" and "from \<le> ru_bucket r" "ru_bucket r < to"
  shows "lag_row (filter (in_window from to) view @ newest_rows (filter (\<lambda>r. ru_bucket r < from) view)) r = before_row view r"
proof -
  let ?B = "filter (\<lambda>r. ru_bucket r < from) view"
  let ?src = "filter (in_window from to) view @ newest_rows ?B"
  let ?V = "filter (\<lambda>q. ru_bucket q < ru_bucket r) view"
  have V: "one_per_bucket ?V" by (rule one_per_bucket_filter [OF assms(1)])
  have B: "q \<in> set view \<and> ru_bucket q < from" if "newest ?B m = Some q" for m q using newest_Some(1) [OF that] by simp
  have srcV: "q \<in> set ?V" if "q \<in> set (filter (\<lambda>q. ru_bucket q < ru_bucket r) ?src)" for q
  proof -
    have "q \<in> set (filter (in_window from to) view) \<or> (\<exists>m. newest ?B m = Some q)" "ru_bucket q < ru_bucket r"
      using that unfolding set_filter set_append set_newest_rows by blast+
    then have "q \<in> set view" using B by (metis filter_is_subset subsetD)
    then show ?thesis using \<open>ru_bucket q < ru_bucket r\<close> by simp
  qed
  show ?thesis
  proof (cases "before_row view r")
    case None
    then have "\<forall>q\<in>set ?V. ru_metric q \<noteq> ru_metric r" by (simp only: newest_None)
    then have "lag_row ?src r = None" unfolding lag_row_def newest_None using srcV by blast
    with None show ?thesis by simp
  next
    case (Some q)
    note q = newest_Some [OF this]
    have "q \<in> set ?src"
    proof (cases "from \<le> ru_bucket q")
      case True
      then show ?thesis using q(1) assms(4) by (auto simp: in_window_def)
    next
      case False
      have "newest ?B (ru_metric r) = Some q"
        by (rule newest_eqI [OF one_per_bucket_filter [OF assms(1)]]) (use False q assms(3) in auto)
      then show ?thesis by (auto simp: set_newest_rows)
    qed
    then have "q \<in> set (filter (\<lambda>q. ru_bucket q < ru_bucket r) ?src)" using q(1) by simp
    moreover have "newest (filter (\<lambda>q. ru_bucket q < ru_bucket r) ?src) (ru_metric r) \<noteq> None"
      unfolding newest_None using calculation q(2) by blast
    then obtain p where p: "newest (filter (\<lambda>q. ru_bucket q < ru_bucket r) ?src) (ru_metric r) = Some p" by blast
    note p' = newest_Some [OF p]
    have "ru_bucket q \<le> ru_bucket p" using p'(3) calculation q(2) by blast
    moreover have "ru_bucket p \<le> ru_bucket q" using q(3) srcV p'(1,2) by blast
    ultimately have "p = q" using V srcV [OF p'(1)] q(1,2) p'(2) unfolding one_per_bucket_def
      by (metis order.antisym)
    then show ?thesis using p Some by (simp add: lag_row_def)
  qed
qed


definition rise :: "zone_data \<Rightarrow> string \<Rightarrow> string list \<Rightarrow> int \<Rightarrow> rollup_row list \<Rightarrow> rollup_row \<Rightarrow> number" where
  "rise zone tz dailyKeys maxGap view r = bucket_rise zone tz dailyKeys maxGap (map_option prior_of (before_row view r)) r"

definition field_of :: "(string, EnergyField) js_map \<Rightarrow> rollup_row \<Rightarrow> EnergyField" where
  "field_of fieldByKey r = the (js_get fieldByKey (ru_metric r))"

definition known :: "(string, EnergyField) js_map \<Rightarrow> rollup_row \<Rightarrow> bool" where
  "known fieldByKey r \<longleftrightarrow> js_get fieldByKey (ru_metric r) \<noteq> None"

text \<open>The map of predecessors is the newest row of each metric seen so far.\<close>

lemma read_buckets:
  fixes zone tz fieldByKey dailyKeys maxGap view lo hi
  defines "W \<equiv> sort_key ru_bucket (filter (in_window lo hi) view)"
    and "B \<equiv> filter (\<lambda>r. ru_bucket r < lo) view"
  assumes view: "one_per_bucket view" and split: "W = xs @ ys"
    and prev: "\<And>m. js_get fieldByKey m \<noteq> None \<Longrightarrow> js_get prev m = map_option prior_of (newest (B @ xs) m)"
  shows "snd (fold (read_bucket zone tz fieldByKey dailyKeys maxGap) ys (prev, byBucket))
    = group_fold ru_bucket no_energy (\<lambda>r. he_add (field_of fieldByKey r) (rise zone tz dailyKeys maxGap view r))
        (filter (known fieldByKey) ys) byBucket"
  using split prev
proof (induction ys arbitrary: xs prev byBucket)
  case (Cons r ys)
  have setW: "set W = set (filter (in_window lo hi) view)" and distW: "distinct W" and sortW: "sorted (map ru_bucket W)"
    using view by (simp_all add: W_def one_per_bucket_def)
  have r: "r \<in> set view" "lo \<le> ru_bucket r" "ru_bucket r < hi" using setW Cons.prems(1) by (auto simp: in_window_def)
  have order: "\<forall>q\<in>set xs. ru_bucket q \<le> ru_bucket r" "\<forall>q\<in>set ys. ru_bucket r \<le> ru_bucket q" "r \<notin> set xs"
    using sortW distW unfolding Cons.prems(1) by (auto simp: sorted_append)
  have all: "one_per_bucket (B @ xs)" "one_per_bucket (B @ xs @ [r])"
    using view setW distW Cons.prems(1)
    by (auto intro!: one_per_bucket_subset [OF view] simp: B_def one_per_bucket_def in_window_def)
  have seen: "newest (B @ xs) (ru_metric r) = before_row view r"
  proof (rule newest_cong [OF one_per_bucket_filter [OF view]])
    fix q :: rollup_row assume q: "ru_metric q = ru_metric r"
    have "q \<in> set view \<Longrightarrow> lo \<le> ru_bucket q \<Longrightarrow> ru_bucket q < ru_bucket r \<Longrightarrow> q \<in> set xs"
      using setW Cons.prems(1) order(2) r(3) by (fastforce simp: in_window_def)
    moreover have "q \<in> set xs \<Longrightarrow> q \<in> set view \<and> lo \<le> ru_bucket q" using setW Cons.prems(1) by (auto simp: in_window_def)
    moreover have "q \<in> set xs \<Longrightarrow> ru_bucket q \<noteq> ru_bucket r"
      using view r(1) q order(3) calculation(2) unfolding one_per_bucket_def by blast
    ultimately show "q \<in> set (B @ xs) \<longleftrightarrow> q \<in> set (filter (\<lambda>q. ru_bucket q < ru_bucket r) view)"
      using order(1) r(2) by (force simp: B_def)
  qed
  show ?case
  proof (cases "known fieldByKey r")
    case False
    have next_prev: "js_get prev m = map_option prior_of (newest (B @ xs @ [r]) m)" if "js_get fieldByKey m \<noteq> None" for m
    proof -
      have "ru_metric r \<noteq> m" using that False by (auto simp: known_def)
      then have "newest (B @ xs) m = newest (B @ xs @ [r]) m" by (intro newest_cong [OF all(2)]) auto
      then show ?thesis using Cons.prems(2) [OF that] by simp
    qed
    from Cons.IH [of "xs @ [r]" prev byBucket] Cons.prems(1) next_prev False
    show ?thesis by (simp add: read_bucket_def known_def)
  next
    case True
    then obtain f where f: "js_get fieldByKey (ru_metric r) = Some f" by (auto simp: known_def)
    have next_prev: "js_get (js_set (ru_metric r) (prior_of r) prev) m = map_option prior_of (newest (B @ xs @ [r]) m)"
      if "js_get fieldByKey m \<noteq> None" for m
    proof (cases "m = ru_metric r")
      case True
      have "newest (B @ xs @ [r]) m = Some r"
        by (rule newest_eqI [OF all(2)]) (use True order(1) r(2) in \<open>auto simp: B_def\<close>)
      then show ?thesis using True by simp
    next
      case False
      then have "newest (B @ xs) m = newest (B @ xs @ [r]) m" by (intro newest_cong [OF all(2)]) auto
      then show ?thesis using Cons.prems(2) [OF that] False by simp
    qed
    have rise: "bucket_rise zone tz dailyKeys maxGap (js_get prev (ru_metric r)) r = rise zone tz dailyKeys maxGap view r"
      using Cons.prems(2) [of "ru_metric r"] f seen by (simp add: rise_def)
    from Cons.IH [of "xs @ [r]" "js_set (ru_metric r) (prior_of r) prev"] Cons.prems(1) next_prev f True rise
    show ?thesis by (simp add: read_bucket_def field_of_def)
  qed
qed simp

lemma chained_hours_groups:
  assumes "one_per_bucket view"
  shows "chained_hours zone tz fieldByKey dailyKeys maxGap view from to =
    map snd (group_fold ru_bucket no_energy (\<lambda>r. he_add (field_of fieldByKey r) (rise zone tz dailyKeys maxGap view r))
      (filter (known fieldByKey) (sort_key ru_bucket (filter (in_window from to) view))) [])"
  unfolding chained_hours_def Let_def
  by (subst read_buckets [OF assms, where xs = "[]"]) (simp_all add: js_get_priors)

lemma fold_he_add:
  "he_get f (fold (\<lambda>r. he_add (fd r) (x r)) rs h) = he_get f h + over x (filter (\<lambda>r. fd r = f) rs)"
  "he_time (fold (\<lambda>r. he_add (fd r) (x r)) rs h) = he_time h"
  by (induction rs arbitrary: h) auto

lemma he_get_no_energy [simp]: "he_get f (no_energy t) = 0"
  by (cases f) (simp_all add: no_energy_def)

lemma he_time_no_energy: "he_time (no_energy t) = t"
  by (simp add: no_energy_def)

text \<open>So the hours have, of every field and over any choice of times, the rises of its rows.\<close>

lemma over_sort_key_filter: "over g (filter P (sort_key k xs)) = over g (filter P xs)"
  by (simp add: filter_sort sort_key_sums)

text \<open>The rows the loop reads, and the hour it makes of those of one bucket.\<close>

definition read_rows :: "(string, EnergyField) js_map \<Rightarrow> rollup_row list \<Rightarrow> millis \<Rightarrow> millis \<Rightarrow> rollup_row list" where
  "read_rows fieldByKey view lo hi = filter (known fieldByKey) (sort_key ru_bucket (filter (in_window lo hi) view))"

definition hour_at ::
  "zone_data \<Rightarrow> string \<Rightarrow> (string, EnergyField) js_map \<Rightarrow> string list \<Rightarrow> int \<Rightarrow> rollup_row list \<Rightarrow> millis \<Rightarrow> millis \<Rightarrow> millis \<Rightarrow> HourEnergy" where
  "hour_at zone tz fieldByKey dailyKeys maxGap view lo hi t =
     fold (\<lambda>r. he_add (field_of fieldByKey r) (rise zone tz dailyKeys maxGap view r))
       (filter (\<lambda>r. ru_bucket r = t) (read_rows fieldByKey view lo hi)) (no_energy t)"

lemma chained_hours_entries:
  assumes "one_per_bucket view"
  obtains ks where "chained_hours zone tz fieldByKey dailyKeys maxGap view lo hi = map (hour_at zone tz fieldByKey dailyKeys maxGap view lo hi) ks"
    "distinct ks" "set ks = ru_bucket ` set (read_rows fieldByKey view lo hi)"
proof -
  let ?R = "read_rows fieldByKey view lo hi"
  let ?m = "group_fold ru_bucket no_energy (\<lambda>r. he_add (field_of fieldByKey r) (rise zone tz dailyKeys maxGap view r)) ?R []"
  have keys: "fst ` set ?m = ru_bucket ` set ?R" by (simp add: keys_group_fold)
  have dist: "distinct (map fst ?m)" by (rule distinct_group_fold) simp
  have get: "js_get ?m t = (if t \<in> ru_bucket ` set ?R then Some (hour_at zone tz fieldByKey dailyKeys maxGap view lo hi t) else None)" for t
    unfolding js_get_group_fold hour_at_def by simp
  have "chained_hours zone tz fieldByKey dailyKeys maxGap view lo hi = map (hour_at zone tz fieldByKey dailyKeys maxGap view lo hi) (map fst ?m)"
    unfolding chained_hours_groups [OF assms] read_rows_def [symmetric] by (rule entries_by_key [OF get dist keys])
  with dist keys show thesis by (intro that [of "map fst ?m"]) simp_all
qed

lemma hour_at:
  "he_time (hour_at zone tz fieldByKey dailyKeys maxGap view lo hi t) = t"
  "he_get f (hour_at zone tz fieldByKey dailyKeys maxGap view lo hi t) = over (rise zone tz dailyKeys maxGap view)
     (filter (\<lambda>r. ru_bucket r = t \<and> field_of fieldByKey r = f) (read_rows fieldByKey view lo hi))"
  by (simp_all add: hour_at_def fold_he_add he_time_no_energy conj_commute)

lemma rise_nonneg: "0 \<le> rise zone tz dailyKeys maxGap view r"
  by (simp add: rise_def bucket_rise_def Let_def)

lemma chained_hours_nonneg:
  assumes "one_per_bucket view" and "h \<in> set (chained_hours zone tz fieldByKey dailyKeys maxGap view lo hi)"
  shows "0 \<le> he_get f h"
proof -
  from chained_hours_entries [OF assms(1), of zone tz fieldByKey dailyKeys maxGap lo hi] assms(2)
  obtain t where "h = hour_at zone tz fieldByKey dailyKeys maxGap view lo hi t" by (metis in_set_conv_nth length_map nth_map)
  then show ?thesis by (auto simp: hour_at intro!: sum_list_nonneg rise_nonneg)
qed

lemma chained_hours_times:
  assumes "one_per_bucket view"
  shows "he_time ` set (chained_hours zone tz fieldByKey dailyKeys maxGap view lo hi)
    = ru_bucket ` {r \<in> set view. in_window lo hi r \<and> known fieldByKey r}"
proof -
  from chained_hours_entries [OF assms, of zone tz fieldByKey dailyKeys maxGap lo hi] obtain ks where ks:
    "chained_hours zone tz fieldByKey dailyKeys maxGap view lo hi = map (hour_at zone tz fieldByKey dailyKeys maxGap view lo hi) ks"
    "set ks = ru_bucket ` set (read_rows fieldByKey view lo hi)" by metis
  have "he_time ` set (chained_hours zone tz fieldByKey dailyKeys maxGap view lo hi) = set ks"
    unfolding ks(1) by (simp add: image_image hour_at)
  also have "\<dots> = ru_bucket ` {r \<in> set view. in_window lo hi r \<and> known fieldByKey r}"
    unfolding ks(2) by (auto simp: read_rows_def)
  finally show ?thesis .
qed

lemma chained_hours_sum:
  assumes "one_per_bucket view"
  shows "over (he_get f) (filter (\<lambda>h. P (he_time h)) (chained_hours zone tz fieldByKey dailyKeys maxGap view lo hi))
    = over (rise zone tz dailyKeys maxGap view)
        (filter (\<lambda>r. in_window lo hi r \<and> js_get fieldByKey (ru_metric r) = Some f \<and> P (ru_bucket r)) view)"
proof -
  let ?x = "rise zone tz dailyKeys maxGap view"
  let ?R = "read_rows fieldByKey view lo hi"
  let ?e = "hour_at zone tz fieldByKey dailyKeys maxGap view lo hi"
  from chained_hours_entries [OF assms, of zone tz fieldByKey dailyKeys maxGap lo hi] obtain ks where ks:
    "chained_hours zone tz fieldByKey dailyKeys maxGap view lo hi = map ?e ks" "distinct ks" "set ks = ru_bucket ` set ?R" by metis
  let ?K = "{t\<in>ru_bucket ` set ?R. P t}" and ?S = "filter (\<lambda>r. field_of fieldByKey r = f \<and> P (ru_bucket r)) ?R"
  have "over (he_get f) (filter (\<lambda>h. P (he_time h)) (map ?e ks)) = over (\<lambda>t. he_get f (?e t)) (filter P ks)"
    by (simp only: filter_map comp_def hour_at(1) map_map)
  also have "\<dots> = (\<Sum>t\<in>?K. he_get f (?e t))"
    using ks(2,3) by (simp add: sum_list_distinct_conv_sum_set)
  also have "\<dots> = (\<Sum>t\<in>?K. over ?x (filter (\<lambda>r. ru_bucket r = t) ?S))"
    by (rule sum.cong) (auto simp: hour_at intro!: arg_cong [where f = sum_list] map_cong filter_cong)
  also have "\<dots> = over ?x ?S" by (rule sum_by_key) auto
  also have "?S = filter (\<lambda>r. js_get fieldByKey (ru_metric r) = Some f \<and> P (ru_bucket r)) (sort_key ru_bucket (filter (in_window lo hi) view))"
    by (auto simp: read_rows_def field_of_def known_def intro!: filter_cong)
  also have "over ?x \<dots> = over ?x (filter (\<lambda>r. in_window lo hi r \<and> js_get fieldByKey (ru_metric r) = Some f \<and> P (ru_bucket r)) view)"
    by (simp add: over_sort_key_filter)
  finally show ?thesis unfolding ks(1) .
qed

subsection \<open>One key per field\<close>

lemma resolveEnergyKeys_inj:
  assumes "js_get (fst (resolveEnergyKeys profile view)) a = Some f" "js_get (fst (resolveEnergyKeys profile view)) b = Some f"
  shows "a = b"
proof -
  let ?step = "\<lambda>field (fieldByKey, dailyKeys). case energyKeyFor profile field view of
         None \<Rightarrow> (fieldByKey, dailyKeys)
       | Some found \<Rightarrow> (js_set (ek_key found) field fieldByKey,
           if ek_resetsDaily found then set_add (ek_key found) dailyKeys else dailyKeys)"
  have "js_get (fst (fold ?step fs st)) a = Some f \<Longrightarrow> js_get (fst (fold ?step fs st)) b = Some f \<Longrightarrow> a = b"
    if "distinct fs" "\<And>k g. js_get (fst st) k = Some g \<Longrightarrow> g \<notin> set fs"
      "\<And>k l g. js_get (fst st) k = Some g \<Longrightarrow> js_get (fst st) l = Some g \<Longrightarrow> k = l" for fs st
    using that
  proof (induction fs arbitrary: st)
    case (Cons field fs)
    obtain fk dk where st: "st = (fk, dk)" by force
    show ?case
    proof (cases "energyKeyFor profile field view")
      case None
      show ?thesis using Cons.IH [of st] Cons.prems None by (simp add: st)
    next
      case (Some found)
      let ?st = "(js_set (ek_key found) field fk, if ek_resetsDaily found then set_add (ek_key found) dk else dk)"
      have old: "js_get fk k = Some g \<Longrightarrow> g \<noteq> field \<and> g \<notin> set fs" for k g using Cons.prems(4) [of k g] by (simp add: st)
      have inj: "js_get fk k = Some g \<Longrightarrow> js_get fk l = Some g \<Longrightarrow> k = l" for k l g using Cons.prems(5) [of k g l] by (simp add: st)
      have step: "fold ?step (field # fs) st = fold ?step fs ?st" by (simp add: st Some)
      show ?thesis
      proof (rule Cons.IH [of ?st])
        show "distinct fs" using Cons.prems(3) by simp
        show "js_get (fst (fold ?step fs ?st)) a = Some f" using Cons.prems(1) unfolding step .
        show "js_get (fst (fold ?step fs ?st)) b = Some f" using Cons.prems(2) unfolding step .
        show "g \<notin> set fs" if "js_get (fst ?st) k = Some g" for k g
          using that old [of k g] Cons.prems(3) by (auto split: if_splits)
        show "k = l" if "js_get (fst ?st) k = Some g" "js_get (fst ?st) l = Some g" for k l g
          using that old inj by (auto split: if_splits)
      qed
    qed
  qed simp
  from this [of TOTALS_FIELDS "([], [])"] assms show ?thesis unfolding resolveEnergyKeys_def by (simp add: TOTALS_FIELDS_def)
qed

subsection \<open>The matrix has the hours' energy\<close>

definition one_row_per_bucket :: "database \<Rightarrow> bool" where
  "one_row_per_bucket d \<longleftrightarrow> (\<forall>view. distinct (map (\<lambda>r. (ru_bucket r, vr_device r, ru_metric r)) (db_view d view)))"

lemma rollup_src_one_per_bucket:
  assumes "one_row_per_bucket d"
  shows "one_per_bucket (rollup_src d keys view target)"
proof -
  let ?rows = "filter (\<lambda>r. deviceScope d target (vr_device r) \<and> ru_metric r \<in> set keys) (db_view d view)"
  show ?thesis
  proof (cases target)
    case (DeviceTarget slug)
    have dist: "distinct (db_view d view)"
      and keyed: "inj_on (\<lambda>r. (ru_bucket r, vr_device r, ru_metric r)) (set (db_view d view))"
      using assms unfolding one_row_per_bucket_def by (simp_all add: distinct_map)
    have same: "r = q" if "r \<in> set ?rows" "q \<in> set ?rows" "ru_metric r = ru_metric q" "ru_bucket r = ru_bucket q" for r q
    proof -
      have "Some (vr_device r) = Some (vr_device q)" using that DeviceTarget by (simp add: deviceScope_def)
      then show ?thesis using that keyed by (auto dest: inj_onD)
    qed
    have "inj_on rollup_row.truncate (set ?rows)"
      by (rule inj_onI, rule same) (auto simp: rollup_row.truncate_def)
    then have "distinct (map rollup_row.truncate ?rows)" using dist by (simp add: distinct_map)
    moreover have "rollup_row.truncate r = rollup_row.truncate q"
      if "r \<in> set ?rows" "q \<in> set ?rows" "ru_metric r = ru_metric q" "ru_bucket r = ru_bucket q" for r q
      using same [OF that] by simp
    ultimately show ?thesis using DeviceTarget
      by (auto simp: rollup_src_def Let_def one_per_bucket_def rollup_row.truncate_def)
  next
    case (PlantTarget members)
    have "inj (sum_group ?rows)" by (rule injI) (auto simp: sum_group_def Let_def prod_eq_iff)
    then have "distinct (map (sum_group ?rows) (remdups (map (\<lambda>r. (ru_bucket r, ru_metric r)) ?rows)))"
      unfolding distinct_map by (blast intro: inj_on_subset distinct_remdups)
    then show ?thesis using PlantTarget
      by (auto simp: rollup_src_def Let_def one_per_bucket_def sum_group_def)
  qed
qed

definition hour_coords :: "zone_data \<Rightarrow> string \<Rightarrow> CostBucket \<Rightarrow> millis \<Rightarrow> string \<times> int \<times> int" where
  "hour_coords zone tz bucket t = (periodKey zone t bucket tz, zp_hour (zoneParts zone tz t), isoWeekday zone tz t)"

lemma sql_coords_hour:
  assumes "same_zone pg zone tz" and "four_digit_date zone tz (ru_bucket r)"
  shows "sql_coords pg tz bucket r = hour_coords zone tz bucket (ru_bucket r)"
proof -
  let ?p = "zoneParts zone tz (ru_bucket r)"
  have "pad_start 4 (js_int_string (zp_year ?p)) = js_int_string (zp_year ?p)"
    using four_digit_date(1,2) [OF assms(2)] by (simp add: pad_start_def length_year)
  moreover have "isodow ?p = isoWeekday zone tz (ru_bucket r)" by (simp add: isodow_def isoWeekday_def calendarDate_def Let_def)
  ultimately show ?thesis using assms(1)
    by (simp add: sql_coords_def hour_coords_def periodKey_def to_char_period_def same_zone_def Let_def)
qed

text \<open>The baseline rows are filtered out again.\<close>

lemma matrix_deltas:
  "filter (\<lambda>r. lo \<le> ru_bucket r) (filter (in_window lo hi) view @ newest_rows (filter (\<lambda>r. ru_bucket r < lo) view))
    = filter (in_window lo hi) view"
proof -
  have old: "filter (\<lambda>r. lo \<le> ru_bucket r) (newest_rows (filter (\<lambda>r. ru_bucket r < lo) view)) = []"
    by (auto simp: filter_empty_conv set_newest_rows dest!: newest_Some(1))
  show ?thesis unfolding filter_append old by (auto simp: in_window_def intro!: filter_cong)
qed

lemma sql_matrix_row:
  assumes "r \<in> set (sql_matrix pg tz bucket dailyKeys maxGap view lo hi)"
  shows "\<exists>v\<in>set view. in_window lo hi v \<and> coords r = sql_coords pg tz bucket v \<and> cr_metric r = ru_metric v"
proof -
  from assms have "r \<in> (\<lambda>g. \<lparr>cr_period = fst (fst g), cr_hod = fst (snd (fst g)), cr_dow = snd (snd (fst g)), cr_metric = snd g,
      cr_kwh = over (\<lambda>r. sql_kwh pg tz dailyKeys maxGap (lag_row (filter (in_window lo hi) view
          @ newest_rows (filter (\<lambda>r. ru_bucket r < lo) view)) r) r)
        (filter (\<lambda>r. (sql_coords pg tz bucket r, ru_metric r) = g) (filter (in_window lo hi) view))\<rparr>)
      ` (\<lambda>v. (sql_coords pg tz bucket v, ru_metric v)) ` set (filter (in_window lo hi) view)"
    unfolding sql_matrix_def Let_def matrix_deltas by simp
  then show ?thesis by (elim imageE) (auto simp: coords_def)
qed

lemma sql_matrix_sum:
  assumes "one_per_bucket view" and "same_zone pg zone tz" and dates: "\<And>r. r \<in> set view \<Longrightarrow> four_digit_date zone tz (ru_bucket r)"
  shows "over cr_kwh (filter (\<lambda>r. cr_metric r = m \<and> coords r = c) (sql_matrix pg tz bucket dailyKeys maxGap view lo hi))
    = over (rise zone tz dailyKeys maxGap view)
        (filter (\<lambda>r. in_window lo hi r \<and> ru_metric r = m \<and> hour_coords zone tz bucket (ru_bucket r) = c) view)"
proof -
  let ?new = "newest_rows (filter (\<lambda>r. ru_bucket r < lo) view)"
  let ?src = "filter (in_window lo hi) view @ ?new"
  let ?D = "filter (\<lambda>r. lo \<le> ru_bucket r) ?src"
  let ?group = "\<lambda>r. (sql_coords pg tz bucket r, ru_metric r)"
  let ?kwh = "\<lambda>r. sql_kwh pg tz dailyKeys maxGap (lag_row ?src r) r"
  let ?row = "\<lambda>g. \<lparr>cr_period = fst (fst g), cr_hod = fst (snd (fst g)), cr_dow = snd (snd (fst g)), cr_metric = snd g,
             cr_kwh = over ?kwh (filter (\<lambda>r. ?group r = g) ?D)\<rparr>"
  note D = matrix_deltas [of lo hi view]
  have rows: "sql_matrix pg tz bucket dailyKeys maxGap view lo hi = map ?row (remdups (map ?group ?D))"
    by (simp add: sql_matrix_def Let_def)
  have at: "filter (\<lambda>r. cr_metric r = m \<and> coords r = c) (map ?row gs) = map ?row (filter (\<lambda>g. g = (c, m)) gs)" for gs
    by (induction gs) (auto simp: coords_def)
  have one: "over f (filter (\<lambda>g. g = x) gs) = (if x \<in> set gs then f x else 0)" if "distinct gs" for f gs and x :: "'x"
    using that by (induction gs) auto
  have "over cr_kwh (filter (\<lambda>r. cr_metric r = m \<and> coords r = c) (sql_matrix pg tz bucket dailyKeys maxGap view lo hi))
      = over (\<lambda>g. cr_kwh (?row g)) (filter (\<lambda>g. g = (c, m)) (remdups (map ?group ?D)))"
    unfolding rows at by (simp add: comp_def)
  also have "\<dots> = over ?kwh (filter (\<lambda>r. ?group r = (c, m)) ?D)"
  proof (cases "(c, m) \<in> set (map ?group ?D)")
    case True
    then show ?thesis by (subst one) (simp_all del: filter_append set_append)
  next
    case False
    then have none: "filter (\<lambda>r. ?group r = (c, m)) ?D = []" by (auto simp: filter_empty_conv simp del: filter_append set_append)
    show ?thesis unfolding none using False by (subst one) (simp_all del: filter_append set_append)
  qed
  also have "\<dots> = over (rise zone tz dailyKeys maxGap view)
        (filter (\<lambda>r. in_window lo hi r \<and> ru_metric r = m \<and> hour_coords zone tz bucket (ru_bucket r) = c) view)"
  proof (rule arg_cong [where f = sum_list], rule map_cong)
    show "filter (\<lambda>r. ?group r = (c, m)) ?D
      = filter (\<lambda>r. in_window lo hi r \<and> ru_metric r = m \<and> hour_coords zone tz bucket (ru_bucket r) = c) view"
      unfolding D by (auto simp: sql_coords_hour [OF assms(2) dates] intro!: filter_cong)
    fix r assume "r \<in> set (filter (\<lambda>r. in_window lo hi r \<and> ru_metric r = m \<and> hour_coords zone tz bucket (ru_bucket r) = c) view)"
    then have "r \<in> set view" "lo \<le> ru_bucket r" "ru_bucket r < hi" by (auto simp: in_window_def)
    moreover have "q \<in> set view" if "before_row view r = Some q" for q using newest_Some(1) [OF that] by simp
    ultimately show "?kwh r = rise zone tz dailyKeys maxGap view r"
      by (simp only: lag_is_before [OF assms(1)] sql_rule [OF assms(2) dates dates] rise_def)
  qed
  finally show ?thesis .
qed

text \<open>What is read of a field, over any choice of times. An implied load is not read.\<close>

lemma fetched_sum:
  assumes "one_row_per_bucket d" and "resolveEnergyKeys profile view = (fk, dk)" and load: "f = FLoad \<longrightarrow> metersLoadEnergy profile"
    and src: "src = rollup_src d (map fst fk) view target"
  shows "over (he_get f) (filter (\<lambda>h. P (he_time h)) (fetchBucketEnergy d zone profile target lo hi view tz))
    = over (rise zone tz dk (rollupGapMs view) src)
        (filter (\<lambda>r. in_window lo hi r \<and> js_get fk (ru_metric r) = Some f \<and> P (ru_bucket r)) src)"
proof -
  let ?hours = "chained_hours zone tz fk dk (rollupGapMs view) src lo hi"
  have implied: "over (he_get f) (filter (\<lambda>h. P (he_time h)) (withImpliedHourLoad hs)) = over (he_get f) (filter (\<lambda>h. P (he_time h)) hs)"
    if "f \<noteq> FLoad" for hs
    using that by (induction hs; cases f) (simp_all add: withImpliedHourLoad_def)
  have "over (he_get f) (filter (\<lambda>h. P (he_time h)) (fetchBucketEnergy d zone profile target lo hi view tz))
      = over (he_get f) (filter (\<lambda>h. P (he_time h)) (if fk = [] then [] else ?hours))"
    using load implied by (cases "metersLoadEnergy profile") (auto simp: fetchBucketEnergy_def assms(2) src Let_def)
  also have "\<dots> = over (he_get f) (filter (\<lambda>h. P (he_time h)) ?hours)"
    by (cases "fk = []") (simp_all add: chained_hours_groups rollup_src_one_per_bucket [OF assms(1)] src known_def)
  also have "\<dots> = over (rise zone tz dk (rollupGapMs view) src)
        (filter (\<lambda>r. in_window lo hi r \<and> js_get fk (ru_metric r) = Some f \<and> P (ru_bucket r)) src)"
    unfolding src by (rule chained_hours_sum [OF rollup_src_one_per_bucket [OF assms(1)]])
  finally show ?thesis .
qed

lemma matrix_tallies:
  assumes "one_row_per_bucket d" and "same_zone pg zone tz"
    and "\<forall>r\<in>set (db_view d view). four_digit_date zone tz (ru_bucket r)"
    and x: "fetchCounterDeltaMatrix d pg zone profile target lo hi bucket view tz = Some x"
    and load: "f = FLoad \<longrightarrow> metersLoadEnergy profile"
  shows "tallies (cx_rows x) (\<lambda>k. js_get (cx_fieldByKey x) k = Some f) f (\<lambda>h. hour_coords zone tz bucket (he_time h))
    (fetchBucketEnergy d zone profile target lo hi view tz)"
proof -
  obtain fk dk where res: "resolveEnergyKeys profile view = (fk, dk)" by force
  let ?view = "rollup_src d (map fst fk) view target"
  note one = rollup_src_one_per_bucket [OF assms(1), of "map fst fk" view target]
  have dates: "four_digit_date zone tz (ru_bucket r)" if "r \<in> set ?view" for r
    using that assms(3) by (auto simp: rollup_src_def Let_def sum_group_def rollup_row.truncate_def split: SeriesTarget.splits)
  have fk: "cx_fieldByKey x = fk" using x by (auto simp: fetchCounterDeltaMatrix_def res)
  have rows: "cx_rows x = (if fk = [] then [] else sql_matrix pg tz bucket dk (rollupGapMs view) ?view lo hi)"
    using x by (auto simp: fetchCounterDeltaMatrix_def res)
  show ?thesis unfolding tallies_def fk
  proof
    fix c
    note sum = fetched_sum [OF assms(1) res load refl, where P = "\<lambda>t. hour_coords zone tz bucket t = c" and zone = zone and tz = tz and lo = lo and hi = hi and target = target]
    show "over cr_kwh (filter (\<lambda>r. js_get fk (cr_metric r) = Some f \<and> coords r = c) (cx_rows x))
      = over (he_get f) (filter (\<lambda>h. hour_coords zone tz bucket (he_time h) = c)
          (fetchBucketEnergy d zone profile target lo hi view tz))"
    proof (cases "\<exists>m. js_get fk m = Some f")
      case True
      then obtain m where key: "js_get fk m = Some f" by blast
      then have m: "js_get fk m = Some f" "fk \<noteq> []" by (cases fk; simp)+
      have only: "js_get fk k = Some f \<longleftrightarrow> k = m" for k
        using resolveEnergyKeys_inj [of profile view k f m] m(1) by (auto simp: res)
      show ?thesis using m(2) sum by (simp add: rows sql_matrix_sum [OF one assms(2) dates] only)
    next
      case False
      then have "filter (\<lambda>r. js_get fk (cr_metric r) = Some f \<and> coords r = c) (cx_rows x) = []"
        "filter (\<lambda>r. in_window lo hi r \<and> js_get fk (ru_metric r) = Some f \<and> hour_coords zone tz bucket (ru_bucket r) = c) ?view = []"
        by auto
      then show ?thesis using sum by (simp only: list.map sum_list.Nil)
    qed
  qed
qed

subsection \<open>A lifetime counter is billed for its rise\<close>

lemma newest_below_split:
  assumes one: "one_per_bucket view" and e: "newest (filter (\<lambda>r. ru_bucket r < hi) view) m = Some e" and "lo \<le> ru_bucket e"
  shows "over g (filter (\<lambda>r. in_window lo hi r \<and> ru_metric r = m) view)
    = over g (filter (\<lambda>r. in_window lo (ru_bucket e) r \<and> ru_metric r = m) view) + g e"
proof -
  note n = newest_Some [OF e]
  have dist: "distinct view" using one by (simp add: one_per_bucket_def)
  let ?W = "{r \<in> set view. in_window lo hi r \<and> ru_metric r = m}" and ?V = "{r \<in> set view. in_window lo (ru_bucket e) r \<and> ru_metric r = m}"
  have "r = e" if "r \<in> ?W" "\<not> ru_bucket r < ru_bucket e" for r
  proof -
    have "ru_bucket r = ru_bucket e" using n(3) [of r] that by (auto simp: in_window_def)
    then show ?thesis using one n(1,2) that unfolding one_per_bucket_def by auto
  qed
  moreover have "e \<in> ?W" using n(1,2) assms(3) by (auto simp: in_window_def)
  moreover have "?V \<subseteq> ?W" "e \<notin> ?V" using n(1) by (auto simp: in_window_def)
  ultimately have "?W = insert e ?V" by (auto simp: in_window_def)
  then have "sum g ?W = sum g ?V + g e" using \<open>e \<notin> ?V\<close> by simp
  then show ?thesis using dist by (simp add: sum_list_distinct_conv_sum_set conj_commute)
qed

lemma chain_telescopes:
  assumes one: "one_per_bucket view" and "m \<notin> set dailyKeys"
    and b: "newest (filter (\<lambda>r. ru_bucket r < lo) view) m = Some b"
    and e: "newest (filter (\<lambda>r. ru_bucket r < hi) view) m = Some e" and "lo \<le> hi"
    and chained: "\<And>r q. r \<in> set view \<Longrightarrow> ru_metric r = m \<Longrightarrow> in_window lo hi r \<Longrightarrow> before_row view r = Some q
      \<Longrightarrow> ru_bucket r - ru_bucket q \<le> maxGap \<and> ru_max q \<le> ru_max r"
  shows "over (rise zone tz dailyKeys maxGap view) (filter (\<lambda>r. in_window lo hi r \<and> ru_metric r = m) view) = ru_max e - ru_max b"
  using e \<open>lo \<le> hi\<close> chained
proof (induction "card {r \<in> set view. in_window lo hi r \<and> ru_metric r = m}" arbitrary: hi e rule: less_induct)
  case less
  note n = newest_Some [OF less.prems(1)]
  let ?x = "rise zone tz dailyKeys maxGap view"
  show ?case
  proof (cases "lo \<le> ru_bucket e")
    case False
    have none: "filter (\<lambda>r. in_window lo hi r \<and> ru_metric r = m) view = []"
      using n(3) False by (fastforce simp: filter_empty_conv in_window_def)
    have "newest (filter (\<lambda>r. ru_bucket r < lo) view) m = newest (filter (\<lambda>r. ru_bucket r < hi) view) m"
    proof (rule newest_cong [OF one_per_bucket_filter [OF one]])
      fix r :: rollup_row assume "ru_metric r = m"
      then show "r \<in> set (filter (\<lambda>r. ru_bucket r < lo) view) \<longleftrightarrow> r \<in> set (filter (\<lambda>r. ru_bucket r < hi) view)"
        using n(3) [of r] False less.prems(2) by auto
    qed
    then show ?thesis unfolding none using b less.prems(1) by simp
  next
    case True
    have e: "e \<in> set view" "ru_bucket e < hi" "ru_metric e = m" using n(1,2) by auto
    have "newest (filter (\<lambda>r. ru_bucket r < ru_bucket e) view) m \<noteq> None"
      using newest_Some(1,2) [OF b] True unfolding newest_None by fastforce
    then obtain q where q: "newest (filter (\<lambda>r. ru_bucket r < ru_bucket e) view) m = Some q" by blast
    have sub: "{r \<in> set view. in_window lo (ru_bucket e) r \<and> ru_metric r = m} \<subset> {r \<in> set view. in_window lo hi r \<and> ru_metric r = m}"
      using e True by (auto simp: in_window_def)
    have before: "over ?x (filter (\<lambda>r. in_window lo (ru_bucket e) r \<and> ru_metric r = m) view) = ru_max q - ru_max b"
    proof (rule less.hyps [OF psubset_card_mono [OF _ sub] q True])
      fix r p assume "r \<in> set view" "ru_metric r = m" "in_window lo (ru_bucket e) r" "before_row view r = Some p"
      then show "ru_bucket r - ru_bucket p \<le> maxGap \<and> ru_max p \<le> ru_max r"
        using less.prems(3) e(2) by (simp add: in_window_def)
    qed simp
    have "ru_bucket e - ru_bucket q \<le> maxGap \<and> ru_max q \<le> ru_max e"
      using less.prems(3) [OF e(1,3) _, of q] q e True by (simp add: in_window_def)
    then have "?x e = ru_max e - ru_max q"
      using q e(3) assms(2) by (simp add: rise_def bucket_rise_def chainsTo_def prior_of_def)
    then show ?thesis using before newest_below_split [OF one less.prems(1) True, of ?x] by simp
  qed
qed

lemma fetched_nonneg:
  assumes "one_row_per_bucket d" and "h \<in> set (fetchBucketEnergy d zone profile target lo hi view tz)"
  shows "0 \<le> he_get f h"
proof -
  obtain fk dk where res: "resolveEnergyKeys profile view = (fk, dk)" by force
  let ?hs = "chained_hours zone tz fk dk (rollupGapMs view) (rollup_src d (map fst fk) view target) lo hi"
  note nonneg = chained_hours_nonneg [OF rollup_src_one_per_bucket [OF assms(1)]]
  have "0 \<le> he_get f h" if "h \<in> set (withImpliedHourLoad ?hs)"
  proof -
    from that obtain h' where h': "h' \<in> set ?hs" "h = h'\<lparr>he_load := impliedLoad (he_production h') (he_import h')
       (he_batteryDischarge h') (he_export h') (he_batteryCharge h')\<rparr>"
      unfolding withImpliedHourLoad_def by auto
    from nonneg [OF h'(1), of f] show ?thesis by (cases f) (simp_all add: h'(2) impliedLoad_def)
  qed
  then show ?thesis using assms(2) nonneg by (auto simp: fetchBucketEnergy_def res Let_def split: if_splits)
qed

lemma fetched_times:
  assumes "one_row_per_bucket d" and "resolveEnergyKeys profile view = (fk, dk)"
  shows "he_time ` set (fetchBucketEnergy d zone profile target lo hi view tz)
    = ru_bucket ` {r \<in> set (rollup_src d (map fst fk) view target). in_window lo hi r \<and> known fk r}"
proof -
  have "he_time ` set (withImpliedHourLoad hs) = he_time ` set hs" for hs
    by (simp add: withImpliedHourLoad_def image_image)
  then show ?thesis
    by (simp add: fetchBucketEnergy_def assms(2) Let_def chained_hours_times [OF rollup_src_one_per_bucket [OF assms(1)]] known_def)
qed

text \<open>C31. A lifetime counter is billed once: where its buckets have no gap too long to bridge and its level never
  falls, the hours of a window add up to the counter's rise from the last level before the window to the
  last one in it, however the rise is spread over them.\<close>

theorem lifetime_counter_billed_once:
  assumes "one_row_per_bucket d" and keys: "resolveEnergyKeys profile view = (fk, dk)" and m: "js_get fk m = Some f" "m \<notin> set dk"
    and "f = FLoad \<longrightarrow> metersLoadEnergy profile" and src: "src = rollup_src d (map fst fk) view target"
    and "newest (filter (\<lambda>r. ru_bucket r < lo) src) m = Some b" and "newest (filter (\<lambda>r. ru_bucket r < hi) src) m = Some e" and "lo \<le> hi"
    and chained: "\<forall>r\<in>set src. ru_metric r = m \<and> in_window lo hi r \<longrightarrow>
      (\<forall>q. before_row src r = Some q \<longrightarrow> ru_bucket r - ru_bucket q \<le> rollupGapMs view \<and> ru_max q \<le> ru_max r)"
  shows "over (he_get f) (fetchBucketEnergy d zone profile target lo hi view tz) = ru_max e - ru_max b"
proof -
  have only: "js_get fk k = Some f \<longleftrightarrow> k = m" for k
    using resolveEnergyKeys_inj [of profile view k f m] m(1) by (auto simp: keys)
  have "over (he_get f) (fetchBucketEnergy d zone profile target lo hi view tz)
      = over (rise zone tz dk (rollupGapMs view) src) (filter (\<lambda>r. in_window lo hi r \<and> ru_metric r = m) src)"
    using fetched_sum [OF assms(1,2,5,6), where P = "\<lambda>_. True"] by (simp add: only)
  also have "\<dots> = ru_max e - ru_max b"
    by (rule chain_telescopes [OF _ m(2) assms(7,8,9)])
      (use chained rollup_src_one_per_bucket [OF assms(1)] in \<open>auto simp: src\<close>)
  finally show ?thesis .
qed

text \<open>
  The first bucket of a day takes yesterday's closing level for the level before a restart when it lies
  within the bucket's own rise: a day that closed at 0.4 kWh takes 0.4 of the next day's first hour.
\<close>

lemma day_counter_first_hour_short:
  assumes "\<not> isSameLocalDay zone t0 (t0 + 3600000) tz"
  shows "bucket_rise zone tz [''imp''] 10800000 (Some \<lparr>pr_max = 4 / 10, pr_at = t0\<rparr>)
    \<lparr>ru_bucket = t0 + 3600000, ru_metric = ''imp'', ru_max = 7, ru_min = 0\<rparr> = 66 / 10"
  using assms by (simp add: bucket_rise_def chainsTo_def intraBucketBase_def)

subsection \<open>A small plant\<close>

definition energy_metric :: "string \<Rightarrow> role \<Rightarrow> MetricDef" where
  "energy_metric k r = \<lparr>mkey = k, mtopic = k, mlabel = k, munit = Some ''kWh'', mgroup = ''energy'', mtype = U_WORD, maddresses = [1],
     mscale = 1, mdeadband = None, moffset = None, maccess = ReadOnly, mcontrol = None, mrole = Some r, mindex = None,
     mkind = None, mstorage = None, mrange = None, menum = None, mflow = None, mbinding = Modbus [1] U_WORD, mcompute = None,
     mcomputeInputs = None\<rparr>"

definition small_profile :: InverterProfile where
  "small_profile = \<lparr>pid = ''p'', pname = ''p'', pmanufacturer = ''m'',
     pmetrics = [energy_metric ''imp'' ''grid.energy.imported.today'', energy_metric ''exp'' ''grid.energy.exported.total'',
       energy_metric ''load'' ''load.energy.total''], pdeclares = None\<rparr>"

definition bucket_row :: "int \<Rightarrow> string \<Rightarrow> number \<Rightarrow> number \<Rightarrow> view_row" where
  "bucket_row h m lo hi = \<lparr>ru_bucket = 1767312000000 + h * HOUR, ru_metric = m, ru_max = hi, ru_min = lo, vr_device = 1\<rparr>"

text \<open>From 22:00 on New Year's Day 2026 to 03:00: the day register resets, the odometers run on.\<close>

definition january_db :: database where
  "january_db = \<lparr>db_view = (\<lambda>_. [bucket_row (-2) ''imp'' 17 18, bucket_row 0 ''imp'' 0 2, bucket_row 1 ''imp'' 2 3,
     bucket_row (-1) ''exp'' 100 101, bucket_row 0 ''exp'' 101 101, bucket_row 2 ''exp'' 101 104,
     bucket_row (-1) ''load'' 500 501, bucket_row 0 ''load'' 501 503, bucket_row 2 ''load'' 503 504]),
     db_deviceIdOf = (\<lambda>slug. if slug = ''p'' then Some 1 else None)\<rparr>"

text \<open>UTC, written out for January 2026.\<close>

definition january_utc :: zone_data where
  "january_utc tz t = \<lparr>zp_year = 2026, zp_month = 1, zp_day = 1 + (t - 1767225600000) div DAY,
     zp_hour = (t - 1767225600000) mod DAY div HOUR, zp_minute = (t - 1767225600000) mod HOUR div MINUTE,
     zp_second = (t - 1767225600000) mod MINUTE div 1000\<rparr>"

lemma january_rows: "one_row_per_bucket january_db"
proof -
  have "distinct (map (\<lambda>r. (ru_bucket r, vr_device r, ru_metric r)) (db_view january_db HourlyRollups))" by code_simp
  then show ?thesis by (simp add: one_row_per_bucket_def january_db_def)
qed

lemma january_keys_of: "resolveEnergyKeys small_profile HourlyRollups
    = ([(''imp'', FImport), (''exp'', FExport), (''load'', FLoad)], [''imp''])"
  by code_simp

lemma january_export_rows:
  fixes hi
  defines "src \<equiv> rollup_src january_db [''imp'', ''exp'', ''load''] HourlyRollups (DeviceTarget ''p'')"
  assumes hi: "1767319200000 < hi"
  shows "newest (filter (\<lambda>r. ru_bucket r < 1767312000000) src) ''exp'' = Some (rollup_row.truncate (bucket_row (-1) ''exp'' 100 101))"
    and "newest (filter (\<lambda>r. ru_bucket r < hi) src) ''exp'' = Some (rollup_row.truncate (bucket_row 2 ''exp'' 101 104))"
    and "\<forall>r\<in>set src. ru_metric r = ''exp'' \<and> in_window 1767312000000 hi r \<longrightarrow>
      (\<forall>q. before_row src r = Some q \<longrightarrow> ru_bucket r - ru_bucket q \<le> rollupGapMs HourlyRollups \<and> ru_max q \<le> ru_max r)"
proof -
  have "list_all (\<lambda>r. ru_bucket r \<le> 1767319200000) src" unfolding src_def by code_simp
  then have all: "filter (\<lambda>r. ru_bucket r < hi) src = src" using hi by (fastforce simp: list_all_iff filter_id_conv)
  show "newest (filter (\<lambda>r. ru_bucket r < 1767312000000) src) ''exp'' = Some (rollup_row.truncate (bucket_row (-1) ''exp'' 100 101))"
    unfolding src_def by code_simp
  show "newest (filter (\<lambda>r. ru_bucket r < hi) src) ''exp'' = Some (rollup_row.truncate (bucket_row 2 ''exp'' 101 104))"
    unfolding all unfolding src_def by code_simp
  have "list_all (\<lambda>r. ru_metric r = ''exp'' \<and> 1767312000000 \<le> ru_bucket r \<longrightarrow> (case before_row src r of None \<Rightarrow> True
      | Some q \<Rightarrow> ru_bucket r - ru_bucket q \<le> rollupGapMs HourlyRollups \<and> ru_max q \<le> ru_max r)) src"
    unfolding src_def by code_simp
  then show "\<forall>r\<in>set src. ru_metric r = ''exp'' \<and> in_window 1767312000000 hi r \<longrightarrow>
      (\<forall>q. before_row src r = Some q \<longrightarrow> ru_bucket r - ru_bucket q \<le> rollupGapMs HourlyRollups \<and> ru_max q \<le> ru_max r)"
    by (auto simp: list_all_iff in_window_def)
qed

lemma lifetime_counter_billed_once_witness:
  "over he_export (fetchBucketEnergy january_db january_utc small_profile (DeviceTarget ''p'') 1767312000000 1767322800000
    HourlyRollups ''UTC'') = 3"
proof -
  let ?src = "rollup_src january_db [''imp'', ''exp'', ''load''] HourlyRollups (DeviceTarget ''p'')"
  note e = january_export_rows [of 1767322800000, simplified]
  have "over (he_get FExport) (fetchBucketEnergy january_db january_utc small_profile (DeviceTarget ''p'') 1767312000000 1767322800000
      HourlyRollups ''UTC'') = ru_max (rollup_row.truncate (bucket_row 2 ''exp'' 101 104)) - ru_max (rollup_row.truncate (bucket_row (-1) ''exp'' 100 101))"
    by (rule lifetime_counter_billed_once [OF january_rows january_keys_of, where m = "''exp''" and src = ?src]) (use e in simp_all)
  then show ?thesis by (simp add: he_get_fields rollup_row.truncate_def bucket_row_def)
qed

lemma january_export:
  fixes zone
  assumes "1767319200000 < hi"
  shows "over he_export (fetchBucketEnergy january_db zone small_profile (DeviceTarget ''p'') 1767312000000 hi HourlyRollups ''UTC'') = 3"
proof -
  let ?src = "rollup_src january_db [''imp'', ''exp'', ''load''] HourlyRollups (DeviceTarget ''p'')"
  note e = january_export_rows [OF assms]
  have only: "js_get [(''imp'', FImport), (''exp'', FExport), (''load'', FLoad)] k = Some FExport \<longleftrightarrow> k = ''exp''" for k
    by (simp split: if_splits)
  have "over (rise zone ''UTC'' [''imp''] (rollupGapMs HourlyRollups) ?src)
      (filter (\<lambda>r. in_window 1767312000000 hi r \<and> ru_metric r = ''exp'') ?src)
    = ru_max (rollup_row.truncate (bucket_row 2 ''exp'' 101 104)) - ru_max (rollup_row.truncate (bucket_row (-1) ''exp'' 100 101))"
    by (rule chain_telescopes [OF rollup_src_one_per_bucket [OF january_rows] _ e(1,2)]) (use assms e(3) in simp_all)
  then show ?thesis
    using fetched_sum [OF january_rows january_keys_of, of FExport ?src "DeviceTarget ''p''" "\<lambda>_. True" zone 1767312000000 hi "''UTC''", unfolded only]
    by (simp add: he_get_fields rollup_row.truncate_def bucket_row_def)
qed

lemma january_times:
  "he_time ` set (fetchBucketEnergy january_db zone small_profile (DeviceTarget ''p'') 1767312000000 hi HourlyRollups ''UTC'')
    \<subseteq> {1767312000000, 1767315600000, 1767319200000}"
proof -
  have "list_all (\<lambda>r. 1767312000000 \<le> ru_bucket r \<longrightarrow> ru_bucket r \<in> set [1767312000000, 1767315600000, 1767319200000])
      (rollup_src january_db [''imp'', ''exp'', ''load''] HourlyRollups (DeviceTarget ''p''))"
    by code_simp
  then show ?thesis unfolding fetched_times [OF january_rows january_keys_of] by (auto simp: list_all_iff in_window_def)
qed

subsection \<open>A plant of two\<close>

text \<open>
  Two inverters export a kilowatt-hour each between 23:00 and 02:00. The second has no row for the first
  hour: the plant's level falls by the second's whole odometer, the clamp hides the fall, and the next
  bucket, which chains to the fallen level, counts the odometer as exported.
\<close>

definition two_member_db :: database where
  "two_member_db = \<lparr>db_view = (\<lambda>_. [bucket_row (-1) ''exp'' 100 100, (bucket_row (-1) ''exp'' 5000 5000)\<lparr>vr_device := 2\<rparr>,
     bucket_row 0 ''exp'' 100 100, bucket_row 1 ''exp'' 100 101, (bucket_row 1 ''exp'' 5000 5001)\<lparr>vr_device := 2\<rparr>]),
     db_deviceIdOf = (\<lambda>_. None)\<rparr>"

lemma missing_member_billed:
  "map he_export (fetchBucketEnergy two_member_db january_utc small_profile
     (PlantTarget [\<lparr>pm_id = 1, pm_slug = ''p'', pm_profileId = None, pm_weight = 1\<rparr>, \<lparr>pm_id = 2, pm_slug = ''q'', pm_profileId = None, pm_weight = 1\<rparr>])
     1767312000000 1767322800000 HourlyRollups ''UTC'') = [0, 5002]"
  by code_simp

end
