(* ===== verification/Period_Bars.thy ===== *)
theory Period_Bars
  imports Energy_Reader
begin

text \<open>
  The bars of a window, \<open>eachPeriod\<close> of \<^verbatim>\<open>apps/server/src/energy/period-keys.ts\<close>, over the zones there are.
  A period is numbered on the wall clock; on a zone with at most one clock change in any eight days,
  none of which repeats a boundary of a period, the instants of one key are one period, the
  periods of a window follow one another, and one of them is a bar exactly if the window holds
  half of it.
\<close>

subsection \<open>Numbered periods\<close>

definition idx :: "CostBucket \<Rightarrow> millis \<Rightarrow> int" where
  "idx b w = (case b of BHour \<Rightarrow> w div HOUR | BDay \<Rightarrow> w div DAY | BMonth \<Rightarrow> month_index w)"

definition wstart :: "CostBucket \<Rightarrow> int \<Rightarrow> millis" where
  "wstart b k = (case b of BHour \<Rightarrow> k * HOUR | BDay \<Rightarrow> k * DAY | BMonth \<Rightarrow> month_day (k - 2) * DAY)"

lemma march_day_max: "march_day (yy + 1) \<le> march_day yy + 366"
proof -
  have "(yy + 1) div 4 \<le> yy div 4 + 1" "yy div 100 \<le> (yy + 1) div 100" "(yy + 1) div 400 \<le> yy div 400 + 1"
    by linarith+
  moreover have "(yy + 1) div 400 = yy div 400 \<or> (yy + 1) div 100 = yy div 100 + 1"
  proof (cases "(yy + 1) mod 400 = 0")
    case True
    then have "yy + 1 = 400 * ((yy + 1) div 400)" using mult_div_mod_eq [of 400 "yy + 1"] by linarith
    then have e: "yy + 1 = 100 * (4 * ((yy + 1) div 400)) + 0" "yy = 100 * (4 * ((yy + 1) div 400) - 1) + 99" by simp_all
    have "(yy + 1) div 100 = 4 * ((yy + 1) div 400)" "yy div 100 = 4 * ((yy + 1) div 400) - 1"
      using int_div_pos_eq [OF e(1)] int_div_pos_eq [OF e(2)] by simp_all
    then show ?thesis by simp
  next
    case False
    then have r: "0 < (yy + 1) mod 400" "(yy + 1) mod 400 < 400" using pos_mod_sign [of 400 "yy + 1"] pos_mod_bound [of 400 "yy + 1"] by linarith+
    have e: "yy = 400 * ((yy + 1) div 400) + ((yy + 1) mod 400 - 1)" using mult_div_mod_eq [of 400 "yy + 1"] by linarith
    have "(yy + 1) div 400 = yy div 400" using int_div_pos_eq [OF e] r by simp
    then show ?thesis ..
  qed
  ultimately show ?thesis unfolding march_day_def by auto
qed

lemma month_day_max: "month_day (k + 1) \<le> month_day k + 31"
proof (cases "k mod 12 = 11")
  case True
  have e: "k + 1 = 12 * (k div 12 + 1) + 0" using True mult_div_mod_eq [of 12 k] by (simp only: algebra_simps)
  have "(k + 1) div 12 = k div 12 + 1" "(k + 1) mod 12 = 0"
    using int_div_pos_eq [OF e] int_mod_pos_eq [OF e] by simp_all
  then show ?thesis unfolding month_day_def using True march_day_max [of "k div 12"] by simp
next
  case False
  have e: "k + 1 = 12 * (k div 12) + (k mod 12 + 1)" by simp
  have "k mod 12 + 1 < 12" using False pos_mod_bound [of 12 k] by linarith
  then have d: "(k + 1) div 12 = k div 12" "(k + 1) mod 12 = k mod 12 + 1"
    using int_div_pos_eq [OF e] int_mod_pos_eq [OF e] by simp_all
  have "(153 * (k mod 12 + 1) + 2) div 5 \<le> (153 * (k mod 12) + 2 + 5 * 31) div 5" by (rule zdiv_mono1) simp_all
  then show ?thesis unfolding month_day_def d by simp
qed

lemma wstart_step: "wstart b k < wstart b (k + 1)" "wstart b (k + 1) \<le> wstart b k + 31 * DAY"
proof -
  have "month_day (k - 2) < month_day (k - 1)" "month_day (k - 1) \<le> month_day (k - 2) + 31"
    using month_day_step [of "k - 2"] month_day_max [of "k - 2"] by simp_all
  then show "wstart b k < wstart b (k + 1)" "wstart b (k + 1) \<le> wstart b k + 31 * DAY"
    unfolding wstart_def by (auto simp: calendar_units split: CostBucket.split)
qed

lemma wstart_mono: "j \<le> k \<Longrightarrow> wstart b j \<le> wstart b k"
proof (induction k rule: int_ge_induct)
  case (step i)
  then show ?case using wstart_step(1) [of b i] by simp
qed simp

lemma idx_bounds: "wstart b (idx b w) \<le> w" "w < wstart b (idx b w + 1)"
proof -
  have "month_day (month_index w - 2) * DAY \<le> w" "w < month_day (month_index w - 1) * DAY"
    using month_index(1,2) [of w] day_le [of _ w] less_day [of w] by auto
  moreover have "w div HOUR * HOUR \<le> w" "w < (w div HOUR + 1) * HOUR" "w div DAY * DAY \<le> w" "w < (w div DAY + 1) * DAY"
    by (simp_all add: calendar_units)
  ultimately show "wstart b (idx b w) \<le> w" "w < wstart b (idx b w + 1)"
    unfolding wstart_def idx_def by (auto split: CostBucket.split)
qed

lemma idx_iff: "idx b w = k \<longleftrightarrow> wstart b k \<le> w \<and> w < wstart b (k + 1)"
proof
  assume r: "wstart b k \<le> w \<and> w < wstart b (k + 1)"
  have "\<not> idx b w + 1 \<le> k" using wstart_mono [of "idx b w + 1" k b] idx_bounds(2) [of w b] r by linarith
  moreover have "\<not> k + 1 \<le> idx b w" using wstart_mono [of "k + 1" "idx b w" b] idx_bounds(1) [of b w] r by linarith
  ultimately show "idx b w = k" by simp
qed (use idx_bounds in blast)

lemma idx_wstart: "idx b (wstart b k) = k"
  unfolding idx_iff using wstart_step(1) by simp

lemma period_of_wall:
  assumes "99 < utc_year w"
  shows "wallPeriodStart w (bucket_grain b) 1 = wstart b (idx b w)"
  by (cases b) (simp_all add: wstart_def idx_def wallPeriodStart_days [OF assms], simp add: wallPeriodStart_def Let_def)

lemma next_of_wall:
  assumes "99 < utc_year (wstart b k)"
  shows "wallNextStart (wstart b k) (bucket_grain b) = wstart b (k + 1)"
proof (cases b)
  case BMonth
  let ?w = "wstart BMonth k"
  have ce: "ce_year (utc_year ?w)" using assms BMonth unfolding ce_year_def by simp
  have "month_index ?w = k" using idx_wstart [of BMonth k] by (simp add: idx_def)
  then have "12 * utc_year ?w + (utc_month ?w + 1) - 2 = k - 1" unfolding month_index_def by simp
  then show ?thesis using BMonth date_utc_day [OF ce, of "utc_month ?w + 1" 1]
    by (simp add: wallNextStart_def) (simp add: wstart_def)
qed (simp_all add: wstart_def wallNextStart_def algebra_simps)

lemma minute_dvd_wstart: "MINUTE dvd wstart b k"
  unfolding wstart_def by (auto simp: calendar_units split: CostBucket.split intro: dvd_mult)

subsection \<open>Keys\<close>

text \<open>The fields a zone shows are those of a wall clock, as \<open>Intl\<close> formats a Gregorian date.\<close>

definition shows_wall :: "zone_data \<Rightarrow> string \<Rightarrow> millis \<Rightarrow> bool" where
  "shows_wall zone tz t \<longleftrightarrow> (let p = zoneParts zone tz t; w = wallClockAsUtc zone tz t
     in zp_year p = utc_year w \<and> zp_month p = utc_month w + 1 \<and> zp_day p = utc_day w \<and> zp_hour p = w mod DAY div HOUR
        \<and> 1000 \<le> utc_year w \<and> utc_year w < 10000)"

lemma utc_day_range: "1 \<le> utc_day w" "utc_day w \<le> 31"
  using month_index(1-3) [of w] month_day_max [of "month_index w - 2"] by simp_all

lemma shows_wall_date: "shows_wall zone tz t \<Longrightarrow> four_digit_date zone tz t"
  using month_index(4,5) [of "wallClockAsUtc zone tz t"] utc_day_range [of "wallClockAsUtc zone tz t"]
  by (simp add: shows_wall_def four_digit_date_def Let_def)

lemma same_day: "utc_year v = utc_year w \<and> utc_month v = utc_month w \<and> utc_day v = utc_day w \<longleftrightarrow> v div DAY = w div DAY"
proof
  assume "utc_year v = utc_year w \<and> utc_month v = utc_month w \<and> utc_day v = utc_day w"
  then have "month_index v = month_index w" "utc_day v = utc_day w" unfolding month_index_def by simp_all
  then show "v div DAY = w div DAY" using month_index(3) [of v] month_index(3) [of w] by (simp only:)
qed (simp add: utc_year_def utc_month_def utc_day_def utc_date_def)

lemma same_month: "utc_year v = utc_year w \<and> utc_month v = utc_month w \<longleftrightarrow> month_index v = month_index w"
  using month_index(4,5) [of v] month_index(4,5) [of w] unfolding month_index_def by presburger

lemma div_hour: "x div HOUR = 24 * (x div DAY) + x mod DAY div HOUR"
proof -
  have "x = (24 * (x div DAY)) * HOUR + x mod DAY" using div_mult_mod_eq [of x DAY] by (simp add: calendar_units)
  then have "x div HOUR = ((24 * (x div DAY)) * HOUR + x mod DAY) div HOUR" by simp
  then show ?thesis by (simp add: HOUR_def)
qed

lemma same_hour: "v div DAY = w div DAY \<and> v mod DAY div HOUR = w mod DAY div HOUR \<longleftrightarrow> v div HOUR = w div HOUR"
proof -
  have "x div HOUR div 24 = x div DAY" for x :: int by (simp add: calendar_units zdiv_zmult2_eq [symmetric])
  then show ?thesis using div_hour by (metis add_left_cancel)
qed

lemma periodKey_idx:
  assumes "shows_wall zone tz t" and "shows_wall zone tz u"
  shows "periodKey zone t b tz = periodKey zone u b tz
    \<longleftrightarrow> idx b (wallClockAsUtc zone tz t) = idx b (wallClockAsUtc zone tz u)"
proof -
  define v w where "v = wallClockAsUtc zone tz t" and "w = wallClockAsUtc zone tz u"
  let ?p = "zoneParts zone tz t" and ?q = "zoneParts zone tz u"
  have hour: "0 \<le> x mod DAY div HOUR" "x mod DAY div HOUR < 24" for x
    by (simp add: calendar_units pos_imp_zdiv_nonneg_iff) (rule div_less_of_less_mult; simp add: calendar_units)
  note p = assms(1) [unfolded shows_wall_def Let_def, folded v_def] and q = assms(2) [unfolded shows_wall_def Let_def, folded w_def]
  have pads: "pad2 m = pad2 n \<longleftrightarrow> m = n" if "0 \<le> m" "m < 100" "0 \<le> n" "n < 100" for m n
    using pad2_inj that by blast
  have eqs: "js_int_string (zp_year ?p) = js_int_string (zp_year ?q) \<longleftrightarrow> utc_year v = utc_year w"
    using p q js_int_string_inj [of "zp_year ?p" "zp_year ?q"] by fastforce
  have eqs': "pad2 (zp_month ?p) = pad2 (zp_month ?q) \<longleftrightarrow> utc_month v = utc_month w"
    "pad2 (zp_day ?p) = pad2 (zp_day ?q) \<longleftrightarrow> utc_day v = utc_day w"
    "pad2 (zp_hour ?p) = pad2 (zp_hour ?q) \<longleftrightarrow> v mod DAY div HOUR = w mod DAY div HOUR"
    using p q month_index(4,5) [of v] month_index(4,5) [of w] utc_day_range [of v] utc_day_range [of w]
      hour [of v] hour [of w] by (simp_all add: pads)
  have lens: "length (js_int_string (zp_year ?p)) = 4" "length (js_int_string (zp_year ?q)) = 4"
    "length (pad2 (zp_month ?p)) = 2" "length (pad2 (zp_month ?q)) = 2"
    "length (pad2 (zp_day ?p)) = 2" "length (pad2 (zp_day ?q)) = 2"
    using p q length_year length_pad2 month_index(4,5) [of v] month_index(4,5) [of w] utc_day_range [of v] utc_day_range [of w]
    by simp_all
  have "periodKey zone t b tz = periodKey zone u b tz \<longleftrightarrow> utc_year v = utc_year w \<and> utc_month v = utc_month w
      \<and> (b \<noteq> BMonth \<longrightarrow> utc_day v = utc_day w) \<and> (b = BHour \<longrightarrow> v mod DAY div HOUR = w mod DAY div HOUR)"
    by (cases b) (simp_all add: periodKey_def key_text_def Let_def lens eqs eqs')
  also have "\<dots> \<longleftrightarrow> idx b v = idx b w"
    using same_day [of v w] same_month [of v w] same_hour [of v w] by (cases b) (auto simp: idx_def)
  finally show ?thesis unfolding v_def w_def .
qed

subsection \<open>Boundaries\<close>

text \<open>
  On the wall clock every boundary is crossed once: before the instant it resolves to the clock is
  behind it, from then on it is not.
\<close>

definition civil_zone :: "zone_data \<Rightarrow> string \<Rightarrow> CostBucket \<Rightarrow> millis \<Rightarrow> millis \<Rightarrow> bool" where
  "civil_zone zone tz b lo hi \<longleftrightarrow> (\<forall>t. lo \<le> t \<and> t \<le> hi \<longrightarrow> shows_wall zone tz t
     \<and> (\<exists>T x y. one_transition zone tz (t - 4 * DAY) (t + 4 * DAY) T x y
          \<and> (\<forall>k. \<not> (T + y < wstart b k \<and> wstart b k < T + x))))"

lemma lands_crossed:
  assumes ot: "one_transition zone tz (B - 4 * DAY) (B + 4 * DAY) T a b" and "MINUTE dvd B"
    and clean: "\<not> (T + b < B \<and> B < T + a)" and u: "B - 4 * DAY \<le> u" "u \<le> B + 4 * DAY"
  shows "u < lands T a b B \<longleftrightarrow> wallClockAsUtc zone tz u < B"
proof -
  define s where "s = u - u mod 1000"
  have su: "s \<le> u" "u < s + 1000" unfolding s_def by auto
  note mins = one_transition_minutes [OF ot]
  have thousand: "1000 dvd x" if "MINUTE dvd x" for x using that dvd_trans [of 1000 MINUTE x] by (simp add: MINUTE_def)
  have less: "u < x \<longleftrightarrow> s < x" if "1000 dvd x" for x
  proof -
    obtain k where k: "x = 1000 * k" using \<open>1000 dvd x\<close> by (elim dvdE)
    have "s = 1000 * (u div 1000)" unfolding s_def by (simp add: minus_mod_eq_mult_div)
    then show ?thesis using su unfolding k by auto
  qed
  have T: "u < T \<longleftrightarrow> s < T" by (rule less [OF thousand]) (use mins in simp)
  have "1000 dvd lands T a b B" unfolding lands_def using mins assms(2) by (auto intro!: thousand)
  from less [OF this] have i: "u < lands T a b B \<longleftrightarrow> s < lands T a b B" .
  have "wallClockAsUtc zone tz u = s + (if s < T then a else b)"
    using one_transition_wall [OF ot u] unfolding T s_def .
  then show ?thesis using clean unfolding i unfolding lands_def by auto
qed

lemma boundary:
  assumes civil: "civil_zone zone tz b lo hi" and B: "B = wstart b k" "lo \<le> B" "B \<le> hi"
  obtains i where "wallInstant zone tz B = Some i" and "\<bar>i - B\<bar> \<le> DAY"
    and "\<And>u. lo \<le> u \<Longrightarrow> u \<le> hi \<Longrightarrow> u < i \<longleftrightarrow> wallClockAsUtc zone tz u < B"
proof -
  obtain T x y where ot: "one_transition zone tz (B - 4 * DAY) (B + 4 * DAY) T x y"
    and clean: "\<not> (T + y < B \<and> B < T + x)"
    using civil B unfolding civil_zone_def by blast
  have min: "MINUTE dvd B" unfolding B(1) by (rule minute_dvd_wstart)
  have D: "0 < DAY" "1000 < DAY" by (simp_all add: DAY_def)
  have "wallInstant zone tz B = Some (lands T x y B)"
    by (rule wallInstant_lands [OF one_transition_mono [OF ot] min]) (use D in simp_all)
  moreover have near: "\<bar>lands T x y B - B\<bar> \<le> DAY"
    using one_transition_bounds [OF ot] unfolding lands_def by auto
  moreover have "u < lands T x y B \<longleftrightarrow> wallClockAsUtc zone tz u < B" if u: "lo \<le> u" "u \<le> hi" for u
  proof (cases "B - 4 * DAY \<le> u \<and> u \<le> B + 4 * DAY")
    case True
    then show ?thesis using lands_crossed [OF ot min clean] by blast
  next
    case False
    obtain T' x' y' where ot': "one_transition zone tz (u - 4 * DAY) (u + 4 * DAY) T' x' y'"
      using civil u unfolding civil_zone_def by blast
    have "wallClockAsUtc zone tz u = u - u mod 1000 + (if u < T' then x' else y')"
      using one_transition_wall [OF ot', of u] D by simp
    moreover have "0 \<le> u mod 1000" "u mod 1000 < 1000" by simp_all
    ultimately have "u - 2 * DAY < wallClockAsUtc zone tz u" "wallClockAsUtc zone tz u < u + DAY"
      using one_transition_bounds [OF ot'] D by (auto split: if_splits)
    then show ?thesis using False near D by auto
  qed
  ultimately show thesis using that by blast
qed

text \<open>So the instants of one key are one period, the one \<open>periodWindow\<close> gives.\<close>

definition regular :: "zone_data \<Rightarrow> string \<Rightarrow> CostBucket \<Rightarrow> millis \<Rightarrow> millis \<Rightarrow> bool" where
  "regular zone tz b lo hi \<longleftrightarrow> (\<forall>t. lo \<le> t \<and> t \<le> hi \<longrightarrow> (\<exists>s e. periodWindow zone tz t (bucket_grain b) 1 = Some (s, e)
     \<and> s \<le> t \<and> t < e \<and> t - 40 * DAY \<le> s \<and> e \<le> t + 40 * DAY
     \<and> (\<forall>u. lo \<le> u \<and> u \<le> hi \<longrightarrow> (periodKey zone u b tz = periodKey zone t b tz \<longleftrightarrow> s \<le> u \<and> u < e)
       \<and> (s \<le> u \<and> u < e \<longrightarrow> periodWindow zone tz u (bucket_grain b) 1 = Some (s, e)))))"

lemma civil_regular:
  assumes civil: "civil_zone zone tz b (lo - 40 * DAY) (hi + 40 * DAY)"
  shows "regular zone tz b lo hi"
  unfolding regular_def
proof (intro allI impI)
  fix t assume t: "lo \<le> t \<and> t \<le> hi"
  have D: "0 < DAY" by (simp add: DAY_def)
  have civil_range: "lo - 40 * DAY \<le> u \<and> u \<le> hi + 40 * DAY" if "lo \<le> u \<and> u \<le> hi" for u using that D by simp
  have shown: "shows_wall zone tz u" if "lo - 40 * DAY \<le> u" "u \<le> hi + 40 * DAY" for u
    using civil that unfolding civil_zone_def by blast
  obtain T x y where ot: "one_transition zone tz (t - 4 * DAY) (t + 4 * DAY) T x y"
    using civil civil_range [OF t] unfolding civil_zone_def by blast
  define w where "w = wallClockAsUtc zone tz t"
  define k where "k = idx b w"
  have "w = t - t mod 1000 + (if t < T then x else y)"
    using one_transition_wall [OF ot, of t] D unfolding w_def by simp
  moreover have "0 \<le> t mod 1000" "t mod 1000 < 1000" "1000 < DAY" by (simp_all add: DAY_def)
  ultimately have near: "t - 2 * DAY < w" "w < t + DAY"
    using one_transition_bounds [OF ot] by (auto split: if_splits)
  have W: "wstart b k \<le> w" "w < wstart b (k + 1)" using idx_bounds unfolding k_def by simp_all
  have W': "w - 31 * DAY \<le> wstart b k" "wstart b (k + 1) \<le> w + 31 * DAY" using W wstart_step(2) [of b k] by simp_all
  have years: "99 < utc_year w" "99 < utc_year (wstart b k)"
  proof -
    show "99 < utc_year w" using shown [of t] t D unfolding w_def shows_wall_def by (simp add: Let_def)
    have early: "shows_wall zone tz (t - 36 * DAY)" by (rule shown) (use t D in simp_all)
    have civil_range': "lo - 40 * DAY \<le> t - 36 * DAY \<and> t - 36 * DAY \<le> hi + 40 * DAY" using t D by simp
    obtain T' x' y' where ot': "one_transition zone tz (t - 36 * DAY - 4 * DAY) (t - 36 * DAY + 4 * DAY) T' x' y'"
      using civil civil_range' unfolding civil_zone_def by blast
    have "wallClockAsUtc zone tz (t - 36 * DAY) = t - 36 * DAY - (t - 36 * DAY) mod 1000 + (if t - 36 * DAY < T' then x' else y')"
      using one_transition_wall [OF ot', of "t - 36 * DAY"] D by simp
    moreover have "0 \<le> (t - 36 * DAY) mod 1000" by simp
    ultimately have "wallClockAsUtc zone tz (t - 36 * DAY) \<le> wstart b k"
      using one_transition_bounds [OF ot'] near W' by (auto split: if_splits)
    from utc_year_mono [OF this] show "99 < utc_year (wstart b k)"
      using early unfolding shows_wall_def by (simp add: Let_def)
  qed
  obtain s where s: "wallInstant zone tz (wstart b k) = Some s" "\<bar>s - wstart b k\<bar> \<le> DAY"
    "\<And>u. lo - 40 * DAY \<le> u \<Longrightarrow> u \<le> hi + 40 * DAY \<Longrightarrow> u < s \<longleftrightarrow> wallClockAsUtc zone tz u < wstart b k"
    by (rule boundary [OF civil, of "wstart b k" k]) (use t near W W' D in simp_all)
  obtain e where e: "wallInstant zone tz (wstart b (k + 1)) = Some e" "\<bar>e - wstart b (k + 1)\<bar> \<le> DAY"
    "\<And>u. lo - 40 * DAY \<le> u \<Longrightarrow> u \<le> hi + 40 * DAY \<Longrightarrow> u < e \<longleftrightarrow> wallClockAsUtc zone tz u < wstart b (k + 1)"
    by (rule boundary [OF civil, of "wstart b (k + 1)" "k + 1"]) (use t near W W' D in simp_all)
  have inside: "s \<le> u \<and> u < e \<longleftrightarrow> idx b (wallClockAsUtc zone tz u) = k" if "lo - 40 * DAY \<le> u" "u \<le> hi + 40 * DAY" for u
    using s(3) [OF that] e(3) [OF that] unfolding idx_iff by linarith
  have win: "periodWindow zone tz u (bucket_grain b) 1 = Some (s, e)" if u: "lo \<le> u" "u \<le> hi" "s \<le> u" "u < e" for u
  proof -
    have "99 < utc_year (wallClockAsUtc zone tz u)" using shown [of u] u D unfolding shows_wall_def by (simp add: Let_def)
    moreover have "idx b (wallClockAsUtc zone tz u) = k" using inside [of u] u D by simp
    ultimately have "wallPeriodStart (wallClockAsUtc zone tz u) (bucket_grain b) 1 = wstart b k" using period_of_wall by simp
    then show ?thesis unfolding periodWindow_def Let_def by (simp add: s e next_of_wall [OF years(2)])
  qed
  have keys: "periodKey zone u b tz = periodKey zone t b tz \<longleftrightarrow> s \<le> u \<and> u < e" if "lo \<le> u" "u \<le> hi" for u
    using inside [of u] periodKey_idx [OF shown shown, of u t b] that t D by (simp add: k_def w_def)
  have st: "s \<le> t" "t < e" using inside [of t] t D by (simp_all add: k_def w_def)
  have "t - 40 * DAY \<le> s" "e \<le> t + 40 * DAY" using s(2) e(2) near W' D by simp_all
  with st keys win t show "\<exists>s e. periodWindow zone tz t (bucket_grain b) 1 = Some (s, e) \<and> s \<le> t \<and> t < e \<and> t - 40 * DAY \<le> s \<and> e \<le> t + 40 * DAY
      \<and> (\<forall>u. lo \<le> u \<and> u \<le> hi \<longrightarrow> (periodKey zone u b tz = periodKey zone t b tz \<longleftrightarrow> s \<le> u \<and> u < e)
        \<and> (s \<le> u \<and> u < e \<longrightarrow> periodWindow zone tz u (bucket_grain b) 1 = Some (s, e)))"
    by blast
qed

lemma regularE:
  assumes "regular zone tz b lo hi" and "lo \<le> t" "t \<le> hi"
  obtains s e where "periodWindow zone tz t (bucket_grain b) 1 = Some (s, e)" "s \<le> t" "t < e" "t - 40 * DAY \<le> s" "e \<le> t + 40 * DAY"
    and "\<And>u. lo \<le> u \<Longrightarrow> u \<le> hi \<Longrightarrow> periodKey zone u b tz = periodKey zone t b tz \<longleftrightarrow> s \<le> u \<and> u < e"
    and "\<And>u. lo \<le> u \<Longrightarrow> u \<le> hi \<Longrightarrow> s \<le> u \<Longrightarrow> u < e \<Longrightarrow> periodWindow zone tz u (bucket_grain b) 1 = Some (s, e)"
proof -
  from assms have "\<exists>s e. periodWindow zone tz t (bucket_grain b) 1 = Some (s, e)
     \<and> s \<le> t \<and> t < e \<and> t - 40 * DAY \<le> s \<and> e \<le> t + 40 * DAY
     \<and> (\<forall>u. lo \<le> u \<and> u \<le> hi \<longrightarrow> (periodKey zone u b tz = periodKey zone t b tz \<longleftrightarrow> s \<le> u \<and> u < e)
       \<and> (s \<le> u \<and> u < e \<longrightarrow> periodWindow zone tz u (bucket_grain b) 1 = Some (s, e)))"
    unfolding regular_def by blast
  then show thesis by (elim exE conjE) (rule that, assumption+, blast+)
qed

text \<open>Where a period ends inside the range the next one starts.\<close>

lemma next_period_start:
  assumes reg: "regular zone tz b lo hi" and "lo \<le> t" "t \<le> hi"
    and w: "periodWindow zone tz t (bucket_grain b) 1 = Some (s, e)" and "e \<le> hi"
  obtains e' where "periodWindow zone tz e (bucket_grain b) 1 = Some (e, e')" "e < e'"
proof -
  obtain "t < e" and own: "\<And>u. lo \<le> u \<Longrightarrow> u \<le> hi \<Longrightarrow> periodKey zone u b tz = periodKey zone t b tz \<longleftrightarrow> s \<le> u \<and> u < e"
    and st: "s \<le> t" using regularE [OF reg assms(2,3)] w by (metis Pair_inject option.inject)
  have e: "lo \<le> e" using \<open>t < e\<close> assms(2) by simp
  obtain s' e' where w': "periodWindow zone tz e (bucket_grain b) 1 = Some (s', e')" and s': "s' \<le> e" "e < e'"
    and its: "\<And>u. lo \<le> u \<Longrightarrow> u \<le> hi \<Longrightarrow> periodKey zone u b tz = periodKey zone e b tz \<longleftrightarrow> s' \<le> u \<and> u < e'"
    using regularE [OF reg e \<open>e \<le> hi\<close>] by metis
  have "\<not> s' < e"
  proof
    assume "s' < e"
    then have "periodKey zone (e - 1) b tz = periodKey zone e b tz" using its [of "e - 1"] s' \<open>t < e\<close> assms(2) \<open>e \<le> hi\<close> by simp
    moreover have "periodKey zone (e - 1) b tz = periodKey zone t b tz" using own [of "e - 1"] st \<open>t < e\<close> assms(2) \<open>e \<le> hi\<close> by simp
    ultimately show False using own [of e] e \<open>e \<le> hi\<close> by simp
  qed
  then show thesis using that w' s' by simp
qed


subsection \<open>The bars of a window\<close>

text \<open>
  Said without the calendar arithmetic: the period of an instant is the instants of its key (a period
  is shorter than 40 days), and it is a bar of the window exactly if the window holds half of it, or
  is itself shorter and inside it.
\<close>

definition period_of :: "zone_data \<Rightarrow> string \<Rightarrow> CostBucket \<Rightarrow> millis \<Rightarrow> millis set" where
  "period_of zone tz b t = {u. t - 40 * DAY \<le> u \<and> u \<le> t + 40 * DAY \<and> periodKey zone u b tz = periodKey zone t b tz}"

definition has_bar :: "zone_data \<Rightarrow> string \<Rightarrow> CostBucket \<Rightarrow> millis \<Rightarrow> millis \<Rightarrow> millis \<Rightarrow> bool" where
  "has_bar zone tz b lo hi t \<longleftrightarrow>
     2 * card (period_of zone tz b t \<inter> {lo..<hi}) \<ge> min (card (period_of zone tz b t)) (2 * card {lo..<hi})"

lemma has_bar_window:
  assumes reg: "regular zone tz b (lo - 40 * DAY) (hi + 40 * DAY)" and t: "lo \<le> t" "t < hi"
    and w: "periodWindow zone tz t (bucket_grain b) 1 = Some (s, e)"
  shows "has_bar zone tz b lo hi t \<longleftrightarrow> mostly_covered lo hi s e"
proof -
  have D: "0 < DAY" by (simp add: DAY_def)
  have range: "lo - 40 * DAY \<le> t" "t \<le> hi + 40 * DAY" using t D by simp_all
  obtain s' e' where w': "periodWindow zone tz t (bucket_grain b) 1 = Some (s', e')" and b': "s' \<le> t" "t < e'" "t - 40 * DAY \<le> s'" "e' \<le> t + 40 * DAY"
    and own': "\<And>u. lo - 40 * DAY \<le> u \<Longrightarrow> u \<le> hi + 40 * DAY \<Longrightarrow> periodKey zone u b tz = periodKey zone t b tz \<longleftrightarrow> s' \<le> u \<and> u < e'"
    by (rule regularE [OF reg range]) (rule that)
  have se: "s' = s" "e' = e" using w w' by simp_all
  note b = b' [unfolded se] and own = own' [unfolded se]
  have P: "period_of zone tz b t = {s..<e}"
  proof (intro set_eqI iffI)
    fix u assume "u \<in> period_of zone tz b t"
    then show "u \<in> {s..<e}" using own [of u] t by (simp add: period_of_def)
  next
    fix u assume "u \<in> {s..<e}"
    then show "u \<in> period_of zone tz b t" using own [of u] b t by (simp add: period_of_def)
  qed
  have "{s..<e} \<inter> {lo..<hi} = {max s lo..<min e hi}" by auto
  then show ?thesis unfolding has_bar_def mostly_covered_def P using b t
    by (simp add: min_def max_def) linarith
qed


text \<open>The bars: one for each period that has one, in time order.\<close>

lemma each_period_bars:
  assumes reg: "regular zone tz b (lo - 40 * DAY) (hi + 40 * DAY)"
  shows "lo - 40 * DAY \<le> cur \<Longrightarrow> cur \<le> hi + 40 * DAY \<Longrightarrow> periodWindow zone tz cur (bucket_grain b) 1 = Some (cur, e)
    \<Longrightarrow> \<exists>ps. each_period_from zone tz b lo hi cur = Some ps
      \<and> sorted_wrt (\<lambda>p q. po_end p \<le> po_start q) ps
      \<and> (\<forall>p\<in>set ps. cur \<le> po_start p \<and> po_start p < hi \<and> mostly_covered lo hi (po_start p) (po_end p)
          \<and> periodWindow zone tz (po_start p) (bucket_grain b) 1 = Some (po_start p, po_end p) \<and> po_key p = periodKey zone (po_start p) b tz)
      \<and> (\<forall>t. cur \<le> t \<longrightarrow> t < hi \<longrightarrow> (\<forall>s e. periodWindow zone tz t (bucket_grain b) 1 = Some (s, e) \<longrightarrow> mostly_covered lo hi s e
          \<longrightarrow> (\<exists>p\<in>set ps. po_start p = s \<and> po_end p = e)))"
proof (induction "nat (hi - cur)" arbitrary: cur e rule: less_induct)
  case less
  show ?case
  proof (cases "cur < hi")
    case False
    then show ?thesis by (subst each_period_from.simps) simp
  next
    case True
    have D: "0 < DAY" by (simp add: DAY_def)
    obtain s' e' where w': "periodWindow zone tz cur (bucket_grain b) 1 = Some (s', e')" and b': "cur < e'" "e' \<le> cur + 40 * DAY"
      and same': "\<And>u. lo - 40 * DAY \<le> u \<Longrightarrow> u \<le> hi + 40 * DAY \<Longrightarrow> s' \<le> u \<Longrightarrow> u < e' \<Longrightarrow> periodWindow zone tz u (bucket_grain b) 1 = Some (s', e')"
      by (rule regularE [OF reg less.prems(1,2)]) (rule that)
    have se: "s' = cur" "e' = e" using w' less.prems(3) by simp_all
    note bs = b' [unfolded se] and same = same' [unfolded se]
    have e: "lo - 40 * DAY \<le> e" "e \<le> hi + 40 * DAY" using bs less.prems(1) True by simp_all
    obtain e2 where e2: "periodWindow zone tz e (bucket_grain b) 1 = Some (e, e2)"
      by (rule next_period_start [OF reg less.prems e(2)])
    have "nat (hi - e) < nat (hi - cur)" using bs True by simp
    from less.hyps [OF this e e2] obtain ps where ps: "each_period_from zone tz b lo hi e = Some ps"
      and IH: "sorted_wrt (\<lambda>p q. po_end p \<le> po_start q) ps"
        "\<forall>p\<in>set ps. e \<le> po_start p \<and> po_start p < hi \<and> mostly_covered lo hi (po_start p) (po_end p)
          \<and> periodWindow zone tz (po_start p) (bucket_grain b) 1 = Some (po_start p, po_end p) \<and> po_key p = periodKey zone (po_start p) b tz"
        "\<forall>t. e \<le> t \<longrightarrow> t < hi \<longrightarrow> (\<forall>s e. periodWindow zone tz t (bucket_grain b) 1 = Some (s, e) \<longrightarrow> mostly_covered lo hi s e
          \<longrightarrow> (\<exists>p\<in>set ps. po_start p = s \<and> po_end p = e))"
      by (elim exE conjE) (rule that)
    let ?p = "\<lparr>po_key = periodKey zone cur b tz, po_start = cur, po_end = e\<rparr>"
    let ?qs = "if mostly_covered lo hi cur e then ?p # ps else ps"
    have eq: "each_period_from zone tz b lo hi cur = Some ?qs"
      by (subst each_period_from.simps) (simp add: True less.prems(3) ps)
    have "\<exists>p\<in>set ?qs. po_start p = s \<and> po_end p = f"
      if t: "cur \<le> t" "t < hi" "periodWindow zone tz t (bucket_grain b) 1 = Some (s, f)" "mostly_covered lo hi s f" for t s f
    proof (cases "t < e")
      case True
      then have "s = cur" "f = e" using same [of t] t less.prems(1) D by simp_all
      then show ?thesis using t(4) by simp
    next
      case False
      then have "e \<le> t" by simp
      then obtain p where "p \<in> set ps" "po_start p = s" "po_end p = f" using IH(3) t(2-4) by blast
      then show ?thesis by auto
    qed
    moreover have "sorted_wrt (\<lambda>p q. po_end p \<le> po_start q) ?qs" using IH(1,2) by simp
    moreover have "\<forall>p\<in>set ?qs. cur \<le> po_start p \<and> po_start p < hi \<and> mostly_covered lo hi (po_start p) (po_end p)
          \<and> periodWindow zone tz (po_start p) (bucket_grain b) 1 = Some (po_start p, po_end p) \<and> po_key p = periodKey zone (po_start p) b tz"
      using IH(2) bs(1) True less.prems(3) by auto
    ultimately show ?thesis using eq by blast
  qed
qed

lemma distinct_of_sorted_neq: "sorted_wrt (\<noteq>) xs \<Longrightarrow> distinct xs"
  by (induction xs) auto

text \<open>\<open>eachPeriod\<close> of a window: the keys of instants \<open>ts\<close> of it, ascending.\<close>

lemma eachPeriod_bars:
  assumes reg: "regular zone tz b (lo - 40 * DAY) (hi + 40 * DAY)" and "lo < hi"
  obtains ts where "periodKeysInRange zone lo hi b tz = Some (map (\<lambda>t. periodKey zone t b tz) ts)"
    and "distinct (map (\<lambda>t. periodKey zone t b tz) ts)" and "sorted_wrt (<) ts" and "set ts \<subseteq> {lo..<hi}"
    and "\<And>t. lo \<le> t \<Longrightarrow> t < hi \<Longrightarrow> has_bar zone tz b lo hi t \<longleftrightarrow> periodKey zone t b tz \<in> (\<lambda>t. periodKey zone t b tz) ` set ts"
proof -
  have D: "0 < DAY" by (simp add: DAY_def)
  have lo: "lo - 40 * DAY \<le> lo" "lo \<le> hi + 40 * DAY" using assms(2) D by simp_all
  obtain s e where w: "periodWindow zone tz lo (bucket_grain b) 1 = Some (s, e)" and se: "s \<le> lo" "lo < e" "lo - 40 * DAY \<le> s"
    and same: "\<And>u. lo - 40 * DAY \<le> u \<Longrightarrow> u \<le> hi + 40 * DAY \<Longrightarrow> s \<le> u \<Longrightarrow> u < e \<Longrightarrow> periodWindow zone tz u (bucket_grain b) 1 = Some (s, e)"
    by (rule regularE [OF reg lo]) (rule that)
  have s: "s \<le> hi + 40 * DAY" "periodWindow zone tz s (bucket_grain b) 1 = Some (s, e)" using same [of s] se lo by simp_all
  from each_period_bars [OF reg se(3) s] obtain ps where ps: "each_period_from zone tz b lo hi s = Some ps"
    and sorted: "sorted_wrt (\<lambda>p q. po_end p \<le> po_start q) ps"
    and all: "\<And>p. p \<in> set ps \<Longrightarrow> s \<le> po_start p \<and> po_start p < hi \<and> mostly_covered lo hi (po_start p) (po_end p)
          \<and> periodWindow zone tz (po_start p) (bucket_grain b) 1 = Some (po_start p, po_end p) \<and> po_key p = periodKey zone (po_start p) b tz"
    and each: "\<And>t s' e. s \<le> t \<Longrightarrow> t < hi \<Longrightarrow> periodWindow zone tz t (bucket_grain b) 1 = Some (s', e) \<Longrightarrow> mostly_covered lo hi s' e
          \<Longrightarrow> \<exists>p\<in>set ps. po_start p = s' \<and> po_end p = e"
    by (elim exE conjE) (rule that, assumption+, blast+)
  let ?key = "\<lambda>t. periodKey zone t b tz"
  define r where "r p = max (po_start p) lo" for p :: period
  have own: "po_start p < po_end p \<and> lo < po_end p \<and> po_key p = ?key (r p) \<and> lo \<le> r p \<and> r p < hi \<and> r p < po_end p
      \<and> (\<forall>u. lo \<le> u \<longrightarrow> u < hi \<longrightarrow> (?key u = ?key (r p) \<longleftrightarrow> po_start p \<le> u \<and> u < po_end p))" if p: "p \<in> set ps" for p
  proof -
    note a = all [OF p]
    have rng: "lo - 40 * DAY \<le> po_start p" "po_start p \<le> hi + 40 * DAY" using a se D by simp_all
    obtain s' e' where w': "periodWindow zone tz (po_start p) (bucket_grain b) 1 = Some (s', e')" and lt: "po_start p < e'"
      and iff: "\<And>u. lo - 40 * DAY \<le> u \<Longrightarrow> u \<le> hi + 40 * DAY \<Longrightarrow> ?key u = ?key (po_start p) \<longleftrightarrow> s' \<le> u \<and> u < e'"
      by (rule regularE [OF reg rng]) (rule that)
    have eq: "s' = po_start p" "e' = po_end p" using w' a by simp_all
    have cov: "lo < po_end p" using a lt \<open>lo < hi\<close> unfolding eq mostly_covered_def by (auto simp: min_def max_def split: if_splits)
    have rr: "lo \<le> r p" "r p < hi" "po_start p \<le> r p" "r p < po_end p" using a cov lt \<open>lo < hi\<close> unfolding r_def eq by auto
    have k: "?key (r p) = ?key (po_start p)" using iff [of "r p"] rr D unfolding eq by simp
    then show ?thesis using a cov lt rr iff D unfolding eq k by auto
  qed
  have keys: "map po_key ps = map ?key (map r ps)" using own by simp
  have srt: "sorted_wrt (\<lambda>p q. r p < r q \<and> ?key (r p) \<noteq> ?key (r q)) ps"
  proof (rule sorted_wrt_mono_rel [OF _ sorted])
    fix p q assume pq: "p \<in> set ps" "q \<in> set ps" "po_end p \<le> po_start q"
    have "po_start q \<le> r q" by (simp add: r_def)
    then have "r p < r q" "\<not> r q < po_end p" using own [OF pq(1)] pq(3) by simp_all
    moreover have "?key (r q) = ?key (r p) \<longleftrightarrow> po_start p \<le> r q \<and> r q < po_end p" using own [OF pq(1)] own [OF pq(2)] by blast
    ultimately show "r p < r q \<and> ?key (r p) \<noteq> ?key (r q)" by metis
  qed
  show thesis
  proof (rule that [of "map r ps"])
    show "periodKeysInRange zone lo hi b tz = Some (map ?key (map r ps))"
      by (simp add: periodKeysInRange_def eachPeriod_def w ps keys)
    show "sorted_wrt (<) (map r ps)" unfolding sorted_wrt_map by (rule sorted_wrt_mono_rel [OF _ srt]) simp
    have "sorted_wrt (\<noteq>) (map ?key (map r ps))" unfolding sorted_wrt_map by (rule sorted_wrt_mono_rel [OF _ srt]) simp
    then show "distinct (map ?key (map r ps))" by (rule distinct_of_sorted_neq)
    show "set (map r ps) \<subseteq> {lo..<hi}" using own by auto
    fix t assume t: "lo \<le> t" "t < hi"
    have rng: "lo - 40 * DAY \<le> t" "t \<le> hi + 40 * DAY" using t D by simp_all
    obtain s' e' where w': "periodWindow zone tz t (bucket_grain b) 1 = Some (s', e')" and in': "s' \<le> t" "t < e'"
      and same': "\<And>u. lo - 40 * DAY \<le> u \<Longrightarrow> u \<le> hi + 40 * DAY \<Longrightarrow> s' \<le> u \<Longrightarrow> u < e' \<Longrightarrow> periodWindow zone tz u (bucket_grain b) 1 = Some (s', e')"
      by (rule regularE [OF reg rng]) (rule that)
    show "has_bar zone tz b lo hi t \<longleftrightarrow> ?key t \<in> ?key ` set (map r ps)"
      unfolding has_bar_window [OF reg t w']
    proof
      assume "mostly_covered lo hi s' e'"
      then obtain p where p: "p \<in> set ps" "po_start p = s'" "po_end p = e'" using each [OF _ t(2) w'] t se by auto
      then have "?key t = ?key (r p)" using own [OF p(1)] t in' by simp
      then show "?key t \<in> ?key ` set (map r ps)" using p(1) by simp
    next
      assume "?key t \<in> ?key ` set (map r ps)"
      then obtain p where p: "p \<in> set ps" "?key t = ?key (r p)" by auto
      then have t': "po_start p \<le> t" "t < po_end p" using own [OF p(1)] t by blast+
      have rng': "lo - 40 * DAY \<le> po_start p" "po_start p \<le> hi + 40 * DAY" using all [OF p(1)] se D by simp_all
      obtain s2 e2 where "periodWindow zone tz (po_start p) (bucket_grain b) 1 = Some (s2, e2)"
        "\<And>u. lo - 40 * DAY \<le> u \<Longrightarrow> u \<le> hi + 40 * DAY \<Longrightarrow> s2 \<le> u \<Longrightarrow> u < e2 \<Longrightarrow> periodWindow zone tz u (bucket_grain b) 1 = Some (s2, e2)"
        by (rule regularE [OF reg rng']) (rule that)
      then have "s' = po_start p" "e' = po_end p" using all [OF p(1)] t' rng w' by auto
      then show "mostly_covered lo hi s' e'" using all [OF p(1)] by simp
    qed
  qed
qed


text \<open>A window that starts and ends with its periods has a bar for each of its instants.\<close>

definition starts_period :: "zone_data \<Rightarrow> string \<Rightarrow> CostBucket \<Rightarrow> millis \<Rightarrow> bool" where
  "starts_period zone tz b t \<longleftrightarrow> periodKey zone (t - 1) b tz \<noteq> periodKey zone t b tz"

lemma whole_periods_have_bars:
  assumes reg: "regular zone tz b (lo - 40 * DAY) (hi + 40 * DAY)" and t: "lo \<le> t" "t < hi"
    and "starts_period zone tz b lo" "starts_period zone tz b hi"
  shows "has_bar zone tz b lo hi t"
proof -
  have D: "0 < DAY" "1 < DAY" by (simp_all add: DAY_def)
  have rng: "lo - 40 * DAY \<le> t" "t \<le> hi + 40 * DAY" using t D by simp_all
  obtain s e where w: "periodWindow zone tz t (bucket_grain b) 1 = Some (s, e)" and se: "s \<le> t" "t < e"
    and own: "\<And>u. lo - 40 * DAY \<le> u \<Longrightarrow> u \<le> hi + 40 * DAY \<Longrightarrow> periodKey zone u b tz = periodKey zone t b tz \<longleftrightarrow> s \<le> u \<and> u < e"
    by (rule regularE [OF reg rng]) (rule that)
  have "lo \<le> s" using own [of "lo - 1"] own [of lo] assms(4) t se D by (force simp: starts_period_def)
  moreover have "e \<le> hi" using own [of "hi - 1"] own [of hi] assms(5) t se D by (force simp: starts_period_def)
  ultimately show ?thesis using se unfolding has_bar_window [OF reg t w] mostly_covered_def by simp
qed

text \<open>
  The hour a row's key names is the bucket itself, unless the clock showed that hour an hour before
  already.
\<close>

definition fresh_hour :: "zone_data \<Rightarrow> string \<Rightarrow> millis \<Rightarrow> bool" where
  "fresh_hour zone tz t \<longleftrightarrow> HOUR dvd t \<and> periodKey zone (t - HOUR) BHour tz \<noteq> periodKey zone t BHour tz"

lemma fresh_hour_named:
  assumes civil: "civil_zone zone tz BHour (lo - 80 * DAY) (hi + 80 * DAY)" and t: "lo \<le> t" "t < hi"
    and fresh: "fresh_hour zone tz t" and "b \<noteq> BMonth"
  shows "hourFromPeriodKey zone tz (periodKey zone t b tz) (zp_hour (zoneParts zone tz t)) = Some t"
proof -
  have D: "0 < DAY" "HOUR < DAY" "0 < HOUR" by (simp_all add: calendar_units)
  have reg: "regular zone tz BHour (lo - 40 * DAY) (hi + 40 * DAY)" by (rule civil_regular) (use civil in \<open>simp add: algebra_simps\<close>)
  have rng: "lo - 40 * DAY \<le> t" "t \<le> hi + 40 * DAY" using t D by simp_all
  obtain s e where w: "periodWindow zone tz t (bucket_grain BHour) 1 = Some (s, e)" and se: "s \<le> t" "t < e"
    and own: "\<And>u. lo - 40 * DAY \<le> u \<Longrightarrow> u \<le> hi + 40 * DAY \<Longrightarrow> periodKey zone u BHour tz = periodKey zone t BHour tz \<longleftrightarrow> s \<le> u \<and> u < e"
    by (rule regularE [OF reg rng]) (rule that)
  have "t - HOUR < s" using own [of "t - HOUR"] fresh t se D by (force simp: fresh_hour_def)
  obtain k where k: "t = HOUR * k" using fresh unfolding fresh_hour_def by (elim conjE dvdE)
  have "(- s) div HOUR = - k" by (rule int_div_pos_eq [of _ _ _ "t - s"]) (use k \<open>t - HOUR < s\<close> se in simp_all)
  then have ceil: "hour_ceil s = t" by (simp add: hour_ceil_def k)
  define v where "v = wallClockAsUtc zone tz t"
  let ?p = "zoneParts zone tz t"
  have "shows_wall zone tz t" using civil t D unfolding civil_zone_def by auto
  then have p: "zp_year ?p = utc_year v" "zp_month ?p = utc_month v + 1" "zp_day ?p = utc_day v" "zp_hour ?p = v mod DAY div HOUR"
    and y: "1000 \<le> utc_year v" "utc_year v < 10000" unfolding shows_wall_def Let_def v_def by simp_all
  have lens: "length (js_int_string (utc_year v)) = 4" "length (pad2 (utc_month v + 1)) = 2" "length (pad2 (utc_day v)) = 2"
    using y month_index(4,5) [of v] utc_day_range [of v] by (simp_all add: length_year length_pad2)
  have nums: "js_number_of_digits (js_int_string (utc_year v)) = utc_year v" "js_number_of_digits (pad2 (utc_month v + 1)) = utc_month v + 1"
    "js_number_of_digits (pad2 (utc_day v)) = utc_day v"
    using y month_index(4,5) [of v] utc_day_range [of v] by (simp_all add: number_of_pad2 js_int_string_def number_of_dec)
  have ce: "ce_year (utc_year v)" using y by (simp add: ce_year_def)
  have "date_utc (utc_year v) (utc_month v) (utc_day v) h 0 0 = v div DAY * DAY + h * HOUR" for h
    using date_utc_utc_date [OF ce] by (simp add: date_utc_def Let_def)
  moreover have "v div DAY * DAY + v mod DAY div HOUR * HOUR = v div HOUR * HOUR"
    unfolding div_hour [of v] by (simp add: DAY_def HOUR_def)
  ultimately have "date_utc (utc_year v) (utc_month v) (utc_day v) (v mod DAY div HOUR) 0 0 = v div HOUR * HOUR" by simp
  moreover have "wallInstant zone tz (v div HOUR * HOUR) = Some s"
    using w by (auto simp: periodWindow_def Let_def wallPeriodStart_def v_def split: option.splits)
  ultimately show ?thesis using \<open>b \<noteq> BMonth\<close> ceil
    by (cases b) (simp_all add: hourFromPeriodKey_def periodKey_def key_text_def Let_def p lens nums)
qed

subsection \<open>UTC\<close>

lemma civil_utc:
  assumes "999 < utc_year (lo - 5 * DAY)" and "utc_year (hi + 5 * DAY) < 10000"
  shows "civil_zone (zone_of (\<lambda>_. 0)) tz b lo hi"
  unfolding civil_zone_def
proof (intro allI impI conjI)
  fix t assume t: "lo \<le> t \<and> t \<le> hi"
  have D: "0 < DAY" "1000 < DAY" by (simp_all add: DAY_def)
  have early: "999 < utc_year (t - 5 * DAY)" using assms(1) utc_year_mono [of "lo - 5 * DAY" "t - 5 * DAY"] t by simp
  have "one_transition (zone_of (\<lambda>c. if c < 0 then 0 else 0)) tz (t - 4 * DAY) (t + 4 * DAY) 0 0 0"
    by (rule zone_of_transition) (use early D in simp_all)
  then have ot: "one_transition (zone_of (\<lambda>_. 0)) tz (t - 4 * DAY) (t + 4 * DAY) 0 0 0" by simp
  then show "\<exists>T x y. one_transition (zone_of (\<lambda>_. 0)) tz (t - 4 * DAY) (t + 4 * DAY) T x y
      \<and> (\<forall>k. \<not> (T + y < wstart b k \<and> wstart b k < T + x))" by fastforce
  define w where "w = t - t mod 1000"
  have wall: "wallClockAsUtc (zone_of (\<lambda>_. 0)) tz t = w" using one_transition_wall [OF ot, of t] D unfolding w_def by simp
  have w: "t - 5 * DAY \<le> w" "w \<le> t" using pos_mod_bound [of 1000 t] pos_mod_sign [of 1000 t] D unfolding w_def by linarith+
  have "utc_year w < 10000" "1000 \<le> utc_year w"
    using assms(2) utc_year_mono [of w "hi + 5 * DAY"] early utc_year_mono [OF w(1)] w(2) t D by linarith+
  moreover have "t div x = w div x" if "1000 dvd x" "0 < x" for x
  proof -
    obtain k where k: "x = 1000 * k" using \<open>1000 dvd x\<close> by (elim dvdE)
    have "w = 1000 * (t div 1000)" unfolding w_def by (simp add: minus_mod_eq_mult_div)
    then show ?thesis using that(2) unfolding k by (simp add: zdiv_zmult2_eq)
  qed
  then have div: "t div DAY = w div DAY" "t div HOUR = w div HOUR" by (simp_all add: calendar_units)
  have hour: "x mod DAY div HOUR = x div HOUR - 24 * (x div DAY)" for x
    using div_hour [of x] by simp
  have "0 \<le> t mod DAY div HOUR" "t mod DAY div HOUR < 24"
    by (simp_all add: calendar_units pos_imp_zdiv_nonneg_iff)
  then have "t mod DAY div HOUR mod 24 = t mod DAY div HOUR" by simp
  moreover have "utc_date t = utc_date w" by (simp add: utc_date_def div)
  ultimately show "shows_wall (zone_of (\<lambda>_. 0)) tz t" unfolding shows_wall_def Let_def wall
    by (simp add: zoneParts_def zone_of_def Let_def utc_year_def utc_month_def utc_day_def hour div)
qed

end
