(* ===== verification/Cost_Engine.thy ===== *)
theory Cost_Engine
  imports Period_Bars
begin

text \<open>
  \<^verbatim>\<open>apps/server/src/energy/cost.ts\<close>: the two answers of the costs page, the totals of a window
  (\<open>computeCost\<close>, hour by hour) and its series (\<open>computeCostSeries\<close>, from the grouped rows). The tariff, the
  zone and the device come from settings and are arguments; so are the rows of the database, the stored
  day-ahead prices, the poll cache's sample and the clock.
\<close>

record SpotSlot =
  sl_slotStart :: millis
  sl_eurPerMwh :: number

record PlantContext =
  pc_tz :: string
  pc_tariff :: TariffConfig
  pc_target :: SeriesTarget

record CostSources =
  sr_db :: database
  sr_pg :: pg_zone
  sr_spotSlots :: "millis \<Rightarrow> millis \<Rightarrow> SpotSlot list"
  sr_liveSample :: "InverterSample option"
  sr_now :: millis


definition standing_of :: "number \<Rightarrow> millis \<Rightarrow> millis \<Rightarrow> millis \<Rightarrow> period \<Rightarrow> number" where
  "standing_of monthly lo hi now p =
     (let charged = min hi now; s = max (po_start p) lo; e = min (po_end p) charged
      in monthly / AVG_DAYS_PER_MONTH * max 0 (of_int (e - s) / of_int DAY))"

definition standingByPeriod ::
  "zone_data \<Rightarrow> millis \<Rightarrow> millis \<Rightarrow> CostBucket \<Rightarrow> number \<Rightarrow> millis \<Rightarrow> string \<Rightarrow> (string, number) js_map option" where
  "standingByPeriod zone lo hi bucket monthly now tz =
     map_option (\<lambda>ps. fold (\<lambda>p. js_set (po_key p) (standing_of monthly lo hi now p)) ps []) (eachPeriod zone lo hi bucket tz)"









definition windowDays :: "millis \<Rightarrow> millis \<Rightarrow> number" where
  "windowDays lo hi = max 0 (of_int (hi - lo) / 86400000)"



subsection \<open>The bars and the tiles\<close>















subsection \<open>Under one rate the money is the energy's\<close>


lemma money_put [simp]:
  "ct_importCost (et_put f x w) = ct_importCost w" "ct_exportEarnings (et_put f x w) = ct_exportEarnings w"
  "ct_gridOnlyCost (et_put f x w) = ct_gridOnlyCost w" "ct_standingCharge (et_put f x w) = ct_standingCharge w"
  by (cases f; simp)+

lemma money_replaced [simp]:
  "ct_importCost (replaceTodaySlice w p today) = ct_importCost w" "ct_exportEarnings (replaceTodaySlice w p today) = ct_exportEarnings w"
  "ct_gridOnlyCost (replaceTodaySlice w p today) = ct_gridOnlyCost w" "ct_standingCharge (replaceTodaySlice w p today) = ct_standingCharge w"
  by (simp_all add: replaceTodaySlice_def TOTALS_FIELDS_def split: option.split)





subsection \<open>The small plant under a flat tariff\<close>

definition flat_tariff :: TariffConfig where
  "flat_tariff = \<lparr>tc_currency = ''EUR'', tc_standingChargeMonthly = 12,
     tc_import = \<lparr>it_mode = StaticTariff, it_defaultPricePerKwh = 3 / 10, it_bands = [],
       it_spot = \<lparr>si_supplierMarkupPerKwh = 0, si_gridFeesPerKwh = 0, si_leviesPerKwh = 0, si_vatPercent = 0, si_clampToZero = False\<rparr>\<rparr>,
     tc_export = \<lparr>xt_mode = StaticTariff, xt_feedInPerKwh = 8 / 100,
       xt_spot = \<lparr>sx_marketingModel = NoMarketing, sx_managementFeePerKwh = 0\<rparr>\<rparr>\<rparr>"

definition utc_clock :: zone_data where
  "utc_clock = zone_of (\<lambda>_. 0)"

definition small_ctx :: PlantContext where
  "small_ctx = \<lparr>pc_tz = ''UTC'', pc_tariff = flat_tariff, pc_target = DeviceTarget ''p''\<rparr>"

definition small_src :: CostSources where
  "small_src = \<lparr>sr_db = january_db, sr_pg = (\<lambda>tz t. zoneParts utc_clock tz t), sr_spotSlots = (\<lambda>_ _. []),
     sr_liveSample = Some \<lparr>iv_time = 1767322400000, iv_inverterId = ''p'', iv_metrics = [(''imp'', 35 / 10)]\<rparr>, sr_now = 1767322400000\<rparr>"

lemmas small_plant = small_ctx_def small_src_def january_db_def











text \<open>A bar for a period the window only clips is left out, and its part of the standing charge with it: of the 26
  hours from 22:00 to the end of the next day the bars carry 24.\<close>

lemma clipped_standing_lost:
  "map_option (\<lambda>m. over snd m) (standingByPeriod january_utc 1767304800000 1767398400000 BDay 12 1767398400000 ''UTC'')
    = Some (12 / AVG_DAYS_PER_MONTH)"
  "12 * windowDays 1767304800000 1767398400000 / AVG_DAYS_PER_MONTH = 12 / AVG_DAYS_PER_MONTH * (26 / 24)"
  by code_simp+

end
