(* ===== verification/Driver.thy ===== *)
theory Driver
  imports Modbus_Transport
begin

text \<open>
  \<^verbatim>\<open>packages/inverter-core/src/computed.ts\<close> and \<^verbatim>\<open>driver.ts\<close>: the sample of a device, the values a
  transport read with the profile's derived metrics run over them. The transport is the one of
  \<open>Modbus_Transport\<close>; another is anything that answers with a \<open>device_read\<close>.
\<close>

definition compute_metric :: "MetricDef \<Rightarrow> MetricValues \<Rightarrow> MetricValues" where
  "compute_metric def values = (case mcompute def of
     None \<Rightarrow> values
   | Some compute \<Rightarrow> js_set (mkey def) (let x = compute values
       in case mrange def of Some r \<Rightarrow> min (rmax r) (max (rmin r) x) | None \<Rightarrow> x) values)"

definition applyComputed :: "MetricDef list \<Rightarrow> MetricValues \<Rightarrow> MetricValues" where
  "applyComputed metrics values = fold compute_metric metrics values"

record device_read =
  rd_values :: MetricValues
  rd_readAt :: "(string, millis) js_map option"
  rd_degraded :: "bool option"

record driver_sample = InverterSample +
  ds_degraded :: "bool option"
  ds_readAt :: "(string, millis) js_map option"

definition sample_of :: "InverterProfile \<Rightarrow> millis \<Rightarrow> device_read \<Rightarrow> driver_sample" where
  "sample_of profile now r = \<lparr>iv_time = now, iv_inverterId = pid profile,
     iv_metrics = applyComputed (pmetrics profile) (rd_values r), ds_degraded = rd_degraded r, ds_readAt = rd_readAt r\<rparr>"

definition driver_read :: "'d reader \<Rightarrow> transport \<Rightarrow> clamps \<Rightarrow> 'd \<Rightarrow> millis
    \<Rightarrow> (read_error + driver_sample) \<times> transport \<times> clamps \<times> 'd" where
  "driver_read rd t cs d now = (case transport_read rd t cs d of
     (Inl e, rest) \<Rightarrow> (Inl e, rest)
   | (Inr r, rest) \<Rightarrow>
       (Inr (sample_of (t_profile t) now \<lparr>rd_values = rr_values r, rd_readAt = None, rd_degraded = rr_degraded r\<rparr>), rest))"

definition driver_write :: "(bool \<Rightarrow> bool) \<Rightarrow> (int \<Rightarrow> int list \<Rightarrow> read_error option) \<Rightarrow> transport
    \<Rightarrow> string \<Rightarrow> number \<Rightarrow> (write_error + unit) \<times> (int \<times> int list) list" where
  "driver_write = transport_write"

definition driver_close :: "transport \<Rightarrow> transport" where
  "driver_close = transport_close"

subsection \<open>The sample fits the profile\<close>

text \<open>A value fits a metric when it lies within its range.\<close>

definition fits :: "MetricDef \<Rightarrow> number \<Rightarrow> bool" where
  "fits m x \<longleftrightarrow> (case mrange m of None \<Rightarrow> True | Some r \<Rightarrow> rmin r \<le> rmax r \<longrightarrow> rmin r \<le> x \<and> x \<le> rmax r)"

lemma decode_fits: "decode m regs cs = (Some v, cs') \<Longrightarrow> fits m v"
  by (auto simp: decode_def applyScaling_def fits_def clamp_range_def Let_def split: option.splits if_splits)

text \<open>What a pass over some of the metrics leaves: their own keys, once each, each fitting its metric.\<close>

definition values_ok :: "MetricDef list \<Rightarrow> MetricDef set \<Rightarrow> MetricValues \<Rightarrow> bool" where
  "values_ok ms sources vs \<longleftrightarrow> distinct (map fst vs) \<and> fst ` set vs \<subseteq> mkey ` sources
     \<and> (\<forall>m\<in>set ms. \<forall>x. js_get vs (mkey m) = Some x \<longrightarrow> fits m x)"

lemma values_ok_set:
  assumes ok: "values_ok ms S vs" and m: "m \<in> set ms" "m \<in> S" and "distinct (map mkey ms)" and "fits m x"
  shows "values_ok ms S (js_set (mkey m) x vs)"
proof -
  have own: "mkey m' = mkey m \<Longrightarrow> m' = m" if "m' \<in> set ms" for m'
    using that assms(2,4) by (auto simp: distinct_map dest: inj_onD)
  have "dom (js_get (js_set (mkey m) x vs)) = insert (mkey m) (dom (js_get vs))" by (auto simp: update_conv')
  then have "fst ` set (js_set (mkey m) x vs) = insert (mkey m) (fst ` set vs)" by (simp only: dom_map_of_conv_image_fst)
  moreover have "\<forall>m'\<in>set ms. \<forall>y. js_get (js_set (mkey m) x vs) (mkey m') = Some y \<longrightarrow> fits m' y"
    using ok own \<open>fits m x\<close> by (simp add: values_ok_def) metis
  ultimately show ?thesis using ok m(2) by (simp add: values_ok_def distinct_update)
qed

lemma decode_all_ok:
  assumes "values_ok ms S vs" "set ms' \<subseteq> set ms" "{m \<in> set ms'. is_modbus m} \<subseteq> S" "distinct (map mkey ms)"
  shows "values_ok ms S (fst (decode_all ms' regs vs cs))"
  using assms(1-3)
proof (induction ms' arbitrary: vs cs)
  case (Cons m ms')
  then show ?case
    by (auto simp del: js_get_set split: option.split prod.split intro!: Cons.IH values_ok_set [OF _ _ _ assms(4)] dest: decode_fits)
qed simp

lemma compute_metric_ok:
  assumes "values_ok ms S vs" "m \<in> set ms" "mcompute m \<noteq> None \<longrightarrow> m \<in> S" "distinct (map mkey ms)"
  shows "values_ok ms S (compute_metric m vs)"
  using assms by (auto simp: compute_metric_def fits_def Let_def split: option.split intro!: values_ok_set)

lemma applyComputed_ok:
  assumes "values_ok ms S vs" "set ms' \<subseteq> set ms" "{m \<in> set ms'. mcompute m \<noteq> None} \<subseteq> S" "distinct (map mkey ms)"
  shows "values_ok ms S (fold compute_metric ms' vs)"
  using assms(1-3)
proof (induction ms' arbitrary: vs)
  case (Cons m ms')
  then show ?case using compute_metric_ok [OF Cons.prems(1) _ _ assms(4), of m] by auto
qed simp

lemma compute_keeps: "js_get vs k \<noteq> None \<Longrightarrow> js_get (compute_metric m vs) k \<noteq> None"
  by (simp add: compute_metric_def Let_def split: option.split)

lemma computed_present:
  "m \<in> set ms \<Longrightarrow> mcompute m \<noteq> None \<Longrightarrow> js_get (fold compute_metric ms vs) (mkey m) \<noteq> None"
proof (induction ms arbitrary: vs)
  case (Cons a ms)
  have keeps: "js_get vs k \<noteq> None \<Longrightarrow> js_get (fold compute_metric ms vs) k \<noteq> None" for vs k
    by (induction ms arbitrary: vs) (use compute_keeps in \<open>simp, force\<close>)
  show ?case
  proof (cases "m = a")
    case True
    have "js_get (compute_metric a vs) (mkey a) \<noteq> None"
      using Cons.prems(2) True by (auto simp: compute_metric_def Let_def)
    from keeps [OF this] show ?thesis by (simp add: True)
  next
    case False
    then show ?thesis using Cons by simp
  qed
qed simp

lemma narrow_profile: "narrow t b e = Inr (subs, t') \<Longrightarrow> t_profile t' = t_profile t"
  by (auto simp: narrow_def Let_def split: if_splits)

lemma read_each_profile: "t_profile (fst (snd (read_each rd bs acc t d))) = t_profile t"
proof (induction bs arbitrary: acc t d)
  case (Cons b bs)
  then show ?case by (auto simp: narrow_profile split: prod.split sum.split)
qed simp

lemma driver_read_values:
  assumes "driver_read rd t cs d now = (Inr s, rest)"
  shows "\<exists>regs. iv_metrics s = applyComputed (pmetrics (t_profile t)) (fst (decode_all (pmetrics (t_profile t)) regs [] cs))
    \<and> iv_inverterId s = pid (t_profile t)"
proof -
  obtain res t' d' where r: "readBlocks rd t d = (res, t', d')" by (metis prod_cases3)
  then have p: "t_profile t' = t_profile t"
    using read_each_profile [of rd "t_blocks t" Map.empty t d] by (simp add: readBlocks_def)
  show ?thesis
  proof (cases res)
    case (Inl e)
    with assms r show ?thesis by (simp add: driver_read_def transport_read_def)
  next
    case (Inr regs)
    obtain vs cs' where v: "decode_all (pmetrics (t_profile t)) regs [] cs = (vs, cs')" by force
    with assms r Inr p have "s = sample_of (t_profile t) now \<lparr>rd_values = vs, rd_readAt = None,
        rd_degraded = (if t_degraded t' then Some True else None)\<rparr>"
      by (simp add: driver_read_def transport_read_def)
    with v show ?thesis by (intro exI [of _ regs]) (simp add: sample_of_def)
  qed
qed

lemma driver_reads:
  assumes "\<not> isl (fst (readBlocks rd t d))"
  shows "\<exists>s rest. driver_read rd t cs d now = (Inr s, rest)"
proof -
  obtain regs t' d' where r: "readBlocks rd t d = (Inr regs, t', d')"
    using assms by (metis isl_def prod.collapse sum.exhaust_sel)
  then show ?thesis by (simp add: driver_read_def transport_read_def split: prod.split)
qed

text \<open>C36. A sample is typed by its profile: it is the profile's own, every key in it is that of a register or
  computed metric the profile declares, once each, every computed metric is there, and whatever the
  device answered every value of a metric with a range lies within it.\<close>

theorem sample_is_typed:
  assumes "distinct (map mkey (pmetrics (t_profile t)))" and "driver_read rd t cs d now = (Inr s, rest)"
  shows "iv_inverterId s = pid (t_profile t) \<and> distinct (map fst (iv_metrics s))
    \<and> fst ` set (iv_metrics s) \<subseteq> mkey ` {m \<in> set (pmetrics (t_profile t)). is_modbus m \<or> mcompute m \<noteq> None}
    \<and> (\<forall>m\<in>set (pmetrics (t_profile t)). mcompute m \<noteq> None \<longrightarrow> js_get (iv_metrics s) (mkey m) \<noteq> None)
    \<and> (\<forall>m\<in>set (pmetrics (t_profile t)). \<forall>r x. mrange m = Some r \<and> rmin r \<le> rmax r \<and> js_get (iv_metrics s) (mkey m) = Some x
      \<longrightarrow> rmin r \<le> x \<and> x \<le> rmax r)"
proof (intro conjI)
  let ?ms = "pmetrics (t_profile t)" and ?S = "{m \<in> set (pmetrics (t_profile t)). is_modbus m \<or> mcompute m \<noteq> None}"
  obtain regs where s: "iv_metrics s = applyComputed ?ms (fst (decode_all ?ms regs [] cs))" "iv_inverterId s = pid (t_profile t)"
    using driver_read_values [OF assms(2)] by blast
  have "values_ok ?ms ?S (fst (decode_all ?ms regs [] cs))"
    by (rule decode_all_ok [OF _ _ _ assms(1)]) (auto simp: values_ok_def)
  then have ok: "values_ok ?ms ?S (iv_metrics s)" unfolding s(1) applyComputed_def
    by (rule applyComputed_ok [OF _ _ _ assms(1)]) auto
  show "iv_inverterId s = pid (t_profile t)" by (rule s(2))
  show "distinct (map fst (iv_metrics s))" "fst ` set (iv_metrics s) \<subseteq> mkey ` ?S" using ok by (auto simp: values_ok_def)
  show "\<forall>m\<in>set ?ms. mcompute m \<noteq> None \<longrightarrow> js_get (iv_metrics s) (mkey m) \<noteq> None"
    using computed_present unfolding s(1) applyComputed_def by blast
  show "\<forall>m\<in>set ?ms. \<forall>r x. mrange m = Some r \<and> rmin r \<le> rmax r \<and> js_get (iv_metrics s) (mkey m) = Some x
      \<longrightarrow> rmin r \<le> x \<and> x \<le> rmax r"
    using ok by (fastforce simp: values_ok_def fits_def)
qed

definition ratio_profile :: InverterProfile where
  "ratio_profile = \<lparr>pid = ''p'', pname = ''p'', pmanufacturer = ''m'',
     pmetrics = [reg_metric ''a'' [120], (sum_metric ''s'' [''a''])\<lparr>mrange := Some \<lparr>rmin = 0, rmax = 100\<rparr>\<rparr>], pdeclares = None\<rparr>"

text \<open>The register reads 120, the sum over it is cut at 100.\<close>

lemma sample_is_typed_witness:
  "\<exists>s rest x. driver_read echo (new_transport ratio_profile plain_conn) [] 0 7 = (Inr s, rest)
     \<and> js_get (iv_metrics s) ''s'' = Some x \<and> x \<le> 100"
proof -
  let ?t = "new_transport ratio_profile plain_conn"
  have "\<not> isl (fst (readBlocks echo ?t 0))" by code_simp
  from driver_reads [OF this, of "[]" 7] obtain s rest where s: "driver_read echo ?t [] 0 7 = (Inr s, rest)" by blast
  have p: "t_profile ?t = ratio_profile" "distinct (map mkey (pmetrics ratio_profile))"
    by (simp_all add: new_transport_def ratio_profile_def reg_metric_def sum_metric_def word_metric_def)
  let ?m = "(sum_metric ''s'' [''a''])\<lparr>mrange := Some \<lparr>rmin = 0, rmax = 100\<rparr>\<rparr>"
  have m: "?m \<in> set (pmetrics ratio_profile)" "mcompute ?m \<noteq> None" "mrange ?m = Some \<lparr>rmin = 0, rmax = 100\<rparr>" "mkey ?m = ''s''"
    by (simp_all add: ratio_profile_def sum_metric_def)
  note typed = sample_is_typed [of ?t echo "[]" 0 7 s rest, unfolded p(1), OF p(2) s]
  obtain x where x: "js_get (iv_metrics s) ''s'' = Some x" using typed m by (metis not_None_eq)
  moreover have "x \<le> 100" using typed m x by fastforce
  ultimately show ?thesis using s by blast
qed

end
