(* ===== verification/Device_Registry.thy ===== *)
theory Device_Registry
  imports Connection_Tier Capabilities Automation_State
begin

text \<open>
  \<^verbatim>\<open>apps/server/src/devices/registry.ts\<close>: the snapshot of the plant's registered devices. The rows of the
  table and the profile an id resolves to come from the database and are arguments; a read or a
  resolution that fails is an error value. Warnings are dropped.
\<close>

record DeviceRow = DeviceRecord +
  dw_name :: string
  dw_role :: string
  dw_profileId :: string

record CodedDeclaration =
  cd_integration :: string
  cd_name :: "string option"
  cd_addable :: "bool option"
  cd_metrics :: "MetricBase list"
  cd_declares :: "ProfileDeclarations option"

record registry_deps =
  rg_resolveProfile :: "string \<Rightarrow> string + InverterProfile option"
  rg_resolveCoded :: "string \<Rightarrow> CodedDeclaration option"

record registry =
  rg_instances :: "DeviceInstance list"
  rg_byId :: "(string, DeviceInstance) js_map"
  rg_profiles :: "(string, InverterProfile) js_map"
  rg_bindings :: "DeviceProfileBinding list"

definition createDeviceRegistry :: registry where
  "createDeviceRegistry = \<lparr>rg_instances = [], rg_byId = [], rg_profiles = [], rg_bindings = []\<rparr>"

definition deviceClassOf :: "string \<Rightarrow> DeviceClass option" where
  "deviceClassOf role = map_of DEVICE_CLASSES role"

definition resolveRow :: "registry_deps \<Rightarrow> DeviceRow \<Rightarrow> DeviceClass \<Rightarrow> string + DeviceInstance \<times> InverterProfile option" where
  "resolveRow deps row cls = (case rg_resolveCoded deps (dw_profileId row) of
     Some coded \<Rightarrow> Inr (deviceInstance (dr_slug row) cls (cd_integration coded) (cd_metrics coded) (cd_declares coded), None)
   | None \<Rightarrow> (case rg_resolveProfile deps (dw_profileId row) of
       Inl e \<Rightarrow> Inl e
     | Inr profile \<Rightarrow> Inr (instanceFromProfile (dr_slug row) cls ''profile''
         (case profile of Some p \<Rightarrow> p
          | None \<Rightarrow> \<lparr>pid = dw_profileId row, pname = dw_name row, pmanufacturer = [], pmetrics = [], pdeclares = None\<rparr>), profile)))"

text \<open>The loop over the rows in service; what it built so far is the accumulator.\<close>

fun build_rows :: "registry_deps \<Rightarrow> DeviceRow list \<Rightarrow> DeviceInstance list \<Rightarrow> (string, InverterProfile) js_map
    \<Rightarrow> DeviceProfileBinding list \<Rightarrow> string + DeviceInstance list \<times> (string, InverterProfile) js_map \<times> DeviceProfileBinding list" where
  "build_rows deps [] built profiles bindings = Inr (built, profiles, bindings)"
| "build_rows deps (row # rows) built profiles bindings = (case deviceClassOf (dw_role row) of
     None \<Rightarrow> build_rows deps rows built profiles bindings
   | Some cls \<Rightarrow> (case resolveRow deps row cls of
       Inl e \<Rightarrow> Inl e
     | Inr (inst, profile) \<Rightarrow> build_rows deps rows (built @ [inst])
         (case profile of Some p \<Rightarrow> js_set (dr_slug row) p profiles | None \<Rightarrow> profiles)
         (bindings @ [\<lparr>pb_deviceId = dr_slug row, pb_profileId = dw_profileId row\<rparr>])))"

text \<open>A failed read keeps the last snapshot; a resolution that throws rejects the reload, and keeps it too.\<close>

definition registry_reload :: "registry_deps \<Rightarrow> string + DeviceRow list \<Rightarrow> registry \<Rightarrow> (string + DeviceInstance list) \<times> registry" where
  "registry_reload deps readDevices g = (case readDevices of
     Inl _ \<Rightarrow> (Inr (rg_instances g), g)
   | Inr rows \<Rightarrow> (case build_rows deps (activeDevices rows) [] [] [] of
       Inl e \<Rightarrow> (Inl e, g)
     | Inr (built, profiles, bindings) \<Rightarrow> (Inr built,
         \<lparr>rg_instances = built, rg_byId = fold (\<lambda>d. js_set (di_id d) d) built [], rg_profiles = profiles, rg_bindings = bindings\<rparr>)))"

definition registry_get :: "registry \<Rightarrow> string \<Rightarrow> DeviceInstance option" where
  "registry_get g i = js_get (rg_byId g) i"

definition primary_of :: "DeviceInstance list \<Rightarrow> DeviceInstance option" where
  "primary_of instances = find (\<lambda>d. di_class d = InverterClass) instances"

definition primary :: "registry \<Rightarrow> DeviceInstance option" where
  "primary g = primary_of (rg_instances g)"

definition driverProfile :: "registry \<Rightarrow> string \<Rightarrow> InverterProfile option" where
  "driverProfile g i = js_get (rg_profiles g) i"

definition primaryProfile :: "registry \<Rightarrow> InverterProfile option" where
  "primaryProfile g = (case primary g of Some d \<Rightarrow> js_get (rg_profiles g) (di_id d) | None \<Rightarrow> None)"

definition profileIds :: "registry \<Rightarrow> string list" where
  "profileIds g = set_adds (map (\<lambda>kv. pid (snd kv)) (rg_profiles g)) []"

definition usesProfile :: "registry \<Rightarrow> string \<Rightarrow> bool" where
  "usesProfile g profileId \<longleftrightarrow> (\<exists>kv\<in>set (rg_profiles g). pid (snd kv) = profileId)"

subsection \<open>The snapshot is the rows in service\<close>

text \<open>A row counts when it is in service and its role is a device class.\<close>

definition registered :: "DeviceRow list \<Rightarrow> DeviceRow list" where
  "registered rows = filter (\<lambda>r. deviceClassOf (dw_role r) \<noteq> None) (activeDevices rows)"

lemma resolveRow_id:
  "resolveRow deps row cls = Inr (inst, profile) \<Longrightarrow> di_id inst = dr_slug row \<and> di_class inst = cls
    \<and> (rg_resolveCoded deps (dw_profileId row) = None \<longrightarrow> rg_resolveProfile deps (dw_profileId row) = Inr profile)
    \<and> (rg_resolveCoded deps (dw_profileId row) \<noteq> None \<longrightarrow> profile = None)"
  by (auto simp: resolveRow_def deviceInstance_def instanceFromProfile_def split: option.splits sum.splits)

definition driver_of :: "registry_deps \<Rightarrow> DeviceRow \<Rightarrow> InverterProfile option" where
  "driver_of deps r = (if rg_resolveCoded deps (dw_profileId r) \<noteq> None then None
     else case rg_resolveProfile deps (dw_profileId r) of Inr p \<Rightarrow> p | Inl _ \<Rightarrow> None)"

lemma build_rows_spec:
  assumes "build_rows deps rows built profiles bindings = Inr (built', profiles', bindings')"
    and "distinct (map dr_slug rows)" and "\<forall>r\<in>set rows. dr_slug r \<notin> fst ` set profiles"
  shows "(let ok = filter (\<lambda>r. deviceClassOf (dw_role r) \<noteq> None) rows
    in map (\<lambda>d. (di_id d, Some (di_class d))) built'
         = map (\<lambda>d. (di_id d, Some (di_class d))) built @ map (\<lambda>r. (dr_slug r, deviceClassOf (dw_role r))) ok
     \<and> bindings' = bindings @ map (\<lambda>r. \<lparr>pb_deviceId = dr_slug r, pb_profileId = dw_profileId r\<rparr>) ok
     \<and> (\<forall>r\<in>set ok. js_get profiles' (dr_slug r) = driver_of deps r)
     \<and> (\<forall>k. k \<notin> dr_slug ` set ok \<longrightarrow> js_get profiles' k = js_get profiles k))"
  using assms
proof (induction rows arbitrary: built profiles bindings)
  case (Cons row rows)
  show ?case
  proof (cases "deviceClassOf (dw_role row)")
    case None
    then show ?thesis using Cons by simp
  next
    case (Some cls)
    with Cons.prems(1) obtain inst profile where r: "resolveRow deps row cls = Inr (inst, profile)"
      and b: "build_rows deps rows (built @ [inst]) (case profile of Some p \<Rightarrow> js_set (dr_slug row) p profiles | None \<Rightarrow> profiles)
         (bindings @ [\<lparr>pb_deviceId = dr_slug row, pb_profileId = dw_profileId row\<rparr>]) = Inr (built', profiles', bindings')"
      by (auto split: sum.splits)
    let ?profiles = "case profile of Some p \<Rightarrow> js_set (dr_slug row) p profiles | None \<Rightarrow> profiles"
    note id = resolveRow_id [OF r]
    have driver: "driver_of deps row = profile" using id by (auto simp: driver_of_def)
    have new: "\<forall>r\<in>set rows. dr_slug r \<notin> fst ` set ?profiles"
    proof
      fix q assume q: "q \<in> set rows"
      have "dr_slug row \<notin> dr_slug ` set rows" using Cons.prems(2) by simp
      with q have "dr_slug q \<noteq> dr_slug row" by (metis imageI)
      moreover have "js_get profiles (dr_slug q) = None" using Cons.prems(3) q by (simp add: map_of_eq_None_iff)
      ultimately have "js_get ?profiles (dr_slug q) = None" by (auto split: option.split)
      then show "dr_slug q \<notin> fst ` set ?profiles" by (simp add: map_of_eq_None_iff)
    qed
    have own: "js_get ?profiles (dr_slug row) = profile"
      using Cons.prems(3) by (auto simp: map_of_eq_None_iff split: option.split)
    have other: "k \<noteq> dr_slug row \<Longrightarrow> js_get ?profiles k = js_get profiles k" for k by (auto split: option.split)
    have "dr_slug row \<notin> dr_slug ` set rows" using Cons.prems(2) by simp
    with Cons.IH [OF b _ new] Cons.prems(2) show ?thesis
      using Some id driver own other by (auto simp: Let_def image_iff)
  qed
qed simp

lemma get_last_set:
  "js_get (fold (\<lambda>d. js_set (key d) d) ds m) k =
     (if k \<in> key ` set ds then Some (last (filter (\<lambda>d. key d = k) ds)) else js_get m k)"
proof (induction ds arbitrary: m)
  case (Cons a ds)
  have "k \<in> key ` set ds \<longleftrightarrow> filter (\<lambda>d. key d = k) ds \<noteq> []" by (auto simp: filter_empty_conv)
  then show ?case by (auto simp: Cons.IH)
qed simp

text \<open>The registry mirrors the table: after a reload it has exactly the rows in service whose role is a
  device class, in their order and under their slugs, a row whose profile is not installed among them;
  each is found by its slug, speaks through the driver profile its row resolves to and no other, and a
  retired row is never registered. A read or a resolution that fails leaves the last snapshot.\<close>

theorem registry_mirrors_rows:
  assumes "registry_reload deps readDevices g = (res, g')" and "\<forall>rows. readDevices = Inr rows \<longrightarrow> distinct (map dr_slug rows)"
  shows "(case (readDevices, res) of
      (Inr rows, Inr found) \<Rightarrow> rg_instances g' = found
        \<and> map (\<lambda>d. (di_id d, Some (di_class d))) found = map (\<lambda>r. (dr_slug r, deviceClassOf (dw_role r))) (registered rows)
        \<and> (\<forall>r\<in>set (registered rows). (\<exists>d\<in>set found. registry_get g' (dr_slug r) = Some d \<and> di_id d = dr_slug r)
            \<and> driverProfile g' (dr_slug r) = driver_of deps r)
        \<and> (\<forall>r\<in>set rows. isRetired r \<longrightarrow> registry_get g' (dr_slug r) = None \<and> driverProfile g' (dr_slug r) = None)
    | _ \<Rightarrow> g' = g)"
proof (cases readDevices)
  case (Inl e)
  then show ?thesis using assms(1) by (simp add: registry_reload_def)
next
  case (Inr rows)
  then have d: "distinct (map dr_slug rows)" using assms(2) by simp
  show ?thesis
  proof (cases "build_rows deps (activeDevices rows) [] [] []")
    case (Inl e)
    then show ?thesis using assms(1) Inr by (auto simp: registry_reload_def)
  next
    case b: (Inr t)
    obtain built profiles bindings where t: "t = (built, profiles, bindings)" by (metis prod_cases3)
    have "distinct (map dr_slug (activeDevices rows))" using d by (simp add: activeDevices_def distinct_map_filter)
    from build_rows_spec [OF b [unfolded t] this]
    have spec: "map (\<lambda>d. (di_id d, Some (di_class d))) built = map (\<lambda>r. (dr_slug r, deviceClassOf (dw_role r))) (registered rows)"
      "\<And>r. r \<in> set (registered rows) \<Longrightarrow> js_get profiles (dr_slug r) = driver_of deps r"
      "\<And>k. k \<notin> dr_slug ` set (registered rows) \<Longrightarrow> js_get profiles k = None"
      by (simp_all add: Let_def registered_def)
    have g: "g' = \<lparr>rg_instances = built, rg_byId = fold (\<lambda>d. js_set (di_id d) d) built [], rg_profiles = profiles, rg_bindings = bindings\<rparr>"
      and res: "res = Inr built"
      using assms(1) Inr b t by (auto simp: registry_reload_def)
    have ids: "map di_id built = map dr_slug (registered rows)" using arg_cong [OF spec(1), of "map fst"] by (simp add: comp_def)
    have get: "registry_get g' k = (if k \<in> di_id ` set built then Some (last (filter (\<lambda>d. di_id d = k) built)) else None)" for k
      by (simp add: registry_get_def g get_last_set)
    have found: "\<exists>d\<in>set built. registry_get g' (dr_slug r) = Some d \<and> di_id d = dr_slug r" if "r \<in> set (registered rows)" for r
    proof -
      have k: "dr_slug r \<in> di_id ` set built" using that arg_cong [OF ids, of set] by simp
      then have "filter (\<lambda>d. di_id d = dr_slug r) built \<noteq> []" by (auto simp: filter_empty_conv)
      then have "last (filter (\<lambda>d. di_id d = dr_slug r) built) \<in> set (filter (\<lambda>d. di_id d = dr_slug r) built)" by (rule last_in_set)
      with k show ?thesis by (auto simp: get)
    qed
    have gone: "dr_slug r \<notin> dr_slug ` set (registered rows)" if "r \<in> set rows" "isRetired r" for r
      using that d by (auto simp: registered_def activeDevices_def distinct_map dest: inj_onD)
    have "registry_get g' (dr_slug r) = None \<and> driverProfile g' (dr_slug r) = None" if "r \<in> set rows" "isRetired r" for r
      using gone [OF that] spec(3) arg_cong [OF ids, of set] by (simp add: get) (simp add: driverProfile_def g)
    then show ?thesis using spec(1,2) found by (simp add: Inr res driverProfile_def g)
  qed
qed

definition two_rows :: "DeviceRow list" where
  "two_rows = [\<lparr>dr_slug = ''a'', dr_connectionId = None, dr_retiredAt = None, dw_name = ''A'', dw_role = ''inverter'', dw_profileId = ''p''\<rparr>,
     \<lparr>dr_slug = ''b'', dr_connectionId = None, dr_retiredAt = Some 5, dw_name = ''B'', dw_role = ''inverter'', dw_profileId = ''p''\<rparr>,
     \<lparr>dr_slug = ''c'', dr_connectionId = None, dr_retiredAt = None, dw_name = ''C'', dw_role = ''toaster'', dw_profileId = ''p''\<rparr>]"

lemma registry_mirrors_rows_witness:
  "\<exists>found g'. registry_reload \<lparr>rg_resolveProfile = (\<lambda>_. Inr None), rg_resolveCoded = (\<lambda>_. None)\<rparr> (Inr two_rows) createDeviceRegistry = (Inr found, g')
     \<and> map di_id found = [''a''] \<and> registry_get g' ''b'' = None"
proof -
  let ?deps = "\<lparr>rg_resolveProfile = (\<lambda>_. Inr None), rg_resolveCoded = (\<lambda>_. None)\<rparr> :: registry_deps"
  have "\<not> isl (fst (registry_reload ?deps (Inr two_rows) createDeviceRegistry))"
    by (simp add: registry_reload_def two_rows_def activeDevices_def isRetired_def deviceClassOf_def DEVICE_CLASSES_def resolveRow_def)
  then obtain found g' where r: "registry_reload ?deps (Inr two_rows) createDeviceRegistry = (Inr found, g')"
    by (metis isl_def prod.collapse sum.exhaust_sel)
  have "registered two_rows = [hd two_rows]"
    by (simp add: registered_def two_rows_def activeDevices_def isRetired_def deviceClassOf_def DEVICE_CLASSES_def)
  moreover have "\<forall>r\<in>set two_rows. dr_slug r = ''b'' \<longrightarrow> isRetired r" "hd (tl two_rows) \<in> set two_rows" "dr_slug (hd (tl two_rows)) = ''b''"
    by (simp_all add: two_rows_def isRetired_def)
  moreover have "distinct (map dr_slug two_rows)" by (simp add: two_rows_def)
  ultimately have "map (\<lambda>d. (di_id d, Some (di_class d))) found = map (\<lambda>r. (dr_slug r, deviceClassOf (dw_role r))) [hd two_rows]"
    and "registry_get g' ''b'' = None"
    using registry_mirrors_rows [OF r] by auto
  then show ?thesis using r by (intro exI [of _ found] exI [of _ g']) (auto simp: two_rows_def)
qed

end
