(* ===== verification/Poll_Runtime.thy ===== *)
theory Poll_Runtime
  imports Device_Registry
begin

text \<open>
  The poll loop of \<^verbatim>\<open>apps/server/src/inverter/runtime.ts\<close>: the ticks, one read at a time, what a good sample
  causes, the error policy, the recovery of an empty roster, and the rebuild of the source under a new
  endpoint; and the job scheduler beside it (\<^verbatim>\<open>job-scheduler.ts\<close>). Every \<open>await\<close> ends in an event of its
  own, so rebuilds, reloads and a poll may interleave in any order. A promise in flight has a number.
  The writer, the funnel's state injection, the bus and the bridge are effects, called in order; they are
  modelled in \<open>Device_Writer\<close> and \<open>Control_Writer\<close>. The memo of the load key is the key of the device.
\<close>

subsection \<open>The job scheduler\<close>

record ScheduledJob =
  sj_run :: nat
  sj_intervalMs :: millis
  sj_kickMs :: "millis option"

datatype timer_call = SetInterval nat nat millis | SetTimeout nat nat millis | ClearInterval nat | ClearTimeout nat

text \<open>The thunks of \<open>teardown\<close> are the calls they make; a handle is the number of its timer.\<close>

record scheduler =
  sc_teardown :: "timer_call list"
  sc_next :: nat

definition createJobScheduler :: scheduler where
  "createJobScheduler = \<lparr>sc_teardown = [], sc_next = 0\<rparr>"

definition arm_job :: "ScheduledJob \<Rightarrow> scheduler \<Rightarrow> scheduler \<times> timer_call list" where
  "arm_job job s =
     (let n = sc_next s;
          s1 = s\<lparr>sc_teardown := sc_teardown s @ [ClearInterval n], sc_next := n + 1\<rparr>
      in case sj_kickMs job of
           None \<Rightarrow> (s1, [SetInterval n (sj_run job) (sj_intervalMs job)])
         | Some ms \<Rightarrow> (s1\<lparr>sc_teardown := sc_teardown s1 @ [ClearTimeout (n + 1)], sc_next := n + 2\<rparr>,
             [SetInterval n (sj_run job) (sj_intervalMs job), SetTimeout (n + 1) (sj_run job) ms]))"

definition scheduler_start :: "ScheduledJob list \<Rightarrow> scheduler \<Rightarrow> scheduler \<times> timer_call list" where
  "scheduler_start jobs s =
     (if sc_teardown s \<noteq> [] then (s, []) else run_steps (\<lambda>s job. arm_job job s) s jobs)"

definition scheduler_stop :: "scheduler \<Rightarrow> scheduler \<times> timer_call list" where
  "scheduler_stop s = (s\<lparr>sc_teardown := []\<rparr>, sc_teardown s)"

subsection \<open>The runtime's state\<close>

definition POLL_ERROR_RELOG_MS :: millis where "POLL_ERROR_RELOG_MS = 300000"
definition ROSTER_RECOVERY_INTERVAL_MS :: millis where "ROSTER_RECOVERY_INTERVAL_MS = 30000"

record PollEndpoint =
  pe_host :: string
  pe_port :: int
  pe_transport :: string
  pe_loggerSerial :: "int option"
  pe_unitId :: int
  pe_timeoutMs :: millis
  pe_pollIntervalMs :: millis

record inverter_status =
  is_connected :: bool
  is_simulate :: bool
  is_lastError :: "string option"
  is_lastSampleAt :: "millis option"

text \<open>Where a poll stands, and where a rebuild does; the second has captured its previous source.\<close>

datatype poll_stage = Reading nat | Injecting InverterSample
datatype rebuild_stage = FlushingHistory | FlushingConfig | ReadingSimulate "nat option"

record runtime =
  rt_source :: "nat option"
  rt_pollTimer :: "nat option"
  rt_polling :: bool
  rt_connectable :: bool
  rt_lastPollError :: "string option"
  rt_lastPollErrorAt :: millis
  rt_missingDeviceWarned :: bool
  rt_lastRosterRecoveryAt :: millis
  rt_rosterRecovering :: bool
  rt_status :: inverter_status
  rt_devices :: "DeviceInstance list"
  rt_polls :: "(nat, poll_stage) js_map"
  rt_rebuilds :: "(nat, PollEndpoint \<times> rebuild_stage) js_map"
  rt_reloads :: "(nat, string list \<times> bool) js_map"
  rt_next :: nat

definition createRuntime :: "DeviceInstance list \<Rightarrow> runtime" where
  "createRuntime devices = \<lparr>rt_source = None, rt_pollTimer = None, rt_polling = False, rt_connectable = False,
     rt_lastPollError = None, rt_lastPollErrorAt = 0, rt_missingDeviceWarned = False, rt_lastRosterRecoveryAt = 0,
     rt_rosterRecovering = False,
     rt_status = \<lparr>is_connected = False, is_simulate = False, is_lastError = None, is_lastSampleAt = None\<rparr>,
     rt_devices = devices, rt_polls = [], rt_rebuilds = [], rt_reloads = [], rt_next = 0\<rparr>"

datatype runtime_effect = StartRead nat nat | InjectState InverterSample | SetLive InverterSample | LoadSample "number option"
  | Commit DeviceInstance InverterSample | ForgetDevice string | EmitMetrics InverterSample | PublishSample InverterSample
  | WarnMissingDevice | ReloadRoster nat | WarnReloadFailed string | LogPollError string millis
  | CloseIntervals | FlushHistory | FlushConfigLog | BuildSource nat PollEndpoint bool "string option" | CloseSource nat
  | WarnNoHost | ArmPoll nat millis | ClearPoll nat

datatype runtime_event = PollTick | ReadOk nat InverterSample | Injected nat InverterSample millis
  | PollFailed nat string millis
  | CallReload | ReloadSettled nat "string + DeviceInstance list"
  | CallRebuild PollEndpoint | HistoryFlushed nat | ConfigFlushed nat | SimulateRead nat bool "string option"
  | Shutdown

subsection \<open>A good sample\<close>

definition pollDevice :: "runtime \<Rightarrow> DeviceInstance option" where
  "pollDevice r = primary_of (rt_devices r)"

definition load_key :: "DeviceInstance \<Rightarrow> string option" where
  "load_key d = (case js_get (di_roles d) ''load.power'' of
     Some b \<Rightarrow> (case rb_metrics b of m # _ \<Rightarrow> Some (mkey m) | [] \<Rightarrow> None)
   | None \<Rightarrow> None)"

definition loadPowerOf :: "DeviceInstance \<Rightarrow> InverterSample \<Rightarrow> number option" where
  "loadPowerOf d sample = (case load_key d of
     None \<Rightarrow> None
   | Some k \<Rightarrow> if k = [] then None
       else (case js_get (iv_metrics sample) k of Some v \<Rightarrow> if is_finite v then Some v else None | None \<Rightarrow> None))"

definition start_reload :: "bool \<Rightarrow> runtime \<Rightarrow> runtime \<times> runtime_effect list" where
  "start_reload recovery r =
     (r\<lparr>rt_reloads := js_set (rt_next r) (map di_id (rt_devices r), recovery) (rt_reloads r), rt_next := rt_next r + 1\<rparr>,
      [ReloadRoster (rt_next r)])"

definition noDeviceForSample :: "millis \<Rightarrow> runtime \<Rightarrow> runtime \<times> runtime_effect list" where
  "noDeviceForSample now r =
     andThen (if rt_missingDeviceWarned r then (r, []) else (r\<lparr>rt_missingDeviceWarned := True\<rparr>, [WarnMissingDevice]))
       (\<lambda>r. if rt_rosterRecovering r \<or> now - rt_lastRosterRecoveryAt r < ROSTER_RECOVERY_INTERVAL_MS then (r, [])
         else start_reload True (r\<lparr>rt_lastRosterRecoveryAt := now, rt_rosterRecovering := True\<rparr>))"

definition fanOut :: "InverterSample \<Rightarrow> millis \<Rightarrow> runtime \<Rightarrow> runtime \<times> runtime_effect list" where
  "fanOut read now r = (case pollDevice r of
     Some d \<Rightarrow> (let sample = read\<lparr>iv_inverterId := di_id d\<rparr>
       in (r\<lparr>rt_missingDeviceWarned := False\<rparr>,
           [SetLive sample, LoadSample (loadPowerOf d sample), Commit d sample, EmitMetrics sample, PublishSample sample]))
   | None \<Rightarrow> andThen (r, [SetLive read, LoadSample None]) (\<lambda>r.
       andThen (noDeviceForSample now r) (\<lambda>r. (r, [EmitMetrics read, PublishSample read]))))"

subsection \<open>One poll\<close>

definition pollOnce :: "runtime \<Rightarrow> runtime \<times> runtime_effect list" where
  "pollOnce r = (case rt_source r of
     None \<Rightarrow> (r, [])
   | Some source \<Rightarrow>
       if rt_polling r \<or> \<not> rt_connectable r then (r, [])
       else (r\<lparr>rt_polling := True, rt_polls := js_set (rt_next r) (Reading source) (rt_polls r), rt_next := rt_next r + 1\<rparr>,
             [StartRead (rt_next r) source]))"

definition read_ok :: "nat \<Rightarrow> InverterSample \<Rightarrow> runtime \<Rightarrow> runtime \<times> runtime_effect list" where
  "read_ok i sample r = (case js_get (rt_polls r) i of
     Some (Reading _) \<Rightarrow>
       (r\<lparr>rt_status := (rt_status r)\<lparr>is_connected := True, is_lastError := None, is_lastSampleAt := Some (iv_time sample)\<rparr>,
          rt_lastPollError := None, rt_polls := js_set i (Injecting sample) (rt_polls r)\<rparr>, [InjectState sample])
   | _ \<Rightarrow> (r, []))"

definition poll_over :: "nat \<Rightarrow> runtime \<Rightarrow> runtime" where
  "poll_over i r = r\<lparr>rt_polling := False, rt_polls := js_delete i (rt_polls r)\<rparr>"

definition injected :: "nat \<Rightarrow> InverterSample \<Rightarrow> millis \<Rightarrow> runtime \<Rightarrow> runtime \<times> runtime_effect list" where
  "injected i sample now r = (case js_get (rt_polls r) i of
     Some (Injecting _) \<Rightarrow> andThen (fanOut sample now r) (\<lambda>r. (poll_over i r, []))
   | _ \<Rightarrow> (r, []))"

definition poll_failed :: "nat \<Rightarrow> string \<Rightarrow> millis \<Rightarrow> runtime \<Rightarrow> runtime \<times> runtime_effect list" where
  "poll_failed i message now r = (case js_get (rt_polls r) i of
     None \<Rightarrow> (r, [])
   | Some _ \<Rightarrow>
       (let r1 = r\<lparr>rt_status := (rt_status r)\<lparr>is_connected := False, is_lastError := Some message\<rparr>\<rparr>
        in if Some message \<noteq> rt_lastPollError r1 \<or> now - rt_lastPollErrorAt r1 \<ge> POLL_ERROR_RELOG_MS
           then (poll_over i (r1\<lparr>rt_lastPollError := Some message, rt_lastPollErrorAt := now\<rparr>), [LogPollError message now])
           else (poll_over i r1, [])))"

subsection \<open>The roster and the source\<close>

definition reload_settled :: "nat \<Rightarrow> string + DeviceInstance list \<Rightarrow> runtime \<Rightarrow> runtime \<times> runtime_effect list" where
  "reload_settled i res r = (case js_get (rt_reloads r) i of
     None \<Rightarrow> (r, [])
   | Some (before, recovery) \<Rightarrow>
       (let r1 = r\<lparr>rt_reloads := js_delete i (rt_reloads r), rt_rosterRecovering := (rt_rosterRecovering r \<and> \<not> recovery)\<rparr>
        in case res of
             Inl e \<Rightarrow> (r1, if recovery then [WarnReloadFailed e] else [])
           | Inr devices \<Rightarrow> (r1\<lparr>rt_devices := devices\<rparr>,
               map ForgetDevice (filter (\<lambda>k. k \<notin> di_id ` set devices) before))))"

definition restartLoop :: "millis \<Rightarrow> runtime \<Rightarrow> runtime \<times> runtime_effect list" where
  "restartLoop intervalMs r =
     (r\<lparr>rt_pollTimer := Some (rt_next r), rt_next := rt_next r + 1\<rparr>,
      (case rt_pollTimer r of Some t \<Rightarrow> [ClearPoll t] | None \<Rightarrow> []) @ [ArmPoll (rt_next r) intervalMs])"

text \<open>\<open>host.trim()\<close> is empty when every character is white space.\<close>

definition is_white :: "char \<Rightarrow> bool" where
  "is_white c \<longleftrightarrow> (let n = of_char c :: nat in (9 \<le> n \<and> n \<le> 13) \<or> n = 32 \<or> n = 160)"

definition call_rebuild :: "PollEndpoint \<Rightarrow> runtime \<Rightarrow> runtime \<times> runtime_effect list" where
  "call_rebuild endpoint r =
     (r\<lparr>rt_rebuilds := js_set (rt_next r) (endpoint, FlushingHistory) (rt_rebuilds r), rt_next := rt_next r + 1\<rparr>,
      [CloseIntervals, FlushHistory])"

definition history_flushed :: "nat \<Rightarrow> runtime \<Rightarrow> runtime \<times> runtime_effect list" where
  "history_flushed i r = (case js_get (rt_rebuilds r) i of
     Some (endpoint, FlushingHistory) \<Rightarrow> (r\<lparr>rt_rebuilds := js_set i (endpoint, FlushingConfig) (rt_rebuilds r)\<rparr>, [FlushConfigLog])
   | _ \<Rightarrow> (r, []))"

definition config_flushed :: "nat \<Rightarrow> runtime \<Rightarrow> runtime \<times> runtime_effect list" where
  "config_flushed i r = (case js_get (rt_rebuilds r) i of
     Some (endpoint, FlushingConfig) \<Rightarrow>
       (r\<lparr>rt_rebuilds := js_set i (endpoint, ReadingSimulate (rt_source r)) (rt_rebuilds r)\<rparr>, [])
   | _ \<Rightarrow> (r, []))"

definition simulate_read :: "nat \<Rightarrow> bool \<Rightarrow> string option \<Rightarrow> runtime \<Rightarrow> runtime \<times> runtime_effect list" where
  "simulate_read i simulate zone r = (case js_get (rt_rebuilds r) i of
     Some (endpoint, ReadingSimulate previous) \<Rightarrow>
       (let n = rt_next r;
            connectable = (simulate \<or> \<not> list_all is_white (pe_host endpoint));
            r1 = r\<lparr>rt_rebuilds := js_delete i (rt_rebuilds r), rt_source := Some n, rt_next := n + 1, rt_lastPollError := None,
              rt_connectable := connectable,
              rt_status := (rt_status r)\<lparr>is_simulate := simulate, is_connected := simulate,
                is_lastError := (if connectable then None else Some ''No inverter host configured'')\<rparr>\<rparr>
        in andThen (r1, BuildSource n endpoint simulate (if simulate then zone else None) # (if connectable then [] else [WarnNoHost]))
          (\<lambda>r. andThen (restartLoop (pe_pollIntervalMs endpoint) r)
            (\<lambda>r. (r, case previous of Some p \<Rightarrow> [CloseSource p] | None \<Rightarrow> []))))
   | _ \<Rightarrow> (r, []))"

text \<open>\<open>stop()\<close> after the automations have: the timer, the intervals, the buffers, the source.\<close>

definition shutdown :: "runtime \<Rightarrow> runtime \<times> runtime_effect list" where
  "shutdown r = (r\<lparr>rt_pollTimer := None\<rparr>,
     (case rt_pollTimer r of Some t \<Rightarrow> [ClearPoll t] | None \<Rightarrow> []) @ [CloseIntervals, FlushHistory, FlushConfigLog]
     @ (case rt_source r of Some s \<Rightarrow> [CloseSource s] | None \<Rightarrow> []))"

fun runtime_step :: "runtime \<Rightarrow> runtime_event \<Rightarrow> runtime \<times> runtime_effect list" where
  "runtime_step r PollTick = pollOnce r"
| "runtime_step r (ReadOk i sample) = read_ok i sample r"
| "runtime_step r (Injected i sample now) = injected i sample now r"
| "runtime_step r (PollFailed i message now) = poll_failed i message now r"
| "runtime_step r CallReload = start_reload False r"
| "runtime_step r (ReloadSettled i res) = reload_settled i res r"
| "runtime_step r (CallRebuild endpoint) = call_rebuild endpoint r"
| "runtime_step r (HistoryFlushed i) = history_flushed i r"
| "runtime_step r (ConfigFlushed i) = config_flushed i r"
| "runtime_step r (SimulateRead i simulate zone) = simulate_read i simulate zone r"
| "runtime_step r Shutdown = shutdown r"

subsection \<open>One poll, one timer, one recovery\<close>

text \<open>Histories of the runtime, restricted by what may happen in a state.\<close>

inductive runtime_run :: "(runtime \<Rightarrow> runtime_event \<Rightarrow> bool) \<Rightarrow> DeviceInstance list \<Rightarrow> runtime_event list
    \<Rightarrow> runtime \<Rightarrow> runtime_effect list \<Rightarrow> bool" for ok devices where
  boot: "runtime_run ok devices [] (createRuntime devices) []"
| step: "runtime_run ok devices evs r es \<Longrightarrow> ok r ev \<Longrightarrow> runtime_step r ev = (r', es') \<Longrightarrow>
    runtime_run ok devices (evs @ [ev]) r' (es @ es')"

lemmas runtime_defs = pollOnce_def read_ok_def poll_over_def injected_def poll_failed_def fanOut_def noDeviceForSample_def
  start_reload_def reload_settled_def call_rebuild_def history_flushed_def config_flushed_def simulate_read_def restartLoop_def shutdown_def

definition reads_started :: "runtime_effect list \<Rightarrow> nat" where
  "reads_started es = length (filter (\<lambda>e. case e of StartRead _ _ \<Rightarrow> True | _ \<Rightarrow> False) es)"

definition polls_ended :: "runtime_event list \<Rightarrow> nat" where
  "polls_ended evs = length (filter (\<lambda>e. case e of Injected _ _ _ \<Rightarrow> True | PollFailed _ _ _ \<Rightarrow> True | _ \<Rightarrow> False) evs)"

text \<open>What was opened by the effects and not closed since.\<close>

fun timer_effect :: "runtime_effect \<Rightarrow> nat list \<Rightarrow> nat list" where
  "timer_effect (ArmPoll t _) ts = ts @ [t]"
| "timer_effect (ClearPoll t) ts = removeAll t ts"
| "timer_effect _ ts = ts"

fun source_effect :: "runtime_effect \<Rightarrow> nat list \<Rightarrow> nat list" where
  "source_effect (BuildSource s _ _ _) ss = ss @ [s]"
| "source_effect (CloseSource s) ss = removeAll s ss"
| "source_effect _ ss = ss"

definition open_timers :: "runtime_effect list \<Rightarrow> nat list" where "open_timers es = fold timer_effect es []"
definition open_sources :: "runtime_effect list \<Rightarrow> nat list" where "open_sources es = fold source_effect es []"

definition opt_list :: "'a option \<Rightarrow> 'a list" where "opt_list x = (case x of Some y \<Rightarrow> [y] | None \<Rightarrow> [])"

lemma opt_list_simps [simp]: "opt_list None = []" "opt_list (Some x) = [x]" by (simp_all add: opt_list_def)

definition recoveries :: "runtime \<Rightarrow> nat" where
  "recoveries r = length (filter (\<lambda>e. snd (snd e)) (rt_reloads r))"

definition runtime_ok :: "runtime \<Rightarrow> bool" where
  "runtime_ok r \<longleftrightarrow> (if rt_polling r then length (rt_polls r) = 1 else rt_polls r = [])
     \<and> (\<forall>k\<in>fst ` set (rt_reloads r). k < rt_next r) \<and> distinct (map fst (rt_reloads r))
     \<and> recoveries r = (if rt_rosterRecovering r then 1 else 0)"

lemma js_delete_Cons: "js_delete k ((k', v) # m) = (if k = k' then js_delete k m else (k', v) # js_delete k m)"
  by (simp add: AList.delete_eq)

lemma js_delete_absent: "k \<notin> fst ` set m \<Longrightarrow> js_delete k m = m"
  by (induction m) (auto simp: js_delete_Cons AList.delete_eq)

lemma length_filter_delete:
  assumes "distinct (map fst m)" and "js_get m k = Some v"
  shows "length (filter P m) = length (filter P (js_delete k m)) + (if P (k, v) then 1 else 0)"
  using assms by (induction m) (auto simp: js_delete_Cons js_delete_absent split: if_splits)

lemma one_entry:
  assumes "length m = Suc 0" and "js_get m k \<noteq> None"
  shows "js_set k w m = [(k, w)]" and "js_delete k m = []"
  using assms by (cases m; auto simp: AList.delete_eq split: if_splits)+

lemma set_fresh: "\<forall>k\<in>fst ` set m. k < (n::nat) \<Longrightarrow> js_set n v m = m @ [(n, v)]"
  by (induction m) auto

text \<open>What does not touch the polls and the reloads keeps the invariant.\<close>

lemma runtime_ok_frame:
  assumes "runtime_ok r" and "rt_polling r' = rt_polling r" and "rt_polls r' = rt_polls r" and "rt_reloads r' = rt_reloads r"
    and "rt_rosterRecovering r' = rt_rosterRecovering r" and "rt_next r \<le> rt_next r'"
  shows "runtime_ok r'"
  using assms unfolding runtime_ok_def recoveries_def by force

lemma runtime_ok_reload:
  assumes "runtime_ok r" and "recovery \<longrightarrow> \<not> rt_rosterRecovering r"
  shows "runtime_ok (fst (start_reload recovery (r\<lparr>rt_lastRosterRecoveryAt := t, rt_rosterRecovering := rt_rosterRecovering r \<or> recovery\<rparr>)))"
  using assms by (auto simp: runtime_ok_def start_reload_def recoveries_def set_fresh less_Suc_eq)

lemma runtime_ok_no_device: "runtime_ok r \<Longrightarrow> runtime_ok (fst (noDeviceForSample now r))"
proof -
  assume ok: "runtime_ok r"
  let ?r = "r\<lparr>rt_missingDeviceWarned := True\<rparr>"
  have ok': "runtime_ok ?r" using ok by (rule runtime_ok_frame) simp_all
  show ?thesis
    using ok ok' runtime_ok_reload [OF ok, of True now] runtime_ok_reload [OF ok', of True now] by (auto simp: noDeviceForSample_def)
qed

lemma runtime_ok_fanOut: "runtime_ok r \<Longrightarrow> runtime_ok (fst (fanOut read now r))"
  by (auto simp: fanOut_def Let_def fst_andThen intro: runtime_ok_no_device elim: runtime_ok_frame split: option.split)

lemma fanOut_polls:
  "rt_polls (fst (fanOut read now r)) = rt_polls r" "rt_polling (fst (fanOut read now r)) = rt_polling r"
  by (auto simp: fanOut_def noDeviceForSample_def start_reload_def Let_def fst_andThen split: option.split)

lemma runtime_ok_over: "runtime_ok r \<Longrightarrow> js_get (rt_polls r) i = Some e \<Longrightarrow> runtime_ok (poll_over i r)"
  by (auto simp: runtime_ok_def poll_over_def recoveries_def one_entry split: if_splits)

lemma runtime_ok_read:
  assumes "runtime_ok r"
  shows "runtime_ok (fst (pollOnce r))" and "runtime_ok (fst (read_ok i sample r))"
  using assms by (auto simp: pollOnce_def read_ok_def runtime_ok_def recoveries_def less_Suc_eq one_entry
      split: option.split poll_stage.split if_splits)

lemma runtime_ok_ended:
  assumes ok: "runtime_ok r"
  shows "runtime_ok (fst (injected i sample now r))" and "runtime_ok (fst (poll_failed i message now r))"
proof -
  show "runtime_ok (fst (injected i sample now r))"
    using ok runtime_ok_over [OF runtime_ok_fanOut [OF ok]]
    by (auto simp: injected_def fst_andThen fanOut_polls split: option.split poll_stage.split)
  show "runtime_ok (fst (poll_failed i message now r))"
  proof (cases "js_get (rt_polls r) i")
    case (Some e)
    have "runtime_ok (r\<lparr>rt_status := st, rt_lastPollError := m, rt_lastPollErrorAt := t\<rparr>)" for st m t
      using ok by (rule runtime_ok_frame) simp_all
    moreover have "runtime_ok (r\<lparr>rt_status := st\<rparr>)" for st using ok by (rule runtime_ok_frame) simp_all
    ultimately show ?thesis using Some by (simp add: poll_failed_def Let_def runtime_ok_over)
  qed (use ok in \<open>simp add: poll_failed_def\<close>)
qed

lemma runtime_ok_rebuild:
  assumes "runtime_ok r"
  shows "runtime_ok (fst (call_rebuild e r))" and "runtime_ok (fst (history_flushed i r))" and "runtime_ok (fst (config_flushed i r))"
    and "runtime_ok (fst (simulate_read i b z r))" and "runtime_ok (fst (shutdown r))"
  using assms by (auto simp: call_rebuild_def history_flushed_def config_flushed_def simulate_read_def restartLoop_def shutdown_def Let_def fst_andThen
      elim!: runtime_ok_frame split: option.split rebuild_stage.split)

lemma runtime_ok_settled: "runtime_ok r \<Longrightarrow> runtime_ok (fst (reload_settled i res r))"
proof (cases "js_get (rt_reloads r) i")
  case (Some e)
  assume ok: "runtime_ok r"
  have "set (js_delete i (rt_reloads r)) \<subseteq> set (rt_reloads r)" by (auto simp: AList.delete_eq)
  moreover have "distinct (map fst (js_delete i (rt_reloads r)))" using ok by (simp add: runtime_ok_def js_delete_distinct)
  moreover have "recoveries r = (if rt_rosterRecovering r then 1 else 0)" using ok by (simp add: runtime_ok_def)
  moreover have "recoveries r = length (filter (\<lambda>e. snd (snd e)) (js_delete i (rt_reloads r))) + (if snd e then 1 else 0)"
    using length_filter_delete [of "rt_reloads r" i e "\<lambda>e. snd (snd e)"] ok Some by (simp add: runtime_ok_def recoveries_def)
  ultimately show ?thesis using ok Some
    by (cases e) (auto simp: runtime_ok_def reload_settled_def recoveries_def Let_def split: sum.split if_splits)
qed (simp add: reload_settled_def)

lemma runtime_ok_step: "runtime_ok r \<Longrightarrow> runtime_ok (fst (runtime_step r ev))"
proof (cases ev)
  case CallReload
  assume "runtime_ok r"
  from runtime_ok_reload [OF this, of False "rt_lastRosterRecoveryAt r"] CallReload show ?thesis by simp
qed (simp_all add: runtime_ok_read runtime_ok_ended runtime_ok_rebuild runtime_ok_settled)

text \<open>C37. Ticks never stack: whatever the sources, the database and the settings answer, and in whatever order,
  no read starts before the poll before it has ended, there is at most one poll in flight and one
  recovery of the roster, and exactly the timer the runtime holds is armed.\<close>

theorem one_poll_at_a_time:
  assumes "runtime_run (\<lambda>_ _. True) devices evs r es"
  shows "reads_started es \<le> polls_ended evs + 1 \<and> length (rt_polls r) = (if rt_polling r then 1 else 0)
    \<and> recoveries r \<le> 1 \<and> open_timers es = opt_list (rt_pollTimer r)"
proof -
  have "runtime_ok r" using assms
  proof induction
    case boot
    show ?case by (simp add: runtime_ok_def recoveries_def createRuntime_def)
  next
    case (step evs r es ev r' es')
    then show ?case using runtime_ok_step [of r ev] by simp
  qed
  moreover have "reads_started es + (if rt_polling r then 0 else 1) \<le> polls_ended evs + 1" using assms
  proof induction
    case boot
    show ?case by (simp add: reads_started_def polls_ended_def createRuntime_def)
  next
    case (step evs r es ev r' es')
    have "reads_started es' + (if rt_polling r' then 0 else 1) \<le> polls_ended [ev] + (if rt_polling r then 0 else 1)"
      using step.hyps(3) by (cases ev)
        (auto simp: runtime_defs Let_def reads_started_def polls_ended_def filter_empty_conv split: option.splits poll_stage.splits rebuild_stage.splits if_splits prod.splits sum.splits)
    then show ?case using step.IH by (simp add: reads_started_def polls_ended_def)
  qed
  moreover have "open_timers es = opt_list (rt_pollTimer r)" using assms
  proof induction
    case boot
    show ?case by (simp add: open_timers_def createRuntime_def)
  next
    case (step evs r es ev r' es')
    have forget: "fold timer_effect (map ForgetDevice ks) ts = ts" for ks ts by (induction ks) auto
    from step.hyps(3) have "fold timer_effect es' (opt_list (rt_pollTimer r)) = opt_list (rt_pollTimer r')"
      by (cases ev) (auto simp: runtime_defs Let_def forget split: option.splits poll_stage.splits rebuild_stage.splits if_splits prod.splits sum.splits)
    then show ?case using step.IH by (simp add: open_timers_def)
  qed
  ultimately show ?thesis by (auto simp: runtime_ok_def split: if_splits)
qed

subsection \<open>Rebuilds one after the other leave no source behind\<close>

text \<open>No rebuild is called while one is under way, and the process is not stopping.\<close>

definition serial :: "runtime \<Rightarrow> runtime_event \<Rightarrow> bool" where
  "serial r ev \<longleftrightarrow> ev \<noteq> Shutdown \<and> (\<forall>e. ev = CallRebuild e \<longrightarrow> rt_rebuilds r = [])"

definition sources_ok :: "runtime \<Rightarrow> bool" where
  "sources_ok r \<longleftrightarrow> (\<forall>s. rt_source r = Some s \<longrightarrow> s < rt_next r)
     \<and> (rt_rebuilds r = [] \<or> (\<exists>i e. rt_rebuilds r = [(i, e, FlushingHistory)] \<or> rt_rebuilds r = [(i, e, FlushingConfig)]
          \<or> rt_rebuilds r = [(i, e, ReadingSimulate (rt_source r))]))"

lemma source_forget: "fold source_effect (map ForgetDevice ks) ss = ss" by (induction ks) auto

lemma sources_simulate:
  assumes ok: "sources_ok r" and s: "simulate_read i simulate zone r = (r', es)"
  shows "sources_ok r' \<and> fold source_effect es (opt_list (rt_source r)) = opt_list (rt_source r')"
proof (cases "js_get (rt_rebuilds r) i")
  case (Some e)
  show ?thesis
  proof (cases "snd e")
    case (ReadingSimulate previous)
    with Some ok have one: "rt_rebuilds r = [(i, fst e, ReadingSimulate previous)]" and p: "rt_source r = previous"
      by (auto simp: sources_ok_def split: if_splits)
    with ok have "\<And>s. previous = Some s \<Longrightarrow> s < rt_next r" by (simp add: sources_ok_def p)
    with s one p ReadingSimulate Some show ?thesis
      by (cases e; cases previous; cases "rt_pollTimer r") (auto simp: simulate_read_def restartLoop_def sources_ok_def Let_def AList.delete_eq)
  qed (use ok s Some in \<open>cases e; simp add: simulate_read_def\<close>)+
qed (use ok s in \<open>simp add: simulate_read_def\<close>)

lemma sources_flush:
  assumes ok: "sources_ok r" and s: "history_flushed i r = (r', es) \<or> config_flushed i r = (r', es)"
  shows "sources_ok r' \<and> fold source_effect es (opt_list (rt_source r)) = opt_list (rt_source r')"
  using assms by (auto simp: sources_ok_def history_flushed_def config_flushed_def split: option.splits rebuild_stage.splits if_splits)

lemma sources_other:
  assumes ok: "sources_ok r" and s: "runtime_step r ev = (r', es)"
    and ev: "\<And>i. ev \<noteq> HistoryFlushed i" "\<And>i. ev \<noteq> ConfigFlushed i" "\<And>i b z. ev \<noteq> SimulateRead i b z"
      "\<And>e. ev \<noteq> CallRebuild e" "ev \<noteq> Shutdown"
  shows "sources_ok r' \<and> fold source_effect es (opt_list (rt_source r)) = opt_list (rt_source r')"
proof -
  have "rt_source r' = rt_source r \<and> rt_rebuilds r' = rt_rebuilds r \<and> rt_next r \<le> rt_next r' \<and> fold source_effect es (opt_list (rt_source r)) = opt_list (rt_source r)"
    using s ev by (cases ev) (auto simp: runtime_defs Let_def source_forget
        split: option.splits poll_stage.splits if_splits prod.splits sum.splits)
  with ok show ?thesis by (auto simp: sources_ok_def)
qed

lemma sources_step:
  assumes ok: "sources_ok r" and ser: "serial r ev" and s: "runtime_step r ev = (r', es)"
  shows "sources_ok r' \<and> fold source_effect es (opt_list (rt_source r)) = opt_list (rt_source r')"
proof (cases ev)
  case (CallRebuild e)
  with ok ser s show ?thesis by (auto simp: serial_def sources_ok_def call_rebuild_def)
next
  case (HistoryFlushed i)
  then show ?thesis using sources_flush [OF ok, of i r' es] s by simp
next
  case (ConfigFlushed i)
  then show ?thesis using sources_flush [OF ok, of i r' es] s by simp
next
  case (SimulateRead i b z)
  then show ?thesis using sources_simulate [OF ok] s by simp
next
  case Shutdown
  with ser show ?thesis by (simp add: serial_def)
qed (rule sources_other [OF ok s]; simp)+

text \<open>C38. A change of the endpoint leaves no connection behind: as long as no rebuild is called while another is
  under way, every source ever built but the one the runtime polls has been closed, whatever else
  happens while a rebuild waits.\<close>

theorem no_source_left_open:
  assumes "runtime_run serial devices evs r es"
  shows "open_sources es = opt_list (rt_source r)"
proof -
  have "sources_ok r \<and> open_sources es = opt_list (rt_source r)" using assms
  proof induction
    case boot
    show ?case by (simp add: sources_ok_def createRuntime_def open_sources_def)
  next
    case (step evs r es ev r' es')
    with sources_step [of r ev r' es'] show ?case by (simp add: open_sources_def)
  qed
  then show ?thesis by simp
qed

definition bench_endpoint :: "string \<Rightarrow> PollEndpoint" where
  "bench_endpoint host = \<lparr>pe_host = host, pe_port = 502, pe_transport = ''tcp'', pe_loggerSerial = None, pe_unitId = 1,
     pe_timeoutMs = 1000, pe_pollIntervalMs = 1000\<rparr>"

lemma run_of_steps:
  assumes "\<And>as a bs. evs = as @ a # bs \<Longrightarrow> ok (fst (run_steps runtime_step (createRuntime devices) as)) a"
  shows "runtime_run ok devices evs (fst (run_steps runtime_step (createRuntime devices) evs)) (snd (run_steps runtime_step (createRuntime devices) evs))"
  using assms
proof (induction evs rule: rev_induct)
  case Nil
  show ?case using runtime_run.boot by simp
next
  case (snoc ev evs)
  have "runtime_run ok devices evs (fst (run_steps runtime_step (createRuntime devices) evs)) (snd (run_steps runtime_step (createRuntime devices) evs))"
    by (rule snoc.IH) (use snoc.prems in simp)
  from runtime_run.step [OF this snoc.prems [of evs ev "[]", simplified] surjective_pairing]
  show ?case by (simp add: run_steps_append fst_andThen snd_andThen)
qed

definition rebuild_events :: "string \<Rightarrow> nat \<Rightarrow> runtime_event list" where
  "rebuild_events host i = [CallRebuild (bench_endpoint host), HistoryFlushed i, ConfigFlushed i, SimulateRead i False None]"

lemma one_poll_at_a_time_witness:
  "\<exists>r es. runtime_run (\<lambda>_ _. True) [] (rebuild_events ''h'' 0 @ [PollTick, PollTick]) r es \<and> rt_polling r \<and> length (rt_polls r) = 1"
proof -
  let ?evs = "rebuild_events ''h'' 0 @ [PollTick, PollTick]"
  let ?run = "run_steps runtime_step (createRuntime []) ?evs"
  have polling: "rt_polling (fst ?run)"
    by (simp add: rebuild_events_def bench_endpoint_def createRuntime_def runtime_defs Let_def is_white_def fst_andThen)
  have run: "runtime_run (\<lambda>_ _. True) [] ?evs (fst ?run) (snd ?run)" by (rule run_of_steps) simp
  from one_poll_at_a_time [OF run] polling have "length (rt_polls (fst ?run)) = 1" by simp
  with run polling show ?thesis by blast
qed

lemma no_source_left_open_witness:
  "\<exists>r es. runtime_run serial [] (rebuild_events ''h'' 0) r es \<and> open_sources es = [1]"
proof -
  let ?run = "run_steps runtime_step (createRuntime []) (rebuild_events ''h'' 0)"
  have "serial (fst (run_steps runtime_step (createRuntime []) as)) a" if "rebuild_events ''h'' 0 = as @ a # bs" for as a bs
    using that by (auto simp: serial_def rebuild_events_def createRuntime_def Cons_eq_append_conv)
  then have run: "runtime_run serial [] (rebuild_events ''h'' 0) (fst ?run) (snd ?run)" by (rule run_of_steps)
  have "rt_source (fst ?run) = Some 1"
    by (simp add: rebuild_events_def bench_endpoint_def createRuntime_def runtime_defs Let_def is_white_def fst_andThen)
  with no_source_left_open [OF run] run show ?thesis by auto
qed

text \<open>
  Two saves close together: both rebuilds capture the same previous source, so the source of the first
  is replaced by that of the second and never closed.
\<close>

lemma overlapping_rebuilds_leak:
  "open_sources (snd (run_steps runtime_step (createRuntime [])
     [CallRebuild (bench_endpoint ''a''), CallRebuild (bench_endpoint ''b''), HistoryFlushed 0, HistoryFlushed 1,
      ConfigFlushed 0, ConfigFlushed 1, SimulateRead 0 False None, SimulateRead 1 False None])) = [2, 4]"
  by code_simp

subsection \<open>An outage is logged sparsely\<close>

definition log_times :: "runtime_effect list \<Rightarrow> millis list" where
  "log_times es = List.map_filter (\<lambda>e. case e of LogPollError _ t \<Rightarrow> Some t | _ \<Rightarrow> None) es"

text \<open>An outage: no read succeeds, no source is built, every poll fails with the same message.\<close>

fun in_outage :: "string \<Rightarrow> runtime_event \<Rightarrow> bool" where
  "in_outage m (PollFailed _ message _) \<longleftrightarrow> message = m"
| "in_outage m (ReadOk _ _) \<longleftrightarrow> False"
| "in_outage m (SimulateRead _ _ _) \<longleftrightarrow> False"
| "in_outage m _ \<longleftrightarrow> True"

lemma log_times_append: "log_times (xs @ ys) = log_times xs @ log_times ys"
  by (induction xs) (auto simp: log_times_def map_filter_simps split: option.split)

lemma log_forget: "log_times (map ForgetDevice ks) = []" by (induction ks) (auto simp: log_times_def map_filter_simps)

lemma log_times_simps [simp]:
  "log_times [] = []"
  "log_times (e # es) = (case e of LogPollError _ t \<Rightarrow> [t] | _ \<Rightarrow> []) @ log_times es"
  by (cases e; simp add: log_times_def map_filter_simps)+

lemma outage_step:
  assumes "in_outage m ev" and "runtime_step r ev = (r', es)"
  shows "(log_times es = [] \<and> rt_lastPollErrorAt r' = rt_lastPollErrorAt r \<and> rt_lastPollError r' = rt_lastPollError r)
    \<or> (\<exists>t. log_times es = [t] \<and> rt_lastPollErrorAt r' = t \<and> rt_lastPollError r' = Some m
         \<and> (rt_lastPollError r = Some m \<longrightarrow> rt_lastPollErrorAt r + POLL_ERROR_RELOG_MS \<le> t))"
  using assms by (cases ev) (auto simp: runtime_defs Let_def log_forget log_times_append
      split: option.splits poll_stage.splits rebuild_stage.splits if_splits prod.splits sum.splits)

lemma outage_logs:
  assumes "list_all (in_outage m) evs"
  shows "sorted_wrt (\<lambda>a b. a + POLL_ERROR_RELOG_MS \<le> b) (log_times (snd (run_steps runtime_step r evs)))
    \<and> (rt_lastPollError r = Some m \<longrightarrow> (\<forall>t\<in>set (log_times (snd (run_steps runtime_step r evs))). rt_lastPollErrorAt r + POLL_ERROR_RELOG_MS \<le> t))"
  using assms
proof (induction evs arbitrary: r)
  case Nil
  show ?case by simp
next
  case (Cons ev evs)
  obtain r' es where s: "runtime_step r ev = (r', es)" by force
  from Cons.prems have "list_all (in_outage m) evs" by simp
  note IH = Cons.IH [OF this, of r']
  have run: "log_times (snd (run_steps runtime_step r (ev # evs))) = log_times es @ log_times (snd (run_steps runtime_step r' evs))"
    by (simp add: s snd_andThen log_times_append)
  have pos: "0 \<le> POLL_ERROR_RELOG_MS" by (simp add: POLL_ERROR_RELOG_MS_def)
  from outage_step [OF _ s, of m] Cons.prems show ?case unfolding run using IH pos by (auto simp: sorted_wrt_append)
qed

text \<open>C39. A dead inverter does not flood the log: while no read succeeds, no source is built and every poll fails
  with the same message, however often it is polled and whatever else happens (reloads, flushes, a shutdown), two
  log lines are at least five minutes apart, so in any window of time such an outage logs at most one line and one
  more for every five minutes of the window.\<close>

theorem outage_is_logged_sparsely:
  assumes "list_all (in_outage m) evs" and "logs = log_times (snd (run_steps runtime_step r evs))"
    and "\<forall>t\<in>set logs. from_ms \<le> t \<and> t \<le> to_ms"
  shows "sorted_wrt (\<lambda>a b. a + 300000 \<le> b) logs \<and> int (length logs) \<le> 1 + max 0 (to_ms - from_ms) div 300000"
proof -
  have sorted: "sorted_wrt (\<lambda>a b. a + 300000 \<le> b) logs"
    using outage_logs [OF assms(1)] by (simp add: assms(2) POLL_ERROR_RELOG_MS_def)
  have spread: "ts \<noteq> [] \<Longrightarrow> sorted_wrt (\<lambda>a b. a + 300000 \<le> b) ts \<Longrightarrow> hd ts + 300000 * (int (length ts) - 1) \<le> last ts" for ts :: "int list"
  proof (induction ts rule: rev_induct)
    case (snoc t ts)
    show ?case
    proof (cases "ts = []")
      case False
      then have "last ts + 300000 \<le> t" using snoc.prems last_in_set [of ts] by (auto simp: sorted_wrt_append)
      moreover have "hd ts + 300000 * (int (length ts) - 1) \<le> last ts" using False snoc by (simp add: sorted_wrt_append)
      ultimately show ?thesis using False by (simp add: algebra_simps)
    qed simp
  qed simp
  show ?thesis
  proof (cases "logs = []")
    case False
    then have "from_ms \<le> hd logs" and "last logs \<le> to_ms" using assms(3) by simp_all
    with spread [OF False sorted] have "300000 * (int (length logs) - 1) \<le> to_ms - from_ms" by linarith
    then have "300000 * (int (length logs) - 1) \<le> max 0 (to_ms - from_ms)" by simp
    from zdiv_mono1 [OF this, of 300000] have "int (length logs) - 1 \<le> max 0 (to_ms - from_ms) div 300000" by simp
    with sorted show ?thesis by simp
  qed (simp add: sorted)
qed

lemma outage_is_logged_sparsely_witness:
  "log_times (snd (run_steps runtime_step (fst (run_steps runtime_step (createRuntime []) (rebuild_events ''h'' 0)))
     [PollTick, PollFailed 3 ''timeout'' 400000, PollTick, PollFailed 4 ''timeout'' 401000])) = [400000]
   \<and> int (length [400000 :: int]) \<le> 1 + max 0 (401000 - 400000) div 300000"
proof -
  let ?r = "fst (run_steps runtime_step (createRuntime []) (rebuild_events ''h'' 0))"
  let ?logs = "log_times (snd (run_steps runtime_step ?r
     [PollTick, PollFailed 3 ''timeout'' 400000, PollTick, PollFailed 4 ''timeout'' 401000]))"
  have logs: "[400000] = ?logs" by code_simp
  have "list_all (in_outage ''timeout'') [PollTick, PollFailed 3 ''timeout'' 400000, PollTick, PollFailed 4 ''timeout'' 401000]" by simp
  from outage_is_logged_sparsely [OF this refl, of ?r 400000 401000] show ?thesis unfolding logs [symmetric] by simp
qed

text \<open>
  A read that succeeds forgets the last message before \<open>injectState\<close> has run: when that fails on every poll,
  every poll logs.
\<close>

lemma failing_injection_floods:
  "log_times (snd (run_steps runtime_step (fst (run_steps runtime_step (createRuntime []) (rebuild_events ''h'' 0)))
     [PollTick, ReadOk 3 \<lparr>iv_time = 0, iv_inverterId = ''p'', iv_metrics = []\<rparr>, PollFailed 3 ''locked'' 400000,
      PollTick, ReadOk 4 \<lparr>iv_time = 1, iv_inverterId = ''p'', iv_metrics = []\<rparr>, PollFailed 4 ''locked'' 401000])) = [400000, 401000]"
  by code_simp

end
