(* ===== verification/Statistics.thy ===== *)
theory Statistics
  imports Tariff_Cost "HOL-Library.Product_Lexorder"
begin

text \<open>
  The arithmetic of the statistics page (\<^verbatim>\<open>apps/server/src/statistics/statistics-calc.ts\<close>): the window to compare
  with, the heatmap of hours by weekdays and the records of days; and when the plant has paid for itself
  (\<^verbatim>\<open>amortisation-calc.ts\<close>). The rows come from \<open>Energy_Reader\<close> and the days from \<open>Cost_Engine\<close>; the
  weighting of the seasons (\<^verbatim>\<open>seasonal-weight.ts\<close>, the geometry of the sun) is an argument.
\<close>

subsection \<open>The window to compare with\<close>

datatype CompareMode = ComparePrevious | CompareYearAgo

text \<open>The inner option is the code's null; \<open>&&\<close> and \<open>||\<close> ask the calendar for the second edge only after the first.\<close>

definition isMidnight :: "zone_data \<Rightarrow> string \<Rightarrow> millis \<Rightarrow> bool option" where
  "isMidnight zone tz t = map_option (\<lambda>start. start = t) (dayStart zone tz t)"

definition previousCalendarStart :: "zone_data \<Rightarrow> string \<Rightarrow> millis \<Rightarrow> millis \<Rightarrow> millis option option" where
  "previousCalendarStart zone tz lo hi = (case isMidnight zone tz lo of
     None \<Rightarrow> None | Some False \<Rightarrow> Some None
   | Some True \<Rightarrow> (case isMidnight zone tz hi of
       None \<Rightarrow> None | Some False \<Rightarrow> Some None
     | Some True \<Rightarrow>
         (let f = calendarDate zone tz lo; t = calendarDate zone tz hi;
              days = math_round (of_int (date_utc (cd_year t) (cd_month t - 1) (cd_day t) 0 0 0
                - date_utc (cd_year f) (cd_month f - 1) (cd_day f) 0 0 0) / of_int DAY)
          in map_option Some (startOfDate zone tz (f\<lparr>cd_day := cd_day f - days\<rparr>)))))"

definition previousWindow :: "zone_data \<Rightarrow> string \<Rightarrow> millis \<Rightarrow> millis \<Rightarrow> CompareMode \<Rightarrow> (millis \<times> millis) option" where
  "previousWindow zone tz lo hi mode =
     (if mode = CompareYearAgo then shiftWindowYears zone tz (lo, hi) (- 1)
      else case previousCalendarStart zone tz lo hi of
        None \<Rightarrow> None
      | Some (Some calendar) \<Rightarrow> Some (calendar, lo)
      | Some None \<Rightarrow> Some (lo - (hi - lo), lo))"

subsection \<open>The heatmap\<close>

definition slotKey :: "int \<Rightarrow> int \<Rightarrow> string" where
  "slotKey hod dow = js_int_string dow @ '':'' @ js_int_string hod"

definition nextHourStart :: "millis \<Rightarrow> millis" where
  "nextHourStart d = hour_ceil d"

text \<open>The values of the loop variable of \<open>for (let t = \<dots>; t < end; t += HOUR_MS)\<close>.\<close>

function hour_steps :: "millis \<Rightarrow> millis \<Rightarrow> millis list" where
  "hour_steps t stop = (if t < stop then t # hour_steps (t + HOUR) stop else [])"
  by pat_completeness auto
termination by (relation "measure (\<lambda>(t, stop). nat (stop - t))") (auto simp: HOUR_def)

declare hour_steps.simps [simp del]

definition slot_of :: "zone_data \<Rightarrow> string \<Rightarrow> millis \<Rightarrow> string" where
  "slot_of zone tz t = slotKey (zp_hour (zoneParts zone tz t)) (isoWeekday zone tz t)"

definition hodDowOccurrences :: "zone_data \<Rightarrow> string \<Rightarrow> millis \<Rightarrow> millis \<Rightarrow> (string, int) js_map" where
  "hodDowOccurrences zone tz lo hi =
     group_fold (slot_of zone tz) (\<lambda>_. 0) (\<lambda>_ n. n + 1) (hour_steps (nextHourStart lo) hi) []"

definition ALL_ENERGY_FIELDS :: "EnergyField list" where
  "ALL_ENERGY_FIELDS = [FImport, FExport, FLoad, FProduction, FBatteryDischarge, FBatteryCharge]"

text \<open>The kWh of a cell are keyed by their field; the code's key is the field's name with a suffix.\<close>

record HeatmapCell =
  hc_hod :: int
  hc_dow :: int
  hc_occurrences :: int
  hc_kwh :: "(EnergyField, number) js_map"

definition emptyCell :: "int \<Rightarrow> int \<Rightarrow> int \<Rightarrow> EnergyField list \<Rightarrow> HeatmapCell" where
  "emptyCell hod dow occurrences wanted = \<lparr>hc_hod = hod, hc_dow = dow, hc_occurrences = occurrences,
     hc_kwh = fold (\<lambda>f. js_set f 0) wanted []\<rparr>"

definition cell_of_slot :: "EnergyField list \<Rightarrow> string \<Rightarrow> int \<Rightarrow> HeatmapCell" where
  "cell_of_slot wanted key n =
     (let sep = length (takeWhile (\<lambda>c. c \<noteq> CHR '':'') key)
      in emptyCell (js_number_of_digits (drop (sep + 1) key)) (js_number_of_digits (take sep key)) n wanted)"

definition heat_add :: "(string, EnergyField) js_map \<Rightarrow> CounterDeltaRow \<Rightarrow> (string, HeatmapCell) js_map \<Rightarrow> (string, HeatmapCell) js_map" where
  "heat_add fieldByKey r cells = (case js_get fieldByKey (cr_metric r) of
     None \<Rightarrow> cells
   | Some field \<Rightarrow> (let slot = slotKey (cr_hod r) (cr_dow r) in case js_get cells slot of
       None \<Rightarrow> cells
     | Some cell \<Rightarrow> js_set slot (cell\<lparr>hc_kwh := js_set field
         ((case js_get (hc_kwh cell) field of Some x \<Rightarrow> x | None \<Rightarrow> 0) + cr_kwh r) (hc_kwh cell)\<rparr>) cells))"

definition heatmapCells ::
  "CounterDeltaRow list \<Rightarrow> (string, EnergyField) js_map \<Rightarrow> EnergyField list \<Rightarrow> (string, int) js_map \<Rightarrow> HeatmapCell list" where
  "heatmapCells rows fieldByKey wanted occurrences =
     (let cells = fold (\<lambda>(key, n). js_set key (cell_of_slot wanted key n)) occurrences [];
          cells = fold (heat_add fieldByKey) rows cells
      in sort_key (\<lambda>c. (hc_dow c, hc_hod c)) (map snd cells))"

subsection \<open>The records\<close>

record DayRecord =
  dr_date :: string
  dr_value :: number

definition pickDay :: "DayRecord list \<Rightarrow> (number \<Rightarrow> number \<Rightarrow> bool) \<Rightarrow> DayRecord option" where
  "pickDay days better = fold (\<lambda>d best. case best of
       None \<Rightarrow> Some d
     | Some b \<Rightarrow> if better (dr_value d) (dr_value b) then Some d else best) days None"

definition maxDay :: "DayRecord list \<Rightarrow> DayRecord option" where
  "maxDay days = pickDay days (\<lambda>candidate best. candidate > best)"

definition minDay :: "DayRecord list \<Rightarrow> DayRecord option" where
  "minDay days = pickDay days (\<lambda>candidate best. candidate < best)"

definition SS_MIN_LOAD_KWH :: number where "SS_MIN_LOAD_KWH = 1"

definition positiveDays :: "PeriodEnergy list \<Rightarrow> (PeriodEnergy \<Rightarrow> number) \<Rightarrow> DayRecord list" where
  "positiveDays days value_of = concat (map (\<lambda>d. if value_of d > 0
     then [\<lparr>dr_date = pe_bucket d, dr_value = value_of d\<rparr>] else []) days)"

record EnergyRecords =
  er_maxProductionDay :: "DayRecord option"
  er_maxExportDay :: "DayRecord option"
  er_maxLoadDay :: "DayRecord option"
  er_maxImportDay :: "DayRecord option"
  er_bestSelfSufficiencyDay :: "DayRecord option"
  er_worstSelfSufficiencyDay :: "DayRecord option"

definition sufficiency_days :: "PeriodEnergy list \<Rightarrow> DayRecord list" where
  "sufficiency_days days = concat (map (\<lambda>d. case pe_selfSufficiency d of
       Some s \<Rightarrow> if et_loadKwh d \<ge> SS_MIN_LOAD_KWH then [\<lparr>dr_date = pe_bucket d, dr_value = s\<rparr>] else []
     | None \<Rightarrow> []) days)"

definition pickEnergyRecords :: "PeriodEnergy list \<Rightarrow> EnergyRecords" where
  "pickEnergyRecords days = (let ss = sufficiency_days days in
     \<lparr>er_maxProductionDay = maxDay (positiveDays days et_productionKwh),
      er_maxExportDay = maxDay (positiveDays days et_exportKwh),
      er_maxLoadDay = maxDay (positiveDays days et_loadKwh),
      er_maxImportDay = maxDay (positiveDays days et_importKwh),
      er_bestSelfSufficiencyDay = maxDay ss, er_worstSelfSufficiencyDay = minDay ss\<rparr>)"

record MoneyRecords =
  mr_cheapestDay :: "DayRecord option"
  mr_mostExpensiveDay :: "DayRecord option"
  mr_bestEarningsDay :: "DayRecord option"

definition pickMoneyRecords :: "CostSeriesPoint list \<Rightarrow> MoneyRecords" where
  "pickMoneyRecords points =
     (let nets = map (\<lambda>p. \<lparr>dr_date = cp_bucket p, dr_value = cp_net p\<rparr>) points;
          earnings = concat (map (\<lambda>p. if cp_exportEarnings p > 0
            then [\<lparr>dr_date = cp_bucket p, dr_value = cp_exportEarnings p\<rparr>] else []) points)
      in \<lparr>mr_cheapestDay = minDay nets, mr_mostExpensiveDay = maxDay nets, mr_bestEarningsDay = maxDay earnings\<rparr>)"

subsection \<open>Paying for itself\<close>

text \<open>
  A date that \<open>toISOString\<close> cannot name is a throw, \<open>Inl\<close>. \<open>new Date\<close> drops the fraction of a millisecond,
  towards zero, and has no time value beyond \<open>MAX_TIME\<close>.
\<close>

definition DAYS_PER_YEAR :: number where "DAYS_PER_YEAR = 1461 / 4"
definition MAX_TIME :: number where "MAX_TIME = 8640000000000000"

datatype amortisation_error = RangeErrorInvalidTime

definition date_of_number :: "number \<Rightarrow> amortisation_error + millis" where
  "date_of_number x = (if \<bar>x\<bar> > MAX_TIME then Inl RangeErrorInvalidTime
     else Inr (if x \<ge> 0 then \<lfloor>x\<rfloor> else \<lceil>x\<rceil>))"

record InvestmentConfig =
  ic_totalCost :: number
  ic_commissionedOn :: "string option"

datatype SeasonalGap = GapWeather | GapLocation | GapArrays
datatype Weighting = WeightCalendar | WeightSolar
datatype since_label = SinceDay string | SinceInstant millis

record flat_rates =
  ra_importPrice :: number
  ra_exportPrice :: number

record AmortisationInputs =
  ai_currency :: string
  ai_investment :: InvestmentConfig
  ai_lifetime :: EnergyTotals
  ai_metersLoad :: bool
  ai_rates :: flat_rates
  ai_recordedSince :: "millis option"
  ai_solarYears :: "number option"
  ai_seasonalGaps :: "SeasonalGap list"
  ai_now :: millis

record lifetime_energy =
  le_importKwh :: number
  le_exportKwh :: number
  le_productionKwh :: number
  le_loadKwh :: number
  le_selfConsumedKwh :: number

record recovery_part =
  rp_progress :: "number option"
  rp_remaining :: "number option"
  rp_paidOff :: bool

record payback_part =
  pp_paybackDate :: "millis option"
  pp_paybackYears :: "number option"

record AmortisationResponse =
  am_currency :: string
  am_configured :: bool
  am_investment :: InvestmentConfig
  am_since :: "since_label option"
  am_elapsedDays :: int
  am_lifetime :: lifetime_energy
  am_rates :: flat_rates
  am_importSavings :: number
  am_exportEarnings :: number
  am_savings :: number
  am_recovery :: recovery_part
  am_elapsedYears :: number
  am_weighting :: Weighting
  am_seasonalGaps :: "SeasonalGap list"
  am_annualRate :: "number option"
  am_payback :: payback_part

definition selfConsumedKwh :: "EnergyTotals \<Rightarrow> bool \<Rightarrow> number" where
  "selfConsumedKwh lifetime meters = max 0 (if meters then et_loadKwh lifetime - et_importKwh lifetime
     else et_productionKwh lifetime - et_exportKwh lifetime)"

text \<open>Midnight UTC of a day \<open>YYYY-MM-DD\<close>.\<close>

definition day_midnight :: "string \<Rightarrow> millis" where
  "day_midnight day = (month_start_day (js_number_of_digits (take 4 day)) (js_number_of_digits (take 2 (drop 5 day)) - 1)
     + (js_number_of_digits (take 2 (drop 8 day)) - 1)) * DAY"

definition daysBetween :: "millis \<Rightarrow> millis \<Rightarrow> int" where
  "daysBetween since now = max 0 ((now - since) div DAY)"

definition amortisationOrigin :: "InvestmentConfig \<Rightarrow> millis option \<Rightarrow> millis option \<times> since_label option" where
  "amortisationOrigin investment recordedSince = (case ic_commissionedOn investment of
     Some d \<Rightarrow> if d \<noteq> [] then (Some (day_midnight d), Some (SinceDay d)) else (recordedSince, map_option SinceInstant recordedSince)
   | None \<Rightarrow> (recordedSince, map_option SinceInstant recordedSince))"

definition payback :: "number \<Rightarrow> number option \<Rightarrow> number \<Rightarrow> bool \<Rightarrow> millis \<Rightarrow> amortisation_error + payback_part" where
  "payback totalCost annualRate elapsedYears paidOff now = (case annualRate of
     None \<Rightarrow> Inr \<lparr>pp_paybackDate = None, pp_paybackYears = None\<rparr>
   | Some rate \<Rightarrow>
       if totalCost \<le> 0 \<or> rate \<le> 0 then Inr \<lparr>pp_paybackDate = None, pp_paybackYears = None\<rparr>
       else (let totalYears = totalCost / rate
         in if paidOff then Inr \<lparr>pp_paybackDate = None, pp_paybackYears = Some totalYears\<rparr>
            else case date_of_number (of_int now + (totalYears - elapsedYears) * DAYS_PER_YEAR * of_int DAY) of
              Inl e \<Rightarrow> Inl e
            | Inr d \<Rightarrow> Inr \<lparr>pp_paybackDate = Some d, pp_paybackYears = Some totalYears\<rparr>))"

definition recovery :: "number \<Rightarrow> number \<Rightarrow> recovery_part" where
  "recovery totalCost savings =
     (if totalCost \<le> 0 then \<lparr>rp_progress = None, rp_remaining = None, rp_paidOff = False\<rparr>
      else \<lparr>rp_progress = Some (clamp01 (savings / totalCost)),
            rp_remaining = Some (min totalCost (max 0 (totalCost - savings))), rp_paidOff = (savings \<ge> totalCost)\<rparr>)"

definition amortisation :: "AmortisationInputs \<Rightarrow> amortisation_error + AmortisationResponse" where
  "amortisation input =
     (let investment = ai_investment input; lifetime = ai_lifetime input; rates = ai_rates input; now = ai_now input;
          selfConsumed = selfConsumedKwh lifetime (ai_metersLoad input);
          importSavings = selfConsumed * ra_importPrice rates;
          exportEarnings = et_exportKwh lifetime * ra_exportPrice rates;
          savings = importSavings + exportEarnings;
          origin = amortisationOrigin investment (ai_recordedSince input);
          elapsedDays = (case fst origin of Some t \<Rightarrow> daysBetween t now | None \<Rightarrow> 0);
          weighting = (if ai_solarYears input = None then WeightCalendar else WeightSolar);
          elapsedYears = (if elapsedDays = 0 then 0
            else case ai_solarYears input of Some y \<Rightarrow> y | None \<Rightarrow> of_int elapsedDays / DAYS_PER_YEAR);
          annualRate = (if elapsedYears > 0 then Some (savings / elapsedYears) else None);
          recovered = recovery (ic_totalCost investment) savings
      in case payback (ic_totalCost investment) annualRate elapsedYears (rp_paidOff recovered) now of
           Inl e \<Rightarrow> Inl e
         | Inr p \<Rightarrow> Inr
            \<lparr>am_currency = ai_currency input, am_configured = (ic_totalCost investment > 0), am_investment = investment,
             am_since = snd origin, am_elapsedDays = elapsedDays,
             am_lifetime = \<lparr>le_importKwh = et_importKwh lifetime, le_exportKwh = et_exportKwh lifetime,
               le_productionKwh = et_productionKwh lifetime, le_loadKwh = et_loadKwh lifetime, le_selfConsumedKwh = selfConsumed\<rparr>,
             am_rates = rates, am_importSavings = importSavings, am_exportEarnings = exportEarnings, am_savings = savings,
             am_recovery = recovered, am_elapsedYears = elapsedYears, am_weighting = weighting,
             am_seasonalGaps = (if weighting = WeightSolar then [] else ai_seasonalGaps input),
             am_annualRate = annualRate, am_payback = p\<rparr>)"

subsection \<open>The records are the extreme days\<close>

text \<open>The earliest day with the extreme value.\<close>

definition first_extreme :: "(number set \<Rightarrow> number) \<Rightarrow> DayRecord list \<Rightarrow> DayRecord option" where
  "first_extreme extreme days =
     (if days = [] then None else find (\<lambda>d. dr_value d = extreme (dr_value ` set days)) days)"

lemma find_append: "find P (xs @ ys) = (case find P xs of None \<Rightarrow> find P ys | Some x \<Rightarrow> Some x)"
  by (induction xs) auto

lemma find_Some_in: "find P xs = Some x \<Longrightarrow> x \<in> set xs \<and> P x"
  by (induction xs) (auto split: if_splits)

lemma maxDay_first: "maxDay days = first_extreme Max days"
proof (induction days rule: rev_induct)
  case (snoc d ds)
  show ?case
  proof (cases "ds = []")
    case False
    let ?m = "Max (dr_value ` set ds)"
    have le: "v \<in> dr_value ` set ds \<Longrightarrow> v \<le> ?m" for v by simp
    have "?m \<in> dr_value ` set ds" using False by (intro Max_in) auto
    then have "find (\<lambda>d. dr_value d = ?m) ds \<noteq> None" by (auto simp: find_None_iff)
    then obtain b where b: "find (\<lambda>d. dr_value d = ?m) ds = Some b" by auto
    then have vb: "dr_value b = ?m" using find_Some_in [OF b] by simp
    have max: "Max (dr_value ` set (ds @ [d])) = max (dr_value d) ?m" using False by simp
    have step: "maxDay (ds @ [d]) = (if dr_value d > ?m then Some d else Some b)"
      using snoc b vb False by (simp add: maxDay_def pickDay_def first_extreme_def)
    show ?thesis
    proof (cases "dr_value d > ?m")
      case True
      have "dr_value x < dr_value d" if "x \<in> set ds" for x
        using le_less_trans [OF le [OF imageI [OF that]] True] .
      then have none: "find (\<lambda>x. dr_value x = dr_value d) ds = None" by (force simp: find_None_iff)
      have "Max (dr_value ` set (ds @ [d])) = dr_value d" unfolding max using True by (simp add: max_def)
      then show ?thesis unfolding step first_extreme_def using True none by (simp add: find_append)
    next
      case le: False
      have "Max (dr_value ` set (ds @ [d])) = ?m" unfolding max using le by (simp add: max_def)
      then show ?thesis unfolding step first_extreme_def using le b by (simp add: find_append)
    qed
  qed (simp add: maxDay_def pickDay_def first_extreme_def)
qed (simp add: maxDay_def pickDay_def first_extreme_def)

lemma minDay_first: "minDay days = first_extreme Min days"
proof (induction days rule: rev_induct)
  case (snoc d ds)
  show ?case
  proof (cases "ds = []")
    case False
    let ?m = "Min (dr_value ` set ds)"
    have ge: "v \<in> dr_value ` set ds \<Longrightarrow> ?m \<le> v" for v by simp
    have "?m \<in> dr_value ` set ds" using False by (intro Min_in) auto
    then have "find (\<lambda>d. dr_value d = ?m) ds \<noteq> None" by (auto simp: find_None_iff)
    then obtain b where b: "find (\<lambda>d. dr_value d = ?m) ds = Some b" by auto
    then have vb: "dr_value b = ?m" using find_Some_in [OF b] by simp
    have min: "Min (dr_value ` set (ds @ [d])) = min (dr_value d) ?m" using False by simp
    have step: "minDay (ds @ [d]) = (if dr_value d < ?m then Some d else Some b)"
      using snoc b vb False by (simp add: minDay_def pickDay_def first_extreme_def)
    show ?thesis
    proof (cases "dr_value d < ?m")
      case True
      have "dr_value d < dr_value x" if "x \<in> set ds" for x
        using less_le_trans [OF True ge [OF imageI [OF that]]] .
      then have none: "find (\<lambda>x. dr_value x = dr_value d) ds = None" by (force simp: find_None_iff)
      have "Min (dr_value ` set (ds @ [d])) = dr_value d" unfolding min using True by (simp add: min_def)
      then show ?thesis unfolding step first_extreme_def using True none by (simp add: find_append)
    next
      case ge: False
      have "Min (dr_value ` set (ds @ [d])) = ?m" unfolding min using ge by (simp add: min_def)
      then show ?thesis unfolding step first_extreme_def using ge b by (simp add: find_append)
    qed
  qed (simp add: minDay_def pickDay_def first_extreme_def)
qed (simp add: minDay_def pickDay_def first_extreme_def)

text \<open>Every record is the earliest of the days with the extreme value: among the days with a positive figure
  for the largest production, export, load and import and for the best earnings; among the days with a kWh of load or more
  for the self-sufficiencies; among all days for the cheapest and the dearest. Where no day counts there is no record.\<close>

theorem records_are_first_extremes:
  "pickEnergyRecords days =
     \<lparr>er_maxProductionDay = first_extreme Max (positiveDays days et_productionKwh),
      er_maxExportDay = first_extreme Max (positiveDays days et_exportKwh),
      er_maxLoadDay = first_extreme Max (positiveDays days et_loadKwh),
      er_maxImportDay = first_extreme Max (positiveDays days et_importKwh),
      er_bestSelfSufficiencyDay = first_extreme Max [\<lparr>dr_date = pe_bucket d, dr_value = the (pe_selfSufficiency d)\<rparr>.
        d \<leftarrow> days, pe_selfSufficiency d \<noteq> None \<and> 1 \<le> et_loadKwh d],
      er_worstSelfSufficiencyDay = first_extreme Min [\<lparr>dr_date = pe_bucket d, dr_value = the (pe_selfSufficiency d)\<rparr>.
        d \<leftarrow> days, pe_selfSufficiency d \<noteq> None \<and> 1 \<le> et_loadKwh d]\<rparr>
   \<and> pickMoneyRecords points =
     \<lparr>mr_cheapestDay = first_extreme Min [\<lparr>dr_date = cp_bucket p, dr_value = cp_net p\<rparr>. p \<leftarrow> points],
      mr_mostExpensiveDay = first_extreme Max [\<lparr>dr_date = cp_bucket p, dr_value = cp_net p\<rparr>. p \<leftarrow> points],
      mr_bestEarningsDay = first_extreme Max [\<lparr>dr_date = cp_bucket p, dr_value = cp_exportEarnings p\<rparr>. p \<leftarrow> points, 0 < cp_exportEarnings p]\<rparr>"
proof -
  have "sufficiency_days days = [\<lparr>dr_date = pe_bucket d, dr_value = the (pe_selfSufficiency d)\<rparr>.
      d \<leftarrow> days, pe_selfSufficiency d \<noteq> None \<and> 1 \<le> et_loadKwh d]"
    unfolding sufficiency_days_def SS_MIN_LOAD_KWH_def by (rule arg_cong [where f = concat], rule map_cong) (auto split: option.split)
  then show ?thesis by (simp add: pickEnergyRecords_def pickMoneyRecords_def Let_def maxDay_first minDay_first)
qed

subsection \<open>The heatmap is a table of the hours\<close>

lemma digit_char_ne: "d < 10 \<Longrightarrow> digit_char d \<noteq> CHR '':'' \<and> digit_char d \<noteq> CHR ''-''"
  using char_digit_digit_char [of d] by (auto simp: char_digit_def)

lemma dec_chars: "c \<in> set (dec n) \<Longrightarrow> c \<noteq> CHR '':'' \<and> c \<noteq> CHR ''-''"
proof (induction n rule: dec.induct)
  case (1 n)
  show ?case
  proof (cases "n < 10")
    case True
    then show ?thesis using 1(2) digit_char_ne by (simp add: dec.simps [of n])
  next
    case False
    then have "c \<in> set (dec (n div 10)) \<or> c = digit_char (n mod 10)" using 1(2) by (auto simp: dec.simps [of n])
    then show ?thesis using 1(1) [OF False] digit_char_ne [of "n mod 10"] by auto
  qed
qed

lemma number_of_int_string: "0 \<le> n \<Longrightarrow> js_number_of_digits (js_int_string n) = n"
  by (simp add: js_int_string_def number_of_dec)

lemma int_string_colon: "c \<in> set (js_int_string n) \<Longrightarrow> c \<noteq> CHR '':''"
  by (auto simp: js_int_string_def dest: dec_chars split: if_splits)

lemma slot_prefix: "takeWhile (\<lambda>c. c \<noteq> CHR '':'') (slotKey hod dow) = js_int_string dow"
  unfolding slotKey_def by (subst takeWhile_append2) (auto dest: int_string_colon)

lemma int_string_inj: "js_int_string a = js_int_string b \<longleftrightarrow> a = b"
proof
  assume eq: "js_int_string a = js_int_string b"
  have minus: "dec n \<noteq> CHR ''-'' # s" for n s using dec_chars [of "CHR ''-''" n] by (metis list.set_intros(1))
  consider "a < 0" "b < 0" | "a < 0" "0 \<le> b" | "0 \<le> a" "b < 0" | "0 \<le> a" "0 \<le> b" by linarith
  then show "a = b"
  proof cases
    case 1
    with eq have "dec (nat (- a)) = dec (nat (- b))" unfolding js_int_string_def by simp
    then have "int (nat (- a)) = int (nat (- b))" by (metis number_of_dec)
    with 1 show ?thesis by simp
  next
    case 2
    then show ?thesis using eq minus [of "nat b" "dec (nat (- a))"] by (simp add: js_int_string_def)
  next
    case 3
    then show ?thesis using eq minus [of "nat a" "dec (nat (- b))"] by (simp add: js_int_string_def)
  next
    case 4
    then show ?thesis using eq number_of_int_string by metis
  qed
qed simp

lemma slotKey_inj: "slotKey h d = slotKey h' d' \<longleftrightarrow> h = h' \<and> d = d'"
proof
  assume eq: "slotKey h d = slotKey h' d'"
  then have d: "d = d'" using slot_prefix [of h d] slot_prefix [of h' d'] int_string_inj by simp
  with eq show "h = h' \<and> d = d'" by (simp add: slotKey_def int_string_inj)
qed simp

lemma cell_of_slot_slotKey: "0 \<le> h \<Longrightarrow> 0 \<le> d \<Longrightarrow> cell_of_slot wanted (slotKey h d) n = emptyCell h d n wanted"
proof -
  assume "0 \<le> h" "0 \<le> d"
  moreover have "take (length (js_int_string d)) (slotKey h d) = js_int_string d"
    and "drop (length (js_int_string d) + 1) (slotKey h d) = js_int_string h" by (simp_all add: slotKey_def)
  ultimately show ?thesis by (simp add: cell_of_slot_def Let_def slot_prefix number_of_int_string)
qed

lemma slot_ranges: "0 \<le> zp_hour (zoneParts zone tz t)" "zp_hour (zoneParts zone tz t) < 24"
    "1 \<le> isoWeekday zone tz t" "isoWeekday zone tz t \<le> 7"
  by (auto simp: zoneParts_def isoWeekday_def Let_def)

text \<open>The hours of a window whose wall clock is in a slot, and what the table has for the slot.\<close>

definition hours_in_slot :: "zone_data \<Rightarrow> string \<Rightarrow> millis \<Rightarrow> millis \<Rightarrow> int \<Rightarrow> int \<Rightarrow> millis list" where
  "hours_in_slot zone tz lo hi hod dow = filter (\<lambda>t. zp_hour (zoneParts zone tz t) = hod \<and> isoWeekday zone tz t = dow)
     (hour_steps (nextHourStart lo) hi)"

definition slot_energy :: "CounterDeltaRow list \<Rightarrow> (string, EnergyField) js_map \<Rightarrow> int \<Rightarrow> int \<Rightarrow> EnergyField \<Rightarrow> number" where
  "slot_energy rows fieldByKey hod dow f = sum_list (map cr_kwh (filter
     (\<lambda>r. cr_hod r = hod \<and> cr_dow r = dow \<and> js_get fieldByKey (cr_metric r) = Some f) rows))"

definition table_cell :: "CounterDeltaRow list \<Rightarrow> (string, EnergyField) js_map \<Rightarrow> int \<Rightarrow> int \<Rightarrow> int \<Rightarrow> HeatmapCell" where
  "table_cell rows fieldByKey hod dow n = \<lparr>hc_hod = hod, hc_dow = dow, hc_occurrences = n,
     hc_kwh = map (\<lambda>f. (f, slot_energy rows fieldByKey hod dow f)) ALL_ENERGY_FIELDS\<rparr>"

lemma occurrences_get: "js_get (hodDowOccurrences zone tz lo hi) (slotKey hod dow) =
    (if hours_in_slot zone tz lo hi hod dow = [] then None else Some (int (length (hours_in_slot zone tz lo hi hod dow))))"
proof -
  have counted: "fold (\<lambda>_ n. n + 1) xs m = m + int (length xs)" for xs :: "millis list" and m by (induction xs arbitrary: m) auto
  have f: "filter (\<lambda>t. slot_of zone tz t = slotKey hod dow) xs
      = filter (\<lambda>t. zp_hour (zoneParts zone tz t) = hod \<and> isoWeekday zone tz t = dow) xs" for xs
    by (simp add: slot_of_def slotKey_inj)
  have "slotKey hod dow \<in> slot_of zone tz ` set xs \<longleftrightarrow> filter (\<lambda>t. slot_of zone tz t = slotKey hod dow) xs \<noteq> []" for xs
    unfolding filter_empty_conv by (metis (mono_tags) imageE image_eqI)
  then show ?thesis by (simp add: hodDowOccurrences_def js_get_group_fold counted f hours_in_slot_def)
qed

lemma occurrences_keys:
  "k \<in> fst ` set (hodDowOccurrences zone tz lo hi) \<longleftrightarrow>
     (\<exists>hod dow. k = slotKey hod dow \<and> 0 \<le> hod \<and> hod < 24 \<and> 1 \<le> dow \<and> dow \<le> 7 \<and> hours_in_slot zone tz lo hi hod dow \<noteq> [])"
  (is "?l \<longleftrightarrow> ?r")
proof
  assume ?l
  then obtain t where "t \<in> set (hour_steps (nextHourStart lo) hi)" "k = slot_of zone tz t"
    by (auto simp: hodDowOccurrences_def keys_group_fold)
  then show ?r using slot_ranges [of zone tz t]
    by (intro exI [of _ "zp_hour (zoneParts zone tz t)"] exI [of _ "isoWeekday zone tz t"])
      (auto simp: slot_of_def hours_in_slot_def filter_empty_conv)
next
  assume ?r
  then obtain hod dow where "k = slotKey hod dow" "hours_in_slot zone tz lo hi hod dow \<noteq> []" by blast
  then have "js_get (hodDowOccurrences zone tz lo hi) k \<noteq> None" by (simp add: occurrences_get)
  then show ?l by (simp add: map_of_eq_None_iff)
qed

lemma js_set_map:
  assumes "distinct (map fst occ)" and "js_get occ k = Some n"
  shows "js_set k v (map (\<lambda>(k, n). (k, F k n)) occ) = map (\<lambda>(k', n). (k', if k' = k then v else F k' n)) occ"
  using assms
proof (induction occ)
  case (Cons e occ)
  obtain k' n' where e: "e = (k', n')" by force
  show ?case
  proof (cases "k' = k")
    case True
    with Cons.prems(1) e have "\<forall>x\<in>set occ. fst x \<noteq> k" by force
    then have "map (\<lambda>(k', n). (k', if k' = k then v else F k' n)) occ = map (\<lambda>(k, n). (k, F k n)) occ" by auto
    with True e show ?thesis by simp
  next
    case False
    with Cons e show ?thesis by simp
  qed
qed simp

lemma js_get_map: "js_get (map (\<lambda>(k, n). (k, F k n)) occ) k = map_option (F k) (js_get occ k)"
  by (induction occ) auto

lemma js_set_all_new:
  "distinct (map fst occ) \<Longrightarrow> fst ` set occ \<inter> fst ` set m = {} \<Longrightarrow>
     fold (\<lambda>(key, n). js_set key (F key n)) occ m = m @ map (\<lambda>(k, n). (k, F k n)) occ"
proof (induction occ arbitrary: m)
  case (Cons e occ)
  obtain k n where e: "e = (k, n)" by force
  have "js_set k v m = m @ [(k, v)]" if "k \<notin> fst ` set m" for v using that by (induction m) auto
  then have "js_set k (F k n) m = m @ [(k, F k n)]" using Cons.prems e by auto
  with Cons e show ?case by auto
qed simp

definition key_energy :: "CounterDeltaRow list \<Rightarrow> (string, EnergyField) js_map \<Rightarrow> string \<Rightarrow> EnergyField \<Rightarrow> number" where
  "key_energy rows fieldByKey k f = sum_list (map cr_kwh (filter
     (\<lambda>r. slotKey (cr_hod r) (cr_dow r) = k \<and> js_get fieldByKey (cr_metric r) = Some f) rows))"

definition key_cell :: "CounterDeltaRow list \<Rightarrow> (string, EnergyField) js_map \<Rightarrow> string \<Rightarrow> int \<Rightarrow> HeatmapCell" where
  "key_cell rows fieldByKey k n = (cell_of_slot ALL_ENERGY_FIELDS k n)\<lparr>hc_kwh :=
     map (\<lambda>f. (f, key_energy rows fieldByKey k f)) ALL_ENERGY_FIELDS\<rparr>"

lemma key_energy_snoc: "key_energy (rows @ [r]) fieldByKey k f = key_energy rows fieldByKey k f
    + (if slotKey (cr_hod r) (cr_dow r) = k \<and> js_get fieldByKey (cr_metric r) = Some f then cr_kwh r else 0)"
  by (simp add: key_energy_def)

lemma js_set_field: "js_set f x (map (\<lambda>f. (f, e f)) ALL_ENERGY_FIELDS) = map (\<lambda>g. (g, if g = f then x else e g)) ALL_ENERGY_FIELDS"
  by (cases f) (simp_all add: ALL_ENERGY_FIELDS_def)

lemma js_get_field: "js_get (map (\<lambda>f. (f, e f)) ALL_ENERGY_FIELDS) f = Some (e f)"
  by (cases f) (simp_all add: ALL_ENERGY_FIELDS_def)

lemma heat_cells:
  assumes "distinct (map fst occ)"
  shows "fold (heat_add fieldByKey) rows (map (\<lambda>(k, n). (k, cell_of_slot ALL_ENERGY_FIELDS k n)) occ)
    = map (\<lambda>(k, n). (k, key_cell rows fieldByKey k n)) occ"
proof (induction rows rule: rev_induct)
  case Nil
  have "key_cell [] fieldByKey k n = cell_of_slot ALL_ENERGY_FIELDS k n" for k n
    by (simp add: key_cell_def key_energy_def cell_of_slot_def emptyCell_def Let_def ALL_ENERGY_FIELDS_def)
  then show ?case by simp
next
  case (snoc r rows)
  let ?k = "slotKey (cr_hod r) (cr_dow r)"
  let ?m = "map (\<lambda>(k, n). (k, key_cell rows fieldByKey k n)) occ"
  have run: "fold (heat_add fieldByKey) (rows @ [r]) (map (\<lambda>(k, n). (k, cell_of_slot ALL_ENERGY_FIELDS k n)) occ) = heat_add fieldByKey r ?m"
    using snoc by simp
  show ?case
  proof (cases "js_get fieldByKey (cr_metric r)")
    case None
    then have "key_cell (rows @ [r]) fieldByKey k n = key_cell rows fieldByKey k n" for k n
      by (simp add: key_cell_def key_energy_snoc)
    then show ?thesis unfolding run by (simp add: heat_add_def None)
  next
    case (Some field)
    have new: "key_cell (rows @ [r]) fieldByKey k n = (if k = ?k then (key_cell rows fieldByKey k n)\<lparr>hc_kwh := js_set field
        (key_energy rows fieldByKey k field + cr_kwh r) (hc_kwh (key_cell rows fieldByKey k n))\<rparr> else key_cell rows fieldByKey k n)" for k n
      by (auto simp: key_cell_def key_energy_snoc js_set_field Some)
    show ?thesis
    proof (cases "js_get occ ?k")
      case None
      then have "k \<noteq> ?k" if "(k, n) \<in> set occ" for k n using that by (force simp: map_of_eq_None_iff)
      then have "map (\<lambda>(k, n). (k, key_cell (rows @ [r]) fieldByKey k n)) occ = ?m" unfolding new by force
      then show ?thesis unfolding run by (simp add: heat_add_def Some js_get_map None)
    next
      case occ: (Some n)
      let ?c = "key_cell rows fieldByKey ?k n"
      have "js_get (hc_kwh ?c) field = Some (key_energy rows fieldByKey ?k field)" by (simp add: key_cell_def js_get_field)
      then have "heat_add fieldByKey r ?m = js_set ?k (?c\<lparr>hc_kwh := js_set field (key_energy rows fieldByKey ?k field + cr_kwh r) (hc_kwh ?c)\<rparr>) ?m"
        by (simp add: heat_add_def Some js_get_map occ Let_def)
      also have "\<dots> = map (\<lambda>(k', n'). (k', if k' = ?k then key_cell (rows @ [r]) fieldByKey ?k n else key_cell rows fieldByKey k' n')) occ"
        unfolding js_set_map [OF assms occ, of _ "\<lambda>k n. key_cell rows fieldByKey k n"] by (auto simp: new [of ?k n])
      also have "\<dots> = map (\<lambda>(k, n). (k, key_cell (rows @ [r]) fieldByKey k n)) occ"
      proof (rule map_cong [OF refl], clarsimp)
        fix k' n' assume "(k', n') \<in> set occ"
        then have "k' = ?k \<Longrightarrow> n' = n" using assms occ by (metis map_of_is_SomeI option.inject)
        then show "(k' = ?k \<longrightarrow> key_cell (rows @ [r]) fieldByKey ?k n = key_cell (rows @ [r]) fieldByKey ?k n')
          \<and> (k' \<noteq> ?k \<longrightarrow> key_cell rows fieldByKey k' n' = key_cell (rows @ [r]) fieldByKey k' n')" using new [of k' n'] by auto
      qed
      finally show ?thesis unfolding run .
    qed
  qed
qed

lemma concat_if: "concat (map (\<lambda>x. if P x then [f x] else []) xs) = map f (filter P xs)"
  by (induction xs) auto

lemma singleton_list: "distinct zs \<Longrightarrow> set zs = {k} \<Longrightarrow> zs = [k]"
  by (cases zs; cases "tl zs") auto

lemma sort_key_unique:
  assumes "sorted (map f ys)" and "distinct (map f ys)" and "set xs = set ys" and "distinct xs"
  shows "sort_key f xs = ys"
proof -
  have inj: "inj_on f (set ys)" using assms(2) by (simp add: distinct_map)
  have "mset ys = mset xs" using assms by (simp add: set_eq_iff_mset_eq_distinct [symmetric] distinct_map)
  moreover have "filter (\<lambda>x. f k = f x) ys = filter (\<lambda>x. f k = f x) xs" if "k \<in> set ys" for k
  proof -
    have one: "filter (\<lambda>x. f k = f x) zs = [k]" if "set zs = set ys" "distinct zs" for zs
    proof -
      have "set (filter (\<lambda>x. f k = f x) zs) = {k}" using that(1) \<open>k \<in> set ys\<close> inj by (auto dest: inj_onD)
      then show ?thesis using that(2) by (intro singleton_list) simp_all
    qed
    show ?thesis using one [of ys] one [of xs] assms by (simp add: distinct_map)
  qed
  ultimately show ?thesis using assms(1) by (intro properties_for_sort_key) auto
qed

text \<open>The hours of a slot, said without the loop: the whole UTC hours of the window at which the clock shows it.\<close>

definition slot_hours :: "zone_data \<Rightarrow> string \<Rightarrow> millis \<Rightarrow> millis \<Rightarrow> int \<Rightarrow> int \<Rightarrow> millis set" where
  "slot_hours zone tz lo hi hod dow =
     {t. lo \<le> t \<and> t < hi \<and> HOUR dvd t \<and> zp_hour (zoneParts zone tz t) = hod \<and> isoWeekday zone tz t = dow}"

lemma hour_steps_hours:
  "HOUR dvd t \<Longrightarrow> distinct (hour_steps t stop) \<and> set (hour_steps t stop) = {u. t \<le> u \<and> u < stop \<and> HOUR dvd u}"
proof (induction t stop rule: hour_steps.induct)
  case (1 t stop)
  have gap: "t = u \<or> t + HOUR \<le> u" if "t \<le> u" "HOUR dvd u" for u
  proof -
    have "HOUR dvd u - t" by (rule dvd_diff [OF that(2) "1.prems"])
    then obtain k where "u - t = HOUR * k" by (elim dvdE)
    with \<open>t \<le> u\<close> show ?thesis by (cases "k \<le> 0") (auto simp: HOUR_def)
  qed
  show ?case
  proof (cases "t < stop")
    case True
    have "HOUR dvd t + HOUR" using "1.prems" by simp
    note IH = "1.IH" [OF True this]
    have "{u. t \<le> u \<and> u < stop \<and> HOUR dvd u} = insert t {u. t + HOUR \<le> u \<and> u < stop \<and> HOUR dvd u}"
      using gap True "1.prems" by (auto simp: HOUR_def)
    then show ?thesis using IH True by (subst (1 2) hour_steps.simps) (simp add: HOUR_def)
  qed (auto simp: hour_steps.simps)
qed

lemma nextHourStart: "HOUR dvd nextHourStart lo" "HOUR dvd t \<Longrightarrow> nextHourStart lo \<le> t \<longleftrightarrow> lo \<le> t"
proof -
  show "HOUR dvd nextHourStart lo" by (simp add: nextHourStart_def hour_ceil_def)
  assume "HOUR dvd t"
  then obtain k where k: "t = HOUR * k" by (elim dvdE)
  have "lo \<le> HOUR * k \<longleftrightarrow> - k \<le> (- lo) div HOUR" using mult_div_mod_eq [of HOUR "- lo"] pos_mod_sign [of HOUR "- lo"] pos_mod_bound [of HOUR "- lo"]
    unfolding HOUR_def by linarith
  then show "nextHourStart lo \<le> t \<longleftrightarrow> lo \<le> t" by (auto simp: nextHourStart_def hour_ceil_def k HOUR_def)
qed

lemma hours_in_slot_hours:
  "hours_in_slot zone tz lo hi hod dow = [] \<longleftrightarrow> slot_hours zone tz lo hi hod dow = {}"
  "length (hours_in_slot zone tz lo hi hod dow) = card (slot_hours zone tz lo hi hod dow)"
proof -
  note steps = hour_steps_hours [OF nextHourStart(1), of lo hi]
  have set: "set (hours_in_slot zone tz lo hi hod dow) = slot_hours zone tz lo hi hod dow"
    unfolding hours_in_slot_def set_filter steps [THEN conjunct2] slot_hours_def using nextHourStart(2) [of _ lo] by blast
  then show "hours_in_slot zone tz lo hi hod dow = [] \<longleftrightarrow> slot_hours zone tz lo hi hod dow = {}" by (metis set_empty)
  have "distinct (hours_in_slot zone tz lo hi hod dow)" using steps unfolding hours_in_slot_def by (simp add: distinct_filter)
  then show "length (hours_in_slot zone tz lo hi hod dow) = card (slot_hours zone tz lo hi hod dow)"
    unfolding set [symmetric] by (simp add: distinct_card)
qed

lemma heatmap_of_steps:
  "heatmapCells rows fieldByKey ALL_ENERGY_FIELDS (hodDowOccurrences zone tz lo hi) =
     [table_cell rows fieldByKey hod dow (int (length (hours_in_slot zone tz lo hi hod dow))).
       dow \<leftarrow> [1..7], hod \<leftarrow> [0..23], hours_in_slot zone tz lo hi hod dow \<noteq> []]"
  (is "_ = ?table")
proof -
  let ?occ = "hodDowOccurrences zone tz lo hi"
  let ?n = "\<lambda>hod dow. int (length (hours_in_slot zone tz lo hi hod dow))"
  have distinct: "distinct (map fst ?occ)" by (simp add: hodDowOccurrences_def distinct_group_fold)
  have cells: "fold (heat_add fieldByKey) rows (fold (\<lambda>(key, n). js_set key (cell_of_slot ALL_ENERGY_FIELDS key n)) ?occ [])
      = map (\<lambda>(k, n). (k, key_cell rows fieldByKey k n)) ?occ"
    using js_set_all_new [OF distinct, of "[]" "cell_of_slot ALL_ENERGY_FIELDS"] heat_cells [OF distinct] by simp
  have cell: "key_cell rows fieldByKey (slotKey h d) n = table_cell rows fieldByKey h d n" if "0 \<le> h" "0 \<le> d" for h d n
    using that by (simp add: key_cell_def table_cell_def cell_of_slot_slotKey emptyCell_def key_energy_def slot_energy_def slotKey_inj)
  have entries: "(k, n) \<in> set ?occ \<longleftrightarrow> (\<exists>h d. k = slotKey h d \<and> 0 \<le> h \<and> h < 24 \<and> 1 \<le> d \<and> d \<le> 7
      \<and> hours_in_slot zone tz lo hi h d \<noteq> [] \<and> n = ?n h d)" for k n
    using occurrences_keys [of k zone tz lo hi] occurrences_get [of zone tz lo hi] distinct
    by (metis (no_types, lifting) image_eqI fst_conv map_of_SomeD map_of_is_SomeI option.inject)
  let ?cells = "map (\<lambda>(k, n). key_cell rows fieldByKey k n) ?occ"
  have members: "set ?cells = set ?table"
  proof (intro set_eqI iffI)
    fix c assume "c \<in> set ?cells"
    then obtain k n where "(k, n) \<in> set ?occ" "c = key_cell rows fieldByKey k n" by auto
    with entries [of k n] cell show "c \<in> set ?table" by fastforce
  next
    fix c assume "c \<in> set ?table"
    then obtain h d where hd: "0 \<le> h" "h < 24" "1 \<le> d" "d \<le> 7" "hours_in_slot zone tz lo hi h d \<noteq> []" "c = table_cell rows fieldByKey h d (?n h d)"
      by auto
    then have "(slotKey h d, ?n h d) \<in> set ?occ" using entries by blast
    then have "key_cell rows fieldByKey (slotKey h d) (?n h d) \<in> set ?cells" by force
    then show "c \<in> set ?cells" using cell [of h d] hd by simp
  qed
  let ?slots = "[(d, h). d \<leftarrow> [1..7], h \<leftarrow> [0..23]] :: (int \<times> int) list"
  have slots: "sorted ?slots" "distinct ?slots" by code_simp+
  have keys: "map (\<lambda>c. (hc_dow c, hc_hod c)) ?table = filter (\<lambda>(d, h). hours_in_slot zone tz lo hi h d \<noteq> []) ?slots"
    by (simp add: map_concat filter_concat filter_map comp_def table_cell_def concat_if)
  have "inj_on (\<lambda>(k, n). key_cell rows fieldByKey k n) (set ?occ)"
  proof (rule inj_onI, clarify)
    fix k n k' n' assume in_occ: "(k, n) \<in> set ?occ" "(k', n') \<in> set ?occ" and eq: "key_cell rows fieldByKey k n = key_cell rows fieldByKey k' n'"
    obtain h d h' d' where "k = slotKey h d" "0 \<le> h" "0 \<le> d" "n = ?n h d" "k' = slotKey h' d'" "0 \<le> h'" "0 \<le> d'" "n' = ?n h' d'"
      using entries [of k n] entries [of k' n'] in_occ by force
    moreover from this eq have "h = h'" "d = d'" by (simp_all add: cell table_cell_def)
    ultimately show "k = k' \<and> n = n'" by simp
  qed
  then have "distinct ?cells" using distinct by (simp add: distinct_map)
  then have "sort_key (\<lambda>c. (hc_dow c, hc_hod c)) ?cells = ?table"
    by (intro sort_key_unique) (simp_all only: keys members sorted_wrt_filter distinct_filter slots)
  then show ?thesis unfolding heatmapCells_def Let_def cells by (simp add: comp_def case_prod_unfold)
qed

text \<open>C40. The heatmap is the table of the slots that occur: in the order of weekday and hour it has one cell for each slot
  that the wall clock shows at a whole UTC hour of the window (from its start on and before its end), with the number of
  those hours, and in each energy field the sum of the rows of that slot whose metric feeds the field; rows of other slots
  and of other metrics are in no cell.\<close>

theorem heatmap_is_table:
  "heatmapCells rows fieldByKey ALL_ENERGY_FIELDS (hodDowOccurrences zone tz lo hi) =
     [table_cell rows fieldByKey hod dow (int (card (slot_hours zone tz lo hi hod dow))).
       dow \<leftarrow> [1..7], hod \<leftarrow> [0..23], slot_hours zone tz lo hi hod dow \<noteq> {}]"
  unfolding hours_in_slot_hours [symmetric] by (rule heatmap_of_steps)

subsection \<open>Progress and payback\<close>

lemma recovery_consistent:
  assumes "0 < cost"
  shows "\<exists>p. recovery cost savings = \<lparr>rp_progress = Some p, rp_remaining = Some (cost * (1 - p)), rp_paidOff = (p = 1)\<rparr> \<and> 0 \<le> p \<and> p \<le> 1"
proof -
  consider "savings \<le> 0" | "0 < savings" "savings < cost" | "cost \<le> savings" by linarith
  then show ?thesis
  proof cases
    case 1
    then have "savings / cost \<le> 0" using assms by (simp add: divide_le_0_iff)
    with 1 assms show ?thesis by (intro exI [of _ 0]) (simp add: recovery_def clamp01_def)
  next
    case 2
    then have "0 < savings / cost" "savings / cost < 1" using assms by simp_all
    moreover from 2 assms have "cost * (1 - savings / cost) = cost - savings" by (simp add: right_diff_distrib)
    ultimately show ?thesis using 2 assms by (intro exI [of _ "savings / cost"]) (simp add: recovery_def clamp01_def)
  next
    case 3
    then have "1 \<le> savings / cost" using assms by simp
    with 3 assms show ?thesis by (intro exI [of _ 1]) (simp add: recovery_def clamp01_def)
  qed
qed

text \<open>The date of a plant not yet paid off lies ahead, and one paid off took no longer than it has run.\<close>

lemma payback_lies_ahead:
  assumes "payback cost (Some (savings / years)) years (savings \<ge> cost) now = Inr p" and "0 < years" and "0 < cost" and "0 < savings" and "0 \<le> now"
  shows "(savings < cost \<longrightarrow> (\<exists>d. pp_paybackDate p = Some d \<and> now \<le> d)) \<and> (cost \<le> savings \<longrightarrow> (\<exists>y. pp_paybackYears p = Some y \<and> y \<le> years))"
proof -
  have total: "cost / (savings / years) = cost / savings * years" by simp
  have rate: "0 < savings / years" using assms by simp
  show ?thesis
  proof (cases "cost \<le> savings")
    case True
    then have "cost / savings * years \<le> 1 * years" using assms by (intro mult_right_mono) simp_all
    with True assms rate total show ?thesis by (auto simp: payback_def Let_def)
  next
    case False
    then have "1 * years \<le> cost / savings * years" using assms by (intro mult_right_mono) simp_all
    then have "0 \<le> (cost / (savings / years) - years) * DAYS_PER_YEAR * of_int DAY"
      unfolding total by (simp add: DAYS_PER_YEAR_def DAY_def)
    then have "of_int now \<le> of_int now + (cost / (savings / years) - years) * DAYS_PER_YEAR * of_int DAY" by simp
    then have "now \<le> \<lfloor>of_int now + (cost / (savings / years) - years) * DAYS_PER_YEAR * of_int DAY\<rfloor>" by (simp add: le_floor_iff)
    moreover have "0 \<le> of_int now + (cost / (savings / years) - years) * DAYS_PER_YEAR * of_int DAY"
      using \<open>0 \<le> (cost / (savings / years) - years) * DAYS_PER_YEAR * of_int DAY\<close> assms(5) by simp
    ultimately show ?thesis using False assms rate
      by (auto simp: payback_def Let_def date_of_number_def split: if_splits sum.splits)
  qed
qed

text \<open>
  A replaced device whose lifetime counters start again, on a plant in service for twenty years: the first
  0.1 kWh put the payback beyond the last date JavaScript has, and the page fails with a \<open>RangeError\<close>.
\<close>

lemma tiny_savings_throw:
  "amortisation \<lparr>ai_currency = ''EUR'', ai_investment = \<lparr>ic_totalCost = 20000, ic_commissionedOn = Some ''2005-06-01''\<rparr>,
     ai_lifetime = emptyTotals\<lparr>et_exportKwh := 1 / 10\<rparr>, ai_metersLoad = True, ai_rates = \<lparr>ra_importPrice = 3 / 10, ra_exportPrice = 8 / 100\<rparr>,
     ai_recordedSince = None, ai_solarYears = None, ai_seasonalGaps = [GapWeather], ai_now = 1750000000000\<rparr> = Inl RangeErrorInvalidTime"
  by code_simp

end
