(* ===== verification/Spec2Isabelle.thy ===== *)
theory Spec2Isabelle
  imports Solarman_Port Modbus_Transport Storage_Policy Control_Writer Peak_Shaving_Plan Broker_Pool
    Register_Return Scoring_Walk Device_Writer History_Buffer
    Connection_Tier Ev_Power_Estimator Cost_Engine Driver Device_Registry Poll_Runtime Statistics
begin

text \<open>
  SunReye polls solar and hybrid inverters described by data (\<open>profiles\<close>), stores every reading,
  lets a user write settings through validated controls, and runs automations that steer the
  battery. This library models the parts of it that decide something, one theory per component,
  each a translation of the source files it names.

  \<^bold>\<open>The path of a reading.\<close> A profile declares metrics over registers (\<^verbatim>\<open>types.ts\<close>,
  \<^verbatim>\<open>profile-data.ts\<close>: \<open>Profile_Types\<close>). The planner groups the registers into read blocks under the
  device's cap and keeps what a computed metric depends on in one block (\<^verbatim>\<open>modbus-transport.ts\<close>:
  \<open>Read_Plan\<close>). The transport reads the blocks, narrows a block the device refuses, serializes
  every access by a lock, and checks and encodes writes (\<open>Modbus_Transport\<close>). Its port is a
  third-party client or \<open>SolarmanV5Port\<close>, which wraps Modbus frames in the Solarman V5 envelope
  (\<^verbatim>\<open>solarman/rtu.ts\<close>, \<^verbatim>\<open>v5-frame.ts\<close>: \<open>Solarman_Frame\<close>; \<^verbatim>\<open>v5-port.ts\<close>: \<open>Solarman_Port\<close>). Words become
  values and back in \<^verbatim>\<open>codec.ts\<close> (\<open>Modbus_Codec\<close>). Roles give metrics their meaning (\<^verbatim>\<open>roles.ts\<close>,
  \<^verbatim>\<open>plant-aggregate.ts\<close>: \<open>Roles\<close>) and from roles a device's capabilities, manifest and role view are
  derived (\<^verbatim>\<open>capabilities.ts\<close>, \<^verbatim>\<open>device-instance.ts\<close>: \<open>Capabilities\<close>). The storage policy routes each
  sample to the series, the change log or nowhere (\<^verbatim>\<open>storage-policy.ts\<close>: \<open>Storage_Policy\<close>), and a
  series is stored as intervals within a deadband (\<^verbatim>\<open>change-encoder.ts\<close>: \<open>Change_Encoder\<close>). The writer
  holds one policy per device (\<^verbatim>\<open>device-writer.ts\<close>: \<open>Device_Writer\<close>) and the rows wait in the buffer for
  the next transaction (\<^verbatim>\<open>history-buffer.ts\<close>: \<open>History_Buffer\<close>). \<open>Driver\<close> makes the sample of a read, its
  computed metrics included (\<^verbatim>\<open>computed.ts\<close>, \<^verbatim>\<open>driver.ts\<close>), and \<open>Plant_Source\<close> folds the members of a plant
  into what the plant reads, live and over the raw series (\<^verbatim>\<open>plant-source.ts\<close>, \<^verbatim>\<open>plant-fold.ts\<close>). The devices in service are the snapshot of
  \<open>Device_Registry\<close> (\<^verbatim>\<open>registry.ts\<close>). \<open>Poll_Runtime\<close> is the loop around all this: the ticks, the error policy, the
  recovery of the roster and the rebuild of the source, each \<open>await\<close> an event of its own, and the job
  scheduler (\<^verbatim>\<open>runtime.ts\<close>, \<^verbatim>\<open>job-scheduler.ts\<close>).

  \<^bold>\<open>Energy and cost.\<close> \<open>Tariff\<close> prices an hour or a market slot (\<^verbatim>\<open>tariff.ts\<close>), \<open>Tariff_Cost\<close> the hours of a
  window, today's live registers and the rows of a series (\<^verbatim>\<open>energy-calc.ts\<close>, \<^verbatim>\<open>cost-calc.ts\<close>), over the
  keyed accumulation of \<open>Keyed_Sums\<close>. \<open>Energy_Reader\<close> has the two readers of the rollups: one chains the
  buckets in TypeScript, the other in the SQL it sends, modelled as what PostgreSQL's \<open>lag\<close>,
  \<open>distinct on\<close> and \<open>group by\<close> mean (\<^verbatim>\<open>rollup-reader.ts\<close>, \<^verbatim>\<open>period-keys.ts\<close>, \<^verbatim>\<open>energy.ts\<close>). \<open>Period_Bars\<close> says which bars a
  window has, over a zone with at most one clock change in any eight days. \<open>Cost_Engine\<close>
  composes them into the two answers of the costs page (\<^verbatim>\<open>cost.ts\<close>), and \<open>Statistics\<close> has the heatmap, the
  records and the payback made of their rows and days (\<^verbatim>\<open>statistics-calc.ts\<close>, \<^verbatim>\<open>amortisation-calc.ts\<close>). The rows of the views, PostgreSQL's
  wall clock of a zone, the stored spot prices, the cached sample and the clock are arguments.

  \<^bold>\<open>The path of a command.\<close> \<open>Control_Writer\<close> holds the write funnel: entity constraints and
  validation, then direct writes, lock toggles with their stored snapshots, and presets
  (\<^verbatim>\<open>entities.ts\<close>, \<^verbatim>\<open>control-expr.ts\<close>, \<^verbatim>\<open>control-writer.ts\<close>, \<^verbatim>\<open>control-store.ts\<close>, \<^verbatim>\<open>control-state.ts\<close>).

  \<^bold>\<open>The automation.\<close> \<open>Zoned_Calendar\<close> is the plant's calendar over a time zone (\<^verbatim>\<open>zone-parts.ts\<close>,
  \<^verbatim>\<open>zoned-calendar.ts\<close>), \<open>Slot_Window\<close> the geometry of forecast slots and the energy flow of one
  (\<^verbatim>\<open>slot-window.ts\<close>, \<^verbatim>\<open>energy-flow.ts\<close>), \<open>Price_Plan\<close> the negative-price windows and what they ask
  for (\<^verbatim>\<open>price-plan.ts\<close>), \<open>Peak_Shaving\<close> the guards and the decision of one tick
  (\<^verbatim>\<open>peak-shaving.ts\<close>) and \<open>Peak_Shaving_Plan\<close> its projection over today and tomorrow
  (\<^verbatim>\<open>peak-shaving-plan.ts\<close>). \<open>Ev_Pull_In\<close> decides which cars to borrow (\<^verbatim>\<open>ev-pull-in.ts\<close>),
  \<open>Automation_State\<close> holds the stored snapshots, their keys and their re-keying
  (\<^verbatim>\<open>automation-state.ts\<close>), and \<open>Peak_Shaving_Engine\<close> is the loop that takes, steers and hands back the
  registers and the cars (\<^verbatim>\<open>peak-shaving-engine.ts\<close>): an action of \<open>Async\<close> over the plant, whose
  every call is answered by an oracle that sees the number of the call, so that each one may fail
  on its own. \<open>Register_Custody\<close> and \<open>Register_Return\<close> prove what it does with what it borrows.
  \<open>Ev_Power_Estimator\<close> is the charge power shown between two publishes of EVCC
  (\<^verbatim>\<open>ev-power-estimator.ts\<close>).

  \<^bold>\<open>The battery's health.\<close> \<open>Battery_Capacity\<close> measures the discharges in the stored readings and
  estimates the pack's capacity from them (\<^verbatim>\<open>capacity-estimate.ts\<close>); \<open>Scoring_Walk\<close> reads the rows
  and walks years of history in overlapping chunks (\<^verbatim>\<open>health.ts\<close>, \<^verbatim>\<open>keys.ts\<close>, \<^verbatim>\<open>scoring-plan.ts\<close>,
  \<^verbatim>\<open>scoring-walk.ts\<close>).

  \<^bold>\<open>The broker.\<close> \<open>Broker_Pool\<close> is the pool that owns one MQTT client per connection row for all
  its consumers (\<^verbatim>\<open>broker-pool.ts\<close>). \<open>Connection_Tier\<close> is the pass that opens every connection of the plant
  on the tier of its kind, and the MQTT tier as a consumer of that pool (\<^verbatim>\<open>connection-tier.ts\<close>,
  \<^verbatim>\<open>mqtt-tier.ts\<close>, \<^verbatim>\<open>connection-runtime.ts\<close>); what else runs while the pass awaits is a parameter.

  \<^bold>\<open>How the code is modelled.\<close> Definitions keep the source's names. Objects are records, unions are
  datatypes, \<open>Map\<close>s and \<open>Set\<close>s are insertion-ordered lists (\<open>js_map\<close>, \<open>set_add\<close> of \<open>Prelude\<close>).
  A handler with side effects returns the new state and the list of its effects in order, a run
  is \<open>run_steps\<close> over a list of events, and whatever the program only calls (sockets, timers, the
  database, callbacks, ICU's time zone data, the answer of a device) is an event, an effect or a
  parameter. A throw or an error return is a value of a sum type. Registers and bytes are words;
  integral numbers (addresses, epoch milliseconds) are \<open>int\<close> or \<open>nat\<close>; measured values are
  reals, or rationals of the encoder with the non-finite cases as constructors where the code
  tests for them. So rounding to a register or to an ampere step is modelled exactly and the
  rounding error of a double is not: no theorem bounds it. Log lines are dropped.

  \<^bold>\<open>Loops and bounds.\<close> \<open>split_loop\<close>, the planner's merges and the replay of a projection recurse on
  lists or a measure. The level search of the grid-friendly mode runs its 32 halvings, and
  \<open>plateau_solves_budget\<close> states the resolution they reach. The bisection for a clock change may
  not return, so it is a \<open>partial_function (option)\<close>, like the loop that cuts a history into chunks
  (it returns for every overlap shorter than a chunk, and a lemma shows the others); it returns when the span is a whole number
  of minutes, and a lemma shows a zone where it does not. So is the walk over the periods of a window,
  and what asks the calendar is an option: \<open>series_returns\<close> says when the series is answered.

  \<^bold>\<open>What is proved.\<close> Transport: the plan covers, respects its cap and keeps groups together; samples
  not marked degraded are coherent and polling recovers after any history of refusals; nothing
  but one valid word of a writable register reaches the wire; transactions never overlap; frames
  round-trip, any chunking of a stream gives the same behaviour, one corrupted byte is detected,
  a waiting open is always answered. Codec: no silent wrap, a round trip within half a step,
  clamping is counted. Storage: what is read back lies within the deadband, intervals respect
  buckets, the configuration log is a change log, every device is served as if it were alone (a
  refinement), a repeated registration leaves no trace, and no row is lost uncounted. Commands: nothing unvalidated is written,
  lock then unlock restores, a refused preset writes nothing. Calendar and prices: days and
  periods tile, energy is additive over windows, windows are the maximal runs, and the plan asks
  for nothing outside them. Peak shaving: an accepted configuration can run, no peak is missed,
  the current stays in its bounds (the ceiling, in the grid-friendly mode up to the rounding and the
  previous target of its ramp), the price layer only holds back, the projection conserves
  energy. Engine: the user's setting of a borrowed register survives any history of failures, and
  a disabled tick that is answered gives it back, both as long as the samples read show the registers
  not borrowed as they are; the plan for the cars converges, switching it off leaves the cars as they
  were found, and re-keying the snapshots loses none. Battery: a segment is a maximal stretch of
  discharge with its exact energy, the chunks of a walk always end and together record what one pass
  would, under the conditions on the table that theorem names. Energy: a lifetime
  counter is billed once, the SQL reader and the TypeScript reader agree row by row (\<open>matrix_tallies\<close>), so
  the chart's bars, one for each period half inside the window, have the money of their hours and add up to
  the tiles of a window of whole periods, the days and bands of a bill to its totals, and under one rate
  the money is the energy's; the heatmap is the table of the hours that occur. Plant: the live reading is its fresh members', a series carries each
  member's last value, a sample is typed by its profile. Runtime: polls never stack, no source is left
  open while rebuilds do not overlap, and an outage without a successful read is logged sparsely. Broker: only held
  rows are dialled and retries never stop; a pass makes every call whatever throws, leaves a live link for every
  broker row and leaks no holder. EVCC: a charge power called measured is the last one published. Lemmas named in the findings
  of the manifest show where the code does something else than it says.

  \<^bold>\<open>Interfaces.\<close> \<open>framing\<close> (a splitter of a byte stream, provided by \<open>Solarman_Frame\<close>), \<open>row_stage\<close>
  (a stage that turns readings into rows, provided by \<open>Change_Encoder\<close> and \<open>Storage_Policy\<close>) and
  \<open>control_store\<close> (the store of engaged locks, provided in \<open>Control_Writer\<close>) are locales,
  interpreted on the definitions of those theories.

  \<^bold>\<open>Not modelled.\<close> The web application, command lines, scripts and deployment (no decisions of the
  running system); the database's own statements outside the energy reader, migrations and archive
  formats; validation that a schema library does; the forecast's solar geometry and irradiance
  (trigonometry over doubles); the rebuild of the MQTT bridge and the
  bodies of the background jobs; HTTP, WebSocket and MQTT topic plumbing; simulators; the administration
  of devices, whose operations are rows and requests around the modelled registry of connections; what
  the statistics endpoints fetch and cache around the modelled arithmetic.
\<close>

end
